(* ===== verification/Prelude.thy ===== *)
theory Prelude
  imports Complex_Main "HOL-Library.Sublist"
begin

unbundle bit_operations_syntax

text \<open>
  The vocabulary the component theories share: the JavaScript strings, arrays, results and
  string methods that the runtime library under \<open>src/jac/js_engine/engine/src/builtins/js\<close>
  uses, with the list lemmas about them.

  A JavaScript string is the list of its UTF-16 code units, each a number below 65536
  (\<open>is_jsstr\<close>); \<open>length\<close>, indexing and \<open>charCodeAt\<close> of the source count code units, and so do
  \<open>length\<close> and \<open>!\<close> here. A literal of the source is written \<open>js ''abc''\<close>. A function that may
  throw returns \<open>js_error + 'a\<close>, with \<open>Inl\<close> for the exception that is thrown.
\<close>

section \<open>Strings, bytes and results\<close>

type_synonym jsstr = "nat list"
type_synonym bytes = "nat list"

abbreviation js :: "string \<Rightarrow> jsstr" where
  "js s \<equiv> map of_char s"

definition is_jsstr :: "jsstr \<Rightarrow> bool" where
  "is_jsstr s \<longleftrightarrow> (\<forall>c \<in> set s. c < 65536)"

definition is_bytes :: "bytes \<Rightarrow> bool" where
  "is_bytes b \<longleftrightarrow> (\<forall>c \<in> set b. c < 256)"

text \<open>
  The values that argument checks see. A finite number is the rational it denotes (doubles are
  rationals), so comparisons are exact; objects, functions and symbols are their identities;
  \<open>VArr\<close> is what \<open>Array.isArray\<close> accepts, \<open>VBuffer\<close> what \<open>Buffer.isBuffer\<close> accepts, and
  \<open>VBuffer\<close> and \<open>VView\<close> are what \<open>ArrayBuffer.isView\<close> accepts.
\<close>

datatype jsnum = NaN | PosInf | NegInf | Fin rat

datatype jsval =
    VUndef
  | VNull
  | VBool bool
  | VNum jsnum
  | VBigInt int
  | VStr jsstr
  | VSym nat
  | VFun nat
  | VArr "jsval list"
  | VBuffer bytes
  | VView bytes
  | VObj nat

fun typeof :: "jsval \<Rightarrow> string" where
  "typeof VUndef = ''undefined''"
| "typeof (VBool _) = ''boolean''"
| "typeof (VNum _) = ''number''"
| "typeof (VBigInt _) = ''bigint''"
| "typeof (VStr _) = ''string''"
| "typeof (VSym _) = ''symbol''"
| "typeof (VFun _) = ''function''"
| "typeof _ = ''object''"

text \<open>
  The exceptions the modelled code throws. The three \<open>Err\<close> constructors are the factories of
  \<open>internal/errors.js\<close>: they keep the parts from which the message is put together.
\<close>

datatype range = AnInteger | AtLeast int | AtMost int | Between int int

datatype js_error =
    TypeError string
  | RangeError string
  | SyntaxError string
  | URIError
  | ErrInvalidArgType string string jsval  \<comment> \<open>argument, what it must be, what was received\<close>
  | ErrInvalidArgValue string string jsval
  | ErrOutOfRange string range jsval
  | CodedError string  \<comment> \<open>an error with this value in its property \<open>code\<close>\<close>
  | Thrown nat         \<comment> \<open>a value thrown by user code, by its identity\<close>

type_synonym 'a result = "js_error + 'a"

text \<open>Sequencing: an exception skips what follows.\<close>

definition bind_result :: "'a result \<Rightarrow> ('a \<Rightarrow> 'b result) \<Rightarrow> 'b result" where
  "bind_result m f = (case m of Inl e \<Rightarrow> Inl e | Inr a \<Rightarrow> f a)"

lemma bind_result_simps [simp]:
  "bind_result (Inl e) f = Inl e"
  "bind_result (Inr a) f = f a"
  by (simp_all add: bind_result_def)

lemma bind_result_Inr: "bind_result m f = Inr b \<longleftrightarrow> (\<exists>a. m = Inr a \<and> f a = Inr b)"
  by (cases m) auto

text \<open>\<open>String(n)\<close> for a natural number: its decimal digits.\<close>

fun dec_string :: "nat \<Rightarrow> string" where
  "dec_string n =
     (if n < 10 then [char_of (48 + n)] else dec_string (n div 10) @ [char_of (48 + n mod 10)])"

declare dec_string.simps [simp del]

named_theorems js_defs \<open>definitions of the string methods\<close>

lemma is_jsstr_simps [simp]:
  "is_jsstr []"
  "is_jsstr (c # s) \<longleftrightarrow> c < 65536 \<and> is_jsstr s"
  "is_jsstr (s @ t) \<longleftrightarrow> is_jsstr s \<and> is_jsstr t"
  by (auto simp: is_jsstr_def)

lemma is_bytes_simps [simp]:
  "is_bytes []"
  "is_bytes (c # s) \<longleftrightarrow> c < 256 \<and> is_bytes s"
  "is_bytes (s @ t) \<longleftrightarrow> is_bytes s \<and> is_bytes t"
  by (auto simp: is_bytes_def)

lemma is_bytes_concat: "(\<And>x. x \<in> set xs \<Longrightarrow> is_bytes x) \<Longrightarrow> is_bytes (concat xs)"
  by (induction xs) auto

section \<open>String methods of the language\<close>

text \<open>\<open>s.split(c)\<close> for a separator of one code unit: always at least one part.\<close>

fun split1 :: "'a \<Rightarrow> 'a list \<Rightarrow> 'a list list" where
  "split1 c [] = [[]]"
| "split1 c (x # xs) =
     (if x = c then [] # split1 c xs
      else (case split1 c xs of [] \<Rightarrow> [[x]] | p # ps \<Rightarrow> (x # p) # ps))"

text \<open>\<open>parts.join(sep)\<close>.\<close>

fun join_with :: "'a list \<Rightarrow> 'a list list \<Rightarrow> 'a list" where
  "join_with sep [] = []"
| "join_with sep [p] = p"
| "join_with sep (p # q # ps) = p @ sep @ join_with sep (q # ps)"

text \<open>\<open>s.slice(a, b)\<close> and \<open>s.substring(a, b)\<close> for \<open>0 \<le> a \<le> b\<close>; both stop at the end of \<open>s\<close>.\<close>

definition slice :: "'a list \<Rightarrow> nat \<Rightarrow> nat \<Rightarrow> 'a list" where
  "slice s a b = take (b - a) (drop a s)"

text \<open>\<open>s.indexOf(c)\<close> and \<open>s.lastIndexOf(c)\<close> for one code unit; \<open>None\<close> for \<open>-1\<close>.\<close>

fun index_of :: "'a \<Rightarrow> 'a list \<Rightarrow> nat option" where
  "index_of c [] = None"
| "index_of c (x # xs) = (if x = c then Some 0 else map_option Suc (index_of c xs))"

fun last_index_of :: "'a \<Rightarrow> 'a list \<Rightarrow> nat option" where
  "last_index_of c [] = None"
| "last_index_of c (x # xs) =
     (case last_index_of c xs of Some i \<Rightarrow> Some (Suc i)
      | None \<Rightarrow> if x = c then Some 0 else None)"

text \<open>\<open>s.indexOf(t)\<close> for a string \<open>t\<close>: the first position where \<open>t\<close> occurs.\<close>

fun index_of_str :: "'a list \<Rightarrow> 'a list \<Rightarrow> nat option" where
  "index_of_str t [] = (if t = [] then Some 0 else None)"
| "index_of_str t (x # xs) =
     (if prefix t (x # xs) then Some 0 else map_option Suc (index_of_str t xs))"

text \<open>
  \<open>s.toLowerCase()\<close>. The mapping is the Unicode one for every code unit below 256 (ASCII and
  Latin-1); a code unit from 256 on is left as it is, which is not what the method does with all of them, so
  the definition is exact on the strings of code units below 256 only. Those are the strings the network
  components receive and the header names that pass validation; a statement about other strings that
  depends on their lower case says so.
\<close>

definition lower_unit :: "nat \<Rightarrow> nat" where
  "lower_unit c = (if (65 \<le> c \<and> c \<le> 90) \<or> (192 \<le> c \<and> c \<le> 222 \<and> c \<noteq> 215) then c + 32 else c)"

definition to_lower :: "jsstr \<Rightarrow> jsstr" where
  "to_lower s = map lower_unit s"

definition ends_with :: "jsstr \<Rightarrow> jsstr \<Rightarrow> bool" where
  "ends_with s t \<longleftrightarrow> length t \<le> length s \<and> drop (length s - length t) s = t"

text \<open>\<open>s.trim()\<close>: the white space and line terminators of ECMA-262.\<close>

definition is_white :: "nat \<Rightarrow> bool" where
  "is_white c \<longleftrightarrow>
     (9 \<le> c \<and> c \<le> 13) \<or> c = 32 \<or> c = 160 \<or> c = 0x1680 \<or> (0x2000 \<le> c \<and> c \<le> 0x200a) \<or>
     c = 0x2028 \<or> c = 0x2029 \<or> c = 0x202f \<or> c = 0x205f \<or> c = 0x3000 \<or> c = 0xfeff"

definition trim :: "jsstr \<Rightarrow> jsstr" where
  "trim s = rev (dropWhile is_white (rev (dropWhile is_white s)))"

text \<open>
  \<open>parseInt(s, radix)\<close>, \<open>None\<close> for \<open>NaN\<close>: white space, a sign, with radix 16 also \<open>0x\<close>, then the
  longest run of digits. The value is the exact integer (the double is exact up to $2^{53}$).
\<close>

definition digit_value :: "nat \<Rightarrow> nat" where
  "digit_value c =
     (if 48 \<le> c \<and> c \<le> 57 then c - 48 else if 97 \<le> c \<and> c \<le> 122 then c - 87
      else if 65 \<le> c \<and> c \<le> 90 then c - 55 else 99)"

definition digits_value :: "nat \<Rightarrow> jsstr \<Rightarrow> nat" where
  "digits_value radix ds = foldl (\<lambda>n c. n * radix + digit_value c) 0 ds"

definition parseInt :: "nat \<Rightarrow> jsstr \<Rightarrow> int option" where
  "parseInt radix s =
     (let s1 = dropWhile is_white s;
          negative = (s1 \<noteq> [] \<and> hd s1 = 45);
          s2 = (if s1 \<noteq> [] \<and> (hd s1 = 45 \<or> hd s1 = 43) then tl s1 else s1);
          s3 = (if radix = 16 \<and> (take 2 s2 = [48, 120] \<or> take 2 s2 = [48, 88]) then drop 2 s2 else s2);
          ds = takeWhile (\<lambda>c. digit_value c < radix) s3
      in if ds = [] then None
         else Some (if negative then - int (digits_value radix ds) else int (digits_value radix ds)))"

text \<open>A property name that is an array index; \<open>Object.keys\<close> lists those first, in ascending order.\<close>

definition index_key :: "jsstr \<Rightarrow> nat option" where
  "index_key s =
     (if s \<noteq> [] \<and> (\<forall>c \<in> set s. 48 \<le> c \<and> c \<le> 57) \<and> (hd s \<noteq> 48 \<or> s = [48]) \<and> digits_value 10 s < 4294967295
      then Some (digits_value 10 s) else None)"

definition starts_with :: "jsstr \<Rightarrow> jsstr \<Rightarrow> bool" where
  "starts_with s t \<longleftrightarrow> take (length t) s = t"

text \<open>\<open>s.substring(a, b)\<close> for any integers: both are clamped to the string, then put in order.\<close>

definition substring :: "'a list \<Rightarrow> int \<Rightarrow> int \<Rightarrow> 'a list" where
  "substring s a b =
     (let i = min (nat a) (length s); j = min (nat b) (length s) in slice s (min i j) (max i j))"

text \<open>\<open>s.replace(t, r)\<close> for a string \<open>t\<close>: the first occurrence.\<close>

definition replace_first :: "jsstr \<Rightarrow> jsstr \<Rightarrow> jsstr \<Rightarrow> jsstr" where
  "replace_first s t r =
     (case index_of_str t s of None \<Rightarrow> s | Some i \<Rightarrow> take i s @ r @ drop (i + length t) s)"

text \<open>\<open>n.toString(16)\<close> for a natural number.\<close>

fun hex_string :: "nat \<Rightarrow> jsstr" where
  "hex_string n =
     (let d = (if n mod 16 < 10 then 48 + n mod 16 else 87 + n mod 16)
      in if n < 16 then [d] else hex_string (n div 16) @ [d])"

declare hex_string.simps [simp del]

text \<open>
  \<open>Number(s)\<close>: white space around it is dropped, the empty string is zero, then \<open>0x\<close>, \<open>0o\<close> and \<open>0b\<close> integers
  and decimal literals with a sign, a fraction and an exponent. The value is the exact rational, not the
  nearest double.
\<close>

definition digits_only :: "nat \<Rightarrow> jsstr \<Rightarrow> bool" where
  "digits_only radix ds \<longleftrightarrow> ds \<noteq> [] \<and> (\<forall>c \<in> set ds. digit_value c < radix)"

definition radix_number :: "nat \<Rightarrow> jsstr \<Rightarrow> jsnum" where
  "radix_number radix ds = (if digits_only radix ds then Fin (of_nat (digits_value radix ds)) else NaN)"

definition unsigned_number :: "jsstr \<Rightarrow> jsnum" where
  "unsigned_number s =
     (let ip = takeWhile (\<lambda>c. digit_value c < 10) s;
          r = dropWhile (\<lambda>c. digit_value c < 10) s;
          dot = (r \<noteq> [] \<and> hd r = 46);
          fp = (if dot then takeWhile (\<lambda>c. digit_value c < 10) (tl r) else []);
          ex = (if dot then dropWhile (\<lambda>c. digit_value c < 10) (tl r) else r);
          m = of_nat (digits_value 10 (ip @ fp)) / 10 ^ length fp
      in if s = js ''Infinity'' then PosInf
         else if ip @ fp = [] then NaN
         else if ex = [] then Fin m
         else if hd ex = 101 \<or> hd ex = 69 then
           (let e = tl ex; ds = (if e \<noteq> [] \<and> (hd e = 43 \<or> hd e = 45) then tl e else e)
            in if digits_only 10 ds
               then Fin (if hd e = 45 then m / 10 ^ digits_value 10 ds else m * 10 ^ digits_value 10 ds)
               else NaN)
         else NaN)"

fun negate_number :: "jsnum \<Rightarrow> jsnum" where
  "negate_number NaN = NaN"
| "negate_number PosInf = NegInf"
| "negate_number NegInf = PosInf"
| "negate_number (Fin r) = Fin (- r)"

definition to_number :: "jsstr \<Rightarrow> jsnum" where
  "to_number s =
     (let t = trim s
      in if t = [] then Fin 0
         else if take 2 t = js ''0x'' \<or> take 2 t = js ''0X'' then radix_number 16 (drop 2 t)
         else if take 2 t = js ''0o'' \<or> take 2 t = js ''0O'' then radix_number 8 (drop 2 t)
         else if take 2 t = js ''0b'' \<or> take 2 t = js ''0B'' then radix_number 2 (drop 2 t)
         else if hd t = 45 then negate_number (unsigned_number (tl t))
         else if hd t = 43 then unsigned_number (tl t)
         else unsigned_number t)"

section \<open>Lemmas on the string methods\<close>

lemma trim_id: "s \<noteq> [] \<Longrightarrow> \<not> is_white (hd s) \<Longrightarrow> \<not> is_white (last s) \<Longrightarrow> trim s = s"
  by (simp add: trim_def hd_rev dropWhile_eq_self_iff [THEN iffD2])

lemma split1_not_Nil [simp]: "split1 c s \<noteq> []"
  by (induction s) (auto split: list.splits)

lemma split1_no_sep: "p \<in> set (split1 c s) \<Longrightarrow> c \<notin> set p"
  by (induction s arbitrary: p) (auto split: list.splits if_splits)

lemma split1_single [simp]: "c \<notin> set s \<Longrightarrow> split1 c s = [s]"
  by (induction s) auto

lemma split1_append_sep: "split1 c (s @ c # t) = split1 c s @ split1 c t"
  by (induction s) (auto simp: neq_Nil_conv split: list.splits)

lemma split1_sep_end: "split1 c (s @ [c]) = split1 c s @ [[]]"
  using split1_append_sep [of c s "[]"] by simp

lemma split1_units: "p \<in> set (split1 c s) \<Longrightarrow> set p \<subseteq> set s"
  by (induction s arbitrary: p) (fastforce split: list.splits if_splits)+

lemma join_with_Cons:
  "join_with sep (p # ps) = (if ps = [] then p else p @ sep @ join_with sep ps)"
  by (cases ps) auto

lemma join_split1: "join_with [c] (split1 c s) = s"
proof (induction s)
  case (Cons x xs)
  obtain p ps where eq: "split1 c xs = p # ps"
    by (cases "split1 c xs") auto
  with Cons show ?case
    by (auto simp: join_with_Cons split: if_splits)
qed simp

lemma split1_join:
  "ps \<noteq> [] \<Longrightarrow> (\<And>p. p \<in> set ps \<Longrightarrow> c \<notin> set p) \<Longrightarrow> split1 c (join_with [c] ps) = ps"
proof (induction ps)
  case (Cons p ps)
  then show ?case
    by (cases ps) (auto simp: split1_append_sep)
qed simp

lemma join_with_eq_Nil:
  "(\<And>p. p \<in> set ps \<Longrightarrow> p \<noteq> []) \<Longrightarrow> join_with sep ps = [] \<longleftrightarrow> ps = []"
  by (cases ps) (auto simp: join_with_Cons)

lemma join_with_append:
  "ps \<noteq> [] \<Longrightarrow> qs \<noteq> [] \<Longrightarrow> join_with sep (ps @ qs) = join_with sep ps @ sep @ join_with sep qs"
  by (induction ps) (auto simp: join_with_Cons)

lemma set_join_with: "set (join_with sep ps) \<subseteq> set sep \<union> \<Union> (set ` set ps)"
  by (induction sep ps rule: join_with.induct) auto

lemma index_of_None [simp]: "index_of c s = None \<longleftrightarrow> c \<notin> set s"
  by (induction s) auto

lemma index_of_notin [simp]: "c \<notin> set s \<Longrightarrow> index_of c s = None"
  by simp

lemma index_of_Some:
  "index_of c s = Some i \<longleftrightarrow> i < length s \<and> s ! i = c \<and> c \<notin> set (take i s)"
proof (induction s arbitrary: i)
  case (Cons x xs)
  show ?case
  proof (cases i)
    case 0
    then show ?thesis by (auto simp: map_option_case split: option.splits)
  next
    case (Suc j)
    then show ?thesis using Cons.IH [of j] by (auto simp: map_option_case split: option.splits)
  qed
qed simp

lemma index_of_append:
  "c \<notin> set s \<Longrightarrow> index_of c (s @ c # t) = Some (length s)"
  by (induction s) auto

lemma last_index_of_None [simp]: "last_index_of c s = None \<longleftrightarrow> c \<notin> set s"
  by (induction s) (auto split: option.splits)

lemma last_index_of_notin [simp]: "c \<notin> set s \<Longrightarrow> last_index_of c s = None"
  by simp

lemma last_index_of_append:
  "c \<notin> set t \<Longrightarrow> last_index_of c (s @ c # t) = Some (length s)"
  by (induction s) (auto split: option.splits)

lemma last_index_of_split:
  assumes "last_index_of c s = Some i"
  obtains t u where "s = t @ c # u" "c \<notin> set u" "i = length t"
proof -
  have "c \<in> set s"
    using assms by (metis last_index_of_None option.distinct(1))
  then obtain t u where "s = t @ c # u" "c \<notin> set u"
    by (metis split_list_last)
  with assms that show thesis
    by (simp add: last_index_of_append)
qed

lemma index_of_str_Some:
  "index_of_str t s = Some i \<Longrightarrow> i + length t \<le> length s \<and> take (length t) (drop i s) = t"
proof (induction s arbitrary: i)
  case (Cons x xs)
  show ?case
  proof (cases "prefix t (x # xs)")
    case True
    then obtain zs where "x # xs = t @ zs" by (auto simp: prefix_def)
    then have "take (length t) (x # xs) = t" "length t \<le> length (x # xs)"
      by (simp, metis length_append le_add1)
    with True Cons.prems show ?thesis by simp
  next
    case False
    with Cons.prems Cons.IH show ?thesis by (auto simp: map_option_case split: option.splits)
  qed
qed (auto split: if_splits)

lemma index_of_str_None:
  "index_of_str t s = None \<longleftrightarrow> \<not> sublist t s"
  by (induction s) (auto simp: sublist_Cons_right)

lemma slice_all [simp]: "length s \<le> b \<Longrightarrow> slice s 0 b = s"
  by (simp add: slice_def)

lemma slice_append_length [simp]: "slice (s @ t) 0 (length s) = s"
  by (simp add: slice_def)

lemma length_slice [simp]: "length (slice s a b) = min (b - a) (length s - a)"
  by (simp add: slice_def)

lemma lower_unit_idem [simp]: "lower_unit (lower_unit c) = lower_unit c"
  by (auto simp: lower_unit_def)

lemma to_lower_idem [simp]: "to_lower (to_lower s) = to_lower s"
  by (simp add: to_lower_def)

lemma length_to_lower [simp]: "length (to_lower s) = length s"
  by (simp add: to_lower_def)

lemma ends_with_iff_suffix: "ends_with s t \<longleftrightarrow> suffix t s"
  by (auto simp: ends_with_def suffix_def) (metis append_take_drop_id)

lemma index_of_str_first:
  assumes "t = c # t'" "c \<notin> set s" "c \<notin> set t'" shows "index_of_str t (s @ t @ u) = Some (length s)"
  using assms(2)
proof (induction s)
  case Nil
  then show ?case using assms(1) by simp
next
  case (Cons x s)
  then show ?case using assms(1) by simp
qed

lemma index_of_str_absent: "c \<in> set t \<Longrightarrow> c \<notin> set s \<Longrightarrow> index_of_str t s = None"
  unfolding index_of_str_None by (meson set_mono_sublist subsetD)

lemma substring_slice: "a \<le> b \<Longrightarrow> b \<le> length s \<Longrightarrow> substring s (int a) (int b) = slice s a b"
  by (simp add: substring_def min_def max_def)

section \<open>Numbers in strings\<close>

lemma digits_value_snoc: "digits_value r (ds @ [d]) = digits_value r ds * r + digit_value d"
  by (simp add: digits_value_def)

lemma hex_string_digits:
  "hex_string n \<noteq> [] \<and> (\<forall>c \<in> set (hex_string n). digit_value c < 16 \<and> (48 \<le> c \<and> c \<le> 57 \<or> 97 \<le> c \<and> c \<le> 102)) \<and>
   digits_value 16 (hex_string n) = n"
proof (induction n rule: hex_string.induct)
  case (1 n)
  define d where "d = (if n mod 16 < 10 then 48 + n mod 16 else 87 + n mod 16)"
  have m: "n mod 16 < 16" by simp
  have "n mod 16 < 10 \<or> 10 \<le> n mod 16" by linarith
  then have d: "digit_value d = n mod 16" "48 \<le> d \<and> d \<le> 57 \<or> 97 \<le> d \<and> d \<le> 102"
    using m by (auto simp: d_def digit_value_def)
  have eq: "hex_string n = (if n < 16 then [d] else hex_string (n div 16) @ [d])"
    by (subst hex_string.simps) (simp add: d_def Let_def)
  show ?case
  proof (cases "n < 16")
    case True
    then show ?thesis using d by (simp add: eq digits_value_def)
  next
    case False
    note IH = 1 [OF d_def False]
    have "digits_value 16 (hex_string n) = n div 16 * 16 + n mod 16"
      using IH d(1) False by (simp add: eq digits_value_snoc)
    moreover have "digit_value d < 16" using d(1) m by simp
    ultimately show ?thesis using IH d(2) False by (auto simp: eq)
  qed
qed

lemma parseInt_hex_string: "parseInt 16 (hex_string n) = Some (int n)"
proof -
  have h: "hex_string n \<noteq> []" "\<And>c. c \<in> set (hex_string n) \<Longrightarrow> digit_value c < 16"
    "\<And>c. c \<in> set (hex_string n) \<Longrightarrow> 48 \<le> c \<and> c \<le> 57 \<or> 97 \<le> c \<and> c \<le> 102" "digits_value 16 (hex_string n) = n"
    using hex_string_digits [of n] by blast+
  have hd: "48 \<le> hd (hex_string n) \<and> hd (hex_string n) \<le> 57 \<or> 97 \<le> hd (hex_string n) \<and> hd (hex_string n) \<le> 102"
    using h(1,3) by simp
  then have "\<not> is_white (hd (hex_string n))" by (auto simp: is_white_def)
  then have w: "dropWhile is_white (hex_string n) = hex_string n" using h(1) by (simp add: dropWhile_eq_self_iff)
  have x: "c \<notin> set (take 2 (hex_string n))" if "c = 120 \<or> c = 88" for c
    using that h(3) [of c] set_take_subset [of 2 "hex_string n"] by auto
  then have "take 2 (hex_string n) \<noteq> [48, 120]" "take 2 (hex_string n) \<noteq> [48, 88]"
    using x by (metis list.set_intros(1,2))+
  moreover have tw: "takeWhile (\<lambda>c. digit_value c < 16) (hex_string n) = hex_string n" using h(2) by simp
  moreover have "hd (hex_string n) \<noteq> 45" "hd (hex_string n) \<noteq> 43" using hd by auto
  ultimately show ?thesis using h(1,4) by (simp add: parseInt_def w tw Let_def)
qed

lemma dec_string_digits:
  "js (dec_string n) \<noteq> [] \<and> (\<forall>c \<in> set (js (dec_string n)). 48 \<le> c \<and> c \<le> (57::nat)) \<and>
   digits_value 10 (js (dec_string n)) = n"
proof (induction n rule: dec_string.induct)
  case (1 n)
  have c: "of_char (char_of (48 + m) :: char) = 48 + m" if "m < 10" for m :: nat using that by simp
  have v: "digit_value (48 + m) = m" if "m < 10" for m using that by (simp add: digit_value_def)
  show ?case
  proof (cases "n < 10")
    case True
    then show ?thesis using c [of n] v [of n] by (subst (1 2 3) dec_string.simps) (simp add: digits_value_def)
  next
    case False
    have m: "n mod 10 < 10" by simp
    have "js (dec_string n) = js (dec_string (n div 10)) @ [48 + n mod 10]"
      using False c [OF m] by (subst dec_string.simps) simp
    then show ?thesis using 1 [OF False] v [OF m] m by (auto simp: digits_value_snoc)
  qed
qed

lemma to_number_dec_string: "to_number (js (dec_string n)) = Fin (of_nat n)"
proof -
  define s :: jsstr where "s = js (dec_string n)"
  have s: "s \<noteq> []" "\<And>c. c \<in> set s \<Longrightarrow> 48 \<le> c \<and> c \<le> 57" "digits_value 10 s = n"
    using dec_string_digits [of n] by (auto simp: s_def)
  have hd: "48 \<le> hd s \<and> hd s \<le> 57" "48 \<le> last s \<and> last s \<le> 57" using s by auto
  then have "\<not> is_white (hd s)" "\<not> is_white (last s)" by (auto simp: is_white_def)
  then have t: "trim s = s" using s(1) by (simp add: trim_id)
  have "take 2 s \<noteq> [48, x]" if "57 < x" for x
    using that s(2) [of x] set_take_subset [of 2 s] by (metis in_mono linorder_not_le list.set_intros(1,2))
  then have "take 2 s \<noteq> js ''0x''" "take 2 s \<noteq> js ''0X''" "take 2 s \<noteq> js ''0o''" "take 2 s \<noteq> js ''0O''"
    "take 2 s \<noteq> js ''0b''" "take 2 s \<noteq> js ''0B''" by simp_all
  moreover have "digit_value c < 10" if "c \<in> set s" for c using s(2) [OF that] by (auto simp: digit_value_def)
  then have tw: "takeWhile (\<lambda>c. digit_value c < 10) s = s" "dropWhile (\<lambda>c. digit_value c < 10) s = []" by simp_all
  moreover have "s \<noteq> js ''Infinity''" using hd by auto
  ultimately show ?thesis
    using s(1,3) hd(1) unfolding s_def [symmetric]
    by (auto simp: to_number_def unsigned_number_def Let_def t tw)
qed

section \<open>Division\<close>

lemma div_mod_mult_add [simp]:
  assumes "(r::nat) < b"
  shows "(a * b + r) div b = a" and "(a * b + r) mod b = r"
  using assms by simp_all

section \<open>Shifts and masks on natural numbers\<close>

text \<open>The shifts and masks of the source on small non-negative integers, as arithmetic.\<close>

named_theorems bits_arith \<open>shifts and masks as division, remainder and sum\<close>

lemma and_low_mask: "(x::nat) AND (2 ^ n - 1) = x mod 2 ^ n"
proof -
  have "x AND mask n = x mod 2 ^ n" by (simp add: take_bit_eq_mod flip: take_bit_eq_mask)
  then show ?thesis by (simp add: mask_eq_exp_minus_1)
qed

lemma and_masks [bits_arith]:
  "(x::nat) AND 0x3 = x mod 4" "x AND 0x7 = x mod 8" "x AND 0xf = x mod 16" "x AND 0x1f = x mod 32"
  "x AND 0x3f = x mod 64" "x AND 0x7f = x mod 128" "x AND 0xff = x mod 256"
  "x AND 0x3ff = x mod 1024" "x AND 0xffff = x mod 65536"
  subgoal using and_low_mask [of x 2] by simp
  subgoal using and_low_mask [of x 3] by simp
  subgoal using and_low_mask [of x 4] by simp
  subgoal using and_low_mask [of x 5] by simp
  subgoal using and_low_mask [of x 6] by simp
  subgoal using and_low_mask [of x 7] by simp
  subgoal using and_low_mask [of x 8] by simp
  subgoal using and_low_mask [of x 10] by simp
  subgoal using and_low_mask [of x 16] by simp
  done

lemma shift_right_nat [bits_arith]: "drop_bit n (x::nat) = x div 2 ^ n"
  by (simp add: drop_bit_eq_div)

lemma shift_left_nat [bits_arith]: "push_bit n (x::nat) = x * 2 ^ n"
  by (simp add: push_bit_eq_mult)

lemma or_disjoint:
  assumes "(b::nat) < 2 ^ n"
  shows "(a * 2 ^ n) OR b = a * 2 ^ n + b"
proof -
  have "push_bit n a AND take_bit n b = 0"
    by (rule bit_eqI) (auto simp: bit_and_iff bit_push_bit_iff bit_take_bit_iff)
  moreover have "take_bit n b = b" using assms by (simp add: take_bit_nat_eq_self_iff)
  ultimately have "push_bit n a AND b = 0" by simp
  then have "push_bit n a OR b = push_bit n a + b" by (simp add: disjunctive_add_eq_or)
  then show ?thesis by (simp add: push_bit_eq_mult)
qed

end
