(* ===== verification/Validators.thy ===== *)
theory Validators
  imports Prelude
begin

text \<open>
  The argument validators: \<open>internal/errors.js\<close> (how an error says what the argument must be),
  \<open>internal/validators.js\<close> and \<open>fs/validators.js\<close>. A validator that returns nothing returns
  \<open>Inr ()\<close>; one that throws returns the error value.
\<close>

section \<open>Error factories (internal/errors.js)\<close>

definition starts_upper :: "string \<Rightarrow> bool" where
  "starts_upper t \<longleftrightarrow> t \<noteq> [] \<and> 65 \<le> (of_char (hd t) :: nat) \<and> (of_char (hd t) :: nat) \<le> 90"

definition must_be_one :: "string \<Rightarrow> string" where
  "must_be_one e =
     (if prefix ''of type '' e \<or> prefix ''an instance of '' e then e
      else if prefix ''string or an instance'' e \<or> prefix ''string or '' e then ''of type '' @ e
      else if sublist '' or an instance of '' e then ''of type '' @ e
      else if e = ''Buffer or Uint8Array'' \<or> e = ''Buffer or ArrayBuffer''
              \<or> prefix ''Buffer or Uint8Array'' e
              \<or> (starts_upper e \<and> CHR '' '' \<notin> set e) then ''an instance of '' @ e
      else if e = ''Object'' \<or> e = ''Array'' then ''an instance of '' @ e
      else ''of type '' @ e)"

definition must_be :: "string list \<Rightarrow> string" where
  "must_be types =
     (case types of
        [e] \<Rightarrow> must_be_one e
      | _ \<Rightarrow>
        (let allLower = (\<forall>t \<in> set types. \<not> starts_upper t);
             joined = (case types of
                 [a, b] \<Rightarrow> a @ '' or '' @ b
               | [] \<Rightarrow> '', or undefined''
               | _ \<Rightarrow> join_with '', '' (butlast types) @ '', or '' @ last types)
         in if allLower then ''one of type '' @ joined else ''an instance of '' @ joined))"

definition errInvalidArgType :: "string \<Rightarrow> string list \<Rightarrow> jsval \<Rightarrow> js_error" where
  "errInvalidArgType name expected actual = ErrInvalidArgType name (must_be expected) actual"

definition errInvalidArgValue :: "string \<Rightarrow> jsval \<Rightarrow> string \<Rightarrow> js_error" where
  "errInvalidArgValue name v reason =
     ErrInvalidArgValue name (if reason = [] then ''is invalid'' else reason) v"

definition errOutOfRange :: "string \<Rightarrow> range \<Rightarrow> jsval \<Rightarrow> js_error" where
  "errOutOfRange name rng actual = ErrOutOfRange name rng actual"

section \<open>Numbers\<close>

text \<open>\<open>Number.isInteger\<close> and the comparisons \<open><\<close> and \<open>></\<close> with an integer (false on NaN).\<close>

definition num_is_integer :: "jsnum \<Rightarrow> bool" where
  "num_is_integer n = (case n of Fin q \<Rightarrow> snd (quotient_of q) = 1 | _ \<Rightarrow> False)"

definition num_less :: "jsnum \<Rightarrow> int \<Rightarrow> bool" where
  "num_less n k = (case n of Fin q \<Rightarrow> q < of_int k | NegInf \<Rightarrow> True | _ \<Rightarrow> False)"

definition num_greater :: "jsnum \<Rightarrow> int \<Rightarrow> bool" where
  "num_greater n k = (case n of Fin q \<Rightarrow> of_int k < q | PosInf \<Rightarrow> True | _ \<Rightarrow> False)"

lemma num_is_integer_iff: "num_is_integer n \<longleftrightarrow> (\<exists>k. n = Fin (of_int k))"
proof (cases n)
  case (Fin q)
  show ?thesis
  proof
    assume "num_is_integer n"
    with Fin have d: "snd (quotient_of q) = 1" by (simp add: num_is_integer_def)
    obtain a b where ab: "quotient_of q = (a, b)" by force
    with d have "q = of_int a" using quotient_of_div [OF ab] by simp
    with Fin show "\<exists>k. n = Fin (of_int k)" by auto
  next
    assume "\<exists>k. n = Fin (of_int k)"
    with Fin show "num_is_integer n"
      by (auto simp: num_is_integer_def)
  qed
qed (simp_all add: num_is_integer_def)

lemma num_compare_int [simp]:
  "num_less (Fin (of_int k)) m \<longleftrightarrow> k < m"
  "num_greater (Fin (of_int k)) m \<longleftrightarrow> m < k"
  by (simp_all add: num_less_def num_greater_def)

section \<open>internal/validators.js\<close>

definition validateString :: "jsval \<Rightarrow> string \<Rightarrow> unit result" where
  "validateString v name =
     (if typeof v \<noteq> ''string'' then Inl (errInvalidArgType name [''string''] v) else Inr ())"

definition validateFunction :: "jsval \<Rightarrow> string \<Rightarrow> unit result" where
  "validateFunction v name =
     (if typeof v \<noteq> ''function'' then Inl (errInvalidArgType name [''function''] v) else Inr ())"

definition validateObject :: "jsval \<Rightarrow> string \<Rightarrow> unit result" where
  "validateObject v name =
     (if v = VNull \<or> typeof v \<noteq> ''object'' then Inl (errInvalidArgType name [''Object''] v)
      else Inr ())"

definition validateBoolean :: "jsval \<Rightarrow> string \<Rightarrow> unit result" where
  "validateBoolean v name =
     (if typeof v \<noteq> ''boolean'' then Inl (errInvalidArgType name [''boolean''] v) else Inr ())"

text \<open>\<open>min\<close> and \<open>max\<close> are optional.\<close>

definition validateInteger :: "jsval \<Rightarrow> string \<Rightarrow> int option \<Rightarrow> int option \<Rightarrow> unit result" where
  "validateInteger v name mn mx =
     (case v of
        VNum n \<Rightarrow>
          if \<not> num_is_integer n then Inl (errOutOfRange name AnInteger v)
          else if (case mn of Some a \<Rightarrow> num_less n a | None \<Rightarrow> False)
            then Inl (errOutOfRange name (AtLeast (the mn)) v)
          else if (case mx of Some b \<Rightarrow> num_greater n b | None \<Rightarrow> False)
            then Inl (errOutOfRange name (AtMost (the mx)) v)
          else Inr ()
      | _ \<Rightarrow> Inl (errInvalidArgType name [''number''] v))"

section \<open>fs/validators.js\<close>

definition fs_validateInteger :: "jsval \<Rightarrow> string \<Rightarrow> int option \<Rightarrow> int option \<Rightarrow> unit result" where
  "fs_validateInteger v name mn mx =
     (let a = (case mn of None \<Rightarrow> - 9007199254740991 | Some a \<Rightarrow> a);
          b = (case mx of None \<Rightarrow> 9007199254740991 | Some b \<Rightarrow> b)
      in case v of
        VNum n \<Rightarrow>
          if \<not> num_is_integer n then Inl (errOutOfRange name AnInteger v)
          else if num_less n a \<or> num_greater n b then Inl (errOutOfRange name (Between a b) v)
          else Inr ()
      | _ \<Rightarrow> Inl (errInvalidArgType name [''number''] v))"

definition validatePosition :: "jsval \<Rightarrow> string \<Rightarrow> int \<Rightarrow> unit result" where
  "validatePosition p name len =
     (case p of
        VNum n \<Rightarrow> fs_validateInteger p name (Some (- 1)) None
      | VBigInt k \<Rightarrow>
          (let maxPosition = 2 ^ 63 - 1 - len
           in if \<not> (- 1 \<le> k \<and> k \<le> maxPosition)
              then Inl (errOutOfRange name (Between (- 1) maxPosition) p) else Inr ())
      | _ \<Rightarrow> Inl (errInvalidArgType name [''integer or bigint''] p))"

definition validateOptionsObject :: "jsval \<Rightarrow> string \<Rightarrow> unit result" where
  "validateOptionsObject v name =
     (if v = VNull \<or> typeof v \<noteq> ''object'' \<or> (case v of VArr _ \<Rightarrow> True | _ \<Rightarrow> False)
      then Inl (errInvalidArgType name [''Object''] v) else Inr ())"

definition is_view :: "jsval \<Rightarrow> bool" where
  "is_view v = (case v of VView _ \<Rightarrow> True | VBuffer _ \<Rightarrow> True | _ \<Rightarrow> False)"

definition validateBufferArray :: "jsval \<Rightarrow> string \<Rightarrow> jsval list result" where
  "validateBufferArray v name =
     (case v of
        VArr bs \<Rightarrow>
          if list_all is_view bs then Inr bs
          else Inl (errInvalidArgType (if name = [] then ''buffers'' else name)
                      [''ArrayBufferView[]''] v)
      | _ \<Rightarrow> Inl (errInvalidArgType (if name = [] then ''buffers'' else name)
                    [''ArrayBufferView[]''] v))"

definition validateOffsetLengthRead :: "int \<Rightarrow> int \<Rightarrow> int \<Rightarrow> unit result" where
  "validateOffsetLengthRead off len bufLen =
     (if off < 0 then Inl (errOutOfRange ''offset'' (AtLeast 0) (VNum (Fin (of_int off))))
      else if len < 0 then Inl (errOutOfRange ''length'' (AtLeast 0) (VNum (Fin (of_int len))))
      else if bufLen < off + len
        then Inl (errOutOfRange ''length'' (AtMost (bufLen - off)) (VNum (Fin (of_int len))))
      else Inr ())"

definition validateOffsetLengthWrite :: "int \<Rightarrow> int \<Rightarrow> int \<Rightarrow> unit result" where
  "validateOffsetLengthWrite off len byteLen =
     (if byteLen < off
        then Inl (errOutOfRange ''offset'' (AtMost byteLen) (VNum (Fin (of_int off))))
      else let mx = (if 2147483647 < byteLen then 2147483647 else byteLen)
        in if mx - off < len
             then Inl (errOutOfRange ''length'' (AtMost (mx - off)) (VNum (Fin (of_int len))))
           else if len < 0 then Inl (errOutOfRange ''length'' (AtLeast 0) (VNum (Fin (of_int len))))
           else Inr ())"

definition fs_validateBuffer :: "jsval \<Rightarrow> string \<Rightarrow> unit result" where
  "fs_validateBuffer v name =
     (if \<not> is_view v
      then Inl (errInvalidArgType (if name = [] then ''buffer'' else name)
                  [''an instance of Buffer, TypedArray, or DataView''] v)
      else Inr ())"

definition validateFd :: "jsval \<Rightarrow> string \<Rightarrow> unit result" where
  "validateFd fd name0 =
     (let name = (if name0 = [] then ''fd'' else name0)
      in case fd of
        VNum n \<Rightarrow>
          if \<not> num_is_integer n \<or> num_less n 0
          then Inl (errOutOfRange name (Between 0 2147483647) fd) else Inr ()
      | _ \<Rightarrow> Inl (errInvalidArgType name [''number''] fd))"

definition validateNullBytes :: "jsval \<Rightarrow> string \<Rightarrow> unit result" where
  "validateNullBytes v name =
     (case v of
        VStr s \<Rightarrow>
          if 0 \<in> set s
          then Inl (errInvalidArgValue (if name = [] then ''path'' else name) v
                      ''must be a string without null bytes'')
          else Inr ()
      | _ \<Rightarrow> Inr ())"

text \<open>
  A path is a string, an object with a string \<open>href\<close> (read through the parameter \<open>href\<close>, which
  gives \<open>None\<close> when there is none) or a Buffer.
\<close>

definition validatePath :: "(jsval \<Rightarrow> jsstr option) \<Rightarrow> jsval \<Rightarrow> string \<Rightarrow> unit result" where
  "validatePath href p name0 =
     (let name = (if name0 = [] then ''path'' else name0)
      in case p of
        VStr s \<Rightarrow> validateNullBytes p name
      | _ \<Rightarrow>
        (case (if typeof p = ''object'' \<and> p \<noteq> VNull then href p else None) of
           Some h \<Rightarrow> validateNullBytes (VStr h) name
         | None \<Rightarrow>
           (case p of
              VBuffer b \<Rightarrow>
                if 0 \<in> set b
                then Inl (errInvalidArgValue name p ''must be a Buffer without null bytes'')
                else Inr ()
            | _ \<Rightarrow> Inl (errInvalidArgType name [''string or an instance of Buffer or URL''] p))))"

fun encoding_alias :: "jsstr \<Rightarrow> string option" where
  "encoding_alias k =
     (if k = js ''utf8'' \<or> k = js ''utf-8'' then Some ''utf8''
      else if k = js ''ucs2'' \<or> k = js ''ucs-2'' \<or> k = js ''utf16le'' \<or> k = js ''utf-16le''
        then Some ''utf16le''
      else if k = js ''latin1'' \<or> k = js ''binary'' then Some ''latin1''
      else if k = js ''ascii'' then Some ''ascii''
      else if k = js ''hex'' then Some ''hex''
      else if k = js ''base64'' then Some ''base64''
      else if k = js ''base64url'' then Some ''base64url''
      else if k = js ''buffer'' then Some ''buffer''
      else None)"

definition validateEncoding :: "jsval \<Rightarrow> string \<Rightarrow> string result" where
  "validateEncoding enc name0 =
     (let name = (if name0 = [] then ''encoding'' else name0)
      in case enc of
        VUndef \<Rightarrow> Inr ''utf8''
      | VNull \<Rightarrow> Inr ''utf8''
      | VStr s \<Rightarrow>
          (case encoding_alias (to_lower s) of
             None \<Rightarrow> Inl (errInvalidArgValue name enc ''is invalid encoding'')
           | Some e \<Rightarrow> Inr e)
      | _ \<Rightarrow> Inl (errInvalidArgType name [''string''] enc))"

definition makeCallback :: "jsval \<Rightarrow> jsval result" where
  "makeCallback cb =
     (if cb = VUndef \<or> cb = VNull then Inl (errInvalidArgType ''callback'' [''function''] cb)
      else if typeof cb \<noteq> ''function'' then Inl (errInvalidArgType ''callback'' [''function''] cb)
      else Inr cb)"

definition validateUidGid :: "jsval \<Rightarrow> string \<Rightarrow> unit result" where
  "validateUidGid v name =
     (case v of
        VNum n \<Rightarrow>
          if \<not> num_is_integer n \<or> num_less n (- 1) \<or> num_greater n 4294967295
          then Inl (errOutOfRange name (Between (- 1) 4294967295) v) else Inr ()
      | _ \<Rightarrow> Inl (errInvalidArgType name [''number''] v))"

text \<open>\<open>parseInt(mode, 8)\<close> on a string of octal digits.\<close>

definition parse_octal :: "jsstr \<Rightarrow> int" where
  "parse_octal s = foldl (\<lambda>a c. 8 * a + (int c - 48)) 0 s"

definition octal_digits :: "jsstr \<Rightarrow> bool" where
  "octal_digits s \<longleftrightarrow> s \<noteq> [] \<and> list_all (\<lambda>c. 48 \<le> c \<and> c \<le> 55) s"

definition validateMode :: "jsval \<Rightarrow> string \<Rightarrow> jsval result" where
  "validateMode mode name0 =
     (let name = (if name0 = [] then ''mode'' else name0)
      in case mode of
        VUndef \<Rightarrow> Inr mode
      | VNull \<Rightarrow> Inr mode
      | VNum n \<Rightarrow>
          if \<not> num_is_integer n \<or> num_less n 0 \<or> num_greater n 16777215
          then Inl (errOutOfRange name (Between 0 33554431) mode) else Inr mode
      | VStr s \<Rightarrow>
          if \<not> octal_digits s then Inl (errInvalidArgValue name mode [])
          else if 16777215 < parse_octal s
            then Inl (errOutOfRange name (Between 0 33554431) mode)
          else Inr (VNum (Fin (of_int (parse_octal s))))
      | _ \<Rightarrow> Inl (errInvalidArgType name [''number or string''] mode))"

end
