(* ===== verification/Path.thy ===== *)
theory Path
  imports Validators
begin

text \<open>
  \<open>path.js\<close>, the \<open>path\<close> module (POSIX). The string functions (\<open>normalize_str\<close>, \<open>resolve_strs\<close>,
  \<dots>) are the bodies after the argument checks; the functions named \<open>path_\<dots>\<close> are the exported
  ones, which check their arguments and return an error value where the source throws. The
  working directory, which the source reads with \<open>process.cwd()\<close>, is the parameter \<open>cwd\<close>.
\<close>

section \<open>The operations\<close>

definition SEP :: nat where "SEP = 47"
definition DOT :: jsstr where "DOT = js ''.''"
definition DOTDOT :: jsstr where "DOTDOT = js ''..''"

lemma dot_simps [simp]:
  "DOT \<noteq> []" "[] \<noteq> DOT" "[] \<noteq> DOTDOT" "DOTDOT \<noteq> []" "DOT \<noteq> DOTDOT" "DOTDOT \<noteq> DOT" "SEP \<notin> set DOT" "SEP \<notin> set DOTDOT"
  by (simp_all add: DOT_def DOTDOT_def SEP_def)

text \<open>The loop of \<open>_normParts\<close>: \<open>result\<close> is the stack of segments kept so far.\<close>

definition norm_step :: "bool \<Rightarrow> jsstr list \<Rightarrow> jsstr \<Rightarrow> jsstr list" where
  "norm_step isAbs result seg =
     (if seg = [] \<or> seg = DOT then result
      else if seg = DOTDOT then
        (if result \<noteq> [] \<and> last result \<noteq> DOTDOT then butlast result
         else if \<not> isAbs then result @ [DOTDOT]
         else result)
      else result @ [seg])"

fun norm_loop :: "bool \<Rightarrow> jsstr list \<Rightarrow> jsstr list \<Rightarrow> jsstr list" where
  "norm_loop isAbs result [] = result"
| "norm_loop isAbs result (seg # parts) = norm_loop isAbs (norm_step isAbs result seg) parts"

definition normParts :: "jsstr list \<Rightarrow> bool \<Rightarrow> jsstr list" where
  "normParts parts isAbs = norm_loop isAbs [] parts"

definition splitPath :: "jsstr \<Rightarrow> jsstr list" where
  "splitPath p = split1 SEP p"

definition rejoin :: "jsstr list \<Rightarrow> jsstr" where
  "rejoin parts = join_with [SEP] parts"

text \<open>\<open>_stripTrailing\<close>: \<open>end\<close> moves left over slashes while it is greater than 1.\<close>

fun strip_end :: "jsstr \<Rightarrow> nat \<Rightarrow> nat" where
  "strip_end p e = (if 1 < e \<and> p ! (e - 1) = SEP then strip_end p (e - 1) else e)"

declare strip_end.simps [simp del]

definition stripTrailing :: "jsstr \<Rightarrow> jsstr" where
  "stripTrailing p = slice p 0 (strip_end p (length p))"

definition isAbs_str :: "jsstr \<Rightarrow> bool" where
  "isAbs_str p \<longleftrightarrow> p \<noteq> [] \<and> hd p = SEP"

definition normalize_str :: "jsstr \<Rightarrow> jsstr" where
  "normalize_str p =
     (if p = [] then DOT
      else
        let isAbs = (hd p = SEP);
            trailingSep = (last p = SEP);
            normed = normParts (splitPath p) isAbs
        in if normed = [] then
             (if isAbs then [SEP] else if trailingSep then DOT @ [SEP] else DOT)
           else
             (if isAbs then [SEP] else []) @ rejoin normed @ (if trailingSep then [SEP] else []))"

fun join_acc :: "jsstr \<Rightarrow> jsstr list \<Rightarrow> jsstr" where
  "join_acc joined [] = joined"
| "join_acc joined (seg # segs) =
     join_acc (if seg \<noteq> [] then (if joined \<noteq> [] then joined @ [SEP] else joined) @ seg else joined)
       segs"

definition join_strs :: "jsstr list \<Rightarrow> jsstr" where
  "join_strs segs =
     (let joined = join_acc [] segs in if joined = [] then DOT else normalize_str joined)"

text \<open>The loop of \<open>resolve\<close>, over the arguments from the last to the first.\<close>

fun resolve_loop :: "jsstr \<Rightarrow> jsstr list \<Rightarrow> jsstr" where
  "resolve_loop resolved [] = resolved"
| "resolve_loop resolved (seg # segs) =
     (if seg \<noteq> [] then
        (let r = (if resolved = [] then seg else seg @ [SEP] @ resolved)
         in if hd seg = SEP then r else resolve_loop r segs)
      else resolve_loop resolved segs)"

definition resolve_strs :: "jsstr \<Rightarrow> jsstr list \<Rightarrow> jsstr" where
  "resolve_strs cwd segs =
     (let r = resolve_loop [] (rev segs);
          resolved = (if r = [] \<or> hd r \<noteq> SEP
                      then (if r \<noteq> [] then cwd @ [SEP] @ r else cwd) else r);
          normed = normParts (splitPath resolved) True
      in if normed = [] then [SEP] else SEP # rejoin normed)"

definition dirname_str :: "jsstr \<Rightarrow> jsstr" where
  "dirname_str p0 =
     (if p0 = [] then DOT
      else let p = stripTrailing p0
        in case last_index_of SEP p of
             None \<Rightarrow> DOT
           | Some i \<Rightarrow> if i = 0 then [SEP] else slice p 0 i)"

definition basename_str :: "jsstr \<Rightarrow> jsstr option \<Rightarrow> jsstr" where
  "basename_str p0 ext =
     (if p0 = [] then []
      else let p = stripTrailing p0;
               base = (case last_index_of SEP p of Some i \<Rightarrow> drop (i + 1) p | None \<Rightarrow> p)
        in case ext of
             Some e \<Rightarrow>
               if 0 < length e \<and> length e < length base \<and> drop (length base - length e) base = e
               then slice base 0 (length base - length e) else base
           | None \<Rightarrow> base)"

definition extname_str :: "jsstr \<Rightarrow> jsstr" where
  "extname_str p =
     (if p = [] then []
      else
        let lastSlash = (case last_index_of SEP p of Some i \<Rightarrow> int i | None \<Rightarrow> - 1);
            lastDot0 = (case last_index_of 46 p of Some i \<Rightarrow> int i | None \<Rightarrow> - 1);
            lastDot = (if lastDot0 < lastSlash then - 1 else lastDot0);
            baseStart = lastSlash + 1
        in if lastDot \<le> baseStart then [] else drop (nat lastDot) p)"

fun common_len :: "jsstr list \<Rightarrow> jsstr list \<Rightarrow> nat" where
  "common_len (x # xs) (y # ys) = (if x = y then Suc (common_len xs ys) else 0)"
| "common_len _ _ = 0"

definition relative_str :: "jsstr \<Rightarrow> jsstr \<Rightarrow> jsstr \<Rightarrow> jsstr" where
  "relative_str cwd frm to =
     (let absFrom = resolve_strs cwd [frm];
          absTo = resolve_strs cwd [to];
          fromParts = normParts (splitPath absFrom) True;
          toParts = normParts (splitPath absTo) True;
          common = common_len fromParts toParts;
          result = replicate (length fromParts - common) DOTDOT @ drop common toParts
      in if result = [] then [] else rejoin result)"

record path_parts =
  pp_root :: jsstr
  pp_dir :: jsstr
  pp_base :: jsstr
  pp_ext :: jsstr
  pp_name :: jsstr

text \<open>The directory and the base of a path, and the name and the extension of a base.\<close>

definition parse_dir_base :: "jsstr \<Rightarrow> jsstr \<Rightarrow> jsstr \<times> jsstr" where
  "parse_dir_base rt p =
     (case last_index_of SEP p of
        Some i \<Rightarrow>
          (let d = slice p 0 i in if d = [] \<and> rt \<noteq> [] then rt else d, drop (i + 1) p)
      | None \<Rightarrow> ([], p))"

definition parse_name_ext :: "jsstr \<Rightarrow> jsstr \<times> jsstr" where
  "parse_name_ext base =
     (case last_index_of 46 base of
        Some i \<Rightarrow> if 0 < i then (slice base 0 i, drop i base) else (base, [])
      | None \<Rightarrow> (base, []))"

definition parse_str :: "jsstr \<Rightarrow> path_parts" where
  "parse_str p =
     (if p = [] then \<lparr>pp_root = [], pp_dir = [], pp_base = [], pp_ext = [], pp_name = []\<rparr>
      else
        let rt = (if hd p = SEP then [SEP] else []);
            db = parse_dir_base rt p;
            ne = parse_name_ext (snd db)
        in \<lparr>pp_root = rt, pp_dir = fst db, pp_base = snd db, pp_ext = snd ne, pp_name = fst ne\<rparr>)"

text \<open>
  \<open>format\<close> reads absent fields as the empty string; \<open>None\<close> is an argument that is no object.
\<close>

definition path_format :: "path_parts option \<Rightarrow> jsstr" where
  "path_format obj =
     (case obj of
        None \<Rightarrow> []
      | Some ob \<Rightarrow>
          (let base = (if pp_base ob = [] then pp_name ob @ pp_ext ob else pp_base ob)
           in if pp_dir ob \<noteq> [] then
                (if last (pp_dir ob) = SEP then pp_dir ob @ base else pp_dir ob @ [SEP] @ base)
              else pp_root ob @ base))"

definition toNamespacedPath :: "jsval \<Rightarrow> jsval" where
  "toNamespacedPath p = p"

section \<open>The exported functions, with their argument checks\<close>

definition validatePathString :: "jsval \<Rightarrow> string \<Rightarrow> jsstr result" where
  "validatePathString v name =
     (case v of
        VStr s \<Rightarrow> Inr s
      | _ \<Rightarrow> Inl (errInvalidArgType (if name = [] then ''path'' else name) [''string''] v))"

fun validate_paths :: "nat \<Rightarrow> jsval list \<Rightarrow> jsstr list result" where
  "validate_paths i [] = Inr []"
| "validate_paths i (v # vs) =
     bind_result (validatePathString v (''paths['' @ dec_string i @ '']''))
       (\<lambda>s. bind_result (validate_paths (Suc i) vs) (\<lambda>ss. Inr (s # ss)))"

definition path_normalize :: "jsval \<Rightarrow> jsstr result" where
  "path_normalize p = bind_result (validatePathString p ''path'') (\<lambda>s. Inr (normalize_str s))"

definition path_join :: "jsval list \<Rightarrow> jsstr result" where
  "path_join args = bind_result (validate_paths 0 args) (\<lambda>ss. Inr (join_strs ss))"

definition path_resolve :: "jsstr \<Rightarrow> jsval list \<Rightarrow> jsstr result" where
  "path_resolve cwd args = bind_result (validate_paths 0 args) (\<lambda>ss. Inr (resolve_strs cwd ss))"

definition path_dirname :: "jsval \<Rightarrow> jsstr result" where
  "path_dirname p = bind_result (validatePathString p ''path'') (\<lambda>s. Inr (dirname_str s))"

definition path_basename :: "jsval \<Rightarrow> jsval \<Rightarrow> jsstr result" where
  "path_basename p ext =
     bind_result (validatePathString p ''path'')
       (\<lambda>s. if ext = VUndef \<or> ext = VNull then Inr (basename_str s None)
            else bind_result (validatePathString ext ''ext'') (\<lambda>e. Inr (basename_str s (Some e))))"

definition path_extname :: "jsval \<Rightarrow> jsstr result" where
  "path_extname p = bind_result (validatePathString p ''path'') (\<lambda>s. Inr (extname_str s))"

definition path_isAbsolute :: "jsval \<Rightarrow> bool result" where
  "path_isAbsolute p = bind_result (validatePathString p ''path'') (\<lambda>s. Inr (isAbs_str s))"

definition path_relative :: "jsstr \<Rightarrow> jsval \<Rightarrow> jsval \<Rightarrow> jsstr result" where
  "path_relative cwd frm to =
     bind_result (validatePathString frm ''from'')
       (\<lambda>f. bind_result (validatePathString to ''to'') (\<lambda>t. Inr (relative_str cwd f t)))"

definition path_parse :: "jsval \<Rightarrow> path_parts result" where
  "path_parse p = bind_result (validatePathString p ''path'') (\<lambda>s. Inr (parse_str s))"

section \<open>What \<open>_normParts\<close> computes\<close>

text \<open>A segment that \<open>_normParts\<close> keeps as it is, and the lists it can return.\<close>

definition plain_seg :: "jsstr \<Rightarrow> bool" where
  "plain_seg s \<longleftrightarrow> s \<noteq> [] \<and> s \<noteq> DOT \<and> s \<noteq> DOTDOT \<and> SEP \<notin> set s"

definition norm_ok :: "bool \<Rightarrow> jsstr list \<Rightarrow> bool" where
  "norm_ok isAbs ps \<longleftrightarrow>
     (\<exists>n qs. ps = replicate n DOTDOT @ qs \<and> list_all plain_seg qs \<and> (isAbs \<longrightarrow> n = 0))"

lemma norm_okI:
  "list_all plain_seg qs \<Longrightarrow> (isAbs \<Longrightarrow> n = 0) \<Longrightarrow> norm_ok isAbs (replicate n DOTDOT @ qs)"
  by (auto simp: norm_ok_def)

lemma norm_ok_Nil [simp]: "norm_ok isAbs []"
  using norm_okI [of "[]" isAbs 0] by simp

lemma norm_ok_abs: "norm_ok True ps \<longleftrightarrow> list_all plain_seg ps"
  by (auto simp: norm_ok_def)

lemma plain_segD:
  "plain_seg s \<Longrightarrow> s \<noteq> []" "plain_seg s \<Longrightarrow> s \<noteq> DOT" "plain_seg s \<Longrightarrow> s \<noteq> DOTDOT"
  "plain_seg s \<Longrightarrow> SEP \<notin> set s"
  by (simp_all add: plain_seg_def)

lemma norm_step_plain [simp]: "plain_seg s \<Longrightarrow> norm_step isAbs r s = r @ [s]"
  using plain_segD [of s] by (auto simp: norm_step_def)

lemma norm_step_up_plain [simp]: "plain_seg s \<Longrightarrow> norm_step isAbs (r @ [s]) DOTDOT = r"
  using plain_segD [of s] by (auto simp: norm_step_def)

lemma norm_step_ok:
  assumes r: "norm_ok isAbs r" and s: "SEP \<notin> set s"
  shows "norm_ok isAbs (norm_step isAbs r s)"
proof -
  obtain n qs where r': "r = replicate n DOTDOT @ qs" and qs: "list_all plain_seg qs"
    and n: "isAbs \<Longrightarrow> n = 0"
    using r by (auto simp: norm_ok_def)
  consider "s = [] \<or> s = DOT" | "s = DOTDOT" | "plain_seg s"
    using s by (auto simp: plain_seg_def)
  then show ?thesis
  proof cases
    case 1
    then have "norm_step isAbs r s = r" by (auto simp: norm_step_def)
    with r show ?thesis by simp
  next
    case 2
    show ?thesis
    proof (cases qs rule: rev_cases)
      case (snoc ys y)
      with qs have "norm_step isAbs r s = replicate n DOTDOT @ ys" "list_all plain_seg ys"
        using 2 r' norm_step_up_plain [of y isAbs "replicate n DOTDOT @ ys"] by auto
      with n show ?thesis by (auto intro: norm_okI)
    next
      case Nil
      show ?thesis
      proof (cases isAbs)
        case True
        with Nil n r' 2 show ?thesis by (simp add: norm_step_def)
      next
        case False
        with Nil r' 2 have "norm_step isAbs r s = replicate (Suc n) DOTDOT @ []"
          by (auto simp: norm_step_def replicate_append_same [symmetric])
        with False show ?thesis by (metis norm_okI list.pred_inject(1))
      qed
    qed
  next
    case 3
    then have "norm_step isAbs r s = replicate n DOTDOT @ (qs @ [s])"
      by (simp add: r')
    moreover have "list_all plain_seg (qs @ [s])" using qs 3 by simp
    ultimately show ?thesis using n by (metis norm_okI)
  qed
qed

lemma norm_loop_append: "norm_loop isAbs r (xs @ ys) = norm_loop isAbs (norm_loop isAbs r xs) ys"
  by (induction xs arbitrary: r) auto

lemma norm_loop_ok:
  "norm_ok isAbs r \<Longrightarrow> (\<And>s. s \<in> set ps \<Longrightarrow> SEP \<notin> set s) \<Longrightarrow> norm_ok isAbs (norm_loop isAbs r ps)"
  by (induction ps arbitrary: r) (auto intro: norm_step_ok)

lemma norm_loop_plain: "list_all plain_seg ps \<Longrightarrow> norm_loop isAbs r ps = r @ ps"
  by (induction ps arbitrary: r) auto

lemma norm_loop_dots:
  "norm_loop False (replicate m DOTDOT) (replicate n DOTDOT) = replicate (m + n) DOTDOT"
proof (induction n arbitrary: m)
  case (Suc n)
  have "norm_step False (replicate m DOTDOT) DOTDOT = replicate (Suc m) DOTDOT"
    by (cases m) (auto simp: norm_step_def replicate_append_same)
  with Suc [of "Suc m"] show ?case by (simp del: replicate_Suc) (simp)
qed simp

text \<open>A list \<open>_normParts\<close> returns is left alone by it: the normal forms are its fixed points.\<close>

lemma norm_loop_id: "norm_ok isAbs ps \<Longrightarrow> norm_loop isAbs [] ps = ps"
proof -
  assume "norm_ok isAbs ps"
  then obtain n qs where eq: "ps = replicate n DOTDOT @ qs" and qs: "list_all plain_seg qs"
    and n: "isAbs \<Longrightarrow> n = 0"
    by (auto simp: norm_ok_def)
  show ?thesis
  proof (cases isAbs)
    case True
    with n eq qs show ?thesis by (simp add: norm_loop_plain)
  next
    case False
    with eq qs norm_loop_dots [of 0 n] show ?thesis by (simp add: norm_loop_append norm_loop_plain)
  qed
qed

lemma norm_step_empty [simp]: "norm_step isAbs r [] = r"
  by (simp add: norm_step_def)

lemma norm_loop_ups:
  "list_all plain_seg qs \<Longrightarrow>
   norm_loop isAbs (r @ qs) (replicate (length qs) DOTDOT) = r"
proof (induction qs rule: rev_induct)
  case (snoc q qs)
  then show ?case
    using norm_step_up_plain [of q isAbs "r @ qs"] by simp
qed simp

text \<open>Lists of non-empty segments, which \<open>join("/")\<close> and \<open>split("/")\<close> take to and fro.\<close>

definition segs_ok :: "jsstr list \<Rightarrow> bool" where
  "segs_ok ps \<longleftrightarrow> (\<forall>s \<in> set ps. s \<noteq> [] \<and> SEP \<notin> set s)"

lemma segs_ok_simps [simp]:
  "segs_ok []"
  "segs_ok (p # ps) \<longleftrightarrow> p \<noteq> [] \<and> SEP \<notin> set p \<and> segs_ok ps"
  "segs_ok (ps @ qs) \<longleftrightarrow> segs_ok ps \<and> segs_ok qs"
  "segs_ok (replicate n DOTDOT)"
  by (auto simp: segs_ok_def)

lemma plain_segs_ok: "list_all plain_seg ps \<Longrightarrow> segs_ok ps"
  by (auto simp: segs_ok_def list_all_iff plain_seg_def)

lemma norm_ok_segs: "norm_ok isAbs ps \<Longrightarrow> segs_ok ps"
  by (auto simp: norm_ok_def plain_segs_ok)

lemma splitPath_no_sep: "s \<in> set (splitPath p) \<Longrightarrow> SEP \<notin> set s"
  by (auto simp: splitPath_def dest: split1_no_sep)

lemma normParts_ok: "norm_ok isAbs (normParts (splitPath p) isAbs)"
  by (auto simp: normParts_def intro: norm_loop_ok dest: splitPath_no_sep)

lemma split_rejoin:
  assumes "segs_ok ps" and "ps \<noteq> []"
  shows "splitPath (rejoin ps) = ps"
  using assms by (auto simp: splitPath_def rejoin_def segs_ok_def intro!: split1_join)

lemma splitPath_sep_start: "splitPath (SEP # p) = [] # splitPath p"
  by (simp add: splitPath_def)

lemma splitPath_sep_end: "splitPath (p @ [SEP]) = splitPath p @ [[]]"
  by (simp add: splitPath_def split1_sep_end)

lemma splitPath_append: "splitPath (p @ SEP # q) = splitPath p @ splitPath q"
  by (simp add: splitPath_def split1_append_sep)

lemma rejoin_Nil_iff: "segs_ok ps \<Longrightarrow> rejoin ps = [] \<longleftrightarrow> ps = []"
  using join_with_eq_Nil [of ps "[SEP]"] by (auto simp: rejoin_def segs_ok_def)

lemma rejoin_hd: "segs_ok ps \<Longrightarrow> ps \<noteq> [] \<Longrightarrow> hd (rejoin ps) \<noteq> SEP"
  by (cases ps) (auto simp: rejoin_def join_with_Cons hd_append dest: hd_in_set)

lemma rejoin_last: "segs_ok ps \<Longrightarrow> ps \<noteq> [] \<Longrightarrow> last (rejoin ps) \<noteq> SEP"
proof (induction ps rule: rev_induct)
  case (snoc q qs)
  then have "last q \<noteq> SEP" by (auto dest: last_in_set)
  moreover have "rejoin (qs @ [q]) = (if qs = [] then q else rejoin qs @ [SEP] @ q)"
    using join_with_append [of qs "[q]" "[SEP]"] by (simp add: rejoin_def)
  ultimately show ?case using snoc.prems by simp
qed simp

section \<open>Properties\<close>

lemma splitPath_Nil [simp]: "splitPath [] = [[]]"
  by (simp add: splitPath_def)

text \<open>What \<open>normalize\<close> returns has the same normal form as its argument.\<close>

definition render :: "bool \<Rightarrow> bool \<Rightarrow> jsstr list \<Rightarrow> jsstr" where
  "render isAbs tr ps =
     (if ps = [] then (if isAbs then [SEP] else if tr then DOT @ [SEP] else DOT)
      else (if isAbs then [SEP] else []) @ rejoin ps @ (if tr then [SEP] else []))"

lemma normalize_str_render:
  "p \<noteq> [] \<Longrightarrow>
   normalize_str p = render (hd p = SEP) (last p = SEP) (normParts (splitPath p) (hd p = SEP))"
  by (simp add: normalize_str_def render_def Let_def)

lemma splitPath_dots: "splitPath DOT = [DOT]" "splitPath (DOT @ [SEP]) = [DOT, []]"
    "splitPath [SEP] = [[], []]"
  by (simp_all add: splitPath_def split1_sep_end)

lemma normParts_render:
  assumes ok: "norm_ok isAbs ps"
  shows "normParts (splitPath (render isAbs tr ps)) isAbs = ps"
proof (cases "ps = []")
  case True
  then show ?thesis by (simp add: render_def splitPath_dots normParts_def norm_step_def)
next
  case False
  have "splitPath (rejoin ps @ (if tr then [SEP] else [])) = ps @ (if tr then [[]] else [])"
    by (simp add: splitPath_sep_end split_rejoin [OF norm_ok_segs [OF ok] False])
  moreover have "norm_loop isAbs [] ps = ps" by (rule norm_loop_id [OF ok])
  ultimately show ?thesis
    using False
    by (cases isAbs; cases tr) (simp_all add: render_def splitPath_sep_start normParts_def norm_loop_append)
qed

lemma render_ends:
  assumes "norm_ok isAbs ps"
  shows "render isAbs tr ps \<noteq> []"
    and "hd (render isAbs tr ps) = SEP \<longleftrightarrow> isAbs"
    and "\<not> (isAbs \<and> ps = []) \<Longrightarrow> last (render isAbs tr ps) = SEP \<longleftrightarrow> tr"
    and "render isAbs (last (render isAbs tr ps) = SEP) ps = render isAbs tr ps"
proof -
  have dot: "hd DOT \<noteq> SEP" "last DOT \<noteq> SEP" by (simp_all add: DOT_def SEP_def)
  show "render isAbs tr ps \<noteq> []" by (simp add: render_def rejoin_Nil_iff [OF norm_ok_segs [OF assms]])
  show "hd (render isAbs tr ps) = SEP \<longleftrightarrow> isAbs"
    using dot rejoin_hd [OF norm_ok_segs [OF assms]] rejoin_Nil_iff [OF norm_ok_segs [OF assms]] by (auto simp: render_def hd_append)
  show l: "\<not> (isAbs \<and> ps = []) \<Longrightarrow> last (render isAbs tr ps) = SEP \<longleftrightarrow> tr"
    using dot rejoin_last [OF norm_ok_segs [OF assms]] rejoin_Nil_iff [OF norm_ok_segs [OF assms]] by (auto simp: render_def last_append)
  show "render isAbs (last (render isAbs tr ps) = SEP) ps = render isAbs tr ps"
  proof (cases "isAbs \<and> ps = []")
    case True
    then show ?thesis by (simp add: render_def)
  next
    case False
    then show ?thesis by (simp add: l)
  qed
qed

lemma normalize_norm_ok:
  "p \<noteq> [] \<Longrightarrow> norm_ok (hd p = SEP) (normParts (splitPath p) (hd p = SEP))"
  by (rule normParts_ok)

lemma normalize_ends:
  assumes "p \<noteq> []"
  shows "normalize_str p \<noteq> []" and "hd (normalize_str p) = SEP \<longleftrightarrow> hd p = SEP"
    and "normParts (splitPath (normalize_str p)) (hd p = SEP) = normParts (splitPath p) (hd p = SEP)"
  using assms render_ends [OF normalize_norm_ok] normParts_render [OF normalize_norm_ok]
  by (simp_all add: normalize_str_render)

lemma normalize_idem: "normalize_str (normalize_str p) = normalize_str p"
proof (cases "p = []")
  case True
  have "hd DOT \<noteq> SEP" "last DOT \<noteq> SEP" by (simp_all add: DOT_def SEP_def)
  with True show ?thesis
    by (simp add: normalize_str_def Let_def splitPath_dots normParts_def norm_step_def)
next
  case False
  have "normalize_str (normalize_str p)
      = render (hd p = SEP) (last (normalize_str p) = SEP) (normParts (splitPath p) (hd p = SEP))"
    using normalize_ends [OF False] by (simp add: normalize_str_render [of "normalize_str p"])
  also have "\<dots> = normalize_str p"
    using render_ends(4) [OF normalize_norm_ok [OF False]] False by (simp add: normalize_str_render)
  finally show ?thesis .
qed

text \<open>\<open>join\<close> glues the non-empty arguments together with one separator and normalizes.\<close>

lemma join_acc_eq:
  "join_acc acc segs =
     (let ne = filter (\<lambda>s. s \<noteq> []) segs
      in if acc = [] then join_with [SEP] ne
         else if ne = [] then acc else acc @ [SEP] @ join_with [SEP] ne)"
  by (induction segs arbitrary: acc) (auto simp: Let_def join_with_Cons)

lemma join_strs_eq:
  "join_strs segs =
     (let ne = filter (\<lambda>s. s \<noteq> []) segs
      in if ne = [] then DOT else normalize_str (join_with [SEP] ne))"
proof -
  have "join_with [SEP] (filter (\<lambda>s. s \<noteq> []) segs) = [] \<longleftrightarrow> filter (\<lambda>s. s \<noteq> []) segs = []"
    by (rule join_with_eq_Nil) auto
  then show ?thesis by (simp add: join_strs_def join_acc_eq Let_def)
qed

text \<open>Normalizing a prefix of a path first does not change the normal form.\<close>

lemma normalize_prefix:
  assumes "p \<noteq> []" "c \<noteq> []"
  shows "normalize_str (normalize_str p @ SEP # c) = normalize_str (p @ SEP # c)"
proof -
  have "normParts (splitPath (normalize_str p @ SEP # c)) (hd p = SEP)
      = normParts (splitPath (p @ SEP # c)) (hd p = SEP)"
    using normalize_ends(3) [OF assms(1)]
    by (simp add: splitPath_append normParts_def norm_loop_append)
  with assms normalize_ends [OF assms(1)] show ?thesis
    by (simp add: normalize_str_render)
qed

lemma join_nested:
  assumes "a \<noteq> [] \<or> b \<noteq> []"
  shows "join_strs [join_strs [a, b], c] = join_strs [a, b, c]"
proof -
  have "\<exists>p. p \<noteq> [] \<and> join_strs [a, b] = normalize_str p \<and>
      (c \<noteq> [] \<longrightarrow> join_strs [a, b, c] = normalize_str (p @ SEP # c)) \<and>
      (c = [] \<longrightarrow> join_strs [a, b, c] = normalize_str p)"
    using assms by (intro exI [of _ "join_with [SEP] (filter (\<lambda>s. s \<noteq> []) [a, b])"])
      (auto simp: join_strs_eq Let_def)
  then obtain p where p: "p \<noteq> []" "join_strs [a, b] = normalize_str p"
      "c \<noteq> [] \<longrightarrow> join_strs [a, b, c] = normalize_str (p @ SEP # c)"
      "c = [] \<longrightarrow> join_strs [a, b, c] = normalize_str p" by blast
  then have "join_strs [join_strs [a, b], c]
      = (if c = [] then normalize_str (normalize_str p) else normalize_str (normalize_str p @ SEP # c))"
    using normalize_ends(1) [of p] by (simp add: join_strs_eq Let_def)
  with p show ?thesis by (simp add: normalize_idem normalize_prefix)
qed

section \<open>resolve and relative\<close>

text \<open>The string \<open>resolve\<close> normalizes, and the segments of its result.\<close>

definition resolve_input :: "jsstr \<Rightarrow> jsstr list \<Rightarrow> jsstr" where
  "resolve_input cwd segs =
     (let r = resolve_loop [] (rev segs)
      in if r = [] then cwd else if hd r \<noteq> SEP then cwd @ [SEP] @ r else r)"

lemma resolve_strs_eq:
  "resolve_strs cwd segs =
     (let ps = normParts (splitPath (resolve_input cwd segs)) True in
      if ps = [] then [SEP] else SEP # rejoin ps)"
  by (simp add: resolve_strs_def resolve_input_def Let_def)

lemma resolve_render: "resolve_strs cwd segs =
    render True False (normParts (splitPath (resolve_input cwd segs)) True)"
  by (simp add: resolve_strs_eq render_def Let_def)

lemma resolve_parts:
  "normParts (splitPath (resolve_strs cwd segs)) True
     = normParts (splitPath (resolve_input cwd segs)) True"
  unfolding resolve_render by (rule normParts_render) (rule normParts_ok)

lemma resolve_abs:
  "resolve_strs cwd segs = SEP # rejoin (normParts (splitPath (resolve_strs cwd segs)) True)"
  unfolding resolve_parts by (simp add: resolve_strs_eq Let_def rejoin_def)

lemma resolve_eqI:
  "normParts (splitPath (resolve_input cwd xs)) True = normParts (splitPath (resolve_input cwd ys)) True
    \<Longrightarrow> resolve_strs cwd xs = resolve_strs cwd ys"
  by (simp add: resolve_strs_eq)

lemma resolve_input_two:
  assumes "b \<noteq> []" "hd b \<noteq> SEP"
  shows "resolve_input cwd [a, b] = resolve_input cwd [a] @ SEP # b"
  using assms by (auto simp: resolve_input_def Let_def)

lemma common_len_take:
  "common_len xs ys \<le> length xs \<and> common_len xs ys \<le> length ys \<and>
   take (common_len xs ys) xs = take (common_len xs ys) ys"
  by (induction xs ys rule: common_len.induct) auto

lemma relative_parts:
  assumes "list_all plain_seg xs" "list_all plain_seg ys"
  shows "norm_loop True xs (replicate (length xs - common_len xs ys) DOTDOT @ drop (common_len xs ys) ys) = ys"
proof -
  define c where "c = common_len xs ys"
  have c: "c \<le> length xs" "take c xs = take c ys" using common_len_take [of xs ys] by (simp_all add: c_def)
  have "norm_loop True (take c xs @ drop c xs) (replicate (length (drop c xs)) DOTDOT) = take c xs"
    by (rule norm_loop_ups) (metis assms(1) append_take_drop_id list_all_append)
  then have "norm_loop True xs (replicate (length xs - c) DOTDOT) = take c ys"
    unfolding append_take_drop_id using c(2) by simp
  moreover have "list_all plain_seg (drop c ys)"
    by (metis assms(2) append_take_drop_id list_all_append)
  ultimately show ?thesis
    by (simp add: norm_loop_append norm_loop_plain c_def)
qed

lemma relative_segs:
  "list_all plain_seg ys \<Longrightarrow> segs_ok (replicate n DOTDOT @ drop c ys)"
  by (metis append_take_drop_id list_all_append plain_segs_ok segs_ok_simps(3,4))

lemma resolve_relative:
  "resolve_strs cwd [frm, relative_str cwd frm to] = resolve_strs cwd [to]"
proof -
  define xs where "xs = normParts (splitPath (resolve_strs cwd [frm])) True"
  define ys where "ys = normParts (splitPath (resolve_strs cwd [to])) True"
  define res where "res = replicate (length xs - common_len xs ys) DOTDOT @ drop (common_len xs ys) ys"
  have plain: "list_all plain_seg xs" "list_all plain_seg ys"
    unfolding xs_def ys_def norm_ok_abs [symmetric] by (rule normParts_ok)+
  have rel: "relative_str cwd frm to = (if res = [] then [] else rejoin res)"
    by (simp add: relative_str_def xs_def ys_def res_def Let_def)
  have segs: "segs_ok res" unfolding res_def by (rule relative_segs [OF plain(2)])
  have loop: "norm_loop True xs res = ys"
    unfolding res_def by (rule relative_parts [OF plain])
  have fromP: "normParts (splitPath (resolve_input cwd [frm])) True = xs"
    and toP: "normParts (splitPath (resolve_input cwd [to])) True = ys"
    by (simp_all add: xs_def ys_def resolve_parts)
  show ?thesis
  proof (cases "res = []")
    case True
    then have "xs = ys" using loop by simp
    moreover have "resolve_input cwd [frm, []] = resolve_input cwd [frm]"
      by (simp add: resolve_input_def)
    ultimately show ?thesis
      using True rel fromP toP by (simp add: resolve_strs_eq)
  next
    case False
    have "rejoin res \<noteq> []" "hd (rejoin res) \<noteq> SEP"
      using False segs by (simp_all add: rejoin_Nil_iff rejoin_hd)
    then have "resolve_input cwd [frm, rejoin res] = resolve_input cwd [frm] @ SEP # rejoin res"
      by (rule resolve_input_two)
    moreover have "splitPath (rejoin res) = res" by (rule split_rejoin [OF segs False])
    ultimately have "normParts (splitPath (resolve_input cwd [frm, rejoin res])) True = ys"
      using fromP loop by (simp add: splitPath_append normParts_def norm_loop_append)
    then show ?thesis using False rel toP by (simp add: resolve_strs_eq)
  qed
qed

section \<open>parse and format\<close>

lemma slice_take: "slice s 0 n = take n s"
  by (simp add: slice_def)

lemma parse_name_ext_append: "fst (parse_name_ext b) @ snd (parse_name_ext b) = b"
  by (simp add: parse_name_ext_def slice_take split: option.split)

lemma parse_str_name_ext: "pp_name (parse_str p) @ pp_ext (parse_str p) = pp_base (parse_str p)"
  by (simp add: parse_str_def Let_def parse_name_ext_append)

lemma format_parse_str:
  assumes "\<not> sublist [SEP, SEP] p"
  shows "path_format (Some (parse_str p)) = p"
proof (cases "p = []")
  case True
  then show ?thesis by (simp add: path_format_def parse_str_def)
next
  case ne: False
  have base: "(if pp_base (parse_str p) = [] then pp_name (parse_str p) @ pp_ext (parse_str p)
      else pp_base (parse_str p)) = pp_base (parse_str p)"
    using parse_str_name_ext [of p] by auto
  show ?thesis
  proof (cases "last_index_of SEP p")
    case None
    then have "hd p \<noteq> SEP" using ne by (auto dest: hd_in_set)
    moreover from None have "parse_dir_base [] p = ([], p)" by (simp add: parse_dir_base_def)
    ultimately show ?thesis
      using ne base by (simp add: path_format_def parse_str_def Let_def)
  next
    case (Some i)
    then obtain d b where p: "p = d @ SEP # b" "SEP \<notin> set b" "i = length d"
      by (rule last_index_of_split)
    have dir: "pp_dir (parse_str p) = (if d = [] then [SEP] else d)" and "pp_base (parse_str p) = b"
      using ne Some p by (cases d; simp add: parse_str_def parse_dir_base_def Let_def slice_take)+
    moreover have "d \<noteq> [] \<Longrightarrow> last d \<noteq> SEP"
    proof
      assume "d \<noteq> []" "last d = SEP"
      then obtain d' where "d = d' @ [SEP]" by (metis append_butlast_last_id)
      with p have "p = d' @ [SEP, SEP] @ b" by simp
      with assms show False by (metis sublist_appendI)
    qed
    ultimately show ?thesis using base p by (auto simp: path_format_def Let_def)
  qed
qed

section \<open>dirname and basename\<close>

lemma strip_end_le: "strip_end p e \<le> e"
proof (induction p e rule: strip_end.induct)
  case (1 p e)
  then show ?case by (auto simp: strip_end.simps [of p e] intro: le_trans)
qed

lemma strip_end_pos: "0 < e \<Longrightarrow> 0 < strip_end p e"
proof (induction p e rule: strip_end.induct)
  case (1 p e)
  then show ?case by (auto simp: strip_end.simps [of p e])
qed

lemma strip_end_dropped: "strip_end p e \<le> i \<Longrightarrow> i < e \<Longrightarrow> p ! i = SEP"
proof (induction p e rule: strip_end.induct)
  case (1 p e)
  show ?case
  proof (cases "1 < e \<and> p ! (e - 1) = SEP")
    case True
    with 1 show ?thesis
      by (cases "i = e - 1") (auto simp: strip_end.simps [of p e])
  next
    case False
    with 1 show ?thesis by (auto simp: strip_end.simps [of p e])
  qed
qed

lemma strip_end_stop: "1 < strip_end p e \<Longrightarrow> p ! (strip_end p e - 1) \<noteq> SEP"
proof (induction p e rule: strip_end.induct)
  case (1 p e)
  then show ?case by (auto simp: strip_end.simps [of p e] split: if_splits)
qed

lemma stripTrailing_split:
  "\<exists>n. p = stripTrailing p @ replicate n SEP"
proof (rule exI)
  let ?e = "strip_end p (length p)"
  have "drop ?e p = replicate (length p - ?e) SEP"
    by (rule nth_equalityI) (use strip_end_dropped [of p "length p"] in auto)
  then show "p = stripTrailing p @ replicate (length p - ?e) SEP"
    by (metis append_take_drop_id slice_take stripTrailing_def)
qed

lemma dirname_basename_str:
  assumes "p \<noteq> []" and "\<not> sublist [SEP, SEP] p"
  shows "stripTrailing p =
    (if SEP \<notin> set (stripTrailing p) then basename_str p None
     else if dirname_str p = [SEP] then SEP # basename_str p None
     else dirname_str p @ SEP # basename_str p None)"
proof (cases "last_index_of SEP (stripTrailing p)")
  case None
  with assms show ?thesis by (simp add: basename_str_def Let_def)
next
  case (Some i)
  then obtain d b where q: "stripTrailing p = d @ SEP # b" "SEP \<notin> set b" "i = length d"
    by (rule last_index_of_split)
  have base: "basename_str p None = b" using assms Some q by (simp add: basename_str_def)
  have dir: "dirname_str p = (if d = [] then [SEP] else d)"
    using assms Some q by (simp add: dirname_str_def slice_take)
  have "d \<noteq> [SEP]"
  proof
    assume "d = [SEP]"
    moreover obtain n where "p = stripTrailing p @ replicate n SEP"
      using stripTrailing_split by blast
    ultimately have "p = [] @ [SEP, SEP] @ (b @ replicate n SEP)" using q by simp
    with assms(2) show False by (metis sublist_appendI)
  qed
  with q base dir show ?thesis by simp
qed

section \<open>Theorems\<close>

text \<open>\<open>normalize\<close> returns a canonical path: it keeps absolute paths absolute and relative ones
  relative, the segments between its separators are never empty or \<open>.\<close>, a \<open>..\<close> stands only at
  the start of a relative path, and a second \<open>normalize\<close> changes nothing.\<close>

theorem normalize_canonical:
  "(\<exists>ps tr. norm_ok (isAbs_str p) ps \<and> normalize_str p = render (isAbs_str p) tr ps) \<and>
   isAbs_str (normalize_str p) = isAbs_str p \<and>
   normalize_str (normalize_str p) = normalize_str p"
proof (cases "p = []")
  case True
  have "normalize_str [] = render False False []" by (simp add: normalize_str_def render_def)
  moreover have "\<not> isAbs_str (render False False [])"
    by (simp add: isAbs_str_def render_def DOT_def SEP_def)
  ultimately show ?thesis
    using True normalize_idem [of "[]"] norm_ok_Nil [of False] isAbs_str_def by metis
next
  case False
  then show ?thesis
    using normalize_idem [of p] normalize_ends [OF False] normalize_str_render [OF False]
      normalize_norm_ok [OF False]
    by (auto simp: isAbs_str_def)
qed

text \<open>C40: resolving what \<open>relative\<close> returns, from the same starting point, gives the target:
  \<open>resolve(from, relative(from, to))\<close> is \<open>resolve(to)\<close>, for every working directory.\<close>

theorem relative_resolves:
  "path_resolve cwd [VStr f, VStr (relative_str cwd f t)] = path_resolve cwd [VStr t]"
  by (simp add: path_resolve_def validatePathString_def resolve_relative)

text \<open>\<open>join\<close> is associative when the inner call has a non-empty argument:
  \<open>join(join(a, b), c)\<close> is \<open>join(a, b, c)\<close>.\<close>

theorem join_assoc:
  "a \<noteq> [] \<or> b \<noteq> [] \<Longrightarrow>
   path_join [VStr (join_strs [a, b]), VStr c] = path_join [VStr a, VStr b, VStr c]"
  by (simp add: path_join_def validatePathString_def join_nested)

theorem join_assoc_witness:
  "path_join [VStr (join_strs [js ''/a'', js ''../b'']), VStr (js ''c/'')]
     = path_join [VStr (js ''/a''), VStr (js ''../b''), VStr (js ''c/'')]
   \<and> path_join [VStr (js ''/a''), VStr (js ''../b''), VStr (js ''c/'')] = Inr (js ''/b/c/'')"
  using join_assoc [of "js ''/a''" "js ''../b''" "js ''c/''"]
  by (simp, code_simp)

text \<open>\<open>format\<close> undoes \<open>parse\<close> on every path without a doubled separator.\<close>

theorem format_parse:
  "\<not> sublist [SEP, SEP] p \<Longrightarrow>
   (\<exists>ob. path_parse (VStr p) = Inr ob \<and> path_format (Some ob) = p)"
  by (simp add: path_parse_def validatePathString_def format_parse_str)

theorem format_parse_witness:
  "\<exists>ob. path_parse (VStr (js ''/a/b.c'')) = Inr ob \<and> path_format (Some ob) = js ''/a/b.c''"
  by (rule format_parse) (simp add: SEP_def sublist_Cons_right)

text \<open>\<open>dirname\<close> and \<open>basename\<close> split a path, less its trailing separators, at its last
  separator: putting them together again gives the path back.\<close>

theorem dirname_basename:
  assumes "p \<noteq> []" and "\<not> sublist [SEP, SEP] p"
  shows "\<exists>d b n. path_dirname (VStr p) = Inr d \<and> path_basename (VStr p) VUndef = Inr b \<and>
    p = (if SEP \<notin> set (stripTrailing p) then b else if d = [SEP] then SEP # b else d @ SEP # b)
        @ replicate n SEP"
proof -
  obtain n where "p = stripTrailing p @ replicate n SEP" using stripTrailing_split by blast
  then show ?thesis
    using dirname_basename_str [OF assms]
    by (auto simp: path_dirname_def path_basename_def validatePathString_def)
qed

theorem dirname_basename_witness:
  "\<exists>d b n. path_dirname (VStr (js ''/a/b/'')) = Inr d \<and>
    path_basename (VStr (js ''/a/b/'')) VUndef = Inr b \<and>
    js ''/a/b/'' = (if SEP \<notin> set (stripTrailing (js ''/a/b/'')) then b
       else if d = [SEP] then SEP # b else d @ SEP # b) @ replicate n SEP"
  by (rule dirname_basename) (simp_all add: SEP_def sublist_Cons_right)

end
