(* ===== verification/Punycode.thy ===== *)
theory Punycode
  imports Prelude
begin

text \<open>
  \<open>punycode.js\<close>: the Punycode and IDNA functions. Code points and the counters \<open>i\<close>, \<open>n\<close>, \<open>w\<close>,
  \<open>delta\<close> are natural numbers: the source keeps them at most \<open>0x7fffffff\<close> by its overflow checks,
  which are kept, and its doubles are exact far beyond that.
\<close>

section \<open>Constants and helpers\<close>

definition BASE :: nat where "BASE = 36"
definition TMIN :: nat where "TMIN = 1"
definition TMAX :: nat where "TMAX = 26"
definition SKEW :: nat where "SKEW = 38"
definition DAMP :: nat where "DAMP = 700"
definition INITIAL_BIAS :: nat where "INITIAL_BIAS = 72"
definition INITIAL_N :: nat where "INITIAL_N = 128"
definition DELIMITER :: nat where "DELIMITER = 45"
definition MAXINT :: nat where "MAXINT = 0x7fffffff"

lemmas pc_consts = BASE_def TMIN_def TMAX_def SKEW_def DAMP_def INITIAL_BIAS_def INITIAL_N_def
  DELIMITER_def MAXINT_def

definition pc_error :: "string \<Rightarrow> js_error" where
  "pc_error msg = RangeError (''punycode: '' @ msg)"

text \<open>The loop of \<open>_adapt\<close>, which returns the final \<open>delta\<close> and \<open>k\<close>.\<close>

fun adapt_loop :: "nat \<Rightarrow> nat \<Rightarrow> nat \<times> nat" where
  "adapt_loop delta k =
     (if 455 < delta then adapt_loop (delta div 35) (k + BASE) else (delta, k))"

declare adapt_loop.simps [simp del]

definition adapt :: "nat \<Rightarrow> nat \<Rightarrow> bool \<Rightarrow> nat" where
  "adapt delta0 numPoints firstTime =
     (let delta1 = (if firstTime then delta0 div DAMP else delta0 div 2);
          (delta, k) = adapt_loop (delta1 + delta1 div numPoints) 0
      in k + (BASE - TMIN + 1) * delta div (delta + SKEW))"

definition basicToDigit :: "nat \<Rightarrow> nat" where
  "basicToDigit cp =
     (if 48 \<le> cp \<and> cp \<le> 57 then cp - 22
      else if 65 \<le> cp \<and> cp \<le> 90 then cp - 65
      else if 97 \<le> cp \<and> cp \<le> 122 then cp - 97
      else BASE)"

definition digitToBasic :: "nat \<Rightarrow> nat" where
  "digitToBasic digit = (if digit < 26 then digit + 97 else digit - 26 + 48)"

fun ucs2decode :: "jsstr \<Rightarrow> nat list" where
  "ucs2decode [] = []"
| "ucs2decode [c] = [c]"
| "ucs2decode (c # lo # s) =
     (if 0xd800 \<le> c \<and> c \<le> 0xdbff then
        (if 0xdc00 \<le> lo \<and> lo \<le> 0xdfff
         then (0x10000 + push_bit 10 (c - 0xd800) + (lo - 0xdc00)) # ucs2decode s
         else c # ucs2decode (lo # s))
      else c # ucs2decode (lo # s))"

text \<open>\<open>String.fromCharCode\<close> keeps the low 16 bits.\<close>

definition from_char_code :: "nat \<Rightarrow> nat" where
  "from_char_code c = c mod 65536"

fun ucs2encode :: "nat list \<Rightarrow> jsstr" where
  "ucs2encode [] = []"
| "ucs2encode (cp # cps) =
     (if 0xffff < cp then
        (let c = cp - 0x10000
         in [from_char_code (0xd800 + drop_bit 10 c), from_char_code (0xdc00 + (c AND 0x3ff))])
      else [from_char_code cp]) @ ucs2encode cps"

section \<open>decode\<close>

definition threshold :: "nat \<Rightarrow> nat \<Rightarrow> nat" where
  "threshold k bias =
     (if k \<le> bias then TMIN else if bias + TMAX \<le> k then TMAX else k - bias)"

text \<open>
  The inner loop: one generalized variable-length integer. The argument is the input from
  \<open>index\<close> on; the result is the input after it and the new \<open>i\<close>.
\<close>

fun dec_varint :: "nat \<Rightarrow> jsstr \<Rightarrow> nat \<Rightarrow> nat \<Rightarrow> nat \<Rightarrow> (jsstr \<times> nat) result" where
  "dec_varint bias [] i w k = Inl (pc_error ''invalid-input'')"
| "dec_varint bias (c # cs) i w k =
     (let digit = basicToDigit c
      in if BASE \<le> digit then Inl (pc_error ''invalid-input'')
         else if (MAXINT - i) div w < digit then Inl (pc_error ''overflow'')
         else
           let i' = i + digit * w; t = threshold k bias
           in if digit < t then Inr (cs, i')
              else if MAXINT div (BASE - t) < w then Inl (pc_error ''overflow'')
              else dec_varint bias cs i' (w * (BASE - t)) (k + BASE))"

lemma dec_varint_shorter: "dec_varint bias s i w k = Inr (r, i') \<Longrightarrow> length r < length s"
  by (induction bias s i w k rule: dec_varint.induct) (fastforce simp: Let_def split: if_splits)+

function decode_loop :: "jsstr \<Rightarrow> nat \<Rightarrow> nat \<Rightarrow> nat \<Rightarrow> nat list \<Rightarrow> nat list result" where
  "decode_loop input n i bias output =
     (if input = [] then Inr output
      else case dec_varint bias input i 1 BASE of
        Inl e \<Rightarrow> Inl e
      | Inr (rest, i') \<Rightarrow>
          (let out = length output + 1;
               bias' = adapt (i' - i) out (i = 0)
           in if MAXINT - n < i' div out then Inl (pc_error ''overflow'')
              else
                let n' = n + i' div out; pos = i' mod out
                in decode_loop rest n' (pos + 1) bias' (take pos output @ n' # drop pos output)))"
  by pat_completeness auto
termination
  by (relation "measure (\<lambda>(input, _). length input)") (auto dest: dec_varint_shorter)

declare decode_loop.simps [simp del]

definition punycode_decode :: "jsstr \<Rightarrow> jsstr result" where
  "punycode_decode input =
     (let basic = (case last_index_of DELIMITER input of Some j \<Rightarrow> j | None \<Rightarrow> 0)
      in if \<exists>cp \<in> set (take basic input). 0x80 \<le> cp then Inl (pc_error ''not-basic'')
         else
           let index = (if 0 < basic then basic + 1 else 0)
           in case decode_loop (drop index input) INITIAL_N 0 INITIAL_BIAS (take basic input) of
                Inl e \<Rightarrow> Inl e
              | Inr output \<Rightarrow> Inr (ucs2encode output))"

section \<open>encode\<close>

text \<open>The digits of one delta, from the threshold position \<open>k\<close> on.\<close>

lemma threshold_bounds: "1 \<le> threshold k bias" "threshold k bias \<le> 26"
  by (auto simp: threshold_def pc_consts)

function enc_varint :: "nat \<Rightarrow> nat \<Rightarrow> nat \<Rightarrow> jsstr" where
  "enc_varint bias q k =
     (let t = threshold k bias
      in if q < t then [digitToBasic q]
         else digitToBasic (t + (q - t) mod (BASE - t))
              # enc_varint bias ((q - t) div (BASE - t)) (k + BASE))"
  by pat_completeness auto
termination
proof (relation "measure (\<lambda>(bias, q, k). q)")
  fix bias q k t :: nat
  assume t: "t = threshold k bias" "\<not> q < t"
  then have "(q - t) div (BASE - t) \<le> q - t" by simp
  also have "q - t < q" using t threshold_bounds [of k bias] by simp
  finally show "((bias, (q - t) div (BASE - t), k + BASE), bias, q, k) \<in> measure (\<lambda>(bias, q, k). q)"
    by simp
qed simp

declare enc_varint.simps [simp del]

record enc_state =
  es_delta :: nat
  es_bias :: nat
  es_h :: nat
  es_output :: jsstr

text \<open>The scan over the code points for one value of \<open>n\<close>.\<close>

fun enc_scan :: "nat \<Rightarrow> nat \<Rightarrow> nat list \<Rightarrow> enc_state \<Rightarrow> enc_state result" where
  "enc_scan n basicCount [] st = Inr st"
| "enc_scan n basicCount (cp # cps) st =
     (if cp < n \<and> MAXINT < es_delta st + 1 then Inl (pc_error ''overflow'')
      else
        let st1 = (if cp < n then st\<lparr>es_delta := es_delta st + 1\<rparr> else st);
            st2 = (if cp = n
                   then st1\<lparr>es_output := es_output st1 @ enc_varint (es_bias st1) (es_delta st1) BASE,
                            es_bias := adapt (es_delta st1) (es_h st1 + 1) (es_h st1 = basicCount),
                            es_delta := 0,
                            es_h := es_h st1 + 1\<rparr>
                   else st1)
        in enc_scan n basicCount cps st2)"

text \<open>The minimum code point that is at least \<open>n\<close>, or \<open>0x7fffffff\<close>.\<close>

definition min_from :: "nat \<Rightarrow> nat list \<Rightarrow> nat" where
  "min_from n cps = foldl (\<lambda>m cp. if n \<le> cp \<and> cp < m then cp else m) MAXINT cps"

text \<open>The main loop. \<open>None\<close> means that it does not return; \<open>encode_returns\<close> below excludes that.
  The first disjunct of the overflow test is the case of a negative difference in the source.\<close>

partial_function (option) encode_loop ::
    "nat list \<Rightarrow> nat \<Rightarrow> nat \<Rightarrow> enc_state \<Rightarrow> jsstr result option" where
  "encode_loop cps basicCount n st =
     (if length cps \<le> es_h st then Some (Inr (es_output st))
      else
        let m = min_from n cps
        in if MAXINT < es_delta st \<or> (MAXINT - es_delta st) div (es_h st + 1) < m - n
           then Some (Inl (pc_error ''overflow''))
           else
             case enc_scan m basicCount cps
                    (st\<lparr>es_delta := es_delta st + (m - n) * (es_h st + 1)\<rparr>) of
               Inl e \<Rightarrow> Some (Inl e)
             | Inr st' \<Rightarrow>
                 encode_loop cps basicCount (m + 1) (st'\<lparr>es_delta := es_delta st' + 1\<rparr>))"

definition punycode_encode :: "jsstr \<Rightarrow> jsstr result option" where
  "punycode_encode input =
     (let cps = ucs2decode input;
          basic = filter (\<lambda>cp. cp < 0x80) cps
      in encode_loop cps (length basic) INITIAL_N
           \<lparr>es_delta = 0, es_bias = INITIAL_BIAS, es_h = length basic,
            es_output = basic @ (if 0 < length basic then [DELIMITER] else [])\<rparr>)"

section \<open>Domains\<close>

text \<open>\<open>_mapDomain\<close> applies a function to every label; it stops when one throws or does not return.\<close>

fun map_labels :: "(jsstr \<Rightarrow> jsstr result option) \<Rightarrow> jsstr list \<Rightarrow> jsstr list result option" where
  "map_labels f [] = Some (Inr [])"
| "map_labels f (l # ls) =
     (case f l of
        None \<Rightarrow> None
      | Some (Inl e) \<Rightarrow> Some (Inl e)
      | Some (Inr l') \<Rightarrow>
          (case map_labels f ls of
             None \<Rightarrow> None
           | Some (Inl e) \<Rightarrow> Some (Inl e)
           | Some (Inr ls') \<Rightarrow> Some (Inr (l' # ls'))))"

definition mapDomain :: "jsstr \<Rightarrow> (jsstr \<Rightarrow> jsstr result option) \<Rightarrow> jsstr result option" where
  "mapDomain domain f =
     map_option (\<lambda>r. case r of Inl e \<Rightarrow> Inl e | Inr ls \<Rightarrow> Inr (join_with [46] ls))
       (map_labels f (split1 46 domain))"

definition XN :: jsstr where "XN = js ''xn--''"

definition ascii_label :: "jsstr \<Rightarrow> jsstr result option" where
  "ascii_label label =
     (if \<exists>c \<in> set label. 0x80 \<le> c
      then map_option (\<lambda>r. case r of Inl e \<Rightarrow> Inl e | Inr p \<Rightarrow> Inr (XN @ p)) (punycode_encode label)
      else Some (Inr label))"

definition toASCII :: "jsstr \<Rightarrow> jsstr result option" where
  "toASCII domain = mapDomain domain ascii_label"

definition unicode_label :: "jsstr \<Rightarrow> jsstr result" where
  "unicode_label label =
     (if 4 < length label \<and> take 4 label = XN then punycode_decode (drop 4 label) else Inr label)"

definition toUnicode :: "jsstr \<Rightarrow> jsstr result option" where
  "toUnicode domain = mapDomain domain (\<lambda>l. Some (unicode_label l))"

section \<open>Digits and code units\<close>

lemma threshold_lt_base: "threshold k bias < BASE"
  using threshold_bounds(2) [of k bias] by (simp add: BASE_def)

lemma digit_roundtrip: "d < BASE \<Longrightarrow> basicToDigit (digitToBasic d) = d"
  by (auto simp: basicToDigit_def digitToBasic_def BASE_def)

text \<open>The code units of the digits: \<open>a\<close> to \<open>z\<close> and \<open>0\<close> to \<open>9\<close>.\<close>

definition pc_digit :: "nat \<Rightarrow> bool" where
  "pc_digit c \<longleftrightarrow> (97 \<le> c \<and> c \<le> 122) \<or> (48 \<le> c \<and> c \<le> 57)"

lemma pc_digitD: "pc_digit c \<Longrightarrow> c < 128 \<and> c \<noteq> DELIMITER \<and> c \<noteq> 46"
  by (auto simp: pc_digit_def DELIMITER_def)

lemma digitToBasic_digit: "d < BASE \<Longrightarrow> pc_digit (digitToBasic d)"
  by (auto simp: digitToBasic_def pc_digit_def BASE_def)

lemma ucs2_roundtrip: "is_jsstr s \<Longrightarrow> ucs2encode (ucs2decode s) = s"
proof (induction s rule: ucs2decode.induct)
  case (3 c lo s)
  show ?case
  proof (cases "0xd800 \<le> c \<and> c \<le> 0xdbff \<and> 0xdc00 \<le> lo \<and> lo \<le> 0xdfff")
    case True
    define x where "x = c - 0xd800"
    define y where "y = lo - 0xdc00"
    have xy: "c = x + 0xd800" "lo = y + 0xdc00" "x < 1024" "y < 1024"
      using True by (auto simp: x_def y_def)
    have "(x * 1024 + y) div 1024 = x" "(x * 1024 + y) mod 1024 = y"
      using xy by simp_all
    with 3 True xy show ?thesis
      by (simp add: bits_arith from_char_code_def Let_def)
  next
    case False
    with 3 show ?thesis by (auto simp: from_char_code_def)
  qed
qed (simp_all add: from_char_code_def)

lemma ucs2decode_bound: "is_jsstr s \<Longrightarrow> cp \<in> set (ucs2decode s) \<Longrightarrow> cp < 0x110000"
proof (induction s rule: ucs2decode.induct)
  case (3 c lo s)
  then show ?case by (auto simp: bits_arith split: if_splits)
qed simp_all

lemma length_ucs2decode: "length (ucs2decode s) \<le> length s"
  by (induction s rule: ucs2decode.induct) auto

section \<open>One delta: decoding undoes encoding\<close>

lemma enc_varint_units:
  "c \<in> set (enc_varint bias q k) \<Longrightarrow> pc_digit c"
proof (induction bias q k rule: enc_varint.induct)
  case (1 bias q k)
  have lt: "threshold k bias + x mod (BASE - threshold k bias) < BASE" for x
    using mod_less_divisor [of "BASE - threshold k bias" x] threshold_lt_base [of k bias] by linarith
  with 1 threshold_lt_base [of k bias] show ?case
    by (auto simp: enc_varint.simps [of bias q k] Let_def digitToBasic_digit split: if_splits)
qed

lemma dec_enc_varint:
  assumes "0 < w" and "i + q * w \<le> MAXINT" and "35 * (q * w) \<le> MAXINT"
  shows "dec_varint bias (enc_varint bias q k @ rest) i w k = Inr (rest, i + q * w)"
  using assms
proof (induction bias q k arbitrary: i w rule: enc_varint.induct)
  case (1 bias q k)
  define t where "t = threshold k bias"
  have t: "1 \<le> t" "t \<le> 26" using threshold_bounds [of k bias] by (simp_all add: t_def)
  show ?case
  proof (cases "q < t")
    case True
    with t have "q < BASE" by (simp add: BASE_def)
    moreover have "q \<le> (MAXINT - i) div w"
      using "1.prems" by (simp add: less_eq_div_iff_mult_less_eq)
    ultimately show ?thesis
      using True by (simp add: enc_varint.simps [of bias q k] t_def Let_def digit_roundtrip)
  next
    case False
    define b where "b = BASE - t"
    have b: "10 \<le> b" "b \<le> 35" using t by (simp_all add: b_def BASE_def)
    define d where "d = t + (q - t) mod b"
    define q' where "q' = (q - t) div b"
    have q: "q = d + q' * b" using False by (simp add: d_def q'_def)
    have "(q - t) mod b < b" using b by simp
    moreover have "t + b = BASE" using t by (simp add: b_def BASE_def)
    ultimately have "d < BASE" "t \<le> d" by (simp_all add: d_def)
    moreover have "d \<le> q" by (subst q) simp
    ultimately have d: "d < BASE" "t \<le> d" "d \<le> q" by simp_all
    have "d * w \<le> q * w" using d by (intro mult_le_mono1)
    then have "d * w \<le> MAXINT - i" using "1.prems" by linarith
    then have 1: "d \<le> (MAXINT - i) div w"
      using "1.prems" by (simp add: less_eq_div_iff_mult_less_eq)
    have "b \<le> 35 * q" using b False t by linarith
    then have "b * w \<le> 35 * (q * w)" using mult_le_mono1 [of b "35 * q" w] by (simp add: mult.assoc)
    then have "b * w \<le> MAXINT" using "1.prems" by linarith
    then have 2: "w \<le> MAXINT div b"
      using "1.prems" b by (simp add: less_eq_div_iff_mult_less_eq mult.commute)
    have eq: "i + d * w + q' * (w * b) = i + q * w"
      by (subst q) (simp add: algebra_simps)
    have le: "q' * (w * b) \<le> q * w" using eq by linarith
    have IH: "dec_varint bias (enc_varint bias q' (k + BASE) @ rest) i' w' (k + BASE)
        = Inr (rest, i' + q' * w')"
      if "0 < w'" "i' + q' * w' \<le> MAXINT" "35 * (q' * w') \<le> MAXINT" for i' w'
      using "1.IH" [OF t_def False, of w' i'] that unfolding b_def q'_def by blast
    have "dec_varint bias (enc_varint bias q' (k + BASE) @ rest) (i + d * w) (w * b) (k + BASE)
        = Inr (rest, i + d * w + q' * (w * b))"
    proof (rule IH)
      show "0 < w * b" using "1.prems" b by simp
      show "i + d * w + q' * (w * b) \<le> MAXINT" using "1.prems" by (simp only: eq)
      show "35 * (q' * (w * b)) \<le> MAXINT" using "1.prems" le by linarith
    qed
    moreover have "enc_varint bias q k = digitToBasic d # enc_varint bias q' (k + BASE)"
      using False by (simp add: enc_varint.simps [of bias q k] t_def [symmetric] b_def [symmetric]
          d_def [symmetric] q'_def [symmetric] Let_def)
    ultimately show ?thesis
      using d 1 2 eq
      by (simp add: digit_roundtrip t_def [symmetric] b_def [symmetric] Let_def not_less)
  qed
qed

section \<open>The encoder and the decoder run in step\<close>

text \<open>
  While the encoder scans for the value \<open>n\<close>, with \<open>pre\<close> behind it and \<open>suf\<close> ahead, the decoder
  has put together the code points below \<open>n\<close> and the code points \<open>n\<close> of \<open>pre\<close>. The encoder's
  \<open>delta\<close> is the number of states between the decoder's \<open>(dn, di)\<close> and the place where the
  encoder stands.
\<close>

definition inserted :: "nat \<Rightarrow> nat list \<Rightarrow> nat list \<Rightarrow> nat list" where
  "inserted n pre suf = filter (\<lambda>c. c \<le> n) pre @ filter (\<lambda>c. c < n) suf"

definition in_sync :: "nat \<Rightarrow> nat \<Rightarrow> nat list \<Rightarrow> nat list \<Rightarrow> enc_state \<Rightarrow> nat \<Rightarrow> nat \<Rightarrow> bool" where
  "in_sync n bc pre suf st dn di \<longleftrightarrow>
     es_h st = length (inserted n pre suf) \<and> bc \<le> es_h st \<and> dn \<le> n \<and>
     es_delta st + di = (n - dn) * (es_h st + 1) + length (filter (\<lambda>c. c \<le> n) pre) \<and>
     (di = 0 \<longleftrightarrow> es_h st = bc)"

lemma inserted_le: "length (inserted n pre suf) \<le> length pre + length suf"
  by (simp add: inserted_def add_mono)

lemma in_sync_below:
  "cp < n \<Longrightarrow> in_sync n bc pre (cp # suf) st dn di \<Longrightarrow>
   in_sync n bc (pre @ [cp]) suf (st\<lparr>es_delta := es_delta st + 1\<rparr>) dn di"
  by (auto simp: in_sync_def inserted_def)

lemma in_sync_above:
  "n < cp \<Longrightarrow> in_sync n bc pre (cp # suf) st dn di \<Longrightarrow> in_sync n bc (pre @ [cp]) suf st dn di"
  by (auto simp: in_sync_def inserted_def)

lemma inserted_move: "cp \<noteq> n \<Longrightarrow> inserted n (pre @ [cp]) suf = inserted n pre (cp # suf)"
  by (auto simp: inserted_def)

text \<open>Labels up to this length cannot overflow the counters.\<close>

definition short :: "nat \<Rightarrow> bool" where
  "short len \<longleftrightarrow> 35 * (0x110000 * (len + 1)) \<le> MAXINT"

lemma delta_bound:
  assumes "in_sync n bc pre suf st dn di" "n < 0x110000" "length pre + length suf \<le> len"
  shows "es_delta st + di \<le> 0x110000 * (len + 1)"
proof -
  have h: "es_h st \<le> len" "length (filter (\<lambda>c. c \<le> n) pre) \<le> es_h st"
    using assms inserted_le [of n pre suf] by (auto simp: in_sync_def inserted_def)
  have "es_delta st + di \<le> (n - dn) * (es_h st + 1) + (es_h st + 1)"
    using assms h by (simp add: in_sync_def)
  also have "\<dots> = (n - dn + 1) * (es_h st + 1)" by (simp add: algebra_simps)
  also have "\<dots> \<le> 0x110000 * (len + 1)"
    using assms(2) h by (intro mult_le_mono) auto
  finally show ?thesis .
qed

lemma enc_varint_not_Nil [simp]: "enc_varint bias q k \<noteq> []"
  by (subst enc_varint.simps) (simp add: Let_def)

lemma decode_step:
  assumes sync: "in_sync n bc pre (n # suf) st dn di" and n: "n < 0x110000"
    and len: "length pre + length (n # suf) \<le> len" "short len"
  shows "decode_loop (enc_varint (es_bias st) (es_delta st) BASE @ rest) dn di (es_bias st)
           (inserted n pre (n # suf))
       = decode_loop rest n (length (filter (\<lambda>c. c \<le> n) pre) + 1)
           (adapt (es_delta st) (es_h st + 1) (es_h st = bc)) (inserted n (pre @ [n]) suf)"
proof -
  define pos where "pos = length (filter (\<lambda>c. c \<le> n) pre)"
  have sum: "di + es_delta st = (n - dn) * (es_h st + 1) + pos" and dn: "dn \<le> n"
    and h: "es_h st = length (inserted n pre (n # suf))" and first: "di = 0 \<longleftrightarrow> es_h st = bc"
    using sync unfolding in_sync_def pos_def by (metis add.commute)+
  have pos: "pos < es_h st + 1" by (simp add: h pos_def inserted_def)
  have d: "es_delta st + di \<le> 0x110000 * (len + 1)" by (rule delta_bound [OF sync n len(1)])
  have "dec_varint (es_bias st) (enc_varint (es_bias st) (es_delta st) BASE @ rest) di 1 BASE
      = Inr (rest, di + es_delta st * 1)"
    by (rule dec_enc_varint) (use d len(2) in \<open>simp_all add: short_def\<close>)
  moreover have "(di + es_delta st) div (es_h st + 1) = n - dn"
    unfolding sum using pos by (rule div_mod_mult_add)
  moreover have "(di + es_delta st) mod (es_h st + 1) = pos"
    unfolding sum using pos by (rule div_mod_mult_add)
  moreover have "n - dn \<le> MAXINT - dn" using n by (simp add: MAXINT_def)
  moreover have "take pos (inserted n pre (n # suf)) @ n # drop pos (inserted n pre (n # suf))
      = inserted n (pre @ [n]) suf"
    by (simp add: inserted_def pos_def)
  ultimately show ?thesis
    using dn first
    by (subst decode_loop.simps)
       (simp add: Let_def h [symmetric] pos_def [symmetric] not_less del: dec_varint.simps)
qed

lemma in_sync_emit:
  assumes "in_sync n bc pre (n # suf) st dn di"
  shows "in_sync n bc (pre @ [n]) suf
    (st\<lparr>es_output := out, es_bias := bias, es_delta := 0, es_h := es_h st + 1\<rparr>)
    n (length (filter (\<lambda>c. c \<le> n) pre) + 1)"
  using assms by (auto simp: in_sync_def inserted_def)

lemma enc_scan_sync:
  assumes "in_sync n bc pre suf st dn di" and n: "n < 0x110000"
    and len: "length pre + length suf \<le> len" and sh: "short len"
  shows "\<exists>st' digits dn' di'.
      enc_scan n bc suf st = Inr st' \<and> es_output st' = es_output st @ digits \<and>
      in_sync n bc (pre @ suf) [] st' dn' di' \<and> (\<forall>c \<in> set digits. pc_digit c) \<and>
      (\<forall>rest. decode_loop (digits @ rest) dn di (es_bias st) (inserted n pre suf)
            = decode_loop rest dn' di' (es_bias st') (inserted n (pre @ suf) []))"
  using assms(1) len
proof (induction suf arbitrary: pre st dn di)
  case Nil
  then show ?case by (intro exI [of _ st] exI [of _ "[]"] exI [of _ dn] exI [of _ di]) simp
next
  case (Cons cp suf)
  consider "cp < n" | "cp = n" | "n < cp" by linarith
  then show ?case
  proof cases
    case 1
    define st1 where "st1 = st\<lparr>es_delta := es_delta st + 1\<rparr>"
    have sync: "in_sync n bc (pre @ [cp]) suf st1 dn di"
      unfolding st1_def by (rule in_sync_below [OF 1 Cons.prems(1)])
    have "es_delta st1 \<le> MAXINT"
      using delta_bound [OF sync n, of len] Cons.prems(2) sh by (simp add: short_def)
    then have "enc_scan n bc (cp # suf) st = enc_scan n bc suf st1"
      using 1 by (simp add: st1_def)
    moreover have "es_output st1 = es_output st" "es_bias st1 = es_bias st"
      by (simp_all add: st1_def)
    moreover have "inserted n (pre @ [cp]) suf = inserted n pre (cp # suf)"
      using 1 by (simp add: inserted_move)
    ultimately show ?thesis
      using Cons.IH [OF sync] Cons.prems(2) by simp
  next
    case 3
    have sync: "in_sync n bc (pre @ [cp]) suf st dn di" by (rule in_sync_above [OF 3 Cons.prems(1)])
    have "enc_scan n bc (cp # suf) st = enc_scan n bc suf st" using 3 by simp
    moreover have "inserted n (pre @ [cp]) suf = inserted n pre (cp # suf)"
      using 3 by (simp add: inserted_move)
    ultimately show ?thesis using Cons.IH [OF sync] Cons.prems(2) by simp
  next
    case 2
    define v where "v = enc_varint (es_bias st) (es_delta st) BASE"
    define st1 where "st1 = st\<lparr>es_output := es_output st @ v,
      es_bias := adapt (es_delta st) (es_h st + 1) (es_h st = bc), es_delta := 0, es_h := es_h st + 1\<rparr>"
    have sync: "in_sync n bc (pre @ [cp]) suf st1 n (length (filter (\<lambda>c. c \<le> n) pre) + 1)"
      using Cons.prems(1) unfolding st1_def 2 by (rule in_sync_emit)
    from Cons.IH [OF sync] Cons.prems(2) obtain st' digits dn' di' where
      IH: "enc_scan n bc suf st1 = Inr st'" "es_output st' = es_output st1 @ digits"
        "in_sync n bc ((pre @ [cp]) @ suf) [] st' dn' di'" "\<forall>c \<in> set digits. pc_digit c"
        "\<And>rest. decode_loop (digits @ rest) n (length (filter (\<lambda>c. c \<le> n) pre) + 1) (es_bias st1)
            (inserted n (pre @ [cp]) suf)
          = decode_loop rest dn' di' (es_bias st') (inserted n ((pre @ [cp]) @ suf) [])"
      by auto
    have "enc_scan n bc (cp # suf) st = Inr st'"
      using IH(1) 2 by (simp add: st1_def v_def)
    moreover have "es_output st' = es_output st @ (v @ digits)"
      using IH(2) by (simp add: st1_def)
    moreover have "\<forall>c \<in> set (v @ digits). pc_digit c"
      using IH(4) enc_varint_units unfolding v_def by (metis Un_iff set_append)
    moreover have "decode_loop ((v @ digits) @ rest) dn di (es_bias st) (inserted n pre (cp # suf))
        = decode_loop rest dn' di' (es_bias st') (inserted n (pre @ cp # suf) [])" for rest
      using decode_step [OF Cons.prems(1) [unfolded 2] n Cons.prems(2) [unfolded 2] sh, of "digits @ rest"]
        IH(5) [of rest] 2 by (simp add: v_def st1_def)
    ultimately show ?thesis using IH(3) by (metis append.assoc append_Cons append_Nil)
  qed
qed

lemma min_fold:
  fixes n :: nat
  shows "foldl (\<lambda>m cp. if n \<le> cp \<and> cp < m then cp else m) a cps \<le> a \<and>
   (\<forall>cp \<in> set cps. n \<le> cp \<longrightarrow> foldl (\<lambda>m cp. if n \<le> cp \<and> cp < m then cp else m) a cps \<le> cp) \<and>
   (foldl (\<lambda>m cp. if n \<le> cp \<and> cp < m then cp else m) a cps \<in> {cp \<in> set cps. n \<le> cp} \<or>
    foldl (\<lambda>m cp. if n \<le> cp \<and> cp < m then cp else m) a cps = a)"
proof (induction cps arbitrary: a)
  case (Cons x xs)
  show ?case
  proof (cases "n \<le> x \<and> x < a")
    case True
    with Cons [of x] show ?thesis by auto
  next
    case False
    with Cons [of a] show ?thesis by auto
  qed
qed simp

lemma min_from:
  assumes "cp \<in> set cps" "n \<le> cp" "cp < MAXINT"
  shows "min_from n cps \<in> set cps" "n \<le> min_from n cps"
    and "\<And>c. c \<in> set cps \<Longrightarrow> n \<le> c \<Longrightarrow> min_from n cps \<le> c"
  using assms min_fold [of n MAXINT cps] unfolding min_from_def by fastforce+

text \<open>Passing from the end of one scan to the start of the next.\<close>

lemma in_sync_next:
  assumes "in_sync n bc cps [] st dn di"
  shows "in_sync (n + 1) bc [] cps (st\<lparr>es_delta := es_delta st + 1\<rparr>) dn di"
    and "inserted (n + 1) [] cps = inserted n cps []"
proof -
  show ins: "inserted (n + 1) [] cps = inserted n cps []"
    by (simp add: inserted_def less_Suc_eq_le)
  have "n + 1 - dn = Suc (n - dn)" using assms by (simp add: in_sync_def Suc_diff_le)
  then show "in_sync (n + 1) bc [] cps (st\<lparr>es_delta := es_delta st + 1\<rparr>) dn di"
    using assms ins by (auto simp: in_sync_def inserted_def)
qed

text \<open>
  The start of the outer loop at \<open>n\<close>: all code points below \<open>n\<close> are inserted, and \<open>delta\<close> counts
  the states up to \<open>(n, 0)\<close>.
\<close>

lemma encode_loop_sync:
  assumes "in_sync n bc [] cps st dn di" and "\<forall>c \<in> set cps. c < 0x110000" and "short (length cps)"
  shows "\<exists>digits. encode_loop cps bc n st = Some (Inr (es_output st @ digits)) \<and>
     (\<forall>c \<in> set digits. pc_digit c) \<and>
     decode_loop digits dn di (es_bias st) (inserted n [] cps) = Inr cps"
  using assms(1)
proof (induction "length cps - es_h st" arbitrary: n st dn di rule: less_induct)
  case less
  have h: "es_h st = length (filter (\<lambda>c. c < n) cps)"
    using less.prems by (simp add: in_sync_def inserted_def)
  show ?case
  proof (cases "length cps \<le> es_h st")
    case True
    then have "length (filter (\<lambda>c. c < n) cps) = length cps"
      using h length_filter_le [of "\<lambda>c. c < n" cps] by linarith
    then have "filter (\<lambda>c. c < n) cps = cps"
      by (metis filter_True length_filter_less nless_le)
    with True show ?thesis
      by (intro exI [of _ "[]"])
         (simp add: encode_loop.simps [of cps bc n st] inserted_def decode_loop.simps)
  next
    case False
    then obtain cp where cp: "cp \<in> set cps" "n \<le> cp"
      using h by (metis filter_True le_refl not_le)
    define m where "m = min_from n cps"
    have cpm: "cp < MAXINT" using cp assms(2) by (auto simp: MAXINT_def)
    have m: "m \<in> set cps" "n \<le> m" "\<And>c. c \<in> set cps \<Longrightarrow> n \<le> c \<Longrightarrow> m \<le> c"
      using min_from [OF cp cpm] by (simp_all add: m_def)
    have m_lt: "m < 0x110000" using m(1) assms(2) by auto
    define st1 where "st1 = st\<lparr>es_delta := es_delta st + (m - n) * (es_h st + 1)\<rparr>"
    have "\<And>c. c \<in> set cps \<Longrightarrow> c < m \<longleftrightarrow> c < n"
      using m by (meson leD leI order_less_le_trans)
    then have ins: "inserted m [] cps = inserted n [] cps"
      by (simp add: inserted_def cong: filter_cong)
    have "n - dn + (m - n) = m - dn" using less.prems m(2) by (simp add: in_sync_def)
    then have "(n - dn) * (es_h st + 1) + (m - n) * (es_h st + 1) = (m - dn) * (es_h st + 1)"
      by (metis add_mult_distrib)
    moreover have "es_delta st + di = (n - dn) * (es_h st + 1)"
      using less.prems by (simp add: in_sync_def del: mult_Suc_right)
    ultimately have "es_delta st1 + di = (m - dn) * (es_h st + 1)"
      unfolding st1_def by simp
    then have sync1: "in_sync m bc [] cps st1 dn di"
      using less.prems m(2) ins by (simp add: in_sync_def st1_def)
    have "es_delta st1 + di \<le> MAXINT"
      using delta_bound [OF sync1 m_lt, of "length cps"] assms(3) by (simp add: short_def)
    then have no_neg: "es_delta st \<le> MAXINT" by (simp add: st1_def)
    from \<open>es_delta st1 + di \<le> MAXINT\<close> have no_ovf: "m - n \<le> (MAXINT - es_delta st) div (es_h st + 1)"
      by (subst less_eq_div_iff_mult_less_eq) (auto simp: st1_def)
    obtain st' ds dn' di' where scan: "enc_scan m bc cps st1 = Inr st'" "es_output st' = es_output st1 @ ds"
        "in_sync m bc cps [] st' dn' di'" "\<forall>c \<in> set ds. pc_digit c"
        "\<And>rest. decode_loop (ds @ rest) dn di (es_bias st1) (inserted m [] cps)
            = decode_loop rest dn' di' (es_bias st') (inserted m cps [])"
      using enc_scan_sync [OF sync1 m_lt _ assms(3)] by auto
    define st2 where "st2 = st'\<lparr>es_delta := es_delta st' + 1\<rparr>"
    have sync2: "in_sync (m + 1) bc [] cps st2 dn' di'" and ins2: "inserted (m + 1) [] cps = inserted m cps []"
      using in_sync_next [OF scan(3)] by (simp_all add: st2_def)
    have "es_h st < es_h st'"
    proof -
      have "filter (\<lambda>c. c < n) cps = filter (\<lambda>c. c < n) (filter (\<lambda>c. c \<le> m) cps)"
        using m(2) by (auto intro!: filter_cong)
      moreover have "m \<in> set (filter (\<lambda>c. c \<le> m) cps)" "\<not> m < n" using m by auto
      ultimately have "length (filter (\<lambda>c. c < n) cps) < length (filter (\<lambda>c. c \<le> m) cps)"
        by (metis length_filter_less)
      then show ?thesis using h scan(3) by (simp add: in_sync_def inserted_def)
    qed
    with False have "length cps - es_h st2 < length cps - es_h st" by (simp add: st2_def)
    from less.hyps [OF this sync2] obtain ds2 where rec:
      "encode_loop cps bc (m + 1) st2 = Some (Inr (es_output st2 @ ds2))"
      "\<forall>c \<in> set ds2. pc_digit c"
      "decode_loop ds2 dn' di' (es_bias st2) (inserted (m + 1) [] cps) = Inr cps" by auto
    have "encode_loop cps bc n st = Some (Inr (es_output st @ (ds @ ds2)))"
      using False no_neg no_ovf scan(1,2) rec(1)
      by (simp add: encode_loop.simps [of cps bc n st] m_def [symmetric] st1_def [symmetric]
          st2_def [symmetric] Let_def not_less) (simp add: st1_def st2_def)
    moreover have "decode_loop (ds @ ds2) dn di (es_bias st) (inserted n [] cps) = Inr cps"
      using scan(5) [of ds2] rec(3) ins ins2 by (simp add: st1_def st2_def)
    ultimately show ?thesis using scan(4) rec(2) by (intro exI [of _ "ds @ ds2"]) auto
  qed
qed

section \<open>encode always returns\<close>

lemma enc_scan_h: "enc_scan n bc cps st = Inr st' \<Longrightarrow> es_h st' = es_h st + count_list cps n"
proof (induction cps arbitrary: st)
  case (Cons c cps)
  consider "c < n" | "c = n" | "n < c" by linarith
  then show ?case
  proof cases
    case 1
    with Cons.prems show ?thesis by (auto simp: Let_def split: if_splits dest!: Cons.IH)
  next
    case 2
    with Cons.prems show ?thesis by (auto simp: Let_def dest!: Cons.IH)
  next
    case 3
    with Cons.prems show ?thesis by (auto simp: Let_def dest!: Cons.IH)
  qed
qed simp

lemma length_filter_count:
  assumes "n \<le> m" "\<And>c. c \<in> set cps \<Longrightarrow> n \<le> c \<Longrightarrow> m \<le> c"
  shows "length (filter (\<lambda>c. c < m + 1) cps) = length (filter (\<lambda>c. c < (n::nat)) cps) + count_list cps m"
  using assms(2)
proof (induction cps)
  case (Cons c cps)
  have IH: "length (filter (\<lambda>c. c < m + 1) cps) = length (filter (\<lambda>c. c < n) cps) + count_list cps m"
    using Cons by simp
  show ?case
  proof (cases "c < n")
    case True
    with IH assms(1) show ?thesis by simp
  next
    case False
    then have "m \<le> c" using Cons.prems [of c] by simp
    with False IH show ?thesis by auto
  qed
qed simp

lemma encode_loop_returns:
  assumes "es_h st = length (filter (\<lambda>c. c < n) cps)" and "\<forall>c \<in> set cps. c < MAXINT"
  shows "\<exists>r. encode_loop cps bc n st = Some r"
  using assms(1)
proof (induction "length cps - es_h st" arbitrary: n st rule: less_induct)
  case less
  show ?case
  proof (cases "length cps \<le> es_h st")
    case True
    then show ?thesis by (simp add: encode_loop.simps [of cps bc n st])
  next
    case False
    then obtain cp where cp: "cp \<in> set cps" "n \<le> cp"
      using less.prems by (metis filter_True le_refl not_le)
    define m where "m = min_from n cps"
    have m: "m \<in> set cps" "n \<le> m" "\<And>c. c \<in> set cps \<Longrightarrow> n \<le> c \<Longrightarrow> m \<le> c"
      using min_from [OF cp] cp assms(2) by (simp_all add: m_def)
    define st1 where "st1 = st\<lparr>es_delta := es_delta st + (m - n) * (es_h st + 1)\<rparr>"
    show ?thesis
    proof (cases "enc_scan m bc cps st1")
      case (Inl e)
      then show ?thesis
        unfolding st1_def m_def by (subst encode_loop.simps) (simp add: Let_def)
    next
      case (Inr st')
      define st2 where "st2 = st'\<lparr>es_delta := es_delta st' + 1\<rparr>"
      have h: "es_h st2 = es_h st + count_list cps m"
        using enc_scan_h [OF Inr] by (simp add: st1_def st2_def)
      moreover have "0 < count_list cps m" using m(1) by (metis count_list_0_iff neq0_conv)
      ultimately have "length cps - es_h st2 < length cps - es_h st" using False by linarith
      moreover have "es_h st2 = length (filter (\<lambda>c. c < m + 1) cps)"
        using h less.prems length_filter_count [OF m(2,3)] by simp
      ultimately obtain r where "encode_loop cps bc (m + 1) st2 = Some r" using less.hyps by blast
      with Inr show ?thesis
        unfolding st1_def st2_def m_def by (subst encode_loop.simps) (simp add: Let_def)
    qed
  qed
qed

section \<open>Theorems\<close>

lemma decode_encode_str:
  assumes "is_jsstr s" "length s \<le> 54"
  shows "\<exists>p. punycode_encode s = Some (Inr p) \<and> punycode_decode p = Inr s \<and>
    (\<forall>c \<in> set p. pc_digit c \<or> c = DELIMITER \<or> (c \<in> set (ucs2decode s) \<and> c < 128))"
proof -
  define cps where "cps = ucs2decode s"
  define basic where "basic = filter (\<lambda>cp. cp < 0x80) cps"
  define st where "st = \<lparr>es_delta = 0, es_bias = INITIAL_BIAS, es_h = length basic,
            es_output = basic @ (if 0 < length basic then [DELIMITER] else [])\<rparr>"
  have bound: "\<forall>c \<in> set cps. c < 0x110000" using ucs2decode_bound [OF assms(1)] by (simp add: cps_def)
  have "length cps \<le> 54" using length_ucs2decode [of s] assms(2) by (simp add: cps_def)
  then have sh: "short (length cps)" by (simp add: short_def MAXINT_def)
  have ins: "inserted INITIAL_N [] cps = basic" by (simp add: inserted_def basic_def INITIAL_N_def)
  then have sync: "in_sync INITIAL_N (length basic) [] cps st INITIAL_N 0"
    by (simp add: in_sync_def st_def)
  obtain ds where ds: "encode_loop cps (length basic) INITIAL_N st = Some (Inr (es_output st @ ds))"
      "\<forall>c \<in> set ds. pc_digit c" "decode_loop ds INITIAL_N 0 (es_bias st) basic = Inr cps"
    using encode_loop_sync [OF sync bound sh] ins by auto
  define p where "p = es_output st @ ds"
  have enc: "punycode_encode s = Some (Inr p)"
    using ds(1) unfolding p_def st_def cps_def basic_def by (simp add: punycode_encode_def Let_def)
  have nodelim: "DELIMITER \<notin> set ds" using ds(2) pc_digitD by blast
  have ascii: "\<forall>c \<in> set basic. c < 128" by (simp add: basic_def)
  have "punycode_decode p = Inr (ucs2encode cps)"
  proof (cases "basic = []")
    case True
    then have "p = ds" by (simp add: p_def st_def)
    with nodelim ds(3) True show ?thesis by (simp add: punycode_decode_def st_def)
  next
    case False
    then have "p = basic @ DELIMITER # ds" by (simp add: p_def st_def)
    moreover have "\<not> (\<exists>c \<in> set basic. 128 \<le> c)" using ascii by auto
    ultimately show ?thesis using nodelim ds(3) False
      by (simp add: punycode_decode_def st_def last_index_of_append Let_def)
  qed
  moreover have "\<forall>c \<in> set p. pc_digit c \<or> c = DELIMITER \<or> (c \<in> set cps \<and> c < 128)"
    using ds(2) by (auto simp: p_def st_def basic_def)
  ultimately show ?thesis
    using enc ucs2_roundtrip [OF assms(1)] by (auto simp: cps_def)
qed

lemma ucs2decode_basic: "c \<in> set (ucs2decode s) \<Longrightarrow> c < 0x10000 \<Longrightarrow> c \<in> set s"
  by (induction s rule: ucs2decode.induct) (auto split: if_splits)

text \<open>The labels the domain round trip covers, and the two label functions on them.\<close>

definition plain_label :: "jsstr \<Rightarrow> bool" where
  "plain_label l \<longleftrightarrow> is_jsstr l \<and> length l \<le> 54 \<and> 46 \<notin> set l \<and> \<not> (4 < length l \<and> take 4 l = XN)"

lemma ascii_label_plain:
  assumes "plain_label l"
  shows "\<exists>a. ascii_label l = Some (Inr a) \<and> 46 \<notin> set a \<and> (\<forall>c \<in> set a. c < 128) \<and> unicode_label a = Inr l"
proof (cases "\<exists>c \<in> set l. 0x80 \<le> c")
  case False
  then show ?thesis using assms by (auto simp: ascii_label_def unicode_label_def plain_label_def not_le)
next
  case True
  obtain p where p: "punycode_encode l = Some (Inr p)" "punycode_decode p = Inr l"
    "\<forall>c \<in> set p. pc_digit c \<or> c = DELIMITER \<or> (c \<in> set (ucs2decode l) \<and> c < 128)"
    using decode_encode_str [of l] assms by (auto simp: plain_label_def)
  have "p \<noteq> []" using p(2) True by (auto simp: punycode_decode_def decode_loop.simps)
  moreover have "46 \<notin> set p"
    using p(3) assms ucs2decode_basic [of 46 l] by (auto simp: plain_label_def DELIMITER_def pc_digit_def)
  moreover have "\<forall>c \<in> set p. c < 128" using p(3) by (auto simp: DELIMITER_def dest: pc_digitD)
  moreover have "length XN = 4" "46 \<notin> set XN" "\<forall>c \<in> set XN. c < 128" by (simp_all add: XN_def)
  ultimately show ?thesis using p(1,2) True by (auto simp: ascii_label_def unicode_label_def)
qed

lemma map_labels_roundtrip:
  assumes "\<And>l. l \<in> set ls \<Longrightarrow> plain_label l"
  shows "\<exists>as. map_labels ascii_label ls = Some (Inr as) \<and> length as = length ls \<and>
    (\<forall>a \<in> set as. 46 \<notin> set a \<and> (\<forall>c \<in> set a. c < 128)) \<and>
    map_labels (\<lambda>l. Some (unicode_label l)) as = Some (Inr ls)"
  using assms
proof (induction ls)
  case (Cons l ls)
  then obtain as where "map_labels ascii_label ls = Some (Inr as)" "length as = length ls"
    "\<forall>a \<in> set as. 46 \<notin> set a \<and> (\<forall>c \<in> set a. c < 128)"
    "map_labels (\<lambda>l. Some (unicode_label l)) as = Some (Inr ls)" by auto
  moreover obtain a where "ascii_label l = Some (Inr a)" "46 \<notin> set a" "\<forall>c \<in> set a. c < 128"
    "unicode_label a = Inr l" using ascii_label_plain Cons.prems by force
  ultimately show ?case by (intro exI [of _ "a # as"]) simp
qed simp

text \<open>C39: \<open>decode\<close> undoes \<open>encode\<close>: every string of at most 54 code units (a domain label is
  shorter), paired and unpaired surrogates included, is encoded without error, to ASCII only, and
  decoding the result gives the string back.\<close>

theorem punycode_decode_encode:
  assumes "is_jsstr s" and "length s \<le> 54"
  shows "\<exists>p. punycode_encode s = Some (Inr p) \<and> (\<forall>c \<in> set p. c < 128) \<and> punycode_decode p = Inr s"
proof -
  obtain p where "punycode_encode s = Some (Inr p)" "punycode_decode p = Inr s"
    "\<forall>c \<in> set p. pc_digit c \<or> c = DELIMITER \<or> (c \<in> set (ucs2decode s) \<and> c < 128)"
    using decode_encode_str [OF assms] by blast
  moreover from this have "\<forall>c \<in> set p. c < 128"
    by (auto simp: DELIMITER_def dest: pc_digitD)
  ultimately show ?thesis by blast
qed

theorem punycode_decode_encode_witness:
  "\<exists>p. punycode_encode (js ''ma'' @ [0xf1] @ js ''ana'' @ [0xd83d, 0xde00]) = Some (Inr p) \<and>
     (\<forall>c \<in> set p. c < 128) \<and>
     punycode_decode p = Inr (js ''ma'' @ [0xf1] @ js ''ana'' @ [0xd83d, 0xde00])"
  by (rule punycode_decode_encode) simp_all

text \<open>the main loop of \<open>encode\<close> ends on every JavaScript string, with a result or with the
  overflow error.\<close>

theorem encode_returns:
  assumes "is_jsstr s"
  shows "\<exists>r. punycode_encode s = Some r"
proof -
  have "\<forall>c \<in> set (ucs2decode s). c < MAXINT"
    using ucs2decode_bound [OF assms] by (fastforce simp: MAXINT_def)
  then show ?thesis
    unfolding punycode_encode_def Let_def
    by (intro encode_loop_returns) (simp_all add: INITIAL_N_def)
qed

theorem encode_returns_witness: "\<exists>r. punycode_encode [0xfc, 0x4e2d, 0x2d] = Some r"
  by (rule encode_returns) simp

text \<open>\<open>toUnicode\<close> undoes \<open>toASCII\<close> on every domain whose labels have at most 54 code units and
  none of whose ASCII labels already looks encoded; the ASCII form has only ASCII code units.\<close>

theorem toUnicode_toASCII:
  assumes "is_jsstr d" and "\<And>l. l \<in> set (split1 46 d) \<Longrightarrow> length l \<le> 54"
    and "\<And>l. l \<in> set (split1 46 d) \<Longrightarrow> 4 < length l \<Longrightarrow> take 4 l \<noteq> XN"
  shows "\<exists>a. toASCII d = Some (Inr a) \<and> (\<forall>c \<in> set a. c < 128) \<and> toUnicode a = Some (Inr d)"
proof -
  have "\<And>l. l \<in> set (split1 46 d) \<Longrightarrow> is_jsstr l"
    using assms(1) split1_units by (fastforce simp: is_jsstr_def)
  then have "plain_label l" if "l \<in> set (split1 46 d)" for l
    using that assms(2,3) split1_no_sep by (fastforce simp: plain_label_def)
  then obtain ls where ls: "map_labels ascii_label (split1 46 d) = Some (Inr ls)" "length ls = length (split1 46 d)"
    "\<forall>l \<in> set ls. 46 \<notin> set l \<and> (\<forall>c \<in> set l. c < 128)"
    "map_labels (\<lambda>l. Some (unicode_label l)) ls = Some (Inr (split1 46 d))"
    using map_labels_roundtrip [of "split1 46 d"] by blast
  have "ls \<noteq> []" using ls(2) split1_not_Nil [of 46 d] by (metis length_0_conv)
  have "\<forall>c \<in> set (join_with [46] ls). c < 128"
    using ls(3) set_join_with [of "[46]" ls] by fastforce
  moreover have "split1 46 (join_with [46] ls) = ls" using \<open>ls \<noteq> []\<close> ls(3) by (intro split1_join) auto
  ultimately show ?thesis
    using ls(1,4) by (simp add: toASCII_def toUnicode_def mapDomain_def join_split1)
qed

theorem toUnicode_toASCII_witness:
  "\<exists>a. toASCII (js ''b'' @ [0xfc] @ js ''cher.example'') = Some (Inr a) \<and> (\<forall>c \<in> set a. c < 128) \<and>
     toUnicode a = Some (Inr (js ''b'' @ [0xfc] @ js ''cher.example''))"
  by (rule toUnicode_toASCII) (auto simp: XN_def)

end
