(* ===== verification/TextCodec.thy ===== *)
theory TextCodec
  imports Punycode
begin

text \<open>
  \<open>text_codec.js\<close>: the global \<open>TextEncoder\<close> and \<open>TextDecoder\<close>. A buffer is the list of its bytes
  (\<open>is_bytes\<close>), so the masks \<open>& 0xff\<close> on bytes just read are the identity and are left out. The
  loops over an index \<open>i\<close> are recursions over the input from \<open>i\<close> on. The native decoders that the
  engine may install are parameters; they answer \<open>None\<close> for \<open>undefined\<close>.
\<close>

section \<open>Encoding\<close>

text \<open>The bytes pushed for one code point.\<close>

definition utf8_bytes :: "nat \<Rightarrow> bytes" where
  "utf8_bytes c =
     (if c < 0x80 then [c]
      else if c < 0x800 then [0xc0 OR drop_bit 6 c, 0x80 OR (c AND 0x3f)]
      else if c < 0x10000 then
        [0xe0 OR drop_bit 12 c, 0x80 OR (drop_bit 6 c AND 0x3f), 0x80 OR (c AND 0x3f)]
      else
        [0xf0 OR drop_bit 18 c, 0x80 OR (drop_bit 12 c AND 0x3f),
         0x80 OR (drop_bit 6 c AND 0x3f), 0x80 OR (c AND 0x3f)])"

fun utf8EncodeString :: "jsstr \<Rightarrow> bytes" where
  "utf8EncodeString [] = []"
| "utf8EncodeString [c] = utf8_bytes c"
| "utf8EncodeString (c # c2 # s) =
     (if (0xd800 \<le> c \<and> c \<le> 0xdbff) \<and> (0xdc00 \<le> c2 \<and> c2 \<le> 0xdfff)
      then utf8_bytes (0x10000 + push_bit 10 (c - 0xd800) + (c2 - 0xdc00)) @ utf8EncodeString s
      else utf8_bytes c @ utf8EncodeString (c2 # s))"

section \<open>Decoding\<close>

definition INVALID_UTF8 :: js_error where
  "INVALID_UTF8 = TypeError ''Invalid UTF-8''"

definition emit :: "jsstr \<Rightarrow> jsstr result \<Rightarrow> jsstr result" where
  "emit out r = bind_result r (\<lambda>s. Inr (out @ s))"

text \<open>
  The three outcomes of the loop body on a sequence that is not accepted: it throws when \<open>fatal\<close>;
  otherwise it emits U+FFFD and goes on after the first byte (\<open>continue\<close>), or, when the
  buffer ends inside the sequence, emits U+FFFD and leaves the loop (\<open>break\<close>).
\<close>

definition truncated :: "bool \<Rightarrow> jsstr result" where
  "truncated fatal = (if fatal then Inl INVALID_UTF8 else Inr [0xFFFD])"

definition malformed :: "bool \<Rightarrow> jsstr result \<Rightarrow> jsstr result" where
  "malformed fatal r = (if fatal then Inl INVALID_UTF8 else emit [0xFFFD] r)"

definition is_cont :: "nat \<Rightarrow> bool" where
  "is_cont b \<longleftrightarrow> b AND 0xc0 = 0x80"

definition surrogates :: "nat \<Rightarrow> jsstr" where
  "surrogates cp = [from_char_code (0xd800 + drop_bit 10 cp), from_char_code (0xdc00 + (cp AND 0x3ff))]"

definition join2 :: "nat \<Rightarrow> nat \<Rightarrow> nat" where
  "join2 b0 b1 = push_bit 6 (b0 AND 0x1f) OR (b1 AND 0x3f)"

definition join3 :: "nat \<Rightarrow> nat \<Rightarrow> nat \<Rightarrow> nat" where
  "join3 b0 b1 b2 = (push_bit 12 (b0 AND 0x0f) OR push_bit 6 (b1 AND 0x3f)) OR (b2 AND 0x3f)"

definition join4 :: "nat \<Rightarrow> nat \<Rightarrow> nat \<Rightarrow> nat \<Rightarrow> nat" where
  "join4 b0 b1 b2 b3 =
     ((push_bit 18 (b0 AND 0x07) OR push_bit 12 (b1 AND 0x3f)) OR push_bit 6 (b2 AND 0x3f)) OR (b3 AND 0x3f)"

fun utf8DecodeBytes :: "bool \<Rightarrow> bytes \<Rightarrow> jsstr result" where
  "utf8DecodeBytes fatal [] = Inr []"
| "utf8DecodeBytes fatal (b0 # bs) =
     (if b0 < 0x80 then emit [from_char_code b0] (utf8DecodeBytes fatal bs)
      else if b0 AND 0xe0 = 0xc0 then
        (case bs of
           b1 # r \<Rightarrow>
             if \<not> is_cont b1 \<or> b0 AND 0xfe = 0xc0 then malformed fatal (utf8DecodeBytes fatal bs)
             else emit [from_char_code (join2 b0 b1)] (utf8DecodeBytes fatal r)
         | _ \<Rightarrow> truncated fatal)
      else if b0 AND 0xf0 = 0xe0 then
        (case bs of
           b1 # b2 # r \<Rightarrow>
             if \<not> is_cont b1 \<or> \<not> is_cont b2 \<or> (b0 = 0xe0 \<and> b1 < 0xa0)
             then malformed fatal (utf8DecodeBytes fatal bs)
             else emit [from_char_code (join3 b0 b1 b2)] (utf8DecodeBytes fatal r)
         | _ \<Rightarrow> truncated fatal)
      else if b0 AND 0xf8 = 0xf0 then
        (case bs of
           b1 # b2 # b3 # r \<Rightarrow>
             if \<not> is_cont b1 \<or> \<not> is_cont b2 \<or> \<not> is_cont b3 \<or> 0xf4 < b0 \<or>
                (b0 = 0xf0 \<and> b1 < 0x90) \<or> (b0 = 0xf4 \<and> 0x8f < b1)
             then malformed fatal (utf8DecodeBytes fatal bs)
             else emit (surrogates (join4 b0 b1 b2 b3 - 0x10000)) (utf8DecodeBytes fatal r)
         | _ \<Rightarrow> truncated fatal)
      else malformed fatal (utf8DecodeBytes fatal bs))"

section \<open>The two classes\<close>

definition UTF8 :: jsstr where "UTF8 = js ''utf-8''"

text \<open>\<open>_normalizeLabel\<close>; \<open>None\<close> stands for \<open>undefined\<close> and \<open>null\<close>.\<close>

definition normalizeLabel :: "jsstr option \<Rightarrow> jsstr" where
  "normalizeLabel label =
     (case label of
        None \<Rightarrow> UTF8
      | Some l \<Rightarrow>
          if l = [] then UTF8
          else let e = to_lower l in if e = js ''utf8'' \<or> e = UTF8 then UTF8 else e)"

text \<open>What \<open>decode\<close> may be given: nothing, a buffer or a view with its bytes, or something else.\<close>

datatype source = NoSource | Source bytes | NotASource

fun bytesFromBufferSource :: "source \<Rightarrow> bytes result" where
  "bytesFromBufferSource NoSource = Inr []"
| "bytesFromBufferSource (Source b) = Inr b"
| "bytesFromBufferSource NotASource = Inl (TypeError ''The input is not a valid BufferSource'')"

record text_decoder =
  td_encoding :: jsstr
  td_fatal :: bool

definition TextDecoder :: "jsstr option \<Rightarrow> bool option \<Rightarrow> text_decoder" where
  "TextDecoder label fatal = \<lparr>td_encoding = normalizeLabel label, td_fatal = (fatal = Some True)\<rparr>"

text \<open>
  \<open>TextDecoder.prototype.decode\<close>. The parameters are the two native decoders: \<open>full\<close> for
  \<open>__buf.tdDecode\<close> and \<open>fast\<close> for \<open>__buf.decodeUtf8\<close>, which is not told about \<open>fatal\<close>.
\<close>

definition td_decode ::
    "(source \<Rightarrow> bool \<Rightarrow> jsstr result option) \<Rightarrow> (bytes \<Rightarrow> jsstr option) \<Rightarrow>
     text_decoder \<Rightarrow> source \<Rightarrow> jsstr result" where
  "td_decode full fast td input =
     (if td_encoding td \<noteq> UTF8 then Inl (RangeError ''Unsupported encoding'')
      else case full input (td_fatal td) of
        Some r \<Rightarrow> r
      | None \<Rightarrow>
          (case (case input of Source b \<Rightarrow> fast b | _ \<Rightarrow> None) of
             Some s \<Rightarrow> Inr s
           | None \<Rightarrow>
               bind_result (bytesFromBufferSource input) (\<lambda>b. utf8DecodeBytes (td_fatal td) b)))"

text \<open>
  \<open>TextEncoder.prototype.encode\<close>: \<open>None\<close> is \<open>undefined\<close>; the parameter is the native encoder
  (\<open>utf8ByteLength\<close> and \<open>writeString\<close> together). \<open>encodeInto\<close> returns the destination after the
  copy, \<open>read\<close> and \<open>written\<close>.
\<close>

definition te_encode :: "(jsstr \<Rightarrow> bytes option) \<Rightarrow> jsstr option \<Rightarrow> bytes" where
  "te_encode native input =
     (case input of
        None \<Rightarrow> []
      | Some s \<Rightarrow> (case native s of Some b \<Rightarrow> b | None \<Rightarrow> utf8EncodeString s))"

definition te_encodeInto :: "(jsstr \<Rightarrow> bytes option) \<Rightarrow> jsstr \<Rightarrow> bytes \<Rightarrow> bytes \<times> nat \<times> nat" where
  "te_encodeInto native source destination =
     (let encoded = te_encode native (Some source);
          written = min (length encoded) (length destination)
      in (take written encoded @ drop written destination, length source, written))"

section \<open>Masks on bytes\<close>

lemma and_high_mask: "(x::nat) AND push_bit n (mask m) = (x div 2 ^ n mod 2 ^ m) * 2 ^ n"
proof -
  have "x AND push_bit n (mask m) = push_bit n (take_bit m (drop_bit n x))"
    by (rule bit_eqI) (auto simp: bit_simps)
  then show ?thesis by (simp add: push_bit_eq_mult take_bit_eq_mod drop_bit_eq_div)
qed

lemma and_high_byte:
  assumes "(x::nat) < 2 ^ (n + m)"
  shows "x AND push_bit n (mask m) = x div 2 ^ n * 2 ^ n"
  using assms by (simp add: and_high_mask less_mult_imp_div_less power_add mult.commute)

lemma mask_consts:
  "push_bit 5 (mask 3) = (0xe0::nat)" "push_bit 4 (mask 4) = (0xf0::nat)" "push_bit 3 (mask 5) = (0xf8::nat)"
  "push_bit 1 (mask 7) = (0xfe::nat)" "push_bit 6 (mask 2) = (0xc0::nat)"
  by (simp_all add: push_bit_eq_mult mask_eq_exp_minus_1)

lemma div_times_eq_iff:
  assumes "0 < k"
  shows "(b::nat) div k * k = m * k \<longleftrightarrow> m * k \<le> b \<and> b < m * k + k"
proof
  assume "b div k * k = m * k"
  then show "m * k \<le> b \<and> b < m * k + k"
    using assms div_times_less_eq_dividend [of b k] dividend_less_div_times [of k b] by simp
next
  assume "m * k \<le> b \<and> b < m * k + k"
  then have "b div k = m" by (intro div_nat_eqI) (simp_all add: mult.commute)
  then show "b div k * k = m * k" by simp
qed

lemma lead_masks:
  assumes "(b::nat) < 256"
  shows "b AND 0xe0 = 0xc0 \<longleftrightarrow> 0xc0 \<le> b \<and> b < 0xe0"
    and "b AND 0xf0 = 0xe0 \<longleftrightarrow> 0xe0 \<le> b \<and> b < 0xf0"
    and "b AND 0xf8 = 0xf0 \<longleftrightarrow> 0xf0 \<le> b \<and> b < 0xf8"
    and "b AND 0xfe = 0xc0 \<longleftrightarrow> 0xc0 \<le> b \<and> b < 0xc2"
    and "b AND 0xc0 = 0x80 \<longleftrightarrow> 0x80 \<le> b \<and> b < 0xc0"
proof -
  have "b AND 0xe0 = b div 32 * 32" using and_high_byte [of b 5 3, unfolded mask_consts] assms by simp
  then show "b AND 0xe0 = 0xc0 \<longleftrightarrow> 0xc0 \<le> b \<and> b < 0xe0" using div_times_eq_iff [of 32 b 6] by simp
  have "b AND 0xf0 = b div 16 * 16" using and_high_byte [of b 4 4, unfolded mask_consts] assms by simp
  then show "b AND 0xf0 = 0xe0 \<longleftrightarrow> 0xe0 \<le> b \<and> b < 0xf0" using div_times_eq_iff [of 16 b 14] by simp
  have "b AND 0xf8 = b div 8 * 8" using and_high_byte [of b 3 5, unfolded mask_consts] assms by simp
  then show "b AND 0xf8 = 0xf0 \<longleftrightarrow> 0xf0 \<le> b \<and> b < 0xf8" using div_times_eq_iff [of 8 b 30] by simp
  have "b AND 0xfe = b div 2 * 2" using and_high_byte [of b 1 7, unfolded mask_consts] assms by simp
  then show "b AND 0xfe = 0xc0 \<longleftrightarrow> 0xc0 \<le> b \<and> b < 0xc2" using div_times_eq_iff [of 2 b 96] by simp
  have "b AND 0xc0 = b div 64 * 64" using and_high_byte [of b 6 2, unfolded mask_consts] assms by simp
  then show "b AND 0xc0 = 0x80 \<longleftrightarrow> 0x80 \<le> b \<and> b < 0xc0" using div_times_eq_iff [of 64 b 2] by simp
qed

lemma or_high_bits:
  "b < 32 \<Longrightarrow> 0xc0 OR b = 0xc0 + (b::nat)" "b < 64 \<Longrightarrow> 0x80 OR b = 0x80 + b"
  "b < 16 \<Longrightarrow> 0xe0 OR b = 0xe0 + b" "b < 8 \<Longrightarrow> 0xf0 OR b = 0xf0 + b"
  using or_disjoint [of b 5 6] or_disjoint [of b 6 2] or_disjoint [of b 4 14] or_disjoint [of b 3 30]
  by simp_all

lemma utf8_bytes_arith:
  assumes "c < 0x110000"
  shows "utf8_bytes c =
     (if c < 0x80 then [c]
      else if c < 0x800 then [0xc0 + c div 64, 0x80 + c mod 64]
      else if c < 0x10000 then [0xe0 + c div 4096, 0x80 + c div 64 mod 64, 0x80 + c mod 64]
      else [0xf0 + c div 262144, 0x80 + c div 4096 mod 64, 0x80 + c div 64 mod 64, 0x80 + c mod 64])"
  using assms by (auto simp: utf8_bytes_def bits_arith or_high_bits)

lemma utf8_bytes_long:
  "0x800 \<le> c \<Longrightarrow> c < 0x10000 \<Longrightarrow>
     utf8_bytes c = [0xe0 + c div 4096, 0x80 + c div 64 mod 64, 0x80 + c mod 64]"
  "0x10000 \<le> c \<Longrightarrow> c < 0x110000 \<Longrightarrow>
     utf8_bytes c = [0xf0 + c div 262144, 0x80 + c div 4096 mod 64, 0x80 + c div 64 mod 64, 0x80 + c mod 64]"
  by (simp_all add: utf8_bytes_arith)

lemma join_arith:
  "join2 b0 b1 = b0 mod 32 * 64 + b1 mod 64"
  "join3 b0 b1 b2 = b0 mod 16 * 4096 + b1 mod 64 * 64 + b2 mod 64"
  "join4 b0 b1 b2 b3 = b0 mod 8 * 262144 + b1 mod 64 * 4096 + b2 mod 64 * 64 + b3 mod 64"
proof -
  show "join2 b0 b1 = b0 mod 32 * 64 + b1 mod 64"
    using or_disjoint [of "b1 mod 64" 6 "b0 mod 32"] by (simp add: join2_def bits_arith)
  have "b0 mod 16 * 4096 OR b1 mod 64 * 64 = (b0 mod 16 * 64 + b1 mod 64) * 64"
    using or_disjoint [of "b1 mod 64 * 64" 12 "b0 mod 16"] by simp
  then show "join3 b0 b1 b2 = b0 mod 16 * 4096 + b1 mod 64 * 64 + b2 mod 64"
    using or_disjoint [of "b2 mod 64" 6 "b0 mod 16 * 64 + b1 mod 64"]
    by (simp add: join3_def bits_arith)
  have "b0 mod 8 * 262144 OR b1 mod 64 * 4096 = (b0 mod 8 * 64 + b1 mod 64) * 4096"
    using or_disjoint [of "b1 mod 64 * 4096" 18 "b0 mod 8"] by simp
  moreover have "(b0 mod 8 * 64 + b1 mod 64) * 4096 OR b2 mod 64 * 64
      = ((b0 mod 8 * 64 + b1 mod 64) * 64 + b2 mod 64) * 64"
    using or_disjoint [of "b2 mod 64 * 64" 12 "b0 mod 8 * 64 + b1 mod 64"] by simp
  ultimately show "join4 b0 b1 b2 b3 = b0 mod 8 * 262144 + b1 mod 64 * 4096 + b2 mod 64 * 64 + b3 mod 64"
    using or_disjoint [of "b3 mod 64" 6 "(b0 mod 8 * 64 + b1 mod 64) * 64 + b2 mod 64"]
    by (simp add: join4_def bits_arith)
qed

lemma join_bytes:
  assumes "y < 64" "z < 64" "t < 64"
  shows "x < 32 \<Longrightarrow> join2 (0xc0 + x) (0x80 + y) = x * 64 + y"
    and "x < 16 \<Longrightarrow> join3 (0xe0 + x) (0x80 + y) (0x80 + z) = (x * 64 + y) * 64 + z"
    and "x < 8 \<Longrightarrow> join4 (0xf0 + x) (0x80 + y) (0x80 + z) (0x80 + t) = ((x * 64 + y) * 64 + z) * 64 + t"
  using assms div_mod_mult_add(2) [of x 32 6] div_mod_mult_add(2) [of x 16 14] div_mod_mult_add(2) [of x 8 30]
    div_mod_mult_add(2) [of y 64 2] div_mod_mult_add(2) [of z 64 2] div_mod_mult_add(2) [of t 64 2]
  by (simp_all add: join_arith)

text \<open>The six-bit groups of a number put together again.\<close>

lemma six_bits:
  "(c::nat) div 64 * 64 + c mod 64 = c"
  "(c div 4096 * 64 + c div 64 mod 64) * 64 + c mod 64 = c"
  "((c div 262144 * 64 + c div 4096 mod 64) * 64 + c div 64 mod 64) * 64 + c mod 64 = c"
proof -
  have "c div 4096 = c div 64 div 64" "c div 262144 = c div 4096 div 64"
    by (simp_all add: div_mult2_eq [symmetric])
  then show "c div 64 * 64 + c mod 64 = c" "(c div 4096 * 64 + c div 64 mod 64) * 64 + c mod 64 = c"
    "((c div 262144 * 64 + c div 4096 mod 64) * 64 + c div 64 mod 64) * 64 + c mod 64 = c"
    by simp_all
qed

section \<open>Decoding accepts exactly the encodings of code points\<close>

lemma is_cont_iff: "b < 256 \<Longrightarrow> is_cont b \<longleftrightarrow> 0x80 \<le> b \<and> b < 0xc0"
  by (simp add: is_cont_def lead_masks)

lemma emit_Inr: "emit out r = Inr s \<longleftrightarrow> (\<exists>t. r = Inr t \<and> s = out @ t)"
  by (cases r) (auto simp: emit_def)

lemma fatal_outcomes [simp]: "truncated True = Inl INVALID_UTF8" "malformed True r = Inl INVALID_UTF8"
  by (simp_all add: truncated_def malformed_def)

lemma surrogates_ucs2:
  "0x10000 \<le> c \<Longrightarrow> surrogates (c - 0x10000) = ucs2encode [c]"
  by (simp add: surrogates_def Let_def)

lemma utf8_bytes_is_bytes: "c < 0x110000 \<Longrightarrow> is_bytes (utf8_bytes c)"
  by (auto simp: utf8_bytes_arith div_less_iff_less_mult less_Suc_eq_le split: if_splits)

lemma ucs2encode_append: "ucs2encode (a @ b) = ucs2encode a @ ucs2encode b"
  by (induction a) auto

lemma utf8Decode4:
  assumes "x \<le> 4" "y < 64" "z < 64" "t < 64" "x = 0 \<Longrightarrow> 16 \<le> y" "x = 4 \<Longrightarrow> y < 16"
  shows "utf8DecodeBytes fatal ((0xf0 + x) # (0x80 + y) # (0x80 + z) # (0x80 + t) # bs)
    = emit (surrogates (join4 (0xf0 + x) (0x80 + y) (0x80 + z) (0x80 + t) - 0x10000)) (utf8DecodeBytes fatal bs)"
  using assms by (cases "x = 0"; cases "x = 4") (simp_all add: lead_masks is_cont_iff)

text \<open>The four shapes of an encoding, by its lead byte.\<close>

lemma utf8_bytes_cases:
  assumes "c < 0x110000"
  obtains (one) "c < 0x80" "utf8_bytes c = [c]"
  | (two) x y where "utf8_bytes c = [0xc0 + x, 0x80 + y]" "2 \<le> x" "x < 32" "y < 64" "c < 0x10000"
      "join2 (0xc0 + x) (0x80 + y) = c"
  | (three) x y z where "utf8_bytes c = [0xe0 + x, 0x80 + y, 0x80 + z]" "x < 16" "y < 64" "z < 64"
      "x = 0 \<Longrightarrow> 32 \<le> y" "c < 0x10000" "join3 (0xe0 + x) (0x80 + y) (0x80 + z) = c"
  | (four) x y z t where "utf8_bytes c = [0xf0 + x, 0x80 + y, 0x80 + z, 0x80 + t]" "x \<le> 4" "y < 64" "z < 64"
      "t < 64" "x = 0 \<Longrightarrow> 16 \<le> y" "x = 4 \<Longrightarrow> y < 16" "0x10000 \<le> c"
      "join4 (0xf0 + x) (0x80 + y) (0x80 + z) (0x80 + t) = c"
proof -
  consider "c < 0x80" | "0x80 \<le> c" "c < 0x800" | "0x800 \<le> c" "c < 0x10000" | "0x10000 \<le> c"
    by linarith
  then show thesis
  proof cases
    case 1
    then show thesis by (intro one) (simp_all add: utf8_bytes_arith)
  next
    case 2
    then have x: "c div 64 < 32" "2 \<le> c div 64" by (simp_all add: div_less_iff_less_mult less_eq_div_iff_mult_less_eq)
    then have "join2 (0xc0 + c div 64) (0x80 + c mod 64) = c div 64 * 64 + c mod 64"
      by (intro join_bytes(1) [where z = 0 and t = 0]) simp_all
    then have "join2 (0xc0 + c div 64) (0x80 + c mod 64) = c" unfolding six_bits .
    then show thesis using 2 x by (intro two [of "c div 64" "c mod 64"]) (simp_all add: utf8_bytes_arith)
  next
    case 3
    then have x: "c div 4096 < 16" by (simp add: div_less_iff_less_mult)
    have y: "32 \<le> c div 64 mod 64" if "c div 4096 = 0"
      using that 3 by (simp add: div_less_iff_less_mult less_eq_div_iff_mult_less_eq div_eq_0_iff)
    have "join3 (0xe0 + c div 4096) (0x80 + c div 64 mod 64) (0x80 + c mod 64)
        = (c div 4096 * 64 + c div 64 mod 64) * 64 + c mod 64"
      using x by (intro join_bytes(2) [where t = 0]) simp_all
    then have "join3 (0xe0 + c div 4096) (0x80 + c div 64 mod 64) (0x80 + c mod 64) = c"
      unfolding six_bits .
    then show thesis
      using 3 x y by (intro three [of "c div 4096" "c div 64 mod 64" "c mod 64"]) (simp_all add: utf8_bytes_arith)
  next
    case 4
    have "c div 262144 < 5" using assms by (simp add: div_less_iff_less_mult)
    then have x: "c div 262144 \<le> 4" by simp
    have y: "16 \<le> c div 4096 mod 64" if "c div 262144 = 0"
      using that 4 by (simp add: div_less_iff_less_mult less_eq_div_iff_mult_less_eq div_eq_0_iff)
    have y': "c div 4096 mod 64 < 16" if "c div 262144 = 4"
    proof -
      have "c div 4096 = 4 * 64 + c div 4096 mod 64"
        using that div_mult_mod_eq [of "c div 4096" 64] by (simp add: div_mult2_eq [symmetric])
      moreover have "c div 4096 < 272" using assms by (simp add: div_less_iff_less_mult)
      ultimately show ?thesis by linarith
    qed
    have "join4 (0xf0 + c div 262144) (0x80 + c div 4096 mod 64) (0x80 + c div 64 mod 64) (0x80 + c mod 64)
        = ((c div 262144 * 64 + c div 4096 mod 64) * 64 + c div 64 mod 64) * 64 + c mod 64"
      using x by (intro join_bytes(3)) simp_all
    then have "join4 (0xf0 + c div 262144) (0x80 + c div 4096 mod 64) (0x80 + c div 64 mod 64) (0x80 + c mod 64) = c"
      unfolding six_bits .
    then show thesis
      using 4 assms x y y'
      by (intro four [of "c div 262144" "c div 4096 mod 64" "c div 64 mod 64" "c mod 64"] utf8_bytes_long)
        (simp_all only: mod_less_divisor zero_less_numeral)
  qed
qed

text \<open>One code point in front of the input is consumed and nothing else.\<close>

lemma utf8Decode_code_point:
  assumes "c < 0x110000"
  shows "utf8DecodeBytes fatal (utf8_bytes c @ bs) = emit (ucs2encode [c]) (utf8DecodeBytes fatal bs)"
  using assms
proof (cases c rule: utf8_bytes_cases)
  case (four x y z t)
  then show ?thesis
    using utf8Decode4 [of x y z t fatal bs] by (simp add: surrogates_ucs2 del: ucs2encode.simps utf8DecodeBytes.simps)
qed (auto simp: lead_masks is_cont_iff)

lemma utf8Decode_code_points:
  assumes "\<forall>c \<in> set cps. c < 0x110000"
  shows "utf8DecodeBytes fatal (concat (map utf8_bytes cps)) = Inr (ucs2encode cps)"
  using assms
proof (induction cps)
  case (Cons c cps)
  then show ?case
    using ucs2encode_append [of "[c]" cps] by (simp add: utf8Decode_code_point emit_def del: ucs2encode.simps(2))
qed simp

lemma six_bits_parts:
  assumes "y < 64" "z < 64" "t < (64::nat)"
  shows "(x * 64 + y) div 64 = x" "(x * 64 + y) mod 64 = y"
    and "((x * 64 + y) * 64 + z) div 4096 = x" "((x * 64 + y) * 64 + z) div 64 = x * 64 + y"
    and "(((x * 64 + y) * 64 + z) * 64 + t) div 262144 = x" "(((x * 64 + y) * 64 + z) * 64 + t) div 4096 = x * 64 + y"
    and "(((x * 64 + y) * 64 + z) * 64 + t) div 64 = (x * 64 + y) * 64 + z"
    and "((x * 64 + y) * 64 + z) mod 64 = z" "(((x * 64 + y) * 64 + z) * 64 + t) mod 64 = t"
proof -
  show 1: "(x * 64 + y) div 64 = x" "(x * 64 + y) mod 64 = y" using assms by simp_all
  have 2: "(w * 64 + z) div 64 = w" "(w * 64 + t) div 64 = w" for w using assms by simp_all
  show "((x * 64 + y) * 64 + z) mod 64 = z" "(((x * 64 + y) * 64 + z) * 64 + t) mod 64 = t"
    using div_mod_mult_add(2) [of z 64 "x * 64 + y"] div_mod_mult_add(2) [of t 64 "(x * 64 + y) * 64 + z"] assms
    by (simp_all only:)
  have "n div 4096 = n div 64 div 64" "n div 262144 = n div 64 div 64 div 64" for n :: nat
    by (simp_all add: div_mult2_eq [symmetric])
  then show "((x * 64 + y) * 64 + z) div 4096 = x" "((x * 64 + y) * 64 + z) div 64 = x * 64 + y"
    "(((x * 64 + y) * 64 + z) * 64 + t) div 262144 = x" "(((x * 64 + y) * 64 + z) * 64 + t) div 4096 = x * 64 + y"
    "(((x * 64 + y) * 64 + z) * 64 + t) div 64 = (x * 64 + y) * 64 + z"
    by (simp_all only: 1 2)
qed

lemma six_bits_bounds:
  "a \<le> w \<Longrightarrow> w < b \<Longrightarrow> z < 64 \<Longrightarrow> a * 64 \<le> w * 64 + z \<and> w * 64 + z < b * (64::nat)"
  by linarith

text \<open>The bytes of an accepted sequence are the encoding of the code point they are joined to.\<close>

lemma cont_byte: "b < 256 \<Longrightarrow> is_cont b \<Longrightarrow> \<exists>y < 64. b = 0x80 + y"
  by (auto simp: is_cont_iff intro!: exI [of _ "b - 0x80"])

lemma accepted2:
  assumes "0xc2 \<le> b0" "b0 < 0xe0" "b1 < 256" "is_cont b1"
  shows "join2 b0 b1 < 0x10000" "utf8_bytes (join2 b0 b1) = [b0, b1]"
proof -
  obtain y where y: "y < 64" "b1 = 0x80 + y" using cont_byte assms by blast
  obtain x where x: "b0 = 0xc0 + x" "2 \<le> x" "x < 32"
    using assms by (intro that [of "b0 - 0xc0"]) auto
  have "join2 b0 b1 = x * 64 + y" using x y by (simp add: join_bytes(1) [where z = 0 and t = 0])
  then show "join2 b0 b1 < 0x10000" "utf8_bytes (join2 b0 b1) = [b0, b1]"
    using x y by (simp_all add: utf8_bytes_arith)
qed

lemma accepted3:
  assumes "0xe0 \<le> b0" "b0 < 0xf0" "b1 < 256" "b2 < 256" "is_cont b1" "is_cont b2" "b0 = 0xe0 \<Longrightarrow> 0xa0 \<le> b1"
  shows "join3 b0 b1 b2 < 0x10000" "utf8_bytes (join3 b0 b1 b2) = [b0, b1, b2]"
proof -
  obtain y z where y: "y < 64" "b1 = 0x80 + y" "z < 64" "b2 = 0x80 + z" using cont_byte assms by metis
  obtain x where x: "b0 = 0xe0 + x" "x < 16" "x = 0 \<Longrightarrow> 32 \<le> y"
    using assms y by (intro that [of "b0 - 0xe0"]) auto
  have j: "join3 b0 b1 b2 = (x * 64 + y) * 64 + z" using x y by (simp only: join_bytes(2) [where t = 0])
  have "32 \<le> x * 64 + y" using x by (cases "x = 0") auto
  moreover have "x * 64 + y < 1024" using x y by linarith
  ultimately have "0x800 \<le> (x * 64 + y) * 64 + z \<and> (x * 64 + y) * 64 + z < 0x10000"
    using six_bits_bounds [of 32 "x * 64 + y" 1024 z] y by simp
  then show "join3 b0 b1 b2 < 0x10000" "utf8_bytes (join3 b0 b1 b2) = [b0, b1, b2]"
    unfolding j using utf8_bytes_long(1) [of "(x * 64 + y) * 64 + z"] six_bits_parts [OF y(1,3), of 0 x]
    by (simp_all only: x(1) y(2,4) zero_less_numeral simp_thms)
qed

lemma accepted4:
  assumes "0xf0 \<le> b0" "b0 \<le> 0xf4" "b1 < 256" "b2 < 256" "b3 < 256" "is_cont b1" "is_cont b2" "is_cont b3"
    "b0 = 0xf0 \<Longrightarrow> 0x90 \<le> b1" "b0 = 0xf4 \<Longrightarrow> b1 \<le> 0x8f"
  shows "0x10000 \<le> join4 b0 b1 b2 b3" "join4 b0 b1 b2 b3 < 0x110000"
    "utf8_bytes (join4 b0 b1 b2 b3) = [b0, b1, b2, b3]"
proof -
  obtain y z t where y: "y < 64" "b1 = 0x80 + y" "z < 64" "b2 = 0x80 + z" "t < 64" "b3 = 0x80 + t"
    using cont_byte assms by metis
  define x where "x = b0 - 0xf0"
  have b0: "b0 = 0xf0 + x" using assms(1) by (simp add: x_def)
  have "16 \<le> y" if "x = 0" using assms(9) b0 y that by simp
  moreover have "y < 16" if "x = 4" using assms(10) b0 y that by simp
  ultimately have x: "b0 = 0xf0 + x" "x \<le> 4" "x = 0 \<Longrightarrow> 16 \<le> y" "x = 4 \<Longrightarrow> y < 16"
    using b0 assms(2) by simp_all
  have j: "join4 b0 b1 b2 b3 = ((x * 64 + y) * 64 + z) * 64 + t" using x y by (simp only: join_bytes(3))
  have "16 \<le> x * 64 + y" using x by (cases "x = 0") auto
  moreover have "x * 64 + y < 272" using x y by (cases "x = 4") auto
  ultimately have "0x10000 \<le> ((x * 64 + y) * 64 + z) * 64 + t \<and> ((x * 64 + y) * 64 + z) * 64 + t < 0x110000"
    using six_bits_bounds [of 16 "x * 64 + y" 272 z] six_bits_bounds [of 1024 "(x * 64 + y) * 64 + z" 17408 t] y
    by simp
  then show "0x10000 \<le> join4 b0 b1 b2 b3" "join4 b0 b1 b2 b3 < 0x110000"
    "utf8_bytes (join4 b0 b1 b2 b3) = [b0, b1, b2, b3]"
    unfolding j using utf8_bytes_long(2) [of "((x * 64 + y) * 64 + z) * 64 + t"] six_bits_parts [OF y(1,3,5), of x]
      six_bits_parts(2) [OF y(1) y(3,5), of x]
    by (simp_all only: x(1) y(2,4,6) simp_thms)
qed

lemma fatal_step:
  assumes "utf8DecodeBytes True (b0 # bs) = Inr s" "is_bytes (b0 # bs)"
  obtains c r s' where "b0 # bs = utf8_bytes c @ r" "c < 0x110000" "utf8DecodeBytes True r = Inr s'"
    "s = ucs2encode [c] @ s'" "length r \<le> length bs"
proof -
  have byte: "b0 < 256" "is_bytes bs" using assms(2) by simp_all
  note masks = lead_masks [OF byte(1)]
  consider "b0 < 0x80" | "0xc2 \<le> b0" "b0 < 0xe0" | "0xe0 \<le> b0" "b0 < 0xf0"
    | "0xf0 \<le> b0" "b0 < 0xf8" | "0x80 \<le> b0" "b0 < 0xc2" | "0xf8 \<le> b0"
    by linarith
  then show thesis
  proof cases
    case 1
    then show thesis using assms that [of b0 bs] by (auto simp: emit_Inr utf8_bytes_arith)
  next
    case 2
    then obtain b1 r t where "bs = b1 # r" "is_cont b1" "utf8DecodeBytes True r = Inr t"
      "s = [from_char_code (join2 b0 b1)] @ t"
      using assms(1) by (auto simp: masks emit_Inr split: list.splits if_splits)
    then show thesis using 2 accepted2 [of b0 b1] byte that [of "join2 b0 b1" r t] by simp
  next
    case 3
    then obtain b1 b2 r t where "bs = b1 # b2 # r" "is_cont b1" "is_cont b2" "b0 = 0xe0 \<longrightarrow> 0xa0 \<le> b1"
      "utf8DecodeBytes True r = Inr t" "s = [from_char_code (join3 b0 b1 b2)] @ t"
      using assms(1) by (auto simp: masks emit_Inr not_less split: list.splits if_splits)
    then show thesis using 3 accepted3 [of b0 b1 b2] byte that [of "join3 b0 b1 b2" r t] by simp
  next
    case 4
    then obtain b1 b2 b3 r t where "bs = b1 # b2 # b3 # r" "is_cont b1" "is_cont b2" "is_cont b3"
      "b0 \<le> 0xf4" "b0 = 0xf0 \<longrightarrow> 0x90 \<le> b1" "b0 = 0xf4 \<longrightarrow> b1 \<le> 0x8f"
      "utf8DecodeBytes True r = Inr t" "s = surrogates (join4 b0 b1 b2 b3 - 0x10000) @ t"
      using assms(1) by (auto simp: masks emit_Inr not_less split: list.splits if_splits)
    then show thesis
      using 4 accepted4 [of b0 b1 b2 b3] byte that [of "join4 b0 b1 b2 b3" r t] surrogates_ucs2 by simp
  next
    case 5
    then show thesis using assms(1) by (auto simp: masks split: list.splits if_splits)
  next
    case 6
    then show thesis using assms(1) by (auto simp: masks split: list.splits if_splits)
  qed
qed

lemma fatal_accepts_encodings:
  assumes "is_bytes bs"
  shows "utf8DecodeBytes True bs = Inr s \<Longrightarrow>
    \<exists>cps. (\<forall>c \<in> set cps. c < 0x110000) \<and> bs = concat (map utf8_bytes cps) \<and> s = ucs2encode cps"
  using assms
proof (induction bs arbitrary: s rule: length_induct)
  case (1 bs)
  show ?case
  proof (cases bs)
    case Nil
    with 1 show ?thesis by (intro exI [of _ "[]"]) simp
  next
    case (Cons b0 r)
    from 1(2,3) obtain c r' s' where step: "bs = utf8_bytes c @ r'" "c < 0x110000"
      "utf8DecodeBytes True r' = Inr s'" "s = ucs2encode [c] @ s'" "length r' \<le> length r"
      unfolding Cons by (rule fatal_step) blast
    moreover have "is_bytes r'" "length r' < length bs" using step 1(3) Cons by auto
    ultimately obtain cps where "\<forall>c \<in> set cps. c < 0x110000" "r' = concat (map utf8_bytes cps)" "s' = ucs2encode cps"
      using 1(1) by blast
    with step show ?thesis by (intro exI [of _ "c # cps"]) auto
  qed
qed


lemma utf8Encode_code_points: "utf8EncodeString s = concat (map utf8_bytes (ucs2decode s))"
  by (induction s rule: utf8EncodeString.induct) auto

text \<open>A fatal decoder either agrees with the replacing one or stops where that one puts U+FFFD.\<close>

definition agrees :: "jsstr result \<Rightarrow> jsstr result \<Rightarrow> bool" where
  "agrees strict lax \<longleftrightarrow>
     (case strict of
        Inr s \<Rightarrow> lax = Inr s
      | Inl e \<Rightarrow> e = INVALID_UTF8 \<and> (\<exists>t. lax = Inr t \<and> 0xFFFD \<in> set t))"

lemma agrees_intros:
  "agrees (Inr s) (Inr s)"
  "agrees (truncated True) (truncated False)"
  "agrees r r' \<Longrightarrow> agrees (malformed True r) (malformed False r')"
  "agrees r r' \<Longrightarrow> agrees (emit out r) (emit out r')"
  by (auto simp: agrees_def truncated_def malformed_def emit_def split: sum.splits)

lemma agrees_cases:
  "(c \<Longrightarrow> agrees a b) \<Longrightarrow> (\<not> c \<Longrightarrow> agrees a' b') \<Longrightarrow> agrees (if c then a else a') (if c then b else b')"
  "(xs = [] \<Longrightarrow> agrees a b) \<Longrightarrow> (\<And>y ys. xs = y # ys \<Longrightarrow> agrees (f y ys) (g y ys)) \<Longrightarrow>
   agrees (case xs of [] \<Rightarrow> a | y # ys \<Rightarrow> f y ys) (case xs of [] \<Rightarrow> b | y # ys \<Rightarrow> g y ys)"
  by (auto split: list.split)

lemma utf8Decode_agrees: "agrees (utf8DecodeBytes True bs) (utf8DecodeBytes False bs)"
proof (induction bs rule: length_induct)
  case (1 bs)
  show ?case
  proof (cases bs)
    case Nil
    then show ?thesis by (simp add: agrees_intros)
  next
    case (Cons b0 r)
    have rec: "agrees (utf8DecodeBytes True m) (utf8DecodeBytes False m)" if "length m \<le> length r" for m
      using 1 that Cons by simp
    show ?thesis
      unfolding Cons utf8DecodeBytes.simps by (intro agrees_cases agrees_intros rec) (simp_all only: list.size)
  qed
qed

section \<open>Theorems\<close>

text \<open>C38: a fatal decoder accepts exactly the concatenations of the shortest encodings of code
  points below 0x110000 and returns their UTF-16 form. Surrogate code points count as code points
  here: the source does not refuse their three-byte forms.\<close>

theorem utf8_fatal_exact:
  assumes "is_bytes bs"
  shows "utf8DecodeBytes True bs = Inr s \<longleftrightarrow>
    (\<exists>cps. (\<forall>c \<in> set cps. c < 0x110000) \<and> bs = concat (map utf8_bytes cps) \<and> s = ucs2encode cps)"
  using fatal_accepts_encodings [OF assms] utf8Decode_code_points by blast

theorem utf8_fatal_exact_witness:
  "utf8DecodeBytes True [0xe2, 0x82, 0xac] = Inr [0x20ac] \<longleftrightarrow>
    (\<exists>cps. (\<forall>c \<in> set cps. c < 0x110000) \<and> [0xe2, 0x82, 0xac] = concat (map utf8_bytes cps) \<and>
      [0x20ac] = ucs2encode cps)"
  by (rule utf8_fatal_exact) simp

text \<open>decoding what \<open>TextEncoder\<close> produces, with a fatal or a replacing decoder of any spelling
  of the label, gives every string back, unpaired surrogates included.\<close>

theorem text_codec_roundtrip:
  assumes "is_jsstr s" and "label \<in> {None, Some [], Some UTF8, Some (js ''UTF-8''), Some (js ''utf8'')}"
  shows "td_decode (\<lambda>_ _. None) (\<lambda>_. None) (TextDecoder label fatal)
    (Source (te_encode (\<lambda>_. None) (Some s))) = Inr s"
proof -
  have "normalizeLabel label = UTF8"
    using assms(2) by (auto simp: normalizeLabel_def UTF8_def to_lower_def lower_unit_def)
  moreover have "utf8DecodeBytes f (utf8EncodeString s) = Inr s" for f
    using utf8Decode_code_points [of "ucs2decode s" f] ucs2decode_bound [OF assms(1)] ucs2_roundtrip [OF assms(1)]
    by (simp add: utf8Encode_code_points)
  ultimately show ?thesis by (simp add: td_decode_def TextDecoder_def te_encode_def)
qed

theorem text_codec_roundtrip_witness:
  "td_decode (\<lambda>_ _. None) (\<lambda>_. None) (TextDecoder (Some (js ''utf8'')) (Some True))
    (Source (te_encode (\<lambda>_. None) (Some [0x61, 0xe9, 0xd83d, 0xde00, 0xd800]))) = Inr [0x61, 0xe9, 0xd83d, 0xde00, 0xd800]"
  by (rule text_codec_roundtrip) simp_all

text \<open>the replacing decoder returns a string on every input; where the fatal one accepts, both
  return the same, and where the fatal one throws, the string has a U+FFFD.\<close>

theorem utf8_replacing_total:
  "case utf8DecodeBytes True bs of
     Inr s \<Rightarrow> utf8DecodeBytes False bs = Inr s
   | Inl e \<Rightarrow> e = INVALID_UTF8 \<and> (\<exists>t. utf8DecodeBytes False bs = Inr t \<and> 0xFFFD \<in> set t)"
  using utf8Decode_agrees [of bs] by (simp only: agrees_def)

text \<open>Facts behind the findings: a sequence cut short by an ASCII byte swallows that byte, the
  three-byte form of a surrogate is accepted, and \<open>encodeInto\<close> cuts a character in two and reports
  that all of the source was read.\<close>

lemma utf8_truncated_swallows: "utf8DecodeBytes False [0xe2, 0x41] = Inr [0xFFFD]"
  by (simp add: lead_masks truncated_def)

lemma utf8_surrogate_accepted: "utf8DecodeBytes True [0xed, 0xa0, 0x80] = Inr [0xd800]"
  by (simp add: lead_masks is_cont_iff emit_def join_arith from_char_code_def)

lemma encodeInto_splits: "te_encodeInto (\<lambda>_. None) [0x20ac] [0, 0] = ([0xe2, 0x82], 1, 2)"
  by (simp add: te_encodeInto_def te_encode_def utf8_bytes_arith)

end
