(* ===== verification/StringDecoder.thy ===== *)
theory StringDecoder
  imports TextCodec
begin

text \<open>
  \<open>string_decoder.js\<close>: the decoder that is fed one chunk at a time and keeps the bytes of a
  character the chunk ends in. The object is a record; an operation returns the new record and the
  string. The function \<open>_doWriteUtf8\<close> takes the decoder as an argument, as in the source.
\<close>

section \<open>Encodings\<close>

datatype encoding = Utf8 | Ascii | Latin1 | Hex | Base64 | Utf16le

text \<open>\<open>_normalizeEncoding\<close>; \<open>None\<close> stands for \<open>undefined\<close> and \<open>null\<close>.\<close>

definition normalizeEncoding :: "jsstr option \<Rightarrow> encoding" where
  "normalizeEncoding enc =
     (case enc of
        None \<Rightarrow> Utf8
      | Some s \<Rightarrow>
          if s = [] then Utf8
          else
            let e = to_lower s
            in if e = js ''utf8'' \<or> e = js ''utf-8'' then Utf8
               else if e = js ''ascii'' then Ascii
               else if e = js ''latin1'' \<or> e = js ''binary'' then Latin1
               else if e = js ''hex'' then Hex
               else if e = js ''base64'' then Base64
               else if e = js ''utf16le'' \<or> e = js ''ucs2'' \<or> e = js ''ucs-2'' then Utf16le
               else Utf8)"

definition utf8CharLength :: "nat \<Rightarrow> nat" where
  "utf8CharLength leadByte =
     (if leadByte < 0x80 then 1
      else if leadByte AND 0xe0 = 0xc0 then 2
      else if leadByte AND 0xf0 = 0xe0 then 3
      else if leadByte AND 0xf8 = 0xf0 then 4
      else 1)"

definition utf16leCharLength :: "nat \<Rightarrow> nat \<Rightarrow> nat" where
  "utf16leCharLength b0 b1 =
     (let unit = b0 OR push_bit 8 b1 in if 0xd800 \<le> unit \<and> unit \<le> 0xdbff then 4 else 2)"

section \<open>Decoding a run of bytes\<close>

text \<open>The bytes are those from \<open>start\<close> to \<open>end\<close>. An overlong four-byte form makes \<open>cp - 0x10000\<close> negative.\<close>

definition surrogates_int :: "int \<Rightarrow> jsstr" where
  "surrogates_int cp =
     [nat ((0xd800 + drop_bit 10 cp) mod 65536), nat ((0xdc00 + (cp AND 0x3ff)) mod 65536)]"

fun decodeUtf8 :: "bytes \<Rightarrow> jsstr" where
  "decodeUtf8 [] = []"
| "decodeUtf8 (b0 # bs) =
     (if b0 < 0x80 then from_char_code b0 # decodeUtf8 bs
      else if b0 AND 0xe0 = 0xc0 \<and> 1 \<le> length bs
      then from_char_code (join2 b0 (bs ! 0)) # decodeUtf8 (drop 1 bs)
      else if b0 AND 0xf0 = 0xe0 \<and> 2 \<le> length bs
      then from_char_code (join3 b0 (bs ! 0) (bs ! 1)) # decodeUtf8 (drop 2 bs)
      else if b0 AND 0xf8 = 0xf0 \<and> 3 \<le> length bs
      then surrogates_int (int (join4 b0 (bs ! 0) (bs ! 1) (bs ! 2)) - 0x10000) @ decodeUtf8 (drop 3 bs)
      else 0xfffd # decodeUtf8 bs)"

fun decodeUtf16le :: "bytes \<Rightarrow> jsstr" where
  "decodeUtf16le (b0 # b1 # bs) = from_char_code (b0 OR push_bit 8 b1) # decodeUtf16le bs"
| "decodeUtf16le _ = []"

definition BASE64_CHARS :: jsstr where
  "BASE64_CHARS = js ''ABCDEFGHIJKLMNOPQRSTUVWXYZabcdefghijklmnopqrstuvwxyz0123456789+/''"

definition b64 :: "nat \<Rightarrow> nat" where
  "b64 n = BASE64_CHARS ! n"

fun encodeBase64 :: "bytes \<Rightarrow> jsstr" where
  "encodeBase64 (b0 # b1 # b2 # bs) =
     [b64 (drop_bit 2 b0), b64 (push_bit 4 (b0 AND 3) OR drop_bit 4 b1),
      b64 (push_bit 2 (b1 AND 15) OR drop_bit 6 b2), b64 (b2 AND 63)] @ encodeBase64 bs"
| "encodeBase64 [b0, b1] =
     [b64 (drop_bit 2 b0), b64 (push_bit 4 (b0 AND 3) OR drop_bit 4 b1), b64 (push_bit 2 (b1 AND 15)), 61]"
| "encodeBase64 [b0] = [b64 (drop_bit 2 b0), b64 (push_bit 4 (b0 AND 3)), 61, 61]"
| "encodeBase64 [] = []"

definition HEX_CHARS :: jsstr where
  "HEX_CHARS = js ''0123456789abcdef''"

definition decodeSlice :: "bytes \<Rightarrow> encoding \<Rightarrow> jsstr" where
  "decodeSlice buf enc =
     (if buf = [] then []
      else case enc of
        Utf8 \<Rightarrow> decodeUtf8 buf
      | Ascii \<Rightarrow> map (\<lambda>b. from_char_code (b AND 0x7f)) buf
      | Latin1 \<Rightarrow> map (\<lambda>b. from_char_code (b AND 0xff)) buf
      | Hex \<Rightarrow> concat (map (\<lambda>b. [HEX_CHARS ! (drop_bit 4 b AND 0xf), HEX_CHARS ! (b AND 0xf)]) buf)
      | Base64 \<Rightarrow> encodeBase64 buf
      | Utf16le \<Rightarrow> decodeUtf16le buf)"

section \<open>The decoder\<close>

record string_decoder =
  sd_encoding :: encoding
  sd_buf :: bytes
  sd_needed :: nat
  sd_charLen :: nat

definition StringDecoder :: "jsstr option \<Rightarrow> string_decoder" where
  "StringDecoder enc = \<lparr>sd_encoding = normalizeEncoding enc, sd_buf = [], sd_needed = 0, sd_charLen = 0\<rparr>"

text \<open>
  \<open>_utf8IncompleteEnd\<close>: the walk back from the end over at most four bytes. The argument is
  the reversed input, \<open>available\<close> is \<open>end - i\<close>.
\<close>

fun incomplete_back :: "bytes \<Rightarrow> nat \<Rightarrow> nat" where
  "incomplete_back [] available = 0"
| "incomplete_back (b # bs) available =
     (if \<not> is_cont b then (if available < utf8CharLength b then available else 0)
      else incomplete_back bs (available + 1))"

definition utf8IncompleteEnd :: "bytes \<Rightarrow> nat" where
  "utf8IncompleteEnd bs = incomplete_back (take 4 (rev bs)) 1"

text \<open>Steps 2 and 3 of \<open>_doWriteUtf8\<close>, on the input from \<open>offset\<close> on.\<close>

definition write_utf8_rest :: "string_decoder \<Rightarrow> jsstr \<Rightarrow> bytes \<Rightarrow> string_decoder \<times> jsstr" where
  "write_utf8_rest d result rest =
     (let trailCheck = utf8IncompleteEnd rest;
          completeEnd = length rest - trailCheck;
          pending = drop completeEnd rest;
          d' = (if 0 < trailCheck
                then d\<lparr>sd_buf := pending, sd_charLen := utf8CharLength (hd pending),
                       sd_needed := utf8CharLength (hd pending) - length pending\<rparr>
                else d)
      in (d', result @ decodeUtf8 (take completeEnd rest)))"

definition doWriteUtf8 :: "string_decoder \<Rightarrow> bytes \<Rightarrow> string_decoder \<times> jsstr" where
  "doWriteUtf8 d buffer =
     (if sd_buf d \<noteq> [] then
        (let offset = min (sd_charLen d - length (sd_buf d)) (length buffer);
             filled = sd_buf d @ take offset buffer
         in if sd_charLen d \<le> length filled
            then write_utf8_rest (d\<lparr>sd_buf := [], sd_needed := 0, sd_charLen := 0\<rparr>)
                   (decodeUtf8 (take (sd_charLen d) filled)) (drop offset buffer)
            else (d\<lparr>sd_buf := filled, sd_needed := sd_charLen d - length filled\<rparr>, []))
      else write_utf8_rest d [] buffer)"

definition doWriteUtf16le :: "string_decoder \<Rightarrow> bytes \<Rightarrow> string_decoder \<times> jsstr" where
  "doWriteUtf16le d buffer =
     (let offset = (if sd_buf d \<noteq> [] \<and> buffer \<noteq> [] then 1 else 0);
          filled = sd_buf d @ take offset buffer;
          (d1, result) = (if sd_buf d \<noteq> [] \<and> 2 \<le> length filled
                          then (d\<lparr>sd_buf := []\<rparr>, decodeUtf16le (take 2 filled))
                          else (d\<lparr>sd_buf := filled\<rparr>, []));
          rest = drop offset buffer;
          useLen = length rest - length rest mod 2
      in (if length rest mod 2 \<noteq> 0 then d1\<lparr>sd_buf := [last buffer]\<rparr> else d1,
          result @ decodeUtf16le (take useLen rest)))"

definition write_base64 :: "string_decoder \<Rightarrow> bytes \<Rightarrow> string_decoder \<times> jsstr" where
  "write_base64 d buffer =
     (let available = length (sd_buf d) + length buffer;
          usable = available - available mod 3;
          merged = sd_buf d @ buffer;
          toDecodeLen = (if length merged < usable then length merged else usable)
      in (d\<lparr>sd_buf := drop toDecodeLen merged\<rparr>,
          if toDecodeLen = 0 then [] else decodeSlice (take toDecodeLen merged) Base64))"

text \<open>What \<open>write\<close> and \<open>end\<close> may be given: \<open>undefined\<close> or \<open>null\<close>, a string, or an array of bytes.\<close>

datatype chunk = NoChunk | StrChunk jsstr | BytesChunk bytes

fun sd_write :: "string_decoder \<Rightarrow> chunk \<Rightarrow> string_decoder \<times> jsstr" where
  "sd_write d NoChunk = (d, [])"
| "sd_write d (StrChunk s) = (d, s)"
| "sd_write d (BytesChunk buffer) =
     (if buffer = [] then (d, [])
      else case sd_encoding d of
        Ascii \<Rightarrow> (d, decodeSlice buffer Ascii)
      | Latin1 \<Rightarrow> (d, decodeSlice buffer Latin1)
      | Hex \<Rightarrow> (d, decodeSlice buffer Hex)
      | Base64 \<Rightarrow> write_base64 d buffer
      | Utf16le \<Rightarrow> doWriteUtf16le d buffer
      | Utf8 \<Rightarrow> doWriteUtf8 d buffer)"

definition sd_flush :: "string_decoder \<Rightarrow> jsstr" where
  "sd_flush d =
     (case sd_encoding d of
        Utf8 \<Rightarrow> map (\<lambda>_. 0xfffd) (sd_buf d)
      | Utf16le \<Rightarrow> map from_char_code (sd_buf d)
      | Base64 \<Rightarrow> encodeBase64 (sd_buf d)
      | enc \<Rightarrow> decodeSlice (sd_buf d) enc)"

definition sd_end :: "string_decoder \<Rightarrow> chunk \<Rightarrow> string_decoder \<times> jsstr" where
  "sd_end d buffer =
     (let (d1, result) = sd_write d buffer
      in if sd_buf d1 \<noteq> []
         then (d1\<lparr>sd_buf := [], sd_needed := 0, sd_charLen := 0\<rparr>, result @ sd_flush d1)
         else (d1, result))"

section \<open>Decoding chunk by chunk\<close>

text \<open>A whole run: every chunk is written, then \<open>end()\<close> is called.\<close>

fun write_all :: "('s \<Rightarrow> bytes \<Rightarrow> 's \<times> jsstr) \<Rightarrow> 's \<Rightarrow> bytes list \<Rightarrow> 's \<times> jsstr" where
  "write_all feed s [] = (s, [])"
| "write_all feed s (c # cs) =
     (let (s1, o1) = feed s c; (s2, o2) = write_all feed s1 cs in (s2, o1 @ o2))"

definition sd_run :: "string_decoder \<Rightarrow> bytes list \<Rightarrow> string_decoder \<times> jsstr" where
  "sd_run d cs =
     (let (d1, o1) = write_all (\<lambda>d b. sd_write d (BytesChunk b)) d cs; (d2, o2) = sd_end d1 NoChunk
      in (d2, o1 @ o2))"

text \<open>
  The contract of one encoding. \<open>holds s seen out\<close> relates the decoder's state to the bytes it was
  given and the string it returned so far; \<open>stream\<close> says which byte sequences the contract covers.
\<close>

locale chunk_decoder =
  fixes feed :: "'s \<Rightarrow> bytes \<Rightarrow> 's \<times> jsstr"
    and holds :: "'s \<Rightarrow> bytes \<Rightarrow> jsstr \<Rightarrow> bool"
    and stream :: "bytes \<Rightarrow> bool"
  assumes write_holds: "holds s seen out \<Longrightarrow> stream (seen @ c) \<Longrightarrow> feed s c = (s', o') \<Longrightarrow>
      holds s' (seen @ c) (out @ o')"
    and stream_prefix: "stream (a @ b) \<Longrightarrow> stream a"
begin

lemma write_all_holds:
  "holds s seen out \<Longrightarrow> stream (seen @ concat cs) \<Longrightarrow> write_all feed s cs = (s', o') \<Longrightarrow>
   holds s' (seen @ concat cs) (out @ o')"
proof (induction cs arbitrary: s seen out o')
  case (Cons c cs)
  obtain s1 o1 where 1: "feed s c = (s1, o1)" by fastforce
  obtain s2 o2 where 2: "write_all feed s1 cs = (s2, o2)" by fastforce
  have "holds s1 (seen @ c) (out @ o1)"
    using Cons.prems 1 stream_prefix [of "seen @ c" "concat cs"] by (auto intro: write_holds)
  moreover have "stream ((seen @ c) @ concat cs)" "s' = s2" "o' = o1 @ o2" using Cons.prems 1 2 by auto
  ultimately show ?case using Cons.IH [of s1 "seen @ c" "out @ o1" o2] 2 by simp
qed simp

end

section \<open>Base64\<close>

lemma encodeBase64_append:
  "length a mod 3 = 0 \<Longrightarrow> encodeBase64 (a @ b) = encodeBase64 a @ encodeBase64 b"
  by (induction a rule: encodeBase64.induct) auto

lemma length_take_mod: "k * n \<le> length xs \<Longrightarrow> length (take (k * n) xs) mod n = 0"
  by simp

definition base64_holds :: "string_decoder \<Rightarrow> bytes \<Rightarrow> jsstr \<Rightarrow> bool" where
  "base64_holds d seen out \<longleftrightarrow> sd_encoding d = Base64 \<and>
     (\<exists>whole. seen = whole @ sd_buf d \<and> length whole mod 3 = 0 \<and> out = encodeBase64 whole)"

definition feed_bytes :: "string_decoder \<Rightarrow> bytes \<Rightarrow> string_decoder \<times> jsstr" where
  "feed_bytes d b = sd_write d (BytesChunk b)"

lemma base64_step:
  assumes "base64_holds d seen out" "feed_bytes d c = (d', o')"
  shows "base64_holds d' (seen @ c) (out @ o')"
proof (cases "c = []")
  case True
  then show ?thesis using assms by (simp add: feed_bytes_def)
next
  case False
  define m where "m = sd_buf d @ c"
  define n where "n = length m - length m mod 3"
  have n: "n \<le> length m" "n mod 3 = 0" by (simp_all add: n_def minus_mod_eq_mult_div)
  obtain whole where w: "seen = whole @ sd_buf d" "length whole mod 3 = 0" "out = encodeBase64 whole"
    "sd_encoding d = Base64" using assms(1) by (auto simp: base64_holds_def)
  have "d' = d\<lparr>sd_buf := drop n m\<rparr>" "o' = encodeBase64 (take n m)"
    using assms(2) False w(4) n(1)
    by (auto simp: feed_bytes_def write_base64_def m_def [symmetric] n_def decodeSlice_def Let_def
        split: if_splits simp flip: length_append)
  moreover have "seen @ c = (whole @ take n m) @ drop n m" using w(1) m_def by (metis append.assoc append_take_drop_id)
  moreover have "length (whole @ take n m) mod 3 = 0"
    using w(2) n by (simp add: min_absorb2 mod_0_imp_dvd dvd_imp_mod_0)
  ultimately show ?thesis
    unfolding base64_holds_def using w(3,4) encodeBase64_append [OF w(2)]
    by (intro conjI exI [of _ "whole @ take n m"]) simp_all
qed

interpretation b64: chunk_decoder feed_bytes base64_holds "\<lambda>_. True"
  by unfold_locales (auto intro: base64_step)

section \<open>UTF-16\<close>

lemma decodeUtf16le_append:
  "length a mod 2 = 0 \<Longrightarrow> decodeUtf16le (a @ b) = decodeUtf16le a @ decodeUtf16le b"
  by (induction a rule: decodeUtf16le.induct) auto

definition utf16le_holds :: "string_decoder \<Rightarrow> bytes \<Rightarrow> jsstr \<Rightarrow> bool" where
  "utf16le_holds d seen out \<longleftrightarrow> sd_encoding d = Utf16le \<and> length (sd_buf d) \<le> 1 \<and>
     (\<exists>whole. seen = whole @ sd_buf d \<and> length whole mod 2 = 0 \<and> out = decodeUtf16le whole)"

text \<open>The part of the write after the first pair has been completed.\<close>

lemma utf16le_tail:
  assumes "length whole mod 2 = 0"
  shows "length (take (length rest - length rest mod 2) rest) mod 2 = 0"
    and "decodeUtf16le (whole @ take (length rest - length rest mod 2) rest)
       = decodeUtf16le whole @ decodeUtf16le (take (length rest - length rest mod 2) rest)"
    and "length rest mod 2 \<noteq> 0 \<Longrightarrow> rest = take (length rest - length rest mod 2) rest @ [last rest]"
    and "length rest mod 2 = 0 \<Longrightarrow> take (length rest - length rest mod 2) rest = rest"
proof -
  show "length (take (length rest - length rest mod 2) rest) mod 2 = 0"
    by (simp add: minus_mod_eq_mult_div)
  show "decodeUtf16le (whole @ take (length rest - length rest mod 2) rest)
       = decodeUtf16le whole @ decodeUtf16le (take (length rest - length rest mod 2) rest)"
    using assms by (rule decodeUtf16le_append)
  show "rest = take (length rest - length rest mod 2) rest @ [last rest]" if "length rest mod 2 \<noteq> 0"
  proof -
    have "length rest mod 2 = 1" "rest \<noteq> []" using that by auto
    then show ?thesis by (metis append_butlast_last_id butlast_conv_take)
  qed
qed simp

lemma utf16le_step:
  assumes "utf16le_holds d seen out" "feed_bytes d c = (d', o')"
  shows "utf16le_holds d' (seen @ c) (out @ o')"
proof (cases "c = []")
  case True
  then show ?thesis using assms by (simp add: feed_bytes_def)
next
  case False
  obtain whole where w: "seen = whole @ sd_buf d" "length whole mod 2 = 0" "out = decodeUtf16le whole"
    "sd_encoding d = Utf16le" "length (sd_buf d) \<le> 1" using assms(1) by (auto simp: utf16le_holds_def)
  define offset where "offset = (if sd_buf d = [] then 0 else 1 :: nat)"
  define rest where "rest = drop offset c"
  define pair where "pair = (if sd_buf d = [] then [] else sd_buf d @ take 1 c)"
  define even where "even = take (length rest - length rest mod 2) rest"
  have pair: "length pair mod 2 = 0" "sd_buf d @ c = pair @ rest"
    using w(5) False by (cases "sd_buf d"; cases c; simp add: pair_def rest_def offset_def)+
  have st: "d' = d\<lparr>sd_buf := if length rest mod 2 \<noteq> 0 then [last c] else []\<rparr>"
    "o' = decodeUtf16le pair @ decodeUtf16le even"
    using assms(2) w(4,5) False
    by (cases "sd_buf d"; cases c;
        auto simp: feed_bytes_def doWriteUtf16le_def rest_def offset_def pair_def even_def Let_def split: if_splits)+
  have "last c = last rest" if "length rest mod 2 \<noteq> 0"
    using that by (metis last_drop length_0_conv length_drop mod_0 rest_def zero_less_diff neq0_conv)
  then have "seen @ c = (whole @ pair @ even) @ sd_buf d'"
    using w(1) pair(2) utf16le_tail(3,4) [OF w(2), of rest] by (auto simp: st(1) even_def)
  moreover have "length (whole @ pair @ even) mod 2 = 0"
    using w(2) pair(1) utf16le_tail(1) [OF w(2), of rest] unfolding even_def length_append by presburger
  ultimately show ?thesis
    using w pair(1) by (auto simp: utf16le_holds_def st decodeUtf16le_append intro!: exI [of _ "whole @ pair @ even"])
qed

interpretation u16: chunk_decoder feed_bytes utf16le_holds "\<lambda>_. True"
  by unfold_locales (auto intro: utf16le_step)

section \<open>UTF-8\<close>

lemma surrogates_int:
  assumes "0x10000 \<le> c"
  shows "surrogates_int (int c - 0x10000) = surrogates (c - 0x10000)"
proof -
  define n where "n = c - 0x10000"
  have "int c - 0x10000 = int n" using assms by (simp add: n_def)
  moreover have "int n AND 0x3ff = int (n mod 1024)"
    using take_bit_eq_mask [of 10 "int n"] by (simp add: take_bit_eq_mod mask_eq_exp_minus_1 zmod_int)
  moreover have "drop_bit 10 (int n) = int (n div 1024)" by (simp add: drop_bit_eq_div zdiv_int)
  ultimately show ?thesis
    unfolding n_def [symmetric] surrogates_int_def surrogates_def from_char_code_def bits_arith
    by (simp add: nat_mod_distrib nat_add_distrib)
qed

lemma utf8_lead:
  assumes "c < 0x110000"
  obtains l cs where "utf8_bytes c = l # cs" "\<not> is_cont l" "utf8CharLength l = length (utf8_bytes c)"
    "\<forall>b \<in> set cs. is_cont b" "length cs \<le> 3"
  using assms
  by (cases c rule: utf8_bytes_cases) (auto simp: utf8CharLength_def lead_masks is_cont_iff)

lemma decodeUtf8_code_point:
  assumes "c < 0x110000"
  shows "decodeUtf8 (utf8_bytes c @ bs) = ucs2encode [c] @ decodeUtf8 bs"
  using assms
proof (cases c rule: utf8_bytes_cases)
  case (four x y z t)
  then show ?thesis
    by (simp add: lead_masks surrogates_int surrogates_ucs2 del: ucs2encode.simps)
qed (auto simp: lead_masks)

definition code_points :: "nat list \<Rightarrow> bool" where
  "code_points cps \<longleftrightarrow> (\<forall>c \<in> set cps. c < 0x110000)"

abbreviation utf8 :: "nat list \<Rightarrow> bytes" where
  "utf8 cps \<equiv> concat (map utf8_bytes cps)"

lemma code_points_simps [simp]:
  "code_points []" "code_points (c # cps) \<longleftrightarrow> c < 0x110000 \<and> code_points cps"
  "code_points (a @ b) \<longleftrightarrow> code_points a \<and> code_points b"
  by (auto simp: code_points_def)

lemma decodeUtf8_code_points: "code_points cps \<Longrightarrow> decodeUtf8 (utf8 cps) = ucs2encode cps"
proof (induction cps)
  case (Cons c cps)
  then show ?case
    using ucs2encode_append [of "[c]" cps] by (simp add: decodeUtf8_code_point del: ucs2encode.simps(2))
qed simp

text \<open>A non-empty start of an encoding that is not all of it.\<close>

definition partial :: "bytes \<Rightarrow> bool" where
  "partial p \<longleftrightarrow> (\<exists>c r. c < 0x110000 \<and> utf8_bytes c = p @ r \<and> p \<noteq> [] \<and> r \<noteq> [])"

lemma partial_lead:
  assumes "partial p"
  obtains l cs where "p = l # cs" "\<not> is_cont l" "length p < utf8CharLength l" "\<forall>b \<in> set cs. is_cont b"
    "length cs \<le> 3"
proof -
  obtain c r where c: "c < 0x110000" "utf8_bytes c = p @ r" "p \<noteq> []" "r \<noteq> []"
    using assms by (auto simp: partial_def)
  obtain l cs where "utf8_bytes c = l # cs" "\<not> is_cont l" "utf8CharLength l = length (utf8_bytes c)"
    "\<forall>b \<in> set cs. is_cont b" "length cs \<le> 3" using utf8_lead [OF c(1)] .
  with c(2-4) show thesis using that by (cases p) auto
qed

lemma incomplete_back_sequence:
  assumes "\<forall>b \<in> set cs. is_cont b" "\<not> is_cont l"
  shows "incomplete_back (rev cs @ l # xs) n
    = (if n + length cs < utf8CharLength l then n + length cs else 0)"
  using assms(1)
proof (induction cs arbitrary: n rule: rev_induct)
  case Nil
  then show ?case using assms(2) by simp
next
  case (snoc b cs)
  then show ?case using snoc.IH [of "n + 1"] by simp
qed

lemma utf8IncompleteEnd_sequence:
  assumes "\<forall>b \<in> set cs. is_cont b" "\<not> is_cont l" "length cs \<le> 3"
  shows "utf8IncompleteEnd (xs @ l # cs)
    = (if length cs + 1 < utf8CharLength l then length cs + 1 else 0)"
proof -
  have "take 4 (rev (xs @ l # cs)) = rev cs @ l # take (3 - length cs) (rev xs)"
    using assms(3) by (simp add: take_Cons' Suc_diff_le numeral_eq_Suc)
  then show ?thesis
    using incomplete_back_sequence [OF assms(1,2), of _ 1] by (simp add: utf8IncompleteEnd_def)
qed

lemma utf8IncompleteEnd_partial:
  assumes "partial p"
  shows "utf8IncompleteEnd (xs @ p) = length p"
  using assms by (rule partial_lead) (simp add: utf8IncompleteEnd_sequence)

lemma utf8IncompleteEnd_whole:
  assumes "code_points cps"
  shows "utf8IncompleteEnd (utf8 cps) = 0"
proof (cases cps rule: rev_exhaust)
  case Nil
  then show ?thesis by (simp add: utf8IncompleteEnd_def)
next
  case (snoc ds c)
  then have "c < 0x110000" using assms by simp
  then show ?thesis
    unfolding snoc by (rule utf8_lead) (simp add: utf8IncompleteEnd_sequence)
qed

section \<open>Chunks of a UTF-8 stream\<close>

lemma append_split:
  "x @ y = u @ v \<Longrightarrow> length u \<le> length x \<Longrightarrow> \<exists>w. x = u @ w \<and> w @ y = v"
proof (induction u arbitrary: x)
  case (Cons a u)
  then show ?case by (cases x) auto
qed simp

lemma utf8_value:
  "c < 0x110000 \<Longrightarrow>
   (case utf8_bytes c of
      [b] \<Rightarrow> b | [b0, b1] \<Rightarrow> join2 b0 b1 | [b0, b1, b2] \<Rightarrow> join3 b0 b1 b2
    | [b0, b1, b2, b3] \<Rightarrow> join4 b0 b1 b2 b3 | _ \<Rightarrow> 0) = c"
  by (cases c rule: utf8_bytes_cases) simp_all

lemma utf8_bytes_inj:
  assumes "utf8_bytes a @ x = utf8_bytes b @ y" "a < 0x110000" "b < 0x110000"
  shows "a = b" "x = y"
proof -
  obtain l cs where la: "utf8_bytes a = l # cs" "utf8CharLength l = length (utf8_bytes a)"
    using utf8_lead [OF assms(2)] by blast
  obtain l' cs' where lb: "utf8_bytes b = l' # cs'" "utf8CharLength l' = length (utf8_bytes b)"
    using utf8_lead [OF assms(3)] by blast
  have "l = l'" using assms(1) unfolding la(1) lb(1) by simp
  then have "length (utf8_bytes a) = length (utf8_bytes b)" using la(2) lb(2) by metis
  then have eq: "utf8_bytes a = utf8_bytes b \<and> x = y" using assms(1) append_eq_append_conv by blast
  then show "x = y" by simp
  from eq show "a = b" using utf8_value [OF assms(2)] utf8_value [OF assms(3)] by metis
qed

text \<open>A start of a stream that is cut into whole characters, and the rest of the stream.\<close>

lemma utf8_cut:
  "utf8 cps @ t = utf8 cps' \<Longrightarrow> code_points cps \<Longrightarrow> code_points cps' \<Longrightarrow>
   \<exists>rest. cps' = cps @ rest \<and> t = utf8 rest"
proof (induction cps arbitrary: cps')
  case (Cons c cps)
  have "utf8 (c # cps) \<noteq> []"
    using Cons.prems utf8_lead [of c] by auto
  then obtain c' ds where cps': "cps' = c' # ds" using Cons.prems by (cases cps') auto
  then have "utf8_bytes c @ (utf8 cps @ t) = utf8_bytes c' @ utf8 ds" using Cons.prems by simp
  then have "c = c'" "utf8 cps @ t = utf8 ds"
    using utf8_bytes_inj [of c _ c' "utf8 ds"] Cons.prems(2,3) cps' by simp_all
  with Cons cps' show ?case by auto
qed simp

lemma utf8_cut_chunk:
  "chunk @ later = utf8 cps \<Longrightarrow> code_points cps \<Longrightarrow>
   \<exists>ds p. chunk = utf8 ds @ p \<and> code_points ds \<and> (p = [] \<or> partial p)"
proof (induction cps arbitrary: chunk)
  case (Cons c cps)
  have eq: "chunk @ later = utf8_bytes c @ utf8 cps" using Cons.prems by simp
  show ?case
  proof (cases "length (utf8_bytes c) \<le> length chunk")
    case True
    with eq obtain chunk' where chunk': "chunk = utf8_bytes c @ chunk'" "chunk' @ later = utf8 cps"
      using append_split by blast
    moreover have "code_points cps" using Cons.prems by simp
    ultimately obtain ds p where "chunk' = utf8 ds @ p" "code_points ds" "p = [] \<or> partial p"
      using Cons.IH by blast
    then show ?thesis using chunk' Cons.prems by (intro exI [of _ "c # ds"] exI [of _ p]) simp
  next
    case False
    with eq obtain r where "utf8_bytes c = chunk @ r" "r \<noteq> []"
      using append_split [of "utf8_bytes c" "utf8 cps" chunk later] by auto
    then have "chunk = [] \<or> partial chunk" using Cons.prems by (auto simp: partial_def)
    then show ?thesis by (intro exI [of _ "[]"] exI [of _ chunk]) simp
  qed
qed (auto intro: exI [of _ "[]"])

definition utf8_stream :: "bytes \<Rightarrow> bool" where
  "utf8_stream bs \<longleftrightarrow> (\<exists>later cps. code_points cps \<and> bs @ later = utf8 cps)"

definition utf8_holds :: "string_decoder \<Rightarrow> bytes \<Rightarrow> jsstr \<Rightarrow> bool" where
  "utf8_holds d seen out \<longleftrightarrow> sd_encoding d = Utf8 \<and>
     (\<exists>cps. code_points cps \<and> seen = utf8 cps @ sd_buf d \<and> out = ucs2encode cps) \<and>
     (sd_buf d = [] \<or> (partial (sd_buf d) \<and> sd_charLen d = utf8CharLength (hd (sd_buf d))))"

lemma write_utf8_rest_holds:
  assumes "write_utf8_rest d result rest = (d', o')" "sd_encoding d = Utf8" "sd_buf d = []"
    "rest = utf8 ds @ p" "code_points ds" "p = [] \<or> partial p"
  shows "sd_encoding d' = Utf8 \<and> sd_buf d' = p \<and> o' = result @ ucs2encode ds \<and>
    (p \<noteq> [] \<longrightarrow> sd_charLen d' = utf8CharLength (hd p))"
proof -
  have "utf8IncompleteEnd rest = length p"
    using assms(4-6) utf8IncompleteEnd_partial utf8IncompleteEnd_whole by auto
  then show ?thesis
    using assms by (auto simp: write_utf8_rest_def Let_def decodeUtf8_code_points)
qed

lemma utf8_step:
  assumes "utf8_holds d seen out" "utf8_stream (seen @ c)" "feed_bytes d c = (d', o')"
  shows "utf8_holds d' (seen @ c) (out @ o')"
proof (cases "c = []")
  case True
  then show ?thesis using assms by (simp add: feed_bytes_def)
next
  case False
  then have feed: "doWriteUtf8 d c = (d', o')" "sd_encoding d = Utf8"
    using assms(1,3) by (auto simp: feed_bytes_def utf8_holds_def)
  obtain cps where cps: "code_points cps" "seen = utf8 cps @ sd_buf d" "out = ucs2encode cps"
    using assms(1) by (auto simp: utf8_holds_def)
  obtain later rest where rest: "sd_buf d @ c @ later = utf8 rest" "code_points rest"
  proof -
    obtain later cps' where "code_points cps'" "utf8 cps @ (sd_buf d @ c @ later) = utf8 cps'"
      using assms(2) cps(2) by (auto simp: utf8_stream_def)
    moreover from this obtain rest where "cps' = cps @ rest" "sd_buf d @ c @ later = utf8 rest"
      using utf8_cut cps(1) by blast
    ultimately show thesis using that by auto
  qed
  show ?thesis
  proof (cases "sd_buf d = []")
    case True
    then obtain ds p where p: "c = utf8 ds @ p" "code_points ds" "p = [] \<or> partial p"
      using utf8_cut_chunk rest by (metis append_Nil)
    have "write_utf8_rest d [] c = (d', o')" using feed True by (simp add: doWriteUtf8_def)
    from write_utf8_rest_holds [OF this feed(2) True p]
    show ?thesis
      using True cps p by (auto simp: utf8_holds_def ucs2encode_append intro!: exI [of _ "cps @ ds"])
  next
    case buf: False
    then have part: "partial (sd_buf d)" and len: "sd_charLen d = utf8CharLength (hd (sd_buf d))"
      using assms(1) by (auto simp: utf8_holds_def)
    obtain c0 rest' where c0: "rest = c0 # rest'" using rest buf by (cases rest) auto
    then have valid: "c0 < 0x110000" "code_points rest'" using rest by simp_all
    have eq: "utf8_bytes c0 @ utf8 rest' = sd_buf d @ c @ later" using rest c0 by simp
    have "hd (utf8_bytes c0) = hd (sd_buf d)" "length (sd_buf d) < sd_charLen d"
      using eq buf utf8_lead [OF valid(1)] partial_lead [OF part] len by (metis hd_append2 list.distinct(1) list.sel(1))+
    then have "length (utf8_bytes c0) = sd_charLen d" "length (sd_buf d) < length (utf8_bytes c0)"
      using utf8_lead [OF valid(1)] len by (metis list.sel(1))+
    moreover from this eq obtain r where r1: "utf8_bytes c0 = sd_buf d @ r" "c @ later = r @ utf8 rest'"
      using append_split [of "utf8_bytes c0" "utf8 rest'" "sd_buf d" "c @ later"] by auto
    ultimately have "length (sd_buf d) + length r = sd_charLen d" "r \<noteq> []" by auto
    with r1 have r: "utf8_bytes c0 = sd_buf d @ r" "c @ later = r @ utf8 rest'"
      "length r = sd_charLen d - length (sd_buf d)" "r \<noteq> []" by simp_all
    show ?thesis
    proof (cases "length r \<le> length c")
      case True
      with r(2) obtain c' where c': "c = r @ c'" "c' @ later = utf8 rest'"
        using append_split by blast
      obtain ds p where p: "c' = utf8 ds @ p" "code_points ds" "p = [] \<or> partial p"
        using utf8_cut_chunk [OF c'(2) valid(2)] by blast
      have "write_utf8_rest (d\<lparr>sd_buf := [], sd_needed := 0, sd_charLen := 0\<rparr>) (ucs2encode [c0]) c' = (d', o')"
      proof -
        have "min (sd_charLen d - length (sd_buf d)) (length c) = length r" using r(3) c'(1) by simp
        moreover have "take (sd_charLen d) (utf8_bytes c0) = utf8_bytes c0" "sd_charLen d \<le> length (sd_buf d @ r)"
          using \<open>length (utf8_bytes c0) = sd_charLen d\<close> r(1) by simp_all
        moreover have "decodeUtf8 (utf8_bytes c0) = ucs2encode [c0]"
          using decodeUtf8_code_point [OF valid(1), of "[]"] by (simp del: ucs2encode.simps(2))
        ultimately show ?thesis
          using feed(1) buf c'(1) r(1) unfolding doWriteUtf8_def Let_def
          by (simp del: ucs2encode.simps(2) length_append)
      qed
      from write_utf8_rest_holds [OF this _ _ p] feed(2)
      show ?thesis using cps valid p r(1) c' ucs2encode_append [of "cps @ [c0]" ds] ucs2encode_append [of cps "[c0]"]
        by (auto simp: utf8_holds_def intro!: exI [of _ "cps @ c0 # ds"])
    next
      case less: False
      with r(2) obtain r' where r': "r = c @ r'" "r' \<noteq> []"
        using append_split [of r "utf8 rest'" c later] by auto
      then have "d' = d\<lparr>sd_buf := sd_buf d @ c, sd_needed := sd_charLen d - length (sd_buf d @ c)\<rparr> \<and> o' = []"
        using feed(1) buf r less by (auto simp: doWriteUtf8_def Let_def split: if_splits)
      moreover have "partial (sd_buf d @ c)"
        unfolding partial_def using r r' valid buf by (intro exI [of _ c0] exI [of _ r']) simp
      ultimately show ?thesis using cps feed(2) len buf by (auto simp: utf8_holds_def)
    qed
  qed
qed

lemma utf8_stream_prefix: "utf8_stream (a @ b) \<Longrightarrow> utf8_stream a"
  by (fastforce simp: utf8_stream_def)

interpretation u8: chunk_decoder feed_bytes utf8_holds utf8_stream
  by unfold_locales (auto intro: utf8_step dest: utf8_stream_prefix)

section \<open>Whole runs\<close>

lemma sd_write_feed: "(\<lambda>d b. sd_write d (BytesChunk b)) = feed_bytes"
  by (simp add: feed_bytes_def fun_eq_iff)

lemma sd_run_eq:
  assumes "write_all feed_bytes d cs = (d1, o1)"
  shows "snd (sd_run d cs) = o1 @ (if sd_buf d1 = [] then [] else sd_flush d1)"
  unfolding sd_run_def sd_write_feed assms by (simp add: sd_end_def)

lemma base64_run:
  assumes "sd_encoding d = Base64" "sd_buf d = []"
  shows "snd (sd_run d cs) = encodeBase64 (concat cs)"
proof -
  obtain d1 o1 where w: "write_all feed_bytes d cs = (d1, o1)" by fastforce
  have "base64_holds d [] []" using assms by (simp add: base64_holds_def)
  from b64.write_all_holds [OF this _ w] obtain whole where
    "sd_encoding d1 = Base64" "concat cs = whole @ sd_buf d1" "length whole mod 3 = 0" "o1 = encodeBase64 whole"
    by (auto simp: base64_holds_def)
  then show ?thesis
    using encodeBase64_append [of whole "sd_buf d1"] by (auto simp: sd_run_eq [OF w] sd_flush_def)
qed

lemma utf16le_run:
  assumes "sd_encoding d = Utf16le" "sd_buf d = []"
  shows "snd (sd_run d cs) = decodeUtf16le (concat cs) @
    (if odd (length (concat cs)) then [from_char_code (last (concat cs))] else [])"
proof -
  obtain d1 o1 where w: "write_all feed_bytes d cs = (d1, o1)" by fastforce
  have "utf16le_holds d [] []" using assms by (simp add: utf16le_holds_def)
  from u16.write_all_holds [OF this _ w] obtain whole where
    h: "sd_encoding d1 = Utf16le" "concat cs = whole @ sd_buf d1" "length whole mod 2 = 0"
      "o1 = decodeUtf16le whole" "length (sd_buf d1) \<le> 1"
    by (auto simp: utf16le_holds_def)
  then have "sd_buf d1 = [] \<or> (\<exists>b. sd_buf d1 = [b])" by (cases "sd_buf d1") auto
  then show ?thesis
  proof
    assume "sd_buf d1 = []"
    then show ?thesis using h(2-4) by (simp add: sd_run_eq [OF w] even_iff_mod_2_eq_zero)
  next
    assume "\<exists>b. sd_buf d1 = [b]"
    then obtain b where b: "sd_buf d1 = [b]" by blast
    then have "decodeUtf16le (concat cs) = decodeUtf16le whole" "odd (length (concat cs))"
      using h(2,3) decodeUtf16le_append [of whole "[b]"] by (simp_all add: mod2_eq_if split: if_splits)
    then show ?thesis using h b by (simp add: sd_run_eq [OF w] sd_flush_def)
  qed
qed

lemma plain_run:
  assumes "sd_encoding d \<in> {Ascii, Latin1, Hex}" "sd_buf d = []"
  shows "snd (sd_run d cs) = decodeSlice (concat cs) (sd_encoding d)"
proof -
  have app: "decodeSlice (a @ b) (sd_encoding d) = decodeSlice a (sd_encoding d) @ decodeSlice b (sd_encoding d)" for a b
    using assms(1) by (auto simp: decodeSlice_def)
  have nil: "decodeSlice [] (sd_encoding d) = []" by (simp add: decodeSlice_def)
  have "feed_bytes d c = (d, decodeSlice c (sd_encoding d))" for c
    using assms(1) nil by (auto simp: feed_bytes_def)
  then have w: "write_all feed_bytes d cs = (d, decodeSlice (concat cs) (sd_encoding d))"
    by (induction cs) (simp_all add: app nil)
  show ?thesis using assms(2) by (simp add: sd_run_eq [OF w])
qed

lemma utf8_run:
  assumes "sd_encoding d = Utf8" "sd_buf d = []" "code_points cps" "concat cs = utf8 cps"
  shows "snd (sd_run d cs) = ucs2encode cps"
proof -
  obtain d1 o1 where w: "write_all feed_bytes d cs = (d1, o1)" by fastforce
  have "utf8_holds d [] []" using assms by (auto simp: utf8_holds_def intro: exI [of _ "[]"])
  moreover have "utf8_stream ([] @ concat cs)"
    unfolding utf8_stream_def using assms(3,4) by (intro exI [of _ "[]"] exI [of _ cps]) simp
  ultimately have "utf8_holds d1 ([] @ concat cs) ([] @ o1)" using w by (rule u8.write_all_holds)
  then obtain ds where ds: "code_points ds" "utf8 cps = utf8 ds @ sd_buf d1" "o1 = ucs2encode ds"
    and buf: "sd_buf d1 = [] \<or> partial (sd_buf d1)"
    using assms(4) by (auto simp: utf8_holds_def)
  then obtain rest where rest: "cps = ds @ rest" "sd_buf d1 = utf8 rest"
    using utf8_cut [of ds "sd_buf d1" cps] assms(3) by auto
  have "utf8IncompleteEnd (sd_buf d1) = 0"
    using utf8IncompleteEnd_whole [of rest] assms(3) rest by simp
  then have "sd_buf d1 = []" using buf utf8IncompleteEnd_partial [of "sd_buf d1" "[]"] by auto
  moreover from this have "rest = []"
    using rest assms(3) by (cases rest) (auto elim: utf8_lead)
  ultimately show ?thesis using ds rest by (simp add: sd_run_eq [OF w])
qed

section \<open>Theorems\<close>

text \<open>C37: however a UTF-8 stream is cut into chunks, also inside its characters, the strings that
  \<open>write\<close> returns for the chunks and \<open>end\<close> at last are together the text of the stream: nothing is lost,
  repeated or replaced.\<close>

theorem utf8_chunks_independent:
  assumes "\<forall>c \<in> set cps. c < 0x110000" and "concat cs = concat (map utf8_bytes cps)"
  shows "snd (sd_run (StringDecoder None) cs) = ucs2encode cps"
  using assms by (intro utf8_run) (simp_all add: StringDecoder_def normalizeEncoding_def code_points_def)

theorem utf8_chunks_independent_witness:
  "snd (sd_run (StringDecoder None) [[0x61, 0xf0, 0x9f], [0x98], [0x80, 0xe2], [0x82, 0xac]])
    = ucs2encode [0x61, 0x1f600, 0x20ac]"
  by (rule utf8_chunks_independent) (simp_all add: utf8_bytes_arith)

text \<open>for every other encoding and all bytes, the chunks' strings and the flushed one are together
  what one decoding of the concatenated chunks gives (Base64 padding only at the end; an odd last byte of
  UTF-16 as a code unit of its own).\<close>

theorem other_chunks_independent:
  "snd (sd_run (StringDecoder enc) cs) =
    (case normalizeEncoding enc of
       Base64 \<Rightarrow> encodeBase64 (concat cs)
     | Utf16le \<Rightarrow> decodeUtf16le (concat cs) @
         (if odd (length (concat cs)) then [from_char_code (last (concat cs))] else [])
     | Utf8 \<Rightarrow> snd (sd_run (StringDecoder None) cs)
     | e \<Rightarrow> decodeSlice (concat cs) e)"
  using base64_run [of "StringDecoder enc" cs] utf16le_run [of "StringDecoder enc" cs]
    plain_run [of "StringDecoder enc" cs]
  by (cases "normalizeEncoding enc") (simp_all add: StringDecoder_def normalizeEncoding_def [of None])

text \<open>A fact behind a finding: the bytes after a lead byte are taken without a check.\<close>

lemma decodeUtf8_unchecked: "decodeUtf8 [0xc3, 0x28] = [0xe8]"
  by (simp add: lead_masks join_arith from_char_code_def)

end
