(* ===== verification/Uri.thy ===== *)
theory Uri
  imports TextCodec
begin

text \<open>
  The URI functions of the language (\<open>encodeURIComponent\<close> and \<open>decodeURIComponent\<close>, ECMA-262) that
  \<open>querystring.js\<close>, \<open>url.js\<close> and the HTTP files call, and the laws of percent encoding the
  component proofs share.
\<close>

section \<open>Percent encoding\<close>

definition hex_digit :: "nat \<Rightarrow> nat" where
  "hex_digit d = (if d < 10 then 48 + d else 55 + d)"

text \<open>\<open>_hexVal\<close> of \<open>querystring.js\<close>; \<open>None\<close> for \<open>-1\<close>.\<close>

definition hexVal :: "nat \<Rightarrow> nat option" where
  "hexVal c =
     (if 48 \<le> c \<and> c \<le> 57 then Some (c - 48)
      else if 65 \<le> c \<and> c \<le> 70 then Some (c - 65 + 10)
      else if 97 \<le> c \<and> c \<le> 102 then Some (c - 97 + 10)
      else None)"

definition pct :: "nat \<Rightarrow> jsstr" where
  "pct b = [37, hex_digit (b div 16), hex_digit (b mod 16)]"

text \<open>The code units \<open>encodeURIComponent\<close> leaves: letters, digits and \<open>- _ . ! ~ * ' ( )\<close>.\<close>

definition uri_unreserved :: "nat \<Rightarrow> bool" where
  "uri_unreserved c \<longleftrightarrow>
     (48 \<le> c \<and> c \<le> 57) \<or> (65 \<le> c \<and> c \<le> 90) \<or> (97 \<le> c \<and> c \<le> 122) \<or>
     c \<in> {45, 95, 46, 33, 126, 42, 39, 40, 41}"

definition is_surrogate :: "nat \<Rightarrow> bool" where
  "is_surrogate c \<longleftrightarrow> 0xd800 \<le> c \<and> c \<le> 0xdfff"

text \<open>Strings of whole characters: no unpaired surrogate.\<close>

definition well_formed :: "jsstr \<Rightarrow> bool" where
  "well_formed s \<longleftrightarrow> is_jsstr s \<and> (\<forall>c \<in> set (ucs2decode s). \<not> is_surrogate c)"

definition encodeURIComponent :: "jsstr \<Rightarrow> jsstr result" where
  "encodeURIComponent s =
     (if \<exists>c \<in> set (ucs2decode s). is_surrogate c then Inl URIError
      else Inr (concat (map (\<lambda>c. if uri_unreserved c then [c] else concat (map pct (utf8_bytes c)))
             (ucs2decode s))))"

section \<open>Percent decoding\<close>

fun octet :: "jsstr \<Rightarrow> nat option" where
  "octet (c # h # l # s) =
     (if c = 37 then (case (hexVal h, hexVal l) of (Some a, Some b) \<Rightarrow> Some (a * 16 + b) | _ \<Rightarrow> None) else None)"
| "octet _ = None"

fun octets :: "nat \<Rightarrow> jsstr \<Rightarrow> bytes option" where
  "octets 0 s = Some []"
| "octets (Suc n) s =
     (case octet s of None \<Rightarrow> None | Some b \<Rightarrow> map_option (\<lambda>bs. b # bs) (octets n (drop 3 s)))"

text \<open>The number of octets a lead octet announces; 0 for one that cannot lead.\<close>

definition octet_count :: "nat \<Rightarrow> nat" where
  "octet_count b =
     (if b < 0x80 then 1 else if b < 0xc0 then 0 else if b < 0xe0 then 2 else if b < 0xf0 then 3
      else if b < 0xf8 then 4 else 0)"

text \<open>The character of a valid UTF-8 sequence; surrogates are not valid.\<close>

definition utf8_char :: "bytes \<Rightarrow> jsstr option" where
  "utf8_char bs =
     (case utf8DecodeBytes True bs of
        Inr s \<Rightarrow> (case s of [c] \<Rightarrow> if is_surrogate c then None else Some s | _ \<Rightarrow> Some s)
      | Inl _ \<Rightarrow> None)"

fun decodeURIComponent :: "jsstr \<Rightarrow> jsstr result" where
  "decodeURIComponent [] = Inr []"
| "decodeURIComponent (c # s) =
     (if c \<noteq> 37 then emit [c] (decodeURIComponent s)
      else case octet (c # s) of
        None \<Rightarrow> Inl URIError
      | Some b \<Rightarrow>
          if octet_count b = 0 then Inl URIError
          else (case octets (octet_count b) (c # s) of
                  None \<Rightarrow> Inl URIError
                | Some bs \<Rightarrow>
                    (case utf8_char bs of
                       None \<Rightarrow> Inl URIError
                     | Some t \<Rightarrow> emit t (decodeURIComponent (drop (3 * octet_count b - 1) s)))))"

section \<open>Laws\<close>

lemma hexVal_digit [simp]: "d < 16 \<Longrightarrow> hexVal (hex_digit d) = Some d"
  by (simp add: hex_digit_def hexVal_def)

lemma octet_pct [simp]: "b < 256 \<Longrightarrow> octet (pct b @ s) = Some b"
  by (simp add: pct_def div_less_iff_less_mult)

lemma length_pct [simp]: "length (pct b) = 3"
  by (simp add: pct_def)

lemma octets_pct: "is_bytes bs \<Longrightarrow> octets (length bs) (concat (map pct bs) @ s) = Some bs"
  by (induction bs) simp_all

lemma octet_count_lead:
  assumes "c < 0x110000"
  shows "octet_count (hd (utf8_bytes c)) = length (utf8_bytes c)" "utf8_bytes c \<noteq> []"
  using assms by (cases c rule: utf8_bytes_cases; auto simp: octet_count_def)+

lemma utf8_char_code_point:
  assumes "c < 0x110000" "\<not> is_surrogate c"
  shows "utf8_char (utf8_bytes c) = Some (ucs2encode [c])"
proof -
  have "utf8DecodeBytes True (utf8_bytes c) = Inr (ucs2encode [c])"
    using utf8Decode_code_point [OF assms(1), of True "[]"] by (simp add: emit_def del: ucs2encode.simps(2))
  then show ?thesis using assms(2) by (auto simp: utf8_char_def Let_def from_char_code_def)
qed

lemma length_concat_pct [simp]: "length (concat (map pct bs)) = 3 * length bs"
  by (induction bs) simp_all

lemma decodeURI_step:
  assumes "octet t = Some b" "octets (octet_count b) t = Some bs" "octet_count b \<noteq> 0" "utf8_char bs = Some u"
  shows "decodeURIComponent t = emit u (decodeURIComponent (drop (3 * octet_count b) t))"
proof (cases t)
  case (Cons c s)
  then have "c = 37" using assms(1) by (cases t rule: octet.cases) (auto split: if_splits)
  then show ?thesis using assms by (simp add: Cons drop_Cons')
qed (use assms in simp)

text \<open>A percent-encoded character in front is decoded and nothing else.\<close>

lemma decodeURI_pct:
  assumes "c < 0x110000" "\<not> is_surrogate c"
  shows "decodeURIComponent (concat (map pct (utf8_bytes c)) @ s) = emit (ucs2encode [c]) (decodeURIComponent s)"
proof -
  obtain l cs where l: "utf8_bytes c = l # cs" using octet_count_lead(2) [OF assms(1)] by (cases "utf8_bytes c") auto
  have b: "is_bytes (l # cs)" using utf8_bytes_is_bytes [OF assms(1)] l by simp
  have n: "octet_count l = length (l # cs)" using octet_count_lead(1) [OF assms(1)] l by simp
  define t where "t = concat (map pct (l # cs)) @ s"
  have "octet t = Some l" "octets (octet_count l) t = Some (l # cs)"
    using octets_pct [OF b, of s] b unfolding n by (simp_all add: t_def pct_def [of l] div_less_iff_less_mult)
  moreover have "octet_count l \<noteq> 0" using n by simp
  moreover have "utf8_char (l # cs) = Some (ucs2encode [c])" using utf8_char_code_point [OF assms] l by simp
  ultimately have "decodeURIComponent t = emit (ucs2encode [c]) (decodeURIComponent (drop (3 * octet_count l) t))"
    by (rule decodeURI_step)
  moreover have "drop (3 * octet_count l) t = s"
    unfolding t_def n by (metis append_eq_conv_conj length_concat_pct)
  ultimately show ?thesis by (simp only: t_def l)
qed

text \<open>
  Encoders that give every character either as itself or percent-encoded, never \<open>%\<close> as itself;
  \<open>sub\<close> is the form of a space where it has one of its own.
\<close>

lemma decodeURI_plain: "c \<noteq> 37 \<Longrightarrow> decodeURIComponent (c # s) = emit [c] (decodeURIComponent s)"
  by simp

lemma decodeURI_encoded:
  assumes "\<forall>c \<in> set cps. c < 0x110000 \<and> \<not> is_surrogate c"
    and "\<And>c. c \<in> set cps \<Longrightarrow> f c = concat (map pct (utf8_bytes c)) \<or> (f c = [c] \<and> c \<noteq> 37 \<and> c < 0x10000)"
  shows "decodeURIComponent (concat (map f cps)) = Inr (ucs2encode cps)"
  using assms
proof (induction cps)
  case (Cons c cps)
  then have IH: "decodeURIComponent (concat (map f cps)) = Inr (ucs2encode cps)" by simp
  have "decodeURIComponent (f c @ t) = emit (ucs2encode [c]) (decodeURIComponent t)" for t
    using Cons.prems(1) Cons.prems(2) [of c] decodeURI_pct [of c t] by (auto simp: from_char_code_def)
  then show ?case using IH ucs2encode_append [of "[c]" cps] by (simp add: emit_def del: ucs2encode.simps(2))
qed simp

lemma well_formed_code_points:
  "well_formed s \<Longrightarrow> \<forall>c \<in> set (ucs2decode s). c < 0x110000 \<and> \<not> is_surrogate c"
  by (auto simp: well_formed_def dest: ucs2decode_bound)

lemma uri_component_roundtrip:
  assumes "encodeURIComponent s = Inr e" "is_jsstr s"
  shows "decodeURIComponent e = Inr s"
proof -
  have wf: "well_formed s" and e: "e = concat (map (\<lambda>c. if uri_unreserved c then [c] else concat (map pct (utf8_bytes c)))
      (ucs2decode s))"
    using assms by (auto simp: encodeURIComponent_def well_formed_def split: if_splits)
  have "decodeURIComponent e = Inr (ucs2encode (ucs2decode s))"
    unfolding e using well_formed_code_points [OF wf]
    by (intro decodeURI_encoded) (auto simp: uri_unreserved_def)
  then show ?thesis using ucs2_roundtrip [OF assms(2)] by simp
qed

lemma join_split_replace: "join_with [b] (split1 a s) = map (\<lambda>x. if x = a then b else x) s"
proof (induction s)
  case (Cons x s)
  obtain p ps where "split1 a s = p # ps" by (cases "split1 a s") auto
  with Cons show ?case by (auto simp: join_with_Cons split: if_splits)
qed simp

lemma hex_digit_range: "d < 16 \<Longrightarrow> (48 \<le> hex_digit d \<and> hex_digit d \<le> 57) \<or> (65 \<le> hex_digit d \<and> hex_digit d \<le> 70)"
  by (auto simp: hex_digit_def)

lemma pct_units: "b < 256 \<Longrightarrow> x \<in> set (pct b) \<Longrightarrow> x = 37 \<or> (48 \<le> x \<and> x \<le> 57) \<or> (65 \<le> x \<and> x \<le> 70)"
  using hex_digit_range [of "b div 16"] hex_digit_range [of "b mod 16"]
  by (auto simp: pct_def div_less_iff_less_mult)

lemma pcts_units:
  assumes "c < 0x110000" "x \<in> set (concat (map pct (utf8_bytes c)))"
  shows "x = 37 \<or> (48 \<le> x \<and> x \<le> 57) \<or> (65 \<le> x \<and> x \<le> 70)"
  using assms utf8_bytes_is_bytes [OF assms(1)] pct_units by (auto simp: is_bytes_def)

lemma index_of_str_single: "index_of_str [c] s = index_of c s"
  by (induction s) auto

end
