(* ===== verification/UrlParams.thy ===== *)
theory UrlParams
  imports Uri "HOL-Library.List_Lexorder" "HOL-Library.Multiset"
begin

text \<open>
  The class \<open>URLSearchParams\<close> of \<open>url.js\<close>. The list of name-value pairs is the field \<open>_list\<close>;
  \<open>sp_owner\<close> is the \<open>_search\<close> of the URL the object is linked to, if there is one. A method that
  changes the list may still throw afterwards, in \<open>_updateUrl\<close>: it returns the new object together
  with its outcome. Arguments are the strings that \<open>String(...)\<close> makes of them.
\<close>

section \<open>Encoding and decoding of one component\<close>

definition sp_safe :: "nat \<Rightarrow> bool" where
  "sp_safe c \<longleftrightarrow>
     (48 \<le> c \<and> c \<le> 57) \<or> (65 \<le> c \<and> c \<le> 90) \<or> (97 \<le> c \<and> c \<le> 122) \<or>
     c = 42 \<or> c = 45 \<or> c = 46 \<or> c = 95"

text \<open>\<open>_sp_encode\<close>: every code unit goes to \<open>encodeURIComponent\<close> on its own.\<close>

fun sp_encode :: "jsstr \<Rightarrow> jsstr result" where
  "sp_encode [] = Inr []"
| "sp_encode (c # s) =
     (if sp_safe c then emit [c] (sp_encode s)
      else if c = 32 then emit [43] (sp_encode s)
      else bind_result (encodeURIComponent [c]) (\<lambda>e. emit e (sp_encode s)))"

definition sp_decode :: "jsstr \<Rightarrow> jsstr" where
  "sp_decode s = (case decodeURIComponent (join_with [32] (split1 43 s)) of Inr t \<Rightarrow> t | Inl _ \<Rightarrow> s)"

section \<open>The object\<close>

type_synonym params = "(jsstr \<times> jsstr) list"

record search_params =
  sp_list :: params
  sp_owner :: "jsstr option"

definition parse_pair :: "jsstr \<Rightarrow> jsstr \<times> jsstr" where
  "parse_pair pair =
     (case index_of 61 pair of
        None \<Rightarrow> (sp_decode pair, [])
      | Some eqIdx \<Rightarrow> (sp_decode (take eqIdx pair), sp_decode (drop (eqIdx + 1) pair)))"

definition parseString :: "jsstr \<Rightarrow> params" where
  "parseString str =
     (let s = (case str of c # r \<Rightarrow> if c = 63 then r else str | [] \<Rightarrow> str)
      in if s = [] then [] else map parse_pair (filter (\<lambda>p. 0 < length p) (split1 38 s)))"

text \<open>
  The constructor's argument: nothing, a string, an array (an element that is not an array is
  \<open>None\<close>), or an object with its properties in the order of \<open>Object.keys\<close>.
\<close>

datatype params_init = NoInit | StrInit jsstr | ArrInit "jsstr list option list" | ObjInit params

fun params_of_array :: "jsstr list option list \<Rightarrow> params result" where
  "params_of_array [] = Inr []"
| "params_of_array (None # ps) = Inl (TypeError ''Each query pair must be an iterable [name, value]'')"
| "params_of_array (Some pair # ps) =
     (case pair of
        k # v # _ \<Rightarrow> bind_result (params_of_array ps) (\<lambda>l. Inr ((k, v) # l))
      | _ \<Rightarrow> Inl (TypeError ''Each query pair must be an iterable [name, value]''))"

fun sp_construct :: "params_init \<Rightarrow> params result" where
  "sp_construct NoInit = Inr []"
| "sp_construct (StrInit s) = Inr (parseString s)"
| "sp_construct (ArrInit ps) = params_of_array ps"
| "sp_construct (ObjInit kvs) = Inr kvs"

text \<open>\<open>toString\<close>, which throws when a component cannot be encoded.\<close>

fun sp_parts :: "params \<Rightarrow> jsstr list result" where
  "sp_parts [] = Inr []"
| "sp_parts ((k, v) # l) =
     bind_result (sp_encode k) (\<lambda>ek. bind_result (sp_encode v) (\<lambda>ev.
       bind_result (sp_parts l) (\<lambda>ps. Inr ((ek @ [61] @ ev) # ps))))"

definition sp_toString :: "params \<Rightarrow> jsstr result" where
  "sp_toString l = bind_result (sp_parts l) (\<lambda>ps. Inr (join_with [38] ps))"

definition updateUrl :: "search_params \<Rightarrow> search_params \<times> unit result" where
  "updateUrl sp =
     (case sp_owner sp of
        None \<Rightarrow> (sp, Inr ())
      | Some _ \<Rightarrow>
          (case sp_toString (sp_list sp) of
             Inl e \<Rightarrow> (sp, Inl e)
           | Inr s \<Rightarrow> (sp\<lparr>sp_owner := Some (if 0 < length s then 63 # s else [])\<rparr>, Inr ())))"

section \<open>The methods\<close>

definition append_pair :: "params \<Rightarrow> jsstr \<Rightarrow> jsstr \<Rightarrow> params" where
  "append_pair l name val = l @ [(name, val)]"

definition sp_append :: "search_params \<Rightarrow> jsstr \<Rightarrow> jsstr \<Rightarrow> search_params \<times> unit result" where
  "sp_append sp name val = updateUrl (sp\<lparr>sp_list := append_pair (sp_list sp) name val\<rparr>)"

fun delete_loop :: "jsstr \<Rightarrow> jsstr option \<Rightarrow> params \<Rightarrow> params" where
  "delete_loop name val [] = []"
| "delete_loop name val (e # l) =
     (if fst e = name then
        (case val of
           Some v \<Rightarrow> if snd e \<noteq> v then e # delete_loop name val l else delete_loop name val l
         | None \<Rightarrow> delete_loop name val l)
      else e # delete_loop name val l)"

definition sp_delete :: "search_params \<Rightarrow> jsstr \<Rightarrow> jsstr option \<Rightarrow> search_params \<times> unit result" where
  "sp_delete sp name val = updateUrl (sp\<lparr>sp_list := delete_loop name val (sp_list sp)\<rparr>)"

fun sp_get :: "params \<Rightarrow> jsstr \<Rightarrow> jsstr option" where
  "sp_get [] name = None"
| "sp_get ((k, v) # l) name = (if k = name then Some v else sp_get l name)"

fun sp_getAll :: "params \<Rightarrow> jsstr \<Rightarrow> jsstr list" where
  "sp_getAll [] name = []"
| "sp_getAll ((k, v) # l) name = (if k = name then v # sp_getAll l name else sp_getAll l name)"

fun sp_has :: "params \<Rightarrow> jsstr \<Rightarrow> jsstr option \<Rightarrow> bool" where
  "sp_has [] name val = False"
| "sp_has ((k, v) # l) name val =
     (if k = name then (case val of None \<Rightarrow> True | Some w \<Rightarrow> if v = w then True else sp_has l name val)
      else sp_has l name val)"

fun set_loop :: "jsstr \<Rightarrow> jsstr \<Rightarrow> bool \<Rightarrow> params \<Rightarrow> params" where
  "set_loop name val found [] = (if \<not> found then [(name, val)] else [])"
| "set_loop name val found (e # l) =
     (if fst e = name then
        (if \<not> found then (name, val) # set_loop name val True l else set_loop name val found l)
      else e # set_loop name val found l)"

definition sp_set :: "search_params \<Rightarrow> jsstr \<Rightarrow> jsstr \<Rightarrow> search_params \<times> unit result" where
  "sp_set sp name val = updateUrl (sp\<lparr>sp_list := set_loop name val False (sp_list sp)\<rparr>)"

text \<open>The two loops of \<open>sort\<close>; names are compared by their code units.\<close>

definition swap_at :: "'a list \<Rightarrow> nat \<Rightarrow> nat \<Rightarrow> 'a list" where
  "swap_at l i j = l[i := l ! j, j := l ! i]"

function sort_inner :: "nat \<Rightarrow> nat \<Rightarrow> params \<Rightarrow> params" where
  "sort_inner i j l =
     (if j < length l
      then sort_inner i (j + 1) (if fst (l ! j) < fst (l ! i) then swap_at l i j else l)
      else l)"
  by pat_completeness auto
termination
  by (relation "measure (\<lambda>(i, j, l). length l - j)") (auto simp: swap_at_def)

declare sort_inner.simps [simp del]

lemma length_sort_inner [simp]: "length (sort_inner i j l) = length l"
  by (induction i j l rule: sort_inner.induct) (subst sort_inner.simps, simp add: swap_at_def)

function sort_outer :: "nat \<Rightarrow> params \<Rightarrow> params" where
  "sort_outer i l = (if i < length l then sort_outer (i + 1) (sort_inner i (i + 1) l) else l)"
  by pat_completeness auto
termination
  by (relation "measure (\<lambda>(i, l). length l - i)") auto

declare sort_outer.simps [simp del]

definition sp_sort :: "search_params \<Rightarrow> search_params \<times> unit result" where
  "sp_sort sp = updateUrl (sp\<lparr>sp_list := sort_outer 0 (sp_list sp)\<rparr>)"

text \<open>
  \<open>next\<close> of the three iterators: the list is the one captured when the iterator was made; the result is
  the new index and the value, \<open>None\<close> when done.
\<close>

definition iter_next :: "(jsstr \<times> jsstr \<Rightarrow> 'a) \<Rightarrow> params \<Rightarrow> nat \<Rightarrow> nat \<times> 'a option" where
  "iter_next part list idx =
     (if length list \<le> idx then (idx, None) else (idx + 1, Some (part (list ! idx))))"

definition entries_next :: "params \<Rightarrow> nat \<Rightarrow> nat \<times> (jsstr \<times> jsstr) option" where
  "entries_next = iter_next (\<lambda>e. e)"

definition keys_next :: "params \<Rightarrow> nat \<Rightarrow> nat \<times> jsstr option" where
  "keys_next = iter_next fst"

definition values_next :: "params \<Rightarrow> nat \<Rightarrow> nat \<times> jsstr option" where
  "values_next = iter_next snd"

text \<open>
  \<open>forEach\<close>: the callback gets the value and the name, and may change the object it is called on, so the
  loop may not end (\<open>None\<close>). Its other state is \<open>'s\<close>.
\<close>

partial_function (option) sp_forEach ::
    "('s \<Rightarrow> params \<Rightarrow> jsstr \<Rightarrow> jsstr \<Rightarrow> 's \<times> params) \<Rightarrow> nat \<Rightarrow> 's \<Rightarrow> params \<Rightarrow> ('s \<times> params) option" where
  "sp_forEach callback i s l =
     (if i < length l
      then let (s', l') = callback s l (snd (l ! i)) (fst (l ! i)) in sp_forEach callback (i + 1) s' l'
      else Some (s, l))"

section \<open>Sorting\<close>

lemma swap_at_nth:
  "i < length l \<Longrightarrow> j < length l \<Longrightarrow> i \<noteq> j \<Longrightarrow>
   swap_at l i j ! k = (if k = i then l ! j else if k = j then l ! i else l ! k)"
  by (cases "k < length l") (simp_all add: swap_at_def nth_list_update)

lemma length_swap_at [simp]: "length (swap_at l i j) = length l"
  by (simp add: swap_at_def)

text \<open>The element at \<open>i\<close> is at most those from \<open>i\<close> to \<open>j\<close>.\<close>

definition min_at :: "nat \<Rightarrow> nat \<Rightarrow> params \<Rightarrow> bool" where
  "min_at i j l \<longleftrightarrow> (\<forall>k. i < k \<longrightarrow> k < j \<longrightarrow> fst (l ! i) \<le> fst (l ! k))"

lemma sort_inner_min:
  "i < j \<Longrightarrow> i < length l \<Longrightarrow> min_at i j l \<Longrightarrow>
   min_at i (length l) (sort_inner i j l) \<and> take i (sort_inner i j l) = take i l \<and>
   mset (sort_inner i j l) = mset l"
proof (induction i j l rule: sort_inner.induct)
  case (1 i j l)
  show ?case
  proof (cases "j < length l")
    case False
    then show ?thesis using 1(4) by (auto simp: sort_inner.simps [of i j l] min_at_def)
  next
    case True
    define m where "m = (if fst (l ! j) < fst (l ! i) then swap_at l i j else l)"
    have "min_at i (j + 1) m"
      unfolding min_at_def
    proof (intro allI impI)
      fix k
      assume k: "i < k" "k < j + 1"
      then have "k < j \<Longrightarrow> fst (l ! i) \<le> fst (l ! k)" using 1(4) by (simp add: min_at_def)
      then show "fst (m ! i) \<le> fst (m ! k)"
      proof (cases "fst (l ! j) < fst (l ! i)")
        case less: True
        have "k < j \<Longrightarrow> fst (l ! j) \<le> fst (l ! k)"
          using \<open>k < j \<Longrightarrow> fst (l ! i) \<le> fst (l ! k)\<close> less_imp_le [OF less] by (meson order.trans)
        then show ?thesis
          using k 1(2,3) True less less_imp_le [OF less] by (cases "k = j") (simp_all add: m_def swap_at_nth)
      next
        case False
        then have "fst (l ! i) \<le> fst (l ! j)" by (rule leI)
        then show ?thesis
          using k False \<open>k < j \<Longrightarrow> fst (l ! i) \<le> fst (l ! k)\<close> by (cases "k = j") (simp_all add: m_def)
      qed
    qed
    moreover have "take i m = take i l" "mset m = mset l" "length m = length l"
      using 1(2,3) True by (simp_all add: m_def swap_at_def mset_swap)
    moreover have "sort_inner i j l = sort_inner i (j + 1) m"
      using True by (simp add: sort_inner.simps [of i j l] m_def)
    moreover note 1(1) [OF True, folded m_def]
    ultimately show ?thesis using 1(2,3) by (metis less_SucI Suc_eq_plus1)
  qed
qed

text \<open>The first \<open>i\<close> elements are in order and at most all later ones.\<close>

definition sorted_to :: "nat \<Rightarrow> params \<Rightarrow> bool" where
  "sorted_to i l \<longleftrightarrow> (\<forall>a b. a < i \<longrightarrow> a < b \<longrightarrow> b < length l \<longrightarrow> fst (l ! a) \<le> fst (l ! b))"

lemma sorted_to_inner:
  assumes "sorted_to i l" "i < length l"
  shows "sorted_to (i + 1) (sort_inner i (i + 1) l)"
proof -
  define m where "m = sort_inner i (i + 1) l"
  have m: "min_at i (length l) m" "take i m = take i l" "mset m = mset l" "length m = length l"
    using sort_inner_min [of i "i + 1" l] assms(2) by (simp_all add: m_def min_at_def)
  have "mset (drop i m) = mset (drop i l)"
    using m(2,3) by (metis add_left_cancel append_take_drop_id mset_append)
  then have rest: "set (drop i m) = set (drop i l)" by (metis set_mset_mset)
  have "fst (m ! a) \<le> fst (m ! b)" if ab: "a < i + 1" "a < b" "b < length m" for a b
  proof (cases "a = i")
    case True
    then show ?thesis using m(1,4) ab by (simp add: min_at_def)
  next
    case False
    have same: "m ! k = l ! k" if "k < i" for k using nth_take [OF that, of m] nth_take [OF that, of l] m(2) by simp
    from False have "a < i" using ab by simp
    then have ai: "a < i" "m ! a = l ! a" using same by simp_all
    show ?thesis
    proof (cases "b < i")
      case True
      then have "m ! b = l ! b" using same by simp
      then show ?thesis using assms ai ab m(4) by (simp add: sorted_to_def)
    next
      case False
      then have "m ! b \<in> set (drop i m)" using ab by (auto simp: in_set_conv_nth intro!: exI [of _ "b - i"])
      then obtain n where "n < length (drop i l)" "drop i l ! n = m ! b"
        unfolding rest by (auto simp only: in_set_conv_nth)
      then obtain c where "i \<le> c" "c < length l" "m ! b = l ! c"
        by (intro that [of "i + n"]) auto
      then show ?thesis using assms(1) ai by (simp add: sorted_to_def)
    qed
  qed
  then show ?thesis by (simp add: sorted_to_def m_def)
qed

lemma sort_outer_sorted:
  "sorted_to i l \<Longrightarrow> sorted_to (length l) (sort_outer i l) \<and> mset (sort_outer i l) = mset l"
proof (induction i l rule: sort_outer.induct)
  case (1 i l)
  show ?case
  proof (cases "i < length l")
    case True
    have "mset (sort_inner i (i + 1) l) = mset l"
      using sort_inner_min [of i "i + 1" l] True by (simp add: min_at_def)
    then show ?thesis
      using 1(1) [OF True sorted_to_inner [OF 1(2) True]] True by (simp add: sort_outer.simps [of i l])
  next
    case False
    then show ?thesis using 1(2) by (auto simp: sort_outer.simps [of i l] sorted_to_def)
  qed
qed

section \<open>The laws of the list of pairs\<close>

text \<open>What the methods promise to a client that reads with \<open>getAll\<close>.\<close>

locale multimap =
  fixes all :: "'m \<Rightarrow> 'k \<Rightarrow> 'v list"
    and add :: "'m \<Rightarrow> 'k \<Rightarrow> 'v \<Rightarrow> 'm"
    and put :: "'m \<Rightarrow> 'k \<Rightarrow> 'v \<Rightarrow> 'm"
    and drop_key :: "'m \<Rightarrow> 'k \<Rightarrow> 'm"
  assumes all_add: "all (add m k v) k' = (if k' = k then all m k @ [v] else all m k')"
    and all_put: "all (put m k v) k' = (if k' = k then [v] else all m k')"
    and all_drop: "all (drop_key m k) k' = (if k' = k then [] else all m k')"
begin

lemma put_put: "all (put (put m k v) k w) = all (put m k w)"
  by (rule ext) (simp add: all_put)

lemma put_commute: "k \<noteq> k' \<Longrightarrow> all (put (put m k v) k' w) = all (put (put m k' w) k v)"
  by (rule ext) (simp add: all_put)

lemma drop_add: "all (add (drop_key m k) k v) = all (put m k v)"
  by (rule ext) (simp add: all_put all_add all_drop)

lemma drop_put: "all (drop_key (put m k v) k) = all (drop_key m k)"
  by (rule ext) (simp add: all_put all_drop)

end

lemma getAll_append: "sp_getAll (a @ b) k = sp_getAll a k @ sp_getAll b k"
  by (induction a k rule: sp_getAll.induct) auto

lemma getAll_delete: "sp_getAll (delete_loop k None l) k' = (if k' = k then [] else sp_getAll l k')"
  by (induction l k' rule: sp_getAll.induct) auto

lemma getAll_set_found: "sp_getAll (set_loop k v True l) k' = (if k' = k then [] else sp_getAll l k')"
  by (induction l k' rule: sp_getAll.induct) auto

lemma getAll_set: "sp_getAll (set_loop k v False l) k' = (if k' = k then [v] else sp_getAll l k')"
  by (induction l k' rule: sp_getAll.induct) (auto simp: getAll_set_found)

interpretation sp: multimap sp_getAll append_pair "\<lambda>l k v. set_loop k v False l" "\<lambda>l k. delete_loop k None l"
  by unfold_locales (simp_all add: append_pair_def getAll_append getAll_delete getAll_set)

lemma get_getAll: "sp_get l k = (case sp_getAll l k of [] \<Rightarrow> None | v # _ \<Rightarrow> Some v)"
  by (induction l k rule: sp_get.induct) auto

lemma has_getAll:
  "sp_has l k val = (case val of None \<Rightarrow> sp_getAll l k \<noteq> [] | Some v \<Rightarrow> v \<in> set (sp_getAll l k))"
  by (induction l k val rule: sp_has.induct) (auto split: option.splits)

lemma updateUrl_list [simp]: "sp_list (fst (updateUrl sp)) = sp_list sp"
  by (simp add: updateUrl_def split: option.split sum.split)

section \<open>Encoding\<close>

text \<open>One code unit as \<open>_sp_encode\<close> gives it.\<close>

definition sp_char :: "nat \<Rightarrow> jsstr" where
  "sp_char c = (if sp_safe c \<or> uri_unreserved c then [c] else if c = 32 then [43] else concat (map pct (utf8_bytes c)))"

lemma sp_encode_chars:
  assumes "is_jsstr s"
  shows "sp_encode s = (if \<exists>c \<in> set s. is_surrogate c then Inl URIError else Inr (concat (map sp_char s)))"
  using assms
proof (induction s)
  case (Cons c s)
  have one: "encodeURIComponent [c] =
      (if is_surrogate c then Inl URIError
       else Inr (if uri_unreserved c then [c] else concat (map pct (utf8_bytes c))))"
    by (simp add: encodeURIComponent_def)
  have step: "sp_encode (c # s) = (if is_surrogate c then Inl URIError else emit (sp_char c) (sp_encode s))"
  proof (cases "is_surrogate c")
    case True
    then have "\<not> sp_safe c" "c \<noteq> 32" by (auto simp: sp_safe_def is_surrogate_def)
    then show ?thesis using True by (simp add: one)
  next
    case False
    have "\<not> uri_unreserved 32" "\<not> sp_safe 32" by (simp_all add: sp_safe_def uri_unreserved_def)
    then show ?thesis using False by (cases "c = 32") (simp_all add: one sp_char_def)
  qed
  then show ?case using Cons by (auto simp: emit_def simp del: sp_encode.simps)
qed simp

lemma sp_char_units:
  assumes "c < 0x10000" "x \<in> set (sp_char c)"
  shows "x \<noteq> 38 \<and> x \<noteq> 61 \<and> x \<noteq> 63"
proof (cases "sp_safe c \<or> uri_unreserved c \<or> c = 32")
  case True
  then have "x = 43 \<or> (x = c \<and> (sp_safe c \<or> uri_unreserved c))"
    using assms(2) by (auto simp: sp_char_def split: if_splits)
  moreover have "\<not> sp_safe d \<and> \<not> uri_unreserved d" if "d \<in> {38, 61, 63}" for d
    using that by (auto simp: sp_safe_def uri_unreserved_def)
  ultimately show ?thesis by fastforce
next
  case False
  then have "x \<in> set (concat (map pct (utf8_bytes c)))" using assms(2) by (simp add: sp_char_def)
  then show ?thesis using pcts_units [of c x] assms(1) by (auto simp del: set_concat)
qed

lemma sp_encode_units:
  assumes "sp_encode s = Inr e" "is_jsstr s"
  shows "38 \<notin> set e" "61 \<notin> set e" "63 \<notin> set e"
proof -
  have "e = concat (map sp_char s)" using assms by (simp add: sp_encode_chars split: if_splits)
  then have "x \<noteq> 38 \<and> x \<noteq> 61 \<and> x \<noteq> 63" if "x \<in> set e" for x
    using that assms(2) sp_char_units by (auto simp: is_jsstr_def)
  then show "38 \<notin> set e" "61 \<notin> set e" "63 \<notin> set e" by blast+
qed

lemma ucs2decode_plain: "\<forall>c \<in> set s. \<not> is_surrogate c \<Longrightarrow> ucs2decode s = s"
  by (induction s rule: ucs2decode.induct) (auto simp: is_surrogate_def)

lemma sp_decode_encode:
  assumes "sp_encode s = Inr e" "is_jsstr s"
  shows "sp_decode e = s"
proof -
  have e: "e = concat (map sp_char s)" and plain: "\<forall>c \<in> set s. \<not> is_surrogate c"
    using assms by (auto simp: sp_encode_chars split: if_splits)
  define f where "f c = (if sp_safe c \<or> uri_unreserved c \<or> c = 32 then [c] else concat (map pct (utf8_bytes c)))" for c
  have units: "\<forall>c \<in> set s. c < 65536" using assms(2) by (simp add: is_jsstr_def)
  have "map (\<lambda>x. if x = 43 then 32 else x) (sp_char c) = f c" if "c \<in> set s" for c
  proof -
    have "c < 0x110000" using that units by auto
    then have "map (\<lambda>x. if x = 43 then 32 else x) (concat (map pct (utf8_bytes c))) = concat (map pct (utf8_bytes c))"
      using pcts_units [of c] by (intro map_idI) (fastforce simp del: set_concat)
    then show ?thesis by (auto simp: sp_char_def f_def sp_safe_def uri_unreserved_def)
  qed
  then have "map (\<lambda>x. if x = 43 then 32 else x) e = concat (map f s)"
    unfolding e map_concat by (simp cong: map_cong)
  moreover have "decodeURIComponent (concat (map f s)) = Inr (ucs2encode s)"
    using plain units by (intro decodeURI_encoded) (auto simp: f_def sp_safe_def uri_unreserved_def)
  moreover have "ucs2encode s = s"
    using ucs2_roundtrip [OF assms(2)] ucs2decode_plain [OF plain] by simp
  ultimately show ?thesis by (simp add: sp_decode_def join_split_replace)
qed

definition params_jsstr :: "params \<Rightarrow> bool" where
  "params_jsstr l \<longleftrightarrow> (\<forall>(k, v) \<in> set l. is_jsstr k \<and> is_jsstr v)"

lemma sp_parts_parse:
  "sp_parts l = Inr ps \<Longrightarrow> params_jsstr l \<Longrightarrow>
   map parse_pair ps = l \<and> (\<forall>p \<in> set ps. p \<noteq> [] \<and> 38 \<notin> set p \<and> 63 \<notin> set p)"
proof (induction l arbitrary: ps rule: sp_parts.induct)
  case (2 k v l)
  from 2(2) obtain ek ev qs where q: "sp_encode k = Inr ek" "sp_encode v = Inr ev" "sp_parts l = Inr qs"
    "ps = (ek @ [61] @ ev) # qs" by (auto simp: bind_result_Inr)
  have j: "is_jsstr k" "is_jsstr v" "params_jsstr l" using 2(3) by (auto simp: params_jsstr_def)
  have "parse_pair (ek @ [61] @ ev) = (k, v)"
    using sp_encode_units(2) [OF q(1) j(1)] sp_decode_encode q(1,2) j
    by (simp add: parse_pair_def index_of_append)
  moreover have "map parse_pair qs = l \<and> (\<forall>p \<in> set qs. p \<noteq> [] \<and> 38 \<notin> set p \<and> 63 \<notin> set p)"
    using 2(1) q j by simp
  ultimately show ?case using q sp_encode_units [OF q(1) j(1)] sp_encode_units [OF q(2) j(2)] by simp
qed simp

lemma sp_toString_units:
  assumes "sp_toString l = Inr s" "params_jsstr l"
  shows "63 \<notin> set s"
proof -
  obtain ps where ps: "sp_parts l = Inr ps" "s = join_with [38] ps"
    using assms(1) by (auto simp: sp_toString_def bind_result_Inr)
  then show ?thesis using sp_parts_parse [OF ps(1) assms(2)] set_join_with [of "[38]" ps] by auto
qed

lemma sp_string_roundtrip_parse:
  assumes "sp_toString l = Inr s" and "params_jsstr l"
  shows "parseString s = l"
proof -
  obtain ps where ps: "sp_parts l = Inr ps" "s = join_with [38] ps"
    using assms(1) by (auto simp: sp_toString_def bind_result_Inr)
  note p = sp_parts_parse [OF ps(1) assms(2)]
  show ?thesis
  proof (cases "ps = []")
    case True
    then show ?thesis using p ps by (simp add: parseString_def)
  next
    case False
    have "s \<noteq> []" using p False join_with_eq_Nil [of ps "[38]"] ps(2) by auto
    moreover have "63 \<notin> set s" using sp_toString_units [OF assms] .
    then have "(case s of c # r \<Rightarrow> if c = 63 then r else s | [] \<Rightarrow> s) = s" by (cases s) auto
    moreover have "split1 38 s = ps" unfolding ps(2) using p False by (intro split1_join) auto
    moreover have "filter (\<lambda>p. 0 < length p) ps = ps" using p by (intro filter_True) auto
    ultimately show ?thesis using p \<open>s \<noteq> []\<close> by (simp add: parseString_def)
  qed
qed

lemma sp_parts_throws:
  "params_jsstr l \<Longrightarrow>
   if \<exists>(k, v) \<in> set l. \<exists>c \<in> set (k @ v). is_surrogate c then sp_parts l = Inl URIError
   else (\<exists>ps. sp_parts l = Inr ps)"
proof (induction l rule: sp_parts.induct)
  case (2 k v l)
  then have j: "is_jsstr k" "is_jsstr v" "params_jsstr l" by (auto simp: params_jsstr_def)
  consider "\<exists>c \<in> set k. is_surrogate c" | "\<forall>c \<in> set k. \<not> is_surrogate c" "\<exists>c \<in> set v. is_surrogate c"
    | "\<forall>c \<in> set (k @ v). \<not> is_surrogate c" by auto
  then show ?case
  proof cases
    case 3
    then have "sp_encode k = Inr (concat (map sp_char k))" "sp_encode v = Inr (concat (map sp_char v))"
      using j by (auto simp: sp_encode_chars)
    then show ?thesis using 2(1) j(3) 3 by (auto split: if_splits)
  qed (auto simp: sp_encode_chars j)
qed simp

section \<open>Theorems\<close>

text \<open>whenever \<open>toString\<close> returns, constructing a new object from the result gives the same pairs in
  the same order; names and values may hold any separators, and may be empty.\<close>

theorem sp_string_roundtrip:
  assumes "sp_toString l = Inr s" and "params_jsstr l"
  shows "sp_construct (StrInit s) = Inr l"
  using sp_string_roundtrip_parse [OF assms] by simp

theorem sp_string_roundtrip_witness:
  "sp_construct (StrInit (js ''a+b=1%262&=%E2%82%AC'')) = Inr [(js ''a b'', js ''1&2''), ([], [0x20ac])]"
proof (rule sp_string_roundtrip)
  show "sp_toString [(js ''a b'', js ''1&2''), ([], [0x20ac])] = Inr (js ''a+b=1%262&=%E2%82%AC'')"
    by (simp add: sp_toString_def sp_safe_def encodeURIComponent_def uri_unreserved_def is_surrogate_def
        utf8_bytes_arith pct_def hex_digit_def emit_def)
qed (simp add: params_jsstr_def)

text \<open>the read methods see the changes of the write methods as in a map from names to lists of
  values: \<open>append\<close> adds at the end, \<open>set\<close> leaves one value, \<open>delete\<close> leaves none, and other names are
  untouched; this holds also when updating the URL throws.\<close>

theorem sp_getAll_changes:
  "sp_getAll (sp_list (fst (sp_append sp k v))) k' = sp_getAll (sp_list sp) k' @ (if k' = k then [v] else []) \<and>
   sp_getAll (sp_list (fst (sp_set sp k v))) k' = (if k' = k then [v] else sp_getAll (sp_list sp) k') \<and>
   sp_getAll (sp_list (fst (sp_delete sp k None))) k' = (if k' = k then [] else sp_getAll (sp_list sp) k') \<and>
   sp_get (sp_list sp) k' = (case sp_getAll (sp_list sp) k' of [] \<Rightarrow> None | v # _ \<Rightarrow> Some v) \<and>
   sp_has (sp_list sp) k' (Some v) = (v \<in> set (sp_getAll (sp_list sp) k'))"
  by (simp add: sp_append_def sp_set_def sp_delete_def sp.all_add sp.all_put sp.all_drop get_getAll has_getAll)

text \<open>\<open>sort\<close> orders the pairs by name and keeps each of them.\<close>

theorem sp_sort_sorted:
  "sorted (map fst (sp_list (fst (sp_sort sp)))) \<and> mset (sp_list (fst (sp_sort sp))) = mset (sp_list sp)"
proof -
  have "sorted_to 0 (sp_list sp)" by (simp add: sorted_to_def)
  then have *: "sorted_to (length (sp_list sp)) (sort_outer 0 (sp_list sp))"
    "mset (sort_outer 0 (sp_list sp)) = mset (sp_list sp)"
    using sort_outer_sorted by blast+
  then have "length (sort_outer 0 (sp_list sp)) = length (sp_list sp)" by (metis size_mset)
  with * have "sorted (map fst (sort_outer 0 (sp_list sp)))"
    by (simp add: sorted_iff_nth_mono_less sorted_to_def)
  with * show ?thesis by (simp add: sp_sort_def)
qed

text \<open>\<open>toString\<close> throws exactly when some name or value has a code unit from D800 to DFFF, also one of
  a proper pair. (Appending such a value to the parameters of a URL therefore throws, with the value
  already in the list.)\<close>

theorem sp_toString_throws:
  assumes "params_jsstr l"
  shows "if \<exists>(k, v) \<in> set l. \<exists>c \<in> set (k @ v). is_surrogate c then sp_toString l = Inl URIError
    else (\<exists>s. sp_toString l = Inr s)"
  using sp_parts_throws [OF assms] by (auto simp: sp_toString_def split: if_splits)

theorem sp_toString_throws_witness:
  "if \<exists>(k, v) \<in> set [([97], [0xd83d, 0xde00])]. \<exists>c \<in> set (k @ v). is_surrogate c
   then sp_toString [([97], [0xd83d, 0xde00])] = Inl URIError
   else (\<exists>s. sp_toString [([97], [0xd83d, 0xde00])] = Inr s)"
  by (rule sp_toString_throws) (simp add: params_jsstr_def)

text \<open>Facts behind the findings: pairs of equal names can change their order, and a proper surrogate pair
  cannot be printed.\<close>

lemma sp_sort_unstable:
  "sort_outer 0 [([98], [49]), ([98], [50]), ([97], [51])] = [([97], [51]), ([98], [50]), ([98], [49])]"
  by (simp add: sort_outer.simps sort_inner.simps swap_at_def)

lemma sp_toString_pair: "sp_toString [([97], [0xd83d, 0xde00])] = Inl URIError"
  by (simp add: sp_toString_def sp_safe_def encodeURIComponent_def is_surrogate_def emit_def uri_unreserved_def)

end
