(* ===== verification/Querystring.thy ===== *)
theory Querystring
  imports Uri "HOL-Library.AList"
begin

text \<open>
  \<open>querystring.js\<close>. A query object is the list of its own properties in the order in which they were
  added. The names that every object inherits are a parameter \<open>proto\<close>: the source starts from
  \<open>{}\<close> and reads \<open>obj[key]\<close>, which finds inherited properties too. The name \<open>__proto__\<close>, whose
  assignment changes the prototype, is outside the model.
\<close>

section \<open>Escaping\<close>

definition hexTable :: "nat \<Rightarrow> jsstr" where
  "hexTable c = pct c"

definition qs_unreserved :: "nat \<Rightarrow> bool" where
  "qs_unreserved c \<longleftrightarrow>
     (48 \<le> c \<and> c \<le> 57) \<or> (65 \<le> c \<and> c \<le> 90) \<or> (97 \<le> c \<and> c \<le> 122) \<or>
     c = 45 \<or> c = 95 \<or> c = 46 \<or> c = 126 \<or> c = 33 \<or> c = 42 \<or> c = 39 \<or> c = 40 \<or> c = 41"

fun qs_escape :: "jsstr \<Rightarrow> jsstr" where
  "qs_escape [] = []"
| "qs_escape (c # s) =
     (if qs_unreserved c then c # qs_escape s
      else if c = 32 then 43 # qs_escape s
      else if c < 128 then hexTable c @ qs_escape s
      else if c < 2048 then hexTable (192 OR drop_bit 6 c) @ hexTable (128 OR (c AND 63)) @ qs_escape s
      else if c < 55296 \<or> 57344 \<le> c then
        hexTable (224 OR drop_bit 12 c) @ hexTable (128 OR (drop_bit 6 c AND 63)) @
        hexTable (128 OR (c AND 63)) @ qs_escape s
      else (case s of
          [] \<Rightarrow> []
        | c2 # s' \<Rightarrow>
            (let cp = (push_bit 10 (c AND 1023) OR (c2 AND 1023)) + 65536
             in hexTable (240 OR drop_bit 18 cp) @ hexTable (128 OR (drop_bit 12 cp AND 63)) @
                hexTable (128 OR (drop_bit 6 cp AND 63)) @ hexTable (128 OR (cp AND 63)) @ qs_escape s')))"

text \<open>\<open>unescape\<close>: the argument itself when decoding throws.\<close>

definition qs_unescape :: "jsstr \<Rightarrow> jsstr" where
  "qs_unescape s =
     (case decodeURIComponent (join_with [32] (split1 43 s)) of Inr t \<Rightarrow> t | Inl _ \<Rightarrow> s)"

section \<open>parse\<close>

datatype qval = QStr jsstr | QArr "qval list" | QInherited jsstr

type_synonym qobj = "(jsstr \<times> qval) list"

text \<open>\<open>str.split(separator)\<close> for a string; the empty separator splits into the code units.\<close>

function split_str :: "jsstr \<Rightarrow> jsstr \<Rightarrow> jsstr list" where
  "split_str sep s =
     (if sep = [] then map (\<lambda>c. [c]) s
      else case index_of_str sep s of
        None \<Rightarrow> [s]
      | Some i \<Rightarrow> take i s # split_str sep (drop (i + length sep) s))"
  by pat_completeness auto
termination
  by (relation "measure (\<lambda>(sep, s). length s)") (auto dest!: index_of_str_Some simp flip: length_greater_0_conv)

declare split_str.simps [simp del]

text \<open>The two assignments of the loop body: \<open>obj[key]\<close> is looked up with the inherited names.\<close>

definition qs_lookup :: "jsstr list \<Rightarrow> qobj \<Rightarrow> jsstr \<Rightarrow> qval option" where
  "qs_lookup proto obj key =
     (case map_of obj key of
        Some v \<Rightarrow> Some v
      | None \<Rightarrow> if key \<in> set proto then Some (QInherited key) else None)"

definition qs_put :: "jsstr list \<Rightarrow> qobj \<Rightarrow> jsstr \<Rightarrow> jsstr \<Rightarrow> qobj" where
  "qs_put proto obj key val =
     (case qs_lookup proto obj key of
        None \<Rightarrow> AList.update key (QStr val) obj
      | Some (QArr vs) \<Rightarrow> AList.update key (QArr (vs @ [QStr val])) obj
      | Some v \<Rightarrow> AList.update key (QArr [v, QStr val]) obj)"

definition qs_pair :: "jsstr \<Rightarrow> jsstr \<Rightarrow> jsstr \<times> jsstr" where
  "qs_pair equals pair =
     (case index_of_str equals pair of
        None \<Rightarrow> (qs_unescape pair, [])
      | Some eqIdx \<Rightarrow> (qs_unescape (take eqIdx pair), qs_unescape (drop (eqIdx + length equals) pair)))"

fun qs_loop :: "jsstr list \<Rightarrow> jsstr \<Rightarrow> int \<Rightarrow> int \<Rightarrow> jsstr list \<Rightarrow> qobj \<Rightarrow> qobj" where
  "qs_loop proto equals maxKeys count [] obj = obj"
| "qs_loop proto equals maxKeys count (pair # pairs) obj =
     (if 0 < maxKeys \<and> maxKeys \<le> count then obj
      else if pair = [] then qs_loop proto equals maxKeys count pairs obj
      else
        (let (key, val) = qs_pair equals pair
         in qs_loop proto equals maxKeys (count + 1) pairs (qs_put proto obj key val)))"

definition AMP :: jsstr where "AMP = [38]"
definition EQUALS :: jsstr where "EQUALS = [61]"

text \<open>\<open>parse\<close>; a separator or \<open>options.maxKeys\<close> that is not given is \<open>None\<close>.\<close>

definition qs_parse :: "jsstr list \<Rightarrow> jsstr \<Rightarrow> jsstr option \<Rightarrow> jsstr option \<Rightarrow> int option \<Rightarrow> qobj" where
  "qs_parse proto str sep eq maxKeys =
     (if str = [] then []
      else
        let separator = (case sep of None \<Rightarrow> AMP | Some t \<Rightarrow> t);
            equals = (case eq of None \<Rightarrow> EQUALS | Some t \<Rightarrow> t);
            m = (case maxKeys of None \<Rightarrow> 1000 | Some k \<Rightarrow> k);
            m' = (if m = 0 then - 1 else m)
        in qs_loop proto equals m' 0 (split_str separator str) [])"

section \<open>stringify\<close>

text \<open>
  The object to print: its properties in the order of \<open>Object.keys\<close>, with each value as \<open>stringify\<close>
  sees it. \<open>SMissing\<close> is \<open>undefined\<close> or \<open>null\<close>; the elements of an array and the other values are given by
  \<open>String(v)\<close>.
\<close>

datatype sval = SMissing | SOne jsstr | SArr "jsstr list"

fun qs_parts :: "(jsstr \<Rightarrow> jsstr) \<Rightarrow> jsstr \<Rightarrow> jsstr \<times> sval \<Rightarrow> jsstr list" where
  "qs_parts encodeFn equals (key, SMissing) = [encodeFn key @ equals @ encodeFn []]"
| "qs_parts encodeFn equals (key, SOne v) = [encodeFn key @ equals @ encodeFn v]"
| "qs_parts encodeFn equals (key, SArr vs) = map (\<lambda>v. encodeFn key @ equals @ encodeFn v) vs"

definition qs_stringify ::
    "(jsstr \<times> sval) list \<Rightarrow> jsstr option \<Rightarrow> jsstr option \<Rightarrow> (jsstr \<Rightarrow> jsstr) option \<Rightarrow> jsstr" where
  "qs_stringify obj sep eq encode =
     (let separator = (case sep of None \<Rightarrow> AMP | Some t \<Rightarrow> t);
          equals = (case eq of None \<Rightarrow> EQUALS | Some t \<Rightarrow> t);
          encodeFn = (case encode of None \<Rightarrow> qs_escape | Some f \<Rightarrow> f)
      in join_with separator (concat (map (qs_parts encodeFn equals) obj)))"

section \<open>Escaping and unescaping\<close>

definition esc_char :: "nat \<Rightarrow> jsstr" where
  "esc_char c =
     (if qs_unreserved c then [c] else if c = 32 then [43] else concat (map pct (utf8_bytes c)))"

lemma well_formed_Cons:
  assumes "well_formed (c # s)"
  shows "\<not> is_surrogate c \<and> ucs2decode (c # s) = c # ucs2decode s \<and> well_formed s \<or>
    (\<exists>lo t. s = lo # t \<and> 0xd800 \<le> c \<and> c \<le> 0xdbff \<and> 0xdc00 \<le> lo \<and> lo \<le> 0xdfff \<and> well_formed t \<and>
       ucs2decode (c # s) = (0x10000 + push_bit 10 (c - 0xd800) + (lo - 0xdc00)) # ucs2decode t)"
proof (cases s)
  case Nil
  then show ?thesis using assms by (simp add: well_formed_def)
next
  case (Cons lo t)
  show ?thesis
  proof (cases "(0xd800 \<le> c \<and> c \<le> 0xdbff) \<and> 0xdc00 \<le> lo \<and> lo \<le> 0xdfff")
    case True
    then show ?thesis using assms unfolding Cons well_formed_def
      by (intro disjI2 exI [of _ lo] exI [of _ t]) simp
  next
    case False
    then have "ucs2decode (c # s) = c # ucs2decode s" using Cons by auto
    then show ?thesis using assms by (simp add: well_formed_def)
  qed
qed

lemma pair_code_point:
  assumes "0xd800 \<le> c" "c \<le> 0xdbff" "0xdc00 \<le> lo" "lo \<le> (0xdfff::nat)"
  shows "(push_bit 10 (c AND 1023) OR (lo AND 1023)) + 65536 = 0x10000 + push_bit 10 (c - 0xd800) + (lo - 0xdc00)"
proof -
  define x where "x = c - 0xd800"
  define y where "y = lo - 0xdc00"
  have xy: "c = 54 * 1024 + x" "lo = 55 * 1024 + y" "x < 1024" "y < 2 ^ 10"
    using assms unfolding x_def y_def by (linarith, linarith, linarith, simp)
  then have "c mod 1024 = x" "lo mod 1024 = y"
    using div_mod_mult_add(2) [of x 1024 54] div_mod_mult_add(2) [of y 1024 55] by simp_all
  with xy(4) have "push_bit 10 (c AND 1023) OR (lo AND 1023) = push_bit 10 x + y"
    using or_disjoint [of y 10 x] by (simp only: bits_arith)
  then show ?thesis unfolding x_def y_def by simp
qed

lemma esc_char_arith:
  assumes "c < 0x110000"
  shows "esc_char c = (if qs_unreserved c then [c] else if c = 32 then [43] else if c < 128 then hexTable c
     else if c < 2048 then hexTable (192 OR drop_bit 6 c) @ hexTable (128 OR (c AND 63))
     else if c < 65536 then hexTable (224 OR drop_bit 12 c) @ hexTable (128 OR (drop_bit 6 c AND 63)) @
        hexTable (128 OR (c AND 63))
     else hexTable (240 OR drop_bit 18 c) @ hexTable (128 OR (drop_bit 12 c AND 63)) @
        hexTable (128 OR (drop_bit 6 c AND 63)) @ hexTable (128 OR (c AND 63)))"
  using assms by (simp add: esc_char_def hexTable_def utf8_bytes_def)

lemma qs_escape_chars:
  "well_formed s \<Longrightarrow> qs_escape s = concat (map esc_char (ucs2decode s))"
proof (induction s rule: length_induct)
  case (1 s)
  show ?case
  proof (cases s)
    case (Cons c r)
    have c: "c < 65536" using 1(2) Cons by (simp add: well_formed_def)
    from well_formed_Cons [of c r] 1(2) Cons consider
      "\<not> is_surrogate c" "ucs2decode (c # r) = c # ucs2decode r" "well_formed r"
      | lo t where "r = lo # t" "0xd800 \<le> c" "c \<le> 0xdbff" "0xdc00 \<le> lo" "lo \<le> 0xdfff" "well_formed t"
          "ucs2decode (c # r) = (0x10000 + push_bit 10 (c - 0xd800) + (lo - 0xdc00)) # ucs2decode t" by blast
    then show ?thesis
    proof cases
      case 1
      then have "qs_escape r = concat (map esc_char (ucs2decode r))" using "1.IH" Cons by simp
      then show ?thesis
        using 1 c by (auto simp: Cons esc_char_arith is_surrogate_def)
    next
      case 2
      define cp where "cp = 0x10000 + push_bit 10 (c - 0xd800) + (lo - 0xdc00)"
      have cp: "(push_bit 10 (c AND 1023) OR (lo AND 1023)) + 65536 = cp" "cp < 0x110000" "65536 \<le> cp"
        using pair_code_point [OF 2(2-5)] 2(2-5) by (simp_all add: cp_def bits_arith)
      have "qs_escape t = concat (map esc_char (ucs2decode t))" using "1.IH" Cons 2 by simp
      moreover have "\<not> qs_unreserved cp" "\<not> qs_unreserved c" "cp \<noteq> 32"
        using cp(3) 2(2) by (auto simp: qs_unreserved_def)
      ultimately show ?thesis
        using 2 cp by (simp add: Cons esc_char_arith Let_def cp_def [symmetric])
    qed
  qed simp
qed

lemma esc_char_units:
  assumes "c < 0x110000" "x \<in> set (esc_char c)"
  shows "x \<noteq> 38 \<and> x \<noteq> 61"
  using assms pcts_units [OF assms(1), of x] by (auto simp: esc_char_def qs_unreserved_def split: if_splits)

lemma qs_escape_units:
  assumes "well_formed s"
  shows "38 \<notin> set (qs_escape s)" "61 \<notin> set (qs_escape s)"
  using esc_char_units well_formed_code_points [OF assms] by (auto simp: qs_escape_chars [OF assms])

lemma unplus_esc_char:
  assumes "c < 0x110000"
  shows "map (\<lambda>x. if x = 43 then 32 else x) (esc_char c)
    = (if qs_unreserved c \<or> c = 32 then [c] else concat (map pct (utf8_bytes c)))"
proof -
  have "map (\<lambda>x. if x = 43 then 32 else x) (concat (map pct (utf8_bytes c))) = concat (map pct (utf8_bytes c))"
    using pcts_units [OF assms] by (intro map_idI) (fastforce simp del: set_concat)
  then show ?thesis by (auto simp: esc_char_def qs_unreserved_def)
qed

lemma qs_unescape_escape:
  assumes "well_formed s"
  shows "qs_unescape (qs_escape s) = s"
proof -
  define f where "f c = (if qs_unreserved c \<or> c = 32 then [c] else concat (map pct (utf8_bytes c)))" for c
  have "map (\<lambda>x. if x = 43 then 32 else x) (qs_escape s) = concat (map f (ucs2decode s))"
    using well_formed_code_points [OF assms] unplus_esc_char
    by (auto simp: qs_escape_chars [OF assms] map_concat f_def intro!: arg_cong [of _ _ concat])
  moreover have "decodeURIComponent (concat (map f (ucs2decode s))) = Inr (ucs2encode (ucs2decode s))"
    using well_formed_code_points [OF assms] by (intro decodeURI_encoded) (auto simp: f_def qs_unreserved_def)
  ultimately show ?thesis
    using assms by (simp add: qs_unescape_def join_split_replace ucs2_roundtrip well_formed_def)
qed

section \<open>Splitting\<close>

lemma split_str_single: "split_str [c] s = split1 c s"
proof (induction s rule: length_induct)
  case (1 s)
  show ?case
  proof (cases "index_of c s")
    case None
    then show ?thesis by (simp add: split_str.simps [of "[c]" s] index_of_str_single)
  next
    case (Some i)
    then have i: "i < length s" "s ! i = c" "c \<notin> set (take i s)" by (simp_all add: index_of_Some)
    then have "s = take i s @ c # drop (Suc i) s" by (metis id_take_nth_drop)
    then have "split1 c s = take i s # split1 c (drop (Suc i) s)"
      using split1_append_sep [of c "take i s" "drop (Suc i) s"] split1_single [OF i(3)] by simp
    moreover have "split_str [c] (drop (Suc i) s) = split1 c (drop (Suc i) s)"
      using 1 i(1) by simp
    ultimately show ?thesis using Some by (simp add: split_str.simps [of "[c]" s] index_of_str_single)
  qed
qed

lemma qs_pair_escape:
  assumes "well_formed k" "well_formed v"
  shows "qs_pair EQUALS (qs_escape k @ EQUALS @ qs_escape v) = (k, v)"
  using assms qs_escape_units(2) [OF assms(1)]
  by (simp add: qs_pair_def EQUALS_def index_of_str_single index_of_append qs_unescape_escape)

section \<open>Putting pairs into the object\<close>

text \<open>The loop without its bound is a fold over the decoded pairs.\<close>

lemma qs_loop_fold:
  assumes "\<And>p. p \<in> set pairs \<Longrightarrow> p \<noteq> []" "maxKeys \<le> 0 \<or> count + int (length pairs) \<le> maxKeys"
  shows "qs_loop proto equals maxKeys count pairs obj
    = foldl (\<lambda>obj (k, v). qs_put proto obj k v) obj (map (qs_pair equals) pairs)"
  using assms
proof (induction pairs arbitrary: count obj)
  case (Cons p pairs)
  then show ?case by (auto split: prod.split)
qed simp

lemma update_new: "k \<notin> fst ` set al \<Longrightarrow> AList.update k v al = al @ [(k, v)]"
  by (induction al) auto

lemma update_last: "k \<notin> fst ` set al \<Longrightarrow> AList.update k v (al @ [(k, w)]) = al @ [(k, v)]"
  by (induction al) auto

lemma map_of_last: "k \<notin> fst ` set al \<Longrightarrow> map_of (al @ [(k, w)]) k = Some w"
  by (induction al) auto

lemma qs_put_last:
  assumes "k \<notin> fst ` set obj"
  shows "qs_put proto (obj @ [(k, QArr ws)]) k v = obj @ [(k, QArr (ws @ [QStr v]))]"
    and "qs_put proto (obj @ [(k, QStr w)]) k v = obj @ [(k, QArr [QStr w, QStr v])]"
    and "k \<notin> set proto \<Longrightarrow> qs_put proto obj k v = obj @ [(k, QStr v)]"
proof -
  show "qs_put proto (obj @ [(k, QArr ws)]) k v = obj @ [(k, QArr (ws @ [QStr v]))]"
    "qs_put proto (obj @ [(k, QStr w)]) k v = obj @ [(k, QArr [QStr w, QStr v])]"
    unfolding qs_put_def qs_lookup_def map_of_last [OF assms] by (simp_all add: update_last [OF assms])
  have "map_of obj k = None" using assms by (simp add: map_of_eq_None_iff)
  then show "k \<notin> set proto \<Longrightarrow> qs_put proto obj k v = obj @ [(k, QStr v)]"
    by (simp add: qs_put_def qs_lookup_def update_new [OF assms])
qed

fun parsed_value :: "sval \<Rightarrow> qval" where
  "parsed_value SMissing = QStr []"
| "parsed_value (SOne v) = QStr v"
| "parsed_value (SArr vs) = QArr (map QStr vs)"

fun sval_strings :: "sval \<Rightarrow> jsstr list" where
  "sval_strings SMissing = [[]]"
| "sval_strings (SOne v) = [v]"
| "sval_strings (SArr vs) = vs"

definition put_all :: "jsstr list \<Rightarrow> qobj \<Rightarrow> (jsstr \<times> jsstr) list \<Rightarrow> qobj" where
  "put_all proto = foldl (\<lambda>obj (k, v). qs_put proto obj k v)"

lemma put_all_array:
  "k \<notin> fst ` set obj \<Longrightarrow>
   put_all proto (obj @ [(k, QArr ws)]) (map (Pair k) vs) = obj @ [(k, QArr (ws @ map QStr vs))]"
  by (induction vs arbitrary: ws) (simp_all add: put_all_def qs_put_last)

lemma put_all_value:
  assumes "k \<notin> fst ` set obj" "k \<notin> set proto" "\<And>vs. v = SArr vs \<Longrightarrow> 2 \<le> length vs"
  shows "put_all proto obj (map (Pair k) (sval_strings v)) = obj @ [(k, parsed_value v)]"
proof (cases v)
  case (SArr vs)
  then obtain a b ws where vs: "vs = a # b # ws"
    using assms(3) [of vs] by (cases vs; cases "tl vs") auto
  then show ?thesis
    using put_all_array [OF assms(1), of proto "[QStr a, QStr b]" ws] SArr qs_put_last [OF assms(1)] assms(2)
    by (simp add: put_all_def)
qed (simp_all add: put_all_def qs_put_last [OF assms(1)] assms(2))

lemma put_all_append: "put_all proto obj (a @ b) = put_all proto (put_all proto obj a) b"
  by (simp add: put_all_def)

lemma put_all_object:
  assumes "distinct (map fst obj0 @ map fst kvs)" "\<And>k v. (k, v) \<in> set kvs \<Longrightarrow> k \<notin> set proto"
    "\<And>k vs. (k, SArr vs) \<in> set kvs \<Longrightarrow> 2 \<le> length vs"
  shows "put_all proto obj0 (concat (map (\<lambda>(k, v). map (Pair k) (sval_strings v)) kvs))
    = obj0 @ map (\<lambda>(k, v). (k, parsed_value v)) kvs"
  using assms
proof (induction kvs arbitrary: obj0)
  case Nil
  then show ?case by (simp add: put_all_def)
next
  case (Cons kv kvs)
  obtain k v where kv: "kv = (k, v)" by fastforce
  have "k \<notin> fst ` set obj0" using Cons.prems(1) kv by auto
  then have "put_all proto obj0 (map (Pair k) (sval_strings v)) = obj0 @ [(k, parsed_value v)]"
  proof (rule put_all_value)
    show "2 \<le> length vs" if "v = SArr vs" for vs using Cons.prems(3) that kv by (metis list.set_intros(1))
  qed (use Cons.prems kv in auto)
  moreover have "put_all proto (obj0 @ [(k, parsed_value v)])
      (concat (map (\<lambda>(k, v). map (Pair k) (sval_strings v)) kvs))
    = (obj0 @ [(k, parsed_value v)]) @ map (\<lambda>(k, v). (k, parsed_value v)) kvs"
    using Cons.prems kv by (intro Cons.IH) auto
  ultimately show ?case using kv by (simp add: put_all_append)
qed

lemma qs_parts_strings:
  "qs_parts f equals (k, v) = map (\<lambda>x. f k @ equals @ f x) (sval_strings v)"
  by (cases v) simp_all

section \<open>Theorems\<close>

text \<open>C36: \<open>parse\<close> undoes \<open>stringify\<close>: an object with distinct keys that the empty object does not inherit,
  whose strings have no unpaired surrogate, whose arrays have two elements or more, and which has at most
  1000 pairs in all, is read back property by property, in order.\<close>

theorem qs_parse_stringify:
  assumes "distinct (map fst kvs)" and "\<And>k v. (k, v) \<in> set kvs \<Longrightarrow> k \<notin> set proto \<and> well_formed k"
    and "\<And>k v x. (k, v) \<in> set kvs \<Longrightarrow> x \<in> set (sval_strings v) \<Longrightarrow> well_formed x"
    and "\<And>k vs. (k, SArr vs) \<in> set kvs \<Longrightarrow> 2 \<le> length vs"
    and "sum_list (map (\<lambda>(k, v). length (sval_strings v)) kvs) \<le> 1000"
  shows "qs_parse proto (qs_stringify kvs None None None) None None None
    = map (\<lambda>(k, v). (k, parsed_value v)) kvs"
proof (cases "kvs = []")
  case True
  then show ?thesis by (simp add: qs_stringify_def qs_parse_def)
next
  case False
  define pairs where "pairs = concat (map (\<lambda>(k, v). map (Pair k) (sval_strings v)) kvs)"
  define parts where "parts = map (\<lambda>(k, x). qs_escape k @ EQUALS @ qs_escape x) pairs"
  have str: "qs_stringify kvs None None None = join_with AMP parts"
    by (auto simp: qs_stringify_def parts_def pairs_def map_concat qs_parts_strings case_prod_beta comp_def
        intro!: arg_cong [of _ _ "join_with AMP"] arg_cong [of _ _ concat])
  have wf: "well_formed k \<and> well_formed x" if "(k, x) \<in> set pairs" for k x
    using that assms(2,3) by (fastforce simp: pairs_def)
  have "pairs \<noteq> []"
  proof -
    obtain k v where kv: "(k, v) \<in> set kvs" using False by (cases kvs) auto
    then have "sval_strings v \<noteq> []" by (cases v) (auto dest: assms(4))
    then show ?thesis using kv by (auto simp: pairs_def intro!: bexI [of _ "(k, v)"])
  qed
  then have parts: "parts \<noteq> []" "\<And>p. p \<in> set parts \<Longrightarrow> p \<noteq> [] \<and> 38 \<notin> set p"
    using qs_escape_units(1) wf by (auto simp: parts_def EQUALS_def)
  then have split: "split_str AMP (join_with AMP parts) = parts" "join_with AMP parts \<noteq> []"
    unfolding AMP_def split_str_single using join_with_eq_Nil [of parts "[38]"] by (auto intro!: split1_join)
  have "length parts = sum_list (map (\<lambda>(k, v). length (sval_strings v)) kvs)"
    by (auto simp: parts_def pairs_def length_concat comp_def split_def)
  then have "int (length parts) \<le> 1000" using assms(5) by simp
  moreover have "map (qs_pair EQUALS) parts = pairs"
    unfolding parts_def map_map by (rule map_idI) (auto simp: qs_pair_escape dest: wf)
  ultimately have "qs_loop proto EQUALS 1000 0 parts [] = put_all proto [] pairs"
    using qs_loop_fold [of parts 1000 0 proto EQUALS "[]"] parts by (simp add: put_all_def)
  also have "\<dots> = map (\<lambda>(k, v). (k, parsed_value v)) kvs"
    unfolding pairs_def using put_all_object [of "[]" kvs proto] assms by auto
  finally show ?thesis using split by (simp add: qs_parse_def str)
qed

theorem qs_parse_stringify_witness:
  "qs_parse [js ''toString''] (qs_stringify [(js ''a b'', SArr [js ''1&2'', [0x20ac]]), (js ''x'', SMissing)] None None None)
      None None None
    = [(js ''a b'', QArr [QStr (js ''1&2''), QStr [0x20ac]]), (js ''x'', QStr [])]"
  using qs_parse_stringify [of "[(js ''a b'', SArr [js ''1&2'', [0x20ac]]), (js ''x'', SMissing)]" "[js ''toString'']"]
  by (fastforce simp: well_formed_def is_surrogate_def)

lemma qs_put_keys:
  "distinct (map fst obj) \<Longrightarrow> distinct (map fst (qs_put proto obj k v))"
  "length (qs_put proto obj k v) \<le> length obj + 1"
proof -
  have len: "length (AList.update k w obj) \<le> length obj + 1" for w
    by (induction obj) auto
  show "distinct (map fst obj) \<Longrightarrow> distinct (map fst (qs_put proto obj k v))"
    by (auto simp: qs_put_def distinct_update split: option.split qval.split)
  show "length (qs_put proto obj k v) \<le> length obj + 1"
    using len by (auto simp: qs_put_def split: option.split qval.split)
qed

lemma qs_loop_distinct:
  "distinct (map fst obj) \<Longrightarrow> distinct (map fst (qs_loop proto equals maxKeys count pairs obj))"
proof (induction pairs arbitrary: count obj)
  case (Cons p pairs)
  obtain k v where "qs_pair equals p = (k, v)" by fastforce
  then show ?case using Cons.IH Cons.prems qs_put_keys(1) [OF Cons.prems, of proto k v] by simp
qed simp

lemma qs_loop_bound:
  "0 < maxKeys \<Longrightarrow> int (length obj) \<le> count \<Longrightarrow> count \<le> maxKeys \<Longrightarrow>
   int (length (qs_loop proto equals maxKeys count pairs obj)) \<le> maxKeys"
proof (induction pairs arbitrary: count obj)
  case (Cons p pairs)
  obtain k v where "qs_pair equals p = (k, v)" by fastforce
  then show ?case
    using Cons.IH [of "qs_put proto obj k v" "count + 1"] Cons.IH [of obj count] Cons.prems
      qs_put_keys(2) [of proto obj k v] by simp
qed simp

text \<open>\<open>parse\<close> never makes more properties than \<open>maxKeys\<close> allows (1000 when it is not given, no bound when
  it is 0 or negative), whatever the input and the separators, and their names are distinct.\<close>

theorem qs_parse_bounded:
  "distinct (map fst (qs_parse proto str sep eq maxKeys)) \<and>
   (let m = (case maxKeys of None \<Rightarrow> 1000 | Some k \<Rightarrow> k)
    in m \<le> 0 \<or> int (length (qs_parse proto str sep eq maxKeys)) \<le> m)"
proof -
  have "0 < m \<Longrightarrow> int (length (qs_loop proto e m 0 ps [])) \<le> m" for m e ps
    using qs_loop_bound [of m "[]" 0] by simp
  from this [of 1000] this [of "the maxKeys"]
  show ?thesis
    using qs_loop_distinct [of "[]"] by (cases maxKeys) (auto simp: qs_parse_def Let_def not_le [symmetric])
qed

text \<open>Facts behind the findings: a high surrogate swallows whatever follows it, a surrogate at the end
  vanishes, and a name that objects inherit gets an inherited value into its array.\<close>

lemma qs_escape_swallows: "qs_escape [0xd800, 0x61] = qs_escape [0xd800, 0xdc61]"
  by (simp add: bits_arith qs_unreserved_def)

lemma qs_escape_drops: "qs_escape [0xd800] = []"
  by (simp add: qs_unreserved_def)

lemma qs_parse_inherited:
  "qs_parse [js ''toString''] (js ''toString=1'') None None None
    = [(js ''toString'', QArr [QInherited (js ''toString''), QStr (js ''1'')])]"
  by (simp add: qs_parse_def split_str.simps AMP_def EQUALS_def qs_pair_def qs_unescape_def qs_put_def qs_lookup_def
      emit_def)

end
