(* ===== verification/Url.thy ===== *)
theory Url
  imports UrlParams Querystring
begin

text \<open>
  The rest of \<open>url.js\<close>: the class \<open>URL\<close>, relative resolution, the legacy functions and the file paths.
  A URL object is a record of its fields; \<open>u_params\<close> is the list of the linked \<open>URLSearchParams\<close>. A
  method that throws after it changed fields returns the changed record with the error.
\<close>

section \<open>Tables and the protocol check\<close>

definition HTTP :: jsstr where "HTTP = js ''http:''"
definition HTTPS :: jsstr where "HTTPS = js ''https:''"
definition FTP :: jsstr where "FTP = js ''ftp:''"
definition WS :: jsstr where "WS = js ''ws:''"
definition WSS :: jsstr where "WSS = js ''wss:''"
definition FILE :: jsstr where "FILE = js ''file:''"

lemmas protocol_defs = HTTP_def HTTPS_def FTP_def WS_def WSS_def FILE_def

definition defaultPort :: "jsstr \<Rightarrow> jsstr option" where
  "defaultPort p =
     (if p = HTTP \<or> p = WS then Some (js ''80'') else if p = HTTPS \<or> p = WSS then Some (js ''443'')
      else if p = FTP then Some (js ''21'') else None)"

definition slashProtocol :: "jsstr \<Rightarrow> bool" where
  "slashProtocol p \<longleftrightarrow> p \<in> {HTTP, HTTPS, FTP, WS, WSS, FILE}"

definition isValidProtocol :: "jsstr \<Rightarrow> bool" where
  "isValidProtocol proto \<longleftrightarrow>
     \<not> length proto < 2 \<and> ((65 \<le> hd proto \<and> hd proto \<le> 90) \<or> (97 \<le> hd proto \<and> hd proto \<le> 122))"

section \<open>Parsing\<close>

record url =
  u_protocol :: jsstr
  u_username :: jsstr
  u_password :: jsstr
  u_hostname :: jsstr
  u_port :: jsstr
  u_pathname :: jsstr
  u_search :: jsstr
  u_hash :: jsstr
  u_params :: params

definition SLASH :: jsstr where "SLASH = [47]"

definition empty_url :: url where
  "empty_url = \<lparr>u_protocol = [], u_username = [], u_password = [], u_hostname = [], u_port = [],
     u_pathname = SLASH, u_search = [], u_hash = [], u_params = []\<rparr>"

text \<open>The parts of \<open>_parse\<close>: userinfo, host and port, and the authority around them.\<close>

definition parse_userinfo :: "url \<Rightarrow> jsstr \<Rightarrow> url" where
  "parse_userinfo u userinfo =
     (case index_of 58 userinfo of
        Some i \<Rightarrow> u\<lparr>u_username := take i userinfo, u_password := drop (i + 1) userinfo\<rparr>
      | None \<Rightarrow> u\<lparr>u_username := userinfo\<rparr>)"

definition parse_hostport :: "url \<Rightarrow> jsstr \<Rightarrow> url" where
  "parse_hostport u authority =
     (if authority \<noteq> [] \<and> hd authority = 91 then
        (case index_of 93 authority of
           Some b \<Rightarrow>
             (let u1 = u\<lparr>u_hostname := take (b + 1) authority\<rparr>; after = drop (b + 1) authority
              in if after \<noteq> [] \<and> hd after = 58 then u1\<lparr>u_port := drop 1 after\<rparr> else u1)
         | None \<Rightarrow> u\<lparr>u_hostname := authority\<rparr>)
      else
        (case last_index_of 58 authority of
           Some h \<Rightarrow> u\<lparr>u_hostname := to_lower (take h authority), u_port := drop (h + 1) authority\<rparr>
         | None \<Rightarrow> u\<lparr>u_hostname := to_lower authority\<rparr>))"

definition suppress_port :: "url \<Rightarrow> url" where
  "suppress_port u =
     (if u_port u \<noteq> [] \<and> defaultPort (u_protocol u) = Some (u_port u) then u\<lparr>u_port := []\<rparr> else u)"

definition parse_authority :: "url \<Rightarrow> jsstr \<Rightarrow> url" where
  "parse_authority u authority =
     suppress_port
       (case last_index_of 64 authority of
          Some i \<Rightarrow> parse_hostport (parse_userinfo u (take i authority)) (drop (i + 1) authority)
        | None \<Rightarrow> parse_hostport u authority)"

definition take_protocol :: "url \<Rightarrow> jsstr \<Rightarrow> url \<times> jsstr" where
  "take_protocol u rest =
     (case index_of 58 rest of
        Some i \<Rightarrow>
          if 0 < i \<and> isValidProtocol (to_lower (take (i + 1) rest))
          then (u\<lparr>u_protocol := to_lower (take (i + 1) rest)\<rparr>, drop (i + 1) rest)
          else (u, rest)
      | None \<Rightarrow> (u, rest))"

text \<open>\<open>_parse\<close>: fields the input does not mention keep their values.\<close>

definition parse_url :: "url \<Rightarrow> jsstr \<Rightarrow> url \<times> unit result" where
  "parse_url u input =
     (let (u1, r1) = (case index_of 35 input of
                        Some i \<Rightarrow> (u\<lparr>u_hash := drop i input\<rparr>, take i input) | None \<Rightarrow> (u, input));
          (u2, r2) = (case index_of 63 r1 of
                        Some i \<Rightarrow> (u1\<lparr>u_search := drop i r1\<rparr>, take i r1) | None \<Rightarrow> (u1, r1));
          (u3, r3) = take_protocol u2 r2
      in if u_protocol u3 = [] then (u3, Inl (TypeError ''Invalid URL''))
         else
           let (u4, r4) =
                 (if 2 \<le> length r3 \<and> take 2 r3 = [47, 47] then
                    (let r = drop 2 r3
                     in case index_of 47 r of
                          Some i \<Rightarrow> (parse_authority u3 (take i r), drop i r)
                        | None \<Rightarrow> (parse_authority u3 r, []))
                  else (u3, r3))
           in (u4\<lparr>u_pathname := if r4 \<noteq> [] then r4 else if slashProtocol (u_protocol u4) then SLASH else r4\<rparr>,
               Inr ()))"

definition get_host :: "url \<Rightarrow> jsstr" where
  "get_host u = (if u_port u \<noteq> [] then u_hostname u @ [58] @ u_port u else u_hostname u)"

definition get_origin :: "url \<Rightarrow> jsstr" where
  "get_origin u =
     (if slashProtocol (u_protocol u) then u_protocol u @ [47, 47] @ get_host u else js ''null'')"

definition serialize :: "url \<Rightarrow> jsstr" where
  "serialize u =
     u_protocol u @
     (if slashProtocol (u_protocol u) then
        [47, 47] @
        (if u_username u \<noteq> [] \<or> u_password u \<noteq> []
         then u_username u @ (if u_password u \<noteq> [] then [58] @ u_password u else []) @ [64] else []) @
        u_hostname u @
        (if u_port u \<noteq> [] then [58] @ u_port u else [])
      else []) @
     u_pathname u @ u_search u @ u_hash u"

section \<open>The legacy functions\<close>

text \<open>\<open>None\<close> is \<open>null\<close>. A parsed query is a string or an object.\<close>

datatype lquery = LText jsstr | LObj qobj

record legacy_url =
  l_protocol :: "jsstr option"
  l_slashes :: bool
  l_auth :: "jsstr option"
  l_host :: "jsstr option"
  l_port :: "jsstr option"
  l_hostname :: "jsstr option"
  l_hash :: "jsstr option"
  l_search :: "jsstr option"
  l_query :: "lquery option"
  l_pathname :: "jsstr option"
  l_path :: "jsstr option"
  l_href :: jsstr

text \<open>\<open>x || ""\<close> on a field that is a string or \<open>null\<close>, and the test that it is truthy.\<close>

definition or_empty :: "jsstr option \<Rightarrow> jsstr" where
  "or_empty x = (case x of None \<Rightarrow> [] | Some s \<Rightarrow> s)"

definition truthy :: "jsstr option \<Rightarrow> bool" where
  "truthy x \<longleftrightarrow> or_empty x \<noteq> []"

text \<open>A query object for \<open>stringify\<close>; \<open>shown\<close> is \<open>String(...)\<close> of an inherited property.\<close>

fun element_string :: "(jsstr \<Rightarrow> jsstr) \<Rightarrow> qval \<Rightarrow> jsstr" where
  "element_string shown (QStr s) = s"
| "element_string shown (QInherited k) = shown k"
| "element_string shown (QArr vs) = join_with [44] (map (element_string shown) vs)"

fun query_value :: "(jsstr \<Rightarrow> jsstr) \<Rightarrow> qval \<Rightarrow> sval" where
  "query_value shown (QArr vs) = SArr (map (element_string shown) vs)"
| "query_value shown v = SOne (element_string shown v)"

definition format_query :: "(jsstr \<Rightarrow> jsstr) \<Rightarrow> legacy_url \<Rightarrow> jsstr" where
  "format_query shown u =
     (if truthy (l_search u) then or_empty (l_search u)
      else case l_query u of
        None \<Rightarrow> []
      | Some (LText q) \<Rightarrow> if q = [] then [] else [63] @ q
      | Some (LObj q) \<Rightarrow>
          (let qStr = qs_stringify (map (\<lambda>(k, v). (k, query_value shown v)) q) None None None
           in if 0 < length qStr then [63] @ qStr else []))"

definition legacyFormat :: "(jsstr \<Rightarrow> jsstr) \<Rightarrow> legacy_url \<Rightarrow> jsstr" where
  "legacyFormat shown u =
     (let protocol = or_empty (l_protocol u)
      in protocol @
         (if l_slashes u \<or> (protocol \<noteq> [] \<and> slashProtocol protocol) then [47, 47] else []) @
         (if truthy (l_auth u) then or_empty (l_auth u) @ [64] else []) @
         (if truthy (l_host u) then or_empty (l_host u)
          else (if truthy (l_hostname u) then or_empty (l_hostname u) else []) @
               (if truthy (l_port u) then [58] @ or_empty (l_port u) else [])) @
         or_empty (l_pathname u) @ format_query shown u @ or_empty (l_hash u))"

definition legacy_hostport :: "legacy_url \<Rightarrow> jsstr \<Rightarrow> legacy_url" where
  "legacy_hostport u authority =
     (let u1 =
        (if authority \<noteq> [] \<and> hd authority = 91 then
           (case index_of 93 authority of
              Some b \<Rightarrow>
                (let u1 = u\<lparr>l_hostname := Some (take (b + 1) authority)\<rparr>; after = drop (b + 1) authority
                 in if after \<noteq> [] \<and> hd after = 58 then u1\<lparr>l_port := Some (drop 1 after)\<rparr> else u1)
            | None \<Rightarrow> u\<lparr>l_hostname := Some authority\<rparr>)
         else
           (case last_index_of 58 authority of
              Some h \<Rightarrow>
                u\<lparr>l_hostname := Some (to_lower (take h authority)),
                  l_port := (if drop (h + 1) authority = [] then None else Some (drop (h + 1) authority))\<rparr>
            | None \<Rightarrow> u\<lparr>l_hostname := Some (to_lower authority)\<rparr>))
      in case l_hostname u1 of
           None \<Rightarrow> u1
         | Some h \<Rightarrow>
             u1\<lparr>l_host := Some (case l_port u1 of Some p \<Rightarrow> h @ [58] @ p | None \<Rightarrow> h)\<rparr>)"

text \<open>Step 4 of \<open>_legacyParse\<close>: slashes, authority and host; the result is also the rest.\<close>

definition legacy_authority :: "bool \<Rightarrow> legacy_url \<Rightarrow> jsstr \<Rightarrow> legacy_url \<times> jsstr" where
  "legacy_authority slashesDenoteHost u rest =
     (if 2 \<le> length rest \<and> take 2 rest = [47, 47] then
        (let r = drop 2 rest;
             (authority, r') = (case index_of 47 r of Some i \<Rightarrow> (take i r, drop i r) | None \<Rightarrow> (r, []));
             u1 = u\<lparr>l_slashes := True\<rparr>
         in case last_index_of 64 authority of
              Some i \<Rightarrow> (legacy_hostport (u1\<lparr>l_auth := Some (take i authority)\<rparr>) (drop (i + 1) authority), r')
            | None \<Rightarrow> (legacy_hostport u1 authority, r'))
      else if slashesDenoteHost \<and> 0 < length rest \<and> hd rest \<noteq> 47 then
        (let (authority, r') = (case index_of 47 rest of Some i \<Rightarrow> (take i rest, drop i rest) | None \<Rightarrow> (rest, []))
         in (u\<lparr>l_hostname := Some (to_lower authority), l_host := Some (to_lower authority)\<rparr>, r'))
      else (u, rest))"

definition legacyParse ::
    "(jsstr \<Rightarrow> jsstr) \<Rightarrow> jsstr list \<Rightarrow> jsstr \<Rightarrow> bool \<Rightarrow> bool \<Rightarrow> legacy_url" where
  "legacyParse shown proto urlString parseQueryString slashesDenoteHost =
     (let u0 = \<lparr>l_protocol = None, l_slashes = False, l_auth = None, l_host = None, l_port = None,
                 l_hostname = None, l_hash = None, l_search = None, l_query = None, l_pathname = None,
                 l_path = None, l_href = urlString\<rparr>;
          r0 = trim urlString;
          (u1, r1) = (case index_of 35 r0 of
                        Some i \<Rightarrow> (u0\<lparr>l_hash := Some (drop i r0)\<rparr>, take i r0) | None \<Rightarrow> (u0, r0));
          (u2, r2) = (case index_of 63 r1 of
                        Some i \<Rightarrow>
                          (u1\<lparr>l_search := Some (drop i r1),
                              l_query := Some (if parseQueryString
                                then LObj (qs_parse proto (drop (i + 1) r1) None None None)
                                else LText (drop (i + 1) r1))\<rparr>, take i r1)
                      | None \<Rightarrow>
                          (if parseQueryString then u1\<lparr>l_query := Some (LObj []), l_search := Some []\<rparr> else u1, r1));
          (u3, r3) = (case index_of 58 r2 of
                        Some i \<Rightarrow>
                          if 0 < i \<and> isValidProtocol (to_lower (take (i + 1) r2))
                          then (u2\<lparr>l_protocol := Some (to_lower (take (i + 1) r2))\<rparr>, drop (i + 1) r2)
                          else (u2, r2)
                      | None \<Rightarrow> (u2, r2));
          (u4, r4) = legacy_authority slashesDenoteHost u3 r3;
          u5 = (if 0 < length r4 then u4\<lparr>l_pathname := Some r4\<rparr>
                else if l_slashes u4 then u4\<lparr>l_pathname := Some SLASH\<rparr> else u4);
          u6 = (case l_pathname u5 of
                  Some p \<Rightarrow> u5\<lparr>l_path := Some (p @ or_empty (l_search u5))\<rparr> | None \<Rightarrow> u5)
      in u6\<lparr>l_href := legacyFormat shown u6\<rparr>)"

section \<open>Relative resolution\<close>

text \<open>\<open>_normalizePath\<close>: one step of its loop on the list \<open>out\<close>.\<close>

definition path_step :: "jsstr list \<Rightarrow> jsstr \<Rightarrow> jsstr list" where
  "path_step out seg =
     (if seg = [46] then out
      else if seg = [46, 46] then (if 1 < length out then butlast out else out)
      else out @ [seg])"

definition normalizePath :: "jsstr \<Rightarrow> jsstr" where
  "normalizePath path =
     (let result = join_with SLASH (foldl path_step [] (split1 47 path))
      in if result = [] \<or> hd result \<noteq> 47 then SLASH @ result else result)"

definition looks_absolute :: "jsstr \<Rightarrow> bool" where
  "looks_absolute relative =
     (case index_of 58 relative of
        Some i \<Rightarrow>
          0 < i \<and> isValidProtocol (to_lower (take (i + 1) relative)) \<and>
          ((i + 2 < length relative \<and> relative ! (i + 1) = 47 \<and> relative ! (i + 2) = 47) \<or> i \<noteq> 1)
      | None \<Rightarrow> False)"

text \<open>The branch of \<open>_resolveUrl\<close> for a relative that is a query or a fragment.\<close>

definition resolve_suffix :: "jsstr \<Rightarrow> jsstr \<Rightarrow> jsstr" where
  "resolve_suffix bHref relative =
     (let cutIdx = (if hd relative = 63 then
                      (case index_of 63 bHref of Some q \<Rightarrow> Some q | None \<Rightarrow> index_of 35 bHref)
                    else index_of 35 bHref)
      in case cutIdx of Some c \<Rightarrow> take c bHref @ relative | None \<Rightarrow> bHref @ relative)"

definition resolveUrl :: "(jsstr \<Rightarrow> jsstr) \<Rightarrow> jsstr list \<Rightarrow> jsstr \<Rightarrow> jsstr \<Rightarrow> jsstr" where
  "resolveUrl shown proto base relative =
     (if looks_absolute relative then relative
      else
        let b = legacyParse shown proto base False False;
            origin = or_empty (l_protocol b) @ [47, 47] @ or_empty (l_host b)
        in if relative = [] then base
           else if 2 \<le> length relative \<and> take 2 relative = [47, 47] then
             (if truthy (l_protocol b) then or_empty (l_protocol b) else HTTP) @ relative
           else if hd relative = 47 then origin @ relative
           else if hd relative = 63 \<or> hd relative = 35 then
             resolve_suffix (if l_href b \<noteq> [] then l_href b else base) relative
           else
             let basePath = (if truthy (l_pathname b) then or_empty (l_pathname b) else SLASH);
                 dir = (case last_index_of 47 basePath of Some i \<Rightarrow> take (i + 1) basePath | None \<Rightarrow> SLASH)
             in origin @ normalizePath (dir @ relative))"

section \<open>The constructor and the setters\<close>

definition link_params :: "url \<Rightarrow> url" where
  "link_params u = u\<lparr>u_params := parseString (u_search u)\<rparr>"

text \<open>
  The constructor: \<open>make_url\<close> is what it does with the input it has trimmed, or resolved against a base. Without a
  base, and with the string of a base or a URL as base.
\<close>

definition make_url :: "jsstr \<Rightarrow> url result" where
  "make_url input =
     (case parse_url empty_url input of
        (u, Inr _) \<Rightarrow> Inr (link_params u)
      | (_, Inl e) \<Rightarrow> Inl e)"

definition new_url :: "jsstr \<Rightarrow> url result" where
  "new_url input = make_url (trim input)"

datatype url_base = NoBase | BaseUrl url | BaseString jsstr

fun URL_new :: "(jsstr \<Rightarrow> jsstr) \<Rightarrow> jsstr list \<Rightarrow> jsstr option \<Rightarrow> url_base \<Rightarrow> url result" where
  "URL_new shown proto None base = Inl (TypeError ''Invalid URL'')"
| "URL_new shown proto (Some input) NoBase = new_url input"
| "URL_new shown proto (Some input) (BaseUrl b) = make_url (resolveUrl shown proto (serialize b) (trim input))"
| "URL_new shown proto (Some input) (BaseString s) =
     bind_result (new_url s) (\<lambda>b. make_url (resolveUrl shown proto (serialize b) (trim input)))"

definition canParse :: "(jsstr \<Rightarrow> jsstr) \<Rightarrow> jsstr list \<Rightarrow> jsstr option \<Rightarrow> url_base \<Rightarrow> bool" where
  "canParse shown proto input base =
     (case URL_new shown proto input base of Inr _ \<Rightarrow> True | Inl _ \<Rightarrow> False)"

definition set_href :: "url \<Rightarrow> jsstr \<Rightarrow> url \<times> unit result" where
  "set_href u val =
     (case parse_url u val of
        (u1, Inr _) \<Rightarrow> (link_params u1, Inr ())
      | (u1, Inl e) \<Rightarrow> (u1, Inl e))"

definition set_protocol :: "url \<Rightarrow> jsstr \<Rightarrow> url" where
  "set_protocol u s = u\<lparr>u_protocol := to_lower (if 0 < length s \<and> last s \<noteq> 58 then s @ [58] else s)\<rparr>"

definition set_username :: "url \<Rightarrow> jsstr \<Rightarrow> url" where
  "set_username u s = u\<lparr>u_username := s\<rparr>"

definition set_password :: "url \<Rightarrow> jsstr \<Rightarrow> url" where
  "set_password u s = u\<lparr>u_password := s\<rparr>"

definition set_host :: "url \<Rightarrow> jsstr \<Rightarrow> url" where
  "set_host u s =
     (case last_index_of 58 s of
        Some i \<Rightarrow> u\<lparr>u_hostname := to_lower (take i s), u_port := drop (i + 1) s\<rparr>
      | None \<Rightarrow> u\<lparr>u_hostname := to_lower s, u_port := []\<rparr>)"

definition set_hostname :: "url \<Rightarrow> jsstr \<Rightarrow> url" where
  "set_hostname u s = u\<lparr>u_hostname := to_lower s\<rparr>"

definition set_port :: "url \<Rightarrow> jsstr \<Rightarrow> url" where
  "set_port u s =
     (if s = [] then u\<lparr>u_port := []\<rparr>
      else case parseInt 10 s of
        None \<Rightarrow> u
      | Some n \<Rightarrow>
          if n < 0 \<or> 65535 < n then u
          else
            let ns = js (dec_string (nat n))
            in u\<lparr>u_port := if defaultPort (u_protocol u) = Some ns then [] else ns\<rparr>)"

definition set_pathname :: "url \<Rightarrow> jsstr \<Rightarrow> url" where
  "set_pathname u s = u\<lparr>u_pathname := s\<rparr>"

definition mark :: "nat \<Rightarrow> jsstr \<Rightarrow> jsstr" where
  "mark c s =
     (let s1 = (if 0 < length s \<and> hd s \<noteq> c then c # s else s) in if s1 = [c] then [] else s1)"

definition set_search :: "url \<Rightarrow> jsstr \<Rightarrow> url" where
  "set_search u s = link_params (u\<lparr>u_search := mark 63 s\<rparr>)"

definition set_hash :: "url \<Rightarrow> jsstr \<Rightarrow> url" where
  "set_hash u s = u\<lparr>u_hash := mark 35 s\<rparr>"

text \<open>A method of the linked search parameters: it writes the query back to the URL.\<close>

definition with_params ::
    "(search_params \<Rightarrow> search_params \<times> unit result) \<Rightarrow> url \<Rightarrow> url \<times> unit result" where
  "with_params f u =
     (let (sp, r) = f \<lparr>sp_list = u_params u, sp_owner = Some (u_search u)\<rparr>
      in (u\<lparr>u_params := sp_list sp, u_search := or_empty (sp_owner sp)\<rparr>, r))"

section \<open>File paths\<close>

definition BACKSLASH :: nat where "BACKSLASH = 92"

definition pathToFileURL :: "jsstr \<Rightarrow> url result" where
  "pathToFileURL filepath =
     (let p = join_with SLASH (split1 BACKSLASH filepath)
      in if 0 < length p \<and> hd p = 47 then new_url (js ''file://'' @ p)
         else new_url (js ''file:///'' @ p))"

fun percentDecodePath :: "jsstr \<Rightarrow> jsstr" where
  "percentDecodePath [] = []"
| "percentDecodePath (ch # s) =
     (if ch = 37 \<and> 2 \<le> length s \<and> hexVal (s ! 0) \<noteq> None \<and> hexVal (s ! 1) \<noteq> None
      then from_char_code (the (hexVal (s ! 0)) * 16 + the (hexVal (s ! 1))) # percentDecodePath (drop 2 s)
      else ch # percentDecodePath s)"

definition fileURLToPath :: "jsstr \<Rightarrow> jsstr result" where
  "fileURLToPath href =
     (if length href < 7 \<or> to_lower (take 7 href) \<noteq> js ''file://''
      then Inl (CodedError ''ERR_INVALID_URL_SCHEME'')
      else
        let rest = drop 7 href
        in case index_of 47 rest of
             None \<Rightarrow> Inl (TypeError ''Invalid file URL'')
           | Some pathStart \<Rightarrow>
               if 0 < pathStart \<and> to_lower (take pathStart rest) \<noteq> js ''localhost''
               then Inl (CodedError ''ERR_INVALID_FILE_URL_HOST'')
               else
                 let rawPath = drop pathStart rest
                 in if index_of_str (js ''%2f'') (to_lower rawPath) \<noteq> None \<or>
                       index_of_str (js ''%5c'') (to_lower rawPath) \<noteq> None
                    then Inl (CodedError ''ERR_INVALID_FILE_URL_PATH'')
                    else Inr (percentDecodePath rawPath))"

section \<open>Lemmas on parsing\<close>

lemma slashProtocol_shape:
  assumes "slashProtocol p"
  obtains q where "p = q @ [58]" "58 \<notin> set q" "35 \<notin> set p" "63 \<notin> set p" "q \<noteq> []"
    "isValidProtocol p" "to_lower p = p"
proof (rule that [of "butlast p"])
  show "p = butlast p @ [58]" "58 \<notin> set (butlast p)" "35 \<notin> set p" "63 \<notin> set p" "butlast p \<noteq> []"
    "isValidProtocol p" "to_lower p = p"
    using assms by (auto simp: slashProtocol_def protocol_defs isValidProtocol_def to_lower_def lower_unit_def)
qed

text \<open>A URL whose fields are what parsing its own serialization gives.\<close>

definition plain :: "jsstr \<Rightarrow> bool" where
  "plain s \<longleftrightarrow> 35 \<notin> set s \<and> 63 \<notin> set s \<and> 47 \<notin> set s"

text \<open>A host name outside brackets is kept below 256, where \<open>to_lower\<close> is exact.\<close>

definition host_ok :: "jsstr \<Rightarrow> bool" where
  "host_ok h \<longleftrightarrow> plain h \<and> 64 \<notin> set h \<and>
     ((\<exists>x. h = 91 # x @ [93] \<and> 93 \<notin> set x) \<or>
      (58 \<notin> set h \<and> (h = [] \<or> hd h \<noteq> 91) \<and> (\<forall>c \<in> set h. c < 256) \<and> to_lower h = h))"

definition url_ok :: "url \<Rightarrow> bool" where
  "url_ok u \<longleftrightarrow> slashProtocol (u_protocol u) \<and>
     plain (u_username u) \<and> 58 \<notin> set (u_username u) \<and> plain (u_password u) \<and> host_ok (u_hostname u) \<and>
     plain (u_port u) \<and> 64 \<notin> set (u_port u) \<and> 58 \<notin> set (u_port u) \<and>
     defaultPort (u_protocol u) \<noteq> Some (u_port u) \<and>
     u_pathname u \<noteq> [] \<and> hd (u_pathname u) = 47 \<and> 35 \<notin> set (u_pathname u) \<and> 63 \<notin> set (u_pathname u) \<and>
     (u_search u = [] \<or> (hd (u_search u) = 63 \<and> 35 \<notin> set (u_search u))) \<and>
     (u_hash u = [] \<or> hd (u_hash u) = 35) \<and> \<not> is_white (last (serialize u)) \<and>
     u_params u = parseString (u_search u)"

definition port_part :: "jsstr \<Rightarrow> jsstr" where
  "port_part p = (if p \<noteq> [] then [58] @ p else [])"

definition user_part :: "jsstr \<Rightarrow> jsstr \<Rightarrow> jsstr" where
  "user_part name pass =
     (if name \<noteq> [] \<or> pass \<noteq> [] then name @ (if pass \<noteq> [] then [58] @ pass else []) @ [64] else [])"

lemma hostport_parts:
  assumes "host_ok h" "58 \<notin> set p" "u_hostname u = []" "u_port u = []"
  shows "parse_hostport u (h @ port_part p) = u\<lparr>u_hostname := h, u_port := p\<rparr>"
proof -
  have u: "u\<lparr>u_port := []\<rparr> = u" "u\<lparr>u_hostname := x, u_port := []\<rparr> = u\<lparr>u_hostname := x\<rparr>" for x
    using assms(4) by (cases u, simp)+
  from assms(1) consider x where "h = 91 # x @ [93]" "93 \<notin> set x"
    | "58 \<notin> set h" "h = [] \<or> hd h \<noteq> 91" "to_lower h = h" by (auto simp: host_ok_def)
  then show ?thesis
  proof cases
    case 1
    have "index_of 93 (h @ port_part p) = Some (length x + 1)"
      using 1 index_of_append [of 93 "91 # x" "port_part p"] by simp
    then show ?thesis using 1 u by (simp add: parse_hostport_def port_part_def)
  next
    case 2
    have "\<not> (h @ port_part p \<noteq> [] \<and> hd (h @ port_part p) = 91)"
      using 2(2) by (auto simp: port_part_def hd_append)
    moreover have "last_index_of 58 (h @ port_part p) = (if p = [] then None else Some (length h))"
      using 2(1) assms(2) by (simp add: port_part_def last_index_of_append)
    ultimately have "parse_hostport u (h @ port_part p) =
        (if p = [] then u\<lparr>u_hostname := to_lower (h @ port_part p)\<rparr>
         else u\<lparr>u_hostname := to_lower (take (length h) (h @ port_part p)),
                u_port := drop (length h + 1) (h @ port_part p)\<rparr>)"
      by (simp only: parse_hostport_def if_False) simp
    then show ?thesis using 2(3) u by (simp add: port_part_def)
  qed
qed

lemma userinfo_parts:
  assumes "58 \<notin> set name" "u_username u = []" "u_password u = []"
  shows "parse_userinfo u (name @ (if pass \<noteq> [] then [58] @ pass else []))
    = u\<lparr>u_username := name, u_password := pass\<rparr>"
  using assms by (cases u) (simp add: parse_userinfo_def index_of_append)

lemma authority_parts:
  assumes "58 \<notin> set name" "host_ok h" "58 \<notin> set p" "64 \<notin> set p" "defaultPort (u_protocol u) \<noteq> Some p"
    "u_username u = []" "u_password u = []" "u_hostname u = []" "u_port u = []"
  shows "parse_authority u (user_part name pass @ h @ port_part p)
    = u\<lparr>u_username := name, u_password := pass, u_hostname := h, u_port := p\<rparr>"
proof -
  have no64: "64 \<notin> set (h @ port_part p)" using assms(2,4) by (auto simp: host_ok_def port_part_def)
  show ?thesis
  proof (cases "name \<noteq> [] \<or> pass \<noteq> []")
    case True
    define info where "info = name @ (if pass \<noteq> [] then [58] @ pass else [])"
    have "user_part name pass @ h @ port_part p = info @ 64 # (h @ port_part p)"
      using True by (simp add: user_part_def info_def)
    moreover have "last_index_of 64 (info @ 64 # (h @ port_part p)) = Some (length info)"
      using no64 by (rule last_index_of_append)
    moreover have "parse_userinfo u info = u\<lparr>u_username := name, u_password := pass\<rparr>"
      unfolding info_def using assms by (intro userinfo_parts) simp_all
    ultimately show ?thesis
      using assms hostport_parts [OF assms(2,3), of "u\<lparr>u_username := name, u_password := pass\<rparr>"]
      by (simp add: parse_authority_def suppress_port_def)
  next
    case False
    then have "user_part name pass = []" by (simp add: user_part_def)
    then show ?thesis
      using no64 assms False hostport_parts [OF assms(2,3), of u]
      by (cases u) (simp add: parse_authority_def suppress_port_def)
  qed
qed

lemma serialize_parts:
  "slashProtocol (u_protocol u) \<Longrightarrow>
   serialize u = (u_protocol u @ [47, 47] @ (user_part (u_username u) (u_password u) @ u_hostname u @ port_part (u_port u)) @
     u_pathname u) @ u_search u @ u_hash u"
  by (simp add: serialize_def user_part_def port_part_def)

lemma trim_serialize:
  assumes "url_ok u" shows "trim (serialize u) = serialize u"
proof (rule trim_id)
  have p: "slashProtocol (u_protocol u)" "\<not> is_white (last (serialize u))" using assms by (simp_all add: url_ok_def)
  have "u_protocol u \<noteq> []" "\<not> is_white (hd (u_protocol u))"
    using p(1) by (auto simp: slashProtocol_def protocol_defs is_white_def)
  then show "serialize u \<noteq> []" "\<not> is_white (hd (serialize u))" by (simp_all add: serialize_def)
  show "\<not> is_white (last (serialize u))" by (fact p(2))
qed

lemma new_url_serialize:
  assumes "url_ok u"
  shows "new_url (serialize u) = Inr u"
proof -
  obtain q where q: "u_protocol u = q @ [58]" "58 \<notin> set q" "35 \<notin> set (u_protocol u)" "63 \<notin> set (u_protocol u)" "q \<noteq> []"
    "isValidProtocol (u_protocol u)" "to_lower (u_protocol u) = u_protocol u"
    using assms slashProtocol_shape [of "u_protocol u"] unfolding url_ok_def by blast
  define auth where "auth = user_part (u_username u) (u_password u) @ u_hostname u @ port_part (u_port u)"
  define pre where "pre = u_protocol u @ [47, 47] @ auth @ u_pathname u"
  have auth: "35 \<notin> set auth" "63 \<notin> set auth" "47 \<notin> set auth"
    using assms by (auto simp: auth_def url_ok_def plain_def host_ok_def user_part_def port_part_def)
  have pre: "35 \<notin> set pre" "63 \<notin> set pre" using assms q auth by (auto simp: pre_def url_ok_def)
  have hash: "(case index_of 35 (pre @ u_search u @ u_hash u) of
      Some i \<Rightarrow> (empty_url\<lparr>u_hash := drop i (pre @ u_search u @ u_hash u)\<rparr>, take i (pre @ u_search u @ u_hash u))
    | None \<Rightarrow> (empty_url, pre @ u_search u @ u_hash u)) = (empty_url\<lparr>u_hash := u_hash u\<rparr>, pre @ u_search u)"
  proof -
    have s35: "35 \<notin> set (pre @ u_search u)" using pre assms by (auto simp: url_ok_def)
    show ?thesis
    proof (cases "u_hash u")
      case Nil
      then show ?thesis using s35 by (simp add: empty_url_def)
    next
      case (Cons c h)
      then have "c = 35" using assms by (simp add: url_ok_def)
      then show ?thesis using index_of_append [OF s35, of h] Cons by simp
    qed
  qed
  define e where "e = empty_url\<lparr>u_hash := u_hash u\<rparr>"
  have search: "(case index_of 63 (pre @ u_search u) of
      Some i \<Rightarrow> (e\<lparr>u_search := drop i (pre @ u_search u)\<rparr>, take i (pre @ u_search u))
    | None \<Rightarrow> (e, pre @ u_search u)) = (e\<lparr>u_search := u_search u\<rparr>, pre)"
  proof (cases "u_search u")
    case Nil
    then show ?thesis using pre by (simp add: e_def empty_url_def)
  next
    case (Cons c s)
    then have "c = 63" using assms by (simp add: url_ok_def)
    then show ?thesis using index_of_append [OF pre(2), of s] Cons by simp
  qed
  have proto: "take_protocol (e\<lparr>u_search := u_search u\<rparr>) pre
      = (e\<lparr>u_search := u_search u, u_protocol := u_protocol u\<rparr>, [47, 47] @ auth @ u_pathname u)"
  proof -
    have "index_of 58 pre = Some (length q)" using index_of_append [OF q(2)] by (simp add: pre_def q(1))
    moreover have "take (length q + 1) pre = u_protocol u" "drop (length q + 1) pre = [47, 47] @ auth @ u_pathname u"
      by (simp_all add: pre_def q(1))
    ultimately show ?thesis using q(5-7) by (simp add: take_protocol_def)
  qed
  obtain path where path: "u_pathname u = 47 # path" using assms by (cases "u_pathname u") (auto simp: url_ok_def)
  have "index_of 47 (auth @ u_pathname u) = Some (length auth)" using index_of_append [OF auth(3)] path by simp
  moreover have "parse_authority (e\<lparr>u_search := u_search u, u_protocol := u_protocol u\<rparr>) auth
      = e\<lparr>u_search := u_search u, u_protocol := u_protocol u, u_username := u_username u,
          u_password := u_password u, u_hostname := u_hostname u, u_port := u_port u\<rparr>"
    unfolding auth_def using assms
    by (subst authority_parts) (simp_all add: url_ok_def e_def empty_url_def)
  moreover have "u_protocol u \<noteq> []" using q(1) by simp
  moreover have ser: "serialize u = pre @ u_search u @ u_hash u"
    using assms by (simp add: serialize_parts url_ok_def auth_def pre_def)
  ultimately have "parse_url empty_url (serialize u)
      = (e\<lparr>u_search := u_search u, u_protocol := u_protocol u, u_username := u_username u,
           u_password := u_password u, u_hostname := u_hostname u, u_port := u_port u, u_pathname := u_pathname u\<rparr>,
         Inr ())"
    using path unfolding parse_url_def ser by (simp add: hash [folded e_def] search proto Let_def)
  then show ?thesis
    using assms by (cases u) (simp add: new_url_def trim_serialize make_url_def link_params_def url_ok_def e_def empty_url_def)
qed

section \<open>The query and its parameters\<close>

lemma parseString_mark: "s = [] \<or> hd s \<noteq> 63 \<Longrightarrow> parseString (63 # s) = parseString s"
  by (cases s) (auto simp: parseString_def)

text \<open>The URL and its parameters agree.\<close>

definition linked :: "url \<Rightarrow> bool" where
  "linked u \<longleftrightarrow> parseString (u_search u) = u_params u"

lemma linked_updateUrl:
  assumes "with_params (\<lambda>sp. updateUrl (sp\<lparr>sp_list := f (sp_list sp)\<rparr>)) u = (u', Inr ())"
    "params_jsstr (f (u_params u))"
  shows "linked u' \<and> u_params u' = f (u_params u)"
proof -
  define l where "l = f (u_params u)"
  obtain s where s: "sp_toString l = Inr s" "u' = u\<lparr>u_params := l, u_search := if 0 < length s then 63 # s else []\<rparr>"
    using assms(1) by (auto simp: with_params_def updateUrl_def l_def or_empty_def Let_def split: sum.splits)
  have p: "parseString s = l" using sp_string_roundtrip_parse [OF s(1)] assms(2) by (simp add: l_def)
  have "63 \<notin> set s" using sp_toString_units [OF s(1)] assms(2) by (simp add: l_def)
  then have "parseString (63 # s) = parseString s" by (intro parseString_mark) (cases s, auto)
  then show ?thesis using s(2) p by (auto simp: linked_def l_def)
qed

lemmas url_eval = new_url_def make_url_def trim_def is_white_def parse_url_def take_protocol_def isValidProtocol_def slashProtocol_def defaultPort_def
  protocol_defs to_lower_def lower_unit_def empty_url_def parse_authority_def parse_hostport_def suppress_port_def
  link_params_def parseString_def parse_pair_def sp_decode_def emit_def serialize_def SLASH_def

section \<open>Dot segments\<close>

lemma path_step_no_dots:
  "[46] \<notin> set out \<Longrightarrow> [46, 46] \<notin> set out \<Longrightarrow>
   [46] \<notin> set (path_step out seg) \<and> [46, 46] \<notin> set (path_step out seg)"
  by (auto simp: path_step_def dest: in_set_butlastD)

lemma path_fold_no_dots:
  "[46] \<notin> set out \<Longrightarrow> [46, 46] \<notin> set out \<Longrightarrow>
   [46] \<notin> set (foldl path_step out segs) \<and> [46, 46] \<notin> set (foldl path_step out segs)"
  using path_step_no_dots by (induction segs arbitrary: out) simp_all

lemma path_fold_segments:
  "(\<And>s. s \<in> set out \<Longrightarrow> 47 \<notin> set s) \<Longrightarrow> (\<And>s. s \<in> set segs \<Longrightarrow> 47 \<notin> set s) \<Longrightarrow>
   s \<in> set (foldl path_step out segs) \<Longrightarrow> 47 \<notin> set s"
proof (induction segs arbitrary: out)
  case (Cons a segs)
  have "47 \<notin> set t" if "t \<in> set (path_step out a)" for t
    using that Cons.prems(1) Cons.prems(2) [of a]
    by (auto simp: path_step_def split: if_splits dest: in_set_butlastD)
  then show ?case using Cons.IH [of "path_step out a"] Cons.prems by simp
qed simp

section \<open>Paths without escapes\<close>

lemma percentDecodePath_plain: "37 \<notin> set p \<Longrightarrow> percentDecodePath p = p"
  by (induction p rule: percentDecodePath.induct) auto

lemma to_lower_percent: "37 \<notin> set p \<Longrightarrow> 37 \<notin> set (to_lower p)"
  by (auto simp: to_lower_def lower_unit_def split: if_splits)

lemma fileURLToPath_plain:
  assumes "p \<noteq> []" "hd p = 47" "37 \<notin> set p"
  shows "fileURLToPath (js ''file://'' @ p) = Inr p"
proof -
  have "index_of_str t (to_lower p) = None" if "37 \<in> set t" for t
    using that to_lower_percent [OF assms(3)] set_mono_sublist by (fastforce simp: index_of_str_None)
  moreover have "index_of 47 p = Some 0" using assms(1,2) by (cases p) auto
  ultimately show ?thesis
    using percentDecodePath_plain [OF assms(3)]
    by (simp add: fileURLToPath_def to_lower_def lower_unit_def Let_def)
qed

section \<open>Theorems\<close>

text \<open>C35: The constructor, given the serialization of a URL and no base, gives the URL back, field by field, with its
  search parameters. Required of the URL: its scheme is one of the six with slashes; user name, password, host and
  port contain none of \<open>/ ? #\<close>, the user name no \<open>:\<close>, the host no \<open>@\<close>, the port neither \<open>@\<close> nor \<open>:\<close>; the host is in brackets,
  or has no \<open>:\<close>, does not begin with a bracket and is lower-case text of code units below 256; the port is not the
  default one of the scheme; the path begins with \<open>/\<close> and has neither \<open>?\<close> nor \<open>#\<close>; the query is empty or begins with
  \<open>?\<close> and has no \<open>#\<close>; the fragment is empty or begins with \<open>#\<close>; the parameters are those of the query; and the
  serialization does not end in white space, which the constructor would trim.\<close>

theorem url_parse_serialize:
  assumes "url_ok u"
  shows "new_url (serialize u) = Inr u"
  using assms by (rule new_url_serialize)

theorem url_parse_serialize_witness:
  "new_url (serialize \<lparr>u_protocol = HTTP, u_username = js ''me'', u_password = js ''a:b@'', u_hostname = js ''[::1]'',
     u_port = js ''8080'', u_pathname = js ''/x/y'', u_search = js ''?q=1'', u_hash = js ''#f?'',
     u_params = [(js ''q'', js ''1'')]\<rparr>)
   = Inr \<lparr>u_protocol = HTTP, u_username = js ''me'', u_password = js ''a:b@'', u_hostname = js ''[::1]'',
     u_port = js ''8080'', u_pathname = js ''/x/y'', u_search = js ''?q=1'', u_hash = js ''#f?'',
     u_params = [(js ''q'', js ''1'')]\<rparr>"
proof (rule url_parse_serialize)
  have "host_ok (js ''[::1]'')"
    by (auto simp: host_ok_def plain_def intro!: exI [of _ "js ''::1''"])
  then show "url_ok \<lparr>u_protocol = HTTP, u_username = js ''me'', u_password = js ''a:b@'', u_hostname = js ''[::1]'',
     u_port = js ''8080'', u_pathname = js ''/x/y'', u_search = js ''?q=1'', u_hash = js ''#f?'',
     u_params = [(js ''q'', js ''1'')]\<rparr>"
    by (simp add: url_ok_def plain_def slashProtocol_def defaultPort_def protocol_defs parseString_def parse_pair_def
        sp_decode_def emit_def serialize_def is_white_def)
qed

text \<open>the search parameters and the query stay consistent: after the constructor, after assigning
  \<open>search\<close>, and after every method of the parameters that returns normally, parsing the query gives the
  parameters.\<close>

theorem url_params_linked:
  "(\<forall>u. new_url input = Inr u \<longrightarrow> linked u) \<and> linked (set_search u s) \<and>
   (\<forall>u' f. with_params (\<lambda>sp. updateUrl (sp\<lparr>sp_list := f (sp_list sp)\<rparr>)) u = (u', Inr ()) \<longrightarrow>
      params_jsstr (f (u_params u)) \<longrightarrow> linked u' \<and> u_params u' = f (u_params u))"
proof (intro conjI allI impI)
  show "linked u" if "new_url input = Inr u" for u
    using that by (auto simp: new_url_def make_url_def linked_def link_params_def split: prod.splits sum.splits)
  show "linked (set_search u s)" by (simp add: linked_def set_search_def link_params_def)
qed (use linked_updateUrl in blast)+

theorem url_params_linked_witness:
  "\<exists>u u'. new_url (js ''http://h/?a=1'') = Inr u \<and> linked u \<and>
     with_params (\<lambda>sp. updateUrl (sp\<lparr>sp_list := [(js ''q'', js ''1'')]\<rparr>)) u = (u', Inr ()) \<and>
     linked u' \<and> u_params u' = [(js ''q'', js ''1'')]"
proof -
  obtain u where u: "new_url (js ''http://h/?a=1'') = Inr u" by (simp add: url_eval)
  obtain u' where u': "with_params (\<lambda>sp. updateUrl (sp\<lparr>sp_list := [(js ''q'', js ''1'')]\<rparr>)) u = (u', Inr ())"
    by (simp add: with_params_def updateUrl_def sp_toString_def sp_safe_def emit_def Let_def)
  have "params_jsstr [(js ''q'', js ''1'')]" by (simp add: params_jsstr_def)
  moreover note l = url_params_linked [where input = "js ''http://h/?a=1''" and u = u]
  ultimately have "linked u' \<and> u_params u' = [(js ''q'', js ''1'')]"
    using l [THEN conjunct2, THEN conjunct2, THEN spec [of _ u'], THEN spec [of _ "\<lambda>_. [(js ''q'', js ''1'')]"]] u'
    by blast
  then show ?thesis using u u' l by blast
qed

text \<open>\<open>_normalizePath\<close> gives an absolute path without \<open>.\<close> and \<open>..\<close> segments: a relative reference
  cannot climb above the root.\<close>

theorem normalizePath_no_dots:
  "hd (normalizePath path) = 47 \<and> normalizePath path \<noteq> [] \<and>
   [46] \<notin> set (split1 47 (normalizePath path)) \<and> [46, 46] \<notin> set (split1 47 (normalizePath path))"
proof -
  define out where "out = foldl path_step [] (split1 47 path)"
  have segs: "\<And>s. s \<in> set out \<Longrightarrow> 47 \<notin> set s"
    unfolding out_def by (rule path_fold_segments [of "[]" "split1 47 path"]) (auto dest: split1_no_sep)
  have dots: "[46] \<notin> set out" "[46, 46] \<notin> set out"
    using path_fold_no_dots [of "[]" "split1 47 path"] by (simp_all add: out_def)
  have "split1 47 (join_with SLASH out) = (if out = [] then [[]] else out)"
    using split1_join [of out 47] segs by (simp add: SLASH_def)
  then have "set (split1 47 (join_with SLASH out)) \<subseteq> insert [] (set out)" by auto
  then have nd: "[46] \<notin> set (split1 47 (join_with SLASH out))" "[46, 46] \<notin> set (split1 47 (join_with SLASH out))"
    using dots by auto
  have "normalizePath path = join_with SLASH out \<and> join_with SLASH out \<noteq> [] \<and> hd (join_with SLASH out) = 47 \<or>
    normalizePath path = 47 # join_with SLASH out"
    unfolding normalizePath_def out_def [symmetric] Let_def SLASH_def by simp
  then show ?thesis using nd by (elim disjE) simp_all
qed

text \<open>\<open>fileURLToPath\<close> undoes \<open>pathToFileURL\<close> on absolute paths without backslash, \<open>%\<close>, \<open>#\<close> and \<open>?\<close>
  that do not end in white space.\<close>

theorem file_path_roundtrip:
  assumes "hd p = 47" and "p \<noteq> []" and "set p \<inter> {92, 37, 35, 63} = {}" and "\<not> is_white (last p)"
  shows "\<exists>u. pathToFileURL p = Inr u \<and> fileURLToPath (serialize u) = Inr p"
proof -
  define u where "u = empty_url\<lparr>u_protocol := FILE, u_pathname := p\<rparr>"
  have "url_ok u"
    using assms by (auto simp: url_ok_def u_def empty_url_def slashProtocol_def defaultPort_def plain_def host_ok_def
        protocol_defs parseString_def to_lower_def serialize_def)
  moreover have ser: "serialize u = js ''file://'' @ p"
    by (simp add: serialize_def u_def empty_url_def slashProtocol_def FILE_def)
  moreover have "join_with SLASH (split1 BACKSLASH p) = p" using assms(3) by (simp add: BACKSLASH_def)
  ultimately have "pathToFileURL p = Inr u"
    using assms(1,2) new_url_serialize [of u] by (simp add: pathToFileURL_def)
  moreover have "fileURLToPath (js ''file://'' @ p) = Inr p"
    using assms(1-3) by (intro fileURLToPath_plain) auto
  ultimately show ?thesis using ser by auto
qed

theorem file_path_roundtrip_witness:
  "\<exists>u. pathToFileURL (js ''/tmp/a b.txt'') = Inr u \<and> fileURLToPath (serialize u) = Inr (js ''/tmp/a b.txt'')"
  by (rule file_path_roundtrip) (simp_all add: is_white_def)

text \<open>
  Facts behind the findings: assigning \<open>href\<close> keeps the old query and fragment; the authority of
  another scheme is not printed; \<open>#\<close> in a file path starts the fragment; a query becomes part of a file path; percent-encoded UTF-8 is decoded byte by
  byte; a final \<open>..\<close> loses the slash; and the dots of a query are resolved as if it were a path.
\<close>

definition href_of :: "url result \<Rightarrow> jsstr" where
  "href_of r = (case r of Inr u \<Rightarrow> serialize u | Inl _ \<Rightarrow> [])"

lemma new_url_trimmed: "s \<noteq> [] \<Longrightarrow> \<not> is_white (hd s) \<Longrightarrow> \<not> is_white (last s) \<Longrightarrow> new_url s = make_url s"
  by (simp add: new_url_def trim_id)

lemma set_href_keeps:
  "(case new_url (js ''http://a/?x#y'') of
      Inr u \<Rightarrow> serialize (fst (set_href u (js ''http://b/''))) | Inl _ \<Rightarrow> []) = js ''http://b/?x#y''"
proof -
  have "new_url (js ''http://a/?x#y'') = make_url (js ''http://a/?x#y'')"
    by (rule new_url_trimmed) (simp_all add: is_white_def)
  moreover have "(case make_url (js ''http://a/?x#y'') of
      Inr u \<Rightarrow> serialize (fst (set_href u (js ''http://b/''))) | Inl _ \<Rightarrow> []) = js ''http://b/?x#y''"
    by code_simp
  ultimately show ?thesis by (simp only:)
qed

lemma authority_lost: "href_of (new_url (js ''foo://h/p'')) = js ''foo:/p''"
proof -
  have "new_url (js ''foo://h/p'') = make_url (js ''foo://h/p'')"
    by (rule new_url_trimmed) (simp_all add: is_white_def)
  moreover have "href_of (make_url (js ''foo://h/p'')) = js ''foo:/p''" by code_simp
  ultimately show ?thesis by (simp only:)
qed

lemma file_hash_cuts:
  "(case pathToFileURL (js ''/a#b'') of Inr u \<Rightarrow> u_pathname u | Inl e \<Rightarrow> []) = js ''/a''"
  by (simp add: url_eval pathToFileURL_def BACKSLASH_def)

lemma file_query_kept: "fileURLToPath (js ''file:///a?x'') = Inr (js ''/a?x'')"
  by (simp add: fileURLToPath_def to_lower_def lower_unit_def Let_def)

lemma file_utf8_split: "fileURLToPath (js ''file:///%C3%A9'') = Inr [47, 0xc3, 0xa9]"
  by (simp add: fileURLToPath_def to_lower_def lower_unit_def hexVal_def from_char_code_def Let_def)

lemma normalizePath_slash: "normalizePath (js ''/a/b/..'') = js ''/a''"
  by (simp add: normalizePath_def path_step_def SLASH_def)

lemma normalizePath_query: "normalizePath (js ''/x?u=a/../b'') = js ''/b''"
  by (simp add: normalizePath_def path_step_def SLASH_def)

end
