(* ===== verification/Events.thy ===== *)
theory Events
  imports Prelude "HOL-Library.AList"
begin

text \<open>
  \<open>events.js\<close>: the class \<open>EventEmitter\<close>. The listener arrays are objects of a store (\<open>em_heap\<close>): a
  method keeps a reference to an array while the listeners it calls may replace the array of the
  event, and the source relies on the difference. A wrapper \<open>{fn, once}\<close> has an identity too.

  A listener is known by its identity; what it does when it is called is a script of calls on the
  same emitter, given by a function of its arguments. Listeners call methods which call listeners,
  so the methods are written against \<open>self\<close>, the emitter's own methods, and \<open>em_exec\<close> ties the knot
  with fuel: \<open>None\<close> is running out of it. The promise that a listener may return, and the error it may
  reject with under \<open>captureRejections\<close>, are outside the model, and so are the event names that the
  object \<open>_events\<close> inherits from \<open>Object.prototype\<close>.
\<close>

section \<open>Data\<close>

datatype evname = EvStr jsstr | EvSym nat

text \<open>The values that are passed to listeners or thrown.\<close>

datatype evval =
    Name evname
  | Fn nat
  | Val nat
  | ListenerNotFunction  \<comment> \<open>TypeError: listener must be a function\<close>
  | UnhandledError
  | MaxOutOfRange        \<comment> \<open>RangeError of \<open>setMaxListeners\<close>\<close>

record wrapper =
  w_id :: nat
  w_fn :: nat
  w_once :: bool

record emitter =
  em_events :: "(evname \<times> nat) list"  \<comment> \<open>own properties of \<open>_events\<close>: event, array\<close>
  em_heap :: "nat \<Rightarrow> wrapper list"
  em_warned :: "nat list"              \<comment> \<open>arrays with \<open>warned\<close> set\<close>
  em_next :: nat                       \<comment> \<open>next unused identity\<close>
  em_max :: "jsnum option"
  em_default_max :: jsnum
  em_capture :: bool
  em_domain :: bool                    \<comment> \<open>a domain other than the emitter takes errors\<close>
  em_warnings :: "(evname \<times> nat) list"
  em_domain_errors :: "evval list"
  em_calls :: "(nat \<times> evval list) list"  \<comment> \<open>the calls of listeners so far\<close>

definition NEW_LISTENER :: evname where "NEW_LISTENER = EvStr (js ''newListener'')"
definition REMOVE_LISTENER :: evname where "REMOVE_LISTENER = EvStr (js ''removeListener'')"
definition ERROR_EVENT :: evname where "ERROR_EVENT = EvStr (js ''error'')"

text \<open>The methods a script may call; a listener argument that is not a function is \<open>None\<close>.\<close>

datatype em_op =
    On evname "nat option"
  | Once evname "nat option"
  | Off evname nat
  | Prepend evname "nat option"
  | PrependOnce evname "nat option"
  | RemoveAll "evname option"
  | Emit evname "evval list"
  | SetMax jsnum

datatype action = Do em_op | Throw evval

type_synonym outcome = "(emitter \<times> (evval + bool)) option"

section \<open>Maximum number of listeners\<close>

definition em_new :: "jsnum \<Rightarrow> bool \<Rightarrow> emitter" where
  "em_new default_max capture =
     \<lparr>em_events = [], em_heap = (\<lambda>_. []), em_warned = [], em_next = 0, em_max = None,
      em_default_max = default_max, em_capture = capture, em_domain = False, em_warnings = [],
      em_domain_errors = [], em_calls = []\<rparr>"

definition getMaxListeners :: "emitter \<Rightarrow> jsnum" where
  "getMaxListeners em = (case em_max em of None \<Rightarrow> em_default_max em | Some m \<Rightarrow> m)"

definition over_max :: "jsnum \<Rightarrow> nat \<Rightarrow> bool" where
  "over_max m len = (case m of Fin r \<Rightarrow> 0 < r \<and> r < of_nat len | _ \<Rightarrow> False)"

definition checkMaxListeners :: "evname \<Rightarrow> nat \<Rightarrow> emitter \<Rightarrow> emitter" where
  "checkMaxListeners ev a em =
     (let len = length (em_heap em a)
      in if over_max (getMaxListeners em) len \<and> a \<notin> set (em_warned em)
         then em\<lparr>em_warned := a # em_warned em, em_warnings := em_warnings em @ [(ev, len)]\<rparr>
         else em)"

definition setMaxListeners :: "jsnum \<Rightarrow> emitter \<Rightarrow> emitter \<times> (evval + bool)" where
  "setMaxListeners n em =
     (case n of
        Fin r \<Rightarrow> if r < 0 then (em, Inl MaxOutOfRange) else (em\<lparr>em_max := Some n\<rparr>, Inr True)
      | PosInf \<Rightarrow> (em\<lparr>em_max := Some n\<rparr>, Inr True)
      | _ \<Rightarrow> (em, Inl MaxOutOfRange))"

section \<open>Reading\<close>

definition has_event :: "emitter \<Rightarrow> evname \<Rightarrow> bool" where
  "has_event em ev \<longleftrightarrow> map_of (em_events em) ev \<noteq> None"

definition wrappers :: "emitter \<Rightarrow> evname \<Rightarrow> wrapper list" where
  "wrappers em ev = (case map_of (em_events em) ev of None \<Rightarrow> [] | Some a \<Rightarrow> em_heap em a)"

definition listeners :: "emitter \<Rightarrow> evname \<Rightarrow> nat list" where
  "listeners em ev = map w_fn (wrappers em ev)"

definition listenerCount :: "emitter \<Rightarrow> evname \<Rightarrow> nat" where
  "listenerCount em ev = length (wrappers em ev)"

text \<open>
  The order of own keys: the names that are array indices in ascending order, then the other strings, then
  the symbols, both as they were inserted.
\<close>

definition array_index :: "evname \<Rightarrow> nat option" where
  "array_index ev = (case ev of EvSym _ \<Rightarrow> None | EvStr s \<Rightarrow> index_key s)"

fun is_symbol :: "evname \<Rightarrow> bool" where
  "is_symbol (EvSym _) = True"
| "is_symbol (EvStr _) = False"

definition own_keys :: "evname list \<Rightarrow> evname list" where
  "own_keys ks =
     sort_key (\<lambda>k. the (array_index k)) (filter (\<lambda>k. array_index k \<noteq> None) ks) @
     filter (\<lambda>k. array_index k = None \<and> \<not> is_symbol k) ks @ filter is_symbol ks"

definition eventNames :: "emitter \<Rightarrow> evname list" where
  "eventNames em = own_keys (map fst (em_events em))"

text \<open>
  \<open>rawListeners\<close>: for every entry the user's function and the one that calling the entry calls. The
  variable \<open>w\<close> of the loop is shared by all the functions the loop makes, so they all call the function of
  the last wrapper that is removed after one call.
\<close>

definition rawListeners :: "emitter \<Rightarrow> evname \<Rightarrow> (nat \<times> nat) list" where
  "rawListeners em ev =
     (let ws = wrappers em ev; onces = filter w_once ws
      in map (\<lambda>w. (w_fn w, if w_once w then w_fn (last onces) else w_fn w)) ws)"

section \<open>Adding and removing\<close>

definition bind_outcome :: "outcome \<Rightarrow> (emitter \<Rightarrow> bool \<Rightarrow> outcome) \<Rightarrow> outcome" where
  "bind_outcome m f =
     (case m of None \<Rightarrow> None | Some (em, Inl e) \<Rightarrow> Some (em, Inl e) | Some (em, Inr b) \<Rightarrow> f em b)"

text \<open>The last lines of the four methods that add: make the array if there is none, insert, check.\<close>

definition ensure_array :: "evname \<Rightarrow> emitter \<Rightarrow> emitter \<times> nat" where
  "ensure_array ev em =
     (case map_of (em_events em) ev of
        Some a \<Rightarrow> (em, a)
      | None \<Rightarrow>
          (em\<lparr>em_events := em_events em @ [(ev, em_next em)], em_heap := (em_heap em)(em_next em := []),
              em_next := em_next em + 1\<rparr>, em_next em))"

definition insert_wrapper :: "bool \<Rightarrow> evname \<Rightarrow> nat \<Rightarrow> bool \<Rightarrow> emitter \<Rightarrow> outcome" where
  "insert_wrapper front ev fn once em =
     (let (em1, a) = ensure_array ev em;
          w = \<lparr>w_id = em_next em1, w_fn = fn, w_once = once\<rparr>;
          old = em_heap em1 a;
          em2 = em1\<lparr>em_heap := (em_heap em1)(a := if front then w # old else old @ [w]),
                    em_next := em_next em1 + 1\<rparr>
      in Some (checkMaxListeners ev a em2, Inr True))"

definition em_add ::
    "(em_op \<Rightarrow> emitter \<Rightarrow> outcome) \<Rightarrow> bool \<Rightarrow> bool \<Rightarrow> evname \<Rightarrow> nat option \<Rightarrow> emitter \<Rightarrow> outcome" where
  "em_add self front once ev listener em =
     (case listener of
        None \<Rightarrow> Some (em, Inl ListenerNotFunction)
      | Some fn \<Rightarrow>
          bind_outcome
            (if has_event em NEW_LISTENER then self (Emit NEW_LISTENER [Name ev, Fn fn]) em else Some (em, Inr True))
            (\<lambda>em1 _. insert_wrapper front ev fn once em1))"

text \<open>The position of the last wrapper of a function.\<close>

definition last_match :: "nat \<Rightarrow> wrapper list \<Rightarrow> nat option" where
  "last_match fn ws = last_index_of fn (map w_fn ws)"

definition splice1 :: "nat \<Rightarrow> 'a list \<Rightarrow> 'a list" where
  "splice1 i xs = take i xs @ drop (i + 1) xs"

definition delete_event :: "evname \<Rightarrow> emitter \<Rightarrow> emitter" where
  "delete_event ev em = em\<lparr>em_events := AList.delete ev (em_events em)\<rparr>"

definition em_off :: "(em_op \<Rightarrow> emitter \<Rightarrow> outcome) \<Rightarrow> evname \<Rightarrow> nat \<Rightarrow> emitter \<Rightarrow> outcome" where
  "em_off self ev fn em =
     (case map_of (em_events em) ev of
        None \<Rightarrow> Some (em, Inr True)
      | Some a \<Rightarrow>
          bind_outcome
            (case last_match fn (em_heap em a) of
               None \<Rightarrow> Some (em, Inr True)
             | Some i \<Rightarrow>
                 (let em1 = em\<lparr>em_heap := (em_heap em)(a := splice1 i (em_heap em a))\<rparr>
                  in if has_event em1 REMOVE_LISTENER
                     then self (Emit REMOVE_LISTENER [Name ev, Fn fn]) em1 else Some (em1, Inr True)))
            (\<lambda>em2 _. Some (if em_heap em2 a = [] then delete_event ev em2 else em2, Inr True)))"

text \<open>The loop that announces the removal of every listener; the array may change under it.\<close>

fun announce_loop ::
    "(em_op \<Rightarrow> emitter \<Rightarrow> outcome) \<Rightarrow> nat \<Rightarrow> evname \<Rightarrow> nat \<Rightarrow> nat \<Rightarrow> emitter \<Rightarrow> outcome" where
  "announce_loop self 0 ev a i em = None"
| "announce_loop self (Suc n) ev a i em =
     (if i < length (em_heap em a)
      then bind_outcome (self (Emit REMOVE_LISTENER [Name ev, Fn (w_fn (em_heap em a ! i))]) em)
             (\<lambda>em1 _. announce_loop self n ev a (i + 1) em1)
      else Some (em, Inr True))"

fun each_op :: "(em_op \<Rightarrow> emitter \<Rightarrow> outcome) \<Rightarrow> em_op list \<Rightarrow> emitter \<Rightarrow> outcome" where
  "each_op self [] em = Some (em, Inr True)"
| "each_op self (p # ps) em = bind_outcome (self p em) (\<lambda>em1 _. each_op self ps em1)"

definition em_removeAll ::
    "(em_op \<Rightarrow> emitter \<Rightarrow> outcome) \<Rightarrow> nat \<Rightarrow> evname option \<Rightarrow> emitter \<Rightarrow> outcome" where
  "em_removeAll self n event em =
     (case event of
        Some ev \<Rightarrow>
          (case map_of (em_events em) ev of
             None \<Rightarrow> Some (em, Inr True)
           | Some a \<Rightarrow>
               bind_outcome
                 (if has_event em REMOVE_LISTENER then announce_loop self n ev a 0 em else Some (em, Inr True))
                 (\<lambda>em1 _. Some (delete_event ev em1, Inr True)))
      | None \<Rightarrow>
          bind_outcome
            (each_op self (map (\<lambda>ev. RemoveAll (Some ev)) (filter (\<lambda>ev. ev \<noteq> REMOVE_LISTENER) (eventNames em))) em)
            (\<lambda>em1 _. Some (delete_event REMOVE_LISTENER em1, Inr True)))"

section \<open>emit\<close>

text \<open>A listener runs its script; a throw ends it.\<close>

fun run_script :: "(em_op \<Rightarrow> emitter \<Rightarrow> outcome) \<Rightarrow> action list \<Rightarrow> emitter \<Rightarrow> outcome" where
  "run_script self [] em = Some (em, Inr True)"
| "run_script self (Throw v # as) em = Some (em, Inl v)"
| "run_script self (Do p # as) em = bind_outcome (self p em) (\<lambda>em1 _. run_script self as em1)"

text \<open>
  The loop over the copy of the array. It returns the wrappers to remove; an error of a listener leaves the
  loop, or, with \<open>captureRejections\<close>, becomes an \<open>error\<close> event.
\<close>

fun emit_loop ::
    "(nat \<Rightarrow> evval list \<Rightarrow> action list) \<Rightarrow> (em_op \<Rightarrow> emitter \<Rightarrow> outcome) \<Rightarrow> evval list \<Rightarrow> wrapper list \<Rightarrow>
     wrapper list \<Rightarrow> emitter \<Rightarrow> (emitter \<times> (evval + wrapper list)) option" where
  "emit_loop body self args [] toRemove em = Some (em, Inr toRemove)"
| "emit_loop body self args (w # ws) toRemove em =
     (let toRemove' = (if w_once w then toRemove @ [w] else toRemove)
      in case run_script self (body (w_fn w) args) (em\<lparr>em_calls := em_calls em @ [(w_fn w, args)]\<rparr>) of
           None \<Rightarrow> None
         | Some (em1, Inr _) \<Rightarrow> emit_loop body self args ws toRemove' em1
         | Some (em1, Inl e) \<Rightarrow>
             if em_capture em1 then
               (case self (Emit ERROR_EVENT [e]) em1 of
                  None \<Rightarrow> None
                | Some (em2, Inl e2) \<Rightarrow> Some (em2, Inl e2)
                | Some (em2, Inr _) \<Rightarrow> emit_loop body self args ws toRemove' em2)
             else Some (em1, Inl e))"

fun remove_wrappers :: "wrapper list \<Rightarrow> wrapper list \<Rightarrow> wrapper list" where
  "remove_wrappers [] ws = ws"
| "remove_wrappers (r # rs) ws =
     remove_wrappers rs (case index_of (w_id r) (map w_id ws) of None \<Rightarrow> ws | Some i \<Rightarrow> splice1 i ws)"

definition em_emit ::
    "(nat \<Rightarrow> evval list \<Rightarrow> action list) \<Rightarrow> (em_op \<Rightarrow> emitter \<Rightarrow> outcome) \<Rightarrow> evname \<Rightarrow> evval list \<Rightarrow> emitter \<Rightarrow>
     outcome" where
  "em_emit body self ev args em =
     (case map_of (em_events em) ev of
        None \<Rightarrow>
          if ev = ERROR_EVENT then
            (let err = (case args of e # _ \<Rightarrow> e | [] \<Rightarrow> UnhandledError)
             in if em_domain em then Some (em\<lparr>em_domain_errors := em_domain_errors em @ [err]\<rparr>, Inr False)
                else Some (em, Inl err))
          else Some (em, Inr False)
      | Some a \<Rightarrow>
          (case emit_loop body self args (em_heap em a) [] em of
             None \<Rightarrow> None
           | Some (em1, Inl e) \<Rightarrow> Some (em1, Inl e)
           | Some (em1, Inr toRemove) \<Rightarrow>
               (let em2 = em1\<lparr>em_heap := (em_heap em1)(a := remove_wrappers toRemove (em_heap em1 a))\<rparr>
                in Some (if em_heap em2 a = [] then delete_event ev em2 else em2, Inr True))))"

section \<open>All methods\<close>

definition em_step ::
    "(nat \<Rightarrow> evval list \<Rightarrow> action list) \<Rightarrow> (em_op \<Rightarrow> emitter \<Rightarrow> outcome) \<Rightarrow> nat \<Rightarrow> em_op \<Rightarrow> emitter \<Rightarrow> outcome" where
  "em_step body self n p em =
     (case p of
        On ev l \<Rightarrow> em_add self False False ev l em
      | Once ev l \<Rightarrow> em_add self False True ev l em
      | Prepend ev l \<Rightarrow> em_add self True False ev l em
      | PrependOnce ev l \<Rightarrow> em_add self True True ev l em
      | Off ev fn \<Rightarrow> em_off self ev fn em
      | RemoveAll event \<Rightarrow> em_removeAll self n event em
      | Emit ev args \<Rightarrow> em_emit body self ev args em
      | SetMax m \<Rightarrow> Some (setMaxListeners m em))"

fun em_exec :: "(nat \<Rightarrow> evval list \<Rightarrow> action list) \<Rightarrow> nat \<Rightarrow> em_op \<Rightarrow> emitter \<Rightarrow> outcome" where
  "em_exec body 0 p em = None"
| "em_exec body (Suc n) p em = em_step body (em_exec body n) n p em"

section \<open>Fuel\<close>

text \<open>More fuel never changes an outcome.\<close>

definition extends :: "(em_op \<Rightarrow> emitter \<Rightarrow> outcome) \<Rightarrow> (em_op \<Rightarrow> emitter \<Rightarrow> outcome) \<Rightarrow> bool" where
  "extends f g \<longleftrightarrow> (\<forall>p em r. f p em = Some r \<longrightarrow> g p em = Some r)"

lemma extendsD: "extends f g \<Longrightarrow> f p em = Some r \<Longrightarrow> g p em = Some r"
  unfolding extends_def by blast

lemma bind_outcome_Some:
  "bind_outcome m f = Some r \<longleftrightarrow>
   (\<exists>em e. m = Some (em, Inl e) \<and> r = (em, Inl e)) \<or> (\<exists>em b. m = Some (em, Inr b) \<and> f em b = Some r)"
  by (auto simp: bind_outcome_def split: option.splits sum.splits)

lemma bind_outcome_mono:
  assumes "bind_outcome m f = Some r" "\<And>r. m = Some r \<Longrightarrow> m' = Some r"
    "\<And>em b r. f em b = Some r \<Longrightarrow> f' em b = Some r"
  shows "bind_outcome m' f' = Some r"
proof -
  obtain em1 o1 where m: "m = Some (em1, o1)" using assms(1) by (auto simp: bind_outcome_Some)
  then have m': "m' = Some (em1, o1)" by (rule assms(2))
  show ?thesis
  proof (cases o1)
    case (Inl e)
    then show ?thesis using assms(1) m m' by (auto simp: bind_outcome_def)
  next
    case (Inr b)
    then have "f em1 b = Some r" using assms(1) m by (simp add: bind_outcome_def)
    then show ?thesis using assms(3) Inr m' by (simp add: bind_outcome_def)
  qed
qed

lemma run_script_mono: "extends f g \<Longrightarrow> run_script f as em = Some r \<Longrightarrow> run_script g as em = Some r"
proof (induction f as em rule: run_script.induct)
  case (3 f p as em)
  then show ?case by (auto simp: bind_outcome_Some dest: extendsD)
qed simp_all

lemma each_op_mono: "extends f g \<Longrightarrow> each_op f ps em = Some r \<Longrightarrow> each_op g ps em = Some r"
  by (induction f ps em rule: each_op.induct) (auto simp: bind_outcome_Some dest: extendsD)

lemma announce_loop_mono:
  "extends f g \<Longrightarrow> n \<le> m \<Longrightarrow> announce_loop f n ev a i em = Some r \<Longrightarrow> announce_loop g m ev a i em = Some r"
proof (induction f n ev a i em arbitrary: m rule: announce_loop.induct)
  case (2 f n ev a i em)
  then obtain k where "m = Suc k" "n \<le> k" by (cases m) auto
  then show ?case using 2 by (auto simp: bind_outcome_Some split: if_splits dest: extendsD)
qed simp

lemma emit_loop_mono:
  "extends f g \<Longrightarrow> emit_loop body f args ws tr em = Some r \<Longrightarrow> emit_loop body g args ws tr em = Some r"
proof (induction ws arbitrary: tr em)
  case (Cons w ws)
  define em0 where "em0 = em\<lparr>em_calls := em_calls em @ [(w_fn w, args)]\<rparr>"
  obtain em1 o1 where s: "run_script f (body (w_fn w) args) em0 = Some (em1, o1)"
    using Cons.prems by (auto simp: em0_def Let_def split: option.splits)
  then have s': "run_script g (body (w_fn w) args) em0 = Some (em1, o1)"
    using run_script_mono Cons.prems(1) by blast
  show ?case
  proof (cases o1)
    case (Inr b)
    then show ?thesis using Cons s s' by (simp add: em0_def Let_def)
  next
    case (Inl e)
    show ?thesis
    proof (cases "em_capture em1")
      case True
      then obtain em2 o2 where "f (Emit ERROR_EVENT [e]) em1 = Some (em2, o2)"
        using Cons.prems Inl s by (auto simp: em0_def Let_def split: option.splits)
      moreover from this have "g (Emit ERROR_EVENT [e]) em1 = Some (em2, o2)"
        using Cons.prems(1) extendsD by blast
      ultimately show ?thesis using Cons Inl s s' True by (cases o2) (simp_all add: em0_def Let_def)
    next
      case False
      then show ?thesis using Cons.prems Inl s s' by (simp add: em0_def Let_def)
    qed
  qed
qed simp

lemma em_step_mono:
  assumes "extends f g" "n \<le> m" "em_step body f n p em = Some r"
  shows "em_step body g m p em = Some r"
proof -
  have add: "em_add f fr on ev l em = Some r \<Longrightarrow> em_add g fr on ev l em = Some r" for fr on ev l
    unfolding em_add_def using extendsD [OF assms(1)]
    by (auto split: option.splits if_splits elim!: bind_outcome_mono)
  have off: "em_off f ev fn em = Some r \<Longrightarrow> em_off g ev fn em = Some r" for ev fn
    unfolding em_off_def using extendsD [OF assms(1)]
    by (auto simp: Let_def split: option.splits if_splits elim!: bind_outcome_mono)
  have all: "em_removeAll f n e em = Some r \<Longrightarrow> em_removeAll g m e em = Some r" for e
    unfolding em_removeAll_def using announce_loop_mono [OF assms(1,2)] each_op_mono [OF assms(1)]
    by (auto split: option.splits if_splits elim!: bind_outcome_mono)
  have emit: "em_emit body f ev args em = Some r \<Longrightarrow> em_emit body g ev args em = Some r" for ev args
    unfolding em_emit_def using emit_loop_mono [OF assms(1)]
    by (auto split: option.splits sum.splits; fastforce)
  show ?thesis using assms(3) add off all emit by (cases p) (simp_all add: em_step_def)
qed

lemma em_exec_mono: "n \<le> m \<Longrightarrow> extends (em_exec body n) (em_exec body m)"
proof (induction n arbitrary: m)
  case 0
  then show ?case by (simp add: extends_def)
next
  case (Suc n)
  then obtain k where "m = Suc k" "n \<le> k" by (cases m) auto
  then show ?case using em_step_mono [OF Suc.IH] by (auto simp: extends_def)
qed

section \<open>The store stays well formed\<close>

text \<open>
  Events have arrays of their own, every identity in use was handed out, an array has no wrapper twice,
  and unused arrays are empty.
\<close>

definition em_wf :: "emitter \<Rightarrow> bool" where
  "em_wf em \<longleftrightarrow> distinct (map fst (em_events em)) \<and> distinct (map snd (em_events em)) \<and>
     (\<forall>a \<in> snd ` set (em_events em). a < em_next em) \<and>
     (\<forall>a. distinct (map w_id (em_heap em a)) \<and> (\<forall>w \<in> set (em_heap em a). w_id w < em_next em)) \<and>
     (\<forall>a \<ge> em_next em. em_heap em a = [])"

definition keeps_wf :: "(em_op \<Rightarrow> emitter \<Rightarrow> outcome) \<Rightarrow> bool" where
  "keeps_wf f \<longleftrightarrow> (\<forall>p em em' x. f p em = Some (em', x) \<longrightarrow> em_wf em \<longrightarrow> em_wf em')"

lemma keeps_wfD: "keeps_wf f \<Longrightarrow> f p em = Some (em', x) \<Longrightarrow> em_wf em \<Longrightarrow> em_wf em'"
  unfolding keeps_wf_def by blast

lemma bind_outcome_wf:
  assumes "bind_outcome m f = Some (em', x)" "\<And>em1 y. m = Some (em1, y) \<Longrightarrow> em_wf em1"
    "\<And>em1 b. em_wf em1 \<Longrightarrow> f em1 b = Some (em', x) \<Longrightarrow> em_wf em'"
  shows "em_wf em'"
  using assms(1) unfolding bind_outcome_Some using assms(2,3) by blast

lemma em_new_wf: "em_wf (em_new m c)"
  by (simp add: em_wf_def em_new_def)

text \<open>Changes that leave the store alone.\<close>

lemma em_wf_frame [simp]:
  "em_wf (em\<lparr>em_calls := c\<rparr>) = em_wf em"
  "em_wf (em\<lparr>em_max := m\<rparr>) = em_wf em"
  "em_wf (em\<lparr>em_domain_errors := d\<rparr>) = em_wf em"
  "em_wf (em\<lparr>em_warned := w, em_warnings := v\<rparr>) = em_wf em"
  by (simp_all add: em_wf_def)

lemma checkMax_wf [simp]: "em_wf (checkMaxListeners ev a em) = em_wf em"
  by (simp add: checkMaxListeners_def Let_def)

text \<open>Replacing an array by a part of it.\<close>

lemma em_wf_shrink:
  assumes "em_wf em" "distinct (map w_id ws)" "set ws \<subseteq> set (em_heap em a)"
  shows "em_wf (em\<lparr>em_heap := (em_heap em)(a := ws)\<rparr>)"
  using assms by (auto simp: em_wf_def)

lemma delete_event_wf [simp]: "em_wf em \<Longrightarrow> em_wf (delete_event ev em)"
  by (auto simp: em_wf_def delete_event_def AList.delete_eq distinct_map_filter)

lemma map_split_at:
  "i < length xs \<Longrightarrow> map f xs = map f (take i xs) @ f (xs ! i) # map f (drop (i + 1) xs)"
  by (metis Suc_eq_plus1 id_take_nth_drop list.simps(9) map_append)

lemma splice1_subset: "set (splice1 i xs) \<subseteq> set xs"
  by (auto simp: splice1_def dest: in_set_takeD in_set_dropD)

lemma splice1_distinct: "distinct (map f xs) \<Longrightarrow> distinct (map f (splice1 i xs))"
  by (cases "i < length xs") (simp_all add: map_split_at [of i xs f] splice1_def)

lemma remove_wrappers_filter:
  "distinct (map w_id ws) \<Longrightarrow> remove_wrappers rs ws = filter (\<lambda>w. w_id w \<notin> w_id ` set rs) ws"
proof (induction rs arbitrary: ws)
  case (Cons r rs)
  define ws' where "ws' = (case index_of (w_id r) (map w_id ws) of None \<Rightarrow> ws | Some i \<Rightarrow> splice1 i ws)"
  have "ws' = filter (\<lambda>w. w_id w \<noteq> w_id r) ws"
  proof (cases "index_of (w_id r) (map w_id ws)")
    case None
    then have "w_id r \<notin> w_id ` set ws" by simp
    then have "w_id w \<noteq> w_id r" if "w \<in> set ws" for w using that by (metis image_eqI)
    then show ?thesis using None by (simp add: ws'_def)
  next
    case (Some i)
    then have i: "i < length ws" "w_id (ws ! i) = w_id r" by (auto simp: index_of_Some)
    then have "w_id r \<notin> w_id ` set (take i ws)" "w_id r \<notin> w_id ` set (drop (i + 1) ws)"
      using Cons.prems map_split_at [of i ws w_id] by simp_all
    then have "filter (\<lambda>w. w_id w \<noteq> w_id r) (take i ws) = take i ws"
        and "filter (\<lambda>w. w_id w \<noteq> w_id r) (drop (i + 1) ws) = drop (i + 1) ws"
      unfolding filter_id_conv by (metis image_eqI)+
    moreover have "ws = take i ws @ ws ! i # drop (i + 1) ws" using id_take_nth_drop [OF i(1)] by simp
    then have "filter (\<lambda>w. w_id w \<noteq> w_id r) ws
        = filter (\<lambda>w. w_id w \<noteq> w_id r) (take i ws @ ws ! i # drop (i + 1) ws)" by (rule arg_cong)
    ultimately have "filter (\<lambda>w. w_id w \<noteq> w_id r) ws = take i ws @ drop (i + 1) ws" using i(2) by simp
    then show ?thesis using Some by (simp add: ws'_def splice1_def)
  qed
  moreover have "remove_wrappers (r # rs) ws = remove_wrappers rs ws'" by (simp add: ws'_def)
  ultimately show ?case using Cons by (simp add: distinct_map_filter conj_commute)
qed simp

lemma remove_wrappers_distinct:
  "distinct (map w_id ws) \<Longrightarrow> distinct (map w_id (remove_wrappers rs ws)) \<and> set (remove_wrappers rs ws) \<subseteq> set ws"
  by (simp add: remove_wrappers_filter distinct_map_filter)

lemma em_wf_splice: "em_wf em \<Longrightarrow> em_wf (em\<lparr>em_heap := (em_heap em)(a := splice1 i (em_heap em a))\<rparr>)"
  by (intro em_wf_shrink splice1_distinct splice1_subset) (auto simp: em_wf_def)

lemma em_wf_clear: "em_wf em \<Longrightarrow> em_wf (em\<lparr>em_heap := (em_heap em)(a := [])\<rparr>)"
  by (intro em_wf_shrink) auto

lemma em_wf_remove:
  "em_wf em \<Longrightarrow> em_wf (em\<lparr>em_heap := (em_heap em)(a := remove_wrappers rs (em_heap em a))\<rparr>)"
  by (intro em_wf_shrink) (auto simp: em_wf_def remove_wrappers_distinct dest: subsetD [OF conjunct2 [OF remove_wrappers_distinct]])

text \<open>Allocation of an empty array, and an insertion with the next identity.\<close>

lemma em_wf_new_array:
  assumes "em_wf em" "map_of (em_events em) ev = None"
  shows "em_wf (em\<lparr>em_events := em_events em @ [(ev, em_next em)], em_heap := (em_heap em)(em_next em := []),
    em_next := em_next em + 1\<rparr>)"
  using assms by (force simp: em_wf_def map_of_eq_None_iff)

lemma em_wf_insert:
  assumes "em_wf em" "a < em_next em"
  shows "em_wf (em\<lparr>em_heap := (em_heap em)(a := if front
      then \<lparr>w_id = em_next em, w_fn = fn, w_once = once\<rparr> # em_heap em a
      else em_heap em a @ [\<lparr>w_id = em_next em, w_fn = fn, w_once = once\<rparr>]), em_next := em_next em + 1\<rparr>)"
proof -
  have "em_next em \<notin> w_id ` set (em_heap em a)" using assms(1) by (fastforce simp: em_wf_def)
  then show ?thesis using assms by (force simp: em_wf_def)
qed

lemma em_wf_lookup: "em_wf em \<Longrightarrow> map_of (em_events em) ev = Some a \<Longrightarrow> a < em_next em"
  by (force simp: em_wf_def dest: map_of_SomeD)

lemma ensure_array_wf:
  assumes "em_wf em" "ensure_array ev em = (em1, a)"
  shows "em_wf em1 \<and> a < em_next em1 \<and> map_of (em_events em1) ev = Some a"
proof (cases "map_of (em_events em) ev")
  case None
  then show ?thesis using assms(2) em_wf_new_array [OF assms(1) None]
    by (auto simp: ensure_array_def map_add_def)
next
  case (Some a)
  then show ?thesis using assms em_wf_lookup [OF assms(1) Some] by (simp add: ensure_array_def)
qed

lemma insert_wrapper_wf:
  assumes "em_wf em" "insert_wrapper front ev fn once em = Some (em', x)"
  shows "em_wf em'"
proof -
  obtain em1 a where e: "ensure_array ev em = (em1, a)" by fastforce
  then have "em_wf em1" "a < em_next em1" using ensure_array_wf [OF assms(1)] by blast+
  then show ?thesis
    using assms(2) em_wf_insert [of em1 a front fn once] by (auto simp: insert_wrapper_def e Let_def)
qed

lemma run_script_wf:
  "keeps_wf f \<Longrightarrow> run_script f as em = Some (em', x) \<Longrightarrow> em_wf em \<Longrightarrow> em_wf em'"
proof (induction f as em rule: run_script.induct)
  case (3 f p as em)
  then show ?case by (auto elim!: bind_outcome_wf simp: bind_outcome_Some dest: keeps_wfD)
qed simp_all

lemma each_op_wf: "keeps_wf f \<Longrightarrow> each_op f ps em = Some (em', x) \<Longrightarrow> em_wf em \<Longrightarrow> em_wf em'"
  by (induction f ps em rule: each_op.induct) (auto simp: bind_outcome_Some dest: keeps_wfD)

lemma announce_loop_wf:
  "keeps_wf f \<Longrightarrow> announce_loop f n ev a i em = Some (em', x) \<Longrightarrow> em_wf em \<Longrightarrow> em_wf em'"
  by (induction f n ev a i em rule: announce_loop.induct)
    (auto simp: bind_outcome_Some split: if_splits dest: keeps_wfD)

lemma emit_loop_wf:
  "keeps_wf f \<Longrightarrow> emit_loop body f args ws tr em = Some (em', x) \<Longrightarrow> em_wf em \<Longrightarrow> em_wf em'"
proof (induction ws arbitrary: tr em)
  case (Cons w ws)
  obtain em1 o1 where s: "run_script f (body (w_fn w) args) (em\<lparr>em_calls := em_calls em @ [(w_fn w, args)]\<rparr>) = Some (em1, o1)"
    using Cons.prems by (auto simp: Let_def split: option.splits)
  then have wf1: "em_wf em1" using run_script_wf [OF Cons.prems(1)] Cons.prems(3) by simp
  show ?case
  proof (cases o1)
    case (Inr b)
    then show ?thesis using Cons.IH [OF Cons.prems(1)] Cons.prems(2) s wf1 by (simp add: Let_def)
  next
    case (Inl e)
    show ?thesis
    proof (cases "em_capture em1")
      case True
      then obtain em2 o2 where "f (Emit ERROR_EVENT [e]) em1 = Some (em2, o2)"
        using Cons.prems Inl s by (auto simp: Let_def split: option.splits)
      moreover from this have "em_wf em2" using keeps_wfD [OF Cons.prems(1)] wf1 by blast
      ultimately show ?thesis
        using Cons.IH [OF Cons.prems(1)] Cons.prems(2) Inl s True by (cases o2) (simp_all add: Let_def)
    next
      case False
      then show ?thesis using Cons.prems Inl s wf1 by (simp add: Let_def)
    qed
  qed
qed simp

lemma em_step_wf:
  assumes "keeps_wf f"
  shows "em_step body f n p em = Some (em', x) \<Longrightarrow> em_wf em \<Longrightarrow> em_wf em'"
proof -
  assume step: "em_step body f n p em = Some (em', x)" and wf: "em_wf em"
  have add: "em_wf em'" if "em_add f fr on ev l em = Some (em', x)" for fr on ev l
    using that wf keeps_wfD [OF assms] insert_wrapper_wf
    by (auto simp: em_add_def split: option.splits if_splits elim!: bind_outcome_wf)
  have off: "em_wf em'" if "em_off f ev fn em = Some (em', x)" for ev fn
    using that wf keeps_wfD [OF assms] em_wf_splice [OF wf]
    by (auto simp: em_off_def Let_def split: option.splits if_splits elim!: bind_outcome_wf)
  have all: "em_wf em'" if "em_removeAll f n e em = Some (em', x)" for e
    using that wf announce_loop_wf [OF assms] each_op_wf [OF assms]
    by (auto simp: em_removeAll_def split: option.splits if_splits elim!: bind_outcome_wf)
  have emit: "em_wf em'" if "em_emit body f ev args em = Some (em', x)" for ev args
    using that wf emit_loop_wf [OF assms]
    by (auto simp: em_emit_def em_wf_remove em_wf_clear Let_def split: option.splits sum.splits if_splits)
  have max: "em_wf em'" if "setMaxListeners m em = (em', x)" for m
    using that wf by (auto simp: setMaxListeners_def split: jsnum.splits if_splits)
  show ?thesis using step add off all emit max by (cases p) (simp_all add: em_step_def)
qed

lemma em_exec_wf: "keeps_wf (em_exec body n)"
proof (induction n)
  case (Suc n)
  show ?case using em_step_wf [OF Suc] by (auto simp: keeps_wf_def)
qed (simp add: keeps_wf_def)

section \<open>Registration without meta listeners\<close>

text \<open>
  What a registry of listeners promises: \<open>add\<close> appends, \<open>remove\<close> takes the last match away, and other
  keys are untouched. \<open>key\<close> delimits the keys a client may use.
\<close>

locale listener_registry =
  fixes ok :: "'r \<Rightarrow> bool"
    and key :: "'e \<Rightarrow> bool"
    and get :: "'r \<Rightarrow> 'e \<Rightarrow> 'l list"
    and add :: "'r \<Rightarrow> 'e \<Rightarrow> 'l \<Rightarrow> 'r"
    and remove :: "'r \<Rightarrow> 'e \<Rightarrow> 'l \<Rightarrow> 'r"
  assumes ok_add: "ok r \<Longrightarrow> key e \<Longrightarrow> ok (add r e l)"
    and ok_remove: "ok r \<Longrightarrow> key e \<Longrightarrow> ok (remove r e l)"
    and get_add: "ok r \<Longrightarrow> key e \<Longrightarrow> get (add r e l) e' = (if e' = e then get r e @ [l] else get r e')"
    and get_remove_last: "ok r \<Longrightarrow> key e \<Longrightarrow> get r e = xs @ [l] \<Longrightarrow> get (remove r e l) e' = (if e' = e then xs else get r e')"
begin

lemma remove_add: "ok r \<Longrightarrow> key e \<Longrightarrow> get (remove (add r e l) e l) = get r"
  using get_remove_last [OF ok_add, of r e] by (auto simp: get_add fun_eq_iff)

lemma get_adds:
  "ok r \<Longrightarrow> key e \<Longrightarrow> get (foldl (\<lambda>r l. add r e l) r ls) e = get r e @ ls"
  by (induction ls arbitrary: r) (simp_all add: get_add ok_add)

end

definition quiet :: "emitter \<Rightarrow> bool" where
  "quiet em \<longleftrightarrow> em_wf em \<and> \<not> has_event em NEW_LISTENER \<and> \<not> has_event em REMOVE_LISTENER"

definition plain_event :: "evname \<Rightarrow> bool" where
  "plain_event ev \<longleftrightarrow> ev \<noteq> NEW_LISTENER \<and> ev \<noteq> REMOVE_LISTENER"

definition state_of :: "outcome \<Rightarrow> emitter \<Rightarrow> emitter" where
  "state_of r em = (case r of None \<Rightarrow> em | Some (em', _) \<Rightarrow> em')"

definition em_on1 :: "emitter \<Rightarrow> evname \<Rightarrow> nat \<Rightarrow> emitter" where
  "em_on1 em ev fn = state_of (em_exec (\<lambda>_ _. []) 1 (On ev (Some fn)) em) em"

definition em_off1 :: "emitter \<Rightarrow> evname \<Rightarrow> nat \<Rightarrow> emitter" where
  "em_off1 em ev fn = state_of (em_exec (\<lambda>_ _. []) 1 (Off ev fn) em) em"

lemma checkMax_fields [simp]:
  "em_events (checkMaxListeners ev a em) = em_events em" "em_heap (checkMaxListeners ev a em) = em_heap em"
  "em_next (checkMaxListeners ev a em) = em_next em"
  by (simp_all add: checkMaxListeners_def Let_def)

lemma em_wf_arrays:
  assumes "em_wf em" "map_of (em_events em) ev = Some a" "map_of (em_events em) ev' = Some a"
  shows "ev' = ev"
proof -
  have "inj_on snd (set (em_events em))" using assms(1) by (simp add: em_wf_def distinct_map)
  then show ?thesis
    using inj_onD [of snd "set (em_events em)" "(ev', a)" "(ev, a)"] assms(2,3) by (auto dest: map_of_SomeD)
qed

lemma ensure_array_fields:
  assumes "em_wf em" "ensure_array ev em = (em1, a)"
  shows "wrappers em1 ev' = wrappers em ev'" "map_of (em_events em1) ev = Some a"
    "ev' \<noteq> ev \<Longrightarrow> map_of (em_events em1) ev' = map_of (em_events em) ev'"
    "ev' \<noteq> ev \<Longrightarrow> map_of (em_events em1) ev' \<noteq> Some a"
proof -
  have "em_heap em (em_next em) = []" using assms(1) by (simp add: em_wf_def)
  moreover have lt: "map_of (em_events em) x = Some b \<Longrightarrow> b < em_next em" for x b
    using em_wf_lookup [OF assms(1)] by blast
  ultimately show "wrappers em1 ev' = wrappers em ev'" "map_of (em_events em1) ev = Some a"
    "ev' \<noteq> ev \<Longrightarrow> map_of (em_events em1) ev' = map_of (em_events em) ev'"
    using assms(2) lt [of ev']
    by (auto simp: ensure_array_def wrappers_def map_add_def split: option.splits if_splits)
  show "ev' \<noteq> ev \<Longrightarrow> map_of (em_events em1) ev' \<noteq> Some a"
    using ensure_array_wf [OF assms] em_wf_arrays by blast
qed

lemma insert_wrapper_effect:
  assumes "em_wf em"
  obtains em' w where "insert_wrapper front ev fn once em = Some (em', Inr True)" "w_fn w = fn" "w_once w = once"
    "\<And>ev'. wrappers em' ev' = (if ev' = ev then (if front then w # wrappers em ev else wrappers em ev @ [w])
        else wrappers em ev')"
    "\<And>ev'. has_event em' ev' \<longleftrightarrow> ev' = ev \<or> has_event em ev'"
proof -
  obtain em1 a where e: "ensure_array ev em = (em1, a)" by fastforce
  define w where "w = \<lparr>w_id = em_next em1, w_fn = fn, w_once = once\<rparr>"
  define em2 where "em2 = checkMaxListeners ev a (em1\<lparr>em_heap := (em_heap em1)(a := if front then w # em_heap em1 a
      else em_heap em1 a @ [w]), em_next := em_next em1 + 1\<rparr>)"
  have r: "insert_wrapper front ev fn once em = Some (em2, Inr True)"
    by (simp add: insert_wrapper_def e Let_def em2_def w_def)
  have h: "em_heap em1 a = wrappers em ev"
    using ensure_array_fields(1) [OF assms e, of ev] ensure_array_fields(2) [OF assms e] by (simp add: wrappers_def)
  have "wrappers em2 ev' = (if ev' = ev then (if front then w # wrappers em ev else wrappers em ev @ [w])
        else wrappers em ev')" for ev'
  proof (cases "ev' = ev")
    case True
    then show ?thesis using ensure_array_fields(2) [OF assms e] h by (simp add: wrappers_def em2_def)
  next
    case False
    then show ?thesis
      using ensure_array_fields(1,4) [OF assms e, of ev'] by (auto simp: wrappers_def em2_def split: option.splits)
  qed
  moreover have "has_event em2 ev' \<longleftrightarrow> ev' = ev \<or> has_event em ev'" for ev'
    using ensure_array_fields(2) [OF assms e] ensure_array_fields(3) [OF assms e, of ev']
    by (cases "ev' = ev") (simp_all add: has_event_def em2_def)
  ultimately show thesis by (intro that [OF r, of w]) (simp_all add: w_def)
qed

lemma on1_effect:
  assumes "quiet em"
  obtains em' w where "em_exec (\<lambda>_ _. []) 1 (On ev (Some fn)) em = Some (em', Inr True)" "em_wf em'" "w_fn w = fn"
    "\<And>ev'. wrappers em' ev' = (if ev' = ev then wrappers em ev @ [w] else wrappers em ev')"
    "\<And>ev'. has_event em' ev' \<longleftrightarrow> ev' = ev \<or> has_event em ev'"
proof -
  have wf: "em_wf em" and no: "\<not> has_event em NEW_LISTENER" using assms by (simp_all add: quiet_def)
  obtain em' w where i: "insert_wrapper False ev fn False em = Some (em', Inr True)" "w_fn w = fn"
    "\<And>ev'. wrappers em' ev' = (if ev' = ev then wrappers em ev @ [w] else wrappers em ev')"
    "\<And>ev'. has_event em' ev' \<longleftrightarrow> ev' = ev \<or> has_event em ev'"
    using insert_wrapper_effect [OF wf, of False ev fn False] by (metis (no_types, lifting))
  moreover have "em_exec (\<lambda>_ _. []) 1 (On ev (Some fn)) em = insert_wrapper False ev fn False em"
    using no by (simp add: em_step_def em_add_def bind_outcome_def eval_nat_numeral)
  ultimately show thesis using that insert_wrapper_wf [OF wf i(1)] by metis
qed

lemma off1_effect:
  assumes "quiet em"
  obtains em' where "em_exec (\<lambda>_ _. []) 1 (Off ev fn) em = Some (em', Inr True)" "em_wf em'"
    "\<And>ev'. wrappers em' ev' = (if ev' = ev then
        (case last_match fn (wrappers em ev) of None \<Rightarrow> wrappers em ev | Some i \<Rightarrow> splice1 i (wrappers em ev))
      else wrappers em ev')"
    "\<And>ev'. has_event em' ev' \<Longrightarrow> has_event em ev'"
proof -
  have wf: "em_wf em" and no: "\<not> has_event em REMOVE_LISTENER" using assms by (simp_all add: quiet_def)
  show thesis
  proof (cases "map_of (em_events em) ev")
    case None
    then show thesis
      using wf by (intro that [of em]) (simp_all add: em_step_def em_off_def wrappers_def last_match_def)
  next
    case (Some a)
    define ws where "ws = (case last_match fn (em_heap em a) of None \<Rightarrow> em_heap em a | Some i \<Rightarrow> splice1 i (em_heap em a))"
    define em1 where "em1 = em\<lparr>em_heap := (em_heap em)(a := ws)\<rparr>"
    define em2 where "em2 = (if ws = [] then delete_event ev em1 else em1)"
    have same: "em\<lparr>em_heap := (em_heap em)(a := em_heap em a)\<rparr> = em" by simp
    have "em_exec (\<lambda>_ _. []) 1 (Off ev fn) em = Some (em2, Inr True)"
      using Some no same
      by (auto simp: em_step_def em_off_def bind_outcome_def has_event_def em2_def em1_def ws_def Let_def
          fun_upd_idem split: option.split)
    moreover have "em_wf em2"
      using wf em_wf_splice [OF wf] em_wf_clear [OF wf] same by (auto simp: em2_def em1_def ws_def split: option.split)
    moreover have other: "map_of (em_events em) ev' \<noteq> Some a" if "ev' \<noteq> ev" for ev'
      using that Some em_wf_arrays [OF wf] by blast
    moreover have "wrappers em2 ev' = (if ev' = ev then
        (case last_match fn (wrappers em ev) of None \<Rightarrow> wrappers em ev | Some i \<Rightarrow> splice1 i (wrappers em ev))
      else wrappers em ev')" for ev'
      using Some other [of ev']
      by (auto simp: wrappers_def em2_def em1_def ws_def delete_event_def AList.delete_conv split: option.splits)
    moreover have "has_event em2 ev' \<Longrightarrow> has_event em ev'" for ev'
      by (auto simp: has_event_def em2_def em1_def delete_event_def AList.delete_conv split: if_splits)
    ultimately show thesis using that by blast
  qed
qed

lemma splice1_map: "map f (splice1 i xs) = splice1 i (map f xs)"
  by (simp add: splice1_def take_map drop_map)

lemma remove_last_match:
  assumes "map w_fn ws = xs @ [fn]"
  shows "map w_fn (case last_match fn ws of None \<Rightarrow> ws | Some i \<Rightarrow> splice1 i ws) = xs"
proof -
  have "last_match fn ws = Some (length xs)" using assms last_index_of_append [of fn "[]" xs] by (simp add: last_match_def)
  then show ?thesis using assms by (simp add: splice1_map) (simp add: splice1_def)
qed

interpretation em: listener_registry quiet plain_event listeners em_on1 em_off1
proof unfold_locales
  fix em ev ev' fn
  assume q: "quiet em" and pl: "plain_event ev"
  obtain em' w where o: "em_exec (\<lambda>_ _. []) 1 (On ev (Some fn)) em = Some (em', Inr True)" "em_wf em'" "w_fn w = fn"
    "\<And>ev'. wrappers em' ev' = (if ev' = ev then wrappers em ev @ [w] else wrappers em ev')"
    "\<And>ev'. has_event em' ev' \<longleftrightarrow> ev' = ev \<or> has_event em ev'"
    using on1_effect [OF q] by metis
  then show "quiet (em_on1 em ev fn)"
    using q pl by (auto simp: em_on1_def state_of_def quiet_def plain_event_def)
  show "listeners (em_on1 em ev fn) ev' = (if ev' = ev then listeners em ev @ [fn] else listeners em ev')"
    using o(1,3,4) by (simp add: em_on1_def state_of_def listeners_def)
next
  fix em ev ev' fn xs
  assume q: "quiet em" and pl: "plain_event ev"
  obtain em' where f: "em_exec (\<lambda>_ _. []) 1 (Off ev fn) em = Some (em', Inr True)" "em_wf em'"
    "\<And>ev'. wrappers em' ev' = (if ev' = ev then
        (case last_match fn (wrappers em ev) of None \<Rightarrow> wrappers em ev | Some i \<Rightarrow> splice1 i (wrappers em ev))
      else wrappers em ev')"
    "\<And>ev'. has_event em' ev' \<Longrightarrow> has_event em ev'"
    using off1_effect [OF q] by metis
  then show "quiet (em_off1 em ev fn)" using q by (auto simp: em_off1_def state_of_def quiet_def)
  assume "listeners em ev = xs @ [fn]"
  then show "listeners (em_off1 em ev fn) ev' = (if ev' = ev then xs else listeners em ev')"
    using f(1,3) remove_last_match [of "wrappers em ev" xs fn] by (simp add: em_off1_def state_of_def listeners_def)
qed

section \<open>Emission to observers\<close>

text \<open>Listeners that do not call the emitter and do not throw.\<close>

definition observer :: "(nat \<Rightarrow> evval list \<Rightarrow> action list) \<Rightarrow> nat \<Rightarrow> bool" where
  "observer body fn \<longleftrightarrow> (\<forall>args. body fn args = [])"

lemma emit_loop_observers:
  "\<forall>w \<in> set ws. observer body (w_fn w) \<Longrightarrow>
   emit_loop body self args ws tr em
   = Some (em\<lparr>em_calls := em_calls em @ map (\<lambda>w. (w_fn w, args)) ws\<rparr>, Inr (tr @ filter w_once ws))"
  by (induction ws arbitrary: tr em) (simp_all add: observer_def Let_def)

lemma remove_onces:
  assumes "distinct (map w_id ws)"
  shows "remove_wrappers (filter w_once ws) ws = filter (\<lambda>w. \<not> w_once w) ws"
proof -
  have "inj_on w_id (set ws)" using assms by (simp add: distinct_map)
  then have "w_id w \<in> w_id ` set (filter w_once ws) \<longleftrightarrow> w_once w" if "w \<in> set ws" for w
    using that by (auto dest: inj_onD)
  then show ?thesis unfolding remove_wrappers_filter [OF assms] by (intro filter_cong) auto
qed

lemma quiet_new: "quiet (em_new m c)"
proof -
  have "\<not> has_event (em_new m c) ev" for ev by (simp add: has_event_def em_new_def)
  then show ?thesis by (simp add: quiet_def em_new_wf)
qed

section \<open>Theorems\<close>

text \<open>C34: emitting an event calls its listeners once each, in the order of registration, with the
  arguments given, then removes exactly those registered by \<open>once\<close>; the listeners of other events stay. This
  is for listeners that only observe.\<close>

theorem emit_order:
  assumes "em_wf em" and "has_event em ev" and "\<And>fn. fn \<in> set (listeners em ev) \<Longrightarrow> observer body fn"
  shows "\<exists>em'. em_exec body (Suc n) (Emit ev args) em = Some (em', Inr True) \<and>
    em_calls em' = em_calls em @ map (\<lambda>fn. (fn, args)) (listeners em ev) \<and>
    wrappers em' ev = filter (\<lambda>w. \<not> w_once w) (wrappers em ev) \<and>
    (\<forall>ev'. ev' \<noteq> ev \<longrightarrow> wrappers em' ev' = wrappers em ev')"
proof -
  obtain a where a: "map_of (em_events em) ev = Some a" using assms(2) by (auto simp: has_event_def)
  then have h: "em_heap em a = wrappers em ev" by (simp add: wrappers_def)
  define ws where "ws = filter (\<lambda>w. \<not> w_once w) (em_heap em a)"
  define em1 where "em1 = em\<lparr>em_calls := em_calls em @ map (\<lambda>w. (w_fn w, args)) (em_heap em a)\<rparr>"
  define em2 where "em2 = em1\<lparr>em_heap := (em_heap em)(a := ws)\<rparr>"
  have loop: "emit_loop body (em_exec body n) args (em_heap em a) [] em
      = Some (em1, Inr (filter w_once (em_heap em a)))"
    using assms(3) by (simp add: emit_loop_observers listeners_def h em1_def)
  moreover have "remove_wrappers (filter w_once (em_heap em a)) (em_heap em a) = ws"
    unfolding ws_def by (rule remove_onces) (use assms(1) in \<open>simp add: em_wf_def\<close>)
  moreover have "em_heap em1 = em_heap em" by (simp add: em1_def)
  ultimately have "em_exec body (Suc n) (Emit ev args) em
      = Some (if ws = [] then delete_event ev em2 else em2, Inr True)"
    using a by (simp add: em_step_def em_emit_def em2_def Let_def)
  moreover have other: "map_of (em_events em) ev' \<noteq> Some a" if "ev' \<noteq> ev" for ev'
    using that a em_wf_arrays [OF assms(1)] by blast
  define em3 where "em3 = (if ws = [] then delete_event ev em2 else em2)"
  have "em_calls em3 = em_calls em @ map (\<lambda>fn. (fn, args)) (listeners em ev)"
    by (simp add: em3_def delete_event_def em2_def em1_def listeners_def h comp_def)
  moreover have "wrappers em3 ev = filter (\<lambda>w. \<not> w_once w) (wrappers em ev)"
    using a h by (cases "ws = []") (simp_all add: em3_def delete_event_def em2_def em1_def wrappers_def
        AList.delete_conv, simp_all add: ws_def)
  moreover have "wrappers em3 ev' = wrappers em ev'" if "ev' \<noteq> ev" for ev'
    using that other [OF that] by (cases "map_of (em_events em) ev'")
      (auto simp: em3_def delete_event_def em2_def em1_def wrappers_def AList.delete_conv)
  ultimately show ?thesis unfolding em3_def by blast
qed

theorem emit_order_witness:
  "\<exists>em'. em_exec (\<lambda>_ _. []) 1 (Emit (EvSym 0) [Val 7])
      (em_on1 (em_new (Fin 10) False) (EvSym 0) 5) = Some (em', Inr True) \<and>
    em_calls em' = em_calls (em_on1 (em_new (Fin 10) False) (EvSym 0) 5) @ map (\<lambda>fn. (fn, [Val 7])) [5] \<and>
    wrappers em' (EvSym 0) = filter (\<lambda>w. \<not> w_once w) (wrappers (em_on1 (em_new (Fin 10) False) (EvSym 0) 5) (EvSym 0)) \<and>
    (\<forall>ev'. ev' \<noteq> EvSym 0 \<longrightarrow> wrappers em' ev' = wrappers (em_on1 (em_new (Fin 10) False) (EvSym 0) 5) ev')"
proof -
  note q = quiet_new [of "Fin 10" False]
  have pl: "plain_event (EvSym 0)" by (simp add: plain_event_def NEW_LISTENER_def REMOVE_LISTENER_def)
  have l: "listeners (em_on1 (em_new (Fin 10) False) (EvSym 0) 5) (EvSym 0) = [5]"
    using em.get_add [OF q pl] by (simp add: listeners_def wrappers_def em_new_def)
  then have "has_event (em_on1 (em_new (Fin 10) False) (EvSym 0) 5) (EvSym 0)"
    by (auto simp: listeners_def wrappers_def has_event_def split: option.splits)
  from emit_order [of "em_on1 (em_new (Fin 10) False) (EvSym 0) 5" "EvSym 0" "\<lambda>_ _. []" 0 "[Val 7]", OF _ this]
  show ?thesis using em.ok_add [OF q pl] l by (simp add: quiet_def observer_def)
qed

text \<open>with no listeners for the two meta events, \<open>off\<close> right after \<open>on\<close> with the same function
  restores the listeners of every event, and a sequence of \<open>on\<close> calls appends in order.\<close>

theorem on_off_registry:
  assumes "quiet em" and "plain_event ev"
  shows "listeners (em_off1 (em_on1 em ev fn) ev fn) = listeners em \<and>
    listeners (foldl (\<lambda>em fn. em_on1 em ev fn) em fns) ev = listeners em ev @ fns"
  using em.remove_add [OF assms] em.get_adds [OF assms] by blast

theorem on_off_registry_witness:
  "listeners (em_off1 (em_on1 (em_new PosInf False) (EvSym 1) 3) (EvSym 1) 3) = listeners (em_new PosInf False) \<and>
    listeners (foldl (\<lambda>em fn. em_on1 em (EvSym 1) fn) (em_new PosInf False) [3, 4, 3]) (EvSym 1)
      = listeners (em_new PosInf False) (EvSym 1) @ [3, 4, 3]"
  by (rule on_off_registry)
    (simp_all add: quiet_new plain_event_def NEW_LISTENER_def REMOVE_LISTENER_def)

text \<open>whatever the listeners do, also when they add, remove, emit or throw while an event is being
  emitted, every method keeps the store of arrays well formed: no two events share an array and no array has
  a wrapper twice. More fuel does not change an outcome.\<close>

theorem emitter_store_wf:
  "(\<forall>em' x. em_exec body n p em = Some (em', x) \<longrightarrow> em_wf em \<longrightarrow> em_wf em') \<and>
   (\<forall>m r. n \<le> m \<longrightarrow> em_exec body n p em = Some r \<longrightarrow> em_exec body m p em = Some r)"
  using em_exec_wf [of body n] em_exec_mono [of n _ body]
  unfolding keeps_wf_def extends_def by blast

theorem emitter_store_wf_witness:
  "em_wf (state_of (em_exec (\<lambda>_ _. []) 1 (On (EvSym 0) (Some 1)) (em_new (Fin 10) False)) (em_new (Fin 10) False))"
proof -
  note q = quiet_new [of "Fin 10" False]
  obtain em' where "em_exec (\<lambda>_ _. []) 1 (On (EvSym 0) (Some 1)) (em_new (Fin 10) False) = Some (em', Inr True)"
    using on1_effect [OF q] by metis
  then show ?thesis
    using emitter_store_wf [of "\<lambda>_ _. []" 1 "On (EvSym 0) (Some 1)" "em_new (Fin 10) False"] em_new_wf [of "Fin 10" False]
    by (simp add: state_of_def)
qed

text \<open>
  Facts behind the findings. A listener that takes itself off and on again while it is called leaves the
  event without listeners; a \<open>once\<close> listener that emits the event again is called twice; and an entry of
  \<open>rawListeners\<close> calls the function of another entry.
\<close>

definition outcome_listeners :: "outcome \<Rightarrow> evname \<Rightarrow> nat list" where
  "outcome_listeners r ev = (case r of None \<Rightarrow> [] | Some (em, _) \<Rightarrow> listeners em ev)"

definition outcome_calls :: "outcome \<Rightarrow> nat list" where
  "outcome_calls r = (case r of None \<Rightarrow> [] | Some (em, _) \<Rightarrow> map fst (em_calls em))"

definition resubscribe :: "nat \<Rightarrow> evval list \<Rightarrow> action list" where
  "resubscribe fn args = [Do (Off (EvSym 0) fn), Do (On (EvSym 0) (Some fn))]"

lemma resubscription_lost:
  "outcome_listeners (em_exec resubscribe 3 (Emit (EvSym 0) []) (em_on1 (em_new (Fin 10) False) (EvSym 0) 5)) (EvSym 0) = []"
  by code_simp

definition reemit :: "nat \<Rightarrow> evval list \<Rightarrow> action list" where
  "reemit fn args = (if args = [Val 0] then [Do (Emit (EvSym 0) [Val 1])] else [])"

lemma once_called_twice:
  "outcome_calls (em_exec reemit 3 (Emit (EvSym 0) [Val 0])
     (state_of (em_exec reemit 1 (Once (EvSym 0) (Some 5)) (em_new (Fin 10) False)) (em_new (Fin 10) False))) = [5, 5]"
  by code_simp

lemma rawListeners_shared:
  "rawListeners (state_of (em_exec reemit 1 (Once (EvSym 0) (Some 6))
     (state_of (em_exec reemit 1 (Once (EvSym 0) (Some 5)) (em_new (Fin 10) False)) (em_new (Fin 10) False)))
       (em_new (Fin 10) False)) (EvSym 0) = [(5, 6), (6, 6)]"
  by code_simp

end
