(* ===== verification/HttpCore.thy ===== *)
theory HttpCore
  imports Url
begin

text \<open>
  \<open>http_core.js\<close>: the HTTP/1.1 primitives that \<open>http.js\<close>, \<open>https.js\<close> and \<open>http_proxy.js\<close> share. Messages are
  latin1 text, one code unit per byte. An object of headers is a partial map from lower-case names; it is an
  ordinary object of the language, so the two lower-case names that objects inherit (\<open>constructor\<close> and
  \<open>__proto__\<close>) are not \<open>undefined\<close> before they are set, and adding such a header throws. The loop of
  \<open>decodeChunkedSection\<close> is a partial function: \<open>None\<close> is a call that does not return.
\<close>

section \<open>Lines\<close>

definition CRLF :: jsstr where "CRLF = [13, 10]"

function findCRLF :: "jsstr \<Rightarrow> nat \<Rightarrow> nat option" where
  "findCRLF data i =
     (if i + 1 < length data
      then (if data ! i = 13 \<and> data ! (i + 1) = 10 then Some i else findCRLF data (i + 1))
      else None)"
  by pat_completeness auto
termination by (relation "measure (\<lambda>(data, i). length data - i)") auto

declare findCRLF.simps [simp del]

text \<open>\<open>findCRLF\<close> is \<open>indexOf\<close>, so it moves forward.\<close>

lemma findCRLF_index: "findCRLF data i = map_option (\<lambda>k. i + k) (index_of_str CRLF (drop i data))"
proof (induction data i rule: findCRLF.induct)
  case (1 data i)
  show ?case
  proof (cases "i + 1 < length data")
    case True
    then have "drop (i + 1) data = data ! (i + 1) # drop (i + 2) data"
      using Cons_nth_drop_Suc [of "i + 1" data] by simp
    moreover from this True have d: "drop i data = data ! i # data ! (i + 1) # drop (i + 2) data"
      using Cons_nth_drop_Suc [of i data] by simp
    ultimately show ?thesis
      using 1 [OF True] True d by (subst findCRLF.simps) (auto simp: CRLF_def option.map_comp comp_def)
  next
    case False
    then have "drop i data = [] \<or> (\<exists>c. drop i data = [c])"
      by (cases "drop i data"; cases "tl (drop i data)") (auto dest: arg_cong [where f = length])
    then show ?thesis using False by (subst findCRLF.simps) (auto simp: CRLF_def)
  qed
qed

lemma findCRLF_bounds: "findCRLF data i = Some nl \<Longrightarrow> i \<le> nl \<and> nl + 2 \<le> length data"
  using index_of_str_Some [of CRLF "drop i data" "nl - i"] by (auto simp: findCRLF_index CRLF_def)

function split_lines :: "jsstr \<Rightarrow> nat \<Rightarrow> jsstr list" where
  "split_lines s pos =
     (if pos < length s
      then (case findCRLF s pos of
              None \<Rightarrow> [drop pos s]
            | Some nl \<Rightarrow> slice s pos nl # split_lines s (nl + 2))
      else [])"
  by pat_completeness auto
termination by (relation "measure (\<lambda>(s, pos). length s - pos)") (auto dest: findCRLF_bounds)

declare split_lines.simps [simp del]

definition splitHeaderLines :: "jsstr \<Rightarrow> jsstr list" where
  "splitHeaderLines headerSection = split_lines headerSection 0"

section \<open>Headers\<close>

datatype hval = One jsstr | Many "jsstr list"

type_synonym headers = "jsstr \<rightharpoonup> hval"

record finalized =
  fin_headers :: headers
  fin_distinct :: "jsstr \<rightharpoonup> jsstr list"

definition DUPLICATE_DISCARD :: "jsstr \<Rightarrow> bool" where
  "DUPLICATE_DISCARD n \<longleftrightarrow>
     n \<in> {js ''age'', js ''authorization'', js ''content-length'', js ''content-type'', js ''etag'', js ''expires'',
          js ''from'', js ''host'', js ''if-modified-since'', js ''if-unmodified-since'', js ''last-modified'',
          js ''location'', js ''max-forwards'', js ''proxy-authorization'', js ''referer'', js ''retry-after'',
          js ''server'', js ''user-agent''}"

definition SET_COOKIE :: jsstr where "SET_COOKIE = js ''set-cookie''"
definition COOKIE :: jsstr where "COOKIE = js ''cookie''"

definition inherited_name :: "jsstr \<Rightarrow> bool" where
  "inherited_name n \<longleftrightarrow> n = js ''constructor'' \<or> n = js ''__proto__''"

text \<open>\<open>String(v)\<close> of a header value: an array is joined by commas.\<close>

fun hval_string :: "hval \<Rightarrow> jsstr" where
  "hval_string (One s) = s"
| "hval_string (Many vs) = join_with [44] vs"

definition add_header :: "bool \<Rightarrow> jsstr \<Rightarrow> jsstr \<Rightarrow> headers \<Rightarrow> headers" where
  "add_header join n value hs =
     (if n = SET_COOKIE then
        (case hs n of
           None \<Rightarrow> hs(n \<mapsto> One value)
         | Some (Many vs) \<Rightarrow> hs(n \<mapsto> Many (vs @ [value]))
         | Some (One v) \<Rightarrow> hs(n \<mapsto> Many [v, value]))
      else if n = COOKIE then
        (case hs n of
           None \<Rightarrow> hs(n \<mapsto> One value)
         | Some v \<Rightarrow> hs(n \<mapsto> One (hval_string v @ js ''; '' @ value)))
      else
        (case hs n of
           Some v \<Rightarrow> if join \<or> \<not> DUPLICATE_DISCARD n then hs(n \<mapsto> One (hval_string v @ js '', '' @ value)) else hs
         | None \<Rightarrow> hs(n \<mapsto> One value)))"

text \<open>The array \<open>rawHeaders\<close> holds names and values by turns; the callers make it of pairs.\<close>

fun finalize_loop :: "bool \<Rightarrow> jsstr list \<Rightarrow> finalized \<Rightarrow> finalized result" where
  "finalize_loop join (name # value # raw) f =
     (let n = to_lower name
      in if inherited_name n then Inl (TypeError ''push is not a function'')
         else finalize_loop join raw
                \<lparr>fin_headers = add_header join n value (fin_headers f),
                 fin_distinct = (fin_distinct f)(n \<mapsto>
                   (case fin_distinct f n of None \<Rightarrow> [value] | Some vs \<Rightarrow> vs @ [value]))\<rparr>)"
| "finalize_loop join _ f = Inr f"

definition finalizeHeaders :: "jsstr list \<Rightarrow> bool \<Rightarrow> finalized result" where
  "finalizeHeaders raw join =
     bind_result (finalize_loop join raw \<lparr>fin_headers = Map.empty, fin_distinct = Map.empty\<rparr>) (\<lambda>f.
       Inr (case fin_distinct f SET_COOKIE of
              None \<Rightarrow> f
            | Some sc \<Rightarrow>
                if 1 < length sc then f\<lparr>fin_headers := (fin_headers f)(SET_COOKIE \<mapsto> Many sc)\<rparr>
                else if length sc = 1 then f\<lparr>fin_headers := (fin_headers f)(SET_COOKIE \<mapsto> One (sc ! 0))\<rparr>
                else f))"

definition header_line :: "jsstr \<Rightarrow> jsstr list" where
  "header_line line =
     (case index_of 58 line of
        None \<Rightarrow> []
      | Some colon \<Rightarrow>
          if 0 < colon then [take colon line, dropWhile (\<lambda>c. c = 32) (drop (colon + 1) line)] else [])"

fun raw_headers :: "jsstr list \<Rightarrow> jsstr list" where
  "raw_headers [] = []"
| "raw_headers (line # lines) = header_line line @ raw_headers lines"

definition parseHeaderBlock :: "jsstr \<Rightarrow> bool \<Rightarrow> finalized option result" where
  "parseHeaderBlock headerSection join =
     (case splitHeaderLines headerSection of
        [] \<Rightarrow> Inr None
      | _ # lines \<Rightarrow> bind_result (finalizeHeaders (raw_headers lines) join) (\<lambda>f. Inr (Some f)))"

section \<open>Heads\<close>

record message_head =
  mh_version :: jsstr
  mh_headers :: headers
  mh_distinct :: "jsstr \<rightharpoonup> jsstr list"
  mh_raw :: "jsstr list"
  mh_size :: nat

record request_head = message_head +
  rq_method :: jsstr
  rq_url :: jsstr

record response_head = message_head +
  rs_code :: jsnum
  rs_message :: jsstr

definition HTTP_SLASH :: jsstr where "HTTP_SLASH = js ''HTTP/''"

text \<open>\<open>s.indexOf(" ", from)\<close>.\<close>

definition space_from :: "nat \<Rightarrow> jsstr \<Rightarrow> nat option" where
  "space_from i s = map_option (\<lambda>k. i + k) (index_of 32 (drop i s))"

text \<open>The head's size and lines; \<open>None\<close> while it is incomplete.\<close>

definition head_lines :: "jsstr \<Rightarrow> (nat \<times> jsstr \<times> jsstr list) option" where
  "head_lines raw =
     (case index_of_str (CRLF @ CRLF) raw of
        None \<Rightarrow> None
      | Some headerEnd \<Rightarrow>
          (case splitHeaderLines (take headerEnd raw) of
             [] \<Rightarrow> None
           | line # lines \<Rightarrow> Some (headerEnd + 4, line, lines)))"

definition parseRequestHead :: "jsstr \<Rightarrow> bool \<Rightarrow> request_head option result" where
  "parseRequestHead raw join =
     (case head_lines raw of
        None \<Rightarrow> Inr None
      | Some (hsize, line, lines) \<Rightarrow>
          (case space_from 0 line of
             None \<Rightarrow> Inr None
           | Some sp1 \<Rightarrow>
               (case space_from (sp1 + 1) line of
                  None \<Rightarrow> Inr None
                | Some sp2 \<Rightarrow>
                    bind_result (finalizeHeaders (raw_headers lines) join) (\<lambda>f.
                      Inr (Some
                        \<lparr>mh_version = replace_first (drop (sp2 + 1) line) HTTP_SLASH [],
                         mh_headers = fin_headers f, mh_distinct = fin_distinct f, mh_raw = raw_headers lines,
                         mh_size = hsize,
                         rq_method = take sp1 line, rq_url = slice line (sp1 + 1) sp2\<rparr>)))))"

definition parseResponseHead :: "jsstr \<Rightarrow> bool \<Rightarrow> response_head option result" where
  "parseResponseHead raw join =
     (case head_lines raw of
        None \<Rightarrow> Inr None
      | Some (hsize, line, lines) \<Rightarrow>
          (case space_from 0 line of
             None \<Rightarrow> Inr None
           | Some sp1 \<Rightarrow>
               (let (code, message) =
                  (case space_from (sp1 + 1) line of
                     None \<Rightarrow> (to_number (drop (sp1 + 1) line), [])
                   | Some sp2 \<Rightarrow> (to_number (slice line (sp1 + 1) sp2), drop (sp2 + 1) line))
                in bind_result (finalizeHeaders (raw_headers lines) join) (\<lambda>f.
                     Inr (Some
                       \<lparr>mh_version = replace_first (take sp1 line) HTTP_SLASH [],
                        mh_headers = fin_headers f, mh_distinct = fin_distinct f, mh_raw = raw_headers lines,
                        mh_size = hsize,
                        rs_code = code, rs_message = message\<rparr>)))))"

section \<open>Validation\<close>

definition bad_name_unit :: "nat \<Rightarrow> bool" where
  "bad_name_unit c \<longleftrightarrow> c > 255 \<or> c \<le> 31 \<or> c \<in> {127, 32, 40, 41, 60, 62, 64, 44, 59, 58, 92, 34, 47, 91, 93, 63, 61, 123, 125}"

definition validateHeaderName :: "jsval \<Rightarrow> unit result" where
  "validateHeaderName name =
     (case name of
        VStr s \<Rightarrow>
          if s = [] then Inl (CodedError ''ERR_INVALID_ARG_TYPE'')
          else if list_ex bad_name_unit s then Inl (CodedError ''ERR_INVALID_HTTP_TOKEN'')
          else Inr ()
      | _ \<Rightarrow> Inl (CodedError ''ERR_INVALID_ARG_TYPE''))"

definition bad_value_unit :: "nat \<Rightarrow> bool" where
  "bad_value_unit c \<longleftrightarrow> c = 0 \<or> c = 10 \<or> c = 13 \<or> c > 255"

text \<open>\<open>str\<close> is \<open>String\<close>, which may call methods of the value.\<close>

definition validateHeaderValue :: "(jsval \<Rightarrow> jsstr) \<Rightarrow> jsval \<Rightarrow> unit result" where
  "validateHeaderValue str value =
     (if value = VUndef \<or> value = VNull then Inl (CodedError ''ERR_HTTP_INVALID_HEADER_VALUE'')
      else if list_ex bad_value_unit (str value) then Inl (CodedError ''ERR_INVALID_CHAR'')
      else Inr ())"

section \<open>Bodies\<close>

text \<open>
  \<open>pos\<close> may go back, and below zero, after a chunk size with a minus sign; \<open>charAt\<close> of a negative position
  is the empty string and \<open>substring\<close> clamps it.
\<close>

partial_function (option) chunk_loop :: "jsstr \<Rightarrow> jsstr list \<Rightarrow> int \<Rightarrow> (jsstr \<times> nat) option option" where
  "chunk_loop buf chunks pos =
     (case findCRLF buf (nat pos) of
        None \<Rightarrow> Some None
      | Some nl \<Rightarrow>
          (case parseInt 16 (substring buf pos (int nl)) of
             None \<Rightarrow> Some None
           | Some chunkSize \<Rightarrow>
               if chunkSize = 0 then
                 (if length buf < nl + 4 then Some None else Some (Some (concat chunks, nl + 4)))
               else
                 (let chunkStart = int nl + 2; chunkEnd = chunkStart + chunkSize
                  in if int (length buf) < chunkEnd + 2 then Some None
                     else chunk_loop buf (chunks @ [substring buf chunkStart chunkEnd]) (chunkEnd + 2))))"

definition decodeChunkedSection :: "jsstr \<Rightarrow> (jsstr \<times> nat) option option" where
  "decodeChunkedSection buf = chunk_loop buf [] 0"

text \<open>A header as a string whose methods are called: an array has no \<open>toLowerCase\<close>.\<close>

definition truthy_header :: "hval option \<Rightarrow> bool" where
  "truthy_header h = (case h of None \<Rightarrow> False | Some (One s) \<Rightarrow> s \<noteq> [] | Some (Many _) \<Rightarrow> True)"

definition header_mentions :: "jsstr \<Rightarrow> hval option \<Rightarrow> bool result" where
  "header_mentions word h =
     (if \<not> truthy_header h then Inr False
      else case h of
        Some (One s) \<Rightarrow> Inr (index_of_str word (to_lower s) \<noteq> None)
      | _ \<Rightarrow> Inl (TypeError ''toLowerCase is not a function''))"

text \<open>Sums and comparisons of a count with a number; \<open>NaN\<close> compares as false.\<close>

fun plus_num :: "nat \<Rightarrow> jsnum \<Rightarrow> jsnum" where
  "plus_num n (Fin r) = Fin (of_nat n + r)"
| "plus_num n x = x"

fun shorter :: "nat \<Rightarrow> jsnum \<Rightarrow> bool" where
  "shorter n (Fin r) \<longleftrightarrow> of_nat n < r"
| "shorter n PosInf \<longleftrightarrow> True"
| "shorter n _ \<longleftrightarrow> False"

fun trunc_num :: "jsnum \<Rightarrow> int" where
  "trunc_num (Fin r) = (if 0 \<le> r then \<lfloor>r\<rfloor> else \<lceil>r\<rceil>)"
| "trunc_num _ = 0"

definition content_length :: "headers \<Rightarrow> jsnum" where
  "content_length hs = (case hs (js ''content-length'') of None \<Rightarrow> Fin 0 | Some v \<Rightarrow> to_number (hval_string v))"

text \<open>
  The outcome of \<open>consumeIncomingBody\<close> : \<open>None\<close> when it does not return, then \<open>None\<close> for \<open>null\<close>, or the
  body and the number of code units consumed, which may be \<open>NaN\<close>.
\<close>

definition consumeIncomingBody ::
    "jsstr \<Rightarrow> nat \<Rightarrow> headers \<Rightarrow> (jsstr \<times> jsnum) option result option" where
  "consumeIncomingBody buffer bodyStart hs =
     (case header_mentions (js ''chunked'') (hs (js ''transfer-encoding'')) of
        Inl e \<Rightarrow> Some (Inl e)
      | Inr True \<Rightarrow>
          map_option (\<lambda>d. Inr (map_option (\<lambda>(body, n). (body, Fin (of_nat (bodyStart + n)))) d))
            (decodeChunkedSection (drop bodyStart buffer))
      | Inr False \<Rightarrow>
          (let total = plus_num bodyStart (content_length hs)
           in Some (Inr
                (if shorter (length buffer) total then None
                 else Some (if shorter 0 (content_length hs)
                            then substring buffer (int bodyStart) (trunc_num total) else [], total)))))"

definition isUpgradeRequest :: "headers option \<Rightarrow> bool result" where
  "isUpgradeRequest headers =
     (case headers of
        None \<Rightarrow> Inr False
      | Some hs \<Rightarrow>
          if \<not> truthy_header (hs (js ''upgrade'')) then Inr False
          else header_mentions (js ''upgrade'') (hs (js ''connection'')))"

definition isRedirectStatus :: "jsnum \<Rightarrow> bool" where
  "isRedirectStatus code \<longleftrightarrow> code \<in> {Fin 301, Fin 302, Fin 303, Fin 307, Fin 308}"

section \<open>Proxies and redirects\<close>

text \<open>The environment variables of proxies.\<close>

record proxy_env =
  HTTP_PROXY :: "jsstr option"
  HTTPS_PROXY :: "jsstr option"
  NO_PROXY :: "jsstr option"
  http_proxy :: "jsstr option"
  https_proxy :: "jsstr option"
  no_proxy :: "jsstr option"

text \<open>The module's variables.\<close>

record core_state =
  cs_max_idle :: jsnum
  cs_proxy_env :: "proxy_env option"
  cs_restore :: "nat option"

definition core_init :: core_state where
  "core_init = \<lparr>cs_max_idle = Fin 1000, cs_proxy_env = None, cs_restore = None\<rparr>"

definition setMaxIdleHTTPParsers :: "jsval \<Rightarrow> core_state \<Rightarrow> core_state" where
  "setMaxIdleHTTPParsers m st =
     (case m of
        VNum (Fin r) \<Rightarrow> if 0 \<le> r then st\<lparr>cs_max_idle := Fin r\<rparr> else st
      | VNum PosInf \<Rightarrow> st\<lparr>cs_max_idle := PosInf\<rparr>
      | _ \<Rightarrow> st)"

definition getMaxIdleHTTPParsers :: "core_state \<Rightarrow> jsnum" where
  "getMaxIdleHTTPParsers st = cs_max_idle st"

text \<open>\<open>a || b\<close> on strings and on numbers that may be missing.\<close>

definition or_str :: "jsstr option \<Rightarrow> jsstr option \<Rightarrow> jsstr option" where
  "or_str a b = (if a = None \<or> a = Some [] then b else a)"

definition or_num :: "jsnum \<Rightarrow> jsnum \<Rightarrow> jsnum" where
  "or_num a b = (if a = NaN \<or> a = Fin 0 then b else a)"

definition non_empty :: "jsstr option \<Rightarrow> jsstr option" where
  "non_empty a = or_str a None"

definition normalizeProxyEnv :: "proxy_env option \<Rightarrow> proxy_env" where
  "normalizeProxyEnv env =
     (case env of
        None \<Rightarrow> \<lparr>HTTP_PROXY = None, HTTPS_PROXY = None, NO_PROXY = None,
                 http_proxy = None, https_proxy = None, no_proxy = None\<rparr>
      | Some e \<Rightarrow> e\<lparr>HTTP_PROXY := or_str (HTTP_PROXY e) (http_proxy e),
                    HTTPS_PROXY := or_str (HTTPS_PROXY e) (https_proxy e),
                    NO_PROXY := or_str (NO_PROXY e) (no_proxy e)\<rparr>)"

definition bypass_entry :: "jsstr \<Rightarrow> jsstr \<Rightarrow> bool" where
  "bypass_entry host entry =
     (let pat = to_lower (trim entry)
      in if pat = [] then False
         else
           (let pat = (if hd pat = 46 then tl pat else pat)
            in if pat \<noteq> [] \<and> hd pat = 42
               then (let pat = tl pat in ends_with host pat \<or> host = tl pat)
               else host = pat \<or> ends_with host (46 # pat)))"

fun bypass_loop :: "jsstr \<Rightarrow> jsstr list \<Rightarrow> bool" where
  "bypass_loop host [] = False"
| "bypass_loop host (entry # entries) = (if bypass_entry host entry then True else bypass_loop host entries)"

definition shouldBypassProxy :: "jsstr option \<Rightarrow> jsstr option \<Rightarrow> bool" where
  "shouldBypassProxy hostname noProxy =
     (case non_empty noProxy of
        None \<Rightarrow> False
      | Some np \<Rightarrow>
          if np = [42] then True
          else bypass_loop (to_lower (or_empty hostname)) (split1 44 np))"

record proxy =
  px_protocol :: jsstr
  px_hostname :: jsstr
  px_port :: jsnum

text \<open>Without the class \<open>URL\<close>, or when it throws, the string is taken apart by hand.\<close>

definition defaultPortForProtocol :: "jsstr \<Rightarrow> jsnum" where
  "defaultPortForProtocol protocol = (if protocol = HTTPS then Fin 443 else Fin 80)"

definition proxy_by_hand :: "jsstr \<Rightarrow> proxy" where
  "proxy_by_hand urlStr =
     (let (proto, str) =
        (case index_of_str (js ''://'') urlStr of
           None \<Rightarrow> (HTTP, urlStr)
         | Some protoEnd \<Rightarrow> (take (protoEnd + 1) urlStr, drop (protoEnd + 3) urlStr));
          str = (case index_of 47 str of None \<Rightarrow> str | Some slash \<Rightarrow> take slash str);
          port = defaultPortForProtocol proto
      in case index_of 58 str of
           None \<Rightarrow> \<lparr>px_protocol = proto, px_hostname = str, px_port = port\<rparr>
         | Some colon \<Rightarrow>
             \<lparr>px_protocol = proto, px_hostname = take colon str,
              px_port = or_num (to_number (drop (colon + 1) str)) port\<rparr>)"

definition parseProxyUrl :: "jsstr option \<Rightarrow> proxy option" where
  "parseProxyUrl urlStr =
     (case non_empty urlStr of
        None \<Rightarrow> None
      | Some s \<Rightarrow>
          (case new_url s of
             Inr u \<Rightarrow>
               Some \<lparr>px_protocol = u_protocol u, px_hostname = u_hostname u,
                     px_port = or_num (to_number (u_port u)) (defaultPortForProtocol (u_protocol u))\<rparr>
           | Inl _ \<Rightarrow> Some (proxy_by_hand s)))"

definition resolveProxyUrl :: "bool \<Rightarrow> proxy_env \<Rightarrow> jsstr option \<Rightarrow> jsstr option" where
  "resolveProxyUrl isHttps env hostname =
     (if shouldBypassProxy hostname (or_str (NO_PROXY env) (no_proxy env)) then None
      else if isHttps then or_str (HTTPS_PROXY env) (non_empty (https_proxy env))
      else or_str (HTTP_PROXY env) (non_empty (http_proxy env)))"

text \<open>The property \<open>proxyEnv\<close> of an agent: missing, \<open>false\<close> or an object.\<close>

datatype agent_env = NoProxyEnv | ProxyEnvFalse | ProxyEnv proxy_env

definition getProxyEnvForAgent :: "core_state \<Rightarrow> proxy_env option \<Rightarrow> agent_env option \<Rightarrow> proxy_env option" where
  "getProxyEnvForAgent st process_env agent =
     (case agent of
        Some ProxyEnvFalse \<Rightarrow> None
      | Some (ProxyEnv e) \<Rightarrow> Some e
      | _ \<Rightarrow>
          (case cs_proxy_env st of
             Some e \<Rightarrow> Some e
           | None \<Rightarrow> (case process_env of None \<Rightarrow> None | Some e \<Rightarrow> Some (normalizeProxyEnv (Some e)))))"

text \<open>A port is missing, a number or a string.\<close>

datatype port_arg = NoPort | PortNum jsnum | PortStr jsstr

fun port_number :: "port_arg \<Rightarrow> jsnum" where
  "port_number NoPort = NaN"
| "port_number (PortNum n) = n"
| "port_number (PortStr s) = to_number s"

definition or_port :: "port_arg \<Rightarrow> port_arg \<Rightarrow> port_arg" where
  "or_port a b = (if a \<in> {NoPort, PortNum NaN, PortNum (Fin 0), PortStr []} then b else a)"

record client_target =
  ct_protocol :: jsstr
  ct_host :: "jsstr option"
  ct_port :: port_arg
  ct_agent :: "agent_env option"

record connect_opts =
  co_host :: "jsstr option"
  co_hostname :: "jsstr option"
  co_port :: port_arg

record client_proxy =
  cp_proxyHost :: jsstr
  cp_proxyPort :: jsnum
  cp_targetHost :: jsstr
  cp_targetPort :: jsnum
  cp_isHttps :: bool

definition resolveClientProxy ::
    "core_state \<Rightarrow> proxy_env option \<Rightarrow> client_target \<Rightarrow> connect_opts \<Rightarrow> client_proxy option" where
  "resolveClientProxy st process_env req co =
     (case getProxyEnvForAgent st process_env (ct_agent req) of
        None \<Rightarrow> None
      | Some env \<Rightarrow>
          (let targetHost = the (or_str (co_host co) (or_str (co_hostname co)
                              (or_str (ct_host req) (Some (js ''localhost'')))));
               targetPort = or_num (port_number (or_port (co_port co) (ct_port req)))
                              (defaultPortForProtocol (ct_protocol req));
               isHttps = (ct_protocol req = HTTPS)
           in case parseProxyUrl (resolveProxyUrl isHttps env (Some targetHost)) of
                None \<Rightarrow> None
              | Some p \<Rightarrow>
                  Some \<lparr>cp_proxyHost = px_hostname p, cp_proxyPort = px_port p, cp_targetHost = targetHost,
                        cp_targetPort = targetPort, cp_isHttps = isHttps\<rparr>))"

record redirect =
  rd_protocol :: jsstr
  rd_hostname :: jsstr
  rd_port :: jsnum
  rd_path :: jsstr

definition absolute_location :: "jsstr \<Rightarrow> redirect option" where
  "absolute_location location =
     (if index_of_str (js ''://'') location = None then None
      else case new_url location of
        Inl _ \<Rightarrow> None
      | Inr u \<Rightarrow>
          Some \<lparr>rd_protocol = u_protocol u, rd_hostname = u_hostname u,
                rd_port = or_num (to_number (u_port u)) (defaultPortForProtocol (u_protocol u)),
                rd_path = u_pathname u @ u_search u\<rparr>)"

definition resolveRedirectLocation ::
    "jsstr option \<Rightarrow> jsstr \<Rightarrow> jsstr \<Rightarrow> jsnum \<Rightarrow> jsstr option \<Rightarrow> redirect option" where
  "resolveRedirectLocation location baseProtocol baseHost basePort basePath =
     (case non_empty location of
        None \<Rightarrow> None
      | Some loc \<Rightarrow>
          (let here = (\<lambda>path. \<lparr>rd_protocol = baseProtocol, rd_hostname = baseHost, rd_port = basePort, rd_path = path\<rparr>)
           in case absolute_location loc of
                Some r \<Rightarrow> Some r
              | None \<Rightarrow>
                  if hd loc = 47 then Some (here loc)
                  else
                    (let baseDir = the (or_str basePath (Some [47]));
                         dir = (case last_index_of 47 baseDir of Some i \<Rightarrow> take (i + 1) baseDir | None \<Rightarrow> [47])
                     in Some (here (dir @ loc)))))"

section \<open>Chunked bodies\<close>

text \<open>The chunk that \<open>ServerResponse.write\<close> of \<open>http.js\<close> sends for some bytes, and a whole body of them.\<close>

definition chunk_frame :: "jsstr \<Rightarrow> jsstr" where
  "chunk_frame bytes = hex_string (length bytes) @ CRLF @ bytes @ CRLF"

definition last_chunk :: jsstr where "last_chunk = [48] @ CRLF @ CRLF"

definition chunked_body :: "jsstr list \<Rightarrow> jsstr" where
  "chunked_body cs = concat (map chunk_frame cs) @ last_chunk"

lemma hex_string_units: "13 \<notin> set (hex_string n)" "10 \<notin> set (hex_string n)" "45 \<notin> set (hex_string n)"
  using hex_string_digits [of n] by auto

lemma findCRLF_at:
  assumes "drop i data = xs @ CRLF @ ys" "13 \<notin> set xs"
  shows "findCRLF data i = Some (i + length xs)"
  using index_of_str_first [of CRLF 13 "[10]" xs ys] assms by (simp add: findCRLF_index CRLF_def)

lemma findCRLF_none: "10 \<notin> set (drop i data) \<Longrightarrow> findCRLF data i = None"
  using index_of_str_absent [of 10 CRLF "drop i data"] by (simp add: findCRLF_index CRLF_def)

lemma drop_extend: "drop i buf = xs @ ys \<Longrightarrow> drop (i + length xs) buf = ys"
  by (metis add.commute append_eq_conv_conj drop_drop)

lemma slice_at: "drop i buf = xs @ ys \<Longrightarrow> slice buf i (i + length xs) = xs"
  by (simp add: slice_def)

lemma substring_at:
  assumes "drop i buf = xs @ ys" "xs @ ys \<noteq> []"
  shows "substring buf (int i) (int (i + length xs)) = xs"
proof -
  have "i + length xs \<le> length buf"
    using arg_cong [OF assms(1), of length] assms(2) by (cases "length buf \<le> i") auto
  then show ?thesis using slice_at [OF assms(1)] by (metis le_add1 substring_slice)
qed

text \<open>One turn of the loop on a complete chunk, and on the three ways a chunk is incomplete.\<close>

lemma chunk_loop_size:
  assumes "drop i buf = hex_string n @ CRLF @ ys"
  shows "findCRLF buf i = Some (i + length (hex_string n))"
    and "parseInt 16 (substring buf (int i) (int (i + length (hex_string n)))) = Some (int n)"
  using findCRLF_at [OF assms hex_string_units(1)] substring_at [OF assms] parseInt_hex_string [of n]
  by (simp_all add: CRLF_def)

lemma chunk_loop_chunk:
  assumes "drop i buf = chunk_frame c @ ys" "c \<noteq> []"
  shows "chunk_loop buf acc (int i) = chunk_loop buf (acc @ [c]) (int (i + length (chunk_frame c)))"
proof -
  define h where "h = hex_string (length c)"
  have d: "drop i buf = h @ CRLF @ c @ CRLF @ ys" using assms(1) by (simp add: chunk_frame_def h_def)
  have f: "findCRLF buf i = Some (i + length h)" "parseInt 16 (substring buf (int i) (int (i + length h))) = Some (int (length c))"
    using chunk_loop_size [of i buf "length c" "c @ CRLF @ ys"] d by (simp_all add: h_def)
  have d2: "drop (i + length h + 2) buf = c @ CRLF @ ys"
    using drop_extend [of i buf "h @ CRLF" "c @ CRLF @ ys"] d by (simp add: CRLF_def add.assoc)
  have e: "i + length h + 2 + length c + 2 \<le> length buf"
    using arg_cong [OF d2, of length] assms(2) by (simp add: CRLF_def)
  have s: "substring buf (int i + int (length h) + 2) (int i + int (length h) + 2 + int (length c)) = c"
    using substring_at [OF d2] assms(2) by (simp add: algebra_simps)
  have n: "length c \<noteq> 0" using assms(2) by simp
  have l: "length (chunk_frame c) = length h + 2 + length c + 2" by (simp add: chunk_frame_def h_def CRLF_def)
  show ?thesis
    using f e s n by (subst chunk_loop.simps) (simp add: Let_def l add_ac)
qed

lemma chunk_zero: "hex_string 0 = [48]"
  by (simp add: hex_string.simps)

lemma chunk_loop_last:
  assumes "drop i buf = last_chunk @ ys"
  shows "chunk_loop buf acc (int i) = Some (Some (concat acc, i + length last_chunk))"
proof -
  have d: "drop i buf = hex_string 0 @ CRLF @ CRLF @ ys"
    using assms by (simp add: last_chunk_def) (simp add: hex_string.simps)
  have h: "length (hex_string 0) = 1" by (simp add: hex_string.simps)
  have "i + 5 \<le> length buf"
    using arg_cong [OF assms, of length] by (simp add: last_chunk_def CRLF_def)
  then show ?thesis
    using chunk_loop_size [OF d] by (subst chunk_loop.simps) (simp add: h last_chunk_def CRLF_def)
qed

lemma chunk_loop_body:
  assumes "drop i buf = chunked_body cs @ ys" "[] \<notin> set cs"
  shows "chunk_loop buf acc (int i) = Some (Some (concat acc @ concat cs, i + length (chunked_body cs)))"
  using assms
proof (induction cs arbitrary: i acc)
  case Nil
  then show ?case using chunk_loop_last [of i buf ys acc] by (simp add: chunked_body_def)
next
  case (Cons c cs)
  have d: "drop i buf = chunk_frame c @ chunked_body cs @ ys" using Cons.prems(1) by (simp add: chunked_body_def)
  have "chunk_loop buf acc (int i) = chunk_loop buf (acc @ [c]) (int (i + length (chunk_frame c)))"
    using chunk_loop_chunk [OF d] Cons.prems(2) by auto
  also have "\<dots> = Some (Some (concat (acc @ [c]) @ concat cs, i + length (chunk_frame c) + length (chunked_body cs)))"
    by (rule Cons.IH) (use drop_extend [OF d] Cons.prems(2) in auto)
  finally show ?case by (simp add: chunked_body_def add.assoc)
qed

text \<open>What the scanner of a chunk sees of an incomplete one: no size line, or a size that the rest does not reach.\<close>

lemma chunk_cut:
  assumes "drop i buf @ t = chunk_frame c @ ys" "length (drop i buf) < length (chunk_frame c)"
  shows "findCRLF buf i = None \<or>
    (\<exists>nl. findCRLF buf i = Some nl \<and> parseInt 16 (substring buf (int i) (int nl)) = Some (int (length c)) \<and>
      length buf < nl + length c + 4)"
proof -
  define h where "h = hex_string (length c)"
  define p where "p = drop i buf"
  define rest where "rest = c @ CRLF @ ys"
  have "p @ t = h @ CRLF @ rest" using assms(1) by (simp add: p_def h_def rest_def chunk_frame_def)
  then have p: "p = take (length p) (h @ CRLF @ rest)" by (metis append_eq_conv_conj)
  show ?thesis
  proof (cases "length p \<le> length h + 1")
    case True
    then have "take (length p) (h @ CRLF @ rest) = take (length p) (h @ [13])"
      by (simp add: CRLF_def take_Cons')
    with p have "p = take (length p) (h @ [13])" by (rule trans)
    then have "set p \<subseteq> set (h @ [13])" by (metis set_take_subset)
    then have "10 \<notin> set p" using hex_string_units(2) [of "length c"] by (auto simp: h_def)
    then show ?thesis using findCRLF_none [of i buf] by (simp add: p_def)
  next
    case False
    define q where "q = take (length p - length h - 2) rest"
    have "take (length p) (h @ CRLF @ rest) = h @ CRLF @ q"
      using False by (simp add: q_def CRLF_def take_Cons')
    with p have q: "p = h @ CRLF @ q" by (rule trans)
    then have d: "drop i buf = h @ CRLF @ q" by (simp add: p_def)
    have len: "length q < length c + 2" using assms(2) q by (simp add: chunk_frame_def p_def [symmetric] h_def CRLF_def)
    have f: "findCRLF buf i = Some (i + length h)" "parseInt 16 (substring buf (int i) (int (i + length h))) = Some (int (length c))"
      using chunk_loop_size [of i buf "length c" q] d by (simp_all add: h_def)
    have "length p = length buf - i" by (simp add: p_def)
    moreover have "0 < length p" using q by (simp add: CRLF_def)
    ultimately have "length buf = i + length p" by linarith
    then have "length buf < i + length h + length c + 4" using len q by (simp add: CRLF_def)
    then show ?thesis using f by blast
  qed
qed

lemma last_chunk_cut:
  assumes "drop i buf @ t = last_chunk" "t \<noteq> []"
  shows "findCRLF buf i = None \<or>
    (\<exists>nl. findCRLF buf i = Some nl \<and> parseInt 16 (substring buf (int i) (int nl)) = Some 0 \<and> length buf < nl + 4)"
proof -
  have len: "length (drop i buf) < 5"
    using arg_cong [OF assms(1), of length] assms(2) by (cases t) (simp_all add: last_chunk_def CRLF_def)
  have p: "drop i buf = take (length (drop i buf)) last_chunk" by (metis append_eq_conv_conj assms(1))
  show ?thesis
  proof (cases "length (drop i buf) \<le> 2")
    case True
    then have "set (drop i buf) \<subseteq> {48, 13}"
      by (subst p) (auto simp: last_chunk_def CRLF_def take_Cons' split: if_splits)
    then have "findCRLF buf i = None" by (intro findCRLF_none) auto
    then show ?thesis by simp
  next
    case False
    define q where "q = drop 3 (drop i buf)"
    have "length (drop i buf) = 3 \<or> length (drop i buf) = 4" using False len by linarith
    then have "take (length (drop i buf)) last_chunk = [48] @ CRLF @ drop 3 (take (length (drop i buf)) last_chunk)"
      by (auto simp: last_chunk_def CRLF_def)
    then have d: "drop i buf = hex_string 0 @ CRLF @ q"
      using p unfolding q_def by (metis (no_types) One_nat_def chunk_zero)
    then have "findCRLF buf i = Some (i + 1)" "parseInt 16 (substring buf (int i) (int (i + 1))) = Some 0"
      using chunk_loop_size [OF d] by (simp_all add: chunk_zero)
    moreover have "length buf < i + 5" using len by simp
    ultimately show ?thesis by simp
  qed
qed

lemma chunk_loop_incomplete:
  assumes "findCRLF buf i = None \<or>
    (\<exists>nl. findCRLF buf i = Some nl \<and> parseInt 16 (substring buf (int i) (int nl)) = Some (int n) \<and> length buf < nl + n + 4)"
  shows "chunk_loop buf acc (int i) = Some None"
  using assms by (subst chunk_loop.simps) (auto simp: Let_def)

lemma chunk_loop_body_cut:
  assumes "drop i buf @ t = chunked_body cs" "t \<noteq> []" "[] \<notin> set cs"
  shows "chunk_loop buf acc (int i) = Some None"
  using assms(1,3)
proof (induction cs arbitrary: i acc)
  case Nil
  then show ?case
    using last_chunk_cut [of i buf t] assms(2) chunk_loop_incomplete [of buf i 0] by (simp add: chunked_body_def)
next
  case (Cons c cs)
  have c: "c \<noteq> []" "[] \<notin> set cs" using Cons.prems(2) by auto
  have d: "drop i buf @ t = chunk_frame c @ chunked_body cs" using Cons.prems(1) by (simp add: chunked_body_def)
  show ?case
  proof (cases "length (drop i buf) < length (chunk_frame c)")
    case True
    then show ?thesis using chunk_loop_incomplete [OF chunk_cut [OF d]] by blast
  next
    case False
    define p where "p = drop (length (chunk_frame c)) (drop i buf)"
    have "take (length (chunk_frame c)) (drop i buf) = chunk_frame c"
      using False arg_cong [OF d, of "take (length (chunk_frame c))"] by simp
    then have p: "drop i buf = chunk_frame c @ p" unfolding p_def by (metis append_take_drop_id)
    moreover from this d have "p @ t = chunked_body cs" by simp
    ultimately have p: "drop i buf = chunk_frame c @ p" "p @ t = chunked_body cs" by blast+
    have "chunk_loop buf (acc @ [c]) (int (i + length (chunk_frame c))) = Some None"
      by (rule Cons.IH) (use p drop_extend [OF p(1)] c(2) in simp_all)
    then show ?thesis using chunk_loop_chunk [OF p(1) c(1)] by simp
  qed
qed

text \<open>Without a minus sign every turn of the loop moves forward.\<close>

lemma parseInt_nonneg:
  assumes "45 \<notin> set s" "parseInt radix s = Some n"
  shows "0 \<le> n"
proof -
  have "\<not> (dropWhile is_white s \<noteq> [] \<and> hd (dropWhile is_white s) = 45)"
    using assms(1) by (metis hd_in_set set_dropWhileD)
  then show ?thesis using assms(2) by (auto simp: parseInt_def Let_def split: if_splits)
qed

lemma chunk_loop_returns:
  "45 \<notin> set buf \<Longrightarrow> 0 \<le> pos \<Longrightarrow> \<exists>r. chunk_loop buf acc pos = Some r"
proof (induction "nat (int (length buf) - pos)" arbitrary: pos acc rule: less_induct)
  case less
  show ?case
  proof (cases "findCRLF buf (nat pos)")
    case None
    then show ?thesis by (subst chunk_loop.simps) simp
  next
    case (Some nl)
    note nl = findCRLF_bounds [OF Some]
    show ?thesis
    proof (cases "parseInt 16 (substring buf pos (int nl))")
      case None
      then show ?thesis using Some by (subst chunk_loop.simps) simp
    next
      case p: (Some n)
      have "set (substring buf pos (int nl)) \<subseteq> set buf"
        by (auto simp: substring_def slice_def Let_def dest!: in_set_takeD in_set_dropD)
      then have n: "0 \<le> n" using parseInt_nonneg [OF _ p] less.prems(1) by blast
      show ?thesis
      proof (cases "n = 0 \<or> int (length buf) < int nl + 2 + n + 2")
        case True
        then show ?thesis using Some p by (subst chunk_loop.simps) (auto simp: Let_def)
      next
        case False
        then have "\<exists>r. chunk_loop buf (acc @ [substring buf (int nl + 2) (int nl + 2 + n)]) (int nl + 2 + n + 2) = Some r"
          using nl n less.prems(2) by (intro less.hyps [OF _ less.prems(1)]) linarith+
        then show ?thesis using Some p False by (subst chunk_loop.simps) (simp add: Let_def)
      qed
    qed
  qed
qed

text \<open>A negative size can take the loop back to the same place, and then it never ends.\<close>

definition negative_chunk :: jsstr where "negative_chunk = js ''-6'' @ CRLF"

lemma negative_chunk_loops: "chunk_loop negative_chunk acc 0 = None"
proof (rule ccontr)
  assume "chunk_loop negative_chunk acc 0 \<noteq> None"
  then obtain r where "chunk_loop negative_chunk acc 0 = Some r" by auto
  moreover have "\<not> (buf = negative_chunk \<and> pos = 0)" if "chunk_loop buf chunks pos = Some r" for buf chunks pos r
  proof (rule chunk_loop.raw_induct [where P = "\<lambda>buf chunks pos r. \<not> (buf = negative_chunk \<and> pos = 0)", OF _ that], goal_cases)
    case (1 loop buf chunks pos r)
    note e = negative_chunk_def CRLF_def
    have f: "findCRLF negative_chunk 0 = Some 2"
      by (simp add: findCRLF.simps e)
    have p: "parseInt 16 (substring negative_chunk 0 2) = Some (- 6)"
      by (simp add: parseInt_def substring_def slice_def is_white_def digit_value_def digits_value_def e)
    have l: "length negative_chunk = 4" by (simp add: e)
    show ?case
    proof
      assume a: "buf = negative_chunk \<and> pos = 0"
      then have "loop negative_chunk (chunks @ [substring negative_chunk 4 (- 2)]) 0 = Some r"
        using 1(2) f p l by (simp add: Let_def)
      then show False using 1(1) by blast
    qed
  qed
  ultimately show False by blast
qed

section \<open>Headers\<close>

text \<open>What the values of a name come to, given all of them in order.\<close>

definition values_of :: "jsstr \<Rightarrow> (jsstr \<times> jsstr) list \<Rightarrow> jsstr list" where
  "values_of n hs = map snd (filter (\<lambda>h. to_lower (fst h) = n) hs)"

definition combined :: "bool \<Rightarrow> jsstr \<Rightarrow> jsstr list \<Rightarrow> hval option" where
  "combined join n vs =
     (if vs = [] then None
      else if n = SET_COOKIE then Some (if length vs = 1 then One (hd vs) else Many vs)
      else if n = COOKIE then Some (One (join_with (js ''; '') vs))
      else if join \<or> \<not> DUPLICATE_DISCARD n then Some (One (join_with (js '', '') vs))
      else Some (One (hd vs)))"

fun flatten :: "(jsstr \<times> jsstr) list \<Rightarrow> jsstr list" where
  "flatten [] = []"
| "flatten ((n, v) # hs) = n # v # flatten hs"

lemma flatten_append: "flatten (xs @ ys) = flatten xs @ flatten ys"
  by (induction xs rule: flatten.induct) simp_all

definition no_inherited :: "(jsstr \<times> jsstr) list \<Rightarrow> bool" where
  "no_inherited hs \<longleftrightarrow> (\<forall>h \<in> set hs. \<not> inherited_name (to_lower (fst h)))"

lemma join_with_snoc: "vs \<noteq> [] \<Longrightarrow> join_with sep (vs @ [v]) = join_with sep vs @ sep @ v"
  using join_with_append [of vs "[v]" sep] by simp

lemma combined_snoc:
  "combined join n (vs @ [v]) = add_header join n v (\<lambda>_. combined join n vs) n"
proof (cases "vs = []")
  case True
  then show ?thesis by (auto simp: combined_def add_header_def)
next
  case False
  then have "vs = [hd vs] \<or> 1 < length vs" by (cases vs; cases "tl vs") auto
  moreover have "SET_COOKIE \<noteq> COOKIE" by code_simp
  ultimately show ?thesis
    using False join_with_snoc [OF False] by (auto simp: combined_def add_header_def)
qed

lemma add_header_same: "add_header join n v hs n = add_header join n v (\<lambda>_. hs n) n"
  by (auto simp: add_header_def split: option.splits hval.splits)

lemma add_header_other: "m \<noteq> n \<Longrightarrow> add_header join n v hs m = hs m"
  by (auto simp: add_header_def split: option.splits hval.splits)

definition summary :: "bool \<Rightarrow> (jsstr \<times> jsstr) list \<Rightarrow> finalized" where
  "summary join hs =
     \<lparr>fin_headers = (\<lambda>n. combined join n (values_of n hs)),
      fin_distinct = (\<lambda>n. if values_of n hs = [] then None else Some (values_of n hs))\<rparr>"

lemma values_of_snoc:
  "values_of m (hs @ [(n, v)]) = (if m = to_lower n then values_of m hs @ [v] else values_of m hs)"
  by (auto simp: values_of_def)

lemma summary_snoc:
  "summary join (hs @ [(n, v)]) =
     \<lparr>fin_headers = add_header join (to_lower n) v (fin_headers (summary join hs)),
      fin_distinct = (fin_distinct (summary join hs))(to_lower n \<mapsto>
        (case fin_distinct (summary join hs) (to_lower n) of None \<Rightarrow> [v] | Some vs \<Rightarrow> vs @ [v]))\<rparr>"
proof -
  have "combined join m (values_of m (hs @ [(n, v)])) =
      add_header join (to_lower n) v (\<lambda>m. combined join m (values_of m hs)) m" for m
    by (cases "m = to_lower n")
      (simp_all add: values_of_snoc combined_snoc add_header_other add_header_same [of join "to_lower n" v "\<lambda>m. combined join m (values_of m hs)"])
  then show ?thesis by (auto simp: summary_def values_of_snoc)
qed

lemma finalize_loop_summary:
  "no_inherited (done_hs @ hs) \<Longrightarrow>
   finalize_loop join (flatten hs) (summary join done_hs) = Inr (summary join (done_hs @ hs))"
proof (induction hs arbitrary: done_hs rule: flatten.induct)
  case (2 n v hs)
  show ?case using 2 by (simp add: no_inherited_def Let_def flip: summary_snoc)
qed simp

section \<open>The heads that \<open>http.js\<close> writes\<close>

definition header_text :: "jsstr \<times> jsstr \<Rightarrow> jsstr" where
  "header_text h = fst h @ js '': '' @ snd h @ CRLF"

definition head_text :: "jsstr \<Rightarrow> (jsstr \<times> jsstr) list \<Rightarrow> jsstr" where
  "head_text line hs = line @ CRLF @ concat (map header_text hs) @ CRLF"

definition request_line :: "jsstr \<Rightarrow> jsstr \<Rightarrow> jsstr" where
  "request_line method uri = method @ [32] @ uri @ js '' HTTP/1.1''"

definition status_line :: "nat \<Rightarrow> jsstr \<Rightarrow> jsstr" where
  "status_line code message = js ''HTTP/1.1 '' @ js (dec_string code) @ [32] @ message"

definition header_string :: "jsstr \<times> jsstr \<Rightarrow> jsstr" where
  "header_string h = fst h @ js '': '' @ snd h"

text \<open>A header that the two validators accept, whose value does not begin with a space.\<close>

definition valid_header :: "jsstr \<times> jsstr \<Rightarrow> bool" where
  "valid_header h \<longleftrightarrow>
     validateHeaderName (VStr (fst h)) = Inr () \<and>
     validateHeaderValue (\<lambda>_. snd h) (VStr (snd h)) = Inr () \<and> (snd h = [] \<or> hd (snd h) \<noteq> 32)"

definition valid_headers :: "(jsstr \<times> jsstr) list \<Rightarrow> bool" where
  "valid_headers hs \<longleftrightarrow> list_all valid_header hs \<and> no_inherited hs"

lemma valid_header_units:
  assumes "valid_header h"
  shows "fst h \<noteq> []" "58 \<notin> set (fst h)" "13 \<notin> set (header_string h)" "header_string h \<noteq> []"
proof -
  have n: "fst h \<noteq> []" "\<not> list_ex bad_name_unit (fst h)" "\<not> list_ex bad_value_unit (snd h)"
    using assms
    by (simp_all add: valid_header_def validateHeaderName_def validateHeaderValue_def split: if_splits)
  moreover have "bad_name_unit 58" "bad_name_unit 13" "bad_value_unit 13"
    by (simp_all add: bad_name_unit_def bad_value_unit_def)
  ultimately show "fst h \<noteq> []" "58 \<notin> set (fst h)" "13 \<notin> set (header_string h)" "header_string h \<noteq> []"
    by (auto simp: list_ex_iff header_string_def)
qed

lemma header_line_parse: "valid_header h \<Longrightarrow> header_line (header_string h) = [fst h, snd h]"
  using valid_header_units [of h] index_of_append [of 58 "fst h" "32 # snd h"]
  by (auto simp: header_line_def header_string_def valid_header_def dropWhile_eq_self_iff)

lemma raw_headers_parse: "list_all valid_header hs \<Longrightarrow> raw_headers (map header_string hs) = flatten hs"
  by (induction hs rule: flatten.induct) (simp_all add: header_line_parse)

lemma head_text_lines: "head_text line hs = join_with CRLF (line # map header_string hs) @ CRLF @ CRLF"
proof -
  have "concat (map header_text hs) = (if hs = [] then [] else join_with CRLF (map header_string hs) @ CRLF)" for hs
    by (induction hs) (auto simp: header_text_def header_string_def join_with_Cons)
  then show ?thesis by (simp add: head_text_def join_with_Cons)
qed

text \<open>Splitting what was joined, and finding the empty line after it.\<close>

lemma split_lines_join:
  assumes "drop pos s = join_with CRLF ls" "\<forall>l \<in> set ls. 13 \<notin> set l \<and> l \<noteq> []"
  shows "split_lines s pos = ls"
  using assms
proof (induction ls arbitrary: pos)
  case Nil
  then show ?case by (simp add: split_lines.simps)
next
  case (Cons l ls)
  have l: "13 \<notin> set l" "l \<noteq> []" using Cons.prems(2) by auto
  show ?case
  proof (cases ls)
    case Nil
    then have d: "drop pos s = l" using Cons.prems(1) by simp
    then have "pos < length s" using l(2) by (metis drop_all leI)
    moreover have "findCRLF s pos = None"
      using index_of_str_absent [of 13 CRLF l] l(1) d by (simp add: findCRLF_index CRLF_def)
    ultimately show ?thesis using d Nil by (subst split_lines.simps) simp
  next
    case (Cons l2 ls2)
    then have d: "drop pos s = l @ CRLF @ join_with CRLF ls" using Cons.prems(1) by (simp add: join_with_Cons)
    then have "pos < length s" using l(2) by (metis append_is_Nil_conv drop_all leI)
    moreover have "split_lines s (pos + length l + 2) = ls"
      using Cons.IH [of "pos + length l + 2"] drop_extend [of pos s "l @ CRLF" "join_with CRLF ls"] d Cons.prems(2)
      by (simp add: CRLF_def)
    ultimately show ?thesis
      using findCRLF_at [OF d l(1)] slice_at [OF d] by (subst split_lines.simps) simp
  qed
qed

lemma index_skip:
  "13 \<notin> set l \<Longrightarrow> index_of_str (CRLF @ CRLF) (l @ s) = map_option (\<lambda>k. length l + k) (index_of_str (CRLF @ CRLF) s)"
  by (induction l) (auto simp: CRLF_def map_option_case split: option.splits)

lemma index_skip_line:
  "s \<noteq> [] \<Longrightarrow> hd s \<noteq> 13 \<Longrightarrow>
   index_of_str (CRLF @ CRLF) (CRLF @ s) = map_option (\<lambda>k. 2 + k) (index_of_str (CRLF @ CRLF) s)"
  by (cases s) (auto simp: CRLF_def map_option.compositionality comp_def)

lemma index_head_end:
  assumes "ls \<noteq> []" "\<forall>l \<in> set ls. 13 \<notin> set l \<and> l \<noteq> []"
  shows "index_of_str (CRLF @ CRLF) (join_with CRLF ls @ CRLF @ CRLF @ rest) = Some (length (join_with CRLF ls))"
  using assms
proof (induction ls)
  case (Cons l ls)
  have l: "13 \<notin> set l" "l \<noteq> []" using Cons.prems(2) by auto
  show ?case
  proof (cases "ls = []")
    case True
    have "index_of_str (CRLF @ CRLF) (CRLF @ CRLF @ rest) = Some 0" by (simp add: CRLF_def)
    then show ?thesis using True l(1) by (simp add: index_skip)
  next
    case False
    define s where "s = join_with CRLF ls @ CRLF @ CRLF @ rest"
    have "hd ls \<in> set ls" using False by simp
    then have "13 \<notin> set (hd ls)" "hd ls \<noteq> []" using Cons.prems(2) by auto
    then have "s \<noteq> []" "hd s \<noteq> 13" using False by (cases ls; auto simp: s_def join_with_Cons CRLF_def; metis hd_in_set)+
    moreover have "index_of_str (CRLF @ CRLF) s = Some (length (join_with CRLF ls))"
      using Cons.IH False Cons.prems(2) by (simp add: s_def)
    ultimately have "index_of_str (CRLF @ CRLF) (l @ CRLF @ s) = Some (length l + (2 + length (join_with CRLF ls)))"
      using l(1) by (simp add: index_skip index_skip_line)
    then show ?thesis using False by (simp add: s_def join_with_Cons) (simp add: CRLF_def)
  qed
qed simp

lemma head_lines_text:
  assumes "13 \<notin> set line" "line \<noteq> []" "list_all valid_header hs"
  shows "head_lines (head_text line hs @ rest) = Some (length (head_text line hs), line, map header_string hs)"
proof -
  define ls where "ls = line # map header_string hs"
  have ls: "ls \<noteq> []" "\<forall>l \<in> set ls. 13 \<notin> set l \<and> l \<noteq> []"
    using assms valid_header_units by (auto simp: ls_def list_all_iff)
  have "index_of_str (CRLF @ CRLF) (head_text line hs @ rest) = Some (length (join_with CRLF ls))"
    using index_head_end [OF ls] by (simp add: head_text_lines ls_def)
  moreover have "take (length (join_with CRLF ls)) (head_text line hs @ rest) = join_with CRLF ls"
    by (simp add: head_text_lines ls_def)
  moreover have "splitHeaderLines (join_with CRLF ls) = ls"
    using split_lines_join [of 0 _ ls] ls(2) by (simp add: splitHeaderLines_def)
  moreover have "length (head_text line hs) = length (join_with CRLF ls) + 4"
    by (simp add: head_text_lines ls_def CRLF_def)
  ultimately show ?thesis by (simp add: head_lines_def) (simp add: ls_def)
qed

lemma finalizeHeaders_summary:
  assumes "no_inherited hs"
  shows "finalizeHeaders (flatten hs) join = Inr (summary join hs)"
proof -
  have e: "\<lparr>fin_headers = Map.empty, fin_distinct = Map.empty\<rparr> = summary join []"
    by (simp add: summary_def values_of_def combined_def)
  have "finalize_loop join (flatten hs) (summary join []) = Inr (summary join hs)"
    using finalize_loop_summary [of "[]" hs join] assms by simp
  then show ?thesis
    by (auto simp: finalizeHeaders_def e summary_def combined_def fun_eq_iff hd_conv_nth split: option.split)
qed

lemma space_from_split:
  assumes "32 \<notin> set a" shows "space_from (length p) (p @ a @ 32 # b) = Some (length p + length a)"
  using index_of_append [OF assms, of b] by (simp add: space_from_def)

lemma parse_request_text:
  assumes "32 \<notin> set m" "13 \<notin> set m" "32 \<notin> set u" "13 \<notin> set u" "valid_headers hs"
  shows "parseRequestHead (head_text (request_line m u) hs @ rest) join =
    Inr (Some \<lparr>mh_version = js ''1.1'', mh_headers = fin_headers (summary join hs),
      mh_distinct = fin_distinct (summary join hs), mh_raw = flatten hs,
      mh_size = length (head_text (request_line m u) hs), rq_method = m, rq_url = u\<rparr>)"
proof -
  define line where "line = request_line m u"
  have hs: "list_all valid_header hs" "no_inherited hs" using assms(5) by (simp_all add: valid_headers_def)
  have line: "line = m @ 32 # u @ 32 # js ''HTTP/1.1''" by (simp add: line_def request_line_def)
  have "13 \<notin> set line" "line \<noteq> []" using assms(2,4) by (simp_all add: line)
  note l = head_lines_text [OF this hs(1), of rest]
  have "space_from 0 line = Some (length m)" using space_from_split [OF assms(1), of "[]"] by (simp add: line)
  moreover have "space_from (length m + 1) line = Some (length m + 1 + length u)"
    using space_from_split [OF assms(3), of "m @ [32]"] by (simp add: line)
  moreover have "replace_first (js ''HTTP/1.1'') HTTP_SLASH [] = js ''1.1''"
    by (simp add: replace_first_def HTTP_SLASH_def)
  moreover have "take (length m) line = m" "slice line (length m + 1) (length m + 1 + length u) = u"
    "drop (length m + 1 + length u + 1) line = js ''HTTP/1.1''"
    by (simp_all add: line slice_def)
  ultimately show ?thesis
    unfolding line_def [symmetric]
    by (simp add: parseRequestHead_def l raw_headers_parse [OF hs(1)] finalizeHeaders_summary [OF hs(2)])
qed

lemma parse_response_text:
  assumes "13 \<notin> set msg" "valid_headers hs"
  shows "parseResponseHead (head_text (status_line code msg) hs @ rest) join =
    Inr (Some \<lparr>mh_version = js ''1.1'', mh_headers = fin_headers (summary join hs),
      mh_distinct = fin_distinct (summary join hs), mh_raw = flatten hs,
      mh_size = length (head_text (status_line code msg) hs), rs_code = Fin (of_nat code), rs_message = msg\<rparr>)"
proof -
  define line where "line = status_line code msg"
  define d where "d = js (dec_string code)"
  have hs: "list_all valid_header hs" "no_inherited hs" using assms(2) by (simp_all add: valid_headers_def)
  have line: "line = js ''HTTP/1.1'' @ 32 # d @ 32 # msg" by (simp add: line_def status_line_def d_def)
  have d: "13 \<notin> set d" "32 \<notin> set d" using dec_string_digits [of code] by (auto simp: d_def)
  have "13 \<notin> set line" "line \<noteq> []" using assms(1) d by (simp_all add: line)
  note l = head_lines_text [OF this hs(1), of rest]
  have "space_from 0 line = Some 8" using space_from_split [of "js ''HTTP/1.1''" "[]"] by (simp add: line)
  moreover have "space_from 9 line = Some (9 + length d)"
    using space_from_split [OF d(2), of "js ''HTTP/1.1 ''"] by (simp add: line eval_nat_numeral)
  moreover have "replace_first (js ''HTTP/1.1'') HTTP_SLASH [] = js ''1.1''"
    by (simp add: replace_first_def HTTP_SLASH_def)
  moreover have "take 8 line = js ''HTTP/1.1''" "slice line 9 (9 + length d) = d" "drop (9 + length d + 1) line = msg"
    by (simp_all add: line slice_def drop_Cons')
  moreover have "to_number d = Fin (of_nat code)" by (simp add: d_def to_number_dec_string)
  ultimately show ?thesis
    unfolding line_def [symmetric]
    by (simp add: parseResponseHead_def l raw_headers_parse [OF hs(1)] finalizeHeaders_summary [OF hs(2)])
qed

lemma finalize_loop_inherited:
  "\<not> no_inherited hs \<Longrightarrow> finalize_loop join (flatten hs) f = Inl (TypeError ''push is not a function'')"
  by (induction hs arbitrary: f rule: flatten.induct) (auto simp: no_inherited_def Let_def)

section \<open>Theorems\<close>

text \<open>C32: decoding the chunks that \<open>http.js\<close> writes gives the bytes back and consumes exactly the body,
  whatever follows it; while any part of the body is still missing the answer is that more is needed, so the
  outcome does not depend on how the stream was cut.\<close>

theorem chunked_roundtrip:
  assumes "[] \<notin> set cs"
  shows "decodeChunkedSection (chunked_body cs @ rest) = Some (Some (concat cs, length (chunked_body cs))) \<and>
    (strict_prefix p (chunked_body cs) \<longrightarrow> decodeChunkedSection p = Some None)"
proof
  show "decodeChunkedSection (chunked_body cs @ rest) = Some (Some (concat cs, length (chunked_body cs)))"
    using chunk_loop_body [of 0 _ cs rest "[]"] assms by (simp add: decodeChunkedSection_def)
  show "strict_prefix p (chunked_body cs) \<longrightarrow> decodeChunkedSection p = Some None"
  proof
    assume "strict_prefix p (chunked_body cs)"
    then obtain t where "p @ t = chunked_body cs" "t \<noteq> []" by (auto elim: strict_prefixE')
    then show "decodeChunkedSection p = Some None"
      using chunk_loop_body_cut [of 0 p t cs "[]"] assms by (simp add: decodeChunkedSection_def)
  qed
qed

theorem chunked_roundtrip_witness:
  "decodeChunkedSection (chunked_body [js ''hello'', js '' world''] @ js ''GET'')
     = Some (Some (concat [js ''hello'', js '' world''], length (chunked_body [js ''hello'', js '' world'']))) \<and>
   decodeChunkedSection [53, 13] = Some None"
proof -
  have "strict_prefix [53, 13] (chunked_body [js ''hello'', js '' world''])"
    by (simp add: chunked_body_def chunk_frame_def hex_string.simps CRLF_def strict_prefix_def)
  then show ?thesis using chunked_roundtrip [of "[js ''hello'', js '' world'']" "js ''GET''" "[53, 13]"] by simp
qed

text \<open>decoding ends for every input without a minus sign, complete or not, well formed or not.\<close>

theorem chunked_returns:
  assumes "45 \<notin> set buf"
  shows "\<exists>r. decodeChunkedSection buf = Some r"
  using chunk_loop_returns [OF assms, of 0 "[]"] by (simp add: decodeChunkedSection_def)

theorem chunked_returns_witness: "\<exists>r. decodeChunkedSection (js ''5 bytes'' @ CRLF @ js ''abc'') = Some r"
  by (rule chunked_returns) (simp add: CRLF_def)

text \<open>C33: A head that \<open>http.js\<close> prints is parsed back to the same request or response, whatever follows it: no header can
  add another one, end the head or shift the body. Required: the two validators accept the names and values of the headers,
  none of them is called \<open>constructor\<close> or \<open>__proto__\<close> (the parser throws on those), and no value begins with a space (which
  the parser drops); for a request, method and URL have neither space nor carriage return; for a response, the status
  message has no carriage return.\<close>

theorem head_roundtrip:
  assumes "valid_headers hs"
  shows "(32 \<notin> set m \<and> 13 \<notin> set m \<and> 32 \<notin> set u \<and> 13 \<notin> set u \<longrightarrow>
      (\<exists>h. parseRequestHead (head_text (request_line m u) hs @ rest) join = Inr (Some h) \<and>
        rq_method h = m \<and> rq_url h = u \<and> mh_version h = js ''1.1'' \<and> mh_raw h = flatten hs \<and>
        mh_headers h = (\<lambda>n. combined join n (values_of n hs)) \<and>
        mh_size h = length (head_text (request_line m u) hs))) \<and>
    (13 \<notin> set msg \<longrightarrow>
      (\<exists>h. parseResponseHead (head_text (status_line code msg) hs @ rest) join = Inr (Some h) \<and>
        rs_code h = Fin (of_nat code) \<and> rs_message h = msg \<and> mh_version h = js ''1.1'' \<and> mh_raw h = flatten hs \<and>
        mh_headers h = (\<lambda>n. combined join n (values_of n hs)) \<and>
        mh_size h = length (head_text (status_line code msg) hs)))"
  using parse_request_text [OF _ _ _ _ assms, of m u rest join] parse_response_text [OF _ assms, of msg code rest join]
  by (simp add: summary_def)

definition sample_headers :: "(jsstr \<times> jsstr) list" where
  "sample_headers = [(js ''Host'', js ''a.org''), (js ''X-Id'', js ''1: 2''), (js ''x-id'', [])]"

lemma sample_headers_valid: "valid_headers sample_headers"
  by (simp add: valid_headers_def valid_header_def sample_headers_def validateHeaderName_def validateHeaderValue_def
      bad_name_unit_def bad_value_unit_def no_inherited_def inherited_name_def to_lower_def lower_unit_def)

theorem head_roundtrip_witness:
  "\<exists>h. parseRequestHead (head_text (request_line (js ''GET'') (js ''/'')) sample_headers @ []) False = Inr (Some h) \<and>
     rq_method h = js ''GET''"
  using head_roundtrip [OF sample_headers_valid, of "js ''GET''" "js ''/''" "[]" False] by auto

text \<open>the one-pass loop over the raw headers gives for every name what its values come to when they are
  gathered first: the first value, all of them joined, or an array, by the name; every value is in
  \<open>headersDistinct\<close>. It throws exactly when a name is one that objects inherit.\<close>

theorem finalize_reference:
  "finalizeHeaders (flatten hs) join =
     (if no_inherited hs
      then Inr \<lparr>fin_headers = (\<lambda>n. combined join n (values_of n hs)),
                fin_distinct = (\<lambda>n. if values_of n hs = [] then None else Some (values_of n hs))\<rparr>
      else Inl (TypeError ''push is not a function''))"
  using finalizeHeaders_summary [of hs join] finalize_loop_inherited [of hs join]
  by (simp add: finalizeHeaders_def summary_def)

text \<open>
  Facts behind the findings: a negative chunk size makes the decoder loop, a negative \<open>Content-Length\<close> ends
  the message inside its own head and one that is not a number consumes \<open>NaN\<close>, and a header named
  \<open>constructor\<close> makes the parser throw.
\<close>

lemma negative_chunk_hangs: "decodeChunkedSection negative_chunk = None"
  by (simp add: decodeChunkedSection_def negative_chunk_loops)

lemma to_number_minus: "to_number (js ''-5'') = Fin (- 5)"
  by (simp add: to_number_def trim_def is_white_def unsigned_number_def digit_value_def digits_value_def Let_def)

lemma to_number_word: "to_number (js ''abc'') = NaN"
  by (simp add: to_number_def trim_def is_white_def unsigned_number_def digit_value_def digits_value_def Let_def)

lemma negative_content_length:
  "consumeIncomingBody buf 40 [js ''content-length'' \<mapsto> One (js ''-5'')] =
     (if length buf < 35 then Some (Inr None) else Some (Inr (Some ([], Fin 35))))"
proof -
  have "shorter (length buf) (Fin 35) \<longleftrightarrow> length buf < 35"
    by (metis of_nat_less_iff of_nat_numeral shorter.simps(1))
  then show ?thesis
    by (simp add: consumeIncomingBody_def header_mentions_def truthy_header_def content_length_def to_number_minus [simplified])
qed

lemma word_content_length:
  "consumeIncomingBody buf 40 [js ''content-length'' \<mapsto> One (js ''abc'')] = Some (Inr (Some ([], NaN)))"
  by (simp add: consumeIncomingBody_def header_mentions_def truthy_header_def content_length_def to_number_word [simplified])

lemma constructor_header_throws:
  "finalizeHeaders [js ''Constructor'', js ''x''] join = Inl (TypeError ''push is not a function'')"
  by (simp add: finalizeHeaders_def inherited_name_def to_lower_def lower_unit_def)

end
