(* ===== verification/HttpMessage.thy ===== *)
theory HttpMessage
  imports HttpCore "HOL-Library.AList"
begin

text \<open>
  Messages of \<open>http.js\<close>: the headers of \<open>OutgoingMessage\<close>, what \<open>ServerResponse\<close> writes to its socket, and
  how \<open>ClientRequest\<close> reads a response from the pieces its socket delivers. The socket of a response is
  the list of its writes; body chunks are the bytes that \<open>_bodyBytes\<close> makes of them, and \<open>date\<close> is
  \<open>new Date().toUTCString()\<close>. Timers, backpressure (\<open>drain\<close>), the events of the request, redirects and the
  agent are outside the model.

  The header objects \<open>_headers\<close>, \<open>_headerNames\<close> and \<open>_trailers\<close> are ordinary objects: association lists of their own
  properties in the order of insertion, behind which every read finds what \<open>Object.prototype\<close> has under the
  name. Of its properties only \<open>constructor\<close> and \<open>__proto__\<close> are lower-case names. An assignment to
  \<open>__proto__\<close> makes no property, and has no effect when the value is a string or a number; one of an array would
  replace the prototype of the header object, which is outside the model.
\<close>

section \<open>Headers of outgoing messages\<close>

text \<open>
  A header value is a string, a natural number or an array of strings; a read can also find what the object
  inherits under a name: the function \<open>Object\<close> or the prototype object. Their text is the engine's.
\<close>

datatype out_value = OStr jsstr | ONum nat | OArr "jsstr list" | OInherited jsstr

definition inherited_text :: "jsstr \<Rightarrow> jsstr" where
  "inherited_text n =
     (if n = js ''constructor'' then js ''function Object() { [native code] }'' else js ''[object Object]'')"

fun out_string :: "out_value \<Rightarrow> jsstr" where
  "out_string (OStr s) = s"
| "out_string (ONum n) = js (dec_string n)"
| "out_string (OArr vs) = join_with [44] vs"
| "out_string (OInherited n) = inherited_text n"

fun out_truthy :: "out_value option \<Rightarrow> bool" where
  "out_truthy (Some (OStr s)) \<longleftrightarrow> s \<noteq> []"
| "out_truthy (Some (ONum n)) \<longleftrightarrow> n \<noteq> 0"
| "out_truthy (Some (OArr _)) \<longleftrightarrow> True"
| "out_truthy (Some (OInherited _)) \<longleftrightarrow> True"
| "out_truthy None \<longleftrightarrow> False"

record outgoing =
  om_headers :: "(jsstr \<times> out_value) list"
  om_names :: "(jsstr \<times> jsstr) list"
  om_sent :: bool
  om_corked :: nat
  om_unique :: "jsstr list option"

definition om_new :: outgoing where
  "om_new = \<lparr>om_headers = [], om_names = [], om_sent = False, om_corked = 0, om_unique = None\<rparr>"

text \<open>Reading and assigning a property of a header object, and the order of its own properties.\<close>

definition om_get :: "('a outgoing_scheme) \<Rightarrow> jsstr \<Rightarrow> out_value option" where
  "om_get om lower =
     (case map_of (om_headers om) lower of
        Some v \<Rightarrow> Some v
      | None \<Rightarrow> if inherited_name lower then Some (OInherited lower) else None)"

definition obj_put :: "jsstr \<Rightarrow> 'v \<Rightarrow> (jsstr \<times> 'v) list \<Rightarrow> (jsstr \<times> 'v) list" where
  "obj_put k v xs = (if k = js ''__proto__'' then xs else AList.update k v xs)"

definition own_order :: "(jsstr \<times> 'v) list \<Rightarrow> (jsstr \<times> 'v) list" where
  "own_order xs =
     sort_key (\<lambda>(k, _). the (index_key k)) (filter (\<lambda>(k, _). index_key k \<noteq> None) xs) @
     filter (\<lambda>(k, _). index_key k = None) xs"

definition check_header :: "jsstr \<Rightarrow> out_value option \<Rightarrow> unit result" where
  "check_header name value =
     bind_result (validateHeaderName (VStr name)) (\<lambda>_.
       case value of
         None \<Rightarrow> validateHeaderValue (\<lambda>_. []) VUndef
       | Some v \<Rightarrow> validateHeaderValue (\<lambda>_. out_string v) (VStr (out_string v)))"

definition store_header :: "jsstr \<Rightarrow> out_value \<Rightarrow> 'a outgoing_scheme \<Rightarrow> 'a outgoing_scheme" where
  "store_header name v om =
     om\<lparr>om_headers := obj_put (to_lower name) v (om_headers om),
        om_names := obj_put (to_lower name) name (om_names om)\<rparr>"

definition setHeader :: "jsstr \<Rightarrow> out_value option \<Rightarrow> 'a outgoing_scheme \<Rightarrow> 'a outgoing_scheme result" where
  "setHeader name value om =
     bind_result (check_header name value) (\<lambda>_.
       if (case om_unique om of None \<Rightarrow> False | Some us \<Rightarrow> to_lower name \<in> set (map to_lower us)) \<and>
          om_get om (to_lower name) \<noteq> None
       then Inl (CodedError ''ERR_HTTP_HEADERS_SENT'')
       else Inr (store_header name (the value) om))"

definition appendHeader :: "jsstr \<Rightarrow> out_value option \<Rightarrow> 'a outgoing_scheme \<Rightarrow> 'a outgoing_scheme result" where
  "appendHeader name value om =
     bind_result (check_header name value) (\<lambda>_.
       Inr (case om_get om (to_lower name) of
              Some v \<Rightarrow> om\<lparr>om_headers := obj_put (to_lower name)
                           (OStr (out_string v @ js '', '' @ out_string (the value))) (om_headers om)\<rparr>
            | None \<Rightarrow> store_header name (the value) om))"

definition getHeader :: "jsstr \<Rightarrow> 'a outgoing_scheme \<Rightarrow> out_value option" where
  "getHeader name om = om_get om (to_lower name)"

definition removeHeader :: "jsstr \<Rightarrow> 'a outgoing_scheme \<Rightarrow> 'a outgoing_scheme" where
  "removeHeader name om =
     om\<lparr>om_headers := AList.delete (to_lower name) (om_headers om), om_names := AList.delete (to_lower name) (om_names om)\<rparr>"

definition hasHeader :: "jsstr \<Rightarrow> 'a outgoing_scheme \<Rightarrow> bool" where
  "hasHeader name om \<longleftrightarrow> om_get om (to_lower name) \<noteq> None"

definition getHeaderNames :: "'a outgoing_scheme \<Rightarrow> jsstr list" where
  "getHeaderNames om = map fst (own_order (om_headers om))"

definition getRawHeaderNames :: "'a outgoing_scheme \<Rightarrow> jsstr list" where
  "getRawHeaderNames om = map snd (own_order (om_names om))"

fun setHeaders :: "(jsstr \<times> out_value option) list \<Rightarrow> 'a outgoing_scheme \<Rightarrow> 'a outgoing_scheme result" where
  "setHeaders [] om = Inr om"
| "setHeaders ((name, v) # hs) om = bind_result (setHeader name v om) (setHeaders hs)"

definition om_cork :: "'a outgoing_scheme \<Rightarrow> 'a outgoing_scheme" where
  "om_cork om = om\<lparr>om_corked := om_corked om + 1\<rparr>"

definition om_uncork :: "'a outgoing_scheme \<Rightarrow> 'a outgoing_scheme" where
  "om_uncork om = (if 0 < om_corked om then om\<lparr>om_corked := om_corked om - 1\<rparr> else om)"

text \<open>
  The lines of the headers: the name as it was given (\<open>_headerNames[key] || key\<close>, which also finds what the
  object inherits), then the value.
\<close>

definition header_name :: "'a outgoing_scheme \<Rightarrow> jsstr \<Rightarrow> jsstr" where
  "header_name om lower =
     (case map_of (om_names om) lower of
        Some n \<Rightarrow> if n = [] then lower else n
      | None \<Rightarrow> if inherited_name lower then inherited_text lower else lower)"

definition out_pairs :: "'a outgoing_scheme \<Rightarrow> (jsstr \<times> jsstr) list" where
  "out_pairs om = map (\<lambda>(lower, v). (header_name om lower, out_string v)) (own_order (om_headers om))"

section \<open>ServerResponse\<close>

record response = outgoing +
  sr_head_request :: bool      \<comment> \<open>the request has the method HEAD\<close>
  sr_code :: nat
  sr_message :: "jsstr option"
  sr_send_date :: bool
  sr_ended :: bool
  sr_finished :: bool
  sr_header_buf :: jsstr
  sr_reject :: bool            \<comment> \<open>\<open>rejectNonStandardBodyWrites\<close>\<close>
  sr_trailers :: "(jsstr \<times> out_value) list"
  sr_socket :: "jsstr list"

definition sr_new :: "bool \<Rightarrow> response" where
  "sr_new head_request =
     outgoing.extend om_new
       \<lparr>sr_head_request = head_request, sr_code = 200, sr_message = None, sr_send_date = True,
        sr_ended = False, sr_finished = False, sr_header_buf = [], sr_reject = False, sr_trailers = [], sr_socket = []\<rparr>"

definition STATUS_CODES :: "(nat \<times> string) list" where
  "STATUS_CODES =
     [(100, ''Continue''), (101, ''Switching Protocols''), (200, ''OK''), (201, ''Created''), (202, ''Accepted''),
      (204, ''No Content''), (206, ''Partial Content''), (301, ''Moved Permanently''), (302, ''Found''),
      (303, ''See Other''), (304, ''Not Modified''), (307, ''Temporary Redirect''), (308, ''Permanent Redirect''),
      (400, ''Bad Request''), (401, ''Unauthorized''), (403, ''Forbidden''), (404, ''Not Found''),
      (405, ''Method Not Allowed''), (408, ''Request Timeout''), (409, ''Conflict''), (411, ''Length Required''),
      (413, ''Payload Too Large''), (414, ''URI Too Long''), (415, ''Unsupported Media Type''),
      (429, ''Too Many Requests''), (500, ''Internal Server Error''), (501, ''Not Implemented''),
      (502, ''Bad Gateway''), (503, ''Service Unavailable''), (504, ''Gateway Timeout'')]"

definition status_message :: "response \<Rightarrow> jsstr" where
  "status_message sr =
     (case sr_message sr of
        Some m \<Rightarrow> m
      | None \<Rightarrow> js (case map_of STATUS_CODES (sr_code sr) of Some m \<Rightarrow> m | None \<Rightarrow> ''Unknown''))"

definition socket_write :: "jsstr \<Rightarrow> response \<Rightarrow> response" where
  "socket_write bytes sr = sr\<lparr>sr_socket := sr_socket sr @ [bytes]\<rparr>"

definition sendHeaders :: "jsstr \<Rightarrow> response \<Rightarrow> response" where
  "sendHeaders date sr =
     (if om_sent sr then sr
      else sr\<lparr>om_sent := True,
              sr_header_buf := status_line (sr_code sr) (status_message sr) @ CRLF @
                concat (map header_text (out_pairs sr)) @
                (if sr_send_date sr \<and> \<not> out_truthy (om_get sr (js ''date''))
                 then header_text (js ''Date'', date) else [])\<rparr>)"

definition sr_bodyless :: "response \<Rightarrow> bool" where
  "sr_bodyless sr \<longleftrightarrow>
     sr_head_request sr \<or> sr_code sr = 204 \<or> sr_code sr = 304 \<or> (100 \<le> sr_code sr \<and> sr_code sr < 200)"

definition isChunked :: "response \<Rightarrow> bool" where
  "isChunked sr =
     (case om_get sr (js ''transfer-encoding'') of
        None \<Rightarrow> False
      | Some v \<Rightarrow> index_of_str (js ''chunked'') (to_lower (out_string v)) \<noteq> None)"

definition writeHead_now :: "jsstr \<Rightarrow> response \<Rightarrow> response" where
  "writeHead_now date sr = (let sr1 = sendHeaders date sr in socket_write (sr_header_buf sr1 @ CRLF) sr1)"

text \<open>The method \<open>writeHead\<close>: status, message and headers.\<close>

definition sr_writeHead ::
    "nat \<Rightarrow> jsstr option \<Rightarrow> (jsstr \<times> out_value option) list \<Rightarrow> response \<Rightarrow> response result" where
  "sr_writeHead code message hs sr =
     setHeaders hs (sr\<lparr>sr_code := code, sr_message := (case message of None \<Rightarrow> sr_message sr | Some m \<Rightarrow> Some m)\<rparr>)"

text \<open>Before a body of unknown length: chunks, unless the headers say otherwise.\<close>

definition stream_headers :: "response \<Rightarrow> response result" where
  "stream_headers sr =
     (if \<not> out_truthy (om_get sr (js ''transfer-encoding'')) \<and> \<not> out_truthy (om_get sr (js ''content-length'')) \<and>
         \<not> sr_bodyless sr
      then setHeader (js ''Transfer-Encoding'') (Some (OStr (js ''chunked''))) sr else Inr sr)"

definition sr_flushHeaders :: "jsstr \<Rightarrow> response \<Rightarrow> response result" where
  "sr_flushHeaders date sr =
     (if om_sent sr then Inr sr else bind_result (stream_headers sr) (\<lambda>sr1. Inr (writeHead_now date sr1)))"

definition write_chunk :: "jsstr \<Rightarrow> response \<Rightarrow> response" where
  "write_chunk bytes sr =
     socket_write CRLF (socket_write bytes (socket_write (hex_string (length bytes) @ CRLF) sr))"

definition sr_write :: "jsstr \<Rightarrow> jsstr \<Rightarrow> response \<Rightarrow> response result" where
  "sr_write date bytes sr =
     (if sr_reject sr \<and> (sr_code sr = 204 \<or> sr_code sr = 304 \<or> (100 \<le> sr_code sr \<and> sr_code sr < 200)) \<and> bytes \<noteq> []
      then Inl (CodedError ''ERR_HTTP_BODY_NOT_ALLOWED'')
      else
        bind_result (if om_sent sr then Inr sr
                     else bind_result (stream_headers sr) (\<lambda>sr1. Inr (writeHead_now date sr1)))
          (\<lambda>sr1. Inr (if sr_bodyless sr1 \<or> bytes = [] then sr1
                      else if isChunked sr1 then write_chunk bytes sr1
                      else socket_write bytes sr1)))"

definition end_chunk :: "response \<Rightarrow> response" where
  "end_chunk sr = (if isChunked sr \<and> \<not> sr_bodyless sr then socket_write last_chunk sr else sr)"

definition sr_end :: "jsstr \<Rightarrow> jsstr option \<Rightarrow> response \<Rightarrow> response result" where
  "sr_end date data sr =
     (if sr_ended sr then Inr sr
      else
        (let sr = sr\<lparr>sr_ended := True\<rparr>
         in bind_result
              (if \<not> om_sent sr then
                 (let body = (case data of None \<Rightarrow> [] | Some b \<Rightarrow> b)
                  in bind_result
                       (if \<not> out_truthy (om_get sr (js ''content-length'')) \<and> \<not> isChunked sr \<and> \<not> sr_bodyless sr
                        then setHeader (js ''Content-Length'') (Some (OStr (js (dec_string (length body))))) sr
                        else Inr sr)
                       (\<lambda>sr1.
                         let sr2 = writeHead_now date sr1;
                             sr3 = (if body \<noteq> [] \<and> \<not> sr_bodyless sr2
                                    then (if isChunked sr2 then write_chunk body sr2 else socket_write body sr2) else sr2)
                         in Inr (end_chunk sr3)))
               else
                 bind_result (case data of None \<Rightarrow> Inr sr | Some b \<Rightarrow> sr_write date b sr) (\<lambda>sr1. Inr (end_chunk sr1)))
              (\<lambda>sr1. Inr (sr1\<lparr>sr_finished := True\<rparr>))))"

definition writeContinue :: "response \<Rightarrow> response" where
  "writeContinue sr = socket_write (js ''HTTP/1.1 100 Continue'' @ CRLF @ CRLF) sr"

definition writeProcessing :: "response \<Rightarrow> response" where
  "writeProcessing sr = socket_write (js ''HTTP/1.1 102 Processing'' @ CRLF @ CRLF) sr"

fun hint_lines :: "jsstr \<times> out_value \<Rightarrow> jsstr" where
  "hint_lines (k, OArr vs) = concat (map (\<lambda>v. header_text (k, v)) vs)"
| "hint_lines (k, v) = header_text (k, out_string v)"

definition writeEarlyHints :: "(jsstr \<times> out_value) list \<Rightarrow> response \<Rightarrow> response" where
  "writeEarlyHints hints sr =
     socket_write (js ''HTTP/1.1 103 Early Hints'' @ CRLF @ concat (map hint_lines hints) @ CRLF) sr"

definition addTrailers :: "(jsstr \<times> out_value) list \<Rightarrow> response \<Rightarrow> response" where
  "addTrailers hs sr = sr\<lparr>sr_trailers := foldl (\<lambda>t (k, v). obj_put (to_lower k) v t) (sr_trailers sr) hs\<rparr>"

section \<open>Reading a response\<close>

text \<open>Comparisons of a count with a number.\<close>

fun exceeds :: "nat \<Rightarrow> jsnum \<Rightarrow> bool" where
  "exceeds n (Fin r) \<longleftrightarrow> r < of_nat n"
| "exceeds n NegInf \<longleftrightarrow> True"
| "exceeds n _ \<longleftrightarrow> False"

fun reaches :: "nat \<Rightarrow> jsnum \<Rightarrow> bool" where
  "reaches n (Fin r) \<longleftrightarrow> r \<le> of_nat n"
| "reaches n NegInf \<longleftrightarrow> True"
| "reaches n _ \<longleftrightarrow> False"

fun not_negative :: "jsnum \<Rightarrow> bool" where
  "not_negative (Fin r) \<longleftrightarrow> 0 \<le> r"
| "not_negative PosInf \<longleftrightarrow> True"
| "not_negative _ \<longleftrightarrow> False"

fun minus_num :: "jsnum \<Rightarrow> nat \<Rightarrow> jsnum" where
  "minus_num (Fin r) n = Fin (r - of_nat n)"
| "minus_num x n = x"

fun is_interim :: "jsnum \<Rightarrow> bool" where
  "is_interim (Fin r) \<longleftrightarrow> 100 \<le> r \<and> r < 200"
| "is_interim _ \<longleftrightarrow> False"

record reader =
  rd_head_request :: bool
  rd_buf :: jsstr                   \<comment> \<open>\<open>responseBuf\<close>\<close>
  rd_head :: "response_head option" \<comment> \<open>set once \<open>headParsed\<close>\<close>
  rd_expected :: jsnum              \<comment> \<open>\<open>expectedLength\<close>\<close>
  rd_chunked :: bool
  rd_body :: jsstr                  \<comment> \<open>\<open>bodyBuf\<close>\<close>
  rd_received :: nat
  rd_pushed :: "jsstr list"         \<comment> \<open>arguments of \<open>_pushBody\<close>\<close>
  rd_ends :: nat                    \<comment> \<open>\<open>end\<close> events; the response is complete after the first\<close>

definition rd_new :: "bool \<Rightarrow> reader" where
  "rd_new head_request =
     \<lparr>rd_head_request = head_request, rd_buf = [], rd_head = None, rd_expected = Fin (- 1), rd_chunked = False,
      rd_body = [], rd_received = 0, rd_pushed = [], rd_ends = 0\<rparr>"

definition rd_finish :: "reader \<Rightarrow> reader" where
  "rd_finish rd = rd\<lparr>rd_ends := rd_ends rd + 1\<rparr>"

text \<open>The loop that skips interim responses. \<open>None\<close> is a loop that does not end.\<close>

partial_function (option) interim_loop :: "jsstr \<Rightarrow> (jsstr \<times> response_head option) result option" where
  "interim_loop buf =
     (case parseResponseHead buf False of
        Inl e \<Rightarrow> Some (Inl e)
      | Inr None \<Rightarrow> Some (Inr (buf, None))
      | Inr (Some h) \<Rightarrow>
          if is_interim (rs_code h) then
            (case consumeIncomingBody buf (mh_size h) (mh_headers h) of
               None \<Rightarrow> None
             | Some (Inl e) \<Rightarrow> Some (Inl e)
             | Some (Inr None) \<Rightarrow> Some (Inr (buf, None))
             | Some (Inr (Some (_, consumed))) \<Rightarrow> interim_loop (drop (nat (trunc_num consumed)) buf))
          else Some (Inr (buf, Some h)))"

partial_function (option) process_chunked :: "reader \<Rightarrow> reader option" where
  "process_chunked rd =
     (case findCRLF (rd_body rd) 0 of
        None \<Rightarrow> Some rd
      | Some nl \<Rightarrow>
          (case parseInt 16 (take nl (rd_body rd)) of
             None \<Rightarrow> Some rd
           | Some chunkSize \<Rightarrow>
               if chunkSize = 0 then Some (rd_finish rd)
               else
                 (let chunkStart = int nl + 2; chunkEnd = chunkStart + chunkSize
                  in if int (length (rd_body rd)) < chunkEnd + 2 then Some rd
                     else process_chunked
                       (rd\<lparr>rd_pushed := rd_pushed rd @ [substring (rd_body rd) chunkStart chunkEnd],
                           rd_body := drop (nat (chunkEnd + 2)) (rd_body rd)\<rparr>))))"

definition process_body :: "reader \<Rightarrow> reader option" where
  "process_body rd =
     (if not_negative (rd_expected rd) then
        (let rd1 = (if rd_body rd = [] then rd
                    else
                      (let piece = (if exceeds (rd_received rd + length (rd_body rd)) (rd_expected rd)
                                    then substring (rd_body rd) 0 (trunc_num (minus_num (rd_expected rd) (rd_received rd)))
                                    else rd_body rd)
                       in rd\<lparr>rd_pushed := rd_pushed rd @ [piece], rd_received := rd_received rd + length piece, rd_body := []\<rparr>))
         in Some (if reaches (rd_received rd1) (rd_expected rd1) then rd_finish rd1 else rd1))
      else if rd_chunked rd then process_chunked rd
      else Some (if rd_body rd = [] then rd else rd\<lparr>rd_pushed := rd_pushed rd @ [rd_body rd], rd_body := []\<rparr>))"

definition body_mode :: "response_head \<Rightarrow> reader \<Rightarrow> reader" where
  "body_mode h rd =
     (case mh_headers h (js ''content-length'') of
        Some v \<Rightarrow> rd\<lparr>rd_expected := to_number (hval_string v)\<rparr>
      | None \<Rightarrow>
          (case mh_headers h (js ''transfer-encoding'') of
             None \<Rightarrow> rd
           | Some (One s) \<Rightarrow> rd\<lparr>rd_chunked := (index_of_str (js ''chunked'') s \<noteq> None)\<rparr>
           | Some (Many vs) \<Rightarrow> rd\<lparr>rd_chunked := js ''chunked'' \<in> set vs\<rparr>))"

text \<open>The handler of the socket's \<open>data\<close> event.\<close>

definition reader_data :: "jsstr \<Rightarrow> reader \<Rightarrow> reader result option" where
  "reader_data chunk rd =
     (let rd1 = rd\<lparr>rd_buf := rd_buf rd @ chunk\<rparr>
      in if rd_head rd1 = None then
           (case interim_loop (rd_buf rd1) of
              None \<Rightarrow> None
            | Some (Inl e) \<Rightarrow> Some (Inl e)
            | Some (Inr (buf, None)) \<Rightarrow> Some (Inr (rd1\<lparr>rd_buf := buf\<rparr>))
            | Some (Inr (buf, Some h)) \<Rightarrow>
                (let rd2 = body_mode h (rd1\<lparr>rd_head := Some h, rd_body := drop (mh_size h) buf, rd_buf := []\<rparr>)
                 in if rd_head_request rd2 then Some (Inr (rd_finish rd2))
                    else map_option Inr (process_body rd2)))
         else map_option Inr (process_body (rd1\<lparr>rd_body := rd_body rd1 @ chunk\<rparr>)))"

fun reader_run :: "jsstr list \<Rightarrow> reader \<Rightarrow> reader result option" where
  "reader_run [] rd = Some (Inr rd)"
| "reader_run (c # cs) rd =
     (case reader_data c rd of
        None \<Rightarrow> None
      | Some (Inl e) \<Rightarrow> Some (Inl e)
      | Some (Inr rd1) \<Rightarrow> reader_run cs rd1)"

section \<open>Reading, whatever the pieces\<close>

lemma index_of_str_extend: "index_of_str t p = Some i \<Longrightarrow> index_of_str t (p @ u) = Some i"
proof (induction p arbitrary: i)
  case (Cons x p)
  show ?case
  proof (cases "prefix t (x # p)")
    case True
    then have "prefix t ((x # p) @ u)" by (rule prefix_prefix)
    then show ?thesis using Cons.prems True by simp
  next
    case False
    then obtain j where j: "index_of_str t p = Some j" "i = Suc j" using Cons.prems by auto
    then have "length t \<le> length p" using index_of_str_Some [OF j(1)] by simp
    then have "\<not> prefix t (x # p @ u)" using False prefix_length_prefix [of t "(x # p) @ u" "x # p"] by auto
    then show ?thesis using Cons.IH [OF j(1)] j(2) by simp
  qed
qed (cases t; cases u; simp)

lemma head_incomplete:
  assumes "p @ t = head_text line hs" "t \<noteq> []" "13 \<notin> set line" "line \<noteq> []" "list_all valid_header hs"
  shows "head_lines p = None"
proof -
  have "index_of_str (CRLF @ CRLF) p = None"
  proof (rule ccontr)
    assume "index_of_str (CRLF @ CRLF) p \<noteq> None"
    then obtain i where i: "index_of_str (CRLF @ CRLF) p = Some i" by auto
    then have "index_of_str (CRLF @ CRLF) (p @ t) = Some i" by (rule index_of_str_extend)
    then have "head_lines (head_text line hs @ []) = (case splitHeaderLines (take i (p @ t)) of
        [] \<Rightarrow> None | l # ls \<Rightarrow> Some (i + 4, l, ls))"
      using assms(1) by (simp add: head_lines_def)
    then have "length (p @ t) = i + 4"
      using head_lines_text [OF assms(3-5), of "[]"] assms(1) by (auto split: list.splits)
    moreover have "i + 4 \<le> length p" using index_of_str_Some [OF i] by (simp add: CRLF_def)
    ultimately show False using assms(2) by (cases t) simp_all
  qed
  then show ?thesis by (simp add: head_lines_def)
qed

text \<open>
  A way of sending bodies that the reader follows: what it keeps after any part \<open>b\<close> of the body (\<open>inv\<close>), so
  that any further piece brings it to the longer part, and the last one to the end.
\<close>

locale body_protocol =
  fixes ok :: "(jsstr \<times> jsstr) list \<Rightarrow> 'b \<Rightarrow> bool"
    and body_text :: "'b \<Rightarrow> jsstr"
    and inv :: "'b \<Rightarrow> jsstr \<Rightarrow> reader \<Rightarrow> bool"
  assumes inv_start: "ok hs x \<Longrightarrow> mh_headers h = fin_headers (summary False hs) \<Longrightarrow>
      inv x [] (body_mode h ((rd_new False)\<lparr>rd_head := Some h\<rparr>))"
    and inv_step: "ok hs x \<Longrightarrow> inv x b rd \<Longrightarrow> b @ c @ t = body_text x \<Longrightarrow>
      \<exists>rd'. process_body (rd\<lparr>rd_buf := buf, rd_body := rd_body rd @ c\<rparr>) = Some rd' \<and> rd_head rd' = rd_head rd \<and>
        inv x (b @ c) rd' \<and> (t = [] \<longrightarrow> 0 < rd_ends rd')"
    and inv_body: "inv x [] rd \<Longrightarrow> rd_body rd = []"
begin

definition stage :: "(jsstr \<times> jsstr) list \<Rightarrow> nat \<Rightarrow> jsstr \<Rightarrow> 'b \<Rightarrow> jsstr \<Rightarrow> reader \<Rightarrow> bool" where
  "stage hs code msg x p rd \<longleftrightarrow>
     (\<exists>t. t \<noteq> [] \<and> p @ t = head_text (status_line code msg) hs \<and> rd = (rd_new False)\<lparr>rd_buf := p\<rparr>) \<or>
     (\<exists>b h. p = head_text (status_line code msg) hs @ b \<and> rd_head rd = Some h \<and> rs_code h = Fin (of_nat code) \<and>
        rs_message h = msg \<and> mh_raw h = flatten hs \<and> inv x b rd \<and> (b = body_text x \<longrightarrow> 0 < rd_ends rd))"

lemma stage_new: "stage hs code msg x [] (rd_new False)"
proof -
  have "head_text (status_line code msg) hs \<noteq> []" by (simp add: head_text_def CRLF_def)
  then show ?thesis by (simp add: stage_def rd_new_def)
qed

lemma stage_step:
  assumes "ok hs x" "valid_headers hs" "13 \<notin> set msg" "200 \<le> code"
    and stage: "stage hs code msg x p rd" and rest: "p @ c @ t = head_text (status_line code msg) hs @ body_text x"
  shows "\<exists>rd'. reader_data c rd = Some (Inr rd') \<and> stage hs code msg x (p @ c) rd'"
proof -
  define H where "H = head_text (status_line code msg) hs"
  have sl: "13 \<notin> set (status_line code msg)" "status_line code msg \<noteq> []"
    using assms(3) dec_string_digits [of code] by (auto simp: status_line_def)
  have vh: "list_all valid_header hs" using assms(2) by (simp add: valid_headers_def)
  consider (head) t' where "t' \<noteq> []" "p @ t' = H" "rd = (rd_new False)\<lparr>rd_buf := p\<rparr>"
    | (body) b h where "p = H @ b" "rd_head rd = Some h" "rs_code h = Fin (of_nat code)" "rs_message h = msg"
        "mh_raw h = flatten hs" "inv x b rd"
    using stage unfolding stage_def H_def by blast
  then show ?thesis
  proof cases
    case head
    show ?thesis
    proof (cases "length (p @ c) < length H")
      case True
      define t2 where "t2 = drop (length (p @ c)) H"
      have "take (length (p @ c)) ((p @ c) @ t) = take (length (p @ c)) (H @ body_text x)"
        using rest by (simp add: H_def)
      then have "p @ c = take (length (p @ c)) H" using True by simp
      then have t2: "(p @ c) @ t2 = H" "t2 \<noteq> []" using True unfolding t2_def by (metis append_take_drop_id, simp)
      then have "head_lines (p @ c) = None" using head_incomplete [OF _ t2(2) sl vh] by (simp add: H_def)
      then have "interim_loop (p @ c) = Some (Inr (p @ c, None))"
        by (subst interim_loop.simps) (simp add: parseResponseHead_def)
      then have "reader_data c rd = Some (Inr ((rd_new False)\<lparr>rd_buf := p @ c\<rparr>))"
        using head(3) by (simp add: reader_data_def Let_def rd_new_def)
      then show ?thesis using t2 by (auto simp: stage_def H_def)
    next
      case False
      define b where "b = drop (length H) (p @ c)"
      have "take (length H) ((p @ c) @ t) = H" using rest by (simp add: H_def)
      then have "take (length H) (p @ c) = H" using False by simp
      then have pc: "p @ c = H @ b" unfolding b_def by (metis append_take_drop_id)
      have "(p @ c) @ t = H @ body_text x" using rest by (simp add: H_def)
      then have bt: "b @ t = body_text x" unfolding pc by simp
      obtain h where h: "parseResponseHead (H @ b) False = Inr (Some h)" "rs_code h = Fin (of_nat code)"
        "rs_message h = msg" "mh_raw h = flatten hs" "mh_headers h = fin_headers (summary False hs)" "mh_size h = length H"
        using parse_response_text [OF assms(3,2), of code b False] by (simp add: H_def)
      have "\<not> is_interim (Fin (of_nat code))"
        using assms(4) by simp
      then have loop: "interim_loop (p @ c) = Some (Inr (H @ b, Some h))"
        unfolding pc using h(1,2) by (subst interim_loop.simps) (simp del: is_interim.simps)
      define rd0 where "rd0 = body_mode h ((rd_new False)\<lparr>rd_head := Some h\<rparr>)"
      have i0: "inv x [] rd0" unfolding rd0_def by (rule inv_start [OF assms(1) h(5)])
      have mode: "body_mode h ((rd_new False)\<lparr>rd_head := Some h, rd_body := b, rd_buf := []\<rparr>)
          = rd0\<lparr>rd_buf := [], rd_body := rd_body rd0 @ b\<rparr>"
        using inv_body [OF i0] by (simp add: rd0_def body_mode_def rd_new_def split: option.split hval.split)
      have nh: "\<not> rd_head_request rd0" "rd_head rd0 = Some h"
        by (simp_all add: rd0_def body_mode_def rd_new_def split: option.split hval.split)
      obtain rd' where rd': "process_body (rd0\<lparr>rd_buf := [], rd_body := rd_body rd0 @ b\<rparr>) = Some rd'"
        "rd_head rd' = Some h" "inv x b rd'" "t = [] \<longrightarrow> 0 < rd_ends rd'"
        using inv_step [OF assms(1) i0, of b t "[]"] bt nh(2) by auto
      have "reader_data c rd = Some (Inr rd')"
        using head(3) loop h(6) mode nh(1) rd'(1) by (simp add: reader_data_def Let_def rd_new_def)
      then show ?thesis using rd' h(2-4) pc bt by (auto simp: stage_def H_def)
    qed
  next
    case body
    have bt: "b @ c @ t = body_text x" using rest body(1) by (simp add: H_def)
    obtain rd' where rd': "process_body (rd\<lparr>rd_buf := rd_buf rd @ c, rd_body := rd_body rd @ c\<rparr>) = Some rd'"
      "rd_head rd' = rd_head rd" "inv x (b @ c) rd'" "t = [] \<longrightarrow> 0 < rd_ends rd'"
      using inv_step [OF assms(1) body(6) bt] by blast
    have "reader_data c rd = Some (Inr rd')" using body(2) rd'(1) by (simp add: reader_data_def Let_def)
    moreover have "t = []" if "b @ c = body_text x" using that bt by (metis append.assoc append_Nil2 same_append_eq)
    ultimately show ?thesis using rd' body bt unfolding stage_def H_def by auto
  qed
qed

lemma stage_run:
  assumes "ok hs x" "valid_headers hs" "13 \<notin> set msg" "200 \<le> code"
  shows "stage hs code msg x p rd \<Longrightarrow> p @ concat segs = head_text (status_line code msg) hs @ body_text x \<Longrightarrow>
    \<exists>rd'. reader_run segs rd = Some (Inr rd') \<and> stage hs code msg x (p @ concat segs) rd'"
proof (induction segs arbitrary: p rd)
  case (Cons c segs)
  obtain rd1 where rd1: "reader_data c rd = Some (Inr rd1)" "stage hs code msg x (p @ c) rd1"
    using stage_step [OF assms Cons.prems(1), of c "concat segs"] Cons.prems(2) by auto
  then show ?case using Cons.IH [OF rd1(2)] Cons.prems(2) by simp
qed simp

lemma response_read:
  assumes "ok hs x" "valid_headers hs" "13 \<notin> set msg" "200 \<le> code"
    and "concat segs = head_text (status_line code msg) hs @ body_text x"
  shows "\<exists>rd h. reader_run segs (rd_new False) = Some (Inr rd) \<and> rd_head rd = Some h \<and>
    rs_code h = Fin (of_nat code) \<and> rs_message h = msg \<and> mh_raw h = flatten hs \<and>
    inv x (body_text x) rd \<and> 0 < rd_ends rd"
proof -
  obtain rd where rd: "reader_run segs (rd_new False) = Some (Inr rd)" "stage hs code msg x (concat segs) rd"
    using stage_run [OF assms(1-4) stage_new, of segs] assms(5) by auto
  then show ?thesis using assms(5) unfolding stage_def by (auto simp: append_eq_append_conv2)
qed

end

section \<open>Bodies in chunks and bodies of known length\<close>

definition CHUNKED :: jsstr where "CHUNKED = js ''chunked''"

lemma combined_single: "combined join n [v] = Some (One v)"
  by (simp add: combined_def)

lemma summary_lookup: "fin_headers (summary join hs) n = combined join n (values_of n hs)"
  by (simp add: summary_def)

text \<open>One call of the chunk loop takes in the complete chunks and stops at the first incomplete one.\<close>

lemma process_chunked_body:
  "rd_body rd @ t = chunked_body cs \<Longrightarrow> [] \<notin> set cs \<Longrightarrow>
   \<exists>cs1 cs2 rd'. cs = cs1 @ cs2 \<and> process_chunked rd = Some rd' \<and> rd_pushed rd' = rd_pushed rd @ cs1 \<and>
     rd_body rd' @ t = chunked_body cs2 \<and> rd_head rd' = rd_head rd \<and> rd_expected rd' = rd_expected rd \<and>
     rd_chunked rd' = rd_chunked rd \<and> (t = [] \<longrightarrow> cs2 = [] \<and> 0 < rd_ends rd')"
proof (induction cs arbitrary: rd)
  case Nil
  then have b: "rd_body rd @ t = last_chunk" by (simp add: chunked_body_def)
  consider "findCRLF (rd_body rd) 0 = None" "t \<noteq> []"
    | nl where "findCRLF (rd_body rd) 0 = Some nl" "parseInt 16 (take nl (rd_body rd)) = Some 0"
  proof (cases "t = []")
    case True
    then have "drop 0 (rd_body rd) = hex_string 0 @ CRLF @ CRLF" using b by (simp add: last_chunk_def chunk_zero)
    from chunk_loop_size [OF this] show ?thesis
      using that(2) [of 1] True b by (simp add: chunk_zero last_chunk_def substring_def slice_def CRLF_def)
  next
    case False
    have "substring (rd_body rd) 0 (int nl) = take nl (rd_body rd)" for nl
      by (simp add: substring_def slice_def min_def)
    then show ?thesis using last_chunk_cut [of 0 "rd_body rd" t] b False that by auto
  qed
  then show ?case
  proof cases
    case 1
    then have "process_chunked rd = Some rd" by (subst process_chunked.simps) simp
    then show ?thesis using Nil.prems 1(2) by simp
  next
    case 2
    then have "process_chunked rd = Some (rd_finish rd)" by (subst process_chunked.simps) simp
    then show ?thesis using Nil.prems by (simp add: rd_finish_def)
  qed
next
  case (Cons c cs)
  have c: "c \<noteq> []" "[] \<notin> set cs" using Cons.prems(2) by auto
  have d: "rd_body rd @ t = chunk_frame c @ chunked_body cs" using Cons.prems(1) by (simp add: chunked_body_def)
  have sub: "substring (rd_body rd) 0 (int nl) = take nl (rd_body rd)" for nl
    by (simp add: substring_def slice_def min_def)
  show ?case
  proof (cases "length (rd_body rd) < length (chunk_frame c)")
    case True
    then have "findCRLF (rd_body rd) 0 = None \<or> (\<exists>nl. findCRLF (rd_body rd) 0 = Some nl \<and>
        parseInt 16 (take nl (rd_body rd)) = Some (int (length c)) \<and> length (rd_body rd) < nl + length c + 4)"
      using chunk_cut [of 0 "rd_body rd" t c "chunked_body cs"] d sub by simp
    then have "process_chunked rd = Some rd"
      using c(1) by (subst process_chunked.simps) (auto simp: Let_def)
    moreover have "t \<noteq> []" using True d by (cases t) auto
    ultimately show ?thesis using Cons.prems(1) by auto
  next
    case False
    define b where "b = drop (length (chunk_frame c)) (rd_body rd)"
    define h where "h = hex_string (length c)"
    have "take (length (chunk_frame c)) (rd_body rd) = chunk_frame c"
      using False arg_cong [OF d, of "take (length (chunk_frame c))"] by simp
    then have body: "rd_body rd = chunk_frame c @ b" unfolding b_def by (metis append_take_drop_id)
    then have bt: "b @ t = chunked_body cs" using d by simp
    have full: "rd_body rd = h @ CRLF @ c @ CRLF @ b" using body by (simp add: chunk_frame_def h_def)
    have "drop 0 (rd_body rd) = hex_string (length c) @ CRLF @ c @ CRLF @ b" using full by (simp add: h_def)
    note f = chunk_loop_size [OF this]
    define rd1 where "rd1 = rd\<lparr>rd_pushed := rd_pushed rd @ [c], rd_body := b\<rparr>"
    have len: "length (rd_body rd) = length h + length c + 4 + length b" by (simp add: full CRLF_def)
    have "substring (rd_body rd) (int (length h) + 2) (int (length h) + 2 + int (length c)) = c"
      using substring_at [of "length h + 2" "rd_body rd" c "CRLF @ b"] c(1) full
      by (simp add: CRLF_def algebra_simps)
    moreover have "drop (nat (int (length h) + 2 + int (length c) + 2)) (rd_body rd) = b"
    proof -
      have "nat (int (length h) + 2 + int (length c) + 2) = length (chunk_frame c)"
        by (simp add: chunk_frame_def h_def CRLF_def)
      then show ?thesis using body by simp
    qed
    moreover have "length c \<noteq> 0" using c(1) by simp
    ultimately have "process_chunked rd = process_chunked rd1"
      using f sub len by (subst process_chunked.simps) (simp add: Let_def rd1_def flip: h_def)
    then show ?thesis
      using Cons.IH [of rd1] bt c(2) by (auto simp: rd1_def)
  qed
qed

definition chunked_ok :: "(jsstr \<times> jsstr) list \<Rightarrow> jsstr list \<Rightarrow> bool" where
  "chunked_ok hs cs \<longleftrightarrow> [] \<notin> set cs \<and> values_of (js ''content-length'') hs = [] \<and>
     values_of (js ''transfer-encoding'') hs = [CHUNKED]"

definition chunked_inv :: "jsstr list \<Rightarrow> jsstr \<Rightarrow> reader \<Rightarrow> bool" where
  "chunked_inv cs b rd \<longleftrightarrow> rd_expected rd = Fin (- 1) \<and> rd_chunked rd \<and>
     (\<exists>cs1 cs2. cs = cs1 @ cs2 \<and> rd_pushed rd = cs1 \<and> (b = [] \<longrightarrow> rd_body rd = []) \<and>
       (\<forall>t. b @ t = chunked_body cs \<longrightarrow> rd_body rd @ t = chunked_body cs2) \<and> (b = chunked_body cs \<longrightarrow> cs2 = []))"

lemma chunked_invI:
  assumes "rd_expected rd = Fin (- 1)" "rd_chunked rd" "cs = cs1 @ cs2" "rd_pushed rd = cs1"
    "b = [] \<Longrightarrow> rd_body rd = []" "\<And>t. b @ t = chunked_body cs \<Longrightarrow> rd_body rd @ t = chunked_body cs2"
    "b = chunked_body cs \<Longrightarrow> cs2 = []"
  shows "chunked_inv cs b rd"
  using assms unfolding chunked_inv_def by blast

definition length_ok :: "(jsstr \<times> jsstr) list \<Rightarrow> jsstr \<Rightarrow> bool" where
  "length_ok hs body \<longleftrightarrow> values_of (js ''content-length'') hs = [js (dec_string (length body))]"

definition length_inv :: "jsstr \<Rightarrow> jsstr \<Rightarrow> reader \<Rightarrow> bool" where
  "length_inv body b rd \<longleftrightarrow> rd_expected rd = Fin (of_nat (length body)) \<and> rd_body rd = [] \<and>
     concat (rd_pushed rd) = b \<and> rd_received rd = length b"

lemma chunked_body_not_Nil: "chunked_body cs \<noteq> []"
  by (simp add: chunked_body_def last_chunk_def)

interpretation chunked: body_protocol chunked_ok chunked_body chunked_inv
proof unfold_locales
  fix hs cs and h :: response_head
  assume ok: "chunked_ok hs cs" and h: "mh_headers h = fin_headers (summary False hs)"
  have "mh_headers h (js ''content-length'') = None"
    using ok unfolding h summary_lookup chunked_ok_def by (simp add: combined_def)
  moreover have "mh_headers h (js ''transfer-encoding'') = Some (One CHUNKED)"
    using ok unfolding h summary_lookup chunked_ok_def by (simp add: combined_single)
  moreover have "index_of_str (js ''chunked'') CHUNKED = Some 0" by (simp add: CHUNKED_def)
  ultimately have "body_mode h ((rd_new False)\<lparr>rd_head := Some h\<rparr>) = (rd_new False)\<lparr>rd_head := Some h, rd_chunked := True\<rparr>"
    by (simp add: body_mode_def rd_new_def)
  then show "chunked_inv cs [] (body_mode h ((rd_new False)\<lparr>rd_head := Some h\<rparr>))"
    using chunked_body_not_Nil [of cs] by (simp add: chunked_inv_def rd_new_def)
next
  fix hs cs b rd c t buf
  assume ok: "chunked_ok hs cs" and inv: "chunked_inv cs b rd" and bct: "b @ c @ t = chunked_body cs"
  obtain cs1 cs2 where i: "cs = cs1 @ cs2" "rd_pushed rd = cs1" "rd_body rd @ c @ t = chunked_body cs2"
    "rd_expected rd = Fin (- 1)" "rd_chunked rd"
    using inv bct unfolding chunked_inv_def by blast
  define rd1 where "rd1 = rd\<lparr>rd_buf := buf, rd_body := rd_body rd @ c\<rparr>"
  obtain cs3 cs4 rd' where r: "cs2 = cs3 @ cs4" "process_chunked rd1 = Some rd'" "rd_pushed rd' = rd_pushed rd1 @ cs3"
    "rd_body rd' @ t = chunked_body cs4" "rd_head rd' = rd_head rd1" "rd_expected rd' = rd_expected rd1"
    "rd_chunked rd' = rd_chunked rd1" "t = [] \<longrightarrow> cs4 = [] \<and> 0 < rd_ends rd'"
    using process_chunked_body [of rd1 t cs2] i(1,3) ok by (auto simp: rd1_def chunked_ok_def)
  have "process_body rd1 = Some rd'" using i(4,5) r(2) by (simp add: process_body_def rd1_def)
  moreover have "chunked_inv cs (b @ c) rd'"
  proof (rule chunked_invI)
    show "rd_expected rd' = Fin (- 1)" "rd_chunked rd'" using i(4,5) r(6,7) by (simp_all add: rd1_def)
    show "rd_pushed rd' = cs1 @ cs3" using i(2) r(3) by (simp add: rd1_def)
    show "cs = (cs1 @ cs3) @ cs4" using i(1) r(1) by simp
    show "rd_body rd' @ t' = chunked_body cs4" if "(b @ c) @ t' = chunked_body cs" for t'
    proof -
      have "b @ c @ t' = b @ c @ t" using that bct by simp
      then show ?thesis using r(4) by simp
    qed
    show "rd_body rd' = []" if "b @ c = []"
    proof -
      have "rd_body rd = []" using inv that by (auto simp: chunked_inv_def)
      then have "rd_body rd1 = []" using that by (simp add: rd1_def)
      then have "process_chunked rd1 = Some rd1" by (subst process_chunked.simps) (simp add: findCRLF.simps)
      then show ?thesis using r(2) \<open>rd_body rd1 = []\<close> by simp
    qed
    show "cs4 = []" if "b @ c = chunked_body cs" using that bct r(8) by (metis append.assoc append_Nil2 same_append_eq)
  qed
  ultimately show "\<exists>rd'. process_body (rd\<lparr>rd_buf := buf, rd_body := rd_body rd @ c\<rparr>) = Some rd' \<and>
      rd_head rd' = rd_head rd \<and> chunked_inv cs (b @ c) rd' \<and> (t = [] \<longrightarrow> 0 < rd_ends rd')"
    using r(5,8) by (auto simp: rd1_def)
next
  show "chunked_inv cs [] rd \<Longrightarrow> rd_body rd = []" for cs rd by (auto simp: chunked_inv_def)
qed

interpretation known_length: body_protocol length_ok "\<lambda>body. body" length_inv
proof unfold_locales
  fix hs body and h :: response_head
  assume ok: "length_ok hs body" and h: "mh_headers h = fin_headers (summary False hs)"
  have "mh_headers h (js ''content-length'') = Some (One (js (dec_string (length body))))"
    using ok unfolding h summary_lookup length_ok_def by (simp add: combined_single)
  then have "body_mode h ((rd_new False)\<lparr>rd_head := Some h\<rparr>)
      = (rd_new False)\<lparr>rd_head := Some h, rd_expected := Fin (of_nat (length body))\<rparr>"
    using to_number_dec_string [of "length body"] by (simp add: body_mode_def rd_new_def)
  then show "length_inv body [] (body_mode h ((rd_new False)\<lparr>rd_head := Some h\<rparr>))"
    by (simp add: length_inv_def rd_new_def)
next
  fix hs body b rd c t buf
  assume inv: "length_inv body b rd" and bct: "b @ c @ t = body"
  have i: "rd_expected rd = Fin (of_nat (length body))" "rd_body rd = []" "concat (rd_pushed rd) = b" "rd_received rd = length b"
    using inv by (simp_all add: length_inv_def)
  have "length b + length c \<le> length body" using bct by auto
  then have e: "\<not> exceeds (length b + length c) (Fin (of_nat (length body)))"
    by (metis exceeds.simps(1) linorder_not_less of_nat_less_iff)
  have re: "reaches n (Fin (of_nat (length body))) \<longleftrightarrow> length body \<le> n" for n by simp
  show "\<exists>rd'. process_body (rd\<lparr>rd_buf := buf, rd_body := rd_body rd @ c\<rparr>) = Some rd' \<and>
      rd_head rd' = rd_head rd \<and> length_inv body (b @ c) rd' \<and> (t = [] \<longrightarrow> 0 < rd_ends rd')"
  proof (cases "c = []")
    case True
    then show ?thesis using i re bct by (auto simp: process_body_def length_inv_def rd_finish_def Let_def)
  next
    case False
    then show ?thesis using i e re bct by (auto simp: process_body_def length_inv_def rd_finish_def Let_def)
  qed
next
  show "length_inv body [] rd \<Longrightarrow> rd_body rd = []" for body rd by (simp add: length_inv_def)
qed

section \<open>What the headers of a message hold\<close>

definition om_wf :: "'a outgoing_scheme \<Rightarrow> bool" where
  "om_wf om \<longleftrightarrow> (\<forall>(l, v) \<in> set (om_headers om). to_lower l = l \<and> l \<noteq> js ''__proto__'' \<and>
     (case map_of (om_names om) l of None \<Rightarrow> True | Some n \<Rightarrow> to_lower n = l)) \<and> distinct (map fst (om_headers om))"

lemma update_absent: "k \<notin> fst ` set xs \<Longrightarrow> AList.update k v xs = xs @ [(k, v)]"
  by (induction xs) auto

lemma to_lower_Nil [simp]: "to_lower s = [] \<longleftrightarrow> s = []"
  by (simp add: to_lower_def)

lemma om_get_absent: "om_get om l = None \<longleftrightarrow> l \<notin> fst ` set (om_headers om) \<and> \<not> inherited_name l"
  unfolding om_get_def map_of_eq_None_iff [symmetric] by (simp split: option.split)

lemma om_get_cong: "om_headers om = om_headers om' \<Longrightarrow> om_get om = om_get om'"
  by (rule ext) (simp add: om_get_def)

lemma set_own_order [simp]: "set (own_order xs) = set xs"
  by (auto simp: own_order_def)

lemma index_key_word [simp]: "s \<noteq> [] \<Longrightarrow> 57 < hd s \<Longrightarrow> index_key s = None"
  by (cases s) (auto simp: index_key_def)

lemma own_order_Nil [simp]: "own_order [] = []"
  by (simp add: own_order_def)

lemma own_order_snoc: "index_key k = None \<Longrightarrow> own_order (xs @ [(k, v)]) = own_order xs @ [(k, v)]"
  by (simp add: own_order_def)

lemma set_out_pairs: "set (out_pairs om) = (\<lambda>(l, v). (header_name om l, out_string v)) ` set (om_headers om)"
  by (simp add: out_pairs_def)

lemma out_pairs_store:
  assumes "om_get om (to_lower name) = None" "name \<noteq> []" "index_key (to_lower name) = None"
  shows "out_pairs (store_header name v om) = out_pairs om @ [(name, out_string v)]"
proof -
  have l: "to_lower name \<notin> fst ` set (om_headers om)" "\<not> inherited_name (to_lower name)"
    using assms(1) by (simp_all add: om_get_absent)
  then have p: "to_lower name \<noteq> js ''__proto__''" by (auto simp: inherited_name_def)
  have "header_name (store_header name v om) l = header_name om l" if "(l, v') \<in> set (om_headers om)" for l v'
    using that l p by (auto simp: header_name_def store_header_def obj_put_def update_conv' image_iff)
  moreover have "header_name (store_header name v om) (to_lower name) = name"
    using assms(2) p by (simp add: header_name_def store_header_def obj_put_def update_conv')
  moreover have "om_headers (store_header name v om) = om_headers om @ [(to_lower name, v)]"
    using l p by (simp add: store_header_def obj_put_def update_absent)
  ultimately show ?thesis
    by (simp add: out_pairs_def own_order_snoc [OF assms(3)]) auto
qed

lemma values_of_out_pairs:
  assumes "om_wf om" "om_get om n = None" "32 \<notin> set n"
  shows "values_of n (out_pairs om) = []"
proof -
  have "to_lower (fst p) \<noteq> n" if "p \<in> set (out_pairs om)" for p
  proof -
    obtain l v where lv: "(l, v) \<in> set (om_headers om)" "fst p = header_name om l"
      using \<open>p \<in> set (out_pairs om)\<close> by (auto simp: set_out_pairs)
    have "32 \<in> set (to_lower (inherited_text l))" by (simp add: inherited_text_def to_lower_def lower_unit_def)
    then have "to_lower (inherited_text l) \<noteq> n" using assms(3) by metis
    moreover have "l \<noteq> n" using lv(1) assms(2) by (force simp: om_get_absent)
    ultimately show ?thesis
      using assms(1) lv by (auto simp: om_wf_def header_name_def split: option.splits)
  qed
  then show ?thesis by (auto simp: values_of_def filter_empty_conv)
qed

lemma store_header_wf:
  assumes "om_wf om" shows "om_wf (store_header name v om)"
proof (cases "to_lower name = js ''__proto__''")
  case False
  have "to_lower l = l \<and> l \<noteq> js ''__proto__'' \<and>
      (case map_of (AList.update (to_lower name) name (om_names om)) l of None \<Rightarrow> True | Some n \<Rightarrow> to_lower n = l)"
    if "(l, v') \<in> set (AList.update (to_lower name) v (om_headers om))" for l v'
  proof (cases "l = to_lower name")
    case True
    then show ?thesis using False by (simp add: update_conv')
  next
    case neq: False
    have "l \<in> fst ` set (AList.update (to_lower name) v (om_headers om))" using that by force
    then obtain w where "(l, w) \<in> set (om_headers om)" using neq by (auto simp: dom_update)
    then show ?thesis using assms neq by (auto simp: om_wf_def update_conv')
  qed
  then show ?thesis using assms False by (auto simp: om_wf_def store_header_def obj_put_def distinct_update)
qed (use assms in \<open>simp add: om_wf_def store_header_def obj_put_def\<close>)

section \<open>A response written in chunks or at once\<close>

fun write_all :: "jsstr \<Rightarrow> jsstr list \<Rightarrow> response \<Rightarrow> response result" where
  "write_all date [] sr = Inr sr"
| "write_all date (c # cs) sr = bind_result (sr_write date c sr) (write_all date cs)"

definition date_lines :: "jsstr \<Rightarrow> response \<Rightarrow> (jsstr \<times> jsstr) list" where
  "date_lines date sr =
     (if sr_send_date sr \<and> \<not> out_truthy (om_get sr (js ''date'')) then [(js ''Date'', date)] else [])"

definition TE :: "jsstr \<times> jsstr" where "TE = (js ''Transfer-Encoding'', CHUNKED)"

definition CL :: "nat \<Rightarrow> jsstr \<times> jsstr" where "CL n = (js ''Content-Length'', js (dec_string n))"

text \<open>A response that nothing was sent of, whose headers leave the length of the body open.\<close>

definition fresh :: "jsstr \<Rightarrow> response \<Rightarrow> bool" where
  "fresh date sr \<longleftrightarrow>
     \<not> om_sent sr \<and> \<not> sr_ended sr \<and> sr_socket sr = [] \<and> om_unique sr = None \<and> \<not> sr_bodyless sr \<and>
     om_wf sr \<and> valid_headers (out_pairs sr) \<and> om_get sr (js ''transfer-encoding'') = None \<and>
     om_get sr (js ''content-length'') = None \<and> 200 \<le> sr_code sr \<and> 13 \<notin> set (status_message sr) \<and>
     valid_header (js ''Date'', date)"

definition streaming :: "response \<Rightarrow> bool" where
  "streaming sr \<longleftrightarrow> om_sent sr \<and> isChunked sr \<and> \<not> sr_bodyless sr \<and> \<not> sr_ended sr"

definition sent :: "response \<Rightarrow> jsstr" where "sent sr = concat (sr_socket sr)"

lemma sent_write [simp]: "sent (socket_write b sr) = sent sr @ b" "sent (write_chunk b sr) = sent sr @ chunk_frame b"
  by (simp_all add: sent_def socket_write_def write_chunk_def chunk_frame_def)

lemma socket_write_fields [simp]:
  "om_sent (socket_write b sr) = om_sent sr" "isChunked (socket_write b sr) = isChunked sr"
  "sr_bodyless (socket_write b sr) = sr_bodyless sr" "sr_ended (socket_write b sr) = sr_ended sr"
  "sr_code (socket_write b sr) = sr_code sr"
  by (simp_all add: socket_write_def isChunked_def sr_bodyless_def om_get_def)

lemma write_chunk_streaming [simp]: "streaming (write_chunk b sr) = streaming sr"
  by (simp add: streaming_def write_chunk_def)

lemma sr_write_streaming:
  assumes "streaming sr"
  shows "sr_write date b sr = Inr (if b = [] then sr else write_chunk b sr)"
  using assms by (auto simp: sr_write_def streaming_def sr_bodyless_def)

lemma write_all_streaming:
  "streaming sr \<Longrightarrow> \<exists>sr'. write_all date cs sr = Inr sr' \<and> streaming sr' \<and>
     sent sr' = sent sr @ concat (map chunk_frame (filter (\<lambda>c. c \<noteq> []) cs))"
proof (induction cs arbitrary: sr)
  case (Cons c cs)
  then show ?case
    using Cons.IH [of sr] Cons.IH [of "write_chunk c sr"] by (auto simp: sr_write_streaming)
qed simp

lemma sent_head:
  "\<not> om_sent sr \<Longrightarrow> sent (writeHead_now date sr) =
     sent sr @ head_text (status_line (sr_code sr) (status_message sr)) (out_pairs sr @ date_lines date sr)"
  by (simp add: writeHead_now_def sendHeaders_def head_text_def date_lines_def Let_def) (simp add: sent_def)

lemma set_fixed:
  assumes "om_unique om = None" "check_header name (Some v) = Inr ()"
  shows "setHeader name (Some v) om = Inr (store_header name v om)"
  using assms by (simp add: setHeader_def)

lemma check_TE: "check_header (js ''Transfer-Encoding'') (Some (OStr (js ''chunked''))) = Inr ()"
  by (simp add: check_header_def validateHeaderName_def validateHeaderValue_def bad_name_unit_def bad_value_unit_def)

lemma digits_safe: "\<not> list_ex bad_value_unit (js (dec_string n))"
  using dec_string_digits [of n] by (fastforce simp: list_ex_iff bad_value_unit_def)

lemma check_CL: "check_header (js ''Content-Length'') (Some (OStr (js (dec_string n)))) = Inr ()"
  using digits_safe [of n]
  by (simp add: check_header_def validateHeaderName_def validateHeaderValue_def bad_name_unit_def)

lemma TE_valid: "valid_headers [TE]"
  by (simp add: valid_headers_def valid_header_def TE_def CHUNKED_def validateHeaderName_def validateHeaderValue_def
      bad_name_unit_def bad_value_unit_def no_inherited_def inherited_name_def to_lower_def lower_unit_def)

lemma CL_valid: "valid_headers [CL n]"
proof -
  have "js (dec_string n) \<noteq> []" "hd (js (dec_string n)) \<noteq> (32::nat)"
    using dec_string_digits [of n] hd_in_set [of "js (dec_string n)"] by fastforce+
  then show ?thesis
    using digits_safe [of n]
    by (simp add: valid_headers_def valid_header_def CL_def validateHeaderName_def validateHeaderValue_def
        bad_name_unit_def no_inherited_def inherited_name_def to_lower_def lower_unit_def)
qed

lemma valid_headers_append: "valid_headers (hs @ hs') \<longleftrightarrow> valid_headers hs \<and> valid_headers hs'"
  by (auto simp: valid_headers_def no_inherited_def)

lemma date_lines_valid: "valid_header (js ''Date'', date) \<Longrightarrow> valid_headers (date_lines date sr)"
  by (simp add: date_lines_def valid_headers_def no_inherited_def inherited_name_def to_lower_def lower_unit_def)

lemma values_of_append: "values_of n (hs @ hs') = values_of n hs @ values_of n hs'"
  by (simp add: values_of_def)

lemma date_lines_other: "n \<noteq> js ''date'' \<Longrightarrow> values_of n (date_lines date sr) = []"
  by (auto simp: date_lines_def values_of_def to_lower_def lower_unit_def)

definition chunked_headers :: "jsstr \<Rightarrow> response \<Rightarrow> (jsstr \<times> jsstr) list" where
  "chunked_headers date sr = out_pairs sr @ [TE] @ date_lines date sr"

definition length_headers :: "jsstr \<Rightarrow> nat \<Rightarrow> response \<Rightarrow> (jsstr \<times> jsstr) list" where
  "length_headers date n sr = out_pairs sr @ [CL n] @ date_lines date sr"

definition stream_start :: "jsstr \<Rightarrow> response \<Rightarrow> response" where
  "stream_start date sr = writeHead_now date (store_header (js ''Transfer-Encoding'') (OStr (js ''chunked'')) sr)"

lemma store_get:
  "om_get (store_header name v om) l = (if l = to_lower name \<and> l \<noteq> js ''__proto__'' then Some v else om_get om l)"
  by (simp add: om_get_def store_header_def obj_put_def update_conv')

lemma store_fields [simp]:
  "sr_code (store_header name v sr) = sr_code sr" "sr_message (store_header name v sr) = sr_message sr"
  "om_sent (store_header name v sr) = om_sent sr" "sr_bodyless (store_header name v sr) = sr_bodyless sr"
  "sr_ended (store_header name v sr) = sr_ended sr" "sr_send_date (store_header name v sr) = sr_send_date sr"
  "status_message (store_header name v sr) = status_message sr" "sent (store_header name v sr) = sent sr"
  "om_unique (store_header name v sr) = om_unique sr"
  by (simp_all add: store_header_def status_message_def sr_bodyless_def sent_def split: option.split)

lemma head_now_fields [simp]:
  "om_sent (writeHead_now date sr)" "sr_bodyless (writeHead_now date sr) = sr_bodyless sr"
  "sr_ended (writeHead_now date sr) = sr_ended sr" "isChunked (writeHead_now date sr) = isChunked sr"
  "sr_code (writeHead_now date sr) = sr_code sr"
  by (simp_all add: writeHead_now_def sendHeaders_def Let_def sr_bodyless_def isChunked_def om_get_def socket_write_def)

lemma date_lines_store:
  "to_lower name \<noteq> js ''date'' \<Longrightarrow> date_lines date (store_header name v sr) = date_lines date sr"
  by (simp add: date_lines_def store_get)

lemma stream_start_streaming:
  assumes "fresh date sr"
  shows "streaming (stream_start date sr)"
    and "sent (stream_start date sr) = head_text (status_line (sr_code sr) (status_message sr)) (chunked_headers date sr)"
    and "sr_write date c sr = sr_write date c (stream_start date sr)"
proof -
  define sr1 where "sr1 = store_header (js ''Transfer-Encoding'') (OStr (js ''chunked'')) sr"
  have l: "to_lower (js ''Transfer-Encoding'') = js ''transfer-encoding''" by (simp add: to_lower_def lower_unit_def)
  have f: "om_get sr (js ''transfer-encoding'') = None" "om_get sr (js ''content-length'') = None" "\<not> sr_bodyless sr"
    "om_unique sr = None" "\<not> om_sent sr" "sr_socket sr = []" "\<not> sr_ended sr"
    using assms by (simp_all add: fresh_def)
  have "isChunked sr1" using l by (simp add: isChunked_def sr1_def store_get to_lower_def lower_unit_def)
  then show st: "streaming (stream_start date sr)"
    using f(3,7) by (simp add: streaming_def stream_start_def flip: sr1_def) (simp add: sr1_def)
  have "out_pairs sr1 = out_pairs sr @ [TE]"
    using out_pairs_store [of sr "js ''Transfer-Encoding''" "OStr (js ''chunked'')"] f(1) l
    by (simp add: sr1_def TE_def CHUNKED_def)
  then show "sent (stream_start date sr) = head_text (status_line (sr_code sr) (status_message sr)) (chunked_headers date sr)"
    using sent_head [of sr1 date] f(5,6) l date_lines_store [of "js ''Transfer-Encoding''" date "OStr (js ''chunked'')" sr]
    by (simp add: stream_start_def sr1_def chunked_headers_def) (simp add: sent_def)
  have "stream_headers sr = Inr sr1"
    using f(1-4) set_fixed [OF f(4) check_TE] by (simp add: stream_headers_def sr1_def)
  moreover have "sr_code sr \<noteq> 204 \<and> sr_code sr \<noteq> 304 \<and> \<not> (100 \<le> sr_code sr \<and> sr_code sr < 200)"
    using f(3) by (auto simp: sr_bodyless_def)
  ultimately show "sr_write date c sr = sr_write date c (stream_start date sr)"
    using f(5) by (auto simp: sr_write_def stream_start_def sr1_def)
qed

lemma respond_stream:
  assumes "fresh date sr" "cs \<noteq> []"
  shows "\<exists>sr'. bind_result (write_all date cs sr) (sr_end date None) = Inr sr' \<and>
    sent sr' = head_text (status_line (sr_code sr) (status_message sr)) (chunked_headers date sr) @
      chunked_body (filter (\<lambda>c. c \<noteq> []) cs)"
proof -
  note s = stream_start_streaming [OF assms(1)]
  have "write_all date cs sr = write_all date cs (stream_start date sr)"
    using assms(2) s(3) by (cases cs) simp_all
  then obtain sr1 where sr1: "write_all date cs sr = Inr sr1" "streaming sr1"
    "sent sr1 = sent (stream_start date sr) @ concat (map chunk_frame (filter (\<lambda>c. c \<noteq> []) cs))"
    using write_all_streaming [OF s(1), of date cs] by auto
  have "sr_end date None sr1 = Inr ((end_chunk (sr1\<lparr>sr_ended := True\<rparr>))\<lparr>sr_finished := True\<rparr>)"
    using sr1(2) by (simp add: sr_end_def streaming_def Let_def)
  moreover have "sent ((end_chunk (sr1\<lparr>sr_ended := True\<rparr>))\<lparr>sr_finished := True\<rparr>) = sent sr1 @ last_chunk"
    using sr1(2) by (simp add: end_chunk_def streaming_def isChunked_def sr_bodyless_def om_get_def sent_def socket_write_def
        split: option.split)
  ultimately show ?thesis using sr1 s(2) by (simp add: chunked_body_def)
qed

lemma respond_once:
  assumes "fresh date sr"
  shows "\<exists>sr'. sr_end date (Some body) sr = Inr sr' \<and>
    sent sr' = head_text (status_line (sr_code sr) (status_message sr)) (length_headers date (length body) sr) @ body"
proof -
  define sr0 where "sr0 = sr\<lparr>sr_ended := True\<rparr>"
  define sr1 where "sr1 = store_header (js ''Content-Length'') (OStr (js (dec_string (length body)))) sr0"
  have l: "to_lower (js ''Content-Length'') = js ''content-length''" by (simp add: to_lower_def lower_unit_def)
  have f: "om_get sr0 (js ''transfer-encoding'') = None" "om_get sr0 (js ''content-length'') = None" "\<not> sr_bodyless sr0"
    "om_unique sr0 = None" "\<not> om_sent sr0" "sr_socket sr0 = []"
    using assms by (simp_all add: fresh_def sr0_def om_get_def sr_bodyless_def)
  have same: "out_pairs sr0 = out_pairs sr" "date_lines date sr0 = date_lines date sr" "sr_code sr0 = sr_code sr"
    "status_message sr0 = status_message sr" "sent sr0 = []"
    using f(6) by (simp_all add: sr0_def out_pairs_def header_name_def date_lines_def om_get_def status_message_def sent_def split: option.split)
  have nc: "\<not> isChunked sr0" using f(1) by (simp add: isChunked_def)
  have nc1: "\<not> isChunked sr1" using f(1) l by (simp add: isChunked_def sr1_def store_get)
  have set: "setHeader (js ''Content-Length'') (Some (OStr (js (dec_string (length body))))) sr0 = Inr sr1"
    unfolding sr1_def by (rule set_fixed [OF f(4) check_CL])
  define sr2 where "sr2 = writeHead_now date sr1"
  have "out_pairs sr1 = out_pairs sr0 @ [CL (length body)]"
    using out_pairs_store [of sr0 "js ''Content-Length''" "OStr (js (dec_string (length body)))"] f(2) l
    by (simp add: sr1_def CL_def)
  moreover have "date_lines date sr1 = date_lines date sr0"
    using l by (simp add: sr1_def date_lines_store)
  ultimately have s2: "sent sr2 = head_text (status_line (sr_code sr) (status_message sr)) (length_headers date (length body) sr)"
    using sent_head [of sr1 date] f(5) same by (simp add: sr2_def sr1_def length_headers_def)
  have b2: "\<not> sr_bodyless sr2" "\<not> isChunked sr2" "\<not> sr_bodyless sr1" using f(3) nc1 by (simp_all add: sr2_def sr1_def)
  define sr3 where "sr3 = (if body \<noteq> [] then socket_write body sr2 else sr2)"
  have "end_chunk x = x" if "\<not> isChunked x" for x using that by (simp add: end_chunk_def)
  then have "end_chunk sr2 = sr2" "end_chunk (socket_write body sr2) = socket_write body sr2" using b2 by simp_all
  moreover have "\<not> sr_ended sr" using assms by (simp add: fresh_def)
  ultimately have "sr_end date (Some body) sr = Inr (sr3\<lparr>sr_finished := True\<rparr>)"
    using f(2,3,5) nc b2 set by (simp add: sr_end_def Let_def sr3_def flip: sr0_def sr2_def)
  moreover have "sent (sr3\<lparr>sr_finished := True\<rparr>) = sent sr2 @ body"
    by (simp add: sr3_def sent_def socket_write_def)
  ultimately show ?thesis using s2 by simp
qed

lemma combined_headers:
  assumes "fresh date sr"
  shows "chunked_ok (chunked_headers date sr) (filter (\<lambda>c. c \<noteq> []) cs)" "valid_headers (chunked_headers date sr)"
    "length_ok (length_headers date (length body) sr) body" "valid_headers (length_headers date (length body) sr)"
proof -
  have f: "om_wf sr" "om_get sr (js ''transfer-encoding'') = None" "om_get sr (js ''content-length'') = None"
    "valid_headers (out_pairs sr)" "valid_header (js ''Date'', date)"
    using assms by (simp_all add: fresh_def)
  note e = values_of_out_pairs [OF f(1) f(2)] values_of_out_pairs [OF f(1) f(3)]
    date_lines_other [of "js ''transfer-encoding''"] date_lines_other [of "js ''content-length''"]
  show "chunked_ok (chunked_headers date sr) (filter (\<lambda>c. c \<noteq> []) cs)"
    using e by (simp add: chunked_ok_def chunked_headers_def values_of_append)
      (simp add: values_of_def TE_def to_lower_def lower_unit_def)
  show "length_ok (length_headers date (length body) sr) body"
    using e by (simp add: length_ok_def length_headers_def values_of_append)
      (simp add: values_of_def CL_def to_lower_def lower_unit_def)
  show "valid_headers (chunked_headers date sr)" "valid_headers (length_headers date (length body) sr)"
    unfolding chunked_headers_def length_headers_def valid_headers_append
    using f(4) TE_valid CL_valid date_lines_valid [OF f(5)] by blast+
qed

lemma concat_filter: "concat (filter (\<lambda>c. c \<noteq> []) cs) = concat cs"
  by (induction cs) auto

section \<open>Theorems\<close>


text \<open>the same for a response that \<open>end\<close> writes at once, with its length in bytes.\<close>

theorem response_at_once:
  assumes "fresh date sr"
  shows "\<exists>sr'. sr_end date (Some body) sr = Inr sr' \<and>
    (\<forall>segs. concat segs = concat (sr_socket sr') \<longrightarrow>
      (\<exists>rd h. reader_run segs (rd_new False) = Some (Inr rd) \<and> rd_head rd = Some h \<and>
        rs_code h = Fin (of_nat (sr_code sr)) \<and> rs_message h = status_message sr \<and>
        mh_raw h = flatten (length_headers date (length body) sr) \<and> concat (rd_pushed rd) = body \<and> 0 < rd_ends rd))"
proof -
  note ok = combined_headers [OF assms]
  have f: "13 \<notin> set (status_message sr)" "200 \<le> sr_code sr" using assms by (simp_all add: fresh_def)
  obtain sr' where sr': "sr_end date (Some body) sr = Inr sr'"
    "sent sr' = head_text (status_line (sr_code sr) (status_message sr)) (length_headers date (length body) sr) @ body"
    using respond_once [OF assms] by blast
  have "\<exists>rd h. reader_run segs (rd_new False) = Some (Inr rd) \<and> rd_head rd = Some h \<and>
        rs_code h = Fin (of_nat (sr_code sr)) \<and> rs_message h = status_message sr \<and>
        mh_raw h = flatten (length_headers date (length body) sr) \<and> concat (rd_pushed rd) = body \<and> 0 < rd_ends rd"
    if "concat segs = concat (sr_socket sr')" for segs
    using known_length.response_read [OF ok(3,4) f, of segs] that sr'(2) unfolding sent_def length_inv_def by metis
  then show ?thesis using sr'(1) by blast
qed

lemma fresh_new: "fresh (js ''now'') (sr_new False)"
  by (simp add: fresh_def sr_new_def om_new_def outgoing.defs om_wf_def inherited_name_def sr_bodyless_def out_pairs_def valid_headers_def
      no_inherited_def om_get_def status_message_def STATUS_CODES_def valid_header_def validateHeaderName_def
      validateHeaderValue_def bad_name_unit_def bad_value_unit_def)


theorem response_at_once_witness:
  "\<exists>sr'. sr_end (js ''now'') (Some (js ''hello'')) (sr_new False) = Inr sr' \<and>
     (\<exists>rd. reader_run (sr_socket sr') (rd_new False) = Some (Inr rd) \<and> concat (rd_pushed rd) = js ''hello'')"
  using response_at_once [OF fresh_new, of "js ''hello''"] by fastforce

section \<open>No injection\<close>

text \<open>
  The messages that calls of the header methods lead to. The value of a header with the name \<open>__proto__\<close> is a string
  or a number.
\<close>

definition own_header :: "jsstr \<Rightarrow> out_value option \<Rightarrow> bool" where
  "own_header name v \<longleftrightarrow>
     (to_lower name = js ''__proto__'' \<longrightarrow>
        (case v of Some (OArr _) \<Rightarrow> False | Some (OInherited _) \<Rightarrow> False | _ \<Rightarrow> True))"

inductive om_step :: "outgoing \<Rightarrow> outgoing \<Rightarrow> bool" where
  set_step: "own_header name v \<Longrightarrow> setHeader name v om = Inr om' \<Longrightarrow> om_step om om'"
| append_step: "own_header name v \<Longrightarrow> appendHeader name v om = Inr om' \<Longrightarrow> om_step om om'"
| remove_step: "om_step om (removeHeader name om)"
| cork_step: "om_step om (om_cork om)"
| uncork_step: "om_step om (om_uncork om)"

inductive om_reachable :: "outgoing \<Rightarrow> bool" where
  om_start: "om_reachable om_new"
| om_next: "om_reachable om \<Longrightarrow> om_step om om' \<Longrightarrow> om_reachable om'"

text \<open>Only a value that was appended to the inherited \<open>constructor\<close> has no name of its own.\<close>

definition names_safe :: "'a outgoing_scheme \<Rightarrow> bool" where
  "names_safe om \<longleftrightarrow>
     (\<forall>l n. map_of (om_names om) l = Some n \<longrightarrow> to_lower n = l \<and> n \<noteq> [] \<and> \<not> list_ex bad_name_unit n)"

definition entry_safe :: "(jsstr \<rightharpoonup> jsstr) \<Rightarrow> jsstr \<times> out_value \<Rightarrow> bool" where
  "entry_safe names e \<longleftrightarrow> to_lower (fst e) = fst e \<and> fst e \<noteq> js ''__proto__'' \<and> \<not> list_ex bad_value_unit (out_string (snd e)) \<and>
     (names (fst e) = None \<longrightarrow> fst e = js ''constructor'')"

definition om_safe :: "'a outgoing_scheme \<Rightarrow> bool" where
  "om_safe om \<longleftrightarrow> distinct (map fst (om_headers om)) \<and> names_safe om \<and>
     (\<forall>e \<in> set (om_headers om). entry_safe (map_of (om_names om)) e)"

lemma om_safe_wf: "om_safe om \<Longrightarrow> om_wf om"
  by (auto simp: om_safe_def om_wf_def entry_safe_def names_safe_def split: option.split)

lemma inherited_safe: "\<not> list_ex bad_value_unit (inherited_text l)"
  by (simp add: inherited_text_def bad_value_unit_def)

lemma no_line_ends:
  "\<not> list_ex bad_value_unit s \<Longrightarrow> 10 \<notin> set s \<and> 13 \<notin> set s"
  "\<not> list_ex bad_name_unit s \<Longrightarrow> 10 \<notin> set s \<and> 13 \<notin> set s"
proof -
  have "bad_value_unit 10" "bad_value_unit 13" "bad_name_unit 10" "bad_name_unit 13"
    by (simp_all add: bad_value_unit_def bad_name_unit_def)
  then show "\<not> list_ex bad_value_unit s \<Longrightarrow> 10 \<notin> set s \<and> 13 \<notin> set s"
    "\<not> list_ex bad_name_unit s \<Longrightarrow> 10 \<notin> set s \<and> 13 \<notin> set s"
    unfolding list_ex_iff by blast+
qed

lemma in_update: "e \<in> set (AList.update k v xs) \<Longrightarrow> distinct (map fst xs) \<Longrightarrow> e = (k, v) \<or> e \<in> set xs \<and> fst e \<noteq> k"
  by (induction xs) (auto split: if_splits)

lemma check_header_facts:
  assumes "check_header name v = Inr u"
  obtains w where "v = Some w" "name \<noteq> []" "\<not> list_ex bad_name_unit name" "\<not> list_ex bad_value_unit (out_string w)"
  using assms
  by (cases v) (auto simp: check_header_def validateHeaderName_def validateHeaderValue_def bind_result_Inr split: if_splits)

lemma store_safe:
  assumes "om_safe om" "name \<noteq> []" "\<not> list_ex bad_name_unit name" "\<not> list_ex bad_value_unit (out_string w)"
  shows "om_safe (store_header name w om)"
proof (cases "to_lower name = js ''__proto__''")
  case False
  define k where "k = to_lower name"
  have d: "distinct (map fst (om_headers om))" using assms(1) by (simp add: om_safe_def)
  have "entry_safe ((map_of (om_names om))(k \<mapsto> name)) e" if "e \<in> set (AList.update k w (om_headers om))" for e
    using in_update [OF that d] assms False by (auto simp: om_safe_def entry_safe_def k_def)
  moreover have "names_safe (store_header name w om)"
    using assms(1-3) by (auto simp: om_safe_def names_safe_def store_header_def obj_put_def update_conv')
  ultimately show ?thesis
    using d False by (simp add: om_safe_def store_header_def obj_put_def distinct_update update_conv' k_def)
qed (use assms(1) in \<open>simp add: store_header_def obj_put_def om_safe_def names_safe_def\<close>)

lemma append_safe:
  assumes "om_safe om" "om_get om (to_lower name) = Some old" "\<not> list_ex bad_value_unit (out_string w)"
  shows "om_safe (om\<lparr>om_headers := obj_put (to_lower name) (OStr (out_string old @ js '', '' @ out_string w)) (om_headers om)\<rparr>)"
proof (cases "to_lower name = js ''__proto__''")
  case False
  define k where "k = to_lower name"
  define joined where "joined = OStr (out_string old @ js '', '' @ out_string w)"
  have d: "distinct (map fst (om_headers om))" using assms(1) by (simp add: om_safe_def)
  consider "(k, old) \<in> set (om_headers om)" | "k = js ''constructor''" "old = OInherited k"
    using assms(2) False by (auto simp: om_get_def inherited_name_def k_def map_of_SomeD split: option.splits if_splits)
  then have "entry_safe (map_of (om_names om)) (k, joined)"
  proof cases
    case 1
    then have "entry_safe (map_of (om_names om)) (k, old)" using assms(1) by (simp add: om_safe_def)
    then show ?thesis using assms(3) by (simp add: entry_safe_def joined_def bad_value_unit_def)
  next
    case 2
    then show ?thesis
      using assms(3) inherited_safe [of k]
      by (simp add: entry_safe_def joined_def bad_value_unit_def to_lower_def lower_unit_def)
  qed
  then have "entry_safe (map_of (om_names om)) e" if "e \<in> set (AList.update k joined (om_headers om))" for e
    using in_update [OF that d] assms(1) by (auto simp: om_safe_def)
  then show ?thesis
    using assms(1) False unfolding k_def [symmetric] joined_def [symmetric]
    by (simp add: om_safe_def names_safe_def obj_put_def distinct_update)
qed (use assms(1) in \<open>simp add: obj_put_def om_safe_def names_safe_def\<close>)

lemma om_step_safe: "om_step om om' \<Longrightarrow> om_safe om \<Longrightarrow> om_safe om'"
proof (induction rule: om_step.induct)
  case (set_step name v om om')
  then obtain u where "check_header name v = Inr u" by (auto simp: setHeader_def bind_result_Inr)
  then obtain w where w: "v = Some w" "name \<noteq> []" "\<not> list_ex bad_name_unit name" "\<not> list_ex bad_value_unit (out_string w)"
    by (rule check_header_facts)
  then show ?case
    using set_step store_safe by (auto simp: setHeader_def bind_result_Inr split: if_splits option.splits)
next
  case (append_step name v om om')
  then obtain u where "check_header name v = Inr u" by (auto simp: appendHeader_def bind_result_Inr)
  then obtain w where w: "v = Some w" "name \<noteq> []" "\<not> list_ex bad_name_unit name" "\<not> list_ex bad_value_unit (out_string w)"
    by (rule check_header_facts)
  show ?case
  proof (cases "om_get om (to_lower name)")
    case None
    then show ?thesis using append_step w store_safe by (auto simp: appendHeader_def bind_result_Inr)
  next
    case (Some old)
    then show ?thesis
      using append_step.hyps append_safe [OF append_step.prems Some w(4)] w(1) by (auto simp: appendHeader_def bind_result_Inr)
  qed
next
  case (remove_step om name)
  have "entry_safe ((map_of (om_names om))(to_lower name := None)) e" if "e \<in> set (AList.delete (to_lower name) (om_headers om))" for e
    using that remove_step by (auto simp: om_safe_def entry_safe_def AList.delete_eq)
  then show ?case
    using remove_step by (auto simp: om_safe_def names_safe_def removeHeader_def distinct_delete delete_conv')
qed (auto simp: om_safe_def names_safe_def om_cork_def om_uncork_def)

lemma om_reachable_safe: "om_reachable om \<Longrightarrow> om_safe om"
proof (induction rule: om_reachable.induct)
  case om_start
  show ?case by (simp add: om_safe_def names_safe_def om_new_def)
next
  case (om_next om om')
  then show ?case using om_step_safe by blast
qed

text \<open>Appending to a header called \<open>constructor\<close> that was not set finds the inherited function.\<close>

lemma append_constructor:
  "\<exists>om. appendHeader (js ''Constructor'') (Some (OStr (js ''1''))) om_new = Inr om \<and>
     out_pairs om = [(inherited_text (js ''constructor''), inherited_text (js ''constructor'') @ js '', 1'')]"
proof -
  have l: "to_lower (js ''Constructor'') = js ''constructor''" by (simp add: to_lower_def lower_unit_def)
  have c: "check_header (js ''Constructor'') (Some (OStr (js ''1''))) = Inr ()"
    by (simp add: check_header_def validateHeaderName_def validateHeaderValue_def bad_name_unit_def bad_value_unit_def)
  then show ?thesis
    unfolding appendHeader_def c bind_result_simps l
    by (simp add: om_get_def om_new_def inherited_name_def obj_put_def out_pairs_def own_order_def header_name_def)
qed

text \<open>C31: After any calls of \<open>setHeader\<close>, \<open>appendHeader\<close>, \<open>removeHeader\<close>, \<open>cork\<close> and \<open>uncork\<close> on a new message (where a
  header named \<open>__proto__\<close> gets a string or a number; an array would become the prototype of the header object), the
  header lines that will be printed are safe: none contains a line end; each has a value the validator accepts, and
  a name the validator accepts or, where a value was appended to a \<open>constructor\<close> that was not set, the text of the
  inherited function, which \<open>_headerNames\<close> then gives. The headers are kept under their lower-case names, each once. The
  status line is not among these lines: its message is not validated (\<open>status_message_injects\<close>).\<close>

theorem headers_stay_safe:
  assumes "om_reachable om"
  shows "om_wf om \<and>
    (\<forall>h \<in> set (out_pairs om). 10 \<notin> set (header_string h) \<and> 13 \<notin> set (header_string h) \<and>
       validateHeaderValue (\<lambda>_. snd h) (VStr (snd h)) = Inr () \<and>
       (validateHeaderName (VStr (fst h)) = Inr () \<or> fst h = inherited_text (js ''constructor'')))"
proof -
  have safe: "om_safe om" by (rule om_reachable_safe [OF assms])
  have "10 \<notin> set (header_string h) \<and> 13 \<notin> set (header_string h) \<and>
      validateHeaderValue (\<lambda>_. snd h) (VStr (snd h)) = Inr () \<and>
      (validateHeaderName (VStr (fst h)) = Inr () \<or> fst h = inherited_text (js ''constructor''))"
    if "h \<in> set (out_pairs om)" for h
  proof -
    obtain l v where lv: "(l, v) \<in> set (om_headers om)" "h = (header_name om l, out_string v)"
      using \<open>h \<in> set (out_pairs om)\<close> by (auto simp: set_out_pairs)
    then have e: "entry_safe (map_of (om_names om)) (l, v)" using safe by (simp add: om_safe_def)
    have name: "fst h \<noteq> [] \<and> \<not> list_ex bad_name_unit (fst h) \<or> fst h = inherited_text (js ''constructor'')"
    proof (cases "map_of (om_names om) l")
      case None
      then have "l = js ''constructor''" using e by (simp add: entry_safe_def)
      then show ?thesis using None by (simp add: lv(2) header_name_def inherited_name_def)
    next
      case (Some n)
      then have "n \<noteq> [] \<and> \<not> list_ex bad_name_unit n" using safe by (simp add: om_safe_def names_safe_def)
      then show ?thesis using Some by (simp add: lv(2) header_name_def)
    qed
    moreover have val: "\<not> list_ex bad_value_unit (snd h)" using e by (simp add: entry_safe_def lv(2))
    moreover have "10 \<notin> set (fst h) \<and> 13 \<notin> set (fst h)"
      using name no_line_ends(2) [of "fst h"] no_line_ends(1) [OF inherited_safe, of "js ''constructor''"] by metis
    ultimately show ?thesis
      using no_line_ends(1) [OF val] unfolding header_string_def validateHeaderName_def validateHeaderValue_def by fastforce
  qed
  then show ?thesis using om_safe_wf [OF safe] by blast
qed

theorem headers_stay_safe_witness:
  "\<exists>om. appendHeader (js ''Constructor'') (Some (OStr (js ''1''))) om_new = Inr om \<and>
     out_pairs om = [(inherited_text (js ''constructor''), inherited_text (js ''constructor'') @ js '', 1'')] \<and>
     (\<forall>h \<in> set (out_pairs om). 13 \<notin> set (header_string h))"
proof -
  obtain om where om: "appendHeader (js ''Constructor'') (Some (OStr (js ''1''))) om_new = Inr om"
    "out_pairs om = [(inherited_text (js ''constructor''), inherited_text (js ''constructor'') @ js '', 1'')]"
    using append_constructor by blast
  have "om_reachable om" by (rule om_next [OF om_start append_step [OF _ om(1)]]) (simp add: own_header_def to_lower_def lower_unit_def)
  then show ?thesis using headers_stay_safe om by blast
qed

text \<open>
  Facts behind the findings. A status message is not validated, so one with a line end adds a header; \<open>write\<close>
  still writes after \<open>end\<close>; when the last chunk arrives in two pieces the client is told the end twice; and
  the client knows the encoding \<open>chunked\<close> only in lower case.
\<close>

lemma status_message_injects:
  "head_text (status_line code (m @ CRLF @ header_string h)) hs = head_text (status_line code m) (h # hs)"
  by (simp add: head_text_def status_line_def header_text_def header_string_def)

lemma write_after_end:
  "streaming sr \<Longrightarrow> sr_write date (js ''x'') (sr\<lparr>sr_ended := True\<rparr>)
     = Inr (write_chunk (js ''x'') (sr\<lparr>sr_ended := True\<rparr>))"
  by (auto simp: sr_write_def streaming_def sr_bodyless_def isChunked_def om_get_def)

lemma end_twice:
  assumes "rd_expected rd = Fin (- 1)" "rd_chunked rd" "rd_body rd = [48] @ CRLF"
  shows "process_body rd = Some (rd_finish rd)"
    and "process_body ((rd_finish rd)\<lparr>rd_body := rd_body rd @ CRLF\<rparr>) = Some (rd_finish ((rd_finish rd)\<lparr>rd_body := rd_body rd @ CRLF\<rparr>))"
proof -
  have p: "parseInt 16 [48] = Some 0" using parseInt_hex_string [of 0] by (simp add: chunk_zero)
  have f: "findCRLF ([48, 13, 10] @ s) 0 = Some 1" for s by (simp add: findCRLF.simps)
  show "process_body rd = Some (rd_finish rd)"
    using assms p f [of "[]"] by (simp add: process_body_def) (subst process_chunked.simps, simp add: CRLF_def)
  show "process_body ((rd_finish rd)\<lparr>rd_body := rd_body rd @ CRLF\<rparr>) = Some (rd_finish ((rd_finish rd)\<lparr>rd_body := rd_body rd @ CRLF\<rparr>))"
    using assms p f [of "[13, 10]"]
    by (simp add: process_body_def rd_finish_def) (subst process_chunked.simps, simp add: CRLF_def rd_finish_def)
qed

lemma chunked_case_sensitive:
  "index_of_str (js ''chunked'') (js ''Chunked'') = None \<and> index_of_str (js ''chunked'') (to_lower (js ''Chunked'')) = Some 0"
  by (simp add: to_lower_def lower_unit_def)

end
