(* ===== verification/WebSocket.thy ===== *)
theory WebSocket
  imports Prelude
begin

text \<open>
  \<open>websocket.js\<close>: the client of the WebSocket protocol, with \<open>ServerWebSocket\<close> and the upgrade of
  \<open>websocket_server.js\<close>. The functions here work on the string that the native reader hands over
  (\<open>tcpReadNb\<close>), whatever it holds; that this string has one code unit for each byte of the connection is an
  assumption about the reader, which the header comment of \<open>websocket.js\<close> promises only for unmasked text
  frames without zero bytes. The native bridge is seen through a log of what is written, sent and emitted; the key of the handshake and its answer
  (\<open>__ws.acceptKey\<close>) are parameters. A handler of an event is a function \<open>h\<close> of the event and the object;
  what it may do is call the object's methods. \<open>ws_phase\<close> is the callback that waits for the native side.
  Handlers that throw, and the properties \<open>onopen\<close> to \<open>onerror\<close> beside the listeners, are not modelled.
\<close>

section \<open>Ready states\<close>

datatype ready = CONNECTING | OPEN | CLOSING | CLOSED

fun ready_num :: "ready \<Rightarrow> nat" where
  "ready_num CONNECTING = 0"
| "ready_num OPEN = 1"
| "ready_num CLOSING = 2"
| "ready_num CLOSED = 3"

text \<open>The code compares ready states as numbers.\<close>

instantiation ready :: linorder
begin

definition less_eq_ready :: "ready \<Rightarrow> ready \<Rightarrow> bool" where
  "less_eq_ready a b \<longleftrightarrow> ready_num a \<le> ready_num b"

definition less_ready :: "ready \<Rightarrow> ready \<Rightarrow> bool" where
  "less_ready a b \<longleftrightarrow> ready_num a < ready_num b"

instance
proof
  fix a b c :: ready
  show "a < b \<longleftrightarrow> a \<le> b \<and> \<not> b \<le> a" by (auto simp: less_eq_ready_def less_ready_def)
  show "a \<le> a" by (simp add: less_eq_ready_def)
  show "a \<le> b \<Longrightarrow> b \<le> c \<Longrightarrow> a \<le> c" by (simp add: less_eq_ready_def)
  show "a \<le> b \<Longrightarrow> b \<le> a \<Longrightarrow> a = b" by (cases a; cases b; simp add: less_eq_ready_def)
  show "a \<le> b \<or> b \<le> a" by (auto simp: less_eq_ready_def)
qed

end

lemma ready_order [simp]:
  "(OPEN \<le> s) = (s \<noteq> CONNECTING)" "(CLOSING \<le> s) = (s = CLOSING \<or> s = CLOSED)" "(CLOSED \<le> s) = (s = CLOSED)"
  "CONNECTING \<le> s" "s \<le> CLOSED" "OPEN \<le> CLOSING" "CONNECTING < OPEN" "OPEN < CLOSING" "CLOSING < CLOSED" "OPEN < CLOSED"
  by (cases s; simp add: less_eq_ready_def less_ready_def)+

section \<open>Frames\<close>

definition OP_TEXT :: nat where "OP_TEXT = 1"
definition OP_BINARY :: nat where "OP_BINARY = 2"
definition OP_CLOSE :: nat where "OP_CLOSE = 8"
definition OP_PING :: nat where "OP_PING = 9"
definition OP_PONG :: nat where "OP_PONG = 10"

lemmas opcode_defs = OP_TEXT_def OP_BINARY_def OP_CLOSE_def OP_PING_def OP_PONG_def

record frame_info =
  fi_opcode :: nat
  fi_start :: nat
  fi_len :: nat
  fi_total :: nat
  fi_fin :: bool

text \<open>\<open>None\<close> is the opcode \<open>-1\<close>: more data is needed.\<close>

definition decodeFrameJS :: "jsstr \<Rightarrow> nat \<Rightarrow> frame_info option" where
  "decodeFrameJS data off =
     (if length data < off + 2 then None
      else
        (let b0 = data ! off; b1 = data ! (off + 1);
             opcode = b0 AND 15; masked = (b1 AND 128 \<noteq> 0); len7 = b1 AND 127
         in case
              (if len7 = 126 then
                 (if length data < off + 4 then None else Some (data ! (off + 2) * 256 + data ! (off + 3), off + 4))
               else if len7 = 127 then
                 (if length data < off + 10 then None
                  else Some (foldl (\<lambda>p c. p * 256 + c) 0 (slice data (off + 2) (off + 10)), off + 10))
               else Some (len7, off + 2)) of
            None \<Rightarrow> None
          | Some (plen, hoff) \<Rightarrow>
              (let start = (if masked then hoff + 4 else hoff); total = start - off + plen
               in if length data < off + total then None
                  else Some \<lparr>fi_opcode = opcode, fi_start = start, fi_len = plen, fi_total = total, fi_fin = (b0 AND 128 \<noteq> 0)\<rparr>)))"

definition parseCloseJS :: "jsstr \<Rightarrow> nat \<times> jsstr" where
  "parseCloseJS data =
     (if length data < 2 then (1005, [])
      else (data ! 0 * 256 + data ! 1, if 2 < length data then drop 2 data else []))"

section \<open>URL\<close>

record ws_target =
  wt_host :: jsstr
  wt_port :: nat
  wt_path :: jsstr
  wt_secure :: bool

definition parseWsUrl :: "jsstr \<Rightarrow> ws_target result" where
  "parseWsUrl url =
     (case (if starts_with url (js ''wss://'') then Some (True, drop 6 url)
            else if starts_with url (js ''ws://'') then Some (False, drop 5 url) else None) of
        None \<Rightarrow> Inl (TypeError ''invalid URL scheme'')
      | Some (secure, rest) \<Rightarrow>
          (let (hostPort, path) =
             (case index_of 47 rest of None \<Rightarrow> (rest, [47]) | Some i \<Rightarrow> (take i rest, drop i rest));
               default = (if secure then 443 else 80)
           in case last_index_of 58 hostPort of
                None \<Rightarrow> Inr \<lparr>wt_host = hostPort, wt_port = default, wt_path = path, wt_secure = secure\<rparr>
              | Some i \<Rightarrow>
                  (case (if 0 < i then parseInt 10 (drop (i + 1) hostPort) else None) of
                     None \<Rightarrow> Inr \<lparr>wt_host = hostPort, wt_port = default, wt_path = path, wt_secure = secure\<rparr>
                   | Some p \<Rightarrow>
                       if 0 < p \<and> p < 65536
                       then Inr \<lparr>wt_host = take i hostPort, wt_port = nat p, wt_path = path, wt_secure = secure\<rparr>
                       else Inr \<lparr>wt_host = hostPort, wt_port = default, wt_path = path, wt_secure = secure\<rparr>)))"

section \<open>The client\<close>

datatype wevent =
    EvOpen | EvMessage jsstr bool | EvClose nat jsstr | EvPing jsstr | EvPong jsstr | EvError string | EvUnexpected jsstr

datatype wlog =
    Sent nat jsstr          \<comment> \<open>a frame: opcode and payload\<close>
  | SentClose nat jsstr     \<comment> \<open>a close frame: code and reason\<close>
  | Raw jsstr
  | Emitted wevent
  | HandleClosed nat

datatype phase = AwaitConnect | AwaitHandshake | Reading | Idle

record websocket =
  ws_state :: ready
  ws_target :: ws_target
  ws_key :: jsstr
  ws_protocols :: "jsstr list"
  ws_buffer :: jsstr
  ws_handle :: nat
  ws_protocol :: jsstr
  ws_extensions :: jsstr
  ws_unexpected :: bool     \<comment> \<open>there is a listener for \<open>unexpected-response\<close>\<close>
  ws_phase :: phase
  ws_log :: "wlog list"

type_synonym whandler = "wevent \<Rightarrow> websocket \<Rightarrow> websocket"

definition ws_new :: "jsstr \<Rightarrow> jsstr list \<Rightarrow> jsstr \<Rightarrow> bool \<Rightarrow> websocket result" where
  "ws_new url protocols key unexpected =
     bind_result (parseWsUrl url) (\<lambda>t.
       Inr \<lparr>ws_state = CONNECTING, ws_target = t, ws_key = key, ws_protocols = protocols, ws_buffer = [], ws_handle = 0,
            ws_protocol = [], ws_extensions = [], ws_unexpected = unexpected, ws_phase = AwaitConnect, ws_log = []\<rparr>)"

definition log_add :: "wlog \<Rightarrow> websocket \<Rightarrow> websocket" where
  "log_add l w = w\<lparr>ws_log := ws_log w @ [l]\<rparr>"

definition ws_emit :: "whandler \<Rightarrow> wevent \<Rightarrow> websocket \<Rightarrow> websocket" where
  "ws_emit h e w = h e (log_add (Emitted e) w)"

definition ws_shut :: "whandler \<Rightarrow> nat \<Rightarrow> jsstr \<Rightarrow> websocket \<Rightarrow> websocket" where
  "ws_shut h code reason w =
     (if ws_state w = CLOSED then w
      else
        (let w1 = w\<lparr>ws_state := CLOSED\<rparr>;
             w2 = (if ws_handle w1 \<noteq> 0 then (log_add (HandleClosed (ws_handle w1)) w1)\<lparr>ws_handle := 0\<rparr> else w1)
         in ws_emit h (EvClose code reason) w2))"

text \<open>The public methods. \<open>send\<close> throws unless the socket is open.\<close>

definition ws_send :: "bool \<Rightarrow> jsstr \<Rightarrow> websocket \<Rightarrow> websocket result" where
  "ws_send is_string data w =
     (if ws_state w \<noteq> OPEN then Inl (TypeError ''WebSocket is not open'')
      else Inr (log_add (Sent (if is_string then OP_TEXT else OP_BINARY) data) w))"

definition ws_close :: "nat option \<Rightarrow> jsstr option \<Rightarrow> websocket \<Rightarrow> websocket" where
  "ws_close code reason w =
     (if ws_state w = CLOSING \<or> ws_state w = CLOSED then w
      else log_add (SentClose (case code of None \<Rightarrow> 1000 | Some c \<Rightarrow> c) (case reason of None \<Rightarrow> [] | Some r \<Rightarrow> r))
             (w\<lparr>ws_state := CLOSING\<rparr>))"

definition ws_ping :: "jsstr \<Rightarrow> websocket \<Rightarrow> websocket" where
  "ws_ping data w = (if ws_state w \<noteq> OPEN then w else log_add (Sent OP_PING data) w)"

definition ws_pong :: "jsstr \<Rightarrow> websocket \<Rightarrow> websocket" where
  "ws_pong data w = (if ws_state w \<noteq> OPEN then w else log_add (Sent OP_PONG data) w)"

definition ws_terminate :: "whandler \<Rightarrow> websocket \<Rightarrow> websocket" where
  "ws_terminate h w = ws_shut h 1006 [] w"

subsection \<open>Frames that arrive\<close>

definition handle_frame :: "whandler \<Rightarrow> nat \<Rightarrow> jsstr \<Rightarrow> websocket \<Rightarrow> websocket" where
  "handle_frame h opcode payload w =
     (if opcode = OP_TEXT \<or> opcode = OP_BINARY then ws_emit h (EvMessage payload (opcode = OP_BINARY)) w
      else if opcode = OP_CLOSE then
        (let (code, reason) = parseCloseJS payload
         in ws_shut h code reason
              (if ws_state w = OPEN then log_add (SentClose code reason) (w\<lparr>ws_state := CLOSING\<rparr>) else w))
      else if opcode = OP_PING then
        ws_emit h (EvPing payload) (if ws_state w = OPEN then log_add (Sent OP_PONG payload) w else w)
      else if opcode = OP_PONG then ws_emit h (EvPong payload) w
      else w)"

lemma decodeFrameJS_total: "decodeFrameJS data 0 = Some f \<Longrightarrow> 2 \<le> fi_total f"
  by (auto simp: decodeFrameJS_def Let_def split: if_splits option.splits)

text \<open>The loop of \<open>_processFrames\<close>; handlers do not touch the buffer.\<close>

function process_frames :: "whandler \<Rightarrow> jsstr \<Rightarrow> websocket \<Rightarrow> websocket" where
  "process_frames h buf w =
     (if buf = [] then w\<lparr>ws_buffer := []\<rparr>
      else case decodeFrameJS buf 0 of
        None \<Rightarrow> w\<lparr>ws_buffer := buf\<rparr>
      | Some f \<Rightarrow>
          process_frames h (drop (fi_total f) buf)
            (handle_frame h (fi_opcode f) (slice buf (fi_start f) (fi_start f + fi_len f))
              (w\<lparr>ws_buffer := drop (fi_total f) buf\<rparr>)))"
  by pat_completeness auto
termination
proof (relation "measure (\<lambda>(h, buf, w). length buf)", simp)
  fix h :: whandler and buf w f
  assume "buf \<noteq> []" "decodeFrameJS buf 0 = Some f"
  then show "((h, drop (fi_total f) buf, handle_frame h (fi_opcode f) (slice buf (fi_start f) (fi_start f + fi_len f))
      (w\<lparr>ws_buffer := drop (fi_total f) buf\<rparr>)), h, buf, w) \<in> measure (\<lambda>(h, buf, w). length buf)"
    using decodeFrameJS_total [of buf f] by (cases buf) auto
qed

declare process_frames.simps [simp del]

text \<open>The read callback; with no handle the callback is called at once with the empty string.\<close>

definition end_of_input :: "whandler \<Rightarrow> websocket \<Rightarrow> websocket" where
  "end_of_input h w = (if ws_state w \<noteq> CLOSED \<and> ws_state w \<noteq> CLOSING then ws_shut h 1006 [] w else w)"

definition await_data :: "whandler \<Rightarrow> websocket \<Rightarrow> websocket" where
  "await_data h w = (if ws_handle w = 0 then end_of_input h (w\<lparr>ws_phase := Idle\<rparr>) else w\<lparr>ws_phase := Reading\<rparr>)"

definition read_loop :: "whandler \<Rightarrow> websocket \<Rightarrow> websocket" where
  "read_loop h w =
     (if ws_state w = CLOSED then w
      else
        (let w1 = (if ws_buffer w \<noteq> [] then process_frames h (ws_buffer w) w else w)
         in if ws_buffer w \<noteq> [] \<and> ws_state w1 \<noteq> OPEN \<and> ws_state w1 \<noteq> CLOSING then w1 else await_data h w1))"

definition on_data :: "whandler \<Rightarrow> jsstr \<Rightarrow> websocket \<Rightarrow> websocket" where
  "on_data h data w0 =
     (let w = w0\<lparr>ws_phase := Idle\<rparr>
      in if data = [] then end_of_input h w
         else
           (let w1 = process_frames h (ws_buffer w @ data) w
            in if ws_state w1 = OPEN \<or> ws_state w1 = CLOSING then read_loop h w1 else w1))"

subsection \<open>Connecting\<close>

definition WCRLF :: jsstr where "WCRLF = [13, 10]"

definition ws_emit_error :: "whandler \<Rightarrow> string \<Rightarrow> websocket \<Rightarrow> websocket" where
  "ws_emit_error h msg w = ws_emit h (EvError msg) w"

definition handshake_text :: "websocket \<Rightarrow> jsstr" where
  "handshake_text w =
     (let t = ws_target w
      in js ''GET '' @ wt_path t @ js '' HTTP/1.1'' @ WCRLF @
         js ''Host: '' @ wt_host t @
         (if (wt_secure t \<and> wt_port t \<noteq> 443) \<or> (\<not> wt_secure t \<and> wt_port t \<noteq> 80)
          then [58] @ js (dec_string (wt_port t)) else []) @ WCRLF @
         js ''Upgrade: websocket'' @ WCRLF @ js ''Connection: Upgrade'' @ WCRLF @
         js ''Sec-WebSocket-Key: '' @ ws_key w @ WCRLF @ js ''Sec-WebSocket-Version: 13'' @ WCRLF @
         (if ws_protocols w \<noteq> []
          then js ''Sec-WebSocket-Protocol: '' @ join_with (js '', '') (ws_protocols w) @ WCRLF else []) @ WCRLF)"

definition write_raw :: "jsstr \<Rightarrow> websocket \<Rightarrow> websocket" where
  "write_raw data w = (if ws_handle w = 0 then w else log_add (Raw data) w)"

definition await_handshake :: "whandler \<Rightarrow> websocket \<Rightarrow> websocket" where
  "await_handshake h w =
     (if ws_handle w = 0
      then ws_shut h 1006 [] (ws_emit_error h ''handshake: connection closed'' (w\<lparr>ws_phase := Idle\<rparr>))
      else w\<lparr>ws_phase := AwaitHandshake\<rparr>)"

definition on_connect :: "whandler \<Rightarrow> nat \<Rightarrow> int \<Rightarrow> websocket \<Rightarrow> websocket" where
  "on_connect h handle errCode w0 =
     (let w = w0\<lparr>ws_phase := Idle\<rparr>
      in if errCode \<noteq> 0 \<or> handle = 0
         then ws_shut h 1006 [] (ws_emit_error h ''connect ECONNREFUSED'' w)
         else (let w1 = w\<lparr>ws_handle := handle\<rparr> in await_handshake h (write_raw (handshake_text w1) w1)))"

text \<open>The header lines of the answer; a line ends at a carriage return, the unit after it is skipped.\<close>

definition answer_line :: "jsstr \<Rightarrow> (jsstr \<times> jsstr) list" where
  "answer_line line =
     (case index_of 58 line of
        None \<Rightarrow> []
      | Some i \<Rightarrow> if 0 < i then [(to_lower (take i line), dropWhile (\<lambda>c. c = 32) (drop (i + 1) line))] else [])"

function answer_lines :: "jsstr \<Rightarrow> nat \<Rightarrow> (jsstr \<times> jsstr) list" where
  "answer_lines s pos =
     (if pos < length s
      then (let nl = (case index_of 13 (drop pos s) of None \<Rightarrow> length s | Some k \<Rightarrow> pos + k)
            in answer_line (slice s pos nl) @ answer_lines s (nl + 2))
      else [])"
  by pat_completeness auto
termination by (relation "measure (\<lambda>(s, pos). length s - pos)") (auto split: option.splits)

declare answer_lines.simps [simp del]

text \<open>A later line of a name replaces an earlier one.\<close>

definition answer_header :: "(jsstr \<times> jsstr) list \<Rightarrow> jsstr \<Rightarrow> jsstr" where
  "answer_header hs n = (case map_of (rev hs) n of None \<Rightarrow> [] | Some v \<Rightarrow> v)"

definition on_handshake :: "(jsstr \<Rightarrow> jsstr) \<Rightarrow> whandler \<Rightarrow> jsstr \<Rightarrow> websocket \<Rightarrow> websocket" where
  "on_handshake acceptKey h data w0 =
     (let w = w0\<lparr>ws_phase := Idle\<rparr>
      in if data = [] then ws_shut h 1006 [] (ws_emit_error h ''handshake: connection closed'' w)
         else
           (let w1 = w\<lparr>ws_buffer := ws_buffer w @ data\<rparr>
            in case index_of_str (WCRLF @ WCRLF) (ws_buffer w1) of
                 None \<Rightarrow> await_handshake h w1
               | Some headerEnd \<Rightarrow>
                   (let section = take headerEnd (ws_buffer w1);
                        w2 = w1\<lparr>ws_buffer := drop (headerEnd + 4) (ws_buffer w1)\<rparr>;
                        first = (case index_of 13 section of None \<Rightarrow> section | Some i \<Rightarrow> take i section)
                    in if index_of_str (js ''101'') first = None then
                         ws_shut h 1006 []
                           (if ws_unexpected w2 then ws_emit h (EvUnexpected first) w2
                            else ws_emit_error h ''handshake: unexpected status'' w2)
                       else
                         (let hs = answer_lines section (length first + 2)
                          in if answer_header hs (js ''sec-websocket-accept'') \<noteq> acceptKey (ws_key w2)
                             then ws_shut h 1006 [] (ws_emit_error h ''handshake: accept mismatch'' w2)
                             else
                               (let p = answer_header hs (js ''sec-websocket-protocol'');
                                    x = answer_header hs (js ''sec-websocket-extensions'');
                                    w3 = (if p \<noteq> [] then w2\<lparr>ws_protocol := p\<rparr> else w2);
                                    w4 = (if x \<noteq> [] then w3\<lparr>ws_extensions := x\<rparr> else w3)
                                in read_loop h (ws_emit h EvOpen (w4\<lparr>ws_state := OPEN\<rparr>)))))))"

section \<open>The server's side\<close>

text \<open>
  \<open>ServerWebSocket\<close>. Frames are decoded by the native receive buffer, so they come as opcode and payload. The
  second set of callbacks (\<open>_handlers\<close>) is called beside the listeners and is not kept apart from them.
\<close>

record server_socket =
  sw_state :: ready
  sw_closed :: bool
  sw_handle :: nat
  sw_log :: "wlog list"

type_synonym shandler = "wevent \<Rightarrow> server_socket \<Rightarrow> server_socket"

definition sw_new :: "nat \<Rightarrow> server_socket" where
  "sw_new handle = \<lparr>sw_state = OPEN, sw_closed = False, sw_handle = handle, sw_log = []\<rparr>"

definition slog_add :: "wlog \<Rightarrow> server_socket \<Rightarrow> server_socket" where
  "slog_add l s = s\<lparr>sw_log := sw_log s @ [l]\<rparr>"

definition sw_emit :: "shandler \<Rightarrow> wevent \<Rightarrow> server_socket \<Rightarrow> server_socket" where
  "sw_emit h e s = h e (slog_add (Emitted e) s)"

definition sw_doClose :: "shandler \<Rightarrow> nat \<Rightarrow> jsstr \<Rightarrow> server_socket \<Rightarrow> server_socket" where
  "sw_doClose h code reason s =
     (if sw_closed s then s
      else
        (let s1 = s\<lparr>sw_closed := True, sw_state := CLOSED\<rparr>;
             s2 = (if sw_handle s1 \<noteq> 0 then (slog_add (HandleClosed (sw_handle s1)) s1)\<lparr>sw_handle := 0\<rparr> else s1)
         in sw_emit h (EvClose code reason) s2))"

definition sw_send :: "bool \<Rightarrow> jsstr \<Rightarrow> server_socket \<Rightarrow> server_socket" where
  "sw_send is_string data s =
     (if sw_state s \<noteq> OPEN then s else slog_add (Sent (if is_string then OP_TEXT else OP_BINARY) data) s)"

definition sw_close :: "shandler \<Rightarrow> nat option \<Rightarrow> jsstr option \<Rightarrow> server_socket \<Rightarrow> server_socket" where
  "sw_close h code reason s =
     (if CLOSING \<le> sw_state s then s
      else
        (let c = (case code of None \<Rightarrow> 1000 | Some c \<Rightarrow> c); r = (case reason of None \<Rightarrow> [] | Some r \<Rightarrow> r)
         in sw_doClose h c r (slog_add (SentClose c r) (s\<lparr>sw_state := CLOSING\<rparr>))))"

definition sw_ping :: "jsstr \<Rightarrow> server_socket \<Rightarrow> server_socket" where
  "sw_ping data s = (if sw_state s \<noteq> OPEN then s else slog_add (Sent OP_PING data) s)"

definition sw_pong :: "jsstr \<Rightarrow> server_socket \<Rightarrow> server_socket" where
  "sw_pong data s = (if sw_state s \<noteq> OPEN then s else slog_add (Sent OP_PONG data) s)"

definition sw_terminate :: "shandler \<Rightarrow> server_socket \<Rightarrow> server_socket" where
  "sw_terminate h s = (if CLOSED \<le> sw_state s then s else sw_doClose h 1006 [] s)"

definition sw_frame :: "shandler \<Rightarrow> nat \<times> jsstr \<Rightarrow> server_socket \<Rightarrow> server_socket" where
  "sw_frame h f s =
     (let (opcode, payload) = f
      in if opcode = OP_TEXT \<or> opcode = OP_BINARY then sw_emit h (EvMessage payload (opcode = OP_BINARY)) s
         else if opcode = OP_CLOSE then
           (let (code, reason) = parseCloseJS payload
            in sw_doClose h code reason
                 (if sw_state s = OPEN then slog_add (SentClose code reason) (s\<lparr>sw_state := CLOSING\<rparr>) else s))
         else if opcode = OP_PING then sw_emit h (EvPing payload) (slog_add (Sent OP_PONG payload) s)
         else if opcode = OP_PONG then sw_emit h (EvPong payload) s
         else s)"

fun sw_frames :: "shandler \<Rightarrow> (nat \<times> jsstr) list \<Rightarrow> server_socket \<Rightarrow> server_socket" where
  "sw_frames h [] s = s"
| "sw_frames h (f # fs) s = sw_frames h fs (sw_frame h f s)"

text \<open>One turn of the read loop: frames, nothing yet (\<open>None\<close>), or the end of the connection (\<open>Some []\<close>).\<close>

definition sw_read :: "shandler \<Rightarrow> (nat \<times> jsstr) list option \<Rightarrow> server_socket \<Rightarrow> server_socket" where
  "sw_read h input s =
     (if CLOSED \<le> sw_state s \<or> sw_handle s = 0 then s
      else case input of
        None \<Rightarrow> s
      | Some [] \<Rightarrow> sw_doClose h 1006 [] s
      | Some fs \<Rightarrow> sw_frames h fs s)"

text \<open>The upgrade: \<open>None\<close> without an answer, otherwise the answer and whether there is a connection.\<close>

definition strip_spaces :: "jsstr \<Rightarrow> jsstr" where
  "strip_spaces s = rev (dropWhile (\<lambda>c. c = 32) (rev (dropWhile (\<lambda>c. c = 32) s)))"

definition first_protocol :: "jsstr \<Rightarrow> jsstr" where
  "first_protocol s = (case index_of 44 s of None \<Rightarrow> s | Some i \<Rightarrow> take i s)"

definition header_or_empty :: "(jsstr \<rightharpoonup> jsstr) \<Rightarrow> string \<Rightarrow> jsstr" where
  "header_or_empty hs n = (case hs (js n) of None \<Rightarrow> [] | Some v \<Rightarrow> v)"

definition doUpgrade :: "(jsstr \<Rightarrow> jsstr) \<Rightarrow> (jsstr \<rightharpoonup> jsstr) \<Rightarrow> (jsstr \<times> bool) option" where
  "doUpgrade acceptKey hs =
     (if to_lower (header_or_empty hs ''upgrade'') \<noteq> js ''websocket'' then None
      else if index_of_str (js ''upgrade'') (to_lower (header_or_empty hs ''connection'')) = None then None
      else if header_or_empty hs ''sec-websocket-key'' = [] then None
      else if header_or_empty hs ''sec-websocket-version'' \<noteq> js ''13'' then
        Some (js ''HTTP/1.1 426 Upgrade Required'' @ WCRLF @ js ''Sec-WebSocket-Version: 13'' @ WCRLF @
              js ''Content-Length: 0'' @ WCRLF @ WCRLF, False)
      else
        Some (js ''HTTP/1.1 101 Switching Protocols'' @ WCRLF @ js ''Upgrade: websocket'' @ WCRLF @
              js ''Connection: Upgrade'' @ WCRLF @
              js ''Sec-WebSocket-Accept: '' @ acceptKey (header_or_empty hs ''sec-websocket-key'') @ WCRLF @
              (let p = header_or_empty hs ''sec-websocket-protocol''
               in if p \<noteq> [] then js ''Sec-WebSocket-Protocol: '' @ strip_spaces (first_protocol p) @ WCRLF else []) @
              WCRLF, True))"

section \<open>Ready-state machines\<close>

text \<open>
  What both ends promise of their ready state: a step never goes back, and it tells the listeners of the
  close exactly when it enters \<open>CLOSED\<close>.
\<close>

definition told :: "wlog list \<Rightarrow> nat" where
  "told lg = length (filter (\<lambda>l. case l of Emitted (EvClose _ _) \<Rightarrow> True | _ \<Rightarrow> False) lg)"

locale ready_machine =
  fixes state :: "'s \<Rightarrow> ready" and lg :: "'s \<Rightarrow> wlog list" and step :: "'s \<Rightarrow> 's \<Rightarrow> bool"
  assumes step_mono: "step s s' \<Longrightarrow> state s \<le> state s'"
    and step_told: "step s s' \<Longrightarrow>
      told (lg s') = told (lg s) + (if state s \<noteq> CLOSED \<and> state s' = CLOSED then 1 else 0)"
begin

lemma run_mono: "step\<^sup>*\<^sup>* s s' \<Longrightarrow> state s \<le> state s'"
  by (induction rule: rtranclp_induct) (auto dest: step_mono)

lemma run_told:
  "step\<^sup>*\<^sup>* s s' \<Longrightarrow> told (lg s') = told (lg s) + (if state s \<noteq> CLOSED \<and> state s' = CLOSED then 1 else 0)"
proof (induction rule: rtranclp_induct)
  case (step y z)
  have "state s \<le> state y" "state y \<le> state z" using run_mono step.hyps step_mono by blast+
  then show ?case using step_told [OF step.hyps(2)] step.IH by (auto split: if_splits)
qed simp

end

subsection \<open>The client\<close>

text \<open>The calls a handler may make, and the steps of a socket: a call, or data for the read callback.\<close>

inductive ws_api :: "whandler \<Rightarrow> websocket \<Rightarrow> websocket \<Rightarrow> bool" for h where
  api_send: "ws_send b d w = Inr w' \<Longrightarrow> ws_api h w w'"
| api_close: "ws_api h w (ws_close c r w)"
| api_ping: "ws_api h w (ws_ping d w)"
| api_pong: "ws_api h w (ws_pong d w)"
| api_terminate: "ws_api h w (ws_terminate h w)"

inductive ws_step :: "whandler \<Rightarrow> websocket \<Rightarrow> websocket \<Rightarrow> bool" for h where
  step_api: "ws_api h w w' \<Longrightarrow> ws_step h w w'"
| step_data: "ws_phase w = Reading \<Longrightarrow> ws_step h w (on_data h d w)"

inductive_cases ws_apiE: "ws_api h w w'"
inductive_cases ws_stepE: "ws_step h w w'"

definition handler_ok :: "whandler \<Rightarrow> bool" where
  "handler_ok h \<longleftrightarrow> (\<forall>e w. (ws_api h)\<^sup>*\<^sup>* w (h e w))"

text \<open>The frames of a log; a close frame is the last one, and there is none while the socket is open.\<close>

fun is_frame :: "wlog \<Rightarrow> bool" where
  "is_frame (Sent _ _) = True"
| "is_frame (SentClose _ _) = True"
| "is_frame _ = False"

fun is_close :: "wlog \<Rightarrow> bool" where
  "is_close (SentClose _ _) = True"
| "is_close _ = False"

definition close_last :: "ready \<Rightarrow> wlog list \<Rightarrow> bool" where
  "close_last st lg \<longleftrightarrow>
     (st \<le> OPEN \<longrightarrow> (\<forall>f \<in> set lg. \<not> is_close f)) \<and> (\<forall>f \<in> set (butlast (filter is_frame lg)). \<not> is_close f)"

text \<open>What every step keeps, in terms of ready state and log.\<close>

definition ahead :: "ready \<times> wlog list \<Rightarrow> ready \<times> wlog list \<Rightarrow> bool" where
  "ahead a b \<longleftrightarrow> fst a \<le> fst b \<and>
     told (snd b) = told (snd a) + (if fst a \<noteq> CLOSED \<and> fst b = CLOSED then 1 else 0)"

definition progress :: "ready \<times> wlog list \<Rightarrow> ready \<times> wlog list \<Rightarrow> bool" where
  "progress a b \<longleftrightarrow> ahead a b \<and>
     (fst a \<noteq> CONNECTING \<and> close_last (fst a) (snd a) \<longrightarrow> close_last (fst b) (snd b))"

lemmas progress_iff = progress_def [unfolded ahead_def]

definition view :: "websocket \<Rightarrow> ready \<times> wlog list" where
  "view w = (ws_state w, ws_log w)"

lemma view_simps [simp]:
  "view (w\<lparr>ws_buffer := b\<rparr>) = view w" "view (w\<lparr>ws_phase := p\<rparr>) = view w" "view (w\<lparr>ws_handle := n\<rparr>) = view w"
  "view (w\<lparr>ws_state := s\<rparr>) = (s, ws_log w)" "view (log_add l w) = (ws_state w, ws_log w @ [l])"
  by (simp_all add: view_def log_add_def)

lemma progress_refl: "progress a a"
  by (simp add: progress_iff)

lemma ahead_trans: "ahead a b \<Longrightarrow> ahead b c \<Longrightarrow> ahead a c"
  by (cases "fst a"; cases "fst b"; cases "fst c") (auto simp: ahead_def less_eq_ready_def)

lemma ahead_connecting: "ahead a b \<Longrightarrow> fst b = CONNECTING \<Longrightarrow> fst a = CONNECTING"
  by (cases "fst a") (auto simp: ahead_def less_eq_ready_def)

lemma progress_trans: "progress a b \<Longrightarrow> progress b c \<Longrightarrow> progress a c"
  using ahead_trans [of a b c] ahead_connecting [of a b] by (auto simp: progress_def)

lemma told_append [simp]: "told (lg @ lg') = told lg + told lg'"
  by (simp add: told_def)

lemma progress_quiet:
  "\<not> is_frame l \<Longrightarrow> told [l] = 0 \<Longrightarrow> progress (s, lg) (s, lg @ [l])"
  by (cases l) (auto simp: progress_iff close_last_def)

lemma close_last_open:
  "close_last OPEN lg \<Longrightarrow> is_frame l \<Longrightarrow> \<not> is_close l \<or> s \<noteq> OPEN \<Longrightarrow> s \<noteq> CONNECTING \<Longrightarrow> close_last s (lg @ [l])"
  by (cases s) (auto simp: close_last_def less_eq_ready_def butlast_append)

lemma progress_frame: "told [l] = 0 \<Longrightarrow> is_frame l \<Longrightarrow> \<not> is_close l \<Longrightarrow> progress (OPEN, lg) (OPEN, lg @ [l])"
  by (simp add: progress_iff close_last_open)

lemma progress_close: "progress (OPEN, lg) (CLOSING, lg @ [SentClose c r])"
  by (simp add: progress_iff close_last_open told_def)

lemma close_last_closed:
  "close_last st lg \<Longrightarrow> (\<And>l. l \<in> set ls \<Longrightarrow> \<not> is_frame l) \<Longrightarrow> close_last CLOSED (lg @ ls)"
  by (auto simp: close_last_def less_eq_ready_def filter_empty_conv [THEN iffD2])

text \<open>On a closed socket no method does anything, so neither does a handler.\<close>

lemma ws_shut_closed: "ws_state w = CLOSED \<Longrightarrow> ws_shut h c r w = w"
  by (simp add: ws_shut_def)

lemma api_closed: "ws_api h w w' \<Longrightarrow> ws_state w = CLOSED \<Longrightarrow> w' = w"
  by (erule ws_apiE)
    (simp_all add: ws_send_def ws_close_def ws_ping_def ws_pong_def ws_terminate_def ws_shut_closed)

lemma apis_closed: "(ws_api h)\<^sup>*\<^sup>* w w' \<Longrightarrow> ws_state w = CLOSED \<Longrightarrow> w' = w"
  by (induction rule: rtranclp_induct) (auto dest: api_closed)

lemma log_add_state [simp]: "ws_state (log_add l w) = ws_state w" "ws_log (log_add l w) = ws_log w @ [l]"
  by (simp_all add: log_add_def)

lemma shut_view:
  assumes "handler_ok h" "ws_state w \<noteq> CLOSED"
  shows "\<exists>ls. view (ws_shut h c r w) = (CLOSED, ws_log w @ ls) \<and> told ls = 1 \<and> (\<forall>l \<in> set ls. \<not> is_frame l)"
proof -
  define w2 where "w2 = (if ws_handle w \<noteq> 0 then (log_add (HandleClosed (ws_handle w)) (w\<lparr>ws_state := CLOSED\<rparr>))\<lparr>ws_handle := 0\<rparr>
    else w\<lparr>ws_state := CLOSED\<rparr>)"
  define w3 where "w3 = log_add (Emitted (EvClose c r)) w2"
  have v: "view w3 = (CLOSED, ws_log w @ (if ws_handle w \<noteq> 0 then [HandleClosed (ws_handle w)] else []) @ [Emitted (EvClose c r)])"
    by (simp add: w3_def w2_def view_def log_add_def)
  then have "ws_state w3 = CLOSED" by (simp add: view_def)
  then have "h (EvClose c r) w3 = w3" using apis_closed assms(1) unfolding handler_ok_def by blast
  then have "ws_shut h c r w = w3"
    using assms(2) unfolding w3_def w2_def by (cases "ws_handle w = 0") (simp_all add: ws_shut_def ws_emit_def Let_def)
  then show ?thesis using v by (auto simp: told_def)
qed

lemma progress_shut:
  assumes "handler_ok h" shows "progress (view w) (view (ws_shut h c r w))"
proof (cases "ws_state w = CLOSED")
  case True
  then show ?thesis by (simp add: ws_shut_closed progress_refl)
next
  case False
  then show ?thesis
    using shut_view [OF assms False, of c r] close_last_closed [of "ws_state w" "ws_log w"]
    by (auto simp: progress_iff view_def)
qed

lemma progress_api:
  assumes "handler_ok h" "ws_api h w w'"
  shows "progress (view w) (view w')"
  using assms(2)
proof cases
  case (api_send b d)
  then show ?thesis
    by (auto simp: ws_send_def view_def log_add_def told_def intro!: progress_frame split: if_splits)
next
  case (api_close c r)
  show ?thesis
  proof (cases "ws_state w")
    case CONNECTING
    then show ?thesis by (simp add: api_close ws_close_def view_def log_add_def progress_iff told_def)
  qed (use progress_close progress_refl in \<open>simp_all add: api_close ws_close_def view_def log_add_def\<close>)
next
  case (api_ping d)
  then show ?thesis by (simp add: ws_ping_def view_def log_add_def progress_refl progress_frame told_def)
next
  case (api_pong d)
  then show ?thesis by (simp add: ws_pong_def view_def log_add_def progress_refl progress_frame told_def)
next
  case api_terminate
  then show ?thesis by (simp add: ws_terminate_def progress_shut [OF assms(1)])
qed

lemma progress_emit:
  assumes "handler_ok h" "told [Emitted e] = 0"
  shows "progress (view w) (view (ws_emit h e w))"
proof -
  have "progress (view w') (view w'')" if "(ws_api h)\<^sup>*\<^sup>* w' w''" for w' w''
    using that by (induction rule: rtranclp_induct) (blast intro: progress_refl progress_trans progress_api [OF assms(1)])+
  then have "progress (view (log_add (Emitted e) w)) (view (ws_emit h e w))"
    using assms(1) unfolding handler_ok_def ws_emit_def by blast
  moreover have "progress (view w) (view (log_add (Emitted e) w))"
    using assms(2) by (simp add: view_def progress_quiet)
  ultimately show ?thesis by (rule progress_trans [rotated])
qed

lemma told_events [simp]:
  "told [Emitted (EvMessage d b)] = 0" "told [Emitted (EvPing d)] = 0" "told [Emitted (EvPong d)] = 0"
  by (simp_all add: told_def)

lemma progress_handle_frame:
  assumes "handler_ok h" shows "progress (view w) (view (handle_frame h opcode payload w))"
proof -
  have close: "progress (view w) (view (ws_shut h c r (if ws_state w = OPEN
      then log_add (SentClose c r) (w\<lparr>ws_state := CLOSING\<rparr>) else w)))" for c r
  proof (cases "ws_state w = OPEN")
    case True
    then have "progress (view w) (view (log_add (SentClose c r) (w\<lparr>ws_state := CLOSING\<rparr>)))"
      by (simp add: view_def log_add_def progress_close)
    then show ?thesis using True progress_trans [OF _ progress_shut [OF assms]] by simp
  qed (simp add: progress_shut [OF assms])
  have ping: "progress (view w) (view (ws_emit h (EvPing payload)
      (if ws_state w = OPEN then log_add (Sent OP_PONG payload) w else w)))"
  proof (cases "ws_state w = OPEN")
    case True
    then have "progress (view w) (view (log_add (Sent OP_PONG payload) w))"
      by (simp add: view_def progress_frame told_def)
    then show ?thesis using True progress_trans [OF _ progress_emit [OF assms]] by simp
  qed (simp add: progress_emit [OF assms])
  show ?thesis
    using close ping progress_refl
    by (simp add: handle_frame_def progress_emit [OF assms] split: prod.split)
qed

lemma progress_frames: "handler_ok h \<Longrightarrow> progress (view w) (view (process_frames h buf w))"
proof (induction h buf w rule: process_frames.induct)
  case (1 h buf w)
  show ?case
  proof (cases "buf = []")
    case True
    then show ?thesis by (simp add: process_frames.simps progress_refl)
  next
    case False
    show ?thesis
    proof (cases "decodeFrameJS buf 0")
      case None
      then show ?thesis using False by (simp add: process_frames.simps progress_refl)
    next
      case (Some f)
      have "progress (view w) (view (handle_frame h (fi_opcode f) (slice buf (fi_start f) (fi_start f + fi_len f))
          (w\<lparr>ws_buffer := drop (fi_total f) buf\<rparr>)))"
        using progress_handle_frame [OF 1(2), of "w\<lparr>ws_buffer := drop (fi_total f) buf\<rparr>"] by simp
      then show ?thesis
        using 1(1) [OF False Some] 1(2) False Some
        by (subst process_frames.simps) (auto intro: progress_trans)
    qed
  qed
qed

lemma progress_end: "handler_ok h \<Longrightarrow> progress (view w) (view (end_of_input h w))"
  by (simp add: end_of_input_def progress_shut progress_refl)

lemma progress_await: "handler_ok h \<Longrightarrow> progress (view w) (view (await_data h w))"
  using progress_end [of h "w\<lparr>ws_phase := Idle\<rparr>"] by (simp add: await_data_def progress_refl)

lemma progress_read_loop:
  assumes "handler_ok h" shows "progress (view w) (view (read_loop h w))"
proof -
  define w1 where "w1 = (if ws_buffer w \<noteq> [] then process_frames h (ws_buffer w) w else w)"
  have p: "progress (view w) (view w1)" using progress_frames [OF assms] by (simp add: w1_def progress_refl)
  then have "progress (view w) (view (await_data h w1))" using progress_trans progress_await [OF assms] by blast
  with p show ?thesis by (simp add: read_loop_def Let_def progress_refl flip: w1_def)
qed

lemma progress_data:
  assumes "handler_ok h" shows "progress (view w) (view (on_data h d w))"
proof -
  define w1 where "w1 = process_frames h (ws_buffer w @ d) (w\<lparr>ws_phase := Idle\<rparr>)"
  have p: "progress (view w) (view w1)" using progress_frames [OF assms, of "w\<lparr>ws_phase := Idle\<rparr>"] by (simp add: w1_def)
  then have "progress (view w) (view (read_loop h w1))" using progress_trans progress_read_loop [OF assms] by blast
  moreover have "progress (view w) (view (end_of_input h (w\<lparr>ws_phase := Idle\<rparr>)))"
    using progress_end [OF assms, of "w\<lparr>ws_phase := Idle\<rparr>"] by simp
  ultimately show ?thesis using p by (simp add: on_data_def Let_def flip: w1_def)
qed

lemma progress_step: "handler_ok h \<Longrightarrow> ws_step h w w' \<Longrightarrow> progress (view w) (view w')"
  by (cases rule: ws_step.cases) (auto intro: progress_api progress_data)

interpretation client: ready_machine ws_state ws_log "\<lambda>w w'. handler_ok h \<and> ws_step h w w'" for h
  using progress_step by unfold_locales (auto simp: progress_iff view_def)

lemma client_close_last:
  assumes "handler_ok h" "(ws_step h)\<^sup>*\<^sup>* w w'" "ws_state w \<noteq> CONNECTING" "close_last (ws_state w) (ws_log w)"
  shows "close_last (ws_state w') (ws_log w')"
proof -
  have "progress (view w) (view w')"
    using assms(2) by (induction rule: rtranclp_induct) (blast intro: progress_refl progress_trans progress_step [OF assms(1)])+
  then show ?thesis using assms(3,4) by (simp add: progress_iff view_def)
qed

subsection \<open>The server\<close>

inductive sw_api :: "shandler \<Rightarrow> server_socket \<Rightarrow> server_socket \<Rightarrow> bool" for h where
  sapi_send: "sw_api h s (sw_send b d s)"
| sapi_close: "sw_api h s (sw_close h c r s)"
| sapi_ping: "sw_api h s (sw_ping d s)"
| sapi_pong: "sw_api h s (sw_pong d s)"
| sapi_terminate: "sw_api h s (sw_terminate h s)"

inductive_cases sw_apiE: "sw_api h s s'"

definition shandler_ok :: "shandler \<Rightarrow> bool" where
  "shandler_ok h \<longleftrightarrow> (\<forall>e s. (sw_api h)\<^sup>*\<^sup>* s (h e s))"

definition sw_ok :: "server_socket \<Rightarrow> bool" where
  "sw_ok s \<longleftrightarrow> (sw_closed s \<longleftrightarrow> sw_state s = CLOSED)"

definition sview :: "server_socket \<Rightarrow> ready \<times> wlog list" where
  "sview s = (sw_state s, sw_log s)"

text \<open>One turn of the read loop or a call from outside.\<close>

inductive sw_step :: "shandler \<Rightarrow> server_socket \<Rightarrow> server_socket \<Rightarrow> bool" for h where
  sstep_api: "sw_api h s s' \<Longrightarrow> sw_step h s s'"
| sstep_read: "sw_step h s (sw_read h input s)"

text \<open>What a server step keeps, and that it ends in a consistent socket.\<close>

definition advance :: "server_socket \<Rightarrow> server_socket \<Rightarrow> bool" where
  "advance s s' \<longleftrightarrow> sw_ok s' \<and> ahead (sview s) (sview s')"

lemma slog_add_fields [simp]:
  "sw_state (slog_add l s) = sw_state s" "sw_log (slog_add l s) = sw_log s @ [l]"
  "sw_closed (slog_add l s) = sw_closed s" "sw_handle (slog_add l s) = sw_handle s"
  by (simp_all add: slog_add_def)

lemma advance_refl: "sw_ok s \<Longrightarrow> advance s s"
  by (simp add: advance_def ahead_def)

lemma advance_trans: "advance a b \<Longrightarrow> advance b c \<Longrightarrow> advance a c"
  using ahead_trans [of "sview a" "sview b" "sview c"] by (simp add: advance_def)

lemma advance_log: "sw_ok s \<Longrightarrow> told [l] = 0 \<Longrightarrow> advance s (slog_add l s)"
  by (simp add: advance_def sw_ok_def ahead_def sview_def)

lemma sw_api_closed: "sw_api h s s' \<Longrightarrow> sw_state s = CLOSED \<Longrightarrow> s' = s"
  by (erule sw_apiE) (simp_all add: sw_send_def sw_close_def sw_ping_def sw_pong_def sw_terminate_def)

lemma sw_apis_closed: "(sw_api h)\<^sup>*\<^sup>* s s' \<Longrightarrow> sw_state s = CLOSED \<Longrightarrow> s' = s"
  by (induction rule: rtranclp_induct) (auto dest: sw_api_closed)

lemma advance_doClose:
  assumes "shandler_ok h" "sw_ok s" shows "advance s (sw_doClose h c r s)"
proof (cases "sw_closed s")
  case True
  then show ?thesis using assms(2) by (simp add: sw_doClose_def advance_refl)
next
  case False
  define s2 where "s2 = (if sw_handle s \<noteq> 0 then (slog_add (HandleClosed (sw_handle s)) (s\<lparr>sw_closed := True, sw_state := CLOSED\<rparr>))\<lparr>sw_handle := 0\<rparr>
    else s\<lparr>sw_closed := True, sw_state := CLOSED\<rparr>)"
  define s3 where "s3 = slog_add (Emitted (EvClose c r)) s2"
  have s3: "sw_state s3 = CLOSED" "sw_closed s3"
    "sw_log s3 = sw_log s @ (if sw_handle s \<noteq> 0 then [HandleClosed (sw_handle s)] else []) @ [Emitted (EvClose c r)]"
    by (simp_all add: s3_def s2_def)
  have "h (EvClose c r) s3 = s3" using sw_apis_closed assms(1) s3(1) unfolding shandler_ok_def by blast
  then have "sw_doClose h c r s = s3"
    using False unfolding s3_def s2_def by (cases "sw_handle s = 0") (simp_all add: sw_doClose_def sw_emit_def Let_def)
  moreover have "sw_state s \<noteq> CLOSED" using False assms(2) by (simp add: sw_ok_def)
  ultimately show ?thesis using s3 by (simp add: advance_def sw_ok_def ahead_def sview_def told_def)
qed

lemma advance_closing: "sw_ok s \<Longrightarrow> sw_state s = OPEN \<Longrightarrow> advance s (slog_add (SentClose c r) (s\<lparr>sw_state := CLOSING\<rparr>))"
  by (simp add: advance_def sw_ok_def ahead_def sview_def told_def)

lemma advance_api:
  assumes "shandler_ok h" "sw_api h s s'" "sw_ok s" shows "advance s s'"
  using assms(2)
proof cases
  case (sapi_close c r)
  show ?thesis
  proof (cases "sw_state s")
    case OPEN
    note a = advance_closing [OF assms(3) OPEN]
    show ?thesis
      using advance_trans [OF a advance_doClose [OF assms(1)]] a OPEN
      by (simp add: sapi_close sw_close_def Let_def) (simp add: advance_def)
  next
    case CONNECTING
    have "advance s (slog_add (SentClose c r) (s\<lparr>sw_state := CLOSING\<rparr>))" for c r
      using CONNECTING assms(3) by (simp add: advance_def sw_ok_def ahead_def sview_def told_def)
    note a = this
    show ?thesis
      using advance_trans [OF a advance_doClose [OF assms(1)]] a CONNECTING
      by (simp add: sapi_close sw_close_def Let_def) (simp add: advance_def)
  qed (simp_all add: sapi_close sw_close_def advance_refl assms(3))
next
  case sapi_terminate
  then show ?thesis by (simp add: sw_terminate_def advance_doClose [OF assms(1,3)] advance_refl assms(3))
qed (simp_all add: sw_send_def sw_ping_def sw_pong_def advance_refl advance_log assms(3) told_def)

lemma advance_emit:
  assumes "shandler_ok h" "sw_ok s" "told [Emitted e] = 0" shows "advance s (sw_emit h e s)"
proof -
  have "advance s' s''" if "(sw_api h)\<^sup>*\<^sup>* s' s''" "sw_ok s'" for s' s''
    using that
  proof (induction rule: rtranclp_induct)
    case (step y z)
    then have y: "advance s' y" by blast
    then have "sw_ok y" by (simp add: advance_def)
    then show ?case using advance_trans [OF y] advance_api [OF assms(1) step.hyps(2)] by blast
  qed (rule advance_refl)
  moreover have a: "advance s (slog_add (Emitted e) s)" by (rule advance_log [OF assms(2,3)])
  moreover have "sw_ok (slog_add (Emitted e) s)" using a by (simp add: advance_def)
  ultimately show ?thesis
    using assms(1) advance_trans [OF a] unfolding shandler_ok_def sw_emit_def by blast
qed

lemma advance_frame:
  assumes "shandler_ok h" "sw_ok s" shows "advance s (sw_frame h f s)"
proof -
  obtain opcode payload where f: "f = (opcode, payload)" by (cases f)
  have "advance s (sw_doClose h c r (if sw_state s = OPEN then slog_add (SentClose c r) (s\<lparr>sw_state := CLOSING\<rparr>) else s))" for c r
  proof (cases "sw_state s = OPEN")
    case True
    note a = advance_closing [OF assms(2) True, of c r]
    then have "sw_ok (slog_add (SentClose c r) (s\<lparr>sw_state := CLOSING\<rparr>))" by (simp add: advance_def)
    then show ?thesis using True advance_trans [OF a advance_doClose [OF assms(1)]] by simp
  qed (simp add: advance_doClose [OF assms])
  moreover have "advance s (sw_emit h (EvPing payload) (slog_add (Sent OP_PONG payload) s))"
  proof -
    have a: "advance s (slog_add (Sent OP_PONG payload) s)" by (rule advance_log [OF assms(2)]) (simp add: told_def)
    then have "sw_ok (slog_add (Sent OP_PONG payload) s)" by (simp add: advance_def)
    then show ?thesis using advance_trans [OF a advance_emit [OF assms(1)]] by simp
  qed
  ultimately show ?thesis
    by (simp add: sw_frame_def f advance_emit [OF assms] advance_refl [OF assms(2)] split: prod.split)
qed

lemma advance_frames: "shandler_ok h \<Longrightarrow> sw_ok s \<Longrightarrow> advance s (sw_frames h fs s)"
proof (induction fs arbitrary: s)
  case (Cons f fs)
  have a: "advance s (sw_frame h f s)" by (rule advance_frame [OF Cons.prems])
  then have "advance (sw_frame h f s) (sw_frames h fs (sw_frame h f s))"
    using Cons.IH [OF Cons.prems(1)] by (simp add: advance_def)
  with a show ?case using advance_trans by simp
qed (simp add: advance_refl)

lemma advance_step:
  assumes "shandler_ok h" "sw_ok s" "sw_step h s s'" shows "advance s s'"
  using assms(3)
proof cases
  case sstep_api
  then show ?thesis using advance_api [OF assms(1) _ assms(2)] by simp
next
  case (sstep_read input)
  then show ?thesis
    using advance_frames [OF assms(1,2)] advance_doClose [OF assms(1,2)] advance_refl [OF assms(2)]
    by (auto simp: sw_read_def simp del: sw_frames.simps split: option.split list.split)
qed

interpretation server: ready_machine sw_state sw_log "\<lambda>s s'. shandler_ok h \<and> sw_ok s \<and> sw_step h s s'" for h
  using advance_step by unfold_locales (auto simp: advance_def ahead_def sview_def)

lemma server_run:
  assumes "shandler_ok h" "(sw_step h)\<^sup>*\<^sup>* s s'" "sw_ok s"
  shows "(\<lambda>s s'. shandler_ok h \<and> sw_ok s \<and> sw_step h s s')\<^sup>*\<^sup>* s s' \<and> sw_ok s'"
  using assms(2,3)
proof (induction rule: rtranclp_induct)
  case (step y z)
  then have "sw_ok z" using advance_step [OF assms(1)] by (auto simp: advance_def)
  then show ?case using step assms(1) by (metis (no_types, lifting) rtranclp.rtrancl_into_rtrancl)
qed simp

lemma client_run:
  "handler_ok h \<Longrightarrow> (ws_step h)\<^sup>*\<^sup>* w w' \<Longrightarrow> (\<lambda>w w'. handler_ok h \<and> ws_step h w w')\<^sup>*\<^sup>* w w'"
  by simp

section \<open>Frames in any segmentation\<close>

text \<open>An unmasked frame as RFC 6455 writes it, and what a client does on it when nobody calls it back.\<close>

definition frame_head :: "nat \<Rightarrow> nat \<Rightarrow> jsstr" where
  "frame_head opcode n =
     (128 + opcode) # (if n < 126 then [n] else if n < 65536 then [126, n div 256, n mod 256]
                       else 127 # map (\<lambda>k. n div 256 ^ k mod 256) [7, 6, 5, 4, 3, 2, 1, 0])"

definition frame_text :: "nat \<times> jsstr \<Rightarrow> jsstr" where
  "frame_text f = frame_head (fst f) (length (snd f)) @ snd f"

definition frame_ok :: "nat \<times> jsstr \<Rightarrow> bool" where
  "frame_ok f \<longleftrightarrow> fst f \<in> {OP_TEXT, OP_BINARY, OP_PING, OP_PONG} \<and> length (snd f) < 2 ^ 64"

definition frame_log :: "nat \<times> jsstr \<Rightarrow> wlog list" where
  "frame_log f =
     (if fst f = OP_PING then [Sent OP_PONG (snd f), Emitted (EvPing (snd f))]
      else if fst f = OP_PONG then [Emitted (EvPong (snd f))] else [Emitted (EvMessage (snd f) (fst f = OP_BINARY))])"

lemma byte_step: "n div (b * 256) * 256 + n div b mod 256 = n div (b::nat)"
  by (simp add: div_mult2_eq)

lemma big_endian_8:
  assumes "(n::nat) < 2 ^ 64"
  shows "foldl (\<lambda>p c. p * 256 + c) 0 (map (\<lambda>k. n div 256 ^ k mod 256) [7, 6, 5, 4, 3, 2, 1, 0]) = n"
proof -
  have "n div 256 ^ 7 mod 256 = n div 256 ^ 7" using assms by (simp add: less_mult_imp_div_less)
  then show ?thesis
    using byte_step [of n "256 ^ 6"] byte_step [of n "256 ^ 5"] byte_step [of n "256 ^ 4"] byte_step [of n "256 ^ 3"]
      byte_step [of n "256 ^ 2"] byte_step [of n 256] byte_step [of n 1]
    by simp
qed

lemma frame_head_length: "length (frame_head op n) = (if n < 126 then 2 else if n < 65536 then 4 else 10)"
  by (simp add: frame_head_def)

lemma high_bit: "(n::nat) < 128 \<Longrightarrow> n AND 128 = 0" "129 AND 128 = (128::nat)" "130 AND 128 = (128::nat)" "137 AND 128 = (128::nat)" "138 AND 128 = (128::nat)"
  using and_exp_eq_0_iff_not_bit [of n 7] by (simp_all add: bit_iff_odd_drop_bit shift_right_nat)

lemma opcode_cases: "frame_ok f \<Longrightarrow> fst f = 1 \<or> fst f = 2 \<or> fst f = 9 \<or> fst f = 10"
  by (auto simp: frame_ok_def opcode_defs)

lemma opcode_byte:
  assumes "frame_ok f"
  shows "(128 + fst f) AND 15 = fst f" "(128 + fst f) AND 128 \<noteq> 0"
  using opcode_cases [OF assms] high_bit by (auto simp: and_masks)

lemma head_nth:
  "n < 126 \<Longrightarrow> frame_head op n = [128 + op, n]"
  "126 \<le> n \<Longrightarrow> n < 65536 \<Longrightarrow> frame_head op n = [128 + op, 126, n div 256, n mod 256]"
  "65536 \<le> n \<Longrightarrow> frame_head op n = (128 + op) # 127 # map (\<lambda>k. n div 256 ^ k mod 256) [7, 6, 5, 4, 3, 2, 1, 0]"
  by (simp_all add: frame_head_def)

lemma decode_frame:
  assumes "frame_ok (op, p)"
  shows "decodeFrameJS (frame_text (op, p) @ rest) 0 =
    Some \<lparr>fi_opcode = op, fi_start = length (frame_head op (length p)), fi_len = length p,
          fi_total = length (frame_text (op, p)), fi_fin = True\<rparr>"
proof -
  note b = opcode_byte [OF assms, simplified]
  have n: "length p < 2 ^ 64" using assms by (simp add: frame_ok_def)
  consider "length p < 126" | "126 \<le> length p" "length p < 65536" | "65536 \<le> length p" by linarith
  then show ?thesis
  proof cases
    case 1
    then have "length p AND 128 = 0" "length p AND 127 = length p" by (simp_all add: high_bit and_masks)
    then show ?thesis using 1 b by (simp add: decodeFrameJS_def frame_text_def head_nth Let_def)
  next
    case 2
    then show ?thesis using b by (simp add: decodeFrameJS_def frame_text_def head_nth Let_def high_bit and_masks)
  next
    case 3
    define q where "q = map (\<lambda>k. length p div 256 ^ k mod 256) [7, 6, 5, 4, 3, 2, 1, 0]"
    have "length q = 8" "foldl (\<lambda>p c. p * 256 + c) 0 q = length p"
      using big_endian_8 [OF n] by (simp_all add: q_def)
    moreover have "frame_head op (length p) = (128 + op) # 127 # q" using head_nth(3) [OF 3] by (simp add: q_def)
    ultimately show ?thesis using b by (simp add: decodeFrameJS_def frame_text_def Let_def high_bit and_masks slice_def)
  qed
qed

lemma decode_append:
  assumes "decodeFrameJS buf 0 = Some f"
  shows "decodeFrameJS (buf @ rest) 0 = Some f \<and> fi_total f \<le> length buf"
proof -
  obtain b0 b1 tl where b: "buf = b0 # b1 # tl"
    using assms by (cases buf; cases "tl buf") (auto simp: decodeFrameJS_def)
  consider "b1 AND 127 = 126" | "b1 AND 127 = 127" | "b1 AND 127 \<noteq> 126" "b1 AND 127 \<noteq> 127" by blast
  then show ?thesis
  proof cases
    case 1
    then show ?thesis using assms by (auto simp: b decodeFrameJS_def Let_def nth_append split: if_splits)
  next
    case 2
    then have "8 \<le> length tl" using assms by (simp add: b decodeFrameJS_def split: if_splits)
    then have "take 8 (tl @ rest) = take 8 tl" by simp
    with 2 show ?thesis using assms by (auto simp: b decodeFrameJS_def Let_def slice_def split: if_splits)
  next
    case 3
    then show ?thesis using assms by (auto simp: b decodeFrameJS_def Let_def split: if_splits)
  qed
qed

lemma decode_partial:
  assumes "frame_ok (op, p)" "frame_text (op, p) = buf @ future" "future \<noteq> []"
  shows "decodeFrameJS buf 0 = None"
proof (rule ccontr)
  assume "decodeFrameJS buf 0 \<noteq> None"
  then obtain f where "decodeFrameJS (buf @ future) 0 = Some f" "fi_total f \<le> length buf"
    using decode_append by blast
  then have "length (frame_text (op, p)) \<le> length buf" using decode_frame [OF assms(1), of "[]"] assms(2) by simp
  then show False using assms(2,3) by simp
qed

abbreviation ws_observer :: whandler where "ws_observer \<equiv> (\<lambda>e w. w)"

lemma handle_frame_observed:
  assumes "frame_ok (op, p)" "ws_state w = OPEN"
  shows "handle_frame ws_observer op p w = w\<lparr>ws_log := ws_log w @ frame_log (op, p)\<rparr>"
  using opcode_cases [OF assms(1)] assms(2)
  by (auto simp: handle_frame_def frame_log_def opcode_defs ws_emit_def log_add_def)

lemma frame_text_nonempty [simp]: "frame_text f \<noteq> []" "0 < length (frame_text f)"
  by (simp_all add: frame_text_def frame_head_def)

lemma process_partial:
  assumes "frame_ok f" "frame_text f = buf @ future" "future \<noteq> []"
  shows "process_frames h buf w = w\<lparr>ws_buffer := buf\<rparr>"
  using decode_partial [of "fst f" "snd f"] assms by (simp add: process_frames.simps)

lemma process_whole:
  assumes "frame_ok f" "ws_state w = OPEN"
  shows "process_frames ws_observer (frame_text f @ rest) w =
    process_frames ws_observer rest (w\<lparr>ws_log := ws_log w @ frame_log f, ws_buffer := rest\<rparr>)"
proof -
  have "slice (frame_text f @ rest) (length (frame_head (fst f) (length (snd f))))
      (length (frame_head (fst f) (length (snd f))) + length (snd f)) = snd f"
    by (simp add: slice_def frame_text_def)
  then show ?thesis
    using decode_frame [of "fst f" "snd f" rest] handle_frame_observed [of "fst f" "snd f"] assms
    by (cases w, subst process_frames.simps) simp
qed

lemma frames_stream:
  assumes "\<forall>f \<in> set fs. frame_ok f" "ws_state w = OPEN" "buf @ future = concat (map frame_text fs)"
  shows "\<exists>gs hs rest. fs = gs @ hs \<and> rest @ future = concat (map frame_text hs) \<and>
    process_frames ws_observer buf w = w\<lparr>ws_log := ws_log w @ concat (map frame_log gs), ws_buffer := rest\<rparr> \<and>
    (hs = [] \<or> length rest < length (frame_text (hd hs))) \<and>
    (\<forall>w. process_frames ws_observer rest w = w\<lparr>ws_buffer := rest\<rparr>)"
  using assms
proof (induction fs arbitrary: buf w)
  case Nil
  then show ?case by (intro exI [of _ "[]"]) (simp add: process_frames.simps)
next
  case (Cons f fs)
  show ?case
  proof (cases "length buf < length (frame_text f)")
    case True
    obtain more where m: "buf @ more = frame_text f"
      using Cons.prems(3) True by (auto simp: append_eq_append_conv2)
    with True have "more \<noteq> []" by auto
    then have "process_frames ws_observer buf w = w\<lparr>ws_buffer := buf\<rparr>" for w
      using process_partial [OF _ m [symmetric]] Cons.prems(1) by simp
    then show ?thesis using Cons.prems(3) True by (intro exI [of _ "[]"] exI [of _ "f # fs"] exI [of _ buf]) simp
  next
    case False
    define n where "n = length (frame_text f)"
    define buf' where "buf' = drop n buf"
    have "take n (buf @ future) = frame_text f" "drop n (buf @ future) = concat (map frame_text fs)"
      using Cons.prems(3) by (simp_all add: n_def)
    then have b: "buf = frame_text f @ buf'" "buf' @ future = concat (map frame_text fs)"
      using False append_take_drop_id [of n buf] by (simp_all add: n_def buf'_def)
    define w1 where "w1 = w\<lparr>ws_log := ws_log w @ frame_log f, ws_buffer := buf'\<rparr>"
    obtain gs hs rest where "fs = gs @ hs" "rest @ future = concat (map frame_text hs)"
      "process_frames ws_observer buf' w1 = w1\<lparr>ws_log := ws_log w1 @ concat (map frame_log gs), ws_buffer := rest\<rparr>"
      "hs = [] \<or> length rest < length (frame_text (hd hs))"
      "\<forall>w. process_frames ws_observer rest w = w\<lparr>ws_buffer := rest\<rparr>"
      using Cons.IH [of w1 buf'] Cons.prems(1,2) b(2) by (auto simp: w1_def)
    then show ?thesis
      using process_whole [of f w buf'] Cons.prems(1,2) b(1)
      by - (rule exI [of _ "f # gs"], rule exI [of _ hs], rule exI [of _ rest], simp add: w1_def)
  qed
qed

lemma on_data_stream:
  assumes "\<forall>f \<in> set fs. frame_ok f" "ws_state w = OPEN" "ws_phase w = Reading" "ws_handle w \<noteq> 0" "d \<noteq> []"
    "ws_buffer w @ d @ future = concat (map frame_text fs)"
  shows "\<exists>gs hs rest. fs = gs @ hs \<and> rest @ future = concat (map frame_text hs) \<and>
    (hs = [] \<or> length rest < length (frame_text (hd hs))) \<and>
    on_data ws_observer d w = w\<lparr>ws_log := ws_log w @ concat (map frame_log gs), ws_buffer := rest\<rparr>"
proof -
  obtain gs hs rest where s: "fs = gs @ hs" "rest @ future = concat (map frame_text hs)"
      "process_frames ws_observer (ws_buffer w @ d) (w\<lparr>ws_phase := Idle\<rparr>) =
        w\<lparr>ws_phase := Idle, ws_log := ws_log w @ concat (map frame_log gs), ws_buffer := rest\<rparr>"
      "hs = [] \<or> length rest < length (frame_text (hd hs))"
      "\<forall>w. process_frames ws_observer rest w = w\<lparr>ws_buffer := rest\<rparr>"
    using frames_stream [of fs "w\<lparr>ws_phase := Idle\<rparr>" "ws_buffer w @ d" future] assms by auto
  then have "on_data ws_observer d w = w\<lparr>ws_log := ws_log w @ concat (map frame_log gs), ws_buffer := rest\<rparr>"
    using assms(2-5) by (simp add: on_data_def read_loop_def await_data_def Let_def)
  with s show ?thesis by blast
qed

lemma segments_stream:
  assumes "ws_buffer w @ concat segs = concat (map frame_text fs)" "\<forall>f \<in> set fs. frame_ok f" "[] \<notin> set segs"
    "ws_state w = OPEN" "ws_phase w = Reading" "ws_handle w \<noteq> 0" "fs = [] \<or> length (ws_buffer w) < length (frame_text (hd fs))"
  shows "fold (on_data ws_observer) segs w = w\<lparr>ws_log := ws_log w @ concat (map frame_log fs), ws_buffer := []\<rparr>"
  using assms
proof (induction segs arbitrary: w fs)
  case Nil
  then show ?case by (cases fs) auto
next
  case (Cons d segs)
  obtain gs hs rest where s: "fs = gs @ hs" "rest @ concat segs = concat (map frame_text hs)"
    "hs = [] \<or> length rest < length (frame_text (hd hs))"
    "on_data ws_observer d w = w\<lparr>ws_log := ws_log w @ concat (map frame_log gs), ws_buffer := rest\<rparr>"
    using on_data_stream [of fs w d "concat segs"] Cons.prems by auto
  then show ?case using Cons.prems Cons.IH [of "on_data ws_observer d w" hs] by simp
qed

text \<open>C28: Take unfragmented, unmasked text, binary, ping and pong frames (no close frame, no fragment and no
  continuation: see \<open>fragments_not_joined\<close> and \<open>message_after_close\<close>) with payloads below 2^64 bytes, cut into
  pieces that are not empty, each of which the native reader \<open>native\<close> gives as a string with one unit per byte;
  the comment of the source promises this of the reader only for text frames without zero bytes. A client that
  is open and waits for data with a handle and an empty buffer, and whose listeners call nothing, handles the
  frames the same wherever the pieces end: every text and binary frame becomes one message, every ping is
  answered by a pong with its payload and reported, every pong is reported, in the order of the frames, nothing
  is left in the buffer, and the client waits for more.\<close>

theorem frames_in_any_segmentation:
  assumes "\<forall>f \<in> set fs. frame_ok f" "concat segs = concat (map frame_text fs)" "[] \<notin> set segs"
    "\<forall>d \<in> set segs. native d = d"
    "ws_state w = OPEN" "ws_phase w = Reading" "ws_handle w \<noteq> 0" "ws_buffer w = []"
  shows "fold (on_data ws_observer) (map native segs) w = w\<lparr>ws_log := ws_log w @ concat (map frame_log fs)\<rparr>"
proof -
  have "map native segs = segs" using assms(4) by (simp add: map_idI)
  then show ?thesis using segments_stream [of w segs fs] assms by simp
qed

definition ws_example :: websocket where
  "ws_example = \<lparr>ws_state = OPEN, ws_target = \<lparr>wt_host = [104], wt_port = 80, wt_path = [47], wt_secure = False\<rparr>,
     ws_key = [], ws_protocols = [], ws_buffer = [], ws_handle = 7, ws_protocol = [], ws_extensions = [],
     ws_unexpected = False, ws_phase = Reading, ws_log = []\<rparr>"

text \<open>A reader that takes what it received for a C string: it ends at the first zero byte.\<close>

abbreviation c_string :: "jsstr \<Rightarrow> jsstr" where "c_string \<equiv> takeWhile (\<lambda>c. c \<noteq> 0)"

lemma frames_in_any_segmentation_witness:
  "ws_log (fold (on_data ws_observer) (map c_string [[0x89], [1, 7, 0x81, 2, 104], [105]]) ws_example) =
     [Sent OP_PONG [7], Emitted (EvPing [7]), Emitted (EvMessage [104, 105] False)]"
  using frames_in_any_segmentation
    [of "[(OP_PING, [7]), (OP_TEXT, [104, 105])]" "[[0x89], [1, 7, 0x81, 2, 104], [105]]" c_string ws_example]
  by (simp add: ws_example_def frame_ok_def frame_text_def frame_head_def frame_log_def opcode_defs)

section \<open>Life of a connection\<close>

text \<open>C29: Whatever the handlers of an open client call, and in whatever order calls and data come, its ready
  state never goes back, the listeners are told of the close exactly once and only when it is closed, and a
  close frame is the last frame it sends.\<close>

theorem client_life:
  assumes "handler_ok h" "(ws_step h)\<^sup>*\<^sup>* w w'" "ws_state w = OPEN" "\<forall>l \<in> set (ws_log w). \<not> is_close l"
  shows "OPEN \<le> ws_state w' \<and> told (ws_log w') = told (ws_log w) + (if ws_state w' = CLOSED then 1 else 0) \<and>
    (\<forall>l \<in> set (butlast (filter is_frame (ws_log w'))). \<not> is_close l)"
proof -
  have "close_last (ws_state w) (ws_log w)" using assms(4) by (auto simp: close_last_def dest!: in_set_butlastD)
  then have "close_last (ws_state w') (ws_log w')" using client_close_last [OF assms(1,2)] assms(3) by simp
  moreover have run: "(\<lambda>w w'. handler_ok h \<and> ws_step h w w')\<^sup>*\<^sup>* w w'" by (rule client_run [OF assms(1,2)])
  ultimately show ?thesis
    using client.run_mono [OF run] client.run_told [OF run] assms(3) by (simp add: close_last_def)
qed

lemma client_life_witness:
  "let w' = ws_terminate ws_observer (ws_close None None ws_example)
   in ws_state w' = CLOSED \<and> told (ws_log w') = 1 \<and> ws_log w' = [SentClose 1000 [], HandleClosed 7, Emitted (EvClose 1006 [])]"
proof -
  have "(ws_step ws_observer)\<^sup>*\<^sup>* ws_example (ws_terminate ws_observer (ws_close None None ws_example))"
    by (meson api_close api_terminate converse_rtranclp_into_rtranclp r_into_rtranclp step_api)
  then have "told (ws_log (ws_terminate ws_observer (ws_close None None ws_example))) =
      (if ws_state (ws_terminate ws_observer (ws_close None None ws_example)) = CLOSED then 1 else 0)"
    using client_life [of ws_observer ws_example "ws_terminate ws_observer (ws_close None None ws_example)"]
    by (simp add: handler_ok_def) (simp add: ws_example_def told_def)
  then show ?thesis
    by (simp add: ws_example_def ws_close_def ws_terminate_def ws_shut_def ws_emit_def log_add_def)
qed

text \<open>A connection of the server tells its listeners of the close exactly once, when its ready state becomes
  \<open>CLOSED\<close>, and the state never goes back, whatever the handlers call while frames are read.\<close>

theorem server_life:
  assumes "shandler_ok h" "(sw_step h)\<^sup>*\<^sup>* (sw_new n) s"
  shows "OPEN \<le> sw_state s \<and> (sw_closed s \<longleftrightarrow> sw_state s = CLOSED) \<and>
    told (sw_log s) = (if sw_state s = CLOSED then 1 else 0)"
proof -
  have new: "sw_ok (sw_new n)" by (simp add: sw_ok_def sw_new_def)
  note run = server_run [OF assms new, THEN conjunct1]
  show ?thesis
    using server.run_mono [OF run] server.run_told [OF run] server_run [OF assms new]
    by (simp add: sw_new_def sw_ok_def told_def)
qed

lemma server_life_witness:
  "let s = sw_read (\<lambda>e s. s) (Some [(OP_TEXT, [104]), (OP_CLOSE, [3, 232])]) (sw_new 4)
   in sw_state s = CLOSED \<and> told (sw_log s) = 1 \<and> sw_handle s = 0"
proof -
  define s where "s = sw_read (\<lambda>e s. s) (Some [(OP_TEXT, [104]), (OP_CLOSE, [3, 232])]) (sw_new 4)"
  have "(sw_step (\<lambda>e s. s))\<^sup>*\<^sup>* (sw_new 4) s" unfolding s_def by (rule r_into_rtranclp) (rule sstep_read)
  then have "told (sw_log s) = (if sw_state s = CLOSED then 1 else 0)"
    using server_life [of "\<lambda>e s. s" 4 s] by (simp add: shandler_ok_def)
  moreover have "sw_state s = CLOSED" "sw_handle s = 0"
    by (simp_all add: s_def sw_read_def sw_new_def sw_frame_def opcode_defs sw_emit_def slog_add_def parseCloseJS_def
        sw_doClose_def Let_def)
  ultimately show ?thesis by (simp add: s_def)
qed

section \<open>Behaviour that differs from the protocol\<close>

text \<open>A frame after a close frame in the same read is still delivered, on a socket that is closed.\<close>

lemma message_after_close:
  "ws_log (on_data ws_observer (frame_text (OP_CLOSE, []) @ frame_text (OP_TEXT, [104])) ws_example) =
     [SentClose 1005 [], HandleClosed 7, Emitted (EvClose 1005 []), Emitted (EvMessage [104] False)]"
  by (simp add: ws_example_def on_data_def process_frames.simps decodeFrameJS_def frame_text_def frame_head_def
      opcode_defs and_masks slice_def high_bit handle_frame_def parseCloseJS_def ws_shut_def ws_emit_def log_add_def)

text \<open>The server answers a ping that follows a close frame, after the handle is gone.\<close>

lemma pong_after_close:
  "sw_log (sw_frames (\<lambda>e s. s) [(OP_CLOSE, []), (OP_PING, [1])] (sw_new 4)) =
     [SentClose 1005 [], HandleClosed 4, Emitted (EvClose 1005 []), Sent OP_PONG [1], Emitted (EvPing [1])]"
  by (simp add: sw_new_def sw_frame_def opcode_defs sw_emit_def slog_add_def parseCloseJS_def sw_doClose_def Let_def)

text \<open>With a reader that ends at a zero byte, an empty text frame (its length byte is zero) takes the start of
  the next frame for its length, and neither message comes.\<close>

lemma zero_byte_lost:
  "ws_log (fold (on_data ws_observer) (map c_string [frame_text (OP_TEXT, []), frame_text (OP_TEXT, [104])]) ws_example) = []"
  by (simp add: ws_example_def on_data_def process_frames.simps decodeFrameJS_def frame_text_def frame_head_def
      opcode_defs and_masks high_bit read_loop_def await_data_def Let_def)

text \<open>The first fragment of a message is delivered as the message, the second (opcode 0) is dropped.\<close>

lemma fragments_not_joined:
  "ws_log (on_data ws_observer [1, 1, 104, 0x80, 1, 105] ws_example) = [Emitted (EvMessage [104] False)]"
  by (simp add: ws_example_def on_data_def process_frames.simps decodeFrameJS_def
      opcode_defs and_masks slice_def high_bit handle_frame_def ws_emit_def log_add_def read_loop_def await_data_def)

text \<open>\<open>close()\<close> before the connection is there does not keep the socket from opening.\<close>

lemma closed_while_connecting:
  "ws_state (on_handshake (\<lambda>k. []) ws_observer (js ''101'' @ [13, 10, 13, 10])
     (ws_close None None (ws_example\<lparr>ws_state := CONNECTING\<rparr>))) = OPEN"
  by code_simp

text \<open>The number of the status may stand anywhere in the first line.\<close>

lemma status_anywhere:
  "ws_state (on_handshake (\<lambda>k. []) ws_observer (js ''HTTP/1.1 400 x101'' @ [13, 10, 13, 10])
     (ws_example\<lparr>ws_state := CONNECTING\<rparr>)) = OPEN"
  by code_simp

text \<open>After \<open>close()\<close> the end of the connection is not reported and the handle stays open.\<close>

lemma silent_end: "ws_state w = CLOSING \<Longrightarrow> on_data h [] w = w\<lparr>ws_phase := Idle\<rparr>"
  by (simp add: on_data_def end_of_input_def)

end
