(* ===== verification/Readable.thy ===== *)
theory Readable
  imports Prelude
begin

text \<open>
  \<open>stream.js\<close>, the reading side: \<open>ReadableState\<close>, the functions on it and the methods of \<open>Readable\<close>. Chunks are
  strings, byte arrays or other values. What the code puts on \<open>nextTick\<close> is a list of tasks in the state; the
  event loop takes the first. The hooks of a stream are a record: what the n-th call of \<open>_read\<close> pushes before it
  returns, when a \<open>data\<close> listener calls \<open>pause\<close> (as \<open>pipe\<close> does when its destination is full), and
  whether somebody listens for errors. Pushes from elsewhere are steps of their own. \<open>autoDestroy\<close> is read from
  the state but never set there, so it is false. \<open>r_length\<close> is a natural number: the code could take it below
  zero only when the encoding changes while chunks are buffered. Own \<open>_destroy\<close> hooks and abort signals are not modelled.
\<close>

section \<open>Chunks\<close>

datatype stream_chunk = CStr jsstr | CBytes "nat list" | CObj nat

fun utf8_count :: "jsstr \<Rightarrow> nat" where
  "utf8_count [] = 0"
| "utf8_count [c] =
     (if c \<le> 0x7f then 1 else if c \<le> 0x7ff then 2 else if 0xd800 \<le> c \<and> c \<le> 0xdbff then 4 else 3)"
| "utf8_count (c # d # cs) =
     (if c \<le> 0x7f then 1 + utf8_count (d # cs) else if c \<le> 0x7ff then 2 + utf8_count (d # cs)
      else if 0xd800 \<le> c \<and> c \<le> 0xdbff then 4 + utf8_count cs else 3 + utf8_count (d # cs))"

definition ENC_UTF8 :: jsstr where "ENC_UTF8 = js ''utf8''"

fun chunkByteLength :: "stream_chunk \<Rightarrow> jsstr option \<Rightarrow> nat" where
  "chunkByteLength (CStr s) enc = (if enc = None \<or> enc = Some ENC_UTF8 then utf8_count s else length s)"
| "chunkByteLength (CBytes b) enc = length b"
| "chunkByteLength (CObj n) enc = 1"

definition stream_normalizeEncoding :: "jsstr option \<Rightarrow> jsstr option" where
  "stream_normalizeEncoding enc =
     (case enc of None \<Rightarrow> None
      | Some e0 \<Rightarrow>
          if e0 = [] then None
          else
            (let e = to_lower e0
             in if e \<in> {js ''utf8'', js ''utf-8''} then Some ENC_UTF8
                else if e \<in> {js ''ascii'', js ''latin1'', js ''binary'', js ''base64'', js ''hex'', js ''utf16le''} then Some e
                else Some ENC_UTF8))"

definition getDefaultHighWaterMark :: "bool \<Rightarrow> nat" where
  "getDefaultHighWaterMark objectMode = (if objectMode then 16 else 16384)"

section \<open>State\<close>

datatype revent = EvData stream_chunk | EvEnd | EvReadable | EvError nat | EvClose | Pushed stream_chunk

datatype rtask = TReadMore | TResume | TReadable | TEnd | TError nat | TClose

record rstate =
  r_object :: bool
  r_hwm :: nat
  r_buffer :: "stream_chunk list"
  r_length :: nat
  r_ended :: bool
  r_endEmitted :: bool
  r_reading :: bool
  r_needReadable :: bool
  r_emittedReadable :: bool
  r_readableListening :: bool
  r_paused :: bool
  r_flowing :: "bool option"
  r_destroyed :: bool
  r_closed :: bool
  r_errored :: "nat option"
  r_encoding :: "jsstr option"
  r_readMore :: bool        \<comment> \<open>\<open>readMoreScheduled\<close>\<close>
  r_readable :: bool        \<comment> \<open>the property \<open>readable\<close> of the stream\<close>
  r_reads :: nat            \<comment> \<open>how often \<open>_read\<close> was called\<close>
  r_tasks :: "rtask list"
  r_log :: "revent list"

record rhooks =
  hk_read :: "nat \<Rightarrow> stream_chunk option list"     \<comment> \<open>\<open>None\<close> is \<open>push(null)\<close>\<close>
  hk_pauses :: "stream_chunk \<Rightarrow> revent list \<Rightarrow> bool"
  hk_errors :: bool

definition r_new :: "bool \<Rightarrow> nat option \<Rightarrow> rstate" where
  "r_new objectMode hwm =
     \<lparr>r_object = objectMode, r_hwm = (case hwm of None \<Rightarrow> getDefaultHighWaterMark objectMode | Some n \<Rightarrow> n),
      r_buffer = [], r_length = 0, r_ended = False, r_endEmitted = False, r_reading = False, r_needReadable = False,
      r_emittedReadable = False, r_readableListening = False, r_paused = True, r_flowing = None, r_destroyed = False,
      r_closed = False, r_errored = None, r_encoding = None, r_readMore = False, r_readable = True, r_reads = 0,
      r_tasks = [], r_log = []\<rparr>"

definition r_emit :: "revent \<Rightarrow> rstate \<Rightarrow> rstate" where
  "r_emit e s = s\<lparr>r_log := r_log s @ [e]\<rparr>"

definition r_task :: "rtask \<Rightarrow> rstate \<Rightarrow> rstate" where
  "r_task t s = s\<lparr>r_tasks := r_tasks s @ [t]\<rparr>"

definition chunk_size :: "rstate \<Rightarrow> stream_chunk \<Rightarrow> nat" where
  "chunk_size s c = (if r_object s then 1 else chunkByteLength c (r_encoding s))"

definition computeNewLength :: "rstate \<Rightarrow> stream_chunk \<Rightarrow> nat" where
  "computeNewLength s c = (if r_object s then r_length s + 1 else r_length s + chunkByteLength c (r_encoding s))"

section \<open>Flow and end\<close>

definition r_pause :: "rstate \<Rightarrow> rstate" where
  "r_pause s = s\<lparr>r_flowing := Some False, r_paused := True\<rparr>"

definition emit_data :: "rhooks \<Rightarrow> stream_chunk \<Rightarrow> rstate \<Rightarrow> rstate" where
  "emit_data k c s =
     (let s1 = r_emit (EvData c) s in if hk_pauses k c (r_log s1) then r_pause s1 else s1)"

fun flow_loop :: "rhooks \<Rightarrow> stream_chunk list \<Rightarrow> rstate \<Rightarrow> rstate" where
  "flow_loop k [] s = s"
| "flow_loop k (c # cs) s =
     (if r_flowing s = Some True
      then flow_loop k cs (emit_data k c (s\<lparr>r_buffer := cs, r_length := r_length s - chunk_size s c\<rparr>))
      else s)"

definition flow :: "rhooks \<Rightarrow> rstate \<Rightarrow> rstate" where
  "flow k s0 =
     (let s = flow_loop k (r_buffer s0) s0
      in if r_buffer s = [] \<and> r_ended s \<and> \<not> r_endEmitted s then r_task TEnd (s\<lparr>r_endEmitted := True\<rparr>) else s)"

definition emitReadable :: "rstate \<Rightarrow> rstate" where
  "emitReadable s =
     (if \<not> r_needReadable s \<and> \<not> r_emittedReadable s then s
      else if \<not> r_emittedReadable s then r_task TReadable (s\<lparr>r_needReadable := False, r_emittedReadable := True\<rparr>)
      else s\<lparr>r_needReadable := False\<rparr>)"

definition onEofChunk :: "rhooks \<Rightarrow> rstate \<Rightarrow> rstate" where
  "onEofChunk k s0 =
     (if r_ended s0 then s0
      else
        (let s = s0\<lparr>r_ended := True, r_readable := False\<rparr>
         in if r_flowing s = Some True then flow k s
            else if r_length s = 0 then emitReadable s
            else s\<lparr>r_needReadable := True\<rparr>))"

definition endReadable :: "rstate \<Rightarrow> rstate" where
  "endReadable s0 =
     (let s = s0\<lparr>r_ended := True, r_readable := False\<rparr>
      in if r_length s = 0 then r_emit EvEnd (s\<lparr>r_endEmitted := True\<rparr>) else emitReadable s)"

section \<open>Pushing\<close>

definition needMoreData :: "rstate \<Rightarrow> bool" where
  "needMoreData s \<longleftrightarrow> \<not> r_ended s \<and> (r_length s < r_hwm s \<or> r_length s = 0)"

text \<open>
  With an encoding the decoder gives strings back as they are (\<open>string_decoder.js\<close>), so only the empty string is
  special there. The second call of \<open>onEofChunk\<close> in the code does nothing, as the stream has ended.
\<close>

definition add_to_buffer :: "stream_chunk \<Rightarrow> bool \<Rightarrow> rstate \<Rightarrow> rstate" where
  "add_to_buffer c front s =
     r_emit (Pushed c)
       (s\<lparr>r_buffer := (if front then c # r_buffer s else r_buffer s @ [c]), r_length := computeNewLength s c\<rparr>)"

definition flow_more :: "rhooks \<Rightarrow> rstate \<Rightarrow> rstate" where
  "flow_more k s =
     (if r_flowing s = Some True then
        (let s1 = flow k s
         in if \<not> r_ended s1 \<and> \<not> r_readMore s1 \<and> r_length s1 < r_hwm s1
            then r_task TReadMore (s1\<lparr>r_readMore := True\<rparr>) else s1)
      else s)"

definition readableAddChunk :: "rhooks \<Rightarrow> stream_chunk option \<Rightarrow> bool \<Rightarrow> rstate \<Rightarrow> bool \<times> rstate" where
  "readableAddChunk k chunk front s =
     (if r_destroyed s then (False, s)
      else case chunk of
        None \<Rightarrow> (False, onEofChunk k s)
      | Some c \<Rightarrow>
          if r_encoding s \<noteq> None \<and> c = CStr [] then (True, s)
          else (let s1 = flow_more k (add_to_buffer c front s) in (needMoreData s1, s1)))"

definition r_push :: "rhooks \<Rightarrow> stream_chunk option \<Rightarrow> rstate \<Rightarrow> bool \<times> rstate" where
  "r_push k c s = readableAddChunk k c False s"

definition r_unshift :: "rhooks \<Rightarrow> stream_chunk option \<Rightarrow> rstate \<Rightarrow> bool \<times> rstate" where
  "r_unshift k c s = readableAddChunk k c True s"

section \<open>Reading\<close>

text \<open>
  \<open>concatBuffer\<close>; \<open>out\<close> starts as the empty string. \<open>text\<close> is the string a value other than a string becomes
  when a string is added to it.
\<close>

fun add_text :: "(stream_chunk \<Rightarrow> jsstr) \<Rightarrow> stream_chunk \<Rightarrow> jsstr \<Rightarrow> stream_chunk" where
  "add_text text (CStr s) t = CStr (s @ t)"
| "add_text text c t = CStr (text c @ t)"

fun concat_loop :: "(stream_chunk \<Rightarrow> jsstr) \<Rightarrow> jsstr option \<Rightarrow> nat \<Rightarrow> stream_chunk \<Rightarrow> nat \<Rightarrow> stream_chunk list \<Rightarrow> nat \<Rightarrow> stream_chunk \<times> stream_chunk list \<times> nat" where
  "concat_loop text enc n out got [] len = (out, [], len)"
| "concat_loop text enc n out got (c # cs) len =
     (if got < n then
        (let m = chunkByteLength c enc
         in case c of
              CStr s \<Rightarrow>
                if n < got + m then (add_text text out (take (n - got) s), CStr (drop (n - got) s) # cs, len - (n - got))
                else concat_loop text enc n (add_text text out s) (got + m) cs (len - m)
            | _ \<Rightarrow> concat_loop text enc n c (got + m) cs (len - m))
      else (out, c # cs, len))"

definition concatBuffer :: "(stream_chunk \<Rightarrow> jsstr) \<Rightarrow> nat \<Rightarrow> rstate \<Rightarrow> stream_chunk option \<times> rstate" where
  "concatBuffer text n s =
     (if r_object s then (Some (hd (r_buffer s)), s\<lparr>r_buffer := tl (r_buffer s)\<rparr>)
      else
        (let (out, buf, len) = concat_loop text (r_encoding s) n (CStr []) 0 (r_buffer s) (r_length s)
         in (if out = CStr [] then None else Some out, s\<lparr>r_buffer := buf, r_length := len\<rparr>)))"

text \<open>\<open>read\<close>; no \<open>n\<close> stands for \<open>NaN\<close>. The call of \<open>maybeReadMore\<close> does nothing since \<open>reading\<close> is set.\<close>

fun push_all :: "rhooks \<Rightarrow> stream_chunk option list \<Rightarrow> rstate \<Rightarrow> rstate" where
  "push_all k [] s = s"
| "push_all k (c # cs) s = push_all k cs (snd (r_push k c s))"

definition call_read :: "rhooks \<Rightarrow> rstate \<Rightarrow> rstate" where
  "call_read k s = push_all k (hk_read k (r_reads s)) (s\<lparr>r_reads := r_reads s + 1\<rparr>)"

definition take_chunk :: "(stream_chunk \<Rightarrow> jsstr) \<Rightarrow> nat option \<Rightarrow> rstate \<Rightarrow> stream_chunk option \<times> rstate" where
  "take_chunk text n s =
     (case r_buffer s of
        [] \<Rightarrow> (None, s)
      | c # cs \<Rightarrow>
          (if n = None \<or> n = Some 0 then (Some c, s\<lparr>r_buffer := cs, r_length := r_length s - chunk_size s c\<rparr>)
           else concatBuffer text (the n) s))"

definition r_read :: "(stream_chunk \<Rightarrow> jsstr) \<Rightarrow> rhooks \<Rightarrow> nat option \<Rightarrow> rstate \<Rightarrow> stream_chunk option \<times> rstate" where
  "r_read text k n s0 =
     (if r_destroyed s0 then (None, s0)
      else
        (let (ret, s1) = take_chunk text n (s0\<lparr>r_reading := True\<rparr>);
             s2 = (if \<not> r_ended s1 then call_read k s1 else s1);
             s3 = s2\<lparr>r_reading := False\<rparr>
         in (ret, if r_flowing s3 = Some True then flow k s3 else s3)))"

definition read0 :: "rhooks \<Rightarrow> rstate \<Rightarrow> rstate" where
  "read0 k s = snd (r_read (\<lambda>c. []) k (Some 0) s)"

section \<open>Listeners, pausing, destruction\<close>

definition r_on_data :: "rhooks \<Rightarrow> rstate \<Rightarrow> rstate" where
  "r_on_data k s = flow k (read0 k (s\<lparr>r_flowing := Some True, r_paused := False\<rparr>))"

definition r_on_readable :: "rstate \<Rightarrow> rstate" where
  "r_on_readable s = emitReadable (s\<lparr>r_readableListening := True\<rparr>)"

definition r_resume :: "rhooks \<Rightarrow> rstate \<Rightarrow> rstate" where
  "r_resume k s =
     (if r_flowing s = Some True then s
      else r_task TResume (flow k (s\<lparr>r_flowing := Some True, r_paused := False\<rparr>)))"

definition isPaused :: "rstate \<Rightarrow> bool" where
  "isPaused s \<longleftrightarrow> r_paused s \<or> r_flowing s = Some False"

definition r_setEncoding :: "jsstr option \<Rightarrow> rstate \<Rightarrow> rstate" where
  "r_setEncoding enc s = s\<lparr>r_encoding := stream_normalizeEncoding enc\<rparr>"

definition r_destroy :: "nat option \<Rightarrow> rstate \<Rightarrow> rstate" where
  "r_destroy err s =
     (if r_destroyed s then s
      else
        (let s1 = s\<lparr>r_destroyed := True, r_closed := False, r_readable := False\<rparr>
         in r_task TClose (case err of None \<Rightarrow> s1 | Some e \<Rightarrow> r_task (TError e) (s1\<lparr>r_errored := Some e\<rparr>))))"

section \<open>Tasks\<close>

definition maybeReadMore :: "rhooks \<Rightarrow> rstate \<Rightarrow> rstate" where
  "maybeReadMore k s = (if \<not> r_reading s \<and> \<not> r_ended s \<and> r_length s < r_hwm s then read0 k s else s)"

fun do_task :: "rhooks \<Rightarrow> rtask \<Rightarrow> rstate \<Rightarrow> rstate" where
  "do_task k TReadMore s =
     (let s1 = s\<lparr>r_readMore := False\<rparr>
      in if r_flowing s1 = Some True \<and> \<not> r_ended s1 \<and> \<not> r_destroyed s1 \<and> \<not> r_reading s1 then read0 k s1 else s1)"
| "do_task k TResume s =
     (if r_flowing s = Some True \<and> \<not> r_reading s \<and> \<not> r_ended s \<and> \<not> r_destroyed s then read0 k s else s)"
| "do_task k TReadable s =
     (if \<not> r_emittedReadable s then s
      else maybeReadMore k (r_emit EvReadable (s\<lparr>r_emittedReadable := False\<rparr>)))"
| "do_task k TEnd s = (if r_destroyed s then s else r_emit EvEnd s)"
| "do_task k (TError e) s = (if hk_errors k then r_emit (EvError e) s else s)"
| "do_task k TClose s = r_emit EvClose (s\<lparr>r_closed := True\<rparr>)"

definition run_task :: "rhooks \<Rightarrow> rstate \<Rightarrow> rstate" where
  "run_task k s = (case r_tasks s of [] \<Rightarrow> s | t # ts \<Rightarrow> do_task k t (s\<lparr>r_tasks := ts\<rparr>))"

section \<open>What listeners see\<close>

text \<open>The chunks delivered, the chunks pushed, and that nothing is delivered after the end.\<close>

definition data_of :: "revent list \<Rightarrow> stream_chunk list" where
  "data_of lg = concat (map (\<lambda>e. case e of EvData c \<Rightarrow> [c] | _ \<Rightarrow> []) lg)"

definition pushed_of :: "revent list \<Rightarrow> stream_chunk list" where
  "pushed_of lg = concat (map (\<lambda>e. case e of Pushed c \<Rightarrow> [c] | _ \<Rightarrow> []) lg)"

definition quiet_after_end :: "revent list \<Rightarrow> bool" where
  "quiet_after_end lg \<longleftrightarrow> data_of (dropWhile (\<lambda>e. e \<noteq> EvEnd) lg) = []"

lemma data_of_simps [simp]:
  "data_of [] = []" "data_of (lg @ lg') = data_of lg @ data_of lg'"
  "data_of (e # lg) = (case e of EvData c \<Rightarrow> c # data_of lg | _ \<Rightarrow> data_of lg)"
  by (simp_all add: data_of_def split: revent.split)

lemma pushed_of_simps [simp]:
  "pushed_of [] = []" "pushed_of (lg @ lg') = pushed_of lg @ pushed_of lg'"
  "pushed_of (e # lg) = (case e of Pushed c \<Rightarrow> c # pushed_of lg | _ \<Rightarrow> pushed_of lg)"
  by (simp_all add: pushed_of_def split: revent.split)

lemma quiet_snoc:
  "quiet_after_end (lg @ [e]) \<longleftrightarrow> quiet_after_end lg \<and> (EvEnd \<in> set lg \<longrightarrow> (\<forall>c. e \<noteq> EvData c))"
  by (auto simp: quiet_after_end_def dropWhile_append dropWhile_eq_Nil_conv [THEN iffD2] split: revent.split)

text \<open>The invariant of a stream, and that a flowing stream has nothing buffered.\<close>

definition r_inv :: "rstate \<Rightarrow> bool" where
  "r_inv s \<longleftrightarrow>
     data_of (r_log s) @ r_buffer s = pushed_of (r_log s) \<and> quiet_after_end (r_log s) \<and>
     length (filter (\<lambda>e. e = EvEnd) (r_log s)) + length (filter (\<lambda>t. t = TEnd) (r_tasks s)) \<le> (if r_endEmitted s then 1 else 0) \<and>
     (r_endEmitted s \<longrightarrow> r_ended s \<and> r_buffer s = []) \<and>
     (r_needReadable s \<or> r_emittedReadable s \<longrightarrow> r_ended s)"

definition drained :: "rstate \<Rightarrow> bool" where
  "drained s \<longleftrightarrow> (r_flowing s = Some True \<longrightarrow> r_buffer s = [])"

lemma r_inv_fields [simp]:
  "r_inv (s\<lparr>r_flowing := f\<rparr>) = r_inv s" "r_inv (s\<lparr>r_paused := b\<rparr>) = r_inv s" "r_inv (s\<lparr>r_length := n\<rparr>) = r_inv s"
  "r_inv (s\<lparr>r_readMore := b\<rparr>) = r_inv s" "r_inv (s\<lparr>r_reading := b\<rparr>) = r_inv s" "r_inv (s\<lparr>r_reads := n\<rparr>) = r_inv s"
  "r_inv (s\<lparr>r_closed := b\<rparr>) = r_inv s" "r_inv (s\<lparr>r_destroyed := b\<rparr>) = r_inv s" "r_inv (s\<lparr>r_readable := b\<rparr>) = r_inv s"
  "r_inv (s\<lparr>r_errored := x\<rparr>) = r_inv s" "r_inv (s\<lparr>r_readableListening := b\<rparr>) = r_inv s"
  by (simp_all add: r_inv_def)

lemma r_inv_task [simp]: "t \<noteq> TEnd \<Longrightarrow> r_inv (r_task t s) = r_inv s"
  by (simp add: r_inv_def r_task_def)

lemma r_inv_emit: "r_inv (r_emit EvReadable s) = r_inv s" "r_inv (r_emit EvClose s) = r_inv s" "r_inv (r_emit (EvError e) s) = r_inv s"
  by (simp_all add: r_inv_def r_emit_def quiet_snoc)

lemma r_inv_ended:
  "r_ended s \<Longrightarrow> r_inv (s\<lparr>r_needReadable := b\<rparr>) = r_inv s" "r_ended s \<Longrightarrow> r_inv (s\<lparr>r_emittedReadable := b\<rparr>) = r_inv s"
  by (simp_all add: r_inv_def)

lemma r_task_fields [simp]:
  "r_buffer (r_task t s) = r_buffer s" "r_flowing (r_task t s) = r_flowing s" "r_ended (r_task t s) = r_ended s"
  by (simp_all add: r_task_def)

lemma r_emit_fields [simp]:
  "r_buffer (r_emit e s) = r_buffer s" "r_flowing (r_emit e s) = r_flowing s" "r_ended (r_emit e s) = r_ended s"
  by (simp_all add: r_emit_def)

lemma emit_data_inv:
  assumes "r_inv s" "r_buffer s = c # cs"
  shows "r_inv (emit_data k c (s\<lparr>r_buffer := cs, r_length := n\<rparr>))"
    "r_buffer (emit_data k c (s\<lparr>r_buffer := cs, r_length := n\<rparr>)) = cs"
  using assms
  by (auto simp: emit_data_def Let_def r_pause_def r_emit_def r_inv_def quiet_snoc filter_empty_conv)

lemma emit_data_ended [simp]: "r_ended (emit_data k c s) = r_ended s" "r_endEmitted (emit_data k c s) = r_endEmitted s"
  by (simp_all add: emit_data_def Let_def r_pause_def r_emit_def)

lemma flow_loop_inv:
  "r_inv s \<Longrightarrow> r_buffer s = cs \<Longrightarrow>
   r_inv (flow_loop k cs s) \<and> drained (flow_loop k cs s) \<and> r_ended (flow_loop k cs s) = r_ended s"
proof (induction cs arbitrary: s)
  case (Cons c cs)
  then show ?case using emit_data_inv [OF Cons.prems] by (simp add: drained_def)
qed (simp add: drained_def)

lemma end_task_inv:
  "r_inv s \<Longrightarrow> r_buffer s = [] \<Longrightarrow> r_ended s \<Longrightarrow> \<not> r_endEmitted s \<Longrightarrow> r_inv (r_task TEnd (s\<lparr>r_endEmitted := True\<rparr>))"
  by (simp add: r_inv_def r_task_def)

lemma flow_inv:
  assumes "r_inv s" shows "r_inv (flow k s)" "drained (flow k s)" "r_ended (flow k s) = r_ended s"
proof -
  define s1 where "s1 = flow_loop k (r_buffer s) s"
  have s1: "r_inv s1" "drained s1" "r_ended s1 = r_ended s"
    using flow_loop_inv [OF assms refl, of k] by (simp_all add: s1_def)
  then show "r_inv (flow k s)" "drained (flow k s)" "r_ended (flow k s) = r_ended s"
    using end_task_inv [of s1] by (simp_all add: flow_def Let_def drained_def flip: s1_def)
qed

lemma emitReadable_inv:
  assumes "r_inv s" shows "r_inv (emitReadable s)"
proof (cases "r_needReadable s \<or> r_emittedReadable s")
  case True
  then have "r_ended s" using assms unfolding r_inv_def by blast
  then show ?thesis using assms by (simp add: emitReadable_def r_inv_ended)
qed (simp add: emitReadable_def assms)

lemma emitReadable_drained: "drained (emitReadable s) = drained s"
  by (simp add: emitReadable_def drained_def)

lemma eof_inv:
  assumes "r_inv s" "drained s" shows "r_inv (onEofChunk k s) \<and> drained (onEofChunk k s)"
proof -
  have e: "r_inv (s\<lparr>r_ended := True, r_readable := False\<rparr>)" using assms by (simp add: r_inv_def)
  then have "r_inv (s\<lparr>r_ended := True, r_readable := False, r_needReadable := True\<rparr>)" by (simp add: r_inv_def)
  with e show ?thesis
    using assms flow_inv [OF e, of k] emitReadable_inv [OF e] emitReadable_drained
    by (simp add: onEofChunk_def Let_def drained_def)
qed

lemma push_chunk_inv:
  assumes "r_inv s" "drained s" "\<not> r_ended s"
  shows "r_inv (snd (r_push k (Some c) s)) \<and> drained (snd (r_push k (Some c) s)) \<and> \<not> r_ended (snd (r_push k (Some c) s))"
proof -
  define s1 where "s1 = add_to_buffer c False s"
  have "\<not> r_endEmitted s" using assms(1,3) unfolding r_inv_def by blast
  then have s1: "r_inv s1" "\<not> r_ended s1"
    using assms by (simp_all add: s1_def add_to_buffer_def r_inv_def r_emit_def quiet_snoc)
  have "r_inv (flow_more k s1) \<and> drained (flow_more k s1) \<and> \<not> r_ended (flow_more k s1)"
    using flow_inv [OF s1(1), of k] s1 by (auto simp: flow_more_def Let_def drained_def)
  then show ?thesis
    using assms by (auto simp: r_push_def readableAddChunk_def Let_def s1_def)
qed

lemma push_all_inv:
  "None \<notin> set (butlast cs) \<Longrightarrow> r_inv s \<Longrightarrow> drained s \<Longrightarrow> \<not> r_ended s \<Longrightarrow>
   r_inv (push_all k cs s) \<and> drained (push_all k cs s)"
proof (induction cs arbitrary: s)
  case (Cons c cs)
  show ?case
  proof (cases c)
    case None
    then have "cs = []" using Cons.prems(1) by (cases cs) auto
    then show ?thesis
      using None Cons.prems eof_inv [of s k] by (simp add: r_push_def readableAddChunk_def)
  next
    case (Some d)
    then show ?thesis
      using Cons push_chunk_inv [of s k d] by (auto split: if_splits)
  qed
qed simp

text \<open>A source that pushes nothing behind its end.\<close>

definition source_ok :: "rhooks \<Rightarrow> bool" where
  "source_ok k \<longleftrightarrow> (\<forall>i. None \<notin> set (butlast (hk_read k i)))"

lemma read0_inv:
  assumes "source_ok k" "r_inv s" "drained s" "r_flowing s = Some True"
  shows "r_inv (read0 k s) \<and> drained (read0 k s)"
proof -
  define s1 where "s1 = s\<lparr>r_reading := True\<rparr>"
  have s1: "r_inv s1" "drained s1" "r_buffer s1 = []" using assms by (simp_all add: s1_def drained_def)
  define s2 where "s2 = (if \<not> r_ended s1 then call_read k s1 else s1)"
  have "None \<notin> set (butlast (hk_read k n))" for n using assms(1) by (simp add: source_ok_def)
  then have s2: "r_inv s2 \<and> drained s2"
    using s1 push_all_inv by (auto simp: s2_def call_read_def drained_def)
  have "read0 k s = (if r_destroyed s then s
      else if r_flowing s2 = Some True then flow k (s2\<lparr>r_reading := False\<rparr>) else s2\<lparr>r_reading := False\<rparr>)"
    using s1(3) by (simp add: read0_def r_read_def take_chunk_def s2_def s1_def Let_def)
  with s2 show ?thesis
    using assms(2,3) flow_inv [of "s2\<lparr>r_reading := False\<rparr>" k] by (auto simp: drained_def)
qed

section \<open>A flowing stream\<close>

text \<open>
  The steps of a stream whose data a listener reads: pushes from elsewhere, the end, pausing, resuming, destroying,
  more listeners while nothing is buffered, and the tasks of the event loop. Chunks are not pushed after the end.
\<close>

inductive r_step :: "rhooks \<Rightarrow> rstate \<Rightarrow> rstate \<Rightarrow> bool" for k where
  step_push: "\<not> r_ended s \<Longrightarrow> r_step k s (snd (r_push k (Some c) s))"
| step_eof: "r_step k s (snd (r_push k None s))"
| step_pause: "r_step k s (r_pause s)"
| step_resume: "r_step k s (r_resume k s)"
| step_data: "r_buffer s = [] \<Longrightarrow> r_step k s (r_on_data k s)"
| step_readable: "r_step k s (r_on_readable s)"
| step_destroy: "r_step k s (r_destroy err s)"
| step_task: "r_step k s (run_task k s)"

lemma resume_inv: "r_inv s \<Longrightarrow> drained s \<Longrightarrow> r_inv (r_resume k s) \<and> drained (r_resume k s)"
  using flow_inv [of "s\<lparr>r_flowing := Some True, r_paused := False\<rparr>" k]
  by (simp add: r_resume_def drained_def)

lemma on_data_inv:
  assumes "source_ok k" "r_inv s" "r_buffer s = []"
  shows "r_inv (r_on_data k s) \<and> drained (r_on_data k s)"
proof -
  have "r_inv (read0 k (s\<lparr>r_flowing := Some True, r_paused := False\<rparr>))"
    using read0_inv [OF assms(1), of "s\<lparr>r_flowing := Some True, r_paused := False\<rparr>"] assms(2,3) by (simp add: drained_def)
  then show ?thesis by (simp add: r_on_data_def flow_inv)
qed

lemma destroy_inv: "r_inv s \<Longrightarrow> drained s \<Longrightarrow> r_inv (r_destroy err s) \<and> drained (r_destroy err s)"
  by (simp add: r_destroy_def Let_def drained_def split: option.split)

lemma emit_end_inv: "r_inv s \<Longrightarrow> r_tasks s = TEnd # ts \<Longrightarrow> r_inv (r_emit EvEnd (s\<lparr>r_tasks := ts\<rparr>))"
  by (auto simp: r_inv_def r_emit_def quiet_snoc)

lemma drop_task_inv: "r_inv s \<Longrightarrow> r_tasks s = t # ts \<Longrightarrow> r_inv (s\<lparr>r_tasks := ts\<rparr>)"
  by (auto simp: r_inv_def split: if_splits)

lemma task_inv:
  assumes "source_ok k" "r_inv s" "drained s" shows "r_inv (run_task k s) \<and> drained (run_task k s)"
proof (cases "r_tasks s")
  case (Cons t ts)
  define s1 where "s1 = s\<lparr>r_tasks := ts\<rparr>"
  have s1: "r_inv s1" "drained s1" using drop_task_inv [OF assms(2) Cons] assms(3) by (simp_all add: s1_def drained_def)
  have "r_inv (do_task k t s1) \<and> drained (do_task k t s1)"
  proof (cases t)
    case TReadMore
    then show ?thesis
      using s1 read0_inv [OF assms(1), of "s1\<lparr>r_readMore := False\<rparr>"] by (simp add: Let_def drained_def)
  next
    case TReadable
    define s2 where "s2 = r_emit EvReadable (s1\<lparr>r_emittedReadable := False\<rparr>)"
    have "r_inv (s1\<lparr>r_emittedReadable := False\<rparr>)" using s1(1) by (simp add: r_inv_def)
    then have "r_inv s2" "drained s2" using s1(2) by (simp_all add: s2_def r_inv_emit drained_def)
    moreover have "r_emittedReadable s1 \<Longrightarrow> maybeReadMore k s2 = s2"
      using s1(1) by (simp add: maybeReadMore_def s2_def r_inv_def)
    ultimately show ?thesis using TReadable s1 by (simp flip: s2_def)
  next
    case TEnd
    then show ?thesis using s1 emit_end_inv assms(2) Cons by (simp add: s1_def drained_def)
  qed (use s1 read0_inv [OF assms(1)] in \<open>simp_all add: r_inv_emit drained_def\<close>)
  then show ?thesis using Cons by (simp add: run_task_def s1_def)
qed (simp add: run_task_def assms)

lemma step_inv:
  assumes "source_ok k" "r_step k s s'" "r_inv s" "drained s"
  shows "r_inv s' \<and> drained s'"
  using assms(2)
proof cases
  case step_push
  then show ?thesis using push_chunk_inv assms(3,4) by simp
next
  case step_eof
  then show ?thesis using eof_inv assms(3,4) by (simp add: r_push_def readableAddChunk_def)
next
  case step_pause
  then show ?thesis using assms(3) by (simp add: r_pause_def drained_def)
next
  case step_readable
  then show ?thesis
    using assms(3,4) emitReadable_inv [of "s\<lparr>r_readableListening := True\<rparr>"]
    by (simp add: r_on_readable_def emitReadable_drained) (simp add: drained_def)
qed (use resume_inv on_data_inv destroy_inv task_inv assms(1,3,4) in simp_all)

lemma new_inv: "r_inv (r_new obj hwm)" "r_buffer (r_new obj hwm) = []"
  by (simp_all add: r_new_def r_inv_def quiet_after_end_def)

lemma steps_inv:
  assumes "source_ok k" "(r_step k)\<^sup>*\<^sup>* (r_new obj hwm) s"
  shows "r_inv s \<and> drained s"
  using assms(2)
proof (induction rule: rtranclp_induct)
  case base
  show ?case by (simp add: new_inv drained_def)
qed (use step_inv [OF assms(1)] in blast)

text \<open>C11: For a source whose \<open>_read\<close> pushes nothing after its \<open>null\<close>, and for every sequence of pushes before the
  end, ends, pauses, resumptions, \<open>data\<close> listeners added while nothing is buffered, \<open>readable\<close> listeners,
  destructions and turns of the event loop, with listeners that may pause the stream and do nothing else to it, and
  without \<open>read\<close>, \<open>unshift\<close> and \<open>setEncoding\<close>: the listeners of a stream get the pushed chunks in order, none lost and
  none twice: what was delivered and what is buffered is what was pushed. The end is told at most once, with everything
  delivered and nothing after it. Excluded because the code fails there are a \<open>data\<close> listener added while chunks are
  buffered, which loses the first of them (\<open>first_chunk_lost\<close>), and a push after the end (\<open>push_after_end\<close>).\<close>

theorem delivered_in_order:
  assumes "source_ok k" "(r_step k)\<^sup>*\<^sup>* (r_new obj hwm) s"
  shows "data_of (r_log s) @ r_buffer s = pushed_of (r_log s) \<and>
    (r_flowing s = Some True \<longrightarrow> r_buffer s = []) \<and>
    length (filter (\<lambda>e. e = EvEnd) (r_log s)) \<le> 1 \<and> quiet_after_end (r_log s) \<and>
    (EvEnd \<in> set (r_log s) \<longrightarrow> data_of (r_log s) = pushed_of (r_log s))"
proof -
  have s: "r_inv s" "drained s" using steps_inv [OF assms] by simp_all
  have "r_endEmitted s" if "EvEnd \<in> set (r_log s)"
    using s(1) that by (auto simp: r_inv_def filter_empty_conv split: if_splits)
  then show ?thesis using s by (auto simp: r_inv_def drained_def split: if_splits)
qed

section \<open>Reading a source to its end\<close>

definition source_of :: "stream_chunk list \<Rightarrow> bool \<Rightarrow> rhooks" where
  "source_of cs errors =
     \<lparr>hk_read = (\<lambda>i. if i < length cs then [Some (cs ! i)] else [None]), hk_pauses = (\<lambda>c lg. False), hk_errors = errors\<rparr>"

definition waiting :: "nat \<Rightarrow> rstate \<Rightarrow> bool" where
  "waiting i s \<longleftrightarrow> r_buffer s = [] \<and> r_length s = 0 \<and> r_flowing s = Some True \<and> \<not> r_ended s \<and> \<not> r_endEmitted s \<and>
     \<not> r_destroyed s \<and> \<not> r_reading s \<and> \<not> r_readMore s \<and> r_reads s = i \<and> r_encoding s = None \<and> 0 < r_hwm s \<and> r_tasks s = []"

lemma flow_idle: "r_buffer s = [] \<Longrightarrow> r_ended s \<longrightarrow> r_endEmitted s \<Longrightarrow> flow k s = s"
  by (auto simp: flow_def)

lemmas stream_defs = r_new_def getDefaultHighWaterMark_def r_push_def readableAddChunk_def add_to_buffer_def flow_more_def
  flow_def emit_data_def r_emit_def r_task_def Let_def computeNewLength_def chunk_size_def needMoreData_def read0_def
  r_read_def take_chunk_def call_read_def onEofChunk_def r_on_data_def run_task_def source_of_def

lemma read0_chunk:
  assumes "waiting i s" "i < length cs"
  shows "read0 (source_of cs e) s =
    s\<lparr>r_reads := i + 1, r_log := r_log s @ [Pushed (cs ! i), EvData (cs ! i)], r_readMore := True, r_tasks := [TReadMore]\<rparr>"
  using assms
  by (cases s) (simp add: waiting_def stream_defs)

lemma read0_end:
  assumes "waiting (length cs) s"
  shows "r_tasks (read0 (source_of cs e) s) = [TEnd] \<and> r_buffer (read0 (source_of cs e) s) = [] \<and>
    r_endEmitted (read0 (source_of cs e) s) \<and> r_log (read0 (source_of cs e) s) = r_log s \<and> \<not> r_destroyed (read0 (source_of cs e) s)"
  using assms
  by (cases s) (simp add: waiting_def stream_defs)

lemma run_source:
  assumes "waiting i s" "i \<le> length cs" "data_of (r_log s) = take i cs" "EvEnd \<notin> set (r_log s)"
  shows "let s' = (run_task (source_of cs e) ^^ (length cs - i + 1)) (read0 (source_of cs e) s)
    in data_of (r_log s') = cs \<and> EvEnd \<in> set (r_log s') \<and> r_tasks s' = []"
  using assms
proof (induction "length cs - i" arbitrary: i s)
  case 0
  then show ?case using read0_end [of cs s e] by (simp add: run_task_def r_emit_def)
next
  case (Suc n)
  define s1 where "s1 = s\<lparr>r_reads := i + 1, r_log := r_log s @ [Pushed (cs ! i), EvData (cs ! i)]\<rparr>"
  have i: "i < length cs" "n = length cs - Suc i" using Suc.hyps(2) by linarith+
  have w: "waiting (Suc i) s1" using Suc.prems(1) by (simp add: waiting_def s1_def)
  have "run_task (source_of cs e) (read0 (source_of cs e) s) = read0 (source_of cs e) s1"
    using read0_chunk [OF Suc.prems(1) i(1)] Suc.prems(1)
    by (cases s) (simp add: run_task_def s1_def waiting_def)
  moreover have "length cs - i + 1 = Suc (length cs - Suc i + 1)" using i by linarith
  ultimately show ?case
    using Suc.hyps(1) [OF i(2) w] Suc.prems i
    by (simp add: funpow_Suc_right s1_def take_Suc_conv_app_nth del: funpow.simps)
qed

text \<open>C12: When the high-water mark is above 0, a source that gives its chunks one by one when it is asked, and then its
  end, is read to the end: after the \<open>data\<close> listener is added, one turn of the event loop for each chunk and one more are
  enough for the listener to have all chunks in order and the end, and nothing is left to do. (With a mark of 0 the source
  is not asked again after its first chunk: \<open>zero_mark_stalls\<close>.)\<close>

theorem source_read_to_end:
  assumes "0 < hwm"
  shows "let s = (run_task (source_of cs e) ^^ (length cs + 1)) (r_on_data (source_of cs e) (r_new obj (Some hwm)))
    in data_of (r_log s) = cs \<and> EvEnd \<in> set (r_log s) \<and> r_tasks s = []"
proof -
  define s0 where "s0 = (r_new obj (Some hwm))\<lparr>r_flowing := Some True, r_paused := False\<rparr>"
  have w: "waiting 0 s0" using assms by (simp add: s0_def waiting_def r_new_def)
  have "r_on_data (source_of cs e) (r_new obj (Some hwm)) = read0 (source_of cs e) s0"
  proof (cases cs)
    case Nil
    then show ?thesis using read0_end [of cs s0 e] w by (simp add: r_on_data_def flow_idle flip: s0_def)
  next
    case (Cons c cs')
    then have "read0 (source_of cs e) s0 = s0\<lparr>r_reads := 1, r_log := [Pushed c, EvData c], r_readMore := True, r_tasks := [TReadMore]\<rparr>"
      using read0_chunk [OF w, of cs e] by (simp add: s0_def r_new_def)
    then show ?thesis by (simp add: r_on_data_def s0_def flow_def r_new_def)
  qed
  then show ?thesis using run_source [OF w, of cs e] by (simp add: s0_def r_new_def)
qed

text \<open>Witnesses of the two theorems.\<close>

lemma delivered_in_order_witness:
  "data_of (r_log (r_on_data (source_of [CStr [104]] False) (r_new False None))) = [CStr [104]]"
proof -
  have k: "source_ok (source_of [CStr [104]] False)" by (simp add: source_ok_def source_of_def)
  have "(r_step (source_of [CStr [104]] False))\<^sup>*\<^sup>* (r_new False None) (r_on_data (source_of [CStr [104]] False) (r_new False None))"
    by (rule r_into_rtranclp, rule step_data) (simp add: new_inv)
  note d = delivered_in_order [OF k this]
  moreover have "r_log (r_on_data (source_of [CStr [104]] False) (r_new False None)) = [Pushed (CStr [104]), EvData (CStr [104])]"
    by (simp add: stream_defs)
  ultimately show ?thesis by simp
qed

lemma source_read_to_end_witness:
  "let k = source_of [CStr [104], CBytes [1, 2]] True;
       s = (run_task k ^^ 3) (r_on_data k (r_new True (Some 1)))
   in data_of (r_log s) = [CStr [104], CBytes [1, 2]] \<and> EvEnd \<in> set (r_log s) \<and> r_tasks s = []"
  using source_read_to_end [of 1 "[CStr [104], CBytes [1, 2]]" True True] by (simp add: numeral_3_eq_3)

section \<open>Behaviour that differs from Node\<close>

text \<open>\<open>read(0)\<close> takes a chunk off the buffer, and adding a \<open>data\<close> listener calls it: the first buffered chunk is lost.\<close>

lemma first_chunk_lost:
  "data_of (r_log (r_on_data k (snd (r_push k (Some (CStr [98])) (snd (r_push k (Some (CStr [97])) (r_new False None)))))))
    = [CStr [98]]" if "k = \<lparr>hk_read = (\<lambda>i. []), hk_pauses = (\<lambda>c lg. False), hk_errors = False\<rparr>"
  by (simp add: that stream_defs)

text \<open>With a high-water mark of 0 the source is not asked again after its first chunk.\<close>

lemma zero_mark_stalls:
  "let s = r_on_data (source_of [CStr [97], CStr [98]] False) (r_new False (Some 0)) in data_of (r_log s) = [CStr [97]] \<and> r_tasks s = []"
  by (simp add: stream_defs)

text \<open>A chunk pushed after the end was told is still delivered.\<close>

lemma push_after_end:
  "let k = source_of [] False; s = run_task k (r_on_data k (r_new False None))
   in r_log (snd (r_push k (Some (CStr [97])) s)) = [EvEnd, Pushed (CStr [97]), EvData (CStr [97])]"
  by (simp add: stream_defs)

text \<open>In object mode \<open>read(1)\<close> takes a chunk but leaves the length.\<close>

lemma object_length_drifts:
  "let k = \<lparr>hk_read = (\<lambda>i. []), hk_pauses = (\<lambda>c lg. False), hk_errors = False\<rparr>;
       (c, s) = r_read (\<lambda>c. []) k (Some 1) (snd (r_push k (Some (CObj 5)) (r_new True None)))
   in c = Some (CObj 5) \<and> r_buffer s = [] \<and> r_length s = 1"
  by (simp add: stream_defs concatBuffer_def)

text \<open>With an encoding set, bytes are still delivered as bytes.\<close>

lemma encoding_ignored:
  "let k = source_of [CBytes [0xc3, 0xa9]] False
   in data_of (r_log (r_on_data k (r_setEncoding (Some ENC_UTF8) (r_new False None)))) = [CBytes [0xc3, 0xa9]]"
  by (simp add: stream_defs r_setEncoding_def)

text \<open>Without a \<open>data\<close> listener the \<open>readable\<close> event comes only when the source has ended.\<close>

lemma readable_only_at_end:
  assumes "source_ok k" "(r_step k)\<^sup>*\<^sup>* (r_new obj hwm) s" "TReadable = hd (r_tasks s)" "r_tasks s \<noteq> []"
  shows "run_task k s = s\<lparr>r_tasks := tl (r_tasks s)\<rparr> \<or> r_ended s"
proof -
  have "r_inv s" using steps_inv [OF assms(1,2)] by simp
  then show ?thesis
    using assms(3,4) by (cases "r_tasks s") (auto simp: run_task_def r_inv_def)
qed

end
