(* ===== verification/Writable.thy ===== *)
theory Writable
  imports Readable
begin

text \<open>
  \<open>stream.js\<close>, the writing side: \<open>WritableState\<close>, the functions on it and the methods of \<open>Writable\<close>. What
  \<open>_write\<close> does is a hook: it throws, or it returns, with \<open>false\<close> or not, and has called its callback before that
  (with an error or not) or calls it later, which is a step of its own. Since a callback called at once leads back
  into the stream, \<open>doWrite\<close>, \<open>onwrite\<close> and \<open>clearBuffer\<close> are one function on commands; it may run for ever, so it
  returns an option. Callbacks of the user are numbers and only logged. \<open>_writev\<close> is never called with more than
  one chunk by the code and is part of the hook; \<open>errorEmitted\<close> is never set, so it is left out.
\<close>

section \<open>State\<close>

datatype write_event =
    WAccepted stream_chunk | WHanded stream_chunk | WAnswered | WCalled nat | WDrain | WPrefinish | WFinish | WClose | WError nat

datatype wtask = WTClosed | WTEmitError nat | WTErrorIf nat | WTDestroyed | WTCallback nat | WTAfterEnd

datatype wresponse = Throws nat | Returns "nat option option" bool

record whooks =
  sk_write :: "write_event list \<Rightarrow> stream_chunk \<Rightarrow> wresponse"
  sk_final :: "nat option option option"   \<comment> \<open>no hook; or it answers later; or its answer\<close>
  sk_errors :: bool

record wentry =
  we_chunk :: stream_chunk
  we_encoding :: jsstr
  we_callback :: "nat option"

record wstate =
  w_object :: bool
  w_hwm :: nat
  w_buffer :: "wentry list"
  w_length :: nat
  w_ended :: bool
  w_ending :: bool
  w_finished :: bool
  w_finalCalled :: bool
  w_prefinished :: bool
  w_corked :: nat
  w_pendingcb :: int
  w_writing :: bool
  w_writecb :: "nat option"
  w_writelen :: nat
  w_sync :: bool
  w_destroyed :: bool
  w_closed :: bool
  w_errored :: "nat option"
  w_defaultEncoding :: jsstr
  w_writable :: bool
  w_onfinish :: "nat list"     \<comment> \<open>callbacks of \<open>end\<close>\<close>
  w_tasks :: "wtask list"
  w_log :: "write_event list"

definition w_new :: "bool \<Rightarrow> nat option \<Rightarrow> jsstr option \<Rightarrow> wstate" where
  "w_new objectMode hwm enc =
     \<lparr>w_object = objectMode, w_hwm = (case hwm of None \<Rightarrow> getDefaultHighWaterMark objectMode | Some n \<Rightarrow> n),
      w_buffer = [], w_length = 0, w_ended = False, w_ending = False, w_finished = False, w_finalCalled = False,
      w_prefinished = False, w_corked = 0, w_pendingcb = 0, w_writing = False, w_writecb = None, w_writelen = 0,
      w_sync = True, w_destroyed = False, w_closed = False, w_errored = None,
      w_defaultEncoding = (case enc of None \<Rightarrow> ENC_UTF8 | Some e \<Rightarrow> if e = [] then ENC_UTF8 else e), w_writable = True,
      w_onfinish = [], w_tasks = [], w_log = []\<rparr>"

definition w_emit :: "write_event \<Rightarrow> wstate \<Rightarrow> wstate" where
  "w_emit e s = s\<lparr>w_log := w_log s @ [e]\<rparr>"

definition w_task :: "wtask \<Rightarrow> wstate \<Rightarrow> wstate" where
  "w_task t s = s\<lparr>w_tasks := w_tasks s @ [t]\<rparr>"

definition w_call :: "nat option \<Rightarrow> wstate \<Rightarrow> wstate" where
  "w_call cb s = (case cb of None \<Rightarrow> s | Some n \<Rightarrow> w_emit (WCalled n) s)"

text \<open>The state has no field \<open>encoding\<close>, so the length grows by the UTF-8 size whatever the encoding is.\<close>

definition w_newLength :: "wstate \<Rightarrow> stream_chunk \<Rightarrow> nat" where
  "w_newLength s c = (if w_object s then w_length s + 1 else w_length s + chunkByteLength c None)"

definition writableNeedDrain :: "wstate \<Rightarrow> bool" where
  "writableNeedDrain s \<longleftrightarrow> w_ending s \<or> w_finished s \<or> w_corked s \<noteq> 0 \<or> (w_hwm s \<le> w_length s \<and> 0 < w_hwm s)"

section \<open>Errors and the end\<close>

definition w_destroy :: "nat option \<Rightarrow> wstate \<Rightarrow> wstate" where
  "w_destroy err s =
     (if w_destroyed s then s
      else
        (let s1 = s\<lparr>w_destroyed := True, w_closed := False, w_writable := False\<rparr>
         in w_task WTDestroyed
              (case err of None \<Rightarrow> s1 | Some e \<Rightarrow> w_task (WTErrorIf e) (s1\<lparr>w_errored := Some e\<rparr>))))"

definition errorOrDestroy :: "nat \<Rightarrow> wstate \<Rightarrow> wstate" where
  "errorOrDestroy e s = w_destroy (Some e) (w_task (WTEmitError e) (s\<lparr>w_errored := Some e\<rparr>))"

definition finish :: "wstate \<Rightarrow> wstate" where
  "finish s =
     (let s1 = (foldl (\<lambda>s n. w_emit (WCalled n) s) (w_emit WFinish (s\<lparr>w_finished := True, w_closed := False\<rparr>)) (w_onfinish s))
                 \<lparr>w_onfinish := []\<rparr>
      in if w_destroyed s1 then s1 else w_task WTClosed (s1\<lparr>w_closed := True\<rparr>))"

definition final_done :: "nat option \<Rightarrow> wstate \<Rightarrow> wstate" where
  "final_done err s =
     (case err of Some e \<Rightarrow> errorOrDestroy e s
      | None \<Rightarrow> finish (w_emit WPrefinish (s\<lparr>w_prefinished := True\<rparr>)))"

definition prefinish :: "whooks \<Rightarrow> wstate \<Rightarrow> wstate" where
  "prefinish k s =
     (case sk_final k of
        Some f \<Rightarrow>
          if \<not> w_finalCalled s
          then (let s1 = s\<lparr>w_finalCalled := True\<rparr> in case f of None \<Rightarrow> s1 | Some err \<Rightarrow> final_done err s1)
          else finish s
      | None \<Rightarrow> finish s)"

definition finishMaybe :: "whooks \<Rightarrow> wstate \<Rightarrow> wstate" where
  "finishMaybe k s =
     (if w_ending s \<and> w_pendingcb s = 0 \<and> w_buffer s = [] \<and> \<not> w_finished s
      then prefinish k (w_emit WPrefinish (s\<lparr>w_prefinished := True\<rparr>)) else s)"

section \<open>Writing\<close>

text \<open>\<open>doWrite\<close> after \<open>_write\<close> has returned \<open>ret\<close>.\<close>

definition after_write :: "stream_chunk \<Rightarrow> jsstr \<Rightarrow> nat option \<Rightarrow> bool \<Rightarrow> wstate \<Rightarrow> wstate" where
  "after_write c enc cb ret_false s =
     (let s1 = s\<lparr>w_writelen := (if w_object s then 1 else chunkByteLength c (Some enc)),
                 w_pendingcb := (if ret_false then w_pendingcb s else w_pendingcb s + 1), w_sync := False\<rparr>
      in if w_destroyed s1 then s1
         else if ret_false then
           (let s2 = s1\<lparr>w_buffer := \<lparr>we_chunk = c, we_encoding = enc, we_callback = cb\<rparr> # w_buffer s1, w_length := w_newLength s1 c\<rparr>
            in if writableNeedDrain s2 then w_emit WDrain s2 else s2)
         else s1)"

datatype wcmd = DoWrite stream_chunk jsstr "nat option" | Onwrite "nat option" | ClearBuffer

definition shift_entry :: "wstate \<Rightarrow> wstate" where
  "shift_entry s =
     (let e = hd (w_buffer s)
      in s\<lparr>w_buffer := tl (w_buffer s),
           w_length := w_length s - (if w_object s then 1 else chunkByteLength (we_chunk e) (Some (we_encoding e)))\<rparr>)"

partial_function (option) w_exec :: "whooks \<Rightarrow> wcmd \<Rightarrow> wstate \<Rightarrow> wstate option" where
  "w_exec k cmd s =
     (case cmd of
        DoWrite c enc cb \<Rightarrow>
          (let s1 = w_emit (WHanded c) (s\<lparr>w_writing := True, w_sync := True\<rparr>)
           in case sk_write k (w_log s1) c of
                Throws e \<Rightarrow> w_exec k (Onwrite (Some e)) s1
              | Returns answer ret_false \<Rightarrow>
                  Option.bind (case answer of None \<Rightarrow> Some s1 | Some err \<Rightarrow> w_exec k (Onwrite err) s1)
                    (\<lambda>s2. Some (after_write c enc cb ret_false s2)))
      | Onwrite err \<Rightarrow>
          (let cb = w_writecb s; s1 = w_emit WAnswered (s\<lparr>w_writing := False, w_writecb := None\<rparr>)
           in case err of
                Some e \<Rightarrow> Some (w_call cb (errorOrDestroy e s1))
              | None \<Rightarrow>
                  Option.bind (w_exec k ClearBuffer (finishMaybe k (w_call cb (s1\<lparr>w_pendingcb := w_pendingcb s1 - 1\<rparr>))))
                    (\<lambda>s2. Some (if \<not> w_writing s2 \<and> w_corked s2 = 0 \<and> \<not> writableNeedDrain s2 then w_emit WDrain s2 else s2)))
      | ClearBuffer \<Rightarrow>
          (if w_buffer s \<noteq> [] \<and> \<not> w_writing s
           then (let e = hd (w_buffer s)
                 in Option.bind (w_exec k (DoWrite (we_chunk e) (we_encoding e) (we_callback e)) (shift_entry s))
                      (\<lambda>s1. w_exec k ClearBuffer s1))
           else Some s))"

fun is_data :: "stream_chunk \<Rightarrow> bool" where
  "is_data (CObj n) = False"
| "is_data c = True"

definition w_write :: "whooks \<Rightarrow> stream_chunk option \<Rightarrow> jsstr option \<Rightarrow> nat option \<Rightarrow> wstate \<Rightarrow> (bool \<times> wstate) result option" where
  "w_write k chunk encoding cb s =
     (if w_destroyed s then Some (Inr (False, s))
      else case chunk of
        None \<Rightarrow> Some (Inl (TypeError ''May not write null values to stream''))
      | Some c \<Rightarrow>
          if \<not> w_object s \<and> \<not> is_data c
          then Some (Inl (TypeError ''The chunk argument must be of type string or an instance of Buffer or Uint8Array''))
          else
            (let enc = (case encoding of None \<Rightarrow> w_defaultEncoding s | Some e \<Rightarrow> if e = [] then w_defaultEncoding s else e)
             in if w_ended s then Some (Inr (False, w_task WTAfterEnd s))
                else if \<not> w_object s \<and> c = CStr [] then
                  Some (Inr (True, case cb of None \<Rightarrow> s | Some n \<Rightarrow> w_task (WTCallback n) s))
                else if w_ending s then Some (Inr (False, case cb of None \<Rightarrow> s | Some n \<Rightarrow> w_task (WTCallback n) s))
                else
                  Option.bind
                    (if \<not> w_writing s \<and> w_corked s = 0 \<and> w_buffer s = []
                     then w_exec k (DoWrite c enc cb) (w_emit (WAccepted c) (s\<lparr>w_writecb := cb\<rparr>))
                     else Some (w_emit (WAccepted c)
                       (s\<lparr>w_buffer := w_buffer s @ [\<lparr>we_chunk = c, we_encoding = enc, we_callback = cb\<rparr>],
                          w_length := w_newLength s c\<rparr>)))
                    (\<lambda>s1. Some (Inr (if w_writing s1 then False else \<not> writableNeedDrain s1, s1)))))"

definition w_cork :: "wstate \<Rightarrow> wstate" where
  "w_cork s = s\<lparr>w_corked := w_corked s + 1\<rparr>"

definition w_uncork :: "whooks \<Rightarrow> wstate \<Rightarrow> wstate option" where
  "w_uncork k s =
     (let s1 = s\<lparr>w_corked := w_corked s - 1\<rparr> in if \<not> w_writing s1 then w_exec k ClearBuffer s1 else Some s1)"

definition w_setDefaultEncoding :: "jsstr \<Rightarrow> wstate \<Rightarrow> wstate" where
  "w_setDefaultEncoding enc s =
     s\<lparr>w_defaultEncoding := (case stream_normalizeEncoding (Some enc) of None \<Rightarrow> ENC_UTF8 | Some e \<Rightarrow> e)\<rparr>"

definition begin_end :: "whooks \<Rightarrow> nat option \<Rightarrow> wstate \<Rightarrow> wstate" where
  "begin_end k cb s =
     (let s1 = s\<lparr>w_onfinish := w_onfinish s @ (case cb of None \<Rightarrow> [] | Some n \<Rightarrow> [n])\<rparr>
      in if w_ending s then s1 else finishMaybe k (s1\<lparr>w_ended := True, w_ending := True, w_writable := False\<rparr>))"

definition w_end :: "whooks \<Rightarrow> stream_chunk option \<Rightarrow> jsstr option \<Rightarrow> nat option \<Rightarrow> wstate \<Rightarrow> wstate result option" where
  "w_end k chunk encoding cb s =
     (case chunk of
        None \<Rightarrow> Some (Inr (begin_end k cb s))
      | Some c \<Rightarrow>
          Option.bind (w_write k chunk encoding None s)
            (\<lambda>r. Some (bind_result r (\<lambda>(b, s1). Inr (begin_end k cb s1)))))"

fun w_do_task :: "whooks \<Rightarrow> wtask \<Rightarrow> wstate \<Rightarrow> wstate" where
  "w_do_task k WTClosed s = w_emit WClose (s\<lparr>w_closed := True\<rparr>)"
| "w_do_task k (WTEmitError e) s = w_emit (WError e) s"
| "w_do_task k (WTErrorIf e) s = (if sk_errors k then w_emit (WError e) s else s)"
| "w_do_task k WTDestroyed s = w_emit WClose (s\<lparr>w_closed := True\<rparr>)"
| "w_do_task k (WTCallback n) s = w_emit (WCalled n) s"
| "w_do_task k WTAfterEnd s = errorOrDestroy 0 s"

definition w_run_task :: "whooks \<Rightarrow> wstate \<Rightarrow> wstate" where
  "w_run_task k s = (case w_tasks s of [] \<Rightarrow> s | t # ts \<Rightarrow> w_do_task k t (s\<lparr>w_tasks := ts\<rparr>))"

section \<open>Returning\<close>

text \<open>A sink that never returns \<open>false\<close>.\<close>

definition never_false :: "whooks \<Rightarrow> bool" where
  "never_false k \<longleftrightarrow> (\<forall>lg c a. sk_write k lg c \<noteq> Returns a True)"

definition handed_of :: "write_event list \<Rightarrow> stream_chunk list" where
  "handed_of lg = concat (map (\<lambda>e. case e of WHanded c \<Rightarrow> [c] | _ \<Rightarrow> []) lg)"

definition accepted_of :: "write_event list \<Rightarrow> stream_chunk list" where
  "accepted_of lg = concat (map (\<lambda>e. case e of WAccepted c \<Rightarrow> [c] | _ \<Rightarrow> []) lg)"

definition count_of :: "write_event \<Rightarrow> write_event list \<Rightarrow> nat" where
  "count_of e lg = length (filter (\<lambda>x. x = e) lg)"

lemma log_functions [simp]:
  "handed_of [] = []" "handed_of (lg @ lg') = handed_of lg @ handed_of lg'"
  "handed_of (e # lg) = (case e of WHanded c \<Rightarrow> c # handed_of lg | _ \<Rightarrow> handed_of lg)"
  "accepted_of [] = []" "accepted_of (lg @ lg') = accepted_of lg @ accepted_of lg'"
  "accepted_of (e # lg) = (case e of WAccepted c \<Rightarrow> c # accepted_of lg | _ \<Rightarrow> accepted_of lg)"
  "count_of e [] = 0" "count_of e (lg @ lg') = count_of e lg + count_of e lg'"
  "count_of e (x # lg) = (if x = e then Suc (count_of e lg) else count_of e lg)"
  by (simp_all add: handed_of_def accepted_of_def count_of_def split: write_event.split)

text \<open>What an observer of the sink can tell; errors, ends and callbacks do not change it.\<close>

definition traffic :: "wstate \<Rightarrow> wentry list \<times> bool \<times> stream_chunk list \<times> stream_chunk list \<times> nat" where
  "traffic s = (w_buffer s, w_writing s, handed_of (w_log s), accepted_of (w_log s), count_of WAnswered (w_log s))"

lemma traffic_fields [simp]:
  "traffic (w_task t s) = traffic s" "traffic (s\<lparr>w_finished := b\<rparr>) = traffic s" "traffic (s\<lparr>w_closed := b\<rparr>) = traffic s"
  "traffic (s\<lparr>w_onfinish := l\<rparr>) = traffic s" "traffic (s\<lparr>w_prefinished := b\<rparr>) = traffic s"
  "traffic (s\<lparr>w_finalCalled := b\<rparr>) = traffic s" "traffic (s\<lparr>w_errored := x\<rparr>) = traffic s"
  "traffic (s\<lparr>w_pendingcb := i\<rparr>) = traffic s" "traffic (s\<lparr>w_ended := b\<rparr>) = traffic s" "traffic (s\<lparr>w_ending := b\<rparr>) = traffic s"
  "traffic (s\<lparr>w_writable := b\<rparr>) = traffic s" "traffic (s\<lparr>w_corked := n\<rparr>) = traffic s" "traffic (s\<lparr>w_destroyed := b\<rparr>) = traffic s"
  "traffic (s\<lparr>w_tasks := ts\<rparr>) = traffic s" "traffic (s\<lparr>w_writecb := cb\<rparr>) = traffic s" "traffic (s\<lparr>w_writelen := n\<rparr>) = traffic s"
  "traffic (s\<lparr>w_sync := b\<rparr>) = traffic s" "traffic (s\<lparr>w_defaultEncoding := e\<rparr>) = traffic s"
  by (simp_all add: traffic_def w_task_def)

lemma traffic_emit [simp]:
  "e \<in> {WPrefinish, WDrain, WFinish, WClose} \<or> (\<exists>n. e = WError n \<or> e = WCalled n) \<Longrightarrow> traffic (w_emit e s) = traffic s"
  by (auto simp: traffic_def w_emit_def)

lemma traffic_functions [simp]:
  "traffic (w_call cb s) = traffic s" "traffic (w_destroy err s) = traffic s" "traffic (errorOrDestroy e s) = traffic s"
  by (simp_all add: w_call_def w_destroy_def errorOrDestroy_def Let_def split: option.split)

lemma traffic_callbacks: "traffic (foldl (\<lambda>s n. w_emit (WCalled n) s) s ns) = traffic s"
  by (induction ns arbitrary: s) simp_all

lemma traffic_finish [simp]:
  "traffic (finish s) = traffic s" "traffic (final_done err s) = traffic s" "traffic (prefinish k s) = traffic s"
  "traffic (finishMaybe k s) = traffic s" "traffic (begin_end k cb s) = traffic s"
proof -
  show f: "traffic (finish s) = traffic s" for s by (simp add: finish_def Let_def traffic_callbacks)
  show d: "traffic (final_done err s) = traffic s" for err s by (simp add: final_done_def f split: option.split)
  show p: "traffic (prefinish k s) = traffic s" for s by (simp add: prefinish_def Let_def f d split: option.split)
  show m: "traffic (finishMaybe k s) = traffic s" for s by (simp add: finishMaybe_def p)
  show "traffic (begin_end k cb s) = traffic s" by (simp add: begin_end_def Let_def m)
qed

lemma traffic_buffer: "traffic s = traffic s' \<Longrightarrow> w_buffer s = w_buffer s'" "traffic s = traffic s' \<Longrightarrow> w_writing s = w_writing s'"
  by (simp_all add: traffic_def)

text \<open>
  The chunks in \<open>p\<close> are on their way from the buffer to the sink. The sink holds a chunk exactly while
  \<open>w_writing\<close> is set.
\<close>

definition w_inv :: "stream_chunk list \<Rightarrow> wstate \<Rightarrow> bool" where
  "w_inv p s \<longleftrightarrow>
     (let (buf, writing, handed, accepted, answered) = traffic s
      in handed @ p @ map we_chunk buf = accepted \<and> length handed = answered + (if writing then 1 else 0))"

lemma w_inv_traffic: "traffic s = traffic s' \<Longrightarrow> w_inv p s = w_inv p s'"
  by (simp add: w_inv_def)

text \<open>Every command of a sink that never returns \<open>false\<close> returns, and keeps the invariant.\<close>

definition settles :: "whooks \<Rightarrow> wcmd \<Rightarrow> stream_chunk list \<Rightarrow> wstate \<Rightarrow> bool" where
  "settles k cmd p s \<longleftrightarrow>
     (\<exists>s'. w_exec k cmd s = Some s' \<and> length (w_buffer s') \<le> length (w_buffer s) \<and> (w_inv p s \<longrightarrow> w_inv [] s'))"

lemma onwrite_settles:
  assumes "\<And>s'. traffic s' = traffic (w_emit WAnswered (s\<lparr>w_writing := False, w_writecb := None\<rparr>)) \<Longrightarrow> settles k ClearBuffer [] s'"
    "w_writing s"
  shows "settles k (Onwrite err) [] s"
proof -
  define s1 where "s1 = w_emit WAnswered (s\<lparr>w_writing := False, w_writecb := None\<rparr>)"
  have inv: "w_inv [] s \<Longrightarrow> w_inv [] s1" "w_buffer s1 = w_buffer s"
    using assms(2) by (simp_all add: s1_def w_inv_def traffic_def w_emit_def)
  show ?thesis
  proof (cases err)
    case (Some e)
    define s2 where "s2 = w_call (w_writecb s) (errorOrDestroy e s1)"
    have t: "traffic s2 = traffic s1" by (simp add: s2_def)
    have "w_exec k (Onwrite err) s = Some s2" using Some by (simp add: w_exec.simps [of k "Onwrite (Some e)"] s2_def s1_def Let_def)
    then show ?thesis
      using inv traffic_buffer [OF t] w_inv_traffic [OF t, of "[]"] by (simp add: settles_def)
  next
    case None
    define s2 where "s2 = finishMaybe k (w_call (w_writecb s) (s1\<lparr>w_pendingcb := w_pendingcb s1 - 1\<rparr>))"
    have t: "traffic s2 = traffic s1" by (simp add: s2_def)
    then obtain s3 where s3: "w_exec k ClearBuffer s2 = Some s3" "length (w_buffer s3) \<le> length (w_buffer s2)"
      "w_inv [] s2 \<longrightarrow> w_inv [] s3"
      using assms(1) [of s2] unfolding settles_def s1_def by blast
    have "w_inv [] s2 = w_inv [] s1" "w_buffer s2 = w_buffer s1" using w_inv_traffic [OF t] traffic_buffer [OF t] by simp_all
    moreover have "w_exec k (Onwrite err) s =
        Some (if \<not> w_writing s3 \<and> w_corked s3 = 0 \<and> \<not> writableNeedDrain s3 then w_emit WDrain s3 else s3)"
      using None s3(1) by (simp add: w_exec.simps [of k "Onwrite None"] s2_def s1_def Let_def)
    moreover have "w_buffer (w_emit WDrain s3) = w_buffer s3" "w_inv [] (w_emit WDrain s3) = w_inv [] s3"
      by (simp_all add: w_inv_def traffic_def w_emit_def)
    ultimately show ?thesis using s3 inv by (simp add: settles_def)
  qed
qed

lemma after_write_traffic: "traffic (after_write c enc cb False s) = traffic s"
  by (simp add: after_write_def Let_def traffic_def)

lemma write_settles:
  fixes s :: wstate
  assumes "never_false k" "\<not> w_writing s"
    "\<And>s' err. w_writing s' \<Longrightarrow> w_buffer s' = w_buffer s \<Longrightarrow> settles k (Onwrite err) [] s'"
  shows "settles k (DoWrite c enc cb) [c] s"
proof -
  define s1 where "s1 = w_emit (WHanded c) (s\<lparr>w_writing := True, w_sync := True\<rparr>)"
  have s1: "w_writing s1" "w_buffer s1 = w_buffer s" "w_inv [c] s \<Longrightarrow> w_inv [] s1"
    using assms(2) by (simp_all add: s1_def w_emit_def w_inv_def traffic_def)
  have on: "\<exists>s'. w_exec k (Onwrite err) s1 = Some s' \<and> length (w_buffer s') \<le> length (w_buffer s) \<and> (w_inv [c] s \<longrightarrow> w_inv [] s')" for err
    using assms(3) [OF s1(1,2)] s1(2,3) unfolding settles_def by metis
  show ?thesis
  proof (cases "sk_write k (w_log s1) c")
    case (Throws e)
    then show ?thesis using on [of "Some e"] by (simp add: settles_def w_exec.simps [of k "DoWrite c enc cb"] Let_def flip: s1_def)
  next
    case (Returns a b)
    with assms(1) have b: "\<not> b" by (auto simp: never_false_def)
    have "\<exists>s2. (case a of None \<Rightarrow> Some s1 | Some err \<Rightarrow> w_exec k (Onwrite err) s1) = Some s2 \<and>
        length (w_buffer s2) \<le> length (w_buffer s) \<and> (w_inv [c] s \<longrightarrow> w_inv [] s2)"
      using on s1 by (cases a) simp_all
    then obtain s2 where s2: "(case a of None \<Rightarrow> Some s1 | Some err \<Rightarrow> w_exec k (Onwrite err) s1) = Some s2"
      "length (w_buffer s2) \<le> length (w_buffer s)" "w_inv [c] s \<longrightarrow> w_inv [] s2"
      by blast
    have t: "traffic (after_write c enc cb b s2) = traffic s2" using b by (simp add: after_write_traffic)
    have "w_exec k (DoWrite c enc cb) s = Some (after_write c enc cb b s2)"
      using Returns s2(1) by (simp add: w_exec.simps [of k "DoWrite c enc cb"] Let_def flip: s1_def)
    then show ?thesis
      using s2 traffic_buffer [OF t] w_inv_traffic [OF t, of "[]"] by (simp add: settles_def)
  qed
qed

lemma clear_settles:
  assumes "never_false k" "length (w_buffer s) = n"
  shows "settles k ClearBuffer [] s"
  using assms(2)
proof (induction n arbitrary: s rule: less_induct)
  case (less n)
  show ?case
  proof (cases "w_buffer s = [] \<or> w_writing s")
    case True
    then show ?thesis by (simp add: settles_def w_exec.simps [of k ClearBuffer]) auto
  next
    case False
    define e where "e = hd (w_buffer s)"
    have sh: "w_buffer (shift_entry s) = tl (w_buffer s)" "w_writing (shift_entry s) = w_writing s"
      by (simp_all add: shift_entry_def Let_def)
    have smaller: "length (w_buffer s') < n" if "w_buffer s' = tl (w_buffer s)" for s' :: wstate
      using that False less.prems by (cases "w_buffer s") auto
    have clear: "settles k ClearBuffer [] s'" if "length (w_buffer s') < n" for s' :: wstate
      using less.IH [OF that] by simp
    have "settles k (DoWrite (we_chunk e) (we_encoding e) (we_callback e)) [we_chunk e] (shift_entry s)"
    proof (rule write_settles [OF assms(1)])
      show "\<not> w_writing (shift_entry s)" using False sh by simp
      fix s' :: wstate and err assume s': "w_writing s'" "w_buffer s' = w_buffer (shift_entry s)"
      show "settles k (Onwrite err) [] s'"
      proof (rule onwrite_settles [OF _ s'(1)])
        fix s'' assume "traffic s'' = traffic (w_emit WAnswered (s'\<lparr>w_writing := False, w_writecb := None\<rparr>))"
        then have "w_buffer s'' = w_buffer s'" by (simp add: traffic_def w_emit_def)
        then show "settles k ClearBuffer [] s''" using clear smaller s'(2) sh(1) by simp
      qed
    qed
    then obtain s1 where s1: "w_exec k (DoWrite (we_chunk e) (we_encoding e) (we_callback e)) (shift_entry s) = Some s1"
      "length (w_buffer s1) \<le> length (w_buffer (shift_entry s))" "w_inv [we_chunk e] (shift_entry s) \<longrightarrow> w_inv [] s1"
      unfolding settles_def by blast
    then have "length (w_buffer s1) < n" using smaller [of "shift_entry s"] sh(1) by simp
    from clear [OF this] obtain s2 where s2: "w_exec k ClearBuffer s1 = Some s2" "length (w_buffer s2) \<le> length (w_buffer s1)"
      "w_inv [] s1 \<longrightarrow> w_inv [] s2"
      unfolding settles_def by blast
    have "w_inv [] s \<Longrightarrow> w_inv [we_chunk e] (shift_entry s)"
      using False by (cases "w_buffer s") (auto simp: w_inv_def traffic_def shift_entry_def Let_def e_def)
    moreover have "w_exec k ClearBuffer s = Some s2"
      using False s1(1) s2(1) by (simp add: w_exec.simps [of k ClearBuffer] Let_def e_def)
    ultimately show ?thesis using s1 s2 sh(1) less.prems \<open>length (w_buffer s1) < n\<close> by (auto simp: settles_def)
  qed
qed

lemma exec_settles:
  assumes "never_false k"
  shows "w_writing s \<Longrightarrow> settles k (Onwrite err) [] s" "\<not> w_writing s \<Longrightarrow> settles k (DoWrite c enc cb) [c] s"
    "settles k ClearBuffer [] s"
proof -
  show on: "settles k (Onwrite err) [] s" if "w_writing s" for s :: wstate and err
    by (rule onwrite_settles [OF clear_settles [OF assms refl] that])
  show "\<not> w_writing s \<Longrightarrow> settles k (DoWrite c enc cb) [c] s"
    by (rule write_settles [OF assms]) (simp_all add: on)
  show "settles k ClearBuffer [] s" by (rule clear_settles [OF assms refl])
qed

section \<open>Order\<close>

lemma write_result:
  assumes "never_false k"
  shows "\<exists>r. w_write k c enc cb s = Some r \<and> (\<forall>b s'. r = Inr (b, s') \<longrightarrow> w_inv [] s \<longrightarrow> w_inv [] s')"
proof -
  have direct: "\<exists>s'. w_exec k (DoWrite d e cb) (w_emit (WAccepted d) (s\<lparr>w_writecb := cb\<rparr>)) = Some s' \<and> (w_inv [] s \<longrightarrow> w_inv [] s')"
    if "\<not> w_writing s" "w_buffer s = []" for d e
  proof -
    have "w_inv [] s \<Longrightarrow> w_inv [d] (w_emit (WAccepted d) (s\<lparr>w_writecb := cb\<rparr>))"
      using that by (auto simp: w_inv_def traffic_def w_emit_def)
    then show ?thesis
      using exec_settles(2) [OF assms, of "w_emit (WAccepted d) (s\<lparr>w_writecb := cb\<rparr>)" d e cb] that(1)
      unfolding settles_def by (simp add: w_emit_def) blast
  qed
  have queued: "w_inv [] s \<Longrightarrow> w_inv [] (w_emit (WAccepted d)
      (s\<lparr>w_buffer := w_buffer s @ [\<lparr>we_chunk = d, we_encoding = e, we_callback = cb\<rparr>], w_length := n\<rparr>))" for d e n
    by (simp add: w_inv_def traffic_def w_emit_def)
  have task: "w_inv [] (w_task t s) = w_inv [] s" for t
    by (simp add: w_inv_def)
  show ?thesis
  proof (cases c)
    case (Some d)
    define e where "e = (case enc of None \<Rightarrow> w_defaultEncoding s | Some e \<Rightarrow> if e = [] then w_defaultEncoding s else e)"
    show ?thesis
    proof (cases "w_destroyed s \<or> (\<not> w_object s \<and> (\<not> is_data d \<or> d = CStr [])) \<or> w_ended s \<or> w_ending s")
      case True
      then show ?thesis using Some task by (cases cb) (auto simp: w_write_def Let_def)
    next
      case False
      then show ?thesis
        using Some direct [where d = d and e = e] queued [where d = d and e = e and n = "w_newLength s d"]
        by (cases "\<not> w_writing s \<and> w_corked s = 0 \<and> w_buffer s = []") (auto simp: w_write_def Let_def e_def)
    qed
  qed (simp add: w_write_def)
qed

lemma end_result:
  assumes "never_false k"
  shows "\<exists>r. w_end k c enc cb s = Some r \<and> (\<forall>s'. r = Inr s' \<longrightarrow> w_inv [] s \<longrightarrow> w_inv [] s')"
proof -
  have b: "w_inv [] (begin_end k cb s') = w_inv [] s'" for s' by (simp add: w_inv_def)
  obtain r where "w_write k c enc None s = Some r" "\<forall>b s'. r = Inr (b, s') \<longrightarrow> w_inv [] s \<longrightarrow> w_inv [] s'"
    using write_result [OF assms] by blast
  then show ?thesis using b by (cases c; cases r) (auto simp: w_end_def)
qed

inductive w_step :: "whooks \<Rightarrow> wstate \<Rightarrow> wstate \<Rightarrow> bool" for k where
  wstep_write: "w_write k c enc cb s = Some (Inr (b, s')) \<Longrightarrow> w_step k s s'"
| wstep_end: "w_end k c enc cb s = Some (Inr s') \<Longrightarrow> w_step k s s'"
| wstep_cork: "w_step k s (w_cork s)"
| wstep_uncork: "w_uncork k s = Some s' \<Longrightarrow> w_step k s s'"
| wstep_answer: "w_writing s \<Longrightarrow> w_exec k (Onwrite err) s = Some s' \<Longrightarrow> w_step k s s'"
| wstep_final: "w_step k s (final_done err s)"
| wstep_destroy: "w_step k s (w_destroy err s)"
| wstep_task: "w_step k s (w_run_task k s)"

lemma run_task_traffic: "traffic (w_run_task k s) = traffic s"
proof -
  have "traffic (w_do_task k t s) = traffic s" for t s by (cases t) simp_all
  then show ?thesis by (simp add: w_run_task_def split: list.split)
qed

lemma w_step_inv:
  assumes "never_false k" "w_step k s s'" "w_inv [] s" shows "w_inv [] s'"
  using assms(2)
proof cases
  case (wstep_write c enc cb b)
  then show ?thesis using write_result [OF assms(1), of c enc cb s] assms(3) by auto
next
  case (wstep_end c enc cb)
  then show ?thesis using end_result [OF assms(1), of c enc cb s] assms(3) by auto
next
  case wstep_uncork
  have "settles k ClearBuffer [] (s\<lparr>w_corked := w_corked s - 1\<rparr>)" by (rule exec_settles [OF assms(1)])
  then show ?thesis using wstep_uncork assms(3) by (auto simp: w_uncork_def Let_def settles_def w_inv_def split: if_splits)
next
  case (wstep_answer err)
  then show ?thesis using exec_settles(1) [OF assms(1) wstep_answer(1), of err] assms(3) by (auto simp: settles_def)
qed (use assms(3) run_task_traffic in \<open>simp_all add: w_cork_def w_inv_def\<close>)

lemma w_new_inv: "w_inv [] (w_new obj hwm enc)"
  by (simp add: w_new_def w_inv_def traffic_def)

text \<open>C8: A sink that never returns \<open>false\<close> is handed exactly the chunks the stream accepted, in order, one at
  a time: what it was handed and what is buffered is what was accepted, and it holds a chunk it has not answered
  only while the stream knows that it does. This holds for every order of writes, corks, ends, answers (also
  errors, and answers from inside \<open>_write\<close>) and turns of the event loop.\<close>

theorem sink_in_order:
  assumes "never_false k" "(w_step k)\<^sup>*\<^sup>* (w_new obj hwm enc) s"
  shows "handed_of (w_log s) @ map we_chunk (w_buffer s) = accepted_of (w_log s) \<and>
    length (handed_of (w_log s)) = count_of WAnswered (w_log s) + (if w_writing s then 1 else 0)"
proof -
  have "w_inv [] s"
    using assms(2) by (induction rule: rtranclp_induct) (auto intro: w_new_inv w_step_inv [OF assms(1)])
  then show ?thesis by (simp add: w_inv_def traffic_def)
qed

text \<open>C10: With such a sink every call returns: writing, ending, uncorking and the answer of the sink, in every
  state and however long the buffer is.\<close>

theorem writable_returns:
  assumes "never_false k"
  shows "w_write k c enc cb s \<noteq> None \<and> w_end k c enc cb s \<noteq> None \<and> w_uncork k s \<noteq> None \<and>
    (w_writing s \<longrightarrow> w_exec k (Onwrite err) s \<noteq> None)"
  using write_result [OF assms, of c enc cb s] end_result [OF assms, of c enc cb s]
    exec_settles(1) [OF assms, of s err] exec_settles(3) [OF assms, of "s\<lparr>w_corked := w_corked s - 1\<rparr>"]
  by (auto simp: w_uncork_def Let_def settles_def)

section \<open>Finishing\<close>

text \<open>A sink that answers later and without errors, and whose \<open>_final\<close> hook, if there is one, answers at once.\<close>

definition later_sink :: "whooks \<Rightarrow> bool" where
  "later_sink k \<longleftrightarrow> (\<forall>lg c. sk_write k lg c = Returns None False) \<and> sk_final k \<in> {None, Some (Some None)}"

lemma later_never_false: "later_sink k \<Longrightarrow> never_false k"
  by (auto simp: later_sink_def never_false_def)

text \<open>The part of the state that decides about the end.\<close>

definition handing :: "stream_chunk \<Rightarrow> jsstr \<Rightarrow> nat option \<Rightarrow> wstate \<Rightarrow> wstate" where
  "handing c enc cb s = after_write c enc cb False (w_emit (WHanded c) (s\<lparr>w_writing := True, w_sync := True\<rparr>))"

lemma later_write: "later_sink k \<Longrightarrow> w_exec k (DoWrite c enc cb) s = Some (handing c enc cb s)"
  by (simp add: w_exec.simps [of k "DoWrite c enc cb"] later_sink_def handing_def Let_def)

lemma later_clear:
  assumes "later_sink k"
  shows "w_exec k ClearBuffer s =
    Some (if w_buffer s = [] \<or> w_writing s then s
          else handing (we_chunk (hd (w_buffer s))) (we_encoding (hd (w_buffer s))) (we_callback (hd (w_buffer s))) (shift_entry s))"
proof (cases "w_buffer s = [] \<or> w_writing s")
  case True
  then show ?thesis by (subst w_exec.simps) auto
next
  case False
  define s1 where "s1 = handing (we_chunk (hd (w_buffer s))) (we_encoding (hd (w_buffer s))) (we_callback (hd (w_buffer s))) (shift_entry s)"
  have "w_writing s1" by (simp add: s1_def handing_def after_write_def w_emit_def Let_def)
  then have "w_exec k ClearBuffer s1 = Some s1" by (subst w_exec.simps) simp
  with False show ?thesis by (simp add: w_exec.simps [of k ClearBuffer s] later_write [OF assms] Let_def s1_def)
qed

fun calm_task :: "wtask \<Rightarrow> bool" where
  "calm_task WTClosed = True"
| "calm_task (WTCallback n) = True"
| "calm_task t = False"

definition w_base :: "wstate \<Rightarrow> bool" where
  "w_base s \<longleftrightarrow> \<not> w_destroyed s \<and> list_all calm_task (w_tasks s) \<and>
     w_pendingcb s = (if w_writing s then 1 else 0) \<and> w_ended s = w_ending s \<and>
     (w_finished s \<longrightarrow> w_ending s \<and> \<not> w_writing s \<and> w_buffer s = []) \<and>
     count_of WFinish (w_log s) = (if w_finished s then 1 else 0)"

definition flushed :: "wstate \<Rightarrow> bool" where
  "flushed s \<longleftrightarrow> (w_corked s = 0 \<and> \<not> w_writing s \<longrightarrow> w_buffer s = [])"

text \<open>With \<open>settled\<close> the end has been told as soon as it could be.\<close>

definition settled :: "wstate \<Rightarrow> bool" where
  "settled s \<longleftrightarrow> (w_ending s \<and> \<not> w_writing s \<and> w_buffer s = [] \<longrightarrow> w_finished s)"

lemma handing_fields [simp]:
  "\<not> w_destroyed s \<Longrightarrow> w_destroyed (handing c enc cb s) = False" "w_tasks (handing c enc cb s) = w_tasks s"
  "w_pendingcb (handing c enc cb s) = w_pendingcb s + 1" "w_ended (handing c enc cb s) = w_ended s"
  "w_ending (handing c enc cb s) = w_ending s" "w_finished (handing c enc cb s) = w_finished s"
  "w_buffer (handing c enc cb s) = w_buffer s" "w_writing (handing c enc cb s) = True"
  "w_corked (handing c enc cb s) = w_corked s" "w_log (handing c enc cb s) = w_log s @ [WHanded c]"
  by (simp_all add: handing_def after_write_def w_emit_def Let_def)

lemma shift_fields [simp]:
  "w_destroyed (shift_entry s) = w_destroyed s" "w_tasks (shift_entry s) = w_tasks s"
  "w_pendingcb (shift_entry s) = w_pendingcb s" "w_ended (shift_entry s) = w_ended s" "w_ending (shift_entry s) = w_ending s"
  "w_finished (shift_entry s) = w_finished s" "w_buffer (shift_entry s) = tl (w_buffer s)"
  "w_writing (shift_entry s) = w_writing s" "w_corked (shift_entry s) = w_corked s" "w_log (shift_entry s) = w_log s"
  by (simp_all add: shift_entry_def Let_def)

lemma finish_fields:
  assumes "\<not> w_destroyed s"
  shows "\<not> w_destroyed (finish s)" "w_tasks (finish s) = w_tasks s @ [WTClosed]" "w_pendingcb (finish s) = w_pendingcb s"
    "w_ended (finish s) = w_ended s" "w_ending (finish s) = w_ending s" "w_finished (finish s)"
    "w_corked (finish s) = w_corked s" "count_of WFinish (w_log (finish s)) = Suc (count_of WFinish (w_log s))"
proof -
  have calls: "foldl (\<lambda>s n. s\<lparr>w_log := w_log s @ [WCalled n]\<rparr>) s ns = s\<lparr>w_log := w_log s @ map WCalled ns\<rparr>" for ns s
    by (induction ns arbitrary: s) simp_all
  have "count_of WFinish (map WCalled ns) = 0" for ns by (induction ns) simp_all
  then show "\<not> w_destroyed (finish s)" "w_tasks (finish s) = w_tasks s @ [WTClosed]" "w_pendingcb (finish s) = w_pendingcb s"
    "w_ended (finish s) = w_ended s" "w_ending (finish s) = w_ending s" "w_finished (finish s)"
    "w_corked (finish s) = w_corked s" "count_of WFinish (w_log (finish s)) = Suc (count_of WFinish (w_log s))"
    using assms by (simp_all add: finish_def calls w_emit_def w_task_def Let_def)
qed

lemma finish_base:
  assumes "w_base s" "w_ending s" "w_buffer s = []" "\<not> w_writing s" "\<not> w_finished s"
  shows "w_base (finish s) \<and> settled (finish s) \<and> w_ending (finish s) \<and> w_corked (finish s) = w_corked s"
proof -
  have d: "\<not> w_destroyed s" using assms(1) by (simp add: w_base_def)
  show ?thesis
    using assms finish_fields [OF d] traffic_buffer [OF traffic_finish(1), of s]
    by (simp add: w_base_def settled_def)
qed

lemma base_prefinish:
  "w_base (w_emit WPrefinish (s\<lparr>w_prefinished := True\<rparr>)) = w_base s" "w_base (s\<lparr>w_finalCalled := b\<rparr>) = w_base s"
  by (simp_all add: w_base_def w_emit_def)

lemma finishMaybe_base:
  assumes "later_sink k" "w_base s"
  shows "w_base (finishMaybe k s) \<and> settled (finishMaybe k s) \<and> w_ending (finishMaybe k s) = w_ending s \<and>
    w_corked (finishMaybe k s) = w_corked s"
proof (cases "w_ending s \<and> w_pendingcb s = 0 \<and> w_buffer s = [] \<and> \<not> w_finished s")
  case True
  define s1 where "s1 = w_emit WPrefinish (s\<lparr>w_prefinished := True\<rparr>)"
  define s2 where "s2 = w_emit WPrefinish (s1\<lparr>w_finalCalled := True, w_prefinished := True\<rparr>)"
  have "finishMaybe k s = prefinish k s1" using True unfolding finishMaybe_def s1_def by (rule if_P)
  moreover have "prefinish k s1 = finish s1 \<or> prefinish k s1 = finish s2"
    using assms(1) by (auto simp: prefinish_def later_sink_def final_done_def s2_def Let_def)
  moreover have w: "\<not> w_writing s" using True assms(2) by (auto simp: w_base_def)
  have "w_base s1" "w_ending s1" "w_buffer s1 = []" "\<not> w_writing s1" "\<not> w_finished s1" "w_corked s1 = w_corked s"
    using True w assms(2) by (simp_all add: s1_def base_prefinish) (simp_all add: w_emit_def)
  note f1 = this finish_base [OF this(1-5)]
  have "w_base s2" "w_ending s2" "w_buffer s2 = []" "\<not> w_writing s2" "\<not> w_finished s2" "w_corked s2 = w_corked s"
    using f1 by (simp_all add: s2_def w_emit_def w_base_def)
  note f2 = this finish_base [OF this(1-5)]
  ultimately show ?thesis using f1 f2 True by auto
next
  case False
  then have "finishMaybe k s = s" unfolding finishMaybe_def by (rule if_not_P)
  moreover have "w_pendingcb s = (if w_writing s then 1 else 0)" using assms(2) unfolding w_base_def by (elim conjE)
  then have "settled s" using False unfolding settled_def by (metis (full_types))
  ultimately show ?thesis using assms(2) by simp
qed

text \<open>The steps of a stream that is written to until it is ended, corked and uncorked, while its sink answers.\<close>

inductive calm_step :: "whooks \<Rightarrow> wstate \<Rightarrow> wstate \<Rightarrow> bool" for k where
  calm_write: "\<not> w_ended s \<Longrightarrow> w_write k c enc cb s = Some (Inr (b, s')) \<Longrightarrow> calm_step k s s'"
| calm_end: "w_end k None None cb s = Some (Inr s') \<Longrightarrow> calm_step k s s'"
| calm_cork: "calm_step k s (w_cork s)"
| calm_uncork: "w_uncork k s = Some s' \<Longrightarrow> calm_step k s s'"
| calm_answer: "w_writing s \<Longrightarrow> w_exec k (Onwrite None) s = Some s' \<Longrightarrow> calm_step k s s'"
| calm_task: "calm_step k s (w_run_task k s)"

lemma base_handing:
  assumes "w_base s" "\<not> w_writing s" "w_buffer s \<noteq> [] \<or> \<not> w_ended s"
  shows "w_base (handing d enc cb (shift_entry s))" "w_base (handing d enc cb (w_emit (WAccepted d) (s\<lparr>w_writecb := cb\<rparr>)))"
  using assms by (auto simp: w_base_def w_emit_def)

text \<open>How much is left for the sink.\<close>

definition left :: "wstate \<Rightarrow> nat" where
  "left s = length (w_buffer s) + (if w_writing s then 1 else 0)"

definition fine :: "wstate \<Rightarrow> bool" where
  "fine s \<longleftrightarrow> w_base s \<and> settled s \<and> flushed s"

lemma clear_fine:
  assumes "later_sink k" "w_base s" "settled s" "w_exec k ClearBuffer s = Some s'"
  shows "fine s' \<and> w_ending s' = w_ending s \<and> w_corked s' = w_corked s \<and> left s' = left s"
proof -
  define s1 where "s1 = handing (we_chunk (hd (w_buffer s))) (we_encoding (hd (w_buffer s))) (we_callback (hd (w_buffer s))) (shift_entry s)"
  have e: "s' = (if w_buffer s = [] \<or> w_writing s then s else s1)"
    using assms(4) unfolding later_clear [OF assms(1)] s1_def by (rule option.inject [THEN iffD1, symmetric])
  show ?thesis
  proof (cases "w_buffer s = [] \<or> w_writing s")
    case True
    then show ?thesis using e assms(2,3) by (auto simp: fine_def flushed_def)
  next
    case False
    then have "w_base s1" using base_handing(1) [OF assms(2)] unfolding s1_def by blast
    then show ?thesis using e False
      by (cases "w_buffer s") (simp_all add: fine_def settled_def flushed_def left_def s1_def)
  qed
qed

lemma emit_fine:
  "e \<noteq> WFinish \<Longrightarrow> fine (w_emit e s) = fine s" "left (w_emit e s) = left s" "w_ending (w_emit e s) = w_ending s"
  "w_corked (w_emit e s) = w_corked s"
  by (simp_all add: fine_def settled_def flushed_def left_def w_base_def w_emit_def)

lemma answer_fine:
  assumes "later_sink k" "fine s" "w_writing s"
  shows "\<exists>s'. w_exec k (Onwrite None) s = Some s' \<and> fine s' \<and> w_ending s' = w_ending s \<and> w_corked s' = w_corked s \<and>
    Suc (left s') = left s"
proof -
  define s1 where "s1 = w_emit WAnswered (s\<lparr>w_writing := False, w_writecb := None\<rparr>)"
  define s2 where "s2 = w_call (w_writecb s) (s1\<lparr>w_pendingcb := w_pendingcb s1 - 1\<rparr>)"
  define s3 where "s3 = finishMaybe k s2"
  have s2: "\<not> w_writing s2" "w_buffer s2 = w_buffer s" "w_ending s2 = w_ending s" "w_corked s2 = w_corked s" "w_base s2"
    using assms(2,3) by (auto simp: s2_def s1_def w_call_def w_emit_def fine_def w_base_def split: option.split)
  have s3: "w_base s3" "settled s3" "w_ending s3 = w_ending s" "w_corked s3 = w_corked s" "left s = Suc (left s3)"
    using finishMaybe_base [OF assms(1) s2(5)] traffic_buffer [OF traffic_finish(4), of k s2] s2 assms(3)
    by (simp_all add: s3_def left_def)
  obtain s4 where s4: "w_exec k ClearBuffer s3 = Some s4" using later_clear [OF assms(1)] by blast
  note f = clear_fine [OF assms(1) s3(1,2) s4]
  define s5 where "s5 = (if \<not> w_writing s4 \<and> w_corked s4 = 0 \<and> \<not> writableNeedDrain s4 then w_emit WDrain s4 else s4)"
  have "w_exec k (Onwrite None) s = Some s5"
    using s4 by (simp add: w_exec.simps [of k "Onwrite None"] s5_def s3_def s2_def s1_def Let_def)
  moreover have "fine s5" "w_ending s5 = w_ending s4" "w_corked s5 = w_corked s4" "left s5 = left s4"
    using f by (simp_all add: s5_def emit_fine)
  ultimately show ?thesis using f s3 by simp
qed

lemma fine_fields:
  "fine (s\<lparr>w_onfinish := l\<rparr>) = fine s" "t = WTClosed \<or> (\<exists>n. t = WTCallback n) \<Longrightarrow> fine (w_task t s) = fine s"
  by (auto simp: fine_def w_base_def settled_def flushed_def w_task_def)

lemma write_fine:
  assumes "later_sink k" "fine s" "\<not> w_ended s" "w_write k c enc cb s = Some (Inr (b, s'))"
  shows "fine s'"
proof -
  obtain d where c: "c = Some d" using assms(2,4) by (cases c) (auto simp: w_write_def fine_def w_base_def)
  define e where "e = (case enc of None \<Rightarrow> w_defaultEncoding s | Some e \<Rightarrow> if e = [] then w_defaultEncoding s else e)"
  have ok: "\<not> w_destroyed s" "\<not> w_ending s" "\<not> w_finished s" using assms(2,3) by (auto simp: fine_def w_base_def)
  consider "s' = (case cb of None \<Rightarrow> s | Some n \<Rightarrow> w_task (WTCallback n) s)"
    | "\<not> w_writing s" "w_buffer s = []" "s' = handing d e cb (w_emit (WAccepted d) (s\<lparr>w_writecb := cb\<rparr>))"
    | "w_writing s \<or> w_corked s \<noteq> 0" "s' = w_emit (WAccepted d)
        (s\<lparr>w_buffer := w_buffer s @ [\<lparr>we_chunk = d, we_encoding = e, we_callback = cb\<rparr>], w_length := w_newLength s d\<rparr>)"
    using assms(2-4) ok c later_write [OF assms(1)]
    by (auto simp: w_write_def e_def Let_def fine_def flushed_def split: if_splits)
  then show ?thesis
  proof cases
    case 1
    then show ?thesis using assms(2) by (simp add: fine_fields split: option.split)
  next
    case 2
    have "w_base s" using assms(2) by (simp add: fine_def)
    then have "w_base s'" using base_handing(2) [of s d e cb] 2 assms(3) by simp
    then show ?thesis using 2 by (simp add: fine_def settled_def flushed_def)
  next
    case 3
    then show ?thesis
      using assms(2,3) ok by (auto simp: fine_def w_base_def settled_def flushed_def w_emit_def)
  qed
qed

lemma begin_end_fine:
  assumes "later_sink k" "fine s" shows "fine (begin_end k cb s)"
proof (cases "w_ending s")
  case True
  then show ?thesis using assms(2) by (simp add: begin_end_def fine_fields)
next
  case False
  define s1 where "s1 = s\<lparr>w_onfinish := w_onfinish s @ (case cb of None \<Rightarrow> [] | Some n \<Rightarrow> [n]), w_ended := True,
    w_ending := True, w_writable := False\<rparr>"
  have b: "w_base s1" using assms(2) False by (auto simp: s1_def fine_def w_base_def)
  have "flushed (finishMaybe k s1)"
    using finishMaybe_base [OF assms(1) b] traffic_buffer [OF traffic_finish(4), of k s1] assms(2)
    by (simp add: flushed_def fine_def s1_def)
  then show ?thesis
    using False finishMaybe_base [OF assms(1) b] by (simp add: begin_end_def fine_def s1_def Let_def)
qed

lemma update_fine:
  "w_base (s\<lparr>w_corked := n\<rparr>) = w_base s" "settled (s\<lparr>w_corked := n\<rparr>) = settled s" "fine (s\<lparr>w_closed := b\<rparr>) = fine s"
  "flushed s \<Longrightarrow> flushed (s\<lparr>w_corked := Suc n\<rparr>)" "w_writing s \<Longrightarrow> flushed s"
  by (simp_all add: fine_def w_base_def settled_def flushed_def)

lemma pop_fine:
  assumes "fine s" "w_tasks s = t # ts" shows "calm_task t" "fine (s\<lparr>w_tasks := ts\<rparr>)"
proof -
  have "settled (s\<lparr>w_tasks := ts\<rparr>) = settled s" "flushed (s\<lparr>w_tasks := ts\<rparr>) = flushed s"
    by (simp_all add: settled_def flushed_def)
  then show "calm_task t" "fine (s\<lparr>w_tasks := ts\<rparr>)" using assms by (simp_all add: fine_def w_base_def)
qed

lemma uncork_fine:
  assumes "later_sink k" "fine s" "w_uncork k s = Some s'" shows "fine s'"
proof -
  define s1 where "s1 = s\<lparr>w_corked := w_corked s - 1\<rparr>"
  have s1: "w_base s1" "settled s1" "w_writing s1 = w_writing s"
    using assms(2) by (simp_all add: s1_def fine_def update_fine)
  show ?thesis
  proof (cases "w_writing s")
    case True
    then have "s' = s1" using assms(3) by (simp add: w_uncork_def s1_def)
    then show ?thesis using s1 True update_fine(5) by (simp add: fine_def)
  next
    case False
    then have "w_exec k ClearBuffer s1 = Some s'" using assms(3) by (simp add: w_uncork_def s1_def)
    then show ?thesis using clear_fine [OF assms(1) s1(1,2)] by blast
  qed
qed

lemma task_fine: assumes "fine s" shows "fine (w_run_task k s)"
proof (cases "w_tasks s")
  case (Cons t ts)
  have "calm_task t" "fine (s\<lparr>w_tasks := ts\<rparr>)" using pop_fine [OF assms Cons] by simp_all
  then show ?thesis using Cons by (cases t) (simp_all add: w_run_task_def emit_fine update_fine(3))
qed (simp add: w_run_task_def assms)

lemma calm_fine:
  assumes "later_sink k" "calm_step k s s'" "fine s" shows "fine s'"
  using assms(2)
proof cases
  case (calm_write c enc cb b)
  then show ?thesis using write_fine [OF assms(1,3)] by blast
next
  case (calm_end cb)
  then show ?thesis using begin_end_fine [OF assms(1,3)] by (auto simp: w_end_def)
next
  case calm_cork
  then show ?thesis using assms(3) update_fine(4) [of s "w_corked s"] by (simp add: w_cork_def fine_def update_fine)
next
  case calm_uncork
  then show ?thesis using uncork_fine [OF assms(1,3)] by blast
next
  case calm_answer
  then show ?thesis using answer_fine [OF assms(1,3)] by auto
next
  case calm_task
  then show ?thesis using task_fine [OF assms(3)] by simp
qed

lemma calm_is_step: "calm_step k s s' \<Longrightarrow> w_step k s s'"
  by (erule calm_step.cases) (blast intro: w_step.intros)+

fun completes :: "whooks \<Rightarrow> nat \<Rightarrow> wstate \<Rightarrow> wstate option" where
  "completes k 0 s = Some s"
| "completes k (Suc n) s = Option.bind (w_exec k (Onwrite None) s) (completes k n)"

lemma answered_to_end:
  assumes "later_sink k"
  shows "fine s \<Longrightarrow> w_inv [] s \<Longrightarrow> w_ending s \<Longrightarrow> w_corked s = 0 \<Longrightarrow>
    \<exists>s'. completes k (left s) s = Some s' \<and> fine s' \<and> w_inv [] s' \<and> w_finished s'"
proof (induction "left s" arbitrary: s)
  case 0
  then show ?case by (auto simp: left_def fine_def settled_def)
next
  case (Suc n)
  have w: "w_writing s" using Suc.hyps(2) Suc.prems by (auto simp: left_def fine_def flushed_def split: if_splits)
  obtain s1 where s1: "w_exec k (Onwrite None) s = Some s1" "fine s1" "w_ending s1" "w_corked s1 = 0" "n = left s1"
    using answer_fine [OF assms Suc.prems(1) w] Suc.prems(3,4) Suc.hyps(2) by auto
  moreover have "w_inv [] s1"
    using w_step_inv [OF later_never_false [OF assms] wstep_answer [OF w s1(1)] Suc.prems(2)] .
  ultimately show ?case using Suc.hyps(1) [OF s1(5) s1(2) _ s1(3,4)] Suc.hyps(2) [symmetric] by simp
qed

text \<open>C9: With a sink whose \<open>_write\<close> always returns without having answered, never throws, never answers with an error
  and never returns \<open>false\<close>, and with no \<open>_final\<close> hook or one that answers at once without an error, a stream that has been ended finishes.
  The stream may have been used in any order before: chunks written while it was not ended, \<open>end\<close> called without a
  chunk any number of times, corked, uncorked, chunks answered, tasks run; but it was not destroyed, no write was tried
  after \<open>end\<close>, and callbacks and listeners did nothing to the stream. When it is ended and not corked, as many answers of the sink as chunks are
  left (in the sink or in the buffer) are enough, then every accepted chunk was handed to the sink, and the finish is told
  exactly once. (A sink that answers inside its \<open>write\<close> can lose the finish: \<open>corked_end_lost\<close>.)\<close>

theorem ended_stream_finishes:
  assumes "later_sink k" "(calm_step k)\<^sup>*\<^sup>* (w_new obj hwm enc) s" "w_ending s" "w_corked s = 0"
  shows "\<exists>s'. completes k (length (w_buffer s) + (if w_writing s then 1 else 0)) s = Some s' \<and> w_finished s' \<and>
    handed_of (w_log s') = accepted_of (w_log s') \<and> count_of WFinish (w_log s') = 1"
proof -
  have new: "fine (w_new obj hwm enc)" by (simp add: w_new_def fine_def w_base_def settled_def flushed_def)
  have "fine s \<and> w_inv [] s"
    using assms(2)
    by (induction rule: rtranclp_induct)
      (auto intro: new w_new_inv w_step_inv [OF later_never_false [OF assms(1)] calm_is_step] calm_fine [OF assms(1)])
  then obtain s' where "completes k (left s) s = Some s'" "fine s'" "w_inv [] s'" "w_finished s'"
    using answered_to_end [OF assms(1)] assms(3,4) by blast
  then show ?thesis by (auto simp: left_def fine_def w_base_def w_inv_def traffic_def)
qed

section \<open>Two sinks\<close>

definition slow_sink :: whooks where
  "slow_sink = \<lparr>sk_write = (\<lambda>lg c. Returns None False), sk_final = None, sk_errors = True\<rparr>"

definition quick_sink :: whooks where
  "quick_sink = \<lparr>sk_write = (\<lambda>lg c. Returns (Some None) False), sk_final = None, sk_errors = True\<rparr>"

lemma slow_later: "later_sink slow_sink"
  by (simp add: later_sink_def slow_sink_def)

definition one_chunk :: wstate where
  "one_chunk = handing (CStr [97]) ENC_UTF8 None (w_emit (WAccepted (CStr [97])) (w_new False None None))"

lemma one_chunk_written: "w_write slow_sink (Some (CStr [97])) None None (w_new False None None) = Some (Inr (False, one_chunk))"
proof -
  have "(w_new False None None)\<lparr>w_writecb := None\<rparr> = w_new False None None" by (simp add: w_new_def)
  then show ?thesis
    by (simp add: w_write_def later_write [OF slow_later] one_chunk_def Let_def) (simp add: w_new_def later_write [OF slow_later])
qed

lemma sink_in_order_witness:
  "handed_of (w_log one_chunk) @ map we_chunk (w_buffer one_chunk) = [CStr [97]]"
proof -
  have "(w_step slow_sink)\<^sup>*\<^sup>* (w_new False None None) one_chunk"
    using one_chunk_written by (blast intro: wstep_write)
  then show ?thesis
    using sink_in_order [OF later_never_false [OF slow_later], of False None None one_chunk]
    by (simp add: one_chunk_def w_emit_def w_new_def)
qed

lemma writable_returns_witness: "w_write quick_sink (Some (CStr [97])) None (Some 3) (w_new False None None) \<noteq> None"
proof -
  have "never_false quick_sink" by (simp add: never_false_def quick_sink_def)
  then show ?thesis using writable_returns [of quick_sink "Some (CStr [97])" None "Some 3" "w_new False None None"] by blast
qed

lemma ended_stream_finishes_witness:
  "\<exists>s'. completes slow_sink 1 (begin_end slow_sink None one_chunk) = Some s' \<and> w_finished s' \<and>
     handed_of (w_log s') = accepted_of (w_log s') \<and> count_of WFinish (w_log s') = 1"
proof -
  have "calm_step slow_sink (w_new False None None) one_chunk"
    by (rule calm_write [OF _ one_chunk_written]) (simp add: w_new_def)
  moreover have "calm_step slow_sink one_chunk (begin_end slow_sink None one_chunk)"
    by (rule calm_end) (simp add: w_end_def)
  ultimately have r: "(calm_step slow_sink)\<^sup>*\<^sup>* (w_new False None None) (begin_end slow_sink None one_chunk)" by auto
  have f: "w_ending (begin_end slow_sink None one_chunk)" "w_corked (begin_end slow_sink None one_chunk) = 0"
    "w_buffer (begin_end slow_sink None one_chunk) = []" "w_writing (begin_end slow_sink None one_chunk)"
    by (simp_all add: begin_end_def finishMaybe_def one_chunk_def w_emit_def w_new_def Let_def)
  show ?thesis using ended_stream_finishes [OF slow_later r f(1,2)] f(3,4) by simp
qed

section \<open>Behaviour that differs from Node\<close>

lemmas w_run = w_exec.simps w_write_def w_new_def w_emit_def w_cork_def w_uncork_def begin_end_def finishMaybe_def
  after_write_def shift_entry_def writableNeedDrain_def w_newLength_def w_call_def prefinish_def finish_def w_task_def
  quick_sink_def slow_sink_def getDefaultHighWaterMark_def

text \<open>The callback of a write that had to wait is never called.\<close>

lemma queued_callback_lost:
  "\<exists>s1 s2 s3. w_write slow_sink (Some (CStr [97])) None (Some 1) (w_new False None None) = Some (Inr (False, s1)) \<and>
     w_write slow_sink (Some (CStr [98])) None (Some 2) s1 = Some (Inr (False, s2)) \<and>
     completes slow_sink 2 s2 = Some s3 \<and> WCalled 1 \<in> set (w_log s3) \<and> WCalled 2 \<notin> set (w_log s3)"
  by (simp add: w_run numeral_2_eq_2)

text \<open>With a sink that answers at once, what was written while corked is handed on, but the end is never told.\<close>

lemma corked_end_lost:
  "\<exists>s1 s2. w_write quick_sink (Some (CStr [97])) None None (w_cork (w_new False None None)) = Some (Inr (False, s1)) \<and>
     w_uncork quick_sink (begin_end quick_sink None s1) = Some s2 \<and>
     handed_of (w_log s2) = [CStr [97]] \<and> \<not> w_writing s2 \<and> w_buffer s2 = [] \<and> w_tasks s2 = [] \<and> \<not> w_finished s2"
  by (simp add: w_run)

text \<open>One \<open>uncork\<close> of a stream corked twice lets the chunks go.\<close>

lemma nested_cork_flushes:
  "\<exists>s1 s2. w_write quick_sink (Some (CStr [97])) None None (w_cork (w_cork (w_new False None None))) = Some (Inr (False, s1)) \<and>
     w_uncork quick_sink s1 = Some s2 \<and> w_corked s2 = 1 \<and> handed_of (w_log s2) = [CStr [97]]"
  by (simp add: w_run)

text \<open>The length is taken by one encoding and given back by another: it stays 1 with an empty buffer.\<close>

lemma length_drifts:
  "\<exists>s1 s2. w_write quick_sink (Some (CStr [0xe9])) (Some (js ''latin1'')) None (w_cork (w_new False None None)) = Some (Inr (False, s1)) \<and>
     w_uncork quick_sink s1 = Some s2 \<and> w_buffer s2 = [] \<and> w_length s2 = 1"
  by (simp add: w_run ENC_UTF8_def)

text \<open>An error of the sink is emitted twice when somebody listens.\<close>

lemma error_twice:
  "w_log ((w_run_task quick_sink ^^ 3) (errorOrDestroy 7 (w_new False None None))) = [WError 7, WError 7, WClose]"
  by (simp add: errorOrDestroy_def w_destroy_def w_run_task_def w_do_task.simps w_run numeral_3_eq_3)

text \<open>A sink that calls its callback and returns \<open>false\<close> gets its chunk back for ever.\<close>

definition false_sink :: whooks where
  "false_sink = \<lparr>sk_write = (\<lambda>lg c. Returns (Some None) True), sk_final = None, sk_errors = True\<rparr>"

definition hangs :: "wcmd \<Rightarrow> wstate \<Rightarrow> wstate \<Rightarrow> bool" where
  "hangs cmd s r \<longleftrightarrow> \<not> w_destroyed s \<longrightarrow>
     (case cmd of DoWrite c enc cb \<Rightarrow> \<not> w_destroyed r \<and> \<not> w_writing r \<and> w_buffer r \<noteq> []
      | Onwrite err \<Rightarrow> err = None \<longrightarrow> \<not> w_destroyed r \<and> \<not> w_writing r
      | ClearBuffer \<Rightarrow> \<not> w_writing s \<longrightarrow> w_buffer s = [] \<and> r = s)"

lemma finishMaybe_destroyed: "sk_final k = None \<Longrightarrow> \<not> w_destroyed s \<Longrightarrow> \<not> w_destroyed (finishMaybe k s)"
  using finish_fields(1) by (simp add: finishMaybe_def prefinish_def w_emit_def)

lemma false_hangs_step:
  assumes "w_exec k cmd s = Some r" shows "k = false_sink \<longrightarrow> hangs cmd s r"
proof (rule w_exec.raw_induct [where P = "\<lambda>k cmd s r. k = false_sink \<longrightarrow> hangs cmd s r", OF _ assms], intro impI)
  fix f k cmd s r
  assume IH: "\<And>k cmd s r. f k cmd s = Some r \<Longrightarrow> k = false_sink \<longrightarrow> hangs cmd s r"
    and eq: "(case cmd of
        DoWrite c enc cb \<Rightarrow>
          (let s1 = w_emit (WHanded c) (s\<lparr>w_writing := True, w_sync := True\<rparr>)
           in case sk_write k (w_log s1) c of
                Throws e \<Rightarrow> f k (Onwrite (Some e)) s1
              | Returns answer ret_false \<Rightarrow>
                  Option.bind (case answer of None \<Rightarrow> Some s1 | Some err \<Rightarrow> f k (Onwrite err) s1)
                    (\<lambda>s2. Some (after_write c enc cb ret_false s2)))
      | Onwrite err \<Rightarrow>
          (let cb = w_writecb s; s1 = w_emit WAnswered (s\<lparr>w_writing := False, w_writecb := None\<rparr>)
           in case err of
                None \<Rightarrow>
                  Option.bind (f k ClearBuffer (finishMaybe k (w_call cb (s1\<lparr>w_pendingcb := w_pendingcb s1 - 1\<rparr>))))
                    (\<lambda>s2. Some (if \<not> w_writing s2 \<and> w_corked s2 = 0 \<and> \<not> writableNeedDrain s2 then w_emit WDrain s2 else s2))
              | Some e \<Rightarrow> Some (w_call cb (errorOrDestroy e s1)))
      | ClearBuffer \<Rightarrow>
          (if w_buffer s \<noteq> [] \<and> \<not> w_writing s
           then (let e = hd (w_buffer s)
                 in Option.bind (f k (DoWrite (we_chunk e) (we_encoding e) (we_callback e)) (shift_entry s))
                      (\<lambda>s1. f k ClearBuffer s1))
           else Some s)) = Some r"
    and k: "k = false_sink"
  show "hangs cmd s r"
  proof (cases cmd)
    case (DoWrite c enc cb)
    then obtain s2 where "f k (Onwrite None) (w_emit (WHanded c) (s\<lparr>w_writing := True, w_sync := True\<rparr>)) = Some s2"
      "r = after_write c enc cb True s2"
      using eq k by (auto simp: false_sink_def Let_def split: bind_splits)
    then show ?thesis
      using IH [of k "Onwrite None" _ s2] k DoWrite by (auto simp: hangs_def w_emit_def after_write_def Let_def)
  next
    case (Onwrite err)
    define s1 where "s1 = w_emit WAnswered (s\<lparr>w_writing := False, w_writecb := None\<rparr>)"
    define s2 where "s2 = w_call (w_writecb s) (s1\<lparr>w_pendingcb := w_pendingcb s1 - 1\<rparr>)"
    have s2: "\<not> w_writing (finishMaybe k s2)" "\<not> w_destroyed s \<Longrightarrow> \<not> w_destroyed (finishMaybe k s2)"
      using traffic_buffer(2) [OF traffic_finish(4), of k s2] finishMaybe_destroyed [of k s2] k
      by (simp_all add: s2_def s1_def w_call_def w_emit_def false_sink_def split: option.split)
    show ?thesis
    proof (cases err)
      case None
      then obtain s3 where "f k ClearBuffer (finishMaybe k s2) = Some s3"
        "r = (if \<not> w_writing s3 \<and> w_corked s3 = 0 \<and> \<not> writableNeedDrain s3 then w_emit WDrain s3 else s3)"
        using eq Onwrite by (auto simp: s2_def s1_def Let_def split: bind_splits)
      then show ?thesis
        using IH [of k ClearBuffer "finishMaybe k s2" s3] k s2 Onwrite by (auto simp: hangs_def w_emit_def)
    qed (simp add: hangs_def Onwrite)
  next
    case ClearBuffer
    show ?thesis
      using eq k IH [of k "DoWrite (we_chunk (hd (w_buffer s))) (we_encoding (hd (w_buffer s))) (we_callback (hd (w_buffer s)))" "shift_entry s"]
        IH [of k ClearBuffer _ r] ClearBuffer
      by (fastforce simp: hangs_def Let_def split: if_splits bind_splits)
  qed
qed

lemma false_sink_hangs:
  assumes "\<not> w_destroyed s" "\<not> w_writing s" "w_buffer s \<noteq> []"
  shows "w_uncork false_sink s = None"
  using false_hangs_step [of false_sink ClearBuffer "s\<lparr>w_corked := w_corked s - 1\<rparr>"] assms
  by (cases "w_uncork false_sink s") (auto simp: w_uncork_def hangs_def)

end
