(* ===== verification/Binary.thy ===== *)
theory Binary
  imports Prelude "HOL-Library.Word"
begin

unbundle bit_operations_syntax

text \<open>
  \<open>binary_types.js\<close>: index arguments and the integer element types of buffers. The memory of a buffer is the
  list of its bytes. \<open>getByte\<close> and \<open>setByte\<close> of the native side reach it without a check: a write past the
  end makes the list longer, so an operation that keeps the length has stayed inside the allocation. \<open>|\<close>,
  \<open><<\<close> and \<open>>>>\<close> work on 32-bit words, read back as signed numbers except after \<open>>>> 0\<close>. Arguments are already numbers: coercions that run
  user code are not modelled, nor are the native short cuts, which fall back on this code. Floating-point
  elements are left out here.
\<close>

type_synonym byte = "8 word"

section \<open>Numbers as integers\<close>

definition trunc_rat :: "rat \<Rightarrow> int" where
  "trunc_rat r = (if r < 0 then \<lceil>r\<rceil> else \<lfloor>r\<rfloor>)"

fun to_int32 :: "jsnum \<Rightarrow> 32 word" where
  "to_int32 (Fin r) = word_of_int (trunc_rat r)"
| "to_int32 _ = 0"

datatype xint = XNeg | XPos | XI int

fun toIntegerOrInfinity :: "jsnum \<Rightarrow> xint" where
  "toIntegerOrInfinity NaN = XI 0"
| "toIntegerOrInfinity PosInf = XPos"
| "toIntegerOrInfinity NegInf = XNeg"
| "toIntegerOrInfinity (Fin r) = XI (trunc_rat r)"

definition MAX_SAFE_INDEX :: int where "MAX_SAFE_INDEX = 9007199254740991"

definition AB_ALLOC_LIMIT :: nat where "AB_ALLOC_LIMIT = 0x04000000"

text \<open>No argument is \<open>undefined\<close>.\<close>

definition toIndex :: "jsnum option \<Rightarrow> nat result" where
  "toIndex v =
     (case v of None \<Rightarrow> Inr 0
      | Some n \<Rightarrow>
          (case toIntegerOrInfinity n of
             XI i \<Rightarrow> if i < 0 \<or> MAX_SAFE_INDEX < i then Inl (RangeError ''Invalid index'') else Inr (nat i)
           | _ \<Rightarrow> Inl (RangeError ''Invalid index'')))"

definition checkAllocLimit :: "nat \<Rightarrow> unit result" where
  "checkAllocLimit n =
     (if AB_ALLOC_LIMIT < n then Inl (RangeError ''ArrayBuffer allocation size too large'') else Inr ())"

fun relative :: "xint \<Rightarrow> nat \<Rightarrow> nat" where
  "relative XNeg len = 0"
| "relative XPos len = len"
| "relative (XI i) len = (if i < 0 then nat (max (int len + i) 0) else nat (min i (int len)))"

definition relativeStart :: "jsnum option \<Rightarrow> nat \<Rightarrow> nat" where
  "relativeStart v len = (case v of None \<Rightarrow> 0 | Some n \<Rightarrow> relative (toIntegerOrInfinity n) len)"

definition relativeEnd :: "jsnum option \<Rightarrow> nat \<Rightarrow> nat" where
  "relativeEnd v len = (case v of None \<Rightarrow> len | Some n \<Rightarrow> relative (toIntegerOrInfinity n) len)"

section \<open>Elements\<close>

definition getByte :: "byte list \<Rightarrow> nat \<Rightarrow> 32 word" where
  "getByte m off = ucast (m ! off)"

definition setByte :: "nat \<Rightarrow> 32 word \<Rightarrow> byte list \<Rightarrow> byte list" where
  "setByte off v m = take off m @ ucast v # drop (off + 1) m"

definition getU8 :: "byte list \<Rightarrow> nat \<Rightarrow> int" where
  "getU8 m off = uint (getByte m off)"

definition setU8 :: "nat \<Rightarrow> jsnum \<Rightarrow> byte list \<Rightarrow> byte list" where
  "setU8 off v m = setByte off (to_int32 v AND 0xFF) m"

text \<open>\<open>_clampU8\<close>: to the nearest, ties to even.\<close>

fun clampU8 :: "jsnum \<Rightarrow> 32 word" where
  "clampU8 NaN = 0"
| "clampU8 PosInf = 255"
| "clampU8 NegInf = 0"
| "clampU8 (Fin v) =
     (if v \<le> 0 then 0
      else if 255 \<le> v then 255
      else
        (let f = \<lfloor>v\<rfloor>; frac = v - of_int f
         in if 1 / 2 < frac then word_of_int (f + 1)
            else if frac < 1 / 2 then word_of_int f
            else if (word_of_int f :: 32 word) AND 1 = 0 then word_of_int f else word_of_int (f + 1)))"

definition setU8Clamped :: "nat \<Rightarrow> jsnum \<Rightarrow> byte list \<Rightarrow> byte list" where
  "setU8Clamped off v m = setByte off (clampU8 v) m"

definition getI8 :: "byte list \<Rightarrow> nat \<Rightarrow> int" where
  "getI8 m off = (let b = uint (getByte m off) in if 127 < b then b - 256 else b)"

definition setI8 :: "nat \<Rightarrow> jsnum \<Rightarrow> byte list \<Rightarrow> byte list" where
  "setI8 off v m = setByte off (to_int32 v AND 0xFF) m"

definition getU16 :: "byte list \<Rightarrow> nat \<Rightarrow> int" where
  "getU16 m off = sint (getByte m off OR push_bit 8 (getByte m (off + 1)))"

definition setU16 :: "nat \<Rightarrow> jsnum \<Rightarrow> byte list \<Rightarrow> byte list" where
  "setU16 off v m = setByte (off + 1) (drop_bit 8 (to_int32 v) AND 0xFF) (setByte off (to_int32 v AND 0xFF) m)"

definition getI16 :: "byte list \<Rightarrow> nat \<Rightarrow> int" where
  "getI16 m off = (let u = getU16 m off in if 32767 < u then u - 65536 else u)"

definition setI16 :: "nat \<Rightarrow> jsnum \<Rightarrow> byte list \<Rightarrow> byte list" where
  "setI16 off v m = setU16 off v m"

definition le_word :: "byte list \<Rightarrow> nat \<Rightarrow> 32 word" where
  "le_word m off = getByte m off OR push_bit 8 (getByte m (off + 1)) OR push_bit 16 (getByte m (off + 2)) OR
     push_bit 24 (getByte m (off + 3))"

definition be_word :: "byte list \<Rightarrow> nat \<Rightarrow> 32 word" where
  "be_word m off = push_bit 24 (getByte m off) OR push_bit 16 (getByte m (off + 1)) OR push_bit 8 (getByte m (off + 2)) OR
     getByte m (off + 3)"

definition set_le_word :: "nat \<Rightarrow> 32 word \<Rightarrow> byte list \<Rightarrow> byte list" where
  "set_le_word off v m =
     setByte (off + 3) (drop_bit 24 v AND 0xFF) (setByte (off + 2) (drop_bit 16 v AND 0xFF)
       (setByte (off + 1) (drop_bit 8 v AND 0xFF) (setByte off (v AND 0xFF) m)))"

definition set_be_word :: "nat \<Rightarrow> 32 word \<Rightarrow> byte list \<Rightarrow> byte list" where
  "set_be_word off v m =
     setByte (off + 3) (v AND 0xFF) (setByte (off + 2) (drop_bit 8 v AND 0xFF)
       (setByte (off + 1) (drop_bit 16 v AND 0xFF) (setByte off (drop_bit 24 v AND 0xFF) m)))"

definition getU32 :: "byte list \<Rightarrow> nat \<Rightarrow> int" where
  "getU32 m off = uint (le_word m off)"

definition setU32 :: "nat \<Rightarrow> jsnum \<Rightarrow> byte list \<Rightarrow> byte list" where
  "setU32 off v m = set_le_word off (to_int32 v) m"

definition getI32 :: "byte list \<Rightarrow> nat \<Rightarrow> int" where
  "getI32 m off = sint (le_word m off)"

definition setI32 :: "nat \<Rightarrow> jsnum \<Rightarrow> byte list \<Rightarrow> byte list" where
  "setI32 off v m = setU32 off v m"

text \<open>64 bits: \<open>BigInt\<close>, divided with truncation.\<close>

definition uint32PairToBigInt :: "32 word \<Rightarrow> 32 word \<Rightarrow> int" where
  "uint32PairToBigInt hi lo = uint hi * 4294967296 + uint lo"

definition unsigned64ToSignedBigInt :: "int \<Rightarrow> int" where
  "unsigned64ToSignedBigInt u =
     (if u = 18446744073709551615 then -1
      else if 9223372036854775808 \<le> u then u - 18446744073709551616 else u)"

definition trunc_rem :: "int \<Rightarrow> int \<Rightarrow> int" where
  "trunc_rem a b = sgn a * (\<bar>a\<bar> mod \<bar>b\<bar>)"

definition bigIntToHiLo :: "int \<Rightarrow> 32 word \<times> 32 word" where
  "bigIntToHiLo v =
     (let u0 = trunc_rem v 18446744073709551616; u = (if u0 < 0 then u0 + 18446744073709551616 else u0)
      in (word_of_int (u div 4294967296), word_of_int (u mod 4294967296)))"

definition getBigUint64 :: "byte list \<Rightarrow> nat \<Rightarrow> bool \<Rightarrow> int" where
  "getBigUint64 m base le =
     (if le then uint32PairToBigInt (le_word m (base + 4)) (le_word m base)
      else uint32PairToBigInt (be_word m base) (be_word m (base + 4)))"

definition getBigInt64 :: "byte list \<Rightarrow> nat \<Rightarrow> bool \<Rightarrow> int" where
  "getBigInt64 m base le = unsigned64ToSignedBigInt (getBigUint64 m base le)"

definition setBigUint64 :: "nat \<Rightarrow> int \<Rightarrow> bool \<Rightarrow> byte list \<Rightarrow> byte list" where
  "setBigUint64 base v le m =
     (let (hi, lo) = bigIntToHiLo v
      in if le then set_le_word (base + 4) hi (set_le_word base lo m)
         else set_be_word (base + 4) lo (set_be_word base hi m))"

definition setBigInt64 :: "nat \<Rightarrow> int \<Rightarrow> bool \<Rightarrow> byte list \<Rightarrow> byte list" where
  "setBigInt64 base v le m = setBigUint64 base v le m"

section \<open>Bytes of words\<close>

lemma setByte_update: "i < length m \<Longrightarrow> setByte i v m = m[i := ucast v]"
  by (simp add: setByte_def upd_conv_take_nth_drop)

lemma getByte_set:
  "i < length m \<Longrightarrow> off < length m \<Longrightarrow>
     getByte (setByte i v m) off = (if i = off then ucast (ucast v :: byte) else getByte m off)"
  by (simp add: getByte_def setByte_update nth_list_update)

lemma length_setByte [simp]: "i < length m \<Longrightarrow> length (setByte i v m) = length m"
  by (simp add: setByte_update)

lemma nth_setByte: "i < length m \<Longrightarrow> j \<noteq> i \<Longrightarrow> setByte i v m ! j = m ! j"
  by (simp add: setByte_update)

lemma low_byte: "v AND 0xFF = take_bit 8 (v :: 32 word)"
  by (simp add: take_bit_eq_mask mask_eq_exp_minus_1)

lemma byte_cast: "ucast (ucast (take_bit 8 v) :: byte) = take_bit 8 (v :: 32 word)"
  by (rule bit_word_eqI) (auto simp: bit_simps)

lemma word_bytes:
  "take_bit 8 v OR push_bit 8 (take_bit 8 (drop_bit 8 v)) OR push_bit 16 (take_bit 8 (drop_bit 16 v)) OR
     push_bit 24 (take_bit 8 (drop_bit 24 v)) = (v :: 32 word)"
proof (rule bit_word_eqI)
  fix n assume "n < LENGTH(32)"
  then have n: "n < 32" by simp
  consider "n < 8" | "8 \<le> n" "n < 16" | "16 \<le> n" "n < 24" | "24 \<le> n" by linarith
  then show "bit (take_bit 8 v OR push_bit 8 (take_bit 8 (drop_bit 8 v)) OR push_bit 16 (take_bit 8 (drop_bit 16 v)) OR
     push_bit 24 (take_bit 8 (drop_bit 24 v))) n = bit v n"
    by cases (use n in \<open>auto simp: bit_simps\<close>)
qed

lemma word_bytes_16: "take_bit 8 v OR push_bit 8 (take_bit 8 (drop_bit 8 v)) = take_bit 16 (v :: 32 word)"
  by (rule bit_word_eqI) (auto simp: bit_simps)

lemmas bytes_get_set = getByte_set low_byte byte_cast

lemma le_word_set:
  assumes "off + 4 \<le> length m"
  shows "le_word (set_le_word off v m) off = v" "be_word (set_be_word off v m) off = v"
proof -
  show "le_word (set_le_word off v m) off = v"
    using assms word_bytes [of v] by (simp add: le_word_def set_le_word_def bytes_get_set or.assoc)
  have "push_bit 24 (take_bit 8 (drop_bit 24 v)) OR push_bit 16 (take_bit 8 (drop_bit 16 v)) OR
     push_bit 8 (take_bit 8 (drop_bit 8 v)) OR take_bit 8 v = v"
    using word_bytes [of v] by (simp only: or.commute or.left_commute)
  then show "be_word (set_be_word off v m) off = v"
    using assms by (simp add: be_word_def set_be_word_def bytes_get_set or.assoc)
qed

lemma length_set_words [simp]:
  "off + 4 \<le> length m \<Longrightarrow> length (set_le_word off v m) = length m"
  "off + 4 \<le> length m \<Longrightarrow> length (set_be_word off v m) = length m"
  by (simp_all add: set_le_word_def set_be_word_def)

lemma nth_set_words:
  "off + 4 \<le> length m \<Longrightarrow> j < off \<or> off + 4 \<le> j \<Longrightarrow> set_le_word off v m ! j = m ! j"
  "off + 4 \<le> length m \<Longrightarrow> j < off \<or> off + 4 \<le> j \<Longrightarrow> set_be_word off v m ! j = m ! j"
  by (auto simp: set_le_word_def set_be_word_def nth_setByte)

lemma word_cong:
  assumes "\<And>j. off \<le> j \<Longrightarrow> j < off + 4 \<Longrightarrow> m ! j = m' ! j"
  shows "le_word m off = le_word m' off" "be_word m off = be_word m' off"
  using assms [of off] assms [of "off + 1"] assms [of "off + 2"] assms [of "off + 3"]
  by (simp_all add: le_word_def be_word_def getByte_def)

text \<open>The integer a number stands for, and what an element of so many bits makes of it.\<close>

fun num_int :: "jsnum \<Rightarrow> int" where
  "num_int (Fin r) = trunc_rat r"
| "num_int _ = 0"

definition signed_of :: "nat \<Rightarrow> int \<Rightarrow> int" where
  "signed_of n x = (let u = x mod 2 ^ n in if 2 ^ (n - 1) \<le> u then u - 2 ^ n else u)"

lemma to_int32_num: "to_int32 v = word_of_int (num_int v)"
  by (cases v) simp_all

lemma uint_low:
  assumes "n \<le> 32" shows "uint (take_bit n (word_of_int i :: 32 word)) = i mod 2 ^ n"
proof -
  have "uint (take_bit n (word_of_int i :: 32 word)) = take_bit n (take_bit 32 i)"
    unfolding unsigned_take_bit_eq uint_word_of_int_eq by simp
  also have "\<dots> = take_bit n i" using assms by (simp only: take_bit_take_bit min.absorb1)
  finally show ?thesis by (simp only: take_bit_eq_mod)
qed

lemma uint_full: "uint (word_of_int i :: 32 word) = i mod 2 ^ 32"
  by (simp add: unsigned_of_int take_bit_eq_mod)

lemma signed_of_shift: "0 < n \<Longrightarrow> signed_of n i = (i + 2 ^ (n - 1)) mod 2 ^ n - 2 ^ (n - 1)"
proof -
  assume "0 < n"
  then obtain k where n: "n = Suc k" by (cases n) auto
  define h :: int where "h = 2 ^ k"
  define u where "u = i mod (2 * h)"
  have h: "0 < h" "0 \<le> u" "u < 2 * h" by (simp_all add: h_def u_def)
  have "(i + h) mod (2 * h) = (u + h) mod (2 * h)" by (simp add: u_def mod_add_left_eq)
  also have "\<dots> = (if h \<le> u then u - h else u + h)"
    using h mod_pos_pos_trivial [of "u - h" "2 * h"] mod_add_self2 [of "u - h" "2 * h"] by (auto simp: algebra_simps)
  finally show ?thesis by (simp add: n signed_of_def Let_def u_def flip: h_def)
qed

lemma sint_full: "sint (word_of_int i :: 32 word) = signed_of 32 i"
proof -
  have "sint (word_of_int i :: 32 word) = signed_take_bit 31 i" by (simp add: signed_of_int)
  also have "\<dots> = (i + 2 ^ 31) mod 2 ^ 32 - 2 ^ 31" by (simp add: signed_take_bit_eq_take_bit_shift take_bit_eq_mod)
  finally show ?thesis by (simp add: signed_of_shift)
qed

section \<open>The element types\<close>

datatype elem_kind = U8 | I8 | U8C | U16 | I16 | U32 | I32 | BI64 | BU64

text \<open>A coerced value: a number or a \<open>BigInt\<close>.\<close>

datatype elem_value = Num jsnum | Big int

fun is_big :: "elem_kind \<Rightarrow> bool" where
  "is_big BI64 = True"
| "is_big BU64 = True"
| "is_big _ = False"

fun bytes_per_element :: "elem_kind \<Rightarrow> nat" where
  "bytes_per_element U8 = 1"
| "bytes_per_element I8 = 1"
| "bytes_per_element U8C = 1"
| "bytes_per_element U16 = 2"
| "bytes_per_element I16 = 2"
| "bytes_per_element U32 = 4"
| "bytes_per_element I32 = 4"
| "bytes_per_element BI64 = 8"
| "bytes_per_element BU64 = 8"

fun get_elem :: "elem_kind \<Rightarrow> byte list \<Rightarrow> nat \<Rightarrow> int" where
  "get_elem U8 m off = getU8 m off"
| "get_elem I8 m off = getI8 m off"
| "get_elem U8C m off = getU8 m off"
| "get_elem U16 m off = getU16 m off"
| "get_elem I16 m off = getI16 m off"
| "get_elem U32 m off = getU32 m off"
| "get_elem I32 m off = getI32 m off"
| "get_elem BI64 m off = getBigInt64 m off True"
| "get_elem BU64 m off = getBigUint64 m off True"

fun set_elem :: "elem_kind \<Rightarrow> nat \<Rightarrow> elem_value \<Rightarrow> byte list \<Rightarrow> byte list" where
  "set_elem U8 off (Num v) m = setU8 off v m"
| "set_elem I8 off (Num v) m = setI8 off v m"
| "set_elem U8C off (Num v) m = setU8Clamped off v m"
| "set_elem U16 off (Num v) m = setU16 off v m"
| "set_elem I16 off (Num v) m = setI16 off v m"
| "set_elem U32 off (Num v) m = setU32 off v m"
| "set_elem I32 off (Num v) m = setI32 off v m"
| "set_elem BI64 off (Big v) m = setBigInt64 off v True m"
| "set_elem BU64 off (Big v) m = setBigUint64 off v True m"
| "set_elem k off v m = m"

text \<open>What an element holds of a value.\<close>

fun held :: "elem_kind \<Rightarrow> elem_value \<Rightarrow> int" where
  "held U8 (Num v) = num_int v mod 2 ^ 8"
| "held I8 (Num v) = signed_of 8 (num_int v)"
| "held U8C (Num v) = uint (clampU8 v)"
| "held U16 (Num v) = num_int v mod 2 ^ 16"
| "held I16 (Num v) = signed_of 16 (num_int v)"
| "held U32 (Num v) = num_int v mod 2 ^ 32"
| "held I32 (Num v) = signed_of 32 (num_int v)"
| "held BI64 (Big v) = signed_of 64 v"
| "held BU64 (Big v) = v mod 2 ^ 64"
| "held _ _ = 0"

fun is_big_value :: "elem_value \<Rightarrow> bool" where
  "is_big_value (Num _) = False"
| "is_big_value (Big _) = True"

definition fits :: "elem_kind \<Rightarrow> elem_value \<Rightarrow> bool" where
  "fits k v \<longleftrightarrow> is_big k = is_big_value v"

lemma take_bit_word:
  assumes "n \<le> 32" shows "take_bit n (word_of_int i :: 32 word) = word_of_int (i mod 2 ^ n)"
proof (rule word_uint_eqI)
  have "i mod 2 ^ n < 2 ^ n" by simp
  also have "(2::int) ^ n \<le> 2 ^ 32" using assms by (intro power_increasing) simp_all
  finally have "i mod 2 ^ n mod 2 ^ 32 = i mod 2 ^ n" by (intro mod_pos_pos_trivial) simp_all
  then show "uint (take_bit n (word_of_int i :: 32 word)) = uint (word_of_int (i mod 2 ^ n) :: 32 word)"
    using uint_low [OF assms, of i] by (simp only: uint_full)
qed

lemma clampU8_small: "take_bit 8 (clampU8 v) = clampU8 v"
proof (cases v)
  case (Fin r)
  have small: "take_bit 8 (word_of_int i :: 32 word) = word_of_int i" if "0 \<le> i" "i < 256" for i
    using that by (simp add: take_bit_word)
  have "0 \<le> \<lfloor>r\<rfloor> \<and> \<lfloor>r\<rfloor> + 1 < 256" if "0 < r" "r < 255"
    using that by (simp add: floor_less_iff)
  then show ?thesis using Fin small [of "\<lfloor>r\<rfloor>"] small [of "\<lfloor>r\<rfloor> + 1"] by (auto simp: Let_def take_bit_eq_mod)
qed (simp_all add: take_bit_eq_mod)

lemma getU8_set:
  assumes "off < length m"
  shows "getU8 (setU8 off v m) off = num_int v mod 2 ^ 8"
  using assms by (simp add: getU8_def setU8_def bytes_get_set to_int32_num uint_low del: take_bit_word)

lemma getU16_set:
  assumes "off + 2 \<le> length m"
  shows "getU16 (setU16 off v m) off = num_int v mod 2 ^ 16"
proof -
  have "getU16 (setU16 off v m) off = sint (take_bit 16 (to_int32 v))"
    using assms by (simp add: getU16_def setU16_def bytes_get_set word_bytes_16)
  also have "\<dots> = signed_of 32 (num_int v mod 2 ^ 16)" by (simp only: to_int32_num take_bit_word sint_full)
  also have "\<dots> = num_int v mod 2 ^ 16"
    using pos_mod_bound [of "65536" "num_int v"] by (simp add: signed_of_def mod_pos_pos_trivial Let_def)
  finally show ?thesis .
qed

lemma hi_lo:
  assumes "bigIntToHiLo v = (hi, lo)"
  shows "uint32PairToBigInt hi lo = v mod 2 ^ 64"
proof -
  define u where "u = v mod 2 ^ 64"
  have "trunc_rem v 18446744073709551616 mod 2 ^ 64 = u" 
    by (cases v "0::int" rule: linorder_cases) (simp_all add: trunc_rem_def u_def mod_minus_eq)
  moreover have "\<bar>trunc_rem v 18446744073709551616\<bar> < 2 ^ 64" by (simp add: trunc_rem_def abs_mult)
  ultimately have "(if r < 0 then r + 18446744073709551616 else r) = u" if "r = trunc_rem v 18446744073709551616" for r
    using that mod_pos_pos_trivial [of "r + 18446744073709551616" "18446744073709551616"]
      mod_pos_pos_trivial [of r "18446744073709551616"] by auto
  then have "hi = word_of_int (u div 4294967296)" "lo = word_of_int (u mod 4294967296)"
    using assms by (simp_all add: bigIntToHiLo_def Let_def)
  moreover have "0 \<le> u" "u < 2 ^ 64" by (simp_all add: u_def)
  then have "0 \<le> u div 4294967296" "u div 4294967296 < 4294967296" by (simp_all add: div_less_iff_less_mult)
  ultimately show ?thesis
    by (simp add: uint32PairToBigInt_def uint_full mod_pos_pos_trivial u_def)
qed

lemma getBig_set:
  assumes "off + 8 \<le> length m"
  shows "getBigUint64 (setBigUint64 off v le m) off le = v mod 2 ^ 64"
    "getBigInt64 (setBigInt64 off v le m) off le = signed_of 64 v"
proof -
  obtain hi lo where hl: "bigIntToHiLo v = (hi, lo)" by (cases "bigIntToHiLo v")
  have "le_word (set_le_word (off + 4) hi (set_le_word off lo m)) off = lo"
    "be_word (set_be_word (off + 4) lo (set_be_word off hi m)) off = hi"
    using assms le_word_set [of off m]
      word_cong [of off "set_le_word (off + 4) hi (set_le_word off lo m)" "set_le_word off lo m"]
      word_cong [of off "set_be_word (off + 4) lo (set_be_word off hi m)" "set_be_word off hi m"]
    by (simp_all add: nth_set_words)
  moreover have "le_word (set_le_word (off + 4) hi (set_le_word off lo m)) (off + 4) = hi"
    "be_word (set_be_word (off + 4) lo (set_be_word off hi m)) (off + 4) = lo"
    using assms le_word_set [of "off + 4"] by simp_all
  ultimately show u: "getBigUint64 (setBigUint64 off v le m) off le = v mod 2 ^ 64"
    using hi_lo [OF hl] hl by (simp add: getBigUint64_def setBigUint64_def)
  then show "getBigInt64 (setBigInt64 off v le m) off le = signed_of 64 v"
    by (auto simp: getBigInt64_def setBigInt64_def unsigned64ToSignedBigInt_def signed_of_def Let_def)
qed

lemma get_set_elem:
  assumes "off + bytes_per_element k \<le> length m" "fits k v"
  shows "get_elem k (set_elem k off v m) off = held k v"
proof -
  have i8: "getI8 (setI8 off v m) off = signed_of 8 (num_int v)" if "off < length m" for v
    using getU8_set [OF that, of v] by (simp add: getI8_def setI8_def getU8_def setU8_def signed_of_def Let_def)
  have u8c: "getU8 (setU8Clamped off v m) off = uint (clampU8 v)" if "off < length m" for v
    using that byte_cast [of "clampU8 v"] by (simp add: getU8_def setU8Clamped_def getByte_set clampU8_small)
  have i16: "getI16 (setI16 off v m) off = signed_of 16 (num_int v)" if "off + 2 \<le> length m" for v
    using getU16_set [OF that, of v] by (simp add: getI16_def setI16_def signed_of_def Let_def)
  have u32: "getU32 (setU32 off v m) off = num_int v mod 2 ^ 32" "getI32 (setI32 off v m) off = signed_of 32 (num_int v)"
    if "off + 4 \<le> length m" for v
    using le_word_set(1) [OF that] by (simp_all add: getU32_def getI32_def setI32_def setU32_def to_int32_num uint_full sint_full)
  show ?thesis
    using assms i8 u8c i16 u32 getU8_set [of off m] getU16_set [of off m] getBig_set [of off m]
    by (cases k; cases v) (simp_all add: fits_def)
qed

text \<open>
  The contract of an element type, on which typed arrays rest: an element is read back as it is held, writing it
  touches its own bytes only, and reading it looks at its own bytes only.
\<close>

locale element_type =
  fixes bpe :: nat and get :: "byte list \<Rightarrow> nat \<Rightarrow> int" and set :: "nat \<Rightarrow> 'v \<Rightarrow> byte list \<Rightarrow> byte list"
    and hold :: "'v \<Rightarrow> int" and ok :: "'v \<Rightarrow> bool"
  assumes bpe_pos: "0 < bpe"
    and get_set: "off + bpe \<le> length m \<Longrightarrow> ok v \<Longrightarrow> get (set off v m) off = hold v"
    and set_length: "off + bpe \<le> length m \<Longrightarrow> length (set off v m) = length m"
    and set_other: "off + bpe \<le> length m \<Longrightarrow> j < off \<or> off + bpe \<le> j \<Longrightarrow> set off v m ! j = m ! j"
    and get_cong: "(\<And>j. off \<le> j \<Longrightarrow> j < off + bpe \<Longrightarrow> m ! j = m' ! j) \<Longrightarrow> get m off = get m' off"
begin

lemma apart: "i \<noteq> j \<Longrightarrow> base + i * bpe + bpe \<le> base + j * bpe \<or> base + j * bpe + bpe \<le> base + i * bpe"
  by (metis add.assoc add.commute add_le_cancel_left linorder_neqE_nat mult.commute mult_Suc mult_le_mono2 Suc_leI)

text \<open>Writing element \<open>i\<close> of an array of \<open>n\<close> elements from \<open>base\<close> on, or outside of it.\<close>

lemma write_element:
  assumes "i < n" "base + n * bpe \<le> length m" "ok v"
  shows "map (\<lambda>j. get (set (base + i * bpe) v m) (base + j * bpe)) [0..<n] =
    (map (\<lambda>j. get m (base + j * bpe)) [0..<n])[i := hold v]"
proof (rule nth_equalityI)
  fix j assume j: "j < length (map (\<lambda>j. get (set (base + i * bpe) v m) (base + j * bpe)) [0..<n])"
  have i: "base + i * bpe + bpe \<le> length m"
    using assms(1,2) mult_le_mono1 [of "Suc i" n bpe] by (simp add: algebra_simps)
  have "get (set (base + i * bpe) v m) (base + j * bpe) = get m (base + j * bpe)" if "i \<noteq> j"
    using apart [OF that, of base] by (intro get_cong set_other [OF i]) linarith
  then show "map (\<lambda>j. get (set (base + i * bpe) v m) (base + j * bpe)) [0..<n] ! j =
      (map (\<lambda>j. get m (base + j * bpe)) [0..<n])[i := hold v] ! j"
    using i j get_set [OF _ assms(3)] by (cases "i = j") simp_all
qed simp

lemma write_outside:
  assumes "off + bpe \<le> base \<or> base + n * bpe \<le> off" "off + bpe \<le> length m"
  shows "map (\<lambda>j. get (set off v m) (base + j * bpe)) [0..<n] = map (\<lambda>j. get m (base + j * bpe)) [0..<n]"
proof (rule map_cong [OF refl])
  fix j assume "j \<in> List.set [0..<n]"
  then have "base + j * bpe + bpe \<le> base + n * bpe" using mult_le_mono1 [of "Suc j" n bpe] by simp
  then show "get (set off v m) (base + j * bpe) = get m (base + j * bpe)"
    using assms by (intro get_cong set_other [OF assms(2)]) linarith
qed

end

lemma set_elem_length: "off + bytes_per_element k \<le> length m \<Longrightarrow> length (set_elem k off v m) = length m"
  by (cases k; cases v) (simp_all add: setU8_def setI8_def setU8Clamped_def setU16_def setI16_def setU32_def setI32_def
      setBigInt64_def setBigUint64_def split: prod.split)

lemma set_elem_other: "off + bytes_per_element k \<le> length m \<Longrightarrow> j < off \<or> off + bytes_per_element k \<le> j \<Longrightarrow> set_elem k off v m ! j = m ! j"
  by (cases k; cases v) (auto simp: setU8_def setI8_def setU8Clamped_def setU16_def setI16_def setU32_def setI32_def
      setBigInt64_def setBigUint64_def nth_setByte nth_set_words split: prod.split)

lemma get_elem_cong:
  assumes "\<And>j. off \<le> j \<Longrightarrow> j < off + bytes_per_element k \<Longrightarrow> m ! j = m' ! j"
  shows "get_elem k m off = get_elem k m' off"
proof (cases k)
  case BI64
  then show ?thesis using assms word_cong [of off m m'] word_cong [of "off + 4" m m'] by (simp add: getBigInt64_def getBigUint64_def)
next
  case BU64
  then show ?thesis using assms word_cong [of off m m'] word_cong [of "off + 4" m m'] by (simp add: getBigUint64_def)
qed (use assms assms [of off] assms [of "off + 1"] word_cong [of off m m'] in
    \<open>simp_all add: getU8_def getI8_def getU16_def getI16_def getU32_def getI32_def getByte_def\<close>)

interpretation elem: element_type "bytes_per_element k" "get_elem k" "set_elem k" "held k" "fits k" for k
proof
  show "0 < bytes_per_element k" by (cases k) simp_all
qed (fact get_set_elem set_elem_length set_elem_other get_elem_cong)+

end
