(* ===== verification/ArrayBuffers.thy ===== *)
theory ArrayBuffers
  imports Binary
begin

text \<open>
  \<open>binary_types.js\<close>: \<open>ArrayBuffer\<close>. A buffer is a record that the operations return changed; all views of it
  see the same bytes. \<open>buf.alloc\<close> gives zeros. The species constructor of \<open>slice\<close> is the default one.
  Coercions that run user code are not modelled.
\<close>

section \<open>Buffers\<close>

record array_buffer =
  ab_bytes :: "byte list"
  ab_max :: nat
  ab_resizable :: bool
  ab_immutable :: bool
  ab_detached :: bool

definition parseBufferCtorArgs :: "jsnum option \<Rightarrow> jsnum option \<Rightarrow> (nat \<times> nat \<times> bool) result" where
  "parseBufferCtorArgs byteLength maxByteLength =
     bind_result (toIndex byteLength) (\<lambda>len.
       case maxByteLength of
         None \<Rightarrow> Inr (len, len, False)
       | Some n \<Rightarrow>
           bind_result (toIndex (Some n)) (\<lambda>mx.
             if mx < len then Inl (RangeError ''maxByteLength must be >= byteLength'') else Inr (len, mx, True)))"

definition ab_new :: "jsnum option \<Rightarrow> jsnum option \<Rightarrow> array_buffer result" where
  "ab_new byteLength maxByteLength =
     bind_result (parseBufferCtorArgs byteLength maxByteLength) (\<lambda>(len, mx, resizable).
       bind_result (checkAllocLimit len) (\<lambda>_. bind_result (checkAllocLimit mx) (\<lambda>_.
         Inr \<lparr>ab_bytes = replicate len 0, ab_max = mx, ab_resizable = resizable, ab_immutable = False, ab_detached = False\<rparr>)))"

definition detachArrayBuffer :: "array_buffer \<Rightarrow> array_buffer" where
  "detachArrayBuffer b = (if ab_detached b then b else b\<lparr>ab_bytes := [], ab_detached := True\<rparr>)"

text \<open>\<open>buf.copy\<close>; it writes past the end of the target when the target is too short.\<close>

definition buf_copy :: "byte list \<Rightarrow> nat \<Rightarrow> byte list \<Rightarrow> nat \<Rightarrow> nat \<Rightarrow> byte list" where
  "buf_copy dst doff src soff n = take doff dst @ take n (drop soff src) @ drop (doff + n) dst"

definition buf_fill :: "byte list \<Rightarrow> nat \<Rightarrow> nat \<Rightarrow> byte \<Rightarrow> byte list" where
  "buf_fill m off n x = take off m @ replicate n x @ drop (off + n) m"

definition ab_resize :: "jsnum option \<Rightarrow> array_buffer \<Rightarrow> array_buffer result" where
  "ab_resize newByteLength b =
     (if ab_immutable b then Inl (TypeError ''Cannot resize an immutable ArrayBuffer'')
      else if \<not> ab_resizable b then Inl (TypeError ''ArrayBuffer is not resizable'')
      else
        bind_result (toIndex newByteLength) (\<lambda>newLen.
          if ab_detached b then Inl (TypeError ''Cannot resize a detached ArrayBuffer'')
          else if ab_max b < newLen then Inl (RangeError ''New byte length exceeds maxByteLength'')
          else
            (let oldLen = length (ab_bytes b)
             in if newLen = oldLen then Inr b
                else
                  bind_result (checkAllocLimit newLen) (\<lambda>_.
                    let fresh = replicate newLen 0;
                        copyLen = min oldLen newLen;
                        copied = (if 0 < copyLen then buf_copy fresh 0 (ab_bytes b) 0 copyLen else fresh);
                        filled = (if oldLen < newLen then buf_fill copied oldLen (newLen - oldLen) 0 else copied)
                    in Inr (b\<lparr>ab_bytes := filled\<rparr>)))))"

datatype transfer_mode = PreserveResizability | FixedLength | Immutable

definition transferTo :: "jsnum option \<Rightarrow> transfer_mode \<Rightarrow> array_buffer \<Rightarrow> (array_buffer \<times> array_buffer) result" where
  "transferTo newLength mode b =
     (let oldLen = length (ab_bytes b)
      in bind_result (case newLength of None \<Rightarrow> Inr oldLen | Some n \<Rightarrow> toIndex (Some n)) (\<lambda>targetLen.
           if ab_detached b then Inl (TypeError ''Cannot transfer a detached ArrayBuffer'')
           else if ab_immutable b then Inl (TypeError ''Cannot transfer an immutable ArrayBuffer'')
           else
             bind_result (checkAllocLimit targetLen) (\<lambda>_.
               let preserve = (mode = PreserveResizability \<and> ab_resizable b)
               in if preserve \<and> ab_max b < targetLen then Inl (RangeError ''New byte length exceeds maxByteLength'')
                  else
                    (let copyLen = min oldLen targetLen; fresh = replicate targetLen 0
                     in Inr (\<lparr>ab_bytes = (if 0 < copyLen then buf_copy fresh 0 (ab_bytes b) 0 copyLen else fresh),
                              ab_max = (if preserve then ab_max b else targetLen), ab_resizable = preserve,
                              ab_immutable = (mode = Immutable), ab_detached = False\<rparr>,
                             detachArrayBuffer b)))))"

definition slice_bytes :: "jsnum option \<Rightarrow> jsnum option \<Rightarrow> byte list \<Rightarrow> byte list result" where
  "slice_bytes begin0 end0 m =
     (let len = length m; start = relativeStart begin0 len; fin = relativeEnd end0 len; newLen = fin - start
      in bind_result (checkAllocLimit newLen) (\<lambda>_.
           Inr (if 0 < newLen then buf_copy (replicate newLen 0) 0 m start newLen else replicate newLen 0)))"

definition ab_slice :: "jsnum option \<Rightarrow> jsnum option \<Rightarrow> array_buffer \<Rightarrow> array_buffer result" where
  "ab_slice begin0 end0 b =
     (if ab_detached b then Inl (TypeError ''ArrayBuffer.prototype.slice called on a detached ArrayBuffer'')
      else
        bind_result (slice_bytes begin0 end0 (ab_bytes b)) (\<lambda>m.
          Inr \<lparr>ab_bytes = m, ab_max = length m, ab_resizable = False, ab_immutable = False, ab_detached = False\<rparr>))"

definition ab_sliceToImmutable :: "jsnum option \<Rightarrow> jsnum option \<Rightarrow> array_buffer \<Rightarrow> array_buffer result" where
  "ab_sliceToImmutable begin0 end0 b =
     (if ab_detached b then Inl (TypeError ''ArrayBuffer.prototype.sliceToImmutable called on a detached ArrayBuffer'')
      else
        bind_result (checkAllocLimit (length (ab_bytes b))) (\<lambda>_.
          bind_result (slice_bytes begin0 end0 (ab_bytes b)) (\<lambda>m.
            Inr \<lparr>ab_bytes = m, ab_max = length m, ab_resizable = False, ab_immutable = True, ab_detached = False\<rparr>)))"

end
