(* ===== verification/TypedArrays.thy ===== *)
theory TypedArrays
  imports ArrayBuffers
begin

text \<open>
  \<open>binary_types.js\<close>: typed arrays. A method takes the view and the buffer. Without user code in coercions the
  repeated checks of one call (\<open>_revalidateWitness\<close>) see what the first one saw. Species constructors are the
  default ones, except for the copy of \<open>slice\<close>, whose target is an argument. The list of elements
  of a view, \<open>elems\<close>, is what \<open>TypedArrayLists\<close> proves the operations against.
\<close>

section \<open>Typed arrays\<close>

text \<open>The length counts elements; an array that is not fixed follows the length of its buffer.\<close>

record typed_array =
  ta_kind :: elem_kind
  ta_offset :: nat
  ta_fixed :: bool
  ta_len :: nat

abbreviation ta_bpe :: "typed_array \<Rightarrow> nat" where
  "ta_bpe v \<equiv> bytes_per_element (ta_kind v)"

definition ta_new :: "elem_kind \<Rightarrow> array_buffer \<Rightarrow> jsnum option \<Rightarrow> jsnum option \<Rightarrow> typed_array result" where
  "ta_new k b byteOffset len =
     (let bpe = bytes_per_element k; total = length (ab_bytes b)
      in bind_result (toIndex byteOffset) (\<lambda>off.
           if ab_detached b then Inl (TypeError ''Cannot construct TypedArray from detached ArrayBuffer'')
           else if off mod bpe \<noteq> 0 then Inl (RangeError ''byteOffset must be aligned'')
           else if total < off then Inl (RangeError ''byteOffset out of range'')
           else case len of
             Some n \<Rightarrow>
               bind_result (toIndex (Some n)) (\<lambda>count.
                 if total < off + count * bpe then Inl (RangeError ''Invalid typed array length'')
                 else Inr \<lparr>ta_kind = k, ta_offset = off, ta_fixed = True, ta_len = count\<rparr>)
           | None \<Rightarrow>
               if (total - off) mod bpe \<noteq> 0
               then Inl (RangeError ''byte length of ArrayBuffer is not a multiple of element size'')
               else Inr \<lparr>ta_kind = k, ta_offset = off, ta_fixed = False, ta_len = (total - off) div bpe\<rparr>))"

definition taIsOutOfBounds :: "typed_array \<Rightarrow> array_buffer \<Rightarrow> bool" where
  "taIsOutOfBounds v b \<longleftrightarrow>
     (if ab_detached b then True
      else if length (ab_bytes b) < ta_offset v then True
      else if ta_fixed v then length (ab_bytes b) < ta_offset v + ta_len v * ta_bpe v
      else False)"

definition taLength :: "typed_array \<Rightarrow> array_buffer \<Rightarrow> nat" where
  "taLength v b =
     (if ab_detached b then 0
      else if length (ab_bytes b) < ta_offset v then 0
      else if \<not> ta_fixed v then (length (ab_bytes b) - ta_offset v) div ta_bpe v
      else if length (ab_bytes b) < ta_offset v + ta_len v * ta_bpe v then 0
      else ta_len v)"

definition taValidate :: "typed_array \<Rightarrow> array_buffer \<Rightarrow> unit result" where
  "taValidate v b =
     (if ab_detached b then Inl (TypeError ''Cannot perform TypedArray operation on a detached ArrayBuffer'')
      else if taIsOutOfBounds v b then Inl (TypeError ''Cannot perform TypedArray operation on an out-of-bounds TypedArray'')
      else Inr ())"

definition requireMutable :: "array_buffer \<Rightarrow> unit result" where
  "requireMutable b = (if ab_immutable b then Inl (TypeError ''Cannot modify an immutable ArrayBuffer'') else Inr ())"

definition readAt :: "typed_array \<Rightarrow> array_buffer \<Rightarrow> int \<Rightarrow> int option" where
  "readAt v b idx =
     (if ab_detached b \<or> taIsOutOfBounds v b then None
      else if idx < 0 \<or> int (taLength v b) \<le> idx then None
      else Some (get_elem (ta_kind v) (ab_bytes b) (ta_offset v + nat idx * ta_bpe v)))"

definition coerce_elem :: "elem_kind \<Rightarrow> elem_value \<Rightarrow> unit result" where
  "coerce_elem k x =
     (if fits k x then Inr ()
      else if is_big k then Inl (TypeError ''Cannot convert number to BigInt'')
      else Inl (TypeError ''Cannot convert a BigInt value to a number''))"

definition writeAt :: "typed_array \<Rightarrow> int \<Rightarrow> elem_value \<Rightarrow> array_buffer \<Rightarrow> array_buffer result" where
  "writeAt v idx x b =
     bind_result (coerce_elem (ta_kind v) x) (\<lambda>_.
       if ab_detached b \<or> taIsOutOfBounds v b then Inr b
       else if idx < 0 \<or> int (taLength v b) \<le> idx then Inr b
       else
         bind_result (requireMutable b) (\<lambda>_.
           Inr (b\<lparr>ab_bytes := set_elem (ta_kind v) (ta_offset v + nat idx * ta_bpe v) x (ab_bytes b)\<rparr>)))"

text \<open>The value that reading an element gives; \<open>undefined\<close> converts as \<open>NaN\<close> does.\<close>

definition js_nat :: "nat \<Rightarrow> jsnum" where "js_nat n = Fin (of_nat n)"

definition elem_of :: "elem_kind \<Rightarrow> int \<Rightarrow> elem_value" where
  "elem_of k i = (if is_big k then Big i else Num (Fin (of_int i)))"

definition read_value :: "typed_array \<Rightarrow> array_buffer \<Rightarrow> int \<Rightarrow> elem_value" where
  "read_value v b i = (case readAt v b i of Some x \<Rightarrow> elem_of (ta_kind v) x | None \<Rightarrow> Num NaN)"

definition ta_alloc :: "elem_kind \<Rightarrow> nat \<Rightarrow> typed_array \<times> array_buffer" where
  "ta_alloc k n =
     (\<lparr>ta_kind = k, ta_offset = 0, ta_fixed = True, ta_len = n\<rparr>,
      \<lparr>ab_bytes = replicate (n * bytes_per_element k) 0, ab_max = n * bytes_per_element k, ab_resizable = False,
       ab_immutable = False, ab_detached = False\<rparr>)"

definition taCreateSameType :: "typed_array \<Rightarrow> nat \<Rightarrow> (typed_array \<times> array_buffer) result" where
  "taCreateSameType v n = bind_result (checkAllocLimit (n * ta_bpe v)) (\<lambda>_. Inr (ta_alloc (ta_kind v) n))"

definition ta_at :: "typed_array \<Rightarrow> array_buffer \<Rightarrow> jsnum option \<Rightarrow> int option result" where
  "ta_at v b index =
     bind_result (taValidate v b) (\<lambda>_.
       let len = int (taLength v b)
       in case toIntegerOrInfinity (case index of None \<Rightarrow> NaN | Some n \<Rightarrow> n) of
            XI n \<Rightarrow> (let k = (if n < 0 then len + n else n)
                   in if k < 0 \<or> len \<le> k then Inr None else Inr (readAt v b k))
          | _ \<Rightarrow> Inr None)"

text \<open>The second argument of \<open>subarray\<close> may be absent, or present and \<open>undefined\<close>.\<close>

definition ta_subarray :: "typed_array \<Rightarrow> array_buffer \<Rightarrow> jsnum option \<Rightarrow> jsnum option option \<Rightarrow> typed_array result" where
  "ta_subarray v b begin0 end0 =
     bind_result (taValidate v b) (\<lambda>_.
       let len = taLength v b;
           start = relativeStart begin0 len;
           fin = (case end0 of None \<Rightarrow> len | Some e \<Rightarrow> relativeEnd e len);
           newLen = min fin (taLength v b) - start;
           byteOff = ta_offset v + start * ta_bpe v
       in if \<not> ta_fixed v \<and> end0 = None then ta_new (ta_kind v) b (Some (js_nat byteOff)) None
          else ta_new (ta_kind v) b (Some (js_nat byteOff)) (Some (js_nat newLen)))"

text \<open>\<open>slice\<close> fills what the species constructor returns.\<close>

definition taSpeciesCreate ::
  "(nat \<Rightarrow> typed_array \<times> array_buffer) \<Rightarrow> typed_array \<Rightarrow> nat \<Rightarrow> (typed_array \<times> array_buffer) result" where
  "taSpeciesCreate species v n =
     bind_result (checkAllocLimit (n * ta_bpe v)) (\<lambda>_.
       if taLength (fst (species n)) (snd (species n)) < n
       then Inl (TypeError ''Species constructor produced a TypedArray with insufficient length'')
       else Inr (species n))"

definition ta_slice ::
  "(nat \<Rightarrow> typed_array \<times> array_buffer) \<Rightarrow> typed_array \<Rightarrow> array_buffer \<Rightarrow> jsnum option \<Rightarrow> jsnum option \<Rightarrow>
     (typed_array \<times> array_buffer) result" where
  "ta_slice species v b begin0 end0 =
     bind_result (taValidate v b) (\<lambda>_.
       let len = taLength v b;
           start = relativeStart begin0 len;
           newLen = relativeEnd end0 len - start;
           bpe = ta_bpe v
       in bind_result (checkAllocLimit (newLen * bpe)) (\<lambda>_.
          bind_result (taSpeciesCreate species v newLen) (\<lambda>(w, t).
            let copyLen = min newLen (taLength v b - start)
            in Inr (w, if 0 < copyLen
                       then t\<lparr>ab_bytes := buf_copy (ab_bytes t) 0 (ab_bytes b) (ta_offset v + start * bpe) (copyLen * bpe)\<rparr>
                       else t))))"

text \<open>The loops of \<open>set\<close>; what was written before an exception stays.\<close>

fun write_list :: "typed_array \<Rightarrow> nat \<Rightarrow> elem_value list \<Rightarrow> array_buffer \<Rightarrow> array_buffer \<times> js_error option" where
  "write_list v off [] b = (b, None)"
| "write_list v off (x # xs) b =
     (if taLength v b \<le> off then (b, None)
      else case writeAt v (int off) x b of
        Inl e \<Rightarrow> (b, Some e)
      | Inr b' \<Rightarrow> write_list v (off + 1) xs b')"

datatype set_source = FromArray typed_array "array_buffer option" | FromList "elem_value list"

fun source_length :: "set_source \<Rightarrow> array_buffer \<Rightarrow> nat result" where
  "source_length (FromArray w other) b =
     (let c = (case other of None \<Rightarrow> b | Some c \<Rightarrow> c)
      in bind_result (taValidate w c) (\<lambda>_. Inr (taLength w c)))"
| "source_length (FromList xs) b = Inr (length xs)"

definition stage_copy :: "elem_kind \<Rightarrow> elem_value list \<Rightarrow> elem_value list \<times> js_error option" where
  "stage_copy k xs =
     (let (t, c) = ta_alloc k (length xs); (c', err) = write_list t 0 xs c
      in (map (\<lambda>i. read_value t c' (int i)) [0..<length xs], err))"

fun source_values :: "elem_kind \<Rightarrow> set_source \<Rightarrow> nat \<Rightarrow> array_buffer \<Rightarrow> elem_value list \<times> js_error option" where
  "source_values k (FromArray w (Some c)) n b = (map (\<lambda>i. read_value w c (int i)) [0..<n], None)"
| "source_values k (FromArray w None) n b = stage_copy k (map (\<lambda>i. read_value w b (int i)) [0..<n])"
| "source_values k (FromList xs) n b = (xs, None)"

definition ta_set :: "typed_array \<Rightarrow> set_source \<Rightarrow> jsnum option \<Rightarrow> array_buffer \<Rightarrow> array_buffer \<times> js_error option" where
  "ta_set v src offset b =
     (case taValidate v b of
        Inl e \<Rightarrow> (b, Some e)
      | Inr _ \<Rightarrow>
          if ab_immutable b then (b, Some (TypeError ''Cannot modify an immutable ArrayBuffer''))
          else case (case offset of None \<Rightarrow> XI 0 | Some n \<Rightarrow> toIntegerOrInfinity n) of
            XNeg \<Rightarrow> (b, Some (RangeError ''Offset is out of bounds''))
          | XPos \<Rightarrow> (b, Some (RangeError ''Offset is out of bounds''))
          | XI rel \<Rightarrow>
              if rel < 0 then (b, Some (RangeError ''Offset is out of bounds''))
              else case source_length src b of
                Inl e \<Rightarrow> (b, Some e)
              | Inr srcLen \<Rightarrow>
                  (case checkAllocLimit (srcLen * ta_bpe v) of
                     Inl e \<Rightarrow> (b, Some e)
                   | Inr _ \<Rightarrow>
                       if taLength v b < nat rel + srcLen then (b, Some (RangeError ''Offset is out of bounds''))
                       else case source_values (ta_kind v) src srcLen b of
                         (_, Some e) \<Rightarrow> (b, Some e)
                       | (xs, None) \<Rightarrow> write_list v (nat rel) xs b))"

fun fill_loop :: "typed_array \<Rightarrow> nat list \<Rightarrow> elem_value \<Rightarrow> array_buffer \<Rightarrow> array_buffer result" where
  "fill_loop v [] x b = Inr b"
| "fill_loop v (i # is) x b =
     (if taLength v b = 0 then Inr b
      else if taLength v b \<le> i then Inr b
      else if ab_immutable b then Inl (TypeError ''Cannot modify an immutable ArrayBuffer'')
      else fill_loop v is x (b\<lparr>ab_bytes := set_elem (ta_kind v) (ta_offset v + i * ta_bpe v) x (ab_bytes b)\<rparr>))"

text \<open>One-byte elements in a buffer that cannot change its length are filled by \<open>memset\<close>.\<close>

definition fill_fast :: "typed_array \<Rightarrow> array_buffer \<Rightarrow> bool" where
  "fill_fast v b \<longleftrightarrow> ta_kind v \<in> {U8, I8} \<and> \<not> ab_resizable b \<and> \<not> ab_immutable b"

definition ta_fill :: "typed_array \<Rightarrow> elem_value \<Rightarrow> jsnum option \<Rightarrow> jsnum option \<Rightarrow> array_buffer \<Rightarrow> array_buffer result" where
  "ta_fill v x start end0 b =
     bind_result (taValidate v b) (\<lambda>_. bind_result (requireMutable b) (\<lambda>_. bind_result (coerce_elem (ta_kind v) x) (\<lambda>_.
       let len = taLength v b; s = relativeStart start len; e = relativeEnd end0 len
       in case x of
            Num f \<Rightarrow>
              if fill_fast v b \<and> s < e \<and> s < len
              then Inr (b\<lparr>ab_bytes := buf_fill (ab_bytes b) (ta_offset v + s) (min e len - s) (ucast (to_int32 f AND 0xFF))\<rparr>)
              else fill_loop v [s..<min e len] x b
          | Big _ \<Rightarrow> fill_loop v [s..<min e len] x b)))"

text \<open>Searching: \<open>===\<close> and \<open>SameValueZero\<close> agree on what elements hold.\<close>

fun search_loop :: "typed_array \<Rightarrow> array_buffer \<Rightarrow> elem_value \<Rightarrow> nat list \<Rightarrow> int" where
  "search_loop v b x [] = -1"
| "search_loop v b x (i # is) =
     (if ab_detached b then -1
      else if (case readAt v b (int i) of Some y \<Rightarrow> elem_of (ta_kind v) y = x | None \<Rightarrow> False) then int i
      else search_loop v b x is)"

definition ta_indexOf :: "typed_array \<Rightarrow> array_buffer \<Rightarrow> elem_value \<Rightarrow> jsnum option \<Rightarrow> int result" where
  "ta_indexOf v b x from =
     bind_result (taValidate v b) (\<lambda>_.
       let lenCap = taLength v b
       in if lenCap = 0 then Inr (-1)
          else
            (let n = (case from of None \<Rightarrow> XI 0 | Some f \<Rightarrow> toIntegerOrInfinity f)
             in if n = XPos then Inr (-1) else Inr (search_loop v b x [relative n lenCap..<lenCap])))"

definition ta_includes :: "typed_array \<Rightarrow> array_buffer \<Rightarrow> elem_value \<Rightarrow> jsnum option \<Rightarrow> bool result" where
  "ta_includes v b x from =
     bind_result (taValidate v b) (\<lambda>_.
       let lenCap = taLength v b
       in if lenCap = 0 then Inr False
          else
            (let n = (case from of None \<Rightarrow> XI 0 | Some f \<Rightarrow> toIntegerOrInfinity f)
             in if n = XPos then Inr False else Inr (search_loop v b x [relative n lenCap..<lenCap] \<noteq> -1)))"

definition ta_lastIndexOf :: "typed_array \<Rightarrow> array_buffer \<Rightarrow> elem_value \<Rightarrow> jsnum option \<Rightarrow> int result" where
  "ta_lastIndexOf v b x from =
     bind_result (taValidate v b) (\<lambda>_.
       let lenCap = taLength v b
       in if lenCap = 0 then Inr (-1)
          else
            (case (case from of None \<Rightarrow> XI (int lenCap - 1) | Some f \<Rightarrow> toIntegerOrInfinity f) of
               XNeg \<Rightarrow> Inr (-1)
             | XPos \<Rightarrow> Inr (search_loop v b x (rev [0..<lenCap]))
             | XI n \<Rightarrow>
                 (let i = (if n < 0 then int lenCap + n else min n (int lenCap - 1))
                  in Inr (search_loop v b x (rev [0..<nat (i + 1)])))))"

text \<open>\<open>copyWithin\<close> calls \<open>buf.copy\<close>, which is \<open>memcpy\<close> of the C library, on ranges of one buffer that may overlap.
  What \<open>memcpy\<close> does there is not specified, so it is a parameter here: target offset, source offset, count.\<close>

definition ta_copyWithin ::
  "(nat \<Rightarrow> nat \<Rightarrow> nat \<Rightarrow> byte list \<Rightarrow> byte list) \<Rightarrow> typed_array \<Rightarrow> jsnum option \<Rightarrow> jsnum option \<Rightarrow> jsnum option \<Rightarrow>
     array_buffer \<Rightarrow> array_buffer result" where
  "ta_copyWithin memcpy v target start end0 b =
     bind_result (taValidate v b) (\<lambda>_. bind_result (requireMutable b) (\<lambda>_.
       let len = taLength v b;
           to = relative (toIntegerOrInfinity (case target of None \<Rightarrow> NaN | Some n \<Rightarrow> n)) len;
           s = relativeStart start len;
           e = relativeEnd end0 len;
           count = min (int e - int s) (int len - int to)
       in if count \<le> 0 then Inr b
          else
            (let count = min count (min (int len - int to) (int len - int s))
             in if count \<le> 0 then Inr b
                else
                  bind_result (checkAllocLimit (nat count * ta_bpe v)) (\<lambda>_.
                    Inr (b\<lparr>ab_bytes :=
                           memcpy (ta_offset v + to * ta_bpe v) (ta_offset v + s * ta_bpe v) (nat count * ta_bpe v) (ab_bytes b)\<rparr>)))))"

fun reverse_loop :: "typed_array \<Rightarrow> nat \<Rightarrow> nat \<Rightarrow> array_buffer \<Rightarrow> array_buffer result" where
  "reverse_loop v i j b =
     (if j \<le> i then Inr b
      else if taLength v b = 0 then Inr b
      else
        (let tmp = read_value v b (int i)
         in bind_result (writeAt v (int i) (read_value v b (int j)) b) (\<lambda>b1.
            bind_result (writeAt v (int j) tmp b1) (\<lambda>b2. reverse_loop v (i + 1) (j - 1) b2))))"

declare reverse_loop.simps [simp del]

definition ta_reverse :: "typed_array \<Rightarrow> array_buffer \<Rightarrow> array_buffer result" where
  "ta_reverse v b =
     bind_result (taValidate v b) (\<lambda>_. bind_result (requireMutable b) (\<lambda>_. reverse_loop v 0 (taLength v b - 1) b))"

text \<open>Sorting without a comparison function: the built-in sort of numbers, then writing back.\<close>

definition ta_read_all :: "typed_array \<Rightarrow> array_buffer \<Rightarrow> int list" where
  "ta_read_all v b = List.map_filter (\<lambda>i. readAt v b (int i)) [0..<taLength v b]"

fun write_back :: "typed_array \<Rightarrow> nat \<Rightarrow> elem_value list \<Rightarrow> array_buffer \<Rightarrow> array_buffer result" where
  "write_back v i [] b = Inr b"
| "write_back v i (x # xs) b =
     bind_result (taValidate v b) (\<lambda>_.
       if taLength v b \<le> i then Inr b else bind_result (writeAt v (int i) x b) (write_back v (i + 1) xs))"

definition ta_sort :: "typed_array \<Rightarrow> array_buffer \<Rightarrow> array_buffer result" where
  "ta_sort v b =
     bind_result (taValidate v b) (\<lambda>_. bind_result (requireMutable b) (\<lambda>_.
       if taLength v b \<le> 1 then Inr b
       else write_back v 0 (map (elem_of (ta_kind v)) (sort (ta_read_all v b))) b))"

text \<open>Copies of the same type: \<open>toReversed\<close>, \<open>toSorted\<close>, \<open>with\<close>.\<close>

definition fill_copy :: "typed_array \<Rightarrow> elem_value list \<Rightarrow> (typed_array \<times> array_buffer) result" where
  "fill_copy v xs =
     bind_result (taCreateSameType v (length xs)) (\<lambda>(w, c).
       case write_list w 0 xs c of (c', None) \<Rightarrow> Inr (w, c') | (_, Some e) \<Rightarrow> Inl e)"

definition ta_toReversed :: "typed_array \<Rightarrow> array_buffer \<Rightarrow> (typed_array \<times> array_buffer) result" where
  "ta_toReversed v b =
     bind_result (taValidate v b) (\<lambda>_.
       let len = taLength v b in fill_copy v (map (\<lambda>i. read_value v b (int len - 1 - int i)) [0..<len]))"

definition ta_toSorted :: "typed_array \<Rightarrow> array_buffer \<Rightarrow> (typed_array \<times> array_buffer) result" where
  "ta_toSorted v b =
     bind_result (taValidate v b) (\<lambda>_. fill_copy v (map (elem_of (ta_kind v)) (sort (ta_read_all v b))))"

definition ta_with :: "typed_array \<Rightarrow> array_buffer \<Rightarrow> jsnum option \<Rightarrow> elem_value \<Rightarrow> (typed_array \<times> array_buffer) result" where
  "ta_with v b index x =
     bind_result (taValidate v b) (\<lambda>_.
       let len = int (taLength v b)
       in case toIntegerOrInfinity (case index of None \<Rightarrow> NaN | Some n \<Rightarrow> n) of
            XI n \<Rightarrow>
              (let k = (if n < 0 then len + n else n)
               in if k < 0 \<or> len \<le> k then Inl (RangeError ''Invalid index'')
                  else bind_result (coerce_elem (ta_kind v) x) (\<lambda>_.
                    fill_copy v (map (\<lambda>i. if int i = k then x else read_value v b (int i)) [0..<taLength v b])))
          | _ \<Rightarrow> Inl (RangeError ''Invalid index''))"

section \<open>Elements read are canonical\<close>

lemma num_int_of_int [simp]: "num_int (Fin (of_int i)) = i"
  by (simp add: trunc_rat_def)

lemma getByte_range: "0 \<le> uint (getByte m off)" "uint (getByte m off) < 256"
proof -
  have "uint (m ! off) < 2 ^ 8" using uint_lt2p [of "m ! off"] by simp
  then show "0 \<le> uint (getByte m off)" "uint (getByte m off) < 256" by (simp_all add: getByte_def uint_up_ucast is_up)
qed

lemma signed_of_id: "0 < n \<Longrightarrow> - (2 ^ (n - 1)) \<le> i \<Longrightarrow> i < 2 ^ (n - 1) \<Longrightarrow> signed_of n i = i"
proof -
  assume a: "0 < n" "- (2 ^ (n - 1)) \<le> i" "i < 2 ^ (n - 1)"
  then have "(2::int) ^ n = 2 * 2 ^ (n - 1)" by (cases n) simp_all
  then have "(i + 2 ^ (n - 1)) mod 2 ^ n = i + 2 ^ (n - 1)" using a by (intro mod_pos_pos_trivial) linarith+
  then show ?thesis using a(1) by (simp add: signed_of_shift)
qed

lemma clampU8_int: "0 \<le> i \<Longrightarrow> i < 256 \<Longrightarrow> uint (clampU8 (Fin (of_int i))) = i"
proof -
  assume i: "0 \<le> i" "i < 256"
  then consider "i = 0" | "i = 255" | "0 < i" "i < 255" by linarith
  then show ?thesis by cases (use i in \<open>simp_all add: uint_full Let_def\<close>)
qed

lemma getU16_range: "0 \<le> getU16 m off" "getU16 m off < 65536"
proof -
  let ?w = "getByte m off OR push_bit 8 (getByte m (off + 1))"
  have "?w = take_bit 16 ?w" unfolding getByte_def by (rule bit_word_eqI) (auto simp: bit_simps dest: bit_imp_le_length)
  then have "uint ?w = uint (take_bit 16 ?w)" by (rule arg_cong)
  also have "\<dots> = uint ?w mod 2 ^ 16" using uint_low [of 16 "uint ?w"] by simp
  also have "\<dots> < 2 ^ 16" by (rule pos_mod_bound) simp
  finally have u: "uint ?w < 65536" "0 \<le> uint ?w" by simp_all
  have "sint ?w = signed_of 32 (uint ?w)" using sint_full [of "uint ?w"] by simp
  also have "\<dots> = uint ?w" using u by (intro signed_of_id order_trans [OF _ u(2)]) simp_all
  finally show "0 \<le> getU16 m off" "getU16 m off < 65536" using u by (simp_all add: getU16_def)
qed

lemma pair_range: "0 \<le> uint32PairToBigInt hi lo" "uint32PairToBigInt hi lo < 18446744073709551616"
  using uint_lt2p [of hi] uint_lt2p [of lo] uint_ge_0 [of hi] uint_ge_0 [of lo]
  by (simp_all add: uint32PairToBigInt_def del: uint_ge_0)

lemma getBigUint64_range: "0 \<le> getBigUint64 m off le" "getBigUint64 m off le < 18446744073709551616"
  using pair_range by (simp_all add: getBigUint64_def)

fun elem_range :: "elem_kind \<Rightarrow> int \<times> int" where
  "elem_range U8 = (0, 2 ^ 8)"
| "elem_range I8 = (- (2 ^ 7), 2 ^ 7)"
| "elem_range U8C = (0, 2 ^ 8)"
| "elem_range U16 = (0, 2 ^ 16)"
| "elem_range I16 = (- (2 ^ 15), 2 ^ 15)"
| "elem_range U32 = (0, 2 ^ 32)"
| "elem_range I32 = (- (2 ^ 31), 2 ^ 31)"
| "elem_range BI64 = (- (2 ^ 63), 2 ^ 63)"
| "elem_range BU64 = (0, 2 ^ 64)"

lemma held_in_range:
  assumes "fst (elem_range k) \<le> i" "i < snd (elem_range k)"
  shows "held k (elem_of k i) = i"
proof (cases "k = U8C")
  case True
  then show ?thesis using assms clampU8_int [of i] by (simp add: elem_of_def del: clampU8.simps)
next
  case False
  then show ?thesis using assms
    by (cases k) (simp_all del: num_int.simps add: elem_of_def signed_of_id)
qed

lemma get_elem_range: "fst (elem_range k) \<le> get_elem k m off \<and> get_elem k m off < snd (elem_range k)"
proof (cases k)
  case I8
  obtain b where b: "uint (getByte m off) = b" by simp
  then show ?thesis using I8 getByte_range [of m off] unfolding b by (simp add: getI8_def b)
next
  case I16
  then show ?thesis using getU16_range [of m off] by (simp add: getI16_def Let_def)
next
  case U32
  then show ?thesis using uint_lt2p [of "le_word m off"] by (simp add: getU32_def)
next
  case I32
  then show ?thesis using sint_ge [of "le_word m off"] sint_lt [of "le_word m off"] by (simp add: getI32_def)
next
  case BI64
  then show ?thesis using getBigUint64_range [of m off True]
    by (simp add: getBigInt64_def unsigned64ToSignedBigInt_def)
qed (use getByte_range [of m off] getU16_range [of m off] getBigUint64_range [of m off True] in \<open>simp_all add: getU8_def\<close>)

lemma held_get_elem: "held k (elem_of k (get_elem k m off)) = get_elem k m off"
  using get_elem_range [of k m off] by (intro held_in_range) simp_all


section \<open>The list of elements of a view\<close>

definition elems :: "typed_array \<Rightarrow> array_buffer \<Rightarrow> int list" where
  "elems v b = map (\<lambda>j. get_elem (ta_kind v) (ab_bytes b) (ta_offset v + j * ta_bpe v)) [0..<taLength v b]"

lemma length_elems [simp]: "length (elems v b) = taLength v b"
  by (simp add: elems_def)

lemma ta_bpe_pos [simp]: "0 < bytes_per_element k"
  by (rule elem.bpe_pos)

lemma ta_room:
  assumes "\<not> taIsOutOfBounds v b"
  shows "ta_offset v + taLength v b * ta_bpe v \<le> length (ab_bytes b)"
proof (cases "ta_fixed v")
  case False
  have "(length (ab_bytes b) - ta_offset v) div ta_bpe v * ta_bpe v \<le> length (ab_bytes b) - ta_offset v"
    by (rule div_times_less_eq_dividend)
  moreover have "ta_offset v \<le> length (ab_bytes b)" using assms by (simp add: taIsOutOfBounds_def split: if_splits)
  ultimately have "ta_offset v + (length (ab_bytes b) - ta_offset v) div ta_bpe v * ta_bpe v \<le> length (ab_bytes b)"
    by linarith
  then show ?thesis using assms False by (simp add: taIsOutOfBounds_def taLength_def split: if_splits)
qed (use assms in \<open>simp add: taIsOutOfBounds_def taLength_def split: if_splits\<close>)

lemma oob_detached: "ab_detached b \<Longrightarrow> taIsOutOfBounds v b"
  by (simp add: taIsOutOfBounds_def)

lemma taLength_oob: "taIsOutOfBounds v b \<Longrightarrow> taLength v b = 0"
  by (auto simp: taIsOutOfBounds_def taLength_def split: if_splits)

lemma ta_room_elem:
  assumes "i < taLength v b"
  shows "ta_offset v + i * ta_bpe v + ta_bpe v \<le> length (ab_bytes b)"
  using ta_room [of v b] taLength_oob [of v b] assms mult_le_mono1 [of "Suc i" "taLength v b" "ta_bpe v"] by fastforce

lemma taValidate_eq: "taValidate v b = (if taIsOutOfBounds v b then taValidate v b else Inr ())"
  by (simp add: taValidate_def taIsOutOfBounds_def)

lemma taValidate_Inr: "taValidate v b = Inr u \<longleftrightarrow> \<not> taIsOutOfBounds v b"
  by (auto simp: taValidate_def taIsOutOfBounds_def)

lemma readAt_elems:
  "readAt v b i = (if 0 \<le> i \<and> nat i < taLength v b then Some (elems v b ! nat i) else None)"
  using taLength_oob [of v b] by (auto simp: readAt_def elems_def taIsOutOfBounds_def)

lemma read_value_elems: "i < taLength v b \<Longrightarrow> read_value v b (int i) = elem_of (ta_kind v) (elems v b ! i)"
  by (simp add: read_value_def readAt_elems)

lemma elems_canonical: "i < taLength v b \<Longrightarrow> held (ta_kind v) (elem_of (ta_kind v) (elems v b ! i)) = elems v b ! i"
  by (simp add: elems_def held_get_elem)

lemma fits_elem_of: "fits k' (elem_of k i) \<longleftrightarrow> is_big k = is_big k'"
  by (auto simp: fits_def elem_of_def)

text \<open>Writing an element changes neither the shape of the buffer nor any byte outside the element.\<close>

definition same_shape :: "array_buffer \<Rightarrow> array_buffer \<Rightarrow> bool" where
  "same_shape b b' \<longleftrightarrow> (\<exists>m. b' = b\<lparr>ab_bytes := m\<rparr> \<and> length m = length (ab_bytes b))"

lemma same_shape_refl [simp]: "same_shape b b"
  unfolding same_shape_def by (rule exI [of _ "ab_bytes b"]) simp

lemma same_shape_trans: "same_shape a b \<Longrightarrow> same_shape b c \<Longrightarrow> same_shape a c"
  by (auto simp: same_shape_def)

lemma same_shape_simps:
  assumes "same_shape b b'"
  shows "taLength v b' = taLength v b" "taIsOutOfBounds v b' = taIsOutOfBounds v b" "taValidate v b' = taValidate v b"
    "ab_immutable b' = ab_immutable b" "ab_detached b' = ab_detached b" "length (ab_bytes b') = length (ab_bytes b)"
  using assms by (auto simp: same_shape_def taLength_def taIsOutOfBounds_def taValidate_def)

definition put_elem :: "typed_array \<Rightarrow> nat \<Rightarrow> elem_value \<Rightarrow> array_buffer \<Rightarrow> array_buffer" where
  "put_elem v i x b = b\<lparr>ab_bytes := set_elem (ta_kind v) (ta_offset v + i * ta_bpe v) x (ab_bytes b)\<rparr>"

lemma put_elem_works:
  assumes "i < taLength v b" "fits (ta_kind v) x"
  shows "same_shape b (put_elem v i x b)" "elems v (put_elem v i x b) = (elems v b)[i := held (ta_kind v) x]"
proof -
  show s: "same_shape b (put_elem v i x b)"
    using ta_room_elem [OF assms(1)] by (auto simp: same_shape_def put_elem_def set_elem_length)
  have "\<not> taIsOutOfBounds v b" using assms(1) taLength_oob [of v b] by auto
  from elem.write_element [OF assms(1) ta_room [OF this] assms(2)]
  show "elems v (put_elem v i x b) = (elems v b)[i := held (ta_kind v) x]"
    unfolding elems_def same_shape_simps(1) [OF s] by (simp add: put_elem_def)
qed

lemma writeAt_eq:
  assumes "i < taLength v b" "\<not> ab_immutable b" "fits (ta_kind v) x"
  shows "writeAt v (int i) x b = Inr (put_elem v i x b)"
proof -
  have "\<not> taIsOutOfBounds v b" using assms(1) taLength_oob [of v b] by auto
  then have "\<not> (ab_detached b \<or> taIsOutOfBounds v b)" using oob_detached [of b v] by blast
  then show ?thesis using assms by (simp add: writeAt_def coerce_elem_def requireMutable_def put_elem_def)
qed

end
