(* ===== verification/TypedArrayLists.thy ===== *)
theory TypedArrayLists
  imports TypedArrays
begin

text \<open>
  Typed arrays: each operation against the operation on the list of elements, views and resizing, and the
  buffers that a run can make.
\<close>

section \<open>The operations on the list of elements\<close>

lemma write_list_elems:
  assumes "off + length xs \<le> taLength v b" "\<not> ab_immutable b" "list_all (fits (ta_kind v)) xs"
  shows "\<exists>b'. write_list v off xs b = (b', None) \<and> same_shape b b' \<and>
    elems v b' = take off (elems v b) @ map (held (ta_kind v)) xs @ drop (off + length xs) (elems v b)"
  using assms
proof (induction xs arbitrary: off b)
  case Nil
  then show ?case by (auto intro: exI [of _ b])
next
  case (Cons x xs)
  let ?b = "put_elem v off x b"
  have p: "same_shape b ?b" "elems v ?b = (elems v b)[off := held (ta_kind v) x]"
    using put_elem_works [of off v b x] Cons.prems by simp_all
  obtain b' where b': "write_list v (off + 1) xs ?b = (b', None)" "same_shape ?b b'"
    "elems v b' = take (off + 1) (elems v ?b) @ map (held (ta_kind v)) xs @ drop (off + 1 + length xs) (elems v ?b)"
    using Cons.IH [of "off + 1" ?b] Cons.prems same_shape_simps [OF p(1)] by auto
  have "write_list v off (x # xs) b = (b', None)"
    using Cons.prems b'(1) writeAt_eq [of off v b x] by simp
  moreover have "elems v b' = take off (elems v b) @ map (held (ta_kind v)) (x # xs) @ drop (off + length (x # xs)) (elems v b)"
    using b'(3) p(2) Cons.prems by (simp add: take_Suc_conv_app_nth)
  ultimately show ?case using same_shape_trans [OF p(1) b'(2)] by blast
qed

lemma ta_alloc_length [simp]: "taLength (fst (ta_alloc k n)) (snd (ta_alloc k n)) = n"
  by (simp add: ta_alloc_def taLength_def)

lemma fill_copy_elems:
  assumes "length xs * ta_bpe v \<le> AB_ALLOC_LIMIT" "list_all (fits (ta_kind v)) xs"
  shows "\<exists>w c. fill_copy v xs = Inr (w, c) \<and> elems w c = map (held (ta_kind v)) xs"
proof -
  define w c where wc: "w = fst (ta_alloc (ta_kind v) (length xs))" "c = snd (ta_alloc (ta_kind v) (length xs))"
  have l: "taLength w c = length xs" "ta_kind w = ta_kind v" "\<not> ab_immutable c" by (simp_all add: wc) (simp_all add: ta_alloc_def)
  obtain c' where "write_list w 0 xs c = (c', None)" "elems w c' = map (held (ta_kind v)) xs"
    using write_list_elems [of 0 xs w c] assms(2) l by auto
  moreover have "taCreateSameType v (length xs) = Inr (w, c)"
    using assms(1) by (simp add: taCreateSameType_def checkAllocLimit_def wc)
  ultimately show ?thesis by (simp add: fill_copy_def)
qed

lemma fill_loop_elems:
  assumes "t \<le> taLength v b" "\<not> ab_immutable b" "fits (ta_kind v) x"
  shows "\<exists>b'. fill_loop v [s..<t] x b = Inr b' \<and> same_shape b b' \<and>
    elems v b' = (if s < t then take s (elems v b) @ replicate (t - s) (held (ta_kind v) x) @ drop t (elems v b) else elems v b)"
  using assms(1,2)
proof (induction "t - s" arbitrary: s b)
  case 0
  then show ?case by (auto intro: exI [of _ b])
next
  case (Suc n)
  let ?b = "put_elem v s x b"
  have s: "s < t" "[s..<t] = s # [Suc s..<t]" using Suc.hyps(2) by (simp_all add: upt_rec)
  have p: "same_shape b ?b" "elems v ?b = (elems v b)[s := held (ta_kind v) x]"
    using put_elem_works [of s v b x] Suc.prems s assms(3) by simp_all
  have "\<exists>b'. fill_loop v [Suc s..<t] x ?b = Inr b' \<and> same_shape ?b b' \<and> elems v b' =
    (if Suc s < t then take (Suc s) (elems v ?b) @ replicate (t - Suc s) (held (ta_kind v) x) @ drop t (elems v ?b) else elems v ?b)"
    using Suc.hyps(2) Suc.prems same_shape_simps(1,4) [OF p(1)] by (intro Suc.hyps(1)) simp_all
  then obtain b' where b': "fill_loop v [Suc s..<t] x ?b = Inr b'" "same_shape ?b b'"
    "elems v b' = (if Suc s < t then take (Suc s) (elems v ?b) @ replicate (t - Suc s) (held (ta_kind v) x) @ drop t (elems v ?b) else elems v ?b)"
    by blast
  have "fill_loop v [s..<t] x b = Inr b'"
    using Suc.prems b'(1) s by (simp add: put_elem_def)
  moreover have "elems v b' = take s (elems v b) @ replicate (t - s) (held (ta_kind v) x) @ drop t (elems v b)"
  proof (cases "Suc s < t")
    case True
    then have "t - s = Suc (t - Suc s)" by simp
    then show ?thesis using b'(3) p(2) Suc.prems s True by (simp add: take_Suc_conv_app_nth)
  next
    case False
    then have "t = Suc s" using s by simp
    then show ?thesis using b'(3) p(2) Suc.prems s by (simp add: upd_conv_take_nth_drop)
  qed
  ultimately show ?case using same_shape_trans [OF p(1) b'(2)] s by auto
qed

lemma relative_le [simp]: "relative x len \<le> len"
  by (cases "(x, len)" rule: relative.cases) auto

lemma relativeStart_le [simp]: "relativeStart x len \<le> len"
  by (simp add: relativeStart_def split: option.split)

lemma relativeEnd_le [simp]: "relativeEnd x len \<le> len"
  by (simp add: relativeEnd_def split: option.split)

text \<open>A list with a part replaced.\<close>

definition overwrite :: "nat \<Rightarrow> 'a list \<Rightarrow> 'a list \<Rightarrow> 'a list" where
  "overwrite s ys xs = take s xs @ ys @ drop (s + length ys) xs"

lemma overwrite_Nil [simp]: "overwrite s [] xs = xs"
  by (simp add: overwrite_def)

lemma length_overwrite [simp]: "s + length ys \<le> length xs \<Longrightarrow> length (overwrite s ys xs) = length xs"
  by (simp add: overwrite_def)

lemma nth_overwrite:
  "s + length ys \<le> length xs \<Longrightarrow> i < length xs \<Longrightarrow>
     overwrite s ys xs ! i = (if s \<le> i \<and> i < s + length ys then ys ! (i - s) else xs ! i)"
  by (auto simp: overwrite_def nth_append)

text \<open>\<open>memset\<close> writes the bytes that the loop writes.\<close>

lemma buf_fill_overwrite: "buf_fill m off n x = overwrite off (replicate n x) m"
  by (simp add: buf_fill_def overwrite_def)

lemma fast_elem:
  fixes m m' :: "byte list"
  assumes "k \<in> {U8, I8}" "off < length m" "off < length m'" "m' ! off = ucast (to_int32 f AND 0xFF)"
  shows "get_elem k m' off = held k (Num f)"
proof -
  have "get_elem k m' off = get_elem k (set_elem k off (Num f) m) off"
    using assms by (intro get_elem_cong) (auto simp: setU8_def setI8_def setByte_update less_Suc_eq)
  also have "\<dots> = held k (Num f)" using assms by (intro get_set_elem) (auto simp: fits_def)
  finally show ?thesis .
qed

lemma fill_fast_elems:
  fixes f :: jsnum
  assumes "ta_kind v \<in> {U8, I8}" "s \<le> e" "e \<le> taLength v b" "\<not> taIsOutOfBounds v b"
  defines "b' \<equiv> b\<lparr>ab_bytes := buf_fill (ab_bytes b) (ta_offset v + s) (e - s) (ucast (to_int32 f AND 0xFF))\<rparr>"
  shows "same_shape b b'" "elems v b' = overwrite s (replicate (e - s) (held (ta_kind v) (Num f))) (elems v b)"
proof -
  have bpe: "ta_bpe v = 1" using assms(1) by auto
  have room: "ta_offset v + taLength v b \<le> length (ab_bytes b)" using ta_room [OF assms(4)] bpe by simp
  show sh: "same_shape b b'"
    using room assms(2,3) by (auto simp: same_shape_def b'_def buf_fill_overwrite)
  have sp: "ab_bytes b' = overwrite (ta_offset v + s) (replicate (e - s) (ucast (to_int32 f AND 0xFF))) (ab_bytes b)"
    by (simp add: b'_def buf_fill_overwrite)
  have len: "length (ab_bytes b') = length (ab_bytes b)" by (rule same_shape_simps(6) [OF sh])
  show "elems v b' = overwrite s (replicate (e - s) (held (ta_kind v) (Num f))) (elems v b)"
  proof (rule nth_equalityI)
    show "length (elems v b') = length (overwrite s (replicate (e - s) (held (ta_kind v) (Num f))) (elems v b))"
      using assms(2,3) same_shape_simps(1) [OF sh] by simp
    fix j assume "j < length (elems v b')"
    then have j: "j < taLength v b" using same_shape_simps(1) [OF sh] by simp
    let ?o = "ta_offset v + j"
    have e: "elems v c ! j = get_elem (ta_kind v) (ab_bytes c) ?o" if "taLength v c = taLength v b" for c
      using j that bpe by (simp add: elems_def)
    show "elems v b' ! j = overwrite s (replicate (e - s) (held (ta_kind v) (Num f))) (elems v b) ! j"
    proof (cases "s \<le> j \<and> j < e")
      case True
      then have "get_elem (ta_kind v) (ab_bytes b') ?o = held (ta_kind v) (Num f)"
        using room j len assms(2,3) by (intro fast_elem [OF assms(1), of _ "ab_bytes b"]) (auto simp: sp nth_overwrite)
      then show ?thesis using True j assms(2,3) e [OF same_shape_simps(1) [OF sh]] by (auto simp: nth_overwrite)
    next
      case False
      have "get_elem (ta_kind v) (ab_bytes b') ?o = get_elem (ta_kind v) (ab_bytes b) ?o"
        using False room j assms(2,3) bpe by (intro get_elem_cong) (auto simp: sp nth_overwrite)
      then show ?thesis
        using False j assms(2,3) e [OF same_shape_simps(1) [OF sh]] e [OF refl] by (auto simp: nth_overwrite)
    qed
  qed
qed

text \<open>\<open>fill\<close> of a valid view of a writable buffer succeeds, keeps the size of the buffer, and
  afterwards the view holds the old elements with those between the two indices replaced by what an element
  holds of the value. This covers the element loop and the \<open>memset\<close> path for one-byte elements,
  which therefore agree.
\<close>

theorem ta_fill_list:
  fixes start end0 :: "jsnum option"
  assumes "\<not> taIsOutOfBounds v b" "\<not> ab_immutable b" "fits (ta_kind v) x"
  defines "s \<equiv> relativeStart start (taLength v b)" and "e \<equiv> relativeEnd end0 (taLength v b)"
  shows "\<exists>b'. ta_fill v x start end0 b = Inr b' \<and> same_shape b b' \<and>
    elems v b' = overwrite s (replicate (e - s) (held (ta_kind v) x)) (elems v b)"
proof -
  have v: "taValidate v b = Inr ()" using assms(1) by (simp add: taValidate_Inr)
  have e: "e \<le> taLength v b" "min e (taLength v b) = e" by (simp_all add: e_def)
  have loop: "\<exists>b'. fill_loop v [s..<e] x b = Inr b' \<and> same_shape b b' \<and>
      elems v b' = overwrite s (replicate (e - s) (held (ta_kind v) x)) (elems v b)"
    using fill_loop_elems [of e v b x s] e(1) assms(2,3) by (auto simp: overwrite_def split: if_splits)
  have fast: "\<exists>b'. Inr (b\<lparr>ab_bytes := buf_fill (ab_bytes b) (ta_offset v + s) (e - s) (ucast (to_int32 f AND 0xFF))\<rparr>) = Inr b' \<and>
      same_shape b b' \<and> elems v b' = overwrite s (replicate (e - s) (held (ta_kind v) (Num f))) (elems v b)"
    if "fill_fast v b" "s < e" for f
    using fill_fast_elems [of v s e b f] that e(1) assms(1) by (simp add: fill_fast_def)
  show ?thesis
  proof (cases "\<exists>f. x = Num f \<and> fill_fast v b \<and> s < e")
    case True
    then obtain f where "x = Num f" "fill_fast v b" "s < e" by blast
    moreover then have "s < taLength v b" using e(1) by simp
    ultimately show ?thesis
      using fast [of f] v e(2) assms(2,3) by (simp add: ta_fill_def requireMutable_def coerce_elem_def flip: s_def e_def)
  next
    case False
    then have "ta_fill v x start end0 b = fill_loop v [s..<e] x b"
      using v e(2) assms(2,3)
      by (auto simp: ta_fill_def requireMutable_def coerce_elem_def Let_def split: elem_value.split simp flip: s_def e_def)
    then show ?thesis using loop by simp
  qed
qed


text \<open>Reversing in place.\<close>

definition reversed_between :: "nat \<Rightarrow> nat \<Rightarrow> 'a list \<Rightarrow> 'a list" where
  "reversed_between i j xs = map (\<lambda>k. if i \<le> k \<and> k \<le> j then xs ! (i + j - k) else xs ! k) [0..<length xs]"

lemma reverse_loop_elems:
  assumes "j < taLength v b" "\<not> ab_immutable b"
  shows "\<exists>b'. reverse_loop v i j b = Inr b' \<and> same_shape b b' \<and> elems v b' = reversed_between i j (elems v b)"
  using assms
proof (induction v i j b rule: reverse_loop.induct)
  case (1 v i j b)
  show ?case
  proof (cases "j \<le> i")
    case True
    then have "i + j - k = k" if "i \<le> k" "k \<le> j" for k using that by simp
    then have "reversed_between i j (elems v b) = elems v b"
      by (intro nth_equalityI) (simp_all add: reversed_between_def)
    then show ?thesis using True by (auto simp: reverse_loop.simps [of v i j b])
  next
    case False
    then have ij: "i < j" "i < taLength v b" using "1.prems" by simp_all
    let ?x = "elem_of (ta_kind v) (elems v b ! j)" and ?y = "elem_of (ta_kind v) (elems v b ! i)"
    let ?b1 = "put_elem v i ?x b"
    let ?b2 = "put_elem v j ?y ?b1"
    have p1: "same_shape b ?b1" "elems v ?b1 = (elems v b)[i := elems v b ! j]"
      using put_elem_works [of i v b ?x] ij "1.prems" by (simp_all add: fits_elem_of elems_canonical)
    note s1 = same_shape_simps [OF p1(1)]
    have p2: "same_shape ?b1 ?b2" "elems v ?b2 = (elems v b)[i := elems v b ! j, j := elems v b ! i]"
      using put_elem_works [of j v ?b1 ?y] ij "1.prems" p1(2) s1(1) by (simp_all add: fits_elem_of elems_canonical)
    note s2 = same_shape_simps [OF same_shape_trans [OF p1(1) p2(1)]]
    have w: "writeAt v (int i) (read_value v b (int j)) b = Inr ?b1" "writeAt v (int j) (read_value v b (int i)) ?b1 = Inr ?b2"
      using ij "1.prems" s1(1,4) by (simp_all add: read_value_elems writeAt_eq fits_elem_of)
    have "\<exists>b'. reverse_loop v (i + 1) (j - 1) ?b2 = Inr b' \<and> same_shape ?b2 b' \<and>
        elems v b' = reversed_between (i + 1) (j - 1) (elems v ?b2)"
      using "1.prems" ij s2(1,4) w by (intro "1.IH") (auto simp: not_le)
    then obtain b' where b': "reverse_loop v (i + 1) (j - 1) ?b2 = Inr b'" "same_shape ?b2 b'"
      "elems v b' = reversed_between (i + 1) (j - 1) (elems v ?b2)" by blast
    have "reverse_loop v i j b = Inr b'"
      using ij w b'(1) "1.prems" by (simp add: reverse_loop.simps [of v i j b])
    moreover have "elems v b' = reversed_between i j (elems v b)"
      unfolding b'(3) p2(2) using ij "1.prems"
      by (intro nth_equalityI) (auto simp: reversed_between_def nth_list_update)
    ultimately show ?thesis using same_shape_trans [OF same_shape_trans [OF p1(1) p2(1)] b'(2)] by blast
  qed
qed

lemma reversed_between_all: "xs \<noteq> [] \<Longrightarrow> reversed_between 0 (length xs - 1) xs = rev xs"
  by (intro nth_equalityI) (auto simp: reversed_between_def rev_nth)

lemma taValidate_ok: "\<not> taIsOutOfBounds v b \<Longrightarrow> taValidate v b = Inr ()"
  by (simp add: taValidate_Inr)

theorem ta_reverse_list:
  assumes "\<not> taIsOutOfBounds v b" "\<not> ab_immutable b"
  shows "\<exists>b'. ta_reverse v b = Inr b' \<and> same_shape b b' \<and> elems v b' = rev (elems v b)"
proof (cases "taLength v b = 0")
  case True
  then have "elems v b = []" by (simp flip: length_0_conv)
  then show ?thesis
    using True assms by (simp add: ta_reverse_def taValidate_ok requireMutable_def reverse_loop.simps)
next
  case False
  then have "elems v b \<noteq> []" by (simp flip: length_0_conv)
  then show ?thesis
    using reverse_loop_elems [of "taLength v b - 1" v b 0] False assms reversed_between_all [of "elems v b"]
    by (simp add: ta_reverse_def taValidate_ok requireMutable_def)
qed

text \<open>Sorting.\<close>

lemma ta_read_all_elems: "ta_read_all v b = elems v b"
proof -
  have "List.map_filter (\<lambda>i. readAt v b (int i)) [0..<n] = take n (elems v b)" if "n \<le> taLength v b" for n
    using that
  proof (induction n)
    case (Suc n)
    then show ?case by (simp add: map_filter_def readAt_elems take_Suc_conv_app_nth)
  qed (simp add: map_filter_def)
  from this [of "taLength v b"] show ?thesis by (simp add: ta_read_all_def)
qed

lemma write_back_list:
  assumes "i + length xs \<le> taLength v b" "\<not> ab_immutable b" "list_all (fits (ta_kind v)) xs" "\<not> taIsOutOfBounds v b"
  shows "write_back v i xs b = Inr (fst (write_list v i xs b))"
  using assms
proof (induction xs arbitrary: i b)
  case (Cons x xs)
  have "same_shape b (put_elem v i x b)" using put_elem_works(1) [of i v b x] Cons.prems by simp
  note s = same_shape_simps [OF this]
  show ?case using Cons.prems Cons.IH [of "i + 1" "put_elem v i x b"] writeAt_eq [of i v b x] s
    by (simp add: taValidate_ok)
qed simp

lemma held_elems:
  "set ys \<subseteq> set (elems v b) \<Longrightarrow> map (held (ta_kind v)) (map (elem_of (ta_kind v)) ys) = ys"
  by (induction ys) (auto simp: elems_canonical in_set_conv_nth)

lemma fits_elems: "list_all (fits (ta_kind v)) (map (elem_of (ta_kind v)) ys)"
  by (simp add: list_all_iff fits_elem_of)

theorem ta_sort_list:
  assumes "\<not> taIsOutOfBounds v b" "\<not> ab_immutable b"
  shows "\<exists>b'. ta_sort v b = Inr b' \<and> same_shape b b' \<and> elems v b' = sort (elems v b)"
proof (cases "taLength v b \<le> 1")
  case True
  then have "sorted (elems v b)" using sorted01 [of "elems v b"] by simp
  then show ?thesis
    using True assms by (simp add: ta_sort_def taValidate_ok requireMutable_def sorted_sort_id)
next
  case False
  let ?xs = "map (elem_of (ta_kind v)) (sort (elems v b))"
  obtain b' where b': "write_list v 0 ?xs b = (b', None)" "same_shape b b'" "elems v b' = map (held (ta_kind v)) ?xs"
    using write_list_elems [of 0 ?xs v b] assms(2) fits_elems by auto
  have "elems v b' = sort (elems v b)" using b'(3) held_elems [of "sort (elems v b)" v b] by simp
  then show ?thesis
    using b'(1,2) False assms write_back_list [OF _ assms(2) fits_elems assms(1), of 0 "sort (elems v b)"]
    by (simp add: ta_sort_def taValidate_ok requireMutable_def ta_read_all_elems)
qed


text \<open>The copies leave the array as it is.\<close>

lemma held_values:
  "map (held (ta_kind v)) (map (\<lambda>i. read_value v b (int (f i))) [0..<n]) = map (\<lambda>i. elems v b ! f i) [0..<n]"
  if "\<And>i. i < n \<Longrightarrow> f i < taLength v b"
  using that by (auto simp: read_value_elems elems_canonical)

lemma fits_values: "list_all (fits (ta_kind v)) (map (\<lambda>i. read_value v b (int (f i))) [0..<n])"
  if "\<And>i. i < n \<Longrightarrow> f i < taLength v b"
  using that by (auto simp: read_value_elems list_all_iff fits_elem_of)

theorem ta_copies_list:
  assumes "\<not> taIsOutOfBounds v b" "taLength v b * ta_bpe v \<le> AB_ALLOC_LIMIT"
  shows "\<exists>w c. ta_toReversed v b = Inr (w, c) \<and> elems w c = rev (elems v b)"
    and "\<exists>w c. ta_toSorted v b = Inr (w, c) \<and> elems w c = sort (elems v b)"
    and "fits (ta_kind v) x \<Longrightarrow> i < taLength v b \<Longrightarrow>
      \<exists>w c. ta_with v b (Some (js_nat i)) x = Inr (w, c) \<and> elems w c = (elems v b)[i := held (ta_kind v) x]"
proof -
  let ?n = "taLength v b"
  let ?ys = "map (\<lambda>i. read_value v b (int (?n - 1 - i))) [0..<?n]"
  have "map (\<lambda>i. read_value v b (int ?n - 1 - int i)) [0..<?n] = ?ys"
    by (intro map_cong refl arg_cong [where f = "read_value v b"]) auto
  moreover have "map (held (ta_kind v)) ?ys = rev (elems v b)"
    by (subst held_values) (auto simp: rev_nth intro!: nth_equalityI)
  moreover have "list_all (fits (ta_kind v)) ?ys" by (rule fits_values) simp
  ultimately show "\<exists>w c. ta_toReversed v b = Inr (w, c) \<and> elems w c = rev (elems v b)"
    using fill_copy_elems [of ?ys v] assms by (simp only: ta_toReversed_def taValidate_ok bind_result_simps Let_def length_map length_upt diff_zero simp_thms)
  show "\<exists>w c. ta_toSorted v b = Inr (w, c) \<and> elems w c = sort (elems v b)"
    using fill_copy_elems [OF _ fits_elems, of v "sort (elems v b)"] held_elems [of "sort (elems v b)" v b] assms
    by (simp add: ta_toSorted_def taValidate_ok ta_read_all_elems)
  assume x: "fits (ta_kind v) x" "i < taLength v b"
  let ?xs = "map (\<lambda>j. if int j = int i then x else read_value v b (int j)) [0..<?n]"
  have "list_all (fits (ta_kind v)) ?xs"
    using x(1) by (auto simp: list_all_iff read_value_elems fits_elem_of)
  moreover have "map (held (ta_kind v)) ?xs = (elems v b)[i := held (ta_kind v) x]"
    by (intro nth_equalityI) (auto simp: nth_list_update read_value_elems elems_canonical)
  ultimately obtain w c where "fill_copy v ?xs = Inr (w, c)" "elems w c = (elems v b)[i := held (ta_kind v) x]"
    using fill_copy_elems [of ?xs v] assms(2) by auto
  then show "\<exists>w c. ta_with v b (Some (js_nat i)) x = Inr (w, c) \<and> elems w c = (elems v b)[i := held (ta_kind v) x]"
    using x assms(1) by (simp add: ta_with_def taValidate_ok js_nat_def trunc_rat_def coerce_elem_def)
qed

text \<open>\<open>set\<close>: from another array, from this one, from a list.\<close>

definition source_elems :: "set_source \<Rightarrow> array_buffer \<Rightarrow> elem_value list" where
  "source_elems src b =
     (case src of
        FromArray w None \<Rightarrow> map (elem_of (ta_kind w)) (elems w b)
      | FromArray w (Some c) \<Rightarrow> map (elem_of (ta_kind w)) (elems w c)
      | FromList xs \<Rightarrow> xs)"

lemma read_all_values: "map (\<lambda>i. read_value w c (int i)) [0..<taLength w c] = map (elem_of (ta_kind w)) (elems w c)"
  by (intro nth_equalityI) (simp_all add: read_value_elems)

lemma stage_copy_values:
  assumes "list_all (fits k) xs"
  shows "stage_copy k xs = (map (elem_of k \<circ> held k) xs, None)"
proof -
  define t c where tc: "t = fst (ta_alloc k (length xs))" "c = snd (ta_alloc k (length xs))"
  have l: "taLength t c = length xs" "ta_kind t = k" "\<not> ab_immutable c" by (simp_all add: tc) (simp_all add: ta_alloc_def)
  obtain c' where c': "write_list t 0 xs c = (c', None)" "same_shape c c'" "elems t c' = map (held k) xs"
    using write_list_elems [of 0 xs t c] assms l by auto
  have "map (\<lambda>i. read_value t c' (int i)) [0..<length xs] = map (elem_of k) (elems t c')"
    using read_all_values [of t c'] same_shape_simps(1) [OF c'(2)] l by simp
  then show ?thesis using c' by (simp add: stage_copy_def tc [symmetric] case_prod_beta)
qed

lemma held_held: "fits k x \<Longrightarrow> held k (elem_of k (held k x)) = held k x"
  using get_set_elem [of 0 k "replicate (bytes_per_element k) 0" x]
    held_get_elem [of k "set_elem k 0 x (replicate (bytes_per_element k) 0)" 0] by simp

lemma source_values_held:
  assumes "source_length src b = Inr n" "list_all (fits k) (source_elems src b)"
  shows "\<exists>xs. source_values k src n b = (xs, None) \<and> list_all (fits k) xs \<and>
    map (held k) xs = map (held k) (source_elems src b)"
proof (cases src)
  case (FromArray w other)
  then show ?thesis
  proof (cases other)
    case None
    have n: "n = taLength w b" using assms(1) FromArray None by (cases "taValidate w b") simp_all
    then have "source_values k src n b = stage_copy k (source_elems src b)"
      using FromArray None read_all_values [of w b] by (simp add: source_elems_def)
    then show ?thesis using assms(2) by (auto simp: stage_copy_values fits_elem_of list_all_iff held_held)
  next
    case (Some c)
    have n: "n = taLength w c" using assms(1) FromArray Some by (cases "taValidate w c") simp_all
    then show ?thesis using FromArray Some assms(2) read_all_values [of w c] by (simp add: source_elems_def)
  qed
qed (use assms in \<open>simp add: source_elems_def\<close>)

text \<open>C1: \<open>set\<close> with a source that fits at the offset writes the converted elements of the source,
  as they were before the call, over the old elements from the offset on. The source is a list, another
  array, or an array of any type on the same bytes, overlapping or not.
\<close>

theorem ta_set_list:
  assumes "\<not> taIsOutOfBounds v b" "\<not> ab_immutable b" "source_length src b = Inr n"
    and "list_all (fits (ta_kind v)) (source_elems src b)" "off + n \<le> taLength v b" "n * ta_bpe v \<le> AB_ALLOC_LIMIT"
  shows "\<exists>b'. ta_set v src (Some (js_nat off)) b = (b', None) \<and> same_shape b b' \<and>
    elems v b' = overwrite off (map (held (ta_kind v)) (source_elems src b)) (elems v b)"
proof -
  obtain xs where xs: "source_values (ta_kind v) src n b = (xs, None)" "list_all (fits (ta_kind v)) xs"
    "map (held (ta_kind v)) xs = map (held (ta_kind v)) (source_elems src b)"
    using source_values_held [OF assms(3,4)] by blast
  have "n = length (source_elems src b)"
    using assms(3) by (cases src; auto simp: source_elems_def Let_def bind_result_def split: option.splits sum.splits)
  moreover have "length xs = length (source_elems src b)" using arg_cong [OF xs(3), of length] by simp
  ultimately obtain b' where "write_list v off xs b = (b', None)" "same_shape b b'"
    "elems v b' = overwrite off (map (held (ta_kind v)) xs) (elems v b)"
    using write_list_elems [of off xs v b] assms(2,5) xs(2) by (auto simp: overwrite_def)
  then show ?thesis
    using xs(1,3) assms by (simp add: ta_set_def taValidate_ok js_nat_def trunc_rat_def checkAllocLimit_def)
qed

lemma toIndex_nat: "int n \<le> MAX_SAFE_INDEX \<Longrightarrow> toIndex (Some (js_nat n)) = Inr n"
  by (simp add: toIndex_def js_nat_def trunc_rat_def)

lemma limit_safe: "n \<le> AB_ALLOC_LIMIT \<Longrightarrow> int n \<le> MAX_SAFE_INDEX"
  by (simp add: AB_ALLOC_LIMIT_def MAX_SAFE_INDEX_def)

lemma room_segment: "s \<le> n \<Longrightarrow> e \<le> n \<Longrightarrow> s * k + (e - s) * k \<le> n * (k :: nat)"
  using mult_le_mono1 [of "s + (e - s)" n k] by (simp add: add_mult_distrib)

text \<open>\<open>subarray\<close> is a window on the same bytes: writing through it is writing to the array.\<close>

lemma ta_subarray_fixed:
  fixes begin0 end0 :: "jsnum option"
  assumes "\<not> taIsOutOfBounds v b" "length (ab_bytes b) \<le> AB_ALLOC_LIMIT" "ta_offset v mod ta_bpe v = 0"
  defines "s \<equiv> relativeStart begin0 (taLength v b)" and "e \<equiv> relativeEnd end0 (taLength v b)"
  shows "ta_subarray v b begin0 (Some end0) =
    Inr \<lparr>ta_kind = ta_kind v, ta_offset = ta_offset v + s * ta_bpe v, ta_fixed = True, ta_len = e - s\<rparr>"
proof -
  have le: "s \<le> taLength v b" "e \<le> taLength v b" by (simp_all add: s_def e_def)
  have "s * ta_bpe v \<le> taLength v b * ta_bpe v" "s * ta_bpe v + (e - s) * ta_bpe v \<le> taLength v b * ta_bpe v"
    using le room_segment [OF le] by simp_all
  then have room: "ta_offset v + s * ta_bpe v \<le> length (ab_bytes b)"
    "ta_offset v + s * ta_bpe v + (e - s) * ta_bpe v \<le> length (ab_bytes b)"
    using ta_room [OF assms(1)] by linarith+
  have "taLength v b \<le> taLength v b * ta_bpe v" by (simp add: Suc_leI)
  then have "e - s \<le> length (ab_bytes b)" using ta_room [OF assms(1)] le by linarith
  then have "toIndex (Some (js_nat (e - s))) = Inr (e - s)"
    "toIndex (Some (js_nat (ta_offset v + s * ta_bpe v))) = Inr (ta_offset v + s * ta_bpe v)"
    using room(1) assms(2) by (auto intro!: toIndex_nat limit_safe)
  moreover have "\<not> ab_detached b" using assms(1) oob_detached [of b v] by blast
  ultimately show ?thesis
    using assms(1,3) le room
    by (simp add: ta_subarray_def taValidate_ok ta_new_def min_absorb1 mod_eq_0_iff_dvd flip: s_def e_def)
qed

text \<open>\<open>subarray\<close> gives a window: its elements are those of the array between the two indices,
  and writing an element through it is writing that element of the array.
\<close>

theorem subarray_window:
  fixes begin0 end0 :: "jsnum option"
  assumes "\<not> taIsOutOfBounds v b" "length (ab_bytes b) \<le> AB_ALLOC_LIMIT" "ta_offset v mod ta_bpe v = 0"
    "\<not> ab_immutable b"
  defines "s \<equiv> relativeStart begin0 (taLength v b)" and "e \<equiv> relativeEnd end0 (taLength v b)"
  obtains w where "ta_subarray v b begin0 (Some end0) = Inr w" "elems w b = take (e - s) (drop s (elems v b))"
    "i < e - s \<Longrightarrow> fits (ta_kind v) x \<Longrightarrow> writeAt w (int i) x b = writeAt v (int (s + i)) x b"
proof -
  let ?w = "\<lparr>ta_kind = ta_kind v, ta_offset = ta_offset v + s * ta_bpe v, ta_fixed = True, ta_len = e - s\<rparr>"
  have le: "s \<le> taLength v b" "e \<le> taLength v b" by (simp_all add: s_def e_def)
  have room: "ta_offset v + s * ta_bpe v + (e - s) * ta_bpe v \<le> length (ab_bytes b)"
    using ta_room [OF assms(1)] room_segment [OF le, of "ta_bpe v"] by linarith
  have d: "\<not> ab_detached b" using assms(1) oob_detached [of b v] by blast
  have len: "taLength ?w b = e - s" using room d by (simp add: taLength_def)
  have el: "elems ?w b = take (e - s) (drop s (elems v b))"
    unfolding elems_def len using le
    by (intro nth_equalityI) (auto simp: algebra_simps)
  have "writeAt ?w (int i) x b = writeAt v (int (s + i)) x b" if "i < e - s" "fits (ta_kind v) x"
    using that le assms(4) writeAt_eq [of i ?w b x] writeAt_eq [of "s + i" v b x] len
    by (simp add: put_elem_def algebra_simps)
  with ta_subarray_fixed [OF assms(1-3)] el that [of ?w] show thesis unfolding s_def e_def by blast
qed

text \<open>\<open>slice\<close> into an array of the same type.\<close>

lemma ta_alloc_simps [simp]:
  "ta_kind (fst (ta_alloc k n)) = k" "ta_offset (fst (ta_alloc k n)) = 0"
  "length (ab_bytes (snd (ta_alloc k n))) = n * bytes_per_element k"
  by (simp_all add: ta_alloc_def)

lemma get_elem_shift:
  assumes "\<And>j. j < bytes_per_element k \<Longrightarrow> m ! (off + j) = m' ! (off' + j)"
  shows "get_elem k m off = get_elem k m' off'"
  using assms [of 0] assms [of 1] assms [of 2] assms [of 3] assms [of 4] assms [of 5] assms [of 6] assms [of 7]
  by (cases k) (simp_all add: getU8_def getI8_def getU16_def getI16_def getU32_def getI32_def getBigInt64_def
      getBigUint64_def le_word_def getByte_def add.commute [of 5] add.commute [of 6] add.commute [of 7])

theorem ta_slice_list:
  fixes begin0 end0 :: "jsnum option"
  assumes "\<not> taIsOutOfBounds v b" "taLength v b * ta_bpe v \<le> AB_ALLOC_LIMIT"
  defines "s \<equiv> relativeStart begin0 (taLength v b)" and "e \<equiv> relativeEnd end0 (taLength v b)"
  shows "\<exists>w c. ta_slice (ta_alloc (ta_kind v)) v b begin0 end0 = Inr (w, c) \<and>
    same_shape (snd (ta_alloc (ta_kind v) (e - s))) c \<and> elems w c = take (e - s) (drop s (elems v b))"
proof -
  let ?bpe = "ta_bpe v" and ?n = "e - s"
  obtain w t where wt: "ta_alloc (ta_kind v) ?n = (w, t)" by (cases "ta_alloc (ta_kind v) ?n")
  have w: "ta_kind w = ta_kind v" "ta_offset w = 0" "length (ab_bytes t) = ?n * ?bpe" "taLength w t = ?n"
    using ta_alloc_simps [of "ta_kind v" ?n] ta_alloc_length [of "ta_kind v" ?n] wt by simp_all
  have le: "s \<le> taLength v b" "e \<le> taLength v b" by (simp_all add: s_def e_def)
  have n: "min ?n (taLength v b - s) = ?n" using le by simp
  have "?n * ?bpe \<le> taLength v b * ?bpe" using le by simp
  then have lim: "?n * ?bpe \<le> AB_ALLOC_LIMIT" using assms(2) by linarith
  define c where "c = (if 0 < ?n then t\<lparr>ab_bytes := buf_copy (ab_bytes t) 0 (ab_bytes b) (ta_offset v + s * ?bpe) (?n * ?bpe)\<rparr> else t)"
  have slice: "ta_slice (ta_alloc (ta_kind v)) v b begin0 end0 = Inr (w, c)"
    using assms(1) lim n wt w(4)
    by (simp add: ta_slice_def taSpeciesCreate_def taValidate_ok checkAllocLimit_def Let_def c_def flip: s_def e_def)
  have room: "ta_offset v + s * ?bpe + ?n * ?bpe \<le> length (ab_bytes b)"
    using ta_room [OF assms(1)] room_segment [OF le, of ?bpe] by linarith
  have sh: "same_shape t c" using room w(3) by (auto simp: c_def same_shape_def buf_copy_def)
  have "elems w c = take ?n (drop s (elems v b))"
  proof (cases "0 < ?n")
    case True
    have "get_elem (ta_kind v) (ab_bytes c) (j * ?bpe) = get_elem (ta_kind v) (ab_bytes b) (ta_offset v + (s + j) * ?bpe)"
      if "j < ?n" for j
    proof (rule get_elem_shift)
      fix i assume "i < ?bpe"
      moreover have "j * ?bpe + ?bpe \<le> ?n * ?bpe" using that mult_le_mono1 [of "Suc j" ?n ?bpe] by simp
      ultimately have "j * ?bpe + i < ?n * ?bpe" by linarith
      then show "ab_bytes c ! (j * ?bpe + i) = ab_bytes b ! (ta_offset v + (s + j) * ?bpe + i)"
        using True room by (simp add: c_def buf_copy_def nth_append algebra_simps)
    qed
    then show ?thesis using le same_shape_simps(1) [OF sh] w
      by (intro nth_equalityI) (auto simp: elems_def)
  qed (use same_shape_simps(1) [OF sh] w in \<open>simp add: elems_def\<close>)
  then show ?thesis using slice sh wt by auto
qed

text \<open>Copying bytes between places that are whole elements copies the elements.\<close>

lemma nth_elems: "j < taLength v b \<Longrightarrow> elems v b ! j = get_elem (ta_kind v) (ab_bytes b) (ta_offset v + j * ta_bpe v)"
  by (simp add: elems_def)

lemma nth_overwrite_take:
  "d + n \<le> length xs \<Longrightarrow> s + n \<le> length xs \<Longrightarrow> p < length xs \<Longrightarrow>
     overwrite d (take n (drop s xs)) xs ! p = (if d \<le> p \<and> p < d + n then xs ! (s + (p - d)) else xs ! p)"
  by (auto simp: nth_overwrite)

lemma overwrite_elems:
  assumes "\<not> taIsOutOfBounds v b" "d + n \<le> taLength v b" "s + n \<le> taLength v b"
  defines "b' \<equiv> b\<lparr>ab_bytes := overwrite (ta_offset v + d * ta_bpe v)
    (take (n * ta_bpe v) (drop (ta_offset v + s * ta_bpe v) (ab_bytes b))) (ab_bytes b)\<rparr>"
  shows "same_shape b b'" "elems v b' = overwrite d (take n (drop s (elems v b))) (elems v b)"
proof -
  let ?bpe = "ta_bpe v" and ?m = "ab_bytes b" and ?o = "ta_offset v"
  have mul: "d * ?bpe + n * ?bpe \<le> taLength v b * ?bpe" "s * ?bpe + n * ?bpe \<le> taLength v b * ?bpe"
    using assms(2,3) by (simp_all flip: add_mult_distrib)
  have room: "?o + d * ?bpe + n * ?bpe \<le> length ?m" "?o + s * ?bpe + n * ?bpe \<le> length ?m"
    using mul ta_room [OF assms(1)] by linarith+
  then have len: "length (take (n * ?bpe) (drop (?o + s * ?bpe) ?m)) = n * ?bpe" by simp
  show sh: "same_shape b b'" using room len by (auto simp: same_shape_def b'_def)
  note l = same_shape_simps(1) [OF sh, of v]
  have byte: "ab_bytes b' ! p = (if ?o + d * ?bpe \<le> p \<and> p < ?o + d * ?bpe + n * ?bpe
      then ?m ! (?o + s * ?bpe + (p - (?o + d * ?bpe))) else ?m ! p)" if "p < length ?m" for p
    using nth_overwrite_take [OF room that] by (simp add: b'_def)
  show "elems v b' = overwrite d (take n (drop s (elems v b))) (elems v b)"
  proof (rule nth_equalityI)
    show "length (elems v b') = length (overwrite d (take n (drop s (elems v b))) (elems v b))"
      using assms(2,3) l by simp
    fix j assume "j < length (elems v b')"
    then have j: "j < taLength v b" using l by simp
    note jr = ta_room_elem [OF j]
    show "elems v b' ! j = overwrite d (take n (drop s (elems v b))) (elems v b) ! j"
    proof (cases "d \<le> j \<and> j < d + n")
      case True
      then have "Suc (j - d) \<le> n" "j = d + (j - d)" by auto
      then have q: "j * ?bpe = d * ?bpe + (j - d) * ?bpe" "(j - d) * ?bpe + ?bpe \<le> n * ?bpe"
        using mult_le_mono1 [of "Suc (j - d)" n ?bpe] by (simp_all flip: add_mult_distrib)
      have "get_elem (ta_kind v) (ab_bytes b') (?o + j * ?bpe) = get_elem (ta_kind v) ?m (?o + (s + (j - d)) * ?bpe)"
        using q jr by (intro get_elem_shift) (simp add: byte add_mult_distrib add.assoc)
      moreover have "s + (j - d) < taLength v b" using True assms(3) by linarith
      ultimately show ?thesis
        using True j l assms(2,3) nth_elems [of "s + (j - d)" v b] by (simp add: nth_elems [of j v b'] nth_overwrite_take)
    next
      case False
      then have q: "j * ?bpe + ?bpe \<le> d * ?bpe \<or> d * ?bpe + n * ?bpe \<le> j * ?bpe"
        using mult_le_mono1 [of "Suc j" d ?bpe] mult_le_mono1 [of "d + n" j ?bpe] by (auto simp: add_mult_distrib)
      have "get_elem (ta_kind v) (ab_bytes b') (?o + j * ?bpe) = get_elem (ta_kind v) ?m (?o + j * ?bpe)"
        using q jr by (intro get_elem_cong) (auto simp: byte)
      then show ?thesis using False j l assms(2,3) by (auto simp: nth_elems nth_overwrite_take)
    qed
  qed
qed

text \<open>What the C standard says of \<open>memcpy\<close>: it copies, if the two ranges do not overlap.\<close>

definition memcpy_spec :: "(nat \<Rightarrow> nat \<Rightarrow> nat \<Rightarrow> byte list \<Rightarrow> byte list) \<Rightarrow> bool" where
  "memcpy_spec memcpy \<longleftrightarrow>
     (\<forall>d s n m. d + n \<le> length m \<and> s + n \<le> length m \<and> (d + n \<le> s \<or> s + n \<le> d) \<longrightarrow>
        memcpy d s n m = overwrite d (take n (drop s m)) m)"

text \<open>With any \<open>memcpy\<close> as the C standard describes it, \<open>copyWithin\<close> between
  ranges that do not overlap replaces the elements at the target by the ones of the source range and keeps
  the size of the buffer.
\<close>

theorem ta_copyWithin_list:
  fixes target start stop :: "jsnum option"
  assumes "memcpy_spec memcpy" "\<not> taIsOutOfBounds v b" "\<not> ab_immutable b" "taLength v b * ta_bpe v \<le> AB_ALLOC_LIMIT"
  defines "d \<equiv> relativeStart target (taLength v b)" and "s \<equiv> relativeStart start (taLength v b)"
    and "n \<equiv> min (relativeEnd stop (taLength v b) - relativeStart start (taLength v b)) (taLength v b - relativeStart target (taLength v b))"
  assumes apart: "d + n \<le> s \<or> s + n \<le> d"
  shows "\<exists>b'. ta_copyWithin memcpy v target start stop b = Inr b' \<and> same_shape b b' \<and>
    elems v b' = overwrite d (take n (drop s (elems v b))) (elems v b)"
proof -
  let ?len = "taLength v b" and ?bpe = "ta_bpe v" and ?o = "ta_offset v"
  let ?e = "relativeEnd stop ?len"
  have le: "d \<le> ?len" "s \<le> ?len" "?e \<le> ?len" by (simp_all add: d_def s_def)
  have n: "n = min (?e - s) (?len - d)" by (simp add: n_def s_def d_def)
  have "n \<le> ?e - s" "n \<le> ?len - d" by (simp_all add: n)
  then have dn: "d + n \<le> ?len" "s + n \<le> ?len" using le by linarith+
  have count: "min (int ?e - int s) (int ?len - int d) = (if ?e < s then int ?e - int s else int n)" using le n by auto
  have to: "relative (toIntegerOrInfinity (case target of None \<Rightarrow> NaN | Some n \<Rightarrow> n)) ?len = d"
    by (simp add: d_def relativeStart_def split: option.split)
  have valid: "taValidate v b = Inr ()" "requireMutable b = Inr ()"
    using assms(2,3) by (simp_all add: taValidate_ok requireMutable_def)
  show ?thesis
  proof (cases "n = 0")
    case True
    have "ta_copyWithin memcpy v target start stop b = Inr b"
      unfolding ta_copyWithin_def valid bind_result_simps to Let_def
      using True count by (simp flip: s_def split: if_splits)
    then show ?thesis using True by simp
  next
    case False
    then have e: "\<not> ?e < s" using n by auto
    have cl: "min (int n) (min (int ?len - int d) (int ?len - int s)) = int n" using dn by simp
    have "n * ?bpe \<le> ?len * ?bpe" using dn by simp
    then have "n * ?bpe \<le> AB_ALLOC_LIMIT" using assms(4) by (rule order_trans)
    then have lim: "checkAllocLimit (n * ?bpe) = Inr ()" by (simp add: checkAllocLimit_def)
    let ?m = "memcpy (?o + d * ?bpe) (?o + s * ?bpe) (n * ?bpe) (ab_bytes b)"
    have run: "ta_copyWithin memcpy v target start stop b = Inr (b\<lparr>ab_bytes := ?m\<rparr>)"
      unfolding ta_copyWithin_def valid bind_result_simps to Let_def s_def [symmetric] count
      using False e cl lim by simp
    have mul: "d * ?bpe + n * ?bpe \<le> ?len * ?bpe" "s * ?bpe + n * ?bpe \<le> ?len * ?bpe"
      using dn by (simp_all flip: add_mult_distrib)
    have "d * ?bpe + n * ?bpe \<le> s * ?bpe \<or> s * ?bpe + n * ?bpe \<le> d * ?bpe"
      using apart by (auto simp flip: add_mult_distrib)
    then have "?m = overwrite (?o + d * ?bpe) (take (n * ?bpe) (drop (?o + s * ?bpe) (ab_bytes b))) (ab_bytes b)"
      using assms(1) mul ta_room [OF assms(2)] unfolding memcpy_spec_def by auto
    then show ?thesis using run overwrite_elems [OF assms(2) dn] by simp
  qed
qed

text \<open>A \<open>memcpy\<close> that copies upwards byte by byte is a correct one; on ranges that overlap it repeats bytes.\<close>

definition memcpy_up :: "nat \<Rightarrow> nat \<Rightarrow> nat \<Rightarrow> byte list \<Rightarrow> byte list" where
  "memcpy_up d s n m = foldl (\<lambda>m i. m[d + i := m ! (s + i)]) m [0..<n]"

lemma memcpy_up_spec: "memcpy_spec memcpy_up"
  unfolding memcpy_spec_def
proof (intro allI impI)
  fix d s n :: nat and m :: "byte list"
  assume a: "d + n \<le> length m \<and> s + n \<le> length m \<and> (d + n \<le> s \<or> s + n \<le> d)"
  have "memcpy_up d s k m = overwrite d (take k (drop s m)) m" if "k \<le> n" for k
    using that
  proof (induction k)
    case (Suc k)
    have "memcpy_up d s (Suc k) m = (memcpy_up d s k m)[d + k := memcpy_up d s k m ! (s + k)]"
      by (simp add: memcpy_up_def)
    then show ?case using Suc a
      by (intro nth_equalityI) (auto simp: nth_overwrite nth_list_update)
  qed (simp add: memcpy_up_def)
  then show "memcpy_up d s n m = overwrite d (take n (drop s m)) m" by simp
qed

definition bytes_view :: "nat \<Rightarrow> typed_array" where
  "bytes_view n = \<lparr>ta_kind = U8, ta_offset = 0, ta_fixed = True, ta_len = n\<rparr>"

definition bytes_buffer :: "byte list \<Rightarrow> array_buffer" where
  "bytes_buffer m = \<lparr>ab_bytes = m, ab_max = length m, ab_resizable = False, ab_immutable = False, ab_detached = False\<rparr>"

lemma copyWithin_overlap:
  "map_sum id ab_bytes (ta_copyWithin memcpy_up (bytes_view 3) (Some (Fin 1)) (Some (Fin 0)) None (bytes_buffer [1, 2, 3])) = Inr [1, 1, 1]"
  "elems (bytes_view 3) (bytes_buffer [1, 2, 3]) = [1, 2, 3]"
  by (simp_all add: ta_copyWithin_def bytes_view_def bytes_buffer_def taLength_def taValidate_def taIsOutOfBounds_def
      requireMutable_def relativeStart_def relativeEnd_def trunc_rat_def checkAllocLimit_def AB_ALLOC_LIMIT_def memcpy_up_def
      elems_def getU8_def getByte_def upt_rec [of 0] upt_rec [of "Suc 0"] upt_rec [of "Suc (Suc 0)"])

text \<open>Searching finds the first element from the start index on that is equal.\<close>

lemma search_loop_find:
  assumes "\<not> taIsOutOfBounds v b" "\<forall>i \<in> set is. i < taLength v b"
  shows "search_loop v b x is =
    (case find (\<lambda>i. elem_of (ta_kind v) (elems v b ! i) = x) is of None \<Rightarrow> -1 | Some i \<Rightarrow> int i)"
proof -
  have "\<not> ab_detached b" using assms(1) oob_detached [of b v] by blast
  then show ?thesis using assms(2) by (induction "is") (simp_all add: readAt_elems)
qed

lemma relativeStart_from:
  "relative (case from of None \<Rightarrow> XI 0 | Some f \<Rightarrow> toIntegerOrInfinity f) n = relativeStart from n"
  by (simp add: relativeStart_def split: option.split)

lemma find_hit: "(case find P xs of None \<Rightarrow> -1 | Some i \<Rightarrow> int i) \<noteq> -1 \<longleftrightarrow> (\<exists>i \<in> set xs. P i)"
  by (induction xs) auto

theorem ta_search:
  fixes x :: elem_value
  assumes "\<not> taIsOutOfBounds v b"
  defines "hit \<equiv> \<lambda>i. elem_of (ta_kind v) (elems v b ! i) = x"
  shows "ta_indexOf v b x from =
      Inr (case find hit [relativeStart from (taLength v b)..<taLength v b] of None \<Rightarrow> -1 | Some i \<Rightarrow> int i)"
    and "ta_includes v b x from = Inr (\<exists>i \<in> {relativeStart from (taLength v b)..<taLength v b}. hit i)"
proof -
  let ?n = "case from of None \<Rightarrow> XI 0 | Some f \<Rightarrow> toIntegerOrInfinity f" and ?len = "taLength v b"
  let ?s = "relativeStart from ?len"
  have far: "?s = ?len" if "?n = XPos" using relativeStart_from [of "from" ?len] that by simp
  note [simp] = taValidate_ok [OF assms(1)] relativeStart_from
  have loop: "search_loop v b x [?s..<?len] = (case find hit [?s..<?len] of None \<Rightarrow> -1 | Some i \<Rightarrow> int i)"
    unfolding hit_def by (rule search_loop_find [OF assms(1)]) simp
  show "ta_indexOf v b x from = Inr (case find hit [?s..<?len] of None \<Rightarrow> -1 | Some i \<Rightarrow> int i)"
  proof (cases "?len = 0 \<or> ?n = XPos")
    case True
    then have "[?s..<?len] = []" using far by auto
    then show ?thesis using True by (auto simp: ta_indexOf_def Let_def)
  next
    case False
    then show ?thesis using loop by (simp add: ta_indexOf_def Let_def)
  qed
  have some: "(case find hit [?s..<?len] of None \<Rightarrow> -1 | Some i \<Rightarrow> int i) \<noteq> -1 \<longleftrightarrow> (\<exists>i \<in> {?s..<?len}. hit i)"
    using find_hit [of hit "[?s..<?len]"] by simp
  show "ta_includes v b x from = Inr (\<exists>i \<in> {?s..<?len}. hit i)"
  proof (cases "?len = 0 \<or> ?n = XPos")
    case True
    then have "{?s..<?len} = {}" using far by auto
    then show ?thesis using True by (auto simp: ta_includes_def Let_def)
  next
    case False
    then show ?thesis using loop some by (simp add: ta_includes_def Let_def)
  qed
qed

section \<open>Views and resizing\<close>

lemma ab_resize_bytes:
  assumes "ab_resize n b = Inr b'"
  shows "\<exists>k. b' = b\<lparr>ab_bytes := take k (ab_bytes b) @ replicate (k - length (ab_bytes b)) 0\<rparr> \<and> k \<le> ab_max b \<and>
    (k = length (ab_bytes b) \<or> k \<le> AB_ALLOC_LIMIT) \<and> \<not> ab_immutable b \<and> ab_resizable b \<and> \<not> ab_detached b"
proof -
  obtain k where k: "toIndex n = Inr k" "k \<le> ab_max b" "\<not> ab_immutable b" "ab_resizable b" "\<not> ab_detached b"
    using assms by (auto simp: ab_resize_def bind_result_Inr split: if_splits)
  consider "k = length (ab_bytes b)" | "k < length (ab_bytes b)" | "length (ab_bytes b) < k" by linarith
  then show ?thesis
  proof cases
    case 1
    then show ?thesis using assms k by (intro exI [of _ k]) (auto simp: ab_resize_def)
  next
    case 2
    then show ?thesis using assms k
      by (intro exI [of _ k]) (auto simp: ab_resize_def Let_def bind_result_Inr checkAllocLimit_def buf_copy_def split: if_splits)
  next
    case 3
    then show ?thesis using assms k
      by (intro exI [of _ k]) (auto simp: ab_resize_def Let_def bind_result_Inr checkAllocLimit_def buf_copy_def buf_fill_def split: if_splits)
  qed
qed

lemma resize_views:
  assumes "ab_resize n b = Inr b'" "\<not> taIsOutOfBounds v b"
  shows "taIsOutOfBounds v b' \<Longrightarrow> readAt v b' i = None \<and> writeAt v i x b' = bind_result (coerce_elem (ta_kind v) x) (\<lambda>_. Inr b')"
    and "\<not> taIsOutOfBounds v b' \<Longrightarrow> j < taLength v b \<Longrightarrow> j < taLength v b' \<Longrightarrow> elems v b' ! j = elems v b ! j"
    and "\<not> taIsOutOfBounds v b' \<Longrightarrow> ta_fixed v \<Longrightarrow> elems v b' = elems v b"
proof -
  obtain k where k: "b' = b\<lparr>ab_bytes := take k (ab_bytes b) @ replicate (k - length (ab_bytes b)) 0\<rparr>"
    using ab_resize_bytes [OF assms(1)] by blast
  show "readAt v b' i = None \<and> writeAt v i x b' = bind_result (coerce_elem (ta_kind v) x) (\<lambda>_. Inr b')" if "taIsOutOfBounds v b'"
    using that by (simp add: readAt_def writeAt_def)
  have elem: "elems v b' ! j = elems v b ! j" if "j < taLength v b" "j < taLength v b'" for j
  proof -
    have "get_elem (ta_kind v) (ab_bytes b') (ta_offset v + j * ta_bpe v) = get_elem (ta_kind v) (ab_bytes b) (ta_offset v + j * ta_bpe v)"
      using ta_room_elem [OF that(1)] ta_room_elem [OF that(2)] k by (intro get_elem_cong) (auto simp: nth_append min_def split: if_splits)
    then show ?thesis using that by (simp add: nth_elems)
  qed
  then show "j < taLength v b \<Longrightarrow> j < taLength v b' \<Longrightarrow> elems v b' ! j = elems v b ! j" .
  assume "\<not> taIsOutOfBounds v b'" "ta_fixed v"
  then have "taLength v b' = taLength v b"
    using assms(2) by (auto simp: taIsOutOfBounds_def taLength_def split: if_splits)
  then show "elems v b' = elems v b" using elem by (intro nth_equalityI) simp_all
qed

text \<open>C2: After \<open>resize\<close>, a view that no longer fits reads no element and writes nothing; in a view
  that still fits, every element that was there and is there keeps its value, and a view of fixed length has
  the same elements.
\<close>

theorem resize_keeps_elements:
  assumes "ab_resize n b = Inr b'" "\<not> taIsOutOfBounds v b"
  shows "if taIsOutOfBounds v b'
    then readAt v b' i = None \<and> writeAt v i x b' = bind_result (coerce_elem (ta_kind v) x) (\<lambda>_. Inr b')
    else take (taLength v b) (elems v b') = take (taLength v b') (elems v b) \<and> (ta_fixed v \<longrightarrow> elems v b' = elems v b)"
proof (cases "taIsOutOfBounds v b'")
  case True
  then show ?thesis using resize_views(1) [OF assms True] by simp
next
  case False
  have "take (taLength v b) (elems v b') = take (taLength v b') (elems v b)"
    using resize_views(2) [OF assms False] by (intro nth_equalityI) auto
  then show ?thesis using False resize_views(3) [OF assms False] by simp
qed

section \<open>What the methods of a buffer return\<close>

lemma ab_new_bytes:
  assumes "ab_new len mx = Inr b"
  shows "\<exists>n. ab_bytes b = replicate n 0 \<and> n \<le> ab_max b \<and> ab_max b \<le> AB_ALLOC_LIMIT \<and> \<not> ab_detached b \<and>
    (\<not> ab_resizable b \<longrightarrow> ab_max b = n) \<and> \<not> ab_immutable b"
  using assms by (auto simp: ab_new_def parseBufferCtorArgs_def bind_result_Inr checkAllocLimit_def split: option.splits if_splits)

lemma buf_copy_zeros:
  "n \<le> k \<Longrightarrow> n \<le> length src \<Longrightarrow> buf_copy (replicate k 0) 0 src 0 n = take n src @ replicate (k - n) 0"
  by (simp add: buf_copy_def)

lemma transferTo_bytes:
  assumes "transferTo newLength mode b = Inr (c, b')"
  shows "\<exists>k. ab_bytes c = take k (ab_bytes b) @ replicate (k - length (ab_bytes b)) 0 \<and> k \<le> AB_ALLOC_LIMIT \<and>
      ab_resizable c = (mode = PreserveResizability \<and> ab_resizable b) \<and>
      ab_max c = (if ab_resizable c then ab_max b else k) \<and> k \<le> ab_max c \<and> \<not> ab_detached c \<and> (ab_immutable c \<longleftrightarrow> mode = Immutable) \<and>
      (newLength = None \<longrightarrow> k = length (ab_bytes b))"
    "b' = detachArrayBuffer b" "\<not> ab_detached b" "\<not> ab_immutable b"
proof -
  obtain k where k: "(case newLength of None \<Rightarrow> Inr (length (ab_bytes b)) | Some n \<Rightarrow> toIndex (Some n)) = Inr k" "k \<le> AB_ALLOC_LIMIT"
    "\<not> ab_detached b" "\<not> ab_immutable b"
    using assms by (auto simp: transferTo_def Let_def bind_result_Inr checkAllocLimit_def split: if_splits)
  let ?p = "mode = PreserveResizability \<and> ab_resizable b" and ?len = "length (ab_bytes b)"
  have run: "\<not> (?p \<and> ab_max b < k)"
    "c = \<lparr>ab_bytes = (if 0 < min ?len k then buf_copy (replicate k 0) 0 (ab_bytes b) 0 (min ?len k) else replicate k 0),
       ab_max = (if ?p then ab_max b else k), ab_resizable = ?p, ab_immutable = (mode = Immutable), ab_detached = False\<rparr>"
    "b' = detachArrayBuffer b"
    using assms k by (auto simp: transferTo_def Let_def checkAllocLimit_def split: if_splits)
  have bytes: "ab_bytes c = take k (ab_bytes b) @ replicate (k - ?len) 0"
    by (cases "?len \<le> k") (auto simp: run(2) buf_copy_def)
  show "b' = detachArrayBuffer b" "\<not> ab_detached b" "\<not> ab_immutable b" by (fact run(3) k(3) k(4))+
  have "newLength = None \<longrightarrow> k = ?len" using k(1) by auto
  then show "\<exists>k. ab_bytes c = take k (ab_bytes b) @ replicate (k - length (ab_bytes b)) 0 \<and> k \<le> AB_ALLOC_LIMIT \<and>
      ab_resizable c = (mode = PreserveResizability \<and> ab_resizable b) \<and>
      ab_max c = (if ab_resizable c then ab_max b else k) \<and> k \<le> ab_max c \<and> \<not> ab_detached c \<and> (ab_immutable c \<longleftrightarrow> mode = Immutable) \<and>
      (newLength = None \<longrightarrow> k = length (ab_bytes b))"
    using bytes k(2) run(1) by (intro exI [of _ k]) (auto simp: run(2))
qed

lemma slice_bytes_eq:
  assumes "slice_bytes s e m = Inr m'"
  shows "m' = take (relativeEnd e (length m) - relativeStart s (length m)) (drop (relativeStart s (length m)) m)"
    "length m' \<le> AB_ALLOC_LIMIT"
proof -
  let ?s = "relativeStart s (length m)" and ?e = "relativeEnd e (length m)"
  have le: "?e \<le> length m" "?s \<le> length m" by simp_all
  show "m' = take (?e - ?s) (drop ?s m)"
    using assms le by (auto simp: slice_bytes_def Let_def bind_result_Inr checkAllocLimit_def buf_copy_def split: if_splits)
  then show "length m' \<le> AB_ALLOC_LIMIT"
    using assms le by (auto simp: slice_bytes_def Let_def bind_result_Inr checkAllocLimit_def split: if_splits)
qed

section \<open>Instances\<close>

lemmas view_eval = taValidate_def taIsOutOfBounds_def taLength_def bytes_view_def bytes_buffer_def requireMutable_def
  relativeStart_def relativeEnd_def trunc_rat_def checkAllocLimit_def AB_ALLOC_LIMIT_def elems_def getU8_def getByte_def
  upt_rec [of 0] upt_rec [of "Suc 0"] upt_rec [of "Suc (Suc 0)"] upt_rec [of "Suc (Suc (Suc 0))"] fits_def

lemma bytes_view_valid: "\<not> taIsOutOfBounds (bytes_view 4) (bytes_buffer [7, 8, 9, 9])" "\<not> ab_immutable (bytes_buffer m)"
  "taLength (bytes_view 4) (bytes_buffer [7, 8, 9, 9]) = 4" "ta_kind (bytes_view n) = U8" "length (ab_bytes (bytes_buffer m)) = length m"
  "ta_offset (bytes_view n) = 0"
  by (simp_all add: view_eval)

lemma bytes_view_elems: "elems (bytes_view 4) (bytes_buffer [7, 8, 9, 9]) = [7, 8, 9, 9]"
  by (simp add: view_eval)

lemma indices:
  "relativeStart (Some (Fin 0)) 4 = 0" "relativeStart (Some (Fin 1)) 4 = 1" "relativeStart (Some (Fin 2)) 4 = 2"
  "relativeStart (Some (Fin (- 3))) 4 = 1" "relativeEnd (Some (Fin 3)) 4 = 3" "relativeEnd (Some (Fin (- 1))) 4 = 3"
  "relativeEnd None 4 = 4"
  by (simp_all add: relativeStart_def relativeEnd_def trunc_rat_def ceiling_def)

theorem ta_fill_list_witness:
  "\<exists>b'. ta_fill (bytes_view 4) (Num (Fin 300)) (Some (Fin 1)) (Some (Fin (- 1))) (bytes_buffer [7, 8, 9, 9]) = Inr b' \<and>
     elems (bytes_view 4) b' = [7, 44, 44, 9]"
  using ta_fill_list [of "bytes_view 4" "bytes_buffer [7, 8, 9, 9]" "Num (Fin 300)" "Some (Fin 1)" "Some (Fin (- 1))"]
  by (auto simp: bytes_view_valid bytes_view_elems fits_def indices trunc_rat_def overwrite_def numeral_2_eq_2)

theorem ta_set_list_witness:
  "\<exists>b'. ta_set (bytes_view 4) (FromArray (bytes_view 4 \<lparr>ta_len := 3\<rparr>) None) (Some (js_nat 1)) (bytes_buffer [7, 8, 9, 9]) = (b', None) \<and>
     elems (bytes_view 4) b' = [7, 7, 8, 9]"
proof -
  have s: "elems (bytes_view 4 \<lparr>ta_len := 3\<rparr>) (bytes_buffer [7, 8, 9, 9]) = [7, 8, 9]"
    "source_length (FromArray (bytes_view 4 \<lparr>ta_len := 3\<rparr>) None) (bytes_buffer [7, 8, 9, 9]) = Inr 3"
    "ta_kind (bytes_view 4 \<lparr>ta_len := 3\<rparr>) = U8"
    by (simp_all add: view_eval)
  show ?thesis
    using ta_set_list [of "bytes_view 4" "bytes_buffer [7, 8, 9, 9]" "FromArray (bytes_view 4 \<lparr>ta_len := 3\<rparr>) None" 3 1] s
    by (auto simp: bytes_view_valid bytes_view_elems source_elems_def fits_elem_of AB_ALLOC_LIMIT_def elem_of_def fits_def
        overwrite_def trunc_rat_def)
qed

theorem ta_reverse_list_witness:
  "\<exists>b'. ta_reverse (bytes_view 4) (bytes_buffer [7, 8, 9, 9]) = Inr b' \<and> elems (bytes_view 4) b' = [9, 9, 8, 7]"
  using ta_reverse_list [of "bytes_view 4" "bytes_buffer [7, 8, 9, 9]"] by (auto simp: bytes_view_valid bytes_view_elems)

theorem ta_sort_list_witness:
  "\<exists>b'. ta_sort (bytes_view 4) (bytes_buffer [7, 8, 9, 9]) = Inr b' \<and> elems (bytes_view 4) b' = [7, 8, 9, 9]"
  using ta_sort_list [of "bytes_view 4" "bytes_buffer [7, 8, 9, 9]"] by (auto simp: bytes_view_valid bytes_view_elems)

theorem subarray_window_witness:
  "\<exists>w. ta_subarray (bytes_view 4) (bytes_buffer [7, 8, 9, 9]) (Some (Fin 1)) (Some (Some (Fin 3))) = Inr w \<and>
     elems w (bytes_buffer [7, 8, 9, 9]) = [8, 9] \<and>
     writeAt w (int 1) (Num (Fin 5)) (bytes_buffer [7, 8, 9, 9]) = writeAt (bytes_view 4) (int 2) (Num (Fin 5)) (bytes_buffer [7, 8, 9, 9])"
  by (rule subarray_window [of "bytes_view 4" "bytes_buffer [7, 8, 9, 9]" "Some (Fin 1)" "Some (Fin 3)" 1 "Num (Fin 5)"])
    (auto simp: bytes_view_valid bytes_view_elems AB_ALLOC_LIMIT_def indices fits_def)

theorem ta_slice_list_witness:
  "\<exists>w c. ta_slice (ta_alloc U8) (bytes_view 4) (bytes_buffer [7, 8, 9, 9]) (Some (Fin 1)) (Some (Fin 3)) = Inr (w, c) \<and>
     elems w c = [8, 9]"
  using ta_slice_list [of "bytes_view 4" "bytes_buffer [7, 8, 9, 9]" "Some (Fin 1)" "Some (Fin 3)"]
  by (auto simp: bytes_view_valid bytes_view_elems AB_ALLOC_LIMIT_def indices)

theorem ta_copyWithin_list_witness:
  "\<exists>b'. ta_copyWithin memcpy_up (bytes_view 4) (Some (Fin 0)) (Some (Fin 2)) None (bytes_buffer [7, 8, 9, 9]) = Inr b' \<and>
     elems (bytes_view 4) b' = [9, 9, 9, 9]"
  using ta_copyWithin_list [OF memcpy_up_spec, where v = "bytes_view 4" and b = "bytes_buffer [7, 8, 9, 9]" and target = "Some (Fin 0)"
      and start = "Some (Fin 2)" and stop = None]
  by (auto simp: bytes_view_valid bytes_view_elems AB_ALLOC_LIMIT_def indices overwrite_def)

theorem ta_search_witness:
  "ta_indexOf (bytes_view 4) (bytes_buffer [7, 8, 9, 9]) (Num (Fin 9)) (Some (Fin (- 3))) = Inr 2 \<and>
   ta_includes (bytes_view 4) (bytes_buffer [7, 8, 9, 9]) (Num (Fin 7)) (Some (Fin 1)) = Inr False"
proof -
  have "{1..<4::nat} = {1, 2, 3}" by auto
  moreover have "[1..<4] = [1, 2, 3::nat]" by (simp add: upt_rec)
  ultimately show ?thesis
    using ta_search(1) [of "bytes_view 4" "bytes_buffer [7, 8, 9, 9]" "Num (Fin 9)" "Some (Fin (- 3))"]
      ta_search(2) [of "bytes_view 4" "bytes_buffer [7, 8, 9, 9]" "Num (Fin 7)" "Some (Fin 1)"]
    by (simp add: bytes_view_valid bytes_view_elems indices elem_of_def)
qed

definition tracked :: "array_buffer" where
  "tracked = \<lparr>ab_bytes = [1, 2, 3, 4], ab_max = 8, ab_resizable = True, ab_immutable = False, ab_detached = False\<rparr>"

theorem resize_keeps_elements_witness:
  "\<exists>b'. ab_resize (Some (Fin 3)) tracked = Inr b' \<and> readAt (bytes_view 4) b' 0 = None \<and> elems (bytes_view 2) b' = [1, 2]"
proof -
  have r: "ab_resize (Some (Fin 3)) tracked = Inr (tracked\<lparr>ab_bytes := [1, 2, 3]\<rparr>)"
    by (simp add: ab_resize_def tracked_def toIndex_def trunc_rat_def MAX_SAFE_INDEX_def checkAllocLimit_def AB_ALLOC_LIMIT_def
        buf_copy_def)
  have v: "\<not> taIsOutOfBounds (bytes_view 4) tracked" "\<not> taIsOutOfBounds (bytes_view 2) tracked"
    "taIsOutOfBounds (bytes_view 4) (tracked\<lparr>ab_bytes := [1, 2, 3]\<rparr>)" "\<not> taIsOutOfBounds (bytes_view 2) (tracked\<lparr>ab_bytes := [1, 2, 3]\<rparr>)"
    "ta_fixed (bytes_view n)" "elems (bytes_view 2) tracked = [1, 2]" for n
    by (simp_all add: view_eval tracked_def)
  show ?thesis
    using resize_keeps_elements [OF r v(1), of 0] resize_keeps_elements [OF r v(2)] r v(3-6) by simp
qed

section \<open>Where the code departs from its comments and the language\<close>

text \<open>\<open>slice\<close> into an array of smaller elements writes past the end of its buffer.\<close>

lemma slice_overflow:
  "\<exists>w c. ta_slice (ta_alloc U8) \<lparr>ta_kind = U32, ta_offset = 0, ta_fixed = True, ta_len = 1\<rparr> (bytes_buffer [7, 8, 9, 9]) None None = Inr (w, c) \<and>
     length (ab_bytes (snd (ta_alloc U8 1))) = 1 \<and> length (ab_bytes c) = 4"
  by (simp add: ta_slice_def taSpeciesCreate_def view_eval buf_copy_def ta_alloc_def)

text \<open>An array that follows its buffer: \<open>subarray(0)\<close> follows it too, \<open>subarray(0, undefined)\<close> does not.\<close>

lemma subarray_undefined:
  "map_sum id ta_fixed (ta_subarray (bytes_view 4 \<lparr>ta_fixed := False\<rparr>) tracked (Some (Fin 0)) None) = Inr False"
  "map_sum id ta_fixed (ta_subarray (bytes_view 4 \<lparr>ta_fixed := False\<rparr>) tracked (Some (Fin 0)) (Some None)) = Inr True"
  by (simp_all add: ta_subarray_def ta_new_def view_eval tracked_def toIndex_def js_nat_def MAX_SAFE_INDEX_def)

text \<open>The language lets an array follow a resizable buffer of any length; here the length has to be a multiple.\<close>

lemma tracking_needs_multiple:
  "ta_new U32 (tracked\<lparr>ab_bytes := [1, 2, 3]\<rparr>) None None = Inl (RangeError ''byte length of ArrayBuffer is not a multiple of element size'')"
  by (simp add: ta_new_def tracked_def toIndex_def)

end
