(* ===== verification/DataViews.thy ===== *)
theory DataViews
  imports TypedArrayLists
begin

text \<open>
  \<open>binary_types.js\<close>: \<open>DataView\<close>, integers of every size in both byte orders at any offset of a buffer.
  At the end: the buffers a run can have, made and written by the operations of \<open>ArrayBuffers\<close>, \<open>TypedArrays\<close> and
  of this theory, and their invariant.
\<close>

section \<open>DataView\<close>

record data_view =
  dv_offset :: nat
  dv_fixed :: bool
  dv_len :: nat

definition dv_new :: "array_buffer \<Rightarrow> jsnum option \<Rightarrow> jsnum option \<Rightarrow> data_view result" where
  "dv_new b byteOffset byteLength =
     bind_result (toIndex byteOffset) (\<lambda>off.
       let bufLen = length (ab_bytes b)
       in if ab_detached b then Inl (TypeError ''Cannot construct DataView with a detached ArrayBuffer'')
          else if bufLen < off then Inl (RangeError ''byteOffset out of range'')
          else case byteLength of
            None \<Rightarrow> Inr \<lparr>dv_offset = off, dv_fixed = False, dv_len = bufLen - off\<rparr>
          | Some n \<Rightarrow>
              bind_result (toIndex (Some n)) (\<lambda>viewLen.
                if bufLen < off + viewLen then Inl (RangeError ''byteLength out of range'')
                else Inr \<lparr>dv_offset = off, dv_fixed = True, dv_len = viewLen\<rparr>))"

definition dvIsOutOfBounds :: "data_view \<Rightarrow> array_buffer \<Rightarrow> bool" where
  "dvIsOutOfBounds v b \<longleftrightarrow>
     (if ab_detached b then True
      else if length (ab_bytes b) < dv_offset v then True
      else if dv_fixed v then length (ab_bytes b) < dv_offset v + dv_len v
      else False)"

definition dvLiveByteLength :: "data_view \<Rightarrow> array_buffer \<Rightarrow> nat" where
  "dvLiveByteLength v b =
     (if dvIsOutOfBounds v b then 0 else if dv_fixed v then dv_len v else length (ab_bytes b) - dv_offset v)"

definition dv_byteLength :: "data_view \<Rightarrow> array_buffer \<Rightarrow> nat result" where
  "dv_byteLength v b =
     (if dvIsOutOfBounds v b then Inl (TypeError ''DataView is out of bounds or has a detached ArrayBuffer'')
      else Inr (dvLiveByteLength v b))"

definition dvValidate :: "data_view \<Rightarrow> array_buffer \<Rightarrow> jsnum option \<Rightarrow> nat \<Rightarrow> nat result" where
  "dvValidate v b offset sz =
     bind_result (toIndex offset) (\<lambda>byteOffset.
       if ab_detached b then Inl (TypeError ''Cannot perform DataView operation on a detached ArrayBuffer'')
       else if dvIsOutOfBounds v b then Inl (TypeError ''DataView is out of bounds'')
       else if dvLiveByteLength v b < byteOffset + sz then Inl (RangeError ''Offset is outside the bounds of the DataView'')
       else Inr byteOffset)"

text \<open>\<open>_dvWriteNumber\<close> and \<open>_dvWriteBigInt\<close>.\<close>

definition dvWrite :: "data_view \<Rightarrow> array_buffer \<Rightarrow> jsnum option \<Rightarrow> elem_kind \<Rightarrow> elem_value \<Rightarrow> nat result" where
  "dvWrite v b offset k x =
     bind_result (requireMutable b) (\<lambda>_. bind_result (toIndex offset) (\<lambda>byteOffset. bind_result (coerce_elem k x) (\<lambda>_.
       if ab_detached b then Inl (TypeError ''Cannot perform DataView operation on a detached ArrayBuffer'')
       else if dvIsOutOfBounds v b then Inl (TypeError ''DataView is out of bounds'')
       else if dvLiveByteLength v b < byteOffset + bytes_per_element k
       then Inl (RangeError ''Offset is outside the bounds of the DataView'')
       else Inr byteOffset)))"

text \<open>The accessors of an offset within the view, by kind; the flag is \<open>littleEndian\<close>.\<close>

definition be_getU16 :: "byte list \<Rightarrow> nat \<Rightarrow> int" where
  "be_getU16 m off = sint (push_bit 8 (getByte m off) OR getByte m (off + 1))"

definition be_setU16 :: "nat \<Rightarrow> jsnum \<Rightarrow> byte list \<Rightarrow> byte list" where
  "be_setU16 off v m = setByte (off + 1) (to_int32 v AND 0xFF) (setByte off (drop_bit 8 (to_int32 v) AND 0xFF) m)"

fun dv_load :: "elem_kind \<Rightarrow> bool \<Rightarrow> byte list \<Rightarrow> nat \<Rightarrow> int" where
  "dv_load U8 le m off = getU8 m off"
| "dv_load U8C le m off = getU8 m off"
| "dv_load I8 le m off = getI8 m off"
| "dv_load U16 le m off = (if le then getU16 m off else be_getU16 m off)"
| "dv_load I16 le m off =
     (let u = (if le then getU16 m off else be_getU16 m off) in if 32767 < u then u - 65536 else u)"
| "dv_load U32 le m off = (if le then uint (le_word m off) else uint (be_word m off))"
| "dv_load I32 le m off = (if le then sint (le_word m off) else sint (be_word m off))"
| "dv_load BI64 le m off = getBigInt64 m off le"
| "dv_load BU64 le m off = getBigUint64 m off le"

fun dv_store :: "elem_kind \<Rightarrow> bool \<Rightarrow> nat \<Rightarrow> elem_value \<Rightarrow> byte list \<Rightarrow> byte list" where
  "dv_store U8 le off (Num v) m = setU8 off v m"
| "dv_store I8 le off (Num v) m = setI8 off v m"
| "dv_store U16 le off (Num v) m = (if le then setU16 off v m else be_setU16 off v m)"
| "dv_store I16 le off (Num v) m = (if le then setU16 off v m else be_setU16 off v m)"
| "dv_store U32 le off (Num v) m = (if le then set_le_word off (to_int32 v) m else set_be_word off (to_int32 v) m)"
| "dv_store I32 le off (Num v) m = (if le then set_le_word off (to_int32 v) m else set_be_word off (to_int32 v) m)"
| "dv_store BI64 le off (Big v) m = setBigInt64 off v le m"
| "dv_store BU64 le off (Big v) m = setBigUint64 off v le m"
| "dv_store k le off v m = m"

definition dv_get :: "elem_kind \<Rightarrow> data_view \<Rightarrow> array_buffer \<Rightarrow> jsnum option \<Rightarrow> bool \<Rightarrow> int result" where
  "dv_get k v b offset le =
     bind_result (dvValidate v b offset (bytes_per_element k)) (\<lambda>off. Inr (dv_load k le (ab_bytes b) (dv_offset v + off)))"

definition dv_set :: "elem_kind \<Rightarrow> data_view \<Rightarrow> jsnum option \<Rightarrow> elem_value \<Rightarrow> bool \<Rightarrow> array_buffer \<Rightarrow> array_buffer result" where
  "dv_set k v offset x le b =
     bind_result (dvWrite v b offset k x) (\<lambda>off.
       Inr (b\<lparr>ab_bytes := dv_store k le (dv_offset v + off) x (ab_bytes b)\<rparr>))"

section \<open>Accessors in both byte orders\<close>

lemma be_setU16_get:
  assumes "off + 2 \<le> length m"
  shows "be_getU16 (be_setU16 off v m) off = num_int v mod 2 ^ 16"
proof -
  have "push_bit 8 (take_bit 8 (drop_bit 8 (to_int32 v))) OR take_bit 8 (to_int32 v) = take_bit 16 (to_int32 v)"
    using word_bytes_16 [of "to_int32 v"] by (simp only: or.commute)
  then have "be_getU16 (be_setU16 off v m) off = sint (take_bit 16 (to_int32 v))"
    using assms by (simp add: be_getU16_def be_setU16_def bytes_get_set)
  also have "\<dots> = signed_of 32 (num_int v mod 2 ^ 16)" by (simp only: to_int32_num take_bit_word sint_full)
  also have "\<dots> = num_int v mod 2 ^ 16"
    using pos_mod_bound [of "65536" "num_int v"] by (simp add: signed_of_def mod_pos_pos_trivial Let_def)
  finally show ?thesis .
qed

lemma dv_native: "k \<noteq> U8C \<Longrightarrow> dv_load k True m off = get_elem k m off" "k \<noteq> U8C \<Longrightarrow> dv_store k True off x m = set_elem k off x m"
proof -
  show "k \<noteq> U8C \<Longrightarrow> dv_load k True m off = get_elem k m off"
    by (cases k) (simp_all add: getI16_def getU32_def getI32_def)
  show "k \<noteq> U8C \<Longrightarrow> dv_store k True off x m = set_elem k off x m"
    by (cases k; cases x) (simp_all add: setI16_def setU32_def setI32_def)
qed

lemma dv_one_byte:
  "bytes_per_element k = 1 \<Longrightarrow> k \<noteq> U8C \<Longrightarrow> dv_load k le m off = get_elem k m off \<and> dv_store k le off x m = set_elem k off x m"
  by (cases k; cases x) simp_all

lemma dv_load_store:
  assumes "off + bytes_per_element k \<le> length m" "fits k x" "k \<noteq> U8C"
  shows "dv_load k le (dv_store k le off x m) off = held k x"
proof (cases le)
  case True
  then show ?thesis using assms by (simp add: dv_native get_set_elem)
next
  case False
  have i16: "(let u = be_getU16 (be_setU16 off v m) off in if 32767 < u then u - 65536 else u) = signed_of 16 (num_int v)"
    if "off + 2 \<le> length m" for v
    using be_setU16_get [OF that, of v] by (simp add: signed_of_def Let_def)
  show ?thesis
  proof (cases "bytes_per_element k = 1")
    case True
    then show ?thesis using dv_one_byte [OF True assms(3)] get_set_elem [OF assms(1,2)] by simp
  next
    case F: False
    show ?thesis using False F assms be_setU16_get [of off m] i16 le_word_set(2) [of off m] getBig_set [of off m _ False]
      by (cases k; cases x) (simp_all add: fits_def to_int32_num uint_full sint_full)
  qed
qed

lemma dv_store_length: "off + bytes_per_element k \<le> length m \<Longrightarrow> length (dv_store k le off x m) = length m"
  by (cases k; cases x) (simp_all add: setU8_def setI8_def setU16_def be_setU16_def setI16_def setBigInt64_def setBigUint64_def split: prod.split)

lemma dv_store_other:
  "off + bytes_per_element k \<le> length m \<Longrightarrow> j < off \<or> off + bytes_per_element k \<le> j \<Longrightarrow> dv_store k le off x m ! j = m ! j"
  by (cases k; cases x) (auto simp: setU8_def setI8_def setU16_def be_setU16_def setI16_def setBigInt64_def setBigUint64_def
      nth_setByte nth_set_words split: prod.split)

lemma dv_load_cong:
  assumes "\<And>j. off \<le> j \<Longrightarrow> j < off + bytes_per_element k \<Longrightarrow> m ! j = m' ! j"
  shows "dv_load k le m off = dv_load k le m' off"
proof (cases "le \<and> k \<noteq> U8C")
  case True
  then show ?thesis using get_elem_cong [OF assms] by (simp add: dv_native)
next
  case False
  then show ?thesis
    using assms [of off] assms [of "off + 1"] assms word_cong [of off m m'] word_cong [of "off + 4" m m'] 
    by (cases k) (simp_all add: getU8_def getI8_def getU16_def be_getU16_def getBigInt64_def getBigUint64_def getByte_def)
qed

interpretation dv: element_type "bytes_per_element k" "dv_load k le" "dv_store k le" "held k" "\<lambda>x. fits k x \<and> k \<noteq> U8C" for k le
proof
  show "0 < bytes_per_element k" by simp
  show "off + bytes_per_element k \<le> length m \<Longrightarrow> fits k v \<and> k \<noteq> U8C \<Longrightarrow> dv_load k le (dv_store k le off v m) off = held k v"
    for off m v by (simp add: dv_load_store)
qed (fact dv_store_length dv_store_other dv_load_cong)+

text \<open>A big-endian read is the native read of the bytes in reverse order.\<close>

lemma dv_load_reversed:
  assumes "off + bytes_per_element k \<le> length m" "k \<noteq> U8C"
  shows "dv_load k False m off = get_elem k (rev (take (bytes_per_element k) (drop off m))) 0"
proof -
  have byte: "getByte (rev (take n (drop off m))) i = getByte m (off + (n - 1 - i))" if "i < n" "off + n \<le> length m" for n i
    using that by (simp add: getByte_def rev_nth)
  show ?thesis using assms
    by (cases k)
      (simp_all add: byte getU8_def getI8_def getU16_def getI16_def be_getU16_def getU32_def getI32_def
        getBigInt64_def getBigUint64_def le_word_def be_word_def or.commute or.left_commute or.assoc add.commute [of 5] add.commute [of 6] add.commute [of 7])
qed


section \<open>Access through a view\<close>

lemma dvValidate_Inr:
  assumes "dvValidate v b offset n = Inr off"
  shows "toIndex offset = Inr off" "dv_offset v + off + n \<le> length (ab_bytes b)" "off + n \<le> dvLiveByteLength v b"
    "\<not> dvIsOutOfBounds v b"
proof -
  have a: "toIndex offset = Inr off" "\<not> dvIsOutOfBounds v b" "off + n \<le> dvLiveByteLength v b"
    using assms by (auto simp: dvValidate_def bind_result_Inr split: if_splits)
  then show "toIndex offset = Inr off" "off + n \<le> dvLiveByteLength v b" "\<not> dvIsOutOfBounds v b" by simp_all
  show "dv_offset v + off + n \<le> length (ab_bytes b)"
    using a(2,3) by (auto simp: dvLiveByteLength_def dvIsOutOfBounds_def split: if_splits)
qed

lemma dvWrite_Inr:
  assumes "dvWrite v b offset k x = Inr off"
  shows "dvValidate v b offset (bytes_per_element k) = Inr off" "fits k x" "\<not> ab_immutable b"
  using assms by (auto simp: dvWrite_def dvValidate_def bind_result_Inr requireMutable_def coerce_elem_def split: if_splits)

lemma dvValidate_shape: "same_shape b b' \<Longrightarrow> dvValidate v b' offset n = dvValidate v b offset n"
proof -
  assume sh: "same_shape b b'"
  then have "dvIsOutOfBounds v b' = dvIsOutOfBounds v b" by (auto simp: same_shape_def dvIsOutOfBounds_def)
  moreover from this have "dvLiveByteLength v b' = dvLiveByteLength v b"
    using same_shape_simps(6) [OF sh] by (simp add: dvLiveByteLength_def)
  ultimately show ?thesis using same_shape_simps(5) [OF sh] by (cases "toIndex offset") (simp_all add: dvValidate_def)
qed

text \<open>When a setter of \<open>DataView\<close> returns, it has written only the bytes of its element, which
  lie inside the view and inside the buffer, and the getter of the same type and byte order then returns
  what such an element holds of the value.
\<close>

theorem dv_write_read:
  assumes "dv_set k v offset x le b = Inr b'" "k \<noteq> U8C"
  shows "same_shape b b' \<and> dv_get k v b' offset le = Inr (held k x) \<and>
    (\<exists>off. toIndex offset = Inr off \<and> off + bytes_per_element k \<le> dvLiveByteLength v b \<and>
      (\<forall>j. j < dv_offset v + off \<or> dv_offset v + off + bytes_per_element k \<le> j \<longrightarrow> ab_bytes b' ! j = ab_bytes b ! j))"
proof (intro conjI)
  obtain off where off: "dvWrite v b offset k x = Inr off" "b' = b\<lparr>ab_bytes := dv_store k le (dv_offset v + off) x (ab_bytes b)\<rparr>"
    using assms(1) by (auto simp: dv_set_def bind_result_Inr)
  note w = dvWrite_Inr [OF off(1)]
  note r = dvValidate_Inr [OF w(1)]
  show sh: "same_shape b b'" using r(2) by (auto simp: same_shape_def off(2) dv.set_length)
  show "dv_get k v b' offset le = Inr (held k x)"
    unfolding dv_get_def dvValidate_shape [OF sh] w(1)
    using r(2) w(2) assms(2) by (simp add: off(2) dv.get_set)
  show "\<exists>off. toIndex offset = Inr off \<and> off + bytes_per_element k \<le> dvLiveByteLength v b \<and>
      (\<forall>j. j < dv_offset v + off \<or> dv_offset v + off + bytes_per_element k \<le> j \<longrightarrow> ab_bytes b' ! j = ab_bytes b ! j)"
    using r(1,3) dv.set_other [OF r(2)] by (auto simp: off(2))
qed

text \<open>A typed array and a little-endian view of one buffer agree.\<close>

text \<open>A typed array and a little-endian \<open>DataView\<close> of one buffer agree: the getter at the byte
  position of an element returns what the array returns for it.
\<close>

theorem dv_sees_elements:
  assumes "i < taLength v b" "ta_kind v \<noteq> U8C" "\<not> dvIsOutOfBounds d b" "\<not> dv_fixed d" "length (ab_bytes b) \<le> AB_ALLOC_LIMIT"
    and "dv_offset d + off = ta_offset v + i * ta_bpe v"
  shows "dv_get (ta_kind v) d b (Some (js_nat off)) True = Inr (elems v b ! i) \<and> readAt v b (int i) = Some (elems v b ! i)"
proof (intro conjI)
  note r = ta_room_elem [OF assms(1)]
  have "\<not> ab_detached b" using assms(3) by (auto simp: dvIsOutOfBounds_def)
  moreover have "toIndex (Some (js_nat off)) = Inr off" using r assms(5,6) by (intro toIndex_nat limit_safe) linarith
  ultimately have "dvValidate d b (Some (js_nat off)) (ta_bpe v) = Inr off"
    using assms(3,4,6) r by (simp add: dvValidate_def dvLiveByteLength_def)
  then show "dv_get (ta_kind v) d b (Some (js_nat off)) True = Inr (elems v b ! i)"
    using assms(1,2,6) by (simp add: dv_get_def dv_native nth_elems)
  show "readAt v b (int i) = Some (elems v b ! i)" using assms(1) by (simp add: readAt_elems)
qed

definition whole_view :: data_view where
  "whole_view = \<lparr>dv_offset = 0, dv_fixed = False, dv_len = 4\<rparr>"

lemmas dv_eval = dv_set_def dv_get_def dvWrite_def dvValidate_def dvIsOutOfBounds_def dvLiveByteLength_def whole_view_def
  toIndex_def coerce_elem_def MAX_SAFE_INDEX_def

lemma dv_set_runs:
  "dv_set I16 whole_view (Some (Fin 1)) (Num (Fin (- 2))) False (bytes_buffer [7, 8, 9, 9]) =
     Inr (bytes_buffer [7, 8, 9, 9] \<lparr>ab_bytes := dv_store I16 False 1 (Num (Fin (- 2))) [7, 8, 9, 9]\<rparr>)"
  by (simp add: dv_eval view_eval)

theorem dv_write_read_witness:
  "\<exists>b'. dv_set I16 whole_view (Some (Fin 1)) (Num (Fin (- 2))) False (bytes_buffer [7, 8, 9, 9]) = Inr b' \<and>
     dv_get I16 whole_view b' (Some (Fin 1)) False = Inr (- 2)"
proof -
  have "held I16 (Num (Fin (- 2))) = - 2" by (simp add: trunc_rat_def ceiling_def signed_of_def)
  then show ?thesis using dv_write_read [OF dv_set_runs] dv_set_runs by simp
qed

theorem dv_sees_elements_witness:
  "dv_get U8 whole_view (bytes_buffer [7, 8, 9, 9]) (Some (js_nat 1)) True = Inr 8 \<and>
   readAt (bytes_view 4) (bytes_buffer [7, 8, 9, 9]) (int 1) = Some 8"
  using dv_sees_elements [of 1 "bytes_view 4" "bytes_buffer [7, 8, 9, 9]" whole_view 1]
  by (simp add: bytes_view_valid bytes_view_elems dvIsOutOfBounds_def whole_view_def AB_ALLOC_LIMIT_def) (simp add: bytes_buffer_def)

section \<open>What every store keeps\<close>

text \<open>Whatever a store writes, it keeps the number of bytes, also when an exception ends it early.\<close>

lemma length_buf_fill: "off + n \<le> length m \<Longrightarrow> length (buf_fill m off n x) = length m"
  by (simp add: buf_fill_def)

lemma length_buf_copy:
  "doff + n \<le> length dst \<Longrightarrow> soff + n \<le> length src \<Longrightarrow> length (buf_copy dst doff src soff n) = length dst"
  by (simp add: buf_copy_def)

lemma set_elem_shape:
  assumes "i < taLength v b"
  shows "same_shape b (b\<lparr>ab_bytes := set_elem (ta_kind v) (ta_offset v + i * ta_bpe v) x (ab_bytes b)\<rparr>)"
  using ta_room_elem [OF assms] by (auto simp: same_shape_def set_elem_length)

lemma writeAt_shape: "writeAt v i x b = Inr b' \<Longrightarrow> same_shape b b'"
  using set_elem_shape [of "nat i" v b x] by (auto simp: writeAt_def bind_result_Inr requireMutable_def split: if_splits)

lemma write_list_shape: "same_shape b (fst (write_list v off xs b))"
  by (induction v off xs b rule: write_list.induct) (auto split: sum.split dest: writeAt_shape intro: same_shape_trans)

lemma ta_set_shape: "same_shape b (fst (ta_set v src offset b))"
  by (auto simp: ta_set_def write_list_shape split: sum.split xint.split option.split prod.split)

lemma fill_loop_shape: "fill_loop v is x b = Inr b' \<Longrightarrow> same_shape b b'"
proof (induction v "is" x b arbitrary: b' rule: fill_loop.induct)
  case (2 v i "is" x b)
  then show ?case using same_shape_trans [OF set_elem_shape [of i v b x]] by (auto split: if_splits)
qed simp

lemma ta_fill_shape:
  assumes "ta_fill v x start stop b = Inr b'"
  shows "same_shape b b'"
proof -
  let ?s = "relativeStart start (taLength v b)" and ?e = "min (relativeEnd stop (taLength v b)) (taLength v b)"
  have valid: "\<not> taIsOutOfBounds v b"
    using assms by (auto simp: ta_fill_def bind_result_Inr taValidate_def split: if_splits)
  consider f where "fill_fast v b" "?s < ?e"
      "b' = b\<lparr>ab_bytes := buf_fill (ab_bytes b) (ta_offset v + ?s) (?e - ?s) (ucast (to_int32 f AND 0xFF))\<rparr>"
    | "fill_loop v [?s..<?e] x b = Inr b'"
    using assms by (auto simp: ta_fill_def Let_def bind_result_Inr split: elem_value.splits if_splits)
  then show ?thesis
  proof cases
    case 1
    have "ta_bpe v = 1" using 1(1) by (auto simp: fill_fast_def)
    moreover have "?e \<le> taLength v b" by simp
    moreover from this have "ta_offset v + taLength v b \<le> length (ab_bytes b)" using ta_room [OF valid] by (simp add: \<open>ta_bpe v = 1\<close>)
    ultimately have "(ta_offset v + ?s) + (?e - ?s) \<le> length (ab_bytes b)" using 1(2) by linarith
    from length_buf_fill [OF this] show ?thesis unfolding 1(3) same_shape_def by blast
  qed (rule fill_loop_shape)
qed

lemma reverse_loop_shape: "reverse_loop v i j b = Inr b' \<Longrightarrow> same_shape b b'"
proof (induction v i j b arbitrary: b' rule: reverse_loop.induct)
  case (1 v i j b)
  show ?case
  proof (cases "j \<le> i \<or> taLength v b = 0")
    case False
    obtain b1 b2 where w: "writeAt v (int i) (read_value v b (int j)) b = Inr b1"
      "writeAt v (int j) (read_value v b (int i)) b1 = Inr b2" "reverse_loop v (i + 1) (j - 1) b2 = Inr b'"
      using 1(2) False by (subst (asm) reverse_loop.simps) (auto simp: Let_def bind_result_Inr)
    moreover have "same_shape b2 b'" using False w(3) by (intro 1(1) [OF _ _ refl]) simp_all
    ultimately show ?thesis using same_shape_trans writeAt_shape by blast
  qed (use 1(2) in \<open>subst (asm) reverse_loop.simps, auto split: if_splits\<close>)
qed

lemma write_back_shape: "write_back v i xs b = Inr b' \<Longrightarrow> same_shape b b'"
  by (induction v i xs b arbitrary: b' rule: write_back.induct)
    (auto simp: bind_result_Inr split: if_splits dest: writeAt_shape intro: same_shape_trans)

lemma ta_reverse_shape: "ta_reverse v b = Inr b' \<Longrightarrow> same_shape b b'"
  by (auto simp: ta_reverse_def bind_result_Inr dest: reverse_loop_shape)

lemma ta_sort_shape: "ta_sort v b = Inr b' \<Longrightarrow> same_shape b b'"
  by (auto simp: ta_sort_def bind_result_Inr dest: write_back_shape split: if_splits)

lemma dv_set_shape:
  assumes "dv_set k v offset x le b = Inr b'"
  shows "same_shape b b'"
proof -
  obtain off where off: "dvWrite v b offset k x = Inr off" "b' = b\<lparr>ab_bytes := dv_store k le (dv_offset v + off) x (ab_bytes b)\<rparr>"
    using assms by (auto simp: dv_set_def bind_result_Inr)
  show ?thesis
    using dvValidate_Inr(2) [OF dvWrite_Inr(1) [OF off(1)]] by (auto simp: same_shape_def off(2) dv.set_length)
qed

text \<open>The C library's copy writes in place; between ranges that overlap nothing more is known of it.\<close>

definition memcpy_in_place :: "(nat \<Rightarrow> nat \<Rightarrow> nat \<Rightarrow> byte list \<Rightarrow> byte list) \<Rightarrow> bool" where
  "memcpy_in_place memcpy \<longleftrightarrow>
     (\<forall>d s n m. d + n \<le> length m \<and> s + n \<le> length m \<longrightarrow> length (memcpy d s n m) = length m)"

lemma memcpy_up_in_place: "memcpy_in_place memcpy_up"
proof -
  have "length (foldl (\<lambda>m i. m[d + i := m ! (s + i)]) m is) = length m" for d s "is" and m :: "byte list"
    by (induction "is" arbitrary: m) simp_all
  then show ?thesis by (simp add: memcpy_in_place_def memcpy_up_def)
qed

lemma ta_copyWithin_shape:
  assumes "ta_copyWithin memcpy v target start stop b = Inr b'" "memcpy_in_place memcpy"
  shows "same_shape b b'"
proof -
  let ?len = "taLength v b" and ?bpe = "ta_bpe v" and ?o = "ta_offset v"
  let ?to = "relative (toIntegerOrInfinity (case target of None \<Rightarrow> NaN | Some n \<Rightarrow> n)) ?len" and ?s = "relativeStart start ?len"
  have valid: "\<not> taIsOutOfBounds v b"
    using assms(1) by (auto simp: ta_copyWithin_def bind_result_Inr taValidate_def split: if_splits)
  consider "b' = b" | c where "0 < c" "c \<le> int ?len - int ?to" "c \<le> int ?len - int ?s"
      "b' = b\<lparr>ab_bytes := memcpy (?o + ?to * ?bpe) (?o + ?s * ?bpe) (nat c * ?bpe) (ab_bytes b)\<rparr>"
  proof -
    let ?c = "min (min (int (relativeEnd stop ?len) - int ?s) (int ?len - int ?to)) (min (int ?len - int ?to) (int ?len - int ?s))"
    assume 1: "b' = b \<Longrightarrow> thesis" and 2: "\<And>c. 0 < c \<Longrightarrow> c \<le> int ?len - int ?to \<Longrightarrow> c \<le> int ?len - int ?s \<Longrightarrow>
      b' = b\<lparr>ab_bytes := memcpy (?o + ?to * ?bpe) (?o + ?s * ?bpe) (nat c * ?bpe) (ab_bytes b)\<rparr> \<Longrightarrow> thesis"
    have "b' = b \<or> 0 < ?c \<and> b' = b\<lparr>ab_bytes := memcpy (?o + ?to * ?bpe) (?o + ?s * ?bpe) (nat ?c * ?bpe) (ab_bytes b)\<rparr>"
      using assms(1) by (auto simp: ta_copyWithin_def Let_def bind_result_Inr split: if_splits)
    then show thesis using 1 2 [of ?c] by fastforce
  qed
  then show ?thesis
  proof cases
    case 2
    then have "?to * ?bpe + nat c * ?bpe \<le> ?len * ?bpe" "?s * ?bpe + nat c * ?bpe \<le> ?len * ?bpe"
      by (simp_all flip: add_mult_distrib)
    then show ?thesis
      using assms(2) ta_room [OF valid] 2(4) by (auto simp: same_shape_def memcpy_in_place_def)
  qed simp
qed

text \<open>\<open>slice\<close> with the default species, and the copies, fill a buffer that was allocated for them.\<close>

lemma ta_slice_shape:
  assumes "ta_slice (ta_alloc (ta_kind v)) v b start stop = Inr (w, c)"
  shows "\<exists>n. n * ta_bpe v \<le> AB_ALLOC_LIMIT \<and> same_shape (snd (ta_alloc (ta_kind v) n)) c"
proof -
  let ?n = "relativeEnd stop (taLength v b) - relativeStart start (taLength v b)" and ?s = "relativeStart start (taLength v b)"
  let ?t = "snd (ta_alloc (ta_kind v) ?n)" and ?l = "min ?n (taLength v b - ?s)"
  have valid: "\<not> taIsOutOfBounds v b" and lim: "?n * ta_bpe v \<le> AB_ALLOC_LIMIT"
    and c: "c = (if 0 < ?l then ?t\<lparr>ab_bytes := buf_copy (ab_bytes ?t) 0 (ab_bytes b) (ta_offset v + ?s * ta_bpe v) (?l * ta_bpe v)\<rparr> else ?t)"
    using assms by (auto simp: ta_slice_def taSpeciesCreate_def Let_def bind_result_Inr taValidate_def checkAllocLimit_def
        split: if_splits prod.splits)
  have "?s + ?l \<le> taLength v b" using relativeStart_le [of start "taLength v b"] by linarith
  then have "?s * ta_bpe v + ?l * ta_bpe v \<le> taLength v b * ta_bpe v" by (simp flip: add_mult_distrib)
  then have "ta_offset v + ?s * ta_bpe v + ?l * ta_bpe v \<le> length (ab_bytes b)" using ta_room [OF valid] by linarith
  moreover have "?l * ta_bpe v \<le> ?n * ta_bpe v" by simp
  ultimately have "same_shape ?t c" by (auto simp: c same_shape_def length_buf_copy ta_alloc_def)
  then show ?thesis using lim by blast
qed

lemma fill_copy_shape:
  assumes "fill_copy v xs = Inr (w, c)"
  shows "\<exists>n. n * ta_bpe v \<le> AB_ALLOC_LIMIT \<and> same_shape (snd (ta_alloc (ta_kind v) n)) c"
proof -
  have "length xs * ta_bpe v \<le> AB_ALLOC_LIMIT" "same_shape (snd (ta_alloc (ta_kind v) (length xs))) c"
    using assms write_list_shape [of "snd (ta_alloc (ta_kind v) (length xs))" "fst (ta_alloc (ta_kind v) (length xs))" 0 xs]
    by (auto simp: fill_copy_def taCreateSameType_def bind_result_Inr checkAllocLimit_def split: prod.splits option.splits if_splits)
  then show ?thesis by blast
qed

lemma ta_copies_shape:
  "ta_toReversed v b = Inr (w, c) \<or> ta_toSorted v b = Inr (w, c) \<or> ta_with v b i x = Inr (w, c) \<Longrightarrow>
     \<exists>n. n * ta_bpe v \<le> AB_ALLOC_LIMIT \<and> same_shape (snd (ta_alloc (ta_kind v) n)) c"
  by (auto simp: ta_toReversed_def ta_toSorted_def ta_with_def bind_result_Inr Let_def dest: fill_copy_shape split: xint.splits if_splits)

section \<open>The buffers of a run\<close>

definition ab_wf :: "array_buffer \<Rightarrow> bool" where
  "ab_wf b \<longleftrightarrow>
     length (ab_bytes b) \<le> ab_max b \<and> ab_max b \<le> AB_ALLOC_LIMIT \<and> (ab_detached b \<longrightarrow> ab_bytes b = []) \<and>
     (\<not> ab_resizable b \<and> \<not> ab_detached b \<longrightarrow> length (ab_bytes b) = ab_max b) \<and> \<not> (ab_immutable b \<and> ab_resizable b)"

lemma ab_wf_shape: "ab_wf b \<Longrightarrow> same_shape b b' \<Longrightarrow> ab_wf b'"
  by (auto simp: ab_wf_def same_shape_def)

lemma ab_wf_alloc: "n * bytes_per_element k \<le> AB_ALLOC_LIMIT \<Longrightarrow> ab_wf (snd (ta_alloc k n))"
  by (simp add: ab_wf_def ta_alloc_def)

text \<open>A buffer is made and changed by its own methods, and written and made by those of its views.\<close>

inductive made :: "array_buffer \<Rightarrow> bool" where
  new: "ab_new len mx = Inr b \<Longrightarrow> made b"
| resized: "made b \<Longrightarrow> ab_resize n b = Inr b' \<Longrightarrow> made b'"
| transferred: "made b \<Longrightarrow> transferTo n mode b = Inr (c, b') \<Longrightarrow> made c"
| left_behind: "made b \<Longrightarrow> transferTo n mode b = Inr (c, b') \<Longrightarrow> made b'"
| sliced: "made b \<Longrightarrow> ab_slice s e b = Inr c \<Longrightarrow> made c"
| frozen: "made b \<Longrightarrow> ab_sliceToImmutable s e b = Inr c \<Longrightarrow> made c"
| element: "made b \<Longrightarrow> writeAt v i x b = Inr b' \<Longrightarrow> made b'"
| copied_in: "made b \<Longrightarrow> made (fst (ta_set v src offset b))"
| filled: "made b \<Longrightarrow> ta_fill v x start stop b = Inr b' \<Longrightarrow> made b'"
| moved: "made b \<Longrightarrow> memcpy_in_place memcpy \<Longrightarrow> ta_copyWithin memcpy v target start stop b = Inr b' \<Longrightarrow> made b'"
| turned: "made b \<Longrightarrow> ta_reverse v b = Inr b' \<Longrightarrow> made b'"
| sorted: "made b \<Longrightarrow> ta_sort v b = Inr b' \<Longrightarrow> made b'"
| viewed: "made b \<Longrightarrow> dv_set k d offset x le b = Inr b' \<Longrightarrow> made b'"
| allocated: "taCreateSameType v n = Inr (w, c) \<Longrightarrow> made c"
| part: "made b \<Longrightarrow> ta_slice (ta_alloc (ta_kind v)) v b start stop = Inr (w, c) \<Longrightarrow> made c"
| copy: "made b \<Longrightarrow> ta_toReversed v b = Inr (w, c) \<or> ta_toSorted v b = Inr (w, c) \<or> ta_with v b index x = Inr (w, c) \<Longrightarrow> made c"

lemmas store_shapes = writeAt_shape ta_set_shape ta_fill_shape ta_copyWithin_shape ta_reverse_shape ta_sort_shape dv_set_shape

text \<open>C3: Every buffer a run can have has at most its maximum of bytes and no more than the allocation limit;
  it has exactly its maximum when it is not resizable, and none when it is detached. The run may construct
  buffers, \<open>resize\<close> them, transfer and slice them, write them through typed arrays (an element, \<open>set\<close> also when
  it ends in an exception, \<open>fill\<close>, \<open>copyWithin\<close>, \<open>reverse\<close>, \<open>sort\<close>) and through any setter of a \<open>DataView\<close>, and
  take the buffers of the arrays that \<open>slice\<close>, \<open>toReversed\<close>, \<open>toSorted\<close> and \<open>with\<close> return. Assumed are that the
  C library's \<open>memcpy\<close> writes in place, and that \<open>slice\<close> uses the default species constructor: into a species
  array of smaller elements it writes past the end (\<open>slice_overflow\<close>).
\<close>

theorem made_wf: "made b \<Longrightarrow> ab_wf b"
proof (induction rule: made.induct)
  case (new len mx b)
  then show ?case using ab_new_bytes [OF new] by (auto simp: ab_wf_def)
next
  case (resized b n b')
  then show ?case using ab_resize_bytes [OF resized(2)] by (auto simp: ab_wf_def)
next
  case (transferred b n mode c b')
  then show ?case using transferTo_bytes [OF transferred(2)] by (auto simp: ab_wf_def)
next
  case (left_behind b n mode c b')
  then show ?case using transferTo_bytes [OF left_behind(2)] by (auto simp: ab_wf_def detachArrayBuffer_def)
next
  case (sliced b s e c)
  then show ?case by (auto simp: ab_wf_def ab_slice_def bind_result_Inr dest: slice_bytes_eq(2) split: if_splits)
next
  case (frozen b s e c)
  then show ?case by (auto simp: ab_wf_def ab_sliceToImmutable_def bind_result_Inr dest: slice_bytes_eq(2) split: if_splits)
next
  case (allocated v n w c)
  then show ?case using ab_wf_alloc [of n "ta_kind v"]
    by (auto simp: taCreateSameType_def bind_result_Inr checkAllocLimit_def split: if_splits)
next
  case (part b v start stop w c)
  then show ?case using ta_slice_shape [OF part(2)] ab_wf_alloc ab_wf_shape by blast
next
  case (copy b v w c index x)
  then show ?case using ta_copies_shape [OF copy(2)] ab_wf_alloc ab_wf_shape by blast
qed (blast intro: ab_wf_shape store_shapes)+

theorem made_wf_witness:
  "\<exists>b b'. ab_new (Some (Fin 2)) (Some (Fin 5)) = Inr b \<and> writeAt (bytes_view 2) 1 (Num (Fin 300)) b = Inr b' \<and> ab_wf b'"
proof -
  obtain b where b: "ab_new (Some (Fin 2)) (Some (Fin 5)) = Inr b" "\<not> ab_immutable b"
    by (simp add: ab_new_def parseBufferCtorArgs_def toIndex_def trunc_rat_def MAX_SAFE_INDEX_def checkAllocLimit_def AB_ALLOC_LIMIT_def)
  have "\<exists>b'. writeAt (bytes_view 2) 1 (Num (Fin 300)) b = Inr b'"
    using b(2) by (auto simp: writeAt_def coerce_elem_def fits_def bytes_view_def requireMutable_def)
  then show ?thesis using b(1) made_wf [OF made.element [OF made.new [OF b(1)]]] by blast
qed

end
