(* ===== verification/Base64.thy ===== *)
theory Base64
  imports DataViews StringDecoder
begin

text \<open>
  \<open>binary_types.js\<close>: the base64 and hexadecimal methods of \<open>Uint8Array\<close>. Strings are code units and decoded
  bytes are numbers below 256. The check of the size inside the decoding loop never fires, because the check
  before the loop is stronger; it is left out. Option objects are given by the values of their three fields.
\<close>

section \<open>Alphabets\<close>

definition b64Alphabet :: "bool \<Rightarrow> jsstr" where
  "b64Alphabet url =
     js ''ABCDEFGHIJKLMNOPQRSTUVWXYZ'' @ js ''abcdefghijklmnopqrstuvwxyz'' @ js ''0123456789'' @
     (if url then js ''-_'' else js ''+/'')"

definition b64Lookup :: "bool \<Rightarrow> nat \<Rightarrow> nat option" where
  "b64Lookup url c = find (\<lambda>i. b64Alphabet url ! i = c) [0..<64]"

section \<open>Options\<close>

datatype chunk_handling = Loose | Strict | StopBeforePartial

text \<open>A field is absent (\<open>undefined\<close> or \<open>null\<close>) or the string it converts to.\<close>

definition b64Options :: "jsstr option \<Rightarrow> jsstr option \<Rightarrow> bool option \<Rightarrow> (bool \<times> chunk_handling \<times> bool) result" where
  "b64Options alphabet handling omit =
     bind_result
       (case alphabet of
          None \<Rightarrow> Inr False
        | Some a \<Rightarrow>
            if a = js ''base64url'' then Inr True
            else if a = js ''base64'' then Inr False
            else Inl (TypeError ''Invalid base64 alphabet''))
       (\<lambda>url.
          bind_result
            (case handling of
               None \<Rightarrow> Inr Loose
             | Some h \<Rightarrow>
                 if h = js ''loose'' then Inr Loose
                 else if h = js ''strict'' then Inr Strict
                 else if h = js ''stop-before-partial'' then Inr StopBeforePartial
                 else Inl (TypeError ''Invalid lastChunkHandling''))
            (\<lambda>h. Inr (url, h, case omit of None \<Rightarrow> False | Some b \<Rightarrow> b)))"

section \<open>Decoding\<close>

definition isAsciiWsCode :: "nat \<Rightarrow> bool" where
  "isAsciiWsCode c \<longleftrightarrow> c = 0x20 \<or> c = 0x09 \<or> c = 0x0A \<or> c = 0x0D \<or> c = 0x0C"

text \<open>The characters that are not white space, and where they stood.\<close>

fun strip_loop :: "nat \<Rightarrow> jsstr \<Rightarrow> jsstr \<times> nat list" where
  "strip_loop idx [] = ([], [])"
| "strip_loop idx (c # s) =
     (let (cleaned, index_map) = strip_loop (idx + 1) s
      in if isAsciiWsCode c then (cleaned, index_map) else (c # cleaned, idx # index_map))"

definition b64StripWs :: "jsstr \<Rightarrow> jsstr \<times> nat list" where
  "b64StripWs s = strip_loop 0 s"

definition byte1 :: "nat \<Rightarrow> nat \<Rightarrow> nat" where
  "byte1 v0 v1 = (push_bit 2 v0 OR drop_bit 4 v1) AND 0xff"

definition byte2 :: "nat \<Rightarrow> nat \<Rightarrow> nat" where
  "byte2 v1 v2 = (push_bit 4 (v1 AND 0xf) OR drop_bit 2 v2) AND 0xff"

definition byte3 :: "nat \<Rightarrow> nat \<Rightarrow> nat" where
  "byte3 v2 v3 = (push_bit 6 (v2 AND 0x3) OR v3) AND 0xff"

text \<open>
  The loop, by what remains of the string: its position, the bytes so far, and whether it stopped before a
  partial chunk. 61 is the padding sign.
\<close>

fun b64_loop :: "bool \<Rightarrow> chunk_handling \<Rightarrow> jsstr \<Rightarrow> nat \<Rightarrow> bytes \<Rightarrow> (bytes \<times> nat \<times> bool) result" where
  "b64_loop url h [] i out = Inr (out, i, False)"
| "b64_loop url h [c0] i out =
     (if c0 = 61 then Inr (out, i, False)
      else if h = StopBeforePartial then Inr (out, i, True)
      else Inl (SyntaxError ''Invalid base64 string''))"
| "b64_loop url h [c0, c1] i out =
     (if c0 = 61 then Inr (out, i, False)
      else case (b64Lookup url c0, b64Lookup url c1) of
        (Some v0, Some v1) \<Rightarrow>
          if h = StopBeforePartial then Inr (out, i, True)
          else if h = Strict then Inl (SyntaxError ''Invalid base64 string'')
          else Inr (out @ [byte1 v0 v1], i + 2, False)
      | _ \<Rightarrow> Inl (SyntaxError ''Invalid base64 character''))"
| "b64_loop url h [c0, c1, c2] i out =
     (if c0 = 61 then Inr (out, i, False)
      else case (b64Lookup url c0, b64Lookup url c1) of
        (Some v0, Some v1) \<Rightarrow>
          if c2 = 61
          then if h = StopBeforePartial then Inr (out, i, True) else Inl (SyntaxError ''Invalid base64 padding'')
          else (case b64Lookup url c2 of
              None \<Rightarrow> Inl (SyntaxError ''Invalid base64 character'')
            | Some v2 \<Rightarrow>
                if h = StopBeforePartial then Inr (out, i, True)
                else if h = Strict then Inl (SyntaxError ''Invalid base64 string'')
                else Inr (out @ [byte1 v0 v1, byte2 v1 v2], i + 3, False))
      | _ \<Rightarrow> Inl (SyntaxError ''Invalid base64 character''))"
| "b64_loop url h (c0 # c1 # c2 # c3 # s) i out =
     (if c0 = 61 then Inr (out, i, False)
      else case (b64Lookup url c0, b64Lookup url c1) of
        (Some v0, Some v1) \<Rightarrow>
          if c2 = 61
          then if c3 \<noteq> 61
               then if h = StopBeforePartial then Inr (out, i, True) else Inl (SyntaxError ''Invalid base64 padding'')
               else if h = Strict \<and> v1 AND 0xf \<noteq> 0 then Inl (SyntaxError ''Invalid base64 leftover bits'')
               else Inr (out @ [byte1 v0 v1], i + 4, False)
          else if c3 = 61
          then (case b64Lookup url c2 of
              None \<Rightarrow> Inl (SyntaxError ''Invalid base64 character'')
            | Some v2 \<Rightarrow>
                if h = Strict \<and> v2 AND 0x3 \<noteq> 0 then Inl (SyntaxError ''Invalid base64 leftover bits'')
                else Inr (out @ [byte1 v0 v1, byte2 v1 v2], i + 4, False))
          else (case (b64Lookup url c2, b64Lookup url c3) of
              (Some v2, Some v3) \<Rightarrow> b64_loop url h s (i + 4) (out @ [byte1 v0 v1, byte2 v1 v2, byte3 v2 v3])
            | _ \<Rightarrow> Inl (SyntaxError ''Invalid base64 character''))
      | _ \<Rightarrow> Inl (SyntaxError ''Invalid base64 character''))"

text \<open>How much of the string was read.\<close>

definition skip_ws :: "jsstr \<Rightarrow> nat \<Rightarrow> nat" where
  "skip_ws s read = read + length (takeWhile isAsciiWsCode (drop read s))"

definition b64_read :: "jsstr \<Rightarrow> nat list option \<Rightarrow> nat \<Rightarrow> bool \<Rightarrow> nat" where
  "b64_read s index_map i stoppedEarly =
     (case index_map of
        None \<Rightarrow> if stoppedEarly then i else length s
      | Some ix \<Rightarrow>
          if stoppedEarly then (if i < length ix then ix ! i else i)
          else if 0 < i \<and> i - 1 < length ix then skip_ws s (ix ! (i - 1) + 1)
          else length s)"

definition decodeBase64 :: "bool \<Rightarrow> chunk_handling \<Rightarrow> jsstr \<Rightarrow> (bytes \<times> nat) result" where
  "decodeBase64 url h str =
     (let (s, index_map) = (if h = Strict then (str, None) else map_prod id Some (b64StripWs str))
      in bind_result (checkAllocLimit (length s * 3 div 4 + 3)) (\<lambda>_.
         bind_result (b64_loop url h s 0 []) (\<lambda>(out, i, stoppedEarly).
           if \<not> stoppedEarly \<and> i < length s then Inl (SyntaxError ''Invalid base64 trailing garbage'')
           else Inr (out, b64_read str index_map i stoppedEarly))))"

section \<open>Encoding\<close>

definition sextet :: "bool \<Rightarrow> nat \<Rightarrow> nat \<Rightarrow> nat" where
  "sextet url shift n = b64Alphabet url ! (drop_bit shift n AND 0x3f)"

fun b64_encode :: "bool \<Rightarrow> bool \<Rightarrow> bytes \<Rightarrow> jsstr" where
  "b64_encode url omit (b0 # b1 # b2 # bs) =
     (let n = push_bit 16 b0 OR push_bit 8 b1 OR b2
      in [sextet url 18 n, sextet url 12 n, sextet url 6 n, sextet url 0 n] @ b64_encode url omit bs)"
| "b64_encode url omit [b0, b1] =
     (let n = push_bit 16 b0 OR push_bit 8 b1
      in [sextet url 18 n, sextet url 12 n, sextet url 6 n] @ (if omit then [] else [61]))"
| "b64_encode url omit [b0] =
     (let n = push_bit 16 b0 in [sextet url 18 n, sextet url 12 n] @ (if omit then [] else [61, 61]))"
| "b64_encode url omit [] = []"

section \<open>Hexadecimal\<close>

definition hexChars :: jsstr where
  "hexChars = js ''0123456789abcdef''"

definition hex_value :: "nat \<Rightarrow> nat option" where
  "hex_value c =
     (if 48 \<le> c \<and> c \<le> 57 then Some (c - 48)
      else if 97 \<le> c \<and> c \<le> 102 then Some (c - 87)
      else if 65 \<le> c \<and> c \<le> 70 then Some (c - 55)
      else None)"

fun hex_loop :: "jsstr \<Rightarrow> bytes result" where
  "hex_loop (c # d # s) =
     (case (hex_value c, hex_value d) of
        (Some x, Some y) \<Rightarrow> bind_result (hex_loop s) (\<lambda>bs. Inr ((16 * x + y) # bs))
      | _ \<Rightarrow> Inl (SyntaxError ''Invalid hex character''))"
| "hex_loop _ = Inr []"

definition decodeHex :: "jsstr \<Rightarrow> bytes result" where
  "decodeHex s =
     (if length s mod 2 \<noteq> 0 then Inl (SyntaxError ''Hex string must have even length'')
      else bind_result (checkAllocLimit (length s div 2)) (\<lambda>_. hex_loop s))"

fun encodeHex :: "bytes \<Rightarrow> jsstr" where
  "encodeHex [] = []"
| "encodeHex (b # bs) = hexChars ! drop_bit 4 b # hexChars ! (b AND 0xf) # encodeHex bs"

section \<open>The methods of \<open>Uint8Array\<close>\<close>

definition byte_values :: "bytes \<Rightarrow> elem_value list" where
  "byte_values bs = map (\<lambda>b. Num (Fin (of_nat b))) bs"

definition u8_from :: "bytes \<Rightarrow> (typed_array \<times> array_buffer) result" where
  "u8_from bs =
     bind_result (checkAllocLimit (length bs)) (\<lambda>_.
       let (v, b) = ta_alloc U8 (length bs) in Inr (v, fst (write_list v 0 (byte_values bs) b)))"

definition u8_bytes :: "typed_array \<Rightarrow> array_buffer \<Rightarrow> bytes" where
  "u8_bytes v b = map (\<lambda>i. case readAt v b (int i) of Some x \<Rightarrow> nat x | None \<Rightarrow> 0) [0..<taLength v b]"

definition u8_ready :: "string \<Rightarrow> typed_array \<Rightarrow> array_buffer \<Rightarrow> unit result" where
  "u8_ready name v b =
     (if ta_kind v \<noteq> U8 then Inl (TypeError (''Method '' @ name @ '' called on incompatible receiver''))
      else if ab_detached b then Inl (TypeError (''Cannot perform '' @ name @ '' on a detached ArrayBuffer''))
      else if taIsOutOfBounds v b then Inl (TypeError (''Cannot perform '' @ name @ '' on an out-of-bounds TypedArray''))
      else Inr ())"

definition fromBase64 :: "bool \<times> chunk_handling \<times> bool \<Rightarrow> jsstr \<Rightarrow> (typed_array \<times> array_buffer) result" where
  "fromBase64 opts s =
     (let (url, h, _) = opts in bind_result (decodeBase64 url h s) (\<lambda>(bs, _). u8_from bs))"

definition toBase64 :: "bool \<times> chunk_handling \<times> bool \<Rightarrow> typed_array \<Rightarrow> array_buffer \<Rightarrow> jsstr result" where
  "toBase64 opts v b =
     (let (url, _, omit) = opts
      in bind_result (u8_ready ''toBase64'' v b) (\<lambda>_. Inr (b64_encode url omit (u8_bytes v b))))"

text \<open>\<open>setFromBase64\<close> returns how much it read and wrote; the buffer is written up to an exception.\<close>

definition u8_writable :: "string \<Rightarrow> typed_array \<Rightarrow> array_buffer \<Rightarrow> unit result" where
  "u8_writable name v b =
     (if ta_kind v \<noteq> U8 then Inl (TypeError (''Method '' @ name @ '' called on incompatible receiver''))
      else if ab_detached b then Inl (TypeError (''Cannot perform '' @ name @ '' on a detached ArrayBuffer''))
      else if ab_immutable b then Inl (TypeError ''Cannot modify an immutable ArrayBuffer'')
      else if taIsOutOfBounds v b then Inl (TypeError (''Cannot perform '' @ name @ '' on an out-of-bounds TypedArray''))
      else Inr ())"

definition setFromBase64 ::
  "bool \<times> chunk_handling \<times> bool \<Rightarrow> jsstr \<Rightarrow> typed_array \<Rightarrow> array_buffer \<Rightarrow> (nat \<times> nat \<times> array_buffer) result" where
  "setFromBase64 opts s v b =
     (let (url, h, _) = opts
      in bind_result (u8_writable ''setFromBase64'' v b) (\<lambda>_. bind_result (decodeBase64 url h s) (\<lambda>(bs, read).
           let writeLen = min (length bs) (taLength v b);
               b' = fst (write_list v 0 (byte_values (take writeLen bs)) b);
               need = writeLen div 3 * 4 + (if writeLen mod 3 = 1 then 2 else if writeLen mod 3 = 2 then 3 else 0)
           in Inr (if writeLen < length bs \<and> h = StopBeforePartial \<and> need < read then need else read, writeLen, b'))))"

definition fromHex :: "jsstr \<Rightarrow> (typed_array \<times> array_buffer) result" where
  "fromHex s = bind_result (decodeHex s) u8_from"

definition toHex :: "typed_array \<Rightarrow> array_buffer \<Rightarrow> jsstr result" where
  "toHex v b = bind_result (u8_ready ''toHex'' v b) (\<lambda>_. Inr (encodeHex (u8_bytes v b)))"

definition setFromHex :: "jsstr \<Rightarrow> typed_array \<Rightarrow> array_buffer \<Rightarrow> (nat \<times> nat \<times> array_buffer) result" where
  "setFromHex s v b =
     bind_result (u8_writable ''setFromHex'' v b) (\<lambda>_. bind_result (decodeHex s) (\<lambda>bs.
       let writeLen = min (length bs) (taLength v b)
       in Inr (length s, writeLen, fst (write_list v 0 (byte_values (take writeLen bs)) b))))"

section \<open>Sextets\<close>

lemma alphabet_facts: "length (b64Alphabet url) = 64" "distinct (b64Alphabet url)" "61 \<notin> set (b64Alphabet url)"
  by (cases url; simp add: b64Alphabet_def)+

lemma alphabet_no_ws: "list_all (\<lambda>c. \<not> isAsciiWsCode c) (b64Alphabet url)"
  by (cases url; simp add: b64Alphabet_def isAsciiWsCode_def)

lemma lookup_iff: "b64Lookup url c = Some v \<longleftrightarrow> v < 64 \<and> b64Alphabet url ! v = c"
proof
  assume "b64Lookup url c = Some v"
  then show "v < 64 \<and> b64Alphabet url ! v = c" by (auto simp: b64Lookup_def find_Some_iff)
next
  assume v: "v < 64 \<and> b64Alphabet url ! v = c"
  then have "b64Alphabet url ! i \<noteq> c" if "i < v" for i
    using that alphabet_facts(1,2) [of url] by (auto simp: nth_eq_iff_index_eq)
  then show "b64Lookup url c = Some v" using v by (auto simp: b64Lookup_def find_Some_iff)
qed

lemma alphabet_nth:
  assumes "v < 64"
  shows "b64Lookup url (b64Alphabet url ! v) = Some v" "b64Alphabet url ! v \<noteq> 61" "\<not> isAsciiWsCode (b64Alphabet url ! v)"
proof -
  have "b64Alphabet url ! v \<in> set (b64Alphabet url)" using assms by (simp add: alphabet_facts)
  then show "b64Alphabet url ! v \<noteq> 61" "\<not> isAsciiWsCode (b64Alphabet url ! v)"
    using alphabet_facts(3) [of url] alphabet_no_ws [of url] by (auto simp: list_all_iff)
qed (use assms in \<open>simp add: lookup_iff\<close>)

lemma or_parts:
  assumes "b1 < 256" "b2 < 256"
  shows "push_bit 16 b0 OR push_bit 8 b1 OR b2 = b0 * 65536 + b1 * 256 + (b2 :: nat)"
proof -
  have "push_bit 8 b1 OR b2 = b1 * 256 + b2" using or_disjoint [of b2 8 b1] assms by (simp add: shift_left_nat)
  moreover have "push_bit 16 b0 OR (b1 * 256 + b2) = b0 * 65536 + (b1 * 256 + b2)"
    using or_disjoint [of "b1 * 256 + b2" 16 b0] assms by (simp add: shift_left_nat)
  ultimately show ?thesis by (simp add: or.assoc)
qed

lemma digit: "x = k * q + m \<Longrightarrow> m < k \<Longrightarrow> x div k = q \<and> x mod k = (m :: nat)"
  by (auto simp: mult.commute)

lemma sextets:
  assumes "b0 < 256" "b1 < 256" "b2 < 256"
  defines "n \<equiv> push_bit 16 b0 OR push_bit 8 b1 OR (b2 :: nat)"
  shows "drop_bit 18 n AND 0x3f = b0 div 4" "drop_bit 12 n AND 0x3f = b0 mod 4 * 16 + b1 div 16"
    "drop_bit 6 n AND 0x3f = b1 mod 16 * 4 + b2 div 64" "drop_bit 0 n AND 0x3f = b2 mod 64"
proof -
  define q0 r0 q1 r1 q2 r2 where d: "q0 = b0 div 4" "r0 = b0 mod 4" "q1 = b1 div 16" "r1 = b1 mod 16" "q2 = b2 div 64" "r2 = b2 mod 64"
  have b: "b0 = 4 * q0 + r0" "b1 = 16 * q1 + r1" "b2 = 64 * q2 + r2" "r0 < 4" "r1 < 16" "r2 < 64" by (simp_all add: d)
  have q: "q0 < 64" "q1 < 16" "q2 < 4" using assms(1-3) b by linarith+
  have n: "n = b0 * 65536 + b1 * 256 + b2" using assms by (simp add: or_parts)
  have "n div 262144 = q0" using digit [of n 262144 q0 "r0 * 65536 + b1 * 256 + b2"] n b q by linarith
  then show "drop_bit 18 n AND 0x3f = b0 div 4" using q(1) by (simp add: bits_arith d(1))
  have "n div 4096 = 64 * q0 + (16 * r0 + q1)"
    using digit [of n 4096 "64 * q0 + (16 * r0 + q1)" "r1 * 256 + b2"] n b q by linarith
  then have "n div 4096 mod 64 = 16 * r0 + q1" using digit [of "n div 4096" 64 q0 "16 * r0 + q1"] b q by linarith
  then show "drop_bit 12 n AND 0x3f = b0 mod 4 * 16 + b1 div 16" by (simp add: bits_arith d(2,3))
  have "n = 64 * (64 * (64 * q0 + 16 * r0 + q1) + (4 * r1 + q2)) + r2" using n b by simp
  then have "n div 64 = 64 * (64 * q0 + 16 * r0 + q1) + (4 * r1 + q2)" using digit b(6) by blast
  then have "n div 64 mod 64 = 4 * r1 + q2"
    using digit [of "n div 64" 64 "64 * q0 + 16 * r0 + q1" "4 * r1 + q2"] b q by linarith
  then show "drop_bit 6 n AND 0x3f = b1 mod 16 * 4 + b2 div 64" by (simp add: bits_arith d(4,5))
  have "n = 64 * (b0 * 1024 + b1 * 4 + q2) + r2" using n b by simp
  then have "n mod 64 = r2" using digit b(6) by blast
  then show "drop_bit 0 n AND 0x3f = b2 mod 64" by (simp add: bits_arith d(6))
qed

lemma sextets_tail:
  assumes "b0 < 256" "b1 < (256 :: nat)"
  shows "drop_bit 18 (push_bit 16 b0 OR push_bit 8 b1) AND 0x3f = b0 div 4"
    "drop_bit 12 (push_bit 16 b0 OR push_bit 8 b1) AND 0x3f = b0 mod 4 * 16 + b1 div 16"
    "drop_bit 6 (push_bit 16 b0 OR push_bit 8 b1) AND 0x3f = b1 mod 16 * 4"
    "drop_bit 18 (push_bit 16 b0) AND 0x3f = b0 div 4" "drop_bit 12 (push_bit 16 b0) AND 0x3f = b0 mod 4 * 16"
  using sextets [OF assms, of 0] sextets [OF assms(1), of 0 0] by simp_all

lemma or_small: "(b :: nat) < 2 ^ k \<Longrightarrow> push_bit k a OR b = a * 2 ^ k + b"
  by (simp add: or_disjoint shift_left_nat)

lemma join_byte:
  assumes "b < 2 ^ k" "a * 2 ^ k + b < 256"
  shows "(push_bit k a OR b) AND 0xff = a * 2 ^ k + (b :: nat)"
  by (simp only: or_small [OF assms(1)] and_masks mod_less [OF assms(2)])

lemma bytes_of_sextets:
  assumes "v0 < 64" "v1 < 64" "v2 < 64" "v3 < 64"
  shows "byte1 v0 v1 = v0 * 4 + v1 div 16" "byte2 v1 v2 = v1 mod 16 * 16 + v2 div 4" "byte3 v2 v3 = v2 mod 4 * 64 + v3"
proof -
  have d: "v1 div 16 < 4" "v2 div 4 < 16" "v1 mod 16 < 16" "v2 mod 4 < 4" using assms by simp_all
  have p: "(2::nat) ^ 2 = 4" "(2::nat) ^ 4 = 16" "(2::nat) ^ 6 = 64" by simp_all
  have "v0 * 4 + v1 div 16 < 256" using d(1) assms(1) by linarith
  then show "byte1 v0 v1 = v0 * 4 + v1 div 16"
    using d(1) join_byte [of "v1 div 16" 2 v0] by (simp only: byte1_def shift_right_nat p)
  have "v1 mod 16 * 16 + v2 div 4 < 256" using d(2,3) by linarith
  then show "byte2 v1 v2 = v1 mod 16 * 16 + v2 div 4"
    using d(2) join_byte [of "v2 div 4" 4 "v1 mod 16"] by (simp only: byte2_def shift_right_nat and_masks p)
  have "v2 mod 4 * 64 + v3 < 256" using d(4) assms(4) by linarith
  then show "byte3 v2 v3 = v2 mod 4 * 64 + v3"
    using assms(4) join_byte [of v3 6 "v2 mod 4"] by (simp only: byte3_def and_masks p)
qed

section \<open>Decoding what the encoder gives\<close>

lemma sextet_simps:
  assumes "b0 < 256" "b1 < 256" "b2 < 256"
  defines "n \<equiv> push_bit 16 b0 OR push_bit 8 b1 OR b2"
  shows "sextet url 18 n = b64Alphabet url ! (b0 div 4)" "sextet url 12 n = b64Alphabet url ! (b0 mod 4 * 16 + b1 div 16)"
    "sextet url 6 n = b64Alphabet url ! (b1 mod 16 * 4 + b2 div 64)" "sextet url 0 n = b64Alphabet url ! (b2 mod 64)"
  using sextets [OF assms(1-3)] by (simp_all only: sextet_def n_def)

lemma sextet_tail_simps:
  assumes "b0 < 256" "b1 < 256"
  shows "sextet url 18 (push_bit 16 b0 OR push_bit 8 b1) = b64Alphabet url ! (b0 div 4)"
    "sextet url 12 (push_bit 16 b0 OR push_bit 8 b1) = b64Alphabet url ! (b0 mod 4 * 16 + b1 div 16)"
    "sextet url 6 (push_bit 16 b0 OR push_bit 8 b1) = b64Alphabet url ! (b1 mod 16 * 4)"
    "sextet url 18 (push_bit 16 b0) = b64Alphabet url ! (b0 div 4)"
    "sextet url 12 (push_bit 16 b0) = b64Alphabet url ! (b0 mod 4 * 16)"
  using sextets_tail [OF assms] by (simp_all only: sextet_def)

lemma sextet_range:
  assumes "b0 < 256" "b1 < 256" "b2 < (256 :: nat)"
  shows "b0 div 4 < 64" "b0 mod 4 * 16 + b1 div 16 < 64" "b1 mod 16 * 4 + b2 div 64 < 64" "b2 mod 64 < 64"
    "b0 mod 4 * 16 < 64" "b1 mod 16 * 4 < 64"
proof -
  have "b0 mod 4 < 4" "b1 div 16 < 16" "b1 mod 16 < 16" "b2 div 64 < 4" using assms by (simp_all add: div_less_iff_less_mult)
  then show "b0 div 4 < 64" "b0 mod 4 * 16 + b1 div 16 < 64" "b1 mod 16 * 4 + b2 div 64 < 64" "b2 mod 64 < 64"
    "b0 mod 4 * 16 < 64" "b1 mod 16 * 4 < 64"
    using assms by (simp_all add: div_less_iff_less_mult)
qed

lemma regroup:
  assumes "b0 < 256" "b1 < 256" "b2 < (256 :: nat)"
  shows "byte1 (b0 div 4) (b0 mod 4 * 16 + b1 div 16) = b0"
    "byte2 (b0 mod 4 * 16 + b1 div 16) (b1 mod 16 * 4 + b2 div 64) = b1"
    "byte3 (b1 mod 16 * 4 + b2 div 64) (b2 mod 64) = b2"
    "byte1 (b0 div 4) (b0 mod 4 * 16) = b0" "byte2 (b0 mod 4 * 16 + b1 div 16) (b1 mod 16 * 4) = b1"
proof -
  note r = sextet_range [OF assms]
  have "b1 div 16 < 16" "b2 div 64 < 4" using assms by (simp_all add: div_less_iff_less_mult)
  then have d: "(b0 mod 4 * 16 + b1 div 16) div 16 = b0 mod 4" "(b0 mod 4 * 16 + b1 div 16) mod 16 = b1 div 16"
    "(b1 mod 16 * 4 + b2 div 64) div 4 = b1 mod 16" "(b1 mod 16 * 4 + b2 div 64) mod 4 = b2 div 64"
    using digit [of "b0 mod 4 * 16 + b1 div 16" 16 "b0 mod 4"] digit [of "b1 mod 16 * 4 + b2 div 64" 4 "b1 mod 16"]
    by (simp_all only: mult.commute simp_thms)
  have z: "b0 mod 4 * 16 div 16 = b0 mod 4" "b1 mod 16 * 4 div 4 = b1 mod 16" by simp_all
  show "byte1 (b0 div 4) (b0 mod 4 * 16 + b1 div 16) = b0"
    by (simp only: bytes_of_sextets(1) [OF r(1,2,3,4)] d div_mult_mod_eq)
  show "byte2 (b0 mod 4 * 16 + b1 div 16) (b1 mod 16 * 4 + b2 div 64) = b1"
    by (simp only: bytes_of_sextets(2) [OF r(1,2,3,4)] d div_mult_mod_eq)
  show "byte3 (b1 mod 16 * 4 + b2 div 64) (b2 mod 64) = b2"
    by (simp only: bytes_of_sextets(3) [OF r(1,2,3,4)] d div_mult_mod_eq)
  show "byte1 (b0 div 4) (b0 mod 4 * 16) = b0"
    by (simp only: bytes_of_sextets(1) [OF r(1,5,3,4)] z div_mult_mod_eq)
  show "byte2 (b0 mod 4 * 16 + b1 div 16) (b1 mod 16 * 4) = b1"
    by (simp only: bytes_of_sextets(2) [OF r(1,2,6,4)] d z div_mult_mod_eq)
qed

text \<open>The encoder, chunk by chunk, and the loop on such chunks.\<close>

abbreviation letters :: "bool \<Rightarrow> nat list \<Rightarrow> jsstr" where
  "letters url \<equiv> map ((!) (b64Alphabet url))"

definition pad :: "bool \<Rightarrow> nat \<Rightarrow> jsstr" where
  "pad omit n = (if omit then [] else replicate n 61)"

lemma b64_encode_chunks:
  "b0 < 256 \<Longrightarrow> b1 < 256 \<Longrightarrow> b2 < 256 \<Longrightarrow> b64_encode url omit (b0 # b1 # b2 # bs) =
     letters url [b0 div 4, b0 mod 4 * 16 + b1 div 16, b1 mod 16 * 4 + b2 div 64, b2 mod 64] @ b64_encode url omit bs"
  "b0 < 256 \<Longrightarrow> b1 < 256 \<Longrightarrow> b64_encode url omit [b0, b1] =
     letters url [b0 div 4, b0 mod 4 * 16 + b1 div 16, b1 mod 16 * 4] @ pad omit 1"
  "b0 < 256 \<Longrightarrow> b64_encode url omit [b0] = letters url [b0 div 4, b0 mod 4 * 16] @ pad omit 2"
  subgoal by (simp only: b64_encode.simps Let_def sextet_simps list.map)
  subgoal by (cases omit) (simp_all only: b64_encode.simps Let_def sextet_tail_simps list.map pad_def simp_thms if_True if_False
        replicate_Suc replicate_0 One_nat_def)
  subgoal using sextet_tail_simps(4,5) [of b0 0 url]
    by (cases omit) (simp_all only: b64_encode.simps Let_def list.map pad_def simp_thms if_True if_False numeral_2_eq_2
        replicate_Suc replicate_0)
  done

lemma b64_loop_chunk:
  assumes "v0 < 64" "v1 < 64" "v2 < 64" "v3 < 64"
  shows "b64_loop url h (letters url [v0, v1, v2, v3] @ s) i out =
    b64_loop url h s (i + 4) (out @ [byte1 v0 v1, byte2 v1 v2, byte3 v2 v3])"
  using assms by (simp add: alphabet_nth)

lemma b64_loop_three:
  assumes "v0 < 64" "v1 < 64" "v2 < 64" "h = Loose \<or> \<not> omit" "v2 mod 4 = 0"
  shows "b64_loop url h (letters url [v0, v1, v2] @ pad omit 1) i out =
    Inr (out @ [byte1 v0 v1, byte2 v1 v2], i + 3 + length (pad omit 1), False)"
  using assms by (auto simp: alphabet_nth pad_def and_masks)

lemma b64_loop_two:
  assumes "v0 < 64" "v1 < 64" "h = Loose \<or> \<not> omit" "v1 mod 16 = 0"
  shows "b64_loop url h (letters url [v0, v1] @ pad omit 2) i out =
    Inr (out @ [byte1 v0 v1], i + 2 + length (pad omit 2), False)"
  using assms by (auto simp: alphabet_nth pad_def and_masks numeral_2_eq_2)

lemma b64_loop_encode:
  assumes "is_bytes bs" "h = Loose \<or> \<not> omit"
  shows "b64_loop url h (b64_encode url omit bs) i out = Inr (out @ bs, i + length (b64_encode url omit bs), False)"
  using assms
proof (induction url omit bs arbitrary: i out rule: b64_encode.induct)
  case (1 url omit b0 b1 b2 bs)
  then have b: "b0 < 256" "b1 < 256" "b2 < 256" "is_bytes bs" by (simp_all add: is_bytes_def)
  show ?case
    unfolding b64_encode_chunks(1) [OF b(1-3)] b64_loop_chunk [OF sextet_range(1-4) [OF b(1-3)]] regroup(1-3) [OF b(1-3)]
    using 1(1) [OF refl b(4) 1(3)] by simp
next
  case (2 url omit b0 b1)
  then have b: "b0 < 256" "b1 < 256" "(0::nat) < 256" by (simp_all add: is_bytes_def)
  note r = sextet_range [OF b]
  show ?case
    unfolding b64_encode_chunks(2) [OF b(1,2)] b64_loop_three [OF r(1,2,6) 2(2) mod_mult_self2_is_0]
    using regroup(1,5) [OF b] by simp
next
  case (3 url omit b0)
  then have b: "b0 < 256" "(0::nat) < 256" by (simp_all add: is_bytes_def)
  note r = sextet_range [OF b(1,2,2)]
  show ?case
    unfolding b64_encode_chunks(3) [OF b(1)] b64_loop_two [OF r(1,5) 3(2) mod_mult_self2_is_0]
    using regroup(4) [OF b(1,2,2)] by simp
qed simp

section \<open>Strict decoding accepts what the encoder gives and nothing else\<close>

lemma ungroup:
  assumes "v0 < 64" "v1 < 64" "v2 < 64" "v3 < 64"
  shows "byte1 v0 v1 < 256" "byte2 v1 v2 < 256" "byte3 v2 v3 < 256"
    "byte1 v0 v1 div 4 = v0" "byte1 v0 v1 mod 4 * 16 + byte2 v1 v2 div 16 = v1"
    "byte2 v1 v2 mod 16 * 4 + byte3 v2 v3 div 64 = v2" "byte3 v2 v3 mod 64 = v3"
    "v1 mod 16 = 0 \<Longrightarrow> byte1 v0 v1 mod 4 * 16 = v1" "v2 mod 4 = 0 \<Longrightarrow> byte2 v1 v2 mod 16 * 4 = v2"
proof -
  have d: "v1 div 16 < 4" "v2 div 4 < 16" "v1 mod 16 < 16" "v2 mod 4 < 4" using assms by simp_all
  note b = bytes_of_sextets [OF assms]
  have b1: "byte1 v0 v1 div 4 = v0 \<and> byte1 v0 v1 mod 4 = v1 div 16"
    using d(1) b(1) by (intro digit) (simp_all only: mult.commute)
  have b2: "byte2 v1 v2 div 16 = v1 mod 16 \<and> byte2 v1 v2 mod 16 = v2 div 4"
    using d(2) b(2) by (intro digit) (simp_all only: mult.commute)
  have b3: "byte3 v2 v3 div 64 = v2 mod 4 \<and> byte3 v2 v3 mod 64 = v3"
    using assms(4) b(3) by (intro digit) (simp_all only: mult.commute)
  show "byte1 v0 v1 < 256" "byte2 v1 v2 < 256" "byte3 v2 v3 < 256" using b d assms by linarith+
  show "byte1 v0 v1 div 4 = v0" "byte3 v2 v3 mod 64 = v3" using b1 b3 by blast+
  show "byte1 v0 v1 mod 4 * 16 + byte2 v1 v2 div 16 = v1" using b1 b2 by (simp only: div_mult_mod_eq)
  show "byte2 v1 v2 mod 16 * 4 + byte3 v2 v3 div 64 = v2" using b2 b3 by (simp only: div_mult_mod_eq)
  show "byte1 v0 v1 mod 4 * 16 = v1" if "v1 mod 16 = 0"
    using b1 div_mult_mod_eq [of v1 16] that by (simp only: add_0_right)
  show "byte2 v1 v2 mod 16 * 4 = v2" if "v2 mod 4 = 0"
    using b2 div_mult_mod_eq [of v2 4] that by (simp only: add_0_right)
qed

text \<open>What the loop has read is the encoding of the bytes it added.\<close>

definition encodes :: "bool \<Rightarrow> jsstr \<Rightarrow> nat \<Rightarrow> bytes \<Rightarrow> bytes \<times> nat \<times> bool \<Rightarrow> bool" where
  "encodes url s i out r \<longleftrightarrow>
     (\<exists>bs t. r = (out @ bs, i + length (b64_encode url False bs), False) \<and> is_bytes bs \<and> s = b64_encode url False bs @ t)"

lemma encodes_nil: "encodes url s i out (out, i, False)"
  unfolding encodes_def by (rule exI [of _ "[]"]) (simp add: is_bytes_def)

lemma encodes_two:
  assumes "b64Lookup url c0 = Some v0" "b64Lookup url c1 = Some v1" "v1 mod 16 = 0"
  shows "encodes url (c0 # c1 # 61 # 61 # s) i out (out @ [byte1 v0 v1], i + 4, False)"
proof -
  have v: "v0 < 64" "v1 < 64" "(0::nat) < 64" "b64Alphabet url ! v0 = c0" "b64Alphabet url ! v1 = c1" using assms by (simp_all add: lookup_iff)
  note u = ungroup [OF v(1,2,3,3)]
  have e: "b64_encode url False [byte1 v0 v1] = [c0, c1, 61, 61]"
    unfolding b64_encode_chunks(3) [OF u(1)] u(4) u(8) [OF assms(3)] using v by (simp add: pad_def numeral_2_eq_2)
  show ?thesis unfolding encodes_def by (rule exI [of _ "[byte1 v0 v1]"], rule exI [of _ s]) (simp only: e, simp add: is_bytes_def u(1))
qed

lemma encodes_three:
  assumes "b64Lookup url c0 = Some v0" "b64Lookup url c1 = Some v1" "b64Lookup url c2 = Some v2" "v2 mod 4 = 0"
  shows "encodes url (c0 # c1 # c2 # 61 # s) i out (out @ [byte1 v0 v1, byte2 v1 v2], i + 4, False)"
proof -
  have v: "v0 < 64" "v1 < 64" "v2 < 64" "(0::nat) < 64" "b64Alphabet url ! v0 = c0" "b64Alphabet url ! v1 = c1" "b64Alphabet url ! v2 = c2"
    using assms by (simp_all add: lookup_iff)
  note u = ungroup [OF v(1-4)]
  have e: "b64_encode url False [byte1 v0 v1, byte2 v1 v2] = [c0, c1, c2, 61]"
    unfolding b64_encode_chunks(2) [OF u(1,2)] u(4) u(5) u(9) [OF assms(4)] using v by (simp add: pad_def)
  show ?thesis unfolding encodes_def
    by (rule exI [of _ "[byte1 v0 v1, byte2 v1 v2]"], rule exI [of _ s]) (simp only: e, simp add: is_bytes_def u(1,2))
qed

lemma encodes_chunk:
  assumes "b64Lookup url c0 = Some v0" "b64Lookup url c1 = Some v1" "b64Lookup url c2 = Some v2" "b64Lookup url c3 = Some v3"
    and "encodes url s (i + 4) (out @ [byte1 v0 v1, byte2 v1 v2, byte3 v2 v3]) r"
  shows "encodes url (c0 # c1 # c2 # c3 # s) i out r"
proof -
  have v: "v0 < 64" "v1 < 64" "v2 < 64" "v3 < 64" "b64Alphabet url ! v0 = c0" "b64Alphabet url ! v1 = c1" "b64Alphabet url ! v2 = c2"
    "b64Alphabet url ! v3 = c3" using assms by (simp_all add: lookup_iff)
  note u = ungroup [OF v(1-4)]
  obtain bs t where r: "r = (out @ [byte1 v0 v1, byte2 v1 v2, byte3 v2 v3] @ bs, i + 4 + length (b64_encode url False bs), False)"
    "is_bytes bs" "s = b64_encode url False bs @ t" using assms(5) by (auto simp: encodes_def)
  have e: "b64_encode url False (byte1 v0 v1 # byte2 v1 v2 # byte3 v2 v3 # bs) = c0 # c1 # c2 # c3 # b64_encode url False bs"
    unfolding b64_encode_chunks(1) [OF u(1,2,3)] u(4-7) using v by simp
  show ?thesis unfolding encodes_def
    by (rule exI [of _ "byte1 v0 v1 # byte2 v1 v2 # byte3 v2 v3 # bs"], rule exI [of _ t])
      (simp only: e r(1,3), use r(2) u(1-3) in \<open>simp add: is_bytes_def\<close>)
qed

lemma b64_loop_strict:
  assumes "b64_loop url Strict s i out = Inr r"
  shows "encodes url s i out r"
  using assms
proof (induction url "Strict" s i out rule: b64_loop.induct)
  case (5 url c0 c1 c2 c3 s i out)
  show ?case
  proof (cases "c0 = 61")
    case True
    then show ?thesis using 5(2) by (auto simp: encodes_nil)
  next
    case False
    then obtain v0 v1 where v: "b64Lookup url c0 = Some v0" "b64Lookup url c1 = Some v1"
      using 5(2) by (cases "b64Lookup url c0"; cases "b64Lookup url c1") auto
    consider "c2 = 61" "c3 = 61" "v1 mod 16 = 0" "r = (out @ [byte1 v0 v1], i + 4, False)"
      | v2 where "c2 \<noteq> 61" "c3 = 61" "b64Lookup url c2 = Some v2" "v2 mod 4 = 0" "r = (out @ [byte1 v0 v1, byte2 v1 v2], i + 4, False)"
      | v2 v3 where "c2 \<noteq> 61" "c3 \<noteq> 61" "b64Lookup url c2 = Some v2" "b64Lookup url c3 = Some v3"
        "b64_loop url Strict s (i + 4) (out @ [byte1 v0 v1, byte2 v1 v2, byte3 v2 v3]) = Inr r"
      using 5(2) False v by (auto simp: and_masks split: if_splits option.splits)
    then show ?thesis
    proof cases
      case 1
      then show ?thesis using encodes_two [OF v] by simp
    next
      case 2
      then show ?thesis using encodes_three [OF v] by simp
    next
      case 3
      then show ?thesis using encodes_chunk [OF v] 5(1) [OF False _ v(1) v(2)] by simp
    qed
  qed
qed (auto simp: encodes_nil split: if_splits option.splits)

section \<open>Whole strings\<close>

lemma strip_loop_clean: "fst (strip_loop idx s) = filter (\<lambda>c. \<not> isAsciiWsCode c) s"
  by (induction idx s rule: strip_loop.induct) (auto simp: Let_def split: prod.splits)

lemma strip_loop_indices: "length (snd (strip_loop idx s)) = length (fst (strip_loop idx s))"
  by (induction idx s rule: strip_loop.induct) (auto simp: Let_def split: prod.splits)

lemma strip_loop_last:
  assumes "strip_loop idx s = (c, ix)" "c \<noteq> []"
  shows "idx \<le> last ix \<and> last ix < idx + length s \<and> list_all isAsciiWsCode (drop (last ix + 1 - idx) s)"
  using assms
proof (induction idx s arbitrary: c ix rule: strip_loop.induct)
  case (2 idx a s)
  obtain c' ix' where r: "strip_loop (idx + 1) s = (c', ix')" by (cases "strip_loop (idx + 1) s")
  have len: "length ix' = length c'" using strip_loop_indices [of "idx + 1" s] r by simp
  show ?case
  proof (cases "c' = []")
    case True
    then have "list_all isAsciiWsCode s"
      using strip_loop_clean [of "idx + 1" s] r by (metis filter_empty_conv list_all_iff fst_conv)
    then show ?thesis using 2(2,3) r True len by (auto split: if_splits)
  next
    case False
    then have "ix' \<noteq> []" using len by auto
    moreover from 2(1) [OF r False] have "idx + 1 \<le> last ix'" "last ix' < idx + 1 + length s"
      "list_all isAsciiWsCode (drop (last ix' + 1 - (idx + 1)) s)" by auto
    moreover from this have "last ix' + 1 - idx = Suc (last ix' + 1 - (idx + 1))" by simp
    ultimately show ?thesis using 2(2) r by (auto split: if_splits)
  qed
qed simp

lemma skip_all: "read \<le> length s \<Longrightarrow> list_all isAsciiWsCode (drop read s) \<Longrightarrow> skip_ws s read = length s"
  by (simp add: skip_ws_def list_all_iff takeWhile_eq_all_conv [THEN iffD2])

lemma read_all:
  assumes "b64StripWs s = (c, ix)"
  shows "b64_read s (Some ix) (length c) False = length s"
proof (cases "c = []")
  case False
  have len: "length ix = length c" using strip_loop_indices [of 0 s] assms by (simp add: b64StripWs_def)
  then have last: "last ix = ix ! (length c - 1)" using False by (metis last_conv_nth length_0_conv)
  have "last ix < length s" "list_all isAsciiWsCode (drop (last ix + 1) s)"
    using strip_loop_last [of 0 s c ix] assms False by (simp_all add: b64StripWs_def)
  then show ?thesis using False len last skip_all [of "last ix + 1" s] by (simp add: b64_read_def)
qed (simp add: b64_read_def)

text \<open>C4: Strict base64 decoding accepts exactly the padded encodings of byte lists, returns the bytes encoded, and
  reports the whole string as read.\<close>

theorem base64_strict_exact:
  assumes "length s * 3 div 4 + 3 \<le> AB_ALLOC_LIMIT"
  shows "decodeBase64 url Strict s = Inr (bs, r) \<longleftrightarrow> is_bytes bs \<and> s = b64_encode url False bs \<and> r = length s"
proof
  assume a: "decodeBase64 url Strict s = Inr (bs, r)"
  then obtain out i e where l: "b64_loop url Strict s 0 [] = Inr (out, i, e)" "\<not> (\<not> e \<and> i < length s)" "bs = out"
    "r = b64_read s None i e"
    by (auto simp: decodeBase64_def Let_def bind_result_Inr split: if_splits)
  from b64_loop_strict [OF l(1)] obtain t where "is_bytes out" "s = b64_encode url False out @ t"
    "i = length (b64_encode url False out)" "e = False" by (auto simp: encodes_def)
  then show "is_bytes bs \<and> s = b64_encode url False bs \<and> r = length s" using l(2-4) by (simp add: b64_read_def)
next
  assume "is_bytes bs \<and> s = b64_encode url False bs \<and> r = length s"
  then show "decodeBase64 url Strict s = Inr (bs, r)"
    using assms b64_loop_encode [of bs Strict False url 0 "[]"]
    by (simp add: decodeBase64_def checkAllocLimit_def b64_read_def)
qed

text \<open>Decoding in the other two modes, with white space anywhere in the text, gives back the bytes that were
  encoded, and reports the whole string as read; the padding may be missing in loose mode.\<close>

theorem base64_roundtrip:
  assumes "is_bytes bs" "filter (\<lambda>c. \<not> isAsciiWsCode c) s = b64_encode url omit bs" "h = Loose \<or> h = StopBeforePartial \<and> \<not> omit"
    "length s \<le> AB_ALLOC_LIMIT - 3"
  shows "decodeBase64 url h s = Inr (bs, length s)"
proof -
  obtain c ix where c: "b64StripWs s = (c, ix)" by (cases "b64StripWs s")
  then have e: "c = b64_encode url omit bs" using strip_loop_clean [of 0 s] assms(2) by (simp add: b64StripWs_def)
  have "length c \<le> length s" using e assms(2) length_filter_le [of _ s] by metis
  then have "length c * 3 div 4 + 3 \<le> AB_ALLOC_LIMIT" using assms(4) by (simp add: AB_ALLOC_LIMIT_def)
  then show ?thesis
    using assms(1,3) c read_all [OF c] b64_loop_encode [of bs h omit url 0 "[]"] e
    by (auto simp: decodeBase64_def checkAllocLimit_def)
qed

section \<open>Hexadecimal\<close>

lemma hex_chars: "n < 16 \<Longrightarrow> hex_value (hexChars ! n) = Some n"
proof -
  assume "n < 16"
  moreover have "list_all (\<lambda>n. hex_value (hexChars ! n) = Some n) [0..<16]" by code_simp
  ultimately show ?thesis by (simp add: list_all_iff)
qed

definition hex_lower :: "nat \<Rightarrow> nat" where
  "hex_lower c = (if 65 \<le> c \<and> c \<le> 70 then c + 32 else c)"

lemma hex_value_lower: "hex_value c = Some x \<Longrightarrow> x < 16 \<and> hexChars ! x = hex_lower c"
proof -
  assume a: "hex_value c = Some x"
  have "list_all (\<lambda>c. case hex_value c of None \<Rightarrow> True | Some x \<Rightarrow> x < 16 \<and> hexChars ! x = hex_lower c) [0..<103]"
    by code_simp
  moreover have "c < 103" using a by (auto simp: hex_value_def split: if_splits)
  ultimately have "case hex_value c of None \<Rightarrow> True | Some x \<Rightarrow> x < 16 \<and> hexChars ! x = hex_lower c"
    unfolding list_all_iff by (elim bspec) simp
  then show ?thesis using a by simp
qed

lemma hex_loop_encode: "is_bytes bs \<Longrightarrow> hex_loop (encodeHex bs) = Inr bs"
proof (induction bs)
  case (Cons b bs)
  then have "b div 16 < 16" "b mod 16 < 16" "is_bytes bs" by (simp_all add: is_bytes_def div_less_iff_less_mult)
  then show ?case using Cons.IH by (simp add: bits_arith hex_chars)
qed simp

lemma length_encodeHex: "length (encodeHex bs) = 2 * length bs"
  by (induction bs) simp_all

lemma hex_loop_Inr:
  assumes "hex_loop s = Inr bs" "even (length s)"
  shows "is_bytes bs \<and> encodeHex bs = map hex_lower s"
  using assms
proof (induction s arbitrary: bs rule: hex_loop.induct)
  case (1 c d s)
  then obtain x y bs' where "hex_value c = Some x" "hex_value d = Some y" "hex_loop s = Inr bs'" "bs = (16 * x + y) # bs'"
    by (auto simp: bind_result_Inr split: option.splits)
  then show ?case using 1 hex_value_lower [of c x] hex_value_lower [of d y] by (auto simp: is_bytes_def bits_arith)
qed (auto simp: is_bytes_def)

text \<open>Decoding accepts the encodings up to the case of the letters.\<close>

theorem hex_exact:
  assumes "length s div 2 \<le> AB_ALLOC_LIMIT"
  shows "decodeHex s = Inr bs \<longleftrightarrow> is_bytes bs \<and> encodeHex bs = map hex_lower s"
proof
  assume "decodeHex s = Inr bs"
  then have "hex_loop s = Inr bs" "even (length s)" by (auto simp: decodeHex_def bind_result_Inr split: if_splits)
  then show "is_bytes bs \<and> encodeHex bs = map hex_lower s" by (rule hex_loop_Inr)
next
  assume a: "is_bytes bs \<and> encodeHex bs = map hex_lower s"
  have "length s = 2 * length bs" using arg_cong [of _ _ length, OF conjunct2 [OF a]] by (simp add: length_encodeHex)
  moreover have "hex_loop (map hex_lower s) = hex_loop s"
  proof (induction s rule: hex_loop.induct)
    case (1 c d s)
    have "hex_value (hex_lower c) = hex_value c" for c by (simp add: hex_value_def hex_lower_def)
    then show ?case using 1 by (auto split: option.splits)
  qed simp_all
  ultimately show "decodeHex s = Inr bs"
    using a assms hex_loop_encode [of bs] by (simp add: decodeHex_def checkAllocLimit_def)
qed


section \<open>Arrays\<close>

lemma u8_elems_range: "ta_kind v = U8 \<Longrightarrow> x \<in> set (elems v b) \<Longrightarrow> 0 \<le> x \<and> x < 256"
  using get_elem_range [of U8] by (auto simp: elems_def)

lemma u8_bytes_elems: "ta_kind v = U8 \<Longrightarrow> map int (u8_bytes v b) = elems v b \<and> is_bytes (u8_bytes v b)"
proof -
  assume k: "ta_kind v = U8"
  have e: "u8_bytes v b = map nat (elems v b)"
    unfolding u8_bytes_def by (intro nth_equalityI) (simp_all add: readAt_elems)
  have "int (nat x) = x \<and> nat x < 256" if "x \<in> set (elems v b)" for x using u8_elems_range [OF k that] by (simp add: nat_less_iff)
  then show ?thesis unfolding e by (auto simp: is_bytes_def intro!: map_idI)
qed

lemma u8_from_elems:
  assumes "is_bytes bs" "length bs \<le> AB_ALLOC_LIMIT"
  shows "\<exists>w c. u8_from bs = Inr (w, c) \<and> elems w c = map int bs \<and> ta_kind w = U8"
proof -
  obtain w t where wt: "ta_alloc U8 (length bs) = (w, t)" by (cases "ta_alloc U8 (length bs)")
  have k: "ta_kind w = U8" "taLength w t = length bs" "\<not> ab_immutable t"
    using ta_alloc_simps [of U8 "length bs"] ta_alloc_length [of U8 "length bs"] wt by (simp_all add: ta_alloc_def) auto
  obtain c where c: "write_list w 0 (byte_values bs) t = (c, None)" "elems w c = map (held U8) (byte_values bs)"
    using write_list_elems [of 0 "byte_values bs" w t] k by (auto simp: byte_values_def fits_def list_all_iff)
  have "map (held U8) (byte_values bs) = map int bs"
    using assms(1) num_int_of_int [of "int n" for n] by (auto simp: byte_values_def is_bytes_def trunc_rat_def)
  then show ?thesis using c wt assms(2) k(1) by (simp add: u8_from_def checkAllocLimit_def)
qed

lemma letters_clean:
  "list_all (\<lambda>v. v < 64) vs \<Longrightarrow> filter (\<lambda>c. \<not> isAsciiWsCode c) (letters url vs) = letters url vs"
  "filter (\<lambda>c. \<not> isAsciiWsCode c) (pad omit n) = pad omit n"
  by (auto simp: filter_id_conv list_all_iff alphabet_nth pad_def isAsciiWsCode_def [of 61])

lemma b64_encode_clean:
  "is_bytes bs \<Longrightarrow> filter (\<lambda>c. \<not> isAsciiWsCode c) (b64_encode url omit bs) = b64_encode url omit bs"
proof (induction url omit bs rule: b64_encode.induct)
  case (1 url omit b0 b1 b2 bs)
  then have b: "b0 < 256" "b1 < 256" "b2 < 256" "is_bytes bs" by (simp_all add: is_bytes_def)
  show ?case
    unfolding b64_encode_chunks(1) [OF b(1-3)] filter_append using 1(1) [OF refl b(4)] sextet_range [OF b(1-3)]
    by (subst letters_clean(1)) simp_all
next
  case (2 url omit b0 b1)
  then have b: "b0 < 256" "b1 < 256" "(0::nat) < 256" by (simp_all add: is_bytes_def)
  show ?case
    unfolding b64_encode_chunks(2) [OF b(1,2)] filter_append letters_clean(2) using sextet_range [OF b] by (subst letters_clean(1)) simp_all
next
  case (3 url omit b0)
  then have b: "b0 < 256" "(0::nat) < 256" by (simp_all add: is_bytes_def)
  show ?case
    unfolding b64_encode_chunks(3) [OF b(1)] filter_append letters_clean(2) using sextet_range [OF b(1,2,2)]
    by (subst letters_clean(1)) simp_all
qed simp

theorem base64_of_arrays:
  assumes "toBase64 (url, h, omit) v b = Inr s" "h = Loose \<or> \<not> omit" "length s \<le> AB_ALLOC_LIMIT - 3"
  shows "\<exists>w c. fromBase64 (url, h, omit) s = Inr (w, c) \<and> elems w c = elems v b"
proof -
  have v: "ta_kind v = U8" "s = b64_encode url omit (u8_bytes v b)"
    using assms(1) by (auto simp: toBase64_def u8_ready_def bind_result_Inr split: if_splits)
  note u = u8_bytes_elems [OF v(1), of b]
  have len: "length bs \<le> length (b64_encode url omit bs)" for bs
    by (induction url omit bs rule: b64_encode.induct) (simp_all add: Let_def)
  have "decodeBase64 url h s = Inr (u8_bytes v b, length s)"
  proof (cases "h = Strict")
    case True
    then have "s = b64_encode url False (u8_bytes v b)" using v(2) assms(2) by simp
    moreover have "length s * 3 div 4 + 3 \<le> AB_ALLOC_LIMIT" using assms(3) by (simp add: AB_ALLOC_LIMIT_def)
    ultimately show ?thesis using True u base64_strict_exact [of s url "u8_bytes v b" "length s"] by simp
  next
    case False
    then have "h = Loose \<or> h = StopBeforePartial \<and> \<not> omit" using assms(2) by (cases h) auto
    then show ?thesis
      using base64_roundtrip [of "u8_bytes v b" s url omit h] u b64_encode_clean [of "u8_bytes v b"] assms(3) v(2) by simp
  qed
  moreover have "length (u8_bytes v b) \<le> AB_ALLOC_LIMIT" using len [of "u8_bytes v b"] v(2) assms(3) by (simp add: AB_ALLOC_LIMIT_def)
  ultimately show ?thesis using u8_from_elems [of "u8_bytes v b"] u by (auto simp: fromBase64_def)
qed

text \<open>The string decoder prints the same text.\<close>

lemma base64_alphabets: "b64 v = b64Alphabet False ! v"
  by (simp add: b64_def BASE64_CHARS_def b64Alphabet_def)

lemma decoder_sextets:
  assumes "b0 < 256" "b1 < 256" "b2 < (256 :: nat)"
  shows "drop_bit 2 b0 = b0 div 4" "push_bit 4 (b0 AND 3) OR drop_bit 4 b1 = b0 mod 4 * 16 + b1 div 16"
    "push_bit 2 (b1 AND 15) OR drop_bit 6 b2 = b1 mod 16 * 4 + b2 div 64" "b2 AND 63 = b2 mod 64"
    "push_bit 4 (b0 AND 3) = b0 mod 4 * 16" "push_bit 2 (b1 AND 15) = b1 mod 16 * 4"
proof -
  have s: "b1 div 16 < 2 ^ 4" "b2 div 64 < 2 ^ 2" using assms by (simp_all add: div_less_iff_less_mult)
  have p: "(2::nat) ^ 2 = 4" "(2::nat) ^ 4 = 16" "(2::nat) ^ 6 = 64" by simp_all
  show "push_bit 4 (b0 AND 3) OR drop_bit 4 b1 = b0 mod 4 * 16 + b1 div 16"
    using or_small [OF s(1), of "b0 mod 4"] by (simp only: and_masks shift_right_nat p)
  show "push_bit 2 (b1 AND 15) OR drop_bit 6 b2 = b1 mod 16 * 4 + b2 div 64"
    using or_small [OF s(2), of "b1 mod 16"] by (simp only: and_masks shift_right_nat p)
qed (simp_all add: bits_arith)

theorem decoder_base64_agrees:
  assumes "is_bytes bs"
  shows "encodeBase64 bs = b64_encode False False bs"
  using assms
proof (induction bs rule: encodeBase64.induct)
  case (1 b0 b1 b2 bs)
  then have b: "b0 < 256" "b1 < 256" "b2 < 256" "is_bytes bs" by (simp_all add: is_bytes_def)
  show ?case
    unfolding b64_encode_chunks(1) [OF b(1-3)] encodeBase64.simps decoder_sextets(1-4) [OF b(1-3)] base64_alphabets 1(1) [OF b(4)] by simp
next
  case (2 b0 b1)
  then have b: "b0 < 256" "b1 < 256" "(0::nat) < 256" by (simp_all add: is_bytes_def)
  show ?case
    unfolding b64_encode_chunks(2) [OF b(1,2)] encodeBase64.simps decoder_sextets(1,2,6) [OF b] base64_alphabets by (simp add: pad_def)
next
  case (3 b0)
  then have b: "b0 < 256" "(0::nat) < 256" by (simp_all add: is_bytes_def)
  show ?case
    unfolding b64_encode_chunks(3) [OF b(1)] encodeBase64.simps decoder_sextets(1,5) [OF b(1,2,2)] base64_alphabets
    by (simp add: pad_def numeral_2_eq_2)
qed simp

theorem base64_strict_exact_witness:
  "decodeBase64 False Strict (js ''AQI='') = Inr ([1, 2], 4)"
proof -
  have "js ''AQI='' = b64_encode False False [1, 2]"
    by (simp add: b64_encode_chunks pad_def b64Alphabet_def del: b64_encode.simps)
  then show ?thesis using base64_strict_exact [of "js ''AQI=''" False "[1, 2]" 4] by (simp add: is_bytes_def AB_ALLOC_LIMIT_def)
qed

theorem base64_roundtrip_witness: "decodeBase64 False Loose (js '' AQ I'') = Inr ([1, 2], 5)"
proof -
  have "b64_encode False True [1, 2] = js ''AQI''"
    by (simp add: b64_encode_chunks pad_def b64Alphabet_def del: b64_encode.simps)
  then show ?thesis
    using base64_roundtrip [of "[1, 2]" "js '' AQ I''" False True Loose]
    by (simp add: is_bytes_def AB_ALLOC_LIMIT_def isAsciiWsCode_def del: b64_encode.simps)
qed

theorem hex_exact_witness: "decodeHex (js ''0aFF'') = Inr [10, 255]"
proof -
  have "encodeHex [10, 255] = map hex_lower (js ''0aFF'')" by code_simp
  then show ?thesis using hex_exact [of "js ''0aFF''" "[10, 255]"] by (simp add: is_bytes_def AB_ALLOC_LIMIT_def)
qed

theorem decoder_base64_agrees_witness: "encodeBase64 [1, 2] = b64_encode False False [1, 2]"
  by (rule decoder_base64_agrees) (simp add: is_bytes_def)

lemma u8_bytes_view: "u8_bytes (bytes_view 4) (bytes_buffer [7, 8, 9, 9]) = [7, 8, 9, 9]"
proof -
  have "map int (u8_bytes (bytes_view 4) (bytes_buffer [7, 8, 9, 9])) = map int [7, 8, 9, 9]"
    using u8_bytes_elems [of "bytes_view 4" "bytes_buffer [7, 8, 9, 9]"] by (simp add: bytes_view_elems bytes_view_valid)
  then show ?thesis by (rule map_injective) simp
qed

theorem base64_of_arrays_witness:
  "\<exists>w c. fromBase64 (False, Loose, False) (js ''BwgJCQ=='') = Inr (w, c) \<and> elems w c = [7, 8, 9, 9]"
proof -
  have e: "b64_encode False False [7, 8, 9, 9] = js ''BwgJCQ==''"
    by (simp add: b64_encode_chunks pad_def b64Alphabet_def numeral_2_eq_2 del: b64_encode.simps)
  have "\<not> ab_detached (bytes_buffer m)" for m by (simp add: bytes_buffer_def)
  then have "toBase64 (False, Loose, False) (bytes_view 4) (bytes_buffer [7, 8, 9, 9]) = Inr (js ''BwgJCQ=='')"
    by (simp add: toBase64_def u8_ready_def bytes_view_valid u8_bytes_view e del: b64_encode.simps)
  from base64_of_arrays [OF this] show ?thesis by (simp add: bytes_view_elems AB_ALLOC_LIMIT_def)
qed

section \<open>Where the code departs from its comments and the language\<close>

text \<open>The language ignores white space in every mode; here \<open>strict\<close> refuses it.\<close>

lemma strict_white_space: "decodeBase64 False Strict (js '' AQI='') = Inl (SyntaxError ''Invalid base64 character'')"
proof -
  have "b64_loop False Strict (js '' AQI='') 0 [] = Inl (SyntaxError ''Invalid base64 character'')" by code_simp
  then show ?thesis by (simp add: decodeBase64_def checkAllocLimit_def AB_ALLOC_LIMIT_def)
qed

text \<open>A target that is too short: all of the text counts as read, and part of a chunk is written.\<close>

definition set_counts :: "chunk_handling \<Rightarrow> jsstr \<Rightarrow> nat \<Rightarrow> (nat \<times> nat) result" where
  "set_counts h s n =
     bind_result (setFromBase64 (False, h, False) s (bytes_view n) (bytes_buffer (replicate n 0))) (\<lambda>(read, written, _).
       Inr (read, written))"

lemma bytes_view_fits: "\<not> taIsOutOfBounds (bytes_view n) (bytes_buffer (replicate n 0))" "taLength (bytes_view n) (bytes_buffer (replicate n 0)) = n"
  "\<not> ab_detached (bytes_buffer m)"
  by (simp_all add: bytes_view_def bytes_buffer_def taIsOutOfBounds_def taLength_def)

lemma set_counts_eq:
  assumes "decodeBase64 False h s = Inr (bs, read)"
  shows "set_counts h s n =
    (let w = min (length bs) n; need = w div 3 * 4 + (if w mod 3 = 1 then 2 else if w mod 3 = 2 then 3 else 0)
     in Inr (if w < length bs \<and> h = StopBeforePartial \<and> need < read then need else read, w))"
  by (simp only: set_counts_def setFromBase64_def u8_writable_def bytes_view_valid bytes_view_fits assms Let_def prod.case
      bind_result_simps simp_thms if_True if_False not_True_eq_False not_False_eq_True)

lemma decode_loose:
  assumes "b64_loop False h (fst (b64StripWs s)) 0 [] = Inr (bs, i, e)" "\<not> (\<not> e \<and> i < length (fst (b64StripWs s)))"
    "length (fst (b64StripWs s)) * 3 div 4 + 3 \<le> AB_ALLOC_LIMIT" "h \<noteq> Strict"
  shows "decodeBase64 False h s = Inr (bs, b64_read s (Some (snd (b64StripWs s))) i e)"
  using assms by (cases "b64StripWs s") (simp add: decodeBase64_def checkAllocLimit_def)

lemma truncated_loose: "set_counts Loose (js ''Zm9vYmFy'') 3 = Inr (8, 3)" "set_counts Loose (js ''Zm9vYmFy'') 2 = Inr (8, 2)"
proof -
  have "b64_loop False Loose (fst (b64StripWs (js ''Zm9vYmFy''))) 0 [] = Inr ([102, 111, 111, 98, 97, 114], 8, False)" by code_simp
  moreover have "b64_read (js ''Zm9vYmFy'') (Some (snd (b64StripWs (js ''Zm9vYmFy'')))) 8 False = 8"
    "length (fst (b64StripWs (js ''Zm9vYmFy''))) = 8" by code_simp+
  ultimately have d: "decodeBase64 False Loose (js ''Zm9vYmFy'') = Inr ([102, 111, 111, 98, 97, 114], 8)"
    using decode_loose [of Loose "js ''Zm9vYmFy''" _ 8 False] by (simp add: AB_ALLOC_LIMIT_def)
  show "set_counts Loose (js ''Zm9vYmFy'') 3 = Inr (8, 3)" "set_counts Loose (js ''Zm9vYmFy'') 2 = Inr (8, 2)"
    using set_counts_eq [OF d, of 3] set_counts_eq [OF d, of 2] by simp_all
qed

text \<open>With white space, the four characters said to be read do not give the three bytes written.\<close>

lemma truncated_white_space: "set_counts StopBeforePartial (js ''Zm  9vYmFy'') 3 = Inr (4, 3)"
proof -
  let ?s = "js ''Zm  9vYmFy''"
  have "b64_loop False StopBeforePartial (fst (b64StripWs ?s)) 0 [] = Inr ([102, 111, 111, 98, 97, 114], 8, False)" by code_simp
  moreover have "b64_read ?s (Some (snd (b64StripWs ?s))) 8 False = 10" "length (fst (b64StripWs ?s)) = 8" by code_simp+
  ultimately have d: "decodeBase64 False StopBeforePartial ?s = Inr ([102, 111, 111, 98, 97, 114], 10)"
    using decode_loose [of StopBeforePartial ?s _ 8 False] by (simp add: AB_ALLOC_LIMIT_def)
  show ?thesis using set_counts_eq [OF d, of 3] by simp
qed

end
