(* ===== verification/BufferText.thy ===== *)
theory BufferText
  imports Base64
begin

text \<open>
  \<open>buffer.js\<close>: the encodings of \<open>Buffer\<close>, from strings to bytes and back. The hooks by which the engine may
  replace the loops with native code are taken to be absent, as the module allows; \<open>__buf.setByte\<close> and
  \<open>__buf.copy\<close> are there. A range of a string may reach over its end: there \<open>charCodeAt\<close> is \<open>NaN\<close>, here \<open>None\<close>.
\<close>

section \<open>Names of encodings\<close>

definition K_MAX_LENGTH :: int where "K_MAX_LENGTH = 0x7fffffff"

definition K_STRING_MAX_LENGTH :: int where "K_STRING_MAX_LENGTH = 0x3fffffff"

datatype buf_enc = BUtf8 | BHex | BBase64 | BBase64url | BLatin1 | BUtf16le

text \<open>The result is \<open>None\<close> for an unknown name; an argument \<open>None\<close> is \<open>undefined\<close> or \<open>null\<close>.\<close>

definition normalizeEnc :: "jsstr option \<Rightarrow> buf_enc option" where
  "normalizeEnc enc =
     (case enc of
        None \<Rightarrow> Some BUtf8
      | Some n \<Rightarrow>
          if n = [] then Some BUtf8
          else let e = to_lower n
          in if e = js ''utf-8'' \<or> e = js ''utf8'' then Some BUtf8
             else if e = js ''hex'' then Some BHex
             else if e = js ''base64'' then Some BBase64
             else if e = js ''base64url'' then Some BBase64url
             else if e = js ''ascii'' \<or> e = js ''latin1'' \<or> e = js ''binary'' then Some BLatin1
             else if e = js ''ucs2'' \<or> e = js ''ucs-2'' \<or> e = js ''utf16le'' \<or> e = js ''utf-16le'' then Some BUtf16le
             else None)"

definition encodingError :: js_error where
  "encodingError = CodedError ''ERR_UNKNOWN_ENCODING''"

definition stringTooLong :: js_error where
  "stringTooLong = CodedError ''ERR_STRING_TOO_LONG''"

section \<open>UTF-8\<close>

text \<open>Code units from \<open>start\<close> up to \<open>end\<close>, whether or not the string has them.\<close>

definition units :: "jsstr \<Rightarrow> nat \<Rightarrow> nat \<Rightarrow> nat option list" where
  "units s start fin = map (\<lambda>i. if i < length s then Some (s ! i) else None) [start..<fin]"

definition is_high :: "nat option \<Rightarrow> bool" where
  "is_high c = (case c of None \<Rightarrow> False | Some u \<Rightarrow> 0xd800 \<le> u \<and> u \<le> 0xdbff)"

definition is_low :: "nat option \<Rightarrow> bool" where
  "is_low c = (case c of None \<Rightarrow> False | Some u \<Rightarrow> 0xdc00 \<le> u \<and> u \<le> 0xdfff)"

definition unit_length :: "nat option \<Rightarrow> nat" where
  "unit_length c = (case c of None \<Rightarrow> 3 | Some u \<Rightarrow> if u < 0x80 then 1 else if u < 0x800 then 2 else 3)"

fun utf8ByteLengthRange :: "nat option list \<Rightarrow> nat" where
  "utf8ByteLengthRange [] = 0"
| "utf8ByteLengthRange [c] = unit_length c"
| "utf8ByteLengthRange (c # lo # s) =
     (if is_high c \<and> is_low lo then 4 + utf8ByteLengthRange s else unit_length c + utf8ByteLengthRange (lo # s))"

definition buf_utf8ByteLength :: "jsstr \<Rightarrow> nat" where
  "buf_utf8ByteLength s = utf8ByteLengthRange (units s 0 (length s))"

definition put3 :: "nat \<Rightarrow> bytes" where
  "put3 c = [(drop_bit 12 c AND 0x0f) OR 0xe0, (drop_bit 6 c AND 0x3f) OR 0x80, (c AND 0x3f) OR 0x80]"

definition put_unit :: "nat option \<Rightarrow> bytes" where
  "put_unit c =
     (case c of
        None \<Rightarrow> put3 0
      | Some u \<Rightarrow>
          if u < 0x80 then [u]
          else if u < 0x800 then [(drop_bit 6 u AND 0x1f) OR 0xc0, (u AND 0x3f) OR 0x80]
          else put3 u)"

definition put_pair :: "nat \<Rightarrow> nat \<Rightarrow> bytes" where
  "put_pair c lo =
     (let cp = 0x10000 + push_bit 10 (c - 0xd800) + (lo - 0xdc00)
      in [(drop_bit 18 cp AND 0x07) OR 0xf0, (drop_bit 12 cp AND 0x3f) OR 0x80, (drop_bit 6 cp AND 0x3f) OR 0x80,
          (cp AND 0x3f) OR 0x80])"

fun writeUtf8IntoRange :: "nat option list \<Rightarrow> bytes" where
  "writeUtf8IntoRange [] = []"
| "writeUtf8IntoRange [c] = put_unit c"
| "writeUtf8IntoRange (c # lo # s) =
     (if is_high c \<and> is_low lo then put_pair (the c) (the lo) @ writeUtf8IntoRange s
      else put_unit c @ writeUtf8IntoRange (lo # s))"

definition encodeUtf8 :: "jsstr \<Rightarrow> bytes result" where
  "encodeUtf8 s =
     (if K_STRING_MAX_LENGTH < int (length s) then Inl stringTooLong
      else Inr (writeUtf8IntoRange (units s 0 (length s))))"

definition put_utf16 :: "nat option \<Rightarrow> bytes" where
  "put_utf16 c = (case c of None \<Rightarrow> [0, 0] | Some u \<Rightarrow> [u AND 0xff, drop_bit 8 u AND 0xff])"

definition encodeUtf16le :: "jsstr \<Rightarrow> bytes result" where
  "encodeUtf16le s =
     (if K_STRING_MAX_LENGTH < int (length s) then Inl stringTooLong
      else Inr (concat (map (put_utf16 \<circ> Some) s)))"

definition put_latin1 :: "nat option \<Rightarrow> nat" where
  "put_latin1 c = (case c of None \<Rightarrow> 0 | Some u \<Rightarrow> u AND 0xff)"

definition encodeLatin1Raw :: "jsstr \<Rightarrow> bytes result" where
  "encodeLatin1Raw s =
     (if K_STRING_MAX_LENGTH < int (length s) then Inl stringTooLong else Inr (map (put_latin1 \<circ> Some) s))"

section \<open>Long strings in pieces\<close>

definition BUF_ENCODE_CHUNK :: nat where "BUF_ENCODE_CHUNK = 32768"

definition chunk_end :: "nat \<Rightarrow> jsstr \<Rightarrow> nat \<Rightarrow> nat" where
  "chunk_end chunk s i =
     (let fin = i + chunk;
          fin = (if fin < length s \<and> is_high (Some (s ! (fin - 1))) then fin - 1 else fin)
      in if fin \<le> i then i + 1 else fin)"

definition encode_piece :: "buf_enc \<Rightarrow> jsstr \<Rightarrow> nat \<Rightarrow> nat \<Rightarrow> bytes" where
  "encode_piece enc s i fin =
     (case enc of
        BLatin1 \<Rightarrow> map put_latin1 (units s i fin)
      | BUtf16le \<Rightarrow> concat (map put_utf16 (units s i fin))
      | _ \<Rightarrow> writeUtf8IntoRange (units s i fin))"

lemma chunk_end_less [termination_simp]: "i < chunk_end chunk s i"
  by (auto simp: chunk_end_def Let_def)

function chunk_pieces :: "buf_enc \<Rightarrow> nat \<Rightarrow> jsstr \<Rightarrow> nat \<Rightarrow> bytes list" where
  "chunk_pieces enc chunk s i =
     (if i < length s
      then encode_piece enc s i (chunk_end chunk s i) # chunk_pieces enc chunk s (chunk_end chunk s i)
      else [])"
  by pat_completeness auto
termination
  by (relation "measure (\<lambda>(enc, chunk, s, i). length s - i)") (auto intro: diff_less_mono2 chunk_end_less)

declare chunk_pieces.simps [simp del]

definition bufferFromStringChunked :: "jsstr \<Rightarrow> buf_enc \<Rightarrow> bytes" where
  "bufferFromStringChunked s enc = concat (chunk_pieces enc BUF_ENCODE_CHUNK s 0)"

section \<open>Hexadecimal and base64, taken leniently\<close>

fun hexToBytes :: "jsstr \<Rightarrow> bytes" where
  "hexToBytes (c # d # s) =
     (case (hex_value c, hex_value d) of
        (Some hi, Some lo) \<Rightarrow> (push_bit 4 hi OR lo) # hexToBytes s
      | _ \<Rightarrow> [])"
| "hexToBytes _ = []"

text \<open>Characters outside the alphabet count as the first letter.\<close>

definition b64Val :: "nat \<Rightarrow> nat" where
  "b64Val c = (case index_of c BASE64_CHARS of None \<Rightarrow> 0 | Some i \<Rightarrow> i)"

definition b64_clean :: "bool \<Rightarrow> jsstr \<Rightarrow> jsstr" where
  "b64_clean urlSafe s =
     map (\<lambda>ch. if urlSafe \<and> ch = 45 then 43 else if urlSafe \<and> ch = 95 then 47 else ch)
       (filter (\<lambda>ch. ch \<noteq> 61 \<and> ch \<noteq> 32 \<and> ch \<noteq> 10 \<and> ch \<noteq> 13 \<and> ch \<noteq> 9) s)"

fun b64_groups :: "jsstr \<Rightarrow> bytes" where
  "b64_groups [] = []"
| "b64_groups [a] = [push_bit 2 (b64Val a) OR drop_bit 4 0]"
| "b64_groups [a, b] = [push_bit 2 (b64Val a) OR drop_bit 4 (b64Val b)]"
| "b64_groups [a, b, c] =
     [push_bit 2 (b64Val a) OR drop_bit 4 (b64Val b), push_bit 4 (b64Val b AND 0x0f) OR drop_bit 2 (b64Val c)]"
| "b64_groups (a # b # c # d # s) =
     [push_bit 2 (b64Val a) OR drop_bit 4 (b64Val b), push_bit 4 (b64Val b AND 0x0f) OR drop_bit 2 (b64Val c),
      push_bit 6 (b64Val c AND 0x03) OR b64Val d] @ b64_groups s"

definition base64ToBytes :: "jsstr \<Rightarrow> bool \<Rightarrow> bytes" where
  "base64ToBytes s urlSafe = b64_groups (b64_clean urlSafe s)"

definition strToBytes :: "jsstr \<Rightarrow> jsstr option \<Rightarrow> bytes result" where
  "strToBytes s enc =
     (case normalizeEnc enc of
        None \<Rightarrow> Inl encodingError
      | Some BUtf8 \<Rightarrow> encodeUtf8 s
      | Some BUtf16le \<Rightarrow> encodeUtf16le s
      | Some BHex \<Rightarrow> Inr (hexToBytes s)
      | Some BBase64 \<Rightarrow> Inr (base64ToBytes s False)
      | Some BBase64url \<Rightarrow> Inr (base64ToBytes s True)
      | Some BLatin1 \<Rightarrow> encodeLatin1Raw s)"

section \<open>From bytes to strings\<close>

fun buf_decodeUtf8 :: "bytes \<Rightarrow> jsstr" where
  "buf_decodeUtf8 [] = []"
| "buf_decodeUtf8 (b0 # bs) =
     (if b0 < 0x80 then from_char_code b0 # buf_decodeUtf8 bs
      else if b0 AND 0xe0 = 0xc0 \<and> 1 \<le> length bs
      then from_char_code (push_bit 6 (b0 AND 0x1f) OR (bs ! 0 AND 0x3f)) # buf_decodeUtf8 (drop 1 bs)
      else if b0 AND 0xf0 = 0xe0 \<and> 2 \<le> length bs
      then from_char_code ((push_bit 12 (b0 AND 0x0f) OR push_bit 6 (bs ! 0 AND 0x3f)) OR (bs ! 1 AND 0x3f)) #
           buf_decodeUtf8 (drop 2 bs)
      else if b0 AND 0xf8 = 0xf0 \<and> 3 \<le> length bs
      then surrogates_int
             (int (((push_bit 18 (b0 AND 0x07) OR push_bit 12 (bs ! 0 AND 0x3f)) OR push_bit 6 (bs ! 1 AND 0x3f)) OR
               (bs ! 2 AND 0x3f)) - 0x10000) @ buf_decodeUtf8 (drop 3 bs)
      else 0xfffd # buf_decodeUtf8 bs)"

definition hexText :: "bytes \<Rightarrow> jsstr" where
  "hexText bs = concat (map (\<lambda>b. [HEX_CHARS ! drop_bit 4 b, HEX_CHARS ! (b AND 0x0f)]) bs)"

fun base64Text :: "bool \<Rightarrow> bytes \<Rightarrow> jsstr" where
  "base64Text urlSafe (b0 # b1 # b2 # bs) =
     (let tbl = (!) (b64Alphabet urlSafe)
      in [tbl (drop_bit 2 b0), tbl (push_bit 4 (b0 AND 0x03) OR drop_bit 4 b1),
          tbl (push_bit 2 (b1 AND 0x0f) OR drop_bit 6 b2), tbl (b2 AND 0x3f)] @ base64Text urlSafe bs)"
| "base64Text urlSafe [b0, b1] =
     (let tbl = (!) (b64Alphabet urlSafe)
      in [tbl (drop_bit 2 b0), tbl (push_bit 4 (b0 AND 0x03) OR drop_bit 4 b1), tbl (push_bit 2 (b1 AND 0x0f) OR drop_bit 6 0)] @
         (if urlSafe then [] else [61]))"
| "base64Text urlSafe [b0] =
     (let tbl = (!) (b64Alphabet urlSafe)
      in [tbl (drop_bit 2 b0), tbl (push_bit 4 (b0 AND 0x03) OR drop_bit 4 0)] @ (if urlSafe then [] else [61] @ [61]))"
| "base64Text urlSafe [] = []"

definition decodeLatin1 :: "bytes \<Rightarrow> jsstr" where
  "decodeLatin1 bs = map from_char_code bs"

definition bytesToStr :: "bytes \<Rightarrow> jsstr option \<Rightarrow> jsstr result" where
  "bytesToStr bs enc =
     (case normalizeEnc enc of
        None \<Rightarrow> Inl encodingError
      | Some BUtf8 \<Rightarrow> Inr (buf_decodeUtf8 bs)
      | Some BHex \<Rightarrow> Inr (hexText bs)
      | Some BBase64 \<Rightarrow> Inr (base64Text False bs)
      | Some BBase64url \<Rightarrow> Inr (base64Text True bs)
      | Some _ \<Rightarrow> Inr (decodeLatin1 bs))"

definition buf_byteLength :: "jsstr \<Rightarrow> jsstr option \<Rightarrow> nat result" where
  "buf_byteLength s enc =
     (case normalizeEnc enc of
        None \<Rightarrow> Inr (buf_utf8ByteLength s)
      | Some BUtf8 \<Rightarrow> Inr (buf_utf8ByteLength s)
      | Some BUtf16le \<Rightarrow> Inr (length s * 2)
      | Some BLatin1 \<Rightarrow> Inr (length s)
      | Some BHex \<Rightarrow> Inr (length (hexToBytes s))
      | _ \<Rightarrow> bind_result (strToBytes s enc) (\<lambda>bs. Inr (length bs)))"

section \<open>Checks of bytes\<close>

fun isUtf8 :: "bytes \<Rightarrow> bool" where
  "isUtf8 [] = True"
| "isUtf8 (b0 # bs) =
     (if b0 < 0x80 then isUtf8 bs
      else if b0 AND 0xe0 = 0xc0
      then (if length bs < 1 \<or> bs ! 0 AND 0xc0 \<noteq> 0x80 then False else isUtf8 (drop 1 bs))
      else if b0 AND 0xf0 = 0xe0
      then (if length bs < 2 \<or> bs ! 0 AND 0xc0 \<noteq> 0x80 \<or> bs ! 1 AND 0xc0 \<noteq> 0x80 then False else isUtf8 (drop 2 bs))
      else if b0 AND 0xf8 = 0xf0
      then (if length bs < 3 \<or> bs ! 0 AND 0xc0 \<noteq> 0x80 \<or> bs ! 1 AND 0xc0 \<noteq> 0x80 \<or> bs ! 2 AND 0xc0 \<noteq> 0x80 then False
            else isUtf8 (drop 3 bs))
      else False)"

definition isAscii :: "bytes \<Rightarrow> bool" where
  "isAscii bs \<longleftrightarrow> list_all (\<lambda>b. b \<le> 0x7f) bs"

section \<open>Encoding against the text encoder\<close>

lemma units_all [simp]: "units s 0 (length s) = map Some s"
  by (auto simp: units_def intro: nth_equalityI)

lemma length_utf8: "length (writeUtf8IntoRange us) = utf8ByteLengthRange us"
  by (induction us rule: writeUtf8IntoRange.induct)
    (auto simp: put_unit_def unit_length_def put3_def put_pair_def Let_def split: option.splits)

lemma put_unit_utf8: "c < 65536 \<Longrightarrow> put_unit (Some c) = utf8_bytes c"
proof -
  assume c: "c < 65536"
  have m: "x AND 0x1f = x mod 32" "x AND 0x0f = x mod 16" "x AND 0x3f = x mod 64" for x :: nat
    using take_bit_eq_mask [of 5 x] take_bit_eq_mask [of 4 x] take_bit_eq_mask [of 6 x]
    by (simp_all add: take_bit_eq_mod mask_eq_exp_minus_1)
  have "c < 2048 \<Longrightarrow> c div 64 mod 32 = c div 64" "c div 4096 mod 16 = c div 4096" using c by (auto simp: div_less_iff_less_mult)
  then show ?thesis by (simp add: put_unit_def put3_def utf8_bytes_def m bits_arith or.commute)
qed

lemma put_pair_utf8:
  assumes "0xd800 \<le> c" "c \<le> 0xdbff" "0xdc00 \<le> lo" "lo \<le> 0xdfff"
  shows "put_pair c lo = utf8_bytes (0x10000 + push_bit 10 (c - 0xd800) + (lo - 0xdc00))"
proof -
  define cp where "cp = 0x10000 + push_bit 10 (c - 0xd800) + (lo - 0xdc00)"
  have cp: "0x10000 \<le> cp" "cp < 0x110000" using assms by (auto simp: cp_def push_bit_eq_mult)
  have m: "x AND 0x07 = x mod 8" for x :: nat
    using take_bit_eq_mask [of 3 x] by (simp add: take_bit_eq_mod mask_eq_exp_minus_1)
  have "cp div 262144 mod 8 = cp div 262144" using cp by (auto simp: div_less_iff_less_mult)
  then show ?thesis
    unfolding put_pair_def cp_def [symmetric] Let_def using cp by (simp add: utf8_bytes_def m bits_arith or.commute)
qed

lemma write_utf8: "is_jsstr s \<Longrightarrow> writeUtf8IntoRange (map Some s) = utf8EncodeString s"
  by (induction s rule: utf8EncodeString.induct)
    (auto simp: is_high_def is_low_def put_unit_utf8 put_pair_utf8)

lemma encodeUtf8_text:
  "is_jsstr s \<Longrightarrow> int (length s) \<le> K_STRING_MAX_LENGTH \<Longrightarrow> encodeUtf8 s = Inr (utf8EncodeString s)"
  by (simp add: encodeUtf8_def write_utf8)

section \<open>Decoding\<close>

lemma buf_decodeUtf8_eq: "buf_decodeUtf8 bs = decodeUtf8 bs"
  by (induction bs rule: buf_decodeUtf8.induct) (simp_all add: join2_def join3_def join4_def)

lemma hexText_eq: "hexText bs = encodeHex bs"
  by (induction bs) (simp_all add: hexText_def HEX_CHARS_def hexChars_def)

lemma base64Text_eq: "is_bytes bs \<Longrightarrow> base64Text url bs = b64_encode url url bs"
proof (induction url bs rule: base64Text.induct)
  case (1 url b0 b1 b2 bs)
  then have b: "b0 < 256" "b1 < 256" "b2 < 256" "is_bytes bs" by simp_all
  show ?case
    unfolding b64_encode_chunks(1) [OF b(1-3)] base64Text.simps decoder_sextets(1-4) [OF b(1-3)] 1(1) [OF refl b(4)] by (simp add: Let_def)
next
  case (2 url b0 b1)
  then have b: "b0 < 256" "b1 < 256" "(0::nat) < 256" by simp_all
  show ?case
    unfolding b64_encode_chunks(2) [OF b(1,2)] base64Text.simps decoder_sextets(1-3) [OF b] by (simp add: pad_def Let_def)
next
  case (3 url b0)
  then have b: "b0 < 256" "(0::nat) < 256" by simp_all
  show ?case
    unfolding b64_encode_chunks(3) [OF b(1)] base64Text.simps decoder_sextets(1,2) [OF b(1,2,2)]
    by (simp add: pad_def numeral_2_eq_2 Let_def)
qed simp

section \<open>Round trips\<close>

lemma utf8_text_roundtrip: "is_jsstr s \<Longrightarrow> buf_decodeUtf8 (utf8EncodeString s) = s"
  by (simp add: buf_decodeUtf8_eq utf8Encode_code_points decodeUtf8_code_points ucs2_roundtrip code_points_def ucs2decode_bound)

lemma hexToBytes_text: "is_bytes bs \<Longrightarrow> hexToBytes (hexText bs) = bs"
proof (induction bs)
  case (Cons b bs)
  then have "b div 16 < 16" "b mod 16 < 16" "is_bytes bs" by (simp_all add: div_less_iff_less_mult)
  moreover have "push_bit 4 (b div 16) OR b mod 16 = b"
    using or_small [of "b mod 16" 4 "b div 16"] by simp
  ultimately show ?case using Cons.IH by (simp add: hexText_eq bits_arith hex_chars)
qed (simp add: hexText_def)

lemma b64Val_letter:
  assumes "v < 64"
  shows "b64Val (b64Alphabet False ! v) = v"
proof -
  have "list_all (\<lambda>v. b64Val (b64Alphabet False ! v) = v) [0..<64]" by code_simp
  then show ?thesis using assms by (simp add: list_all_iff)
qed

text \<open>Letters of either alphabet become letters of the first one; padding is dropped.\<close>

definition plain_letter :: "bool \<Rightarrow> nat \<Rightarrow> nat" where
  "plain_letter urlSafe ch = (if urlSafe \<and> ch = 45 then 43 else if urlSafe \<and> ch = 95 then 47 else ch)"

lemma plain_alphabet: "map (plain_letter url) (b64Alphabet url) = b64Alphabet False"
  by (cases url) (simp_all add: plain_letter_def b64Alphabet_def)

lemma alphabet_kept: "list_all (\<lambda>ch. ch \<noteq> 61 \<and> ch \<noteq> 32 \<and> ch \<noteq> 10 \<and> ch \<noteq> 13 \<and> ch \<noteq> 9) (b64Alphabet url)"
  by (cases url) (simp_all add: b64Alphabet_def)

lemma clean_letters:
  assumes "list_all (\<lambda>v. v < 64) vs"
  shows "b64_clean url (letters url vs @ pad omit n) = letters False vs"
proof -
  let ?keep = "\<lambda>ch::nat. ch \<noteq> 61 \<and> ch \<noteq> 32 \<and> ch \<noteq> 10 \<and> ch \<noteq> 13 \<and> ch \<noteq> 9"
  have "?keep (b64Alphabet url ! v)" if "v < 64" for v
    using alphabet_kept [of url] that by (simp add: list_all_length alphabet_facts)
  then have "filter ?keep (letters url vs @ pad omit n) = letters url vs"
    using assms by (auto simp: filter_id_conv list_all_iff pad_def)
  moreover have "plain_letter url (b64Alphabet url ! v) = b64Alphabet False ! v" if "v < 64" for v
    using arg_cong [OF plain_alphabet [of url], of "\<lambda>xs. xs ! v"] that by (simp add: alphabet_facts)
  ultimately show ?thesis
    using assms unfolding b64_clean_def plain_letter_def by (simp add: list_all_iff)
qed

lemma clean_append: "b64_clean url (xs @ ys) = b64_clean url xs @ b64_clean url ys"
  by (simp add: b64_clean_def)

lemma clean_only_letters: "list_all (\<lambda>v. v < 64) vs \<Longrightarrow> b64_clean url (letters url vs) = letters False vs"
  using clean_letters [of vs url True 0] by (simp add: pad_def)

lemma group_bytes:
  assumes "v0 < 64" "v1 < 64" "v2 < 64" "v3 < 64"
  shows "push_bit 2 v0 OR drop_bit 4 v1 = byte1 v0 v1" "push_bit 4 (v1 AND 0x0f) OR drop_bit 2 v2 = byte2 v1 v2"
    "push_bit 6 (v2 AND 0x03) OR v3 = byte3 v2 v3"
proof -
  have d: "v1 div 16 < 2 ^ 2" "v2 div 4 < 2 ^ 4" "v3 < 2 ^ 6" using assms by (simp_all add: div_less_iff_less_mult)
  have p: "(2::nat) ^ 2 = 4" "(2::nat) ^ 4 = 16" "(2::nat) ^ 6 = 64" by simp_all
  note b = bytes_of_sextets [OF assms]
  show "push_bit 2 v0 OR drop_bit 4 v1 = byte1 v0 v1"
    using or_small [OF d(1), of v0] by (simp only: b shift_right_nat p)
  show "push_bit 4 (v1 AND 0x0f) OR drop_bit 2 v2 = byte2 v1 v2"
    using or_small [OF d(2), of "v1 mod 16"] by (simp only: b shift_right_nat p and_masks)
  show "push_bit 6 (v2 AND 0x03) OR v3 = byte3 v2 v3"
    using or_small [OF d(3), of "v2 mod 4"] by (simp only: b p and_masks)
qed

lemma groups_of_letters:
  assumes "v0 < 64" "v1 < 64" "v2 < 64"
  shows "v3 < 64 \<Longrightarrow> b64_groups (letters False [v0, v1, v2, v3] @ s) = [byte1 v0 v1, byte2 v1 v2, byte3 v2 v3] @ b64_groups s"
    "b64_groups (letters False [v0, v1, v2]) = [byte1 v0 v1, byte2 v1 v2]"
    "b64_groups (letters False [v0, v1]) = [byte1 v0 v1]"
  using group_bytes [OF assms] group_bytes [OF assms, of 0] assms by (simp_all add: b64Val_letter)

lemma base64_groups_encode:
  "is_bytes bs \<Longrightarrow> b64_groups (b64_clean url (b64_encode url omit bs)) = bs"
proof (induction url omit bs rule: b64_encode.induct)
  case (1 url omit b0 b1 b2 bs)
  then have b: "b0 < 256" "b1 < 256" "b2 < 256" "is_bytes bs" by simp_all
  note r = sextet_range [OF b(1-3)]
  show ?case
    unfolding b64_encode_chunks(1) [OF b(1-3)] clean_append
    using groups_of_letters(1) [OF r(1-4)] regroup(1-3) [OF b(1-3)] 1(1) [OF refl b(4)] r
    by (subst clean_only_letters) (simp_all del: b64_groups.simps)
next
  case (2 url omit b0 b1)
  then have b: "b0 < 256" "b1 < 256" "(0::nat) < 256" by simp_all
  note r = sextet_range [OF b]
  show ?case
    unfolding b64_encode_chunks(2) [OF b(1,2)]
    using groups_of_letters(2) [OF r(1,2,6)] regroup(1,5) [OF b] r by (subst clean_letters) (simp_all del: b64_groups.simps)
next
  case (3 url omit b0)
  then have b: "b0 < 256" "(0::nat) < 256" by simp_all
  note r = sextet_range [OF b(1,2,2)]
  show ?case
    unfolding b64_encode_chunks(3) [OF b(1)]
    using groups_of_letters(3) [OF r(1,5,1)] regroup(4) [OF b(1,2,2)] r by (subst clean_letters) (simp_all del: b64_groups.simps)
qed (simp add: b64_clean_def)

lemma base64_text_roundtrip: "is_bytes bs \<Longrightarrow> base64ToBytes (base64Text url bs) url = bs"
  by (simp add: base64ToBytes_def base64Text_eq base64_groups_encode)

lemma byteLength_exact: "strToBytes s enc = Inr bs \<Longrightarrow> buf_byteLength s enc = Inr (length bs)"
  by (auto simp: strToBytes_def buf_byteLength_def buf_utf8ByteLength_def encodeUtf8_def encodeUtf16le_def encodeLatin1Raw_def
      length_utf8 put_utf16_def length_concat sum_list_triv comp_def split: option.splits buf_enc.splits if_splits)

lemma cont_mask: "is_cont b \<longleftrightarrow> b AND 0xc0 = 0x80"
  by (simp add: is_cont_def)

lemma isUtf8_code_point: "c < 0x110000 \<Longrightarrow> isUtf8 (utf8_bytes c @ bs) = isUtf8 bs"
proof -
  assume "c < 0x110000"
  then show ?thesis
  proof (cases c rule: utf8_bytes_cases)
    case (four x y z t)
    then show ?thesis by (simp add: lead_masks is_cont_iff flip: cont_mask)
  qed (auto simp: lead_masks is_cont_iff simp flip: cont_mask)
qed

lemma isUtf8_code_points: "code_points cps \<Longrightarrow> isUtf8 (concat (map utf8_bytes cps))"
  by (induction cps) (simp_all add: isUtf8_code_point)

lemma fatal_isUtf8: "is_bytes bs \<Longrightarrow> utf8DecodeBytes True bs = Inr s \<Longrightarrow> isUtf8 bs"
  using fatal_accepts_encodings [of bs s] isUtf8_code_points by (auto simp: code_points_def)

section \<open>Pieces of long strings\<close>

text \<open>Where the last piece of a string ends; that may be after the end of the string.\<close>

function pieces_end :: "nat \<Rightarrow> jsstr \<Rightarrow> nat \<Rightarrow> nat" where
  "pieces_end chunk s i = (if i < length s then pieces_end chunk s (chunk_end chunk s i) else i)"
  by pat_completeness auto
termination
  by (relation "measure (\<lambda>(chunk, s, i). length s - i)") (auto intro: diff_less_mono2 chunk_end_less)

declare pieces_end.simps [simp del]

lemma units_split: "a \<le> b \<Longrightarrow> b \<le> c \<Longrightarrow> units s a c = units s a b @ units s b c"
  using upt_add_eq_append [of a b "c - b"] by (simp add: units_def)

lemma units_tail: "length s \<le> c \<Longrightarrow> units s 0 c = map Some s @ replicate (c - length s) None"
proof -
  assume "length s \<le> c"
  then have "units s 0 c = units s 0 (length s) @ units s (length s) c" by (intro units_split) simp_all
  moreover have "units s (length s) c = replicate (c - length s) None"
    by (auto simp: units_def intro!: nth_equalityI)
  ultimately show ?thesis by simp
qed

lemma write_append:
  "xs = [] \<or> ys = [] \<or> \<not> (is_high (last xs) \<and> is_low (hd ys)) \<Longrightarrow>
     writeUtf8IntoRange (xs @ ys) = writeUtf8IntoRange xs @ writeUtf8IntoRange ys"
proof (induction xs rule: writeUtf8IntoRange.induct)
  case (2 c)
  then show ?case by (cases ys) auto
qed (auto split: if_splits)

lemma piece_split:
  assumes "a \<le> b" "b \<le> c" "a = b \<or> \<not> (is_high (Some (s ! (b - 1))) \<and> is_low (Some (s ! b))) \<or> length s \<le> b"
  shows "encode_piece enc s a c = encode_piece enc s a b @ encode_piece enc s b c"
proof -
  have ends: "a < b \<Longrightarrow> last (units s a b) = (if b - 1 < length s then Some (s ! (b - 1)) else None)"
    "b < c \<Longrightarrow> hd (units s b c) = (if b < length s then Some (s ! b) else None)"
    by (simp_all add: units_def last_map hd_map)
  have "units s a b = [] \<or> units s b c = [] \<or> \<not> (is_high (last (units s a b)) \<and> is_low (hd (units s b c)))"
  proof (cases "a < b \<and> b < c")
    case True
    then show ?thesis using assms(3) ends by (auto simp: is_low_def)
  qed (auto simp: units_def)
  then show ?thesis
    unfolding encode_piece_def units_split [OF assms(1,2), of s] by (cases enc) (simp_all add: write_append)
qed

lemma chunk_end_split:
  assumes "2 \<le> chunk"
  shows "\<not> (is_high (Some (s ! (chunk_end chunk s i - 1))) \<and> is_low (Some (s ! chunk_end chunk s i))) \<or>
    length s \<le> chunk_end chunk s i"
  using assms by (auto simp: chunk_end_def Let_def is_high_def is_low_def)

lemma pieces_end_ge: "i \<le> pieces_end chunk s i \<and> length s \<le> pieces_end chunk s i"
proof (induction chunk s i rule: pieces_end.induct)
  case (1 chunk s i)
  then show ?case using chunk_end_less [of i chunk s] by (subst (1 2) pieces_end.simps) auto
qed

lemma pieces_whole:
  assumes "2 \<le> chunk"
  shows "concat (chunk_pieces enc chunk s i) = encode_piece enc s i (pieces_end chunk s i)"
proof (induction "length s - i" arbitrary: i rule: less_induct)
  case less
  let ?e = "chunk_end chunk s i"
  show ?case
  proof (cases "i < length s")
    case True
    then have "concat (chunk_pieces enc chunk s ?e) = encode_piece enc s ?e (pieces_end chunk s ?e)"
      by (intro less) (use chunk_end_less [of i chunk s] in simp)
    moreover have "encode_piece enc s i (pieces_end chunk s ?e) =
        encode_piece enc s i ?e @ encode_piece enc s ?e (pieces_end chunk s ?e)"
      using chunk_end_split [OF assms, of s i] chunk_end_less [of i chunk s] pieces_end_ge [of ?e chunk s]
      by (intro piece_split) auto
    ultimately show ?thesis using True by (simp add: chunk_pieces.simps [of enc chunk s i] pieces_end.simps [of chunk s i])
  next
    case False
    then have "chunk_pieces enc chunk s i = []" "pieces_end chunk s i = i"
      by (simp_all add: chunk_pieces.simps [of enc chunk s i] pieces_end.simps [of chunk s i])
    then show ?thesis by (cases enc) (simp_all add: encode_piece_def units_def)
  qed
qed

lemma write_nones: "writeUtf8IntoRange (replicate n None) = concat (replicate n (put3 0))"
proof (induction n)
  case (Suc n)
  have "writeUtf8IntoRange ([None] @ replicate n None) = put_unit None @ writeUtf8IntoRange (replicate n None)"
    by (subst write_append) (simp_all add: is_high_def)
  then show ?case using Suc by (simp add: put_unit_def)
qed simp

lemma put3_zero: "put3 0 = [0xe0, 0x80, 0x80]"
  by (simp add: put3_def)

theorem chunked_text:
  assumes "is_jsstr s"
  shows "bufferFromStringChunked s BUtf8 =
    utf8EncodeString s @ concat (replicate (pieces_end BUF_ENCODE_CHUNK s 0 - length s) [0xe0, 0x80, 0x80])"
proof -
  let ?n = "pieces_end BUF_ENCODE_CHUNK s 0 - length s"
  have "bufferFromStringChunked s BUtf8 = writeUtf8IntoRange (map Some s @ replicate ?n None)"
    using pieces_whole [of BUF_ENCODE_CHUNK BUtf8 s 0] units_tail [of s] pieces_end_ge [of 0 BUF_ENCODE_CHUNK s]
    by (simp add: bufferFromStringChunked_def BUF_ENCODE_CHUNK_def encode_piece_def)
  also have "\<dots> = writeUtf8IntoRange (map Some s) @ writeUtf8IntoRange (replicate ?n None)"
    by (intro write_append) (auto simp: is_low_def hd_replicate)
  finally show ?thesis using assms by (simp add: write_utf8 write_nones put3_zero)
qed

text \<open>The end of the string is not the end of the last piece, so junk is written after the text.\<close>

lemma chunked_overrun:
  assumes "length s = 32769" "is_jsstr s" "\<forall>u \<in> set s. \<not> is_high (Some u)"
  shows "bufferFromStringChunked s BUtf8 = utf8EncodeString s @ concat (replicate 32767 [0xe0, 0x80, 0x80])"
proof -
  have "\<not> is_high (Some (s ! (32768 - 1)))" using assms(1,3) by simp
  then have e: "chunk_end 32768 s 0 = 32768" "chunk_end 32768 s 32768 = 65536"
    using assms(1) by (simp_all add: chunk_end_def)
  have "pieces_end BUF_ENCODE_CHUNK s 0 = 65536"
    unfolding BUF_ENCODE_CHUNK_def
    by (subst pieces_end.simps, subst pieces_end.simps, subst pieces_end.simps) (simp add: e assms(1))
  then show ?thesis using chunked_text [OF assms(2)] assms(1) by simp
qed

lemma chunked_overrun_all: "bufferFromStringChunked (replicate 32769 97) BUtf8 \<noteq> utf8EncodeString (replicate 32769 97)"
  using chunked_overrun [of "replicate 32769 97"] by (simp add: is_jsstr_def is_high_def)

section \<open>Texts and bytes\<close>

lemma latin1_roundtrip: "is_bytes bs \<Longrightarrow> map (put_latin1 \<circ> Some) (decodeLatin1 bs) = bs"
proof -
  have "b < 256 \<Longrightarrow> (from_char_code b) AND 0xff = b" for b
    using take_bit_eq_mask [of 8 b] by (simp add: from_char_code_def take_bit_eq_mod mask_eq_exp_minus_1)
  then show "is_bytes bs \<Longrightarrow> map (put_latin1 \<circ> Some) (decodeLatin1 bs) = bs"
    by (simp add: decodeLatin1_def put_latin1_def is_bytes_def map_idI)
qed

text \<open>C7: In UTF-8 every string, unpaired surrogates included, is read back from its bytes; in the other
  encodings but UTF-16 all bytes are read back from their text.\<close>

theorem buffer_text_roundtrip:
  assumes "normalizeEnc enc = Some e" "e \<noteq> BUtf16le"
    "int (length s) \<le> K_STRING_MAX_LENGTH" "int (length bs) \<le> K_STRING_MAX_LENGTH"
    "is_jsstr s" "is_bytes bs"
  shows "if e = BUtf8 then bind_result (strToBytes s enc) (\<lambda>b. bytesToStr b enc) = Inr s
    else bind_result (bytesToStr bs enc) (\<lambda>t. strToBytes t enc) = Inr bs"
proof (cases e)
  case BLatin1
  have "length (decodeLatin1 bs) = length bs" by (simp add: decodeLatin1_def)
  then show ?thesis
    using assms BLatin1 by (simp add: strToBytes_def bytesToStr_def encodeLatin1Raw_def latin1_roundtrip)
qed (use assms in \<open>simp_all add: strToBytes_def bytesToStr_def encodeUtf8_text utf8_text_roundtrip hexToBytes_text
    base64_text_roundtrip\<close>)

theorem isUtf8_sound:
  assumes "is_bytes bs" "utf8DecodeBytes True bs = Inr s"
  shows "isUtf8 bs"
  by (rule fatal_isUtf8) (rule assms)+

lemma enc_names:
  "normalizeEnc (Some (js ''base64'')) = Some BBase64" "normalizeEnc (Some (js ''base64url'')) = Some BBase64url"
  "normalizeEnc (Some (js ''utf16le'')) = Some BUtf16le" "normalizeEnc (Some (js ''UTF8'')) = Some BUtf8"
  "normalizeEnc (Some (js ''hex'')) = Some BHex" "normalizeEnc (Some (js ''latin1'')) = Some BLatin1"
  by code_simp+

theorem buffer_text_roundtrip_witness:
  "bind_result (bytesToStr [1, 250] (Some (js ''base64url''))) (\<lambda>t. strToBytes t (Some (js ''base64url''))) = Inr [1, 250] \<and>
   bind_result (strToBytes [0xd83d, 0xde00, 0xd800] (Some (js ''UTF8''))) (\<lambda>b. bytesToStr b (Some (js ''UTF8''))) =
     Inr [0xd83d, 0xde00, 0xd800]"
  using buffer_text_roundtrip [OF enc_names(2), of "[]" "[1, 250]"]
    buffer_text_roundtrip [OF enc_names(4), of "[0xd83d, 0xde00, 0xd800]" "[]"]
  by (simp add: K_STRING_MAX_LENGTH_def)

theorem isUtf8_sound_witness: "isUtf8 [0xc3, 0xa9]"
proof (rule isUtf8_sound)
  show "utf8DecodeBytes True [0xc3, 0xa9] = Inr [0xe9]"
    by (simp add: lead_masks is_cont_iff emit_def join_arith from_char_code_def)
qed simp

theorem chunked_text_witness:
  "bufferFromStringChunked [97] BUtf8 = 97 # concat (replicate (pieces_end BUF_ENCODE_CHUNK [97] 0 - 1) [0xe0, 0x80, 0x80])"
  using chunked_text [of "[97]"] by (simp add: utf8_bytes_def)

section \<open>Where the code departs from Node\<close>

text \<open>Overlong forms and surrogates pass.\<close>

lemma isUtf8_overlong: "isUtf8 [0xc0, 0x80]" "isUtf8 [0xed, 0xa0, 0x80]" "utf8DecodeBytes True [0xc0, 0x80] = Inl INVALID_UTF8"
  by (simp_all add: lead_masks is_cont_iff flip: cont_mask)

text \<open>UTF-16 is written as such and read as Latin-1.\<close>

lemma utf16_text: "bind_result (strToBytes (js ''a'') (Some (js ''utf16le''))) (\<lambda>b. bytesToStr b (Some (js ''utf16le''))) = Inr [97, 0]"
  using enc_names(3)
  by (simp add: strToBytes_def bytesToStr_def encodeUtf16le_def K_STRING_MAX_LENGTH_def put_utf16_def decodeLatin1_def from_char_code_def)

text \<open>Characters that are not base64 decode to zero bits; a single letter makes a byte.\<close>

lemma base64_junk: "strToBytes (js ''!!!!'') (Some (js ''base64'')) = Inr [0, 0, 0]" "strToBytes (js ''Q'') (Some (js ''base64'')) = Inr [64]"
  "strToBytes (js ''-_-_'') (Some (js ''base64'')) = Inr [0, 0, 0]"
  by code_simp+

end
