(* ===== verification/Buffers.thy ===== *)
theory Buffers
  imports BufferText
begin

text \<open>
  \<open>buffer.js\<close>: the class \<open>Buffer\<close>. A buffer is a \<open>Uint8Array\<close>, so its methods take a view and the memory it
  looks at, and return the memory. Positions and lengths are integers where the code does not check them
  (\<open>None\<close> for \<open>undefined\<close> and \<open>null\<close>); the numeric accessors check their offset and take any value.
  The accessors of floating-point numbers are left out.
\<close>

section \<open>Bytes of a view\<close>

text \<open>\<open>this[i] & 0xff\<close>; outside the view it is 0. Writing outside the view does nothing.\<close>

definition bget :: "typed_array \<Rightarrow> array_buffer \<Rightarrow> int \<Rightarrow> nat" where
  "bget v b i = (case readAt v b i of Some x \<Rightarrow> nat (x mod 256) | None \<Rightarrow> 0)"

fun put_bytes :: "typed_array \<Rightarrow> int \<Rightarrow> bytes \<Rightarrow> array_buffer \<Rightarrow> array_buffer result" where
  "put_bytes v i [] b = Inr b"
| "put_bytes v i (x # xs) b = bind_result (writeAt v i (Num (js_nat x)) b) (put_bytes v (i + 1) xs)"

definition range_bytes :: "typed_array \<Rightarrow> array_buffer \<Rightarrow> int \<Rightarrow> int \<Rightarrow> bytes" where
  "range_bytes v b s e = map (bget v b) [s..e - 1]"

definition low8 :: "32 word \<Rightarrow> nat" where
  "low8 w = unat (w AND 0xff)"

section \<open>Construction\<close>

definition buf_toIndex :: "jsnum \<Rightarrow> nat result" where
  "buf_toIndex n =
     (case n of
        NaN \<Rightarrow> Inl (CodedError ''ERR_INVALID_ARG_VALUE'')
      | Fin q \<Rightarrow> if q < 0 \<or> of_int K_MAX_LENGTH < q then Inl (CodedError ''ERR_OUT_OF_RANGE'')
                 else Inr (unat (to_int32 (Fin q)))
      | _ \<Rightarrow> Inl (CodedError ''ERR_OUT_OF_RANGE''))"

definition new_size :: "nat \<Rightarrow> (typed_array \<times> array_buffer) result" where
  "new_size n = bind_result (checkAllocLimit n) (\<lambda>_. Inr (ta_alloc U8 n))"

text \<open>
  What the constructor is given: a size (and whether an encoding follows), a buffer with offset and length, an
  array of numbers, a view, a string with its encoding, something else.
\<close>

datatype buf_arg =
    ASize jsnum bool
  | AMemory array_buffer "jsnum option" "jsnum option"
  | AArray "jsnum list"
  | AView typed_array array_buffer
  | AString jsstr "jsstr option"
  | AOther

definition new_memory :: "array_buffer \<Rightarrow> jsnum option \<Rightarrow> jsnum option \<Rightarrow> typed_array result" where
  "new_memory b offset len =
     (let off = (case offset of None \<Rightarrow> 0 | Some n \<Rightarrow> unat (to_int32 n));
          byteLength = (if ab_detached b then 0 else length (ab_bytes b));
          n = (case len of None \<Rightarrow> int byteLength - int off | Some n \<Rightarrow> uint (to_int32 n))
      in ta_new U8 b (Some (js_nat off)) (Some (Fin (of_int n))))"

definition new_view :: "typed_array \<Rightarrow> array_buffer \<Rightarrow> (typed_array \<times> array_buffer) result" where
  "new_view w c =
     bind_result (taValidate w c) (\<lambda>_. bind_result (new_size (taLength w c)) (\<lambda>(v, b).
       case write_list v 0 (map (elem_of (ta_kind w)) (elems w c)) b of
         (b', None) \<Rightarrow> Inr (v, b')
       | (b', Some e) \<Rightarrow> Inl e))"

definition new_string :: "jsstr \<Rightarrow> jsstr option \<Rightarrow> (typed_array \<times> array_buffer) result" where
  "new_string s enc =
     (if K_STRING_MAX_LENGTH < int (length s) then Inl stringTooLong
      else case normalizeEnc enc of
        None \<Rightarrow> Inl encodingError
      | Some e \<Rightarrow>
          if BUF_ENCODE_CHUNK < length s \<and> e \<in> {BUtf8, BLatin1, BUtf16le} then u8_from (bufferFromStringChunked s e)
          else bind_result (strToBytes s enc) u8_from)"

fun buffer_new :: "buf_arg \<Rightarrow> (typed_array \<times> array_buffer) result" where
  "buffer_new (ASize n given) =
     (if given then Inl (ErrInvalidArgType ''string'' ''string'' (VNum n)) else bind_result (buf_toIndex n) new_size)"
| "buffer_new (AMemory b offset len) = bind_result (new_memory b offset len) (\<lambda>v. Inr (v, b))"
| "buffer_new (AArray xs) = u8_from (map (low8 \<circ> to_int32) xs)"
| "buffer_new (AView w c) = new_view w c"
| "buffer_new (AString s enc) = new_string s enc"
| "buffer_new AOther = Inr (ta_alloc U8 0)"

fun buf_from :: "buf_arg \<Rightarrow> (typed_array \<times> array_buffer) result" where
  "buf_from (ASize n given) = Inr (ta_alloc U8 0)"
| "buf_from arg = buffer_new arg"

definition allocUnsafe :: "jsnum \<Rightarrow> (typed_array \<times> array_buffer) result" where
  "allocUnsafe n = buffer_new (ASize n False)"

section \<open>Parts, text and JSON\<close>

definition ta_byteOffset :: "typed_array \<Rightarrow> array_buffer \<Rightarrow> nat" where
  "ta_byteOffset v b = (if taIsOutOfBounds v b then 0 else ta_offset v)"

definition clip :: "int \<Rightarrow> int option \<Rightarrow> int \<Rightarrow> int" where
  "clip len x dflt = (case x of None \<Rightarrow> dflt | Some i \<Rightarrow> if i < 0 then max 0 (len + i) else min i len)"

definition buf_subarray :: "typed_array \<Rightarrow> array_buffer \<Rightarrow> int option \<Rightarrow> int option \<Rightarrow> (typed_array \<times> array_buffer) result" where
  "buf_subarray v b start end0 =
     (let len = int (taLength v b);
          s = clip len start 0;
          e = clip len end0 len;
          e = (if e < s then s else e)
      in buffer_new (AMemory b (Some (Fin (of_int (int (ta_byteOffset v b) + s)))) (Some (Fin (of_int (e - s))))))"

definition buf_toString :: "typed_array \<Rightarrow> array_buffer \<Rightarrow> jsstr option \<Rightarrow> int option \<Rightarrow> int option \<Rightarrow> jsstr result" where
  "buf_toString v b enc start end0 =
     (let len = int (taLength v b);
          s = (case start of None \<Rightarrow> 0 | Some i \<Rightarrow> i);
          e = (case end0 of None \<Rightarrow> len | Some i \<Rightarrow> i);
          s = (if s < 0 then len + s else s);
          e = (if e < 0 then len + e else e);
          s = (if s < 0 then 0 else s);
          e = (if len < e then len else e)
      in bytesToStr (range_bytes v b s e) enc)"

definition buf_toJSON :: "typed_array \<Rightarrow> array_buffer \<Rightarrow> bytes" where
  "buf_toJSON v b = range_bytes v b 0 (int (taLength v b))"

definition buf_join :: "typed_array \<Rightarrow> array_buffer \<Rightarrow> jsstr option \<Rightarrow> jsstr" where
  "buf_join v b separator =
     join_with (case separator of None \<Rightarrow> [44] | Some s \<Rightarrow> s) (map (js \<circ> dec_string) (range_bytes v b 0 (int (taLength v b))))"

section \<open>Writing, copying and filling\<close>

text \<open>\<open>write(string, offset, length, encoding)\<close>: a string in the place of a number is the encoding.\<close>

datatype slot = NoSlot | SInt int | SStr jsstr

definition buf_write ::
  "typed_array \<Rightarrow> jsstr \<Rightarrow> slot \<Rightarrow> slot \<Rightarrow> jsstr option \<Rightarrow> array_buffer \<Rightarrow> (int \<times> array_buffer) result" where
  "buf_write v string offset len encoding b =
     (let (enc, len) = (case len of SStr e \<Rightarrow> (Some e, NoSlot) | _ \<Rightarrow> (encoding, len));
          bufLen = int (taLength v b);
          (enc, off, maxWrite) =
            (case offset of
               SStr e \<Rightarrow> (Some e, 0, bufLen)
             | _ \<Rightarrow>
                 (let off = (case offset of SInt i \<Rightarrow> i | _ \<Rightarrow> 0); room = bufLen - off
                  in (enc, off, case len of SInt l \<Rightarrow> (if l < room then l else room) | _ \<Rightarrow> room)))
      in bind_result (strToBytes string enc) (\<lambda>bytes.
           let n = (if int (length bytes) < maxWrite then int (length bytes) else maxWrite)
           in bind_result (put_bytes v off (take (nat n) bytes) b) (\<lambda>b'. Inr (n, b'))))"

text \<open>The target has its own memory, or the one of the source.\<close>

fun copy_loop ::
  "typed_array \<Rightarrow> typed_array \<Rightarrow> int \<Rightarrow> int \<Rightarrow> nat list \<Rightarrow> array_buffer option \<Rightarrow> array_buffer \<Rightarrow> array_buffer result" where
  "copy_loop v w ts ss [] src b = Inr b"
| "copy_loop v w ts ss (i # is) src b =
     bind_result
       (if ts + int i < int (taLength w b)
        then put_bytes w (ts + int i) [bget v (case src of None \<Rightarrow> b | Some c \<Rightarrow> c) (ss + int i)] b
        else Inr b)
       (copy_loop v w ts ss is src)"

definition buf_copy_to ::
  "typed_array \<Rightarrow> array_buffer option \<Rightarrow> typed_array \<Rightarrow> int option \<Rightarrow> int option \<Rightarrow> int option \<Rightarrow> array_buffer \<Rightarrow>
     (int \<times> array_buffer) result" where
  "buf_copy_to v src w targetStart sourceStart sourceEnd b =
     (let len = int (taLength v (case src of None \<Rightarrow> b | Some c \<Rightarrow> c));
          ts = (case targetStart of None \<Rightarrow> 0 | Some i \<Rightarrow> i);
          ss = (case sourceStart of None \<Rightarrow> 0 | Some i \<Rightarrow> i);
          se = (case sourceEnd of None \<Rightarrow> len | Some i \<Rightarrow> i);
          se = (if len < se then len else se);
          n = se - ss
      in if n \<le> 0 then Inr (0, b)
         else bind_result (copy_loop v w ts ss [0..<nat n] src b) (\<lambda>b'. Inr (n, b')))"

datatype fill_value = FNum jsnum | FStr jsstr | FOther

definition buf_fill_bytes ::
  "typed_array \<Rightarrow> fill_value \<Rightarrow> int option \<Rightarrow> int option \<Rightarrow> jsstr option \<Rightarrow> array_buffer \<Rightarrow> array_buffer result" where
  "buf_fill_bytes v value offset end0 encoding b =
     (let len = int (taLength v b);
          s = (case offset of None \<Rightarrow> 0 | Some i \<Rightarrow> i);
          e = (case end0 of None \<Rightarrow> len | Some i \<Rightarrow> i);
          s = (if s < 0 then 0 else s);
          e = (if len < e then len else e)
      in case value of
           FNum n \<Rightarrow> put_bytes v s (replicate (nat (e - s)) (low8 (to_int32 n))) b
         | FStr t \<Rightarrow>
             bind_result (strToBytes t encoding) (\<lambda>pat.
               if pat \<noteq> [] then put_bytes v s (map (\<lambda>j. pat ! (j mod length pat)) [0..<nat (e - s)]) b
               else Inr b)
         | FOther \<Rightarrow> Inr b)"

datatype alloc_fill = NoFill | FillNum jsnum | FillStr jsstr | FillView typed_array array_buffer

definition buf_alloc :: "jsnum \<Rightarrow> alloc_fill \<Rightarrow> jsstr option \<Rightarrow> (typed_array \<times> array_buffer) result" where
  "buf_alloc size0 fill encoding =
     bind_result (buf_toIndex size0) (\<lambda>n. bind_result (new_size n) (\<lambda>(v, b).
       bind_result
         (case fill of
            NoFill \<Rightarrow> Inr b
          | FillNum f \<Rightarrow> buf_fill_bytes v (FNum (js_nat (low8 (to_int32 f)))) None None None b
          | FillStr t \<Rightarrow> buf_fill_bytes v (FStr t) (Some 0) (Some (int n)) encoding b
          | FillView w c \<Rightarrow>
              if 0 < taLength w c
              then put_bytes v 0 (map (\<lambda>i. bget w c (int (i mod taLength w c))) [0..<n]) b
              else Inr b)
         (\<lambda>b'. Inr (v, b'))))"

section \<open>Searching and comparing\<close>

definition match_at :: "typed_array \<Rightarrow> array_buffer \<Rightarrow> bytes \<Rightarrow> int \<Rightarrow> bool" where
  "match_at v b needle k \<longleftrightarrow> list_all (\<lambda>n. bget v b (k + int n) = needle ! n) [0..<length needle]"

definition first_of :: "(int \<Rightarrow> bool) \<Rightarrow> int list \<Rightarrow> int" where
  "first_of P is = (case find P is of None \<Rightarrow> -1 | Some i \<Rightarrow> i)"

datatype search_value = SearchNum jsnum | SearchStr jsstr | SearchView typed_array array_buffer | SearchOther

definition buf_search ::
  "typed_array \<Rightarrow> array_buffer \<Rightarrow> search_value \<Rightarrow> int option \<Rightarrow> jsstr option \<Rightarrow> bool \<Rightarrow> int result" where
  "buf_search v b value byteOffset encoding fromEnd =
     (let len = int (taLength v b);
          start = (case byteOffset of None \<Rightarrow> 0 | Some i \<Rightarrow> i);
          start = (if start < 0 then len + start else start);
          start = (if start < 0 then 0 else start);
          search_needle = (\<lambda>needle.
            if needle = [] then Inr (if start \<le> len then start else len)
            else
              (let last = len - int (length needle)
               in if fromEnd
                  then Inr (first_of (match_at v b needle) (rev [0..(if last < start then last else start)]))
                  else Inr (first_of (match_at v b needle) [start..last])))
      in case value of
           SearchNum n \<Rightarrow>
             (let x = low8 (to_int32 n)
              in if fromEnd then Inr (first_of (\<lambda>i. bget v b i = x) (rev [start..len - 1]))
                 else Inr (first_of (\<lambda>i. bget v b i = x) [start..len - 1]))
         | SearchStr s \<Rightarrow> bind_result (strToBytes s encoding) search_needle
         | SearchView w c \<Rightarrow> search_needle (range_bytes w c 0 (int (taLength w c)))
         | SearchOther \<Rightarrow> Inr (-1))"

definition buf_indexOf :: "typed_array \<Rightarrow> array_buffer \<Rightarrow> search_value \<Rightarrow> int option \<Rightarrow> jsstr option \<Rightarrow> int result" where
  "buf_indexOf v b value byteOffset encoding = buf_search v b value byteOffset encoding False"

definition buf_lastIndexOf :: "typed_array \<Rightarrow> array_buffer \<Rightarrow> search_value \<Rightarrow> int option \<Rightarrow> jsstr option \<Rightarrow> int result" where
  "buf_lastIndexOf v b value byteOffset encoding =
     (let len = int (taLength v b);
          start = (case byteOffset of None \<Rightarrow> len - 1 | Some i \<Rightarrow> i);
          start = (if start < 0 then len + start else start);
          start = (if len \<le> start then len - 1 else start);
          start = (if start < 0 then 0 else start)
      in buf_search v b value (Some start) encoding True)"

definition buf_includes :: "typed_array \<Rightarrow> array_buffer \<Rightarrow> search_value \<Rightarrow> int option \<Rightarrow> jsstr option \<Rightarrow> bool result" where
  "buf_includes v b value byteOffset encoding =
     bind_result (buf_indexOf v b value byteOffset encoding) (\<lambda>i. Inr (i \<noteq> -1))"

definition buf_equals :: "typed_array \<Rightarrow> array_buffer \<Rightarrow> typed_array \<Rightarrow> array_buffer \<Rightarrow> bool" where
  "buf_equals v b w c \<longleftrightarrow>
     (if taLength v b \<noteq> taLength w c then False
      else list_all (\<lambda>i. bget v b (int i) = bget w c (int i)) [0..<taLength v b])"

fun compare_loop :: "typed_array \<Rightarrow> array_buffer \<Rightarrow> typed_array \<Rightarrow> array_buffer \<Rightarrow> int \<Rightarrow> int \<Rightarrow> nat list \<Rightarrow> int option" where
  "compare_loop v b w c ss ts [] = None"
| "compare_loop v b w c ss ts (i # is) =
     (let av = bget v b (ss + int i); bv = bget w c (ts + int i)
      in if av < bv then Some (-1) else if bv < av then Some 1 else compare_loop v b w c ss ts is)"

text \<open>The ranges: of the target, then of the source. \<open>None\<close> when the call has two arguments.\<close>

definition buf_compare ::
  "typed_array \<Rightarrow> array_buffer \<Rightarrow> typed_array \<Rightarrow> array_buffer \<Rightarrow> (int \<times> int option \<times> int option \<times> int option) option \<Rightarrow> int" where
  "buf_compare v b w c ranges =
     (let alen = int (taLength v b); blen = int (taLength w c);
          (ts, te, ss, se) =
            (case ranges of
               None \<Rightarrow> (0, blen, 0, alen)
             | Some (ts, te, ss, se) \<Rightarrow>
                 (ts, case te of None \<Rightarrow> blen | Some i \<Rightarrow> i, case ss of None \<Rightarrow> 0 | Some i \<Rightarrow> i,
                  case se of None \<Rightarrow> alen | Some i \<Rightarrow> i));
          aLen = se - ss; bLen = te - ts
      in case compare_loop v b w c ss ts [0..<nat (if aLen < bLen then aLen else bLen)] of
           Some r \<Rightarrow> r
         | None \<Rightarrow> if aLen < bLen then -1 else if bLen < aLen then 1 else 0)"

definition buf_compare_method ::
  "typed_array \<Rightarrow> array_buffer \<Rightarrow> typed_array \<Rightarrow> array_buffer \<Rightarrow> int option \<Rightarrow> int option \<Rightarrow> int option \<Rightarrow> int option \<Rightarrow> int" where
  "buf_compare_method v b w c ts te ss se =
     buf_compare v b w c
       (Some (case ts of None \<Rightarrow> 0 | Some i \<Rightarrow> i,
              Some (case te of None \<Rightarrow> int (taLength w c) | Some i \<Rightarrow> i),
              Some (case ss of None \<Rightarrow> 0 | Some i \<Rightarrow> i),
              Some (case se of None \<Rightarrow> int (taLength v b) | Some i \<Rightarrow> i)))"

section \<open>Concatenation\<close>

fun bcat_loop :: "nat \<Rightarrow> (typed_array \<times> array_buffer) list \<Rightarrow> nat \<Rightarrow> byte list \<Rightarrow> byte list" where
  "bcat_loop size0 [] pos m = m"
| "bcat_loop size0 ((v, b) # list) pos m =
     (if size0 \<le> pos then m
      else
        (let n = (if size0 < pos + taLength v b then size0 - pos else taLength v b)
         in if n = 0 then bcat_loop size0 list pos m
            else bcat_loop size0 list (pos + n) (buf_copy m pos (ab_bytes b) (ta_offset v) n)))"

definition concat_total :: "jsval \<Rightarrow> nat \<Rightarrow> nat result" where
  "concat_total totalLength given =
     (case totalLength of
        VUndef \<Rightarrow> Inr given
      | VNull \<Rightarrow> Inr given
      | VNum (Fin q) \<Rightarrow>
          if of_int \<lfloor>q\<rfloor> \<noteq> q then Inl (ErrOutOfRange ''length'' AnInteger totalLength)
          else if q < 0 \<or> of_int K_MAX_LENGTH < q then Inl (ErrOutOfRange ''length'' (Between 0 K_MAX_LENGTH) totalLength)
          else Inr (unat (to_int32 (Fin q)))
      | VNum _ \<Rightarrow> Inl (ErrOutOfRange ''length'' AnInteger totalLength)
      | _ \<Rightarrow> Inl (ErrInvalidArgType ''length'' ''number'' totalLength))"

text \<open>The list has views, or other values, which are refused.\<close>

definition buf_concat :: "(jsval + typed_array \<times> array_buffer) list \<Rightarrow> jsval \<Rightarrow> (typed_array \<times> array_buffer) result" where
  "buf_concat list totalLength =
     (case find (\<lambda>i. isl (list ! i)) [0..<length list] of
        Some i \<Rightarrow> Inl (ErrInvalidArgType (''list['' @ dec_string i @ '']'') ''Buffer or Uint8Array'' (projl (list ! i)))
      | None \<Rightarrow>
          (let views = map projr list
           in bind_result (concat_total totalLength (sum_list (map (\<lambda>(v, b). taLength v b) views))) (\<lambda>size0.
              bind_result (allocUnsafe (js_nat size0)) (\<lambda>(w, out).
                Inr (w, out\<lparr>ab_bytes := bcat_loop size0 views 0 (ab_bytes out)\<rparr>)))))"

section \<open>Functions of the module\<close>

definition btoa :: "jsstr \<Rightarrow> jsstr result" where
  "btoa s = bind_result (buf_from (AString s (Some (js ''binary'')))) (\<lambda>(v, b). buf_toString v b (Some (js ''base64'')) None None)"

definition atob :: "jsstr \<Rightarrow> jsstr result" where
  "atob s = bind_result (buf_from (AString s (Some (js ''base64'')))) (\<lambda>(v, b). buf_toString v b (Some (js ''binary'')) None None)"

text \<open>\<open>transcode\<close> hands the normalized names on.\<close>

fun enc_name :: "buf_enc \<Rightarrow> jsstr" where
  "enc_name BUtf8 = js ''utf8''"
| "enc_name BHex = js ''hex''"
| "enc_name BBase64 = js ''base64''"
| "enc_name BBase64url = js ''base64url''"
| "enc_name BLatin1 = js ''latin1''"
| "enc_name BUtf16le = js ''utf16le''"

definition transcode ::
  "typed_array \<Rightarrow> array_buffer \<Rightarrow> jsstr option \<Rightarrow> jsstr option \<Rightarrow> (typed_array \<times> array_buffer) result" where
  "transcode v b fromEnc toEnc =
     (case normalizeEnc fromEnc of
        None \<Rightarrow> Inl encodingError
      | Some fe \<Rightarrow>
          (case normalizeEnc toEnc of
             None \<Rightarrow> Inl encodingError
           | Some te \<Rightarrow>
               bind_result (bytesToStr (range_bytes v b 0 (int (taLength v b))) (Some (enc_name fe))) (\<lambda>s.
                 buf_from (AString s (Some (enc_name te))))))"

section \<open>Views and bytes\<close>

lemma bget_in:
  assumes "i < taLength v b" "ta_kind v = U8"
  shows "bget v b (int i) = u8_bytes v b ! i"
  using assms u8_elems_range [OF assms(2), of "elems v b ! i" b]
  by (simp add: bget_def u8_bytes_def readAt_elems)

lemma bget_out: "i < 0 \<or> int (taLength v b) \<le> i \<Longrightarrow> bget v b i = 0"
  by (auto simp: bget_def readAt_def)

lemma length_u8_bytes [simp]: "length (u8_bytes v b) = taLength v b"
  by (simp add: u8_bytes_def)

lemma range_bytes_eq:
  assumes "ta_kind v = U8" "0 \<le> s" "e \<le> int (taLength v b)"
  shows "range_bytes v b s e = drop (nat s) (take (nat e) (u8_bytes v b))"
proof (intro nth_equalityI)
  show "length (range_bytes v b s e) = length (drop (nat s) (take (nat e) (u8_bytes v b)))"
    using assms by (auto simp: range_bytes_def min_def nat_diff_distrib nat_le_iff)
  fix i
  assume "i < length (range_bytes v b s e)"
  then have i: "s + int i \<le> e - 1" by (simp add: range_bytes_def)
  then have "range_bytes v b s e ! i = bget v b (int (nat s + i))" using assms(2) by (simp add: range_bytes_def)
  then show "range_bytes v b s e ! i = drop (nat s) (take (nat e) (u8_bytes v b)) ! i"
    using i assms bget_in [of "nat s + i" v b] by (simp add: nat_less_iff)
qed

lemma range_bytes_all: "ta_kind v = U8 \<Longrightarrow> range_bytes v b 0 (int (taLength v b)) = u8_bytes v b"
  by (simp add: range_bytes_eq)

lemma num_int_js_nat [simp]: "num_int (js_nat n) = int n"
  using num_int_of_int [of "int n"] by (simp add: js_nat_def del: num_int_of_int)

lemma byte_of_word: "(ucast (w AND 0xff) :: byte) = ucast (w :: 32 word)"
  by (simp add: low_byte) (rule bit_word_eqI, simp add: bit_simps)

lemma ucast_nat: "(ucast (word_of_nat x :: 32 word) :: byte) = word_of_nat x"
  by (rule bit_word_eqI) (simp add: bit_simps bit_word_ucast_iff)

lemma setU8_nat: "off < length m \<Longrightarrow> setU8 off (js_nat x) m = m[off := of_nat x]"
  by (simp add: setU8_def setByte_update byte_of_word to_int32_num ucast_nat)

lemma put_byte:
  assumes "ta_kind v = U8" "\<not> ab_immutable b"
  shows "writeAt v i (Num (js_nat x)) b =
    Inr (if 0 \<le> i \<and> i < int (taLength v b) then b\<lparr>ab_bytes := (ab_bytes b)[ta_offset v + nat i := of_nat x]\<rparr> else b)"
proof (cases "0 \<le> i \<and> i < int (taLength v b)")
  case True
  then have "nat i < taLength v b" by linarith
  moreover from this have "ta_offset v + nat i < length (ab_bytes b)" using ta_room_elem [of "nat i" v b] assms(1) by simp
  ultimately show ?thesis
    using True writeAt_eq [of "nat i" v b "Num (js_nat x)"] assms by (simp add: put_elem_def setU8_nat fits_def)
next
  case False
  then show ?thesis by (auto simp: writeAt_def coerce_elem_def fits_def assms(1))
qed

lemma nth_u8_bytes:
  assumes "j < taLength v b" "ta_kind v = U8"
  shows "u8_bytes v b ! j = unat (ab_bytes b ! (ta_offset v + j))"
proof -
  have "take_bit 32 (uint w) = uint w" for w :: byte
    using uint_bounded [of w] by (simp add: take_bit_int_eq_self_iff)
  then show ?thesis
    using assms nth_elems [OF assms(1)] by (simp add: u8_bytes_def readAt_elems getU8_def getByte_def unsigned_ucast_eq)
qed

lemma u8_bytes_mem:
  assumes "ta_kind v = U8"
  shows "u8_bytes v b = map unat (take (taLength v b) (drop (ta_offset v) (ab_bytes b)))"
proof -
  have "taLength v b \<le> length (ab_bytes b) - ta_offset v"
    using ta_room [of v b] taLength_oob [of v b] assms by (cases "taIsOutOfBounds v b") auto
  then show ?thesis by (intro nth_equalityI) (simp_all add: nth_u8_bytes assms)
qed

lemma put_bytes_mem:
  assumes "ta_kind v = U8" "\<not> ab_immutable b" "i + length xs \<le> taLength v b"
  shows "put_bytes v (int i) xs b = Inr (b\<lparr>ab_bytes := overwrite (ta_offset v + i) (map of_nat xs) (ab_bytes b)\<rparr>)"
  using assms(2,3)
proof (induction xs arbitrary: i b)
  case (Cons x xs)
  let ?b = "b\<lparr>ab_bytes := (ab_bytes b)[ta_offset v + i := of_nat x]\<rparr>"
  have room: "ta_offset v + i < length (ab_bytes b)" using ta_room_elem [of i v b] Cons.prems(2) assms(1) by simp
  have sh: "same_shape b ?b" by (auto simp: same_shape_def)
  have "put_bytes v (int (Suc i)) xs ?b =
      Inr (?b\<lparr>ab_bytes := overwrite (ta_offset v + Suc i) (map of_nat xs) (ab_bytes ?b)\<rparr>)"
    using Cons.prems same_shape_simps [OF sh] by (intro Cons.IH) simp_all
  moreover have "overwrite (ta_offset v + Suc i) ys ((ab_bytes b)[ta_offset v + i := y]) = overwrite (ta_offset v + i) (y # ys) (ab_bytes b)" for y ys
    using room by (simp add: overwrite_def take_Suc_conv_app_nth [of "ta_offset v + i"] take_update_cancel nth_append)
  ultimately show ?case using Cons.prems put_byte [OF assms(1) Cons.prems(1), of "int i" x] by (simp add: add.commute [of 1])
qed simp

lemma put_bytes_list:
  assumes "ta_kind v = U8" "\<not> ab_immutable b" "is_bytes xs"
  shows "\<exists>b'. put_bytes v i xs b = Inr b' \<and> same_shape b b' \<and>
    u8_bytes v b' = map (\<lambda>j. if i \<le> int j \<and> int j < i + int (length xs) then xs ! nat (int j - i) else u8_bytes v b ! j)
      [0..<taLength v b] \<and>
    (\<forall>j. j < ta_offset v \<or> ta_offset v + taLength v b \<le> j \<longrightarrow> ab_bytes b' ! j = ab_bytes b ! j)"
  using assms(2,3)
proof (induction xs arbitrary: i b)
  case Nil
  then show ?case by (auto intro!: nth_equalityI)
next
  case (Cons x xs)
  let ?in = "0 \<le> i \<and> i < int (taLength v b)"
  define b1 where "b1 = (if ?in then b\<lparr>ab_bytes := (ab_bytes b)[ta_offset v + nat i := of_nat x]\<rparr> else b)"
  have w: "writeAt v i (Num (js_nat x)) b = Inr b1" using put_byte [OF assms(1) Cons.prems(1)] by (simp add: b1_def)
  have sh: "same_shape b b1" unfolding b1_def by (auto simp: same_shape_def intro: exI [of _ "ab_bytes b"])
  note sh1 = same_shape_simps [OF sh]
  have x: "unat (word_of_nat x :: byte) = x" using Cons.prems(2) by (simp add: unat_of_nat)
  have one: "u8_bytes v b1 ! j = (if i = int j then x else u8_bytes v b ! j)" if "j < taLength v b" for j
    using that sh1 x ta_room_elem [OF that] by (auto simp: nth_u8_bytes assms(1) b1_def nth_list_update)
  have prev: "nat (int j - (i + 1)) = nat (int j - i) - Suc 0" for j by simp
  obtain b' where b': "put_bytes v (i + 1) xs b1 = Inr b'" "same_shape b1 b'"
    "u8_bytes v b' = map (\<lambda>j. if i + 1 \<le> int j \<and> int j < i + 1 + int (length xs) then xs ! nat (int j - (i + 1)) else u8_bytes v b1 ! j)
      [0..<taLength v b1]"
    "\<forall>j. j < ta_offset v \<or> ta_offset v + taLength v b1 \<le> j \<longrightarrow> ab_bytes b' ! j = ab_bytes b1 ! j"
    using Cons.IH [of b1 "i + 1"] Cons.prems sh1 by auto
  have "u8_bytes v b' = map (\<lambda>j. if i \<le> int j \<and> int j < i + int (length (x # xs)) then (x # xs) ! nat (int j - i) else u8_bytes v b ! j)
      [0..<taLength v b]"
    unfolding b'(3) sh1 by (rule map_cong) (auto simp: one nth_Cons' prev)
  moreover have "\<forall>j. j < ta_offset v \<or> ta_offset v + taLength v b \<le> j \<longrightarrow> ab_bytes b' ! j = ab_bytes b ! j"
    using b'(4) unfolding sh1 by (auto simp: b1_def nth_list_update)
  ultimately show ?case using w b'(1,2) same_shape_trans [OF sh] by auto
qed

section \<open>Buffers made from strings\<close>

lemma elems_u8_bytes: "ta_kind v = U8 \<Longrightarrow> elems v b = map int bs \<Longrightarrow> u8_bytes v b = bs"
  using u8_bytes_elems [of v b] by (auto intro: map_injective)

lemma u8_from_bytes:
  assumes "is_bytes bs" "length bs \<le> AB_ALLOC_LIMIT"
  obtains v b where "u8_from bs = Inr (v, b)" "u8_bytes v b = bs" "ta_kind v = U8"
  using u8_from_elems [OF assms] elems_u8_bytes by metis

lemma low_byte_nat: "x AND 0xff = x mod (256 :: nat)"
  using take_bit_eq_mask [of 8 x] by (simp add: take_bit_eq_mod mask_eq_exp_minus_1)

lemma hexToBytes_range: "is_bytes (hexToBytes s)"
proof (induction s rule: hexToBytes.induct)
  case (1 c d s)
  have "push_bit 4 x OR y < 256" if "x < 16" "y < 16" for x y :: nat
    using or_small [of y 4 x] that by simp
  then show ?case using 1 hex_value_lower by (auto split: option.splits)
qed simp_all

lemma b64Val_range: "b64Val c < 64"
  by (auto simp: b64Val_def index_of_Some BASE64_CHARS_def split: option.splits simp del: index_of.simps)

lemma b64_groups_range: "is_bytes (b64_groups s)"
proof (induction s rule: b64_groups.induct)
  case (3 a b)
  note v = b64Val_range [of a] b64Val_range [of b]
  show ?case using group_bytes [OF v v] ungroup(1) [OF v v] by simp
next
  case (4 a b c)
  note v = b64Val_range [of a] b64Val_range [of b] b64Val_range [of c]
  show ?case using group_bytes [OF v v(1)] ungroup(1,2) [OF v v(1)] by simp
next
  case (5 a b c d s)
  note v = b64Val_range [of a] b64Val_range [of b] b64Val_range [of c] b64Val_range [of d]
  show ?case using group_bytes [OF v] ungroup(1-3) [OF v] 5 by simp
qed (use b64Val_range in \<open>force simp: push_bit_eq_mult\<close>)+

lemma utf8_range: "is_jsstr s \<Longrightarrow> is_bytes (utf8EncodeString s)"
  using utf8_bytes_is_bytes ucs2decode_bound [of s]
  by (auto simp: utf8Encode_code_points intro!: is_bytes_concat)

lemma strToBytes_range: "is_jsstr s \<Longrightarrow> strToBytes s enc = Inr bs \<Longrightarrow> is_bytes bs"
  using utf8_range [of s] hexToBytes_range [of s] b64_groups_range
  by (auto simp: strToBytes_def encodeUtf8_def encodeUtf16le_def encodeLatin1Raw_def write_utf8
      base64ToBytes_def put_utf16_def put_latin1_def low_byte_nat is_bytes_def
      split: option.splits buf_enc.splits if_splits)

lemma toString_all: "ta_kind v = U8 \<Longrightarrow> buf_toString v b enc None None = bytesToStr (u8_bytes v b) enc"
  by (simp add: buf_toString_def Let_def range_bytes_all)

lemma from_short_string:
  assumes "is_jsstr s" "length s \<le> BUF_ENCODE_CHUNK" "strToBytes s enc = Inr bs" "length bs \<le> AB_ALLOC_LIMIT"
  obtains v b where "buf_from (AString s enc) = Inr (v, b)" "u8_bytes v b = bs" "ta_kind v = U8"
proof -
  obtain v b where "u8_from bs = Inr (v, b)" "u8_bytes v b = bs" "ta_kind v = U8"
    using u8_from_bytes [OF strToBytes_range [OF assms(1,3)] assms(4)] by blast
  moreover have "normalizeEnc enc \<noteq> None" using assms(3) by (cases "normalizeEnc enc") (simp_all add: strToBytes_def)
  ultimately show thesis
    using assms(2,3) by (intro that) (auto simp: new_string_def K_STRING_MAX_LENGTH_def BUF_ENCODE_CHUNK_def)
qed

lemma length_utf8_le: "is_jsstr s \<Longrightarrow> length (utf8EncodeString s) \<le> 3 * length s"
proof (induction s rule: utf8EncodeString.induct)
  case (3 c c2 s)
  have "length (utf8_bytes x) \<le> 4" "x < 65536 \<Longrightarrow> length (utf8_bytes x) \<le> 3" for x by (simp_all add: utf8_bytes_def)
  note l = this
  show ?case using 3 l(1) [of "65536 + push_bit 10 (c - 55296) + (c2 - 56320)"] l(2) [of c] by auto
qed (auto simp: utf8_bytes_def)

theorem from_string_roundtrip:
  assumes "is_jsstr s" "length s \<le> BUF_ENCODE_CHUNK" "normalizeEnc enc = Some BUtf8"
  shows "bind_result (buf_from (AString s enc)) (\<lambda>(v, b). buf_toString v b enc None None) = Inr s"
proof -
  have k: "int (length s) \<le> K_STRING_MAX_LENGTH" using assms(2) by (simp add: K_STRING_MAX_LENGTH_def BUF_ENCODE_CHUNK_def)
  then have bs: "strToBytes s enc = Inr (utf8EncodeString s)" using assms by (simp add: strToBytes_def encodeUtf8_text)
  have "length (utf8EncodeString s) \<le> AB_ALLOC_LIMIT"
    using length_utf8_le [OF assms(1)] assms(2) by (simp add: AB_ALLOC_LIMIT_def BUF_ENCODE_CHUNK_def)
  then obtain v b where "buf_from (AString s enc) = Inr (v, b)" "u8_bytes v b = utf8EncodeString s" "ta_kind v = U8"
    using from_short_string [OF assms(1,2) bs] by blast
  then show ?thesis using assms(1,3) by (simp add: toString_all bytesToStr_def utf8_text_roundtrip)
qed

section \<open>Comparison is the lexicographic order\<close>

fun list_compare :: "bytes \<Rightarrow> bytes \<Rightarrow> int" where
  "list_compare (x # xs) (y # ys) = (if x < y then -1 else if y < x then 1 else list_compare xs ys)"
| "list_compare [] [] = 0"
| "list_compare [] ys = -1"
| "list_compare xs [] = 1"

lemma list_compare_lexordp:
  "list_compare xs ys = -1 \<longleftrightarrow> ord_class.lexordp xs ys" "list_compare xs ys = 1 \<longleftrightarrow> ord_class.lexordp ys xs"
  "list_compare xs ys = 0 \<longleftrightarrow> xs = ys"
  by (induction xs ys rule: list_compare.induct) auto

lemma compare_loop_drop:
  assumes "ta_kind v = U8" "ta_kind w = U8"
  shows "k \<le> taLength v b \<Longrightarrow> k \<le> taLength w c \<Longrightarrow> min (taLength v b) (taLength w c) = k + n \<Longrightarrow>
    (case compare_loop v b w c 0 0 [k..<k + n] of
       Some r \<Rightarrow> r
     | None \<Rightarrow> if taLength v b < taLength w c then -1 else if taLength w c < taLength v b then 1 else 0) =
    list_compare (drop k (u8_bytes v b)) (drop k (u8_bytes w c))"
proof (induction n arbitrary: k)
  case 0
  then show ?case by (cases "drop k (u8_bytes v b)"; cases "drop k (u8_bytes w c)") (auto simp: min_def split: if_splits)
next
  case (Suc n)
  then have k: "k < taLength v b" "k < taLength w c" by (simp_all add: min_def split: if_splits)
  then have "drop k (u8_bytes v b) = bget v b (int k) # drop (Suc k) (u8_bytes v b)"
    "drop k (u8_bytes w c) = bget w c (int k) # drop (Suc k) (u8_bytes w c)"
    by (simp_all add: Cons_nth_drop_Suc bget_in assms)
  moreover have "[k..<k + Suc n] = k # [Suc k..<Suc k + n]" by (simp add: upt_conv_Cons del: upt_Suc)
  ultimately show ?case using Suc.IH [of "Suc k"] Suc.prems k by (simp add: Let_def del: upt_Suc)
qed

lemma buf_compare_lists:
  assumes "ta_kind v = U8" "ta_kind w = U8"
  shows "buf_compare v b w c None = list_compare (u8_bytes v b) (u8_bytes w c)"
  using compare_loop_drop [OF assms, of 0 b c "min (taLength v b) (taLength w c)"]
  by (auto simp: buf_compare_def Let_def min_def split: option.splits if_splits)

lemma buf_equals_lists:
  assumes "ta_kind v = U8" "ta_kind w = U8"
  shows "buf_equals v b w c \<longleftrightarrow> u8_bytes v b = u8_bytes w c"
  by (auto simp: buf_equals_def list_all_iff bget_in assms list_eq_iff_nth_eq)

text \<open>\<open>Buffer.compare\<close> is the lexicographic order of bytes: -1, 1 and 0 say that the first buffer comes
  before, after, or is equal by \<open>equals\<close>.\<close>

theorem compare_is_lexicographic:
  assumes "ta_kind v = U8" "ta_kind w = U8"
  shows "(buf_compare v b w c None = -1 \<longleftrightarrow> ord_class.lexordp (u8_bytes v b) (u8_bytes w c)) \<and>
    (buf_compare v b w c None = 1 \<longleftrightarrow> ord_class.lexordp (u8_bytes w c) (u8_bytes v b)) \<and>
    (buf_compare v b w c None = 0 \<longleftrightarrow> buf_equals v b w c)"
  by (simp add: buf_compare_lists buf_equals_lists assms list_compare_lexordp)

section \<open>Concatenation\<close>

definition mem_of :: "typed_array \<times> array_buffer \<Rightarrow> byte list" where
  "mem_of x = (case x of (v, b) \<Rightarrow> take (taLength v b) (drop (ta_offset v) (ab_bytes b)))"

lemma mem_of_u8: "ta_kind v = U8 \<Longrightarrow> map unat (mem_of (v, b)) = u8_bytes v b"
  by (simp add: mem_of_def u8_bytes_mem)

lemma length_mem_of: "ta_kind v = U8 \<Longrightarrow> length (mem_of (v, b)) = taLength v b"
  using arg_cong [OF mem_of_u8 [of v b], of length] by simp

lemma overwrite_overwrite:
  "pos + length xs \<le> length m \<Longrightarrow> overwrite (pos + length xs) ys (overwrite pos xs m) = overwrite pos (xs @ ys) m"
  by (simp add: overwrite_def ac_simps)

lemma bcat_loop_mem:
  assumes "\<forall>(v, b) \<in> set views. ta_kind v = U8"
  shows "pos \<le> n \<Longrightarrow> length m = n \<Longrightarrow>
    bcat_loop n views pos m = overwrite pos (take (n - pos) (concat (map mem_of views))) m"
  using assms
proof (induction n views pos m rule: bcat_loop.induct)
  case (2 n v b views pos m)
  define k where "k = (if n < pos + taLength v b then n - pos else taLength v b)"
  let ?x = "mem_of (v, b)"
  have x: "length ?x = taLength v b" using 2(5) length_mem_of by auto
  have k: "k \<le> n - pos" "k \<le> length ?x" "k = n - pos \<or> k = length ?x" using 2(3) x by (auto simp: k_def)
  show ?case
  proof (cases "n \<le> pos \<or> k = 0")
    case True
    then have "n = pos \<or> ?x = []" using 2(3) x by (auto simp: k_def split: if_splits)
    then show ?thesis using 2(1) 2(3-5) True by (auto simp: Let_def k_def [symmetric])
  next
    case False
    then have copy: "buf_copy m pos (ab_bytes b) (ta_offset v) k = overwrite pos (take k ?x) m"
    proof -
      have "k \<le> length (drop (ta_offset v) (ab_bytes b))" "k \<le> taLength v b" using k(2) x by (simp_all add: mem_of_def)
      then show ?thesis by (simp add: buf_copy_def overwrite_def mem_of_def)
    qed
    have "take (n - pos) (?x @ ys) = take k ?x @ take (n - (pos + k)) ys" for ys using k by auto
    moreover have "length (take k ?x) = k" using k(2) by simp
    ultimately have "overwrite (pos + k) (take (n - (pos + k)) ys) (overwrite pos (take k ?x) m) =
      overwrite pos (take (n - pos) (?x @ ys)) m" for ys
      using overwrite_overwrite [of pos "take k ?x" m "take (n - (pos + k)) ys"] k(1) 2(3,4) by simp
    then show ?thesis using 2(2) [OF _ refl] False k 2(3-5) copy by (simp add: Let_def k_def [symmetric])
  qed
qed simp

lemma allocUnsafe_nat:
  assumes "n \<le> AB_ALLOC_LIMIT"
  shows "allocUnsafe (js_nat n) = Inr (ta_alloc U8 n)"
proof -
  have n: "int n < 2 ^ 31" using assms by (simp add: AB_ALLOC_LIMIT_def)
  then have "unat (to_int32 (js_nat n)) = n" by (simp add: to_int32_num unat_of_nat)
  moreover have "buf_toIndex (js_nat n) = Inr (unat (to_int32 (js_nat n)))"
    using n by (simp add: buf_toIndex_def js_nat_def K_MAX_LENGTH_def)
  ultimately show ?thesis using assms by (simp add: allocUnsafe_def new_size_def checkAllocLimit_def)
qed

text \<open>The bytes of the views, cut at the length asked for or filled up with zeros.\<close>

text \<open>C6: \<open>Buffer.concat\<close> gives the bytes of its buffers one after another, cut at the length asked for or filled
  up with zeros; empty buffers and views into larger memories are no exception.\<close>

theorem concat_list:
  assumes "\<forall>(v, b) \<in> set views. ta_kind v = U8"
    "concat_total totalLength (length (concat (map (\<lambda>(v, b). u8_bytes v b) views))) = Inr n" "n \<le> AB_ALLOC_LIMIT"
  shows "\<exists>w out. buf_concat (map Inr views) totalLength = Inr (w, out) \<and> ta_kind w = U8 \<and>
    u8_bytes w out = take n (concat (map (\<lambda>(v, b). u8_bytes v b) views) @ replicate n 0)"
proof -
  let ?w = "fst (ta_alloc U8 n)" and ?m = "bcat_loop n views 0 (replicate n 0)"
  let ?out = "snd (ta_alloc U8 n)\<lparr>ab_bytes := ?m\<rparr>"
  have sum: "length (concat (map (\<lambda>(v, b). u8_bytes v b) views)) = sum_list (map (\<lambda>(v, b). taLength v b) views)"
    by (induction views) auto
  have "find (\<lambda>i. isl (map (Inr :: _ \<Rightarrow> jsval + _) views ! i)) [0..<length views] = None" by (auto simp: find_None_iff)
  then have r: "buf_concat (map Inr views) totalLength = Inr (?w, ?out)"
    using assms(2,3) unfolding sum
    by (simp add: buf_concat_def comp_def allocUnsafe_nat case_prod_beta) (simp add: ta_alloc_def)
  have mem: "map unat (concat (map mem_of views)) = concat (map (\<lambda>(v, b). u8_bytes v b) views)"
    using assms(1) by (induction views) (auto simp: mem_of_u8)
  have m: "?m = overwrite 0 (take n (concat (map mem_of views))) (replicate n 0)"
    using bcat_loop_mem [OF assms(1), of 0 n "replicate n 0"] by simp
  then have len: "length ?m = n" by simp
  have "taLength ?w ?out = n" "ta_kind ?w = U8" "ta_offset ?w = 0" using len by (simp_all add: taLength_def ta_alloc_def)
  then have "u8_bytes ?w ?out = map unat ?m" using len by (simp add: u8_bytes_mem)
  also have "\<dots> = take n (concat (map (\<lambda>(v, b). u8_bytes v b) views) @ replicate n 0)"
    unfolding m by (simp add: overwrite_def mem [symmetric] take_map drop_map min_def)
  finally show ?thesis using r by (auto simp: ta_alloc_def)
qed

section \<open>Searching\<close>

definition occurs_at :: "'a list \<Rightarrow> 'a list \<Rightarrow> int \<Rightarrow> bool" where
  "occurs_at ys xs i \<longleftrightarrow> 0 \<le> i \<and> nat i + length ys \<le> length xs \<and> take (length ys) (drop (nat i) xs) = ys"

lemma match_at_occurs:
  assumes "ta_kind v = U8" "0 \<le> k" "k \<le> int (taLength v b) - int (length needle)"
  shows "match_at v b needle k \<longleftrightarrow> occurs_at needle (u8_bytes v b) k"
proof -
  have byte: "bget v b (k + int n) = u8_bytes v b ! (nat k + n)" if "n < length needle" for n
  proof -
    have "k + int n = int (nat k + n)" using assms(2) by simp
    then show ?thesis using bget_in [of "nat k + n" v b] assms that by simp
  qed
  have room: "nat k + length needle \<le> taLength v b" using assms(2,3) by linarith
  have "match_at v b needle k \<longleftrightarrow> (\<forall>n < length needle. u8_bytes v b ! (nat k + n) = needle ! n)"
    by (auto simp: match_at_def list_all_iff byte)
  also have "\<dots> \<longleftrightarrow> take (length needle) (drop (nat k) (u8_bytes v b)) = needle"
    unfolding list_eq_iff_nth_eq using room by simp
  finally show ?thesis using assms(2) room by (simp add: occurs_at_def)
qed

lemma occurs_at_bound: "occurs_at ys xs i \<Longrightarrow> i \<le> int (length xs) - int (length ys)"
  by (auto simp: occurs_at_def)

lemma first_of_upto:
  "(first_of P [a..c] = -1 \<and> (\<forall>i. a \<le> i \<and> i \<le> c \<longrightarrow> \<not> P i)) \<or>
   (a \<le> first_of P [a..c] \<and> first_of P [a..c] \<le> c \<and> P (first_of P [a..c]) \<and>
     (\<forall>i. a \<le> i \<and> i < first_of P [a..c] \<longrightarrow> \<not> P i))"
proof (cases "find P [a..c]")
  case None
  have "first_of P [a..c] = -1" using None by (simp add: first_of_def)
  moreover have "\<forall>i. a \<le> i \<and> i \<le> c \<longrightarrow> \<not> P i" using None by (auto simp: find_None_iff)
  ultimately show ?thesis by blast
next
  case (Some r)
  then obtain n where n: "n < length [a..c]" "[a..c] ! n = r" "P r" "\<forall>j < n. \<not> P ([a..c] ! j)"
    by (auto simp: find_Some_iff)
  then have r: "r = a + int n" "r \<le> c" by auto
  have "\<not> P i" if "a \<le> i" "i < r" for i
  proof -
    have "nat (i - a) < n" "[a..c] ! nat (i - a) = i" using that r by auto
    then show ?thesis using n(4) by metis
  qed
  then show ?thesis using Some n r by (auto simp: first_of_def)
qed

text \<open>Where a search from a position starts.\<close>

definition search_start :: "int \<Rightarrow> int option \<Rightarrow> int" where
  "search_start len pos = (case pos of None \<Rightarrow> 0 | Some i \<Rightarrow> if i < 0 then max 0 (len + i) else i)"

text \<open>\<open>indexOf\<close> of a buffer that is not empty returns the first position from the start of the search at
  which its bytes occur, and -1 exactly when there is none.\<close>

theorem indexOf_first:
  assumes "ta_kind v = U8" "ta_kind w = U8" "u8_bytes w c \<noteq> []"
  shows "\<exists>r. buf_indexOf v b (SearchView w c) pos enc = Inr r \<and>
    (let xs = u8_bytes v b; ys = u8_bytes w c; start = search_start (int (length xs)) pos
     in (r = -1 \<and> (\<forall>i \<ge> start. \<not> occurs_at ys xs i)) \<or>
        (start \<le> r \<and> occurs_at ys xs r \<and> (\<forall>i. start \<le> i \<and> i < r \<longrightarrow> \<not> occurs_at ys xs i)))"
proof -
  let ?xs = "u8_bytes v b" and ?ys = "u8_bytes w c" and ?s = "search_start (int (taLength v b)) pos"
  let ?last = "int (taLength v b) - int (taLength w c)"
  let ?r = "first_of (match_at v b ?ys) [?s..?last]"
  have s: "0 \<le> ?s" by (simp add: search_start_def split: option.split)
  have eq: "match_at v b ?ys i \<longleftrightarrow> occurs_at ?ys ?xs i" if "?s \<le> i" "i \<le> ?last" for i
    using match_at_occurs [of v i b ?ys] assms(1) s that by simp
  have "buf_indexOf v b (SearchView w c) pos enc = Inr ?r"
    using assms by (simp add: buf_indexOf_def buf_search_def Let_def range_bytes_all search_start_def max_def split: option.split)
  moreover have "(?r = -1 \<and> (\<forall>i \<ge> ?s. \<not> occurs_at ?ys ?xs i)) \<or>
      (?s \<le> ?r \<and> occurs_at ?ys ?xs ?r \<and> (\<forall>i. ?s \<le> i \<and> i < ?r \<longrightarrow> \<not> occurs_at ?ys ?xs i))"
    using first_of_upto [of "match_at v b ?ys" ?s ?last]
  proof
    assume a: "?r = -1 \<and> (\<forall>i. ?s \<le> i \<and> i \<le> ?last \<longrightarrow> \<not> match_at v b ?ys i)"
    have "\<not> occurs_at ?ys ?xs i" if "?s \<le> i" for i
      using a eq [of i] that occurs_at_bound [of ?ys ?xs i] by auto
    then show ?thesis using a by blast
  next
    assume a: "?s \<le> ?r \<and> ?r \<le> ?last \<and> match_at v b ?ys ?r \<and> (\<forall>i. ?s \<le> i \<and> i < ?r \<longrightarrow> \<not> match_at v b ?ys i)"
    have "\<not> occurs_at ?ys ?xs i" if "?s \<le> i" "i < ?r" for i using a eq [of i] that by auto
    then show ?thesis using a eq [of ?r] by blast
  qed
  ultimately show ?thesis by (simp add: Let_def)
qed

section \<open>Parts share memory\<close>

lemma word_nat: "n \<le> AB_ALLOC_LIMIT \<Longrightarrow> to_int32 (js_nat n) = word_of_nat n \<and> unat (word_of_nat n :: 32 word) = n"
  by (simp add: to_int32_num unat_of_nat AB_ALLOC_LIMIT_def)

lemma fin_nat: "Fin (of_int (int n)) = js_nat n"
  by (simp add: js_nat_def)

theorem subarray_shares:
  assumes "ta_kind v = U8" "\<not> taIsOutOfBounds v b" "length (ab_bytes b) \<le> AB_ALLOC_LIMIT"
  shows "\<exists>w. buf_subarray v b start end0 = Inr (w, b) \<and> ta_kind w = U8 \<and>
    (let len = int (taLength v b); s = nat (clip len start 0); e = nat (clip len end0 len)
     in ta_offset w = ta_offset v + s \<and> u8_bytes w b = drop s (take e (u8_bytes v b)))"
proof -
  let ?len = "int (taLength v b)"
  define s where "s = nat (clip ?len start 0)"
  define e where "e = nat (clip ?len end0 ?len)"
  have clip: "0 \<le> clip ?len x d \<and> clip ?len x d \<le> ?len" if "0 \<le> d" "d \<le> ?len" for x d
    using that by (auto simp: clip_def split: option.split)
  have s: "clip ?len start 0 = int s" "s \<le> taLength v b" using clip [of 0 start] by (auto simp: s_def)
  have e: "clip ?len end0 ?len = int e" "e \<le> taLength v b" using clip [of ?len end0] by (auto simp: e_def)
  have room: "ta_offset v + taLength v b \<le> length (ab_bytes b)" using ta_room [OF assms(2)] assms(1) by simp
  let ?w = "\<lparr>ta_kind = U8, ta_offset = ta_offset v + s, ta_fixed = True, ta_len = e - s\<rparr>"
  have sub: "ta_offset v + s + (e - s) \<le> length (ab_bytes b)" using room s(2) e(2) by linarith
  have det: "\<not> ab_detached b" using assms(2) oob_detached [of b v] by blast
  have idx: "toIndex (Some (js_nat n)) = Inr n" if "n \<le> length (ab_bytes b)" for n
    using that assms(3) by (intro toIndex_nat limit_safe) simp
  have w: "to_int32 (js_nat n) = word_of_nat n" "unat (word_of_nat n :: 32 word) = n" "uint (word_of_nat n :: 32 word) = int n"
    if "n \<le> length (ab_bytes b)" for n
    using word_nat [of n] that assms(3) by (simp_all add: uint_nat)
  have le: "ta_offset v + s \<le> length (ab_bytes b)" "e - s \<le> length (ab_bytes b)" using sub by simp_all
  have "ta_new U8 b (Some (js_nat (ta_offset v + s))) (Some (js_nat (e - s))) = Inr ?w"
    using sub det idx [OF le(1)] idx [OF le(2)] by (simp add: ta_new_def)
  then have "new_memory b (Some (js_nat (ta_offset v + s))) (Some (js_nat (e - s))) = Inr ?w"
    unfolding new_memory_def Let_def option.case w(1) [OF le(1)] w(1) [OF le(2)] w(2) [OF le(1)] w(3) [OF le(2)] fin_nat .
  then have r: "buf_subarray v b start end0 = Inr (?w, b)"
  proof -
    have "(if int e < int s then int s else int e) - int s = int (e - s)" by simp
    then show ?thesis
      unfolding buf_subarray_def Let_def s(1) e(1) ta_byteOffset_def
      using assms(2) \<open>new_memory _ _ _ = _\<close> by (simp add: js_nat_def flip: of_nat_add)
  qed
  have "taLength ?w b = e - s" using sub det by (simp add: taLength_def)
  then have "u8_bytes ?w b = drop s (take e (u8_bytes v b))"
    using s(2) e(2) by (simp add: u8_bytes_mem assms(1) take_map drop_map drop_take add.commute min_def)
  then show ?thesis using r s(1) e(1) by (auto simp: Let_def)
qed

section \<open>Writing, filling and copying\<close>

text \<open>A list with another one put over it from a position on, as far as it reaches.\<close>

definition laid_over :: "int \<Rightarrow> 'a list \<Rightarrow> 'a list \<Rightarrow> 'a list" where
  "laid_over i xs ys =
     map (\<lambda>j. if i \<le> int j \<and> int j < i + int (length xs) then xs ! nat (int j - i) else ys ! j) [0..<length ys]"

lemma put_bytes_laid:
  assumes "ta_kind v = U8" "\<not> ab_immutable b" "is_bytes xs"
  obtains b' where "put_bytes v i xs b = Inr b'" "same_shape b b'" "u8_bytes v b' = laid_over i xs (u8_bytes v b)"
    "\<forall>j. j < ta_offset v \<or> ta_offset v + taLength v b \<le> j \<longrightarrow> ab_bytes b' ! j = ab_bytes b ! j"
  using put_bytes_list [OF assms, of i] by (auto simp: laid_over_def)

lemma low8_range: "low8 w < 256"
proof -
  have "w AND 0xff \<le> 0xff" by (rule word_and_le1)
  then show ?thesis by (simp add: low8_def word_le_nat_alt)
qed

lemma is_bytes_take: "is_bytes xs \<Longrightarrow> is_bytes (take n xs)"
  by (auto simp: is_bytes_def dest: in_set_takeD)

theorem write_fill_lists:
  assumes "ta_kind v = U8" "\<not> ab_immutable b" "is_jsstr s" "strToBytes s enc = Inr bs" "bs \<noteq> []"
    "0 \<le> off" "off \<le> int (taLength v b)"
  shows "\<exists>n b' b''. buf_write v s (SInt off) NoSlot enc b = Inr (int n, b') \<and>
    n = min (length bs) (taLength v b - nat off) \<and> same_shape b b' \<and>
    u8_bytes v b' = laid_over off (take n bs) (u8_bytes v b) \<and>
    buf_fill_bytes v (FStr s) (Some off) None enc b = Inr b'' \<and> same_shape b b'' \<and>
    u8_bytes v b'' = laid_over off (map (\<lambda>j. bs ! (j mod length bs)) [0..<taLength v b - nat off]) (u8_bytes v b) \<and>
    (\<forall>j. j < ta_offset v \<or> ta_offset v + taLength v b \<le> j \<longrightarrow>
      ab_bytes b' ! j = ab_bytes b ! j \<and> ab_bytes b'' ! j = ab_bytes b ! j)"
proof -
  let ?n = "min (length bs) (taLength v b - nat off)"
  let ?fill = "map (\<lambda>j. bs ! (j mod length bs)) [0..<taLength v b - nat off]"
  have bs: "is_bytes bs" using strToBytes_range [OF assms(3,4)] .
  obtain b' where b': "put_bytes v off (take ?n bs) b = Inr b'" "same_shape b b'"
    "u8_bytes v b' = laid_over off (take ?n bs) (u8_bytes v b)"
    "\<forall>j. j < ta_offset v \<or> ta_offset v + taLength v b \<le> j \<longrightarrow> ab_bytes b' ! j = ab_bytes b ! j"
    using put_bytes_laid [OF assms(1,2) is_bytes_take [OF bs]] .
  have "is_bytes ?fill" using bs assms(5) by (auto simp: is_bytes_def)
  then obtain b'' where b'': "put_bytes v off ?fill b = Inr b''" "same_shape b b''"
    "u8_bytes v b'' = laid_over off ?fill (u8_bytes v b)"
    "\<forall>j. j < ta_offset v \<or> ta_offset v + taLength v b \<le> j \<longrightarrow> ab_bytes b'' ! j = ab_bytes b ! j"
    using put_bytes_laid [OF assms(1,2)] by metis
  have n: "(if int (length bs) < int (taLength v b) - off then int (length bs) else int (taLength v b) - off) = int ?n"
    using assms(6,7) by auto
  have "buf_write v s (SInt off) NoSlot enc b = Inr (int ?n, b')"
    by (simp only: buf_write_def Let_def slot.case prod.case assms(4) bind_result_simps n nat_int b'(1))
  moreover have "nat (int (taLength v b) - off) = taLength v b - nat off" using assms(6) by simp
  then have "buf_fill_bytes v (FStr s) (Some off) None enc b = Inr b''"
    using b''(1) assms(4-6) by (simp add: buf_fill_bytes_def)
  ultimately show ?thesis using b'(2-4) b''(2-4) by blast
qed

text \<open>Between two memories, and within one when the ranges do not overlap upwards.\<close>

lemma put_byte_shape:
  assumes "ta_kind v = U8" "\<not> ab_immutable b"
  obtains b1 where "writeAt v i (Num (js_nat x)) b = Inr b1" "same_shape b b1"
proof -
  have "same_shape b (if P then b\<lparr>ab_bytes := (ab_bytes b)[k := y]\<rparr> else b)" for P k y
    by (auto simp: same_shape_def intro: exI [of _ "ab_bytes b"])
  then show thesis using put_byte [OF assms, of i x] that by blast
qed

lemma copy_loop_other:
  assumes "ta_kind v = U8" "0 \<le> ts" "0 \<le> ss" "ta_kind w = U8"
  shows "\<not> ab_immutable b \<Longrightarrow> ss + int k + int n \<le> int (taLength v c) \<Longrightarrow> ts + int k + int n \<le> int (taLength w b) \<Longrightarrow>
    copy_loop v w ts ss [k..<k + n] (Some c) b = put_bytes w (ts + int k) (take n (drop (nat ss + k) (u8_bytes v c))) b"
proof (induction n arbitrary: k b)
  case (Suc n)
  have k: "nat ss + k < taLength v c" "ss + int k = int (nat ss + k)" using Suc.prems assms(3) by linarith+
  have g: "bget v c (ss + int k) = u8_bytes v c ! (nat ss + k)" using bget_in [OF k(1) assms(1)] by (simp only: k(2))
  have d: "take (Suc n) (drop (nat ss + k) (u8_bytes v c)) =
      bget v c (ss + int k) # take n (drop (nat ss + Suc k) (u8_bytes v c))"
    using k(1) by (simp add: g flip: Cons_nth_drop_Suc)
  obtain b1 where b1: "writeAt w (ts + int k) (Num (js_nat (bget v c (ss + int k)))) b = Inr b1" "same_shape b b1"
    using put_byte_shape [OF assms(4) Suc.prems(1)] .
  have "copy_loop v w ts ss [Suc k..<Suc k + n] (Some c) b1 =
      put_bytes w (ts + int (Suc k)) (take n (drop (nat ss + Suc k) (u8_bytes v c))) b1"
    using Suc.prems same_shape_simps [OF b1(2)] by (intro Suc.IH) simp_all
  moreover have "[k..<k + Suc n] = k # [Suc k..<Suc k + n]" by (simp add: upt_conv_Cons del: upt_Suc)
  ultimately show ?case using b1(1) Suc.prems(3) unfolding d by (simp add: ac_simps del: upt_Suc)
qed simp

theorem copy_list:
  assumes "ta_kind v = U8" "ta_kind w = U8" "\<not> ab_immutable b" "0 \<le> ts" "0 \<le> ss" "ss < se" "se \<le> int (taLength v c)"
    "ts + (se - ss) \<le> int (taLength w b)"
  shows "\<exists>b'. buf_copy_to v (Some c) w (Some ts) (Some ss) (Some se) b = Inr (se - ss, b') \<and> same_shape b b' \<and>
    u8_bytes w b' = laid_over ts (drop (nat ss) (take (nat se) (u8_bytes v c))) (u8_bytes w b)"
proof -
  define xs where "xs = take (nat (se - ss)) (drop (nat ss) (u8_bytes v c))"
  have xs: "xs = drop (nat ss) (take (nat se) (u8_bytes v c))" using assms(5,6) by (simp add: xs_def take_drop nat_diff_distrib)
  have "is_bytes xs" using u8_bytes_elems [OF assms(1), of c] by (auto simp: xs_def is_bytes_def dest: in_set_takeD in_set_dropD)
  then obtain b' where b': "put_bytes w ts xs b = Inr b'" "same_shape b b'" "u8_bytes w b' = laid_over ts xs (u8_bytes w b)"
    using put_bytes_laid [OF assms(2,3)] by metis
  have "copy_loop v w ts ss [0..<nat (se - ss)] (Some c) b = Inr b'"
    using copy_loop_other [OF assms(1,4,5,2,3), of 0 "nat (se - ss)" c] assms(6-8) b'(1) by (simp add: xs_def)
  then show ?thesis using b'(2,3) assms(6,7) unfolding xs by (auto simp: buf_copy_to_def Let_def)
qed

section \<open>Examples\<close>

text \<open>\<open>bytes_view n\<close> is the whole of \<open>bytes_buffer m\<close> for a list of \<open>n\<close> bytes.\<close>

lemma bytes_view_simps [simp]:
  "ta_kind (bytes_view n) = U8" "\<not> ab_immutable (bytes_buffer m)" "length m = n \<Longrightarrow> \<not> taIsOutOfBounds (bytes_view n) (bytes_buffer m)"
  "length m = n \<Longrightarrow> taLength (bytes_view n) (bytes_buffer m) = n" "ab_bytes (bytes_buffer m) = m" "ta_offset (bytes_view n) = 0"
  by (auto simp: bytes_view_def bytes_buffer_def taIsOutOfBounds_def taLength_def)

lemma view_bytes: "length m = n \<Longrightarrow> u8_bytes (bytes_view n) (bytes_buffer m) = map unat m"
  by (simp add: u8_bytes_mem)

theorem compare_is_lexicographic_witness: "buf_compare (bytes_view 2) (bytes_buffer [1, 2]) (bytes_view 1) (bytes_buffer [3]) None = -1"
  using compare_is_lexicographic [of "bytes_view 2" "bytes_view 1" "bytes_buffer [1, 2]" "bytes_buffer [3]"] by (simp add: view_bytes)

theorem from_string_roundtrip_witness:
  "bind_result (buf_from (AString [0x20ac, 0xd800] None)) (\<lambda>(v, b). buf_toString v b None None None) = Inr [0x20ac, 0xd800]"
  using from_string_roundtrip [of "[0x20ac, 0xd800]" None] by (simp add: BUF_ENCODE_CHUNK_def normalizeEnc_def)

theorem concat_list_witness:
  "\<exists>w out. buf_concat [Inr (bytes_view 2, bytes_buffer [1, 2]), Inr (bytes_view 0, bytes_buffer []), Inr (bytes_view 2, bytes_buffer [3, 4])]
      (VNum (Fin 3)) = Inr (w, out) \<and> u8_bytes w out = [1, 2, 3]"
proof -
  have "concat_total (VNum (Fin 3)) n = Inr 3" for n
    using num_int_of_int [of 3] by (simp add: concat_total_def K_MAX_LENGTH_def to_int32_num del: num_int_of_int)
  then show ?thesis
    using concat_list [of "[(bytes_view 2, bytes_buffer [1, 2]), (bytes_view 0, bytes_buffer []), (bytes_view 2, bytes_buffer [3, 4])]" "VNum (Fin 3)" 3]
    by (auto simp: view_bytes AB_ALLOC_LIMIT_def)
qed

theorem indexOf_first_witness:
  "\<exists>r. buf_indexOf (bytes_view 4) (bytes_buffer [7, 8, 7, 8]) (SearchView (bytes_view 1) (bytes_buffer [7])) (Some 1) None = Inr r \<and> r \<noteq> -1"
proof -
  have "occurs_at [7] [7, 8, 7, 8 :: nat] 2" by (simp add: occurs_at_def)
  then show ?thesis
    using indexOf_first [of "bytes_view 4" "bytes_view 1" "bytes_buffer [7]" "bytes_buffer [7, 8, 7, 8]" "Some 1" None]
    by (auto simp: view_bytes Let_def search_start_def)
qed

theorem subarray_shares_witness:
  "\<exists>w. buf_subarray (bytes_view 4) (bytes_buffer [7, 8, 9, 9]) (Some (-3)) (Some 3) = Inr (w, bytes_buffer [7, 8, 9, 9]) \<and>
     u8_bytes w (bytes_buffer [7, 8, 9, 9]) = [8, 9]"
  using subarray_shares [of "bytes_view 4" "bytes_buffer [7, 8, 9, 9]" "Some (-3)" "Some 3"]
  by (auto simp: view_bytes AB_ALLOC_LIMIT_def clip_def Let_def)

theorem write_fill_lists_witness:
  "\<exists>n b' b''. buf_write (bytes_view 4) [97, 98, 99] (SInt 2) NoSlot None (bytes_buffer [7, 8, 9, 9]) = Inr (int n, b') \<and>
     u8_bytes (bytes_view 4) b' = [7, 8, 97, 98] \<and>
     buf_fill_bytes (bytes_view 4) (FStr [97, 98, 99]) (Some 2) None None (bytes_buffer [7, 8, 9, 9]) = Inr b''"
proof -
  have "strToBytes [97, 98, 99] None = Inr [97, 98, 99]"
    by (simp add: strToBytes_def normalizeEnc_def encodeUtf8_text K_STRING_MAX_LENGTH_def utf8_bytes_def)
  from write_fill_lists [OF _ _ _ this, of "bytes_view 4" "bytes_buffer [7, 8, 9, 9]" 2] show ?thesis
    by (fastforce simp: view_bytes laid_over_def upt_rec)
qed

theorem copy_list_witness:
  "\<exists>b'. buf_copy_to (bytes_view 2) (Some (bytes_buffer [1, 2])) (bytes_view 4) (Some 1) (Some 0) (Some 2) (bytes_buffer [7, 8, 9, 9]) = Inr (2, b') \<and>
     u8_bytes (bytes_view 4) b' = [7, 1, 2, 9]"
  using copy_list [of "bytes_view 2" "bytes_view 4" "bytes_buffer [7, 8, 9, 9]" 1 0 2 "bytes_buffer [1, 2]"]
  by (auto simp: view_bytes laid_over_def upt_rec)

section \<open>Where the code departs from Node\<close>

lemma bget_view:
  "length m = n \<Longrightarrow> bget (bytes_view n) (bytes_buffer m) i = (if 0 \<le> i \<and> i < int n then unat (m ! nat i) else 0)"
  using bget_in [of "nat i" "bytes_view n" "bytes_buffer m"] bget_out [of i "bytes_view n" "bytes_buffer m"] by (auto simp: view_bytes)

text \<open>A number is searched from the end of the buffer down to the position, and not from the position down.\<close>

lemma lastIndexOf_ahead:
  "buf_lastIndexOf (bytes_view 3) (bytes_buffer [1, 2, 1]) (SearchNum (js_nat 1)) (Some 0) None = Inr 2"
  by (simp add: buf_lastIndexOf_def buf_search_def first_of_def bget_view low8_def to_int32_num upto.simps Let_def)

text \<open>Overlapping ranges are copied upwards, and bytes that do not fit are counted.\<close>

lemma copy_overlap:
  "map_sum id (map_prod id ab_bytes) (buf_copy_to (bytes_view 3) None (bytes_view 3) (Some 1) None None (bytes_buffer [1, 2, 3])) =
     Inr (3, [1, 1, 1])"
proof -
  have shape: "bytes_buffer m\<lparr>ab_bytes := m'\<rparr> = bytes_buffer m'" if "length m = length m'" for m m'
    using that by (simp add: bytes_buffer_def)
  have l: "[0..<3] = [0, 1, 2 :: nat]" by (simp add: upt_rec)
  show ?thesis by (simp add: buf_copy_to_def Let_def l put_byte bget_view shape)
qed

text \<open>A write past the end returns a negative count.\<close>

lemma write_negative_count: "buf_write (bytes_view 2) [97] (SInt 5) NoSlot None (bytes_buffer [1, 2]) = Inr (-3, bytes_buffer [1, 2])"
proof -
  have "strToBytes [97] None = Inr [97]"
    by (simp add: strToBytes_def normalizeEnc_def encodeUtf8_text K_STRING_MAX_LENGTH_def utf8_bytes_def)
  then show ?thesis by (simp add: buf_write_def)
qed

text \<open>An empty string and a view leave the buffer as it is, where Node fills it with zeros and with the view.\<close>

lemma fill_ignored:
  "buf_fill_bytes v (FStr []) None None None b = Inr b" "buf_fill_bytes v FOther None None None b = Inr b"
  by (simp_all add: buf_fill_bytes_def strToBytes_def normalizeEnc_def encodeUtf8_text K_STRING_MAX_LENGTH_def)

end
