(* ===== verification/BufferNumbers.thy ===== *)
theory BufferNumbers
  imports Buffers
begin

text \<open>
  \<open>buffer.js\<close>: the accessors of integers. Bitwise operators work on 32 bits, so bytes are read and written as
  words; \<open>>>>\<close> of a byte pattern is \<open>drop_bit\<close>, \<open>>>\<close> is \<open>signed_drop_bit\<close>.
\<close>

section \<open>Offsets\<close>

definition checkOffset :: "jsval \<Rightarrow> nat \<Rightarrow> nat \<Rightarrow> nat result" where
  "checkOffset offset byteLength bufLength =
     (let fast = (case offset of
                    VNum (Fin q) \<Rightarrow> 0 \<le> q \<and> of_int (sint (to_int32 (Fin q))) = q \<and>
                      q \<le> of_int (int bufLength - int byteLength) \<and> byteLength \<le> bufLength
                  | _ \<Rightarrow> False)
      in bind_result
           (case offset of
              VUndef \<Rightarrow> Inr (Fin 0)
            | VNum n \<Rightarrow> Inr n
            | _ \<Rightarrow> Inl (CodedError ''ERR_INVALID_ARG_TYPE''))
           (\<lambda>n. if fast then Inr (nat (num_int n))
                else if bufLength < byteLength then Inl (CodedError ''ERR_BUFFER_OUT_OF_BOUNDS'')
                else case n of
                  NaN \<Rightarrow> Inl (CodedError ''ERR_OUT_OF_RANGE'')
                | PosInf \<Rightarrow> Inl (CodedError ''ERR_OUT_OF_RANGE'')
                | NegInf \<Rightarrow> Inl (CodedError ''ERR_OUT_OF_RANGE'')
                | Fin q \<Rightarrow>
                    if of_int \<lfloor>q\<rfloor> \<noteq> q then Inl (CodedError ''ERR_OUT_OF_RANGE'')
                    else if of_int (int bufLength - int byteLength) < q \<or> q < 0 then Inl (CodedError ''ERR_OUT_OF_RANGE'')
                    else Inr (nat \<lfloor>q\<rfloor>)))"

section \<open>Reading\<close>

definition bword :: "typed_array \<Rightarrow> array_buffer \<Rightarrow> nat \<Rightarrow> 32 word" where
  "bword v b i = of_nat (bget v b (int i))"

definition at_offset :: "typed_array \<Rightarrow> array_buffer \<Rightarrow> jsval \<Rightarrow> nat \<Rightarrow> (nat \<Rightarrow> 'a result) \<Rightarrow> 'a result" where
  "at_offset v b offset size0 f = bind_result (checkOffset offset size0 (taLength v b)) f"

definition readUInt8 :: "typed_array \<Rightarrow> array_buffer \<Rightarrow> jsval \<Rightarrow> int result" where
  "readUInt8 v b offset = at_offset v b offset 1 (\<lambda>i. Inr (uint (bword v b i)))"

definition readUInt16BE :: "typed_array \<Rightarrow> array_buffer \<Rightarrow> jsval \<Rightarrow> int result" where
  "readUInt16BE v b offset =
     at_offset v b offset 2 (\<lambda>i. Inr (uint (push_bit 8 (bword v b i) OR bword v b (i + 1))))"

definition readUInt16LE :: "typed_array \<Rightarrow> array_buffer \<Rightarrow> jsval \<Rightarrow> int result" where
  "readUInt16LE v b offset =
     at_offset v b offset 2 (\<lambda>i. Inr (uint (bword v b i OR push_bit 8 (bword v b (i + 1)))))"

text \<open>The sum of the four parts is a number; \<open>>>> 0\<close> takes it modulo 2^32.\<close>

definition readUInt32BE :: "typed_array \<Rightarrow> array_buffer \<Rightarrow> jsval \<Rightarrow> int result" where
  "readUInt32BE v b offset =
     at_offset v b offset 4 (\<lambda>i.
       Inr ((uint (bword v b i) * 0x1000000 + sint (push_bit 16 (bword v b (i + 1))) +
             sint (push_bit 8 (bword v b (i + 2))) + uint (bword v b (i + 3))) mod 2 ^ 32))"

definition readUInt32LE :: "typed_array \<Rightarrow> array_buffer \<Rightarrow> jsval \<Rightarrow> int result" where
  "readUInt32LE v b offset =
     at_offset v b offset 4 (\<lambda>i.
       Inr ((uint (bword v b i) + sint (push_bit 8 (bword v b (i + 1))) + sint (push_bit 16 (bword v b (i + 2))) +
             uint (bword v b (i + 3)) * 0x1000000) mod 2 ^ 32))"

definition readInt8 :: "typed_array \<Rightarrow> array_buffer \<Rightarrow> jsval \<Rightarrow> int result" where
  "readInt8 v b offset = bind_result (readUInt8 v b offset) (\<lambda>x. Inr (if 0x80 \<le> x then x - 0x100 else x))"

definition readInt16BE :: "typed_array \<Rightarrow> array_buffer \<Rightarrow> jsval \<Rightarrow> int result" where
  "readInt16BE v b offset = bind_result (readUInt16BE v b offset) (\<lambda>x. Inr (if 0x8000 \<le> x then x - 0x10000 else x))"

definition readInt16LE :: "typed_array \<Rightarrow> array_buffer \<Rightarrow> jsval \<Rightarrow> int result" where
  "readInt16LE v b offset = bind_result (readUInt16LE v b offset) (\<lambda>x. Inr (if 0x8000 \<le> x then x - 0x10000 else x))"

definition readInt32BE :: "typed_array \<Rightarrow> array_buffer \<Rightarrow> jsval \<Rightarrow> int result" where
  "readInt32BE v b offset =
     at_offset v b offset 4 (\<lambda>i.
       Inr (sint (((push_bit 24 (bword v b i) OR push_bit 16 (bword v b (i + 1))) OR push_bit 8 (bword v b (i + 2))) OR
                  bword v b (i + 3))))"

definition readInt32LE :: "typed_array \<Rightarrow> array_buffer \<Rightarrow> jsval \<Rightarrow> int result" where
  "readInt32LE v b offset =
     at_offset v b offset 4 (\<lambda>i.
       Inr (sint (((bword v b i OR push_bit 8 (bword v b (i + 1))) OR push_bit 16 (bword v b (i + 2))) OR
                  push_bit 24 (bword v b (i + 3)))))"

definition buf_uint32PairToBigInt :: "int \<Rightarrow> int \<Rightarrow> int" where
  "buf_uint32PairToBigInt hi lo = hi * 4294967296 + lo"

definition buf_unsigned64ToSigned :: "int \<Rightarrow> int" where
  "buf_unsigned64ToSigned u =
     (if u = 18446744073709551615 then -1
      else if 9223372036854775808 \<le> u
      then (let diff = u - 18446744073709551616 in if diff = u then -1 else diff)
      else u)"

definition vnat :: "nat \<Rightarrow> jsval" where "vnat n = VNum (js_nat n)"

definition readBigUInt64BE :: "typed_array \<Rightarrow> array_buffer \<Rightarrow> jsval \<Rightarrow> int result" where
  "readBigUInt64BE v b offset =
     at_offset v b offset 8 (\<lambda>i. bind_result (readUInt32BE v b (vnat i)) (\<lambda>hi.
       bind_result (readUInt32BE v b (vnat (i + 4))) (\<lambda>lo. Inr (buf_uint32PairToBigInt hi lo))))"

definition readBigUInt64LE :: "typed_array \<Rightarrow> array_buffer \<Rightarrow> jsval \<Rightarrow> int result" where
  "readBigUInt64LE v b offset =
     at_offset v b offset 8 (\<lambda>i. bind_result (readUInt32LE v b (vnat (i + 4))) (\<lambda>hi.
       bind_result (readUInt32LE v b (vnat i)) (\<lambda>lo. Inr (buf_uint32PairToBigInt hi lo))))"

definition signed_pair :: "int \<Rightarrow> int \<Rightarrow> int" where
  "signed_pair hi lo =
     (if hi = 0xffffffff \<and> lo = 0xffffffff then -1 else buf_unsigned64ToSigned (buf_uint32PairToBigInt hi lo))"

definition readBigInt64BE :: "typed_array \<Rightarrow> array_buffer \<Rightarrow> jsval \<Rightarrow> int result" where
  "readBigInt64BE v b offset =
     at_offset v b offset 8 (\<lambda>i. bind_result (readUInt32BE v b (vnat i)) (\<lambda>hi.
       bind_result (readUInt32BE v b (vnat (i + 4))) (\<lambda>lo. Inr (signed_pair hi lo))))"

definition readBigInt64LE :: "typed_array \<Rightarrow> array_buffer \<Rightarrow> jsval \<Rightarrow> int result" where
  "readBigInt64LE v b offset =
     at_offset v b offset 8 (\<lambda>i. bind_result (readUInt32LE v b (vnat i)) (\<lambda>lo.
       bind_result (readUInt32LE v b (vnat (i + 4))) (\<lambda>hi. Inr (signed_pair hi lo))))"

section \<open>Writing\<close>

text \<open>A writer stores the low bytes of the words it is given and returns the offset after them.\<close>

definition write_words ::
  "typed_array \<Rightarrow> jsval \<Rightarrow> 32 word list \<Rightarrow> array_buffer \<Rightarrow> (nat \<times> array_buffer) result" where
  "write_words v offset ws b =
     at_offset v b offset (length ws) (\<lambda>i.
       bind_result (put_bytes v (int i) (map low8 ws) b) (\<lambda>b'. Inr (i + length ws, b')))"

definition writeUInt8 :: "typed_array \<Rightarrow> jsnum \<Rightarrow> jsval \<Rightarrow> array_buffer \<Rightarrow> (nat \<times> array_buffer) result" where
  "writeUInt8 v value offset b = write_words v offset [to_int32 value] b"

definition writeUInt16BE :: "typed_array \<Rightarrow> jsnum \<Rightarrow> jsval \<Rightarrow> array_buffer \<Rightarrow> (nat \<times> array_buffer) result" where
  "writeUInt16BE v value offset b = write_words v offset [drop_bit 8 (to_int32 value), to_int32 value] b"

definition writeUInt16LE :: "typed_array \<Rightarrow> jsnum \<Rightarrow> jsval \<Rightarrow> array_buffer \<Rightarrow> (nat \<times> array_buffer) result" where
  "writeUInt16LE v value offset b = write_words v offset [to_int32 value, drop_bit 8 (to_int32 value)] b"

definition writeUInt32BE :: "typed_array \<Rightarrow> jsnum \<Rightarrow> jsval \<Rightarrow> array_buffer \<Rightarrow> (nat \<times> array_buffer) result" where
  "writeUInt32BE v value offset b =
     (let w = to_int32 value in write_words v offset [drop_bit 24 w, drop_bit 16 w, drop_bit 8 w, w] b)"

definition writeUInt32LE :: "typed_array \<Rightarrow> jsnum \<Rightarrow> jsval \<Rightarrow> array_buffer \<Rightarrow> (nat \<times> array_buffer) result" where
  "writeUInt32LE v value offset b =
     (let w = to_int32 value in write_words v offset [w, drop_bit 8 w, drop_bit 16 w, drop_bit 24 w] b)"

definition writeInt8 :: "typed_array \<Rightarrow> jsnum \<Rightarrow> jsval \<Rightarrow> array_buffer \<Rightarrow> (nat \<times> array_buffer) result" where
  "writeInt8 v value offset b = writeUInt8 v value offset b"

definition low16 :: "jsnum \<Rightarrow> jsnum" where
  "low16 value = Fin (of_int (sint (to_int32 value AND 0xffff)))"

definition writeInt16BE :: "typed_array \<Rightarrow> jsnum \<Rightarrow> jsval \<Rightarrow> array_buffer \<Rightarrow> (nat \<times> array_buffer) result" where
  "writeInt16BE v value offset b = writeUInt16BE v (low16 value) offset b"

definition writeInt16LE :: "typed_array \<Rightarrow> jsnum \<Rightarrow> jsval \<Rightarrow> array_buffer \<Rightarrow> (nat \<times> array_buffer) result" where
  "writeInt16LE v value offset b = writeUInt16LE v (low16 value) offset b"

definition writeInt32BE :: "typed_array \<Rightarrow> jsnum \<Rightarrow> jsval \<Rightarrow> array_buffer \<Rightarrow> (nat \<times> array_buffer) result" where
  "writeInt32BE v value offset b =
     (let w = to_int32 value
      in write_words v offset [signed_drop_bit 24 w, signed_drop_bit 16 w, signed_drop_bit 8 w, w] b)"

definition writeInt32LE :: "typed_array \<Rightarrow> jsnum \<Rightarrow> jsval \<Rightarrow> array_buffer \<Rightarrow> (nat \<times> array_buffer) result" where
  "writeInt32LE v value offset b =
     (let w = to_int32 value
      in write_words v offset [w, signed_drop_bit 8 w, signed_drop_bit 16 w, signed_drop_bit 24 w] b)"

text \<open>The halves of a \<open>BigInt\<close>, as numbers.\<close>

definition bigIntToHiLoBE :: "int \<Rightarrow> int \<times> int" where
  "bigIntToHiLoBE v =
     (if v = 18446744073709551615 \<or> v = -1 then (0xffffffff, 0xffffffff)
      else (drop_bit 32 v AND 0xffffffff, v AND 0xffffffff))"

definition writeBigUInt64BE :: "typed_array \<Rightarrow> int \<Rightarrow> jsval \<Rightarrow> array_buffer \<Rightarrow> (nat \<times> array_buffer) result" where
  "writeBigUInt64BE v value offset b =
     at_offset v b offset 8 (\<lambda>i.
       let (hi, lo) = bigIntToHiLoBE value
       in bind_result (writeUInt32BE v (Fin (of_int hi)) (vnat i) b) (\<lambda>(_, b').
          bind_result (writeUInt32BE v (Fin (of_int lo)) (vnat (i + 4)) b') (\<lambda>(_, b''). Inr (i + 8, b''))))"

definition writeBigUInt64LE :: "typed_array \<Rightarrow> int \<Rightarrow> jsval \<Rightarrow> array_buffer \<Rightarrow> (nat \<times> array_buffer) result" where
  "writeBigUInt64LE v value offset b =
     at_offset v b offset 8 (\<lambda>i.
       let (hi, lo) = bigIntToHiLoBE value
       in bind_result (writeUInt32LE v (Fin (of_int lo)) (vnat i) b) (\<lambda>(_, b').
          bind_result (writeUInt32LE v (Fin (of_int hi)) (vnat (i + 4)) b') (\<lambda>(_, b''). Inr (i + 8, b''))))"

definition writeBigInt64BE :: "typed_array \<Rightarrow> int \<Rightarrow> jsval \<Rightarrow> array_buffer \<Rightarrow> (nat \<times> array_buffer) result" where
  "writeBigInt64BE v value offset b = writeBigUInt64BE v value offset b"

definition writeBigInt64LE :: "typed_array \<Rightarrow> int \<Rightarrow> jsval \<Rightarrow> array_buffer \<Rightarrow> (nat \<times> array_buffer) result" where
  "writeBigInt64LE v value offset b = writeBigUInt64LE v value offset b"

section \<open>Offsets that pass\<close>

lemma checkOffset_Inr: "checkOffset offset n len = Inr i \<Longrightarrow> i + n \<le> len"
proof -
  assume a: "checkOffset offset n len = Inr i"
  have fast: "nat (trunc_rat q) + n \<le> len" if "signed w = q" "q \<le> of_nat len - of_nat n" "n \<le> len" for q and w :: "32 word"
  proof -
    have k: "of_int (sint w) = q" using that(1) by simp
    then have "trunc_rat q = sint w" using num_int_of_int [of "sint w"] by simp
    moreover have "sint w \<le> int len - int n"
      using that(2) of_int_le_iff [of "sint w" "int len - int n", where 'a = rat] unfolding k [symmetric] by simp
    ultimately show ?thesis using that(3) by linarith
  qed
  have slow: "nat \<lfloor>q\<rfloor> + n \<le> len" if "of_int \<lfloor>q\<rfloor> = q" "\<not> of_int (int len - int n) < q" "n \<le> len" for q :: rat
  proof -
    have "\<lfloor>q\<rfloor> \<le> int len - int n" using that(2) by (simp add: floor_le_iff linorder_not_less)
    then show ?thesis using that(3) by linarith
  qed
  show ?thesis using a slow
    by (auto simp: checkOffset_def bind_result_Inr Let_def linorder_not_less intro: fast split: jsval.splits jsnum.splits if_splits)
qed

lemma checkOffset_nat: "i + n \<le> len \<Longrightarrow> checkOffset (vnat i) n len = Inr i"
proof -
  assume a: "i + n \<le> len"
  have "\<lfloor>rat_of_nat i\<rfloor> = int i" by simp
  moreover have "\<not> rat_of_int (int len - int n) < rat_of_nat i"
    using a of_int_le_iff [of "int i" "int len - int n", where 'a = rat] by (simp add: linorder_not_less)
  ultimately show ?thesis using a by (simp add: checkOffset_def vnat_def Let_def) (simp add: js_nat_def)
qed

section \<open>Words of bytes\<close>

definition is_byte :: "32 word \<Rightarrow> bool" where
  "is_byte x \<longleftrightarrow> (\<forall>n. bit x n \<longrightarrow> n < 8)"

lemma getByte_byte: "is_byte (getByte m off)"
  using bit_imp_le_length [of "m ! off"] by (auto simp: is_byte_def getByte_def bit_simps)

lemma sum_word:
  assumes "is_byte a" "is_byte b" "is_byte c" "is_byte d"
  shows "(uint a * 0x1000000 + sint (push_bit 16 b) + sint (push_bit 8 c) + uint d) mod 2 ^ 32 =
    uint (((push_bit 24 a OR push_bit 16 b) OR push_bit 8 c) OR d)"
proof -
  have or_add: "x OR y = x + y" if "x AND y = 0" for x y :: "32 word"
    using word_plus_and_or [of x y] that by simp
  have z: "push_bit 24 a AND push_bit 16 b = 0" "(push_bit 24 a OR push_bit 16 b) AND push_bit 8 c = 0"
    "((push_bit 24 a OR push_bit 16 b) OR push_bit 8 c) AND d = 0"
    using assms by (auto intro!: bit_word_eqI simp: bit_simps is_byte_def) force+
  have "((push_bit 24 a OR push_bit 16 b) OR push_bit 8 c) OR d = push_bit 24 a + push_bit 16 b + push_bit 8 c + d"
    using or_add [OF z(1)] or_add [OF z(2)] or_add [OF z(3)] by simp
  also have "\<dots> = word_of_int (uint a * 0x1000000 + sint (push_bit 16 b) + sint (push_bit 8 c) + uint d)"
    by (simp add: push_bit_eq_mult)
  finally show ?thesis by (simp only: uint_full)
qed

lemma sint_pair: "is_byte a \<Longrightarrow> is_byte b \<Longrightarrow> sint (push_bit 8 a OR b) = uint (push_bit 8 a OR b)"
proof -
  assume "is_byte a" "is_byte b"
  then have "\<not> bit (push_bit 8 a OR b) (LENGTH(32) - Suc 0)" by (auto simp: bit_simps is_byte_def)
  then have "0 \<le> sint (push_bit 8 a OR b)" by (simp only: bit_last_iff linorder_not_less)
  moreover have "sint (push_bit 8 a OR b) < 2 ^ 32" using sint_lt [of "push_bit 8 a OR b"] by simp
  ultimately show ?thesis using uint_full [of "sint (push_bit 8 a OR b)"] by simp
qed

lemma bword_byte: "i < taLength v b \<Longrightarrow> ta_kind v = U8 \<Longrightarrow> bword v b i = getByte (ab_bytes b) (ta_offset v + i)"
  by (simp add: bword_def bget_in nth_u8_bytes getByte_def)

section \<open>Reading is reading through a DataView\<close>

fun read_num :: "elem_kind \<Rightarrow> bool \<Rightarrow> typed_array \<Rightarrow> array_buffer \<Rightarrow> jsval \<Rightarrow> int result" where
  "read_num U8 le = readUInt8"
| "read_num I8 le = readInt8"
| "read_num U16 le = (if le then readUInt16LE else readUInt16BE)"
| "read_num I16 le = (if le then readInt16LE else readInt16BE)"
| "read_num U32 le = (if le then readUInt32LE else readUInt32BE)"
| "read_num I32 le = (if le then readInt32LE else readInt32BE)"
| "read_num BU64 le = (if le then readBigUInt64LE else readBigUInt64BE)"
| "read_num BI64 le = (if le then readBigInt64LE else readBigInt64BE)"
| "read_num U8C le = readUInt8"

lemma at_offset_cong:
  "(\<And>i. i + n \<le> taLength v b \<Longrightarrow> f i = g i) \<Longrightarrow> at_offset v b offset n f = at_offset v b offset n g"
  using checkOffset_Inr [of offset n "taLength v b"]
  by (cases "checkOffset offset n (taLength v b)") (auto simp: at_offset_def)

lemma at_offset_bind: "bind_result (at_offset v b offset n f) g = at_offset v b offset n (\<lambda>i. bind_result (f i) g)"
  by (cases "checkOffset offset n (taLength v b)") (simp_all add: at_offset_def)

lemma at_offset_nat: "i + n \<le> taLength v b \<Longrightarrow> at_offset v b (vnat i) n f = f i"
  by (simp add: at_offset_def checkOffset_nat)

lemma bwords2:
  assumes "ta_kind v = U8" "i + 2 \<le> taLength v b"
  shows "bword v b i = getByte (ab_bytes b) (ta_offset v + i)" "bword v b (i + 1) = getByte (ab_bytes b) (ta_offset v + i + 1)"
  using assms by (simp_all add: bword_byte add.assoc)

lemma bwords4:
  assumes "ta_kind v = U8" "i + 4 \<le> taLength v b"
  shows "bword v b i = getByte (ab_bytes b) (ta_offset v + i)" "bword v b (i + 1) = getByte (ab_bytes b) (ta_offset v + i + 1)"
    "bword v b (i + 2) = getByte (ab_bytes b) (ta_offset v + i + 2)" "bword v b (i + 3) = getByte (ab_bytes b) (ta_offset v + i + 3)"
  using assms by (simp_all add: bword_byte add.assoc)

lemma read_word:
  assumes "ta_kind v = U8"
  shows "readUInt32BE v b offset = at_offset v b offset 4 (\<lambda>i. Inr (uint (be_word (ab_bytes b) (ta_offset v + i))))"
    "readUInt32LE v b offset = at_offset v b offset 4 (\<lambda>i. Inr (uint (le_word (ab_bytes b) (ta_offset v + i))))"
    "readInt32BE v b offset = at_offset v b offset 4 (\<lambda>i. Inr (sint (be_word (ab_bytes b) (ta_offset v + i))))"
    "readInt32LE v b offset = at_offset v b offset 4 (\<lambda>i. Inr (sint (le_word (ab_bytes b) (ta_offset v + i))))"
proof -
  note sw = sum_word [OF getByte_byte getByte_byte getByte_byte getByte_byte]
  note w4 = bwords4 [OF assms]
  show "readUInt32BE v b offset = at_offset v b offset 4 (\<lambda>i. Inr (uint (be_word (ab_bytes b) (ta_offset v + i))))"
    unfolding readUInt32BE_def be_word_def
    by (rule at_offset_cong) (simp only: w4 sw or.assoc)
  have rev: "(a + b + c + d) = (d + c + b + a)" for a b c d :: int by simp
  have revw: "((a OR b) OR c) OR d = ((d OR c) OR b) OR a" for a b c d :: "32 word" by (simp only: ac_simps)
  show "readUInt32LE v b offset = at_offset v b offset 4 (\<lambda>i. Inr (uint (le_word (ab_bytes b) (ta_offset v + i))))"
    unfolding readUInt32LE_def le_word_def or.assoc [symmetric]
    by (rule at_offset_cong, subst rev, subst revw) (simp only: w4 sw)
  show "readInt32BE v b offset = at_offset v b offset 4 (\<lambda>i. Inr (sint (be_word (ab_bytes b) (ta_offset v + i))))"
    unfolding readInt32BE_def be_word_def
    by (rule at_offset_cong) (simp only: w4 or.assoc)
  show "readInt32LE v b offset = at_offset v b offset 4 (\<lambda>i. Inr (sint (le_word (ab_bytes b) (ta_offset v + i))))"
    unfolding readInt32LE_def le_word_def
    by (rule at_offset_cong) (simp only: w4 or.assoc)
qed

lemma read_small:
  assumes "ta_kind v = U8"
  shows "readUInt8 v b offset = at_offset v b offset 1 (\<lambda>i. Inr (getU8 (ab_bytes b) (ta_offset v + i)))"
    "readUInt16BE v b offset = at_offset v b offset 2 (\<lambda>i. Inr (be_getU16 (ab_bytes b) (ta_offset v + i)))"
    "readUInt16LE v b offset = at_offset v b offset 2 (\<lambda>i. Inr (getU16 (ab_bytes b) (ta_offset v + i)))"
proof -
  note w2 = bwords2 [OF assms]
  show "readUInt8 v b offset = at_offset v b offset 1 (\<lambda>i. Inr (getU8 (ab_bytes b) (ta_offset v + i)))"
    unfolding readUInt8_def getU8_def by (rule at_offset_cong) (simp add: bword_byte assms)
  show "readUInt16BE v b offset = at_offset v b offset 2 (\<lambda>i. Inr (be_getU16 (ab_bytes b) (ta_offset v + i)))"
    unfolding readUInt16BE_def be_getU16_def
    by (rule at_offset_cong) (simp only: w2 sint_pair [OF getByte_byte getByte_byte])
  have "sint (a OR push_bit 8 b) = uint (a OR push_bit 8 b)" if "is_byte a" "is_byte b" for a b
    using sint_pair [OF that(2,1)] by (simp only: or.commute)
  note le = this [OF getByte_byte getByte_byte]
  show "readUInt16LE v b offset = at_offset v b offset 2 (\<lambda>i. Inr (getU16 (ab_bytes b) (ta_offset v + i)))"
    unfolding readUInt16LE_def getU16_def
    by (rule at_offset_cong) (simp only: w2 le)
qed

lemma read_pair:
  assumes "ta_kind v = U8" "i + 8 \<le> taLength v b"
  shows "readUInt32BE v b (vnat i) = Inr (uint (be_word (ab_bytes b) (ta_offset v + i)))"
    "readUInt32BE v b (vnat (i + 4)) = Inr (uint (be_word (ab_bytes b) (ta_offset v + i + 4)))"
    "readUInt32LE v b (vnat i) = Inr (uint (le_word (ab_bytes b) (ta_offset v + i)))"
    "readUInt32LE v b (vnat (i + 4)) = Inr (uint (le_word (ab_bytes b) (ta_offset v + i + 4)))"
  using assms(2) by (simp_all add: read_word [OF assms(1)] at_offset_nat add.assoc)

lemma signed_pair_eq: "signed_pair (uint hi) (uint lo) = unsigned64ToSignedBigInt (uint32PairToBigInt hi lo)"
  by (auto simp: signed_pair_def buf_unsigned64ToSigned_def buf_uint32PairToBigInt_def unsigned64ToSignedBigInt_def
      uint32PairToBigInt_def Let_def)

lemma read_big:
  assumes "ta_kind v = U8"
  shows "readBigUInt64BE v b offset = at_offset v b offset 8 (\<lambda>i. Inr (getBigUint64 (ab_bytes b) (ta_offset v + i) False))"
    "readBigUInt64LE v b offset = at_offset v b offset 8 (\<lambda>i. Inr (getBigUint64 (ab_bytes b) (ta_offset v + i) True))"
    "readBigInt64BE v b offset = at_offset v b offset 8 (\<lambda>i. Inr (getBigInt64 (ab_bytes b) (ta_offset v + i) False))"
    "readBigInt64LE v b offset = at_offset v b offset 8 (\<lambda>i. Inr (getBigInt64 (ab_bytes b) (ta_offset v + i) True))"
proof -
  note defs = getBigInt64_def getBigUint64_def buf_uint32PairToBigInt_def uint32PairToBigInt_def
  note pair = read_pair [OF assms]
  show "readBigUInt64BE v b offset = at_offset v b offset 8 (\<lambda>i. Inr (getBigUint64 (ab_bytes b) (ta_offset v + i) False))"
    unfolding readBigUInt64BE_def by (rule at_offset_cong) (simp add: pair defs)
  show "readBigUInt64LE v b offset = at_offset v b offset 8 (\<lambda>i. Inr (getBigUint64 (ab_bytes b) (ta_offset v + i) True))"
    unfolding readBigUInt64LE_def by (rule at_offset_cong) (simp add: pair defs)
  show "readBigInt64BE v b offset = at_offset v b offset 8 (\<lambda>i. Inr (getBigInt64 (ab_bytes b) (ta_offset v + i) False))"
    unfolding readBigInt64BE_def by (rule at_offset_cong) (simp add: pair signed_pair_eq getBigInt64_def getBigUint64_def)
  show "readBigInt64LE v b offset = at_offset v b offset 8 (\<lambda>i. Inr (getBigInt64 (ab_bytes b) (ta_offset v + i) True))"
    unfolding readBigInt64LE_def by (rule at_offset_cong) (simp add: pair signed_pair_eq getBigInt64_def getBigUint64_def)
qed

theorem reads_like_dataview:
  assumes "ta_kind v = U8" "k \<noteq> U8C"
  shows "read_num k le v b offset =
    at_offset v b offset (bytes_per_element k) (\<lambda>i. Inr (dv_load k le (ab_bytes b) (ta_offset v + i)))"
proof -
  have s: "x - 256 = x + - 256" "x - 65536 = x + - 65536" "0x80 \<le> x \<longleftrightarrow> 127 < x" "0x8000 \<le> x \<longleftrightarrow> 32767 < x" for x :: int by auto
  show ?thesis
  proof (cases k)
    case I8
    then show ?thesis by (simp add: readInt8_def read_small assms at_offset_bind getI8_def getU8_def Let_def s(3))
  next
    case I16
    then show ?thesis by (cases le) (simp_all add: readInt16BE_def readInt16LE_def read_small assms at_offset_bind Let_def s(4))
  qed (use assms in \<open>simp_all add: read_small read_word read_big\<close>)
qed

section \<open>Writing is writing through a DataView\<close>

fun write_num ::
  "elem_kind \<Rightarrow> bool \<Rightarrow> typed_array \<Rightarrow> elem_value \<Rightarrow> jsval \<Rightarrow> array_buffer \<Rightarrow> (nat \<times> array_buffer) result" where
  "write_num U8 le v (Num x) = writeUInt8 v x"
| "write_num I8 le v (Num x) = writeInt8 v x"
| "write_num U16 le v (Num x) = (if le then writeUInt16LE v x else writeUInt16BE v x)"
| "write_num I16 le v (Num x) = (if le then writeInt16LE v x else writeInt16BE v x)"
| "write_num U32 le v (Num x) = (if le then writeUInt32LE v x else writeUInt32BE v x)"
| "write_num I32 le v (Num x) = (if le then writeInt32LE v x else writeInt32BE v x)"
| "write_num BU64 le v (Big x) = (if le then writeBigUInt64LE v x else writeBigUInt64BE v x)"
| "write_num BI64 le v (Big x) = (if le then writeBigInt64LE v x else writeBigInt64BE v x)"
| "write_num k le v x = (\<lambda>offset b. Inl (TypeError ''Cannot mix BigInt and other types, use explicit conversions''))"

definition bytes_at :: "typed_array \<Rightarrow> nat \<Rightarrow> byte list \<Rightarrow> array_buffer \<Rightarrow> array_buffer" where
  "bytes_at v i xs b = b\<lparr>ab_bytes := overwrite (ta_offset v + i) xs (ab_bytes b)\<rparr>"

lemma low8_byte: "(word_of_nat (low8 w) :: byte) = ucast w"
  using byte_of_word [of w] by (simp add: low8_def)

lemma write_words_mem:
  assumes "ta_kind v = U8" "\<not> ab_immutable b"
  shows "write_words v offset ws b =
    at_offset v b offset (length ws) (\<lambda>i. Inr (i + length ws, bytes_at v i (map ucast ws) b))"
  unfolding write_words_def
  by (rule at_offset_cong) (simp add: put_bytes_mem assms bytes_at_def low8_byte comp_def)

lemma setByte_overwrite: "setByte off x m = overwrite off [ucast x] m"
  by (simp add: setByte_def overwrite_def)

lemma overwrite_next:
  "off + length xs \<le> length m \<Longrightarrow> setByte (off + length xs) x (overwrite off xs m) = overwrite off (xs @ [ucast x]) m"
  unfolding setByte_overwrite by (rule overwrite_overwrite)

lemma stores_overwrite:
  "off < length m \<Longrightarrow> setU8 off x m = overwrite off [ucast (to_int32 x)] m"
  "off < length m \<Longrightarrow> setI8 off x m = overwrite off [ucast (to_int32 x)] m"
  "off + 2 \<le> length m \<Longrightarrow> setU16 off x m = overwrite off [ucast (to_int32 x), ucast (drop_bit 8 (to_int32 x))] m"
  "off + 2 \<le> length m \<Longrightarrow> be_setU16 off x m = overwrite off [ucast (drop_bit 8 (to_int32 x)), ucast (to_int32 x)] m"
  "off + 4 \<le> length m \<Longrightarrow> set_le_word off w m =
     overwrite off [ucast w, ucast (drop_bit 8 w), ucast (drop_bit 16 w), ucast (drop_bit 24 w)] m"
  "off + 4 \<le> length m \<Longrightarrow> set_be_word off w m =
     overwrite off [ucast (drop_bit 24 w), ucast (drop_bit 16 w), ucast (drop_bit 8 w), ucast w] m"
  using overwrite_next [of off "[_]" m] overwrite_next [of off "[_, _]" m] overwrite_next [of off "[_, _, _]" m]
  by (simp_all add: setU8_def setI8_def setU16_def be_setU16_def set_le_word_def set_be_word_def byte_of_word
      setByte_overwrite [of off] numeral_2_eq_2 numeral_3_eq_3)

lemma view_room: "ta_kind v = U8 \<Longrightarrow> i + n \<le> taLength v b \<Longrightarrow> 0 < n \<Longrightarrow> ta_offset v + i + n \<le> length (ab_bytes b)"
  using ta_room [of v b] taLength_oob [of v b] by fastforce

lemma write_word:
  assumes "ta_kind v = U8" "\<not> ab_immutable b"
  shows "writeUInt32BE v x offset b =
      at_offset v b offset 4 (\<lambda>i. Inr (i + 4, b\<lparr>ab_bytes := set_be_word (ta_offset v + i) (to_int32 x) (ab_bytes b)\<rparr>))"
    "writeUInt32LE v x offset b =
      at_offset v b offset 4 (\<lambda>i. Inr (i + 4, b\<lparr>ab_bytes := set_le_word (ta_offset v + i) (to_int32 x) (ab_bytes b)\<rparr>))"
proof -
  have n: "length [a, b, c, d] = 4" for a b c d :: "32 word" by simp
  show "writeUInt32BE v x offset b =
      at_offset v b offset 4 (\<lambda>i. Inr (i + 4, b\<lparr>ab_bytes := set_be_word (ta_offset v + i) (to_int32 x) (ab_bytes b)\<rparr>))"
    unfolding writeUInt32BE_def Let_def write_words_mem [OF assms] n
    by (rule at_offset_cong) (simp add: bytes_at_def stores_overwrite view_room [OF assms(1)])
  show "writeUInt32LE v x offset b =
      at_offset v b offset 4 (\<lambda>i. Inr (i + 4, b\<lparr>ab_bytes := set_le_word (ta_offset v + i) (to_int32 x) (ab_bytes b)\<rparr>))"
    unfolding writeUInt32LE_def Let_def write_words_mem [OF assms] n
    by (rule at_offset_cong) (simp add: bytes_at_def stores_overwrite view_room [OF assms(1)])
qed

lemma byte_shifts:
  "(ucast (signed_drop_bit 24 w) :: byte) = ucast (drop_bit 24 (w :: 32 word))"
  "(ucast (signed_drop_bit 16 w) :: byte) = ucast (drop_bit 16 w)"
  "(ucast (signed_drop_bit 8 w) :: byte) = ucast (drop_bit 8 w)"
  "(ucast (drop_bit 8 (w AND 0xffff)) :: byte) = ucast (drop_bit 8 w)" "(ucast (w AND 0xffff) :: byte) = ucast w"
proof -
  have m: "w AND 0xffff = take_bit 16 w" by (simp add: take_bit_eq_mask mask_eq_exp_minus_1)
  show "(ucast (signed_drop_bit 24 w) :: byte) = ucast (drop_bit 24 w)" "(ucast (signed_drop_bit 16 w) :: byte) = ucast (drop_bit 16 w)"
    "(ucast (signed_drop_bit 8 w) :: byte) = ucast (drop_bit 8 w)" "(ucast (drop_bit 8 (w AND 0xffff)) :: byte) = ucast (drop_bit 8 w)"
    "(ucast (w AND 0xffff) :: byte) = ucast w"
    unfolding m by (rule bit_word_eqI; auto simp: bit_simps)+
qed

lemma to_int32_low16: "to_int32 (low16 x) = to_int32 x AND 0xffff"
  using num_int_of_int [of "sint (to_int32 x AND 0xffff)"] by (simp add: low16_def to_int32_num)

lemma hi_lo_words:
  assumes "bigIntToHiLoBE x = (hi, lo)" "bigIntToHiLo x = (h, l)"
  shows "to_int32 (Fin (of_int hi)) = h" "to_int32 (Fin (of_int lo)) = l"
proof -
  let ?B = "4294967296 :: int"
  have m: "y AND 0xffffffff = y mod ?B" for y :: int
    using take_bit_eq_mask [of 32 y] by (simp add: take_bit_eq_mod mask_eq_exp_minus_1)
  have "hi = x div ?B mod ?B" "lo = x mod ?B"
    using assms(1) by (auto simp: bigIntToHiLoBE_def m drop_bit_eq_div split: if_splits)
  moreover have pair: "uint h * ?B + uint l = (x div ?B mod ?B) * ?B + x mod ?B"
  proof -
    have "uint h * ?B + uint l = x mod (?B * ?B)" using hi_lo [OF assms(2)] by (simp add: uint32PairToBigInt_def)
    then show ?thesis using zmod_zmult2_eq [of ?B x ?B] by (simp only: mult.commute)
  qed
  have l: "0 \<le> uint l" "uint l < ?B" using uint_lt2p [of l] by simp_all
  have split: "(a * ?B + c) div ?B = a \<and> (a * ?B + c) mod ?B = c" if "0 \<le> c" "c < ?B" for a c
    using that by simp
  have "uint h = x div ?B mod ?B" "uint l = x mod ?B"
    using split [OF l, of "uint h"] split [of "x mod ?B" "x div ?B mod ?B"] unfolding pair by simp_all
  ultimately have "hi = uint h" "lo = uint l" by simp_all
  moreover have "to_int32 (Fin (of_int (uint w))) = w" for w
    by (simp only: to_int32_num num_int_of_int word_of_int_uint)
  ultimately show "to_int32 (Fin (of_int hi)) = h" "to_int32 (Fin (of_int lo)) = l" by blast+
qed

lemma write_big:
  assumes "ta_kind v = U8" "\<not> ab_immutable b"
  shows "writeBigUInt64BE v x offset b = at_offset v b offset 8
      (\<lambda>i. Inr (i + 8, b\<lparr>ab_bytes := setBigUint64 (ta_offset v + i) x False (ab_bytes b)\<rparr>))"
    "writeBigUInt64LE v x offset b = at_offset v b offset 8
      (\<lambda>i. Inr (i + 8, b\<lparr>ab_bytes := setBigUint64 (ta_offset v + i) x True (ab_bytes b)\<rparr>))"
proof -
  obtain hi lo where be: "bigIntToHiLoBE x = (hi, lo)" by (cases "bigIntToHiLoBE x")
  obtain h l where hl: "bigIntToHiLo x = (h, l)" by (cases "bigIntToHiLo x")
  note w = hi_lo_words [OF be hl]
  have step: "taLength v (b\<lparr>ab_bytes := m\<rparr>) = taLength v b" "\<not> ab_immutable (b\<lparr>ab_bytes := m\<rparr>)"
    if "length m = length (ab_bytes b)" for m
  proof -
    have sh: "same_shape b (b\<lparr>ab_bytes := m\<rparr>)" using that by (auto simp: same_shape_def)
    show "taLength v (b\<lparr>ab_bytes := m\<rparr>) = taLength v b" "\<not> ab_immutable (b\<lparr>ab_bytes := m\<rparr>)"
      using same_shape_simps [OF sh] assms(2) by simp_all
  qed
  have word: "writeUInt32BE v y (vnat i) (b\<lparr>ab_bytes := m\<rparr>) =
      Inr (i + 4, b\<lparr>ab_bytes := set_be_word (ta_offset v + i) (to_int32 y) m\<rparr>)"
    "writeUInt32LE v y (vnat i) (b\<lparr>ab_bytes := m\<rparr>) =
      Inr (i + 4, b\<lparr>ab_bytes := set_le_word (ta_offset v + i) (to_int32 y) m\<rparr>)"
    if "i + 4 \<le> taLength v b" "length m = length (ab_bytes b)" for y i m
    using write_word [OF assms(1) step(2) [OF that(2)], of y "vnat i"] that(1) step(1) [OF that(2)]
      at_offset_nat [of i 4 v "b\<lparr>ab_bytes := m\<rparr>"] by (simp_all del: to_int32.simps)
  have first: "writeUInt32BE v y (vnat i) b = Inr (i + 4, b\<lparr>ab_bytes := set_be_word (ta_offset v + i) (to_int32 y) (ab_bytes b)\<rparr>)"
    "writeUInt32LE v y (vnat i) b = Inr (i + 4, b\<lparr>ab_bytes := set_le_word (ta_offset v + i) (to_int32 y) (ab_bytes b)\<rparr>)"
    if "i + 4 \<le> taLength v b" for y i
    using write_word [OF assms, of y "vnat i"] at_offset_nat [OF that] by simp_all
  have len: "length (set_be_word (ta_offset v + i) z (ab_bytes b)) = length (ab_bytes b)"
    "length (set_le_word (ta_offset v + i) z (ab_bytes b)) = length (ab_bytes b)" if "i + 8 \<le> taLength v b" for i z
    using view_room [OF assms(1), of i 8 b] that by simp_all
  show "writeBigUInt64BE v x offset b = at_offset v b offset 8
      (\<lambda>i. Inr (i + 8, b\<lparr>ab_bytes := setBigUint64 (ta_offset v + i) x False (ab_bytes b)\<rparr>))"
    unfolding writeBigUInt64BE_def be
    by (rule at_offset_cong) (simp add: word first len w setBigUint64_def hl add.assoc del: to_int32.simps)
  show "writeBigUInt64LE v x offset b = at_offset v b offset 8
      (\<lambda>i. Inr (i + 8, b\<lparr>ab_bytes := setBigUint64 (ta_offset v + i) x True (ab_bytes b)\<rparr>))"
    unfolding writeBigUInt64LE_def be
    by (rule at_offset_cong) (simp add: word first len w setBigUint64_def hl add.assoc del: to_int32.simps)
qed

theorem writes_like_dataview:
  assumes "ta_kind v = U8" "\<not> ab_immutable b" "fits k x" "k \<noteq> U8C"
  shows "write_num k le v x offset b = at_offset v b offset (bytes_per_element k)
    (\<lambda>i. Inr (i + bytes_per_element k, b\<lparr>ab_bytes := dv_store k le (ta_offset v + i) x (ab_bytes b)\<rparr>))"
proof -
  have n: "length [c] = 1" "length [c, d] = 2" "length [c, d, e, f] = 4" for c d e f :: "32 word" by simp_all
  note room2 = view_room [OF assms(1) _ zero_less_numeral, of _ "num.Bit0 num.One" b]
  note room4 = view_room [OF assms(1) _ zero_less_numeral, of _ "num.Bit0 (num.Bit0 num.One)" b]
  note mem = write_words_mem [OF assms(1,2)]
  have one: "write_words v offset [to_int32 y] b = at_offset v b offset 1 (\<lambda>i. Inr (i + 1, b\<lparr>ab_bytes := setU8 (ta_offset v + i) y (ab_bytes b)\<rparr>))"
    for y
    unfolding mem n
    by (rule at_offset_cong) (use view_room [OF assms(1), of _ 1 b] in \<open>auto simp: bytes_at_def stores_overwrite Suc_le_eq\<close>)
  have two: "write_words v offset [to_int32 y, drop_bit 8 (to_int32 y)] b =
      at_offset v b offset 2 (\<lambda>i. Inr (i + 2, b\<lparr>ab_bytes := setU16 (ta_offset v + i) y (ab_bytes b)\<rparr>))"
    "write_words v offset [drop_bit 8 (to_int32 y), to_int32 y] b =
      at_offset v b offset 2 (\<lambda>i. Inr (i + 2, b\<lparr>ab_bytes := be_setU16 (ta_offset v + i) y (ab_bytes b)\<rparr>))" for y
    unfolding mem n by (rule at_offset_cong, simp only: bytes_at_def list.map stores_overwrite(3,4) [OF room2])+
  have low: "setU16 off (low16 y) m = setU16 off y m" "be_setU16 off (low16 y) m = be_setU16 off y m" for off y m
    by (simp_all only: setU16_def be_setU16_def setByte_overwrite byte_of_word to_int32_low16 byte_shifts)
  have four: "write_words v offset [signed_drop_bit 24 w, signed_drop_bit 16 w, signed_drop_bit 8 w, w] b =
      at_offset v b offset 4 (\<lambda>i. Inr (i + 4, b\<lparr>ab_bytes := set_be_word (ta_offset v + i) w (ab_bytes b)\<rparr>))"
    "write_words v offset [w, signed_drop_bit 8 w, signed_drop_bit 16 w, signed_drop_bit 24 w] b =
      at_offset v b offset 4 (\<lambda>i. Inr (i + 4, b\<lparr>ab_bytes := set_le_word (ta_offset v + i) w (ab_bytes b)\<rparr>))" for w
    unfolding mem n by (rule at_offset_cong, simp only: bytes_at_def list.map byte_shifts stores_overwrite(5,6) [OF room4])+
  note small = writeUInt8_def writeInt8_def writeUInt16BE_def writeUInt16LE_def writeInt16BE_def writeInt16LE_def
    writeInt32BE_def writeInt32LE_def Let_def one two low four setI8_def setU8_def
  obtain y where x: "x = (if is_big k then Big (fst y) else Num (snd y))"
    using assms(3) by (cases x) (auto simp: fits_def)
  show ?thesis
    using assms(4) unfolding x
    by (cases k) (simp_all add: small write_word [OF assms(1,2)] write_big [OF assms(1,2)] writeBigInt64BE_def writeBigInt64LE_def
        setBigInt64_def del: to_int32.simps)
qed

text \<open>C5: Every integer accessor of \<open>Buffer\<close>, of each size, sign and byte order, reads and writes what a
  \<open>DataView\<close> would at the same place of the memory, and fails exactly when the check of its offset does.\<close>

theorem accessors_like_dataview:
  assumes "ta_kind v = U8" "\<not> ab_immutable b" "fits k x" "k \<noteq> U8C"
  shows "read_num k le v b offset =
      bind_result (checkOffset offset (bytes_per_element k) (taLength v b)) (\<lambda>i. Inr (dv_load k le (ab_bytes b) (ta_offset v + i))) \<and>
    write_num k le v x offset b =
      bind_result (checkOffset offset (bytes_per_element k) (taLength v b)) (\<lambda>i.
        Inr (i + bytes_per_element k, b\<lparr>ab_bytes := dv_store k le (ta_offset v + i) x (ab_bytes b)\<rparr>))"
  using reads_like_dataview [OF assms(1,4)] writes_like_dataview [OF assms] by (simp add: at_offset_def)

theorem number_roundtrip:
  assumes "ta_kind v = U8" "\<not> ab_immutable b" "fits k x" "k \<noteq> U8C" "write_num k le v x offset b = Inr (n, b')"
  shows "same_shape b b' \<and> read_num k le v b' offset = Inr (held k x) \<and>
    checkOffset offset (bytes_per_element k) (taLength v b) = Inr (n - bytes_per_element k)"
proof -
  obtain i where i: "checkOffset offset (bytes_per_element k) (taLength v b) = Inr i" "n = i + bytes_per_element k"
    "b' = b\<lparr>ab_bytes := dv_store k le (ta_offset v + i) x (ab_bytes b)\<rparr>"
    using assms(5) writes_like_dataview [OF assms(1-4), of le offset] by (auto simp: at_offset_def bind_result_Inr)
  have room: "ta_offset v + i + bytes_per_element k \<le> length (ab_bytes b)"
    using view_room [OF assms(1) checkOffset_Inr [OF i(1)]] by simp
  then have sh: "same_shape b b'" by (auto simp: same_shape_def i(3) dv_store_length)
  have "read_num k le v b' offset = Inr (held k x)"
    using reads_like_dataview [OF assms(1,4), of le b' offset] same_shape_simps(1) [OF sh] i(1) room assms(3,4)
    by (simp add: at_offset_def i(3) dv_load_store)
  then show ?thesis using sh i(1,2) by simp
qed

lemma write_example:
  "write_num I16 False (bytes_view 4) (Num (Fin (-2))) (vnat 1) (bytes_buffer [7, 8, 9, 9]) =
     Inr (3, bytes_buffer [7, 8, 9, 9]\<lparr>ab_bytes := dv_store I16 False 1 (Num (Fin (-2))) [7, 8, 9, 9]\<rparr>)"
  using writes_like_dataview [of "bytes_view 4" "bytes_buffer [7, 8, 9, 9]" I16 "Num (Fin (-2))" False "vnat 1"]
    checkOffset_nat [of 1 2 4] by (simp add: fits_def at_offset_def)

theorem number_roundtrip_witness:
  "\<exists>b'. write_num I16 False (bytes_view 4) (Num (Fin (-2))) (vnat 1) (bytes_buffer [7, 8, 9, 9]) = Inr (3, b') \<and>
     read_num I16 False (bytes_view 4) b' (vnat 1) = Inr (-2)"
proof -
  have "held I16 (Num (Fin (- 2))) = - 2" by (simp add: trunc_rat_def ceiling_def signed_of_def)
  then show ?thesis using number_roundtrip [OF _ _ _ _ write_example] write_example by (simp add: fits_def)
qed

theorem accessors_like_dataview_witness:
  "read_num U16 True (bytes_view 4) (bytes_buffer [7, 8, 9, 9]) (vnat 1) = Inr (dv_load U16 True [7, 8, 9, 9] 1)"
  using accessors_like_dataview [of "bytes_view 4" "bytes_buffer [7, 8, 9, 9]" U16 "Num (Fin 0)" True "vnat 1"]
    checkOffset_nat [of 1 2 4] by (simp add: fits_def)

text \<open>Values that do not fit wrap around, where Node throws \<open>ERR_OUT_OF_RANGE\<close>.\<close>

lemma write_wraps:
  "\<exists>b'. write_num U8 le (bytes_view 1) (Num (js_nat 256)) VUndef (bytes_buffer [7]) = Inr (1, b') \<and>
     read_num U8 le (bytes_view 1) b' VUndef = Inr 0"
proof -
  have c: "checkOffset VUndef 1 1 = Inr 0" by (simp add: checkOffset_def)
  let ?b = "bytes_buffer [7]\<lparr>ab_bytes := dv_store U8 le 0 (Num (js_nat 256)) [7]\<rparr>"
  have w: "write_num U8 le (bytes_view 1) (Num (js_nat 256)) VUndef (bytes_buffer [7]) = Inr (1, ?b)"
    using writes_like_dataview [of "bytes_view 1" "bytes_buffer [7]" U8 "Num (js_nat 256)" le VUndef] c
    by (simp add: fits_def at_offset_def)
  have "held U8 (Num (js_nat 256)) = 0" by simp
  then show ?thesis using number_roundtrip [OF _ _ _ _ w] w by (simp add: fits_def)
qed

end
