(* ===== verification/FetchAbort.thy ===== *)
theory FetchAbort
  imports Prelude
begin

text \<open>
  \<open>AbortSignal\<close> and \<open>AbortController\<close> of \<open>fetch.js\<close>. Signals live in a store, since listeners of one signal
  may change others; a listener is a function of the program, or the closure by which \<open>AbortSignal.any\<close> passes
  an abort on. What a function of the program does when it is called is a list of calls of this module, which may
  depend on the signals as it finds them, and which it may end by throwing. The listeners and the signals call each
  other, so running them takes fuel: \<open>None\<close> is a run that is not over. A listener that adds listeners may make it
  endless (\<open>adds_itself_hangs\<close>); without such listeners every run ends (\<open>aborts_end\<close>).
\<close>

section \<open>Signals\<close>

datatype listener = LUser nat | LSource nat nat  \<comment> \<open>a composite signal and the source it was made for\<close>

record signal =
  sg_aborted :: bool
  sg_reason :: nat
  sg_listeners :: "listener list"
  sg_onabort :: "nat option"

record signals =
  ss_signal :: "nat \<Rightarrow> signal"
  ss_calls :: "(nat \<times> nat) list"  \<comment> \<open>the calls of functions: signal and function\<close>

definition new_signal :: signal where
  "new_signal = \<lparr>sg_aborted = False, sg_reason = 0, sg_listeners = [], sg_onabort = None\<rparr>"

definition change :: "nat \<Rightarrow> (signal \<Rightarrow> signal) \<Rightarrow> signals \<Rightarrow> signals" where
  "change s f st = st\<lparr>ss_signal := (ss_signal st)(s := f (ss_signal st s))\<rparr>"

definition addListener :: "nat \<Rightarrow> listener \<Rightarrow> signals \<Rightarrow> signals" where
  "addListener s l = change s (\<lambda>g. g\<lparr>sg_listeners := sg_listeners g @ [l]\<rparr>)"

definition removeListener :: "nat \<Rightarrow> listener \<Rightarrow> signals \<Rightarrow> signals" where
  "removeListener s l = change s (\<lambda>g. g\<lparr>sg_listeners := filter (\<lambda>m. m \<noteq> l) (sg_listeners g)\<rparr>)"

text \<open>The setter \<open>onabort\<close>; \<open>None\<close> for a value that is not a function.\<close>

definition set_onabort :: "nat \<Rightarrow> nat option \<Rightarrow> signals \<Rightarrow> signals" where
  "set_onabort s fn st =
     (let st1 = (case sg_onabort (ss_signal st s) of Some old \<Rightarrow> removeListener s (LUser old) st | None \<Rightarrow> st);
          st2 = change s (\<lambda>g. g\<lparr>sg_onabort := fn\<rparr>) st1
      in case fn of Some f \<Rightarrow> addListener s (LUser f) st2 | None \<Rightarrow> st2)"

definition mark_aborted :: "nat \<Rightarrow> nat \<Rightarrow> signals \<Rightarrow> signals" where
  "mark_aborted s reason = change s (\<lambda>g. g\<lparr>sg_aborted := True, sg_reason := reason\<rparr>)"

definition throwIfAborted :: "nat \<Rightarrow> signals \<Rightarrow> unit result" where
  "throwIfAborted s st =
     (if sg_aborted (ss_signal st s) then Inl (Thrown (sg_reason (ss_signal st s))) else Inr ())"

text \<open>\<open>AbortSignal.any\<close>: the new signal is \<open>c\<close>. A source that is aborted already decides at once.\<close>

definition any_new :: "nat \<Rightarrow> nat list \<Rightarrow> signals \<Rightarrow> signals" where
  "any_new c sources st =
     (case find (\<lambda>s. sg_aborted (ss_signal st s)) sources of
        Some s \<Rightarrow>
          change c (\<lambda>_. new_signal\<lparr>sg_aborted := True, sg_reason := sg_reason (ss_signal st s)\<rparr>) st
      | None \<Rightarrow>
          fold (\<lambda>s. addListener s (LSource c s)) sources (change c (\<lambda>_. new_signal) st))"

section \<open>Aborting\<close>

text \<open>The calls of a listener; an \<open>abort\<close> may stand in a \<open>try\<close> whose \<open>catch\<close> does nothing.\<close>

datatype sig_call = CAdd nat nat | CRemove nat nat | COn nat "nat option" | CAbort nat nat bool | CThrow nat

fun plain_call :: "sig_call \<Rightarrow> signals \<Rightarrow> signals" where
  "plain_call (CAdd s f) st = addListener s (LUser f) st"
| "plain_call (CRemove s f) st = removeListener s (LUser f) st"
| "plain_call (COn s f) st = set_onabort s f st"
| "plain_call _ st = st"

definition log_call :: "nat \<Rightarrow> nat \<Rightarrow> signals \<Rightarrow> signals" where
  "log_call s f st = st\<lparr>ss_calls := ss_calls st @ [(s, f)]\<rparr>"

text \<open>
  \<open>_fire\<close> reads the array anew for every index, since a listener may replace it. The second result is what was
  thrown; it ends \<open>_fire\<close> and the \<open>abort\<close> that called it.
\<close>

fun fire :: "(nat \<Rightarrow> signals \<Rightarrow> sig_call list) \<Rightarrow> nat \<Rightarrow> nat \<Rightarrow> nat \<Rightarrow> signals \<Rightarrow> (signals \<times> nat option) option"
  and run_calls :: "(nat \<Rightarrow> signals \<Rightarrow> sig_call list) \<Rightarrow> nat \<Rightarrow> sig_call list \<Rightarrow> signals \<Rightarrow> (signals \<times> nat option) option" where
  "fire beh 0 s i st = None"
| "fire beh (Suc k) s i st =
     (if i < length (sg_listeners (ss_signal st s))
      then (case (case sg_listeners (ss_signal st s) ! i of
                    LUser f \<Rightarrow> run_calls beh k (beh f (log_call s f st)) (log_call s f st)
                  | LSource c src \<Rightarrow>
                      if sg_aborted (ss_signal st c) then Some (st, None)
                      else fire beh k c 0 (mark_aborted c (sg_reason (ss_signal st src)) st)) of
              None \<Rightarrow> None
            | Some (st', Some e) \<Rightarrow> Some (st', Some e)
            | Some (st', None) \<Rightarrow> fire beh k s (i + 1) st')
      else Some (st, None))"
| "run_calls beh 0 cs st = None"
| "run_calls beh (Suc k) [] st = Some (st, None)"
| "run_calls beh (Suc k) (c # cs) st =
     (case (case c of
              CAbort s r caught \<Rightarrow>
                if sg_aborted (ss_signal st s) then Some (st, None)
                else (case fire beh k s 0 (mark_aborted s r st) of
                        None \<Rightarrow> None
                      | Some (st', e) \<Rightarrow> Some (st', if caught then None else e))
            | CThrow e \<Rightarrow> Some (st, Some e)
            | _ \<Rightarrow> Some (plain_call c st, None)) of
        None \<Rightarrow> None
      | Some (st', Some e) \<Rightarrow> Some (st', Some e)
      | Some (st', None) \<Rightarrow> run_calls beh k cs st')"

text \<open>\<open>abort\<close> of a controller, and the timer of \<open>AbortSignal.timeout\<close>, which does the same.\<close>

definition controller_abort ::
    "(nat \<Rightarrow> signals \<Rightarrow> sig_call list) \<Rightarrow> nat \<Rightarrow> nat \<Rightarrow> nat \<Rightarrow> signals \<Rightarrow> (signals \<times> nat option) option" where
  "controller_abort beh fuel s reason st =
     (if sg_aborted (ss_signal st s) then Some (st, None) else fire beh fuel s 0 (mark_aborted s reason st))"

section \<open>What every run respects\<close>

text \<open>A relation that the calls of listeners respect one by one is respected by a whole run.\<close>

locale respected =
  fixes R :: "signals \<Rightarrow> signals \<Rightarrow> bool" and ok :: "sig_call \<Rightarrow> bool" and beh :: "nat \<Rightarrow> signals \<Rightarrow> sig_call list"
  assumes refl: "R a a" and trans: "R a b \<Longrightarrow> R b d \<Longrightarrow> R a d"
    and log: "R a (log_call s f a)" and mark: "\<not> sg_aborted (ss_signal a s) \<Longrightarrow> R a (mark_aborted s r a)"
    and plain: "ok c \<Longrightarrow> R a (plain_call c a)" and behaved: "list_all ok (beh f a)"
begin

lemma run_respects:
  "(\<forall>s i st st' e. fire beh k s i st = Some (st', e) \<longrightarrow> R st st') \<and>
   (\<forall>cs st st' e. list_all ok cs \<longrightarrow> run_calls beh k cs st = Some (st', e) \<longrightarrow> R st st')"
proof (induction k)
  case (Suc k)
  have F: "\<And>s i st st' e. fire beh k s i st = Some (st', e) \<Longrightarrow> R st st'"
    and C: "\<And>cs st st' e. list_all ok cs \<Longrightarrow> run_calls beh k cs st = Some (st', e) \<Longrightarrow> R st st'"
    using Suc by blast+
  have M: "R st st'" if "fire beh k s i (mark_aborted s r st) = Some (st', e)" "\<not> sg_aborted (ss_signal st s)" for s i r st st' e
    using F [OF that(1)] mark [OF that(2)] trans by blast
  have L: "R st st'" if "run_calls beh k (beh f (log_call s f st)) (log_call s f st) = Some (st', e)" for s f st st' e
    using C [OF behaved that] log trans by blast
  have "R st st'" if run: "fire beh (Suc k) s i st = Some (st', e)" for s i st st' e
  proof (cases "i < length (sg_listeners (ss_signal st s))")
    case lt: True
    let ?one = "case sg_listeners (ss_signal st s) ! i of
        LUser f \<Rightarrow> run_calls beh k (beh f (log_call s f st)) (log_call s f st)
      | LSource c src \<Rightarrow>
          if sg_aborted (ss_signal st c) then Some (st, None)
          else fire beh k c 0 (mark_aborted c (sg_reason (ss_signal st src)) st)"
    obtain u e' where u: "?one = Some (u, e')" "case e' of None \<Rightarrow> fire beh k s (i + 1) u = Some (st', e) | Some x \<Rightarrow> st' = u"
      using run lt unfolding fire.simps(2) if_P [OF lt] by (cases ?one) (auto split: option.splits)
    have "R st u"
    proof (cases "sg_listeners (ss_signal st s) ! i")
      case (LUser f)
      then show ?thesis using u(1) L by simp
    next
      case (LSource c src)
      then show ?thesis using u(1) M refl by (auto split: if_splits)
    qed
    then show ?thesis using u(2) F trans by (auto split: option.splits)
  qed (use run refl in simp)
  moreover have "R st st'" if ok: "list_all ok cs" and run: "run_calls beh (Suc k) cs st = Some (st', e)" for cs st st' e
  proof (cases cs)
    case (Cons c cs')
    let ?one = "case c of
        CAbort s r caught \<Rightarrow>
          if sg_aborted (ss_signal st s) then Some (st, None)
          else (case fire beh k s 0 (mark_aborted s r st) of
                  None \<Rightarrow> None
                | Some (st', e) \<Rightarrow> Some (st', if caught then None else e))
      | CThrow e \<Rightarrow> Some (st, Some e)
      | _ \<Rightarrow> Some (plain_call c st, None)"
    obtain u e' where u: "?one = Some (u, e')" "case e' of None \<Rightarrow> run_calls beh k cs' u = Some (st', e) | Some x \<Rightarrow> st' = u"
      using run unfolding Cons run_calls.simps(3) by (cases ?one) (auto split: option.splits)
    have "R st u"
      using u(1) M refl plain [of c st] ok Cons by (cases c) (auto split: if_splits option.splits prod.splits)
    then show ?thesis using u(2) ok Cons C trans by (auto split: option.splits)
  qed (use run refl in simp)
  ultimately show ?case by blast
qed simp

lemma fire_respects: "fire beh k s i st = Some (st', e) \<Longrightarrow> R st st'"
  and calls_respect: "list_all ok cs \<Longrightarrow> run_calls beh k cs st = Some (st', e) \<Longrightarrow> R st st'"
  using run_respects by blast+

end

section \<open>A signal is aborted once\<close>

definition keeps :: "signals \<Rightarrow> signals \<Rightarrow> bool" where
  "keeps st st' \<longleftrightarrow>
     (\<forall>s. sg_aborted (ss_signal st s) \<longrightarrow>
        sg_aborted (ss_signal st' s) \<and> sg_reason (ss_signal st' s) = sg_reason (ss_signal st s))"

named_theorems keeping \<open>operations that leave aborted signals as they are\<close>

lemma keeps_refl [keeping]: "keeps st st"
  by (simp add: keeps_def)

lemma keeps_trans: "keeps a b \<Longrightarrow> keeps b c \<Longrightarrow> keeps a c"
  by (simp add: keeps_def)

lemma keeps_change:
  "(sg_aborted (ss_signal st s) \<Longrightarrow> sg_aborted (f (ss_signal st s)) \<and> sg_reason (f (ss_signal st s)) = sg_reason (ss_signal st s))
   \<Longrightarrow> keeps st (change s f st)"
  by (simp add: keeps_def change_def)

lemma keeps_listeners [keeping]:
  "keeps st (addListener s l st)" "keeps st (removeListener s l st)"
  by (simp_all add: addListener_def removeListener_def keeps_change)

lemma keeps_onabort [keeping]: "keeps st (set_onabort s f st)"
proof -
  have on: "keeps u (change s (\<lambda>g. g\<lparr>sg_onabort := f\<rparr>) u)" for u by (simp add: keeps_change)
  show ?thesis
    by (auto simp: set_onabort_def Let_def intro: keeps_trans [OF _ on] keeps_trans [OF keeps_trans [OF _ on]]
        keeping split: option.split)
qed

lemma keeps_mark: "\<not> sg_aborted (ss_signal st s) \<Longrightarrow> keeps st (mark_aborted s r st)"
  by (simp add: mark_aborted_def keeps_def change_def)

lemma keeps_log [keeping]: "keeps st (log_call s f st)"
  by (simp add: keeps_def log_call_def)

lemma keeps_plain: "keeps st (plain_call c st)"
  by (cases c) (auto intro: keeping)

interpretation keeping: respected keeps "\<lambda>_. True" beh for beh
  by unfold_locales (auto intro: keeping keeps_trans keeps_mark keeps_plain simp: list_all_iff)

section \<open>Runs end\<close>

text \<open>More fuel changes nothing.\<close>

lemma more_fuel_step:
  "(\<forall>s i st r. fire beh k s i st = Some r \<longrightarrow> fire beh (Suc k) s i st = Some r) \<and>
   (\<forall>cs st r. run_calls beh k cs st = Some r \<longrightarrow> run_calls beh (Suc k) cs st = Some r)"
proof (induction k)
  case (Suc k)
  have F: "\<And>s i st r. fire beh k s i st = Some r \<Longrightarrow> fire beh (Suc k) s i st = Some r"
    and C: "\<And>cs st r. run_calls beh k cs st = Some r \<Longrightarrow> run_calls beh (Suc k) cs st = Some r"
    using Suc by blast+
  have "fire beh (Suc (Suc k)) s i st = Some r" if run: "fire beh (Suc k) s i st = Some r" for s i st r
  proof (cases "i < length (sg_listeners (ss_signal st s))")
    case lt: True
    let ?one = "\<lambda>k. case sg_listeners (ss_signal st s) ! i of
        LUser f \<Rightarrow> run_calls beh k (beh f (log_call s f st)) (log_call s f st)
      | LSource c src \<Rightarrow>
          if sg_aborted (ss_signal st c) then Some (st, None)
          else fire beh k c 0 (mark_aborted c (sg_reason (ss_signal st src)) st)"
    obtain u e where u: "?one k = Some (u, e)" "case e of None \<Rightarrow> fire beh k s (i + 1) u = Some r | Some x \<Rightarrow> r = (u, e)"
      using run unfolding fire.simps(2) if_P [OF lt] by (cases "?one k") (auto split: option.splits)
    have "?one (Suc k) = Some (u, e)"
      using u(1) F C by (cases "sg_listeners (ss_signal st s) ! i") (simp_all del: fire.simps run_calls.simps split: if_splits)
    then show ?thesis
      using u(2) F unfolding fire.simps(2) [of beh "Suc k"] if_P [OF lt] by (cases e) (simp_all del: fire.simps run_calls.simps)
  qed (use run in simp)
  moreover have "run_calls beh (Suc (Suc k)) cs st = Some r" if run: "run_calls beh (Suc k) cs st = Some r" for cs st r
  proof (cases cs)
    case (Cons c cs')
    let ?one = "\<lambda>k. case c of
        CAbort s r caught \<Rightarrow>
          if sg_aborted (ss_signal st s) then Some (st, None)
          else (case fire beh k s 0 (mark_aborted s r st) of
                  None \<Rightarrow> None
                | Some (st', e) \<Rightarrow> Some (st', if caught then None else e))
      | CThrow e \<Rightarrow> Some (st, Some e)
      | _ \<Rightarrow> Some (plain_call c st, None)"
    obtain u e where u: "?one k = Some (u, e)" "case e of None \<Rightarrow> run_calls beh k cs' u = Some r | Some x \<Rightarrow> r = (u, e)"
      using run unfolding Cons run_calls.simps(3) by (cases "?one k") (auto split: option.splits)
    have "?one (Suc k) = Some (u, e)"
    proof (cases c)
      case (CAbort s r caught)
      show ?thesis
      proof (cases "fire beh k s 0 (mark_aborted s r st)")
        case (Some x)
        then show ?thesis using u(1) CAbort F [OF Some] by (cases x) (simp del: fire.simps run_calls.simps split: if_splits)
      qed (use u(1) CAbort in \<open>simp del: fire.simps run_calls.simps split: if_splits\<close>)
    qed (use u(1) in simp_all)
    then show ?thesis
      using u(2) C unfolding Cons run_calls.simps(3) [of beh "Suc k"] by (cases e) (simp_all del: fire.simps run_calls.simps)
  qed (use run in simp)
  ultimately show ?case by blast
qed simp

lemma more_fuel:
  shows "fire beh k s i st = Some r \<Longrightarrow> fire beh (k + m) s i st = Some r"
    and "run_calls beh k cs st = Some r \<Longrightarrow> run_calls beh (k + m) cs st = Some r"
proof -
  show "fire beh (k + m) s i st = Some r" if "fire beh k s i st = Some r"
  proof (induction m)
    case (Suc m)
    then show ?case using more_fuel_step [of beh "k + m"] unfolding add_Suc_right by blast
  qed (use that in \<open>unfold add_0_right\<close>)
  show "run_calls beh (k + m) cs st = Some r" if "run_calls beh k cs st = Some r"
  proof (induction m)
    case (Suc m)
    then show ?case using more_fuel_step [of beh "k + m"] unfolding add_Suc_right by blast
  qed (use that in \<open>unfold add_0_right\<close>)
qed

text \<open>
  Listeners that add no listener, and abort only signals of a finite set \<open>S\<close>, to which the composite signals
  that follow others belong too.
\<close>

fun tame_call :: "nat set \<Rightarrow> sig_call \<Rightarrow> bool" where
  "tame_call S (CAdd s f) \<longleftrightarrow> False"
| "tame_call S (COn s f) \<longleftrightarrow> f = None"
| "tame_call S (CAbort s r caught) \<longleftrightarrow> s \<in> S"
| "tame_call S _ \<longleftrightarrow> True"

definition tame :: "nat set \<Rightarrow> (nat \<Rightarrow> signals \<Rightarrow> sig_call list) \<Rightarrow> bool" where
  "tame S beh \<longleftrightarrow> finite S \<and> (\<forall>f a. list_all (tame_call S) (beh f a))"

definition follows_in :: "nat set \<Rightarrow> signals \<Rightarrow> bool" where
  "follows_in S st \<longleftrightarrow> (\<forall>t c src. LSource c src \<in> set (sg_listeners (ss_signal st t)) \<longrightarrow> c \<in> S)"

definition open_in :: "nat set \<Rightarrow> signals \<Rightarrow> nat" where
  "open_in S st = card {t \<in> S. \<not> sg_aborted (ss_signal st t)}"

text \<open>Such a run only takes listeners away.\<close>

definition fewer :: "signals \<Rightarrow> signals \<Rightarrow> bool" where
  "fewer a b \<longleftrightarrow> (\<forall>t. set (sg_listeners (ss_signal b t)) \<subseteq> set (sg_listeners (ss_signal a t)) \<and>
     length (sg_listeners (ss_signal b t)) \<le> length (sg_listeners (ss_signal a t)))"

lemma mark_listeners [simp]: "sg_listeners (ss_signal (mark_aborted s r a) t) = sg_listeners (ss_signal a t)"
  by (simp add: mark_aborted_def change_def)

lemma fewer_mark [simp]: "fewer (mark_aborted s r a) b \<longleftrightarrow> fewer a b"
  by (simp add: fewer_def)

lemma fewer_plain: "tame_call S c \<Longrightarrow> fewer a (plain_call c a)"
  by (cases c) (auto simp: fewer_def removeListener_def set_onabort_def change_def Let_def split: option.split intro: le_trans)

lemma tame_respected: "tame S beh \<Longrightarrow> respected fewer (tame_call S) beh"
proof (rule respected.intro, goal_cases)
  case (2 a b c)
  then show ?case unfolding fewer_def by (meson le_trans subset_trans)
qed (auto simp: fewer_plain, auto simp: fewer_def tame_def log_call_def mark_aborted_def change_def)

lemma open_in_keeps: "finite S \<Longrightarrow> keeps a b \<Longrightarrow> open_in S b \<le> open_in S a"
  unfolding open_in_def by (rule card_mono) (auto simp: keeps_def)

lemma open_in_mark:
  assumes "finite S" "t \<in> S" "\<not> sg_aborted (ss_signal a t)"
  shows "open_in S (mark_aborted t r a) < open_in S a"
  unfolding open_in_def using assms by (intro psubset_card_mono) (auto simp: mark_aborted_def change_def)

lemma follows_fewer: "follows_in S a \<Longrightarrow> fewer a b \<Longrightarrow> follows_in S b"
  unfolding follows_in_def fewer_def by blast

lemma run_ends:
  assumes tame: "tame S beh"
    and nested: "\<And>t r a. t \<in> S \<Longrightarrow> \<not> sg_aborted (ss_signal a t) \<Longrightarrow> follows_in S a \<Longrightarrow> open_in S a \<le> n \<Longrightarrow>
      \<exists>k. fire beh k t 0 (mark_aborted t r a) \<noteq> None"
  shows "list_all (tame_call S) cs \<Longrightarrow> follows_in S a \<Longrightarrow> open_in S a \<le> n \<Longrightarrow> \<exists>k. run_calls beh k cs a \<noteq> None"
proof (induction cs arbitrary: a)
  case Nil
  show ?case by (rule exI [of _ 1]) simp
next
  case (Cons c cs)
  have S: "finite S" using tame by (simp add: tame_def)
  have rest: "\<exists>k. run_calls beh k cs b \<noteq> None" if "fewer a b" "keeps a b" for b
    using Cons.IH [of b] Cons.prems follows_fewer [OF _ that(1)] open_in_keeps [OF S that(2)] by simp
  show ?case
  proof (cases c)
    case (CAbort t r caught)
    show ?thesis
    proof (cases "sg_aborted (ss_signal a t)")
      case True
      obtain k where "run_calls beh k cs a \<noteq> None" using Cons.IH [OF _ Cons.prems(2,3)] Cons.prems(1) by auto
      then show ?thesis using True CAbort by (intro exI [of _ "Suc k"]) simp
    next
      case False
      obtain k b e where b: "fire beh k t 0 (mark_aborted t r a) = Some (b, e)"
        using nested [OF _ False Cons.prems(2,3)] Cons.prems(1) CAbort by force
      have "fewer (mark_aborted t r a) b" "keeps a b"
        using respected.fire_respects [OF tame_respected [OF tame] b] keeping.fire_respects [OF b] keeps_mark [OF False] keeps_trans
        by blast+
      then obtain m where m: "run_calls beh m cs b \<noteq> None" using rest [of b] by auto
      have "fire beh (k + m) t 0 (mark_aborted t r a) = Some (b, e)" using more_fuel(1) [OF b] .
      moreover have "run_calls beh (k + m) cs b \<noteq> None" using m more_fuel(2) [of beh m cs b _ k] by (auto simp: add.commute)
      ultimately show ?thesis
        using CAbort False by (intro exI [of _ "Suc (k + m)"]) (auto split: option.split)
    qed
  next
    case (CThrow e)
    then show ?thesis by (intro exI [of _ 1]) simp
  next
    case (CAdd t f)
    then show ?thesis using Cons.prems(1) by simp
  next
    case (CRemove t f)
    obtain k where "run_calls beh k cs (plain_call c a) \<noteq> None"
      using rest [OF fewer_plain [of S c a] keeps_plain [of a c]] CRemove by auto
    then show ?thesis using CRemove by (intro exI [of _ "Suc k"]) simp
  next
    case (COn t f)
    obtain k where "run_calls beh k cs (plain_call c a) \<noteq> None"
      using rest [OF fewer_plain [of S c a] keeps_plain [of a c]] Cons.prems(1) COn by auto
    then show ?thesis using COn by (intro exI [of _ "Suc k"]) simp
  qed
qed

lemma fire_ends:
  assumes tame: "tame S beh"
    and nested: "\<And>t r a. t \<in> S \<Longrightarrow> \<not> sg_aborted (ss_signal a t) \<Longrightarrow> follows_in S a \<Longrightarrow> open_in S a \<le> n \<Longrightarrow>
      \<exists>k. fire beh k t 0 (mark_aborted t r a) \<noteq> None"
  shows "follows_in S a \<Longrightarrow> open_in S a \<le> n \<Longrightarrow> \<exists>k. fire beh k s i a \<noteq> None"
proof (induction "length (sg_listeners (ss_signal a s)) - i" arbitrary: a i rule: less_induct)
  case less
  have S: "finite S" using tame by (simp add: tame_def)
  let ?ls = "sg_listeners (ss_signal a s)"
  show ?case
  proof (cases "i < length ?ls")
    case False
    then show ?thesis by (intro exI [of _ 1]) simp
  next
    case lt: True
    have go: "\<exists>k. fire beh k s (i + 1) b \<noteq> None" if "fewer a b" "keeps a b" for b
    proof -
      have "length (sg_listeners (ss_signal b s)) - (i + 1) < length ?ls - i"
        using that(1) lt unfolding fewer_def by (meson diff_less_mono2 le_less_trans less_add_one diff_le_mono)
      then show ?thesis
        using less.hyps [of b "i + 1"] follows_fewer [OF less.prems(1) that(1)] open_in_keeps [OF S that(2)] less.prems(2) by simp
    qed
    define one where "one k = (case ?ls ! i of
        LUser f \<Rightarrow> run_calls beh k (beh f (log_call s f a)) (log_call s f a)
      | LSource c src \<Rightarrow>
          if sg_aborted (ss_signal a c) then Some (a, None)
          else fire beh k c 0 (mark_aborted c (sg_reason (ss_signal a src)) a))" for k
    obtain k b e where b: "one k = Some (b, e)" "fewer a b" "keeps a b"
    proof (cases "?ls ! i")
      case (LUser f)
      let ?a = "log_call s f a"
      have "list_all (tame_call S) (beh f ?a)" "follows_in S ?a" "open_in S ?a \<le> n"
        using tame less.prems by (simp_all add: tame_def follows_in_def open_in_def log_call_def)
      from run_ends [OF tame nested this] obtain k b e where b: "run_calls beh k (beh f ?a) ?a = Some (b, e)" by fastforce
      have "fewer ?a b" "keeps ?a b"
        using respected.calls_respect [OF tame_respected [OF tame] _ b] tame keeping.calls_respect [OF _ b]
        by (auto simp: tame_def list_all_iff)
      then have "fewer a b" "keeps a b" by (simp_all add: fewer_def keeps_def log_call_def)
      moreover have "one k = Some (b, e)" using b LUser by (simp add: one_def)
      ultimately show thesis using that by blast
    next
      case (LSource c src)
      then have c: "c \<in> S" using less.prems(1) lt nth_mem [OF lt] unfolding follows_in_def by metis
      show thesis
      proof (cases "sg_aborted (ss_signal a c)")
        case True
        then show thesis using that [of 0 a None] LSource by (simp add: one_def fewer_def keeps_refl)
      next
        case False
        let ?a = "mark_aborted c (sg_reason (ss_signal a src)) a"
        obtain k b e where b: "fire beh k c 0 ?a = Some (b, e)" using nested [OF c False less.prems] by fastforce
        have "fewer ?a b" "keeps a b"
          using respected.fire_respects [OF tame_respected [OF tame] b] keeping.fire_respects [OF b] keeps_mark [OF False] keeps_trans
          by blast+
        then have "fewer a b" "keeps a b" by simp_all
        moreover have "one k = Some (b, e)" using b LSource False by (simp add: one_def)
        ultimately show thesis using that by blast
      qed
    qed
    obtain m where m: "fire beh m s (i + 1) b \<noteq> None" using go [OF b(2,3)] by blast
    have "one (k + m) = Some (b, e)"
      using b(1) more_fuel [of beh] unfolding one_def by (auto split: listener.splits if_splits)
    moreover have "fire beh (k + m) s (i + 1) b \<noteq> None" using m more_fuel(1) [of beh m s "i + 1" b _ k] by (auto simp: add.commute)
    moreover have "fire beh (Suc (k + m)) s i a = (case one (k + m) of
        None \<Rightarrow> None | Some (st', Some e) \<Rightarrow> Some (st', Some e) | Some (st', None) \<Rightarrow> fire beh (k + m) s (i + 1) st')"
      using lt unfolding one_def by (simp only: fire.simps if_True)
    ultimately show ?thesis by (intro exI [of _ "Suc (k + m)"]) (simp split: option.split del: fire.simps)
  qed
qed

lemma aborts_end:
  assumes "tame S beh"
  shows "t \<in> S \<Longrightarrow> \<not> sg_aborted (ss_signal a t) \<Longrightarrow> follows_in S a \<Longrightarrow> open_in S a \<le> n \<Longrightarrow>
    \<exists>k. fire beh k t 0 (mark_aborted t r a) \<noteq> None"
proof (induction n arbitrary: t r a)
  case 0
  then show ?case using open_in_mark [of S t a r] assms by (simp add: tame_def)
next
  case (Suc n)
  have "follows_in S (mark_aborted t r a)" using Suc.prems(3) by (simp add: follows_in_def mark_aborted_def change_def)
  moreover have "open_in S (mark_aborted t r a) \<le> n"
    using open_in_mark [of S t a r] assms Suc.prems by (simp add: tame_def)
  ultimately show ?case using fire_ends [OF assms Suc.IH] by blast
qed

text \<open>C21: Whatever its listeners do, also when they abort this or other signals, add or remove listeners, or throw, a signal
that is aborted stays aborted, with the reason it was first aborted for; and when \<open>abort\<close> returns or throws, the signal is
aborted, with the given reason if it was not aborted before. \<open>abort\<close> does return or throw (some fuel is enough) when the
listeners add no listeners and abort only signals of a finite set, to which the composite signals that follow others belong
too. (A listener that adds itself again makes \<open>abort\<close> run forever: \<open>adds_itself_hangs\<close>.)\<close>

theorem aborted_for_good:
  "(controller_abort beh fuel s reason st = Some (st', e) \<longrightarrow>
    sg_aborted (ss_signal st' s) \<and>
    sg_reason (ss_signal st' s) = (if sg_aborted (ss_signal st s) then sg_reason (ss_signal st s) else reason) \<and>
    (\<forall>t. sg_aborted (ss_signal st t) \<longrightarrow>
       sg_aborted (ss_signal st' t) \<and> sg_reason (ss_signal st' t) = sg_reason (ss_signal st t))) \<and>
   (tame S beh \<and> s \<in> S \<and> follows_in S st \<longrightarrow> (\<exists>fuel. controller_abort beh fuel s reason st \<noteq> None))"
proof (cases "sg_aborted (ss_signal st s)")
  case True
  then show ?thesis by (auto simp: controller_abort_def)
next
  case False
  have "sg_aborted (ss_signal st' s) \<and> sg_reason (ss_signal st' s) = reason \<and>
      (\<forall>t. sg_aborted (ss_signal st t) \<longrightarrow>
         sg_aborted (ss_signal st' t) \<and> sg_reason (ss_signal st' t) = sg_reason (ss_signal st t))"
    if "controller_abort beh fuel s reason st = Some (st', e)"
  proof -
    have k: "keeps (mark_aborted s reason st) st'"
      using that False keeping.fire_respects by (simp add: controller_abort_def)
    then have "keeps st st'" using keeps_trans [OF keeps_mark [OF False]] by blast
    then show ?thesis using k by (auto simp: keeps_def mark_aborted_def change_def split: if_splits)
  qed
  moreover have "\<exists>fuel. controller_abort beh fuel s reason st \<noteq> None" if "tame S beh \<and> s \<in> S \<and> follows_in S st"
    using aborts_end [of S beh s st "open_in S st" reason] that False by (auto simp: controller_abort_def)
  ultimately show ?thesis using False by simp
qed

lemma aborted_for_good_witness:
  "\<exists>fuel st' e. controller_abort (\<lambda>f _. [CAbort 1 8 False, CThrow 5]) fuel 1 7
       (addListener 1 (LUser 3) \<lparr>ss_signal = (\<lambda>_. new_signal), ss_calls = []\<rparr>) = Some (st', e) \<and>
     sg_aborted (ss_signal st' 1) \<and> sg_reason (ss_signal st' 1) = 7"
proof -
  let ?st = "addListener 1 (LUser 3) \<lparr>ss_signal = (\<lambda>_. new_signal), ss_calls = []\<rparr>" and ?beh = "\<lambda>f _. [CAbort 1 8 False, CThrow 5]"
  have open_sig: "\<not> sg_aborted (ss_signal ?st 1)" by (simp add: addListener_def change_def new_signal_def)
  have "tame {1} ?beh \<and> 1 \<in> {1::nat} \<and> follows_in {1} ?st"
    by (auto simp: tame_def follows_in_def addListener_def change_def new_signal_def)
  then obtain fuel st' e where r: "controller_abort ?beh fuel 1 7 ?st = Some (st', e)"
    using aborted_for_good [of ?beh 0 1 7 ?st undefined undefined "{1}"] by auto
  then show ?thesis
    using aborted_for_good [of ?beh fuel 1 7 ?st st' e "{}"] open_sig by auto
qed

section \<open>Every listener hears of it\<close>

text \<open>Listeners that only observe are all called, once and in the order in which they were added.\<close>

fun user_fun :: "listener \<Rightarrow> nat" where
  "user_fun (LUser f) = f"
| "user_fun (LSource c s) = 0"

fun is_user :: "listener \<Rightarrow> bool" where
  "is_user (LUser f) \<longleftrightarrow> True"
| "is_user (LSource c s) \<longleftrightarrow> False"

lemma fire_observers:
  assumes "list_all is_user (sg_listeners (ss_signal st s))" "length (sg_listeners (ss_signal st s)) + 1 < k + i"
  shows "fire (\<lambda>_ _. []) k s i st =
    Some (st\<lparr>ss_calls := ss_calls st @ map (\<lambda>l. (s, user_fun l)) (drop i (sg_listeners (ss_signal st s)))\<rparr>, None) \<or> k = 0"
  using assms
proof (induction k arbitrary: i st)
  case (Suc k)
  show ?case
  proof (cases "i < length (sg_listeners (ss_signal st s))")
    case True
    then obtain f where f: "sg_listeners (ss_signal st s) ! i = LUser f"
      using Suc.prems(1) by (cases "sg_listeners (ss_signal st s) ! i") (auto simp: list_all_length)
    obtain j where j: "k = Suc j" using Suc.prems(2) True by (cases k) auto
    define st1 where "st1 = st\<lparr>ss_calls := ss_calls st @ [(s, f)]\<rparr>"
    have "fire (\<lambda>_ _. []) (Suc k) s i st = fire (\<lambda>_ _. []) k s (i + 1) st1"
      using True f j by (simp add: st1_def log_call_def)
    also have "\<dots> = Some (st1\<lparr>ss_calls := ss_calls st1 @ map (\<lambda>l. (s, user_fun l)) (drop (i + 1) (sg_listeners (ss_signal st1 s)))\<rparr>, None)"
      using Suc.IH [of st1 "i + 1"] Suc.prems j by (simp add: st1_def)
    finally show ?thesis
      using True f by (simp add: st1_def flip: Cons_nth_drop_Suc)
  qed simp
qed simp

theorem observers_all_called:
  assumes "\<not> sg_aborted (ss_signal st s)" "list_all is_user (sg_listeners (ss_signal st s))"
    "length (sg_listeners (ss_signal st s)) + 1 < fuel"
  shows "controller_abort (\<lambda>_ _. []) fuel s reason st =
    Some ((mark_aborted s reason st)\<lparr>ss_calls := ss_calls st @ map (\<lambda>l. (s, user_fun l)) (sg_listeners (ss_signal st s))\<rparr>, None)"
  using fire_observers [of "mark_aborted s reason st" s fuel 0] assms
  by (auto simp: controller_abort_def mark_aborted_def change_def)

lemma observers_all_called_witness:
  "map_option (ss_calls \<circ> fst) (controller_abort (\<lambda>_ _. []) 5 1 7
     (addListener 1 (LUser 4) (addListener 1 (LUser 3) \<lparr>ss_signal = (\<lambda>_. new_signal), ss_calls = []\<rparr>))) =
   Some [(1, 3), (1, 4)]"
proof -
  let ?st = "addListener 1 (LUser 4) (addListener 1 (LUser 3) \<lparr>ss_signal = (\<lambda>_. new_signal), ss_calls = []\<rparr>)"
  note e = addListener_def change_def new_signal_def
  have l: "sg_listeners (ss_signal ?st 1) = [LUser 3, LUser 4]" "\<not> sg_aborted (ss_signal ?st 1)" "ss_calls ?st = []"
    by (simp_all add: e)
  show ?thesis using observers_all_called [of ?st 1 5 7] l by simp
qed

text \<open>A composite signal follows the first of its sources that is aborted, with its reason.\<close>

lemma fire_until:
  assumes "\<forall>l \<in> set (sg_listeners (ss_signal st s)). is_user l \<or> l = LSource c s" "c \<noteq> s"
    "sg_listeners (ss_signal st c) = []" "fire (\<lambda>_ _. []) k s i st = Some (st', None)"
    "sg_aborted (ss_signal st c) \<or> LSource c s \<in> set (drop i (sg_listeners (ss_signal st s)))"
    "sg_aborted (ss_signal st c) \<longrightarrow> sg_reason (ss_signal st c) = sg_reason (ss_signal st s)"
  shows "sg_aborted (ss_signal st' c) \<and> sg_reason (ss_signal st' c) = sg_reason (ss_signal st s)"
  using assms
proof (induction k arbitrary: i st)
  case (Suc k)
  show ?case
  proof (cases "i < length (sg_listeners (ss_signal st s))")
    case lt: True
    have "is_user (sg_listeners (ss_signal st s) ! i) \<or> sg_listeners (ss_signal st s) ! i = LSource c s"
      using Suc.prems(1) lt by simp
    then consider f where "sg_listeners (ss_signal st s) ! i = LUser f" | "sg_listeners (ss_signal st s) ! i = LSource c s"
      by (cases "sg_listeners (ss_signal st s) ! i") auto
    then show ?thesis
    proof cases
      case (1 f)
      define u where "u = st\<lparr>ss_calls := ss_calls st @ [(s, f)]\<rparr>"
      have "fire (\<lambda>_ _. []) k s (i + 1) u = Some (st', None)"
        using Suc.prems(4) lt 1 by (cases k) (simp_all add: u_def log_call_def)
      then show ?thesis
        using Suc.IH [of u "i + 1"] Suc.prems(1-3,5,6) lt 1 by (simp add: u_def flip: Cons_nth_drop_Suc)
    next
      case 2
      show ?thesis
      proof (cases "sg_aborted (ss_signal st c)")
        case True
        then have "fire (\<lambda>_ _. []) k s (i + 1) st = Some (st', None)" using Suc.prems(4) lt 2 by simp
        then show ?thesis using Suc.IH [of st "i + 1"] Suc.prems True by simp
      next
        case False
        define u where "u = mark_aborted c (sg_reason (ss_signal st s)) st"
        obtain j where k: "k = Suc j" using Suc.prems(4) lt 2 False by (cases k) simp_all
        have "fire (\<lambda>_ _. []) k c 0 u = Some (u, None)"
          using Suc.prems(3) by (simp add: u_def k mark_aborted_def change_def)
        then have "fire (\<lambda>_ _. []) k s (i + 1) u = Some (st', None)" using Suc.prems(4) lt 2 False by (simp add: u_def)
        then show ?thesis
          using Suc.IH [of u "i + 1"] Suc.prems(1-3) by (simp add: u_def mark_aborted_def change_def)
      qed
    qed
  next
    case False
    then show ?thesis using Suc.prems by simp
  qed
qed simp

lemma any_listeners:
  assumes "c \<notin> set sources"
  shows "ss_signal (fold (\<lambda>s. addListener s (LSource c s)) sources st) t =
    (ss_signal st t)\<lparr>sg_listeners := sg_listeners (ss_signal st t) @ replicate (count_list sources t) (LSource c t)\<rparr>"
  using assms by (induction sources arbitrary: st) (auto simp: addListener_def change_def)

theorem composite_follows:
  assumes "s \<in> set sources" "c \<notin> set sources" "\<forall>t \<in> set sources. \<not> sg_aborted (ss_signal st t)"
    "list_all is_user (sg_listeners (ss_signal st s))"
    "controller_abort (\<lambda>_ _. []) fuel s reason (any_new c sources st) = Some (st', None)"
  shows "sg_aborted (ss_signal st' c) \<and> sg_reason (ss_signal st' c) = reason"
proof -
  have "find (\<lambda>s. sg_aborted (ss_signal st s)) sources = None" using assms(3) by (auto simp: find_None_iff)
  then have any: "any_new c sources st = fold (\<lambda>s. addListener s (LSource c s)) sources (change c (\<lambda>_. new_signal) st)"
    by (simp add: any_new_def)
  define u where "u = mark_aborted s reason (any_new c sources st)"
  have cs: "c \<noteq> s" using assms(1,2) by auto
  have "count_list sources s \<noteq> 0" using assms(1) by (simp add: count_list_0_iff)
  then have l: "sg_listeners (ss_signal u s) = sg_listeners (ss_signal st s) @ replicate (count_list sources s) (LSource c s)"
    "LSource c s \<in> set (sg_listeners (ss_signal u s))" "sg_reason (ss_signal u s) = reason"
    using cs by (simp_all add: u_def any mark_aborted_def change_def any_listeners [OF assms(2)])
  have c: "ss_signal u c = new_signal"
    using cs assms(2) by (simp add: u_def any mark_aborted_def change_def any_listeners [OF assms(2)] count_list_0_iff [THEN iffD2] new_signal_def)
  have "\<not> sg_aborted (ss_signal (any_new c sources st) s)"
    using assms(1,3) cs by (simp add: any any_listeners [OF assms(2)] change_def)
  then have "fire (\<lambda>_ _. []) fuel s 0 u = Some (st', None)" using assms(5) by (simp add: controller_abort_def u_def)
  then show ?thesis
    using fire_until [of u s c fuel 0 st'] l c cs assms(4) by (auto simp: new_signal_def list_all_iff)
qed

lemma composite_follows_witness:
  "map_option (\<lambda>(st, e). (sg_aborted (ss_signal st 3), sg_reason (ss_signal st 3)))
     (controller_abort (\<lambda>_ _. []) 9 2 7 (any_new 3 [1, 2] \<lparr>ss_signal = (\<lambda>_. new_signal), ss_calls = []\<rparr>)) = Some (True, 7)"
proof -
  let ?st = "\<lparr>ss_signal = (\<lambda>_. new_signal), ss_calls = []\<rparr>"
  obtain st' where st': "controller_abort (\<lambda>_ _. []) 9 2 7 (any_new 3 [1, 2] ?st) = Some (st', None)"
    by (simp add: controller_abort_def any_new_def addListener_def mark_aborted_def change_def new_signal_def log_call_def numeral_eq_Suc)
  then show ?thesis
    using composite_follows [of 2 "[1, 2]" 3 ?st 9 7 st'] by (simp add: new_signal_def)
qed

section \<open>Behaviour that differs from the documentation\<close>

text \<open>
  A listener that removes itself makes the array shorter while \<open>_fire\<close> goes on to the next index, so the
  listener after it is not called. The requests of \<open>fetch\<close> that share a signal have such listeners: when it is
  aborted, every second request goes on.
\<close>

lemma abort_skips:
  "map_option (ss_calls \<circ> fst) (controller_abort (\<lambda>f _. [CRemove 1 f]) 9 1 7
     (addListener 1 (LUser 4) (addListener 1 (LUser 3) \<lparr>ss_signal = (\<lambda>_. new_signal), ss_calls = []\<rparr>))) = Some [(1, 3)]"
  by (simp add: controller_abort_def addListener_def removeListener_def mark_aborted_def change_def new_signal_def log_call_def numeral_eq_Suc)

text \<open>A listener that adds itself again is called again, and again: \<open>abort\<close> does not return, whatever the fuel.\<close>

lemma adds_itself_fires:
  assumes "list_all (\<lambda>l. l = LUser f) (sg_listeners (ss_signal st s))" "i < length (sg_listeners (ss_signal st s))"
  shows "fire (\<lambda>f _. [CAdd s f]) k s i st = None"
  using assms
proof (induction k arbitrary: i st)
  case (Suc k)
  define u where "u = addListener s (LUser f) (log_call s f st)"
  have l: "sg_listeners (ss_signal st s) ! i = LUser f" using Suc.prems by (simp add: list_all_length)
  have "fire (\<lambda>f _. [CAdd s f]) k s (i + 1) u = None"
    using Suc.prems by (intro Suc.IH) (simp_all add: u_def addListener_def change_def log_call_def)
  moreover have "run_calls (\<lambda>f _. [CAdd s f]) k [CAdd s f] (log_call s f st) \<in> {None, Some (u, None)}"
    by (cases k; cases "k - 1") (auto simp: u_def)
  ultimately show ?case
    using Suc.prems(2) l unfolding fire.simps(2) [of _ k] by (auto simp del: fire.simps run_calls.simps)
qed simp

lemma adds_itself_hangs:
  "controller_abort (\<lambda>f _. [CAdd 1 f]) fuel 1 7 (addListener 1 (LUser 3) \<lparr>ss_signal = (\<lambda>_. new_signal), ss_calls = []\<rparr>) = None"
proof -
  have "fire (\<lambda>f _. [CAdd 1 f]) fuel 1 0 (mark_aborted 1 7 (addListener 1 (LUser 3) \<lparr>ss_signal = (\<lambda>_. new_signal), ss_calls = []\<rparr>)) = None"
    by (rule adds_itself_fires [where f = 3]) (simp_all add: addListener_def mark_aborted_def change_def new_signal_def)
  then show ?thesis by (simp add: controller_abort_def addListener_def change_def new_signal_def)
qed

text \<open>The same function added twice is called twice; the standard adds it once.\<close>

lemma added_twice:
  "map_option (ss_calls \<circ> fst) (controller_abort (\<lambda>_ _. []) 9 1 7
     (addListener 1 (LUser 3) (addListener 1 (LUser 3) \<lparr>ss_signal = (\<lambda>_. new_signal), ss_calls = []\<rparr>))) = Some [(1, 3), (1, 3)]"
  by (simp add: controller_abort_def addListener_def mark_aborted_def change_def new_signal_def log_call_def numeral_eq_Suc)

end
