(* ===== verification/FetchPool.thy ===== *)
theory FetchPool
  imports Prelude "HOL-Library.AList" "HOL-Library.Multiset"
begin

text \<open>
  The class \<open>ConnectionPool\<close> of \<open>fetch.js\<close>: idle sockets kept for reuse, by origin. The two objects used as
  dictionaries are association lists (their keys hold a colon, so no inherited property is met, and
  \<open>Object.keys\<close> lists them in the order of insertion). An entry is known by its number, which is also the
  number of its timer; \<open>pl_timers\<close> are the timers that may still fire, each with what its callback holds.
  The calls that close a socket are logged in \<open>pl_closed\<close>, with \<open>True\<close> for \<open>tlsClose\<close>.
\<close>

section \<open>State\<close>

record pool_entry =
  pe_id :: nat
  pe_handle :: int

record pool =
  pl_maxPerOrigin :: nat
  pl_maxTotal :: nat
  pl_idleTimeout :: nat
  pl_keepAlive :: bool
  pl_free :: "(jsstr \<times> pool_entry list) list"
  pl_active :: "(jsstr \<times> nat) list"
  pl_totalActive :: int
  pl_totalFree :: int
  pl_timers :: "(jsstr \<times> pool_entry) list"
  pl_next :: nat
  pl_closed :: "(bool \<times> int) list"

text \<open>An option that is missing or zero takes its default.\<close>

definition or_default :: "nat option \<Rightarrow> nat \<Rightarrow> nat" where
  "or_default v d = (case v of None \<Rightarrow> d | Some n \<Rightarrow> if n = 0 then d else n)"

definition pool_new :: "nat option \<Rightarrow> nat option \<Rightarrow> nat option \<Rightarrow> bool option \<Rightarrow> pool" where
  "pool_new maxSocketsPerOrigin maxTotalSockets idleTimeout keepAlive =
     \<lparr>pl_maxPerOrigin = or_default maxSocketsPerOrigin 6, pl_maxTotal = or_default maxTotalSockets 256,
      pl_idleTimeout = or_default idleTimeout 5000, pl_keepAlive = (case keepAlive of None \<Rightarrow> True | Some b \<Rightarrow> b),
      pl_free = [], pl_active = [], pl_totalActive = 0, pl_totalFree = 0, pl_timers = [], pl_next = 0, pl_closed = []\<rparr>"

section \<open>Operations\<close>

definition pool_key :: "jsstr \<Rightarrow> nat \<Rightarrow> bool \<Rightarrow> jsstr" where
  "pool_key host port isTLS = host @ [58] @ js (dec_string port) @ [58] @ (if isTLS then js ''tls'' else js ''tcp'')"

definition free_of :: "pool \<Rightarrow> jsstr \<Rightarrow> pool_entry list" where
  "free_of p key = (case map_of (pl_free p) key of None \<Rightarrow> [] | Some es \<Rightarrow> es)"

definition active_of :: "pool \<Rightarrow> jsstr \<Rightarrow> nat" where
  "active_of p key = (case map_of (pl_active p) key of None \<Rightarrow> 0 | Some n \<Rightarrow> n)"

text \<open>What \<open>acquire\<close> and \<open>trackActive\<close> do to the counts of active sockets.\<close>

definition count_active :: "jsstr \<Rightarrow> pool \<Rightarrow> pool" where
  "count_active key p =
     p\<lparr>pl_active := AList.update key (active_of p key + 1) (pl_active p), pl_totalActive := pl_totalActive p + 1\<rparr>"

text \<open>An array that has become empty is deleted from the dictionary.\<close>

definition put_free :: "jsstr \<Rightarrow> pool_entry list \<Rightarrow> pool \<Rightarrow> pool" where
  "put_free key es p =
     p\<lparr>pl_free := (if es = [] then AList.delete key (pl_free p) else AList.update key es (pl_free p))\<rparr>"

definition clear_timer :: "pool_entry \<Rightarrow> pool \<Rightarrow> pool" where
  "clear_timer e p = p\<lparr>pl_timers := filter (\<lambda>t. pe_id (snd t) \<noteq> pe_id e) (pl_timers p)\<rparr>"

definition pool_acquire :: "pool \<Rightarrow> jsstr \<Rightarrow> nat \<Rightarrow> bool \<Rightarrow> pool \<times> int" where
  "pool_acquire p host port isTLS =
     (if \<not> pl_keepAlive p then (p, 0)
      else let key = pool_key host port isTLS; free = free_of p key
      in if free = [] then (p, 0)
         else let entry = last free; p1 = clear_timer entry (put_free key (butlast free) p)
              in (count_active key (p1\<lparr>pl_totalFree := pl_totalFree p1 - 1\<rparr>), pe_handle entry))"

definition closeHandle :: "int \<Rightarrow> bool \<Rightarrow> pool \<Rightarrow> pool" where
  "closeHandle handle isTLS p = (if handle = 0 then p else p\<lparr>pl_closed := pl_closed p @ [(isTLS, handle)]\<rparr>)"

definition uncount_active :: "jsstr \<Rightarrow> pool \<Rightarrow> pool" where
  "uncount_active key p =
     (let p1 = (if active_of p key = 0 then p
                else if active_of p key - 1 = 0 then p\<lparr>pl_active := AList.delete key (pl_active p)\<rparr>
                else p\<lparr>pl_active := AList.update key (active_of p key - 1) (pl_active p)\<rparr>)
      in if 0 < pl_totalActive p1 then p1\<lparr>pl_totalActive := pl_totalActive p1 - 1\<rparr> else p1)"

definition pool_release :: "pool \<Rightarrow> jsstr \<Rightarrow> nat \<Rightarrow> bool \<Rightarrow> int \<Rightarrow> bool \<Rightarrow> pool" where
  "pool_release p host port isTLS handle serverClose =
     (let key = pool_key host port isTLS; p1 = uncount_active key p
      in if serverClose \<or> \<not> pl_keepAlive p1 \<or> handle = 0 then closeHandle handle isTLS p1
         else let p2 = (if map_of (pl_free p1) key = None then p1\<lparr>pl_free := AList.update key [] (pl_free p1)\<rparr> else p1)
         in if pl_maxPerOrigin p2 \<le> length (free_of p2 key) then closeHandle handle isTLS p2
            else if int (pl_maxTotal p2) \<le> pl_totalFree p2 then closeHandle handle isTLS p2
            else let entry = \<lparr>pe_id = pl_next p2, pe_handle = handle\<rparr>
                 in p2\<lparr>pl_timers := pl_timers p2 @ [(key, entry)], pl_next := pl_next p2 + 1,
                      pl_free := AList.update key (free_of p2 key @ [entry]) (pl_free p2),
                      pl_totalFree := pl_totalFree p2 + 1\<rparr>)"

definition pool_trackActive :: "pool \<Rightarrow> jsstr \<Rightarrow> nat \<Rightarrow> bool \<Rightarrow> pool" where
  "pool_trackActive p host port isTLS = count_active (pool_key host port isTLS) p"

definition activeCount :: "pool \<Rightarrow> jsstr \<Rightarrow> nat \<Rightarrow> bool \<Rightarrow> nat" where
  "activeCount p host port isTLS = active_of p (pool_key host port isTLS)"

definition freeCount :: "pool \<Rightarrow> jsstr \<Rightarrow> nat \<Rightarrow> bool \<Rightarrow> nat" where
  "freeCount p host port isTLS = length (free_of p (pool_key host port isTLS))"

definition key_tls :: "jsstr \<Rightarrow> bool" where
  "key_tls key \<longleftrightarrow> index_of_str (js '':tls'') key \<noteq> None"

definition pool_evict :: "pool \<Rightarrow> jsstr \<Rightarrow> pool_entry \<Rightarrow> pool" where
  "pool_evict p key entry =
     (case map_of (pl_free p) key of
        None \<Rightarrow> p
      | Some free \<Rightarrow>
          (let p1 = (if entry \<in> set free
                     then (let q = put_free key (remove1 entry free) p in q\<lparr>pl_totalFree := pl_totalFree q - 1\<rparr>)
                     else p)
           in closeHandle (pe_handle entry) (key_tls key) (clear_timer entry p1)))"

text \<open>A timer that fires is no longer pending when its callback runs.\<close>

definition fire_timer :: "pool \<Rightarrow> jsstr \<times> pool_entry \<Rightarrow> pool" where
  "fire_timer p t = pool_evict (p\<lparr>pl_timers := remove1 t (pl_timers p)\<rparr>) (fst t) (snd t)"

fun close_entries :: "bool \<Rightarrow> pool_entry list \<Rightarrow> pool \<Rightarrow> pool" where
  "close_entries isTLS [] p = p"
| "close_entries isTLS (e # es) p = close_entries isTLS es (closeHandle (pe_handle e) isTLS (clear_timer e p))"

fun close_origins :: "(jsstr \<times> pool_entry list) list \<Rightarrow> pool \<Rightarrow> pool" where
  "close_origins [] p = p"
| "close_origins (f # fs) p = close_origins fs (close_entries (key_tls (fst f)) (snd f) p)"

definition pool_destroy :: "pool \<Rightarrow> pool" where
  "pool_destroy p = (close_origins (pl_free p) p)\<lparr>pl_free := [], pl_totalFree := 0\<rparr>"

definition pool_stats :: "pool \<Rightarrow> int \<times> int" where
  "pool_stats p = (pl_totalActive p, pl_totalFree p)"

section \<open>Sockets that are parked\<close>

text \<open>All idle sockets with their keys, and what changing one array of the dictionary does to them.\<close>

definition pairs :: "('k \<times> 'e list) list \<Rightarrow> ('k \<times> 'e) list" where
  "pairs fs = concat (map (\<lambda>f. map (Pair (fst f)) (snd f)) fs)"

definition listed :: "('k \<times> 'e list) list \<Rightarrow> 'k \<Rightarrow> 'e list" where
  "listed fs k = (case map_of fs k of None \<Rightarrow> [] | Some es \<Rightarrow> es)"

abbreviation parked :: "pool \<Rightarrow> (jsstr \<times> pool_entry) list" where
  "parked p \<equiv> pairs (pl_free p)"

lemma free_of_listed: "free_of p k = listed (pl_free p) k"
  by (simp add: free_of_def listed_def)

lemma pairs_simps [simp]:
  "pairs [] = []"
  "pairs (f # fs) = map (Pair (fst f)) (snd f) @ pairs fs"
  by (simp_all add: pairs_def)

lemma listed_absent: "k \<notin> fst ` set fs \<Longrightarrow> listed fs k = []"
  by (simp add: listed_def map_of_eq_None_iff [THEN iffD2] split: option.split)

lemma in_pairs: "distinct (map fst fs) \<Longrightarrow> (k, e) \<in> set (pairs fs) \<longleftrightarrow> e \<in> set (listed fs k)"
proof (induction fs)
  case (Cons f fs)
  show ?case
  proof (cases "fst f = k")
    case True
    then have "e \<notin> set (listed fs k)" using Cons.prems listed_absent [of k fs] by auto
    then show ?thesis using True Cons by (auto simp: listed_def)
  next
    case False
    then show ?thesis using Cons by (auto simp: listed_def)
  qed
qed (simp add: listed_def)

lemma pairs_update:
  "distinct (map fst fs) \<Longrightarrow>
   mset (pairs (AList.update k es fs)) + mset (map (Pair k) (listed fs k)) = mset (pairs fs) + mset (map (Pair k) es)"
proof (induction fs)
  case (Cons f fs)
  then show ?case
    using listed_absent [of k fs] by (cases "fst f = k") (auto simp: listed_def add_ac)
qed (simp add: listed_def)

lemma pairs_delete:
  "distinct (map fst fs) \<Longrightarrow> mset (pairs (AList.delete k fs)) + mset (map (Pair k) (listed fs k)) = mset (pairs fs)"
proof (induction fs)
  case (Cons f fs)
  show ?case
  proof (cases "fst f = k")
    case True
    then have "k \<notin> fst ` set fs" using Cons.prems by auto
    then have "AList.delete k fs = fs" by (simp add: delete_id)
    then show ?thesis using True by (cases f) (simp add: listed_def)
  next
    case False
    then show ?thesis using Cons by (cases f) (simp add: listed_def)
  qed
qed (simp add: listed_def)

lemma listed_update: "listed (AList.update k es fs) k' = (if k' = k then es else listed fs k')"
  by (simp add: listed_def update_conv')

lemma listed_delete: "listed (AList.delete k fs) k' = (if k' = k then [] else listed fs k')"
  by (simp add: listed_def delete_conv')

lemma parked_put:
  assumes "distinct (map fst (pl_free p))"
  shows "mset (parked (put_free k es p)) + mset (map (Pair k) (free_of p k)) = mset (parked p) + mset (map (Pair k) es)"
    and "distinct (map fst (pl_free (put_free k es p)))"
    and "free_of (put_free k es p) k' = (if k' = k then es else free_of p k')"
  using assms pairs_update [OF assms, of k es] pairs_delete [OF assms, of k]
  by (simp_all add: put_free_def free_of_listed listed_update listed_delete distinct_update distinct_delete)

section \<open>The invariant of a pool\<close>

text \<open>
  The count of free sockets is right, the limits hold, and the timers that may fire are exactly those of
  the sockets that are parked.
\<close>

definition pool_wf :: "pool \<Rightarrow> bool" where
  "pool_wf p \<longleftrightarrow>
     distinct (map fst (pl_free p)) \<and> mset (pl_timers p) = mset (parked p) \<and>
     distinct (map (\<lambda>t. pe_id (snd t)) (pl_timers p)) \<and> (\<forall>t \<in> set (pl_timers p). pe_id (snd t) < pl_next p) \<and>
     pl_totalFree p = int (length (parked p)) \<and> (\<forall>k. length (free_of p k) \<le> pl_maxPerOrigin p) \<and>
     pl_totalFree p \<le> int (pl_maxTotal p)"

lemma pool_wfD:
  assumes "pool_wf p"
  shows "distinct (map fst (pl_free p))" "mset (pl_timers p) = mset (parked p)"
    "distinct (map (\<lambda>t. pe_id (snd t)) (pl_timers p))" "\<And>t. t \<in> set (pl_timers p) \<Longrightarrow> pe_id (snd t) < pl_next p"
    "pl_totalFree p = int (length (parked p))" "\<And>k. length (free_of p k) \<le> pl_maxPerOrigin p"
    "pl_totalFree p \<le> int (pl_maxTotal p)" "set (pl_timers p) = set (parked p)"
  using assms by (auto simp: pool_wf_def dest: mset_eq_setD)

lemma pool_new_wf: "pool_wf (pool_new a b c d)"
  by (simp add: pool_wf_def pool_new_def free_of_listed listed_def)

lemma distinct_ids_filter:
  assumes "distinct (map (\<lambda>t. pe_id (snd t)) ts)" "t \<in> set ts"
  shows "mset (filter (\<lambda>u. pe_id (snd u) \<noteq> pe_id (snd t)) ts) + {#t#} = mset ts"
  using assms
proof (induction ts)
  case (Cons u ts)
  show ?case
  proof (cases "u = t")
    case True
    then have "filter (\<lambda>u. pe_id (snd u) \<noteq> pe_id (snd t)) ts = ts"
      using Cons.prems(1) True by (intro filter_True) (force simp: image_iff)
    then show ?thesis using True by simp
  next
    case False
    then have "t \<in> set ts" using Cons.prems(2) by simp
    moreover from this have "pe_id (snd u) \<noteq> pe_id (snd t)" using Cons.prems(1) by auto
    ultimately show ?thesis using Cons by simp
  qed
qed simp

text \<open>Taking one entry out of its array, with its timer and the count.\<close>

lemma take_out:
  assumes wf: "pool_wf p" and es: "mset (free_of p k) = mset es + {#e#}"
    and free: "pl_free q = pl_free (put_free k es p)" and total: "pl_totalFree q = pl_totalFree p - 1"
    and timers: "pl_timers q = filter (\<lambda>t. pe_id (snd t) \<noteq> pe_id e) (pl_timers p)"
    and same: "pl_next q = pl_next p" "pl_maxPerOrigin q = pl_maxPerOrigin p" "pl_maxTotal q = pl_maxTotal p"
  shows "pool_wf q" and "mset (parked p) = mset (parked q) + {#(k, e)#}"
proof -
  note wfD = pool_wfD [OF wf]
  note put = parked_put [OF wfD(1), of k es]
  have "image_mset (Pair k) (mset (free_of p k)) = image_mset (Pair k) (mset es) + {#(k, e)#}" by (simp add: es)
  then have m: "mset (parked p) = mset (parked q) + {#(k, e)#}"
    using put(1) by (simp add: free)
  then show "mset (parked p) = mset (parked q) + {#(k, e)#}" .
  have t: "(k, e) \<in> set (pl_timers p)" using m wfD(8) by (metis set_mset_mset union_single_eq_member mset_eq_setD union_mset_add_mset_right add_mset_add_single)
  have ts: "mset (pl_timers q) + {#(k, e)#} = mset (pl_timers p)"
    using distinct_ids_filter [OF wfD(3) t] by (simp add: timers)
  have len: "length (parked p) = length (parked q) + 1" using arg_cong [OF m, of size] by simp
  have le: "length es < length (free_of p k)" using arg_cong [OF es, of size] by simp
  show "pool_wf q"
    unfolding pool_wf_def
  proof (intro conjI ballI allI)
    show "distinct (map fst (pl_free q))" using put(2) by (simp add: free)
    show "mset (pl_timers q) = mset (parked q)" using ts m wfD(2) by simp
    show "distinct (map (\<lambda>t. pe_id (snd t)) (pl_timers q))"
      using wfD(3) by (simp add: timers distinct_map_filter)
    show "pl_totalFree q = int (length (parked q))" using wfD(5) len by (simp add: total)
    show "pl_totalFree q \<le> int (pl_maxTotal q)" using wfD(7) by (simp add: total same)
  next
    fix j show "length (free_of q j) \<le> pl_maxPerOrigin q"
      using put(3) [of j] wfD(6) [of j] le by (auto simp: free_of_def free same split: if_splits)
  next
    fix t assume "t \<in> set (pl_timers q)"
    then show "pe_id (snd t) < pl_next q" using wfD(4) by (auto simp: timers same)
  qed
qed

lemma pool_wf_cong:
  assumes "pl_free q = pl_free p" "pl_timers q = pl_timers p" "pl_next q = pl_next p" "pl_totalFree q = pl_totalFree p"
    "pl_maxPerOrigin q = pl_maxPerOrigin p" "pl_maxTotal q = pl_maxTotal p"
  shows "pool_wf q = pool_wf p"
  using assms by (simp add: pool_wf_def free_of_def)

lemma uncount_active_fields [simp]:
  "pl_free (uncount_active k p) = pl_free p" "pl_timers (uncount_active k p) = pl_timers p"
  "pl_next (uncount_active k p) = pl_next p" "pl_totalFree (uncount_active k p) = pl_totalFree p"
  "pl_maxPerOrigin (uncount_active k p) = pl_maxPerOrigin p" "pl_maxTotal (uncount_active k p) = pl_maxTotal p"
  "pl_closed (uncount_active k p) = pl_closed p" "pl_keepAlive (uncount_active k p) = pl_keepAlive p"
  by (auto simp: uncount_active_def Let_def)

lemma count_active_fields [simp]:
  "pl_free (count_active k p) = pl_free p" "pl_timers (count_active k p) = pl_timers p"
  "pl_next (count_active k p) = pl_next p" "pl_totalFree (count_active k p) = pl_totalFree p"
  "pl_maxPerOrigin (count_active k p) = pl_maxPerOrigin p" "pl_maxTotal (count_active k p) = pl_maxTotal p"
  "pl_closed (count_active k p) = pl_closed p" "pl_keepAlive (count_active k p) = pl_keepAlive p"
  by (auto simp: count_active_def)

lemma closeHandle_fields [simp]:
  "pl_free (closeHandle h b p) = pl_free p" "pl_timers (closeHandle h b p) = pl_timers p"
  "pl_next (closeHandle h b p) = pl_next p" "pl_totalFree (closeHandle h b p) = pl_totalFree p"
  "pl_maxPerOrigin (closeHandle h b p) = pl_maxPerOrigin p" "pl_maxTotal (closeHandle h b p) = pl_maxTotal p"
  "pl_closed (closeHandle h b p) = pl_closed p @ (if h = 0 then [] else [(b, h)])"
  by (auto simp: closeHandle_def)

lemma last_butlast_mset: "xs \<noteq> [] \<Longrightarrow> mset xs = mset (butlast xs) + {#last xs#}"
  by (metis append_butlast_last_id mset_append mset_single_iff_right)

text \<open>What each operation does to the parked sockets and to the log of closed ones.\<close>

lemma acquire_effect:
  assumes "pool_wf p" "pool_acquire p host port tls = (p', h)"
  shows "pool_wf p' \<and> pl_closed p' = pl_closed p \<and>
    (p' = p \<and> h = 0 \<or>
     (\<exists>e. h = pe_handle e \<and> mset (parked p) = mset (parked p') + {#(pool_key host port tls, e)#}))"
proof -
  define k where "k = pool_key host port tls"
  show ?thesis
  proof (cases "pl_keepAlive p \<and> free_of p k \<noteq> []")
    case False
    then have "p' = p \<and> h = 0" using assms(2) by (auto simp: pool_acquire_def Let_def k_def split: if_splits)
    then show ?thesis using assms(1) by simp
  next
    case True
    then have p': "h = pe_handle (last (free_of p k))"
      "p' = count_active k ((clear_timer (last (free_of p k)) (put_free k (butlast (free_of p k)) p))
        \<lparr>pl_totalFree := pl_totalFree (clear_timer (last (free_of p k)) (put_free k (butlast (free_of p k)) p)) - 1\<rparr>)"
      using assms(2) by (auto simp: pool_acquire_def Let_def k_def)
    have "pool_wf p'" "mset (parked p) = mset (parked p') + {#(k, last (free_of p k))#}"
      using True by (intro take_out [OF assms(1), of k "butlast (free_of p k)"]; simp add: p' clear_timer_def put_free_def last_butlast_mset)+
    then show ?thesis using p'(1) by (auto simp: k_def p' clear_timer_def put_free_def)
  qed
qed

lemma add_empty:
  assumes "distinct (map fst fs)" "map_of fs k = None"
  shows "mset (pairs (AList.update k [] fs)) = mset (pairs fs)"
  using pairs_update [OF assms(1), of k "[]"] assms(2) by (simp add: listed_def)

lemma add_empty_wf:
  assumes "pool_wf p" "map_of (pl_free p) k = None"
  shows "pool_wf (p\<lparr>pl_free := AList.update k [] (pl_free p)\<rparr>)"
proof -
  let ?q = "p\<lparr>pl_free := AList.update k [] (pl_free p)\<rparr>"
  note d = pool_wfD [OF assms(1)]
  have m: "mset (parked ?q) = mset (parked p)" using add_empty [OF d(1) assms(2)] by simp
  then have "length (parked ?q) = length (parked p)" by (metis size_mset)
  moreover have "free_of ?q j = free_of p j" for j
    using assms(2) by (simp add: free_of_listed listed_update) (simp add: listed_def)
  ultimately show ?thesis using d m distinct_update [OF d(1)] by (simp add: pool_wf_def)
qed

lemma release_effect:
  assumes wf: "pool_wf p" and p'_def: "p' = pool_release p host port tls h serverClose"
  shows "pool_wf p' \<and>
    (mset (parked p') = mset (parked p) \<and> pl_closed p' = pl_closed p @ (if h = 0 then [] else [(tls, h)]) \<or>
     h \<noteq> 0 \<and> \<not> serverClose \<and> pl_closed p' = pl_closed p \<and>
     mset (parked p') = mset (parked p) + {#(pool_key host port tls, \<lparr>pe_id = pl_next p, pe_handle = h\<rparr>)#})"
proof -
  define k where "k = pool_key host port tls"
  define p1 where "p1 = uncount_active k p"
  define p2 where "p2 = (if map_of (pl_free p1) k = None then p1\<lparr>pl_free := AList.update k [] (pl_free p1)\<rparr> else p1)"
  define e where "e = \<lparr>pe_id = pl_next p2, pe_handle = h\<rparr>"
  have wf1: "pool_wf p1" using wf by (simp add: p1_def cong: pool_wf_cong)
  then have wf2: "pool_wf p2 \<and> mset (parked p2) = mset (parked p1)"
    using add_empty [OF pool_wfD(1)] add_empty_wf by (auto simp: p2_def)
  have f2: "pl_closed p2 = pl_closed p" "pl_next p2 = pl_next p" by (simp_all add: p2_def p1_def)
  note d2 = pool_wfD [OF wf2 [THEN conjunct1]]
  show ?thesis
  proof (cases "serverClose \<or> \<not> pl_keepAlive p1 \<or> h = 0")
    case True
    then have "p' = closeHandle h tls p1" by (simp add: p'_def pool_release_def Let_def k_def p1_def)
    then show ?thesis using wf1 by (simp add: p1_def cong: pool_wf_cong)
  next
    case c1: False
    show ?thesis
    proof (cases "pl_maxPerOrigin p2 \<le> length (free_of p2 k) \<or> int (pl_maxTotal p2) \<le> pl_totalFree p2")
      case True
      then have "p' = closeHandle h tls p2"
        using c1 by (auto simp: p'_def pool_release_def Let_def k_def p1_def p2_def)
      then show ?thesis using wf2 f2 by (simp add: p1_def cong: pool_wf_cong)
    next
      case False
      then have p': "p' = p2\<lparr>pl_timers := pl_timers p2 @ [(k, e)], pl_next := pl_next p2 + 1,
          pl_free := AList.update k (free_of p2 k @ [e]) (pl_free p2), pl_totalFree := pl_totalFree p2 + 1\<rparr>"
        using c1 by (auto simp: p'_def pool_release_def Let_def k_def p1_def p2_def e_def)
      have m: "mset (parked p') = mset (parked p2) + {#(k, e)#}"
        using pairs_update [OF d2(1), of k "free_of p2 k @ [e]"] by (simp add: p' free_of_listed)
      have "length (parked p') = length (parked p2) + 1" using arg_cong [OF m, of size] by simp
      moreover have "pe_id e \<notin> (\<lambda>t. pe_id (snd t)) ` set (pl_timers p2)" using d2(4) by (fastforce simp: e_def)
      ultimately have "pool_wf p'"
        using d2 False m by (auto simp: pool_wf_def p' free_of_listed listed_update distinct_update e_def less_SucI)
      then show ?thesis using m c1 f2 wf2 by (simp add: p' e_def k_def p1_def)
    qed
  qed
qed

lemma fire_effect:
  assumes wf: "pool_wf p" and t: "t \<in> set (pl_timers p)"
  shows "pool_wf (fire_timer p t) \<and> mset (parked p) = mset (parked (fire_timer p t)) + {#t#} \<and>
    pl_closed (fire_timer p t) =
      pl_closed p @ (if pe_handle (snd t) = 0 then [] else [(key_tls (fst t), pe_handle (snd t))])"
proof -
  obtain k e where te: "t = (k, e)" by (cases t)
  note d = pool_wfD [OF wf]
  have e: "e \<in> set (free_of p k)" using t d(8) in_pairs [OF d(1)] by (simp add: te free_of_listed)
  then have m: "map_of (pl_free p) k = Some (free_of p k)"
    by (cases "map_of (pl_free p) k") (auto simp: free_of_def)
  define q where "q = fire_timer p t"
  have "filter (\<lambda>u. pe_id (snd u) \<noteq> pe_id e) (remove1 t (pl_timers p)) = filter (\<lambda>u. pe_id (snd u) \<noteq> pe_id e) (pl_timers p)"
    by (simp add: te filter_remove1)
  then have q: "pl_free q = pl_free (put_free k (remove1 e (free_of p k)) p)" "pl_totalFree q = pl_totalFree p - 1"
    "pl_timers q = filter (\<lambda>u. pe_id (snd u) \<noteq> pe_id e) (pl_timers p)" "pl_next q = pl_next p"
    "pl_maxPerOrigin q = pl_maxPerOrigin p" "pl_maxTotal q = pl_maxTotal p"
    "pl_closed q = pl_closed p @ (if pe_handle e = 0 then [] else [(key_tls k, pe_handle e)])"
    using m e by (simp_all add: q_def fire_timer_def te pool_evict_def Let_def put_free_def clear_timer_def)
  have "mset (free_of p k) = mset (remove1 e (free_of p k)) + {#e#}" using e by simp
  from take_out [OF wf this q(1-6) [folded q_def]] show ?thesis
    unfolding q_def [symmetric] using q(7) by (simp add: te)
qed

text \<open>What is closed for a parked socket.\<close>

definition socket_of :: "jsstr \<times> pool_entry \<Rightarrow> bool \<times> int" where
  "socket_of t = (key_tls (fst t), pe_handle (snd t))"

lemma close_entries_effect:
  "close_entries b es p =
     p\<lparr>pl_timers := filter (\<lambda>t. pe_id (snd t) \<notin> pe_id ` set es) (pl_timers p),
       pl_closed := pl_closed p @ filter (\<lambda>s. snd s \<noteq> 0) (map (\<lambda>e. (b, pe_handle e)) es)\<rparr>"
  by (induction es arbitrary: p) (auto simp: clear_timer_def closeHandle_def conj_commute intro!: filter_cong)

lemma close_origins_effect:
  "close_origins fs p =
     p\<lparr>pl_timers := filter (\<lambda>t. pe_id (snd t) \<notin> (\<lambda>u. pe_id (snd u)) ` set (pairs fs)) (pl_timers p),
       pl_closed := pl_closed p @ filter (\<lambda>s. snd s \<noteq> 0) (map socket_of (pairs fs))\<rparr>"
proof (induction fs arbitrary: p)
  case (Cons f fs)
  have "(\<lambda>u. pe_id (snd u)) ` set (pairs (f # fs)) = pe_id ` set (snd f) \<union> (\<lambda>u. pe_id (snd u)) ` set (pairs fs)"
    by force
  then show ?case
    by (simp add: Cons close_entries_effect socket_of_def comp_def)
qed simp

lemma destroy_effect:
  assumes wf: "pool_wf p"
  shows "pool_wf (pool_destroy p) \<and> parked (pool_destroy p) = [] \<and> pl_timers (pool_destroy p) = [] \<and>
    pl_closed (pool_destroy p) = pl_closed p @ filter (\<lambda>s. snd s \<noteq> 0) (map socket_of (parked p))"
proof -
  have "filter (\<lambda>t. pe_id (snd t) \<notin> (\<lambda>u. pe_id (snd u)) ` set (parked p)) (pl_timers p) = []"
    using pool_wfD(8) [OF wf] by (auto simp: filter_empty_conv)
  then show ?thesis
    by (simp add: pool_destroy_def close_origins_effect pool_wf_def free_of_listed listed_def)
qed

section \<open>Ownership of sockets\<close>

text \<open>
  The pool with its clients. A client connects and tells the pool, or is handed a parked socket; it gives
  the socket back, or closes it itself and tells the pool with the handle 0 (a request that is aborted on a
  socket from the pool). Handles are not zero, and the system does not give out a handle that is in use.
  \<open>ow_opened\<close> is the log of connections.
\<close>

type_synonym origin = "jsstr \<times> nat \<times> bool"

record owners =
  ow_pool :: pool
  ow_held :: "(origin \<times> int) list"
  ow_opened :: "(bool \<times> int) list"

abbreviation okey :: "origin \<Rightarrow> jsstr" where
  "okey o1 \<equiv> pool_key (fst o1) (fst (snd o1)) (snd (snd o1))"

definition held_socket :: "origin \<times> int \<Rightarrow> bool \<times> int" where
  "held_socket c = (snd (snd (fst c)), snd c)"

definition live :: "owners \<Rightarrow> (bool \<times> int) multiset" where
  "live s = image_mset held_socket (mset (ow_held s)) + image_mset socket_of (mset (parked (ow_pool s)))"

inductive ostep :: "owners \<Rightarrow> owners \<Rightarrow> bool" where
  connect: "ostep s (s\<lparr>ow_pool := pool_trackActive (ow_pool s) host port tls,
      ow_held := ((host, port, tls), h) # ow_held s, ow_opened := ow_opened s @ [(tls, h)]\<rparr>)"
    if "h \<noteq> 0" "58 \<notin> set host" "(tls, h) \<notin># live s"
| reuse: "ostep s (s\<lparr>ow_pool := p, ow_held := ((host, port, tls), h) # ow_held s\<rparr>)"
    if "pool_acquire (ow_pool s) host port tls = (p, h)" "h \<noteq> 0" "58 \<notin> set host"
| give: "ostep s (s\<lparr>ow_pool := pool_release (ow_pool s) host port tls h serverClose,
      ow_held := remove1 ((host, port, tls), h) (ow_held s)\<rparr>)"
    if "((host, port, tls), h) \<in> set (ow_held s)"
| abandon: "ostep s (s\<lparr>ow_pool := pool_release (closeHandle h tls (ow_pool s)) host port tls 0 True,
      ow_held := remove1 ((host, port, tls), h) (ow_held s)\<rparr>)"
    if "((host, port, tls), h) \<in> set (ow_held s)"
| timeout: "ostep s (s\<lparr>ow_pool := fire_timer (ow_pool s) t\<rparr>)" if "t \<in> set (pl_timers (ow_pool s))"
| destroy: "ostep s (s\<lparr>ow_pool := pool_destroy (ow_pool s)\<rparr>)"

inductive owned :: "owners \<Rightarrow> bool" where
  start: "owned \<lparr>ow_pool = pool_new a b c d, ow_held = [], ow_opened = []\<rparr>"
| further: "owned s'" if "owned s" "ostep s s'"

text \<open>The key of an origin says whether it is TLS, as \<open>_evict\<close> and \<open>destroy\<close> rely on.\<close>

lemma sublist_skip: "c \<notin> set xs \<Longrightarrow> sublist (c # t) (xs @ ys) \<longleftrightarrow> sublist (c # t) ys"
  by (induction xs) (auto simp: sublist_Cons_right)

lemma key_tls_key: "58 \<notin> set host \<Longrightarrow> key_tls (pool_key host port tls) = tls"
proof -
  assume h: "58 \<notin> set host"
  define d where "d = js (dec_string port)"
  have d: "58 \<notin> set d" "108 \<notin> set d" using dec_string_digits [of port] by (auto simp: d_def)
  have "sublist (js '':tls'') (d @ js '':tls'')"
    by (rule suffix_imp_sublist) (simp only: suffix_def, blast)
  moreover have "\<not> sublist (js '':tls'') ([58] @ d @ [58] @ js ''tcp'')"
  proof
    assume "sublist (js '':tls'') ([58] @ d @ [58] @ js ''tcp'')"
    then have "set (js '':tls'') \<subseteq> set ([58] @ d @ [58] @ js ''tcp'')" by (rule set_mono_sublist)
    then show False using d(2) by simp
  qed
  ultimately show ?thesis
    using h by (auto simp: key_tls_def pool_key_def index_of_str_None sublist_skip sublist_Cons_right simp flip: d_def)
qed

definition owners_ok :: "owners \<Rightarrow> bool" where
  "owners_ok s \<longleftrightarrow>
     pool_wf (ow_pool s) \<and> mset (ow_opened s) = live s + mset (pl_closed (ow_pool s)) \<and>
     (\<forall>x. count (live s) x \<le> 1) \<and> (\<forall>x \<in># live s. snd x \<noteq> 0) \<and> (\<forall>c \<in> set (ow_held s). 58 \<notin> set (fst (fst c)))"

text \<open>A step keeps the books when it moves sockets between the pool, its clients and the log.\<close>

lemma owners_move:
  assumes ok: "owners_ok s" and wf: "pool_wf (ow_pool s')"
    and move: "live s = live s' + mset xs" "pl_closed (ow_pool s') = pl_closed (ow_pool s) @ xs"
    and opened: "ow_opened s' = ow_opened s" and held: "\<forall>c \<in> set (ow_held s'). 58 \<notin> set (fst (fst c))"
  shows "owners_ok s'"
  unfolding owners_ok_def
proof (intro conjI allI ballI)
  show "mset (ow_opened s') = live s' + mset (pl_closed (ow_pool s'))"
    using ok by (simp add: owners_ok_def move opened)
  have sub: "live s' \<subseteq># live s" by (simp add: move)
  show "count (live s') x \<le> 1" for x
  proof -
    have "count (live s) x \<le> 1" using ok unfolding owners_ok_def by blast
    then show ?thesis using mset_subset_eq_count [OF sub, of x] by linarith
  qed
  show "snd x \<noteq> 0" if "x \<in># live s'" for x
    using mset_subset_eqD [OF sub that] ok by (auto simp: owners_ok_def)
qed (use wf held in auto)

lemma held_remove:
  "c \<in> set cs \<Longrightarrow> image_mset held_socket (mset cs) = image_mset held_socket (mset (remove1 c cs)) + {#held_socket c#}"
proof -
  assume "c \<in> set cs"
  then have "mset cs = mset (remove1 c cs) + {#c#}" by simp
  then show ?thesis by (metis image_mset_single image_mset_union)
qed

lemma heldD:
  assumes "owners_ok s" "((host, port, tls), h) \<in> set (ow_held s)"
  shows "h \<noteq> 0" "58 \<notin> set host"
proof -
  have "(tls, h) \<in># live s"
    using assms(2) by (force simp: live_def held_socket_def)
  then show "h \<noteq> 0" using assms(1) by (auto simp: owners_ok_def)
  show "58 \<notin> set host" using assms by (auto simp: owners_ok_def)
qed

lemma held_hosts: "owners_ok s \<Longrightarrow> \<forall>c \<in> set (remove1 d (ow_held s)). 58 \<notin> set (fst (fst c))"
proof
  fix c
  assume "owners_ok s" "c \<in> set (remove1 d (ow_held s))"
  moreover from this(2) have "c \<in> set (ow_held s)" by (metis notin_set_remove1)
  ultimately show "58 \<notin> set (fst (fst c))" unfolding owners_ok_def by blast
qed

lemma ostep_ok:
  assumes "ostep s s'" "owners_ok s"
  shows "owners_ok s'"
  using assms
proof (induction rule: ostep.induct)
  case (connect h host tls s port)
  then have "pool_wf (ow_pool s)" by (simp add: owners_ok_def)
  then have "pool_wf (pool_trackActive (ow_pool s) host port tls)"
    by (simp add: pool_trackActive_def cong: pool_wf_cong)
  then show ?case
    using connect by (auto simp: owners_ok_def live_def pool_trackActive_def held_socket_def not_in_iff)
next
  case (reuse s host port tls p h)
  have wf: "pool_wf (ow_pool s)" and nz: "\<forall>x \<in># live s. snd x \<noteq> 0" using reuse(4) by (auto simp: owners_ok_def)
  obtain e where e: "h = pe_handle e" "mset (parked (ow_pool s)) = mset (parked p) + {#(pool_key host port tls, e)#}"
    "pool_wf p" "pl_closed p = pl_closed (ow_pool s)"
    using acquire_effect [OF wf reuse(1)] reuse(2) by auto
  have held: "\<forall>c \<in> set (((host, port, tls), h) # ow_held s). 58 \<notin> set (fst (fst c))"
    using reuse(3,4) by (simp add: owners_ok_def)
  show ?case
    using e held key_tls_key [OF reuse(3), of port tls]
    by (intro owners_move [OF reuse(4), of _ "[]"]) (simp_all add: live_def held_socket_def socket_of_def)
next
  case (give host port tls h s serverClose)
  have wf: "pool_wf (ow_pool s)" using give(2) by (simp add: owners_ok_def)
  note h = heldD [OF give(2,1)]
  let ?q = "pool_release (ow_pool s) host port tls h serverClose"
  note rel = release_effect [OF wf refl, of host port tls h serverClose]
  note r = held_remove [OF give(1)]
  have held: "\<forall>c \<in> set (remove1 ((host, port, tls), h) (ow_held s)). 58 \<notin> set (fst (fst c))"
    by (rule held_hosts [OF give(2)])
  consider "mset (parked ?q) = mset (parked (ow_pool s))" "pl_closed ?q = pl_closed (ow_pool s) @ [(tls, h)]"
    | "pl_closed ?q = pl_closed (ow_pool s)"
      "mset (parked ?q) = mset (parked (ow_pool s)) + {#(pool_key host port tls, \<lparr>pe_id = pl_next (ow_pool s), pe_handle = h\<rparr>)#}"
    using rel h(1) by auto
  then show ?case
  proof cases
    case 1
    then show ?thesis
      using rel [THEN conjunct1] r held
      by (intro owners_move [OF give(2), of _ "[(tls, h)]"]) (simp_all add: live_def held_socket_def)
  next
    case 2
    then show ?thesis
      using rel [THEN conjunct1] r held key_tls_key [OF h(2), of port tls]
      by (intro owners_move [OF give(2), of _ "[]"]) (simp_all add: live_def held_socket_def socket_of_def)
  qed
next
  case (abandon host port tls h s)
  have wf: "pool_wf (ow_pool s)" using abandon(2) by (simp add: owners_ok_def)
  note h = heldD [OF abandon(2,1)]
  have wf1: "pool_wf (closeHandle h tls (ow_pool s))" using wf by (simp cong: pool_wf_cong)
  note rel = release_effect [OF wf1 refl, of host port tls 0 True]
  have held: "\<forall>c \<in> set (remove1 ((host, port, tls), h) (ow_held s)). 58 \<notin> set (fst (fst c))"
    by (rule held_hosts [OF abandon(2)])
  show ?case
    using rel held_remove [OF abandon(1)] held h
    by (intro owners_move [OF abandon(2), of _ "[(tls, h)]"]) (simp_all add: live_def held_socket_def)
next
  case (timeout t s)
  have wf: "pool_wf (ow_pool s)" using timeout by (simp add: owners_ok_def)
  note f = fire_effect [OF wf timeout(1)]
  have "snd (socket_of t) \<noteq> 0"
    using timeout pool_wfD(8) [OF wf] by (auto simp: owners_ok_def live_def)
  then show ?case
    using f timeout(2)
    by (intro owners_move [OF timeout(2), of _ "[socket_of t]"])
      (auto simp: live_def socket_of_def owners_ok_def)
next
  case (destroy s)
  have wf: "pool_wf (ow_pool s)" using destroy by (simp add: owners_ok_def)
  have "filter (\<lambda>s. snd s \<noteq> 0) (map socket_of (parked (ow_pool s))) = map socket_of (parked (ow_pool s))"
    using destroy by (intro filter_True) (auto simp: owners_ok_def live_def)
  then show ?case
    using destroy_effect [OF wf] destroy
    by (intro owners_move [OF destroy, of _ "map socket_of (parked (ow_pool s))"]) (auto simp: live_def owners_ok_def)
qed

lemma owners_start: "owners_ok \<lparr>ow_pool = pool_new a b c d, ow_held = [], ow_opened = []\<rparr>"
proof -
  have "pl_free (pool_new a b c d) = []" "pl_closed (pool_new a b c d) = []" by (simp_all add: pool_new_def)
  then show ?thesis by (simp add: owners_ok_def live_def pool_new_wf)
qed

lemma owned_ok: "owned s \<Longrightarrow> owners_ok s"
  by (induction rule: owned.induct) (auto simp: owners_start intro: ostep_ok)

section \<open>Properties\<close>

text \<open>The pools that any calls at all, with any arguments, and the timers can lead to.\<close>

inductive pool_reach :: "pool \<Rightarrow> bool" where
  new: "pool_reach (pool_new a b c d)"
| acquired: "pool_reach (fst (pool_acquire p host port tls))" if "pool_reach p"
| released: "pool_reach (pool_release p host port tls h serverClose)" if "pool_reach p"
| tracked: "pool_reach (pool_trackActive p host port tls)" if "pool_reach p"
| fired: "pool_reach (fire_timer p t)" if "pool_reach p" "t \<in> set (pl_timers p)"
| destroyed: "pool_reach (pool_destroy p)" if "pool_reach p"

lemma pool_reach_wf: "pool_reach p \<Longrightarrow> pool_wf p"
proof (induction rule: pool_reach.induct)
  case (new a b c d)
  show ?case by (rule pool_new_wf)
next
  case (acquired p host port tls)
  then show ?case using acquire_effect [of p host port tls] by (cases "pool_acquire p host port tls") auto
next
  case (released p host port tls h serverClose)
  then show ?case using release_effect [OF _ refl] by blast
next
  case (tracked p host port tls)
  then show ?case by (simp add: pool_trackActive_def cong: pool_wf_cong)
next
  case (fired p t)
  then show ?case using fire_effect by blast
next
  case (destroyed p)
  then show ?case using destroy_effect by blast
qed

theorem pool_accounts:
  assumes "pool_reach p"
  shows "snd (pool_stats p) = int (length (parked p)) \<and> snd (pool_stats p) \<le> int (pl_maxTotal p) \<and>
    (\<forall>host port tls. freeCount p host port tls \<le> pl_maxPerOrigin p) \<and> mset (pl_timers p) = mset (parked p)"
  using pool_wfD [OF pool_reach_wf [OF assms]] by (simp add: pool_stats_def freeCount_def)

lemma pool_accounts_witness:
  "let p = pool_release (pool_new None None None None) (js ''h'') 80 False 5 False
   in pool_reach p \<and> snd (pool_stats p) = int (length (parked p)) \<and> freeCount p (js ''h'') 80 False = 1"
proof -
  let ?p = "pool_release (pool_new None None None None) (js ''h'') 80 False 5 False"
  have r: "pool_reach ?p" by (intro pool_reach.intros)
  moreover have "freeCount ?p (js ''h'') 80 False = 1"
    by (simp add: freeCount_def pool_release_def Let_def uncount_active_def active_of_def pool_new_def or_default_def
        free_of_def)
  ultimately show ?thesis using pool_accounts [OF r] by (simp add: Let_def)
qed

text \<open>C17: In every state that the pool and its clients reach, each connection that was opened is held by one client, parked once, or closed once; and \<open>acquire\<close> never hands out a socket that somebody holds.\<close>

theorem sockets_owned_once:
  assumes "owned s"
  shows "mset (ow_opened s) = live s + mset (pl_closed (ow_pool s)) \<and> (\<forall>x. count (live s) x \<le> 1) \<and>
    (\<forall>host port tls p h. 58 \<notin> set host \<longrightarrow> pool_acquire (ow_pool s) host port tls = (p, h) \<longrightarrow> h \<noteq> 0 \<longrightarrow>
       (tls, h) \<notin> held_socket ` set (ow_held s))"
proof -
  have ok: "owners_ok s" using assms by (rule owned_ok)
  have "(tls, h) \<notin> held_socket ` set (ow_held s)"
    if a: "58 \<notin> set host" "pool_acquire (ow_pool s) host port tls = (p, h)" "h \<noteq> 0" for host port tls p h
  proof
    assume "(tls, h) \<in> held_socket ` set (ow_held s)"
    then have "(tls, h) \<in># image_mset held_socket (mset (ow_held s))" by simp
    moreover obtain e where "h = pe_handle e"
      "mset (parked (ow_pool s)) = mset (parked p) + {#(pool_key host port tls, e)#}"
      using acquire_effect [OF _ a(2)] ok a(3) by (auto simp: owners_ok_def)
    then have "(tls, h) \<in># image_mset socket_of (mset (parked (ow_pool s)))"
      using key_tls_key [OF a(1), of port tls] by (simp add: socket_of_def)
    ultimately have "0 < count (image_mset held_socket (mset (ow_held s))) (tls, h)"
      "0 < count (image_mset socket_of (mset (parked (ow_pool s)))) (tls, h)"
      unfolding count_greater_zero_iff by blast+
    then have "1 < count (live s) (tls, h)" unfolding live_def count_union by linarith
    moreover have "count (live s) (tls, h) \<le> 1" using ok unfolding owners_ok_def by blast
    ultimately show False by simp
  qed
  then show ?thesis using ok unfolding owners_ok_def by blast
qed

lemma sockets_owned_once_witness:
  "\<exists>s. owned s \<and> ow_held s = [((js ''h'', 80, False), 5)] \<and> mset (ow_opened s) = live s + mset (pl_closed (ow_pool s))"
proof -
  let ?s = "\<lparr>ow_pool = pool_new None None None None, ow_held = [], ow_opened = []\<rparr>"
  let ?t = "?s\<lparr>ow_pool := pool_trackActive (ow_pool ?s) (js ''h'') 80 False,
      ow_held := ((js ''h'', 80, False), 5) # ow_held ?s, ow_opened := ow_opened ?s @ [(False, 5)]\<rparr>"
  have "ostep ?s ?t" by (rule ostep.connect) (simp_all add: live_def pool_new_def)
  then have o: "owned ?t" using owned.start by (rule owned.further [rotated])
  show ?thesis by (rule exI [of _ ?t]) (use o sockets_owned_once [OF o] in simp)
qed

text \<open>
  Giving back a socket of an origin that has none in use takes it from the total all the same: afterwards
  the total says that no socket is in use, while one of another origin is.
\<close>

lemma release_uncounted:
  "let p = pool_release (pool_trackActive (pool_new None None None None) (js ''a'') 80 False) (js ''b'') 80 False 0 True
   in fst (pool_stats p) = 0 \<and> activeCount p (js ''a'') 80 False = 1"
  by (simp add: Let_def pool_release_def pool_trackActive_def pool_new_def uncount_active_def count_active_def
      active_of_def pool_key_def closeHandle_def pool_stats_def activeCount_def)

end
