(* ===== verification/FetchHeaders.thy ===== *)
theory FetchHeaders
  imports HttpCore
begin

text \<open>
  The small classes and tables of \<open>fetch.js\<close>: \<open>Headers\<close>, the methods of requests, MIME types, the texts
  of status codes and the codes of \<open>DOMException\<close>. Names and values are strings here: \<open>String\<close> is
  applied by the callers. The methods that throw for an immutable guard return a result.
\<close>

section \<open>Headers\<close>

type_synonym entries = "(jsstr \<times> jsstr) list"

datatype guard = GNone | GImmutable | GRequest | GResponse

record fheaders =
  fh_entries :: entries
  fh_guard :: guard

definition normalizeHeaderName :: "jsstr \<Rightarrow> jsstr" where
  "normalizeHeaderName name = to_lower name"

definition normalizeHeaderValue :: "jsstr \<Rightarrow> jsstr" where
  "normalizeHeaderValue value = trim value"

definition add_entry :: "entries \<Rightarrow> jsstr \<Rightarrow> jsstr \<Rightarrow> entries" where
  "add_entry es name value = es @ [(name, value)]"

definition immutable_error :: js_error where
  "immutable_error = TypeError ''Headers are immutable''"

definition fh_append :: "fheaders \<Rightarrow> jsstr \<Rightarrow> jsstr \<Rightarrow> fheaders result" where
  "fh_append h name value =
     (if fh_guard h = GImmutable then Inl immutable_error
      else Inr (h\<lparr>fh_entries :=
                   add_entry (fh_entries h) (normalizeHeaderName name) (normalizeHeaderValue value)\<rparr>))"

fun set_entries :: "jsstr \<Rightarrow> jsstr \<Rightarrow> bool \<Rightarrow> entries \<Rightarrow> entries" where
  "set_entries name value replaced [] = (if replaced then [] else [(name, value)])"
| "set_entries name value replaced (e # es) =
     (if fst e = name
      then (if replaced then [] else [(name, value)]) @ set_entries name value True es
      else e # set_entries name value replaced es)"

definition fh_set :: "fheaders \<Rightarrow> jsstr \<Rightarrow> jsstr \<Rightarrow> fheaders result" where
  "fh_set h name value =
     (if fh_guard h = GImmutable then Inl immutable_error
      else Inr (h\<lparr>fh_entries :=
                   set_entries (normalizeHeaderName name) (normalizeHeaderValue value) False (fh_entries h)\<rparr>))"

fun entry_values :: "entries \<Rightarrow> jsstr \<Rightarrow> jsstr list" where
  "entry_values [] name = []"
| "entry_values (e # es) name = (if fst e = name then snd e # entry_values es name else entry_values es name)"

definition fh_get :: "fheaders \<Rightarrow> jsstr \<Rightarrow> jsstr option" where
  "fh_get h name =
     (let values = entry_values (fh_entries h) (normalizeHeaderName name)
      in if values = [] then None else Some (join_with (js '', '') values))"

fun has_entry :: "entries \<Rightarrow> jsstr \<Rightarrow> bool" where
  "has_entry [] name \<longleftrightarrow> False"
| "has_entry (e # es) name \<longleftrightarrow> fst e = name \<or> has_entry es name"

definition fh_has :: "fheaders \<Rightarrow> jsstr \<Rightarrow> bool" where
  "fh_has h name \<longleftrightarrow> has_entry (fh_entries h) (normalizeHeaderName name)"

fun drop_entries :: "entries \<Rightarrow> jsstr \<Rightarrow> entries" where
  "drop_entries [] name = []"
| "drop_entries (e # es) name = (if fst e \<noteq> name then e # drop_entries es name else drop_entries es name)"

definition fh_delete :: "fheaders \<Rightarrow> jsstr \<Rightarrow> fheaders result" where
  "fh_delete h name =
     (if fh_guard h = GImmutable then Inl immutable_error
      else Inr (h\<lparr>fh_entries := drop_entries (fh_entries h) (normalizeHeaderName name)\<rparr>))"

text \<open>The arguments \<open>forEach\<close> passes to a callback that leaves the headers alone: value and name.\<close>

definition fh_forEach :: "fheaders \<Rightarrow> (jsstr \<times> jsstr) list" where
  "fh_forEach h = map (\<lambda>e. (snd e, fst e)) (fh_entries h)"

definition fh_keys :: "fheaders \<Rightarrow> jsstr list" where
  "fh_keys h = map fst (fh_entries h)"

definition fh_values :: "fheaders \<Rightarrow> jsstr list" where
  "fh_values h = map snd (fh_entries h)"

definition fh_getSetCookie :: "fheaders \<Rightarrow> jsstr list" where
  "fh_getSetCookie h = entry_values (fh_entries h) SET_COOKIE"

text \<open>\<open>next\<close> of the iterator over an array of entries: the new index and the value, \<open>None\<close> when it is done.\<close>

definition fh_next :: "entries \<Rightarrow> nat \<Rightarrow> nat \<times> (jsstr \<times> jsstr) option" where
  "fh_next es idx = (if length es \<le> idx then (idx, None) else (idx + 1, Some (es ! idx)))"

fun entries_raw :: "entries \<Rightarrow> jsstr" where
  "entries_raw [] = []"
| "entries_raw (e # es) = fst e @ js '': '' @ snd e @ CRLF @ entries_raw es"

definition fh_toRaw :: "fheaders \<Rightarrow> jsstr" where
  "fh_toRaw h = entries_raw (fh_entries h)"

text \<open>
  What the constructor may be given: nothing, headers, an array of pairs, or an object with its own keys
  in order. A pair that is too short has \<open>undefined\<close> for what is missing.
\<close>

datatype headers_init = HNothing | HHeaders fheaders | HPairs "jsstr list list" | HObject entries

definition no_headers :: fheaders where
  "no_headers = \<lparr>fh_entries = [], fh_guard = GNone\<rparr>"

definition pair_item :: "jsstr list \<Rightarrow> nat \<Rightarrow> jsstr" where
  "pair_item pair i = (if i < length pair then pair ! i else js ''undefined'')"

fun append_all :: "entries \<Rightarrow> fheaders \<Rightarrow> fheaders result" where
  "append_all [] h = Inr h"
| "append_all (e # es) h = bind_result (fh_append h (fst e) (snd e)) (append_all es)"

fun headers_new :: "headers_init \<Rightarrow> fheaders result" where
  "headers_new HNothing = Inr no_headers"
| "headers_new (HHeaders h) = Inr (no_headers\<lparr>fh_entries := fh_entries h\<rparr>)"
| "headers_new (HPairs pairs) = append_all (map (\<lambda>p. (pair_item p 0, pair_item p 1)) pairs) no_headers"
| "headers_new (HObject es) = append_all es no_headers"

section \<open>Methods\<close>

text \<open>\<open>toUpperCase\<close>, exact on the code units below 256 like \<open>to_lower\<close>.\<close>

definition upper_unit :: "nat \<Rightarrow> jsstr" where
  "upper_unit c =
     (if (97 \<le> c \<and> c \<le> 122) \<or> (224 \<le> c \<and> c \<le> 254 \<and> c \<noteq> 247) then [c - 32]
      else if c = 223 then [83, 83] else if c = 181 then [924] else if c = 255 then [376] else [c])"

definition to_upper :: "jsstr \<Rightarrow> jsstr" where
  "to_upper s = concat (map upper_unit s)"

definition VALID_METHODS :: "jsstr list" where
  "VALID_METHODS =
     map js [''GET'', ''POST'', ''PUT'', ''DELETE'', ''HEAD'', ''OPTIONS'', ''PATCH'', ''CONNECT'', ''TRACE'']"

definition normalizeMethod :: "jsval \<Rightarrow> jsstr" where
  "normalizeMethod m =
     (case m of
        VStr s \<Rightarrow> if to_upper s \<in> set VALID_METHODS then to_upper s else s
      | _ \<Rightarrow> js ''GET'')"

section \<open>MIME types\<close>

definition MIME_TYPES :: "(string \<times> string) list" where
  "MIME_TYPES =
    [(''.html'', ''text/html''), (''.htm'', ''text/html''), (''.css'', ''text/css''),
     (''.js'', ''application/javascript''), (''.mjs'', ''application/javascript''), (''.json'', ''application/json''),
     (''.xml'', ''application/xml''), (''.txt'', ''text/plain''), (''.md'', ''text/markdown''), (''.csv'', ''text/csv''),
     (''.svg'', ''image/svg+xml''), (''.png'', ''image/png''), (''.jpg'', ''image/jpeg''), (''.jpeg'', ''image/jpeg''),
     (''.gif'', ''image/gif''), (''.ico'', ''image/x-icon''), (''.webp'', ''image/webp''), (''.avif'', ''image/avif''),
     (''.woff'', ''font/woff''), (''.woff2'', ''font/woff2''), (''.ttf'', ''font/ttf''), (''.otf'', ''font/otf''),
     (''.eot'', ''application/vnd.ms-fontobject''), (''.pdf'', ''application/pdf''), (''.zip'', ''application/zip''),
     (''.gz'', ''application/gzip''), (''.tar'', ''application/x-tar''), (''.mp3'', ''audio/mpeg''),
     (''.mp4'', ''video/mp4''), (''.webm'', ''video/webm''), (''.ogg'', ''audio/ogg''), (''.wav'', ''audio/wav''),
     (''.wasm'', ''application/wasm''), (''.map'', ''application/json''), (''.ts'', ''application/typescript''),
     (''.tsx'', ''application/typescript''), (''.jsx'', ''application/javascript''), (''.yaml'', ''application/yaml''),
     (''.yml'', ''application/yaml''), (''.toml'', ''application/toml''), (''.sh'', ''application/x-sh'')]"

definition OCTET_STREAM :: jsstr where "OCTET_STREAM = js ''application/octet-stream''"

definition mimeFromExtension :: "jsval \<Rightarrow> jsstr" where
  "mimeFromExtension v =
     (case v of
        VStr s \<Rightarrow>
          (let low = to_lower s;
               ext = (if low \<noteq> [] \<and> hd low \<noteq> 46 then 46 # low else low)
           in case map_of (map (\<lambda>(e, t). (js e, js t)) MIME_TYPES) ext of Some t \<Rightarrow> t | None \<Rightarrow> OCTET_STREAM)
      | _ \<Rightarrow> OCTET_STREAM)"

definition mimeFromPath :: "jsval \<Rightarrow> jsstr" where
  "mimeFromPath v =
     (case v of
        VStr path \<Rightarrow>
          (case last_index_of 46 path of
             None \<Rightarrow> OCTET_STREAM
           | Some dotIdx \<Rightarrow> mimeFromExtension (VStr (drop dotIdx path)))
      | _ \<Rightarrow> OCTET_STREAM)"

definition mimeIsText :: "jsval \<Rightarrow> bool" where
  "mimeIsText v =
     (case v of
        VStr mime \<Rightarrow>
          starts_with mime (js ''text/'') \<or>
          mime \<in> {js ''application/json'', js ''application/javascript'', js ''application/xml'',
                  js ''application/typescript'', js ''application/yaml'', js ''image/svg+xml''}
      | _ \<Rightarrow> False)"

definition mimeCharset :: "jsval \<Rightarrow> jsstr" where
  "mimeCharset v =
     (case v of
        VStr mime \<Rightarrow>
          (let lower = to_lower mime
           in case index_of_str (js ''charset='') lower of
                None \<Rightarrow> []
              | Some idx \<Rightarrow>
                  (let rest = drop (idx + 8) lower
                   in if rest \<noteq> [] \<and> hd rest = 34
                      then (case index_of 34 (tl rest) of Some k \<Rightarrow> take k (tl rest) | None \<Rightarrow> tl rest)
                      else (case index_of 59 rest of Some semi \<Rightarrow> trim (take semi rest) | None \<Rightarrow> trim rest)))
      | _ \<Rightarrow> [])"

section \<open>Status texts and exception codes\<close>

definition STATUS_TEXTS :: "(nat \<times> string) list" where
  "STATUS_TEXTS =
    [(100, ''Continue''), (101, ''Switching Protocols''), (200, ''OK''), (201, ''Created''), (202, ''Accepted''),
     (204, ''No Content''), (206, ''Partial Content''), (301, ''Moved Permanently''), (302, ''Found''),
     (303, ''See Other''), (304, ''Not Modified''), (307, ''Temporary Redirect''), (308, ''Permanent Redirect''),
     (400, ''Bad Request''), (401, ''Unauthorized''), (403, ''Forbidden''), (404, ''Not Found''),
     (405, ''Method Not Allowed''), (408, ''Request Timeout''), (409, ''Conflict''), (413, ''Payload Too Large''),
     (414, ''URI Too Long''), (415, ''Unsupported Media Type''), (422, ''Unprocessable Entity''),
     (429, ''Too Many Requests''), (500, ''Internal Server Error''), (502, ''Bad Gateway''),
     (503, ''Service Unavailable''), (504, ''Gateway Timeout'')]"

text \<open>A status is the result of \<open>parseInt\<close>: \<open>None\<close> is \<open>NaN\<close>, which no key of the table is.\<close>

type_synonym status = "int option"

definition statusText :: "status \<Rightarrow> jsstr" where
  "statusText code =
     (case code of
        None \<Rightarrow> []
      | Some n \<Rightarrow> (case map_of STATUS_TEXTS (nat n) of Some t \<Rightarrow> if 0 \<le> n then js t else [] | None \<Rightarrow> []))"

definition DOM_EXCEPTION_CODES :: "(string \<times> nat) list" where
  "DOM_EXCEPTION_CODES =
    [(''IndexSizeError'', 1), (''HierarchyRequestError'', 3), (''WrongDocumentError'', 4),
     (''InvalidCharacterError'', 5), (''NoModificationAllowedError'', 7), (''NotFoundError'', 8),
     (''NotSupportedError'', 9), (''InvalidStateError'', 11), (''SyntaxError'', 12),
     (''InvalidModificationError'', 13), (''NamespaceError'', 14), (''InvalidAccessError'', 15),
     (''TypeMismatchError'', 17), (''SecurityError'', 18), (''NetworkError'', 19), (''AbortError'', 20),
     (''URLMismatchError'', 21), (''QuotaExceededError'', 22), (''TimeoutError'', 23), (''DataCloneError'', 25)]"

record dom_exception =
  de_message :: jsstr
  de_name :: string
  de_code :: nat

text \<open>An ordinary object answers for the inherited name \<open>constructor\<close> too; such names are not modelled.\<close>

definition DOMException :: "jsstr option \<Rightarrow> string option \<Rightarrow> dom_exception" where
  "DOMException message name =
     (let n = (case name of Some n \<Rightarrow> if n = [] then ''Error'' else n | None \<Rightarrow> ''Error'')
      in \<lparr>de_message = (case message of Some m \<Rightarrow> m | None \<Rightarrow> []), de_name = n,
          de_code = (case map_of DOM_EXCEPTION_CODES n of Some c \<Rightarrow> c | None \<Rightarrow> 0)\<rparr>)"

section \<open>Laws of headers\<close>

lemma values_append: "entry_values (es @ fs) n = entry_values es n @ entry_values fs n"
  by (induction es) auto

lemma values_add: "entry_values (add_entry es n v) m = (if m = n then entry_values es n @ [v] else entry_values es m)"
  by (auto simp: add_entry_def values_append)

lemma values_set_replaced:
  "entry_values (set_entries n v True es) m = (if m = n then [] else entry_values es m)"
  by (induction es) auto

lemma values_set: "entry_values (set_entries n v False es) m = (if m = n then [v] else entry_values es m)"
  by (induction es) (auto simp: values_set_replaced)

lemma values_drop: "entry_values (drop_entries es n) m = (if m = n then [] else entry_values es m)"
  by (induction es) auto

interpretation fh: multimap entry_values add_entry "\<lambda>es n v. set_entries n v False es" drop_entries
  by unfold_locales (simp_all add: values_add values_set values_drop)

lemma has_values: "has_entry es n \<longleftrightarrow> entry_values es n \<noteq> []"
  by (induction es) auto

lemma normalize_name_idem [simp]: "normalizeHeaderName (normalizeHeaderName n) = normalizeHeaderName n"
  by (simp add: normalizeHeaderName_def)

lemma dropWhile_idem [simp]: "dropWhile P (dropWhile P xs) = dropWhile P xs"
  by (induction xs) auto

lemma trim_ends: "trim s = [] \<or> \<not> is_white (hd (trim s)) \<and> \<not> is_white (last (trim s))"
proof (cases "trim s = []")
  case False
  define t where "t = dropWhile is_white s"
  have eq: "trim s = rev (dropWhile is_white (rev t))" by (simp add: trim_def t_def)
  with False have ne: "dropWhile is_white (rev t) \<noteq> []" by simp
  then have l: "\<not> is_white (last (trim s))" by (simp add: eq last_rev hd_dropWhile)
  obtain u where u: "rev t = u @ dropWhile is_white (rev t)" by (metis takeWhile_dropWhile_id)
  have "t = rev (dropWhile is_white (rev t)) @ rev u" using arg_cong [OF u, of rev] by simp
  then have "hd t = hd (rev (dropWhile is_white (rev t)))" using ne by (metis Nil_is_rev_conv hd_append2)
  then have "hd (trim s) = hd t" by (simp add: eq)
  moreover have "t \<noteq> []" using ne by auto
  then have "\<not> is_white (hd t)" unfolding t_def by (metis hd_dropWhile)
  ultimately show ?thesis using l by simp
qed simp

lemma trim_idem [simp]: "trim (trim s) = trim s"
proof (cases "trim s = []")
  case True
  then show ?thesis by (simp add: trim_def [of "[]"])
next
  case False
  then show ?thesis using trim_ends [of s] trim_id [of "trim s"] by blast
qed

text \<open>The form in which entries are kept: lower-case names, values without white space at their ends.\<close>

definition entry_ok :: "jsstr \<times> jsstr \<Rightarrow> bool" where
  "entry_ok e \<longleftrightarrow> to_lower (fst e) = fst e \<and> trim (snd e) = snd e"

definition headers_ok :: "fheaders \<Rightarrow> bool" where
  "headers_ok h \<longleftrightarrow> list_all entry_ok (fh_entries h)"

lemma set_entries_ok:
  "list_all entry_ok es \<Longrightarrow> entry_ok (n, v) \<Longrightarrow> list_all entry_ok (set_entries n v r es)"
  by (induction es arbitrary: r) auto

lemma drop_entries_ok: "list_all entry_ok es \<Longrightarrow> list_all entry_ok (drop_entries es n)"
  by (induction es) auto

lemma normal_entry_ok: "entry_ok (normalizeHeaderName n, normalizeHeaderValue v)"
  by (simp add: entry_ok_def normalizeHeaderName_def normalizeHeaderValue_def)

lemma append_ok: "headers_ok h \<Longrightarrow> fh_append h n v = Inr h' \<Longrightarrow> headers_ok h'"
  using normal_entry_ok [of n v]
  by (auto simp: fh_append_def headers_ok_def add_entry_def split: if_splits)

lemma append_all_ok: "headers_ok h \<Longrightarrow> append_all es h = Inr h' \<Longrightarrow> headers_ok h'"
  by (induction es arbitrary: h) (auto simp: bind_result_Inr dest: append_ok)

text \<open>The operations on a \<open>Headers\<close> object, and what a program can make of one.\<close>

datatype fh_op = OpAppend jsstr jsstr | OpSet jsstr jsstr | OpDelete jsstr

fun fh_apply :: "fh_op \<Rightarrow> fheaders \<Rightarrow> fheaders result" where
  "fh_apply (OpAppend n v) h = fh_append h n v"
| "fh_apply (OpSet n v) h = fh_set h n v"
| "fh_apply (OpDelete n) h = fh_delete h n"

inductive made_headers :: "fheaders \<Rightarrow> bool" where
  made: "made_headers h" if "headers_new init = Inr h" "\<And>g. init = HHeaders g \<Longrightarrow> made_headers g"
| changed: "made_headers h'" if "made_headers h" "fh_apply op h = Inr h'"

lemma apply_ok: "headers_ok h \<Longrightarrow> fh_apply op h = Inr h' \<Longrightarrow> headers_ok h'"
  using set_entries_ok [OF _ normal_entry_ok, of "fh_entries h"] drop_entries_ok [of "fh_entries h"]
  by (cases op) (auto simp: fh_set_def fh_delete_def headers_ok_def append_ok [unfolded headers_ok_def] split: if_splits)

lemma no_headers_ok: "headers_ok no_headers"
  by (simp add: headers_ok_def no_headers_def)

lemma headers_entries: "headers_ok (no_headers\<lparr>fh_entries := fh_entries h\<rparr>) \<longleftrightarrow> headers_ok h"
  by (simp add: headers_ok_def)

lemma made_headers_ok: "made_headers h \<Longrightarrow> headers_ok h"
proof (induction rule: made_headers.induct)
  case (made init h)
  then show ?case
    by (cases init) (auto simp: no_headers_ok headers_entries intro: append_all_ok [OF no_headers_ok])
next
  case (changed h op h')
  then show ?case using apply_ok by blast
qed

text \<open>
  Names are found in any case, an added value comes after the earlier ones, a set value replaces them, a
  deleted name is gone, and no operation touches the values of another name.
\<close>

theorem headers_are_a_multimap:
  assumes "fh_guard h \<noteq> GImmutable"
  shows "\<exists>a s d. fh_append h n v = Inr a \<and> fh_set h n v = Inr s \<and> fh_delete h n = Inr d \<and>
    (\<forall>m. fh_get a m =
       (if to_lower m = to_lower n
        then Some (case fh_get h n of None \<Rightarrow> trim v | Some w \<Rightarrow> w @ js '', '' @ trim v) else fh_get h m)) \<and>
    (\<forall>m. fh_get s m = (if to_lower m = to_lower n then Some (trim v) else fh_get h m)) \<and>
    (\<forall>m. fh_get d m = (if to_lower m = to_lower n then None else fh_get h m)) \<and>
    (\<forall>m. fh_has h m \<longleftrightarrow> fh_get h m \<noteq> None)"
  using assms
  by (auto simp: fh_append_def fh_set_def fh_delete_def fh_get_def fh_has_def Let_def has_values
      fh.all_add fh.all_put fh.all_drop normalizeHeaderName_def normalizeHeaderValue_def join_with_append)

lemma headers_are_a_multimap_witness:
  "map_sum id (\<lambda>a. fh_get a (js ''a'')) (fh_append (no_headers\<lparr>fh_entries := [(js ''a'', js ''1'')]\<rparr>) (js ''A'') (js '' 2 '')) =
     Inr (Some (js ''1, 2''))"
proof -
  let ?h = "no_headers\<lparr>fh_entries := [(js ''a'', js ''1'')]\<rparr>"
  have g: "fh_guard ?h \<noteq> GImmutable" by (simp add: no_headers_def)
  obtain a where a: "fh_append ?h (js ''A'') (js '' 2 '') = Inr a"
    and l: "\<forall>m. fh_get a m = (if to_lower m = to_lower (js ''A'')
        then Some (case fh_get ?h (js ''A'') of None \<Rightarrow> trim (js '' 2 '') | Some w \<Rightarrow> w @ js '', '' @ trim (js '' 2 ''))
        else fh_get ?h m)"
    using headers_are_a_multimap [OF g, of "js ''A''" "js '' 2 ''"] by blast
  have "fh_get ?h (js ''A'') = Some (js ''1'')" "trim (js '' 2 '') = js ''2''"
    by (simp_all add: fh_get_def normalizeHeaderName_def to_lower_def lower_unit_def trim_def is_white_def)
  then have "fh_get a (js ''a'') = Some (js ''1, 2'')"
    using l [THEN spec, of "js ''a''"] by (simp add: to_lower_def lower_unit_def)
  then show ?thesis using a by simp
qed

section \<open>Behaviour that differs from the documentation\<close>

text \<open>
  Values are not checked: the CR LF inside one is written into the request as it is, and what follows it
  is a header of its own. (\<open>http.js\<close> refuses such values.)
\<close>

lemma header_injection:
  "map_sum id fh_toRaw (fh_set no_headers (js ''X'') (js ''1'' @ CRLF @ js ''Y: 2'')) =
     Inr (js ''x: 1'' @ CRLF @ js ''Y: 2'' @ CRLF)"
  by (simp add: fh_set_def no_headers_def fh_toRaw_def normalizeHeaderName_def normalizeHeaderValue_def
      to_lower_def lower_unit_def trim_def is_white_def CRLF_def)

text \<open>A method that is not one of the nine keeps its case, a known one is always in upper case.\<close>

lemma normalizeMethod_cases:
  "normalizeMethod (VStr (js ''post'')) = js ''POST''"
  "normalizeMethod (VStr (js ''Brew'')) = js ''Brew''"
  by (simp_all add: normalizeMethod_def to_upper_def upper_unit_def VALID_METHODS_def)

end
