(* ===== verification/FetchStream.thy ===== *)
theory FetchStream
  imports FetchHeaders
begin

text \<open>
  The readable streams of \<open>fetch.js\<close>: the controller with its queue and its pending reads, the reader that
  locks a stream, the function that drains a stream into a string, and the bodies of responses. A promise
  that a read returns is known by its number; \<open>rc_settled\<close> lists the promises in the order in which they were
  settled. A callback of \<open>then\<close> runs later, as a task.
\<close>

section \<open>The controller\<close>

datatype 'v outcome = Chunk 'v | Done | Rejected nat

record 'v controller =
  rc_queue :: "'v list"
  rc_pendingReads :: "nat list"
  rc_closed :: bool
  rc_errored :: "nat option"
  rc_settled :: "(nat \<times> 'v outcome) list"
  rc_next :: nat

definition new_controller :: "'v controller" where
  "new_controller =
     \<lparr>rc_queue = [], rc_pendingReads = [], rc_closed = False, rc_errored = None, rc_settled = [], rc_next = 0\<rparr>"

definition settle :: "nat \<Rightarrow> 'v outcome \<Rightarrow> 'v controller \<Rightarrow> 'v controller" where
  "settle pr v c = c\<lparr>rc_settled := rc_settled c @ [(pr, v)]\<rparr>"

definition rc_ended :: "'v controller \<Rightarrow> bool" where
  "rc_ended c \<longleftrightarrow> rc_closed c \<or> rc_errored c \<noteq> None"

definition rc_enqueue :: "'v \<Rightarrow> 'v controller \<Rightarrow> 'v controller" where
  "rc_enqueue chunk c =
     (if rc_ended c then c
      else case rc_pendingReads c of
        pr # prs \<Rightarrow> settle pr (Chunk chunk) (c\<lparr>rc_pendingReads := prs\<rparr>)
      | [] \<Rightarrow> c\<lparr>rc_queue := rc_queue c @ [chunk]\<rparr>)"

fun settle_all :: "nat list \<Rightarrow> 'v outcome \<Rightarrow> 'v controller \<Rightarrow> 'v controller" where
  "settle_all [] v c = c\<lparr>rc_pendingReads := []\<rparr>"
| "settle_all (pr # prs) v c = settle_all prs v (settle pr v c)"

definition rc_close :: "'v controller \<Rightarrow> 'v controller" where
  "rc_close c = (if rc_ended c then c else settle_all (rc_pendingReads c) Done (c\<lparr>rc_closed := True\<rparr>))"

definition rc_error :: "nat \<Rightarrow> 'v controller \<Rightarrow> 'v controller" where
  "rc_error e c = (if rc_ended c then c else settle_all (rc_pendingReads c) (Rejected e) (c\<lparr>rc_errored := Some e\<rparr>))"

text \<open>\<open>_pull\<close> returns a new promise, settled at once or kept with the pending reads.\<close>

definition rc_pull :: "'v controller \<Rightarrow> 'v controller \<times> nat" where
  "rc_pull c =
     (let pr = rc_next c; c1 = c\<lparr>rc_next := pr + 1\<rparr>
      in (case rc_errored c of
            Some e \<Rightarrow> settle pr (Rejected e) c1
          | None \<Rightarrow>
              (case rc_queue c of
                 chunk # queue \<Rightarrow> settle pr (Chunk chunk) (c1\<lparr>rc_queue := queue\<rparr>)
               | [] \<Rightarrow> if rc_closed c then settle pr Done c1
                      else c1\<lparr>rc_pendingReads := rc_pendingReads c1 @ [pr]\<rparr>), pr))"

definition desiredSize :: "'v controller \<Rightarrow> int" where
  "desiredSize c = 1 - int (length (rc_queue c))"

section \<open>Streams and readers\<close>

record 'v stream =
  st_locked :: bool
  st_ctrl :: "'v controller"
  st_cancelCb :: "nat option"

datatype 'v source_call = SEnqueue 'v | SClose | SError nat

fun source_apply :: "'v source_call \<Rightarrow> 'v controller \<Rightarrow> 'v controller" where
  "source_apply (SEnqueue v) c = rc_enqueue v c"
| "source_apply SClose c = rc_close c"
| "source_apply (SError e) c = rc_error e c"

text \<open>\<open>new ReadableStream\<close> with the calls that the \<open>start\<close> of its source makes.\<close>

definition stream_new :: "'v source_call list \<Rightarrow> nat option \<Rightarrow> 'v stream" where
  "stream_new start cancelCb =
     \<lparr>st_locked = False, st_ctrl = fold source_apply start new_controller, st_cancelCb = cancelCb\<rparr>"

definition getReader :: "'v stream \<Rightarrow> 'v stream result" where
  "getReader s =
     (if st_locked s then Inl (TypeError ''ReadableStream is already locked to a reader'') else Inr (s\<lparr>st_locked := True\<rparr>))"

definition reader_read :: "'v stream \<Rightarrow> 'v stream \<times> nat" where
  "reader_read s = (let (c, pr) = rc_pull (st_ctrl s) in (s\<lparr>st_ctrl := c\<rparr>, pr))"

text \<open>\<open>cancel\<close> of a reader and of a stream: the new stream and the callback that is called.\<close>

definition reader_cancel :: "'v stream \<Rightarrow> 'v stream \<times> nat option" where
  "reader_cancel s = (s\<lparr>st_locked := False\<rparr>, st_cancelCb s)"

definition stream_cancel :: "'v stream \<Rightarrow> 'v stream \<times> nat option" where
  "stream_cancel s = (s, st_cancelCb s)"

definition releaseLock :: "'v stream \<Rightarrow> 'v stream" where
  "releaseLock s = s\<lparr>st_locked := False\<rparr>"

text \<open>The asynchronous iterator locks the stream without looking at the lock; its \<open>next\<close> is \<open>_pull\<close> again.\<close>

definition asyncIterator :: "'v stream \<Rightarrow> 'v stream" where
  "asyncIterator s = s\<lparr>st_locked := True\<rparr>"

definition iterator_next :: "'v stream \<Rightarrow> 'v stream \<times> nat" where
  "iterator_next s =
     (let c = st_ctrl s; pr = rc_next c; c1 = c\<lparr>rc_next := pr + 1\<rparr>
      in (case rc_errored c of
            Some e \<Rightarrow> s\<lparr>st_ctrl := settle pr (Rejected e) c1\<rparr>
          | None \<Rightarrow>
              (case rc_queue c of
                 chunk # queue \<Rightarrow> s\<lparr>st_ctrl := settle pr (Chunk chunk) (c1\<lparr>rc_queue := queue\<rparr>)\<rparr>
               | [] \<Rightarrow> if rc_closed c then s\<lparr>st_ctrl := settle pr Done c1\<rparr>
                      else s\<lparr>st_ctrl := c1\<lparr>rc_pendingReads := rc_pendingReads c1 @ [pr]\<rparr>\<rparr>), pr))"

definition iterator_return :: "'v stream \<Rightarrow> 'v stream" where
  "iterator_return s = s\<lparr>st_locked := False\<rparr>"

section \<open>Draining\<close>

text \<open>
  \<open>_drainStream\<close>: the parts read so far, the read whose promise is awaited, and the outcome of the promise
  it returned (the joined parts or an error).
\<close>

record drain =
  dr_stream :: "jsstr stream"
  dr_parts :: "jsstr list"
  dr_awaited :: nat
  dr_result :: "(nat + jsstr) option"

definition drainStream :: "jsstr stream \<Rightarrow> drain result" where
  "drainStream s =
     bind_result (getReader s) (\<lambda>s1.
       let (s2, pr) = reader_read s1
       in Inr \<lparr>dr_stream = s2, dr_parts = [], dr_awaited = pr, dr_result = None\<rparr>)"

text \<open>The callbacks of the awaited read, which run as a task once its promise is settled.\<close>

definition drain_task :: "drain \<Rightarrow> drain" where
  "drain_task d =
     (if dr_result d \<noteq> None then d
      else case map_of (rc_settled (st_ctrl (dr_stream d))) (dr_awaited d) of
        None \<Rightarrow> d
      | Some Done \<Rightarrow>
          d\<lparr>dr_stream := releaseLock (dr_stream d), dr_result := Some (Inr (concat (dr_parts d)))\<rparr>
      | Some (Rejected e) \<Rightarrow> d\<lparr>dr_stream := releaseLock (dr_stream d), dr_result := Some (Inl e)\<rparr>
      | Some (Chunk v) \<Rightarrow>
          (let (s, pr) = reader_read (dr_stream d)
           in d\<lparr>dr_stream := s, dr_parts := dr_parts d @ [v], dr_awaited := pr\<rparr>))"

text \<open>The producer's calls and the tasks may come in any order.\<close>

datatype drain_event = Produce "jsstr source_call" | Task

fun drain_step :: "drain_event \<Rightarrow> drain \<Rightarrow> drain" where
  "drain_step (Produce x) d = d\<lparr>dr_stream := (dr_stream d)\<lparr>st_ctrl := source_apply x (st_ctrl (dr_stream d))\<rparr>\<rparr>"
| "drain_step Task d = drain_task d"

section \<open>Order of chunks\<close>

datatype 'v stream_op = Source "'v source_call" | Pull

fun stream_apply :: "'v stream_op \<Rightarrow> 'v controller \<Rightarrow> 'v controller" where
  "stream_apply (Source x) c = source_apply x c"
| "stream_apply Pull c = fst (rc_pull c)"

text \<open>The chunks a source sends: those it enqueues before it closes the stream or fails.\<close>

fun ends :: "'v stream_op \<Rightarrow> bool" where
  "ends (Source SClose) \<longleftrightarrow> True"
| "ends (Source (SError e)) \<longleftrightarrow> True"
| "ends _ \<longleftrightarrow> False"

fun chunk_of :: "'v stream_op \<Rightarrow> 'v list" where
  "chunk_of (Source (SEnqueue v)) = [v]"
| "chunk_of _ = []"

definition chunks_sent :: "'v stream_op list \<Rightarrow> 'v list" where
  "chunks_sent ops = concat (map chunk_of (takeWhile (\<lambda>x. \<not> ends x) ops))"

definition run_stream :: "'v stream_op list \<Rightarrow> 'v controller" where
  "run_stream ops = fold stream_apply ops new_controller"

lemma settle_all_effect:
  "settle_all prs v c = c\<lparr>rc_pendingReads := [], rc_settled := rc_settled c @ map (\<lambda>pr. (pr, v)) prs\<rparr>"
  by (induction prs arbitrary: c) (simp_all add: settle_def)

lemma map_of_map_const: "map_of (map (\<lambda>p. (p, v)) ps) i = (if i \<in> set ps then Some v else None)"
  by (induction ps) auto

lemma map_of_snoc: "map_of (xs @ [(p, v)]) i = (if map_of xs i = None \<and> i = p then Some v else map_of xs i)"
  by (auto simp: map_add_def split: option.split)

lemma map_of_many:
  "map_of (xs @ map (\<lambda>p. (p, v)) ps) i = (if map_of xs i = None \<and> i \<in> set ps then Some v else map_of xs i)"
  by (auto simp: map_add_def map_of_map_const split: option.split)

text \<open>
  The state of a controller to which a list of chunks was sent, of which the first \<open>k\<close> have gone to the
  first \<open>k\<close> reads.
\<close>

definition last_outcome :: "'v controller \<Rightarrow> 'v outcome option" where
  "last_outcome c = (case rc_errored c of Some e \<Rightarrow> Some (Rejected e) | None \<Rightarrow> if rc_closed c then Some Done else None)"

definition in_order :: "nat \<Rightarrow> 'v list \<Rightarrow> 'v controller \<Rightarrow> bool" where
  "in_order k vs c \<longleftrightarrow>
     rc_queue c = drop k vs \<and> k \<le> length vs \<and> k \<le> rc_next c \<and> \<not> (rc_closed c \<and> rc_errored c \<noteq> None) \<and>
     (rc_errored c = None \<longrightarrow> k < length vs \<longrightarrow> k = rc_next c) \<and>
     rc_pendingReads c = (if rc_ended c then [] else [k..<rc_next c]) \<and>
     (\<forall>i. map_of (rc_settled c) i =
        (if i < k then Some (Chunk (vs ! i)) else if rc_next c \<le> i then None else last_outcome c))"

lemma in_order_new: "in_order 0 [] new_controller"
  by (simp add: in_order_def new_controller_def)

lemma rc_endedI: "\<not> rc_ended c \<Longrightarrow> \<not> rc_closed c \<and> rc_errored c = None \<and> last_outcome c = None"
  by (auto simp: rc_ended_def last_outcome_def)

lemma in_order_enqueue:
  assumes "in_order k vs c" "\<not> rc_ended c"
  shows "\<exists>k'. in_order k' (vs @ [v]) (rc_enqueue v c)"
proof (cases "k < rc_next c")
  case True
  note alive = rc_endedI [OF assms(2)]
  have k: "length vs = k" using assms(1) True alive by (auto simp: in_order_def)
  have p: "rc_pendingReads c = k # [Suc k..<rc_next c]"
    using assms True by (simp add: in_order_def upt_rec)
  have e: "rc_enqueue v c = settle k (Chunk v) (c\<lparr>rc_pendingReads := [Suc k..<rc_next c]\<rparr>)"
    using assms(2) p by (simp add: rc_enqueue_def)
  have "in_order (k + 1) (vs @ [v]) (rc_enqueue v c)"
    unfolding in_order_def
  proof (intro conjI allI)
    fix i
    show "map_of (rc_settled (rc_enqueue v c)) i =
        (if i < k + 1 then Some (Chunk ((vs @ [v]) ! i)) else if rc_next (rc_enqueue v c) \<le> i then None
         else last_outcome (rc_enqueue v c))"
      using assms(1) k alive True
      by (auto simp: e in_order_def settle_def map_of_snoc last_outcome_def nth_append simp del: map_of_append)
  qed (use assms k alive True in \<open>auto simp: e in_order_def settle_def rc_ended_def\<close>)
  then show ?thesis by blast
next
  case False
  note alive = rc_endedI [OF assms(2)]
  have p: "rc_pendingReads c = []" using assms False by (simp add: in_order_def)
  have e: "rc_enqueue v c = c\<lparr>rc_queue := rc_queue c @ [v]\<rparr>" using assms(2) p by (simp add: rc_enqueue_def)
  have "in_order k (vs @ [v]) (rc_enqueue v c)"
    using assms False alive by (auto simp: e in_order_def rc_ended_def last_outcome_def nth_append)
  then show ?thesis by blast
qed

lemma in_order_end:
  assumes "in_order k vs c"
  shows "in_order k vs (rc_close c)" "in_order k vs (rc_error e c)"
proof -
  have "in_order k vs (rc_close c) \<and> in_order k vs (rc_error e c)"
  proof (cases "rc_ended c")
    case True
    then show ?thesis using assms by (simp add: rc_close_def rc_error_def)
  next
    case False
    note alive = rc_endedI [OF False]
    show ?thesis
      using assms False alive
      by (auto simp: rc_close_def rc_error_def in_order_def settle_all_effect map_of_many rc_ended_def last_outcome_def
          simp del: map_of_append)
  qed
  then show "in_order k vs (rc_close c)" "in_order k vs (rc_error e c)" by simp_all
qed

lemma in_order_pull:
  assumes "in_order k vs c"
  shows "\<exists>k'. in_order k' vs (fst (rc_pull c))"
proof (cases "rc_errored c = None \<and> rc_queue c \<noteq> []")
  case True
  then have k: "k < length vs" "k = rc_next c" using assms by (auto simp: in_order_def)
  then have "rc_queue c = vs ! k # drop (Suc k) vs" using assms by (simp add: in_order_def Cons_nth_drop_Suc)
  then have e: "fst (rc_pull c) = settle k (Chunk (vs ! k)) (c\<lparr>rc_next := k + 1, rc_queue := drop (Suc k) vs\<rparr>)"
    using True k by (simp add: rc_pull_def Let_def)
  have "in_order (k + 1) vs (fst (rc_pull c))"
    using assms True k
    by (auto simp: e in_order_def settle_def rc_ended_def map_of_snoc last_outcome_def less_Suc_eq simp del: map_of_append)
  then show ?thesis by blast
next
  case False
  define c' where "c' = fst (rc_pull c)"
  have e: "c' = (case last_outcome c of Some v \<Rightarrow> settle (rc_next c) v (c\<lparr>rc_next := rc_next c + 1\<rparr>)
      | None \<Rightarrow> c\<lparr>rc_next := rc_next c + 1, rc_pendingReads := rc_pendingReads c @ [rc_next c]\<rparr>)"
    using False by (auto simp: c'_def rc_pull_def Let_def last_outcome_def split: option.split list.split)
  have "in_order k vs c'"
    using assms False
    by (cases "last_outcome c")
      (auto simp: e in_order_def settle_def rc_ended_def map_of_snoc last_outcome_def less_Suc_eq_le
        simp del: map_of_append split: option.splits if_splits)
  then show ?thesis unfolding c'_def by blast
qed

text \<open>Once a stream has ended, it stays as it ended; until then every chunk counts.\<close>

lemma ended_stays [simp]:
  "rc_closed (settle pr v c) = rc_closed c" "rc_errored (settle pr v c) = rc_errored c"
  "rc_ended (settle pr v c) = rc_ended c"
  by (simp_all add: settle_def rc_ended_def)

lemma pull_ended [simp]:
  "rc_closed (fst (rc_pull c)) = rc_closed c" "rc_errored (fst (rc_pull c)) = rc_errored c"
  by (auto simp: rc_pull_def Let_def split: option.split list.split)

lemma pull_next [simp]: "rc_next (fst (rc_pull c)) = Suc (rc_next c)" "snd (rc_pull c) = rc_next c"
  by (auto simp: rc_pull_def Let_def settle_def split: option.split list.split)

lemma source_next [simp]: "rc_next (source_apply x c) = rc_next c"
  by (cases x) (auto simp: rc_enqueue_def rc_close_def rc_error_def settle_all_effect settle_def split: list.split)

lemma enqueue_ended [simp]: "rc_closed (rc_enqueue v c) = rc_closed c" "rc_errored (rc_enqueue v c) = rc_errored c"
  by (auto simp: rc_enqueue_def split: list.split)

lemma close_ended: "rc_ended (rc_close c)" "rc_ended (rc_error e c)"
  by (auto simp: rc_close_def rc_error_def rc_ended_def settle_all_effect)

lemma run_snoc: "run_stream (ops @ [x]) = stream_apply x (run_stream ops)"
  by (simp add: run_stream_def)

lemma run_ended: "rc_ended (run_stream ops) \<longleftrightarrow> (\<exists>x \<in> set ops. ends x)"
proof (induction ops rule: rev_induct)
  case Nil
  show ?case by (simp add: run_stream_def new_controller_def rc_ended_def)
next
  case (snoc x ops)
  show ?case
  proof (cases x)
    case (Source y)
    then show ?thesis
      using snoc close_ended by (cases y) (auto simp: run_snoc rc_ended_def)
  next
    case Pull
    then show ?thesis using snoc by (simp add: run_snoc rc_ended_def)
  qed
qed

lemma chunks_sent_snoc: "chunks_sent (ops @ [x]) = chunks_sent ops @ (if rc_ended (run_stream ops) then [] else chunk_of x)"
proof (cases "\<exists>y \<in> set ops. ends y")
  case True
  then obtain y where "y \<in> set ops" "ends y" by blast
  then have "takeWhile (\<lambda>x. \<not> ends x) (ops @ [x]) = takeWhile (\<lambda>x. \<not> ends x) ops" by (intro takeWhile_append1 [of y]) auto
  then show ?thesis using True by (simp add: run_ended chunks_sent_def)
next
  case False
  then have "takeWhile (\<lambda>x. \<not> ends x) (ops @ [x]) = ops @ takeWhile (\<lambda>x. \<not> ends x) [x]"
    by (intro takeWhile_append2) auto
  moreover have "chunks_sent ops = concat (map chunk_of ops)"
    unfolding chunks_sent_def using False by (subst takeWhile_eq_all_conv [THEN iffD2]) auto
  moreover have "chunk_of x = []" if "ends x" using that by (cases x rule: chunk_of.cases) auto
  ultimately show ?thesis using False by (auto simp: run_ended chunks_sent_def)
qed

lemma run_in_order: "\<exists>k. in_order k (chunks_sent ops) (run_stream ops)"
proof (induction ops rule: rev_induct)
  case Nil
  show ?case using in_order_new by (auto simp: run_stream_def chunks_sent_def)
next
  case (snoc x ops)
  then obtain k where k: "in_order k (chunks_sent ops) (run_stream ops)" by blast
  show ?case
  proof (cases x)
    case (Source y)
    show ?thesis
    proof (cases y)
      case (SEnqueue v)
      then show ?thesis
        using Source k in_order_enqueue [OF k, of v]
        by (cases "rc_ended (run_stream ops)") (auto simp: chunks_sent_snoc run_snoc rc_enqueue_def)
    qed (use Source in_order_end [OF k] in \<open>auto simp: chunks_sent_snoc run_snoc\<close>)
  next
    case Pull
    then show ?thesis using in_order_pull [OF k] by (simp add: chunks_sent_snoc run_snoc)
  qed
qed

text \<open>C19: The reads get the chunks in the order in which they were sent, each chunk once; the reads after the last
chunk are done when the stream is closed and wait while it is open; a stream that failed rejects them.\<close>

theorem reads_in_order:
  assumes "i < rc_next (run_stream ops)"
  shows "let outcome = map_of (rc_settled (run_stream ops)) i; n = length (chunks_sent ops)
    in case rc_errored (run_stream ops) of
         None \<Rightarrow> outcome =
           (if i < n then Some (Chunk (chunks_sent ops ! i)) else if rc_closed (run_stream ops) then Some Done else None)
       | Some e \<Rightarrow> outcome = Some (Rejected e) \<or> (i < n \<and> outcome = Some (Chunk (chunks_sent ops ! i)))"
proof -
  obtain k where k: "in_order k (chunks_sent ops) (run_stream ops)" using run_in_order by blast
  show ?thesis
  proof (cases "rc_errored (run_stream ops)")
    case None
    then show ?thesis using assms k by (cases "k < length (chunks_sent ops)") (auto simp: in_order_def last_outcome_def Let_def)
  next
    case (Some e)
    then show ?thesis using assms k by (auto simp: in_order_def last_outcome_def Let_def)
  qed
qed

lemma reads_in_order_witness:
  "map_of (rc_settled (run_stream [Pull, Source (SEnqueue (7::nat)), Source (SEnqueue 8), Source SClose, Pull, Pull])) 2 = Some Done"
proof -
  let ?ops = "[Pull, Source (SEnqueue (7::nat)), Source (SEnqueue 8), Source SClose, Pull, Pull]"
  note e = run_stream_def new_controller_def rc_pull_def rc_enqueue_def rc_close_def rc_ended_def settle_def
  have "2 < rc_next (run_stream ?ops)" "rc_errored (run_stream ?ops) = None" "rc_closed (run_stream ?ops)" "chunks_sent ?ops = [7, 8]"
    by (simp_all add: e chunks_sent_def)
  then show ?thesis using reads_in_order [of 2 ?ops] by (simp add: Let_def)
qed

section \<open>Draining a stream\<close>

lemma chunks_sent_Cons: "chunks_sent (x # ops) = (if ends x then [] else chunk_of x @ chunks_sent ops)"
  by (simp add: chunks_sent_def)

lemma chunks_sent_without_pulls: "chunks_sent (filter (\<lambda>x. x \<noteq> Pull) ops) = chunks_sent ops"
  by (induction ops) (auto simp: chunks_sent_Cons)

fun produced :: "drain_event list \<Rightarrow> jsstr stream_op list" where
  "produced [] = []"
| "produced (Produce x # evs) = Source x # produced evs"
| "produced (Task # evs) = produced evs"

lemma produced_append [simp]: "produced (a @ b) = produced a @ produced b"
  by (induction a rule: produced.induct) simp_all

text \<open>Draining a new stream, and the order in which producer and tasks come.\<close>

definition drain_start :: "jsstr source_call list \<Rightarrow> drain" where
  "drain_start start = projr (drainStream (stream_new start None))"

definition drain_run :: "jsstr source_call list \<Rightarrow> drain_event list \<Rightarrow> drain" where
  "drain_run start evs = fold drain_step evs (drain_start start)"

definition drain_inv :: "jsstr stream_op list \<Rightarrow> drain \<Rightarrow> bool" where
  "drain_inv calls d \<longleftrightarrow>
     (\<exists>ops. st_ctrl (dr_stream d) = run_stream ops \<and> filter (\<lambda>x. x \<noteq> Pull) ops = calls) \<and>
     (case dr_result d of
        None \<Rightarrow> rc_next (st_ctrl (dr_stream d)) = Suc (dr_awaited d) \<and> dr_awaited d \<le> length (chunks_sent calls) \<and>
          dr_parts d = take (dr_awaited d) (chunks_sent calls)
      | Some (Inr t) \<Rightarrow> rc_closed (st_ctrl (dr_stream d)) \<and> rc_errored (st_ctrl (dr_stream d)) = None \<and>
          t = concat (chunks_sent calls) \<and> \<not> st_locked (dr_stream d)
      | Some (Inl e) \<Rightarrow> rc_errored (st_ctrl (dr_stream d)) = Some e \<and> \<not> st_locked (dr_stream d))"

lemma in_order_outcome:
  assumes "in_order k vs c" "map_of (rc_settled c) i = Some x"
  shows "case x of Chunk v \<Rightarrow> i < length vs \<and> v = vs ! i
    | Done \<Rightarrow> rc_closed c \<and> rc_errored c = None \<and> length vs \<le> i
    | Rejected e \<Rightarrow> rc_errored c = Some e"
proof (cases "i < k")
  case True
  then show ?thesis using assms by (auto simp: in_order_def)
next
  case False
  then have "i < rc_next c" "last_outcome c = Some x" using assms by (auto simp: in_order_def split: if_splits)
  then show ?thesis using assms(1) False by (auto simp: in_order_def last_outcome_def split: option.splits if_splits)
qed

lemma run_outcome:
  "map_of (rc_settled (run_stream ops)) i = Some x \<Longrightarrow>
   case x of Chunk v \<Rightarrow> i < length (chunks_sent ops) \<and> v = chunks_sent ops ! i
    | Done \<Rightarrow> rc_closed (run_stream ops) \<and> rc_errored (run_stream ops) = None \<and> length (chunks_sent ops) \<le> i
    | Rejected e \<Rightarrow> rc_errored (run_stream ops) = Some e"
  using run_in_order [of ops] in_order_outcome by blast

lemma drain_task_inv:
  assumes inv: "drain_inv calls d"
  shows "drain_inv calls (drain_task d)"
proof (cases "dr_result d = None")
  case False
  then show ?thesis using inv by (simp add: drain_task_def)
next
  case True
  obtain ops where ops: "st_ctrl (dr_stream d) = run_stream ops" "filter (\<lambda>x. x \<noteq> Pull) ops = calls"
    using inv by (auto simp: drain_inv_def)
  then have calls: "chunks_sent ops = chunks_sent calls" using chunks_sent_without_pulls by metis
  have aw: "rc_next (run_stream ops) = Suc (dr_awaited d)" "dr_awaited d \<le> length (chunks_sent calls)"
    "dr_parts d = take (dr_awaited d) (chunks_sent calls)"
    using inv True by (auto simp: drain_inv_def ops(1))
  show ?thesis
  proof (cases "map_of (rc_settled (run_stream ops)) (dr_awaited d)")
    case None
    then show ?thesis using inv True by (simp add: drain_task_def ops(1))
  next
    case (Some x)
    note out = run_outcome [OF Some, unfolded calls]
    show ?thesis
    proof (cases x)
      case (Chunk v)
      have "st_ctrl (fst (reader_read (dr_stream d))) = run_stream (ops @ [Pull])"
        by (simp add: reader_read_def ops(1) run_snoc split: prod.split)
      moreover have "snd (reader_read (dr_stream d)) = Suc (dr_awaited d)"
        by (simp add: reader_read_def ops(1) split: prod.split) (metis aw(1) pull_next(2) snd_conv)
      moreover have "rc_next (run_stream (ops @ [Pull])) = Suc (Suc (dr_awaited d))" using aw(1) by (simp add: run_snoc)
      ultimately show ?thesis
        using True Some Chunk out aw ops
        by (auto simp: drain_task_def drain_inv_def take_Suc_conv_app_nth split: prod.split
            intro!: exI [of _ "ops @ [Pull]"])
    next
      case Done
      then show ?thesis
        using True Some out aw ops by (auto simp: drain_task_def drain_inv_def releaseLock_def)
    next
      case (Rejected e)
      then show ?thesis
        using True Some out aw ops by (auto simp: drain_task_def drain_inv_def releaseLock_def)
    qed
  qed
qed

lemma chunks_sent_prefix: "\<exists>r. chunks_sent (ops @ [x]) = chunks_sent ops @ r"
  by (simp add: chunks_sent_snoc)

lemma ended_source: "rc_ended c \<Longrightarrow> source_apply x c = c"
  by (cases x) (simp_all add: rc_enqueue_def rc_close_def rc_error_def)

lemma drain_produce_inv:
  assumes inv: "drain_inv calls d"
  shows "drain_inv (calls @ [Source x]) (drain_step (Produce x) d)"
proof -
  obtain ops where ops: "st_ctrl (dr_stream d) = run_stream ops" "filter (\<lambda>x. x \<noteq> Pull) ops = calls"
    using inv by (auto simp: drain_inv_def)
  then have calls: "chunks_sent ops = chunks_sent calls" using chunks_sent_without_pulls by metis
  have new: "filter (\<lambda>x. x \<noteq> Pull) (ops @ [Source x]) = calls @ [Source x]" using ops(2) by simp
  then have s: "chunks_sent (ops @ [Source x]) = chunks_sent (calls @ [Source x])" using chunks_sent_without_pulls by metis
  have stays: "run_stream (ops @ [Source x]) = run_stream ops \<and> chunks_sent (calls @ [Source x]) = chunks_sent calls"
    if "rc_ended (run_stream ops)"
    using that s calls by (simp add: run_snoc ended_source chunks_sent_snoc)
  obtain r where r: "chunks_sent (calls @ [Source x]) = chunks_sent calls @ r" using chunks_sent_prefix by metis
  have c: "st_ctrl (dr_stream (drain_step (Produce x) d)) = run_stream (ops @ [Source x])"
    by (simp add: ops(1) run_snoc)
  have "rc_next (run_stream (ops @ [Source x])) = rc_next (run_stream ops)" by (simp add: run_snoc)
  note n = this
  show ?thesis
    unfolding drain_inv_def
  proof (rule conjI)
    show "\<exists>ops'. st_ctrl (dr_stream (drain_step (Produce x) d)) = run_stream ops' \<and>
        filter (\<lambda>x. x \<noteq> Pull) ops' = calls @ [Source x]"
      using c new by blast
  qed (use inv c r stays n ops(1) in
      \<open>auto simp: drain_inv_def rc_ended_def split: sum.splits option.splits\<close>)
qed

lemma source_eta: "(\<lambda>x. stream_apply (Source x)) = source_apply"
  by (intro ext) simp

lemma drain_start_inv: "drain_inv (map Source start) (drain_start start)"
proof -
  have r: "fold source_apply start new_controller = run_stream (map Source start)"
    by (simp add: run_stream_def fold_map comp_def source_eta)
  let ?c = "run_stream (map Source start)"
  have n: "rc_next ?c = 0"
    by (induction start rule: rev_induct) (simp_all add: run_snoc, simp add: run_stream_def new_controller_def)
  have p: "rc_pull ?c = (run_stream (map Source start @ [Pull]), 0)"
    using n pull_next(2) [of ?c] by (simp add: run_snoc prod_eq_iff)
  have d: "drain_start start = \<lparr>dr_stream = \<lparr>st_locked = True, st_ctrl = run_stream (map Source start @ [Pull]),
      st_cancelCb = None\<rparr>, dr_parts = [], dr_awaited = 0, dr_result = None\<rparr>"
    by (simp add: drain_start_def drainStream_def stream_new_def getReader_def reader_read_def r p)
  have "filter (\<lambda>x. x \<noteq> Pull) (map Source start @ [Pull]) = map Source start" by (induction start) simp_all
  moreover have "rc_next (run_stream (map Source start @ [Pull])) = 1" using n by (simp add: run_snoc)
  ultimately show ?thesis unfolding drain_inv_def by (auto simp: d intro!: exI [of _ "map Source start @ [Pull]"])
qed

lemma drain_run_inv: "drain_inv (map Source start @ produced evs) (drain_run start evs)"
proof (induction evs rule: rev_induct)
  case Nil
  show ?case by (simp add: drain_run_def drain_start_inv)
next
  case (snoc x evs)
  show ?case
  proof (cases x)
    case (Produce y)
    then show ?thesis using drain_produce_inv [OF snoc, of y] by (simp add: drain_run_def)
  next
    case Task
    then show ?thesis using drain_task_inv [OF snoc] by (simp add: drain_run_def)
  qed
qed

text \<open>On a closed stream every task reads one more chunk, and the task after the last one is the end.\<close>

lemma drain_closed_task:
  assumes inv: "drain_inv calls d" and closed: "rc_closed (st_ctrl (dr_stream d))" and open_result: "dr_result d = None"
  shows "rc_closed (st_ctrl (dr_stream (drain_task d))) \<and>
    (dr_result (drain_task d) = None \<longrightarrow> dr_awaited (drain_task d) = Suc (dr_awaited d) \<and> dr_awaited d < length (chunks_sent calls))"
proof -
  obtain ops where ops: "st_ctrl (dr_stream d) = run_stream ops" "filter (\<lambda>x. x \<noteq> Pull) ops = calls"
    using inv by (auto simp: drain_inv_def)
  then have calls: "chunks_sent ops = chunks_sent calls" using chunks_sent_without_pulls by metis
  have aw: "rc_next (run_stream ops) = Suc (dr_awaited d)" using inv open_result by (auto simp: drain_inv_def ops(1))
  obtain k where k: "in_order k (chunks_sent ops) (run_stream ops)" using run_in_order by blast
  have "map_of (rc_settled (run_stream ops)) (dr_awaited d) \<noteq> None"
    using k aw closed by (auto simp: in_order_def last_outcome_def ops(1) split: option.split)
  then obtain x where x: "map_of (rc_settled (run_stream ops)) (dr_awaited d) = Some x" by blast
  note out = run_outcome [OF x, unfolded calls]
  show ?thesis
    using x out closed open_result aw ops(1)
    by (cases x) (auto simp: drain_task_def releaseLock_def reader_read_def split: prod.splits,
      (metis fst_conv pull_ended(1), metis pull_next(2) snd_conv)+)
qed

lemma drain_tasks:
  assumes "drain_inv calls d" "rc_closed (st_ctrl (dr_stream d))" "rc_errored (st_ctrl (dr_stream d)) = None"
    "dr_result d = None \<Longrightarrow> length (chunks_sent calls) < n + dr_awaited d"
  shows "drain_inv calls ((drain_task ^^ n) d) \<and> rc_errored (st_ctrl (dr_stream ((drain_task ^^ n) d))) = None \<and>
    dr_result ((drain_task ^^ n) d) \<noteq> None"
  using assms
proof (induction n arbitrary: d)
  case 0
  have "dr_result d \<noteq> None"
  proof
    assume "dr_result d = None"
    then show False using 0 by (simp add: drain_inv_def)
  qed
  then show ?case using 0 by simp
next
  case (Suc n)
  have err: "rc_errored (st_ctrl (dr_stream (drain_task d))) = None"
    using Suc.prems(3) by (auto simp: drain_task_def releaseLock_def reader_read_def split: option.split outcome.split prod.split)
       (metis fst_conv pull_ended(2))
  have "rc_closed (st_ctrl (dr_stream (drain_task d)))"
    "dr_result (drain_task d) = None \<Longrightarrow> length (chunks_sent calls) < n + dr_awaited (drain_task d)"
    using drain_closed_task [OF Suc.prems(1,2)] Suc.prems(2,4) by (cases "dr_result d"; simp add: drain_task_def)+
  from Suc.IH [OF drain_task_inv [OF Suc.prems(1)] this(1) err this(2)] show ?case
    by (simp add: funpow_swap1)
qed

text \<open>C20: However the calls of the source and the tasks come after one another: once the stream is closed and has had
a task for every chunk and one more, the text of the drained stream is all its chunks in order, and the lock is
free again.\<close>

theorem drain_reads_all:
  assumes "rc_closed (st_ctrl (dr_stream (drain_run start evs)))" "rc_errored (st_ctrl (dr_stream (drain_run start evs))) = None"
    "length (chunks_sent (map Source start @ produced evs)) < n"
  shows "let d = drain_run start (evs @ replicate n Task)
    in dr_result d = Some (Inr (concat (chunks_sent (map Source start @ produced evs)))) \<and> \<not> st_locked (dr_stream d)"
proof -
  have "fold drain_step (replicate n Task) d = (drain_task ^^ n) d" for d
    by (induction n arbitrary: d) (simp_all add: funpow_swap1)
  then have d: "drain_run start (evs @ replicate n Task) = (drain_task ^^ n) (drain_run start evs)"
    by (simp add: drain_run_def)
  have "drain_inv (map Source start @ produced evs) (drain_run start (evs @ replicate n Task)) \<and>
      rc_errored (st_ctrl (dr_stream (drain_run start (evs @ replicate n Task)))) = None \<and>
      dr_result (drain_run start (evs @ replicate n Task)) \<noteq> None"
    unfolding d by (rule drain_tasks [OF drain_run_inv assms(1,2)]) (use assms(3) in simp)
  then show ?thesis by (auto simp: drain_inv_def Let_def split: sum.splits option.splits)
qed

lemma drain_reads_all_witness:
  "dr_result (drain_run [SEnqueue (js ''a'')] ([Task, Task, Produce (SEnqueue (js ''b'')), Produce SClose] @ replicate 3 Task)) =
     Some (Inr (js ''ab''))"
proof -
  let ?start = "[SEnqueue (js ''a'')]" and ?evs = "[Task, Task, Produce (SEnqueue (js ''b'')), Produce SClose]"
  note e = drain_run_def drain_start_def drainStream_def stream_new_def getReader_def reader_read_def new_controller_def
    rc_pull_def rc_enqueue_def rc_close_def rc_ended_def settle_def drain_task_def
  have "rc_closed (st_ctrl (dr_stream (drain_run ?start ?evs)))"
    "rc_errored (st_ctrl (dr_stream (drain_run ?start ?evs))) = None"
    "chunks_sent (map Source ?start @ produced ?evs) = [js ''a'', js ''b'']"
    by (simp_all add: e chunks_sent_def)
  then show ?thesis using drain_reads_all [of ?start ?evs 3] by (simp add: Let_def)
qed

section \<open>Responses\<close>

text \<open>The body of a response is a stream or a string; \<open>Some s\<close> is the stream.\<close>

record fresponse =
  re_status :: status
  re_statusText :: jsstr
  re_headers :: fheaders
  re_url :: jsstr
  re_ok :: bool
  re_redirected :: bool
  re_type :: string
  re_bodyUsed :: bool
  re_body :: jsstr
  re_stream :: "jsstr stream option"

datatype body_init = BodyNone | BodyText jsstr | BodyStream "jsstr stream"

text \<open>The \<open>init\<close> argument with what is missing filled in by its defaults; \<open>statusText\<close> counts unless empty.\<close>

definition response_new ::
    "body_init \<Rightarrow> status \<Rightarrow> jsstr \<Rightarrow> headers_init \<Rightarrow> jsstr \<Rightarrow> bool \<Rightarrow> fresponse result" where
  "response_new body st txt headers url redirected =
     bind_result (headers_new headers) (\<lambda>h.
       Inr \<lparr>re_status = st, re_statusText = (if txt = [] then statusText st else txt), re_headers = h, re_url = url,
            re_ok = (case st of None \<Rightarrow> False | Some n \<Rightarrow> 200 \<le> n \<and> n < 300), re_redirected = redirected,
            re_type = ''basic'', re_bodyUsed = False,
            re_body = (case body of BodyText t \<Rightarrow> t | _ \<Rightarrow> []),
            re_stream = (case body of BodyStream s \<Rightarrow> Some s | _ \<Rightarrow> None)\<rparr>)"

text \<open>The getter \<open>body\<close>: the stream, or a closed one with the text as its only chunk.\<close>

definition response_body :: "fresponse \<Rightarrow> jsstr stream" where
  "response_body r =
     (case re_stream r of
        Some s \<Rightarrow> s
      | None \<Rightarrow> stream_new ((if 0 < length (re_body r) then [SEnqueue (re_body r)] else []) @ [SClose]) None)"

text \<open>\<open>text()\<close>: a drain of the stream, or the text at once.\<close>

definition response_text :: "fresponse \<Rightarrow> fresponse \<times> (drain + jsstr) result" where
  "response_text r =
     (let r1 = r\<lparr>re_bodyUsed := True\<rparr>
      in (r1, case re_stream r of
                Some s \<Rightarrow> bind_result (drainStream s) (\<lambda>d. Inr (Inl d))
              | None \<Rightarrow> Inr (Inr (re_body r))))"

text \<open>\<open>bytes()\<close> and \<open>arrayBuffer()\<close> of a text.\<close>

definition text_bytes :: "jsstr \<Rightarrow> bytes" where
  "text_bytes t = map (\<lambda>c. c AND 0xff) t"

definition response_clone :: "fresponse \<Rightarrow> fresponse result" where
  "response_clone r =
     (if re_bodyUsed r then Inl (TypeError ''Cannot clone a Response whose body is already used'')
      else response_new (BodyText (re_body r)) (re_status r) (re_statusText r) (HHeaders (re_headers r)) (re_url r)
             (re_redirected r))"

definition response_redirect :: "jsstr \<Rightarrow> status \<Rightarrow> fresponse result" where
  "response_redirect url st =
     bind_result (fh_set no_headers (js ''Location'') url) (\<lambda>h. response_new BodyNone st [] (HHeaders h) [] False)"

definition response_error :: "fresponse result" where
  "response_error = bind_result (response_new BodyNone (Some 0) [] HNothing [] False) (\<lambda>r. Inr (r\<lparr>re_type := ''error''\<rparr>))"

section \<open>Behaviour that differs from the documentation\<close>

text \<open>A copy of a response with a stream as its body, as every response of \<open>fetch\<close> has, has an empty body.\<close>

lemma clone_loses_stream:
  assumes "re_stream r = Some s" "re_body r = []" "\<not> re_bodyUsed r"
  shows "\<exists>c. response_clone r = Inr c \<and> re_stream c = None \<and> re_body c = []"
  using assms by (simp add: response_clone_def response_new_def)

text \<open>The text of a response can be read again and again; the standard rejects the second call.\<close>

lemma text_twice:
  "re_stream r = None \<Longrightarrow> snd (response_text (fst (response_text r))) = Inr (Inr (re_body r))"
  by (simp add: response_text_def Let_def)

text \<open>A stream that was cancelled stays open: a read after it waits for ever if the source sends nothing more.\<close>

lemma cancel_stays_open:
  "snd (rc_pull (st_ctrl (fst (stream_cancel (stream_new [] None))))) = 0 \<and>
   rc_pendingReads (fst (rc_pull (st_ctrl (fst (stream_cancel (stream_new [] None)))))) = [0]"
  by (simp add: stream_cancel_def stream_new_def rc_pull_def new_controller_def)

text \<open>The asynchronous iterator takes a stream that a reader has locked.\<close>

lemma iterator_ignores_lock: "st_locked s \<Longrightarrow> fst (iterator_next (asyncIterator s)) = fst (reader_read s)"
  by (auto simp: iterator_next_def asyncIterator_def reader_read_def rc_pull_def Let_def split: option.split list.split)

end
