(* ===== verification/FetchHttp.thy ===== *)
theory FetchHttp
  imports FetchStream HttpMessage
begin

text \<open>
  The HTTP/1.1 of \<open>fetch.js\<close>: requests as they are written, the parser of responses, the decoders of chunked
  bodies and the readers that stream a body from a socket. A socket is seen through what its reads give: the
  list of read events, each with what the abort signal said before and after the read, the text read, and whether
  it was the end. The loops that may run for ever are partial functions, with \<open>None\<close> for a run that does not end.
\<close>

section \<open>Parsing\<close>

text \<open>\<open>data[i]\<close> at a negative position is \<open>undefined\<close>, so the search goes on.\<close>

function f_findCRLF :: "jsstr \<Rightarrow> int \<Rightarrow> nat option" where
  "f_findCRLF data i =
     (if i < int (length data) - 1
      then (if 0 \<le> i \<and> data ! nat i = 13 \<and> data ! (nat i + 1) = 10 then Some (nat i) else f_findCRLF data (i + 1))
      else None)"
  by pat_completeness auto
termination by (relation "measure (\<lambda>(data, i). nat (int (length data) - i))") auto

declare f_findCRLF.simps [simp del]

record parsed_head =
  ph_status :: status
  ph_statusText :: jsstr
  ph_headers :: fheaders
  ph_end :: int

definition parse_status_line :: "jsstr \<Rightarrow> (status \<times> jsstr) option" where
  "parse_status_line line =
     (case index_of 32 line of
        None \<Rightarrow> None
      | Some spaceIdx \<Rightarrow>
          (let rest = drop (spaceIdx + 1) line
           in case index_of 32 rest of
                None \<Rightarrow> Some (parseInt 10 rest, [])
              | Some spaceIdx2 \<Rightarrow> Some (parseInt 10 (take spaceIdx2 rest), drop (spaceIdx2 + 1) rest)))"

text \<open>The headers of the result never throw: their guard is \<open>none\<close>.\<close>

definition put_header :: "jsstr \<Rightarrow> jsstr \<Rightarrow> fheaders \<Rightarrow> fheaders" where
  "put_header name value h = (case fh_append h name value of Inr h' \<Rightarrow> h' | Inl _ \<Rightarrow> h)"

definition parse_header_line :: "jsstr \<Rightarrow> fheaders \<Rightarrow> fheaders" where
  "parse_header_line headerLine h =
     (case index_of 58 headerLine of
        None \<Rightarrow> h
      | Some colonIdx \<Rightarrow>
          if 0 < colonIdx then put_header (take colonIdx headerLine) (trim (drop (colonIdx + 1) headerLine)) h else h)"

lemma f_findCRLF_nat: "f_findCRLF data i = findCRLF data (nat i)"
proof (induction data i rule: f_findCRLF.induct)
  case (1 data i)
  show ?case
  proof (cases "i < int (length data) - 1")
    case True
    show ?thesis
    proof (cases "0 \<le> i")
      case t: True
      then have "nat (i + 1) = nat i + 1" by simp
      then show ?thesis using 1 True t
        by (subst f_findCRLF.simps, subst findCRLF.simps) auto
    next
      case False
      then have "nat (i + 1) = nat i" by simp
      then show ?thesis using 1 True False by (subst f_findCRLF.simps) simp
    qed
  next
    case False
    then show ?thesis by (subst f_findCRLF.simps, subst findCRLF.simps) auto
  qed
qed

function header_loop :: "jsstr \<Rightarrow> nat \<Rightarrow> parsed_head \<Rightarrow> parsed_head" where
  "header_loop raw pos r =
     (if pos < length raw
      then (case f_findCRLF raw (int pos) of
              None \<Rightarrow> r
            | Some lineEnd \<Rightarrow>
                if lineEnd = pos then r\<lparr>ph_end := int pos + 2\<rparr>
                else header_loop raw (lineEnd + 2)
                       (r\<lparr>ph_headers := parse_header_line (slice raw pos lineEnd) (ph_headers r)\<rparr>))
      else r)"
  by pat_completeness auto
termination
  by (relation "measure (\<lambda>(raw, pos, r). length raw - pos)") (auto simp: f_findCRLF_nat dest: findCRLF_bounds)

declare header_loop.simps [simp del]

definition parseHTTPResponse :: "jsstr \<Rightarrow> parsed_head" where
  "parseHTTPResponse raw =
     (let r = \<lparr>ph_status = Some 0, ph_statusText = [], ph_headers = no_headers, ph_end = -1\<rparr>
      in case f_findCRLF raw 0 of
           None \<Rightarrow> r
         | Some statusLineEnd \<Rightarrow>
             (case parse_status_line (take statusLineEnd raw) of
                None \<Rightarrow> r
              | Some (st, txt) \<Rightarrow>
                  header_loop raw (statusLineEnd + 2) (r\<lparr>ph_status := st, ph_statusText := txt\<rparr>)))"

section \<open>Chunked bodies in one piece\<close>

text \<open>What stands before a chunk extension, and the number it says.\<close>

definition cut_extension :: "jsstr \<Rightarrow> jsstr" where
  "cut_extension sizeStr = (case index_of 59 sizeStr of Some semiIdx \<Rightarrow> take semiIdx sizeStr | None \<Rightarrow> sizeStr)"

partial_function (option) decode_loop_raw :: "jsstr \<Rightarrow> jsstr \<Rightarrow> int \<Rightarrow> jsstr option" where
  "decode_loop_raw raw result pos =
     (if pos < int (length raw)
      then (case f_findCRLF raw pos of
              None \<Rightarrow> Some result
            | Some lineEnd \<Rightarrow>
                (case parseInt 16 (cut_extension (trim (substring raw pos (int lineEnd)))) of
                   None \<Rightarrow> Some result
                 | Some chunkSize \<Rightarrow>
                     if chunkSize = 0 then Some result
                     else
                       (let chunkStart = int lineEnd + 2; chunkEnd = chunkStart + chunkSize
                        in if int (length raw) < chunkEnd then Some (result @ drop (nat chunkStart) raw)
                           else decode_loop_raw raw (result @ substring raw chunkStart chunkEnd) (chunkEnd + 2))))
      else Some result)"

definition decodeChunked :: "jsstr \<Rightarrow> jsstr option" where
  "decodeChunked raw = decode_loop_raw raw [] 0"

section \<open>Is a response complete?\<close>

definition says_no_body :: "jsstr \<Rightarrow> bool" where
  "says_no_body statusLine =
     (case split1 32 statusLine of
        _ # codeStr # _ \<Rightarrow>
          (case parseInt 10 codeStr of
             Some code \<Rightarrow> (100 \<le> code \<and> code < 200) \<or> code = 204 \<or> code = 304
           | None \<Rightarrow> False)
      | _ \<Rightarrow> False)"

definition first_line :: "jsstr \<Rightarrow> jsstr" where
  "first_line s = (case index_of_str CRLF s of None \<Rightarrow> s | Some i \<Rightarrow> take i s)"

definition contains :: "jsstr \<Rightarrow> jsstr \<Rightarrow> bool" where
  "contains t s \<longleftrightarrow> index_of_str t s \<noteq> None"

text \<open>The number after \<open>content-length:\<close> up to the next line feed or the end of the headers.\<close>

definition stated_length :: "jsstr \<Rightarrow> int option" where
  "stated_length hdrs =
     (let lc = to_lower hdrs
      in case index_of_str (js ''content-length:'') lc of
           None \<Rightarrow> None
         | Some clIdx \<Rightarrow>
             (let stop = (case index_of 10 (drop clIdx lc) of Some k \<Rightarrow> clIdx + k | None \<Rightarrow> length hdrs)
              in parseInt 10 (trim (substring hdrs (int clIdx + 15) (int stop)))))"

definition isHTTPResponseComplete :: "jsstr \<Rightarrow> bool" where
  "isHTTPResponseComplete buf =
     (case index_of_str (CRLF @ CRLF) buf of
        None \<Rightarrow> False
      | Some hdrEnd \<Rightarrow>
          (let hdrs = take hdrEnd buf; body = drop (hdrEnd + 4) buf; lc = to_lower hdrs
           in if says_no_body (first_line hdrs) then True
              else if contains (js ''transfer-encoding: chunked'') lc
                   then contains (CRLF @ [48] @ CRLF @ CRLF) body \<or> contains (CRLF @ [48] @ CRLF) body
              else (case stated_length hdrs of
                      Some cl \<Rightarrow> 0 \<le> cl \<and> cl \<le> int (length body)
                    | None \<Rightarrow> False)))"

section \<open>Requests\<close>

text \<open>Headers that may be changed; the guard of request headers is \<open>none\<close>.\<close>

definition put_set :: "jsstr \<Rightarrow> jsstr \<Rightarrow> fheaders \<Rightarrow> fheaders" where
  "put_set name value h = (case fh_set h name value of Inr h' \<Rightarrow> h' | Inl _ \<Rightarrow> h)"

definition put_missing :: "jsstr \<Rightarrow> jsstr \<Rightarrow> fheaders \<Rightarrow> fheaders" where
  "put_missing name value h = (if fh_has h (to_lower name) then h else put_set name value h)"

definition host_value :: "url \<Rightarrow> jsstr" where
  "host_value u =
     (if u_port u \<noteq> [] \<and> u_port u \<noteq> js ''443'' \<and> u_port u \<noteq> js ''80''
      then u_hostname u @ [58] @ u_port u else u_hostname u)"

definition request_path :: "url \<Rightarrow> jsstr" where
  "request_path u = (if u_pathname u = [] then [47] else u_pathname u) @ u_search u"

definition has_body :: "jsstr option \<Rightarrow> bool" where
  "has_body body \<longleftrightarrow> body \<noteq> None \<and> body \<noteq> Some []"

definition request_headers :: "url \<Rightarrow> fheaders \<Rightarrow> jsstr option \<Rightarrow> bool \<Rightarrow> fheaders" where
  "request_headers u h body keepAlive =
     (let h1 = put_missing (js ''Host'') (host_value u) h;
          h2 = (if has_body body then put_set (js ''Content-Length'') (js (dec_string (length (the body)))) h1 else h1);
          h3 = put_missing (js ''Connection'') (if keepAlive then js ''keep-alive'' else js ''close'') h2
      in put_missing (js ''Accept-Encoding'') (js ''gzip, deflate'') h3)"

definition buildRawRequest :: "url \<Rightarrow> jsstr \<Rightarrow> fheaders \<Rightarrow> jsstr option \<Rightarrow> bool \<Rightarrow> jsstr" where
  "buildRawRequest u method reqHdrs body keepAlive =
     method @ [32] @ request_path u @ js '' HTTP/1.1'' @ CRLF @ fh_toRaw (request_headers u reqHdrs body keepAlive) @ CRLF @
     (if has_body body then the body else [])"

section \<open>Reading a body from a socket\<close>

text \<open>
  A read: what the abort signal says when it is issued and when it is answered, the text and the end mark.
\<close>

record read_event =
  ev_before :: bool
  ev_after :: bool
  ev_chunk :: jsstr
  ev_eof :: bool

text \<open>How a reader stands after some events: it waits, or it has called its callback, perhaps with an error.\<close>

datatype reader_state = Waiting | Finished | Aborted | Broken

text \<open>\<open>_asyncReadLoop\<close>: accumulate until the response looks complete.\<close>

fun asyncReadLoop :: "read_event list \<Rightarrow> jsstr \<Rightarrow> jsstr \<times> reader_state" where
  "asyncReadLoop [] accum = (accum, Waiting)"
| "asyncReadLoop (e # es) accum =
     (if ev_before e then (accum, Aborted)
      else let accum1 = accum @ ev_chunk e
      in if ev_after e then (accum1, Aborted)
         else if ev_eof e \<or> isHTTPResponseComplete accum1 then (accum1, Finished)
         else asyncReadLoop es accum1)"

text \<open>
  \<open>_asyncReadHeadersBinary\<close>: the head with its empty line, what was read of the body, and the events that
  are left; \<open>None\<close> while it waits, and \<open>Some None\<close> when it gives up.
\<close>

fun readHeaders :: "read_event list \<Rightarrow> jsstr \<Rightarrow> (jsstr \<times> jsstr \<times> read_event list) option option" where
  "readHeaders es acc =
     (case index_of_str (CRLF @ CRLF) acc of
        Some sep \<Rightarrow> Some (Some (take (sep + 4) acc, drop (sep + 4) acc, es))
      | None \<Rightarrow>
          (case es of
             [] \<Rightarrow> None
           | e # es' \<Rightarrow>
               if ev_before e then Some None
               else if ev_eof e then Some None
               else readHeaders es' (acc @ ev_chunk e)))"

declare readHeaders.simps [simp del]

definition enqueue_chunk :: "jsstr \<Rightarrow> jsstr controller \<Rightarrow> jsstr controller" where
  "enqueue_chunk chunk c = (if chunk = [] then c else rc_enqueue chunk c)"

fun streamBodyByLength :: "read_event list \<Rightarrow> int \<Rightarrow> jsstr controller \<Rightarrow> jsstr controller \<times> reader_state" where
  "streamBodyByLength es remaining c =
     (if remaining \<le> 0 then (c, Finished)
      else case es of
        [] \<Rightarrow> (c, Waiting)
      | e # es' \<Rightarrow>
          if ev_before e then (c, Aborted)
          else let c1 = enqueue_chunk (ev_chunk e) c; remaining1 = remaining - int (length (ev_chunk e))
          in if ev_eof e \<or> remaining1 \<le> 0 then (c1, Finished) else streamBodyByLength es' remaining1 c1)"

declare streamBodyByLength.simps [simp del]

fun streamBodyUntilEOF :: "read_event list \<Rightarrow> jsstr controller \<Rightarrow> jsstr controller \<times> reader_state" where
  "streamBodyUntilEOF [] c = (c, Waiting)"
| "streamBodyUntilEOF (e # es) c =
     (if ev_before e then (c, Aborted)
      else let c1 = enqueue_chunk (ev_chunk e) c
      in if ev_eof e then (c1, Finished) else streamBodyUntilEOF es c1)"

text \<open>
  The inner loop of \<open>_streamChunkedLoop\<close>: the chunks that are complete go to the controller. The result says
  what is left, and whether the body has ended or is malformed.
\<close>

definition chunk_number :: "jsstr \<Rightarrow> int option" where
  "chunk_number line = parseInt 16 (case index_of 59 (trim line) of Some k \<Rightarrow> trim (take k (trim line)) | None \<Rightarrow> trim line)"

partial_function (option) emit_chunks :: "jsstr \<Rightarrow> jsstr controller \<Rightarrow> (jsstr \<times> jsstr controller \<times> reader_state) option" where
  "emit_chunks accum c =
     (case index_of_str CRLF accum of
        None \<Rightarrow> Some (accum, c, Waiting)
      | Some nlIdx \<Rightarrow>
          (case chunk_number (take nlIdx accum) of
             None \<Rightarrow> Some (accum, c, Broken)
           | Some chunkSize \<Rightarrow>
               if chunkSize = 0 then Some (accum, c, Finished)
               else
                 (let dataStart = int nlIdx + 2; dataEnd = dataStart + chunkSize
                  in if int (length accum) < dataEnd + 2 then Some (accum, c, Waiting)
                     else emit_chunks (drop (nat (dataEnd + 2)) accum) (rc_enqueue (substring accum dataStart dataEnd) c))))"

fun streamChunked :: "read_event list \<Rightarrow> jsstr \<Rightarrow> jsstr controller \<Rightarrow> (jsstr controller \<times> reader_state) option" where
  "streamChunked es accum c =
     (case emit_chunks accum c of
        None \<Rightarrow> None
      | Some (accum1, c1, st) \<Rightarrow>
          if st \<noteq> Waiting then Some (c1, st)
          else case es of
            [] \<Rightarrow> Some (c1, Waiting)
          | e # es' \<Rightarrow>
              if ev_before e then Some (c1, Aborted)
              else if ev_eof e then Some (c1, Finished)
              else streamChunked es' (accum1 @ ev_chunk e) c1)"

declare streamChunked.simps [simp del]

text \<open>\<open>_wbitsForEncoding\<close>.\<close>

definition wbitsForEncoding :: "jsstr option \<Rightarrow> int option" where
  "wbitsForEncoding enc =
     (case enc of
        None \<Rightarrow> None
      | Some e \<Rightarrow>
          (let lc = trim (to_lower e)
           in if lc = js ''gzip'' \<or> lc = js ''x-gzip'' then Some 31 else if lc = js ''deflate'' then Some 47 else None))"

text \<open>
  \<open>_asyncStreamBody\<close>. A compressed body goes through the native inflater; what the code does there is the
  argument \<open>inflate\<close>, given the window bits, the reads, the headers, the bytes already read and the controller.
\<close>

type_synonym body_reader = "(jsstr controller \<times> reader_state) option"

definition asyncStreamBody ::
    "(int \<Rightarrow> read_event list \<Rightarrow> fheaders \<Rightarrow> jsstr \<Rightarrow> jsstr controller \<Rightarrow> body_reader) \<Rightarrow>
     read_event list \<Rightarrow> fheaders \<Rightarrow> jsstr \<Rightarrow> jsstr controller \<Rightarrow> body_reader" where
  "asyncStreamBody inflate es h prefixStr c =
     (case wbitsForEncoding (fh_get h (js ''content-encoding'')) of
        Some wbits \<Rightarrow> inflate wbits es h prefixStr c
      | None \<Rightarrow>
          (let te = fh_get h (js ''transfer-encoding''); clStr = fh_get h (js ''content-length'');
               cl = (case clStr of None \<Rightarrow> None | Some s \<Rightarrow> parseInt 10 s);
               c1 = (if 0 < length prefixStr then rc_enqueue prefixStr c else c)
           in if te \<noteq> None \<and> contains (js ''chunked'') (to_lower (the te)) then streamChunked es prefixStr c
              else case cl of
                Some n \<Rightarrow> Some (streamBodyByLength es (n - int (length prefixStr)) c1)
              | None \<Rightarrow> Some (streamBodyUntilEOF es c1)))"

text \<open>
  One hop from the answer of the server to the stream of its body: the parsed head, and the controller after
  the body reader with its callback, which closes the stream or makes it fail (with error 0 for an abort and 1
  for a malformed body). The outer \<open>None\<close> is a run that does not end, the inner one a connection that ended,
  was aborted, or still waits before the head is complete.
\<close>

definition end_stream :: "jsstr controller \<times> reader_state \<Rightarrow> jsstr controller" where
  "end_stream r =
     (case snd r of Finished \<Rightarrow> rc_close (fst r) | Aborted \<Rightarrow> rc_error 0 (fst r) | Broken \<Rightarrow> rc_error 1 (fst r)
      | Waiting \<Rightarrow> fst r)"

definition fetch_hop ::
    "(int \<Rightarrow> read_event list \<Rightarrow> fheaders \<Rightarrow> jsstr \<Rightarrow> jsstr controller \<Rightarrow> body_reader) \<Rightarrow>
     read_event list \<Rightarrow> (parsed_head \<times> jsstr controller) option option" where
  "fetch_hop inflate es =
     (case readHeaders es [] of
        Some (Some (headerStr, bodyPrefix, es')) \<Rightarrow>
          (let hp = parseHTTPResponse headerStr
           in map_option (\<lambda>r. Some (hp, end_stream r))
                (asyncStreamBody inflate es' (ph_headers hp) bodyPrefix new_controller))
      | _ \<Rightarrow> Some None)"

section \<open>Decoding in one piece\<close>

lemma trim_no_white: "\<forall>c \<in> set s. \<not> is_white c \<Longrightarrow> trim s = s"
  by (cases "s = []") (auto simp: trim_id, simp add: trim_def)

lemma hex_string_plain:
  "trim (hex_string n) = hex_string n" "59 \<notin> set (hex_string n)" "cut_extension (hex_string n) = hex_string n"
proof -
  have u: "48 \<le> c \<and> c \<le> 57 \<or> 97 \<le> c \<and> c \<le> 102" if "c \<in> set (hex_string n)" for c
    using hex_string_digits [of n] that by blast
  then show "trim (hex_string n) = hex_string n" by (intro trim_no_white) (fastforce simp: is_white_def)
  show n59: "59 \<notin> set (hex_string n)" using u [of 59] by auto
  then show "cut_extension (hex_string n) = hex_string n" by (simp add: cut_extension_def)
qed

lemma size_line:
  assumes "drop i raw = hex_string n @ CRLF @ ys"
  shows "f_findCRLF raw (int i) = Some (i + length (hex_string n))"
    and "parseInt 16 (cut_extension (trim (substring raw (int i) (int (i + length (hex_string n)))))) = Some (int n)"
proof -
  show "f_findCRLF raw (int i) = Some (i + length (hex_string n))"
    using chunk_loop_size(1) [OF assms] by (simp add: f_findCRLF_nat)
  have "substring raw (int i) (int (i + length (hex_string n))) = hex_string n"
    using substring_at [OF assms] by (simp add: CRLF_def)
  then show "parseInt 16 (cut_extension (trim (substring raw (int i) (int (i + length (hex_string n)))))) = Some (int n)"
    by (simp add: hex_string_plain parseInt_hex_string)
qed

lemma decode_chunks:
  "drop i raw = chunked_body cs @ ys \<Longrightarrow> [] \<notin> set cs \<Longrightarrow> decode_loop_raw raw acc (int i) = Some (acc @ concat cs)"
proof (induction cs arbitrary: i acc)
  case Nil
  then have d: "drop i raw = hex_string 0 @ CRLF @ CRLF @ ys" by (simp add: chunked_body_def last_chunk_def chunk_zero)
  then have "i < length raw" by (cases "i < length raw") (simp_all add: chunk_zero)
  then show ?case using size_line [OF d] by (subst decode_loop_raw.simps) simp
next
  case (Cons c cs)
  define h where "h = hex_string (length c)"
  have c: "c \<noteq> []" "[] \<notin> set cs" using Cons.prems(2) by auto
  have d: "drop i raw = h @ CRLF @ c @ CRLF @ chunked_body cs @ ys"
    using Cons.prems(1) by (simp add: chunked_body_def chunk_frame_def h_def)
  then have lt: "i < length raw" by (cases "i < length raw") (simp_all add: CRLF_def)
  have d2: "drop (i + length h + 2) raw = c @ CRLF @ chunked_body cs @ ys"
    using drop_extend [of i raw "h @ CRLF"] d by (simp add: CRLF_def add.assoc)
  then have d3: "drop (i + length h + 2 + length c + 2) raw = chunked_body cs @ ys"
    using drop_extend [of "i + length h + 2" raw "c @ CRLF"] by (simp add: CRLF_def add.assoc)
  have e: "i + length h + 2 + length c \<le> length raw"
    using arg_cong [OF d2, of length] c(1) by (cases c) simp_all
  have s: "substring raw (int i + int (length h) + 2) (int i + int (length h) + 2 + int (length c)) = c"
    using substring_at [OF d2] c(1) by (simp add: algebra_simps)
  have "decode_loop_raw raw acc (int i) = decode_loop_raw raw (acc @ c) (int (i + length h + 2 + length c + 2))"
    using size_line [of i raw "length c"] d lt e s c(1)
    by (subst decode_loop_raw.simps) (simp add: Let_def h_def add_ac)
  then show ?case using Cons.IH [OF d3 c(2)] by simp
qed

theorem decodeChunked_roundtrip:
  assumes "[] \<notin> set cs"
  shows "decodeChunked (chunked_body cs @ rest) = Some (concat cs)"
  using decode_chunks [of 0 _ cs rest "[]"] assms by (simp add: decodeChunked_def)

lemma decodeChunked_roundtrip_witness: "decodeChunked (chunked_body [js ''ab'', js ''c''] @ js ''x'') = Some (js ''abc'')"
  using decodeChunked_roundtrip [of "[js ''ab'', js ''c'']" "js ''x''"] by simp

text \<open>A negative size takes the decoder back to where it was, with more text each time: it never ends.\<close>

lemma negative_chunk_diverges: "decodeChunked negative_chunk = None"
proof (rule ccontr)
  assume "decodeChunked negative_chunk \<noteq> None"
  then obtain r where "decode_loop_raw negative_chunk [] 0 = Some r" by (auto simp: decodeChunked_def)
  moreover have "\<not> (raw = negative_chunk \<and> pos = 0)" if "decode_loop_raw raw acc pos = Some r" for raw acc pos r
  proof (rule decode_loop_raw.raw_induct [where P = "\<lambda>raw acc pos r. \<not> (raw = negative_chunk \<and> pos = 0)", OF _ that], goal_cases)
    case (1 loop raw acc pos r)
    note e = negative_chunk_def CRLF_def
    have f: "f_findCRLF negative_chunk 0 = Some 2" by (simp add: f_findCRLF_nat findCRLF.simps e)
    have p: "parseInt 16 (cut_extension (trim (substring negative_chunk 0 2))) = Some (- 6)"
      by (simp add: parseInt_def cut_extension_def trim_def substring_def slice_def is_white_def digit_value_def digits_value_def e)
    have l: "length negative_chunk = 4" by (simp add: e)
    show ?case
    proof
      assume a: "raw = negative_chunk \<and> pos = 0"
      then have "loop negative_chunk (acc @ substring negative_chunk 4 (- 2)) 0 = Some r"
        using 1(2) f p l by (simp add: Let_def)
      then show False using 1(1) by blast
    qed
  qed
  ultimately show False by blast
qed

lemma set_substring: "set (substring s a b) \<subseteq> set s"
  by (auto simp: substring_def slice_def Let_def dest!: in_set_takeD in_set_dropD)

lemma set_trim: "set (trim s) \<subseteq> set s"
  by (auto simp: trim_def dest!: set_dropWhileD)

lemma set_cut: "set (cut_extension s) \<subseteq> set s"
  by (auto simp: cut_extension_def split: option.split dest: in_set_takeD)

lemma decode_returns:
  "45 \<notin> set raw \<Longrightarrow> 0 \<le> pos \<Longrightarrow> \<exists>r. decode_loop_raw raw acc pos = Some r"
proof (induction "nat (int (length raw) - pos)" arbitrary: pos acc rule: less_induct)
  case less
  show ?case
  proof (cases "pos < int (length raw)")
    case False
    then show ?thesis by (subst decode_loop_raw.simps) simp
  next
    case lt: True
    show ?thesis
    proof (cases "f_findCRLF raw pos")
      case None
      then show ?thesis by (subst decode_loop_raw.simps) simp
    next
      case (Some nl)
      then have nl: "nat pos \<le> nl" using findCRLF_bounds by (simp add: f_findCRLF_nat)
      let ?s = "cut_extension (trim (substring raw pos (int nl)))"
      show ?thesis
      proof (cases "parseInt 16 ?s")
        case None
        then show ?thesis using Some by (subst decode_loop_raw.simps) simp
      next
        case p: (Some n)
        have "set ?s \<subseteq> set raw" by (intro order.trans [OF set_cut] order.trans [OF set_trim] set_substring)
        then have "45 \<notin> set ?s" using less.prems(1) by blast
        then have n: "0 \<le> n" using parseInt_nonneg [OF _ p] by blast
        show ?thesis
        proof (cases "n = 0 \<or> int (length raw) < int nl + 2 + n")
          case True
          then show ?thesis using Some p by (subst decode_loop_raw.simps) (auto simp: Let_def)
        next
          case False
          then have "\<exists>r. decode_loop_raw raw (acc @ substring raw (int nl + 2) (int nl + 2 + n)) (int nl + 2 + n + 2) = Some r"
            using nl n less.prems(2) lt by (intro less.hyps [OF _ less.prems(1)]) linarith+
          then show ?thesis using Some p False by (subst decode_loop_raw.simps) (simp add: Let_def)
        qed
      qed
    qed
  qed
qed

section \<open>Streams of reads\<close>

text \<open>Reads that give these pieces, and the read that tells the end of the connection.\<close>

definition reads :: "jsstr list \<Rightarrow> read_event list" where
  "reads segs = map (\<lambda>s. \<lparr>ev_before = False, ev_after = False, ev_chunk = s, ev_eof = False\<rparr>) segs"

definition eof_read :: read_event where
  "eof_read = \<lparr>ev_before = False, ev_after = False, ev_chunk = [], ev_eof = True\<rparr>"

lemma reads_simps [simp]:
  "reads [] = []"
  "reads (s # segs) = \<lparr>ev_before = False, ev_after = False, ev_chunk = s, ev_eof = False\<rparr> # reads segs"
  by (simp_all add: reads_def)

definition enqueue_all :: "jsstr list \<Rightarrow> jsstr controller \<Rightarrow> jsstr controller" where
  "enqueue_all cs c = fold rc_enqueue cs c"

lemma enqueue_all_simps [simp]:
  "enqueue_all [] c = c" "enqueue_all (x # xs) c = enqueue_all xs (rc_enqueue x c)"
  "enqueue_all xs (enqueue_all ys c) = enqueue_all (ys @ xs) c"
  by (simp_all add: enqueue_all_def)

lemma chunk_size_hex: "chunk_number (hex_string n) = Some (int n)"
  by (simp add: chunk_number_def hex_string_plain parseInt_hex_string)

lemma index_crlf: "13 \<notin> set h \<Longrightarrow> index_of_str CRLF (h @ CRLF @ ys) = Some (length h)"
  using index_of_str_first [of CRLF 13 "[10]" h ys] by (simp add: CRLF_def)

text \<open>The part of a chunked body that has come in gives its complete chunks; the rest is kept.\<close>

lemma emit_prefix:
  "p @ t = chunked_body cs \<Longrightarrow> [] \<notin> set cs \<Longrightarrow>
   \<exists>cs1 cs2 p' st. cs = cs1 @ cs2 \<and> emit_chunks p c = Some (p', enqueue_all cs1 c, st) \<and> p' @ t = chunked_body cs2 \<and>
     (st = Waiting \<or> st = Finished \<and> cs2 = []) \<and> (t = [] \<longrightarrow> st = Finished)"
proof (induction cs arbitrary: p c)
  case Nil
  then have p: "p @ t = [48] @ CRLF @ CRLF" by (simp add: chunked_body_def last_chunk_def)
  show ?case
  proof (cases "index_of_str CRLF p")
    case None
    have "index_of_str CRLF ([48] @ CRLF @ CRLF) = Some 1" by (simp add: CRLF_def)
    then have "t \<noteq> []" using None p by auto
    moreover have "emit_chunks p c = Some (p, c, Waiting)" using None by (subst emit_chunks.simps) simp
    ultimately show ?thesis using Nil.prems by auto
  next
    case (Some i)
    have "index_of_str CRLF (p @ t) = Some 1" using p by (simp add: CRLF_def)
    then have i: "i = 1" using index_of_str_extend [OF Some, of t] by simp
    have "i \<le> length p" using index_of_str_Some [OF Some] by simp
    then have "take i p = take i (p @ t)" by simp
    then have "take i p = hex_string 0" using p i by (simp add: chunk_zero)
    then have "emit_chunks p c = Some (p, c, Finished)"
      using Some chunk_size_hex [of 0] by (subst emit_chunks.simps) simp
    then show ?thesis using Nil.prems by auto
  qed
next
  case (Cons x cs)
  define h where "h = hex_string (length x)"
  have x: "x \<noteq> []" "[] \<notin> set cs" using Cons.prems(2) by auto
  define w where "w = x @ CRLF @ chunked_body cs"
  have p: "p @ t = h @ CRLF @ w"
    using Cons.prems(1) by (simp add: chunked_body_def chunk_frame_def h_def w_def)
  have h13: "13 \<notin> set h" by (simp add: h_def hex_string_units)
  have full: "index_of_str CRLF (p @ t) = Some (length h)" using p index_crlf [OF h13] by simp
  show ?case
  proof (cases "index_of_str CRLF p")
    case None
    then have "t \<noteq> []" using full by auto
    moreover have "emit_chunks p c = Some (p, c, Waiting)" using None by (subst emit_chunks.simps) simp
    ultimately show ?thesis using Cons.prems by (intro exI [of _ "[]"] exI [of _ "x # cs"] exI [of _ p] exI [of _ Waiting]) simp
  next
    case (Some i)
    then have i: "i = length h" using index_of_str_extend [OF Some, of t] full by simp
    have lp: "length h + 2 \<le> length p" using index_of_str_Some [OF Some] i by (simp add: CRLF_def)
    have "take i p = take i (p @ t)" using lp i by simp
    then have "take i p = h" using p i by simp
    then have size: "chunk_number (take i p) = Some (int (length x))" by (simp add: h_def chunk_size_hex)
    show ?thesis
    proof (cases "length p < length h + 2 + length x + 2")
      case True
      then have "emit_chunks p c = Some (p, c, Waiting)"
        using Some size x(1) i by (subst emit_chunks.simps) (simp add: Let_def)
      moreover have "t \<noteq> []" using True arg_cong [OF p, of length] by (auto simp: w_def CRLF_def)
      ultimately show ?thesis using Cons.prems by (intro exI [of _ "[]"] exI [of _ "x # cs"] exI [of _ p] exI [of _ Waiting]) simp
    next
      case False
      define n where "n = length h + 2 + length x + 2"
      have n: "length (h @ CRLF @ x @ CRLF) = n" by (simp add: n_def CRLF_def)
      have "take n p = take n (p @ t)" using False by (simp add: n_def)
      also have "\<dots> = h @ CRLF @ x @ CRLF" using p n by (simp add: w_def)
      finally have pt: "p = (h @ CRLF @ x @ CRLF) @ drop n p" by (metis append_take_drop_id)
      have rest: "drop n p @ t = chunked_body cs"
      proof -
        have "(h @ CRLF @ x @ CRLF) @ (drop n p @ t) = (h @ CRLF @ x @ CRLF) @ chunked_body cs"
          using p pt by (metis append.assoc w_def)
        then show ?thesis by simp
      qed
      have "drop (length h + 2) p = x @ CRLF @ drop n p"
        using drop_extend [of 0 p "h @ CRLF" "x @ CRLF @ drop n p"] pt by (simp add: CRLF_def)
      from substring_at [OF this] have sub: "substring p (int (length h) + 2) (int (length h) + 2 + int (length x)) = x"
        using x(1) by (simp add: algebra_simps)
      have nat: "nat (int (length h) + 2 + int (length x) + 2) = n" by (simp add: n_def nat_add_distrib)
      have "emit_chunks p c = emit_chunks (drop n p) (rc_enqueue x c)"
        using Some size x(1) i False sub nat by (subst emit_chunks.simps) (simp add: Let_def)
      moreover obtain cs1 cs2 p' st where "cs = cs1 @ cs2"
        "emit_chunks (drop n p) (rc_enqueue x c) = Some (p', enqueue_all cs1 (rc_enqueue x c), st)"
        "p' @ t = chunked_body cs2" "st = Waiting \<or> st = Finished \<and> cs2 = []" "t = [] \<longrightarrow> st = Finished"
        using Cons.IH [OF rest x(2), of "rc_enqueue x c"] by blast
      ultimately show ?thesis by (intro exI [of _ "x # cs1"] exI [of _ cs2] exI [of _ p'] exI [of _ st]) simp
    qed
  qed
qed

lemma streamChunked_body:
  "acc @ concat segs = chunked_body cs \<Longrightarrow> [] \<notin> set cs \<Longrightarrow>
   streamChunked (reads segs @ rest) acc c = Some (enqueue_all cs c, Finished)"
proof (induction segs arbitrary: acc cs c)
  case Nil
  then obtain cs1 cs2 p' where "cs = cs1 @ cs2" "emit_chunks acc c = Some (p', enqueue_all cs1 c, Finished)" "cs2 = []"
    using emit_prefix [of acc "[]" cs c] by auto
  then show ?case by (subst streamChunked.simps) simp
next
  case (Cons s segs)
  obtain cs1 cs2 p' st where e: "cs = cs1 @ cs2" "emit_chunks acc c = Some (p', enqueue_all cs1 c, st)"
    "p' @ s @ concat segs = chunked_body cs2" "st = Waiting \<or> st = Finished \<and> cs2 = []"
    using emit_prefix [of acc "s @ concat segs" cs c] Cons.prems by auto
  show ?case
  proof (cases "st = Finished")
    case True
    then show ?thesis using e by (subst streamChunked.simps) auto
  next
    case False
    then have st: "st = Waiting" using e(4) by simp
    have "streamChunked (reads segs @ rest) (p' @ s) (enqueue_all cs1 c) = Some (enqueue_all cs2 (enqueue_all cs1 c), Finished)"
      by (rule Cons.IH) (use e Cons.prems(2) in auto)
    then show ?thesis using e(1,2) st by (subst streamChunked.simps) simp
  qed
qed

lemma streamBodyByLength_body:
  "streamBodyByLength (reads segs @ rest) (int (length (concat segs))) c = (enqueue_all (filter (\<lambda>s. s \<noteq> []) segs) c, Finished)"
proof (induction segs arbitrary: c)
  case Nil
  show ?case by (subst streamBodyByLength.simps) simp
next
  case (Cons s segs)
  show ?case
  proof (cases "concat (s # segs) = []")
    case True
    then show ?thesis by (subst streamBodyByLength.simps) (auto simp: filter_empty_conv)
  next
    case False
    show ?thesis
    proof (cases "concat segs = []")
      case True
      then have s: "s \<noteq> []" "length (concat (s # segs)) = length s" using False by simp_all
      moreover have "filter (\<lambda>s. s \<noteq> []) segs = []" using True by (auto simp: filter_empty_conv)
      ultimately show ?thesis
        unfolding s(2) by (subst streamBodyByLength.simps) (simp add: enqueue_chunk_def)
    next
      case rest: False
      define n where "n = length (concat segs)"
      have n: "0 < n" using rest unfolding n_def by blast
      have l: "length (concat (s # segs)) = length s + n" by (simp add: n_def)
      show ?thesis
        unfolding l using n Cons.IH [of "enqueue_chunk s c", folded n_def]
        by (subst streamBodyByLength.simps) (auto simp: enqueue_chunk_def Let_def)
    qed
  qed
qed

lemma streamBodyUntilEOF_body:
  "streamBodyUntilEOF (reads segs @ eof_read # rest) c = (enqueue_all (filter (\<lambda>s. s \<noteq> []) segs) c, Finished)"
  by (induction segs arbitrary: c) (simp_all add: enqueue_chunk_def eof_read_def)

section \<open>Heads\<close>

text \<open>Headers as \<open>fetch\<close> keeps those it has read.\<close>

definition received :: "(jsstr \<times> jsstr) list \<Rightarrow> fheaders" where
  "received hs = no_headers\<lparr>fh_entries := map (\<lambda>h. (to_lower (fst h), trim (snd h))) hs\<rparr>"

lemma received_values: "entry_values (fh_entries (received hs)) n = map trim (values_of n hs)"
  by (induction hs) (auto simp: received_def values_of_def)

lemma parse_header_received:
  assumes "valid_header h"
  shows "parse_header_line (header_string h) (received hs) = received (hs @ [h])"
proof -
  have n: "fst h \<noteq> []" "58 \<notin> set (fst h)" using valid_header_units [OF assms] by simp_all
  have w: "trim (32 # s) = trim s" for s by (simp add: trim_def is_white_def)
  have "index_of 58 (header_string h) = Some (length (fst h))"
    using index_of_append [OF n(2), of "32 # snd h"] by (simp add: header_string_def)
  then show ?thesis
    using n by (simp add: parse_header_line_def header_string_def put_header_def fh_append_def received_def no_headers_def
        add_entry_def normalizeHeaderName_def normalizeHeaderValue_def w)
qed

lemma header_loop_text:
  "drop pos raw = concat (map header_text hs) @ CRLF @ rest \<Longrightarrow> list_all valid_header hs \<Longrightarrow>
   header_loop raw pos r =
     r\<lparr>ph_headers := fold parse_header_line (map header_string hs) (ph_headers r),
       ph_end := int pos + int (length (concat (map header_text hs))) + 2\<rparr>"
proof (induction hs arbitrary: pos r)
  case Nil
  then have "findCRLF raw pos = Some pos" using findCRLF_at [of pos raw "[]" rest] by simp
  moreover have "pos < length raw" using Nil by (cases "pos < length raw") (simp_all add: CRLF_def)
  ultimately show ?case by (subst header_loop.simps) (simp add: f_findCRLF_nat)
next
  case (Cons h hs)
  define w where "w = concat (map header_text hs) @ CRLF @ rest"
  have h: "13 \<notin> set (header_string h)" "header_string h \<noteq> []"
    using Cons.prems(2) valid_header_units by simp_all
  have ht: "header_text h = header_string h @ CRLF" by (simp add: header_text_def header_string_def)
  then have d: "drop pos raw = header_string h @ CRLF @ w"
    using Cons.prems(1) by (simp add: w_def)
  have lt: "pos < length raw" using d h(2) by (cases "pos < length raw") simp_all
  have f: "findCRLF raw pos = Some (pos + length (header_string h))" by (rule findCRLF_at [OF d h(1)])
  have "drop (pos + length (header_string h) + 2) raw = w"
    using drop_extend [of pos raw "header_string h @ CRLF" w] d by (simp add: CRLF_def add.assoc)
  from Cons.IH [OF this [unfolded w_def]] Cons.prems(2)
  have "header_loop raw (pos + length (header_string h) + 2) (r\<lparr>ph_headers := parse_header_line (header_string h) (ph_headers r)\<rparr>) =
      r\<lparr>ph_headers := fold parse_header_line (map header_string (h # hs)) (ph_headers r),
        ph_end := int pos + int (length (concat (map header_text (h # hs)))) + 2\<rparr>"
    by (simp add: ht CRLF_def)
  then show ?case using f lt slice_at [OF d] h(2) by (subst header_loop.simps) (simp add: f_findCRLF_nat)
qed

lemma received_fold:
  "list_all valid_header hs \<Longrightarrow> fold parse_header_line (map header_string hs) (received gs) = received (gs @ hs)"
  by (induction hs arbitrary: gs) (simp_all add: parse_header_received)

lemma parse_dec: "parseInt 10 (js (dec_string n)) = Some (int n)"
proof -
  define s :: jsstr where "s = js (dec_string n)"
  have s: "s \<noteq> []" "\<And>c. c \<in> set s \<Longrightarrow> 48 \<le> c \<and> c \<le> 57" "digits_value 10 s = n"
    using dec_string_digits [of n] by (auto simp: s_def)
  have hd: "48 \<le> hd s \<and> hd s \<le> 57" using s by auto
  then have "\<not> is_white (hd s)" by (auto simp: is_white_def)
  then have w: "dropWhile is_white s = s" using s(1) by (simp add: dropWhile_eq_self_iff)
  have "digit_value c < 10" if "c \<in> set s" for c using s(2) [OF that] by (auto simp: digit_value_def)
  then have tw: "takeWhile (\<lambda>c. digit_value c < 10) s = s" by simp
  show ?thesis using s(1,3) hd unfolding s_def [symmetric] by (auto simp: parseInt_def w tw Let_def)
qed

text \<open>The head of a response as \<open>http.js\<close> prints it, whatever follows.\<close>

lemma parse_head_text:
  assumes "13 \<notin> set msg" "list_all valid_header hs"
  shows "parseHTTPResponse (head_text (status_line code msg) hs @ rest) =
    \<lparr>ph_status = Some (int code), ph_statusText = msg, ph_headers = received hs,
     ph_end = int (length (head_text (status_line code msg) hs))\<rparr>"
proof -
  define line where "line = status_line code msg"
  define d where "d = js (dec_string code)"
  define raw where "raw = head_text line hs @ rest"
  have line: "line = js ''HTTP/1.1'' @ 32 # d @ 32 # msg" by (simp add: line_def status_line_def d_def)
  have d: "13 \<notin> set d" "32 \<notin> set d" using dec_string_digits [of code] by (auto simp: d_def)
  have l13: "13 \<notin> set line" using assms(1) d by (simp add: line)
  have raw: "drop 0 raw = line @ CRLF @ concat (map header_text hs) @ CRLF @ rest" by (simp add: raw_def head_text_def)
  have f: "f_findCRLF raw 0 = Some (length line)" using findCRLF_at [OF raw l13] by (simp add: f_findCRLF_nat)
  have "index_of 32 line = Some 8" using index_of_append [of 32 "js ''HTTP/1.1''" "d @ 32 # msg"] by (simp add: line)
  moreover have "drop 9 line = d @ 32 # msg" by (simp add: line)
  ultimately have st: "parse_status_line line = Some (Some (int code), msg)"
    using index_of_append [OF d(2), of msg] parse_dec [of code] by (simp add: parse_status_line_def d_def)
  have t: "take (length line) raw = line" using raw by simp
  have d2: "drop (length line + 2) raw = concat (map header_text hs) @ CRLF @ rest"
    using drop_extend [of 0 raw "line @ CRLF"] raw by (simp add: CRLF_def)
  have n: "received [] = no_headers" by (simp add: received_def no_headers_def)
  show ?thesis
    using f st t header_loop_text [OF d2 assms(2)] received_fold [OF assms(2), of "[]"] n
    unfolding line_def [symmetric] raw_def [symmetric]
    by (simp add: parseHTTPResponse_def head_text_def CRLF_def)
qed

lemma head_separator:
  assumes "13 \<notin> set msg" "list_all valid_header hs"
  shows "index_of_str (CRLF @ CRLF) (head_text (status_line code msg) hs @ rest) =
    Some (length (head_text (status_line code msg) hs) - 4) \<and> 4 \<le> length (head_text (status_line code msg) hs)"
proof -
  define ls where "ls = status_line code msg # map header_string hs"
  have "13 \<notin> set (status_line code msg)" "status_line code msg \<noteq> []"
    using assms(1) dec_string_digits [of code] by (auto simp: status_line_def)
  then have ls: "ls \<noteq> []" "\<forall>l \<in> set ls. 13 \<notin> set l \<and> l \<noteq> []"
    using assms valid_header_units by (auto simp: ls_def list_all_iff)
  have "head_text (status_line code msg) hs = join_with CRLF ls @ CRLF @ CRLF" by (simp add: head_text_lines ls_def)
  then show ?thesis using index_head_end [OF ls, of rest] by (simp add: CRLF_def)
qed

text \<open>The reader of heads cuts off exactly the head, wherever the reads end.\<close>

lemma readHeaders_cut:
  assumes sep: "\<And>r. index_of_str (CRLF @ CRLF) (H @ r) = Some (length H - 4)" "4 \<le> length H"
    and "acc @ concat segs = H @ wire"
  shows "\<exists>pre segs'. readHeaders (reads segs @ rest) acc = Some (Some (H, pre, reads segs' @ rest)) \<and> pre @ concat segs' = wire"
  using assms(3)
proof (induction segs arbitrary: acc)
  case Nil
  then show ?case using sep(1) [of wire] sep(2) by (subst readHeaders.simps) (auto intro!: exI [of _ "[]"])
next
  case (Cons s segs)
  show ?case
  proof (cases "index_of_str (CRLF @ CRLF) acc")
    case None
    then show ?thesis using Cons.IH [of "acc @ s"] Cons.prems by (subst readHeaders.simps) simp
  next
    case (Some i)
    have "index_of_str (CRLF @ CRLF) (H @ wire) = Some i"
      using index_of_str_extend [OF Some, of "concat (s # segs)"] Cons.prems by simp
    then have i: "i + 4 = length H" using sep by simp
    have "length H \<le> length acc" using index_of_str_Some [OF Some] i by (simp add: CRLF_def)
    then have t: "take (length H) acc = H"
      using arg_cong [OF Cons.prems, of "take (length H)"] by simp
    then have acc: "acc = H @ drop (length H) acc" by (metis append_take_drop_id)
    then have "drop (length H) acc @ concat (s # segs) = wire"
      using Cons.prems by (metis append.assoc same_append_eq)
    then show ?thesis
      using Some i t by (subst readHeaders.simps) (auto intro!: exI [of _ "s # segs"])
  qed
qed

section \<open>Ways of sending a body\<close>

text \<open>
  The contract between a server and the reader of bodies: whatever part of the body came with the head and
  however the rest is cut, the reader finishes, and the pieces it has passed on make the body.
\<close>

locale body_framing =
  fixes ok :: "(jsstr \<times> jsstr) list \<Rightarrow> 'b \<Rightarrow> bool"
    and wire :: "'b \<Rightarrow> jsstr"
    and body :: "'b \<Rightarrow> jsstr"
    and tail :: "read_event list"
  assumes streamed: "ok hs x \<Longrightarrow> pre @ concat segs = wire x \<Longrightarrow>
      \<exists>ps. asyncStreamBody inflate (reads segs @ tail) (received hs) pre new_controller = Some (enqueue_all ps new_controller, Finished) \<and>
        concat ps = body x"
begin

lemma hop_reads:
  assumes "ok hs x" "13 \<notin> set msg" "list_all valid_header hs"
    and "concat segs = head_text (status_line code msg) hs @ wire x"
  shows "\<exists>hp ps. fetch_hop inflate (reads segs @ tail) = Some (Some (hp, rc_close (enqueue_all ps new_controller))) \<and>
    ph_status hp = Some (int code) \<and> ph_statusText hp = msg \<and> ph_headers hp = received hs \<and> concat ps = body x"
proof -
  define H where "H = head_text (status_line code msg) hs"
  have sep: "\<And>r. index_of_str (CRLF @ CRLF) (H @ r) = Some (length H - 4)" "4 \<le> length H"
    using head_separator [OF assms(2,3)] by (auto simp: H_def)
  obtain pre segs' where r: "readHeaders (reads segs @ tail) [] = Some (Some (H, pre, reads segs' @ tail))" "pre @ concat segs' = wire x"
    using readHeaders_cut [of H "[]" segs "wire x" tail, OF sep] assms(4) by (auto simp: H_def)
  obtain ps where ps: "asyncStreamBody inflate (reads segs' @ tail) (received hs) pre new_controller = Some (enqueue_all ps new_controller, Finished)"
    "concat ps = body x"
    using streamed [OF assms(1) r(2), of inflate] by blast
  have "parseHTTPResponse H = \<lparr>ph_status = Some (int code), ph_statusText = msg, ph_headers = received hs, ph_end = int (length H)\<rparr>"
    using parse_head_text [OF assms(2,3), of code "[]"] by (simp add: H_def)
  then have "fetch_hop inflate (reads segs @ tail) = Some (Some
      (\<lparr>ph_status = Some (int code), ph_statusText = msg, ph_headers = received hs, ph_end = int (length H)\<rparr>,
       rc_close (enqueue_all ps new_controller)))"
    using r(1) ps(1) by (simp add: fetch_hop_def Let_def end_stream_def)
  then show ?thesis using ps(2) by auto
qed

end

definition plain_body :: "(jsstr \<times> jsstr) list \<Rightarrow> bool" where
  "plain_body hs \<longleftrightarrow> values_of (js ''content-encoding'') hs = []"

lemma received_get:
  "fh_get (received hs) n = (let vs = map trim (values_of (to_lower n) hs) in if vs = [] then None else Some (join_with (js '', '') vs))"
  by (simp add: fh_get_def received_values normalizeHeaderName_def Let_def)

lemma lower_names:
  "to_lower (js ''content-encoding'') = js ''content-encoding''" "to_lower (js ''transfer-encoding'') = js ''transfer-encoding''"
  "to_lower (js ''content-length'') = js ''content-length''"
  by (simp_all add: to_lower_def lower_unit_def)

lemma trim_digits: "trim (js (dec_string n)) = js (dec_string n)"
  by (rule trim_no_white) (use dec_string_digits [of n] in \<open>fastforce simp: is_white_def\<close>)

text \<open>What is passed on when a first part is followed by pieces.\<close>

definition nonempty :: "jsstr list \<Rightarrow> jsstr list" where
  "nonempty segs = filter (\<lambda>s. s \<noteq> []) segs"

lemma enqueue_first: "enqueue_all (nonempty segs) (if 0 < length pre then rc_enqueue pre c else c) = enqueue_all (nonempty (pre # segs)) c"
  by (auto simp: nonempty_def)

lemma nonempty_simps [simp]:
  "nonempty [] = []" "nonempty (s # segs) = (if s = [] then nonempty segs else s # nonempty segs)"
  by (simp_all add: nonempty_def)

lemma concat_nonempty: "concat (nonempty segs) = concat segs"
  by (induction segs) (auto simp: nonempty_def)

lemma get_encoding:
  assumes "plain_body hs"
  shows "fh_get (received hs) (js ''content-encoding'') = None"
  using assms unfolding received_get lower_names plain_body_def by simp

lemma get_single:
  assumes "values_of n hs = [v]" "to_lower n = n"
  shows "fh_get (received hs) n = Some (trim v)"
  using assms by (simp add: received_get)

lemma get_absent: "values_of n hs = [] \<Longrightarrow> to_lower n = n \<Longrightarrow> fh_get (received hs) n = None"
  by (simp add: received_get)

lemma dispatch_chunked:
  assumes "plain_body hs" "values_of (js ''transfer-encoding'') hs = [CHUNKED]"
  shows "asyncStreamBody inflate es (received hs) pre c = streamChunked es pre c"
proof -
  have "contains (js ''chunked'') (to_lower (trim CHUNKED))"
    by (simp add: contains_def CHUNKED_def to_lower_def lower_unit_def trim_def is_white_def)
  then show ?thesis
    unfolding asyncStreamBody_def get_encoding [OF assms(1)] get_single [OF assms(2) lower_names(2)]
    by (simp add: wbitsForEncoding_def)
qed

lemma dispatch_length:
  assumes "plain_body hs" "values_of (js ''transfer-encoding'') hs = []"
    "values_of (js ''content-length'') hs = [js (dec_string n)]"
  shows "asyncStreamBody inflate es (received hs) pre c =
    Some (streamBodyByLength es (int n - int (length pre)) (if 0 < length pre then rc_enqueue pre c else c))"
  unfolding asyncStreamBody_def get_encoding [OF assms(1)] get_absent [OF assms(2) lower_names(2)]
    get_single [OF assms(3) lower_names(3)] trim_digits
  by (simp add: wbitsForEncoding_def parse_dec)

lemma dispatch_eof:
  assumes "plain_body hs" "values_of (js ''transfer-encoding'') hs = []" "values_of (js ''content-length'') hs = []"
  shows "asyncStreamBody inflate es (received hs) pre c =
    Some (streamBodyUntilEOF es (if 0 < length pre then rc_enqueue pre c else c))"
  unfolding asyncStreamBody_def get_encoding [OF assms(1)] get_absent [OF assms(2) lower_names(2)]
    get_absent [OF assms(3) lower_names(3)]
  by (simp add: wbitsForEncoding_def)

interpretation chunked_hop: body_framing "\<lambda>hs cs. plain_body hs \<and> chunked_ok hs cs" chunked_body concat "[]"
proof
  fix hs cs pre segs inflate
  assume ok: "plain_body hs \<and> chunked_ok hs cs" and w: "pre @ concat segs = chunked_body cs"
  have te: "values_of (js ''transfer-encoding'') hs = [CHUNKED]" and cs: "[] \<notin> set cs"
    using ok unfolding chunked_ok_def by blast+
  have "streamChunked (reads segs @ []) pre new_controller = Some (enqueue_all cs new_controller, Finished)"
    by (rule streamChunked_body [OF w cs])
  then show "\<exists>ps. asyncStreamBody inflate (reads segs @ []) (received hs) pre new_controller =
      Some (enqueue_all ps new_controller, Finished) \<and> concat ps = concat cs"
    unfolding dispatch_chunked [OF conjunct1 [OF ok] te] by blast
qed

interpretation length_hop: body_framing
  "\<lambda>hs b. plain_body hs \<and> values_of (js ''transfer-encoding'') hs = [] \<and> length_ok hs b" "\<lambda>b. b" "\<lambda>b. b" "[]"
proof
  fix hs b pre segs inflate
  assume ok: "plain_body hs \<and> values_of (js ''transfer-encoding'') hs = [] \<and> length_ok hs b" and w: "pre @ concat segs = b"
  have h: "plain_body hs" "values_of (js ''transfer-encoding'') hs = []"
    "values_of (js ''content-length'') hs = [js (dec_string (length b))]"
    using ok unfolding length_ok_def by blast+
  have "length b = length pre + length (concat segs)" using w by auto
  then have "int (length b) - int (length pre) = int (length (concat segs))" by simp
  then have "streamBodyByLength (reads segs @ []) (int (length b) - int (length pre)) c = (enqueue_all (nonempty segs) c, Finished)" for c
    unfolding nonempty_def using streamBodyByLength_body [of segs "[]" c] by simp
  then show "\<exists>ps. asyncStreamBody inflate (reads segs @ []) (received hs) pre new_controller =
      Some (enqueue_all ps new_controller, Finished) \<and> concat ps = b"
    unfolding dispatch_length [OF h] enqueue_first using w
    by (intro exI [of _ "nonempty (pre # segs)"]) (auto simp: concat_nonempty)
qed

interpretation eof_hop: body_framing
  "\<lambda>hs b. plain_body hs \<and> values_of (js ''transfer-encoding'') hs = [] \<and> values_of (js ''content-length'') hs = []"
  "\<lambda>b. b" "\<lambda>b. b" "[eof_read]"
proof
  fix hs pre segs inflate and b :: jsstr
  assume ok: "plain_body hs \<and> values_of (js ''transfer-encoding'') hs = [] \<and> values_of (js ''content-length'') hs = []"
    and w: "pre @ concat segs = b"
  have "streamBodyUntilEOF (reads segs @ [eof_read]) c = (enqueue_all (nonempty segs) c, Finished)" for c
    unfolding nonempty_def using streamBodyUntilEOF_body [of segs "[]" c] by simp
  then show "\<exists>ps. asyncStreamBody inflate (reads segs @ [eof_read]) (received hs) pre new_controller =
      Some (enqueue_all ps new_controller, Finished) \<and> concat ps = b"
    unfolding dispatch_eof [OF conjunct1 [OF ok] conjunct1 [OF conjunct2 [OF ok]] conjunct2 [OF conjunct2 [OF ok]]] using w
    by (intro exI [of _ "nonempty (pre # segs)"]) (auto simp: concat_nonempty)
qed

section \<open>Reading the stream of a response\<close>

definition body_calls :: "jsstr list \<Rightarrow> jsstr source_call list" where
  "body_calls ps = map SEnqueue ps @ [SClose]"

lemma body_calls_stream: "st_ctrl (stream_new (body_calls ps) None) = rc_close (enqueue_all ps new_controller)"
proof -
  have "fold source_apply (map SEnqueue ps) c = enqueue_all ps c" for c
    by (induction ps arbitrary: c) simp_all
  then show ?thesis by (simp add: stream_new_def body_calls_def)
qed

lemma body_calls_drain:
  assumes "length ps < n"
  shows "dr_result (drain_run (body_calls ps) (replicate n Task)) = Some (Inr (concat ps))"
proof -
  define ops where "ops = map Source (body_calls ps) @ [Pull]"
  have e: "enqueue_all ps new_controller = run_stream (map Source (map SEnqueue ps))"
    by (induction ps rule: rev_induct) (simp_all add: enqueue_all_def run_stream_def)
  have open_all: "\<not> rc_ended (run_stream (map Source (map SEnqueue ps)))" by (auto simp: run_ended)
  have c: "st_ctrl (dr_stream (drain_start (body_calls ps))) = fst (rc_pull (rc_close (enqueue_all ps new_controller)))"
    using body_calls_stream [of ps]
    by (simp add: drain_start_def drainStream_def getReader_def reader_read_def stream_new_def split: prod.split)
  have "rc_closed (rc_close (enqueue_all ps new_controller)) \<and> rc_errored (rc_close (enqueue_all ps new_controller)) = None"
    using open_all unfolding e by (simp add: rc_close_def rc_ended_def settle_all_effect)
  then have "rc_closed (st_ctrl (dr_stream (drain_run (body_calls ps) [])))"
    "rc_errored (st_ctrl (dr_stream (drain_run (body_calls ps) []))) = None"
    by (simp_all add: drain_run_def c)
  moreover have sent: "chunks_sent (map Source (body_calls ps) @ produced []) = ps"
    by (induction ps) (simp_all add: body_calls_def chunks_sent_def)
  moreover have "length (chunks_sent (map Source (body_calls ps) @ produced [])) < n" using assms unfolding sent .
  ultimately show ?thesis using drain_reads_all [of "body_calls ps" "[]" n] unfolding sent by (simp add: Let_def)
qed

text \<open>What a program sees of a hop: the head, and the text of the body once it has had its tasks.\<close>

definition sees ::
    "(int \<Rightarrow> read_event list \<Rightarrow> fheaders \<Rightarrow> jsstr \<Rightarrow> jsstr controller \<Rightarrow> body_reader) \<Rightarrow>
     read_event list \<Rightarrow> nat \<Rightarrow> jsstr \<Rightarrow> (jsstr \<times> jsstr) list \<Rightarrow> jsstr \<Rightarrow> bool" where
  "sees inflate es code msg hs txt \<longleftrightarrow>
     (\<exists>hp ps. fetch_hop inflate es = Some (Some (hp, st_ctrl (stream_new (body_calls ps) None))) \<and>
        ph_status hp = Some (int code) \<and> ph_statusText hp = msg \<and> ph_headers hp = received hs \<and>
        (\<forall>n > length ps. dr_result (drain_run (body_calls ps) (replicate n Task)) = Some (Inr txt)))"

lemma seesI:
  assumes "\<exists>hp ps. fetch_hop inflate es = Some (Some (hp, rc_close (enqueue_all ps new_controller))) \<and>
    ph_status hp = Some (int code) \<and> ph_statusText hp = msg \<and> ph_headers hp = received hs \<and> concat ps = txt"
  shows "sees inflate es code msg hs txt"
  using assms body_calls_drain unfolding sees_def body_calls_stream by blast

lemma encoding_absent:
  assumes "om_wf sr" "om_get sr (js ''content-encoding'') = None"
  shows "plain_body (chunked_headers date sr)" "plain_body (length_headers date n sr)"
proof -
  have "values_of (js ''content-encoding'') (date_lines date sr) = []" by (rule date_lines_other) simp
  moreover have "values_of (js ''content-encoding'') [TE] = []" "values_of (js ''content-encoding'') [CL n] = []"
    by (simp_all add: values_of_def TE_def CL_def to_lower_def lower_unit_def)
  ultimately show "plain_body (chunked_headers date sr)" "plain_body (length_headers date n sr)"
    unfolding plain_body_def chunked_headers_def length_headers_def values_of_append
    using values_of_out_pairs [OF assms] by simp_all
qed

lemma length_headers_te:
  assumes "om_wf sr" "om_get sr (js ''transfer-encoding'') = None"
  shows "values_of (js ''transfer-encoding'') (length_headers date n sr) = []"
proof -
  have "values_of (js ''transfer-encoding'') (date_lines date sr) = []" by (rule date_lines_other) simp
  moreover have "values_of (js ''transfer-encoding'') [CL n] = []"
    by (simp add: values_of_def CL_def to_lower_def lower_unit_def)
  ultimately show ?thesis
    unfolding length_headers_def values_of_append using values_of_out_pairs [OF assms] by simp
qed



section \<open>Requests as the server reads them\<close>

lemma entries_raw_text: "entries_raw es = concat (map header_text es)"
  by (induction es) (simp_all add: header_text_def)

lemma request_text:
  "buildRawRequest u m h body ka =
     head_text (request_line m (request_path u)) (fh_entries (request_headers u h body ka)) @ (if has_body body then the body else [])"
  by (simp add: buildRawRequest_def head_text_def request_line_def fh_toRaw_def entries_raw_text)

text \<open>Headers that \<open>http.js\<close> accepts stay so when a safe header is put to them.\<close>

lemma valid_headers_iff: "valid_headers hs \<longleftrightarrow> (\<forall>h \<in> set hs. valid_header h \<and> \<not> inherited_name (to_lower (fst h)))"
  by (auto simp: valid_headers_def no_inherited_def list_all_iff)

lemma set_entries_set: "set (set_entries n v r es) \<subseteq> insert (n, v) (set es)"
  by (induction es arbitrary: r) (auto split: if_splits)

definition safe_pair :: "jsstr \<Rightarrow> jsstr \<Rightarrow> bool" where
  "safe_pair n v \<longleftrightarrow> validateHeaderName (VStr (to_lower n)) = Inr () \<and> \<not> list_ex bad_value_unit v \<and> \<not> inherited_name (to_lower n)"

lemma valid_trimmed: "safe_pair n v \<Longrightarrow> valid_header (to_lower n, trim v)"
  using trim_ends [of v] set_trim [of v]
  by (auto simp: safe_pair_def valid_header_def validateHeaderValue_def list_ex_iff is_white_def)

lemma put_set_valid:
  assumes "valid_headers (fh_entries h)" "safe_pair n v"
  shows "valid_headers (fh_entries (put_set n v h))"
proof (cases "fh_guard h = GImmutable")
  case True
  then show ?thesis using assms(1) by (simp add: put_set_def fh_set_def)
next
  case False
  then have "set (fh_entries (put_set n v h)) \<subseteq> insert (to_lower n, trim v) (set (fh_entries h))"
    using set_entries_set by (auto simp: put_set_def fh_set_def normalizeHeaderName_def normalizeHeaderValue_def)
  then show ?thesis
    using assms valid_trimmed [OF assms(2)] unfolding valid_headers_iff by (auto simp: safe_pair_def)
qed

lemma put_missing_valid:
  "valid_headers (fh_entries h) \<Longrightarrow> safe_pair n v \<Longrightarrow> valid_headers (fh_entries (put_missing n v h))"
  by (simp add: put_missing_def put_set_valid)

lemma safe_names:
  assumes "\<not> list_ex bad_value_unit v"
  shows "safe_pair (js ''Host'') v" "safe_pair (js ''Content-Length'') v" "safe_pair (js ''Connection'') v" "safe_pair (js ''Accept-Encoding'') v"
  using assms
  by (simp_all add: safe_pair_def validateHeaderName_def bad_name_unit_def inherited_name_def to_lower_def lower_unit_def)

lemma request_headers_valid:
  assumes "valid_headers (fh_entries h)" "\<not> list_ex bad_value_unit (u_hostname u)" "\<not> list_ex bad_value_unit (u_port u)"
  shows "valid_headers (fh_entries (request_headers u h body ka))"
proof -
  have host: "\<not> list_ex bad_value_unit (host_value u)"
    using assms(2,3) by (simp add: host_value_def bad_value_unit_def)
  have fixed: "\<not> list_ex bad_value_unit (if ka then js ''keep-alive'' else js ''close'')" "\<not> list_ex bad_value_unit (js ''gzip, deflate'')"
    by (simp_all add: bad_value_unit_def)
  have h1: "valid_headers (fh_entries (put_missing (js ''Host'') (host_value u) h))"
    by (rule put_missing_valid [OF assms(1) safe_names(1) [OF host]])
  have h2: "valid_headers (fh_entries (if has_body body
      then put_set (js ''Content-Length'') (js (dec_string (length (the body)))) (put_missing (js ''Host'') (host_value u) h)
      else put_missing (js ''Host'') (host_value u) h))"
    using h1 put_set_valid [OF h1 safe_names(2) [OF digits_safe]] by simp
  show ?thesis
    unfolding request_headers_def Let_def
    by (intro put_missing_valid h2 safe_names fixed)
qed


definition sample_url :: url where
  "sample_url = empty_url\<lparr>u_protocol := js ''http:'', u_hostname := js ''h'', u_port := js ''8080'', u_pathname := js ''/p''\<rparr>"


text \<open>The length that is announced is the length of the body.\<close>

lemma put_other: "to_lower n \<noteq> m \<Longrightarrow> to_lower m = m \<Longrightarrow> fh_get (put_set n v h) m = fh_get h m"
  by (simp add: put_set_def fh_set_def fh_get_def normalizeHeaderName_def values_set)

lemma put_missing_other: "to_lower n \<noteq> m \<Longrightarrow> to_lower m = m \<Longrightarrow> fh_get (put_missing n v h) m = fh_get h m"
  by (simp add: put_missing_def put_other)

lemma put_same: "fh_guard h = GNone \<Longrightarrow> to_lower n = m \<Longrightarrow> to_lower m = m \<Longrightarrow> fh_get (put_set n v h) m = Some (trim v)"
  by (auto simp: put_set_def fh_set_def fh_get_def normalizeHeaderName_def normalizeHeaderValue_def values_set Let_def)

lemma announced_length:
  assumes "has_body body" "fh_guard h = GNone"
  shows "fh_get (request_headers u h body ka) (js ''content-length'') = Some (js (dec_string (length (the body))))"
proof -
  have n: "to_lower (js ''Content-Length'') = js ''content-length''" "to_lower (js ''Connection'') \<noteq> js ''content-length''"
    "to_lower (js ''Accept-Encoding'') \<noteq> js ''content-length''"
    by (simp_all add: to_lower_def lower_unit_def)
  have g: "fh_guard (put_missing (js ''Host'') (host_value u) h) = GNone"
    using assms(2) by (simp add: put_missing_def put_set_def fh_set_def)
  show ?thesis
    unfolding request_headers_def Let_def if_P [OF assms(1)] put_missing_other [OF n(3) lower_names(3)]
      put_missing_other [OF n(2) lower_names(3)] put_same [OF g n(1) lower_names(3)] trim_digits ..
qed

section \<open>Behaviour that differs from the documentation\<close>

text \<open>A chunk whose data holds CR LF 0 CR LF is taken for the end of the body.\<close>

lemma complete_too_early:
  "isHTTPResponseComplete (js ''HTTP/1.1 200 OK'' @ CRLF @ js ''Transfer-Encoding: chunked'' @ CRLF @ CRLF @ js ''a'' @ CRLF @ js ''x'' @ CRLF @ js ''0'' @ CRLF)"
  by (simp add: isHTTPResponseComplete_def says_no_body_def first_line_def contains_def CRLF_def to_lower_def lower_unit_def
      parseInt_def is_white_def digit_value_def digits_value_def Let_def)

text \<open>Bytes after the stated length that came with the head are given to the program as part of the body.\<close>

lemma excess_is_body:
  assumes "plain_body hs" "values_of (js ''transfer-encoding'') hs = []" "values_of (js ''content-length'') hs = [js ''1'']"
  shows "map_option (\<lambda>r. rc_queue (fst r)) (asyncStreamBody inflate [] (received hs) (js ''abc'') new_controller) = Some [js ''abc'']"
proof -
  have "js ''1'' = js (dec_string 1)" by (simp add: dec_string.simps)
  note d = dispatch_length [OF assms(1,2) assms(3) [unfolded this]]
  show ?thesis
    unfolding d by (subst streamBodyByLength.simps) (simp add: rc_enqueue_def rc_ended_def new_controller_def)
qed

text \<open>A connection that ends before the stated length is a normal end of the body.\<close>

lemma cut_is_an_end: "streamBodyByLength [eof_read] 10 c = (c, Finished)"
  by (subst streamBodyByLength.simps) (simp add: eof_read_def enqueue_chunk_def)

text \<open>
  The body ends when the size of the last chunk is read. The CR LF after it may still be unread when the
  socket goes back to the pool, and a response that begins with it has no status.
\<close>

lemma last_chunk_unread: "emit_chunks ([48] @ CRLF) c = Some ([48] @ CRLF, c, Finished)"
  using chunk_size_hex [of 0] by (subst emit_chunks.simps) (simp add: CRLF_def chunk_zero)

lemma leftover_hides_status: "ph_status (parseHTTPResponse (CRLF @ s)) = Some 0"
  by (simp add: parseHTTPResponse_def f_findCRLF_nat findCRLF_index CRLF_def parse_status_line_def)

text \<open>A negative chunk size never ends the streaming loop either.\<close>

lemma negative_chunk_streams: "emit_chunks negative_chunk c = None"
proof (rule ccontr)
  assume "emit_chunks negative_chunk c \<noteq> None"
  then obtain r where "emit_chunks negative_chunk c = Some r" by auto
  moreover have "accum \<noteq> negative_chunk" if "emit_chunks accum c = Some r" for accum c r
  proof (rule emit_chunks.raw_induct [where P = "\<lambda>accum c r. accum \<noteq> negative_chunk", OF _ that], goal_cases)
    case (1 loop accum c r)
    note e = negative_chunk_def CRLF_def
    have f: "index_of_str CRLF negative_chunk = Some 2" by (simp add: e)
    have p: "chunk_number (take 2 negative_chunk) = Some (- 6)"
      by (simp add: chunk_number_def parseInt_def trim_def is_white_def digit_value_def digits_value_def e)
    have l: "length negative_chunk = 4" by (simp add: e)
    show ?case
    proof
      assume "accum = negative_chunk"
      then have "loop negative_chunk (rc_enqueue (substring negative_chunk 4 (- 2)) c) = Some r"
        using 1(2) f p l by (simp add: Let_def)
      then show False using 1(1) by blast
    qed
  qed
  ultimately show False by blast
qed

end
