(* ===== verification/FetchOne.thy ===== *)
theory FetchOne
  imports FetchPool FetchHttp
begin

text \<open>
  One hop of \<open>fetch.js\<close> as the state machine of its callbacks: the abort listener, the connection, the read of the
  head, and the body that follows. The functions for plain and for TLS sockets are the same text over other
  socket calls; \<open>on_tls\<close> says which. What arrives next is an event; an event is possible in the phases in which
  the code has the callback registered. \<open>on_done\<close> lists the calls of \<open>done\<close>, and \<open>on_writes\<close> what is written to
  which socket. Sockets that are closed are logged in the pool, with those the pool itself closes.
\<close>

section \<open>State\<close>

datatype one_error = OAborted | ONetwork string | OProtocol

datatype one_answer = Failed one_error | Answered parsed_head | Text jsstr | H2Answer nat jsstr fheaders

datatype hop_phase =
    Connecting            \<comment> \<open>the callback of the connection is outstanding\<close>
  | ReadingHead int       \<comment> \<open>that of the reader of the head\<close>
  | Streaming int bool    \<comment> \<open>that of the body; whether the server closes\<close>
  | OnHttp2 int
  | Ended

record one =
  on_tls :: bool
  on_host :: jsstr
  on_port :: nat
  on_signal :: bool       \<comment> \<open>a signal was given\<close>
  on_aborted :: bool      \<comment> \<open>it is aborted\<close>
  on_listening :: bool
  on_fired :: bool
  on_sock :: int
  on_reused :: bool
  on_raw :: jsstr
  on_pool :: pool
  on_phase :: hop_phase
  on_done :: "one_answer list"
  on_writes :: "(int \<times> jsstr) list"

definition call_done :: "one_answer \<Rightarrow> one \<Rightarrow> one" where
  "call_done a s = s\<lparr>on_done := on_done s @ [a]\<rparr>"

definition close_socket :: "int \<Rightarrow> one \<Rightarrow> one" where
  "close_socket h s = s\<lparr>on_pool := (on_pool s)\<lparr>pl_closed := pl_closed (on_pool s) @ [(on_tls s, h)]\<rparr>\<rparr>"

definition give_back :: "int \<Rightarrow> bool \<Rightarrow> one \<Rightarrow> one" where
  "give_back h serverClose s = s\<lparr>on_pool := pool_release (on_pool s) (on_host s) (on_port s) (on_tls s) h serverClose\<rparr>"

definition write_socket :: "int \<Rightarrow> one \<Rightarrow> one" where
  "write_socket h s = s\<lparr>on_writes := on_writes s @ [(h, on_raw s)]\<rparr>"

section \<open>The streaming hop\<close>

definition abortNow :: "one_error \<Rightarrow> one \<Rightarrow> one" where
  "abortNow err s =
     (if on_fired s then s
      else let s1 = s\<lparr>on_fired := True, on_listening := False\<rparr>;
               s2 = (if on_sock s1 \<noteq> 0 then (close_socket (on_sock s1) s1)\<lparr>on_sock := 0\<rparr> else s1);
               s3 = (if on_reused s2 then give_back 0 True s2 else s2)
           in call_done (Failed err) s3)"

definition startStream :: "int \<Rightarrow> one \<Rightarrow> one" where
  "startStream h s = s\<lparr>on_phase := ReadingHead h\<rparr>"

definition new_one :: "bool \<Rightarrow> bool \<Rightarrow> bool \<Rightarrow> jsstr \<Rightarrow> nat \<Rightarrow> jsstr \<Rightarrow> pool \<Rightarrow> one" where
  "new_one tls sig aborted host port rawReq p =
     \<lparr>on_tls = tls, on_host = host, on_port = port, on_signal = sig, on_aborted = aborted, on_listening = sig,
      on_fired = False, on_sock = 0, on_reused = False, on_raw = rawReq, on_pool = p, on_phase = Ended,
      on_done = [], on_writes = []\<rparr>"

definition fetchOne :: "bool \<Rightarrow> bool \<Rightarrow> bool \<Rightarrow> jsstr \<Rightarrow> nat \<Rightarrow> jsstr \<Rightarrow> pool \<Rightarrow> one" where
  "fetchOne tls sig aborted host port rawReq p =
     (let s = new_one tls sig aborted host port rawReq p
      in if sig \<and> aborted then call_done (Failed OAborted) (s\<lparr>on_listening := False\<rparr>)
         else case pool_acquire p host port tls of (p1, pooled) \<Rightarrow>
           if pooled \<noteq> 0
           then startStream pooled (write_socket pooled (s\<lparr>on_pool := p1, on_sock := pooled, on_reused := True\<rparr>))
           else s\<lparr>on_pool := pool_trackActive p1 host port tls, on_phase := Connecting\<rparr>)"

text \<open>The callback of \<open>tcpConnectNb\<close>, and of \<open>tlsConnectNb\<close>, which looks at the protocol that was negotiated.\<close>

definition connected_guards :: "int \<Rightarrow> int \<Rightarrow> one \<Rightarrow> one + one" where
  "connected_guards h errCode s0 =
     (let s = s0\<lparr>on_phase := Ended\<rparr>
      in if on_fired s then Inl (if errCode = 0 \<and> h \<noteq> 0 then close_socket h s else s)
         else let s1 = s\<lparr>on_sock := h\<rparr>
         in if errCode \<noteq> 0 \<or> h = 0
            then Inl (abortNow (ONetwork (if on_tls s then ''ERR_TLS_CERT_ALTNAME_INVALID'' else ''ECONNREFUSED'')) s1)
            else if on_signal s \<and> on_aborted s then Inl (abortNow OAborted s1)
            else Inr s1)"

definition connectedTCP :: "int \<Rightarrow> int \<Rightarrow> one \<Rightarrow> one" where
  "connectedTCP h errCode s =
     (case connected_guards h errCode s of Inl s1 \<Rightarrow> s1 | Inr s1 \<Rightarrow> startStream h (write_socket h s1))"

definition connectedTLS :: "int \<Rightarrow> int \<Rightarrow> jsstr \<Rightarrow> one \<Rightarrow> one" where
  "connectedTLS h errCode alpn s =
     (case connected_guards h errCode s of
        Inl s1 \<Rightarrow> s1
      | Inr s1 \<Rightarrow>
          if alpn = js ''h2'' then s1\<lparr>on_fired := True, on_listening := False, on_phase := OnHttp2 h\<rparr>
          else startStream h (write_socket h s1))"

definition server_closes :: "parsed_head \<Rightarrow> bool" where
  "server_closes hp =
     (case fh_get (ph_headers hp) (js ''connection'') of None \<Rightarrow> False | Some v \<Rightarrow> contains (js ''close'') (to_lower v))"

definition buildStreamingResponse :: "int \<Rightarrow> jsstr \<Rightarrow> one \<Rightarrow> one" where
  "buildStreamingResponse h headerStr s =
     (if headerStr = [] then call_done (Failed (ONetwork ''ECONNRESET'')) s
      else let hp = parseHTTPResponse headerStr
           in (call_done (Answered hp) s)\<lparr>on_phase := Streaming h (server_closes hp)\<rparr>)"

text \<open>The callback of the reader of the head: \<open>None\<close> when it gave up.\<close>

definition head_read :: "int \<Rightarrow> jsstr option \<Rightarrow> one \<Rightarrow> one" where
  "head_read h res s0 =
     (let s = s0\<lparr>on_phase := Ended\<rparr>
      in if on_fired s then close_socket h s
         else let s1 = s\<lparr>on_fired := True, on_listening := False\<rparr>
         in case res of
              None \<Rightarrow> call_done (Failed (ONetwork ''ECONNRESET'')) s1
            | Some headerStr \<Rightarrow> buildStreamingResponse h headerStr s1)"

text \<open>The callback of the body, with or without an error, and the end of an HTTP/2 exchange.\<close>

definition body_done :: "int \<Rightarrow> bool \<Rightarrow> one \<Rightarrow> one" where
  "body_done h serverClose s = give_back h serverClose (s\<lparr>on_phase := Ended\<rparr>)"

definition h2_finished :: "int \<Rightarrow> nat \<Rightarrow> jsstr \<Rightarrow> fheaders \<Rightarrow> one \<Rightarrow> one" where
  "h2_finished h respStatus respText hdrs s =
     call_done (H2Answer respStatus respText hdrs) (give_back h False (s\<lparr>on_phase := Ended\<rparr>))"

datatype one_event =
    EvAbort
  | EvConnected int int jsstr
  | EvHead "jsstr option"
  | EvBody bool
  | EvH2 nat jsstr fheaders

fun one_step :: "one \<Rightarrow> one_event \<Rightarrow> one" where
  "one_step s EvAbort =
     (if on_signal s \<and> \<not> on_aborted s
      then (if on_listening s then abortNow OAborted (s\<lparr>on_aborted := True\<rparr>) else s\<lparr>on_aborted := True\<rparr>)
      else s)"
| "one_step s (EvConnected h errCode alpn) =
     (if on_phase s = Connecting then (if on_tls s then connectedTLS h errCode alpn s else connectedTCP h errCode s) else s)"
| "one_step s (EvHead res) = (case on_phase s of ReadingHead h \<Rightarrow> head_read h res s | _ \<Rightarrow> s)"
| "one_step s (EvBody err) = (case on_phase s of Streaming h c \<Rightarrow> body_done h c s | _ \<Rightarrow> s)"
| "one_step s (EvH2 st text hdrs) = (case on_phase s of OnHttp2 h \<Rightarrow> h2_finished h st text hdrs s | _ \<Rightarrow> s)"

section \<open>The exchange over HTTP/2\<close>

text \<open>
  The header list of the request, and the events the native session hands out. The object that collects the
  headers of the response keeps the last value of a name. The session delivers a status of three digits.
\<close>

definition HOP_HEADERS :: "jsstr list" where
  "HOP_HEADERS = [js ''host'', js ''connection'', js ''transfer-encoding'', js ''keep-alive'', js ''upgrade'']"

definition h2_request :: "jsstr \<Rightarrow> nat \<Rightarrow> jsstr \<Rightarrow> jsstr \<Rightarrow> fheaders \<Rightarrow> (jsstr \<times> jsstr) list" where
  "h2_request hostname port h2Method h2Path hdrs =
     [(js '':method'', if h2Method = [] then js ''GET'' else h2Method), (js '':path'', if h2Path = [] then [47] else h2Path),
      (js '':scheme'', js ''https''),
      (js '':authority'', if port \<noteq> 443 then hostname @ [58] @ js (dec_string port) else hostname)]
     @ filter (\<lambda>e. fst e \<notin> set HOP_HEADERS) (fh_entries hdrs)"

datatype h2_event = H2Header nat jsstr jsstr | H2Data nat jsstr | H2Close nat | H2Frame nat nat

record h2_state =
  h2_status :: int
  h2_headers :: entries
  h2_chunks :: "jsstr list"
  h2_done :: bool

definition h2_start :: h2_state where
  "h2_start = \<lparr>h2_status = 200, h2_headers = [], h2_chunks = [], h2_done = False\<rparr>"

fun h2_drain :: "nat \<Rightarrow> h2_event list \<Rightarrow> h2_state \<Rightarrow> h2_state" where
  "h2_drain streamId [] s = s"
| "h2_drain streamId (ev # evs) s = h2_drain streamId evs
     (case ev of
        H2Header sid hname hval \<Rightarrow>
          (if sid = streamId
           then (if hname = js '':status''
                 then s\<lparr>h2_status := (case parseInt 10 hval of None \<Rightarrow> 200 | Some n \<Rightarrow> if n = 0 then 200 else n)\<rparr>
                 else s\<lparr>h2_headers := AList.update hname hval (h2_headers s)\<rparr>)
           else s)
      | H2Data sid chunk \<Rightarrow> (if sid = streamId then s\<lparr>h2_chunks := h2_chunks s @ [chunk]\<rparr> else s)
      | H2Close sid \<Rightarrow> (if sid = streamId then s\<lparr>h2_done := True\<rparr> else s)
      | H2Frame sid flags \<Rightarrow> (if sid = streamId \<and> odd flags then s\<lparr>h2_done := True\<rparr> else s))"

text \<open>What the end of the stream, or of the connection, hands to \<open>done\<close>: status, headers and text.\<close>

definition h2_answer :: "h2_state \<Rightarrow> fresponse result" where
  "h2_answer s =
     bind_result (headers_new (HObject (h2_headers s))) (\<lambda>h.
       response_new (BodyText (concat (h2_chunks s))) (Some (h2_status s)) [] (HHeaders h) [] False)"

section \<open>The answer is given once\<close>

definition one_inv :: "one \<Rightarrow> bool" where
  "one_inv s \<longleftrightarrow>
     (case on_phase s of
        Connecting \<Rightarrow> on_sock s = 0 \<and> \<not> on_reused s \<and> length (on_done s) = (if on_fired s then 1 else 0)
      | ReadingHead h \<Rightarrow> h \<noteq> 0 \<and> length (on_done s) = (if on_fired s then 1 else 0) \<and> (\<not> on_fired s \<longrightarrow> on_sock s = h)
      | Streaming h c \<Rightarrow> h \<noteq> 0 \<and> length (on_done s) = 1
      | OnHttp2 h \<Rightarrow> h \<noteq> 0 \<and> on_done s = [] \<and> on_fired s
      | Ended \<Rightarrow> length (on_done s) = 1) \<and>
     (on_listening s \<longleftrightarrow> on_signal s \<and> \<not> on_fired s \<and> on_done s = [])"

lemmas one_defs = abortNow_def call_done_def close_socket_def give_back_def write_socket_def startStream_def
  connected_guards_def connectedTCP_def connectedTLS_def buildStreamingResponse_def head_read_def body_done_def h2_finished_def Let_def

lemma fetchOne_inv: "one_inv (fetchOne tls sig aborted host port rawReq p)"
  by (auto simp: fetchOne_def new_one_def one_inv_def one_defs split: prod.split)

lemma one_step_inv: "one_inv s \<Longrightarrow> one_inv (one_step s e)"
proof (cases e)
  case EvAbort
  assume "one_inv s"
  then show ?thesis unfolding EvAbort by (auto simp: one_inv_def one_defs split: hop_phase.splits)
next
  case (EvConnected h err alpn)
  assume "one_inv s"
  then show ?thesis unfolding EvConnected by (cases "on_phase s"; cases "on_fired s") (simp_all add: one_inv_def one_defs)
next
  case (EvHead r)
  assume "one_inv s"
  then show ?thesis unfolding EvHead by (cases "on_phase s"; cases r) (simp_all add: one_inv_def one_defs)
next
  case (EvBody r)
  assume "one_inv s"
  then show ?thesis unfolding EvBody by (cases "on_phase s") (simp_all add: one_inv_def one_defs)
next
  case (EvH2 a b c)
  assume "one_inv s"
  then show ?thesis unfolding EvH2 by (cases "on_phase s") (simp_all add: one_inv_def one_defs)
qed

lemma one_run_inv: "one_inv s \<Longrightarrow> one_inv (foldl one_step s es)"
  by (induction es arbitrary: s) (simp_all add: one_step_inv)

text \<open>C16: Whatever order the callbacks come in, \<open>done\<close> is called at most once, and exactly once when none
is outstanding; then the abort listener is gone.\<close>

theorem hop_answers_once:
  "let s = foldl one_step (fetchOne tls sig aborted host port rawReq p) es
   in length (on_done s) \<le> 1 \<and> (on_phase s = Ended \<longrightarrow> length (on_done s) = 1) \<and> (on_done s \<noteq> [] \<longrightarrow> \<not> on_listening s)"
proof -
  define s where "s = foldl one_step (fetchOne tls sig aborted host port rawReq p) es"
  have "one_inv s" unfolding s_def by (rule one_run_inv [OF fetchOne_inv])
  then show ?thesis unfolding s_def [symmetric] Let_def by (auto simp: one_inv_def split: hop_phase.splits if_splits)
qed

text \<open>An abort while the connection or the head is outstanding is answered at once.\<close>

lemma abort_answers:
  assumes "one_inv s" "on_signal s" "\<not> on_aborted s" "on_phase s = Connecting \<or> (\<exists>h. on_phase s = ReadingHead h)"
  shows "length (on_done (one_step s EvAbort)) = 1"
  using assms by (cases "on_fired s") (auto simp: one_inv_def one_defs)

section \<open>The hop that waits for the whole response\<close>

text \<open>
  \<open>_fetchOneHTTPAsync\<close> and \<open>_fetchOneHTTPSAsync\<close> start and connect in the same way, without a look at the
  protocol; \<open>_finish\<close> takes the place of \<open>_abortNow\<close>, and their reader calls it with the text or with the reason
  of the abort (\<open>EvHead None\<close>).
\<close>

definition hop_finish :: "one_answer \<Rightarrow> one \<Rightarrow> one" where
  "hop_finish a s =
     (if on_fired s then s
      else let s1 = s\<lparr>on_fired := True, on_listening := False\<rparr>
      in case a of
           Text buf \<Rightarrow>
             call_done a (give_back (on_sock s1) (contains (js ''connection: close'') (to_lower buf)) (s1\<lparr>on_sock := 0\<rparr>))
         | _ \<Rightarrow>
             (let s2 = (if on_sock s1 \<noteq> 0 then (close_socket (on_sock s1) s1)\<lparr>on_sock := 0\<rparr> else s1);
                  s3 = (if on_reused s2 then give_back 0 True s2 else s2)
              in call_done a s3))"

definition whole_read :: "jsstr \<Rightarrow> bool \<Rightarrow> one \<Rightarrow> one" where
  "whole_read rawBuf abortErr s0 =
     (let s = s0\<lparr>on_phase := Ended\<rparr> in if abortErr then hop_finish (Failed OAborted) s else hop_finish (Text rawBuf) s)"

definition fetchOneWhole :: "bool \<Rightarrow> bool \<Rightarrow> bool \<Rightarrow> jsstr \<Rightarrow> nat \<Rightarrow> jsstr \<Rightarrow> pool \<Rightarrow> one" where
  "fetchOneWhole tls sig aborted host port rawReq p =
     (let s = new_one tls sig aborted host port rawReq p
      in if sig \<and> aborted then call_done (Failed OAborted) (s\<lparr>on_listening := False\<rparr>)
         else case pool_acquire p host port tls of (p1, pooled) \<Rightarrow>
           if pooled \<noteq> 0
           then (write_socket pooled (s\<lparr>on_pool := p1, on_sock := pooled, on_reused := True\<rparr>))\<lparr>on_phase := ReadingHead pooled\<rparr>
           else s\<lparr>on_pool := pool_trackActive p1 host port tls, on_phase := Connecting\<rparr>)"

definition whole_connected :: "int \<Rightarrow> int \<Rightarrow> one \<Rightarrow> one" where
  "whole_connected h errCode s0 =
     (let s = s0\<lparr>on_phase := Ended\<rparr>
      in if on_fired s then (if errCode = 0 \<and> h \<noteq> 0 then close_socket h s else s)
         else let s1 = s\<lparr>on_sock := h\<rparr>
         in if errCode \<noteq> 0 \<or> h = 0
            then hop_finish (Failed (ONetwork (if on_tls s then ''ERR_TLS_CERT_ALTNAME_INVALID'' else ''ECONNREFUSED''))) s1
            else if on_signal s \<and> on_aborted s then hop_finish (Failed OAborted) s1
            else (write_socket h s1)\<lparr>on_phase := ReadingHead h\<rparr>)"

fun whole_step :: "one \<Rightarrow> one_event \<Rightarrow> one" where
  "whole_step s EvAbort =
     (if on_signal s \<and> \<not> on_aborted s
      then (if on_listening s then hop_finish (Failed OAborted) (s\<lparr>on_aborted := True\<rparr>) else s\<lparr>on_aborted := True\<rparr>)
      else s)"
| "whole_step s (EvConnected h errCode alpn) = (if on_phase s = Connecting then whole_connected h errCode s else s)"
| "whole_step s (EvHead res) =
     (case on_phase s of
        ReadingHead h \<Rightarrow> (case res of None \<Rightarrow> whole_read [] True s | Some buf \<Rightarrow> whole_read buf False s)
      | _ \<Rightarrow> s)"
| "whole_step s e = s"

text \<open>The functions for TLS are those for plain sockets over \<open>tlsWrite\<close> and \<open>tlsClose\<close>.\<close>

definition fetchOneTLS :: "bool \<Rightarrow> bool \<Rightarrow> jsstr \<Rightarrow> nat \<Rightarrow> jsstr \<Rightarrow> pool \<Rightarrow> one" where
  "fetchOneTLS = fetchOne True"

definition fetchOneWholeTLS :: "bool \<Rightarrow> bool \<Rightarrow> jsstr \<Rightarrow> nat \<Rightarrow> jsstr \<Rightarrow> pool \<Rightarrow> one" where
  "fetchOneWholeTLS = fetchOneWhole True"

text \<open>Both functions do the same with an error; the guard of the answers is the same.\<close>

lemma finish_is_abort: "hop_finish (Failed e) s = abortNow e s"
  by (simp add: hop_finish_def abortNow_def)

lemma whole_connected_tcp: "whole_connected h err s = connectedTCP h err s"
  by (simp add: whole_connected_def connectedTCP_def connected_guards_def startStream_def finish_is_abort Let_def)

lemma whole_step_inv: "one_inv s \<Longrightarrow> one_inv (whole_step s e)"
proof (cases e)
  case EvAbort
  assume "one_inv s"
  then show ?thesis using one_step_inv [of s EvAbort] unfolding EvAbort by (auto simp: finish_is_abort split: if_splits)
next
  case (EvConnected h err alpn)
  assume "one_inv s"
  then show ?thesis
    unfolding EvConnected by (cases "on_phase s"; cases "on_fired s") (simp_all add: whole_connected_tcp one_inv_def one_defs)
next
  case (EvHead r)
  assume "one_inv s"
  then show ?thesis
    unfolding EvHead
    by (cases "on_phase s"; cases r) (simp_all add: whole_read_def hop_finish_def one_inv_def one_defs)
qed simp_all

lemma whole_answers_once:
  fixes tls sig aborted host port rawReq p es
  defines "s \<equiv> foldl whole_step (fetchOneWhole tls sig aborted host port rawReq p) es"
  shows "length (on_done s) \<le> 1 \<and> (on_phase s = Ended \<longrightarrow> length (on_done s) = 1)"
proof -
  have "fetchOneWhole tls sig aborted host port rawReq p = fetchOne tls sig aborted host port rawReq p"
    by (simp add: fetchOneWhole_def fetchOne_def startStream_def Let_def split: prod.split)
  then have "one_inv (fetchOneWhole tls sig aborted host port rawReq p)" by (simp add: fetchOne_inv)
  then have "one_inv s" unfolding s_def by (induction es rule: rev_induct) (simp_all add: whole_step_inv)
  then show ?thesis by (auto simp: one_inv_def split: hop_phase.splits if_splits)
qed

section \<open>No socket is lost, but for three cases\<close>

text \<open>The socket the hop holds, and all that are accounted for.\<close>

definition hop_holds :: "one \<Rightarrow> (bool \<times> int) multiset" where
  "hop_holds s =
     (case on_phase s of
        ReadingHead h \<Rightarrow> if on_fired s then {#} else {#(on_tls s, h)#}
      | Streaming h c \<Rightarrow> {#(on_tls s, h)#}
      | OnHttp2 h \<Rightarrow> {#(on_tls s, h)#}
      | _ \<Rightarrow> {#})"

definition accounted :: "pool \<Rightarrow> (bool \<times> int) multiset" where
  "accounted p = image_mset socket_of (mset (parked p)) + mset (pl_closed p)"

definition ledger :: "one \<Rightarrow> (bool \<times> int) multiset" where
  "ledger s = hop_holds s + accounted (on_pool s)"

lemma accounted_close: "accounted (p\<lparr>pl_closed := pl_closed p @ [x]\<rparr>) = accounted p + {#x#}"
  by (simp add: accounted_def)

lemma accounted_release:
  assumes "pool_wf p" "58 \<notin> set host" "h \<noteq> 0"
  shows "accounted (pool_release p host port tls h c) = accounted p + {#(tls, h)#}" "pool_wf (pool_release p host port tls h c)"
proof -
  from release_effect [OF assms(1) refl, of host port tls h c] assms(3)
  consider "mset (parked (pool_release p host port tls h c)) = mset (parked p)" "pl_closed (pool_release p host port tls h c) = pl_closed p @ [(tls, h)]"
    | "pl_closed (pool_release p host port tls h c) = pl_closed p"
      "mset (parked (pool_release p host port tls h c)) = mset (parked p) + {#(pool_key host port tls, \<lparr>pe_id = pl_next p, pe_handle = h\<rparr>)#}"
    by auto
  then show "accounted (pool_release p host port tls h c) = accounted p + {#(tls, h)#}"
    by cases (simp_all add: accounted_def socket_of_def key_tls_key assms(2))
  show "pool_wf (pool_release p host port tls h c)" using release_effect [OF assms(1) refl] by blast
qed

lemma accounted_release0:
  assumes "pool_wf p"
  shows "accounted (pool_release p host port tls 0 c) = accounted p" "pool_wf (pool_release p host port tls 0 c)"
  using release_effect [OF assms(1) refl, of host port tls 0 c] by (auto simp: accounted_def)

definition handles_ok :: "pool \<Rightarrow> bool" where
  "handles_ok p \<longleftrightarrow> pool_wf p \<and> (\<forall>t \<in> set (parked p). pe_handle (snd t) \<noteq> 0)"

lemma accounted_acquire:
  assumes "handles_ok p" "58 \<notin> set host" "pool_acquire p host port tls = (p', h)"
  shows "accounted p = accounted p' + (if h = 0 then {#} else {#(tls, h)#})" "pool_wf p'"
proof -
  have wf: "pool_wf p" and z: "\<And>t. t \<in># mset (parked p) \<Longrightarrow> pe_handle (snd t) \<noteq> 0" using assms(1) by (auto simp: handles_ok_def)
  from acquire_effect [OF wf assms(3)] show "pool_wf p'" by blast
  from acquire_effect [OF wf assms(3)] consider "p' = p" "h = 0"
    | e where "pl_closed p' = pl_closed p" "h = pe_handle e" "mset (parked p) = mset (parked p') + {#(pool_key host port tls, e)#}"
    by blast
  then show "accounted p = accounted p' + (if h = 0 then {#} else {#(tls, h)#})"
  proof cases
    case 2
    then show ?thesis using z [of "(pool_key host port tls, e)"] by (simp add: accounted_def socket_of_def key_tls_key assms(2))
  qed simp
qed

text \<open>
  A socket that connects is one more. The cases in which the code does not keep the accounts are left out: the
  head that ends too early, and the callback of the reader after an abort. A connection that failed has no handle.
\<close>

fun opened_by :: "one \<Rightarrow> one_event \<Rightarrow> (bool \<times> int) multiset" where
  "opened_by s (EvConnected h err alpn) = (if on_phase s = Connecting \<and> h \<noteq> 0 then {#(on_tls s, h)#} else {#})"
| "opened_by s e = {#}"

fun regular :: "one \<Rightarrow> one_event \<Rightarrow> bool" where
  "regular s (EvHead r) \<longleftrightarrow> \<not> on_fired s \<and> r \<noteq> None \<and> r \<noteq> Some []"
| "regular s (EvConnected h err alpn) \<longleftrightarrow> (h = 0 \<longleftrightarrow> err \<noteq> 0)"
| "regular s e \<longleftrightarrow> True"

fun regular_run :: "one \<Rightarrow> one_event list \<Rightarrow> bool" where
  "regular_run s [] \<longleftrightarrow> True"
| "regular_run s (e # es) \<longleftrightarrow> regular s e \<and> regular_run (one_step s e) es"

fun opened_run :: "one \<Rightarrow> one_event list \<Rightarrow> (bool \<times> int) multiset" where
  "opened_run s [] = {#}"
| "opened_run s (e # es) = opened_by s e + opened_run (one_step s e) es"

definition hop_ok :: "one \<Rightarrow> bool" where
  "hop_ok s \<longleftrightarrow> one_inv s \<and> pool_wf (on_pool s) \<and> 58 \<notin> set (on_host s)"

lemma accounted_closed_log: "accounted (p\<lparr>pl_closed := l\<rparr>) + mset (pl_closed p) = accounted p + mset l"
  by (simp add: accounted_def)

lemma wf_closed_log [simp]: "pool_wf (p\<lparr>pl_closed := l\<rparr>) = pool_wf p"
  by (rule pool_wf_cong) simp_all

text \<open>An abort that is answered: the socket that is held is closed, and the pool is told.\<close>

lemma abortNow_keeps:
  assumes "hop_ok s" "\<not> on_fired s"
  shows "accounted (on_pool (abortNow err s)) = accounted (on_pool s) + (if on_sock s = 0 then {#} else {#(on_tls s, on_sock s)#})"
    and "pool_wf (on_pool (abortNow err s))" "on_host (abortNow err s) = on_host s" "on_tls (abortNow err s) = on_tls s"
    and "on_phase (abortNow err s) = on_phase s" "on_fired (abortNow err s)"
  using assms
  by (simp_all add: abortNow_def Let_def call_done_def close_socket_def give_back_def accounted_release0 accounted_close hop_ok_def)

lemma abort_ledger:
  assumes "hop_ok s"
  shows "ledger (one_step s EvAbort) = ledger s" "pool_wf (on_pool (one_step s EvAbort))" "on_host (one_step s EvAbort) = on_host s"
proof -
  let ?s = "s\<lparr>on_aborted := True\<rparr>"
  have ok: "hop_ok ?s" using assms by (simp add: hop_ok_def one_inv_def cong: hop_phase.case_cong)
  have "ledger (one_step s EvAbort) = ledger s \<and> pool_wf (on_pool (one_step s EvAbort)) \<and> on_host (one_step s EvAbort) = on_host s"
  proof (cases "on_signal s \<and> \<not> on_aborted s \<and> on_listening s")
    case True
    then have nf: "\<not> on_fired s" "on_done s = []" using assms by (auto simp: hop_ok_def one_inv_def)
    note k = abortNow_keeps [OF ok, simplified, OF nf(1), of OAborted]
    have "hop_holds s = (if on_sock s = 0 then {#} else {#(on_tls s, on_sock s)#})"
      using assms nf by (auto simp: hop_ok_def one_inv_def hop_holds_def split: hop_phase.splits)
    moreover have "hop_holds (abortNow OAborted ?s) = {#}"
      using assms nf k(5,6) by (auto simp: hop_ok_def one_inv_def hop_holds_def split: hop_phase.splits)
    ultimately show ?thesis using True k by (simp add: ledger_def)
  next
    case False
    have h: "hop_holds ?s = hop_holds s" by (cases "on_phase s") (simp_all add: hop_holds_def)
    show ?thesis using False assms h by (auto simp: hop_ok_def ledger_def)
  qed
  then show "ledger (one_step s EvAbort) = ledger s" "pool_wf (on_pool (one_step s EvAbort))" "on_host (one_step s EvAbort) = on_host s" by auto
qed

lemma connected_ledger:
  assumes ok: "hop_ok s" and c: "on_phase s = Connecting" and r: "h = 0 \<longleftrightarrow> err \<noteq> 0"
  shows "ledger (one_step s (EvConnected h err alpn)) = ledger s + (if h = 0 then {#} else {#(on_tls s, h)#}) \<and>
    pool_wf (on_pool (one_step s (EvConnected h err alpn))) \<and> on_host (one_step s (EvConnected h err alpn)) = on_host s"
proof -
  have wf: "pool_wf (on_pool s)" using ok by (simp add: hop_ok_def)
  define s1 where "s1 = s\<lparr>on_phase := Ended, on_sock := h\<rparr>"
  have l: "ledger s = accounted (on_pool s)" using c by (simp add: ledger_def hop_holds_def)
  show ?thesis
  proof (cases "on_fired s")
    case True
    then show ?thesis
      using c r wf l by (auto simp: connectedTCP_def connectedTLS_def connected_guards_def Let_def close_socket_def ledger_def hop_holds_def accounted_close)
  next
    case False
    have dn: "on_done s = []" using ok c False by (simp add: hop_ok_def one_inv_def)
    have keep: "accounted (on_pool (abortNow e s1)) = accounted (on_pool s) + (if h = 0 then {#} else {#(on_tls s, h)#}) \<and>
        pool_wf (on_pool (abortNow e s1)) \<and> on_host (abortNow e s1) = on_host s \<and> on_phase (abortNow e s1) = Ended" for e
      using False wf ok c
      by (simp add: s1_def abortNow_def Let_def call_done_def close_socket_def give_back_def accounted_release0 accounted_close hop_ok_def one_inv_def)
    have al: "ledger (abortNow e s1) = ledger s + (if h = 0 then {#} else {#(on_tls s, h)#})" for e
      using keep [of e] l by (simp add: ledger_def hop_holds_def)
    consider "h = 0" | "h \<noteq> 0" "on_signal s" "on_aborted s" | "h \<noteq> 0" "\<not> (on_signal s \<and> on_aborted s)" by blast
    then show ?thesis
    proof cases
      case 1
      then have "one_step s (EvConnected h err alpn) = abortNow (ONetwork (if on_tls s then ''ERR_TLS_CERT_ALTNAME_INVALID'' else ''ECONNREFUSED'')) s1"
        using c False by (auto simp: connectedTCP_def connectedTLS_def connected_guards_def Let_def s1_def)
      then show ?thesis using al keep by simp
    next
      case 2
      then have "one_step s (EvConnected h err alpn) = abortNow OAborted s1"
        using c r False by (auto simp: connectedTCP_def connectedTLS_def connected_guards_def Let_def s1_def)
      then show ?thesis using al keep by simp
    next
      case 3
      then show ?thesis
        using c r False wf l
        by (auto simp: connectedTCP_def connectedTLS_def connected_guards_def Let_def startStream_def write_socket_def ledger_def hop_holds_def)
    qed
  qed
qed

lemma step_ledger:
  assumes ok: "hop_ok s" and r: "regular s e"
  shows "ledger (one_step s e) = ledger s + opened_by s e \<and> hop_ok (one_step s e)"
proof -
  have inv: "one_inv (one_step s e)" using ok one_step_inv by (simp add: hop_ok_def)
  have wf: "pool_wf (on_pool s)" "58 \<notin> set (on_host s)" using ok by (simp_all add: hop_ok_def)
  have "ledger (one_step s e) = ledger s + opened_by s e \<and> pool_wf (on_pool (one_step s e)) \<and> on_host (one_step s e) = on_host s"
  proof (cases e)
    case EvAbort
    then show ?thesis using abort_ledger [OF ok] by simp
  next
    case (EvConnected h err alpn)
    show ?thesis
    proof (cases "on_phase s = Connecting")
      case True
      then show ?thesis unfolding EvConnected using connected_ledger [OF ok True, of h err alpn] r EvConnected by simp
    next
      case False
      then show ?thesis unfolding EvConnected using wf by simp
    qed
  next
    case (EvHead res)
    then obtain hd0 where "res = Some hd0" "hd0 \<noteq> []" "\<not> on_fired s" using r by (cases res) auto
    then show ?thesis
      unfolding EvHead using wf
      by (cases "on_phase s") (simp_all add: head_read_def Let_def buildStreamingResponse_def call_done_def ledger_def hop_holds_def)
  next
    case (EvBody err)
    show ?thesis
    proof (cases "on_phase s")
      case (Streaming h c)
      then have "h \<noteq> 0" using ok by (simp add: hop_ok_def one_inv_def)
      then show ?thesis
        unfolding EvBody using Streaming wf accounted_release [OF wf \<open>h \<noteq> 0\<close>, of "on_port s" "on_tls s" c]
        by (simp add: body_done_def give_back_def ledger_def hop_holds_def)
    qed (simp_all add: EvBody wf)
  next
    case (EvH2 a b c)
    show ?thesis
    proof (cases "on_phase s")
      case (OnHttp2 h)
      then have "h \<noteq> 0" using ok by (simp add: hop_ok_def one_inv_def)
      then show ?thesis
        unfolding EvH2 using OnHttp2 wf accounted_release [OF wf \<open>h \<noteq> 0\<close>, of "on_port s" "on_tls s" False]
        by (simp add: h2_finished_def call_done_def give_back_def ledger_def hop_holds_def)
    qed (simp_all add: EvH2 wf)
  qed
  then show ?thesis using inv wf by (simp add: hop_ok_def)
qed

lemma run_ledger:
  "hop_ok s \<Longrightarrow> regular_run s es \<Longrightarrow> ledger (foldl one_step s es) = ledger s + opened_run s es"
proof (induction es arbitrary: s)
  case (Cons e es)
  then show ?case using step_ledger [of s e] by (simp add: add_ac)
qed simp

lemma fetchOne_ledger:
  assumes "handles_ok p" "58 \<notin> set host"
  shows "hop_ok (fetchOne tls sig aborted host port rawReq p)" "ledger (fetchOne tls sig aborted host port rawReq p) = accounted p"
proof -
  have wf: "pool_wf p" using assms(1) by (simp add: handles_ok_def)
  obtain p1 h where a: "pool_acquire p host port tls = (p1, h)" by fastforce
  note acc = accounted_acquire [OF assms a]
  have tr: "accounted (pool_trackActive p1 host port tls) = accounted p1" "pool_wf (pool_trackActive p1 host port tls)"
    using acc(2) by (simp_all add: pool_trackActive_def accounted_def cong: pool_wf_cong)
  have h: "on_host (fetchOne tls sig aborted host port rawReq p) = host" "pool_wf (on_pool (fetchOne tls sig aborted host port rawReq p))"
    using wf acc tr a by (auto simp: fetchOne_def new_one_def one_defs)
  show "hop_ok (fetchOne tls sig aborted host port rawReq p)" unfolding hop_ok_def using h fetchOne_inv assms(2) by simp
  show "ledger (fetchOne tls sig aborted host port rawReq p) = accounted p"
    using acc tr a by (auto simp: fetchOne_def new_one_def one_defs ledger_def hop_holds_def)
qed

text \<open>C15: Along every run of callbacks in which the head of the response arrives whole and before an abort,
each socket that was parked or is opened is held by the hop, parked, or closed, and only once.\<close>

theorem hop_keeps_sockets:
  assumes "handles_ok p" "58 \<notin> set host" "regular_run (fetchOne tls sig aborted host port rawReq p) es"
  shows "let s = foldl one_step (fetchOne tls sig aborted host port rawReq p) es
    in hop_holds s + accounted (on_pool s) = accounted p + opened_run (fetchOne tls sig aborted host port rawReq p) es"
  using run_ledger [OF fetchOne_ledger(1) [OF assms(1,2)] assms(3)] fetchOne_ledger(2) [OF assms(1,2)]
  unfolding ledger_def Let_def by simp

text \<open>
  The cases that are left out. A connection that ends before the head is complete is neither closed nor counted
  down. A reader that is answered after an abort closes the socket again. An abort in the body gives the socket
  back with the rest of the body unread. An HTTP/2 exchange does not see an abort, and its socket goes to the
  pool as one like any other, so that the next hop writes HTTP/1.1 text to it.
\<close>

abbreviation started :: "bool \<Rightarrow> one" where
  "started tls \<equiv> fetchOne tls True False [104] 80 [71, 69, 84] (pool_new None None None None)"

lemmas one_eval = pool_new_def fetchOne_def new_one_def one_defs pool_acquire_def pool_release_def pool_trackActive_def
  count_active_def uncount_active_def free_of_def active_of_def closeHandle_def or_default_def ledger_def hop_holds_def accounted_def

lemma hop_answers_once_witness:
  "length (on_done (foldl one_step (started False) [EvConnected 5 0 [], EvAbort])) = 1 \<and>
   \<not> on_listening (foldl one_step (started False) [EvConnected 5 0 [], EvAbort])"
proof -
  have "on_done (foldl one_step (started False) [EvConnected 5 0 [], EvAbort]) \<noteq> []" by (simp add: one_eval)
  then show ?thesis
    using hop_answers_once [of False True False "[104]" 80 "[71, 69, 84]" "pool_new None None None None" "[EvConnected 5 0 [], EvAbort]"]
    unfolding Let_def by (cases "on_done (foldl one_step (started False) [EvConnected 5 0 [], EvAbort])") simp_all
qed

lemma hop_keeps_sockets_witness:
  "hop_holds (foldl one_step (started False) [EvConnected 5 0 [], EvBody False])
   + accounted (on_pool (foldl one_step (started False) [EvConnected 5 0 [], EvBody False])) = {#(False, 5)#}"
proof -
  have p: "handles_ok (pool_new None None None None)" using pool_new_wf by (simp add: handles_ok_def) (simp add: pool_new_def)
  have s: "on_phase (started False) = Connecting" "on_tls (started False) = False" "accounted (pool_new None None None None) = {#}"
    by (simp_all add: one_eval)
  have "(58 :: nat) \<notin> set [104]" "regular_run (started False) [EvConnected 5 0 [], EvBody False]"
    "opened_run (started False) [EvConnected 5 0 [], EvBody False] = {#(False, 5)#}"
    by (simp_all add: s(1,2) split: hop_phase.split)
  with hop_keeps_sockets [OF p this(1,2)] s(3) show ?thesis by (simp only: empty_neutral Let_def)
qed

lemma eof_leaks:
  "ledger (foldl one_step (started False) [EvConnected 5 0 [], EvHead None]) = {#}"
  "pl_totalActive (on_pool (foldl one_step (started False) [EvConnected 5 0 [], EvHead None])) = 1"
  by (simp_all add: one_eval)

lemma abort_closes_twice:
  "pl_closed (on_pool (foldl one_step (started False) [EvConnected 5 0 [], EvAbort, EvHead None])) = [(False, 5), (False, 5)]"
  by (simp add: one_eval)

lemma h2_ignores_abort:
  "on_done (foldl one_step (started True) [EvConnected 5 0 (js ''h2''), EvAbort]) = []"
  by (simp add: one_eval)

lemma aborted_body_parked:
  "parked (on_pool (foldl one_step (started False)
      [EvConnected 5 0 [], EvHead (Some (head_text (status_line 200 (js ''OK'')) [])), EvAbort, EvBody True]))
   = [(pool_key [104] 80 False, \<lparr>pe_id = 0, pe_handle = 5\<rparr>)]"
proof -
  define h where "h = head_text (status_line 200 (js ''OK'')) []"
  have n: "h \<noteq> []" by (simp add: h_def head_text_def CRLF_def)
  have "ph_headers (parseHTTPResponse h) = no_headers"
    using parse_head_text [of "js ''OK''" "[]" 200 "[]"] by (simp add: h_def received_def no_headers_def)
  then have c: "\<not> server_closes (parseHTTPResponse h)" by (simp add: server_closes_def fh_get_def no_headers_def)
  show ?thesis unfolding h_def [symmetric] by (simp add: one_eval n c)
qed

lemma h2_socket_reused:
  "on_writes (fetchOne True False False [104] 80 rawReq
      (on_pool (foldl one_step (started True) [EvConnected 5 0 (js ''h2''), EvH2 200 [] no_headers]))) = [(5, rawReq)]"
  by (simp add: one_eval pool_key_def clear_timer_def put_free_def)

text \<open>A repeated header keeps its last value, and a connection that ends before any header came is a success.\<close>

lemma h2_header_lost:
  "h2_headers (h2_drain 1 [H2Header 1 (js ''set-cookie'') [97], H2Header 1 (js ''set-cookie'') [98]] h2_start) = [(js ''set-cookie'', [98])]"
  by (simp add: h2_start_def)

lemma h2_empty_success: "map_option re_status (case h2_answer h2_start of Inr r \<Rightarrow> Some r | Inl _ \<Rightarrow> None) = Some (Some 200)"
  by (simp add: h2_answer_def h2_start_def response_new_def bind_result_def)

end
