(* ===== verification/FetchForms.thy ===== *)
theory FetchForms
  imports FetchHttp
begin

text \<open>
  \<open>Blob\<close> and \<open>FormData\<close> of \<open>fetch.js\<close>, and the two encodings of forms. The data of a blob is a string with one
  unit for each byte; text that it is made of is not encoded. The boundary of a multipart body is random; the
  random numbers are an argument.
\<close>

section \<open>Blobs\<close>

record blob =
  bl_data :: jsstr
  bl_type :: jsstr

datatype blob_part = PBlob blob | PText jsstr | PBytes bytes | POther

fun part_data :: "blob_part \<Rightarrow> jsstr" where
  "part_data (PBlob b) = bl_data b"
| "part_data (PText t) = t"
| "part_data (PBytes bs) = bs"
| "part_data POther = []"

definition blob_type :: "jsstr \<Rightarrow> jsstr" where
  "blob_type t = (let low = to_lower t in if list_all (\<lambda>c. 0x20 \<le> c \<and> c \<le> 0x7e) low then low else [])"

definition blob_new :: "blob_part list \<Rightarrow> jsstr \<Rightarrow> blob" where
  "blob_new parts t = \<lparr>bl_data = concat (map part_data parts), bl_type = blob_type t\<rparr>"

definition blob_size :: "blob \<Rightarrow> nat" where
  "blob_size b = length (bl_data b)"

text \<open>\<open>bytes\<close> and \<open>arrayBuffer\<close>.\<close>

definition blob_bytes :: "blob \<Rightarrow> bytes" where
  "blob_bytes b = map (\<lambda>c. c AND 0xff) (bl_data b)"

definition blob_clamp :: "int \<Rightarrow> int \<Rightarrow> int" where
  "blob_clamp len i = (if i < 0 then max (len + i) 0 else min i len)"

definition blob_slice :: "blob \<Rightarrow> int option \<Rightarrow> int option \<Rightarrow> jsstr option \<Rightarrow> blob" where
  "blob_slice b st en contentType =
     (let len = int (blob_size b);
          s = (case st of None \<Rightarrow> 0 | Some i \<Rightarrow> blob_clamp len i);
          e0 = (case en of None \<Rightarrow> len | Some i \<Rightarrow> blob_clamp len i);
          e = (if e0 < s then s else e0)
      in blob_new [PText (substring (bl_data b) s e)] (case contentType of Some t \<Rightarrow> t | None \<Rightarrow> bl_type b))"

definition blob_stream :: "blob \<Rightarrow> jsstr stream" where
  "blob_stream b = stream_new [SEnqueue (bl_data b), SClose] None"

section \<open>Forms\<close>

datatype form_value = FText jsstr | FBlob blob

record form_entry =
  fe_name :: jsstr
  fe_value :: form_value
  fe_filename :: "jsstr option"

type_synonym form = "form_entry list"

definition fd_append :: "form \<Rightarrow> jsstr \<Rightarrow> form_value \<Rightarrow> jsstr option \<Rightarrow> form" where
  "fd_append fd name v filename =
     fd @ [case v of
       FBlob b \<Rightarrow> \<lparr>fe_name = name, fe_value = v, fe_filename = Some (case filename of Some f \<Rightarrow> f | None \<Rightarrow> js ''blob'')\<rparr>
     | FText t \<Rightarrow> \<lparr>fe_name = name, fe_value = v, fe_filename = None\<rparr>]"

text \<open>The loops of \<open>set\<close> and \<open>delete\<close> splice the entries out one by one.\<close>

function fd_splice :: "nat \<Rightarrow> jsstr \<Rightarrow> form \<Rightarrow> form" where
  "fd_splice i name fd =
     (if i < length fd
      then (if fe_name (fd ! i) = name then fd_splice i name (take i fd @ drop (i + 1) fd) else fd_splice (i + 1) name fd)
      else fd)"
  by pat_completeness auto
termination by (relation "measure (\<lambda>(i, name, fd). length fd - i)") auto

declare fd_splice.simps [simp del]

definition fd_set :: "form \<Rightarrow> jsstr \<Rightarrow> form_value \<Rightarrow> jsstr option \<Rightarrow> form" where
  "fd_set fd name v filename = fd_append (fd_splice 0 name fd) name v filename"

definition fd_delete :: "form \<Rightarrow> jsstr \<Rightarrow> form" where
  "fd_delete fd name = fd_splice 0 name fd"

fun fd_get :: "form \<Rightarrow> jsstr \<Rightarrow> form_value option" where
  "fd_get [] name = None"
| "fd_get (e # fd) name = (if fe_name e = name then Some (fe_value e) else fd_get fd name)"

fun fd_getAll :: "form \<Rightarrow> jsstr \<Rightarrow> form_value list" where
  "fd_getAll [] name = []"
| "fd_getAll (e # fd) name = (if fe_name e = name then fe_value e # fd_getAll fd name else fd_getAll fd name)"

fun fd_has :: "form \<Rightarrow> jsstr \<Rightarrow> bool" where
  "fd_has [] name \<longleftrightarrow> False"
| "fd_has (e # fd) name \<longleftrightarrow> fe_name e = name \<or> fd_has fd name"

definition fd_entries :: "form \<Rightarrow> (jsstr \<times> form_value) list" where
  "fd_entries fd = map (\<lambda>e. (fe_name e, fe_value e)) fd"

definition fd_keys :: "form \<Rightarrow> jsstr list" where
  "fd_keys fd = map fe_name fd"

definition fd_values :: "form \<Rightarrow> form_value list" where
  "fd_values fd = map fe_value fd"

text \<open>The calls of the callback of \<open>forEach\<close>, and the iterator over \<open>entries\<close> with its index.\<close>

definition fd_forEach :: "form \<Rightarrow> (form_value \<times> jsstr) list" where
  "fd_forEach fd = map (\<lambda>e. (fe_value e, fe_name e)) fd"

definition fd_next :: "(jsstr \<times> form_value) list \<Rightarrow> nat \<Rightarrow> nat \<times> (jsstr \<times> form_value) option" where
  "fd_next arr idx = (if length arr \<le> idx then (idx, None) else (idx + 1, Some (arr ! idx)))"

section \<open>Encoding\<close>

definition BOUNDARY_CHARS :: jsstr where
  "BOUNDARY_CHARS = js ''ABCDEFGHIJKLMNOPQRSTUVWXYZabcdefghijklmnopqrstuvwxyz0123456789''"

definition randomBoundary :: "nat list \<Rightarrow> jsstr" where
  "randomBoundary rs = js ''----FormBoundary'' @ map (\<lambda>r. BOUNDARY_CHARS ! (r mod 62)) (take 16 rs)"

definition disposition :: "jsstr \<Rightarrow> jsstr" where
  "disposition name = js ''Content-Disposition: form-data; name='' @ [34] @ name @ [34]"

definition file_disposition :: "jsstr \<Rightarrow> jsstr \<Rightarrow> jsstr" where
  "file_disposition name fn = disposition name @ js ''; filename='' @ [34] @ fn @ [34]"

definition multipart_entry :: "form_entry \<Rightarrow> jsstr" where
  "multipart_entry e =
     (case fe_value e of
        FBlob b \<Rightarrow>
          file_disposition (fe_name e) (case fe_filename e of Some f \<Rightarrow> f | None \<Rightarrow> js ''blob'') @ CRLF @
          js ''Content-Type: '' @ (if bl_type b = [] then OCTET_STREAM else bl_type b) @ CRLF @ CRLF @
          bl_data b @ CRLF
      | FText t \<Rightarrow> disposition (fe_name e) @ CRLF @ CRLF @ t @ CRLF)"

fun multipart_body :: "jsstr \<Rightarrow> form \<Rightarrow> jsstr" where
  "multipart_body boundary [] = js ''--'' @ boundary @ js ''--'' @ CRLF"
| "multipart_body boundary (e # fd) = js ''--'' @ boundary @ CRLF @ multipart_entry e @ multipart_body boundary fd"

definition encodeMultipart :: "nat list \<Rightarrow> form \<Rightarrow> jsstr \<times> jsstr" where
  "encodeMultipart rs fd =
     (let boundary = randomBoundary rs
      in (multipart_body boundary fd, js ''multipart/form-data; boundary='' @ boundary))"

section \<open>Parsing\<close>

text \<open>The expressions \<open>/boundary=([^\s;]+)/\<close> and \<open>/key="([^"]*)"/\<close>: the leftmost match, and what the group holds.\<close>

fun find_boundary :: "jsstr \<Rightarrow> jsstr option" where
  "find_boundary [] = None"
| "find_boundary (c # s) =
     (let b = takeWhile (\<lambda>x. \<not> is_white x \<and> x \<noteq> 59) (drop 9 (c # s))
      in if starts_with (c # s) (js ''boundary='') \<and> b \<noteq> [] then Some b else find_boundary s)"

fun find_quoted :: "jsstr \<Rightarrow> jsstr \<Rightarrow> jsstr option" where
  "find_quoted key [] = None"
| "find_quoted key (c # s) =
     (let r = drop (length key + 1) (c # s)
      in if starts_with (c # s) (key @ [34]) \<and> 34 \<in> set r then Some (takeWhile (\<lambda>x. x \<noteq> 34) r) else find_quoted key s)"

definition begins_low :: "jsstr \<Rightarrow> jsstr \<Rightarrow> bool" where
  "begins_low word line \<longleftrightarrow> index_of_str word (to_lower line) = Some 0"

text \<open>The last line of the headers that begins with a word, or the empty string.\<close>

fun header_named :: "jsstr \<Rightarrow> jsstr list \<Rightarrow> jsstr \<Rightarrow> jsstr" where
  "header_named word [] found = found"
| "header_named word (l # ls) found = header_named word ls (if begins_low word l then l else found)"

definition parse_part :: "jsstr \<Rightarrow> form \<Rightarrow> form" where
  "parse_part part0 fd =
     (let part = (if index_of_str CRLF part0 = Some 0 then drop 2 part0 else part0)
      in case index_of_str (CRLF @ CRLF) part of
           None \<Rightarrow> fd
         | Some headerEnd \<Rightarrow>
             (let headers = split_str CRLF (take headerEnd part);
                  valueRaw = drop (headerEnd + 4) part;
                  v = (if ends_with valueRaw CRLF then take (length valueRaw - 2) valueRaw else valueRaw);
                  cdLine = header_named (js ''content-disposition:'') headers []
              in case find_quoted (js ''name='') cdLine of
                   None \<Rightarrow> fd
                 | Some fieldName \<Rightarrow>
                     (case find_quoted (js ''filename='') cdLine of
                        None \<Rightarrow> fd_append fd fieldName (FText v) None
                      | Some fn \<Rightarrow>
                          (let ctLine = header_named (js ''content-type:'') headers [];
                               partCT = (if ctLine = [] then OCTET_STREAM else trim (split1 58 ctLine ! 1))
                           in fd_append fd fieldName (FBlob (blob_new [PText v] partCT)) (Some fn)))))"

definition parse_multipart :: "jsstr \<Rightarrow> jsstr \<Rightarrow> form" where
  "parse_multipart bodyText contentType =
     (case find_boundary contentType of
        None \<Rightarrow> []
      | Some b \<Rightarrow>
          (let boundary = (if hd b = 34 then take (length b - 2) (drop 1 b) else b);
               parts = split_str (js ''--'' @ boundary) bodyText
           in fold parse_part (butlast (tl parts)) []))"

text \<open>A pair of the other encoding; a malformed escape throws.\<close>

definition plus_space :: "jsstr \<Rightarrow> jsstr" where
  "plus_space s = map (\<lambda>c. if c = 43 then 32 else c) s"

definition parse_urlencoded_pair :: "jsstr \<Rightarrow> form \<Rightarrow> form result" where
  "parse_urlencoded_pair pair fd =
     (if pair = [] then Inr fd
      else case index_of 61 pair of
        None \<Rightarrow> bind_result (decodeURIComponent (plus_space pair)) (\<lambda>k. Inr (fd_append fd k (FText []) None))
      | Some eq \<Rightarrow>
          bind_result (decodeURIComponent (plus_space (take eq pair))) (\<lambda>k.
            bind_result (decodeURIComponent (plus_space (drop (eq + 1) pair))) (\<lambda>v.
              Inr (fd_append fd k (FText v) None))))"

fun parse_urlencoded :: "jsstr list \<Rightarrow> form \<Rightarrow> form result" where
  "parse_urlencoded [] fd = Inr fd"
| "parse_urlencoded (p # ps) fd = bind_result (parse_urlencoded_pair p fd) (parse_urlencoded ps)"

definition parseFormData :: "jsstr \<Rightarrow> jsstr \<Rightarrow> form result" where
  "parseFormData bodyText contentType =
     (if contains (js ''application/x-www-form-urlencoded'') contentType
      then parse_urlencoded (split1 38 bodyText) []
      else Inr (parse_multipart bodyText contentType))"

section \<open>Blobs and their parts\<close>

lemma blob_type_idem [simp]: "blob_type (blob_type t) = blob_type t"
  by (auto simp: blob_type_def Let_def)

lemma blob_slice_parts:
  "a \<le> blob_size b \<Longrightarrow>
   bl_data (blob_slice b None (Some (int a)) None) @ bl_data (blob_slice b (Some (int a)) None None) = bl_data b"
  by (simp add: blob_slice_def blob_new_def Let_def blob_clamp_def blob_size_def substring_def slice_def min_def max_def)

section \<open>Laws of forms\<close>

lemma splice_filter:
  "fd_splice i name fd = take i fd @ filter (\<lambda>e. fe_name e \<noteq> name) (drop i fd)"
proof (induction i name fd rule: fd_splice.induct)
  case (1 i name fd)
  show ?case
  proof (cases "i < length fd")
    case True
    then have d: "drop i fd = fd ! i # drop (i + 1) fd" by (simp add: Cons_nth_drop_Suc)
    show ?thesis
    proof (cases "fe_name (fd ! i) = name")
      case t: True
      then show ?thesis using 1(1) [OF True t] True d by (subst fd_splice.simps) (simp add: min_def)
    next
      case False
      then show ?thesis
        using 1(2) [OF True False] True d by (subst fd_splice.simps) (simp add: take_Suc_conv_app_nth)
    qed
  next
    case False
    then show ?thesis by (subst fd_splice.simps) simp
  qed
qed

lemma getAll_app: "fd_getAll (a @ b) n = fd_getAll a n @ fd_getAll b n"
  by (induction a) auto

lemma getAll_filter: "fd_getAll (filter (\<lambda>e. fe_name e \<noteq> name) fd) n = (if n = name then [] else fd_getAll fd n)"
  by (induction fd) auto

lemma getAll_appended: "fd_getAll (fd_append fd k v f) n = (if n = k then fd_getAll fd k @ [v] else fd_getAll fd n)"
  by (auto simp: fd_append_def getAll_app split: form_value.split)

text \<open>A form is a multimap, like \<open>URLSearchParams\<close> and \<open>Headers\<close>.\<close>

interpretation fd: multimap fd_getAll "\<lambda>fd k v. fd_append fd k v f" "\<lambda>fd k v. fd_set fd k v f" fd_delete for f
  by unfold_locales (simp_all add: getAll_appended fd_set_def fd_delete_def splice_filter getAll_filter)

lemma fd_get_getAll: "fd_get fd n = (case fd_getAll fd n of [] \<Rightarrow> None | v # _ \<Rightarrow> Some v)"
  by (induction fd) auto

section \<open>What is encoded is parsed back\<close>

text \<open>The leftmost match of a quoted value: the key must stand right before a quote.\<close>

lemma starts_with_append: "starts_with (s @ t) u = (if length u \<le> length s then starts_with s u else starts_with (s @ t) u)"
  by (simp add: starts_with_def)

lemma find_quoted_skip:
  assumes "34 \<notin> set key" "key \<noteq> []" "34 \<notin> set p"
  shows "find_quoted key (p @ 34 # r) =
    (if suffix key p \<and> 34 \<in> set r then Some (takeWhile (\<lambda>x. x \<noteq> 34) r) else find_quoted key r)"
  using assms(3)
proof (induction p)
  case Nil
  have "\<not> starts_with (34 # r) (key @ [34])" using assms(1,2) by (cases key) (auto simp: starts_with_def)
  then show ?case using assms(2) by (simp add: Let_def suffix_def)
next
  case (Cons c p)
  have st: "starts_with ((c # p) @ 34 # r) (key @ [34]) \<longleftrightarrow> c # p = key"
  proof
    assume "starts_with ((c # p) @ 34 # r) (key @ [34])"
    then have t: "take (length key + 1) ((c # p) @ 34 # r) = key @ [34]" by (simp add: starts_with_def)
    have "\<not> length key + 1 \<le> length (c # p)"
    proof
      assume "length key + 1 \<le> length (c # p)"
      then have "take (length key + 1) (c # p) = key @ [34]" using t by simp
      then have "34 \<in> set (c # p)" by (metis in_set_conv_decomp in_set_takeD)
      then show False using Cons.prems by simp
    qed
    moreover have "\<not> length (c # p) < length key"
    proof
      assume a: "length (c # p) < length key"
      have "((c # p) @ 34 # r) ! length (c # p) = (key @ [34]) ! length (c # p)"
        using arg_cong [OF t, of "\<lambda>x. x ! length (c # p)"] a by (simp add: nth_append)
      then have "key ! length (c # p) = 34" using a by (simp add: nth_append)
      then show False using a assms(1) by (metis nth_mem)
    qed
    ultimately have l: "length (c # p) = length key" by simp
    have "take (length key + 1) ((c # p) @ 34 # r) = (c # p) @ [34]" unfolding l [symmetric] by simp
    then show "c # p = key" using t by (metis append_same_eq)
  qed (simp add: starts_with_def)
  show ?case
  proof (cases "c # p = key \<and> 34 \<in> set r")
    case True
    then have "drop (length key + 1) ((c # p) @ 34 # r) = r" by auto
    then show ?thesis using True st by (auto simp: Let_def)
  next
    case False
    have "suffix key (c # p) \<longleftrightarrow> c # p = key \<or> suffix key p" by (auto simp: suffix_Cons)
    moreover have "34 \<in> set (drop (length key + 1) ((c # p) @ 34 # r)) \<longleftrightarrow> 34 \<in> set r" if "c # p = key"
      using that by auto
    ultimately show ?thesis using False st Cons by (auto simp: Let_def)
  qed
qed

lemma find_quoted_none: "34 \<notin> set s \<Longrightarrow> find_quoted key s = None"
proof (induction s)
  case (Cons c s)
  then have "34 \<notin> set (drop (length key + 1) (c # s))" by (metis in_set_dropD)
  then show ?case using Cons by (auto simp: Let_def)
qed simp

lemma keys_plain: "34 \<notin> set (js ''name='' :: nat list)" "34 \<notin> set (js ''filename='' :: nat list)"
  "js ''name='' \<noteq> ([] :: nat list)" "js ''filename='' \<noteq> ([] :: nat list)"
  by simp_all

definition DISPOSITION :: jsstr where "DISPOSITION = js ''Content-Disposition: form-data; name=''"

lemma disposition_facts: "34 \<notin> set DISPOSITION" "13 \<notin> set DISPOSITION" "suffix (js ''name='') DISPOSITION" "\<not> suffix (js ''filename='') DISPOSITION"
  by (simp_all add: DISPOSITION_def suffix_def append_eq_Cons_conv)

lemma disposition_text: "disposition n = DISPOSITION @ 34 # n @ [34]"
  by (simp add: disposition_def DISPOSITION_def)

lemma until_quote: "34 \<notin> set s \<Longrightarrow> takeWhile (\<lambda>x. x \<noteq> 34) (s @ 34 # r) = (s :: nat list)"
  by (induction s) auto

lemma field_quoted:
  assumes "34 \<notin> set n"
  shows "find_quoted (js ''name='') (disposition n) = Some n" "find_quoted (js ''filename='') (disposition n) = None"
proof -
  note t = until_quote [OF assms]
  show "find_quoted (js ''name='') (disposition n) = Some n"
    unfolding disposition_text find_quoted_skip [OF keys_plain(1,3) disposition_facts(1)]
    using disposition_facts(3) t [of "[]"] by simp
  show "find_quoted (js ''filename='') (disposition n) = None"
    unfolding disposition_text find_quoted_skip [OF keys_plain(2,4) disposition_facts(1)]
    using disposition_facts(4) find_quoted_skip [OF keys_plain(2,4) assms, of "[]"] by simp
qed

lemma file_quoted:
  assumes "34 \<notin> set n" "34 \<notin> set f" "\<not> suffix (js ''filename='') n"
  shows "find_quoted (js ''name='') (file_disposition n f) = Some n" "find_quoted (js ''filename='') (file_disposition n f) = Some f"
proof -
  note t = until_quote
  have e: "file_disposition n f = DISPOSITION @ 34 # (n @ 34 # (js ''; filename='' @ 34 # (f @ 34 # [])))"
    by (simp add: file_disposition_def disposition_text)
  show "find_quoted (js ''name='') (file_disposition n f) = Some n"
    unfolding e find_quoted_skip [OF keys_plain(1,3) disposition_facts(1)]
    using disposition_facts(3) t [OF assms(1)] by simp
  have s: "34 \<notin> set (js ''; filename='' :: nat list)" "suffix (js ''filename='') (js ''; filename='' :: nat list)"
    by (simp_all add: suffix_def)
  show "find_quoted (js ''filename='') (file_disposition n f) = Some f"
    unfolding e find_quoted_skip [OF keys_plain(2,4) disposition_facts(1)] find_quoted_skip [OF keys_plain(2,4) assms(1)]
      find_quoted_skip [OF keys_plain(2,4) s(1)]
    using disposition_facts(4) assms(3) s(2) t [OF assms(2)] by simp
qed

text \<open>Splitting at a boundary that no piece holds and that cannot begin before the line feed of a piece ends.\<close>

lemma index_of_str_least:
  assumes "s = a @ t @ b" "\<And>a' b'. s = a' @ t @ b' \<Longrightarrow> length a \<le> length a'"
  shows "index_of_str t s = Some (length a)"
  using assms
proof (induction a arbitrary: s)
  case Nil
  then have "prefix t s" by simp
  then show ?case by (cases s) (auto simp: prefix_def)
next
  case (Cons x a)
  have "\<not> prefix t s"
  proof
    assume "prefix t s"
    then obtain b' where "s = [] @ t @ b'" by (auto simp: prefix_def)
    then show False using Cons.prems(2) by force
  qed
  moreover have "index_of_str t (a @ t @ b) = Some (length a)"
  proof (rule Cons.IH [OF refl])
    fix a' b' assume "a @ t @ b = a' @ t @ b'"
    then have "s = (x # a') @ t @ b'" using Cons.prems(1) by simp
    then show "length a \<le> length a'" using Cons.prems(2) by fastforce
  qed
  ultimately show ?case using Cons.prems(1) by simp
qed

lemma index_after_line:
  assumes "\<not> sublist D p" "10 \<notin> set D" "p \<noteq> []" "last p = 10"
  shows "index_of_str D (p @ D @ r) = Some (length p)"
proof (rule index_of_str_least [OF refl])
  fix a b assume "p @ D @ r = a @ D @ b"
  then consider (before) us where "p = a @ us" "us @ D @ r = D @ b" | (behind) us where "p @ us = a"
    by (auto simp: append_eq_append_conv2)
  then show "length p \<le> length a"
  proof cases
    case before
    from before(2) consider (whole) vs where "us = D @ vs" | (cut) vs where "D = us @ vs"
      by (auto simp: append_eq_append_conv2)
    then show ?thesis
    proof cases
      case whole
      then show ?thesis using before(1) assms(1) by (auto simp: sublist_def)
    next
      case cut
      then show ?thesis using before(1) assms(2-4) by (cases us rule: rev_cases) auto
    qed
  qed auto
qed

definition part_delimiter :: "jsstr \<Rightarrow> jsstr" where "part_delimiter boundary = js ''--'' @ boundary"

definition boundary_ok :: "jsstr \<Rightarrow> bool" where
  "boundary_ok b \<longleftrightarrow> b \<noteq> [] \<and> hd b \<noteq> 34 \<and> list_all (\<lambda>c. \<not> is_white c \<and> c \<noteq> 59) b"

lemma delimiter_facts:
  assumes "boundary_ok b"
  shows "10 \<notin> set (part_delimiter b)" "13 \<notin> set (part_delimiter b)" "part_delimiter b \<noteq> []" "2 < length (part_delimiter b)"
proof -
  have "is_white 10" "is_white 13" by (simp_all add: is_white_def)
  then have "10 \<notin> set b" "13 \<notin> set b" using assms by (auto simp: boundary_ok_def list_all_iff)
  then show "10 \<notin> set (part_delimiter b)" "13 \<notin> set (part_delimiter b)" by (simp_all add: part_delimiter_def)
  show "part_delimiter b \<noteq> []" by (simp add: part_delimiter_def)
  show "2 < length (part_delimiter b)" using assms by (cases b) (simp_all add: part_delimiter_def boundary_ok_def)
qed

text \<open>What stands behind the last delimiter holds none.\<close>

lemma tail_no_delimiter:
  assumes "boundary_ok b"
  shows "\<not> sublist (part_delimiter b) (js ''--'' @ CRLF)"
proof
  assume "sublist (part_delimiter b) (js ''--'' @ CRLF)"
  then obtain x y where e: "[45, 45] @ [13, 10] = x @ part_delimiter b @ y" by (auto simp: sublist_def CRLF_def)
  note D = delimiter_facts [OF assms]
  from e consider us where "[45, 45] @ us = x" "[13, 10] = us @ part_delimiter b @ y"
    | us where "[45, 45] = x @ us" "us @ [13, 10] = part_delimiter b @ y"
    unfolding append_eq_append_conv2 by auto
  then show False
  proof cases
    case 1
    then have "length (part_delimiter b) \<le> 2" by (metis add.commute add_leD1 length_append length_Cons list.size(3) One_nat_def Suc_1 le_add2 order_trans)
    then show False using D(4) by simp
  next
    case 2
    then have l: "length us \<le> 2" by (metis le_add2 length_Cons length_append list.size(3) One_nat_def Suc_1)
    from 2(2) D(4) l obtain vs where "part_delimiter b = us @ vs" "vs @ y = [13, 10]"
      by (auto simp: append_eq_append_conv2)
    then show False using D(1,2,4) l by (cases vs) auto
  qed
qed

text \<open>The text of a form falls into its entries again.\<close>

lemma split_str_last: "sep \<noteq> [] \<Longrightarrow> \<not> sublist sep s \<Longrightarrow> split_str sep s = [s]"
  by (subst split_str.simps) (simp add: index_of_str_None [THEN iffD2])

lemma split_str_more: "sep \<noteq> [] \<Longrightarrow> index_of_str sep (s @ sep @ r) = Some (length s) \<Longrightarrow> split_str sep (s @ sep @ r) = s # split_str sep r"
  by (subst split_str.simps) simp

lemma entry_ends: "multipart_entry e = a @ CRLF \<Longrightarrow> last (CRLF @ multipart_entry e) = 10"
  by (simp add: CRLF_def)

lemma entry_last: "last (CRLF @ multipart_entry e) = 10"
proof -
  have "\<exists>a. multipart_entry e = a @ CRLF" by (cases "fe_value e") (auto simp: multipart_entry_def)
  then show ?thesis using entry_ends by blast
qed

lemma body_opens: "multipart_body b fd = part_delimiter b @ (case fd of [] \<Rightarrow> js ''--'' @ CRLF | e # fs \<Rightarrow> CRLF @ multipart_entry e @ multipart_body b fs)"
  by (cases fd) (simp_all add: part_delimiter_def)

lemma split_entries:
  assumes "boundary_ok b" "\<forall>e \<in> set fd. \<not> sublist (part_delimiter b) (CRLF @ multipart_entry e)"
  shows "split_str (part_delimiter b) (case fd of [] \<Rightarrow> js ''--'' @ CRLF | e # fs \<Rightarrow> CRLF @ multipart_entry e @ multipart_body b fs)
    = map (\<lambda>e. CRLF @ multipart_entry e) fd @ [js ''--'' @ CRLF]"
  using assms(2)
proof (induction fd)
  case Nil
  then show ?case
    using split_str_last [OF delimiter_facts(3) [OF assms(1)] tail_no_delimiter [OF assms(1)]] by (simp only: list.case list.map append_Nil)
next
  case (Cons e fd)
  note D = delimiter_facts [OF assms(1)]
  define p where "p = CRLF @ multipart_entry e"
  have p: "p \<noteq> []" "last p = 10" "\<not> sublist (part_delimiter b) p"
    using entry_last Cons.prems by (simp_all add: p_def CRLF_def)
  have i: "index_of_str (part_delimiter b) (p @ part_delimiter b @ r) = Some (length p)" for r
    by (rule index_after_line [OF p(3) D(1) p(1,2)])
  have "split_str (part_delimiter b) (p @ multipart_body b fd) = p # map (\<lambda>e. CRLF @ multipart_entry e) fd @ [js ''--'' @ CRLF]"
    unfolding body_opens [of b fd] split_str_more [OF D(3) i] using Cons by (simp only: list.set_intros Ball_def list.inject simp_thms) (meson list.set_intros(2))
  then show ?case unfolding p_def by (simp only: list.case append.assoc list.map append_Cons)
qed

lemma split_multipart:
  assumes "boundary_ok b" "\<forall>e \<in> set fd. \<not> sublist (part_delimiter b) (CRLF @ multipart_entry e)"
  shows "split_str (part_delimiter b) (multipart_body b fd) = [] # map (\<lambda>e. CRLF @ multipart_entry e) fd @ [js ''--'' @ CRLF]"
proof -
  have "index_of_str (part_delimiter b) ([] @ part_delimiter b @ r) = Some (length ([] :: jsstr))" for r
    by (rule index_of_str_least [OF refl]) simp
  from split_str_more [OF delimiter_facts(3) [OF assms(1)] this] show ?thesis
    unfolding body_opens [of b fd] using split_entries [OF assms] by (simp only: append_Nil)
qed

text \<open>The entries that come back, and the entry that does.\<close>

definition form_entry_ok :: "form_entry \<Rightarrow> bool" where
  "form_entry_ok e \<longleftrightarrow> 34 \<notin> set (fe_name e) \<and> 13 \<notin> set (fe_name e) \<and>
     (case fe_value e of
        FText t \<Rightarrow> fe_filename e = None
      | FBlob b \<Rightarrow> \<not> suffix (js ''filename='') (fe_name e) \<and>
          (case fe_filename e of None \<Rightarrow> False | Some f \<Rightarrow> 34 \<notin> set f \<and> 13 \<notin> set f) \<and>
          blob_type (bl_type b) = bl_type b \<and> trim (bl_type b) = bl_type b \<and> 58 \<notin> set (bl_type b))"

definition returned :: "form_entry \<Rightarrow> form_entry" where
  "returned e = (case fe_value e of
     FText t \<Rightarrow> e
   | FBlob b \<Rightarrow> e\<lparr>fe_value := FBlob (if bl_type b = [] then b\<lparr>bl_type := OCTET_STREAM\<rparr> else b)\<rparr>)"

lemma split_lines2:
  "13 \<notin> set a \<Longrightarrow> 13 \<notin> set c \<Longrightarrow> split_str CRLF (a @ CRLF @ c) = [a, c]" "13 \<notin> set a \<Longrightarrow> split_str CRLF a = [a]"
proof -
  have n: "CRLF \<noteq> []" "13 \<notin> set l \<Longrightarrow> \<not> sublist CRLF l" for l
    by (auto simp: CRLF_def dest!: set_mono_sublist)
  show one: "split_str CRLF a = [a]" if "13 \<notin> set a" using split_str_last n that by blast
  show "split_str CRLF (a @ CRLF @ c) = [a, c]" if "13 \<notin> set a" "13 \<notin> set c"
    using split_str_more [OF n(1) index_crlf [OF that(1)]] split_str_last n that by simp
qed

lemma begins_low_prefix: "begins_low word line \<longleftrightarrow> prefix word (to_lower line)"
proof -
  have "index_of_str word l = Some 0 \<longleftrightarrow> prefix word l" for l by (cases l) auto
  then show ?thesis by (simp add: begins_low_def)
qed

lemma header_lines:
  "begins_low (js ''content-disposition:'') (disposition n)"
  "begins_low (js ''content-disposition:'') (file_disposition n f)"
  "\<not> begins_low (js ''content-type:'') (file_disposition n f)"
  "begins_low (js ''content-type:'') (js ''Content-Type: '' @ t)"
  "\<not> begins_low (js ''content-disposition:'') (js ''Content-Type: '' @ t)"
  by (simp_all add: begins_low_prefix disposition_def file_disposition_def to_lower_def lower_unit_def)

lemma parse_part_text:
  assumes "34 \<notin> set n" "13 \<notin> set n"
  shows "parse_part (CRLF @ disposition n @ CRLF @ CRLF @ t @ CRLF) fd = fd @ [\<lparr>fe_name = n, fe_value = FText t, fe_filename = None\<rparr>]"
proof -
  define d where "d = disposition n"
  have d: "13 \<notin> set d" "d \<noteq> []" using assms(2) disposition_facts(2) by (simp_all add: d_def disposition_text)
  note h = header_lines(1) [of n, folded d_def]
  note q = field_quoted [OF assms(1), folded d_def]
  have i: "index_of_str (CRLF @ CRLF) (d @ CRLF @ CRLF @ t @ CRLF) = Some (length d)"
    using index_head_end [of "[d]" "t @ CRLF"] d by simp
  have e: "ends_with (t @ CRLF) CRLF" by (simp add: ends_with_def CRLF_def)
  have s: "index_of_str CRLF (CRLF @ x) = Some 0" "drop 2 (CRLF @ x) = x" for x by (simp_all add: CRLF_def)
  have l: "length (t @ CRLF) - 2 = length t" "length CRLF = 2" by (simp_all add: CRLF_def)
  have v: "drop (length d + 4) (d @ CRLF @ CRLF @ t @ CRLF) = t @ CRLF" by (simp add: CRLF_def)
  show ?thesis
    unfolding parse_part_def d_def [symmetric] Let_def s if_P [OF refl] i option.case v split_lines2(2) [OF d(1)] if_P [OF e] l
    using split_lines2(2) [OF d(1)] h q by (simp add: fd_append_def)
qed

lemma parse_part_file:
  assumes "34 \<notin> set n" "13 \<notin> set n" "34 \<notin> set f" "13 \<notin> set f" "\<not> suffix (js ''filename='') n"
    and ty: "ty \<noteq> []" "13 \<notin> set ty" "58 \<notin> set ty" "trim ty = ty"
  shows "parse_part (CRLF @ file_disposition n f @ CRLF @ (js ''Content-Type: '' @ ty) @ CRLF @ CRLF @ t @ CRLF) fd
    = fd @ [\<lparr>fe_name = n, fe_value = FBlob \<lparr>bl_data = t, bl_type = blob_type ty\<rparr>, fe_filename = Some f\<rparr>]"
proof -
  define d where "d = file_disposition n f"
  define c where "c = js ''Content-Type: '' @ ty"
  have d: "13 \<notin> set d" "d \<noteq> []" using assms(2,4) disposition_facts(2) by (simp_all add: d_def file_disposition_def disposition_text)
  have c: "13 \<notin> set c" "c \<noteq> []" using ty by (simp_all add: c_def)
  note h = header_lines(2,3) [of n f, folded d_def] header_lines(4,5) [of ty, folded c_def]
  note q = file_quoted [OF assms(1,3,5), folded d_def]
  define hd0 where "hd0 = d @ CRLF @ c"
  have i: "index_of_str (CRLF @ CRLF) (hd0 @ CRLF @ CRLF @ t @ CRLF) = Some (length hd0)"
    using index_head_end [of "[d, c]" "t @ CRLF"] d c by (simp add: hd0_def)
  have e: "ends_with (t @ CRLF) CRLF" by (simp add: ends_with_def CRLF_def)
  have s: "index_of_str CRLF (CRLF @ x) = Some 0" "drop 2 (CRLF @ x) = x" for x by (simp_all add: CRLF_def)
  have v: "drop (length hd0 + 4) (hd0 @ CRLF @ CRLF @ t @ CRLF) = t @ CRLF" "take (length hd0) (hd0 @ CRLF @ CRLF @ t @ CRLF) = hd0" by (simp_all add: CRLF_def)
  have sp: "split_str CRLF hd0 = [d, c]" unfolding hd0_def by (rule split_lines2(1) [OF d(1) c(1)])
  have k: "take (length (t @ CRLF) - 2) (t @ CRLF) = t" by (simp add: CRLF_def)
  have w: "trim (split1 58 c ! 1) = ty"
  proof -
    have "split1 58 c = [js ''Content-Type'', 32 # ty]" using ty(3) split1_append_sep [of 58 "js ''Content-Type''" "32 # ty"] by (simp add: c_def)
    moreover have "trim (32 # ty) = ty" using ty(4) by (simp add: trim_def is_white_def)
    ultimately show ?thesis by simp
  qed
  have a: "CRLF @ d @ CRLF @ c @ CRLF @ CRLF @ t @ CRLF = CRLF @ (hd0 @ CRLF @ CRLF @ t @ CRLF)" by (simp add: hd0_def)
  show ?thesis
    unfolding parse_part_def d_def [symmetric] c_def [symmetric] a Let_def s if_P [OF refl] i option.case v if_P [OF e] k sp
    using h q c(2) w by (simp add: fd_append_def blob_new_def)
qed

lemma type_plain: "blob_type ty = ty \<Longrightarrow> 13 \<notin> set ty"
  by (auto simp: blob_type_def Let_def list_all_iff split: if_splits)

lemma parse_part_entry:
  assumes "form_entry_ok e"
  shows "parse_part (CRLF @ multipart_entry e) fd = fd @ [returned e]"
proof (cases "fe_value e")
  case (FText t)
  then show ?thesis
    using assms parse_part_text [of "fe_name e" t fd] by (cases e) (simp add: form_entry_ok_def multipart_entry_def returned_def)
next
  case (FBlob b)
  from assms FBlob obtain f where f: "fe_filename e = Some f" "34 \<notin> set f" "13 \<notin> set f"
    by (auto simp: form_entry_ok_def split: option.splits)
  define ty where "ty = (if bl_type b = [] then OCTET_STREAM else bl_type b)"
  have o: "blob_type OCTET_STREAM = OCTET_STREAM" "OCTET_STREAM \<noteq> []" "58 \<notin> set OCTET_STREAM" "trim OCTET_STREAM = OCTET_STREAM"
    by (simp_all add: OCTET_STREAM_def blob_type_def to_lower_def lower_unit_def trim_def is_white_def)
  have ty: "blob_type ty = ty" "ty \<noteq> []" "58 \<notin> set ty" "trim ty = ty"
    using assms FBlob o by (auto simp: ty_def form_entry_ok_def)
  show ?thesis
    using parse_part_file [of "fe_name e" f ty "bl_data b" fd] assms FBlob f ty type_plain [OF ty(1)]
    by (cases e; cases b) (simp add: form_entry_ok_def multipart_entry_def returned_def ty_def split: if_splits)
qed

lemma fold_entries:
  "\<forall>e \<in> set fd. form_entry_ok e \<Longrightarrow> fold parse_part (map (\<lambda>e. CRLF @ multipart_entry e) fd) got = got @ map returned fd"
proof (induction fd arbitrary: got)
  case (Cons e fd)
  then show ?case using parse_part_entry [of e got] by simp
qed simp

lemma find_boundary_sent:
  assumes "boundary_ok b" shows "find_boundary (js ''multipart/form-data; boundary='' @ b) = Some b"
proof -
  have "takeWhile (\<lambda>x. \<not> is_white x \<and> x \<noteq> 59) b = b" "b \<noteq> []"
    using assms by (auto simp: boundary_ok_def list_all_iff takeWhile_eq_all_conv)
  then show ?thesis by (simp add: starts_with_def Let_def del: takeWhile_eq_all_conv)
qed

lemma alphabet_plain: "list_all (\<lambda>c. \<not> is_white c \<and> c \<noteq> 59 \<and> c \<noteq> 47) BOUNDARY_CHARS" "length BOUNDARY_CHARS = 62"
  "list_all (\<lambda>c. \<not> is_white c \<and> c \<noteq> 59 \<and> c \<noteq> 47) (js ''----FormBoundary'')"
  by (simp_all add: BOUNDARY_CHARS_def is_white_def)

lemma random_units: "c \<in> set (randomBoundary rs) \<Longrightarrow> c \<in> set BOUNDARY_CHARS \<or> c \<in> set (js ''----FormBoundary'')"
  using alphabet_plain(2) by (auto simp: randomBoundary_def)

lemma random_ok: "boundary_ok (randomBoundary rs)" "47 \<notin> set (randomBoundary rs)"
proof -
  have f: "\<not> is_white c \<and> c \<noteq> 59 \<and> c \<noteq> 47" if "c \<in> set (randomBoundary rs)" for c
    using random_units [OF that] alphabet_plain(1,3) unfolding list_all_iff by blast
  show "47 \<notin> set (randomBoundary rs)" using f by blast
  have "hd (js ''----FormBoundary'' @ r) = 45" "js ''----FormBoundary'' @ r \<noteq> []" for r by simp_all
  then have "hd (randomBoundary rs) = 45" "randomBoundary rs \<noteq> []" unfolding randomBoundary_def by blast+
  then show "boundary_ok (randomBoundary rs)" unfolding boundary_ok_def list_all_iff using f by simp
qed

lemma contains_sublist: "contains t s \<longleftrightarrow> sublist t s"
  by (simp add: contains_def index_of_str_None)

lemma not_urlencoded:
  assumes "47 \<notin> set b" shows "\<not> contains (js ''application/x-www-form-urlencoded'') (js ''multipart/form-data; boundary='' @ b)"
proof
  assume "contains (js ''application/x-www-form-urlencoded'') (js ''multipart/form-data; boundary='' @ b)"
  then have "sublist (js ''application/x-www-form-urlencoded'') (js ''multipart/form-data; boundary='' @ b)"
    by (rule contains_sublist [THEN iffD1])
  then obtain x y where e: "js ''multipart/form-data; boundary='' @ b = x @ js ''application/x-www-form-urlencoded'' @ y"
    unfolding sublist_def by blast
  define u where "u = js ''form-data; boundary='' @ b"
  define v where "v = js ''x-www-form-urlencoded'' @ y"
  define w where "w = x @ js ''application''"
  have "js ''multipart'' @ 47 # u = w @ 47 # v" using e by (simp add: u_def v_def w_def)
  moreover have "47 \<notin> set (js ''multipart'')" "47 \<notin> set u" using assms by (simp_all add: u_def)
  ultimately have "js ''multipart'' = w" using append_Cons_eq_iff by metis
  from arg_cong [OF this, of length] show False by (simp add: w_def)
qed

text \<open>C22: A form that is encoded as \<open>multipart/form-data\<close> is parsed back to its entries in order; only a blob with an empty
type comes back with the type \<open>application/octet-stream\<close>. Required of every entry: its name has neither a quote nor a carriage
return, and the text of its part does not hold the delimiter; a text has no file name; a blob has one, with neither a quote
nor a carriage return, the name of its entry does not end in \<open>filename=\<close>, and its type is one that \<open>Blob\<close> keeps (so in lower
case), has no colon and no white space at its ends. (Without these the entry comes back changed: \<open>form_injection\<close>,
\<open>colon_lost\<close>.)\<close>

theorem multipart_roundtrip:
  assumes "list_all form_entry_ok fd"
    and "list_all (\<lambda>e. \<not> contains (part_delimiter (randomBoundary rs)) (CRLF @ multipart_entry e)) fd"
  shows "case encodeMultipart rs fd of (body, contentType) \<Rightarrow> parseFormData body contentType = Inr (map returned fd)"
proof -
  define b where "b = randomBoundary rs"
  define ct where "ct = js ''multipart/form-data; boundary='' @ b"
  have ok: "boundary_ok b" using random_ok by (simp add: b_def)
  have fb: "find_boundary ct = Some b" unfolding ct_def by (rule find_boundary_sent [OF ok])
  have nc: "\<not> contains (js ''application/x-www-form-urlencoded'') ct"
    unfolding ct_def b_def by (rule not_urlencoded [OF random_ok(2)])
  have hd: "(if hd b = 34 then take (length b - 2) (drop 1 b) else b) = b" using ok by (simp add: boundary_ok_def)
  have "\<forall>e \<in> set fd. \<not> sublist (part_delimiter b) (CRLF @ multipart_entry e)"
    using assms(2) by (simp add: list_all_iff contains_sublist b_def)
  from split_multipart [OF ok this] have s: "split_str (js ''--'' @ b) (multipart_body b fd) = [] # map (\<lambda>e. CRLF @ multipart_entry e) fd @ [js ''--'' @ CRLF]"
    unfolding part_delimiter_def .
  have m: "parse_multipart (multipart_body b fd) ct = map returned fd"
    using assms(1) unfolding parse_multipart_def fb option.case hd Let_def s list.sel butlast_snoc list_all_iff
    by (simp add: fold_entries)
  have "encodeMultipart rs fd = (multipart_body b fd, ct)" by (simp add: encodeMultipart_def b_def ct_def Let_def)
  then show ?thesis using nc m by (simp add: parseFormData_def)
qed

lemma multipart_roundtrip_witness:
  "case encodeMultipart [0, 1, 2] [\<lparr>fe_name = js ''a'', fe_value = FText (js ''1''), fe_filename = None\<rparr>] of
     (body, contentType) \<Rightarrow> parseFormData body contentType = Inr [\<lparr>fe_name = js ''a'', fe_value = FText (js ''1''), fe_filename = None\<rparr>]"
  using multipart_roundtrip [of "[\<lparr>fe_name = js ''a'', fe_value = FText (js ''1''), fe_filename = None\<rparr>]" "[0, 1, 2]"]
  by (simp add: form_entry_ok_def returned_def contains_def multipart_entry_def disposition_def part_delimiter_def randomBoundary_def BOUNDARY_CHARS_def CRLF_def)

text \<open>
  Names are written without escaping: the text field \<open>a"; filename="b\<close> comes back as a file named \<open>b\<close>. The
  expression for \<open>name="\<close> also matches inside \<open>filename="\<close>, so a part with the two parameters in the other order
  gets the name of its file; and a type keeps nothing behind its second colon.
\<close>

lemma form_injection:
  "parse_part (CRLF @ multipart_entry \<lparr>fe_name = js ''a'' @ [34] @ js ''; filename='' @ [34] @ js ''b'', fe_value = FText [49], fe_filename = None\<rparr>) []
   = [\<lparr>fe_name = js ''a'', fe_value = FBlob \<lparr>bl_data = [49], bl_type = OCTET_STREAM\<rparr>, fe_filename = Some (js ''b'')\<rparr>]"
  by (simp add: parse_part_def multipart_entry_def disposition_def CRLF_def split_str.simps begins_low_def to_lower_def
      lower_unit_def starts_with_def ends_with_def fd_append_def blob_new_def blob_type_def OCTET_STREAM_def)

lemma filename_is_name:
  "find_quoted (js ''name='') (js ''Content-Disposition: form-data; filename='' @ [34, 102, 34] @ js ''; name='' @ [34, 110, 34]) = Some [102]"
  by (simp add: starts_with_def)

lemma colon_lost:
  "parse_part (js ''Content-Disposition: form-data; name='' @ [34, 110, 34] @ js ''; filename='' @ [34, 102, 34] @ CRLF
      @ js ''Content-Type: a;b=c:d'' @ CRLF @ CRLF @ [49]) []
   = [\<lparr>fe_name = [110], fe_value = FBlob \<lparr>bl_data = [49], bl_type = js ''a;b=c''\<rparr>, fe_filename = Some [102]\<rparr>]"
  by (simp add: parse_part_def CRLF_def split_str.simps begins_low_def to_lower_def
      lower_unit_def starts_with_def ends_with_def fd_append_def blob_new_def blob_type_def trim_def is_white_def)

end
