(* ===== verification/Fetch.thy ===== *)
theory Fetch
  imports FetchOne FetchForms
begin

text \<open>
  \<open>Request\<close>, the redirects and proxies of \<open>fetch.js\<close>, and \<open>fetch\<close> itself. What the hops answer is an argument:
  the value that a hop passes to \<open>done\<close>, by its number; so is whether the signal is aborted when a hop begins.
  The result is the list of the requests that were sent and how the promise was settled.
\<close>

section \<open>Requests\<close>

record request =
  rq_url :: jsstr
  rq_method :: jsstr
  rq_headers :: fheaders
  rq_body :: "jsstr option"
  rq_redirect :: jsstr
  rq_credentials :: jsstr
  rq_cache :: jsstr
  rq_signal :: "nat option"
  rq_mode :: jsstr
  rq_referrer :: jsstr
  rq_referrerPolicy :: jsstr
  rq_integrity :: jsstr
  rq_keepalive :: bool
  rq_decompress :: "bool option"

text \<open>The options; a string that is missing and an empty one both take the default.\<close>

record request_init =
  ri_method :: "jsstr option"
  ri_headers :: "headers_init option"
  ri_body :: "jsstr option option"
  ri_redirect :: jsstr
  ri_credentials :: jsstr
  ri_cache :: jsstr
  ri_signal :: "nat option"
  ri_mode :: jsstr
  ri_referrer :: "jsstr option"
  ri_referrerPolicy :: jsstr
  ri_integrity :: jsstr
  ri_keepalive :: bool
  ri_decompress :: "bool option"

datatype request_input = InText jsstr | InRequest request

definition no_init :: request_init where
  "no_init = \<lparr>ri_method = None, ri_headers = None, ri_body = None, ri_redirect = [], ri_credentials = [], ri_cache = [],
     ri_signal = None, ri_mode = [], ri_referrer = None, ri_referrerPolicy = [], ri_integrity = [], ri_keepalive = False,
     ri_decompress = None\<rparr>"

definition or_text :: "jsstr \<Rightarrow> string \<Rightarrow> jsstr" where
  "or_text s d = (if s = [] then js d else s)"

definition request_new :: "request_input \<Rightarrow> request_init \<Rightarrow> request result" where
  "request_new input init =
     (let base = (case input of InRequest r \<Rightarrow> Some r | InText _ \<Rightarrow> None);
          method = (case ri_method init of
                      Some m \<Rightarrow> if m = [] then (case base of Some r \<Rightarrow> rq_method r | None \<Rightarrow> js ''GET'') else m
                    | None \<Rightarrow> (case base of Some r \<Rightarrow> rq_method r | None \<Rightarrow> js ''GET''));
          hs = (case ri_headers init of Some h \<Rightarrow> h | None \<Rightarrow> (case base of Some r \<Rightarrow> HHeaders (rq_headers r) | None \<Rightarrow> HNothing))
      in bind_result (headers_new hs) (\<lambda>h. Inr
           \<lparr>rq_url = (case input of InText u \<Rightarrow> u | InRequest r \<Rightarrow> rq_url r), rq_method = normalizeMethod (VStr method),
            rq_headers = h,
            rq_body = (case ri_body init of Some b \<Rightarrow> b | None \<Rightarrow> (case base of Some r \<Rightarrow> rq_body r | None \<Rightarrow> None)),
            rq_redirect = or_text (ri_redirect init) ''follow'', rq_credentials = or_text (ri_credentials init) ''same-origin'',
            rq_cache = or_text (ri_cache init) ''default'', rq_signal = ri_signal init, rq_mode = or_text (ri_mode init) ''cors'',
            rq_referrer = (case ri_referrer init of Some r \<Rightarrow> r | None \<Rightarrow> js ''about:client''),
            rq_referrerPolicy = ri_referrerPolicy init, rq_integrity = ri_integrity init, rq_keepalive = ri_keepalive init,
            rq_decompress = ri_decompress init\<rparr>))"

definition request_clone :: "request \<Rightarrow> request result" where
  "request_clone r = request_new (InText (rq_url r))
     (no_init\<lparr>ri_method := Some (rq_method r), ri_headers := Some (HHeaders (rq_headers r)), ri_body := Some (rq_body r),
        ri_redirect := rq_redirect r, ri_credentials := rq_credentials r, ri_cache := rq_cache r, ri_signal := rq_signal r\<rparr>)"

section \<open>Proxies\<close>

record fetch_env =
  no_proxy_upper :: jsstr
  no_proxy_lower :: jsstr
  https_proxy_upper :: jsstr
  https_proxy_lower :: jsstr
  http_proxy_upper :: jsstr
  http_proxy_lower :: jsstr

definition env_value :: "jsstr \<Rightarrow> jsstr \<Rightarrow> jsstr" where
  "env_value a b = (if a \<noteq> [] then a else b)"

definition excluded :: "jsstr \<Rightarrow> jsstr \<Rightarrow> bool" where
  "excluded host entry =
     (let pat0 = to_lower (trim entry); pat = (if pat0 \<noteq> [] \<and> hd pat0 = 46 then drop 1 pat0 else pat0)
      in pat0 \<noteq> [] \<and> (host = pat \<or> ends_with host (46 # pat)))"

definition getProxyForUrl :: "fetch_env \<Rightarrow> url \<Rightarrow> url option" where
  "getProxyForUrl env parsed =
     (let noProxy = env_value (no_proxy_upper env) (no_proxy_lower env)
      in if noProxy = [42] then None
         else if noProxy \<noteq> [] \<and> list_ex (excluded (to_lower (u_hostname parsed))) (split1 44 noProxy) then None
         else let proxyUrl = (if u_protocol parsed = HTTPS then env_value (https_proxy_upper env) (https_proxy_lower env)
                              else env_value (http_proxy_upper env) (http_proxy_lower env))
         in if proxyUrl = [] then None else case new_url proxyUrl of Inr u \<Rightarrow> Some u | Inl _ \<Rightarrow> None)"

section \<open>One hop: what is sent, and where\<close>

datatype via = Direct | Plain jsstr "int option" | Tunnel jsstr "int option"

record hop =
  hp_url :: jsstr
  hp_tls :: bool
  hp_host :: jsstr
  hp_port :: "int option"
  hp_via :: via
  hp_method :: jsstr
  hp_body :: "jsstr option"
  hp_raw :: jsstr

definition url_port :: "jsstr \<Rightarrow> int \<Rightarrow> int option" where
  "url_port p d = (if p = [] then Some d else parseInt 10 p)"

definition port_text :: "int option \<Rightarrow> jsstr" where
  "port_text p = (case p of None \<Rightarrow> js ''NaN'' | Some i \<Rightarrow> (if i < 0 then [45] else []) @ js (dec_string (nat \<bar>i\<bar>)))"

definition accept_encoding :: "fheaders \<Rightarrow> fheaders" where
  "accept_encoding h =
     (if fh_has h (js ''accept-encoding'') then h else put_set (js ''Accept-Encoding'') (js ''gzip, deflate'') h)"

definition proxy_request :: "url \<Rightarrow> jsstr \<Rightarrow> int option \<Rightarrow> jsstr \<Rightarrow> fheaders \<Rightarrow> jsstr option \<Rightarrow> jsstr" where
  "proxy_request parsed currentUrl port method aHdrs body =
     method @ [32] @ currentUrl @ js '' HTTP/1.1'' @ CRLF @ js ''Host: '' @ u_hostname parsed @
     (if port \<noteq> Some 80 then 58 # port_text port else []) @ CRLF @ fh_toRaw aHdrs @ CRLF @
     (if has_body body then the body else [])"

definition connect_request :: "url \<Rightarrow> int option \<Rightarrow> jsstr" where
  "connect_request target port =
     (let authority = u_hostname target @ [58] @ port_text port
      in js ''CONNECT '' @ authority @ js '' HTTP/1.1'' @ CRLF @ js ''Host: '' @ authority @ CRLF @ CRLF)"

text \<open>What the tunnel makes of the answer to \<open>CONNECT\<close>.\<close>

definition tunnel_open :: "jsstr \<Rightarrow> bool" where
  "tunnel_open rawResp \<longleftrightarrow> rawResp \<noteq> [] \<and> contains (js ''200'') rawResp"

definition build_hop :: "fetch_env \<Rightarrow> bool \<Rightarrow> url \<Rightarrow> jsstr \<Rightarrow> jsstr \<Rightarrow> fheaders \<Rightarrow> jsstr option \<Rightarrow> bool option \<Rightarrow> hop" where
  "build_hop env keepAlive parsed currentUrl method headers body decompress =
     (let isTLS = (u_protocol parsed = HTTPS);
          port = url_port (u_port parsed) (if isTLS then 443 else 80);
          aHdrs = accept_encoding (no_headers\<lparr>fh_entries := fh_entries headers\<rparr>);
          h = \<lparr>hp_url = currentUrl, hp_tls = isTLS, hp_host = u_hostname parsed, hp_port = port, hp_via = Direct,
               hp_method = method, hp_body = body, hp_raw = buildRawRequest parsed method aHdrs body keepAlive\<rparr>
      in if decompress = Some True then h\<lparr>hp_raw := buildRawRequest parsed method aHdrs body False\<rparr>
         else case getProxyForUrl env parsed of
           None \<Rightarrow> h
         | Some proxy \<Rightarrow>
             (let pport = url_port (u_port proxy) 80
              in if isTLS then h\<lparr>hp_via := Tunnel (u_hostname proxy) pport\<rparr>
                 else h\<lparr>hp_via := Plain (u_hostname proxy) pport,
                        hp_raw := proxy_request parsed currentUrl port method aHdrs body\<rparr>))"

section \<open>Redirects\<close>

datatype fetch_error = TooManyRedirects | InvalidUrl jsstr | SignalAborted | HopFailed one_error | RedirectNotAllowed

datatype settlement = Resolved fresponse | Rejected fetch_error

definition is_redirect :: "status \<Rightarrow> bool" where
  "is_redirect st \<longleftrightarrow> st \<in> {Some 301, Some 302, Some 303, Some 307, Some 308}"

definition resolve_location :: "url \<Rightarrow> jsstr \<Rightarrow> jsstr" where
  "resolve_location u location =
     (if contains (js ''://'') location then location
      else let base = u_protocol u @ [47, 47] @ u_hostname u @ (if u_port u \<noteq> [] then 58 # u_port u else [])
      in if location \<noteq> [] \<and> hd location = 47 then base @ location else base @ [47] @ location)"

definition next_method :: "status \<Rightarrow> jsstr \<Rightarrow> bool" where
  "next_method st method \<longleftrightarrow>
     st = Some 303 \<or> ((st = Some 301 \<or> st = Some 302) \<and> method \<noteq> js ''GET'' \<and> method \<noteq> js ''HEAD'')"

text \<open>Either the promise is settled, or the next location, method and body.\<close>

definition handleFetchResponse ::
    "fresponse \<Rightarrow> jsstr \<Rightarrow> jsstr \<Rightarrow> jsstr option \<Rightarrow> request \<Rightarrow> bool \<Rightarrow> settlement + (jsstr \<times> jsstr \<times> jsstr option)" where
  "handleFetchResponse response currentUrl method body request redirected =
     (if is_redirect (re_status response) \<and> rq_redirect request = js ''follow''
      then (case fh_get (re_headers response) (js ''location'') of
              None \<Rightarrow> Inl (Resolved response)
            | Some location \<Rightarrow>
                (case new_url currentUrl of
                   Inl _ \<Rightarrow> Inl (Resolved response)
                 | Inr parsed2 \<Rightarrow>
                     (let l = resolve_location parsed2 location
                      in if next_method (re_status response) method then Inr (l, js ''GET'', None) else Inr (l, method, body))))
      else if rq_redirect request = js ''error'' \<and>
              (case re_status response of None \<Rightarrow> False | Some n \<Rightarrow> 300 \<le> n \<and> n < 400)
      then Inl (Rejected RedirectNotAllowed)
      else Inl (Resolved (response\<lparr>re_redirected := redirected, re_url := currentUrl\<rparr>)))"

text \<open>
  The promise of a hop may never be settled (a server that does not answer, with no signal): then neither is that of the
  fetch. \<open>answers n\<close> is how the hop after \<open>n\<close> redirects ends, or \<open>None\<close>; the second result is how the promise of the fetch
  is settled, or \<open>None\<close> while it is pending.
\<close>

function fetchFollow ::
    "fetch_env \<Rightarrow> bool \<Rightarrow> (nat \<Rightarrow> bool) \<Rightarrow> (nat \<Rightarrow> (one_error + fresponse) option) \<Rightarrow>
     jsstr \<Rightarrow> jsstr \<Rightarrow> fheaders \<Rightarrow> jsstr option \<Rightarrow> request \<Rightarrow> nat \<Rightarrow> bool \<Rightarrow> hop list \<times> settlement option" where
  "fetchFollow env keepAlive aborted answers currentUrl method headers body request redirectCount redirected =
     (if 20 < redirectCount then ([], Some (Rejected TooManyRedirects))
      else case new_url currentUrl of
        Inl _ \<Rightarrow> ([], Some (Rejected (InvalidUrl currentUrl)))
      | Inr parsed \<Rightarrow>
          if aborted redirectCount then ([], Some (Rejected SignalAborted))
          else let h = build_hop env keepAlive parsed currentUrl method headers body (rq_decompress request)
          in case answers redirectCount of
               None \<Rightarrow> ([h], None)
             | Some (Inl e) \<Rightarrow> ([h], Some (Rejected (HopFailed e)))
             | Some (Inr resp) \<Rightarrow>
                 (case handleFetchResponse (resp\<lparr>re_url := currentUrl\<rparr>) currentUrl method body request redirected of
                    Inl s \<Rightarrow> ([h], Some s)
                  | Inr (l, m, b) \<Rightarrow>
                      (case fetchFollow env keepAlive aborted answers l m (no_headers\<lparr>fh_entries := fh_entries headers\<rparr>) b
                              request (redirectCount + 1) True of
                         (hs, s) \<Rightarrow> (h # hs, s))))"
  by pat_completeness auto
termination
  by (relation "measure (\<lambda>(_, _, _, _, _, _, _, _, _, n, _). 21 - n)") auto

declare fetchFollow.simps [simp del]

section \<open>\<open>fetch\<close>\<close>

text \<open>
  The default signal is a timeout unless it is switched off; \<open>fetchTimeout\<close> is the global variable, when it is a
  number. The result says whether a timer was started. A stream as body is read to its end first
  (\<open>drainStream\<close>); then the text is the body.
\<close>

definition getFetchTimeout :: "int option \<Rightarrow> int" where
  "getFetchTimeout fetchTimeout = (case fetchTimeout of Some n \<Rightarrow> n | None \<Rightarrow> 30000)"

definition fetch_request :: "request_input \<Rightarrow> request_init option \<Rightarrow> request result" where
  "fetch_request input init =
     (case (input, init) of
        (InRequest r, None) \<Rightarrow> Inr r
      | (_, None) \<Rightarrow> request_new input no_init
      | (_, Some i) \<Rightarrow> request_new input i)"

definition fetch ::
    "fetch_env \<Rightarrow> bool \<Rightarrow> int option \<Rightarrow> (nat \<Rightarrow> bool) \<Rightarrow> (nat \<Rightarrow> (one_error + fresponse) option) \<Rightarrow>
     request_input \<Rightarrow> request_init option \<Rightarrow> (bool \<times> hop list \<times> settlement option) result" where
  "fetch env keepAlive fetchTimeout aborted answers input init =
     bind_result (fetch_request input init) (\<lambda>request.
       if rq_signal request \<noteq> None \<and> aborted 0 then Inr (False, [], Some (Rejected SignalAborted))
       else let timed = 0 < getFetchTimeout fetchTimeout \<and> rq_signal request = None;
                watched = (\<lambda>n. (timed \<or> rq_signal request \<noteq> None) \<and> aborted n)
       in Inr (timed, fetchFollow env keepAlive watched answers (rq_url request) (rq_method request)
                 (no_headers\<lparr>fh_entries := fh_entries (rq_headers request)\<rparr>) (rq_body request) request 0 False))"

section \<open>Redirects end, and change the request as they should\<close>

text \<open>The hops of a run are linked: each was asked for by the answer to the one before it.\<close>

inductive linked_hops :: "(nat \<Rightarrow> (one_error + fresponse) option) \<Rightarrow> request \<Rightarrow> nat \<Rightarrow> hop list \<Rightarrow> bool" for answers request where
  none: "linked_hops answers request n []"
| last_one: "linked_hops answers request n [h]"
| next_one: "linked_hops answers request n (h # h' # hs)"
    if "answers n = Some (Inr r)" "is_redirect (re_status r)" "rq_redirect request = js ''follow''"
       "fh_get (re_headers r) (js ''location'') = Some location"
       "new_url (hp_url h) = Inr u" "hp_url h' = resolve_location u location"
       "hp_method h' = (if next_method (re_status r) (hp_method h) then js ''GET'' else hp_method h)"
       "hp_body h' = (if next_method (re_status r) (hp_method h) then None else hp_body h)"
       "linked_hops answers request (n + 1) (h' # hs)"

lemma build_hop_fields [simp]:
  "hp_url (build_hop env k u c m h b d) = c" "hp_method (build_hop env k u c m h b d) = m" "hp_body (build_hop env k u c m h b d) = b"
  by (auto simp: build_hop_def Let_def split: option.split)

lemma handle_next:
  assumes "handleFetchResponse (r\<lparr>re_url := x\<rparr>) c m b request d = Inr (l, m', b')"
  obtains u location where "is_redirect (re_status r)" "rq_redirect request = js ''follow''"
    "fh_get (re_headers r) (js ''location'') = Some location" "new_url c = Inr u" "l = resolve_location u location"
    "m' = (if next_method (re_status r) m then js ''GET'' else m)" "b' = (if next_method (re_status r) m then None else b)"
  using assms unfolding handleFetchResponse_def by (auto simp: Let_def split: if_splits option.splits sum.splits)

lemma follow_first:
  assumes "fetchFollow env k ab answers c m hs b request n d = (hops, s)" "hops \<noteq> []"
  shows "hp_url (hd hops) = c \<and> hp_method (hd hops) = m \<and> hp_body (hd hops) = b"
  using assms by (subst (asm) fetchFollow.simps) (auto simp: Let_def split: if_splits option.splits sum.splits prod.splits)

lemma follow_linked:
  "fetchFollow env k ab answers c m hs b request n d = (hops, s) \<Longrightarrow> linked_hops answers request n hops"
proof (induction "21 - n" arbitrary: n c m hs b d hops s)
  case 0
  then have "hops = []" by (subst (asm) fetchFollow.simps) (simp split: if_splits)
  then show ?case by (simp add: linked_hops.none)
next
  case (Suc j)
  then have n: "n \<le> 20" by simp
  show ?case
  proof (cases "\<exists>u r l m' b'. new_url c = Inr u \<and> \<not> ab n \<and> answers n = Some (Inr r) \<and>
      handleFetchResponse (r\<lparr>re_url := c\<rparr>) c m b request d = Inr (l, m', b')")
    case False
    then have "length hops \<le> 1"
      using Suc.prems n by (subst (asm) fetchFollow.simps) (auto simp: Let_def split: if_splits option.splits sum.splits prod.splits)
    then show ?thesis by (cases hops) (auto intro: linked_hops.none linked_hops.last_one)
  next
    case True
    then obtain u r l m' b' where a: "new_url c = Inr u" "\<not> ab n" "answers n = Some (Inr r)"
      "handleFetchResponse (r\<lparr>re_url := c\<rparr>) c m b request d = Inr (l, m', b')" by blast
    obtain hs2 s2 where f: "fetchFollow env k ab answers l m' (no_headers\<lparr>fh_entries := fh_entries hs\<rparr>) b' request (n + 1) True = (hs2, s2)"
      by fastforce
    define h where "h = build_hop env k u c m hs b (rq_decompress request)"
    have hops: "hops = h # hs2" "s = s2"
      using Suc.prems n a f by (subst (asm) fetchFollow.simps, simp add: Let_def h_def)+
    have l: "linked_hops answers request (n + 1) hs2" using Suc.hyps(1) [OF _ f] Suc.hyps(2) by simp
    from handle_next [OF a(4)] obtain v location where p: "is_redirect (re_status r)" "rq_redirect request = js ''follow''"
      "fh_get (re_headers r) (js ''location'') = Some location" "new_url c = Inr v" "l = resolve_location v location"
      "m' = (if next_method (re_status r) m then js ''GET'' else m)" "b' = (if next_method (re_status r) m then None else b)"
      by blast
    show ?thesis
    proof (cases hs2)
      case Nil
      then show ?thesis by (simp add: hops linked_hops.last_one)
    next
      case (Cons h2 hs3)
      have e: "hp_url h2 = l" "hp_method h2 = m'" "hp_body h2 = b'" using follow_first [OF f] Cons by auto
      show ?thesis
        unfolding hops Cons
      proof (rule linked_hops.next_one)
        show "answers n = Some (Inr r)" "is_redirect (re_status r)" "rq_redirect request = js ''follow''"
          "fh_get (re_headers r) (js ''location'') = Some location" by (fact a p)+
        show "new_url (hp_url h) = Inr v" using p(4) by (simp add: h_def)
        show "hp_url h2 = resolve_location v location" using e p(5) by simp
        show "hp_method h2 = (if next_method (re_status r) (hp_method h) then js ''GET'' else hp_method h)"
          using e p(6) unfolding h_def build_hop_fields by simp
        show "hp_body h2 = (if next_method (re_status r) (hp_method h) then None else hp_body h)"
          using e p(7) unfolding h_def build_hop_fields by simp
        show "linked_hops answers request (n + 1) (h2 # hs3)" using l Cons by simp
      qed
    qed
  qed
qed

lemma follow_length:
  "fetchFollow env k ab answers c m hs b request n d = (hops, s) \<Longrightarrow> length hops \<le> 21 - n"
proof (induction env k ab answers c m hs b request n d arbitrary: hops s rule: fetchFollow.induct)
  case (1 env k ab answers c m hs b request n d)
  show ?case
  proof (cases "20 < n")
    case True
    then show ?thesis using 1(2) by (subst (asm) fetchFollow.simps) simp
  next
    case False
    show ?thesis
      using 1(2) 1(1) [OF False] False
      by (subst (asm) fetchFollow.simps) (fastforce simp: Let_def split: if_splits option.splits sum.splits prod.splits)
  qed
qed

text \<open>How a promise that is resolved got there.\<close>

lemma follow_resolved:
  "fetchFollow env k ab answers c m hs b request n d = (hops, Some (Resolved r)) \<Longrightarrow>
   hops \<noteq> [] \<and> re_url r = hp_url (last hops) \<and> (\<exists>r0. answers (n + length hops - 1) = Some (Inr r0) \<and> re_status r = re_status r0 \<and>
     (is_redirect (re_status r) \<and> rq_redirect request = js ''follow'' \<longrightarrow> fh_get (re_headers r0) (js ''location'') = None) \<and>
     (is_redirect (re_status r) \<and> rq_redirect request = js ''follow'' \<or> re_redirected r = (d \<or> 1 < length hops)))"
proof (induction "21 - n" arbitrary: n c m hs b d hops)
  case 0
  then have "20 < n" by simp
  then show ?case using 0(2) by (subst (asm) fetchFollow.simps) simp
next
  case (Suc j)
  then have n: "\<not> 20 < n" by simp
  from Suc.prems n obtain u r0 where a: "new_url c = Inr u" "\<not> ab n" "answers n = Some (Inr r0)"
    by (subst (asm) fetchFollow.simps) (auto simp: Let_def split: if_splits option.splits sum.splits prod.splits)
  define h where "h = build_hop env k u c m hs b (rq_decompress request)"
  show ?case
  proof (cases "handleFetchResponse (r0\<lparr>re_url := c\<rparr>) c m b request d")
    case (Inl s)
    then have hops: "hops = [h]" "s = Resolved r"
      using Suc.prems n a by (subst (asm) fetchFollow.simps, simp add: Let_def h_def)+
    have "re_url r = c \<and> re_status r = re_status r0 \<and>
       (is_redirect (re_status r) \<and> rq_redirect request = js ''follow'' \<longrightarrow> fh_get (re_headers r0) (js ''location'') = None) \<and>
       (is_redirect (re_status r) \<and> rq_redirect request = js ''follow'' \<or> re_redirected r = d)"
      using Inl a(1) unfolding hops(2) handleFetchResponse_def by (auto simp: Let_def split: if_splits option.splits)
    then show ?thesis using a(3) by (auto simp: hops h_def)
  next
    case (Inr x)
    then obtain l m' b' where x: "handleFetchResponse (r0\<lparr>re_url := c\<rparr>) c m b request d = Inr (l, m', b')" by (cases x) auto
    obtain hs2 s2 where f: "fetchFollow env k ab answers l m' (no_headers\<lparr>fh_entries := fh_entries hs\<rparr>) b' request (n + 1) True = (hs2, s2)"
      by fastforce
    have hops: "hops = h # hs2" "s2 = Some (Resolved r)"
      using Suc.prems n a x f by (subst (asm) fetchFollow.simps, simp add: Let_def h_def)+
    have "21 - (n + 1) = j" using Suc.hyps(2) by simp
    from Suc.hyps(1) [OF this [symmetric] f [unfolded hops(2)]] show ?thesis
      unfolding hops(1) by auto
  qed
qed

text \<open>When it stays pending.\<close>

lemma follow_pending:
  "fetchFollow env k ab answers c m hs b request n d = (hops, s) \<Longrightarrow>
   s = None \<longleftrightarrow> hops \<noteq> [] \<and> answers (n + length hops - 1) = None"
proof (induction env k ab answers c m hs b request n d arbitrary: hops s rule: fetchFollow.induct)
  case (1 env k ab answers c m hs b request n d)
  show ?case
  proof (cases "20 < n")
    case True
    then show ?thesis using 1(2) by (subst (asm) fetchFollow.simps) auto
  next
    case False
    show ?thesis
      using 1(2) 1(1) [OF False] False
      by (subst (asm) fetchFollow.simps)
        (fastforce simp: Let_def split: if_splits option.splits sum.splits prod.splits)
  qed
qed

text \<open>C18: A fetch sends at most 21 requests, each after the first asked for by a redirect, with the method and the body
the status calls for. Its promise stays pending exactly when the last request sent is never answered; so it is settled
whenever every hop ends, with an answer or an error. A response is the answer to the last request.\<close>

theorem redirects_followed:
  "let result = fetchFollow env keepAlive aborted answers (rq_url request) (rq_method request) headers (rq_body request) request 0 False
   in length (fst result) \<le> 21 \<and> linked_hops answers request 0 (fst result) \<and>
    (snd result = None) = (fst result \<noteq> [] \<and> answers (length (fst result) - 1) = None) \<and>
    (case snd result of
       Some (Resolved r) \<Rightarrow> fst result \<noteq> [] \<and> re_url r = hp_url (last (fst result)) \<and>
         (\<exists>r0. answers (length (fst result) - 1) = Some (Inr r0) \<and> re_status r = re_status r0) \<and>
         (is_redirect (re_status r) \<or> re_redirected r = (1 < length (fst result)))
     | _ \<Rightarrow> True)"
proof -
  obtain hops s where f: "fetchFollow env keepAlive aborted answers (rq_url request) (rq_method request) headers (rq_body request) request 0 False = (hops, s)"
    by fastforce
  show ?thesis
    using follow_length [OF f] follow_linked [OF f] follow_pending [OF f] follow_resolved [of env keepAlive aborted answers "rq_url request" "rq_method request" headers "rq_body request" request 0 False hops] f
    unfolding f Let_def fst_conv snd_conv by (auto split: option.split settlement.split)
qed

section \<open>Behaviour that differs from the Fetch standard\<close>

text \<open>
  A relative location is put behind the host instead of being resolved against the path; one that begins with two
  slashes names a path, not a host; and any \<open>://\<close>, in a query too, makes a location absolute.
\<close>

definition page :: url where
  "page = empty_url\<lparr>u_protocol := HTTP, u_hostname := [104], u_pathname := js ''/a/b''\<rparr>"

lemma location_not_resolved:
  "resolve_location page (js ''c'') = js ''http://h/c''"
  "resolve_location page (js ''//x/c'') = js ''http://h//x/c''"
  "resolve_location page (js ''/l?u=http://x'') = js ''/l?u=http://x''"
  by (simp_all add: resolve_location_def contains_def page_def empty_url_def HTTP_def)

text \<open>The headers of the caller go to every host; other schemes are fetched over plain HTTP on port 80.\<close>

lemma credentials_forwarded:
  "hp_raw (build_hop env keepAlive u c m headers b (Some True)) =
   buildRawRequest u m (accept_encoding (no_headers\<lparr>fh_entries := fh_entries headers\<rparr>)) b False"
  "answers n = Some (Inr r) \<Longrightarrow> \<not> 20 < n \<Longrightarrow> new_url c = Inr u \<Longrightarrow> \<not> aborted n \<Longrightarrow>
   handleFetchResponse (r\<lparr>re_url := c\<rparr>) c m b request d = Inr (l, m', b') \<Longrightarrow>
   snd (fetchFollow env keepAlive aborted answers c m headers b request n d) =
   snd (fetchFollow env keepAlive aborted answers l m' (no_headers\<lparr>fh_entries := fh_entries headers\<rparr>) b' request (n + 1) True)"
  by (simp add: build_hop_def Let_def, subst fetchFollow.simps, simp add: Let_def split: prod.split)

lemma other_scheme:
  "hp_tls (build_hop env keepAlive (page\<lparr>u_protocol := FTP\<rparr>) c m h b d) = False \<and>
   hp_port (build_hop env keepAlive (page\<lparr>u_protocol := FTP\<rparr>) c m h b d) = Some 80"
  by (auto simp: build_hop_def Let_def page_def empty_url_def protocol_defs url_port_def split: option.split)

text \<open>
  Through a plain proxy a body is sent without its length, and a tunnel is taken as open when the digits of the
  status 200 are anywhere in the answer.
\<close>

lemma proxy_body_unframed:
  "proxy_request page (js ''http://h/a/b'') (Some 80) (js ''POST'') no_headers (Some (js ''x'')) =
   js ''POST http://h/a/b HTTP/1.1'' @ CRLF @ js ''Host: h'' @ CRLF @ CRLF @ js ''x''"
  by (simp add: proxy_request_def page_def fh_toRaw_def no_headers_def has_body_def CRLF_def)

lemma tunnel_refused: "tunnel_open (js ''HTTP/1.1 502 Bad Gateway'' @ CRLF @ js ''Content-Length: 1200'')"
  by (simp add: tunnel_open_def contains_def CRLF_def)

end
