(* ===== verification/Combinators.thy ===== *)
theory Combinators
  imports Prelude
begin

text \<open>
  The combinators of promises in \<open>builtins_stubs.js\<close>: \<open>all\<close>, \<open>allSettled\<close>, \<open>any\<close>, \<open>race\<close> and the two over the keys
  of an object. User code is met in three places, and any of it may call the callbacks of any element any number of
  times: the iterator, \<open>C.resolve\<close>, and the method \<open>then\<close> of an element. So an element is what its turn in the loop
  does, with the calls of callbacks that happen in it; calls after the loop follow as a list. The functions of the
  capability are logged, and a promise takes the first call.
\<close>

section \<open>Capabilities\<close>

text \<open>What an executor is called with; a capability is good when both are functions.\<close>

datatype cap_arg = ArgUndefined | ArgFunction nat | ArgOther

record cap =
  cp_resolve :: cap_arg
  cp_reject :: cap_arg

text \<open>The executor: the second call with something stored throws in the constructor, which may let it pass.\<close>

definition executor :: "cap_arg \<times> cap_arg \<Rightarrow> cap \<Rightarrow> cap result" where
  "executor args c =
     (if cp_resolve c \<noteq> ArgUndefined \<or> cp_reject c \<noteq> ArgUndefined
      then Inl (TypeError ''Promise executor has already been invoked'')
      else Inr \<lparr>cp_resolve = fst args, cp_reject = snd args\<rparr>)"

text \<open>A constructor calls the executor some times; \<open>propagates\<close> says whether it lets the exception through.\<close>

fun construct :: "bool \<Rightarrow> (cap_arg \<times> cap_arg) list \<Rightarrow> cap \<Rightarrow> cap result" where
  "construct propagates [] c = Inr c"
| "construct propagates (a # as) c =
     (case executor a c of
        Inr c' \<Rightarrow> construct propagates as c'
      | Inl e \<Rightarrow> if propagates then Inl e else construct propagates as c)"

definition is_function :: "cap_arg \<Rightarrow> bool" where
  "is_function a \<longleftrightarrow> (case a of ArgFunction _ \<Rightarrow> True | _ \<Rightarrow> False)"

definition newPromiseCapability :: "bool \<Rightarrow> bool \<Rightarrow> (cap_arg \<times> cap_arg) list \<Rightarrow> cap result" where
  "newPromiseCapability callable propagates calls =
     (if \<not> callable then Inl (TypeError ''Promise capability requires a constructor'')
      else bind_result (construct propagates calls \<lparr>cp_resolve = ArgUndefined, cp_reject = ArgUndefined\<rparr>) (\<lambda>c.
        if is_function (cp_resolve c) \<and> is_function (cp_reject c) then Inr c
        else Inl (TypeError ''Promise resolve/reject capability is not callable'')))"

section \<open>The bookkeeping of the elements\<close>

datatype kind = All | AllSettled | AnyOf | Race | AllKeyed | AllSettledKeyed

datatype 'v comb_slot = Empty | Value 'v | Fulfilled 'v | RejectedWith 'v

datatype 'v callback = Ful 'v | Rej 'v

datatype 'v reason = Reason 'v | TypeErr string

datatype 'v settle_call =
    ResolveValue 'v
  | ResolveArray "'v comb_slot list"
  | ResolveObject "(jsstr \<times> 'v comb_slot) list"
  | RejectReason "'v reason"
  | RejectAggregate "'v comb_slot list"

record 'v comb =
  cb_remaining :: int
  cb_index :: nat
  cb_values :: "'v comb_slot list"
  cb_keys :: "jsstr list"
  cb_called :: "nat set"
  cb_calls :: "'v settle_call list"
  cb_returns :: nat

definition comb_start :: "'v comb" where
  "comb_start = \<lparr>cb_remaining = 1, cb_index = 0, cb_values = [], cb_keys = [], cb_called = {}, cb_calls = [], cb_returns = 0\<rparr>"

definition cap_call :: "'v settle_call \<Rightarrow> 'v comb \<Rightarrow> 'v comb" where
  "cap_call c s = s\<lparr>cb_calls := cb_calls s @ [c]\<rparr>"

text \<open>\<open>settleAll\<close>, \<open>settleKeyed\<close>, \<open>rejectWithAggregate\<close> and the empty function of \<open>race\<close>.\<close>

definition on_all_settled :: "kind \<Rightarrow> 'v comb \<Rightarrow> 'v comb" where
  "on_all_settled k s =
     (case k of
        All \<Rightarrow> cap_call (ResolveArray (cb_values s)) s
      | AllSettled \<Rightarrow> cap_call (ResolveArray (cb_values s)) s
      | AllKeyed \<Rightarrow> cap_call (ResolveObject (zip (cb_keys s) (cb_values s))) s
      | AllSettledKeyed \<Rightarrow> cap_call (ResolveObject (zip (cb_keys s) (cb_values s))) s
      | AnyOf \<Rightarrow> cap_call (RejectAggregate (cb_values s)) s
      | Race \<Rightarrow> s)"

definition setSlot :: "nat \<Rightarrow> 'v comb_slot \<Rightarrow> 'v comb \<Rightarrow> 'v comb" where
  "setSlot idx v s = s\<lparr>cb_values := (cb_values s)[idx := v]\<rparr>"

text \<open>\<open>--state.remaining === 0\<close> and what follows.\<close>

definition count_down :: "kind \<Rightarrow> 'v comb \<Rightarrow> 'v comb" where
  "count_down k s =
     (let s1 = s\<lparr>cb_remaining := cb_remaining s - 1\<rparr>
      in if cb_remaining s1 = 0 then on_all_settled k s1 else s1)"

text \<open>A guarded element function takes effect once; \<open>allSettled\<close> has one guard for both.\<close>

definition once_do :: "nat \<Rightarrow> ('v comb \<Rightarrow> 'v comb) \<Rightarrow> 'v comb \<Rightarrow> 'v comb" where
  "once_do idx f s = (if idx \<in> cb_called s then s else f (s\<lparr>cb_called := insert idx (cb_called s)\<rparr>))"

definition fill_slot :: "kind \<Rightarrow> nat \<Rightarrow> 'v comb_slot \<Rightarrow> 'v comb \<Rightarrow> 'v comb" where
  "fill_slot k idx v = once_do idx (\<lambda>s. count_down k (setSlot idx v s))"

text \<open>A call of a callback that \<open>then\<close> was given for the element \<open>idx\<close>.\<close>

definition element_call :: "kind \<Rightarrow> nat \<Rightarrow> 'v callback \<Rightarrow> 'v comb \<Rightarrow> 'v comb" where
  "element_call k idx c =
     (case k of
        All \<Rightarrow> (case c of Ful v \<Rightarrow> fill_slot k idx (Value v) | Rej r \<Rightarrow> cap_call (RejectReason (Reason r)))
      | AllKeyed \<Rightarrow> (case c of Ful v \<Rightarrow> fill_slot k idx (Value v) | Rej r \<Rightarrow> cap_call (RejectReason (Reason r)))
      | AllSettled \<Rightarrow> (case c of Ful v \<Rightarrow> fill_slot k idx (Fulfilled v) | Rej r \<Rightarrow> fill_slot k idx (RejectedWith r))
      | AllSettledKeyed \<Rightarrow> (case c of Ful v \<Rightarrow> fill_slot k idx (Fulfilled v) | Rej r \<Rightarrow> fill_slot k idx (RejectedWith r))
      | AnyOf \<Rightarrow> (case c of Ful v \<Rightarrow> cap_call (ResolveValue v) | Rej r \<Rightarrow> fill_slot k idx (Value r))
      | Race \<Rightarrow> (case c of Ful v \<Rightarrow> cap_call (ResolveValue v) | Rej r \<Rightarrow> cap_call (RejectReason (Reason r))))"

type_synonym 'v calls = "(nat \<times> 'v callback) list"

definition run_callbacks :: "kind \<Rightarrow> 'v calls \<Rightarrow> 'v comb \<Rightarrow> 'v comb" where
  "run_callbacks k cs = fold (\<lambda>(i, c). element_call k i c) cs"

section \<open>The loop\<close>

text \<open>
  The turn of an element: \<open>C.resolve\<close> throws, or \<open>then\<close> is called, calls some callbacks, and may throw. Calls
  inside \<open>next\<close> and \<open>C.resolve\<close> are among those of the turn before. At the end the iterator is done, or \<open>next\<close>
  or one of the getters throws, or the result is no object.
\<close>

datatype 'v element = ResolveThrows 'v | Then "'v calls" "'v option"

datatype 'v iter_end = Exhausted | NextThrows 'v | NotAnObject

definition iteratorClose :: "'v comb \<Rightarrow> 'v comb" where
  "iteratorClose s = s\<lparr>cb_returns := cb_returns s + 1\<rparr>"

definition new_slot :: "'v comb \<Rightarrow> 'v comb" where
  "new_slot s = s\<lparr>cb_index := cb_index s + 1, cb_values := cb_values s @ [Empty], cb_remaining := cb_remaining s + 1\<rparr>"

fun performCombinator :: "kind \<Rightarrow> 'v element list \<Rightarrow> 'v iter_end \<Rightarrow> 'v comb \<Rightarrow> 'v comb \<times> 'v reason option" where
  "performCombinator k [] fin s =
     (case fin of
        Exhausted \<Rightarrow> (count_down k s, None)
      | NextThrows x \<Rightarrow> (s, Some (Reason x))
      | NotAnObject \<Rightarrow> (s, Some (TypeErr ''Iterator result is not an object'')))"
| "performCombinator k (e # es) fin s =
     (let s1 = new_slot s
      in case e of
           ResolveThrows x \<Rightarrow> (iteratorClose s1, Some (Reason x))
         | Then cs thrown \<Rightarrow>
             (let s2 = run_callbacks k cs s1
              in case thrown of
                   Some x \<Rightarrow> (iteratorClose s2, Some (Reason x))
                 | None \<Rightarrow> performCombinator k es fin s2))"

text \<open>What \<open>getIterator\<close> gives, or why it does not.\<close>

datatype 'v iterable = NotIterable | MethodThrows 'v | IteratorNoObject | NextNotCallable | Items "'v element list" "'v iter_end"

definition getIterator :: "'v iterable \<Rightarrow> 'v reason + ('v element list \<times> 'v iter_end)" where
  "getIterator it =
     (case it of
        NotIterable \<Rightarrow> Inl (TypeErr ''Promise combinator argument is not iterable'')
      | MethodThrows x \<Rightarrow> Inl (Reason x)
      | IteratorNoObject \<Rightarrow> Inl (TypeErr ''Result of the Symbol.iterator method is not an object'')
      | NextNotCallable \<Rightarrow> Inl (TypeErr ''Iterator `next` is not callable'')
      | Items es fin \<Rightarrow> Inr (es, fin))"

text \<open>\<open>Promise.all\<close>, \<open>allSettled\<close>, \<open>any\<close> and \<open>race\<close>: what is thrown rejects the capability.\<close>

definition combinator :: "kind \<Rightarrow> bool \<Rightarrow> 'v iterable \<Rightarrow> 'v comb" where
  "combinator k resolveCallable it =
     (if \<not> resolveCallable then cap_call (RejectReason (TypeErr ''Promise.resolve is not callable'')) comb_start
      else case getIterator it of
        Inl r \<Rightarrow> cap_call (RejectReason r) comb_start
      | Inr (es, fin) \<Rightarrow>
          (case performCombinator k es fin comb_start of
             (s, None) \<Rightarrow> s
           | (s, Some r) \<Rightarrow> cap_call (RejectReason r) s))"

text \<open>
  The keys of an object, in the order of \<open>Reflect.ownKeys\<close>: a property that is gone or not enumerable is skipped,
  a getter may throw, otherwise its value has a turn. Nothing is closed. Keys are different, so the position
  of a key says which it is.
\<close>

datatype 'v property = Skipped | GetterThrows 'v | Own "'v element"

fun performKeyedCombinator :: "kind \<Rightarrow> (jsstr \<times> 'v property) list \<Rightarrow> 'v comb \<Rightarrow> 'v comb \<times> 'v reason option" where
  "performKeyedCombinator k [] s = (count_down k s, None)"
| "performKeyedCombinator k ((key, p) # ps) s =
     (case p of
        Skipped \<Rightarrow> performKeyedCombinator k ps s
      | GetterThrows x \<Rightarrow> (s, Some (Reason x))
      | Own e \<Rightarrow>
          (let s1 = (new_slot s)\<lparr>cb_keys := cb_keys s @ [key]\<rparr>
           in case e of
                ResolveThrows x \<Rightarrow> (s1, Some (Reason x))
              | Then cs thrown \<Rightarrow>
                  (let s2 = run_callbacks k cs s1
                   in case thrown of Some x \<Rightarrow> (s2, Some (Reason x)) | None \<Rightarrow> performKeyedCombinator k ps s2)))"

definition keyed_combinator :: "kind \<Rightarrow> bool \<Rightarrow> (jsstr \<times> 'v property) list option \<Rightarrow> 'v comb" where
  "keyed_combinator k resolveCallable obj =
     (case obj of
        None \<Rightarrow> cap_call (RejectReason (TypeErr ''Promise combinator argument is not an object'')) comb_start
      | Some ps \<Rightarrow>
          if \<not> resolveCallable then cap_call (RejectReason (TypeErr ''Promise.resolve is not callable'')) comb_start
          else case performKeyedCombinator k ps comb_start of
                 (s, None) \<Rightarrow> s
               | (s, Some r) \<Rightarrow> cap_call (RejectReason r) s)"

text \<open>\<open>Promise.try\<close>, with the result of the callback.\<close>

definition promise_try :: "'v + 'v \<Rightarrow> 'v settle_call" where
  "promise_try r = (case r of Inl e \<Rightarrow> RejectReason (Reason e) | Inr v \<Rightarrow> ResolveValue v)"

section \<open>What the calls amount to\<close>

text \<open>
  Specification: a call either fills the slot of its element, when it is the first to do so, or goes straight to the
  capability. \<open>filled\<close> lists the first kind with their slots, \<open>direct_calls\<close> the second.
\<close>

fun recorded :: "kind \<Rightarrow> 'v callback \<Rightarrow> 'v comb_slot option" where
  "recorded All (Ful v) = Some (Value v)"
| "recorded AllKeyed (Ful v) = Some (Value v)"
| "recorded AllSettled (Ful v) = Some (Fulfilled v)"
| "recorded AllSettled (Rej r) = Some (RejectedWith r)"
| "recorded AllSettledKeyed (Ful v) = Some (Fulfilled v)"
| "recorded AllSettledKeyed (Rej r) = Some (RejectedWith r)"
| "recorded AnyOf (Rej r) = Some (Value r)"
| "recorded _ _ = None"

fun direct :: "kind \<Rightarrow> 'v callback \<Rightarrow> 'v settle_call option" where
  "direct All (Rej r) = Some (RejectReason (Reason r))"
| "direct AllKeyed (Rej r) = Some (RejectReason (Reason r))"
| "direct AnyOf (Ful v) = Some (ResolveValue v)"
| "direct Race (Ful v) = Some (ResolveValue v)"
| "direct Race (Rej r) = Some (RejectReason (Reason r))"
| "direct _ _ = None"

definition filled :: "kind \<Rightarrow> 'v calls \<Rightarrow> (nat \<times> 'v comb_slot) list" where
  "filled k cs = List.map_filter (\<lambda>(i, c). map_option (Pair i) (recorded k c)) cs"

definition direct_calls :: "kind \<Rightarrow> 'v calls \<Rightarrow> 'v settle_call list" where
  "direct_calls k cs = List.map_filter (\<lambda>(i, c). direct k c) cs"

definition settle_calls :: "kind \<Rightarrow> jsstr list \<Rightarrow> 'v comb_slot list \<Rightarrow> 'v settle_call list" where
  "settle_calls k ks vs =
     (case k of
        All \<Rightarrow> [ResolveArray vs] | AllSettled \<Rightarrow> [ResolveArray vs]
      | AllKeyed \<Rightarrow> [ResolveObject (zip ks vs)] | AllSettledKeyed \<Rightarrow> [ResolveObject (zip ks vs)]
      | AnyOf \<Rightarrow> [RejectAggregate vs] | Race \<Rightarrow> [])"

definition slots :: "kind \<Rightarrow> nat \<Rightarrow> 'v calls \<Rightarrow> 'v comb_slot list" where
  "slots k n cs = map (\<lambda>i. case map_of (filled k cs) i of None \<Rightarrow> Empty | Some x \<Rightarrow> x) [0..<n]"

lemma on_all_settled_calls: "on_all_settled k s = s\<lparr>cb_calls := cb_calls s @ settle_calls k (cb_keys s) (cb_values s)\<rparr>"
  by (cases k) (simp_all add: on_all_settled_def settle_calls_def cap_call_def)

lemma element_call_cases:
  "element_call k i c s = (case recorded k c of
     Some v \<Rightarrow> fill_slot k i v s
   | None \<Rightarrow> (case direct k c of Some d \<Rightarrow> cap_call d s | None \<Rightarrow> s))"
  by (cases k; cases c) (simp_all add: element_call_def)

lemma recorded_or_direct: "recorded k c = None \<longleftrightarrow> direct k c \<noteq> None"
  by (cases k; cases c) simp_all

lemma filled_simps [simp]:
  "filled k [] = []" "direct_calls k [] = []"
  "filled k (cs @ ds) = filled k cs @ filled k ds" "direct_calls k (cs @ ds) = direct_calls k cs @ direct_calls k ds"
  by (simp_all add: filled_def direct_calls_def map_filter_simps map_filter_def)

lemma filled_one:
  "filled k [(i, c)] = (case recorded k c of None \<Rightarrow> [] | Some v \<Rightarrow> [(i, v)])"
  "direct_calls k [(i, c)] = (case direct k c of None \<Rightarrow> [] | Some d \<Rightarrow> [d])"
  by (simp_all add: filled_def direct_calls_def map_filter_simps split: option.split)

lemma run_callbacks_simps [simp]:
  "run_callbacks k [] s = s" "run_callbacks k (c # cs) s = run_callbacks k cs (element_call k (fst c) (snd c) s)"
  "run_callbacks k (cs @ ds) s = run_callbacks k ds (run_callbacks k cs s)"
  by (simp_all add: run_callbacks_def split_def)

section \<open>The invariant of the bookkeeping\<close>

text \<open>
  After \<open>n\<close> elements and the calls \<open>cs\<close>, \<open>ended\<close> when the loop has ended: the slots are what the first recorded calls
  say, the counter is the number of open slots and one for the loop, and the calls of the capability are the
  direct ones with the settling one among them once the counter is 0.
\<close>

definition comb_inv :: "kind \<Rightarrow> nat \<Rightarrow> 'v calls \<Rightarrow> bool \<Rightarrow> 'v comb \<Rightarrow> bool" where
  "comb_inv k n cs ended s \<longleftrightarrow>
     fst ` set (filled k cs) \<subseteq> {..<n} \<and> cb_index s = n \<and> cb_values s = slots k n cs \<and> cb_returns s = 0 \<and>
     cb_called s = fst ` set (filled k cs) \<and>
     cb_remaining s = (if ended then 0 else 1) + int n - int (card (fst ` set (filled k cs))) \<and>
     (if ended \<and> fst ` set (filled k cs) = {..<n}
      then \<exists>xs ys. direct_calls k cs = xs @ ys \<and> cb_calls s = xs @ settle_calls k (cb_keys s) (cb_values s) @ ys
      else cb_calls s = direct_calls k cs)"

lemma length_slots [simp]: "length (slots k n cs) = n"
  by (simp add: slots_def)

lemma slots_new: "fst ` set (filled k cs) \<subseteq> {..<n} \<Longrightarrow> slots k (Suc n) cs = slots k n cs @ [Empty]"
proof -
  assume "fst ` set (filled k cs) \<subseteq> {..<n}"
  then have "map_of (filled k cs) n = None" by (auto simp: map_of_eq_None_iff)
  then show ?thesis by (simp add: slots_def)
qed

lemma slots_fill:
  assumes "i < n" "recorded k c = Some v"
  shows "slots k n (cs @ [(i, c)]) = (if i \<in> fst ` set (filled k cs) then slots k n cs else (slots k n cs)[i := v])"
proof (rule nth_equalityI)
  show "length (slots k n (cs @ [(i, c)])) = length (if i \<in> fst ` set (filled k cs) then slots k n cs else (slots k n cs)[i := v])" by simp
next
  fix j assume "j < length (slots k n (cs @ [(i, c)]))"
  then have j: "j < n" by simp
  have d: "i \<in> fst ` set (filled k cs) \<longleftrightarrow> map_of (filled k cs) i \<noteq> None" by (simp add: map_of_eq_None_iff)
  show "slots k n (cs @ [(i, c)]) ! j = (if i \<in> fst ` set (filled k cs) then slots k n cs else (slots k n cs)[i := v]) ! j"
    using j assms d by (auto simp: slots_def filled_one map_add_def nth_list_update split: option.splits)
qed

lemma new_slot_inv: "comb_inv k n cs False s \<Longrightarrow> comb_inv k (Suc n) cs False (new_slot s)"
  by (auto simp: comb_inv_def new_slot_def slots_new)

lemma all_filled_card:
  "A \<subseteq> {..<n} \<Longrightarrow> A = {..<n} \<longleftrightarrow> card A = n" for A :: "nat set"
  by (metis card_lessThan card_subset_eq finite_lessThan)

lemma count_down_eq:
  "count_down k s = (let r = cb_remaining s - 1 in s\<lparr>cb_remaining := r,
     cb_calls := cb_calls s @ (if r = 0 then settle_calls k (cb_keys s) (cb_values s) else [])\<rparr>)"
  by (simp add: count_down_def on_all_settled_calls Let_def)

lemma finish_inv:
  assumes "comb_inv k n cs False s" shows "comb_inv k n cs True (count_down k s)"
proof -
  have sub: "fst ` set (filled k cs) \<subseteq> {..<n}" using assms by (simp add: comb_inv_def)
  show ?thesis
    using assms all_filled_card [OF sub] by (auto simp: comb_inv_def count_down_eq Let_def)
qed

lemma call_inv:
  assumes inv: "comb_inv k n cs e s" and i: "i < n"
  shows "comb_inv k n (cs @ [(i, c)]) e (element_call k i c s)"
proof (cases "recorded k c")
  case None
  then obtain d where d: "direct k c = Some d" using recorded_or_direct by fastforce
  have f: "filled k (cs @ [(i, c)]) = filled k cs" "slots k n (cs @ [(i, c)]) = slots k n cs"
    "direct_calls k (cs @ [(i, c)]) = direct_calls k cs @ [d]"
    using None d by (simp_all add: filled_one slots_def)
  show ?thesis
    using inv unfolding comb_inv_def f element_call_cases None option.case d
    by (auto simp: cap_call_def) (metis append.assoc)
next
  case (Some v)
  then have dn: "direct k c = None" by (metis recorded_or_direct option.distinct(1))
  have f: "filled k (cs @ [(i, c)]) = filled k cs @ [(i, v)]" "direct_calls k (cs @ [(i, c)]) = direct_calls k cs"
    using Some dn by (simp_all add: filled_one)
  note sl = slots_fill [OF i Some, of cs]
  let ?A = "fst ` set (filled k cs)"
  have sub: "?A \<subseteq> {..<n}" and fin: "finite ?A" using inv by (simp_all add: comb_inv_def)
  show ?thesis
  proof (cases "i \<in> ?A")
    case True
    have same: "element_call k i c s = s"
      using inv True unfolding element_call_cases Some option.case by (simp add: comb_inv_def fill_slot_def once_do_def)
    have A: "fst ` set (filled k cs @ [(i, v)]) = ?A" using True by auto
    have sl': "slots k n (cs @ [(i, c)]) = slots k n cs" using sl True by simp
    show ?thesis using inv unfolding same comb_inv_def f A sl' .
  next
    case False
    then have c: "card (insert i ?A) = Suc (card ?A)" and sub2: "insert i ?A \<subseteq> {..<n}" and ne: "?A \<noteq> {..<n}"
      using fin sub i by auto
    have eq: "insert i ?A = {..<n} \<longleftrightarrow> Suc (card ?A) = n" using all_filled_card [OF sub2] c by simp
    have lt: "card ?A < n" using psubset_card_mono [of "{..<n}" ?A] sub ne by auto
    have ex: "\<exists>xs ys. d = xs @ ys \<and> d @ z = xs @ z @ ys" for d z :: "'a settle_call list"
      by (rule exI [of _ d], rule exI [of _ "[]"]) simp
    show ?thesis
      using inv False c eq ne lt i sub2 ex [of "direct_calls k cs" "settle_calls k (cb_keys s) ((slots k n cs)[i := v])"]
      unfolding comb_inv_def element_call_cases Some option.case f sl
      by (auto simp: fill_slot_def once_do_def setSlot_def count_down_eq Let_def)
  qed
qed

lemma calls_inv:
  "comb_inv k n cs e s \<Longrightarrow> \<forall>c \<in> set ds. fst c < n \<Longrightarrow> comb_inv k n (cs @ ds) e (run_callbacks k ds s)"
proof (induction ds arbitrary: cs s)
  case (Cons d ds)
  have "comb_inv k n ((cs @ [d]) @ ds) e (run_callbacks k ds (element_call k (fst d) (snd d) s))"
    by (rule Cons.IH) (use Cons.prems call_inv [of k n cs e s "fst d" "snd d"] in auto)
  then show ?case by simp
qed simp

section \<open>The outcome\<close>

text \<open>A loop that meets no exception: the turns have calls of elements that there are by then.\<close>

fun calls_in_turn :: "nat \<Rightarrow> 'v calls list \<Rightarrow> bool" where
  "calls_in_turn n [] \<longleftrightarrow> True"
| "calls_in_turn n (cs # css) \<longleftrightarrow> (\<forall>c \<in> set cs. fst c \<le> n) \<and> calls_in_turn (Suc n) css"

abbreviation turns :: "'v calls list \<Rightarrow> 'v element list" where
  "turns css \<equiv> map (\<lambda>cs. Then cs None) css"

lemma cb_keys_calls [simp]: "cb_keys (run_callbacks k cs s) = cb_keys s" "cb_keys (count_down k s) = cb_keys s"
proof -
  have "cb_keys (element_call k i c s) = cb_keys s" for i c s
    by (auto simp: element_call_cases fill_slot_def once_do_def count_down_eq Let_def setSlot_def cap_call_def split: option.split)
  note el = this
  show "cb_keys (run_callbacks k cs s) = cb_keys s" by (induction cs arbitrary: s) (simp_all add: el)
  show "cb_keys (count_down k s) = cb_keys s" by (simp add: count_down_eq Let_def)
qed

lemma turn_inv:
  "comb_inv k n cs False s \<Longrightarrow> \<forall>d \<in> set ds. fst d \<le> n \<Longrightarrow> comb_inv k (Suc n) (cs @ ds) False (run_callbacks k ds (new_slot s))"
  by (rule calls_inv [OF new_slot_inv]) (auto simp: less_Suc_eq_le)

lemma loop_inv:
  "comb_inv k n cs False s \<Longrightarrow> calls_in_turn n css \<Longrightarrow>
   \<exists>s'. performCombinator k (turns css) Exhausted s = (s', None) \<and> comb_inv k (n + length css) (cs @ concat css) True s' \<and> cb_keys s' = cb_keys s"
proof (induction css arbitrary: n cs s)
  case Nil
  then show ?case using finish_inv [of k n cs s] by simp
next
  case (Cons c css)
  have "comb_inv k (Suc n) (cs @ c) False (run_callbacks k c (new_slot s))"
    by (rule turn_inv [OF Cons.prems(1)]) (use Cons.prems(2) in simp)
  from Cons.IH [OF this] Cons.prems(2) show ?case by (simp add: Let_def new_slot_def)
qed

lemma start_inv: "comb_inv k 0 [] False comb_start"
  by (simp add: comb_inv_def comb_start_def slots_def)

lemma combinator_inv:
  assumes "calls_in_turn 0 css" "\<forall>c \<in> set later. fst c < length css"
  shows "comb_inv k (length css) (concat css @ later) True (run_callbacks k later (combinator k True (Items (turns css) Exhausted)))"
    and "cb_keys (run_callbacks k later (combinator k True (Items (turns css) Exhausted))) = []"
proof -
  from loop_inv [OF start_inv assms(1)] obtain s
    where s: "performCombinator k (turns css) Exhausted comb_start = (s, None)" "comb_inv k (length css) (concat css) True s" "cb_keys s = []"
    by (auto simp: comb_start_def)
  then have "combinator k True (Items (turns css) Exhausted) = s" by (simp add: combinator_def getIterator_def)
  then show "comb_inv k (length css) (concat css @ later) True (run_callbacks k later (combinator k True (Items (turns css) Exhausted)))"
    and "cb_keys (run_callbacks k later (combinator k True (Items (turns css) Exhausted))) = []"
    using calls_inv [OF s(2) assms(2)] s(3) by simp_all
qed

text \<open>C23: For every way in which the elements call back, in the loop or after it, in any order and any number of
times: the combined promise is settled by a list exactly when every element has made a call that counts, once,
with the first of each in the order of the input; the other calls of the capability are the direct ones in their
order.\<close>

theorem combinators_outcome:
  assumes "calls_in_turn 0 css" "\<forall>c \<in> set later. fst c < length css"
  shows "let s = run_callbacks k later (combinator k True (Items (turns css) Exhausted));
      cs = concat css @ later; n = length css; done = (\<forall>i < n. map_of (filled k cs) i \<noteq> None)
    in cb_returns s = 0 \<and>
      (if done then \<exists>xs ys. direct_calls k cs = xs @ ys \<and>
           cb_calls s = xs @ settle_calls k [] (map (\<lambda>i. the (map_of (filled k cs) i)) [0..<n]) @ ys
       else cb_calls s = direct_calls k cs)"
proof -
  define s where "s = run_callbacks k later (combinator k True (Items (turns css) Exhausted))"
  define cs where "cs = concat css @ later"
  define n where "n = length css"
  have inv: "comb_inv k n cs True s" and keys: "cb_keys s = []"
    unfolding s_def cs_def n_def using combinator_inv [OF assms] by blast+
  have all: "fst ` set (filled k cs) = {..<n} \<longleftrightarrow> (\<forall>i < n. map_of (filled k cs) i \<noteq> None)"
    using inv by (auto simp: comb_inv_def map_of_eq_None_iff)
  have vals: "cb_values s = map (\<lambda>i. the (map_of (filled k cs) i)) [0..<n]" if "\<forall>i < n. map_of (filled k cs) i \<noteq> None"
    using inv that by (auto simp: comb_inv_def slots_def)
  show ?thesis
    using inv vals unfolding s_def [symmetric] cs_def [symmetric] n_def [symmetric] Let_def comb_inv_def keys all by auto
qed

text \<open>\<open>Promise.all\<close> of elements that only fulfil, and \<open>Promise.any\<close> of elements that only reject.\<close>

lemma all_in_order:
  assumes "calls_in_turn 0 css" "\<forall>c \<in> set later. fst c < length css"
    and "concat css @ later = map (\<lambda>(i, v). (i, Ful v)) vs"
  shows "cb_calls (run_callbacks All later (combinator All True (Items (turns css) Exhausted))) =
    (if \<forall>i < length css. map_of vs i \<noteq> None then [ResolveArray (map (\<lambda>i. Value (the (map_of vs i))) [0..<length css])] else [])"
proof -
  have f: "filled All (map (\<lambda>(i, v). (i, Ful v)) vs) = map (\<lambda>(i, v). (i, Value v)) vs"
    "direct_calls All (map (\<lambda>(i, v). (i, Ful v)) vs) = []"
    by (induction vs) (auto simp: filled_def direct_calls_def map_filter_simps)
  have m: "map_of (map (\<lambda>(i, v). (i, Value v)) vs) i = map_option Value (map_of vs i)" for i
    by (induction vs) auto
  show ?thesis
    using combinators_outcome [OF assms(1,2), of All] unfolding assms(3) f Let_def m
    by (auto simp: settle_calls_def split: if_splits intro!: map_cong)
qed

section \<open>Exceptions in the loop\<close>

fun first_throw :: "'v element list \<Rightarrow> 'v option" where
  "first_throw [] = None"
| "first_throw (ResolveThrows x # es) = Some x"
| "first_throw (Then cs (Some x) # es) = Some x"
| "first_throw (Then cs None # es) = first_throw es"

lemma returns_calls [simp]: "cb_returns (run_callbacks k cs s) = cb_returns s" "cb_returns (count_down k s) = cb_returns s"
proof -
  have el: "cb_returns (element_call k i c s) = cb_returns s" for i c s
    by (auto simp: element_call_cases fill_slot_def once_do_def count_down_eq Let_def setSlot_def cap_call_def split: option.split)
  show "cb_returns (run_callbacks k cs s) = cb_returns s" by (induction cs arbitrary: s) (simp_all add: el)
  show "cb_returns (count_down k s) = cb_returns s" by (simp add: count_down_eq Let_def)
qed

lemma loop_closes:
  "performCombinator k es fin s = (s', r) \<Longrightarrow>
   cb_returns s' = cb_returns s + (if first_throw es = None then 0 else 1) \<and>
   (case first_throw es of
      Some x \<Rightarrow> r = Some (Reason x)
    | None \<Rightarrow> r = (case fin of Exhausted \<Rightarrow> None | NextThrows x \<Rightarrow> Some (Reason x)
                 | NotAnObject \<Rightarrow> Some (TypeErr ''Iterator result is not an object'')))"
proof (induction es arbitrary: s)
  case Nil
  then show ?case by (auto split: iter_end.splits)
next
  case (Cons e es)
  show ?case
  proof (cases e)
    case (ResolveThrows x)
    then show ?thesis using Cons.prems by (auto simp: iteratorClose_def new_slot_def Let_def)
  next
    case (Then cs thrown)
    show ?thesis
    proof (cases thrown)
      case None
      with Then Cons.prems have "performCombinator k es fin (run_callbacks k cs (new_slot s)) = (s', r)" by (simp add: Let_def)
      from Cons.IH [OF this] show ?thesis unfolding Then None by (simp add: new_slot_def)
    next
      case (Some x)
      then show ?thesis using Cons.prems Then by (auto simp: iteratorClose_def new_slot_def Let_def)
    qed
  qed
qed

text \<open>C24: The iterator is closed exactly when \<open>C.resolve\<close> or \<open>then\<close> threw, once; an
exception of the iterator itself does not close it. Whatever is thrown first rejects the capability and is the
last call the combinator makes.\<close>

theorem combinator_closes:
  "let s = combinator k True (Items es fin)
   in cb_returns s = (if first_throw es = None then 0 else 1) \<and>
      (case first_throw es of
         Some x \<Rightarrow> cb_calls s \<noteq> [] \<and> last (cb_calls s) = RejectReason (Reason x)
       | None \<Rightarrow> (case fin of NextThrows x \<Rightarrow> cb_calls s \<noteq> [] \<and> last (cb_calls s) = RejectReason (Reason x) | _ \<Rightarrow> True))"
proof -
  obtain s r where p: "performCombinator k es fin comb_start = (s, r)" by fastforce
  have "cb_returns (comb_start :: 'a comb) = 0" by (simp add: comb_start_def)
  with loop_closes [OF p] p show ?thesis
    by (cases "first_throw es"; cases fin) (simp_all add: combinator_def getIterator_def cap_call_def)
qed

section \<open>Over the keys of an object\<close>

text \<open>The properties that take part, each with the calls in its turn; \<open>None\<close> for one that is skipped.\<close>

abbreviation properties :: "(jsstr \<times> 'v calls option) list \<Rightarrow> (jsstr \<times> 'v property) list" where
  "properties ps \<equiv> map (\<lambda>(key, c). (key, case c of None \<Rightarrow> Skipped | Some cs \<Rightarrow> Own (Then cs None))) ps"

definition own_calls :: "(jsstr \<times> 'v calls option) list \<Rightarrow> 'v calls list" where
  "own_calls ps = List.map_filter snd ps"

definition turn_keys :: "(jsstr \<times> 'v calls option) list \<Rightarrow> jsstr list" where
  "turn_keys ps = map fst (filter (\<lambda>p. snd p \<noteq> None) ps)"

lemma comb_inv_keys: "comb_inv k n cs False (s\<lparr>cb_keys := ks\<rparr>) = comb_inv k n cs False s"
  by (simp add: comb_inv_def)

lemma run_callbacks_keys:
  "\<not> e \<Longrightarrow> comb_inv k n cs e s \<Longrightarrow> \<forall>c \<in> set ds. fst c < n \<Longrightarrow> comb_inv k n (cs @ ds) e (run_callbacks k ds (s\<lparr>cb_keys := ks\<rparr>))"
  using calls_inv [of k n cs e "s\<lparr>cb_keys := ks\<rparr>" ds] by (simp add: comb_inv_keys)

lemma keyed_loop_inv:
  "comb_inv k n cs False s \<Longrightarrow> calls_in_turn n (own_calls ps) \<Longrightarrow>
   \<exists>s'. performKeyedCombinator k (properties ps) s = (s', None) \<and>
     comb_inv k (n + length (own_calls ps)) (cs @ concat (own_calls ps)) True s' \<and> cb_keys s' = cb_keys s @ turn_keys ps"
proof (induction ps arbitrary: n cs s)
  case Nil
  then show ?case using finish_inv [of k n cs s] by (simp add: own_calls_def turn_keys_def map_filter_simps)
next
  case (Cons p ps)
  obtain key c where p: "p = (key, c)" by (cases p)
  show ?case
  proof (cases c)
    case None
    then show ?thesis
      using Cons.IH [OF Cons.prems(1)] Cons.prems(2) by (simp add: p own_calls_def turn_keys_def map_filter_simps)
  next
    case (Some ds)
    define s2 where "s2 = run_callbacks k ds ((new_slot s)\<lparr>cb_keys := cb_keys s @ [key]\<rparr>)"
    have oc: "own_calls (p # ps) = ds # own_calls ps" "turn_keys (p # ps) = key # turn_keys ps"
      by (simp_all add: p Some own_calls_def turn_keys_def map_filter_simps)
    have "comb_inv k (Suc n) (cs @ ds) False s2"
      unfolding s2_def
      by (rule run_callbacks_keys [OF _ new_slot_inv [OF Cons.prems(1)]]) (use Cons.prems(2) oc in \<open>auto simp: less_Suc_eq_le\<close>)
    from Cons.IH [OF this] Cons.prems(2) show ?thesis
      unfolding oc by (simp add: p Some Let_def s2_def)
  qed
qed

text \<open>
  \<open>allKeyed\<close> and \<open>allSettledKeyed\<close>: the object has the enumerable keys in the order of the input, each with what its
  element was settled with first, whatever the order in which they were.
\<close>

theorem keyed_in_order:
  assumes "calls_in_turn 0 (own_calls ps)" "\<forall>c \<in> set later. fst c < length (own_calls ps)"
  shows "let s = run_callbacks AllSettledKeyed later (keyed_combinator AllSettledKeyed True (Some (properties ps)));
      cs = concat (own_calls ps) @ later; n = length (own_calls ps)
    in cb_calls s =
      (if \<forall>i < n. i \<in> fst ` set cs
       then [ResolveObject (zip (turn_keys ps)
               (map (\<lambda>i. case the (map_of cs i) of Ful v \<Rightarrow> Fulfilled v | Rej r \<Rightarrow> RejectedWith r) [0..<n]))]
       else [])"
proof -
  define cs where "cs = concat (own_calls ps) @ later"
  define n where "n = length (own_calls ps)"
  from keyed_loop_inv [OF start_inv assms(1)] obtain s0
    where s0: "performKeyedCombinator AllSettledKeyed (properties ps) comb_start = (s0, None)"
      "comb_inv AllSettledKeyed n (concat (own_calls ps)) True s0" "cb_keys s0 = turn_keys ps"
    by (auto simp: comb_start_def n_def)
  define s where "s = run_callbacks AllSettledKeyed later s0"
  have inv: "comb_inv AllSettledKeyed n cs True s" and ks: "cb_keys s = turn_keys ps"
    unfolding s_def cs_def using calls_inv [OF s0(2)] assms(2) s0(3) by (simp_all add: n_def)
  have f: "filled AllSettledKeyed cs = map (\<lambda>(i, c). (i, case c of Ful v \<Rightarrow> Fulfilled v | Rej r \<Rightarrow> RejectedWith r)) cs"
    "direct_calls AllSettledKeyed cs = []"
    by (induction cs) (auto simp: filled_def direct_calls_def map_filter_simps split: callback.split)
  have m: "map_of (map (\<lambda>(i, c). (i, case c of Ful v \<Rightarrow> Fulfilled v | Rej r \<Rightarrow> RejectedWith r)) cs) i
      = map_option (\<lambda>c. case c of Ful v \<Rightarrow> Fulfilled v | Rej r \<Rightarrow> RejectedWith r) (map_of cs i)" for i :: nat and cs :: "'a calls"
    by (induction cs) auto
  have dom: "fst ` set (filled AllSettledKeyed cs) = fst ` set cs" by (force simp: f)
  have all: "fst ` set cs = {..<n} \<longleftrightarrow> (\<forall>i < n. i \<in> fst ` set cs)"
    using inv unfolding comb_inv_def dom by auto
  have sl: "slots AllSettledKeyed n cs = map (\<lambda>i. case the (map_of cs i) of Ful v \<Rightarrow> Fulfilled v | Rej r \<Rightarrow> RejectedWith r) [0..<n]"
    if "\<forall>i < n. i \<in> fst ` set cs"
  proof -
    have "map_of cs i \<noteq> None" if "i < n" for i using that \<open>\<forall>i < n. i \<in> fst ` set cs\<close> by (simp add: map_of_eq_None_iff)
    then show ?thesis by (auto simp: slots_def f m split: option.splits callback.splits)
  qed
  have "cb_calls s = (if \<forall>i < n. i \<in> fst ` set cs then settle_calls AllSettledKeyed (turn_keys ps) (slots AllSettledKeyed n cs) else [])"
  proof -
    have "if fst ` set (filled AllSettledKeyed cs) = {..<n}
        then \<exists>xs ys. direct_calls AllSettledKeyed cs = xs @ ys \<and> cb_calls s = xs @ settle_calls AllSettledKeyed (cb_keys s) (cb_values s) @ ys
        else cb_calls s = direct_calls AllSettledKeyed cs" "cb_values s = slots AllSettledKeyed n cs"
      using inv unfolding comb_inv_def simp_thms by blast+
    then show ?thesis unfolding dom all f(2) ks by (auto split: if_splits)
  qed
  then show ?thesis
    unfolding Let_def cs_def [symmetric] n_def [symmetric] keyed_combinator_def option.case s0(1) prod.case s_def [symmetric]
    using sl by (simp add: s_def settle_calls_def split: if_splits)
qed

section \<open>Instances\<close>

lemma combinators_outcome_witness:
  "cb_calls (run_callbacks All [(1, Ful 20), (0, Ful 10), (0, Ful 11), (1, Rej 5)]
     (combinator All True (Items (turns [[], []]) Exhausted))) =
   [ResolveArray [Value 10, Value (20 :: nat)], RejectReason (Reason 5)]"
  using combinators_outcome [of "[[], []]" "[(1, Ful 20), (0, Ful 10), (0, Ful 11), (1, Rej (5 :: nat))]" All]
  by (simp add: combinator_def getIterator_def comb_start_def new_slot_def element_call_def fill_slot_def once_do_def
      count_down_def on_all_settled_def cap_call_def setSlot_def Let_def)

lemma combinator_closes_witness:
  "cb_returns (combinator All True (Items [Then [] None, Then [] (Some (7 :: nat)), ResolveThrows 8] Exhausted)) = 1"
  using combinator_closes [of All "[Then [] None, Then [] (Some 7), ResolveThrows (8 :: nat)]" Exhausted] by (simp add: Let_def)

lemma keyed_in_order_witness:
  "cb_calls (run_callbacks AllSettledKeyed [(1, Rej 20), (0, Ful 10)]
     (keyed_combinator AllSettledKeyed True (Some (properties [([97], Some []), ([98], None), ([99], Some [])])))) =
   [ResolveObject [([97], Fulfilled 10), ([99], RejectedWith (20 :: nat))]]"
  using keyed_in_order [of "[([97], Some []), ([98], None), ([99], Some [])]" "[(1, Rej 20), (0, Ful (10 :: nat))]"]
  by (simp add: own_calls_def turn_keys_def map_filter_simps Let_def numeral_2_eq_2 All_less_Suc)

end
