(* ===== verification/Builtins.thy ===== *)
theory Builtins
  imports Binary
begin

text \<open>
  Small functions of the language that \<open>builtins_stubs.js\<close> defines: \<open>escape\<close> and \<open>unescape\<close>, and \<open>BigInt.asIntN\<close> and
  \<open>asUintN\<close>. The argument of \<open>escape\<close> and \<open>unescape\<close> is a string already; that of the other two is any value that is
  not a function, where an object is what its three conversion methods do. What \<open>Number\<close> and \<open>BigInt\<close> make of a string is an argument.
\<close>

section \<open>\<open>escape\<close> and \<open>unescape\<close>\<close>

definition HEX :: jsstr where "HEX = js ''0123456789ABCDEF''"

definition SAFE :: jsstr where
  "SAFE = js ''ABCDEFGHIJKLMNOPQRSTUVWXYZabcdefghijklmnopqrstuvwxyz0123456789@*_+-./''"

definition hex_at :: "nat \<Rightarrow> nat \<Rightarrow> nat" where
  "hex_at code shift = HEX ! (drop_bit shift code AND 15)"

definition escape_unit :: "nat \<Rightarrow> jsstr" where
  "escape_unit code =
     (if 256 \<le> code then [37, 117, hex_at code 12, hex_at code 8, hex_at code 4, hex_at code 0]
      else if code \<in> set SAFE then [code]
      else [37, hex_at code 4, hex_at code 0])"

definition escape :: "jsstr \<Rightarrow> jsstr" where
  "escape input = concat (map escape_unit input)"

definition hexValue :: "nat \<Rightarrow> int" where
  "hexValue c =
     (if 48 \<le> c \<and> c \<le> 57 then int c - 48 else if 65 \<le> c \<and> c \<le> 70 then int c - 55
      else if 97 \<le> c \<and> c \<le> 102 then int c - 87 else -1)"

text \<open>What is decoded at the front of the rest: the code and the units behind the first that it takes, or none.\<close>

definition decode_u :: "jsstr \<Rightarrow> (nat \<times> nat) option" where
  "decode_u s =
     (if 1 < length s \<and> s ! 0 = 37 \<and> s ! 1 = 117 \<and> 5 < length s then
        (let h0 = hexValue (s ! 2); h1 = hexValue (s ! 3); h2 = hexValue (s ! 4); h3 = hexValue (s ! 5)
         in if 0 \<le> h0 \<and> 0 \<le> h1 \<and> 0 \<le> h2 \<and> 0 \<le> h3
            then Some (push_bit 12 (nat h0) OR push_bit 8 (nat h1) OR push_bit 4 (nat h2) OR nat h3, 5) else None)
      else None)"

definition decode_x :: "jsstr \<Rightarrow> (nat \<times> nat) option" where
  "decode_x s =
     (if 2 < length s \<and> s ! 0 = 37 then
        (let h0 = hexValue (s ! 1); h1 = hexValue (s ! 2)
         in if 0 \<le> h0 \<and> 0 \<le> h1 then Some (push_bit 4 (nat h0) OR nat h1, 2) else None)
      else None)"

fun unescape :: "jsstr \<Rightarrow> jsstr" where
  "unescape [] = []"
| "unescape (c # s) =
     (case (case decode_u (c # s) of Some d \<Rightarrow> Some d | None \<Rightarrow> decode_x (c # s)) of
        Some (code, consumed) \<Rightarrow> code # unescape (drop consumed s)
      | None \<Rightarrow> c # unescape s)"

declare unescape.simps [simp del]

lemma hex_value_at: "n < 16 \<Longrightarrow> hexValue (HEX ! n) = int n \<and> HEX ! n \<noteq> 117 \<and> HEX ! n \<noteq> 37"
proof -
  assume n: "n < 16"
  have "list_all (\<lambda>n. hexValue (HEX ! n) = int n \<and> HEX ! n \<noteq> 117 \<and> HEX ! n \<noteq> 37) [0..<16]" by code_simp
  then show ?thesis using n unfolding list_all_iff by simp
qed

lemma nibble: "drop_bit k n AND 15 = (n div 2 ^ k) mod 16" for n :: nat
proof -
  have "x AND 15 = take_bit 4 x" for x :: nat using take_bit_eq_mask [of 4 x] by (simp add: mask_eq_exp_minus_1)
  then show ?thesis by (simp add: drop_bit_eq_div take_bit_eq_mod)
qed

lemma or_add: "y < 2 ^ k \<Longrightarrow> push_bit k x OR y = x * 2 ^ k + y" for x y :: nat
proof -
  assume y: "y < 2 ^ k"
  have "n < k" if "bit y n" for n using that y by (metis bit_take_bit_iff take_bit_nat_eq_self)
  then have "push_bit k x AND y = 0" by (intro bit_eqI) (auto simp: bit_simps not_le)
  then show ?thesis using disjunctive_add_eq_or [of "push_bit k x" y] by (simp add: push_bit_eq_mult)
qed

lemma hex_at_div: "hex_at code k = HEX ! (code div 2 ^ k mod 16)"
  unfolding hex_at_def nibble ..

lemma hex_at_digit:
  "hexValue (hex_at code k) = int (code div 2 ^ k mod 16)" "hex_at code k \<noteq> 117" "hex_at code k \<noteq> 37"
  using hex_value_at [of "code div 2 ^ k mod 16"] by (simp_all add: hex_at_div)

lemma four_nibbles:
  fixes c :: nat
  assumes "c < 65536"
  shows "push_bit 12 (c div 2 ^ 12 mod 16) OR push_bit 8 (c div 2 ^ 8 mod 16) OR push_bit 4 (c div 2 ^ 4 mod 16) OR c div 2 ^ 0 mod 16 = c"
proof -
  let ?a = "c div 2 ^ 12 mod 16" let ?b = "c div 2 ^ 8 mod 16" let ?d = "c div 2 ^ 4 mod 16" let ?e = "c div 2 ^ 0 mod 16"
  have 1: "push_bit 4 ?d OR ?e = ?d * 16 + ?e" using or_add [of ?e 4 ?d] by simp
  have 2: "push_bit 8 ?b OR (?d * 16 + ?e) = ?b * 256 + (?d * 16 + ?e)" using or_add [of "?d * 16 + ?e" 8 ?b] by simp
  have 3: "push_bit 12 ?a OR (?b * 256 + (?d * 16 + ?e)) = ?a * 4096 + (?b * 256 + (?d * 16 + ?e))"
    using or_add [of "?b * 256 + (?d * 16 + ?e)" 12 ?a] by simp
  have joined: "c3 * 4096 + (r2 * 256 + (r1 * 16 + r0)) = c"
    if "c1 * 16 + r0 = c" "c2 * 16 + r1 = c1" "c3 * 16 + r2 = c2" for c1 c2 c3 r0 r1 r2
    using that by simp
  have up: "c div 2 ^ 8 = c div 2 ^ 4 div 16" "c div 2 ^ 12 = c div 2 ^ 8 div 16" by (simp_all flip: div_mult2_eq)
  have "?a = c div 2 ^ 12" using assms by simp
  then have "?a * 4096 + (?b * 256 + (?d * 16 + ?e)) = c"
    by (intro joined [of "c div 2 ^ 4" _ "c div 2 ^ 8"]) (simp_all only: up div_mult_mod_eq, simp)
  then show ?thesis unfolding 1 2 3 .
qed

lemma two_nibbles: "c < 256 \<Longrightarrow> push_bit 4 (c div 2 ^ 4 mod 16) OR c div 2 ^ 0 mod 16 = c" for c :: nat
  using or_add [of "c mod 16" 4 "c div 2 ^ 4 mod 16"] by simp

lemma safe_plain: "code \<in> set SAFE \<Longrightarrow> code \<noteq> 37"
  by (auto simp: SAFE_def)

lemma decode_u_hex:
  assumes "hexValue a = int x" "hexValue b = int y" "hexValue c = int z" "hexValue d = int w"
  shows "decode_u (37 # 117 # a # b # c # d # s) = Some (push_bit 12 x OR push_bit 8 y OR push_bit 4 z OR w, 5)"
  using assms by (simp add: decode_u_def nth_Cons')

lemma decode_x_hex:
  assumes "hexValue a = int x" "hexValue b = int y"
  shows "decode_x (37 # a # b # s) = Some (push_bit 4 x OR y, 2)"
  using assms by (simp add: decode_x_def nth_Cons')

lemma unescape_unit:
  assumes "c < 65536" shows "unescape (escape_unit c @ s) = c # unescape s"
proof -
  consider "256 \<le> c" | "c < 256" "c \<in> set SAFE" | "c < 256" "c \<notin> set SAFE" by linarith
  then show ?thesis
  proof cases
    case 1
    have "decode_u (escape_unit c @ s) = Some (c, 5)"
      using 1 four_nibbles [OF assms] by (simp add: escape_unit_def decode_u_hex hex_at_digit(1))
    then show ?thesis using 1 by (simp add: escape_unit_def unescape.simps)
  next
    case 2
    then have "decode_u (c # s) = None" "decode_x (c # s) = None" using safe_plain by (auto simp: decode_u_def decode_x_def)
    then show ?thesis using 2 by (simp add: escape_unit_def unescape.simps)
  next
    case 3
    have "decode_u (escape_unit c @ s) = None" using 3 hex_at_digit(2) by (simp add: escape_unit_def decode_u_def)
    moreover have "decode_x (escape_unit c @ s) = Some (c, 2)"
      using 3 two_nibbles [of c] by (simp add: escape_unit_def decode_x_hex hex_at_digit(1))
    ultimately show ?thesis using 3 by (simp add: escape_unit_def unescape.simps)
  qed
qed

text \<open>Every string is unescaped to itself after it was escaped, and an escaped string is ASCII.\<close>

theorem unescape_escape:
  assumes "is_jsstr s" shows "unescape (escape s) = s \<and> (\<forall>c \<in> set (escape s). c < 128)"
proof -
  have "unescape (escape s @ t) = s @ unescape t" for t
    using assms
  proof (induction s)
    case (Cons c s)
    then show ?case using unescape_unit [of c "escape s @ t"] by (simp add: escape_def is_jsstr_def)
  qed (simp add: escape_def)
  from this [of "[]"] have "unescape (escape s) = s" by (simp add: unescape.simps)
  moreover have "c < 128" if "c \<in> set (escape_unit u)" for c u
  proof -
    have "list_all (\<lambda>n. HEX ! n < 128) [0..<16]" "list_all (\<lambda>c. c < 128) SAFE" by code_simp+
    then have "\<And>n. HEX ! (n mod 16) < 128" "x \<in> set SAFE \<Longrightarrow> x < 128" for x unfolding list_all_iff by auto
    moreover have "HEX ! (u div 16) < 128" if "u < 256" using calculation(1) [of "u div 16"] that by simp
    ultimately show ?thesis using that by (auto simp: escape_unit_def hex_at_div split: if_splits)
  qed
  ultimately show ?thesis by (auto simp: escape_def)
qed

lemma unescape_escape_witness: "unescape (escape [37, 0x20ac, 97]) = [37, 0x20ac, 97]"
  using unescape_escape [of "[37, 0x20ac, 97]"] by (simp add: is_jsstr_def)

section \<open>\<open>BigInt.asIntN\<close> and \<open>asUintN\<close>\<close>

datatype prim = PBigInt int | PNumber jsnum | PSymbol | PBool bool | PNull | PUndefined | PString jsstr

text \<open>The methods of an object are \<open>Symbol.toPrimitive\<close>, \<open>valueOf\<close> and \<open>toString\<close>.\<close>

datatype js_value = Prim prim | Obj js_method js_method js_method
  and js_method = Missing | NotCallable | Gives "js_error + js_value"

definition prim_or_throw :: "js_value \<Rightarrow> prim result" where
  "prim_or_throw v = (case v of Prim p \<Rightarrow> Inr p | _ \<Rightarrow> Inl (TypeError ''Cannot convert object to primitive value''))"

definition toPrimitive :: "js_value \<Rightarrow> prim result" where
  "toPrimitive v =
     (case v of
        Prim p \<Rightarrow> Inr p
      | Obj exotic valueOf toString \<Rightarrow>
          (case exotic of
             NotCallable \<Rightarrow> Inl (TypeError ''Cannot convert object to primitive value'')
           | Gives r \<Rightarrow> bind_result r prim_or_throw
           | Missing \<Rightarrow>
               bind_result (case valueOf of Gives r \<Rightarrow> r | _ \<Rightarrow> Inr v) (\<lambda>vo.
                 case vo of
                   Prim p \<Rightarrow> Inr p
                 | Obj _ _ _ \<Rightarrow> (case toString of Gives r \<Rightarrow> bind_result r prim_or_throw | _ \<Rightarrow> prim_or_throw v))))"

text \<open>\<open>_bitsToBigIntPow2\<close>: the loop that doubles, with its limit.\<close>

fun double_loop :: "nat \<Rightarrow> int \<Rightarrow> int" where
  "double_loop 0 p = p"
| "double_loop (Suc bits) p = double_loop bits (p + p)"

definition bitsToBigIntPow2 :: "nat \<Rightarrow> int result" where
  "bitsToBigIntPow2 bits =
     (if 1048576 < bits then Inl (RangeError ''BigInt.asIntN/asUintN bits too large'') else Inr (double_loop bits 1))"

text \<open>\<open>_toIndexBits\<close>.\<close>

fun index_of_prim :: "(jsstr \<Rightarrow> jsnum) \<Rightarrow> prim \<Rightarrow> nat result" where
  "index_of_prim number PSymbol = Inl (TypeError ''Cannot convert a Symbol value to a number'')"
| "index_of_prim number (PBigInt _) = Inl (TypeError ''Cannot convert a BigInt value to a number'')"
| "index_of_prim number p =
     (let n = (case p of PNumber n \<Rightarrow> n | PBool b \<Rightarrow> Fin (if b then 1 else 0) | PString s \<Rightarrow> number s | PNull \<Rightarrow> Fin 0 | _ \<Rightarrow> NaN)
      in case n of
           NaN \<Rightarrow> Inr 0
         | Fin r \<Rightarrow>
             (let i = trunc_rat r
              in if i < 0 \<or> MAX_SAFE_INDEX < i then Inl (RangeError ''Invalid bits value'') else Inr (nat i))
         | _ \<Rightarrow> Inl (RangeError ''Invalid bits value''))"

definition toIndexBits :: "(jsstr \<Rightarrow> jsnum) \<Rightarrow> js_value \<Rightarrow> nat result" where
  "toIndexBits number v = bind_result (toPrimitive v) (index_of_prim number)"

text \<open>\<open>_toBigIntStrictBits\<close>.\<close>

fun bigint_of_prim :: "(jsstr \<Rightarrow> int result) \<Rightarrow> prim \<Rightarrow> int result" where
  "bigint_of_prim bigint (PBigInt i) = Inr i"
| "bigint_of_prim bigint (PNumber _) = Inl (TypeError ''Cannot convert a Number value to a BigInt'')"
| "bigint_of_prim bigint PSymbol = Inl (TypeError ''Cannot convert a Symbol value to a BigInt'')"
| "bigint_of_prim bigint (PBool b) = Inr (if b then 1 else 0)"
| "bigint_of_prim bigint (PString s) = bigint s"
| "bigint_of_prim bigint _ = Inl (TypeError ''Cannot convert null or undefined to a BigInt'')"

definition toBigIntStrictBits :: "(jsstr \<Rightarrow> int result) \<Rightarrow> js_value \<Rightarrow> int result" where
  "toBigIntStrictBits bigint v = bind_result (toPrimitive v) (bigint_of_prim bigint)"

definition asUintN :: "(jsstr \<Rightarrow> jsnum) \<Rightarrow> (jsstr \<Rightarrow> int result) \<Rightarrow> js_value \<Rightarrow> js_value \<Rightarrow> int result" where
  "asUintN number bigint bits0 big =
     bind_result (toIndexBits number bits0) (\<lambda>bits. bind_result (toBigIntStrictBits bigint big) (\<lambda>n.
       if bits = 0 then Inr 0
       else bind_result (bitsToBigIntPow2 bits) (\<lambda>m.
         let v = trunc_rem n m in Inr (if v < 0 then v + m else v))))"

definition asIntN :: "(jsstr \<Rightarrow> jsnum) \<Rightarrow> (jsstr \<Rightarrow> int result) \<Rightarrow> js_value \<Rightarrow> js_value \<Rightarrow> int result" where
  "asIntN number bigint bits0 big =
     bind_result (toIndexBits number bits0) (\<lambda>bits. bind_result (toBigIntStrictBits bigint big) (\<lambda>n.
       if bits = 0 then Inr 0
       else bind_result (bitsToBigIntPow2 bits) (\<lambda>m.
         let v0 = trunc_rem n m; v = (if v0 < 0 then v0 + m else v0)
         in bind_result (bitsToBigIntPow2 (bits - 1)) (\<lambda>sign. Inr (if sign \<le> v then v - m else v)))))"

lemma double_loop_pow: "double_loop bits p = p * 2 ^ bits"
  by (induction bits arbitrary: p) auto

lemma wrapped_rem:
  assumes "0 < m" shows "(if trunc_rem n m < 0 then trunc_rem n m + m else trunc_rem n m) = n mod m"
proof (cases "n < 0")
  case True
  then have t: "trunc_rem n m = - (- n mod m)" using assms by (simp add: trunc_rem_def)
  show ?thesis
  proof (cases "- n mod m = 0")
    case True
    then show ?thesis using t by (metis mod_minus_eq add.inverse_neutral mod_0 verit_minus_simplify(4) minus_minus less_irrefl)
  next
    case False
    then have "- n mod m > 0" using assms pos_mod_sign [of m "- n"] by linarith
    moreover have "n mod m = m - (- n mod m)" using False zmod_zminus1_eq_if [of "- n" m] by simp
    ultimately show ?thesis using t by simp
  qed
next
  case False
  then show ?thesis using assms by (cases "n = 0") (auto simp: trunc_rem_def not_less)
qed

text \<open>They are the truncation of integers to a number of bits, unsigned and in two's complement.\<close>

theorem asN_is_take_bit:
  assumes "toIndexBits number b = Inr bits" "toBigIntStrictBits bigint v = Inr n" "0 < bits" "bits \<le> 1048576"
  shows "asUintN number bigint b v = Inr (take_bit bits n) \<and> asIntN number bigint b v = Inr (signed_take_bit (bits - 1) n)"
proof -
  have p: "bitsToBigIntPow2 bits = Inr (2 ^ bits)" "bitsToBigIntPow2 (bits - 1) = Inr (2 ^ (bits - 1))"
    using assms by (simp_all add: bitsToBigIntPow2_def double_loop_pow)
  note w = wrapped_rem [of "2 ^ bits" n, simplified]
  have two: "(2 :: int) ^ bits = 2 * 2 ^ (bits - 1)" using assms(3) by (simp flip: power_Suc)
  have "signed_take_bit (bits - 1) n = (if 2 ^ (bits - 1) \<le> n mod 2 ^ bits then n mod 2 ^ bits - 2 ^ bits else n mod 2 ^ bits)"
  proof -
    define H where "H = (2 :: int) ^ (bits - 1)"
    define m where "m = n mod (2 * H)"
    have H: "0 < H" "0 \<le> m" "m < 2 * H" by (simp_all add: H_def m_def)
    have "(n + H) mod (2 * H) = (m + H) mod (2 * H)" by (simp add: m_def mod_add_left_eq)
    also have "\<dots> = (if H \<le> m then m + H - 2 * H else m + H)"
    proof (cases "H \<le> m")
      case True
      then have "(m + H) mod (2 * H) = (m + H - 2 * H) mod (2 * H)" using minus_mod_self2 [of "m + H" "2 * H"] by (rule_tac sym)
      also have "\<dots> = m + H - 2 * H" using True H by (intro mod_pos_pos_trivial) auto
      finally show ?thesis using True by simp
    qed (use H in \<open>auto intro: mod_pos_pos_trivial\<close>)
    finally have e: "(n + H) mod (2 * H) - H = (if H \<le> m then m - 2 * H else m)" by simp
    have "Suc (bits - 1) = bits" using assms(3) by simp
    then have "signed_take_bit (bits - 1) n = (n + H) mod (2 * H) - H"
      unfolding signed_take_bit_eq_take_bit_shift by (simp add: take_bit_eq_mod H_def two)
    then show ?thesis using e unfolding two H_def [symmetric] m_def [symmetric] by simp
  qed
  then show ?thesis
    using assms p w by (simp add: asUintN_def asIntN_def bind_result_def Let_def take_bit_eq_mod)
qed

lemma asN_is_take_bit_witness:
  "asIntN number bigint (Prim (PNumber (Fin 8))) (Obj Missing (Gives (Inr (Prim (PBigInt 200)))) NotCallable) = Inr (-56)"
proof -
  have "toIndexBits number (Prim (PNumber (Fin 8))) = Inr 8"
    by (simp add: toIndexBits_def toPrimitive_def bind_result_def trunc_rat_def MAX_SAFE_INDEX_def)
  moreover have "toBigIntStrictBits bigint (Obj Missing (Gives (Inr (Prim (PBigInt 200)))) NotCallable) = Inr 200"
    by (simp add: toBigIntStrictBits_def toPrimitive_def bind_result_def)
  ultimately have "asIntN number bigint (Prim (PNumber (Fin 8))) (Obj Missing (Gives (Inr (Prim (PBigInt 200)))) NotCallable)
    = Inr (signed_take_bit 7 200)" using asN_is_take_bit [of number _ 8 bigint _ 200] by simp
  also have "signed_take_bit 7 (200 :: int) = -56" by code_simp
  finally show ?thesis .
qed

end
