(* ===== verification/IterHelpers.thy ===== *)
theory IterHelpers
  imports Binary
begin

text \<open>
  The iterator helpers of \<open>builtins_stubs.js\<close>: \<open>map\<close>, \<open>filter\<close>, \<open>take\<close>, \<open>drop\<close> and \<open>flatMap\<close>, which give lazy
  iterators, and \<open>reduce\<close>, \<open>toArray\<close>, \<open>forEach\<close>, \<open>find\<close>, \<open>some\<close> and \<open>every\<close>, which read one. An iterator is its two
  operations on a state: \<open>next\<close> answers and moves on, or does not return (\<open>None\<close>); \<open>return\<close> closes it, and may
  throw. A helper is again such a pair, so that helpers stand on helpers. A callback is a function of the value and
  the index; one that calls the helper it works for is not modelled.
\<close>

section \<open>Iterators\<close>

datatype 'v jv = Undefined | Val 'v

datatype 'v exn = Thrown "'v jv" | TypeEx string | RangeEx string

text \<open>The result of \<open>next\<close>; the results of \<open>zip\<close> are rows of values.\<close>

datatype ('r, 'v) answer_of = Yield 'r | Finished | Throws "'v exn" | NoObject

type_synonym 'v answer = "('v jv, 'v) answer_of"
type_synonym ('s, 'r, 'v) nxt_of = "'s \<Rightarrow> (('r, 'v) answer_of \<times> 's) option"
type_synonym ('s, 'v) nxt = "('s, 'v jv, 'v) nxt_of"
type_synonym ('s, 'v) ret = "'s \<Rightarrow> ('v exn option \<times> 's) option"

text \<open>\<open>_iteratorNextStep\<close>.\<close>

definition iteratorNextStep :: "('s, 'r, 'v) nxt_of \<Rightarrow> ('s, 'r, 'v) nxt_of" where
  "iteratorNextStep nxt s =
     (case nxt s of
        None \<Rightarrow> None
      | Some (NoObject, s') \<Rightarrow> Some (Throws (TypeEx ''Iterator result must be an object''), s')
      | Some (a, s') \<Rightarrow> Some (a, s'))"

text \<open>
  \<open>_iteratorClose\<close> with an error: what it throws, or nothing, for \<open>undefined\<close> is not told from no error. Without
  an error it throws what \<open>return\<close> threw, as \<open>ret\<close> itself does.
\<close>

definition closeIterator :: "('s, 'v) ret \<Rightarrow> 'v exn \<Rightarrow> ('s, 'v) ret" where
  "closeIterator ret err s =
     (case ret s of
        None \<Rightarrow> None
      | Some (closeErr, s') \<Rightarrow> Some (if err = Thrown Undefined then closeErr else Some err, s'))"

text \<open>\<open>_closeWithoutNext\<close>: what \<open>return\<close> throws is dropped.\<close>

definition closeWithoutNext :: "('s, 'v) ret \<Rightarrow> 's \<Rightarrow> 's option" where
  "closeWithoutNext ret s = map_option snd (ret s)"

text \<open>\<open>_iteratorHelperPreamble\<close>, on an object.\<close>

definition iteratorHelperPreamble :: "('s, 'v) ret \<Rightarrow> bool \<Rightarrow> string \<Rightarrow> 's \<Rightarrow> ('v exn option \<times> 's) option" where
  "iteratorHelperPreamble ret callable fnName s =
     (if callable then Some (None, s)
      else map_option (Pair (Some (TypeEx (fnName @ '' must be a function'')))) (closeWithoutNext ret s))"

text \<open>\<open>_validateLimit\<close>, with what \<open>Number(limit)\<close> throws or gives; \<open>None\<close> is infinity.\<close>

definition validateLimit :: "('s, 'v) ret \<Rightarrow> 'v exn + jsnum \<Rightarrow> 's \<Rightarrow> (('v exn + nat option) \<times> 's) option" where
  "validateLimit ret num s =
     (let checked = (case num of
            Inl e \<Rightarrow> Inl e
          | Inr NaN \<Rightarrow> Inl (RangeEx ''limit must not be NaN'')
          | Inr PosInf \<Rightarrow> Inr None
          | Inr NegInf \<Rightarrow> Inl (RangeEx ''limit must be non-negative'')
          | Inr (Fin r) \<Rightarrow> if trunc_rat r < 0 then Inl (RangeEx ''limit must be non-negative'') else Inr (Some (nat (trunc_rat r))))
      in case checked of
           Inr n \<Rightarrow> Some (Inr n, s)
         | Inl e \<Rightarrow> map_option (Pair (Inl e)) (closeWithoutNext ret s))"

section \<open>Helper objects\<close>

record ('s, 'l) helper =
  hp_done :: bool
  hp_src :: 's
  hp_local :: 'l

definition makeIteratorHelper :: "'l \<Rightarrow> 's \<Rightarrow> ('s, 'l) helper" where
  "makeIteratorHelper l s = \<lparr>hp_done = False, hp_src = s, hp_local = l\<rparr>"

definition helper_next :: "(('s, 'l) helper, 'r, 'v) nxt_of \<Rightarrow> (('s, 'l) helper, 'r, 'v) nxt_of" where
  "helper_next step h =
     (if hp_done h then Some (Finished, h)
      else case step h of
             None \<Rightarrow> None
           | Some (a, h') \<Rightarrow> Some (a, case a of Finished \<Rightarrow> h'\<lparr>hp_done := True\<rparr> | _ \<Rightarrow> h'))"

definition helper_return :: "(('s, 'l) helper, 'v) ret \<Rightarrow> (('s, 'l) helper, 'v) ret" where
  "helper_return close h = (if hp_done h then Some (None, h) else close (h\<lparr>hp_done := True\<rparr>))"

text \<open>The source of a helper: its next step, its end, and its end after an error of the callback.\<close>

definition src_step :: "('s, 'v) nxt \<Rightarrow> (('s, 'l) helper, 'v) nxt" where
  "src_step nxt h = map_option (apsnd (\<lambda>s. h\<lparr>hp_src := s\<rparr>)) (iteratorNextStep nxt (hp_src h))"

definition src_return :: "('s, 'v) ret \<Rightarrow> (('s, 'l) helper, 'v) ret" where
  "src_return ret h = map_option (apsnd (\<lambda>s. h\<lparr>hp_src := s\<rparr>)) (ret (hp_src h))"

definition src_close :: "('s, 'v) ret \<Rightarrow> 'v exn \<Rightarrow> (('s, 'l) helper, 'v) ret" where
  "src_close ret err h = map_option (apsnd (\<lambda>s. h\<lparr>hp_src := s\<rparr>)) (closeIterator ret err (hp_src h))"

definition map_step :: "('s, 'v) nxt \<Rightarrow> ('s, 'v) ret \<Rightarrow> ('v jv \<Rightarrow> nat \<Rightarrow> 'v exn + 'v jv) \<Rightarrow> (('s, nat) helper, 'v) nxt" where
  "map_step nxt ret mapper h =
     (case src_step nxt h of
        Some (Yield v, h1) \<Rightarrow>
          (let h2 = h1\<lparr>hp_local := hp_local h1 + 1\<rparr>
           in case mapper v (hp_local h1) of
                Inr mapped \<Rightarrow> Some (Yield mapped, h2)
              | Inl err \<Rightarrow>
                  (case src_close ret err h2 of
                     None \<Rightarrow> None
                   | Some (Some e, h3) \<Rightarrow> Some (Throws e, h3)
                   | Some (None, h3) \<Rightarrow> Some (Yield Undefined, h3)))
      | other \<Rightarrow> other)"

partial_function (option) filter_step ::
  "('s, 'v) nxt \<Rightarrow> ('s, 'v) ret \<Rightarrow> ('v jv \<Rightarrow> nat \<Rightarrow> 'v exn + bool) \<Rightarrow> ('s, nat) helper \<Rightarrow> ('v answer \<times> ('s, nat) helper) option" where
  "filter_step nxt ret predicate h =
     (case src_step nxt h of
        Some (Yield v, h1) \<Rightarrow>
          (let h2 = h1\<lparr>hp_local := hp_local h1 + 1\<rparr>
           in case predicate v (hp_local h1) of
                Inr keep \<Rightarrow> if keep then Some (Yield v, h2) else filter_step nxt ret predicate h2
              | Inl err \<Rightarrow>
                  (case src_close ret err h2 of
                     None \<Rightarrow> None
                   | Some (Some e, h3) \<Rightarrow> Some (Throws e, h3)
                   | Some (None, h3) \<Rightarrow> filter_step nxt ret predicate h3))
      | other \<Rightarrow> other)"

definition take_step :: "('s, 'v) nxt \<Rightarrow> ('s, 'v) ret \<Rightarrow> (('s, nat option) helper, 'v) nxt" where
  "take_step nxt ret h =
     (if hp_local h = Some 0 then
        (case src_return ret (h\<lparr>hp_done := True\<rparr>) of
           None \<Rightarrow> None
         | Some (None, h1) \<Rightarrow> Some (Finished, h1)
         | Some (Some e, h1) \<Rightarrow> Some (Throws e, h1))
      else src_step nxt (h\<lparr>hp_local := map_option (\<lambda>remaining. remaining - 1) (hp_local h)\<rparr>))"

partial_function (option) drop_step :: "('s, 'v) nxt \<Rightarrow> ('s, nat option) helper \<Rightarrow> ('v answer \<times> ('s, nat option) helper) option" where
  "drop_step nxt h =
     (if hp_local h = Some 0 then src_step nxt h
      else case src_step nxt (h\<lparr>hp_local := map_option (\<lambda>skip. skip - 1) (hp_local h)\<rparr>) of
             Some (Yield v, h1) \<Rightarrow> drop_step nxt h1
           | other \<Rightarrow> other)"

text \<open>
  \<open>flatMap\<close>: the local state is the index and the open inner iterator. \<open>mapper\<close> is the callback with
  \<open>_getIteratorFlattenable\<close> behind it, both inside the \<open>try\<close>.
\<close>

partial_function (option) flatMap_step ::
  "('s, 'v) nxt \<Rightarrow> ('s, 'v) ret \<Rightarrow> ('i, 'v) nxt \<Rightarrow> ('v jv \<Rightarrow> nat \<Rightarrow> 'v exn + 'i) \<Rightarrow> ('s, nat \<times> 'i option) helper
     \<Rightarrow> ('v answer \<times> ('s, nat \<times> 'i option) helper) option" where
  "flatMap_step nxt ret inxt mapper h =
     (case snd (hp_local h) of
        Some inner \<Rightarrow>
          (case iteratorNextStep inxt inner of
             Some (Finished, _) \<Rightarrow> flatMap_step nxt ret inxt mapper (h\<lparr>hp_local := (fst (hp_local h), None)\<rparr>)
           | Some (a, inner') \<Rightarrow> Some (a, h\<lparr>hp_local := (fst (hp_local h), Some inner')\<rparr>)
           | None \<Rightarrow> None)
      | None \<Rightarrow>
          (case src_step nxt h of
             Some (Yield v, h1) \<Rightarrow>
               (let idx = fst (hp_local h1)
                in case mapper v idx of
                     Inr inner \<Rightarrow> flatMap_step nxt ret inxt mapper (h1\<lparr>hp_local := (idx + 1, Some inner)\<rparr>)
                   | Inl err \<Rightarrow>
                       (case src_close ret err (h1\<lparr>hp_local := (idx + 1, None)\<rparr>) of
                          None \<Rightarrow> None
                        | Some (Some e, h2) \<Rightarrow> Some (Throws e, h2)
                        | Some (None, h2) \<Rightarrow> flatMap_step nxt ret inxt mapper h2))
           | other \<Rightarrow> other))"

definition flatMap_return :: "('s, 'v) ret \<Rightarrow> ('i, 'v) ret \<Rightarrow> (('s, nat \<times> 'i option) helper, 'v) ret" where
  "flatMap_return ret iret h =
     (case snd (hp_local h) of
        None \<Rightarrow> src_return ret h
      | Some inner \<Rightarrow>
          (case iret inner of
             None \<Rightarrow> None
           | Some (thrown, inner') \<Rightarrow>
               (let h1 = h\<lparr>hp_local := (fst (hp_local h), Some inner')\<rparr>
                in if thrown = None then src_return ret h1 else Some (thrown, h1))))"

section \<open>Readers\<close>

partial_function (option) toArray :: "('s, 'r, 'v) nxt_of \<Rightarrow> 'r list \<Rightarrow> 's \<Rightarrow> (('v exn + 'r list) \<times> 's) option" where
  "toArray nxt arr s =
     (case iteratorNextStep nxt s of
        None \<Rightarrow> None
      | Some (Yield v, s1) \<Rightarrow> toArray nxt (arr @ [v]) s1
      | Some (Throws e, s1) \<Rightarrow> Some (Inl e, s1)
      | Some (_, s1) \<Rightarrow> Some (Inr arr, s1))"

text \<open>\<open>reduce\<close>: the steps too are inside the \<open>try\<close>; after an error that is lost the function goes on behind the loop.\<close>

definition reduced :: "'v jv option \<Rightarrow> 'v exn + 'v jv" where
  "reduced acc = (case acc of None \<Rightarrow> Inl (TypeEx ''Reduce of empty iterator with no initial value'') | Some a \<Rightarrow> Inr a)"

definition reduce_failed :: "('s, 'v) ret \<Rightarrow> 'v jv option \<Rightarrow> 'v exn \<Rightarrow> 's \<Rightarrow> (('v exn + 'v jv) \<times> 's) option" where
  "reduce_failed ret acc err s =
     (case closeIterator ret err s of
        None \<Rightarrow> None
      | Some (Some e, s1) \<Rightarrow> Some (Inl e, s1)
      | Some (None, s1) \<Rightarrow> Some (reduced acc, s1))"

partial_function (option) reduce_loop ::
  "('s, 'v) nxt \<Rightarrow> ('s, 'v) ret \<Rightarrow> ('v jv \<Rightarrow> 'v jv \<Rightarrow> nat \<Rightarrow> 'v exn + 'v jv) \<Rightarrow> 'v jv option \<Rightarrow> nat \<Rightarrow> 's
     \<Rightarrow> (('v exn + 'v jv) \<times> 's) option" where
  "reduce_loop nxt ret reducer acc idx s =
     (case iteratorNextStep nxt s of
        None \<Rightarrow> None
      | Some (Yield v, s1) \<Rightarrow>
          (case acc of
             None \<Rightarrow> reduce_loop nxt ret reducer (Some v) idx s1
           | Some a \<Rightarrow>
               (case reducer a v idx of
                  Inr a' \<Rightarrow> reduce_loop nxt ret reducer (Some a') (idx + 1) s1
                | Inl err \<Rightarrow> reduce_failed ret acc err s1))
      | Some (Throws err, s1) \<Rightarrow> reduce_failed ret acc err s1
      | Some (_, s1) \<Rightarrow> Some (reduced acc, s1))"

definition reduce :: "('s, 'v) nxt \<Rightarrow> ('s, 'v) ret \<Rightarrow> ('v jv \<Rightarrow> 'v jv \<Rightarrow> nat \<Rightarrow> 'v exn + 'v jv) option \<Rightarrow> 'v jv option \<Rightarrow> 's
     \<Rightarrow> (('v exn + 'v jv) \<times> 's) option" where
  "reduce nxt ret reducer initial s =
     (case reducer of
        None \<Rightarrow> map_option (Pair (Inl (TypeEx ''Reducer must be a function''))) (closeWithoutNext ret s)
      | Some r \<Rightarrow> reduce_loop nxt ret r initial (if initial = None then 1 else 0) s)"

partial_function (option) forEach_loop ::
  "('s, 'v) nxt \<Rightarrow> ('s, 'v) ret \<Rightarrow> ('v jv \<Rightarrow> nat \<Rightarrow> 'v exn option) \<Rightarrow> nat \<Rightarrow> 's \<Rightarrow> ('v exn option \<times> 's) option" where
  "forEach_loop nxt ret fn idx s =
     (case iteratorNextStep nxt s of
        None \<Rightarrow> None
      | Some (Yield v, s1) \<Rightarrow>
          (case fn v idx of
             None \<Rightarrow> forEach_loop nxt ret fn (idx + 1) s1
           | Some err \<Rightarrow>
               (case closeIterator ret err s1 of
                  None \<Rightarrow> None
                | Some (Some e, s2) \<Rightarrow> Some (Some e, s2)
                | Some (None, s2) \<Rightarrow> forEach_loop nxt ret fn (idx + 1) s2))
      | Some (Throws e, s1) \<Rightarrow> Some (Some e, s1)
      | Some (_, s1) \<Rightarrow> Some (None, s1))"

text \<open>
  \<open>find\<close>, \<open>some\<close> and \<open>every\<close> have one loop: it stops at the first value whose test is \<open>stop\<close>, closes the iterator and
  returns what \<open>found\<close> makes of the value, and \<open>otherwise\<close> at the end. A test whose error is lost counts as false.
\<close>

partial_function (option) iter_search ::
  "('s, 'v) nxt \<Rightarrow> ('s, 'v) ret \<Rightarrow> bool \<Rightarrow> ('v jv \<Rightarrow> 'r) \<Rightarrow> 'r \<Rightarrow> ('v jv \<Rightarrow> nat \<Rightarrow> 'v exn + bool) \<Rightarrow> nat \<Rightarrow> 's
     \<Rightarrow> (('v exn + 'r) \<times> 's) option" where
  "iter_search nxt ret stop found otherwise predicate idx s =
     (case iteratorNextStep nxt s of
        None \<Rightarrow> None
      | Some (Yield v, s1) \<Rightarrow>
          (case (case predicate v idx of
                   Inr m \<Rightarrow> Some (Inr m, s1)
                 | Inl err \<Rightarrow> map_option (apfst (\<lambda>c. case c of Some e \<Rightarrow> Inl e | None \<Rightarrow> Inr False)) (closeIterator ret err s1)) of
             None \<Rightarrow> None
           | Some (Inl e, s2) \<Rightarrow> Some (Inl e, s2)
           | Some (Inr matched, s2) \<Rightarrow>
               if matched = stop then map_option (apfst (\<lambda>c. case c of Some e \<Rightarrow> Inl e | None \<Rightarrow> Inr (found v))) (ret s2)
               else iter_search nxt ret stop found otherwise predicate (idx + 1) s2)
      | Some (Throws e, s1) \<Rightarrow> Some (Inl e, s1)
      | Some (_, s1) \<Rightarrow> Some (Inr otherwise, s1))"

definition find_value where "find_value nxt ret = iter_search nxt ret True id Undefined"
definition some_value where "some_value nxt ret = iter_search nxt ret True (\<lambda>_. True) False"
definition every_value where "every_value nxt ret = iter_search nxt ret False (\<lambda>_. False) True"

section \<open>Iterators and lists\<close>

text \<open>
  Specification: \<open>listing nxt s xs\<close> says that the iterator in state \<open>s\<close> gives \<open>xs\<close> and is done then; \<open>gives nxt s xs s'\<close>
  that it gives \<open>xs\<close> and is in \<open>s'\<close> then, whatever follows.
\<close>

inductive listing :: "('s, 'r, 'v) nxt_of \<Rightarrow> 's \<Rightarrow> 'r list \<Rightarrow> bool" for nxt where
  listing_done: "nxt s = Some (Finished, s') \<Longrightarrow> listing nxt s []"
| listing_value: "nxt s = Some (Yield v, s') \<Longrightarrow> listing nxt s' xs \<Longrightarrow> listing nxt s (v # xs)"

inductive gives :: "('s, 'r, 'v) nxt_of \<Rightarrow> 's \<Rightarrow> 'r list \<Rightarrow> 's \<Rightarrow> bool" for nxt where
  gives_none: "gives nxt s [] s"
| gives_value: "nxt s = Some (Yield v, s') \<Longrightarrow> gives nxt s' xs s'' \<Longrightarrow> gives nxt s (v # xs) s''"

inductive_cases listing_NilE: "listing nxt s []"
inductive_cases listing_ConsE: "listing nxt s (v # xs)"
inductive_cases gives_ConsE: "gives nxt s (v # xs) s'"

fun mapi :: "('a \<Rightarrow> nat \<Rightarrow> 'b) \<Rightarrow> nat \<Rightarrow> 'a list \<Rightarrow> 'b list" where
  "mapi f i [] = []"
| "mapi f i (x # xs) = f x i # mapi f (i + 1) xs"

fun filteri :: "('a \<Rightarrow> nat \<Rightarrow> bool) \<Rightarrow> nat \<Rightarrow> 'a list \<Rightarrow> 'a list" where
  "filteri p i [] = []"
| "filteri p i (x # xs) = (if p x i then x # filteri p (i + 1) xs else filteri p (i + 1) xs)"

lemma listing_from: "nxt s = nxt s' \<Longrightarrow> listing nxt s' xs \<Longrightarrow> listing nxt s xs"
  by (metis listing.simps)

lemma gives_lists: "gives nxt s xs s' \<Longrightarrow> listing nxt s' ys \<Longrightarrow> listing nxt s (xs @ ys)"
  by (induction rule: gives.induct) (auto intro: listing.intros)

lemma next_step_answers [simp]:
  "nxt s = Some (Yield v, s') \<Longrightarrow> iteratorNextStep nxt s = Some (Yield v, s')"
  "nxt s = Some (Finished, s') \<Longrightarrow> iteratorNextStep nxt s = Some (Finished, s')"
  by (simp_all add: iteratorNextStep_def)

lemma src_step_answers [simp]:
  "nxt (hp_src h) = Some (Yield v, s') \<Longrightarrow> src_step nxt h = Some (Yield v, h\<lparr>hp_src := s'\<rparr>)"
  "nxt (hp_src h) = Some (Finished, s') \<Longrightarrow> src_step nxt h = Some (Finished, h\<lparr>hp_src := s'\<rparr>)"
  by (simp_all add: src_step_def)

lemma helper_next_answers:
  "\<not> hp_done h \<Longrightarrow> step h = Some (Yield v, h') \<Longrightarrow> helper_next step h = Some (Yield v, h')"
  "\<not> hp_done h \<Longrightarrow> step h = Some (Finished, h') \<Longrightarrow> helper_next step h = Some (Finished, h'\<lparr>hp_done := True\<rparr>)"
  by (simp_all add: helper_next_def)

lemma helper_next_same: "\<not> hp_done h \<Longrightarrow> \<not> hp_done h' \<Longrightarrow> step h = step h' \<Longrightarrow> helper_next step h = helper_next step h'"
  by (simp add: helper_next_def)

lemma map_lists:
  assumes "listing nxt s xs" "\<not> hp_done h" "hp_src h = s" "hp_local h = i"
  shows "listing (helper_next (map_step nxt ret (\<lambda>v i. Inr (f v i)))) h (mapi f i xs)"
  using assms
proof (induction arbitrary: h i rule: listing.induct)
  case (listing_done s s')
  then have "map_step nxt ret (\<lambda>v i. Inr (f v i)) h = Some (Finished, h\<lparr>hp_src := s'\<rparr>)" by (simp add: map_step_def)
  then show ?case using listing_done by (auto intro: listing.listing_done helper_next_answers)
next
  case (listing_value s v s' xs)
  then have "map_step nxt ret (\<lambda>v i. Inr (f v i)) h = Some (Yield (f v i), h\<lparr>hp_src := s', hp_local := i + 1\<rparr>)"
    by (simp add: map_step_def)
  then have "helper_next (map_step nxt ret (\<lambda>v i. Inr (f v i))) h = Some (Yield (f v i), h\<lparr>hp_src := s', hp_local := i + 1\<rparr>)"
    using listing_value.prems by (simp add: helper_next_answers)
  then show ?case using listing_value by (auto intro!: listing.listing_value)
qed

lemma filter_lists:
  assumes "listing nxt s xs" "\<not> hp_done h" "hp_src h = s" "hp_local h = i"
  shows "listing (helper_next (filter_step nxt ret (\<lambda>v i. Inr (p v i)))) h (filteri p i xs)"
  using assms
proof (induction arbitrary: h i rule: listing.induct)
  case (listing_done s s')
  then have "filter_step nxt ret (\<lambda>v i. Inr (p v i)) h = Some (Finished, h\<lparr>hp_src := s'\<rparr>)" by (simp add: filter_step.simps)
  then show ?case using listing_done by (auto intro: listing.listing_done helper_next_answers)
next
  case (listing_value s v s' xs)
  let ?step = "filter_step nxt ret (\<lambda>v i. Inr (p v i))" let ?h = "h\<lparr>hp_src := s', hp_local := i + 1\<rparr>"
  have one: "?step h = (if p v i then Some (Yield v, ?h) else ?step ?h)"
    using listing_value by (subst filter_step.simps) simp
  have IH: "listing (helper_next ?step) ?h (filteri p (i + 1) xs)" using listing_value by simp
  show ?case
  proof (cases "p v i")
    case True
    then have "helper_next ?step h = Some (Yield v, ?h)" using one listing_value.prems by (simp add: helper_next_answers)
    then show ?thesis using True IH by (auto intro: listing.listing_value)
  next
    case False
    then have "helper_next ?step h = helper_next ?step ?h" using one listing_value.prems by (intro helper_next_same) simp_all
    then show ?thesis using listing_from [OF _ IH] False by simp
  qed
qed

lemma take_gives:
  assumes "gives nxt s xs s'" "ret s' = Some (None, s'')" "\<not> hp_done h" "hp_src h = s" "hp_local h = Some (length xs)"
  shows "listing (helper_next (take_step nxt ret)) h xs"
  using assms
proof (induction arbitrary: h rule: gives.induct)
  case (gives_none s)
  then show ?case by (auto simp: take_step_def src_return_def helper_next_def intro!: listing.listing_done)
next
  case (gives_value s v s1 xs s')
  let ?h = "h\<lparr>hp_local := Some (length xs), hp_src := s1\<rparr>"
  have "helper_next (take_step nxt ret) h = Some (Yield v, ?h)"
    using gives_value by (simp add: take_step_def helper_next_def)
  moreover have "listing (helper_next (take_step nxt ret)) ?h xs" using gives_value by simp
  ultimately show ?case by (rule listing.listing_value)
qed

lemma take_all_lists:
  assumes "listing nxt s xs" "\<not> hp_done h" "hp_src h = s" "hp_local h = None \<or> (\<exists>n. hp_local h = Some n \<and> length xs < n)"
  shows "listing (helper_next (take_step nxt ret)) h xs"
  using assms
proof (induction arbitrary: h rule: listing.induct)
  case (listing_done s s')
  then have "take_step nxt ret h = Some (Finished, h\<lparr>hp_local := map_option (\<lambda>r. r - 1) (hp_local h), hp_src := s'\<rparr>)"
    by (auto simp: take_step_def)
  then show ?case using listing_done by (auto intro: listing.listing_done helper_next_answers)
next
  case (listing_value s v s' xs)
  let ?h = "h\<lparr>hp_local := map_option (\<lambda>r. r - 1) (hp_local h), hp_src := s'\<rparr>"
  have "helper_next (take_step nxt ret) h = Some (Yield v, ?h)"
    using listing_value by (auto simp: take_step_def helper_next_def)
  moreover have "listing (helper_next (take_step nxt ret)) ?h xs" using listing_value by auto
  ultimately show ?case by (rule listing.listing_value)
qed

lemma drop_lists:
  assumes "listing nxt s xs" "\<not> hp_done h" "hp_src h = s" "hp_local h = Some n"
  shows "listing (helper_next (drop_step nxt)) h (drop n xs)"
  using assms
proof (induction arbitrary: h n rule: listing.induct)
  case (listing_done s s')
  then have "\<exists>h'. drop_step nxt h = Some (Finished, h') \<and> hp_src h' = s'" by (subst drop_step.simps) auto
  then show ?case using listing_done by (auto intro: listing.listing_done helper_next_answers)
next
  case (listing_value s v s' xs)
  show ?case
  proof (cases n)
    case 0
    let ?h = "h\<lparr>hp_src := s'\<rparr>"
    have "helper_next (drop_step nxt) h = Some (Yield v, ?h)"
      using listing_value 0 by (simp add: drop_step.simps helper_next_def)
    moreover have "listing (helper_next (drop_step nxt)) ?h xs" using listing_value.IH [of ?h 0] listing_value.prems 0 by simp
    ultimately show ?thesis using 0 by (auto intro: listing.listing_value)
  next
    case (Suc m)
    let ?h = "h\<lparr>hp_local := Some m, hp_src := s'\<rparr>"
    have "drop_step nxt h = drop_step nxt ?h" using listing_value Suc by (subst drop_step.simps) simp
    then have "helper_next (drop_step nxt) h = helper_next (drop_step nxt) ?h"
      using listing_value.prems by (intro helper_next_same) simp_all
    moreover have IH: "listing (helper_next (drop_step nxt)) ?h (drop m xs)"
      using listing_value.IH [of ?h m] listing_value.prems by simp
    ultimately show ?thesis using listing_from [OF _ IH] Suc by simp
  qed
qed

lemma flatMap_inner:
  assumes "listing inxt inner ys" "\<not> hp_done h" "hp_local h = (i, Some inner)"
    and "listing (helper_next (flatMap_step nxt ret inxt f)) (h\<lparr>hp_local := (i, None)\<rparr>) zs"
  shows "listing (helper_next (flatMap_step nxt ret inxt f)) h (ys @ zs)"
  using assms
proof (induction arbitrary: h rule: listing.induct)
  case (listing_done s s')
  let ?step = "flatMap_step nxt ret inxt f"
  have "?step h = ?step (h\<lparr>hp_local := (i, None)\<rparr>)" using listing_done by (subst flatMap_step.simps) simp
  then have "helper_next ?step h = helper_next ?step (h\<lparr>hp_local := (i, None)\<rparr>)"
    using listing_done.prems by (intro helper_next_same) simp_all
  then show ?case using listing_from [OF _ listing_done.prems(3)] by simp
next
  case (listing_value s v s' ys)
  let ?step = "flatMap_step nxt ret inxt f" let ?h = "h\<lparr>hp_local := (i, Some s')\<rparr>"
  have "helper_next ?step h = Some (Yield v, ?h)"
    using listing_value by (simp add: flatMap_step.simps helper_next_def)
  moreover have "listing (helper_next ?step) ?h (ys @ zs)" using listing_value by simp
  ultimately show ?case by (auto intro: listing.listing_value)
qed

lemma flatMap_lists:
  assumes "listing nxt s xs" "\<And>v i. listing inxt (inner v i) (g v i)"
    and "\<not> hp_done h" "hp_src h = s" "hp_local h = (i, None)"
  shows "listing (helper_next (flatMap_step nxt ret inxt (\<lambda>v i. Inr (inner v i)))) h (concat (mapi g i xs))"
  using assms(1,3-)
proof (induction arbitrary: h i rule: listing.induct)
  case (listing_done s s')
  let ?step = "flatMap_step nxt ret inxt (\<lambda>v i. Inr (inner v i))"
  have "?step h = Some (Finished, h\<lparr>hp_src := s'\<rparr>)" using listing_done by (simp add: flatMap_step.simps)
  then show ?case using listing_done by (auto intro: listing.listing_done helper_next_answers)
next
  case (listing_value s v s' xs)
  let ?step = "flatMap_step nxt ret inxt (\<lambda>v i. Inr (inner v i))"
  let ?h = "h\<lparr>hp_src := s', hp_local := (i + 1, Some (inner v i))\<rparr>"
  have "?step h = ?step ?h" using listing_value by (subst flatMap_step.simps) (simp add: Let_def)
  then have same: "helper_next ?step h = helper_next ?step ?h"
    using listing_value.prems by (intro helper_next_same) simp_all
  have "listing (helper_next ?step) (?h\<lparr>hp_local := (i + 1, None)\<rparr>) (concat (mapi g (i + 1) xs))"
    using listing_value.prems by (intro listing_value.IH) simp_all
  then have "listing (helper_next ?step) ?h (g v i @ concat (mapi g (i + 1) xs))"
    using listing_value.prems by (intro flatMap_inner [OF assms(2)]) simp_all
  then show ?case using listing_from [of _ _ _, OF same] by simp
qed

lemma toArray_lists: "listing nxt s xs \<Longrightarrow> \<exists>s'. toArray nxt arr s = Some (Inr (arr @ xs), s')"
proof (induction arbitrary: arr rule: listing.induct)
  case (listing_value s v s' xs)
  then show ?case using listing_value.IH [of "arr @ [v]"] by (subst toArray.simps) simp
qed (subst toArray.simps, simp)

text \<open>Specification of \<open>reduce\<close>.\<close>

fun foldi :: "('v jv \<Rightarrow> 'v jv \<Rightarrow> nat \<Rightarrow> 'v jv) \<Rightarrow> 'v jv option \<Rightarrow> nat \<Rightarrow> 'v jv list \<Rightarrow> 'v jv option" where
  "foldi f acc i [] = acc"
| "foldi f None i (x # xs) = foldi f (Some x) i xs"
| "foldi f (Some a) i (x # xs) = foldi f (Some (f a x i)) (i + 1) xs"

lemma reduce_lists:
  "listing nxt s xs \<Longrightarrow> \<exists>s'. reduce_loop nxt ret (\<lambda>a v i. Inr (f a v i)) acc i s = Some (reduced (foldi f acc i xs), s')"
proof (induction arbitrary: acc i rule: listing.induct)
  case (listing_value s v s' xs)
  then show ?case
    using listing_value.IH [of "Some v" i] listing_value.IH [of "Some (f (the acc) v i)" "i + 1"]
    by (subst reduce_loop.simps) (cases acc; simp)
qed (subst reduce_loop.simps, simp)

text \<open>The searches stop at the first value with the wanted test, or at the end.\<close>

fun matches :: "bool \<Rightarrow> ('v jv \<Rightarrow> nat \<Rightarrow> bool) \<Rightarrow> nat \<Rightarrow> 'v jv list \<Rightarrow> 'v jv option" where
  "matches stop p i [] = None"
| "matches stop p i (x # xs) = (if p x i = stop then Some x else matches stop p (i + 1) xs)"

lemma search_lists:
  assumes "listing nxt s xs" "matches stop p i xs = None"
  shows "\<exists>s'. iter_search nxt ret stop found otherwise (\<lambda>v i. Inr (p v i)) i s = Some (Inr otherwise, s')"
  using assms
proof (induction arbitrary: i rule: listing.induct)
  case (listing_value s v s' xs)
  then show ?case using listing_value.IH [of "i + 1"] by (subst iter_search.simps) (simp split: if_splits)
qed (subst iter_search.simps, simp)

lemma search_stops:
  assumes "gives nxt s xs s1" "matches stop p i xs = None" "nxt s1 = Some (Yield v, s2)" "p v (i + length xs) = stop"
    and "ret s2 = Some (thrown, s3)"
  shows "iter_search nxt ret stop found otherwise (\<lambda>v i. Inr (p v i)) i s
    = Some (case thrown of Some e \<Rightarrow> Inl e | None \<Rightarrow> Inr (found v), s3)"
  using assms
proof (induction arbitrary: i rule: gives.induct)
  case (gives_none s)
  then show ?case by (subst iter_search.simps) simp
next
  case (gives_value s w s' xs s'')
  then show ?case using gives_value.IH [of "i + 1"] by (subst iter_search.simps) (simp split: if_splits)
qed

text \<open>
  The contract of a helper without errors: on an iterator that lists \<open>xs\<close> the new iterator lists \<open>F xs\<close>. Then every
  reader of the helper sees \<open>F xs\<close>, and helpers compose.
\<close>

locale stage =
  fixes nxt :: "('s, 'v) nxt" and hnxt :: "('h, 'v) nxt" and new :: "'s \<Rightarrow> 'h" and F :: "'v jv list \<Rightarrow> 'v jv list"
  assumes stage_listing: "listing nxt s xs \<Longrightarrow> listing hnxt (new s) (F xs)"
begin

lemma stage_toArray: "listing nxt s xs \<Longrightarrow> \<exists>h. toArray hnxt [] (new s) = Some (Inr (F xs), h)"
  using toArray_lists [OF stage_listing, of s xs "[]"] by simp

lemma stage_reduce:
  "listing nxt s xs \<Longrightarrow> \<exists>h. reduce_loop hnxt ret (\<lambda>a v i. Inr (f a v i)) acc i (new s) = Some (reduced (foldi f acc i (F xs)), h)"
  by (rule reduce_lists [OF stage_listing])

end

interpretation map_stage: stage nxt "helper_next (map_step nxt ret (\<lambda>v i. Inr (f v i)))" "makeIteratorHelper 0" "mapi f 0"
  for nxt ret f
  by unfold_locales (simp add: map_lists makeIteratorHelper_def)

interpretation filter_stage: stage nxt "helper_next (filter_step nxt ret (\<lambda>v i. Inr (p v i)))" "makeIteratorHelper 0" "filteri p 0"
  for nxt ret p
  by unfold_locales (simp add: filter_lists makeIteratorHelper_def)

interpretation drop_stage: stage nxt "helper_next (drop_step nxt)" "makeIteratorHelper (Some n)" "drop n"
  for nxt n
  by unfold_locales (simp add: drop_lists makeIteratorHelper_def)

interpretation take_stage: stage nxt "helper_next (take_step nxt ret)" "makeIteratorHelper None" id
  for nxt ret
  by unfold_locales (simp add: take_all_lists makeIteratorHelper_def)

text \<open>C25: A pipeline of helpers is the composition of the list functions: dropping, filtering, mapping and flattening
an iterator and reading it into an array or reducing it gives what the functions on lists give.\<close>

theorem helpers_as_lists:
  assumes "listing nxt s xs" "\<And>v i. listing inxt (inner v i) (g v i)"
  shows "let n1 = helper_next (drop_step nxt);
             n2 = helper_next (filter_step n1 ra (\<lambda>v i. Inr (p v i)));
             n3 = helper_next (map_step n2 rb (\<lambda>v i. Inr (f v i)));
             n4 = helper_next (flatMap_step n3 rc inxt (\<lambda>v i. Inr (inner v i)));
             made = makeIteratorHelper (0, None) (makeIteratorHelper 0 (makeIteratorHelper 0 (makeIteratorHelper (Some d) s)));
             ys = concat (mapi g 0 (mapi f 0 (filteri p 0 (drop d xs))))
         in (\<exists>h. toArray n4 [] made = Some (Inr ys, h))
            \<and> (\<exists>h. reduce_loop n4 rd (\<lambda>a v i. Inr (k a v i)) acc 0 made = Some (reduced (foldi k acc 0 ys), h))"
proof -
  let ?n1 = "helper_next (drop_step nxt)"
  let ?n2 = "helper_next (filter_step ?n1 ra (\<lambda>v i. Inr (p v i)))"
  let ?n3 = "helper_next (map_step ?n2 rb (\<lambda>v i. Inr (f v i)))"
  have "listing ?n3 (makeIteratorHelper 0 (makeIteratorHelper 0 (makeIteratorHelper (Some d) s))) (mapi f 0 (filteri p 0 (drop d xs)))"
    by (intro map_stage.stage_listing filter_stage.stage_listing drop_stage.stage_listing assms(1))
  from flatMap_lists [OF this assms(2)] show ?thesis
    unfolding Let_def by (intro conjI reduce_lists toArray_lists [where arr = "[]", simplified]) (simp_all add: makeIteratorHelper_def)
qed

text \<open>\<open>take\<close> reads as many values as it gives and closes the iterator then, which may be without end.\<close>

theorem take_is_lazy:
  assumes "gives nxt s xs s'" "ret s' = Some (None, s'')"
  shows "\<exists>h. toArray (helper_next (take_step nxt ret)) [] (makeIteratorHelper (Some (length xs)) s) = Some (Inr xs, h)
    \<and> hp_done h \<and> hp_src h = s''"
proof -
  have "\<exists>h'. toArray (helper_next (take_step nxt ret)) arr h = Some (Inr (arr @ xs), h') \<and> hp_done h' \<and> hp_src h' = s''"
    if "\<not> hp_done h" "hp_src h = s" "hp_local h = Some (length xs)" for arr h
    using assms that
  proof (induction arbitrary: arr h rule: gives.induct)
    case (gives_none s)
    then show ?case
      by (subst toArray.simps) (auto simp: take_step_def src_return_def helper_next_def iteratorNextStep_def)
  next
    case (gives_value s v s1 xs s')
    let ?h = "h\<lparr>hp_local := Some (length xs), hp_src := s1\<rparr>"
    have "helper_next (take_step nxt ret) h = Some (Yield v, ?h)"
      using gives_value by (simp add: take_step_def helper_next_def)
    then show ?case using gives_value.IH [of ?h "arr @ [v]"] gives_value.prems by (subst toArray.simps) simp
  qed
  from this [of "makeIteratorHelper (Some (length xs)) s" "[]"] show ?thesis by (simp add: makeIteratorHelper_def)
qed

section \<open>Closing the source\<close>

text \<open>
  Specification: an iterator that records its calls, those of \<open>next\<close> with what they answered (a value, the end, or
  something wrong), and a client that uses a helper.
\<close>

datatype call = CValue | CEnd | CWrong | CReturn

definition call_of :: "'v answer \<Rightarrow> call" where
  "call_of a = (case a of Yield _ \<Rightarrow> CValue | Finished \<Rightarrow> CEnd | _ \<Rightarrow> CWrong)"

definition logged_nxt :: "('s, 'v) nxt \<Rightarrow> ('s \<times> call list, 'v) nxt" where
  "logged_nxt nxt s = map_option (\<lambda>(a, s'). (a, s', snd s @ [call_of a])) (nxt (fst s))"

definition logged_ret :: "('s, 'v) ret \<Rightarrow> ('s \<times> call list, 'v) ret" where
  "logged_ret ret s = map_option (apsnd (\<lambda>s'. (s', snd s @ [CReturn]))) (ret (fst s))"

datatype use_of = UseNext | UseReturn

definition returned_answer :: "'v exn option \<Rightarrow> 'v answer" where
  "returned_answer thrown = (case thrown of None \<Rightarrow> Finished | Some e \<Rightarrow> Throws e)"

fun run_uses :: "('h, 'v) nxt \<Rightarrow> ('h, 'v) ret \<Rightarrow> use_of list \<Rightarrow> 'h \<Rightarrow> ('v answer list \<times> 'h) option" where
  "run_uses nxt ret [] h = Some ([], h)"
| "run_uses nxt ret (u # us) h =
     (case (case u of UseNext \<Rightarrow> nxt h | UseReturn \<Rightarrow> map_option (apfst returned_answer) (ret h)) of
        None \<Rightarrow> None
      | Some (a, h') \<Rightarrow> map_option (apfst (Cons a)) (run_uses nxt ret us h'))"

definition no_throw :: "'v answer \<Rightarrow> bool" where
  "no_throw a \<longleftrightarrow> (case a of Throws _ \<Rightarrow> False | _ \<Rightarrow> True)"

text \<open>The source has only given values; or it has ended, or was closed, and was not touched since.\<close>

definition reading :: "('s \<times> call list, 'l) helper \<Rightarrow> bool" where
  "reading h \<longleftrightarrow> set (snd (hp_src h)) \<subseteq> {CValue}"

definition ended :: "('s \<times> call list, 'l) helper \<Rightarrow> bool" where
  "ended h \<longleftrightarrow> (\<exists>cs c. set cs \<subseteq> {CValue} \<and> c \<in> {CEnd, CReturn} \<and> snd (hp_src h) = cs @ [c])"

lemma reading_update [simp]:
  "reading (h\<lparr>hp_local := l\<rparr>) = reading h" "reading (h\<lparr>hp_done := d\<rparr>) = reading h"
  "ended (h\<lparr>hp_local := l\<rparr>) = ended h" "ended (h\<lparr>hp_done := d\<rparr>) = ended h"
  by (simp_all add: reading_def ended_def)

definition polite_state :: "('s \<times> call list, 'l) helper \<Rightarrow> bool" where
  "polite_state h \<longleftrightarrow> reading h \<or> hp_done h \<and> ended h"

text \<open>What a step may do: end the source only when it answers that it is finished.\<close>

definition stepped :: "'v answer \<times> ('s \<times> call list, 'l) helper \<Rightarrow> bool" where
  "stepped r \<longleftrightarrow> reading (snd r) \<or> fst r = Finished \<and> ended (snd r)"

locale polite =
  fixes step :: "(('s \<times> call list, 'l) helper, 'v) nxt" and close :: "(('s \<times> call list, 'l) helper, 'v) ret"
  assumes step_polite: "\<not> hp_done h \<Longrightarrow> reading h \<Longrightarrow> step h = Some r \<Longrightarrow> no_throw (fst r) \<Longrightarrow> stepped r"
    and close_polite: "hp_done h \<Longrightarrow> reading h \<Longrightarrow> close h = Some (c, h') \<Longrightarrow> polite_state h'"
begin

lemma next_polite:
  assumes "polite_state h" "helper_next step h = Some (a, h')" "no_throw a" shows "polite_state h'"
proof (cases "hp_done h")
  case True
  then show ?thesis using assms by (simp add: helper_next_def)
next
  case False
  then obtain h1 where h1: "step h = Some (a, h1)" "h' = (case a of Finished \<Rightarrow> h1\<lparr>hp_done := True\<rparr> | _ \<Rightarrow> h1)"
    using assms(2) by (auto simp: helper_next_def split: option.splits)
  have "reading h" using assms(1) False by (simp add: polite_state_def)
  from step_polite [OF False this h1(1)] assms(3) show ?thesis
    unfolding h1(2) by (auto simp: polite_state_def stepped_def split: answer_of.splits)
qed

lemma return_polite:
  assumes "polite_state h" "helper_return close h = Some (c, h')" shows "polite_state h'"
proof (cases "hp_done h")
  case False
  then show ?thesis using assms close_polite [of "h\<lparr>hp_done := True\<rparr>" c h'] by (simp add: helper_return_def polite_state_def)
qed (use assms in \<open>simp add: helper_return_def\<close>)

lemma uses_polite:
  "run_uses (helper_next step) (helper_return close) us h = Some (as, h') \<Longrightarrow> list_all no_throw as \<Longrightarrow> polite_state h \<Longrightarrow> polite_state h'"
proof (induction us arbitrary: h as)
  case (Cons u us)
  from Cons.prems(1) obtain a h1 as1 where 1: "(case u of UseNext \<Rightarrow> helper_next step h | UseReturn \<Rightarrow> map_option (apfst returned_answer) (helper_return close h)) = Some (a, h1)"
    "run_uses (helper_next step) (helper_return close) us h1 = Some (as1, h')" "as = a # as1"
    by (auto split: option.splits)
  have "polite_state h1"
    using 1(1,3) Cons.prems(2,3) by (cases u) (auto intro: next_polite return_polite)
  then show ?case using Cons.IH [OF 1(2)] 1(3) Cons.prems(2) by simp
qed simp

end

lemma logged_src_step:
  assumes "src_step (logged_nxt nxt) h = Some (a, h')" "reading h" "no_throw a"
  shows "(\<exists>v. a = Yield v) \<and> reading h' \<or> a = Finished \<and> ended h'"
  using assms
  by (auto simp: src_step_def iteratorNextStep_def logged_nxt_def reading_def ended_def call_of_def no_throw_def
      split: option.splits prod.splits answer_of.splits)

lemma src_step_yields: "src_step (logged_nxt nxt) h = Some (Yield v, h') \<Longrightarrow> reading h \<Longrightarrow> reading h'"
  using logged_src_step [of nxt h "Yield v" h'] by (simp add: no_throw_def)

lemma src_step_stepped: "src_step (logged_nxt nxt) h = Some r \<Longrightarrow> reading h \<Longrightarrow> no_throw (fst r) \<Longrightarrow> stepped r"
  using logged_src_step [of nxt h "fst r" "snd r"] by (auto simp: stepped_def)

lemma logged_src_return:
  "src_return (logged_ret ret) h = Some (c, h') \<Longrightarrow> reading h \<Longrightarrow> ended h' \<and> hp_done h' = hp_done h"
  by (auto simp: src_return_def logged_ret_def reading_def ended_def)

lemma src_close_throws: "src_close ret err h = Some (c, h') \<Longrightarrow> err \<noteq> Thrown Undefined \<Longrightarrow> c = Some err"
  by (auto simp: src_close_def closeIterator_def split: option.splits prod.splits)

lemma src_close_never_lost:
  assumes "\<And>v i. f v i \<noteq> Inl (Thrown Undefined)"
  shows "\<forall>err h'. f v i = Inl err \<longrightarrow> src_close ret err h \<noteq> Some (None, h')"
  using src_close_throws assms by fastforce

lemma step_facts [simp]:
  "no_throw (Yield v)" "no_throw Finished" "\<not> no_throw (Throws e)" "reading h \<Longrightarrow> stepped (a, h)"
  by (simp_all add: no_throw_def stepped_def)

lemma return_polite_state:
  "hp_done h \<Longrightarrow> reading h \<Longrightarrow> src_return (logged_ret ret) h = Some (c, h') \<Longrightarrow> polite_state h'"
  using logged_src_return [of ret h c h'] by (auto simp: polite_state_def)

lemma map_step_logged:
  assumes "map_step (logged_nxt nxt) ret f h = Some r" "no_throw (fst r)" "reading h" "\<And>v i. f v i \<noteq> Inl (Thrown Undefined)"
  shows "stepped r"
proof -
  obtain a h1 where a: "src_step (logged_nxt nxt) h = Some (a, h1)" using assms(1) by (auto simp: map_step_def split: option.splits)
  show ?thesis
  proof (cases "\<exists>v. a = Yield v")
    case True
    then obtain v where v: "a = Yield v" by blast
    have "reading h1" using src_step_yields [OF a [unfolded v] assms(3)] .
    then show ?thesis
      using assms(1,2) a v src_close_never_lost [of f v "hp_local h1" ret "h1\<lparr>hp_local := Suc (hp_local h1)\<rparr>", OF assms(4)]
      by (cases "f v (hp_local h1)") (auto simp: map_step_def Let_def split: option.splits)
  next
    case False
    then have "r = (a, h1)" using assms(1) a by (cases a) (auto simp: map_step_def)
    then show ?thesis using src_step_stepped [OF a assms(3)] assms(2) by simp
  qed
qed

lemma filter_step_logged:
  assumes "\<And>v i. f v i \<noteq> Inl (Thrown Undefined)"
  shows "filter_step (logged_nxt nxt) ret f h = Some r \<Longrightarrow> no_throw (fst r) \<Longrightarrow> reading h \<Longrightarrow> stepped r"
proof -
  have "g = logged_nxt nxt \<longrightarrow> f' = f \<longrightarrow> no_throw (fst r) \<longrightarrow> reading h \<longrightarrow> stepped r"
    if "filter_step g ret' f' h = Some r" for g ret' f' h r
    using that
  proof (induct rule: filter_step.raw_induct [rotated 1, consumes 1])
    case (1 rec g ret' f' h r)
    show ?case
    proof (intro impI)
      assume g: "g = logged_nxt nxt" and f: "f' = f" and r: "no_throw (fst r)" and h: "reading h"
      from 1(2) obtain a h1 where a: "src_step g h = Some (a, h1)" by (auto split: option.splits)
      show "stepped r"
      proof (cases "\<exists>v. a = Yield v")
        case True
        then obtain v where v: "a = Yield v" by blast
        have h1: "reading h1" using src_step_yields [OF a [unfolded v g] h] .
        show ?thesis
          using 1 a v h1 r g f src_close_never_lost [of f v "hp_local h1" ret' "h1\<lparr>hp_local := Suc (hp_local h1)\<rparr>", OF assms]
          by (cases r; cases "f v (hp_local h1)") (auto simp: Let_def split: if_splits option.splits)
      next
        case False
        then have "r = (a, h1)" using 1(2) a by (cases a) auto
        then show ?thesis using src_step_stepped [OF a [unfolded g] h] r by simp
      qed
    qed
  qed
  then show "filter_step (logged_nxt nxt) ret f h = Some r \<Longrightarrow> no_throw (fst r) \<Longrightarrow> reading h \<Longrightarrow> stepped r" by blast
qed

lemma drop_step_logged:
  "drop_step (logged_nxt nxt) h = Some r \<Longrightarrow> no_throw (fst r) \<Longrightarrow> reading h \<Longrightarrow> stepped r"
proof -
  have "g = logged_nxt nxt \<longrightarrow> no_throw (fst r) \<longrightarrow> reading h \<longrightarrow> stepped r"
    if "drop_step g h = Some r" for g h r
    using that
  proof (induct rule: drop_step.raw_induct [rotated 1, consumes 1])
    case (1 rec g h r)
    show ?case
    proof (intro impI)
      assume g: "g = logged_nxt nxt" and r: "no_throw (fst r)" and h: "reading h"
      let ?h = "if hp_local h = Some 0 then h else h\<lparr>hp_local := map_option (\<lambda>skip. skip - 1) (hp_local h)\<rparr>"
      have h': "reading ?h" using h by simp
      obtain a h1 where a: "src_step g ?h = Some (a, h1)" using 1(2) by (cases r) (auto split: if_splits option.splits)
      show "stepped r"
      proof (cases "hp_local h = Some 0 \<or> \<not> (\<exists>v. a = Yield v)")
        case True
        then have "r = (a, h1)" using 1(2) a by (cases a) (auto split: if_splits)
        then show ?thesis using src_step_stepped [OF a [unfolded g] h'] r by simp
      next
        case False
        then obtain v where v: "a = Yield v" "hp_local h \<noteq> Some 0" by blast
        have "reading h1" using src_step_yields [OF a [unfolded g v(1)] h'] .
        then show ?thesis using 1 a v r g by auto
      qed
    qed
  qed
  then show "drop_step (logged_nxt nxt) h = Some r \<Longrightarrow> no_throw (fst r) \<Longrightarrow> reading h \<Longrightarrow> stepped r" by blast
qed

lemma flatMap_step_logged:
  assumes "\<And>v i. f v i \<noteq> Inl (Thrown Undefined)"
  shows "flatMap_step (logged_nxt nxt) ret inxt f h = Some r \<Longrightarrow> no_throw (fst r) \<Longrightarrow> reading h \<Longrightarrow> stepped r"
proof -
  have "g = logged_nxt nxt \<longrightarrow> f' = f \<longrightarrow> no_throw (fst r) \<longrightarrow> reading h \<longrightarrow> stepped r"
    if "flatMap_step g ret' inxt' f' h = Some r" for g ret' inxt' f' h r
    using that
  proof (induct rule: flatMap_step.raw_induct [rotated 1, consumes 1])
    case (1 rec g ret' inxt' f' h r)
    show ?case
    proof (intro impI)
      assume g: "g = logged_nxt nxt" and f: "f' = f" and r: "no_throw (fst r)" and h: "reading h"
      show "stepped r"
      proof (cases "snd (hp_local h)")
        case (Some inner)
        then show ?thesis using 1 g f r h by (auto split: answer_of.splits option.splits prod.splits)
      next
        case None
        then obtain a h1 where a: "src_step g h = Some (a, h1)" using 1(2) by (auto split: option.splits)
        show ?thesis
        proof (cases "\<exists>v. a = Yield v")
          case True
          then obtain v where v: "a = Yield v" by blast
          have h1: "reading h1" using src_step_yields [OF a [unfolded v g] h] .
          show ?thesis
            using 1 None a v h1 r g f src_close_never_lost [of f v "fst (hp_local h1)" ret' "h1\<lparr>hp_local := (Suc (fst (hp_local h1)), None)\<rparr>", OF assms]
            by (cases r; cases "f v (fst (hp_local h1))") (auto simp: Let_def split: option.splits)
        next
          case False
          then have "r = (a, h1)" using 1(2) a None by (cases a) auto
          then show ?thesis using src_step_stepped [OF a [unfolded g] h] r by simp
        qed
      qed
    qed
  qed
  then show "flatMap_step (logged_nxt nxt) ret inxt f h = Some r \<Longrightarrow> no_throw (fst r) \<Longrightarrow> reading h \<Longrightarrow> stepped r" by blast
qed

lemma take_step_logged:
  assumes "take_step (logged_nxt nxt) (logged_ret ret) h = Some r" "no_throw (fst r)" "reading h"
  shows "stepped r"
proof (cases "hp_local h = Some 0")
  case True
  then obtain c h' where c: "src_return (logged_ret ret) (h\<lparr>hp_done := True\<rparr>) = Some (c, h')"
    using assms(1) by (auto simp: take_step_def split: option.splits)
  then have "ended h'" using logged_src_return [OF c] assms(3) by simp
  then show ?thesis using assms(1,2) c True by (auto simp: take_step_def stepped_def no_throw_def split: option.splits)
next
  case False
  then show ?thesis using assms by (auto simp: take_step_def dest: src_step_stepped)
qed

lemma flatMap_return_logged:
  assumes "hp_done h" "reading h" "flatMap_return (logged_ret ret) iret h = Some (c, h')"
  shows "polite_state h'"
proof -
  have "polite_state h'" if "src_return (logged_ret ret) (h\<lparr>hp_local := l\<rparr>) = Some (c, h')" for l
    using return_polite_state [OF _ _ that] assms by simp
  from this [of "hp_local h"] this show ?thesis
    using assms by (auto simp: flatMap_return_def Let_def polite_state_def split: option.splits if_splits)
qed

lemma map_polite:
  assumes "\<And>v i. f v i \<noteq> Inl (Thrown Undefined)"
  shows "polite (map_step (logged_nxt nxt) (logged_ret ret) f) (src_return (logged_ret ret))"
  by unfold_locales (use map_step_logged assms return_polite_state in blast)+

lemma filter_polite:
  assumes "\<And>v i. f v i \<noteq> Inl (Thrown Undefined)"
  shows "polite (filter_step (logged_nxt nxt) (logged_ret ret) f) (src_return (logged_ret ret))"
  by unfold_locales (use filter_step_logged assms return_polite_state in blast)+

lemma flatMap_polite:
  assumes "\<And>v i. f v i \<noteq> Inl (Thrown Undefined)"
  shows "polite (flatMap_step (logged_nxt nxt) (logged_ret ret) inxt f) (flatMap_return (logged_ret ret) iret)"
  by unfold_locales (use flatMap_step_logged assms flatMap_return_logged in blast)+

interpretation take_polite: polite "take_step (logged_nxt nxt) (logged_ret ret)" "src_return (logged_ret ret)" for nxt ret
  by unfold_locales (use take_step_logged return_polite_state in blast)+

interpretation drop_polite: polite "drop_step (logged_nxt nxt)" "src_return (logged_ret ret)" for nxt ret
  by unfold_locales (use drop_step_logged return_polite_state in blast)+

text \<open>The calls of a source: values, then the end, or its close, or neither yet; and nothing more.\<close>

definition closed_once :: "call list \<Rightarrow> bool" where
  "closed_once calls \<longleftrightarrow>
     (\<exists>n \<le> length calls. calls = replicate n CValue \<or> calls = replicate n CValue @ [CEnd] \<or> calls = replicate n CValue @ [CReturn])"

lemma all_values: "set calls \<subseteq> {CValue} \<Longrightarrow> calls = replicate (length calls) CValue"
  by (metis replicate_eqI singletonD subsetD)

lemma polite_closed_once: "polite_state h \<Longrightarrow> closed_once (snd (hp_src h))"
  unfolding polite_state_def reading_def ended_def
proof (elim disjE conjE exE)
  assume "set (snd (hp_src h)) \<subseteq> {CValue}"
  from all_values [OF this] show ?thesis unfolding closed_once_def by blast
next
  fix cs c assume cs: "set cs \<subseteq> {CValue}" "c \<in> {CEnd, CReturn}" "snd (hp_src h) = cs @ [c]"
  then have "length cs \<le> length (snd (hp_src h))" "snd (hp_src h) = replicate (length cs) CValue @ [c]"
    using all_values [OF cs(1)] by simp_all
  then show ?thesis using cs(2) unfolding closed_once_def by blast
qed

lemma polite_start: "polite_state (makeIteratorHelper l (s, []))"
  by (simp add: polite_state_def reading_def makeIteratorHelper_def)

text \<open>C26: However a client uses a helper with \<open>next\<close> and \<open>return\<close>, as long as no call of the helper throws and no callback throws
\<open>undefined\<close>, the calls of its source are: some \<open>next\<close> that give values, and then at most one more, either the \<open>next\<close> that
answers the end or one \<open>return\<close>. Nothing is read behind the end, an exhausted source is not closed, and none is closed twice.\<close>

theorem source_closed_once:
  assumes "\<And>v i. f v i \<noteq> Inl (Thrown Undefined)" "\<And>v i. p v i \<noteq> Inl (Thrown Undefined)" "\<And>v i. m v i \<noteq> Inl (Thrown Undefined)"
    and "list_all no_throw as"
  shows "let n = logged_nxt nxt; r = logged_ret ret; close = helper_return (src_return r) in
      (run_uses (helper_next (map_step n r f)) close us (makeIteratorHelper 0 (s, [])) = Some (as, hm) \<longrightarrow> closed_once (snd (hp_src hm)))
    \<and> (run_uses (helper_next (filter_step n r p)) close us (makeIteratorHelper 0 (s, [])) = Some (as, hm) \<longrightarrow> closed_once (snd (hp_src hm)))
    \<and> (run_uses (helper_next (take_step n r)) (helper_return (src_return r)) us (makeIteratorHelper limit (s, [])) = Some (as, hl)
        \<longrightarrow> closed_once (snd (hp_src hl)))
    \<and> (run_uses (helper_next (drop_step n)) (helper_return (src_return r)) us (makeIteratorHelper limit (s, [])) = Some (as, hl)
        \<longrightarrow> closed_once (snd (hp_src hl)))
    \<and> (run_uses (helper_next (flatMap_step n r inxt m)) (helper_return (flatMap_return r iret)) us (makeIteratorHelper (0, None) (s, []))
          = Some (as, hf) \<longrightarrow> closed_once (snd (hp_src hf)))"
proof -
  note u = polite.uses_polite [OF map_polite [of f, OF assms(1)] _ assms(4) polite_start, THEN polite_closed_once]
    polite.uses_polite [OF filter_polite [of p, OF assms(2)] _ assms(4) polite_start, THEN polite_closed_once]
    take_polite.uses_polite [OF _ assms(4) polite_start, THEN polite_closed_once]
    drop_polite.uses_polite [OF _ assms(4) polite_start, THEN polite_closed_once]
    polite.uses_polite [OF flatMap_polite [of m, OF assms(3)] _ assms(4) polite_start, THEN polite_closed_once]
  show ?thesis
    unfolding Let_def
    apply (intro conjI impI)
        apply (erule u(1))
       apply (erule u(2))
      apply (erule u(3))
     apply (erule u(4))
    apply (erule u(5))
    done
qed

text \<open>C27: Whenever a callback, called with any index \<open>i\<close>, throws an error other than \<open>undefined\<close> (which is lost:
\<open>thrown_undefined_lost\<close>), and \<open>return\<close> of the source comes back, the source is closed, what its \<open>return\<close> throws in turn is
dropped, and the error of the callback is thrown: by \<open>next\<close> of a \<open>map\<close>, \<open>filter\<close> or \<open>flatMap\<close> helper that is not done and has no
inner iterator open, and by the loops of \<open>find\<close>, \<open>some\<close> and \<open>every\<close>, of \<open>forEach\<close> and of \<open>reduce\<close>.\<close>

theorem callback_error_closes:
  assumes "nxt s = Some (Yield v, s1)" "ret s1 = Some (thrown, s2)" "err \<noteq> Thrown Undefined"
    and "f v i = Inl err" "p v i = Inl err" "m v i = Inl err" "each v i = Some err" "k a v i = Inl err"
  shows "helper_next (map_step nxt ret f) (makeIteratorHelper i s) = Some (Throws err, makeIteratorHelper (i + 1) s2)
    \<and> helper_next (filter_step nxt ret p) (makeIteratorHelper i s) = Some (Throws err, makeIteratorHelper (i + 1) s2)
    \<and> helper_next (flatMap_step nxt ret inxt m) (makeIteratorHelper (i, None) s) = Some (Throws err, makeIteratorHelper (i + 1, None) s2)
    \<and> iter_search nxt ret stop found otherwise p i s = Some (Inl err, s2)
    \<and> forEach_loop nxt ret each i s = Some (Some err, s2)
    \<and> reduce_loop nxt ret k (Some a) i s = Some (Inl err, s2)"
proof -
  have c: "closeIterator ret err s1 = Some (Some err, s2)" using assms(2,3) by (simp add: closeIterator_def)
  have "filter_step nxt ret p (makeIteratorHelper i s) = Some (Throws err, makeIteratorHelper (i + 1) s2)"
    using assms c by (subst filter_step.simps) (simp add: makeIteratorHelper_def src_close_def)
  moreover have "flatMap_step nxt ret inxt m (makeIteratorHelper (i, None) s) = Some (Throws err, makeIteratorHelper (i + 1, None) s2)"
    using assms c by (subst flatMap_step.simps) (simp add: makeIteratorHelper_def src_close_def)
  moreover have "map_step nxt ret f (makeIteratorHelper i s) = Some (Throws err, makeIteratorHelper (i + 1) s2)"
    using assms c by (simp add: map_step_def makeIteratorHelper_def src_close_def)
  moreover have "iter_search nxt ret stop found otherwise p i s = Some (Inl err, s2)"
    using assms c by (subst iter_search.simps) simp
  moreover have "forEach_loop nxt ret each i s = Some (Some err, s2)"
    using assms c by (subst forEach_loop.simps) simp
  moreover have "reduce_loop nxt ret k (Some a) i s = Some (Inl err, s2)"
    using assms c by (subst reduce_loop.simps) (simp add: reduce_failed_def)
  ultimately show ?thesis by (simp add: helper_next_def) (simp add: makeIteratorHelper_def)
qed

text \<open>An error does not end the helper, though: the next call reads the closed source again, and closing it closes twice.\<close>

lemma error_leaves_helper_open:
  assumes "nxt s = Some (Yield v, s1)" "ret s1 = Some (thrown, s2)" "err \<noteq> Thrown Undefined" "f v 0 = Inl err"
    and "nxt s2 = Some (Yield w, s3)" "f w 1 = Inr x" "ret s3 = Some (None, s4)"
  shows "run_uses (helper_next (map_step (logged_nxt nxt) (logged_ret ret) f)) (helper_return (src_return (logged_ret ret)))
      [UseNext, UseNext, UseReturn] (makeIteratorHelper 0 (s, []))
    = Some ([Throws err, Yield x, Finished], \<lparr>hp_done = True, hp_src = (s4, [CValue, CReturn, CValue, CReturn]), hp_local = 2\<rparr>)"
  using assms
  by (simp add: makeIteratorHelper_def helper_next_def helper_return_def map_step_def src_step_def src_close_def src_return_def
      iteratorNextStep_def closeIterator_def logged_nxt_def logged_ret_def call_of_def returned_answer_def)

text \<open>And a thrown \<open>undefined\<close> is lost: the mapped value is \<open>undefined\<close>.\<close>

lemma thrown_undefined_lost:
  assumes "nxt s = Some (Yield v, s1)" "ret s1 = Some (None, s2)" "f v 0 = Inl (Thrown Undefined)"
  shows "helper_next (map_step nxt ret f) (makeIteratorHelper 0 s) = Some (Yield Undefined, makeIteratorHelper 1 s2)"
  using assms
  by (simp add: makeIteratorHelper_def helper_next_def map_step_def src_step_def src_close_def iteratorNextStep_def closeIterator_def)

text \<open>\<open>reduce\<close> closes an iterator whose own \<open>next\<close> threw.\<close>

lemma reduce_closes_broken:
  assumes "nxt s = Some (Throws e, s1)" "ret s1 = Some (thrown, s2)" "e \<noteq> Thrown Undefined"
  shows "reduce nxt ret (Some k) initial s = Some (Inl e, s2)"
proof -
  have "reduce_loop nxt ret k acc i s = Some (Inl e, s2)" for acc i
    using assms by (subst reduce_loop.simps) (simp add: reduce_failed_def iteratorNextStep_def closeIterator_def)
  then show ?thesis by (simp add: reduce_def)
qed

section \<open>Witnesses\<close>

text \<open>The iterator of an array, and the natural numbers, which do not end.\<close>

definition array_nxt :: "('v jv list, 'v) nxt" where
  "array_nxt vs = (case vs of [] \<Rightarrow> Some (Finished, []) | v # ws \<Rightarrow> Some (Yield v, ws))"

definition nats_nxt :: "(nat, nat) nxt" where
  "nats_nxt n = Some (Yield (Val n), n + 1)"

lemma array_listing: "listing array_nxt vs vs"
  by (induction vs) (auto simp: array_nxt_def intro: listing.intros)

lemma helpers_as_lists_witness:
  "\<exists>h. toArray (helper_next (flatMap_step
          (helper_next (map_step (helper_next (filter_step (helper_next (drop_step array_nxt)) (\<lambda>s. Some (None, s)) (\<lambda>v i. Inr (i \<noteq> 1)))) (\<lambda>s. Some (None, s)) (\<lambda>v i. Inr v)))
          (\<lambda>s. Some (None, s)) array_nxt (\<lambda>v i. Inr [v, v]))) []
        (makeIteratorHelper (0, None) (makeIteratorHelper 0 (makeIteratorHelper 0 (makeIteratorHelper (Some 1) [Val 1, Val 2, Val 3, Val (4 :: nat)]))))
      = Some (Inr [Val 2, Val 2, Val 4, Val 4], h)"
  using helpers_as_lists [OF array_listing [of "[Val 1, Val 2, Val 3, Val (4 :: nat)]"] array_listing, where g = "\<lambda>v i. [v, v]"
      and d = 1 and ra = "\<lambda>s. Some (None, s)" and p = "\<lambda>v i. i \<noteq> 1" and rb = "\<lambda>s. Some (None, s)" and f = "\<lambda>v i. v"
      and rc = "\<lambda>s. Some (None, s)"]
  unfolding Let_def by simp

lemma take_is_lazy_witness:
  "\<exists>h. toArray (helper_next (take_step nats_nxt (\<lambda>s. Some (None, 0)))) [] (makeIteratorHelper (Some 2) 5) = Some (Inr [Val 5, Val 6], h)
    \<and> hp_done h \<and> hp_src h = 0"
proof -
  have "gives nats_nxt 5 [Val 5, Val 6] 7" by (auto simp: nats_nxt_def intro!: gives.intros)
  from take_is_lazy [OF this, of "\<lambda>s. Some (None, 0)"] show ?thesis by (simp add: numeral_2_eq_2)
qed

lemma source_closed_once_witness:
  "\<exists>as h. run_uses (helper_next (take_step (logged_nxt nats_nxt) (logged_ret (\<lambda>s. Some (None, s))))) (helper_return (src_return (logged_ret (\<lambda>s. Some (None, s)))))
      [UseNext, UseNext, UseNext, UseReturn] (makeIteratorHelper (Some 1) (5, [])) = Some (as, h) \<and> closed_once (snd (hp_src h))"
proof -
  let ?n = "logged_nxt nats_nxt" and ?r = "logged_ret (\<lambda>s. Some (None, s)) :: (nat \<times> call list, nat) ret"
  have run: "run_uses (helper_next (take_step ?n ?r)) (helper_return (src_return ?r)) [UseNext, UseNext, UseNext, UseReturn] (makeIteratorHelper (Some 1) (5, []))
    = Some ([Yield (Val 5), Finished, Finished, Finished], \<lparr>hp_done = True, hp_src = (6, [CValue, CReturn]), hp_local = Some 0\<rparr>)"
    by (simp add: makeIteratorHelper_def helper_next_def helper_return_def take_step_def src_step_def src_return_def
      iteratorNextStep_def logged_nxt_def logged_ret_def call_of_def nats_nxt_def returned_answer_def)
  then show ?thesis
    using source_closed_once [of "\<lambda>v i. Inr v" "\<lambda>v i. Inr True" "\<lambda>v i. Inr (0 :: nat)"
        "[Yield (Val 5), Finished, Finished, Finished]" nats_nxt "\<lambda>s. Some (None, s)" _ 5 _ "Some 1"]
    unfolding Let_def by (fastforce simp: no_throw_def)
qed

lemma callback_error_closes_witness:
  "helper_next (map_step array_nxt (\<lambda>s. Some (Some (RangeEx ''''), [])) (\<lambda>v i. Inl (TypeEx ''x''))) (makeIteratorHelper 0 [Val (1 :: nat)])
    = Some (Throws (TypeEx ''x''), makeIteratorHelper 1 [])"
  using callback_error_closes [of array_nxt "[Val (1 :: nat)]" "Val 1" "[]" "\<lambda>s. Some (Some (RangeEx ''''), [])" "Some (RangeEx '''')" "[]"
      "TypeEx ''x''" "\<lambda>v i. Inl (TypeEx ''x'')" 0 "\<lambda>v i. Inl (TypeEx ''x'')" "\<lambda>v i. Inl (TypeEx ''x'') :: nat exn + nat"
      "\<lambda>v i. Some (TypeEx ''x'')" "\<lambda>a v i. Inl (TypeEx ''x'')" "Val 0", THEN conjunct1]
  by (simp add: array_nxt_def)

end
