(* ===== verification/Spec2Isabelle.thy ===== *)
theory Spec2Isabelle
  imports Validators Path StringDecoder Url Events HttpCore HttpMessage WebSocket Writable BufferNumbers
    FetchAbort Fetch Combinators Builtins IterHelpers
begin

text \<open>
  Verification of the JavaScript runtime library of the Jac engine: the Node-compatible built-in modules
  under \<open>src/jac/js_engine/engine/src/builtins/js\<close>, which are written in JavaScript on top of a native
  engine. File names below are relative to that directory.

  \<^bold>\<open>The parts and how they call each other.\<close> \<open>text_codec.js\<close> and \<open>string_decoder.js\<close> turn bytes into strings,
  whole and in pieces. \<open>punycode.js\<close> encodes host names. \<open>url.js\<close> holds the class \<open>URL\<close>, its search
  parameters and the older functions, and uses \<open>querystring.js\<close>. \<open>path.js\<close> and \<open>fs/validators.js\<close> treat file
  names and arguments of the file system. \<open>events.js\<close> is the emitter that the stream and network modules
  extend. \<open>http_core.js\<close> parses and checks HTTP/1.1 messages for \<open>http.js\<close>, whose responses write them and whose
  client reads them; it also uses \<open>URL\<close> for proxies and redirects. \<open>fetch.js\<close> has a second HTTP client, with its own
  headers, pool of connections, streams, signals and forms.

  \<^bold>\<open>Theories.\<close>
  \<^item> \<open>Prelude\<close>: strings as lists of UTF-16 code units, exceptions as \<open>Inl\<close>, string methods and numbers of the
    language, list and bit lemmas.
  \<^item> \<open>Validators\<close>: \<open>fs/validators.js\<close>, the checks of \<open>internal/validators.js\<close> and the error factories.
  \<^item> \<open>Path\<close>: \<open>path.js\<close>; normal forms, \<open>join\<close>, \<open>relative\<close> against \<open>resolve\<close>, \<open>format\<close> against \<open>parse\<close>.
  \<^item> \<open>Punycode\<close>: \<open>punycode.js\<close>; decoding after encoding, whole domain names, termination of the encoder.
  \<^item> \<open>TextCodec\<close>: \<open>TextEncoder\<close>, \<open>TextDecoder\<close>; the fatal decoder accepts exactly what the encoder gives.
  \<^item> \<open>StringDecoder\<close>: the decoder of pieces; its locale \<open>chunk_decoder\<close> says what an encoding has to give so
    that the pieces do not matter, and is interpreted for each encoding.
  \<^item> \<open>Uri\<close>: percent encoding of the language. \<open>Querystring\<close>: \<open>querystring.js\<close>. \<open>UrlParams\<close>: \<open>URLSearchParams\<close>,
    whose list satisfies the locale \<open>multimap\<close>. \<open>Url\<close>: \<open>URL\<close> and the older functions; printing and parsing,
    the link between a URL and its parameters, dot segments, file paths.
  \<^item> \<open>Events\<close>: the class \<open>EventEmitter\<close> with listeners that call the emitter again; the locale
    \<open>listener_registry\<close> is the contract of \<open>on\<close>, \<open>off\<close> and \<open>listeners\<close>.
  \<^item> \<open>HttpCore\<close>: \<open>http_core.js\<close>; heads and chunks, headers against their specification, proxies.
  \<^item> \<open>HttpMessage\<close>: from \<open>http.js\<close> the headers of outgoing messages, \<open>ServerResponse\<close>, and the client's reader;
    the locale \<open>body_protocol\<close> says what a way of sending bodies has to give so that a response is read
    however the stream is cut, and is interpreted for chunks and for a known length. The header objects inherit from \<open>Object.prototype\<close>.
  \<^item> \<open>WebSocket\<close>: \<open>websocket.js\<close> and the connections of \<open>websocket_server.js\<close>; frames in any segmentation (the
    reader that makes strings of bytes is a parameter), and the locale \<open>ready_machine\<close>, the contract of a ready state, interpreted for both ends.
  \<^item> \<open>Readable\<close>, \<open>Writable\<close>: the two state machines of \<open>stream.js\<close> with their \<open>nextTick\<close> tasks; order of chunks,
    the end after all chunks, and that the calls return.
  \<^item> \<open>Binary\<close>, \<open>ArrayBuffers\<close>, \<open>TypedArrays\<close>, \<open>TypedArrayLists\<close>, \<open>DataViews\<close>, \<open>Base64\<close>: \<open>binary_types.js\<close>. Memory is a list of
    bytes that an unchecked write past the end would make longer. The locale \<open>element_type\<close> is the contract of an
    integer type of elements, interpreted for typed arrays and for both byte orders of \<open>DataView\<close>; the methods of
    typed arrays are proved against operations on lists. \<open>made\<close>, at the end of \<open>DataViews\<close>, are the buffers of a run of
    buffers, typed arrays and views. The strict base64 decoder accepts exactly what the encoder prints.

  \<^item> \<open>BufferText\<close>, \<open>Buffers\<close>, \<open>BufferNumbers\<close>: \<open>buffer.js\<close>; its encodings, the methods of \<open>Buffer\<close> against lists of bytes,
    its integer accessors against \<open>DataView\<close>. The engine may replace loops of the module by native code; the model is
    of the loops.

  \<^item> \<open>FetchHeaders\<close>, \<open>FetchPool\<close>, \<open>FetchStream\<close>, \<open>FetchAbort\<close>, \<open>FetchHttp\<close>, \<open>FetchForms\<close>, \<open>FetchOne\<close>, \<open>Fetch\<close>: \<open>fetch.js\<close>.
    Headers and forms satisfy \<open>multimap\<close> again. A ledger says where each socket is: with the clients of the pool, and
    with one hop as a machine of its callbacks. The locale \<open>body_framing\<close> is what a way of delimiting bodies has to
    give so that what the server of \<open>HttpMessage\<close> writes is what a program reads; redirects are followed over the
    answers of the hops, of which any may never come. Signals are in a store; listeners may abort, add, remove and
    throw, and the locale \<open>respected\<close> carries a relation from their calls to a whole run.

  \<^item> \<open>Combinators\<close>, \<open>IterHelpers\<close>, \<open>Builtins\<close>: parts of the language in \<open>builtins_stubs.js\<close>. The combinators of promises
    for every order in which elements call back; lazy iterator helpers over an abstract iterator, with the locale
    \<open>stage\<close> of helpers that act on lists and the locale \<open>polite\<close> of helpers that close their source once; \<open>escape\<close> and
    \<open>unescape\<close>; the truncation of big integers.

  \<^bold>\<open>Correspondence.\<close> An object with methods is a record with the object's fields, a method a function that
  returns the new record. A method that may throw returns \<open>js_error + 'a\<close>. Objects used as dictionaries are
  partial maps or association lists. Where references are shared (the listener arrays of an emitter) there is
  an explicit store. Integers stay in the range in which the language computes exactly, so they are \<open>nat\<close> and
  \<open>int\<close>, and words of 32 and 8 bits where the code uses bit operations on bytes; the results of \<open>Number\<close> are exact rationals with \<open>NaN\<close> and the infinities.

  \<^bold>\<open>Loops.\<close> Loops over lists are structural. \<open>chunk_loop\<close>, \<open>interim_loop\<close> and \<open>process_chunked\<close> may run for ever
  on hostile input; they are \<open>partial_function (option)\<close>, and the theorems say where they return. The methods
  of an emitter and its listeners call each other, so \<open>em_exec\<close> has fuel; more fuel never changes an outcome,
  and for listeners that only observe one unit is enough. So has \<open>fire\<close> of the abort signals: a listener that adds
  itself is called for ever, and when listeners add none and the composite signals are finitely many some fuel is
  enough, since every nested abort marks a signal (\<open>aborts_end\<close>). The loops of the iterator helpers are partial functions too,
  since an iterator may have no end. The Punycode encoder is a partial function that is
  proved to return; the decoder is bounded by the length of its input.

  \<^bold>\<open>Groups of lemmas.\<close> Round trips (paths, Punycode, UTF-8, queries, parameters, URLs, heads, chunks), equivalence
  of piecewise with whole processing (decoders, the HTTP reader), invariants of stores (emitter, headers, linked
  parameters), refinement of what a client reads to what a server was told to write, termination, and bounds.
  Lemmas at the end of a theory record the behaviour that differs from the documentation of the module.

  \<^bold>\<open>Not modelled.\<close> The native engine; modules that wrap native functions (sockets, files, processes, TLS,
  compression, cryptography, WebAssembly, terminals); the HTTP server's connections, agents and proxies, HTTP/2;
  of \<open>fetch.js\<close> the native inflater and HTTP/2 session, which are arguments or events, and the blocking variants of the
  readers; \<open>inspect\<close>, deep equality and the other built-ins in \<open>builtins_stubs.js\<close>, which work through reflection;
  locale data, so \<open>toLowerCase\<close> leaves code units from 256 up alone. Floating-point elements are planned next, with pipes and transforms.
\<close>

end
